(* ===== verification/Crave_Prelude.thy ===== *)
theory Crave_Prelude
  imports Main "HOL-Library.Word"
begin

text \<open>
  Shared by every theory of the development: the error values of the model, the result type with
  its sequencing combinator, the value of a list of bits (least significant bit first, the order
  in which the code keeps its bit vectors), and the collections of rules the component proofs use.
\<close>

named_theorems result_simps "computation rules of the result combinators"
named_theorems bits_simps "values of bit lists"

section \<open>Errors as values\<close>

text \<open>
  What ends a C++ computation without a value: a thrown \<open>std::runtime_error\<close>, a failed
  \<open>assert\<close>, a \<open>boost::bad_get\<close> of a variant, or an operation whose behaviour the language does not
  define.
\<close>

datatype crave_error =
    RuntimeError string
  | AssertionFailure
  | BadGet
  | UndefinedBehaviour

type_synonym 'a result = "crave_error + 'a"

definition rbind :: "'a result \<Rightarrow> ('a \<Rightarrow> 'b result) \<Rightarrow> 'b result" where
  "rbind m f = (case m of Inl e \<Rightarrow> Inl e | Inr x \<Rightarrow> f x)"

lemma rbind_Inl [simp, result_simps]: "rbind (Inl e) f = Inl e"
  by (simp add: rbind_def)

lemma rbind_Inr [simp, result_simps]: "rbind (Inr x) f = f x"
  by (simp add: rbind_def)

lemma rbind_eq_Inr [result_simps]:
  "rbind m f = Inr y \<longleftrightarrow> (\<exists>x. m = Inr x \<and> f x = Inr y)"
  by (cases m) auto

lemma rbind_eq_Inl:
  "rbind m f = Inl e \<longleftrightarrow> m = Inl e \<or> (\<exists>x. m = Inr x \<and> f x = Inl e)"
  by (cases m) auto

lemma rbind_assoc [result_simps]: "rbind (rbind m f) g = rbind m (\<lambda>x. rbind (f x) g)"
  by (cases m) auto

lemma rbind_cong [fundef_cong]:
  "m = m' \<Longrightarrow> (\<And>x. m' = Inr x \<Longrightarrow> f x = f' x) \<Longrightarrow> rbind m f = rbind m' f'"
  by (cases m') (auto simp: rbind_def)

definition is_ok :: "'a result \<Rightarrow> bool" where
  "is_ok r = (case r of Inl _ \<Rightarrow> False | Inr _ \<Rightarrow> True)"

lemma is_ok_simps [simp]: "is_ok (Inr x)" "\<not> is_ok (Inl e)"
  by (simp_all add: is_ok_def)

lemma is_okE: "is_ok r \<Longrightarrow> (\<And>x. r = Inr x \<Longrightarrow> thesis) \<Longrightarrow> thesis"
  by (cases r) auto

section \<open>Bit lists\<close>

primrec bits_val :: "bool list \<Rightarrow> nat" where
  "bits_val [] = 0"
| "bits_val (b # bs) = of_bool b + 2 * bits_val bs"

lemma bits_val_less: "bits_val bs < 2 ^ length bs"
  by (induction bs) auto

lemma bits_val_append [bits_simps]: "bits_val (xs @ ys) = bits_val xs + 2 ^ length xs * bits_val ys"
  by (induction xs) (auto simp: algebra_simps)

lemma bits_val_replicate_False [simp]: "bits_val (replicate n False) = 0"
  by (induction n) auto

lemma Suc_bits_val_replicate_True: "Suc (bits_val (replicate n True)) = 2 ^ n"
  by (induction n) auto

primrec bits_of :: "nat \<Rightarrow> nat \<Rightarrow> bool list" where
  "bits_of 0 n = []"
| "bits_of (Suc w) n = odd n # bits_of w (n div 2)"

lemma length_bits_of [simp]: "length (bits_of w n) = w"
  by (induction w arbitrary: n) auto

lemma bits_val_bits_of [simp, bits_simps]: "bits_val (bits_of w n) = n mod 2 ^ w"
proof (induction w arbitrary: n)
  case (Suc w)
  have "n mod 2 ^ Suc w = n mod 2 + 2 * (n div 2 mod 2 ^ w)"
    by (simp add: mod_mult2_eq)
  then show ?case by (simp add: Suc mod_2_eq_odd)
qed simp

lemma bits_of_bits_val [simp]: "length bs = w \<Longrightarrow> bits_of w (bits_val bs) = bs"
  by (induction bs arbitrary: w) auto

lemma bits_val_inject: "length xs = length ys \<Longrightarrow> bits_val xs = bits_val ys \<longleftrightarrow> xs = ys"
  by (metis bits_of_bits_val)

lemma mod_double: "(of_bool b + 2 * w) mod (2 * n) = of_bool b + 2 * (w mod n :: nat)"
  by (cases b) (simp_all add: mod_mult2_eq)

lemma div_double: "(of_bool b + 2 * w) div (2 * n) = (w div n :: nat)"
  by (cases b) (simp_all add: div_mult2_eq)

lemma bits_val_take: "bits_val (take n xs) = bits_val xs mod 2 ^ n"
proof (induction xs arbitrary: n)
  case (Cons x xs)
  then show ?case by (cases n) (simp_all only: take_Suc_Cons bits_val.simps power_Suc mod_double, simp)
qed simp

lemma bits_val_drop: "bits_val (drop n xs) = bits_val xs div 2 ^ n"
proof (induction xs arbitrary: n)
  case (Cons x xs)
  then show ?case by (cases n) (simp_all only: drop_Suc_Cons bits_val.simps power_Suc div_double, simp)
qed simp

text \<open>The two's complement value; the empty list has none of interest and counts as 0.\<close>

definition bits_sval :: "bool list \<Rightarrow> int" where
  "bits_sval bs = int (bits_val bs) - (if bs \<noteq> [] \<and> last bs then 2 ^ length bs else 0)"

lemma bits_sval_snoc: "bits_sval (bs @ [b]) = int (bits_val bs) - (if b then 2 ^ length bs else 0)"
  by (simp add: bits_sval_def bits_val_append)

end
