(* ===== verification/PredSolver.thy ===== *)
theory PredSolver
  imports Crave_Prelude
begin

text \<open>
  The interface between metaSMT's bit blaster and the Boolean solver below it
  (\<open>metaSMT/tags/Logic.hpp\<close>). The template parameter \<open>PredicateSolver\<close> of \<open>BitBlast\<close> is used only
  through its overloaded call operator, one overload per tag: \<open>psolver\<close> is the record of these
  overloads over a solver state \<open>'s\<close> and a type \<open>'b\<close> of Boolean results. The locale states what the
  bit blaster relies on: every operation extends the solver's state conservatively and returns a
  result whose value, in every model of the new state, is the Boolean operation on the values of the
  arguments.
\<close>

section \<open>Predicate tags\<close>

datatype pred_tag2 =
    equal_tag | nequal_tag | distinct_tag | implies_tag
  | and_tag | nand_tag | or_tag | nor_tag | xor_tag | xnor_tag

fun tag2_sem :: "pred_tag2 \<Rightarrow> bool \<Rightarrow> bool \<Rightarrow> bool" where
  "tag2_sem equal_tag a b \<longleftrightarrow> (a \<longleftrightarrow> b)"
| "tag2_sem nequal_tag a b \<longleftrightarrow> a \<noteq> b"
| "tag2_sem distinct_tag a b \<longleftrightarrow> a \<noteq> b"
| "tag2_sem implies_tag a b \<longleftrightarrow> (a \<longrightarrow> b)"
| "tag2_sem and_tag a b \<longleftrightarrow> a \<and> b"
| "tag2_sem nand_tag a b \<longleftrightarrow> \<not> (a \<and> b)"
| "tag2_sem or_tag a b \<longleftrightarrow> a \<or> b"
| "tag2_sem nor_tag a b \<longleftrightarrow> \<not> (a \<or> b)"
| "tag2_sem xor_tag a b \<longleftrightarrow> a \<noteq> b"
| "tag2_sem xnor_tag a b \<longleftrightarrow> (a \<longleftrightarrow> b)"

record ('s, 'b) psolver =
  ps_true :: "'s \<Rightarrow> 'b \<times> 's"
  ps_false :: "'s \<Rightarrow> 'b \<times> 's"
  ps_var :: "'s \<Rightarrow> 'b \<times> 's"
  ps_not :: "'b \<Rightarrow> 's \<Rightarrow> 'b \<times> 's"
  ps_op2 :: "pred_tag2 \<Rightarrow> 'b \<Rightarrow> 'b \<Rightarrow> 's \<Rightarrow> 'b \<times> 's"
  ps_ite :: "'b \<Rightarrow> 'b \<Rightarrow> 'b \<Rightarrow> 's \<Rightarrow> 'b \<times> 's"
  ps_assertion :: "'b \<Rightarrow> 's \<Rightarrow> 's"

section \<open>Weakest preconditions of state-passing code\<close>

text \<open>\<open>wp p Q\<close> for code that always returns, \<open>wpr r Q\<close> for code that may fail: the result satisfies \<open>Q\<close>.\<close>

named_theorems wp_intros "rules for wp and wpr, by the head of the program"

definition wp :: "'a \<times> 's \<Rightarrow> ('a \<Rightarrow> 's \<Rightarrow> bool) \<Rightarrow> bool" where
  "wp p Q \<longleftrightarrow> Q (fst p) (snd p)"

definition wpr :: "('a \<times> 's) result \<Rightarrow> ('a \<Rightarrow> 's \<Rightarrow> bool) \<Rightarrow> bool" where
  "wpr r Q \<longleftrightarrow> (\<exists>x s. r = Inr (x, s) \<and> Q x s)"

lemma wp_pair [simp]: "wp (x, s) Q = Q x s"
  by (simp add: wp_def)

lemma wpr_Inr [simp]: "wpr (Inr (x, s)) Q = Q x s"
  by (simp add: wpr_def)

lemma wpr_Inl [simp]: "\<not> wpr (Inl e) Q"
  by (simp add: wpr_def)

lemma wp_case: "wp p (\<lambda>x s. wp (f x s) Q) \<Longrightarrow> wp (case p of (x, s) \<Rightarrow> f x s) Q"
  by (cases p) simp

lemma wp_Let_case: "wp p (\<lambda>x s. wp (f x s) Q) \<Longrightarrow> wp (let (x, s) = p in f x s) Q"
  by (cases p) simp

lemma wpr_Let_case: "wp p (\<lambda>x s. wpr (f x s) Q) \<Longrightarrow> wpr (let (x, s) = p in f x s) Q"
  by (cases p) simp

lemma wpr_rbind: "wpr r (\<lambda>x s. wpr (f (x, s)) Q) \<Longrightarrow> wpr (rbind r f) Q"
  by (auto simp: wpr_def)

lemma wpr_of_wp: "wp p (\<lambda>x s. Q (g x) s) \<Longrightarrow> wpr (Inr (apfst g p)) Q"
  by (cases p) simp

lemma wp_mono: "wp p Q \<Longrightarrow> (\<And>x s. Q x s \<Longrightarrow> R x s) \<Longrightarrow> wp p R"
  by (simp add: wp_def)

lemma wpr_mono: "wpr p Q \<Longrightarrow> (\<And>x s. Q x s \<Longrightarrow> R x s) \<Longrightarrow> wpr p R"
  by (auto simp: wpr_def)

lemma wpD: "wp p Q \<Longrightarrow> p = (x, s) \<Longrightarrow> Q x s"
  by (simp add: wp_def)

lemma wprD: "wpr r Q \<Longrightarrow> r = Inr (x, s) \<Longrightarrow> Q x s"
  by (simp add: wpr_def)

section \<open>The contract of a predicate solver\<close>

text \<open>
  \<open>wfs s\<close>: the state is well formed; \<open>ok s b\<close>: \<open>b\<close> is a result that may be used in state \<open>s\<close>;
  \<open>mdl s m\<close>: \<open>m\<close> satisfies everything asserted in \<open>s\<close>; \<open>val m b\<close>: the value of \<open>b\<close> in \<open>m\<close>.
  \<open>extends\<close> is conservative extension: no model is invented, every model of the old state still has
  a counterpart, and what could be used before can be used after.
\<close>

definition extends ::
    "('s \<Rightarrow> bool) \<Rightarrow> ('s \<Rightarrow> 'b \<Rightarrow> bool) \<Rightarrow> ('s \<Rightarrow> 'm \<Rightarrow> bool) \<Rightarrow> ('m \<Rightarrow> 'b \<Rightarrow> 'v) \<Rightarrow> 's \<Rightarrow> 's \<Rightarrow> bool" where
  "extends wfs ok mdl val s s' \<longleftrightarrow>
     wfs s' \<and> (\<forall>b. ok s b \<longrightarrow> ok s' b) \<and> (\<forall>m. mdl s' m \<longrightarrow> mdl s m) \<and>
     (\<forall>m. mdl s m \<longrightarrow> (\<exists>m'. mdl s' m' \<and> (\<forall>b. ok s b \<longrightarrow> val m' b = val m b)))"

lemma extends_refl: "wfs s \<Longrightarrow> extends wfs ok mdl val s s"
  by (auto simp: extends_def)

lemma extends_trans:
  "extends wfs ok mdl val s t \<Longrightarrow> extends wfs ok mdl val t u \<Longrightarrow> extends wfs ok mdl val s u"
  unfolding extends_def by metis

locale predicate_solver =
  fixes P :: "('s, 'b) psolver"
    and wfs :: "'s \<Rightarrow> bool"
    and ok :: "'s \<Rightarrow> 'b \<Rightarrow> bool"
    and mdl :: "'s \<Rightarrow> 'm \<Rightarrow> bool"
    and val :: "'m \<Rightarrow> 'b \<Rightarrow> bool"
  assumes true_law: "wfs s \<Longrightarrow> ps_true P s = (r, s') \<Longrightarrow>
      extends wfs ok mdl val s s' \<and> ok s' r \<and> (\<forall>m. mdl s' m \<longrightarrow> val m r)"
    and false_law: "wfs s \<Longrightarrow> ps_false P s = (r, s') \<Longrightarrow>
      extends wfs ok mdl val s s' \<and> ok s' r \<and> (\<forall>m. mdl s' m \<longrightarrow> \<not> val m r)"
    and var_law: "wfs s \<Longrightarrow> ps_var P s = (r, s') \<Longrightarrow> extends wfs ok mdl val s s' \<and> ok s' r"
    and var_free: "wfs s \<Longrightarrow> ps_var P s = (r, s') \<Longrightarrow> mdl s m \<Longrightarrow>
      \<exists>m'. mdl s' m' \<and> (\<forall>b. ok s b \<longrightarrow> val m' b = val m b) \<and> val m' r = v"
    and not_law: "wfs s \<Longrightarrow> ok s a \<Longrightarrow> ps_not P a s = (r, s') \<Longrightarrow>
      extends wfs ok mdl val s s' \<and> ok s' r \<and> (\<forall>m. mdl s' m \<longrightarrow> val m r = (\<not> val m a))"
    and op2_law: "wfs s \<Longrightarrow> ok s a \<Longrightarrow> ok s b \<Longrightarrow> ps_op2 P t a b s = (r, s') \<Longrightarrow>
      extends wfs ok mdl val s s' \<and> ok s' r \<and>
      (\<forall>m. mdl s' m \<longrightarrow> val m r = tag2_sem t (val m a) (val m b))"
    and ite_law: "wfs s \<Longrightarrow> ok s c \<Longrightarrow> ok s a \<Longrightarrow> ok s b \<Longrightarrow> ps_ite P c a b s = (r, s') \<Longrightarrow>
      extends wfs ok mdl val s s' \<and> ok s' r \<and>
      (\<forall>m. mdl s' m \<longrightarrow> val m r = (if val m c then val m a else val m b))"
    and assertion_law: "wfs s \<Longrightarrow> ok s b \<Longrightarrow> wfs (ps_assertion P b s) \<and>
      (\<forall>l. ok s l \<longrightarrow> ok (ps_assertion P b s) l) \<and>
      (\<forall>m. mdl (ps_assertion P b s) m \<longleftrightarrow> mdl s m \<and> val m b)"
begin

text \<open>
  What is known at a point of a run that started in \<open>s0\<close>: the state extends \<open>s0\<close>, the results in \<open>A\<close>
  may be used, and every model satisfies \<open>E\<close>. Each rule below consumes one such fact and hands the
  continuation the next, so that a straight-line program is run by the rules alone and its meaning is
  the conjunction of equations collected in \<open>E\<close>.
\<close>

definition env :: "'s \<Rightarrow> 's \<Rightarrow> 'b set \<Rightarrow> ('m \<Rightarrow> bool) \<Rightarrow> bool" where
  "env s0 s A E \<longleftrightarrow> wfs s \<and> extends wfs ok mdl val s0 s \<and> (\<forall>b\<in>A. ok s b) \<and> (\<forall>m. mdl s m \<longrightarrow> E m)"

lemma env_start: "wfs s \<Longrightarrow> (\<forall>b\<in>A. ok s b) \<Longrightarrow> env s s A (\<lambda>m. True)"
  by (simp add: env_def extends_refl)

lemma env_mono: "env s0 s A E \<Longrightarrow> B \<subseteq> A \<Longrightarrow> (\<And>m. E m \<Longrightarrow> E' m) \<Longrightarrow> env s0 s B E'"
  by (auto simp: env_def)

lemma env_step:
  assumes "env s0 s A E" and "extends wfs ok mdl val s s'" and "ok s' r" and "\<And>m. mdl s' m \<Longrightarrow> F m"
  shows "env s0 s' (insert r A) (\<lambda>m. E m \<and> F m)"
proof -
  have "extends wfs ok mdl val s0 s'"
    using assms(1,2) extends_trans by (auto simp: env_def)
  then show ?thesis using assms by (auto simp: env_def extends_def)
qed

lemma env_call:
  assumes env: "env s0 s A E"
    and law: "\<And>r s'. p = (r, s') \<Longrightarrow> wfs s \<Longrightarrow> (\<And>b. b \<in> A \<Longrightarrow> ok s b) \<Longrightarrow>
      extends wfs ok mdl val s s' \<and> ok s' r \<and> (\<forall>m. mdl s' m \<longrightarrow> F r m)"
    and q: "\<And>r s'. env s0 s' (insert r A) (\<lambda>m. E m \<and> F r m) \<Longrightarrow> Q r s'"
  shows "wp p Q"
proof (cases p)
  case (Pair r s')
  have "extends wfs ok mdl val s s' \<and> ok s' r \<and> (\<forall>m. mdl s' m \<longrightarrow> F r m)"
    using law [OF Pair] env by (simp add: env_def)
  then show ?thesis using q env_step [OF env] Pair by auto
qed

lemma wp_true:
  "env s0 s A E \<Longrightarrow> (\<And>r s'. env s0 s' (insert r A) (\<lambda>m. E m \<and> val m r) \<Longrightarrow> Q r s') \<Longrightarrow>
    wp (ps_true P s) Q"
  by (rule env_call [where F = "\<lambda>r m. val m r"]) (assumption | rule true_law)+

lemma wp_false:
  "env s0 s A E \<Longrightarrow> (\<And>r s'. env s0 s' (insert r A) (\<lambda>m. E m \<and> \<not> val m r) \<Longrightarrow> Q r s') \<Longrightarrow>
    wp (ps_false P s) Q"
  by (rule env_call [where F = "\<lambda>r m. \<not> val m r"]) (assumption | rule false_law)+

lemma wp_var:
  "env s0 s A E \<Longrightarrow> (\<And>r s'. env s0 s' (insert r A) (\<lambda>m. E m \<and> True) \<Longrightarrow> Q r s') \<Longrightarrow>
    wp (ps_var P s) Q"
  by (rule env_call [where F = "\<lambda>r m. True"]) (assumption | simp add: var_law)+

lemma wp_not:
  "env s0 s A E \<Longrightarrow> a \<in> A \<Longrightarrow>
    (\<And>r s'. env s0 s' (insert r A) (\<lambda>m. E m \<and> val m r = (\<not> val m a)) \<Longrightarrow> Q r s') \<Longrightarrow>
    wp (ps_not P a s) Q"
  by (rule env_call [where F = "\<lambda>r m. val m r = (\<not> val m a)"])
    (assumption | rule not_law | blast)+

lemma wp_op2:
  "env s0 s A E \<Longrightarrow> a \<in> A \<Longrightarrow> b \<in> A \<Longrightarrow>
    (\<And>r s'. env s0 s' (insert r A) (\<lambda>m. E m \<and> val m r = tag2_sem t (val m a) (val m b)) \<Longrightarrow> Q r s') \<Longrightarrow>
    wp (ps_op2 P t a b s) Q"
  by (rule env_call [where F = "\<lambda>r m. val m r = tag2_sem t (val m a) (val m b)"])
    (assumption | rule op2_law | blast)+

lemma wp_ite:
  "env s0 s A E \<Longrightarrow> c \<in> A \<Longrightarrow> a \<in> A \<Longrightarrow> b \<in> A \<Longrightarrow>
    (\<And>r s'. env s0 s' (insert r A)
      (\<lambda>m. E m \<and> val m r = (if val m c then val m a else val m b)) \<Longrightarrow> Q r s') \<Longrightarrow>
    wp (ps_ite P c a b s) Q"
  by (rule env_call [where F = "\<lambda>r m. val m r = (if val m c then val m a else val m b)"])
    (assumption | rule ite_law | blast)+

lemmas wp_ops = wp_Let_case wpr_Let_case wpr_rbind wp_true wp_false wp_var wp_not wp_op2 wp_ite

end

end
