(* ===== verification/BitBlast.thy ===== *)
theory BitBlast
  imports PredSolver
begin

text \<open>
  The bit blaster \<open>metaSMT/BitBlast.hpp\<close>: bit-vector operators over any predicate solver. A result is
  a Boolean result of that solver (\<open>Base\<close>) or a vector of them, least significant bit first (\<open>BV\<close>);
  \<open>boost::get\<close> on the wrong alternative is \<open>BadGet\<close>, a failed \<open>assert\<close> is \<open>AssertionFailure\<close>, and
  \<open>back()\<close> or \<open>front()\<close> of an empty vector and an iterator outside a vector are
  \<open>UndefinedBehaviour\<close>. The solver's state is passed through every call in the order of the
  statements. Where C++ leaves the order of the arguments of a call open, the model evaluates them
  from left to right; the choice only decides the numbering of the variables.
\<close>

section \<open>Results\<close>

datatype 'b bbval = Base 'b | BV "'b list"

fun get_base :: "'b bbval \<Rightarrow> 'b result" where
  "get_base (Base b) = Inr b"
| "get_base (BV bs) = Inl BadGet"

fun get_bv :: "'b bbval \<Rightarrow> 'b list result" where
  "get_bv (BV bs) = Inr bs"
| "get_bv (Base b) = Inl BadGet"

fun get_bv_width :: "'b bbval \<Rightarrow> nat" where
  "get_bv_width (BV bs) = length bs"
| "get_bv_width (Base b) = 0"

definition bb_assertion :: "('s, 'b) psolver \<Rightarrow> 'b bbval \<Rightarrow> 's \<Rightarrow> 's result" where
  "bb_assertion P e s = rbind (get_base e) (\<lambda>b. Inr (ps_assertion P b s))"

section \<open>Variables and bitwise operators\<close>

fun var_loop :: "('s, 'b) psolver \<Rightarrow> nat \<Rightarrow> 's \<Rightarrow> 'b list \<times> 's" where
  "var_loop P 0 s = ([], s)"
| "var_loop P (Suc n) s = (let (r, s) = ps_var P s; (rs, s) = var_loop P n s in (r # rs, s))"

definition bb_bv_var :: "('s, 'b) psolver \<Rightarrow> nat \<Rightarrow> 's \<Rightarrow> ('b bbval \<times> 's) result" where
  "bb_bv_var P width s = (let (r, s) = var_loop P width s in Inr (BV r, s))"

fun bitwise_loop ::
    "('s, 'b) psolver \<Rightarrow> pred_tag2 \<Rightarrow> 'b list \<Rightarrow> 'b list \<Rightarrow> 's \<Rightarrow> 'b list \<times> 's" where
  "bitwise_loop P t (a # as) (b # bs) s =
     (let (r, s) = ps_op2 P t a b s; (rs, s) = bitwise_loop P t as bs s in (r # rs, s))"
| "bitwise_loop P t as bs s = ([], s)"

definition bb_bitwise ::
    "('s, 'b) psolver \<Rightarrow> pred_tag2 \<Rightarrow> 'b bbval \<Rightarrow> 'b bbval \<Rightarrow> 's \<Rightarrow> ('b bbval \<times> 's) result" where
  "bb_bitwise P t arg1 arg2 s =
     rbind (get_bv arg1) (\<lambda>a. rbind (get_bv arg2) (\<lambda>b.
       if length a \<noteq> length b then Inl AssertionFailure
       else let (r, s) = bitwise_loop P t a b s in Inr (BV r, s)))"

definition bb_bvand where "bb_bvand P = bb_bitwise P and_tag"
definition bb_bvnand where "bb_bvnand P = bb_bitwise P nand_tag"
definition bb_bvor where "bb_bvor P = bb_bitwise P or_tag"
definition bb_bvnor where "bb_bvnor P = bb_bitwise P nor_tag"
definition bb_bvxor where "bb_bvxor P = bb_bitwise P xor_tag"
definition bb_bvxnor where "bb_bvxnor P = bb_bitwise P xnor_tag"

fun not_loop :: "('s, 'b) psolver \<Rightarrow> 'b list \<Rightarrow> 's \<Rightarrow> 'b list \<times> 's" where
  "not_loop P [] s = ([], s)"
| "not_loop P (a # as) s = (let (r, s) = ps_not P a s; (rs, s) = not_loop P as s in (r # rs, s))"

definition bb_bvnot :: "('s, 'b) psolver \<Rightarrow> 'b bbval \<Rightarrow> 's \<Rightarrow> ('b bbval \<times> 's) result" where
  "bb_bvnot P arg1 s =
     rbind (get_bv arg1) (\<lambda>a. let (r, s) = not_loop P a s in Inr (BV r, s))"

section \<open>Comparisons\<close>

text \<open>
  The loops run from the most significant bit down; \<open>ret\<close> says that the prefix seen so far decides
  the comparison, \<open>equal\<close> that the two prefixes are equal.
\<close>

fun less_loop ::
    "('s, 'b) psolver \<Rightarrow> 'b list \<Rightarrow> 'b list \<Rightarrow> 'b \<Rightarrow> 'b \<Rightarrow> 's \<Rightarrow> ('b \<times> 'b) \<times> 's" where
  "less_loop P (a # as) (b # bs) ret equal s =
     (let (not_a, s) = ps_not P a s;
          (now_less, s) = ps_op2 P and_tag not_a b s;
          (now, s) = ps_op2 P and_tag equal now_less s;
          (now_equal, s) = ps_op2 P xnor_tag a b s;
          (equal, s) = ps_op2 P and_tag now_equal equal s;
          (ret, s) = ps_op2 P or_tag ret now s
      in less_loop P as bs ret equal s)"
| "less_loop P as bs ret equal s = ((ret, equal), s)"

fun great_loop ::
    "('s, 'b) psolver \<Rightarrow> 'b list \<Rightarrow> 'b list \<Rightarrow> 'b \<Rightarrow> 'b \<Rightarrow> 's \<Rightarrow> ('b \<times> 'b) \<times> 's" where
  "great_loop P (a # as) (b # bs) ret equal s =
     (let (not_b, s) = ps_not P b s;
          (now_great, s) = ps_op2 P and_tag a not_b s;
          (now, s) = ps_op2 P and_tag equal now_great s;
          (now_equal, s) = ps_op2 P xnor_tag a b s;
          (equal, s) = ps_op2 P and_tag now_equal equal s;
          (ret, s) = ps_op2 P or_tag ret now s
      in great_loop P as bs ret equal s)"
| "great_loop P as bs ret equal s = ((ret, equal), s)"

text \<open>The common frame: both arguments are vectors of the same positive length, read backwards.\<close>

definition bb_compare ::
    "('b \<Rightarrow> 'b \<Rightarrow> 'b list \<Rightarrow> 'b list \<Rightarrow> 's \<Rightarrow> 'b \<times> 's) \<Rightarrow> 'b bbval \<Rightarrow> 'b bbval \<Rightarrow> 's \<Rightarrow> ('b bbval \<times> 's) result"
where
  "bb_compare body arg1 arg2 s =
     rbind (get_bv arg1) (\<lambda>a. rbind (get_bv arg2) (\<lambda>b.
       if length a \<noteq> length b \<or> a = [] then Inl AssertionFailure
       else let (r, s) = body (last a) (last b) (rev (butlast a)) (rev (butlast b)) s
            in Inr (Base r, s)))"

definition bb_bvult where
  "bb_bvult P = bb_compare (\<lambda>a b as bs s.
     let (not_a, s) = ps_not P a s;
         (ret, s) = ps_op2 P and_tag not_a b s;
         (equal, s) = ps_op2 P xnor_tag a b s;
         ((ret, equal), s) = less_loop P as bs ret equal s
     in (ret, s))"

definition bb_bvugt where
  "bb_bvugt P = bb_compare (\<lambda>a b as bs s.
     let (not_b, s) = ps_not P b s;
         (ret, s) = ps_op2 P and_tag a not_b s;
         (equal, s) = ps_op2 P xnor_tag a b s;
         ((ret, equal), s) = great_loop P as bs ret equal s
     in (ret, s))"

definition bb_bvsgt where
  "bb_bvsgt P = bb_compare (\<lambda>a b as bs s.
     let (not_a, s) = ps_not P a s;
         (not_b, s) = ps_not P b s;
         (ret, s) = ps_op2 P and_tag not_a b s;
         (equal, s) = ps_op2 P xnor_tag a b s;
         ((ret, equal), s) = great_loop P as bs ret equal s
     in (ret, s))"

definition bb_bvslt where
  "bb_bvslt P = bb_compare (\<lambda>a b as bs s.
     let (not_a, s) = ps_not P a s;
         (not_b, s) = ps_not P b s;
         (ret, s) = ps_op2 P and_tag a not_b s;
         (equal, s) = ps_op2 P xnor_tag a b s;
         ((ret, equal), s) = less_loop P as bs ret equal s
     in (ret, s))"

definition bb_bvule where
  "bb_bvule P = bb_compare (\<lambda>a b as bs s.
     let (not_a, s) = ps_not P a s;
         (less, s) = ps_op2 P and_tag not_a b s;
         (equal, s) = ps_op2 P xnor_tag a b s;
         ((ret, equal), s) = less_loop P as bs less equal s
     in ps_op2 P or_tag ret equal s)"

definition bb_bvuge where
  "bb_bvuge P = bb_compare (\<lambda>a b as bs s.
     let (not_b, s) = ps_not P b s;
         (great, s) = ps_op2 P and_tag a not_b s;
         (equal, s) = ps_op2 P xnor_tag a b s;
         ((ret, equal), s) = great_loop P as bs great equal s
     in ps_op2 P or_tag ret equal s)"

definition bb_bvsge where
  "bb_bvsge P = bb_compare (\<lambda>a b as bs s.
     let (not_a, s) = ps_not P a s;
         (not_b, s) = ps_not P b s;
         (great, s) = ps_op2 P and_tag not_a b s;
         (equal, s) = ps_op2 P xnor_tag a b s;
         ((ret, equal), s) = great_loop P as bs great equal s
     in ps_op2 P or_tag ret equal s)"

definition bb_bvsle where
  "bb_bvsle P = bb_compare (\<lambda>a b as bs s.
     let (not_b, s) = ps_not P b s;
         (less, s) = ps_op2 P and_tag a not_b s;
         (equal, s) = ps_op2 P xnor_tag a b s;
         ((ret, equal), s) = less_loop P as bs less equal s
     in ps_op2 P or_tag ret equal s)"

section \<open>Equality and selection\<close>

text \<open>The handler of \<open>bad_get\<close> reads both arguments as Boolean results.\<close>

fun equal_loop :: "('s, 'b) psolver \<Rightarrow> 'b list \<Rightarrow> 'b list \<Rightarrow> 'b \<Rightarrow> 's \<Rightarrow> 'b \<times> 's" where
  "equal_loop P (a # as) (b # bs) ret s =
     (let (cur, s) = ps_op2 P equal_tag a b s;
          (ret, s) = ps_op2 P and_tag cur ret s
      in equal_loop P as bs ret s)"
| "equal_loop P as bs ret s = (ret, s)"

fun bb_equal :: "('s, 'b) psolver \<Rightarrow> 'b bbval \<Rightarrow> 'b bbval \<Rightarrow> 's \<Rightarrow> ('b bbval \<times> 's) result" where
  "bb_equal P (BV a) (BV b) s =
     (if length a \<noteq> length b then Inl AssertionFailure
      else let (ret, s) = ps_true P s; (ret, s) = equal_loop P a b ret s in Inr (Base ret, s))"
| "bb_equal P arg1 arg2 s =
     rbind (get_base arg1) (\<lambda>a. rbind (get_base arg2) (\<lambda>b.
       let (ret, s) = ps_op2 P equal_tag a b s in Inr (Base ret, s)))"

fun nequal_loop :: "('s, 'b) psolver \<Rightarrow> 'b list \<Rightarrow> 'b list \<Rightarrow> 'b \<Rightarrow> 's \<Rightarrow> 'b \<times> 's" where
  "nequal_loop P (a # as) (b # bs) ret s =
     (let (cur, s) = ps_op2 P nequal_tag a b s;
          (ret, s) = ps_op2 P or_tag cur ret s
      in nequal_loop P as bs ret s)"
| "nequal_loop P as bs ret s = (ret, s)"

fun bb_nequal :: "('s, 'b) psolver \<Rightarrow> 'b bbval \<Rightarrow> 'b bbval \<Rightarrow> 's \<Rightarrow> ('b bbval \<times> 's) result" where
  "bb_nequal P (BV a) (BV b) s =
     (if length a \<noteq> length b then Inl AssertionFailure
      else let (ret, s) = ps_false P s; (ret, s) = nequal_loop P a b ret s in Inr (Base ret, s))"
| "bb_nequal P arg1 arg2 s =
     rbind (get_base arg1) (\<lambda>a. rbind (get_base arg2) (\<lambda>b.
       let (ret, s) = ps_op2 P nequal_tag a b s in Inr (Base ret, s)))"

definition bb_bvcomp :: "('s, 'b) psolver \<Rightarrow> 'b bbval \<Rightarrow> 'b bbval \<Rightarrow> 's \<Rightarrow> ('b bbval \<times> 's) result" where
  "bb_bvcomp P arg1 arg2 s =
     rbind (bb_equal P arg1 arg2 s) (\<lambda>(tmp, s). rbind (get_base tmp) (\<lambda>ret. Inr (BV [ret], s)))"

fun ite_loop :: "('s, 'b) psolver \<Rightarrow> 'b \<Rightarrow> 'b list \<Rightarrow> 'b list \<Rightarrow> 's \<Rightarrow> 'b list \<times> 's" where
  "ite_loop P c (a # as) (b # bs) s =
     (let (r, s) = ps_ite P c a b s; (rs, s) = ite_loop P c as bs s in (r # rs, s))"
| "ite_loop P c as bs s = ([], s)"

fun bb_ite_cases ::
    "('s, 'b) psolver \<Rightarrow> 'b \<Rightarrow> 'b bbval \<Rightarrow> 'b bbval \<Rightarrow> 's \<Rightarrow> ('b bbval \<times> 's) result" where
  "bb_ite_cases P c (BV a) (BV b) s =
     (if length a \<noteq> length b then Inl AssertionFailure
      else let (r, s) = ite_loop P c a b s in Inr (BV r, s))"
| "bb_ite_cases P c arg2 arg3 s =
     rbind (get_base arg2) (\<lambda>a. rbind (get_base arg3) (\<lambda>b.
       let (r, s) = ps_ite P c a b s in Inr (Base r, s)))"

definition bb_ite ::
    "('s, 'b) psolver \<Rightarrow> 'b bbval \<Rightarrow> 'b bbval \<Rightarrow> 'b bbval \<Rightarrow> 's \<Rightarrow> ('b bbval \<times> 's) result" where
  "bb_ite P arg1 arg2 arg3 s = rbind (get_base arg1) (\<lambda>c. bb_ite_cases P c arg2 arg3 s)"

end
