(* ===== verification/Node.thy ===== *)
theory Node
  imports Crave_Prelude
begin

text \<open>
  The expression nodes of \<open>src/crave/ir/Node.hpp\<close>. A node is an immutable value in the model: the
  reference counts of \<open>boost::intrusive_ptr\<close> only decide when memory is freed. The values of
  constants are 64-bit words (\<open>uint64_t\<close>); widths and identifiers are natural numbers, the code's
  \<open>unsigned int\<close> without its upper bound; the two bounds of a bit slice are \<open>int\<close> as in the code.
\<close>

section \<open>Constants\<close>

type_synonym u64 = "64 word"

record const_t =
  cvalue :: u64
  cbitsize :: nat
  csign :: bool

definition Constant_default :: const_t where
  "Constant_default = \<lparr>cvalue = 0, cbitsize = 1, csign = True\<rparr>"

definition Constant_bool :: "bool \<Rightarrow> const_t" where
  "Constant_bool b = \<lparr>cvalue = of_bool b, cbitsize = 1, csign = True\<rparr>"

definition Constant :: "u64 \<Rightarrow> nat \<Rightarrow> bool \<Rightarrow> const_t" where
  "Constant val bs s = \<lparr>cvalue = val, cbitsize = bs, csign = s\<rparr>"

lemma constant_sel [simp]:
  "cvalue (Constant v b s) = v" "cbitsize (Constant v b s) = b" "csign (Constant v b s) = s"
  "cvalue (Constant_bool c) = of_bool c" "cbitsize (Constant_bool c) = 1" "csign (Constant_bool c)"
  "cvalue Constant_default = 0" "cbitsize Constant_default = 1" "csign Constant_default"
  by (simp_all add: Constant_def Constant_bool_def Constant_default_def)

text \<open>\<open>Terminal::isBool\<close>: one signed bit.\<close>

definition isBool :: "nat \<Rightarrow> bool \<Rightarrow> bool" where
  "isBool bitsize sign \<longleftrightarrow> bitsize = 1 \<and> sign"

text \<open>
  \<open>std::set<Constant>\<close> orders its elements by the implicit conversion to \<open>uint64_t\<close>: iteration is in
  ascending order of the value, and of two constants with the same value only the first inserted is
  kept. The set is kept as the list of its elements in iteration order.
\<close>

fun insert_constant :: "const_t \<Rightarrow> const_t list \<Rightarrow> const_t list" where
  "insert_constant c [] = [c]"
| "insert_constant c (d # ds) =
     (if cvalue c < cvalue d then c # d # ds
      else if cvalue d < cvalue c then d # insert_constant c ds
      else d # ds)"

definition collection_ok :: "const_t list \<Rightarrow> bool" where
  "collection_ok cs \<longleftrightarrow> sorted_wrt (<) (map cvalue cs)"

lemma insert_constant_values:
  "cvalue ` set (insert_constant c cs) = insert (cvalue c) (cvalue ` set cs)"
  by (induction cs) (auto simp: not_less_iff_gr_or_eq)

lemma insert_constant_ok: "collection_ok cs \<Longrightarrow> collection_ok (insert_constant c cs)"
proof (induction cs)
  case (Cons d ds)
  then have "collection_ok (insert_constant c ds)" by (simp add: collection_ok_def)
  moreover have "cvalue d < x" if "cvalue d < cvalue c" "x \<in> cvalue ` set (insert_constant c ds)" for x
    using that Cons.prems by (auto simp: insert_constant_values collection_ok_def)
  ultimately show ?case using Cons.prems by (auto simp: collection_ok_def dest: less_trans)
qed (simp add: collection_ok_def)

section \<open>Nodes\<close>

text \<open>The subclasses of \<open>UnaryOperator\<close> and of \<open>BinaryOperator\<close>, in the order of the header.\<close>

datatype unop = NotOpr | NegOpr | ComplementOpr | Unique

datatype binop =
    AndOpr | OrOpr | LogicalAndOpr | LogicalOrOpr | XorOpr
  | EqualOpr | NotEqualOpr | LessOpr | LessEqualOpr | GreaterOpr | GreaterEqualOpr
  | PlusOpr | MinusOpr | MultipliesOpr | DevideOpr | ModuloOpr
  | ShiftLeftOpr | ShiftRightOpr
  | ForEach

datatype node =
    Placeholder nat
  | VariableExpr nat nat bool
  | ConstantExpr const_t
  | VectorExpr nat nat bool
  | UnaryOperator unop node
  | Inside node "const_t list"
  | ExtendExpression node nat
  | BinaryOperator binop node node
  | VectorAccess node node
  | IfThenElse node node node
  | Bitslice node int int

text \<open>A placeholder has the width of \<open>unsigned\<close>.\<close>

definition placeholder_bitsize :: nat where
  "placeholder_bitsize = 32"

text \<open>
  The visitors that only handle scalar expressions share this fragment: no placeholder (a visitor
  that ignores it leaves its stack one entry short) and no vector construct.
\<close>

primrec scalar_node :: "node \<Rightarrow> bool" where
  "scalar_node (Placeholder i) \<longleftrightarrow> False"
| "scalar_node (VariableExpr i b s) \<longleftrightarrow> True"
| "scalar_node (ConstantExpr c) \<longleftrightarrow> True"
| "scalar_node (VectorExpr i b s) \<longleftrightarrow> False"
| "scalar_node (UnaryOperator u n) \<longleftrightarrow> u \<noteq> Unique \<and> scalar_node n"
| "scalar_node (Inside n cs) \<longleftrightarrow> scalar_node n"
| "scalar_node (ExtendExpression n k) \<longleftrightarrow> scalar_node n"
| "scalar_node (BinaryOperator f l r) \<longleftrightarrow> f \<noteq> ForEach \<and> scalar_node l \<and> scalar_node r"
| "scalar_node (VectorAccess l r) \<longleftrightarrow> False"
| "scalar_node (IfThenElse a b c) \<longleftrightarrow> scalar_node a \<and> scalar_node b \<and> scalar_node c"
| "scalar_node (Bitslice n r l) \<longleftrightarrow> scalar_node n"

text \<open>The variables (scalar and vector) a node mentions.\<close>

primrec node_vars :: "node \<Rightarrow> nat set" where
  "node_vars (Placeholder i) = {}"
| "node_vars (VariableExpr i b s) = {i}"
| "node_vars (ConstantExpr c) = {}"
| "node_vars (VectorExpr i b s) = {i}"
| "node_vars (UnaryOperator u n) = node_vars n"
| "node_vars (Inside n cs) = node_vars n"
| "node_vars (ExtendExpression n k) = node_vars n"
| "node_vars (BinaryOperator f l r) = node_vars l \<union> node_vars r"
| "node_vars (VectorAccess l r) = node_vars l \<union> node_vars r"
| "node_vars (IfThenElse a b c) = node_vars a \<union> node_vars b \<union> node_vars c"
| "node_vars (Bitslice n r l) = node_vars n"

lemma finite_node_vars [simp]: "finite (node_vars n)"
  by (induction n) auto

section \<open>Expression stacks\<close>

text \<open>
  Every visitor keeps a stack of intermediate results, with the same three private helpers \<open>pop\<close>,
  \<open>pop2\<close> and \<open>pop3\<close>; the top of the stack is the head of the list. Popping too much fails the
  helper's assertion.
\<close>

fun pop :: "'e list \<Rightarrow> ('e \<times> 'e list) result" where
  "pop (e1 # st) = Inr (e1, st)"
| "pop [] = Inl AssertionFailure"

fun pop2 :: "'e list \<Rightarrow> ('e \<times> 'e \<times> 'e list) result" where
  "pop2 (e1 # e2 # st) = Inr (e1, e2, st)"
| "pop2 _ = Inl AssertionFailure"

fun pop3 :: "'e list \<Rightarrow> ('e \<times> 'e \<times> 'e \<times> 'e list) result" where
  "pop3 (e1 # e2 # e3 # st) = Inr (e1, e2, e3, st)"
| "pop3 _ = Inl AssertionFailure"

end
