(* ===== verification/BitArith.thy ===== *)
theory BitArith
  imports BitBlast Node
begin

text \<open>
  The second half of \<open>metaSMT/BitBlast.hpp\<close>: constants, extension, extraction, addition,
  multiplication, shifts by a symbolic amount and the restoring division \<open>uDivRem\<close>. Loop counters and
  widths are the code's \<open>unsigned\<close> without their upper bound.
\<close>

section \<open>Constants\<close>

definition bb_true :: "('s, 'b) psolver \<Rightarrow> 's \<Rightarrow> 'b bbval \<times> 's" where
  "bb_true P s = (let (r, s) = ps_true P s in (Base r, s))"

definition bb_false :: "('s, 'b) psolver \<Rightarrow> 's \<Rightarrow> 'b bbval \<times> 's" where
  "bb_false P s = (let (r, s) = ps_false P s in (Base r, s))"

text \<open>The fallback operators hand an operator of the logic over to the predicate solver.\<close>

definition bb_not :: "('s, 'b) psolver \<Rightarrow> 'b bbval \<Rightarrow> 's \<Rightarrow> ('b bbval \<times> 's) result" where
  "bb_not P a s = rbind (get_base a) (\<lambda>a. let (r, s) = ps_not P a s in Inr (Base r, s))"

definition bb_op2 ::
    "('s, 'b) psolver \<Rightarrow> pred_tag2 \<Rightarrow> 'b bbval \<Rightarrow> 'b bbval \<Rightarrow> 's \<Rightarrow> ('b bbval \<times> 's) result" where
  "bb_op2 P t a b s =
     (if t = equal_tag then bb_equal P a b s
      else if t = nequal_tag then bb_nequal P a b s
      else rbind (get_base a) (\<lambda>a. rbind (get_base b) (\<lambda>b.
             let (r, s) = ps_op2 P t a b s in Inr (Base r, s))))"

fun hex_digit :: "char \<Rightarrow> bool list" where
  "hex_digit c =
     (if c = CHR ''0'' then [False, False, False, False]
      else if c = CHR ''1'' then [True, False, False, False]
      else if c = CHR ''2'' then [False, True, False, False]
      else if c = CHR ''3'' then [True, True, False, False]
      else if c = CHR ''4'' then [False, False, True, False]
      else if c = CHR ''5'' then [True, False, True, False]
      else if c = CHR ''6'' then [False, True, True, False]
      else if c = CHR ''7'' then [True, True, True, False]
      else if c = CHR ''8'' then [False, False, False, True]
      else if c = CHR ''9'' then [True, False, False, True]
      else if c = CHR ''a'' \<or> c = CHR ''A'' then [False, True, False, True]
      else if c = CHR ''b'' \<or> c = CHR ''B'' then [True, True, False, True]
      else if c = CHR ''c'' \<or> c = CHR ''C'' then [False, False, True, True]
      else if c = CHR ''d'' \<or> c = CHR ''D'' then [True, False, True, True]
      else if c = CHR ''e'' \<or> c = CHR ''E'' then [False, True, True, True]
      else if c = CHR ''f'' \<or> c = CHR ''F'' then [True, True, True, True]
      else [])"

declare hex_digit.simps [simp del]

text \<open>A character that is no digit does not advance the output iterator.\<close>

definition hex_bits :: "string \<Rightarrow> bool list" where
  "hex_bits str =
     (let written = concat (map hex_digit (rev str)) in
      written @ replicate (4 * length str - length written) False)"

definition bb_bvhex :: "('s, 'b) psolver \<Rightarrow> string \<Rightarrow> 's \<Rightarrow> ('b bbval \<times> 's) result" where
  "bb_bvhex P str s =
     (let (z, s) = ps_false P s; (o1, s) = ps_true P s
      in Inr (BV (map (\<lambda>b. if b then o1 else z) (hex_bits str)), s))"

definition bb_bvbin :: "('s, 'b) psolver \<Rightarrow> string \<Rightarrow> 's \<Rightarrow> ('b bbval \<times> 's) result" where
  "bb_bvbin P str s =
     (let (o1, s) = ps_true P s; (z, s) = ps_false P s
      in Inr (BV (map (\<lambda>c. if c = CHR ''1'' then o1 else z) (rev str)), s))"

unbundle bit_operations_syntax

fun uint_bits :: "nat \<Rightarrow> u64 \<Rightarrow> bool list" where
  "uint_bits 0 v = []"
| "uint_bits (Suc w) v = (v AND 1 \<noteq> 0) # uint_bits w (drop_bit 1 v)"

fun sint_bits :: "nat \<Rightarrow> u64 \<Rightarrow> bool list" where
  "sint_bits 0 v = []"
| "sint_bits (Suc w) v = (v AND 1 \<noteq> 0) # sint_bits w (signed_drop_bit 1 v)"

definition bb_bvuint :: "('s, 'b) psolver \<Rightarrow> u64 \<Rightarrow> nat \<Rightarrow> 's \<Rightarrow> ('b bbval \<times> 's) result" where
  "bb_bvuint P v width s =
     (let (o1, s) = ps_true P s; (z, s) = ps_false P s
      in Inr (BV (map (\<lambda>b. if b then o1 else z) (uint_bits width v)), s))"

definition bb_bvsint :: "('s, 'b) psolver \<Rightarrow> u64 \<Rightarrow> nat \<Rightarrow> 's \<Rightarrow> ('b bbval \<times> 's) result" where
  "bb_bvsint P v width s =
     (let (o1, s) = ps_true P s; (z, s) = ps_false P s
      in Inr (BV (map (\<lambda>b. if b then o1 else z) (sint_bits width v)), s))"

definition bb_bit0 :: "('s, 'b) psolver \<Rightarrow> 's \<Rightarrow> ('b bbval \<times> 's) result" where
  "bb_bit0 P s = (let (r, s) = ps_false P s in Inr (BV [r], s))"

definition bb_bit1 :: "('s, 'b) psolver \<Rightarrow> 's \<Rightarrow> ('b bbval \<times> 's) result" where
  "bb_bit1 P s = (let (r, s) = ps_true P s in Inr (BV [r], s))"

section \<open>Extension, extraction, concatenation\<close>

definition bb_zero_extend :: "('s, 'b) psolver \<Rightarrow> nat \<Rightarrow> 'b bbval \<Rightarrow> 's \<Rightarrow> ('b bbval \<times> 's) result" where
  "bb_zero_extend P width arg1 s =
     rbind (get_bv arg1) (\<lambda>a. let (z, s) = ps_false P s in Inr (BV (a @ replicate width z), s))"

definition bb_sign_extend :: "('s, 'b) psolver \<Rightarrow> nat \<Rightarrow> 'b bbval \<Rightarrow> 's \<Rightarrow> ('b bbval \<times> 's) result" where
  "bb_sign_extend P width arg1 s =
     rbind (get_bv arg1) (\<lambda>a.
       if a = [] then Inl AssertionFailure else Inr (BV (a @ replicate width (last a)), s))"

text \<open>\<open>bv_getter\<close>: the alternative is checked by an \<open>assert\<close>, not by \<open>bad_get\<close>.\<close>

fun bv_getter :: "'b bbval \<Rightarrow> 'b list result" where
  "bv_getter (BV bs) = Inr bs"
| "bv_getter (Base b) = Inl AssertionFailure"

definition bb_extract ::
    "('s, 'b) psolver \<Rightarrow> nat \<Rightarrow> nat \<Rightarrow> 'b bbval \<Rightarrow> 's \<Rightarrow> ('b bbval \<times> 's) result" where
  "bb_extract P upper lower e s =
     rbind (bv_getter e) (\<lambda>bv.
       if lower \<le> upper + 1 \<and> upper + 1 \<le> length bv
       then Inr (BV (take (upper + 1 - lower) (drop lower bv)), s)
       else Inl UndefinedBehaviour)"

definition bb_concat ::
    "('s, 'b) psolver \<Rightarrow> 'b bbval \<Rightarrow> 'b bbval \<Rightarrow> 's \<Rightarrow> ('b bbval \<times> 's) result" where
  "bb_concat P e1 e2 s =
     rbind (bv_getter e1) (\<lambda>bv1. rbind (bv_getter e2) (\<lambda>bv2. Inr (BV (bv2 @ bv1), s)))"

section \<open>Addition, negation, multiplication\<close>

fun add_loop :: "('s, 'b) psolver \<Rightarrow> 'b list \<Rightarrow> 'b list \<Rightarrow> 'b \<Rightarrow> 's \<Rightarrow> 'b list \<times> 's" where
  "add_loop P (a # as) (b # bs) carry s =
     (let (xor1, s) = ps_op2 P xor_tag a b s;
          (r, s) = ps_op2 P xor_tag xor1 carry s;
          (and1, s) = ps_op2 P and_tag a b s;
          (or1, s) = ps_op2 P or_tag a b s;
          (and2, s) = ps_op2 P and_tag carry or1 s;
          (carry, s) = ps_op2 P or_tag and1 and2 s;
          (rs, s) = add_loop P as bs carry s
      in (r # rs, s))"
| "add_loop P as bs carry s = ([], s)"

definition bb_bvadd :: "('s, 'b) psolver \<Rightarrow> 'b bbval \<Rightarrow> 'b bbval \<Rightarrow> 's \<Rightarrow> ('b bbval \<times> 's) result" where
  "bb_bvadd P arg1 arg2 s =
     rbind (get_bv arg1) (\<lambda>a. rbind (get_bv arg2) (\<lambda>b.
       if length a \<noteq> length b then Inl AssertionFailure
       else let (carry, s) = ps_false P s; (ret, s) = add_loop P a b carry s in Inr (BV ret, s)))"

definition bb_bvneg :: "('s, 'b) psolver \<Rightarrow> 'b bbval \<Rightarrow> 's \<Rightarrow> ('b bbval \<times> 's) result" where
  "bb_bvneg P arg1 s =
     rbind (get_bv arg1) (\<lambda>a.
       let (z, s) = ps_false P s in
       if a = [] then Inl UndefinedBehaviour
       else let (o1, s) = ps_true P s in
         rbind (bb_bvnot P arg1 s) (\<lambda>(tmp2, s).
           bb_bvadd P tmp2 (BV (o1 # replicate (length a - 1) z)) s))"

definition bb_bvsub :: "('s, 'b) psolver \<Rightarrow> 'b bbval \<Rightarrow> 'b bbval \<Rightarrow> 's \<Rightarrow> ('b bbval \<times> 's) result" where
  "bb_bvsub P arg1 arg2 s = rbind (bb_bvneg P arg2 s) (\<lambda>(tmp, s). bb_bvadd P arg1 tmp s)"

definition shiftR :: "'b list \<Rightarrow> nat \<Rightarrow> 'b \<Rightarrow> 'b list" where
  "shiftR a value x =
     (if value = 0 then a
      else map (\<lambda>i. if value + i < length a then a ! (value + i) else x) [0..<length a])"

fun shiftL_loop :: "('s, 'b) psolver \<Rightarrow> 'b list \<Rightarrow> nat \<Rightarrow> nat list \<Rightarrow> 's \<Rightarrow> 'b list \<times> 's" where
  "shiftL_loop P a value [] s = ([], s)"
| "shiftL_loop P a value (i # is) s =
     (let (r, s) = (if i < value then ps_false P s else (a ! (i - value), s));
          (rs, s) = shiftL_loop P a value is s
      in (r # rs, s))"

definition shiftL :: "('s, 'b) psolver \<Rightarrow> 'b list \<Rightarrow> nat \<Rightarrow> 's \<Rightarrow> 'b list \<times> 's" where
  "shiftL P a value s = (if value = 0 then (a, s) else shiftL_loop P a value [0..<length a] s)"

fun mul_loop ::
    "('s, 'b) psolver \<Rightarrow> 'b list \<Rightarrow> 'b bbval \<Rightarrow> nat list \<Rightarrow> 'b bbval \<Rightarrow> 's \<Rightarrow> ('b bbval \<times> 's) result"
where
  "mul_loop P a arg2 [] ret s = Inr (ret, s)"
| "mul_loop P a arg2 (i # is) ret s =
     rbind (bb_sign_extend P (length a - 1) (BV [a ! i]) s) (\<lambda>(tmp1, s).
     rbind (bb_bvand P arg2 tmp1 s) (\<lambda>(tmp1, s).
     rbind (get_bv tmp1) (\<lambda>t.
       let (t, s) = shiftL P t i s in
       rbind (bb_bvadd P ret (BV t) s) (\<lambda>(ret, s). mul_loop P a arg2 is ret s))))"

definition bb_bvmul :: "('s, 'b) psolver \<Rightarrow> 'b bbval \<Rightarrow> 'b bbval \<Rightarrow> 's \<Rightarrow> ('b bbval \<times> 's) result" where
  "bb_bvmul P arg1 arg2 s =
     rbind (get_bv arg1) (\<lambda>a. rbind (get_bv arg2) (\<lambda>b.
       let (z, s) = ps_false P s
       in mul_loop P a arg2 [0..<length a] (BV (replicate (length a) z)) s))"

section \<open>Shifts by a symbolic amount\<close>

fun shift_loop ::
    "('s, 'b) psolver \<Rightarrow> (nat \<Rightarrow> 's \<Rightarrow> 'b list \<times> 's) \<Rightarrow> nat \<Rightarrow> 'b bbval \<Rightarrow> nat list \<Rightarrow> 'b bbval \<Rightarrow> 's \<Rightarrow>
     ('b bbval \<times> 's) result"
where
  "shift_loop P shifted n value [] ret s = Inr (ret, s)"
| "shift_loop P shifted n value (i # is) ret s =
     rbind (bb_bvuint P (of_nat i) n s) (\<lambda>(index, s).
     rbind (bb_equal P value index s) (\<lambda>(c, s).
       let (sh, s) = shifted i s in
       rbind (bb_ite P c (BV sh) ret s) (\<lambda>(ret, s). shift_loop P shifted n value is ret s)))"

definition bb_bvshr :: "('s, 'b) psolver \<Rightarrow> 'b bbval \<Rightarrow> 'b bbval \<Rightarrow> 's \<Rightarrow> ('b bbval \<times> 's) result" where
  "bb_bvshr P arg1 value s =
     rbind (get_bv arg1) (\<lambda>a.
       let (z, s) = ps_false P s in
       shift_loop P (\<lambda>i s. (shiftR a i z, s)) (length a) value [0..<length a]
         (BV (replicate (length a) z)) s)"

definition bb_bvshl :: "('s, 'b) psolver \<Rightarrow> 'b bbval \<Rightarrow> 'b bbval \<Rightarrow> 's \<Rightarrow> ('b bbval \<times> 's) result" where
  "bb_bvshl P arg1 value s =
     rbind (get_bv arg1) (\<lambda>a.
       let (z, s) = ps_false P s in
       shift_loop P (\<lambda>i s. shiftL P a i s) (length a) value [0..<length a]
         (BV (replicate (length a) z)) s)"

definition bb_bvashr :: "('s, 'b) psolver \<Rightarrow> 'b bbval \<Rightarrow> 'b bbval \<Rightarrow> 's \<Rightarrow> ('b bbval \<times> 's) result" where
  "bb_bvashr P arg1 value s =
     rbind (get_bv arg1) (\<lambda>a.
       if a = [] then Inl UndefinedBehaviour
       else shift_loop P (\<lambda>i s. (shiftR a i (last a), s)) (length a) value [0..<length a]
              (BV (replicate (length a) (last a))) s)"

section \<open>Division\<close>

text \<open>First loop of \<open>uDivRem\<close>: shift the divisor to the left until its top bit is set.\<close>

fun div_align :: "('s, 'b) psolver \<Rightarrow> nat \<Rightarrow> 'b list \<Rightarrow> 'b bbval \<Rightarrow> 's \<Rightarrow> ('b bbval \<times> 's) result" where
  "div_align P 0 b divisor s = Inr (divisor, s)"
| "div_align P (Suc k) b divisor s =
     (if b = [] then Inl UndefinedBehaviour
      else let (sb, s) = shiftL P b 1 s in
        rbind (bb_ite P (Base (last b)) divisor (BV sb) s) (\<lambda>(divisor, s).
        rbind (get_bv divisor) (\<lambda>b. div_align P k b divisor s)))"

text \<open>
  Second loop: subtract where possible, shift the divisor back until it is \<open>arg2\<close> again; from then on
  (\<open>checker\<close>) shift the quotient into place.
\<close>

fun div_loop ::
    "('s, 'b) psolver \<Rightarrow> 'b bbval \<Rightarrow> 'b \<Rightarrow> 'b \<Rightarrow> nat list \<Rightarrow>
     'b bbval \<Rightarrow> 'b bbval \<Rightarrow> 'b list \<Rightarrow> 'b bbval \<Rightarrow> 's \<Rightarrow> (('b bbval \<times> 'b list) \<times> 's) result"
where
  "div_loop P arg2 zero one [] arg1 divisor ret checker s = Inr ((arg1, ret), s)"
| "div_loop P arg2 zero one (i # is) arg1 divisor ret checker s =
     rbind (bb_bvuge P arg1 divisor s) (\<lambda>(do_devide, s).
     rbind (bb_equal P divisor arg2 s) (\<lambda>(eq, s).
     rbind (bb_bvsub P arg1 divisor s) (\<lambda>(diff, s).
     rbind (bb_ite P do_devide diff arg1 s) (\<lambda>(arg1, s).
     rbind (get_bv divisor) (\<lambda>d.
     rbind (bb_ite P eq divisor (BV (shiftR d 1 zero)) s) (\<lambda>(divisor, s).
     rbind (bb_ite P checker (Base zero) do_devide s) (\<lambda>(do_devide, s).
     rbind (get_base do_devide) (\<lambda>q.
       let ret = ret[length ret - i := q] in
       rbind (bb_ite P checker (BV (shiftR ret 1 zero)) (BV ret) s) (\<lambda>(bo, s).
       rbind (get_bv bo) (\<lambda>ret.
       rbind (bb_ite P eq (Base one) checker s) (\<lambda>(checker, s).
         div_loop P arg2 zero one is arg1 divisor ret checker s)))))))))))"

definition uDivRem ::
    "('s, 'b) psolver \<Rightarrow> 'b bbval \<Rightarrow> 'b bbval \<Rightarrow> bool \<Rightarrow> 's \<Rightarrow> ('b bbval \<times> 's) result" where
  "uDivRem P arg1 arg2 value s =
     rbind (get_bv arg1) (\<lambda>a. rbind (get_bv arg2) (\<lambda>b.
       let (zero, s) = ps_false P s; (one, s) = ps_true P s in
       rbind (div_align P (length a) b arg2 s) (\<lambda>(divisor, s).
       rbind (div_loop P arg2 zero one [1..<length a + 1] arg1 divisor
                (replicate (length a) zero) (Base zero) s) (\<lambda>((arg1, ret), s).
         if value then Inr (BV ret, s) else Inr (arg1, s)))))"

definition sDivRem ::
    "('s, 'b) psolver \<Rightarrow> 'b bbval \<Rightarrow> 'b bbval \<Rightarrow> bool \<Rightarrow> 's \<Rightarrow> ('b bbval \<times> 's) result" where
  "sDivRem P arg1 arg2 value s =
     rbind (get_bv arg1) (\<lambda>a. rbind (get_bv arg2) (\<lambda>b.
     rbind (bb_bvneg P arg1 s) (\<lambda>(tmp1, s).
     rbind (bb_bvneg P arg2 s) (\<lambda>(tmp2, s).
     rbind (bb_bvneg P arg1 s) (\<lambda>(na, s).
     rbind (bb_ite P (Base (last a)) na arg1 s) (\<lambda>(aneg, s).
     rbind (bb_bvneg P arg2 s) (\<lambda>(nb, s).
     rbind (bb_ite P (Base (last b)) nb arg2 s) (\<lambda>(bneg, s).
     rbind (uDivRem P aneg bneg value s) (\<lambda>(test, s).
       let (x, s) = ps_op2 P xor_tag (last a) (last b) s in
       rbind (bb_bvneg P test s) (\<lambda>(nt, s). bb_ite P (Base x) nt test s))))))))))"

definition bb_bvudiv where "bb_bvudiv P arg1 arg2 = uDivRem P arg1 arg2 True"
definition bb_bvurem where "bb_bvurem P arg1 arg2 = uDivRem P arg1 arg2 False"
definition bb_bvsdiv where "bb_bvsdiv P arg1 arg2 = sDivRem P arg1 arg2 True"
definition bb_bvsrem where "bb_bvsrem P arg1 arg2 = sDivRem P arg1 arg2 False"

end
