(* ===== verification/Meta.thy ===== *)
theory Meta
  imports BitArith
begin

text \<open>
  The translation of constraints for a solver: \<open>metaSMTVisitorImpl<SolverType>\<close> of CRAVE, for a solver
  type that is metaSMT's bit blaster over any predicate solver. The visitor's state is the record
  \<open>meta\<close>: the state of the solver, the stack of pairs of a result and its signedness, the map from
  variable identifiers to results, and the lists of soft constraints, assumptions and suggestions.
  \<open>evaluate\<close> runs the operators of an expression bottom up; two operands are taken from left to right.
\<close>

section \<open>The state\<close>

type_synonym 'b meta_entry = "'b bbval \<times> bool"

record ('s, 'b) meta =
  mv_solver :: 's
  mv_stack :: "'b meta_entry list"
  mv_terminals :: "nat \<rightharpoonup> 'b bbval"
  mv_softs :: "'b bbval list"
  mv_assumptions :: "'b bbval list"
  mv_suggestions :: "'b bbval list"

definition new_meta :: "'s \<Rightarrow> ('s, 'b) meta" where
  "new_meta s = \<lparr>mv_solver = s, mv_stack = [], mv_terminals = Map.empty, mv_softs = [],
     mv_assumptions = [], mv_suggestions = []\<rparr>"

definition mv_push :: "'b meta_entry \<times> 's \<Rightarrow> ('s, 'b) meta \<Rightarrow> ('s, 'b) meta" where
  "mv_push = (\<lambda>(e, s) v. v\<lparr>mv_solver := s, mv_stack := e # mv_stack v\<rparr>)"

section \<open>Operators on results\<close>

definition meta_constant :: "('s, 'b) psolver \<Rightarrow> const_t \<Rightarrow> 's \<Rightarrow> ('b meta_entry \<times> 's) result" where
  "meta_constant P c s =
     rbind (if isBool (cbitsize c) (csign c)
            then Inr (if cvalue c \<noteq> 0 then bb_true P s else bb_false P s)
            else if csign c then bb_bvsint P (cvalue c) (cbitsize c) s
            else bb_bvuint P (cvalue c) (cbitsize c) s)
       (\<lambda>(r, s). Inr ((r, csign c), s))"

fun meta_unop :: "('s, 'b) psolver \<Rightarrow> unop \<Rightarrow> 'b meta_entry \<Rightarrow> 's \<Rightarrow> ('b meta_entry \<times> 's) result" where
  "meta_unop P NotOpr (e, sg) s = rbind (bb_not P e s) (\<lambda>(r, s). Inr ((r, sg), s))"
| "meta_unop P NegOpr (e, sg) s = rbind (bb_bvneg P e s) (\<lambda>(r, s). Inr ((r, sg), s))"
| "meta_unop P ComplementOpr (e, sg) s = rbind (bb_bvnot P e s) (\<lambda>(r, s). Inr ((r, sg), s))"
| "meta_unop P Unique (e, sg) s = Inl (RuntimeError ''Unique is not allowed in metaSMTNodeVisitor.'')"

type_synonym ('s, 'b) bb_op2 = "'b bbval \<Rightarrow> 'b bbval \<Rightarrow> 's \<Rightarrow> ('b bbval \<times> 's) result"

text \<open>
  The choice the comparisons and the division make by the signedness of their operands: the signed or
  the unsigned operator, or the signed one on operands widened by one bit each.
\<close>

definition by_sign ::
    "('s, 'b) psolver \<Rightarrow> ('s, 'b) bb_op2 \<Rightarrow> ('s, 'b) bb_op2 \<Rightarrow> 'b meta_entry \<Rightarrow> 'b meta_entry \<Rightarrow> 's \<Rightarrow> ('b bbval \<times> 's) result"
where
  "by_sign P sop uop = (\<lambda>(lhs, lhs_signed) (rhs, rhs_signed) s.
     if lhs_signed \<and> rhs_signed then sop lhs rhs s
     else if \<not> (lhs_signed \<or> rhs_signed) then uop lhs rhs s
     else if lhs_signed then
       rbind (bb_sign_extend P 1 lhs s) (\<lambda>(l, s). rbind (bb_zero_extend P 1 rhs s) (\<lambda>(r, s). sop l r s))
     else
       rbind (bb_zero_extend P 1 lhs s) (\<lambda>(l, s). rbind (bb_sign_extend P 1 rhs s) (\<lambda>(r, s). sop l r s)))"

text \<open>What each \<open>visit\<close> of a binary operator computes from the two popped entries.\<close>

definition binop_result ::
    "('s, 'b) psolver \<Rightarrow> binop \<Rightarrow> 'b meta_entry \<Rightarrow> 'b meta_entry \<Rightarrow> 's \<Rightarrow> ('b bbval \<times> 's) result" where
  "binop_result P f fst_p snd_p s =
     (let a = fst fst_p; b = fst snd_p in
      case f of
        AndOpr \<Rightarrow> bb_bvand P a b s
      | OrOpr \<Rightarrow> bb_bvor P a b s
      | LogicalAndOpr \<Rightarrow> bb_op2 P and_tag a b s
      | LogicalOrOpr \<Rightarrow> bb_op2 P or_tag a b s
      | XorOpr \<Rightarrow> bb_bvxor P a b s
      | EqualOpr \<Rightarrow> bb_equal P a b s
      | NotEqualOpr \<Rightarrow> bb_nequal P a b s
      | LessOpr \<Rightarrow> by_sign P (bb_bvslt P) (bb_bvult P) fst_p snd_p s
      | LessEqualOpr \<Rightarrow> by_sign P (bb_bvsle P) (bb_bvule P) fst_p snd_p s
      | GreaterOpr \<Rightarrow> by_sign P (bb_bvsgt P) (bb_bvugt P) fst_p snd_p s
      | GreaterEqualOpr \<Rightarrow> by_sign P (bb_bvsge P) (bb_bvuge P) fst_p snd_p s
      | PlusOpr \<Rightarrow> bb_bvadd P a b s
      | MinusOpr \<Rightarrow> bb_bvsub P a b s
      | MultipliesOpr \<Rightarrow> bb_bvmul P a b s
      | DevideOpr \<Rightarrow> by_sign P (bb_bvsdiv P) (bb_bvudiv P) fst_p snd_p s
      | ModuloOpr \<Rightarrow> (if snd fst_p then bb_bvsrem P a b s else bb_bvurem P a b s)
      | ShiftLeftOpr \<Rightarrow> bb_bvshl P a b s
      | ShiftRightOpr \<Rightarrow> bb_bvshr P a b s
      | ForEach \<Rightarrow> Inl (RuntimeError ''ForEach is not allowed in metaSMTNodeVisitor.''))"

definition binop_sign :: "binop \<Rightarrow> bool \<Rightarrow> bool \<Rightarrow> bool" where
  "binop_sign f l r =
     (if f \<in> {EqualOpr, NotEqualOpr, LessOpr, LessEqualOpr, GreaterOpr, GreaterEqualOpr} then False
      else if f \<in> {ShiftLeftOpr, ShiftRightOpr} then l else l \<or> r)"

definition meta_binop ::
    "('s, 'b) psolver \<Rightarrow> binop \<Rightarrow> 'b meta_entry \<Rightarrow> 'b meta_entry \<Rightarrow> 's \<Rightarrow> ('b meta_entry \<times> 's) result" where
  "meta_binop P f a b s = rbind (binop_result P f a b s) (\<lambda>(r, s). Inr ((r, binop_sign f (snd a) (snd b)), s))"

text \<open>The loop of \<open>visitInside\<close>: each constant is pushed, popped and compared.\<close>

fun inside_loop ::
    "('s, 'b) psolver \<Rightarrow> 'b bbval \<Rightarrow> const_t list \<Rightarrow> 'b bbval \<Rightarrow> 's \<Rightarrow> ('b bbval \<times> 's) result" where
  "inside_loop P e [] result s = Inr (result, s)"
| "inside_loop P e (c # cs) result s =
     rbind (meta_constant P c s) (\<lambda>(k, s).
     rbind (bb_equal P e (fst k) s) (\<lambda>(eq, s).
     rbind (bb_op2 P or_tag result eq s) (\<lambda>(result, s). inside_loop P e cs result s)))"

definition meta_extend :: "('s, 'b) psolver \<Rightarrow> nat \<Rightarrow> 'b meta_entry \<Rightarrow> 's \<Rightarrow> ('b meta_entry \<times> 's) result" where
  "meta_extend P k = (\<lambda>(e, sg) s.
     rbind (if sg then bb_sign_extend P k e s else bb_zero_extend P k e s) (\<lambda>(r, s). Inr ((r, sg), s)))"

definition meta_ite ::
    "('s, 'b) psolver \<Rightarrow> 'b meta_entry \<Rightarrow> 'b meta_entry \<Rightarrow> 'b meta_entry \<Rightarrow> 's \<Rightarrow> ('b meta_entry \<times> 's) result" where
  "meta_ite P a b c s =
     (let (t, s) = bb_true P s in
      rbind (bb_equal P (fst a) t s) (\<lambda>(cond, s).
      rbind (bb_ite P cond (fst b) (fst c) s) (\<lambda>(r, s). Inr ((r, False), s))))"

text \<open>The bounds of a slice are \<open>int\<close> and become \<open>unsigned\<close> arguments of \<open>extract\<close>.\<close>

definition to_unsigned :: "int \<Rightarrow> nat" where
  "to_unsigned i = nat (i mod 2 ^ 32)"

definition meta_bitslice ::
    "('s, 'b) psolver \<Rightarrow> int \<Rightarrow> int \<Rightarrow> 'b meta_entry \<Rightarrow> 's \<Rightarrow> ('b meta_entry \<times> 's) result" where
  "meta_bitslice P r l = (\<lambda>(e, sg) s.
     rbind (bb_extract P (to_unsigned r) (to_unsigned l) e s) (\<lambda>(x, s). Inr ((x, False), s)))"

section \<open>The visitor\<close>

definition meta_variable :: "('s, 'b) psolver \<Rightarrow> nat \<Rightarrow> nat \<Rightarrow> bool \<Rightarrow> ('s, 'b) meta \<Rightarrow> ('s, 'b) meta result" where
  "meta_variable P i b sg v =
     (case mv_terminals v i of
        Some r \<Rightarrow> Inr (mv_push ((r, sg), mv_solver v) v)
      | None \<Rightarrow>
          rbind (if isBool b sg then let (r, s) = ps_var P (mv_solver v) in Inr (Base r, s)
                 else bb_bv_var P b (mv_solver v)) (\<lambda>(r, s).
            Inr (mv_push ((r, sg), s) (v\<lparr>mv_terminals := (mv_terminals v)(i \<mapsto> r)\<rparr>))))"

definition mv_pop :: "('s, 'b) meta \<Rightarrow> ('b meta_entry \<times> ('s, 'b) meta) result" where
  "mv_pop v = rbind (pop (mv_stack v)) (\<lambda>(e, st). Inr (e, v\<lparr>mv_stack := st\<rparr>))"

definition mv_unary ::
    "('b meta_entry \<Rightarrow> 's \<Rightarrow> ('b meta_entry \<times> 's) result) \<Rightarrow> ('s, 'b) meta \<Rightarrow> ('s, 'b) meta result" where
  "mv_unary f v = rbind (mv_pop v) (\<lambda>(e, v). rbind (f e (mv_solver v)) (\<lambda>r. Inr (mv_push r v)))"

definition mv_binary ::
    "('b meta_entry \<Rightarrow> 'b meta_entry \<Rightarrow> 's \<Rightarrow> ('b meta_entry \<times> 's) result) \<Rightarrow> ('s, 'b) meta \<Rightarrow> ('s, 'b) meta result" where
  "mv_binary f v = rbind (pop2 (mv_stack v)) (\<lambda>(snd_p, fst_p, st).
     rbind (f fst_p snd_p (mv_solver v)) (\<lambda>r. Inr (mv_push r (v\<lparr>mv_stack := st\<rparr>))))"

definition mv_ternary ::
    "('b meta_entry \<Rightarrow> 'b meta_entry \<Rightarrow> 'b meta_entry \<Rightarrow> 's \<Rightarrow> ('b meta_entry \<times> 's) result) \<Rightarrow>
     ('s, 'b) meta \<Rightarrow> ('s, 'b) meta result" where
  "mv_ternary f v = rbind (pop3 (mv_stack v)) (\<lambda>(trd_p, snd_p, fst_p, st).
     rbind (f fst_p snd_p trd_p (mv_solver v)) (\<lambda>r. Inr (mv_push r (v\<lparr>mv_stack := st\<rparr>))))"

fun meta_visit :: "('s, 'b) psolver \<Rightarrow> node \<Rightarrow> ('s, 'b) meta \<Rightarrow> ('s, 'b) meta result" where
  "meta_visit P (Placeholder i) v = Inr v"
| "meta_visit P (VariableExpr i b sg) v = meta_variable P i b sg v"
| "meta_visit P (ConstantExpr c) v = rbind (meta_constant P c (mv_solver v)) (\<lambda>r. Inr (mv_push r v))"
| "meta_visit P (VectorExpr i b sg) v = Inl (RuntimeError ''VectorExpr is not allowed in metaSMTNodeVisitor.'')"
| "meta_visit P (UnaryOperator u n) v =
     (if u = Unique then Inl (RuntimeError ''Unique is not allowed in metaSMTNodeVisitor.'')
      else rbind (meta_visit P n v) (mv_unary (meta_unop P u)))"
| "meta_visit P (Inside n cs) v =
     rbind (meta_visit P n v) (mv_unary (\<lambda>e s.
       let (r, s) = bb_false P s in
       rbind (inside_loop P (fst e) cs r s) (\<lambda>(r, s). Inr ((r, False), s))))"
| "meta_visit P (ExtendExpression n k) v = rbind (meta_visit P n v) (mv_unary (meta_extend P k))"
| "meta_visit P (BinaryOperator f l r) v =
     (if f = ForEach then Inl (RuntimeError ''ForEach is not allowed in metaSMTNodeVisitor.'')
      else rbind (meta_visit P l v) (\<lambda>v. rbind (meta_visit P r v) (mv_binary (meta_binop P f))))"
| "meta_visit P (VectorAccess l r) v = Inl (RuntimeError ''VectorAccess is not allowed in metaSMTNodeVisitor.'')"
| "meta_visit P (IfThenElse a b c) v =
     rbind (meta_visit P a v) (\<lambda>v. rbind (meta_visit P b v) (\<lambda>v. rbind (meta_visit P c v) (mv_ternary (meta_ite P))))"
| "meta_visit P (Bitslice n r l) v = rbind (meta_visit P n v) (mv_unary (meta_bitslice P r l))"

section \<open>Constraints\<close>

definition makeAssertion :: "('s, 'b) psolver \<Rightarrow> node \<Rightarrow> ('s, 'b) meta \<Rightarrow> ('s, 'b) meta result" where
  "makeAssertion P n v =
     rbind (meta_visit P n v) (\<lambda>v. rbind (mv_pop v) (\<lambda>(e, v).
       let (t, s) = bb_true P (mv_solver v) in
       rbind (bb_equal P (fst e) t s) (\<lambda>(r, s).
       rbind (bb_assertion P r s) (\<lambda>s. Inr (v\<lparr>mv_solver := s\<rparr>)))))"

definition makeSoftAssertion :: "('s, 'b) psolver \<Rightarrow> node \<Rightarrow> ('s, 'b) meta \<Rightarrow> ('s, 'b) meta result" where
  "makeSoftAssertion P n v =
     rbind (meta_visit P n v) (\<lambda>v. rbind (mv_pop v) (\<lambda>(e, v). Inr (v\<lparr>mv_softs := mv_softs v @ [fst e]\<rparr>)))"

definition makeSuggestion :: "('s, 'b) psolver \<Rightarrow> node \<Rightarrow> ('s, 'b) meta \<Rightarrow> ('s, 'b) meta result" where
  "makeSuggestion P n v =
     rbind (meta_visit P n v) (\<lambda>v. rbind (mv_pop v) (\<lambda>(e, v). Inr (v\<lparr>mv_suggestions := mv_suggestions v @ [fst e]\<rparr>)))"

definition makeAssumption :: "('s, 'b) psolver \<Rightarrow> node \<Rightarrow> ('s, 'b) meta \<Rightarrow> ('s, 'b) meta result" where
  "makeAssumption P n v =
     rbind (meta_visit P n v) (\<lambda>v. rbind (mv_pop v) (\<lambda>(e, v).
       let (t, s) = bb_true P (mv_solver v) in
       rbind (bb_equal P (fst e) t s) (\<lambda>(r, s).
         Inr (v\<lparr>mv_solver := s, mv_assumptions := mv_assumptions v @ [r]\<rparr>))))"

end
