(* ===== verification/BitCorrect.thy ===== *)
theory BitCorrect
  imports BitArith
begin

text \<open>
  What the bit blaster computes, proved once over the contract of the predicate solver: each
  operation returns (no error on arguments of the right shape), extends the solver's state
  conservatively, and the bits of its result have, in every model, the value of the bit-vector
  operation on the values of the arguments' bits.
\<close>

section \<open>Comparing numbers from the most significant bit\<close>

lemma msb_less:
  assumes "length xs = length ys"
  shows "bits_val (xs @ [x]) < bits_val (ys @ [y]) \<longleftrightarrow>
    (\<not> x \<and> y) \<or> (x = y \<and> bits_val xs < bits_val ys)"
  using assms bits_val_less [of xs] bits_val_less [of ys] by (cases x; cases y) (auto simp: bits_simps)

lemma msb_eq:
  assumes "length xs = length ys"
  shows "bits_val (xs @ [x]) = bits_val (ys @ [y]) \<longleftrightarrow> x = y \<and> bits_val xs = bits_val ys"
  using assms bits_val_less [of xs] bits_val_less [of ys] by (cases x; cases y) (auto simp: bits_simps)

lemma smsb_less:
  assumes "length xs = length ys"
  shows "bits_sval (xs @ [x]) < bits_sval (ys @ [y]) \<longleftrightarrow>
    (x \<and> \<not> y) \<or> (x = y \<and> bits_val xs < bits_val ys)"
proof -
  obtain N where N: "N = (2 :: int) ^ length ys" by simp
  have "int (bits_val xs) < N" "int (bits_val ys) < N"
    using bits_val_less [of xs] bits_val_less [of ys] assms by (simp_all add: N)
  then show ?thesis using assms by (cases x; cases y) (auto simp: bits_sval_snoc N [symmetric])
qed

lemma smsb_eq:
  assumes "length xs = length ys"
  shows "bits_sval (xs @ [x]) = bits_sval (ys @ [y]) \<longleftrightarrow> x = y \<and> bits_val xs = bits_val ys"
proof -
  obtain N where N: "N = (2 :: int) ^ length ys" by simp
  have "int (bits_val xs) < N" "int (bits_val ys) < N"
    using bits_val_less [of xs] bits_val_less [of ys] assms by (simp_all add: N)
  then show ?thesis using assms by (cases x; cases y) (auto simp: bits_sval_snoc N [symmetric])
qed

text \<open>The comparisons as the loops decide them: by the top bits, then by the rest.\<close>

lemmas cmp_last = msb_less msb_eq smsb_less smsb_eq order.order_iff_strict

section \<open>One position of the ripple-carry adder\<close>

lemma full_adder:
  "of_bool (x \<noteq> y \<longleftrightarrow> \<not> z) + 2 * ((u + v + of_bool (x \<and> y \<or> z \<and> (x \<or> y))) mod n) =
    (of_bool x + 2 * u + (of_bool y + 2 * v) + of_bool z) mod (2 * n :: nat)"
proof -
  have "of_bool x + 2 * u + (of_bool y + 2 * v) + of_bool z =
      of_bool (x \<noteq> y \<longleftrightarrow> \<not> z) + 2 * (u + v + of_bool (x \<and> y \<or> z \<and> (x \<or> y)) :: nat)"
    by (cases x; cases y; cases z) simp_all
  then show ?thesis by (simp only: mod_double)
qed

section \<open>Values of constructed bit lists\<close>

lemma bits_val_map_Not: "bits_val (map Not xs) + bits_val xs + 1 = 2 ^ length xs"
  by (induction xs) auto

lemma bits_val_Cons_zeros [simp]: "bits_val (b # replicate n False) = of_bool b"
  by simp

lemma bits_val_shiftR:
  assumes "v < length xs"
  shows "bits_val (map (\<lambda>i. v + i < length xs \<and> xs ! (v + i)) [0..<length xs]) = bits_val xs div 2 ^ v"
proof -
  have "map (\<lambda>i. v + i < length xs \<and> xs ! (v + i)) [0..<length xs] = drop v xs @ replicate v False"
    using assms by (intro nth_equalityI) (auto simp: nth_append)
  then show ?thesis by (simp add: bits_val_append bits_val_drop)
qed

lemma bits_val_uint_bits: "bits_val (uint_bits w v) = unat v mod 2 ^ w"
proof (induction w arbitrary: v)
  case (Suc w)
  have "v AND 1 \<noteq> 0 \<longleftrightarrow> bit v 0" by (simp add: and_one_eq bit_0 odd_iff_mod_2_eq_one)
  also have "\<dots> \<longleftrightarrow> odd (unat v)" by (simp add: bit_unsigned_iff flip: bit_0)
  finally have "v AND 1 \<noteq> 0 \<longleftrightarrow> odd (unat v)" .
  moreover have "unat (drop_bit 1 v) = unat v div 2"
    unfolding unat_drop_bit_eq by (simp add: drop_bit_Suc)
  ultimately have "unat v = of_bool (v AND 1 \<noteq> 0) + 2 * unat (drop_bit 1 v)" by simp
  then show ?case by (simp only: uint_bits.simps bits_val.simps Suc.IH power_Suc mod_double)
qed simp

lemma length_uint_bits [simp]: "length (uint_bits w v) = w"
  by (induction w arbitrary: v) auto

lemma bits_val_sum:
  "(\<Sum>i\<leftarrow>[0..<length xs]. of_bool (xs ! i) * 2 ^ i * c) = bits_val xs * (c :: nat)"
proof (induction xs arbitrary: c)
  case (Cons x xs)
  have "(\<Sum>i\<leftarrow>[0..<length (x # xs)]. of_bool ((x # xs) ! i) * 2 ^ i * c) =
      of_bool x * c + (\<Sum>i\<leftarrow>[0..<length xs]. of_bool (xs ! i) * 2 ^ i * (2 * c))"
    by (simp add: map_Suc_upt [symmetric] o_def algebra_simps del: upt_Suc add: upt_conv_Cons)
  then show ?case by (simp only: Cons.IH) (simp add: algebra_simps)
qed simp

section \<open>The loops\<close>

lemma bits_val_shiftL:
  "bits_val (map (\<lambda>i. i \<ge> v \<and> xs ! (i - v)) [0..<length xs]) = (2 ^ v * bits_val xs) mod 2 ^ length xs"
proof -
  have "map (\<lambda>i. i \<ge> v \<and> xs ! (i - v)) [0..<length xs] = take (length xs) (replicate v False @ xs)"
    by (rule nth_equalityI) (auto simp: nth_append)
  then show ?thesis by (simp only: bits_val_take bits_val_append) simp
qed


context predicate_solver
begin

abbreviation bvals :: "'m \<Rightarrow> 'b list \<Rightarrow> bool list" where
  "bvals m bs \<equiv> map (val m) bs"

abbreviation bnum :: "'m \<Rightarrow> 'b list \<Rightarrow> nat" where
  "bnum m bs \<equiv> bits_val (map (val m) bs)"

lemma wp_bitwise_loop:
  assumes "length as = length bs" and "env s0 s A E" and "set as \<subseteq> A" and "set bs \<subseteq> A"
    and "\<And>rs s'. length rs = length as \<Longrightarrow> env s0 s' (set rs \<union> A)
      (\<lambda>m. E m \<and> bvals m rs = map2 (tag2_sem t) (bvals m as) (bvals m bs)) \<Longrightarrow> Q rs s'"
  shows "wp (bitwise_loop P t as bs s) Q"
  using assms
proof (induction as bs arbitrary: s A E Q rule: list_induct2)
  case Nil
  then show ?case by simp
next
  case (Cons a as b bs)
  have in_A [simp]: "a \<in> A" "b \<in> A" "set as \<subseteq> A" "set bs \<subseteq> A"
    using Cons.prems(2,3) by auto
  show ?case
    unfolding bitwise_loop.simps
    by (rule wp_Let_case, rule wp_op2, rule Cons.prems(1), (simp; fail)+)
      (rule wp_Let_case, rule Cons.IH, assumption, (simp add: subset_insertI2; fail)+,
        simp only: wp_pair, rule Cons.prems(4), simp, erule env_mono, auto)
qed

lemma wp_not_loop:
  assumes "env s0 s A E" and "set as \<subseteq> A"
    and "\<And>rs s'. length rs = length as \<Longrightarrow> env s0 s' (set rs \<union> A)
      (\<lambda>m. E m \<and> bvals m rs = map Not (bvals m as)) \<Longrightarrow> Q rs s'"
  shows "wp (not_loop P as s) Q"
  using assms
proof (induction as arbitrary: s A E Q)
  case (Cons a as)
  have in_A [simp]: "a \<in> A" "set as \<subseteq> A"
    using Cons.prems(2) by auto
  show ?case
    unfolding not_loop.simps
    by (rule wp_Let_case, rule wp_not, rule Cons.prems(1), (simp; fail)+)
      (rule wp_Let_case, rule Cons.IH, assumption, (simp add: subset_insertI2; fail)+,
        simp only: wp_pair, rule Cons.prems(3), simp, erule env_mono, auto)
qed simp

lemma wp_ite_loop:
  assumes "length as = length bs" and "env s0 s A E" and "c \<in> A" and "set as \<subseteq> A" and "set bs \<subseteq> A"
    and "\<And>rs s'. length rs = length as \<Longrightarrow> env s0 s' (set rs \<union> A)
      (\<lambda>m. E m \<and> bvals m rs = (if val m c then bvals m as else bvals m bs)) \<Longrightarrow> Q rs s'"
  shows "wp (ite_loop P c as bs s) Q"
  using assms
proof (induction as bs arbitrary: s A E Q rule: list_induct2)
  case Nil
  then show ?case by simp
next
  case (Cons a as b bs)
  have in_A [simp]: "c \<in> A" "a \<in> A" "b \<in> A" "set as \<subseteq> A" "set bs \<subseteq> A"
    using Cons.prems(2-4) by auto
  show ?case
    unfolding ite_loop.simps
    by (rule wp_Let_case, rule wp_ite, rule Cons.prems(1), (simp; fail)+)
      (rule wp_Let_case, rule Cons.IH, assumption, (simp add: subset_insertI2; fail)+,
        simp only: wp_pair, rule Cons.prems(5), simp, erule env_mono, auto split: if_splits)
qed

lemma wp_equal_loop:
  assumes "length as = length bs" and "env s0 s A E" and "set as \<subseteq> A" and "set bs \<subseteq> A" and "r \<in> A"
    and "\<And>r' s'. env s0 s' (insert r' A)
      (\<lambda>m. E m \<and> val m r' = (val m r \<and> bvals m as = bvals m bs)) \<Longrightarrow> Q r' s'"
  shows "wp (equal_loop P as bs r s) Q"
  using assms
proof (induction as bs arbitrary: s A E Q r rule: list_induct2)
  case Nil
  show ?case
    by (simp, rule Nil.prems(5)) (rule env_mono [OF Nil.prems(1)]; use Nil.prems(4) in auto)
next
  case (Cons a as b bs)
  have in_A [simp]: "r \<in> A" "a \<in> A" "b \<in> A" "set as \<subseteq> A" "set bs \<subseteq> A"
    using Cons.prems(2-4) by auto
  show ?case
    unfolding equal_loop.simps
    by (rule wp_Let_case, rule wp_op2, (rule Cons.prems(1) | assumption), (simp; fail)+)+
      (rule Cons.IH, assumption, (simp add: subset_insertI2; fail)+, rule Cons.prems(5),
        erule env_mono, auto)
qed

lemma wp_nequal_loop:
  assumes "length as = length bs" and "env s0 s A E" and "set as \<subseteq> A" and "set bs \<subseteq> A" and "r \<in> A"
    and "\<And>r' s'. env s0 s' (insert r' A)
      (\<lambda>m. E m \<and> val m r' = (val m r \<or> bvals m as \<noteq> bvals m bs)) \<Longrightarrow> Q r' s'"
  shows "wp (nequal_loop P as bs r s) Q"
  using assms
proof (induction as bs arbitrary: s A E Q r rule: list_induct2)
  case Nil
  show ?case
    by (simp, rule Nil.prems(5)) (rule env_mono [OF Nil.prems(1)]; use Nil.prems(4) in auto)
next
  case (Cons a as b bs)
  have in_A [simp]: "r \<in> A" "a \<in> A" "b \<in> A" "set as \<subseteq> A" "set bs \<subseteq> A"
    using Cons.prems(2-4) by auto
  show ?case
    unfolding nequal_loop.simps
    by (rule wp_Let_case, rule wp_op2, (rule Cons.prems(1) | assumption), (simp; fail)+)+
      (rule Cons.IH, assumption, (simp add: subset_insertI2; fail)+, rule Cons.prems(5),
        erule env_mono, auto)
qed

abbreviation sgnum :: "'m \<Rightarrow> 'b list \<Rightarrow> int" where
  "sgnum m bs \<equiv> bits_sval (map (val m) bs)"

text \<open>\<open>as\<close> and \<open>bs\<close> are the bits below those already compared, most significant bit first.\<close>

lemma wp_less_loop:
  assumes "length as = length bs" and "env s0 s A E" and "set as \<subseteq> A" and "set bs \<subseteq> A"
    and "r \<in> A" and "e \<in> A"
    and "\<And>r' e' s'. env s0 s' (insert r' (insert e' A))
      (\<lambda>m. E m \<and> val m r' = (val m r \<or> val m e \<and> bnum m (rev as) < bnum m (rev bs)) \<and>
           val m e' = (val m e \<and> bnum m (rev as) = bnum m (rev bs))) \<Longrightarrow> Q (r', e') s'"
  shows "wp (less_loop P as bs r e s) Q"
  using assms
proof (induction as bs arbitrary: s A E Q r e rule: list_induct2)
  case Nil
  show ?case
    by (simp, rule Nil.prems(6)) (rule env_mono [OF Nil.prems(1)]; use Nil.prems(4,5) in auto)
next
  case (Cons a as b bs)
  have in_A [simp]: "a \<in> A" "b \<in> A" "r \<in> A" "e \<in> A" "set as \<subseteq> A" "set bs \<subseteq> A"
    using Cons.prems(2-5) by auto
  have cmp: "bnum m (rev as @ [a]) < bnum m (rev bs @ [b]) \<longleftrightarrow>
      \<not> val m a \<and> val m b \<or> val m a = val m b \<and> bnum m (rev as) < bnum m (rev bs)"
    "bnum m (rev as @ [a]) = bnum m (rev bs @ [b]) \<longleftrightarrow>
      val m a = val m b \<and> bnum m (rev as) = bnum m (rev bs)" for m
    using Cons.hyps by (simp_all add: msb_less msb_eq)
  show ?case
    unfolding less_loop.simps
    by (rule wp_Let_case, rule wp_not wp_op2, (rule Cons.prems(1) | assumption), (simp; fail)+)+
      (rule Cons.IH, assumption, (simp add: subset_insertI2; fail)+, rule Cons.prems(6),
        erule env_mono, blast, auto simp: cmp simp del: map_append)
qed

lemma wp_great_loop:
  assumes "length as = length bs" and "env s0 s A E" and "set as \<subseteq> A" and "set bs \<subseteq> A"
    and "r \<in> A" and "e \<in> A"
    and "\<And>r' e' s'. env s0 s' (insert r' (insert e' A))
      (\<lambda>m. E m \<and> val m r' = (val m r \<or> val m e \<and> bnum m (rev as) > bnum m (rev bs)) \<and>
           val m e' = (val m e \<and> bnum m (rev as) = bnum m (rev bs))) \<Longrightarrow> Q (r', e') s'"
  shows "wp (great_loop P as bs r e s) Q"
  using assms
proof (induction as bs arbitrary: s A E Q r e rule: list_induct2)
  case Nil
  show ?case
    by (simp, rule Nil.prems(6)) (rule env_mono [OF Nil.prems(1)]; use Nil.prems(4,5) in auto)
next
  case (Cons a as b bs)
  have in_A [simp]: "a \<in> A" "b \<in> A" "r \<in> A" "e \<in> A" "set as \<subseteq> A" "set bs \<subseteq> A"
    using Cons.prems(2-5) by auto
  have cmp: "bnum m (rev as @ [a]) > bnum m (rev bs @ [b]) \<longleftrightarrow>
      val m a \<and> \<not> val m b \<or> val m a = val m b \<and> bnum m (rev as) > bnum m (rev bs)"
    "bnum m (rev as @ [a]) = bnum m (rev bs @ [b]) \<longleftrightarrow>
      val m a = val m b \<and> bnum m (rev as) = bnum m (rev bs)" for m
    using Cons.hyps by (auto simp: msb_less msb_eq)
  show ?case
    unfolding great_loop.simps
    by (rule wp_Let_case, rule wp_not wp_op2, (rule Cons.prems(1) | assumption), (simp; fail)+)+
      (rule Cons.IH, assumption, (simp add: subset_insertI2; fail)+, rule Cons.prems(6),
        erule env_mono, blast, auto simp: cmp simp del: map_append)
qed

lemma wp_add_loop:
  assumes "length as = length bs" and "env s0 s A E" and "set as \<subseteq> A" and "set bs \<subseteq> A" and "c \<in> A"
    and "\<And>rs s'. length rs = length as \<Longrightarrow> env s0 s' (set rs \<union> A)
      (\<lambda>m. E m \<and> bnum m rs = (bnum m as + bnum m bs + of_bool (val m c)) mod 2 ^ length as) \<Longrightarrow> Q rs s'"
  shows "wp (add_loop P as bs c s) Q"
  using assms
proof (induction as bs arbitrary: s A E Q c rule: list_induct2)
  case Nil
  show ?case by (simp, rule Nil.prems(5)) (use Nil.prems(1) in auto)
next
  case (Cons a as b bs)
  have in_A [simp]: "c \<in> A" "a \<in> A" "b \<in> A" "set as \<subseteq> A" "set bs \<subseteq> A"
    using Cons.prems(2-4) by auto
  have bit: "bnum m (r # rs) = (bnum m (a # as) + bnum m (b # bs) + of_bool (val m c)) mod 2 ^ length (a # as)"
    if "val m r = (val m a \<noteq> val m b \<longleftrightarrow> \<not> val m c)"
      and "bnum m rs = (bnum m as + bnum m bs +
        of_bool (val m a \<and> val m b \<or> val m c \<and> (val m a \<or> val m b))) mod 2 ^ length as" for m r rs
    by (simp only: list.map bits_val.simps that length_Cons power_Suc full_adder)
  show ?case
    unfolding add_loop.simps
    by (rule wp_Let_case, rule wp_op2, (rule Cons.prems(1) | assumption), (simp; fail)+)+
      (rule wp_Let_case, rule Cons.IH, assumption, (simp add: subset_insertI2; fail)+,
        simp only: wp_pair, rule Cons.prems(5), simp, erule env_mono, fastforce,
        elim conjE, rule conjI, assumption, rule bit, simp_all)
qed

lemma wp_var_loop:
  assumes "env s0 s A E"
    and "\<And>rs s'. length rs = n \<Longrightarrow> env s0 s' (set rs \<union> A) E \<Longrightarrow> Q rs s'"
  shows "wp (var_loop P n s) Q"
  using assms
proof (induction n arbitrary: s A E Q)
  case (Suc n)
  show ?case
    unfolding var_loop.simps
    by (rule wp_Let_case, rule wp_var [OF Suc.prems(1)], rule wp_Let_case, rule Suc.IH, assumption,
      simp only: wp_pair, rule Suc.prems(2), simp, erule env_mono, auto)
qed simp

lemma wp_shiftL_loop:
  assumes "env s0 s A E" and "set a \<subseteq> A" and "\<forall>i\<in>set is. i < length a"
    and "\<And>rs s'. length rs = length is \<Longrightarrow> env s0 s' (set rs \<union> A)
      (\<lambda>m. E m \<and> bvals m rs = map (\<lambda>i. i \<ge> v \<and> val m (a ! (i - v))) is) \<Longrightarrow> Q rs s'"
  shows "wp (shiftL_loop P a v is s) Q"
  using assms
proof (induction "is" arbitrary: s A E Q)
  case (Cons i "is")
  have lt: "i - v < length a" and A: "set a \<subseteq> A" "\<forall>i\<in>set is. i < length a"
    using Cons.prems(2,3) by auto
  have bit: "a ! (i - v) \<in> A" using lt A nth_mem by blast
  show ?case
  proof (cases "i < v")
    case True
    then show ?thesis
      unfolding shiftL_loop.simps
      by (simp only: if_True, intro wp_Let_case)
        (rule wp_false [OF Cons.prems(1)], rule wp_Let_case, rule Cons.IH, assumption,
          use A in blast, rule A, simp only: wp_pair, rule Cons.prems(4), simp, erule env_mono, auto)
  next
    case False
    then show ?thesis
      unfolding shiftL_loop.simps
      by (simp only: if_False Let_def prod.case)
        (rule wp_case, rule Cons.IH, rule Cons.prems(1), rule A, rule A,
          simp only: wp_pair, rule Cons.prems(4), simp, erule env_mono, use bit in auto)
  qed
qed simp

lemma wp_shiftL:
  assumes "env s0 s A E" and "set a \<subseteq> A"
    and "\<And>rs s'. length rs = length a \<Longrightarrow> env s0 s' (set rs \<union> A)
      (\<lambda>m. E m \<and> bnum m rs = (2 ^ v * bnum m a) mod 2 ^ length a) \<Longrightarrow> Q rs s'"
  shows "wp (shiftL P a v s) Q"
proof (cases "v = 0")
  case True
  have "Q a s"
    by (rule assms(3), simp, rule env_mono [OF assms(1)])
      (use assms(2) bits_val_less [of "bvals _ a"] True in auto)
  then show ?thesis using True by (simp add: shiftL_def)
next
  case False
  have "bnum m rs = (2 ^ v * bnum m a) mod 2 ^ length a"
    if "bvals m rs = map (\<lambda>i. i \<ge> v \<and> val m (a ! (i - v))) [0..<length a]" for m rs
  proof -
    have "bvals m rs = map (\<lambda>i. i \<ge> v \<and> bvals m a ! (i - v)) [0..<length (bvals m a)]"
      unfolding that by auto
    then show ?thesis by (simp only: bits_val_shiftL) simp
  qed
  then have "wp (shiftL_loop P a v [0..<length a] s) Q"
    by (intro wp_shiftL_loop [OF assms(1,2)] assms(3)) (auto elim: env_mono)
  then show ?thesis using False by (simp add: shiftL_def)
qed

section \<open>The operations\<close>

lemmas bb_shape = get_bv.simps get_base.simps bv_getter.simps rbind_Inr simp_thms if_True if_False
  wp_pair wpr_Inr prod.case

lemma wpr_bitwise:
  assumes "env s0 s A E" and "set a \<subseteq> A" and "set b \<subseteq> A" and "length a = length b"
    and "\<And>rs s'. length rs = length a \<Longrightarrow> env s0 s' (set rs \<union> A)
      (\<lambda>m. E m \<and> bvals m rs = map2 (tag2_sem t) (bvals m a) (bvals m b)) \<Longrightarrow> Q (BV rs) s'"
  shows "wpr (bb_bitwise P t (BV a) (BV b) s) Q"
  by (simp only: bb_bitwise_def bb_shape assms(4))
    (rule wpr_Let_case, rule wp_bitwise_loop [OF assms(4,1-3)], simp only: bb_shape, rule assms(5))


lemma wpr_bvnot:
  assumes "env s0 s A E" and "set a \<subseteq> A"
    and "\<And>rs s'. length rs = length a \<Longrightarrow> env s0 s' (set rs \<union> A)
      (\<lambda>m. E m \<and> bvals m rs = map Not (bvals m a)) \<Longrightarrow> Q (BV rs) s'"
  shows "wpr (bb_bvnot P (BV a) s) Q"
  by (simp only: bb_bvnot_def bb_shape)
    (rule wpr_Let_case, rule wp_not_loop [OF assms(1,2)], simp only: bb_shape, rule assms(3))


lemma wpr_ite_bv:
  assumes "env s0 s A E" and "c \<in> A" and "set a \<subseteq> A" and "set b \<subseteq> A" and "length a = length b"
    and "\<And>rs s'. length rs = length a \<Longrightarrow> env s0 s' (set rs \<union> A)
      (\<lambda>m. E m \<and> bvals m rs = (if val m c then bvals m a else bvals m b)) \<Longrightarrow> Q (BV rs) s'"
  shows "wpr (bb_ite P (Base c) (BV a) (BV b) s) Q"
  by (simp only: bb_ite_def bb_ite_cases.simps bb_shape assms(5))
    (rule wpr_Let_case, rule wp_ite_loop [OF assms(5,1-4)], simp only: bb_shape, rule assms(6))


lemma wpr_ite_base:
  assumes "env s0 s A E" and "c \<in> A" and "a \<in> A" and "b \<in> A"
    and "\<And>r s'. env s0 s' (insert r A)
      (\<lambda>m. E m \<and> val m r = (if val m c then val m a else val m b)) \<Longrightarrow> Q (Base r) s'"
  shows "wpr (bb_ite P (Base c) (Base a) (Base b) s) Q"
  by (simp only: bb_ite_def bb_ite_cases.simps bb_shape)
    (rule wpr_Let_case, rule wp_ite [OF assms(1-4)], simp only: bb_shape, rule assms(5))


lemma wpr_equal_bv:
  assumes "env s0 s A E" and "set a \<subseteq> A" and "set b \<subseteq> A" and "length a = length b"
    and "\<And>r s'. env s0 s' (insert r A) (\<lambda>m. E m \<and> val m r = (bnum m a = bnum m b)) \<Longrightarrow> Q (Base r) s'"
  shows "wpr (bb_equal P (BV a) (BV b) s) Q"
proof -
  have A: "set a \<subseteq> insert x A" "set b \<subseteq> insert x A" for x using assms(2,3) by auto
  show ?thesis
    by (simp only: bb_equal.simps bb_shape assms(4), rule wpr_Let_case, rule wp_true [OF assms(1)],
        rule wpr_Let_case, rule wp_equal_loop [OF assms(4)], assumption, rule A, rule A, rule insertI1,
        simp only: bb_shape, rule assms(5), erule env_mono, blast)
      (use assms(4) in \<open>auto simp: bits_val_inject\<close>)
qed


lemma wpr_nequal_bv:
  assumes "env s0 s A E" and "set a \<subseteq> A" and "set b \<subseteq> A" and "length a = length b"
    and "\<And>r s'. env s0 s' (insert r A) (\<lambda>m. E m \<and> val m r = (bnum m a \<noteq> bnum m b)) \<Longrightarrow> Q (Base r) s'"
  shows "wpr (bb_nequal P (BV a) (BV b) s) Q"
proof -
  have A: "set a \<subseteq> insert x A" "set b \<subseteq> insert x A" for x using assms(2,3) by auto
  show ?thesis
    by (simp only: bb_nequal.simps bb_shape assms(4), rule wpr_Let_case, rule wp_false [OF assms(1)],
        rule wpr_Let_case, rule wp_nequal_loop [OF assms(4)], assumption, rule A, rule A, rule insertI1,
        simp only: bb_shape, rule assms(5), erule env_mono, blast)
      (use assms(4) in \<open>auto simp: bits_val_inject\<close>)
qed


lemma wpr_compare:
  assumes "length a = length b" and "a \<noteq> []"
    and "wp (body (last a) (last b) (rev (butlast a)) (rev (butlast b)) s) (\<lambda>r. Q (Base r))"
  shows "wpr (bb_compare body (BV a) (BV b) s) Q"
proof -
  have "\<not> (length a \<noteq> length b \<or> a = [])" using assms by simp
  then show ?thesis
    by (simp only: bb_compare_def bb_shape) (rule wpr_Let_case, simp only: bb_shape, rule assms(3))
qed

lemma split_last2:
  assumes "set a \<subseteq> A" and "set b \<subseteq> A" and "length a = length b" and "a \<noteq> []"
  obtains a' x b' y where "a = a' @ [x]" and "b = b' @ [y]" and "x \<in> A" and "y \<in> A"
    and "set a' \<subseteq> A" and "set b' \<subseteq> A" and "length a' = length b'"
  using assms by (cases a rule: rev_cases; cases b rule: rev_cases) auto

lemma wpr_bvult:
  assumes "env s0 s A E" and "set a \<subseteq> A" and "set b \<subseteq> A" and "length a = length b" and "a \<noteq> []"
    and "\<And>r s'. env s0 s' (insert r A) (\<lambda>m. E m \<and> val m r = (bnum m a < bnum m b)) \<Longrightarrow> Q (Base r) s'"
  shows "wpr (bb_bvult P (BV a) (BV b) s) Q"
proof -
  obtain a' x b' y where ab: "a = a' @ [x]" "b = b' @ [y]" and A [simp]: "x \<in> A" "y \<in> A"
      "set a' \<subseteq> A" "set b' \<subseteq> A" and len [simp]: "length a' = length b'"
    using assms(2-5) by (rule split_last2)
  show ?thesis
    unfolding bb_bvult_def
    by (rule wpr_compare [OF assms(4,5)], simp only: ab last_snoc butlast_snoc,
        (rule wp_Let_case, rule wp_not wp_op2, (rule assms(1) | assumption), (simp; fail)+)+)
      (rule wp_Let_case, rule wp_less_loop, simp, assumption, (simp add: subset_insertI2; fail)+,
       simp only: bb_shape, rule assms(6), erule env_mono, blast,
       auto simp: ab cmp_last)
qed

lemma wpr_bvugt:
  assumes "env s0 s A E" and "set a \<subseteq> A" and "set b \<subseteq> A" and "length a = length b" and "a \<noteq> []"
    and "\<And>r s'. env s0 s' (insert r A) (\<lambda>m. E m \<and> val m r = (bnum m a > bnum m b)) \<Longrightarrow> Q (Base r) s'"
  shows "wpr (bb_bvugt P (BV a) (BV b) s) Q"
proof -
  obtain a' x b' y where ab: "a = a' @ [x]" "b = b' @ [y]" and A [simp]: "x \<in> A" "y \<in> A"
      "set a' \<subseteq> A" "set b' \<subseteq> A" and len [simp]: "length a' = length b'"
    using assms(2-5) by (rule split_last2)
  show ?thesis
    unfolding bb_bvugt_def
    by (rule wpr_compare [OF assms(4,5)], simp only: ab last_snoc butlast_snoc,
        (rule wp_Let_case, rule wp_not wp_op2, (rule assms(1) | assumption), (simp; fail)+)+)
      (rule wp_Let_case, rule wp_great_loop, simp, assumption, (simp add: subset_insertI2; fail)+,
       simp only: bb_shape, rule assms(6), erule env_mono, blast,
       auto simp: ab cmp_last)
qed

lemma wpr_bvslt:
  assumes "env s0 s A E" and "set a \<subseteq> A" and "set b \<subseteq> A" and "length a = length b" and "a \<noteq> []"
    and "\<And>r s'. env s0 s' (insert r A) (\<lambda>m. E m \<and> val m r = (sgnum m a < sgnum m b)) \<Longrightarrow> Q (Base r) s'"
  shows "wpr (bb_bvslt P (BV a) (BV b) s) Q"
proof -
  obtain a' x b' y where ab: "a = a' @ [x]" "b = b' @ [y]" and A [simp]: "x \<in> A" "y \<in> A"
      "set a' \<subseteq> A" "set b' \<subseteq> A" and len [simp]: "length a' = length b'"
    using assms(2-5) by (rule split_last2)
  show ?thesis
    unfolding bb_bvslt_def
    by (rule wpr_compare [OF assms(4,5)], simp only: ab last_snoc butlast_snoc,
        (rule wp_Let_case, rule wp_not wp_op2, (rule assms(1) | assumption), (simp; fail)+)+)
      (rule wp_Let_case, rule wp_less_loop, simp, assumption, (simp add: subset_insertI2; fail)+,
       simp only: bb_shape, rule assms(6), erule env_mono, blast,
       auto simp: ab cmp_last)
qed

lemma wpr_bvsgt:
  assumes "env s0 s A E" and "set a \<subseteq> A" and "set b \<subseteq> A" and "length a = length b" and "a \<noteq> []"
    and "\<And>r s'. env s0 s' (insert r A) (\<lambda>m. E m \<and> val m r = (sgnum m a > sgnum m b)) \<Longrightarrow> Q (Base r) s'"
  shows "wpr (bb_bvsgt P (BV a) (BV b) s) Q"
proof -
  obtain a' x b' y where ab: "a = a' @ [x]" "b = b' @ [y]" and A [simp]: "x \<in> A" "y \<in> A"
      "set a' \<subseteq> A" "set b' \<subseteq> A" and len [simp]: "length a' = length b'"
    using assms(2-5) by (rule split_last2)
  show ?thesis
    unfolding bb_bvsgt_def
    by (rule wpr_compare [OF assms(4,5)], simp only: ab last_snoc butlast_snoc,
        (rule wp_Let_case, rule wp_not wp_op2, (rule assms(1) | assumption), (simp; fail)+)+)
      (rule wp_Let_case, rule wp_great_loop, simp, assumption, (simp add: subset_insertI2; fail)+,
       simp only: bb_shape, rule assms(6), erule env_mono, blast,
       auto simp: ab cmp_last)
qed

lemma wpr_bvule:
  assumes "env s0 s A E" and "set a \<subseteq> A" and "set b \<subseteq> A" and "length a = length b" and "a \<noteq> []"
    and "\<And>r s'. env s0 s' (insert r A) (\<lambda>m. E m \<and> val m r = (bnum m a \<le> bnum m b)) \<Longrightarrow> Q (Base r) s'"
  shows "wpr (bb_bvule P (BV a) (BV b) s) Q"
proof -
  obtain a' x b' y where ab: "a = a' @ [x]" "b = b' @ [y]" and A [simp]: "x \<in> A" "y \<in> A"
      "set a' \<subseteq> A" "set b' \<subseteq> A" and len [simp]: "length a' = length b'"
    using assms(2-5) by (rule split_last2)
  show ?thesis
    unfolding bb_bvule_def
    by (rule wpr_compare [OF assms(4,5)], simp only: ab last_snoc butlast_snoc,
        (rule wp_Let_case, rule wp_not wp_op2, (rule assms(1) | assumption), (simp; fail)+)+)
      (rule wp_Let_case, rule wp_less_loop, simp, assumption, (simp add: subset_insertI2; fail)+,
       simp only: bb_shape, rule wp_op2, assumption, (simp; fail)+, rule assms(6), erule env_mono, blast,
       auto simp: ab cmp_last)
qed

lemma wpr_bvuge:
  assumes "env s0 s A E" and "set a \<subseteq> A" and "set b \<subseteq> A" and "length a = length b" and "a \<noteq> []"
    and "\<And>r s'. env s0 s' (insert r A) (\<lambda>m. E m \<and> val m r = (bnum m a \<ge> bnum m b)) \<Longrightarrow> Q (Base r) s'"
  shows "wpr (bb_bvuge P (BV a) (BV b) s) Q"
proof -
  obtain a' x b' y where ab: "a = a' @ [x]" "b = b' @ [y]" and A [simp]: "x \<in> A" "y \<in> A"
      "set a' \<subseteq> A" "set b' \<subseteq> A" and len [simp]: "length a' = length b'"
    using assms(2-5) by (rule split_last2)
  show ?thesis
    unfolding bb_bvuge_def
    by (rule wpr_compare [OF assms(4,5)], simp only: ab last_snoc butlast_snoc,
        (rule wp_Let_case, rule wp_not wp_op2, (rule assms(1) | assumption), (simp; fail)+)+)
      (rule wp_Let_case, rule wp_great_loop, simp, assumption, (simp add: subset_insertI2; fail)+,
       simp only: bb_shape, rule wp_op2, assumption, (simp; fail)+, rule assms(6), erule env_mono, blast,
       auto simp: ab cmp_last)
qed

lemma wpr_bvsle:
  assumes "env s0 s A E" and "set a \<subseteq> A" and "set b \<subseteq> A" and "length a = length b" and "a \<noteq> []"
    and "\<And>r s'. env s0 s' (insert r A) (\<lambda>m. E m \<and> val m r = (sgnum m a \<le> sgnum m b)) \<Longrightarrow> Q (Base r) s'"
  shows "wpr (bb_bvsle P (BV a) (BV b) s) Q"
proof -
  obtain a' x b' y where ab: "a = a' @ [x]" "b = b' @ [y]" and A [simp]: "x \<in> A" "y \<in> A"
      "set a' \<subseteq> A" "set b' \<subseteq> A" and len [simp]: "length a' = length b'"
    using assms(2-5) by (rule split_last2)
  show ?thesis
    unfolding bb_bvsle_def
    by (rule wpr_compare [OF assms(4,5)], simp only: ab last_snoc butlast_snoc,
        (rule wp_Let_case, rule wp_not wp_op2, (rule assms(1) | assumption), (simp; fail)+)+)
      (rule wp_Let_case, rule wp_less_loop, simp, assumption, (simp add: subset_insertI2; fail)+,
       simp only: bb_shape, rule wp_op2, assumption, (simp; fail)+, rule assms(6), erule env_mono, blast,
       auto simp: ab cmp_last)
qed

lemma wpr_bvsge:
  assumes "env s0 s A E" and "set a \<subseteq> A" and "set b \<subseteq> A" and "length a = length b" and "a \<noteq> []"
    and "\<And>r s'. env s0 s' (insert r A) (\<lambda>m. E m \<and> val m r = (sgnum m a \<ge> sgnum m b)) \<Longrightarrow> Q (Base r) s'"
  shows "wpr (bb_bvsge P (BV a) (BV b) s) Q"
proof -
  obtain a' x b' y where ab: "a = a' @ [x]" "b = b' @ [y]" and A [simp]: "x \<in> A" "y \<in> A"
      "set a' \<subseteq> A" "set b' \<subseteq> A" and len [simp]: "length a' = length b'"
    using assms(2-5) by (rule split_last2)
  show ?thesis
    unfolding bb_bvsge_def
    by (rule wpr_compare [OF assms(4,5)], simp only: ab last_snoc butlast_snoc,
        (rule wp_Let_case, rule wp_not wp_op2, (rule assms(1) | assumption), (simp; fail)+)+)
      (rule wp_Let_case, rule wp_great_loop, simp, assumption, (simp add: subset_insertI2; fail)+,
       simp only: bb_shape, rule wp_op2, assumption, (simp; fail)+, rule assms(6), erule env_mono, blast,
       auto simp: ab cmp_last)
qed

lemma wpr_bvadd:
  assumes "env s0 s A E" and "set a \<subseteq> A" and "set b \<subseteq> A" and "length a = length b"
    and "\<And>rs s'. length rs = length a \<Longrightarrow> env s0 s' (set rs \<union> A)
      (\<lambda>m. E m \<and> bnum m rs = (bnum m a + bnum m b) mod 2 ^ length a) \<Longrightarrow> Q (BV rs) s'"
  shows "wpr (bb_bvadd P (BV a) (BV b) s) Q"
  by (simp only: bb_bvadd_def bb_shape assms(4), rule wpr_Let_case, rule wp_false [OF assms(1)],
      rule wpr_Let_case, rule wp_add_loop [OF assms(4)], assumption)
    (use assms(2,3) in blast, use assms(2,3) in blast, rule insertI1, simp only: bb_shape, rule assms(5),
      assumption, erule env_mono, blast, simp)

lemma wpr_bvneg:
  assumes "env s0 s A E" and "set a \<subseteq> A" and "a \<noteq> []"
    and "\<And>rs s'. length rs = length a \<Longrightarrow> env s0 s' (set rs \<union> A)
      (\<lambda>m. E m \<and> bnum m rs = (2 ^ length a - bnum m a) mod 2 ^ length a) \<Longrightarrow> Q (BV rs) s'"
  shows "wpr (bb_bvneg P (BV a) s) Q"
proof -
  have num: "Suc (bits_val (map (Not \<circ> val m) a)) = 2 ^ length a - bnum m a" for m
    using bits_val_map_Not [of "bvals m a"] by simp
  have A: "set a \<subseteq> insert x (insert y A)" for x y using assms(2) by auto
  have one: "set (x # replicate (length a - 1) y) \<subseteq> set rs \<union> insert x (insert y A)" for x y and rs :: "'b list"
    by auto
  show ?thesis
    by (simp only: bb_bvneg_def bb_shape, rule wpr_Let_case, rule wp_false [OF assms(1)],
        simp only: bb_shape assms(3), rule wpr_Let_case, rule wp_true, assumption, rule wpr_rbind,
        rule wpr_bvnot, assumption, rule A, simp only: bb_shape, rule wpr_bvadd, assumption, rule Un_upper1,
        rule one)
      (use assms(3) in \<open>simp; fail\<close>, rule assms(4), simp, erule env_mono, blast, clarsimp simp: num)
qed

lemma wpr_bvsub:
  assumes "env s0 s A E" and "set a \<subseteq> A" and "set b \<subseteq> A" and "length a = length b" and "a \<noteq> []"
    and "\<And>rs s'. length rs = length a \<Longrightarrow> env s0 s' (set rs \<union> A)
      (\<lambda>m. E m \<and> bnum m rs = (bnum m a + 2 ^ length a - bnum m b) mod 2 ^ length a) \<Longrightarrow> Q (BV rs) s'"
  shows "wpr (bb_bvsub P (BV a) (BV b) s) Q"
proof -
  have b: "b \<noteq> []" using assms(4,5) by auto
  have le: "bnum m b \<le> 2 ^ length b" for m using bits_val_less [of "bvals m b"] by simp
  show ?thesis
    by (simp only: bb_bvsub_def, rule wpr_rbind, rule wpr_bvneg [OF assms(1,3) b], simp only: bb_shape,
        rule wpr_bvadd, assumption)
      (use assms(2) in blast, rule Un_upper1, simp add: assms(4), rule assms(6), assumption,
        erule env_mono, blast, use assms(4) le in \<open>simp add: mod_add_right_eq\<close>)
qed

text \<open>A vector of constants: the two literals are requested once and copied.\<close>

lemma wpr_bvuint:
  assumes "env s0 s A E"
    and "\<And>rs s'. length rs = w \<Longrightarrow> env s0 s' (set rs \<union> A) (\<lambda>m. E m \<and> bvals m rs = uint_bits w v) \<Longrightarrow>
      Q (BV rs) s'"
  shows "wpr (bb_bvuint P v w s) Q"
proof -
  have copy: "map (\<lambda>b. f (if b then o1 else z)) bs = bs" if "f o1" and "\<not> f z" for f :: "'b \<Rightarrow> bool" and o1 z bs
    using that by (induction bs) auto
  show ?thesis
    by (simp only: bb_bvuint_def, rule wpr_Let_case, rule wp_true [OF assms(1)], rule wpr_Let_case,
        rule wp_false, assumption, simp only: bb_shape, rule assms(2))
      (simp, erule env_mono, auto simp: o_def copy)
qed

lemma set_sign_extend: "a \<noteq> [] \<Longrightarrow> set (a @ replicate w (last a)) = set a"
  by auto

lemma wpr_mul_loop:
  assumes "env s0 s A E" and "set a \<subseteq> A" and "set b \<subseteq> A" and "set ret \<subseteq> A"
    and "length b = length a" and "length ret = length a" and "\<forall>i\<in>set is. i < length a"
    and "\<And>rs s'. length rs = length a \<Longrightarrow> env s0 s' (set rs \<union> A)
      (\<lambda>m. E m \<and> bnum m rs =
        (bnum m ret + (\<Sum>i\<leftarrow>is. of_bool (val m (a ! i)) * 2 ^ i * bnum m b)) mod 2 ^ length a) \<Longrightarrow> Q (BV rs) s'"
  shows "wpr (mul_loop P a (BV b) is (BV ret) s) Q"
  using assms
proof (induction "is" arbitrary: s A E Q ret)
  case Nil
  have "bnum m ret < 2 ^ length a" for m using bits_val_less [of "bvals m ret"] Nil.prems(6) by simp
  then show ?case
    by (simp only: mul_loop.simps bb_shape) (rule Nil.prems(8), rule Nil.prems, rule env_mono [OF Nil.prems(1)],
      use Nil.prems(4) in auto)
next
  case (Cons i "is")
  have i: "a ! i \<in> A" "length a \<noteq> 0" "i < length a" using Cons.prems(2,7) by force+
  then have rep: "[a ! i] @ replicate (length a - 1) (last [a ! i]) = replicate (length a) (a ! i)"
    by (cases a) auto
  have mask: "bits_val (map2 (tag2_sem and_tag) (bvals m b) (replicate (length a) x)) = of_bool x * bnum m b" for m x
    by (simp only: Cons.prems(5) [symmetric]) (induction b; cases x; simp)
  have step: "((u + (v * (x * y)) mod N) mod N + w) mod N = (u + (x * v * y + w)) mod N" for u v x y w N :: nat
    by (simp add: mod_simps algebra_simps)
  show ?case
    by (simp only: mul_loop.simps bb_sign_extend_def bb_shape list.distinct rep, rule wpr_rbind,
        simp only: bb_bvand_def bb_shape, rule wpr_bitwise [OF Cons.prems(1,3)], use i in \<open>simp; fail\<close>,
        use Cons.prems(5) in \<open>simp; fail\<close>, simp only: bb_shape, rule wpr_Let_case, rule wp_shiftL, assumption,
        simp, rule wpr_rbind, rule wpr_bvadd, assumption, use Cons.prems(4) in blast, blast,
        use Cons.prems(5,6) in \<open>simp; fail\<close>, simp only: bb_shape, rule Cons.IH, assumption,
        use Cons.prems(2,3) in blast, use Cons.prems(2,3) in blast, blast)
      (use Cons.prems(5-7) in \<open>simp; fail\<close>, use Cons.prems(6) in \<open>simp; fail\<close>, use Cons.prems(7) in \<open>simp; fail\<close>,
       rule Cons.prems(8), assumption, erule env_mono, blast,
       elim conjE, rule conjI, assumption, simp only: mask map_replicate Cons.prems(5,6) step list.map sum_list.Cons)
qed

lemma wpr_bvmul:
  assumes "env s0 s A E" and "set a \<subseteq> A" and "set b \<subseteq> A" and "length a = length b"
    and "\<And>rs s'. length rs = length a \<Longrightarrow> env s0 s' (set rs \<union> A)
      (\<lambda>m. E m \<and> bnum m rs = (bnum m a * bnum m b) mod 2 ^ length a) \<Longrightarrow> Q (BV rs) s'"
  shows "wpr (bb_bvmul P (BV a) (BV b) s) Q"
proof -
  have prod: "(\<Sum>i\<leftarrow>[0..<length a]. of_bool (val m (a ! i)) * 2 ^ i * bnum m b) = bnum m a * bnum m b" for m
  proof -
    have "map (\<lambda>i. of_bool (val m (a ! i)) * 2 ^ i * bnum m b) [0..<length a] =
        map (\<lambda>i. of_bool (bvals m a ! i) * 2 ^ i * bnum m b) [0..<length (bvals m a)]" by simp
    then show ?thesis by (simp only: bits_val_sum)
  qed
  show ?thesis
    by (simp only: bb_bvmul_def bb_shape, rule wpr_Let_case, rule wp_false [OF assms(1)],
        rule wpr_mul_loop, assumption, use assms(2) in blast, use assms(3) in blast)
      (use assms(4) in \<open>auto simp: prod [unfolded assms(4)] intro!: assms(5) elim!: env_mono\<close>)
qed

lemma wpr_zero_extend:
  assumes "env s0 s A E" and "set a \<subseteq> A"
    and "\<And>rs s'. length rs = length a + w \<Longrightarrow> env s0 s' (set rs \<union> A)
      (\<lambda>m. E m \<and> bnum m rs = bnum m a) \<Longrightarrow> Q (BV rs) s'"
  shows "wpr (bb_zero_extend P w (BV a) s) Q"
  by (simp only: bb_zero_extend_def bb_shape, rule wpr_Let_case, rule wp_false [OF assms(1)],
      simp only: bb_shape, rule assms(3), simp, erule env_mono)
    (use assms(2) in \<open>auto simp: bits_val_append map_replicate_const\<close>)

text \<open>The shift loop: at most one index matches, and its shifted vector replaces the default.\<close>

lemma wpr_shift_loop:
  assumes "env s0 s A E" and "set v \<subseteq> A" and "set ret \<subseteq> A" and "length v = n" and "length ret = n"
    and "n \<le> 2 ^ 32" and "distinct is" and "\<forall>i\<in>set is. i < n" and "B \<subseteq> A"
    and sh: "\<And>i s A E Q. i < n \<Longrightarrow> env s0 s A E \<Longrightarrow> B \<subseteq> A \<Longrightarrow>
      (\<And>rs s'. length rs = n \<Longrightarrow> env s0 s' (set rs \<union> A) (\<lambda>m. E m \<and> bvals m rs = G m i) \<Longrightarrow> Q rs s') \<Longrightarrow>
      wp (shifted i s) Q"
    and "\<And>rs s'. length rs = n \<Longrightarrow> env s0 s' (set rs \<union> A)
      (\<lambda>m. E m \<and> bvals m rs = (if bnum m v \<in> set is then G m (bnum m v) else bvals m ret)) \<Longrightarrow>
      Q (BV rs) s'"
  shows "wpr (shift_loop P shifted n (BV v) is (BV ret) s) Q"
  using assms(1-9,11)
proof (induction "is" arbitrary: s A E Q ret)
  case Nil
  show ?case
    by (simp only: shift_loop.simps bb_shape, rule Nil.prems(10), rule Nil.prems, rule env_mono [OF Nil.prems(1)])
      (use Nil.prems(3) in auto)
next
  case (Cons i "is")
  have i: "i < n" using Cons.prems(8) by simp
  have "i < 2 ^ n" using i less_exp [of n] by (rule less_trans)
  then have index: "bits_val (uint_bits n (of_nat i)) = i"
    using i Cons.prems(6) by (simp add: bits_val_uint_bits unat_of_nat)
  show ?case
    by (simp only: shift_loop.simps, rule wpr_rbind, rule wpr_bvuint [OF Cons.prems(1)],
        simp only: bb_shape, rule wpr_rbind, rule wpr_equal_bv, assumption, use Cons.prems(2) in blast,
        blast, use Cons.prems(4) in \<open>simp; fail\<close>, simp only: bb_shape, rule wpr_Let_case, rule sh [OF i],
        assumption, use Cons.prems(9) in blast, rule wpr_rbind, rule wpr_ite_bv, assumption, blast, blast,
        use Cons.prems(3) in blast, use Cons.prems(5) in \<open>simp; fail\<close>, simp only: bb_shape,
        rule Cons.IH, assumption, use Cons.prems(2) in blast, blast, rule Cons.prems(4))
      (use Cons.prems(5) in \<open>simp; fail\<close>, rule Cons.prems(6), use Cons.prems(7,8) in \<open>simp; fail\<close>,
        use Cons.prems(8) in \<open>simp; fail\<close>, use Cons.prems(9) in blast, rule Cons.prems(10),
        simp, erule env_mono, blast, use Cons.prems(7) in \<open>auto simp: index\<close>)
qed

lemma bits_val_overflow: "length xs \<le> v \<Longrightarrow> 2 ^ v * bits_val xs mod 2 ^ length xs = 0"
  by (simp add: le_imp_power_dvd dvd_mult2)

lemma bits_sval_shiftR1:
  assumes "xs \<noteq> []"
  shows "bits_sval (drop 1 xs @ [last xs]) = bits_sval xs div 2"
proof (cases xs)
  case (Cons x ys)
  then show ?thesis
  by (cases ys rule: rev_cases)
    (auto simp: bits_sval_def bits_val_append div_add1_eq)
qed (use assms in simp)

lemma bits_sval_shiftR:
  "xs \<noteq> [] \<Longrightarrow> v \<le> length xs \<Longrightarrow> bits_sval (drop v xs @ replicate v (last xs)) = bits_sval xs div 2 ^ v"
proof (induction v)
  case (Suc v)
  let ?ys = "drop v xs @ replicate v (last xs)"
  have ne: "drop v xs \<noteq> []" using Suc.prems by simp
  have "last ?ys = last xs" using Suc.prems by (cases v) (simp_all add: last_append)
  moreover have "drop 1 ?ys = drop (Suc v) xs @ replicate v (last xs)" using Suc.prems by simp
  ultimately have "drop (Suc v) xs @ replicate (Suc v) (last xs) = drop 1 ?ys @ [last ?ys]"
    by (simp add: replicate_append_same)
  then have "bits_sval (drop (Suc v) xs @ replicate (Suc v) (last xs)) = bits_sval ?ys div 2"
    using ne bits_sval_shiftR1 [of ?ys] by simp
  also have "\<dots> = bits_sval xs div 2 ^ Suc v"
    using Suc by (simp only: power_Suc2) (simp add: zdiv_zmult2_eq)
  finally show ?case .
qed simp

lemma bits_sval_replicate: "n \<noteq> 0 \<Longrightarrow> bits_sval (replicate n b) = (if b then -1 else 0)"
proof -
  have "int (bits_val (replicate n True)) + 1 = 2 ^ n"
    using Suc_bits_val_replicate_True [of n] by (metis Suc_eq_plus1 of_nat_1 of_nat_add of_nat_numeral of_nat_power)
  then show "n \<noteq> 0 \<Longrightarrow> ?thesis" by (cases b) (auto simp: bits_sval_def)
qed

lemma bits_sval_shifted_out:
  assumes "xs \<noteq> []" and "length xs \<le> v"
  shows "bits_sval (replicate (length xs) (last xs)) = bits_sval xs div 2 ^ v"
proof -
  obtain N M where NM: "N = (2 :: int) ^ length xs" "M = (2 :: int) ^ v" by simp
  have "int (bits_val xs) < N" using bits_val_less [of xs] by (simp add: NM)
  moreover have "N \<le> M" using assms(2) by (simp add: NM)
  ultimately have "bits_sval xs div M = (if last xs then -1 else 0)"
    using assms(1)
    by (auto simp: bits_sval_def NM(1) [symmetric] intro!: int_div_pos_eq [where r = "int (bits_val xs) - N + M"])
  then show ?thesis using assms(1) by (simp add: bits_sval_replicate NM)
qed

lemma bits_val_shifted_out: "length xs \<le> v \<Longrightarrow> bits_val xs div 2 ^ v = 0"
  by (metis bits_val_drop bits_val.simps(1) drop_all)

text \<open>The vectors \<open>shiftR\<close> hands to the loop, as values; \<open>x\<close> is the fill bit.\<close>

lemma bvals_shiftR:
  assumes "v \<le> length a"
  shows "bvals m (shiftR a v x) = drop v (bvals m a) @ replicate v (val m x)"
  using assms by (intro nth_equalityI) (auto simp: shiftR_def nth_append)

lemma shiftR_subset: "set a \<subseteq> A \<Longrightarrow> x \<in> A \<Longrightarrow> set (shiftR a v x) \<subseteq> A"
  by (auto simp: shiftR_def)

lemma length_shiftR [simp]: "length (shiftR a v x) = length a"
  by (simp add: shiftR_def)

lemma wp_shiftR:
  assumes "i < length a" and "env s0 s A E" and "insert x (set a) \<subseteq> A"
    and "\<And>rs s'. length rs = length a \<Longrightarrow> env s0 s' (set rs \<union> A)
      (\<lambda>m. E m \<and> bvals m rs = drop i (bvals m a) @ replicate i (val m x)) \<Longrightarrow> Q rs s'"
  shows "wp (shiftR a i x, s) Q"
  by (simp only: bb_shape, rule assms(4), simp, rule env_mono [OF assms(2)])
    (use assms(1,3) shiftR_subset [of a A x i] in \<open>auto simp: bvals_shiftR\<close>)

lemma wp_shiftL_bits:
  assumes "env s0 s A E" and "set a \<subseteq> A"
    and "\<And>rs s'. length rs = length a \<Longrightarrow> env s0 s' (set rs \<union> A)
      (\<lambda>m. E m \<and> bvals m rs = bits_of (length a) (2 ^ i * bnum m a mod 2 ^ length a)) \<Longrightarrow> Q rs s'"
  shows "wp (shiftL P a i s) Q"
proof (rule wp_shiftL [OF assms(1,2)])
  fix rs s'
  assume rs: "length rs = length a"
    and env: "env s0 s' (set rs \<union> A) (\<lambda>m. E m \<and> bnum m rs = 2 ^ i * bnum m a mod 2 ^ length a)"
  have "bvals m rs = bits_of (length a) (bnum m rs)" for m using rs by simp
  then show "Q rs s'" by (intro assms(3) rs env_mono [OF env]) (blast, metis)
qed

lemma wpr_bvshr:
  assumes "env s0 s A E" and "set a \<subseteq> A" and "set v \<subseteq> A" and "length v = length a" and "length a \<le> 2 ^ 32"
    and "\<And>rs s'. length rs = length a \<Longrightarrow> env s0 s' (set rs \<union> A)
      (\<lambda>m. E m \<and> bnum m rs = bnum m a div 2 ^ bnum m v) \<Longrightarrow> Q (BV rs) s'"
  shows "wpr (bb_bvshr P (BV a) (BV v) s) Q"
  unfolding bb_bvshr_def bb_shape
proof (rule wpr_Let_case, rule wp_false [OF assms(1)])
  fix z s'
  assume env: "env s0 s' (insert z A) (\<lambda>m. E m \<and> \<not> val m z)"
  have sub: "set v \<subseteq> insert z A" "set (replicate (length a) z) \<subseteq> insert z A" "insert z (set a) \<subseteq> insert z A"
    using assms(2,3) by auto
  show "wpr (shift_loop P (\<lambda>i s. (shiftR a i z, s)) (length a) (BV v) [0..<length a] (BV (replicate (length a) z)) s') Q"
    by (rule wpr_shift_loop [where B = "insert z (set a)", OF env sub(1,2) assms(4) _ assms(5) _ _ sub(3) wp_shiftR],
        simp, simp, simp, assumption+, rule assms(6), assumption, erule env_mono, blast)
      (clarsimp simp: bits_val_append bits_val_drop bits_val_shifted_out map_replicate_const not_less)
qed

lemma wpr_bvshl:
  assumes "env s0 s A E" and "set a \<subseteq> A" and "set v \<subseteq> A" and "length v = length a" and "length a \<le> 2 ^ 32"
    and "\<And>rs s'. length rs = length a \<Longrightarrow> env s0 s' (set rs \<union> A)
      (\<lambda>m. E m \<and> bnum m rs = 2 ^ bnum m v * bnum m a mod 2 ^ length a) \<Longrightarrow> Q (BV rs) s'"
  shows "wpr (bb_bvshl P (BV a) (BV v) s) Q"
  unfolding bb_bvshl_def bb_shape
proof (rule wpr_Let_case, rule wp_false [OF assms(1)])
  fix z s'
  assume env: "env s0 s' (insert z A) (\<lambda>m. E m \<and> \<not> val m z)"
  have sub: "set v \<subseteq> insert z A" "set (replicate (length a) z) \<subseteq> insert z A" "set a \<subseteq> insert z A"
    using assms(2,3) by auto
  show "wpr (shift_loop P (\<lambda>i s. shiftL P a i s) (length a) (BV v) [0..<length a] (BV (replicate (length a) z)) s') Q"
    by (rule wpr_shift_loop [where B = "set a", OF env sub(1,2) assms(4) _ assms(5) _ _ sub(3) wp_shiftL_bits],
        simp, simp, simp, assumption+, rule assms(6), assumption, erule env_mono, blast)
      (use bits_val_overflow [of "bvals _ a"] in \<open>clarsimp simp: map_replicate_const not_less\<close>)
qed

lemma wpr_bvashr:
  assumes "env s0 s A E" and "set a \<subseteq> A" and "set v \<subseteq> A" and "length v = length a" and "length a \<le> 2 ^ 32"
    and "\<And>rs s'. length rs = length a \<Longrightarrow> env s0 s' (set rs \<union> A)
      (\<lambda>m. E m \<and> sgnum m rs = sgnum m a div 2 ^ bnum m v) \<Longrightarrow> Q (BV rs) s'" and "a \<noteq> []"
  shows "wpr (bb_bvashr P (BV a) (BV v) s) Q"
proof -
  have last: "last a \<in> A" and A: "insert (last a) (set a) \<subseteq> A" and vA: "set v \<subseteq> A" and rA: "set (replicate (length a) (last a)) \<subseteq> A"
    using assms(2,3,7) by auto
  have "wpr (shift_loop P (\<lambda>i s. (shiftR a i (last a), s)) (length a) (BV v) [0..<length a]
      (BV (replicate (length a) (last a))) s) Q"
    by (rule wpr_shift_loop [where B = "insert (last a) (set a)", OF assms(1) vA rA assms(4) _ assms(5) _ _ A wp_shiftR],
        simp, simp, simp, assumption+, rule assms(6), assumption, erule env_mono, blast)
      (use assms(7) bits_sval_shiftR [of "bvals _ a"] bits_sval_shifted_out [of "bvals _ a"]
        in \<open>clarsimp simp: map_replicate_const not_less last_map\<close>)
  then show ?thesis by (simp only: bb_bvashr_def bb_shape assms(7))
qed

end

end
