(* ===== verification/BitDivision.thy ===== *)
theory BitDivision
  imports BitCorrect
begin

text \<open>
  The restoring division of \<open>BitBlast::uDivRem\<close>: first the two loops over the values of the
  registers, then the loops over solver results, which compute these values in every model.
\<close>

section \<open>The two loops on numbers\<close>

text \<open>\<open>align_sem n k d\<close>: the divisor register after \<open>k\<close> rounds of the first loop.\<close>

fun align_sem :: "nat \<Rightarrow> nat \<Rightarrow> nat \<Rightarrow> nat" where
  "align_sem n 0 d = d"
| "align_sem n (Suc k) d = align_sem n k (if 2 ^ (n - 1) \<le> d then d else 2 * d mod 2 ^ n)"

text \<open>\<open>div_sem n b is (x, d, R, c)\<close>: remainder, divisor, quotient bits and \<open>checker\<close>.\<close>

type_synonym div_regs = "nat \<times> nat \<times> bool list \<times> bool"

definition div_step :: "nat \<Rightarrow> nat \<Rightarrow> nat \<Rightarrow> div_regs \<Rightarrow> div_regs" where
  "div_step n b i = (\<lambda>(x, d, R, c).
     let R = R[n - i := (\<not> c \<and> d \<le> x)]
     in (if d \<le> x then x - d else x, if d = b then d else d div 2,
         if c then drop 1 R @ [False] else R, d = b \<or> c))"

lemma align_sem_reaches:
  assumes "0 < d" and "d < 2 ^ n"
  shows "\<exists>k < n. align_sem n n d = d * 2 ^ k \<and> 2 ^ (n - 1) \<le> d * 2 ^ k \<and> d * 2 ^ k < 2 ^ n"
proof -
  have stay: "align_sem n j d = d" if "2 ^ (n - 1) \<le> d" for j d
    using that by (induction j) auto
  have "\<exists>k \<le> j. align_sem n j d = d * 2 ^ k \<and> 2 ^ (n - 1) \<le> d * 2 ^ k \<and> d * 2 ^ k < 2 ^ n"
    if "2 ^ (n - 1) \<le> d * 2 ^ j" and "0 < d" and "d < 2 ^ n" for j d
    using that
  proof (induction j arbitrary: d)
    case (Suc j)
    show ?case
    proof (cases "2 ^ (n - 1) \<le> d")
      case True
      then show ?thesis using stay Suc.prems(3) by (intro exI [of _ 0]) simp
    next
      case False
      then have less: "2 * d < 2 ^ n"
        by (cases n) (use Suc.prems in auto)
      then obtain k where "k \<le> j" "align_sem n j (2 * d) = 2 * d * 2 ^ k"
          "2 ^ (n - 1) \<le> 2 * d * 2 ^ k" "2 * d * 2 ^ k < 2 ^ n"
        using Suc.IH [of "2 * d"] Suc.prems by (auto simp: algebra_simps)
      then show ?thesis using False less by (intro exI [of _ "Suc k"]) (simp add: algebra_simps)
    qed
  qed (auto intro: exI [of _ 0])
  from this [where j = "n - 1"] have one: "\<exists>k \<le> n - 1. align_sem n (n - 1) d = d * 2 ^ k \<and>
      2 ^ (n - 1) \<le> d * 2 ^ k \<and> d * 2 ^ k < 2 ^ n"
    using assms by simp
  have step: "align_sem n (Suc j) d = (let e = align_sem n j d in if 2 ^ (n - 1) \<le> e then e else 2 * e mod 2 ^ n)" for j d
    by (induction j arbitrary: d) (simp_all add: Let_def)
  have "n \<noteq> 0" using assms by (cases n) auto
  moreover obtain k where k: "k \<le> n - 1" "align_sem n (n - 1) d = d * 2 ^ k" "2 ^ (n - 1) \<le> d * 2 ^ k"
      "d * 2 ^ k < 2 ^ n" using one by blast
  ultimately have "align_sem n n d = d * 2 ^ k" using step [of "n - 1" d] by (simp add: Let_def)
  with k \<open>n \<noteq> 0\<close> show ?thesis by (intro exI [of _ k]) auto
qed

text \<open>
  The state after \<open>i\<close> rounds, for a divisor aligned by \<open>k\<close> positions: \<open>Q\<close> is the quotient so far.
\<close>

definition div_inv :: "nat \<Rightarrow> nat \<Rightarrow> nat \<Rightarrow> nat \<Rightarrow> nat \<Rightarrow> div_regs \<Rightarrow> bool" where
  "div_inv n a b k i = (\<lambda>(x, d, R, c). length R = n \<and>
     (\<exists>Q. bits_val R = Q * 2 ^ (n - i) \<and>
       (if i \<le> k then \<not> c \<and> d = b * 2 ^ (k - i) \<and> a = x + Q * b * 2 ^ (k + 1 - i) \<and> x < b * 2 ^ (k + 1 - i)
        else c \<and> d = b \<and> a = x + Q * b \<and> x < b)))"

lemma bits_val_update_0:
  "i < length R \<Longrightarrow> bits_val R = Q * 2 ^ Suc i \<Longrightarrow> bits_val (R[i := b]) = Q * 2 ^ Suc i + of_bool b * 2 ^ i"
proof -
  assume i: "i < length R" and v: "bits_val R = Q * 2 ^ Suc i"
  have "bits_val (take (Suc i) R) = 0" using v by (simp add: bits_val_take)
  moreover have "take (Suc i) R = take i R @ [R ! i]" using i by (simp add: take_Suc_conv_app_nth)
  ultimately have "\<not> R ! i" "bits_val (take i R) = 0" by (auto simp: bits_val_append split: if_splits)
  moreover have "R[i := b] = take i R @ b # drop (Suc i) R" using i by (simp add: upd_conv_take_nth_drop)
  moreover have "bits_val R = bits_val (take i R @ R ! i # drop (Suc i) R)"
    using i by (simp add: id_take_nth_drop [symmetric])
  ultimately show ?thesis using i v by (simp add: bits_val_append)
qed

lemma div_step_inv:
  assumes inv: "div_inv n a b k (i - 1) st" and i: "0 < i" "i \<le> n" and b: "0 < b" and k: "k < n"
  shows "div_inv n a b k i (div_step n b i st)"
proof -
  obtain x d R c where st: "st = (x, d, R, c)" by (cases st)
  obtain j where j: "n - (i - 1) = Suc j" "n - i = j" "j < n" using i by (auto simp: Suc_diff_le)
  obtain Q where len: "length R = n" and R: "bits_val R = Q * 2 ^ Suc j"
    and cases: "if i - 1 \<le> k then \<not> c \<and> d = b * 2 ^ (k - (i - 1)) \<and> a = x + Q * b * 2 ^ (k + 1 - (i - 1)) \<and>
        x < b * 2 ^ (k + 1 - (i - 1)) else c \<and> d = b \<and> a = x + Q * b \<and> x < b"
    using inv by (simp only: div_inv_def st prod.case j) blast
  have upd: "bits_val (R[j := t]) = Q * 2 ^ Suc j + of_bool t * 2 ^ j" for t
    using bits_val_update_0 [OF _ R] j len by simp
  show ?thesis
  proof (cases "i - 1 \<le> k")
    case False
    then have c: "c" "d = b" "a = x + Q * b" "x < b" "\<not> i \<le> k" using cases by auto
    have "bits_val (drop 1 (R[j := False])) = Q * 2 ^ j"
      using upd [of False] by (simp add: bits_val_drop)
    then show ?thesis
      using c b len j by (auto simp: div_inv_def div_step_def st bits_val_append intro!: exI [of _ Q])
  next
    case True
    obtain e where e: "k - (i - 1) = e" "k + 1 - (i - 1) = Suc e" using True by (auto simp: Suc_diff_le)
    have c: "\<not> c" "d = b * 2 ^ e" "a = x + Q * b * 2 ^ Suc e" "x < b * 2 ^ Suc e"
      using cases True e by auto
    define t where "t = (d \<le> x)"
    have num: "bits_val (R[j := t]) = (2 * Q + of_bool t) * 2 ^ j" using upd [of t] by (simp add: algebra_simps)
    have rem: "a = (if t then x - d else x) + (2 * Q + of_bool t) * b * 2 ^ e" "(if t then x - d else x) < b * 2 ^ e"
      using c by (auto simp: t_def algebra_simps)
    have step: "div_step n b i st =
        (if t then x - d else x, if d = b then d else d div 2, R[j := t], d = b)"
      using c(1) by (simp add: div_step_def st j t_def)
    show ?thesis
    proof (cases "i \<le> k")
      case True
      then have e': "e = Suc (k - i)" "k + 1 - i = e" using e i by auto
      then have "d \<noteq> b" "d div 2 = b * 2 ^ (k - i)" using c(2) b by auto
      then show ?thesis using True rem num len e'
        unfolding div_inv_def step prod.case j by (intro conjI exI [of _ "2 * Q + of_bool t"]) auto
    next
      case False
      then have "e = 0" using e by simp
      then show ?thesis using False c(2) rem num len
        unfolding div_inv_def step prod.case j by (intro conjI exI [of _ "2 * Q + of_bool t"]) auto
    qed
  qed
qed

lemma div_fold_inv:
  assumes "div_inv n a b k 0 st" and "0 < b" and "k < n" and "i \<le> n"
  shows "div_inv n a b k i (fold (div_step n b) [1..<i + 1] st)"
  using assms(4)
proof (induction i)
  case (Suc i)
  have "[1..<Suc i + 1] = [1..<i + 1] @ [Suc i]" by simp
  then show ?case using Suc div_step_inv [of n a b k "Suc i"] assms(2,3) by simp
qed (use assms(1) in simp)

text \<open>Both loops together are division with remainder for every divisor but 0.\<close>

lemma div_fold_correct:
  assumes "0 < b" and "b < 2 ^ n" and "a < 2 ^ n"
    and "fold (div_step n b) [1..<n + 1] (a, align_sem n n b, replicate n False, False) = (x, d, R, c)"
  shows "x = a mod b" and "bits_val R = a div b"
proof -
  obtain k where k: "k < n" "align_sem n n b = b * 2 ^ k" "2 ^ (n - 1) \<le> b * 2 ^ k"
    using align_sem_reaches [OF assms(1,2)] by blast
  have "2 ^ n = 2 * (2 :: nat) ^ (n - 1)" using k(1) by (cases n) auto
  then have "a < b * 2 ^ (k + 1)" using assms(3) k(3) by simp
  then have "div_inv n a b k 0 (a, align_sem n n b, replicate n False, False)"
    by (simp add: div_inv_def k(2))
  from div_fold_inv [OF this assms(1) k(1), of n] have "div_inv n a b k n (x, d, R, c)"
    by (simp only: assms(4) order_refl)
  then obtain Q where "bits_val R = Q" "a = x + Q * b" "x < b" using k(1) by (auto simp: div_inv_def)
  then show "x = a mod b" "bits_val R = a div b" by auto
qed

text \<open>Division by 0 returns 1 and leaves the dividend as the remainder.\<close>

lemma div_fold_zero:
  assumes "0 < n"
    and "fold (div_step n 0) [1..<n + 1] (a, align_sem n n 0, replicate n False, False) = (x, d, R, c)"
  shows "x = a" and "bits_val R = 1"
proof -
  have al: "align_sem n k 0 = 0" for k by (induction k) auto
  have "fold (div_step n 0) [1..<i + 1] (a, 0, replicate n False, False) =
      (a, 0, replicate (n - i) False @ True # replicate (i - 1) False, True)" if "0 < i" "i \<le> n" for i
    using that
  proof (induction i rule: nat_induct_non_zero)
    case 1
    then show ?case by (cases n) (simp_all add: div_step_def list_update_append replicate_append_same [symmetric])
  next
    case (Suc i)
    have r: "replicate (n - i) False = False # replicate (n - Suc i) False" using Suc.prems
      by (metis Suc_diff_Suc Suc_le_lessD replicate_Suc)
    have "(replicate (n - i) False @ ys)[n - Suc i := False] = replicate (n - i) False @ ys" for ys
      using Suc.prems by (metis Suc_le_lessD diff_less_mono2 length_replicate lessI list_update_id
          nth_append nth_replicate)
    moreover have "1 - (n - i) = 0" using Suc.prems by simp
    moreover have "replicate (i - 1) False @ [False] = replicate i False"
      using Suc.hyps by (cases i) (simp_all add: replicate_append_same)
    ultimately have "div_step n 0 (Suc i) (a, 0, replicate (n - i) False @ True # replicate (i - 1) False, True) =
        (a, 0, replicate (n - Suc i) False @ True # replicate i False, True)"
      by (simp add: div_step_def drop_append)
    then show ?case using Suc by simp
  qed
  from this [of n] assms show "x = a" "bits_val R = 1" by (auto simp: al)
qed

section \<open>The loops on solver results\<close>

lemma mod_sub_no_borrow: "d \<le> x \<Longrightarrow> x < N \<Longrightarrow> (x + N - d) mod N = x - (d :: nat)"
  by (metis Nat.diff_add_assoc2 less_imp_diff_less mod_add_self2 mod_less)

lemma bits_val_msb:
  assumes "xs \<noteq> []"
  shows "last xs \<longleftrightarrow> 2 ^ (length xs - 1) \<le> bits_val xs"
  using assms bits_val_less [of "butlast xs"]
  by (cases xs rule: rev_cases) (auto simp: bits_val_append)

text \<open>What \<open>uDivRem\<close> and \<open>sDivRem\<close> return, on the numbers held by their arguments.\<close>

definition udivrem_sem :: "bool \<Rightarrow> nat \<Rightarrow> nat \<Rightarrow> nat" where
  "udivrem_sem value a b = (if value then if b = 0 then 1 else a div b else a mod b)"

lemma div_fold_sem:
  assumes "0 < n" and "a < 2 ^ n" and "b < 2 ^ n"
    and "fold (div_step n b) [1..<n + 1] (a, align_sem n n b, replicate n False, False) = (x, d, R, c)"
  shows "x = udivrem_sem False a b \<and> bits_val R = udivrem_sem True a b"
proof (cases "b = 0")
  case True
  then show ?thesis using div_fold_zero [OF assms(1) assms(4) [unfolded True]] by (simp add: udivrem_sem_def)
next
  case False
  then show ?thesis using div_fold_correct [OF _ assms(3,2,4)] by (simp add: udivrem_sem_def)
qed

definition sdivrem_sem :: "bool \<Rightarrow> nat \<Rightarrow> int \<Rightarrow> int \<Rightarrow> nat" where
  "sdivrem_sem value n a b =
     (let t = udivrem_sem value (nat \<bar>a\<bar>) (nat \<bar>b\<bar>)
      in if (a < 0) \<noteq> (b < 0) then (2 ^ n - t) mod 2 ^ n else t)"

lemma bits_sval_sign: "xs \<noteq> [] \<Longrightarrow> bits_sval xs < 0 \<longleftrightarrow> last xs"
proof -
  obtain N where N: "N = (2 :: int) ^ length xs" by simp
  have "int (bits_val xs) < N" using bits_val_less [of xs] by (simp add: N)
  then show "xs \<noteq> [] \<Longrightarrow> ?thesis" by (auto simp: bits_sval_def N [symmetric])
qed

lemma bits_sval_abs:
  assumes "xs \<noteq> []"
  shows "nat \<bar>bits_sval xs\<bar> = (if last xs then (2 ^ length xs - bits_val xs) mod 2 ^ length xs else bits_val xs)"
proof (cases "last xs")
  case True
  then have "bits_val xs \<noteq> 0" using bits_val_msb [OF assms] by (metis not_one_le_zero power_eq_0_iff
      le_zero_eq zero_neq_numeral)
  moreover have "nat \<bar>bits_sval xs\<bar> = 2 ^ length xs - bits_val xs"
    using True assms bits_val_less [of xs] by (simp add: bits_sval_def nat_diff_distrib' abs_if nat_power_eq)
  ultimately show ?thesis using True by simp
qed (simp add: bits_sval_def)

context predicate_solver
begin

lemma wpr_div_align:
  assumes "env s0 s A E" and "set b \<subseteq> A" and "b \<noteq> []"
    and "\<And>ds s'. length ds = length b \<Longrightarrow> env s0 s' (set ds \<union> A)
      (\<lambda>m. E m \<and> bnum m ds = align_sem (length b) k (bnum m b)) \<Longrightarrow> Q (BV ds) s'"
  shows "wpr (div_align P k b (BV b) s) Q"
  using assms
proof (induction k arbitrary: s A E Q b)
  case 0
  show ?case
    by (simp only: div_align.simps bb_shape, rule "0.prems"(4), rule refl, rule env_mono [OF "0.prems"(1)])
      (use "0.prems"(2) in auto)
next
  case (Suc k)
  have last: "last b \<in> A" using Suc.prems(2,3) by auto
  have msb: "val m (last b) \<longleftrightarrow> 2 ^ (length b - 1) \<le> bnum m b" for m
    using bits_val_msb [of "bvals m b"] Suc.prems(3) by (simp add: last_map)
  show ?case
    by (simp only: div_align.simps bb_shape Suc.prems(3), rule wpr_Let_case, rule wp_shiftL [OF Suc.prems(1,2)],
        rule wpr_rbind, rule wpr_ite_bv, assumption, use last in blast, use Suc.prems(2) in blast, blast, simp,
        simp only: bb_shape, rule Suc.IH, assumption, blast, use Suc.prems(3) in force)
      (rule Suc.prems(4), simp, erule env_mono, blast, clarsimp simp: msb split: if_splits)
qed

lemma wpr_div_loop:
  assumes "env s0 s A E" and "set x \<subseteq> A" and "set d \<subseteq> A" and "set R \<subseteq> A" and "c \<in> A" and "set b \<subseteq> A"
    and "zero \<in> A" and "one \<in> A" and "\<And>m. E m \<Longrightarrow> \<not> val m zero \<and> val m one"
    and "n \<noteq> 0" and "length x = n" and "length d = n" and "length R = n" and "length b = n"
    and "\<And>xs rs s'. length xs = n \<Longrightarrow> length rs = n \<Longrightarrow> env s0 s' (set xs \<union> set rs \<union> A)
      (\<lambda>m. E m \<and> (\<exists>d' c'. fold (div_step n (bnum m b)) is (bnum m x, bnum m d, bvals m R, val m c) =
         (bnum m xs, d', bvals m rs, c'))) \<Longrightarrow> Q (BV xs, rs) s'"
  shows "wpr (div_loop P (BV b) zero one is (BV x) (BV d) R (Base c) s) Q"
  using assms
proof (induction "is" arbitrary: s A E Q x d R c)
  case Nil
  show ?case
    by (simp only: div_loop.simps bb_shape, rule Nil.prems(15), rule Nil.prems, rule Nil.prems,
        rule env_mono [OF Nil.prems(1)])
      (use Nil.prems(2,4) in auto)
next
  case (Cons i "is")
  have d: "d \<noteq> []" "x \<noteq> []" using Cons.prems(10-12) by auto
  note len [simp] = Cons.prems(11-14)
  have step: "div_step n (bnum m b) i (bnum m x, bnum m d, bvals m R, val m c) =
      (bnum m x', bnum m d', bvals m R', val m c')"
    if "E m" and "val m dd = (bnum m d \<le> bnum m x)" and "val m eq = (bnum m d = bnum m b)"
      and "bnum m df = (bnum m x + 2 ^ length x - bnum m d) mod 2 ^ length x"
      and "bvals m x' = (if val m dd then bvals m df else bvals m x)"
      and "bvals m d' = (if val m eq then bvals m d else bvals m (shiftR d 1 zero))"
      and "val m q = (if val m c then val m zero else val m dd)"
      and "bvals m R' = (if val m c then bvals m (shiftR (R[length R - i := q]) 1 zero)
        else bvals m (R[length R - i := q]))"
      and "val m c' = (if val m eq then val m one else val m c)"
    for m x' d' R' c' dd eq df q
  proof -
    have sub: "bnum m x' = (if bnum m d \<le> bnum m x then bnum m x - bnum m d else bnum m x)"
      using that(2,4,5) mod_sub_no_borrow [of "bnum m d" "bnum m x" "2 ^ n"] bits_val_less [of "bvals m x"]
      by auto
    have half: "bnum m d' = (if bnum m d = bnum m b then bnum m d else bnum m d div 2)"
      using that Cons.prems(9,10) by (auto simp: bvals_shiftR bits_val_append bits_val_drop)
    have quot: "bvals m R' = (let R = (bvals m R)[n - i := (\<not> val m c \<and> bnum m d \<le> bnum m x)]
        in if val m c then drop 1 R @ [False] else R)"
      using that Cons.prems(9,10) by (auto simp: bvals_shiftR map_update)
    have check: "val m c' = (bnum m d = bnum m b \<or> val m c)" using that Cons.prems(9) by auto
    show ?thesis by (simp add: div_step_def sub half quot check Let_def)
  qed
  have upd: "set (R[j := q]) \<subseteq> insert q A" for j q
    using set_update_subset_insert [of R j q] Cons.prems(4) by blast
  show ?case
    by (simp only: div_loop.simps, rule wpr_rbind, rule wpr_bvuge [OF Cons.prems(1-3)], simp, rule d,
        simp only: bb_shape Let_def, rule wpr_rbind, rule wpr_equal_bv, assumption, use Cons.prems(2-8) in blast, use Cons.prems(2-8) in blast, simp,
        simp only: bb_shape Let_def, rule wpr_rbind, rule wpr_bvsub, assumption, use Cons.prems(2-8) in blast, use Cons.prems(2-8) in blast, simp, rule d,
        simp only: bb_shape Let_def, rule wpr_rbind, rule wpr_ite_bv, assumption, blast, blast, use Cons.prems(2-8) in blast, simp,
        simp only: bb_shape Let_def, rule wpr_rbind, rule wpr_ite_bv, assumption, blast, use Cons.prems(2-8) in blast, rule shiftR_subset,
        use Cons.prems(2-8) in blast, use Cons.prems(2-8) in blast, simp,
        simp only: bb_shape Let_def, rule wpr_rbind, rule wpr_ite_base, assumption, use Cons.prems(2-8) in blast, use Cons.prems(2-8) in blast, blast,
        simp only: bb_shape Let_def, rule wpr_rbind, rule wpr_ite_bv, assumption, use Cons.prems(2-8) in blast, rule shiftR_subset,
        rule subset_trans, rule upd, blast, use Cons.prems(2-8) in blast,
        rule subset_trans, rule upd, blast, simp,
        simp only: bb_shape Let_def, rule wpr_rbind, rule wpr_ite_base, assumption, blast, use Cons.prems(2-8) in blast, use Cons.prems(2-8) in blast,
        simp only: bb_shape, rule Cons.IH, assumption, blast, blast, blast, blast, use Cons.prems(2-8) in blast,
        use Cons.prems(2-8) in blast, use Cons.prems(2-8) in blast, use Cons.prems(9) in blast, rule Cons.prems(10))
      (simp, simp, simp, simp, rule Cons.prems(15), assumption, assumption, erule env_mono, blast,
       elim conjE exE, intro conjI exI, assumption, simp only: fold.simps o_apply step)
qed

lemma wpr_uDivRem:
  assumes "env s0 s A E" and "set a \<subseteq> A" and "set b \<subseteq> A" and "length a = length b" and "a \<noteq> []"
    and "\<And>rs s'. length rs = length a \<Longrightarrow> env s0 s' (set rs \<union> A)
      (\<lambda>m. E m \<and> bnum m rs = udivrem_sem value (bnum m a) (bnum m b)) \<Longrightarrow> Q (BV rs) s'"
  shows "wpr (uDivRem P (BV a) (BV b) value s) Q"
proof -
  have b: "b \<noteq> []" using assms(4,5) by auto
  have sem: "bnum m xs = udivrem_sem False (bnum m a) (bnum m b) \<and>
      bnum m rs = udivrem_sem True (bnum m a) (bnum m b)"
    if "fold (div_step (length a) (bnum m b)) [1..<length a + 1]
        (bnum m a, align_sem (length a) (length a) (bnum m b), replicate (length a) False, False) =
        (bnum m xs, d', bvals m rs, c')" for m xs rs d' c'
    by (rule div_fold_sem [OF _ _ _ that])
      (use assms(4,5) bits_val_less [of "bvals m a"] bits_val_less [of "bvals m b"] in auto)
  have fin: "bnum m xs = udivrem_sem False (bnum m a) (bnum m b)" "bnum m rs = udivrem_sem True (bnum m a) (bnum m b)"
    if "\<exists>d' c'. fold (div_step (length a) (bnum m b)) [1..<length a + 1]
        (bnum m a, bnum m ds, bvals m (replicate (length a) r), val m r) = (bnum m xs, d', bvals m rs, c')"
      and "\<not> val m r" and "bnum m ds = align_sem (length b) (length a) (bnum m b)" for m r ds xs rs
  proof -
    from that(1) obtain d' c' where "fold (div_step (length a) (bnum m b)) [1..<length a + 1]
        (bnum m a, bnum m ds, bvals m (replicate (length a) r), val m r) = (bnum m xs, d', bvals m rs, c')" by blast
    then have "fold (div_step (length a) (bnum m b)) [1..<length a + 1]
        (bnum m a, align_sem (length a) (length a) (bnum m b), replicate (length a) False, False) =
        (bnum m xs, d', bvals m rs, c')"
      using that(2) by (simp only: map_replicate that(3) assms(4) simp_thms)
    from sem [OF this] show "bnum m xs = udivrem_sem False (bnum m a) (bnum m b)"
      "bnum m rs = udivrem_sem True (bnum m a) (bnum m b)" by blast+
  qed
  have ret: "E m \<and> bnum m (if value then rs else xs) = udivrem_sem value (bnum m a) (bnum m b)"
    if "(((E m \<and> \<not> val m r) \<and> val m ra) \<and> bnum m ds = align_sem (length b) (length a) (bnum m b)) \<and>
      (\<exists>d' c'. fold (div_step (length a) (bnum m b)) [1..<length a + 1]
        (bnum m a, bnum m ds, bvals m (replicate (length a) r), val m r) = (bnum m xs, d', bvals m rs, c'))"
    for m r ra ds xs rs
  proof -
    from that have "bnum m xs = udivrem_sem False (bnum m a) (bnum m b)"
      and "bnum m rs = udivrem_sem True (bnum m a) (bnum m b)" using fin by blast+
    moreover from that have "E m" by blast
    ultimately show ?thesis by (cases "value") simp_all
  qed
  have pick: "(if value then Inr (BV rs, s) else Inr (BV xs, s)) = (Inr (BV (if value then rs else xs), s) :: ('b bbval \<times> 's) result)"
    for rs xs s by simp
  have sub: "set (if value then rs else xs) \<subseteq> set xs \<union> set rs" for xs rs :: "'b list" by simp
  show ?thesis
    by (simp only: uDivRem_def bb_shape, rule wpr_Let_case, rule wp_false [OF assms(1)],
        rule wpr_Let_case, rule wp_true, assumption, rule wpr_rbind, rule wpr_div_align, assumption,
        use assms(3) in blast, rule b, simp only: bb_shape, rule wpr_rbind,
        rule wpr_div_loop [where n = "length a"], assumption, use assms(2) in blast, blast, force, blast,
        use assms(3) in blast, blast, blast, blast)
      (use assms(5) in \<open>simp; fail\<close>, rule refl, use assms(4) in \<open>simp; fail\<close>, simp,
       rule assms(4) [symmetric], simp only: bb_shape pick, rule assms(6), simp, erule env_mono,
       use sub in blast, erule ret)
qed

lemma wpr_sDivRem:
  assumes "env s0 s A E" and "set a \<subseteq> A" and "set b \<subseteq> A" and "length a = length b" and "a \<noteq> []"
    and "\<And>rs s'. length rs = length a \<Longrightarrow> env s0 s' (set rs \<union> A)
      (\<lambda>m. E m \<and> bnum m rs = sdivrem_sem value (length a) (sgnum m a) (sgnum m b)) \<Longrightarrow> Q (BV rs) s'"
  shows "wpr (sDivRem P (BV a) (BV b) value s) Q"
proof -
  have b: "b \<noteq> []" using assms(4,5) by auto
  have last: "last a \<in> A" "last b \<in> A" using assms(2,3,5) b by auto
  have sgn: "bits_sval (bvals m a) < 0 \<longleftrightarrow> val m (last a)" "bits_sval (bvals m b) < 0 \<longleftrightarrow> val m (last b)" for m
    using bits_sval_sign [of "bvals m a"] bits_sval_sign [of "bvals m b"] assms(5) b by (simp_all add: last_map)
  have abs: "nat \<bar>bits_sval (bvals m a)\<bar> = (if val m (last a) then (2 ^ length a - bnum m a) mod 2 ^ length a else bnum m a)"
    "nat \<bar>bits_sval (bvals m b)\<bar> = (if val m (last b) then (2 ^ length b - bnum m b) mod 2 ^ length b else bnum m b)" for m
    using bits_sval_abs [of "bvals m a"] bits_sval_abs [of "bvals m b"] assms(5) b by (simp_all add: last_map)
  have fin: "bnum m r = sdivrem_sem value (length a) (sgnum m a) (sgnum m b)"
    if "bvals m r = (if val m x then bvals m nt else bvals m t)"
      and "val m x = tag2_sem xor_tag (val m (last a)) (val m (last b))"
      and "bnum m nt = (2 ^ length t - bnum m t) mod 2 ^ length t"
      and "bnum m t = udivrem_sem value (bnum m aneg) (bnum m bneg)"
      and "bvals m bneg = (if val m (last b) then bvals m nb else bvals m b)"
      and "bnum m nb = (2 ^ length b - bnum m b) mod 2 ^ length b"
      and "bvals m aneg = (if val m (last a) then bvals m na else bvals m a)"
      and "bnum m na = (2 ^ length a - bnum m a) mod 2 ^ length a"
      and "length t = length a"
    for m na aneg nb bneg t x nt r
  proof -
    have "bnum m aneg = nat \<bar>sgnum m a\<bar>" "bnum m bneg = nat \<bar>sgnum m b\<bar>"
      unfolding abs that(5,7) using that(6,8) by simp_all
    then show ?thesis unfolding sdivrem_sem_def Let_def sgn that(1) using that(2-4,9) by simp
  qed
  show ?thesis
    by (simp only: sDivRem_def bb_shape, rule wpr_rbind, rule wpr_bvneg [OF assms(1,2,5)],
        simp only: bb_shape, rule wpr_rbind, rule wpr_bvneg, assumption, use assms(3) in blast, rule b,
        simp only: bb_shape, rule wpr_rbind, rule wpr_bvneg, assumption, use assms(2) in blast, rule assms(5),
        simp only: bb_shape, rule wpr_rbind, rule wpr_ite_bv, assumption, use last in blast, blast,
        use assms(2) in blast, simp, simp only: bb_shape, rule wpr_rbind, rule wpr_bvneg, assumption,
        use assms(3) in blast, rule b, simp only: bb_shape, rule wpr_rbind, rule wpr_ite_bv, assumption,
        use last in blast, blast, use assms(3) in blast, simp, simp only: bb_shape, rule wpr_rbind,
        rule wpr_uDivRem, assumption, blast, blast, use assms(4) in simp, use assms(5) in force,
        simp only: bb_shape, rule wpr_Let_case, rule wp_op2, assumption, use last in blast, use last in blast,
        rule wpr_rbind, rule wpr_bvneg, assumption, blast, use assms(5) in force)
      (simp only: bb_shape, rule wpr_ite_bv, assumption, blast, blast, blast, simp, rule assms(6), simp,
        erule env_mono, blast, elim conjE, rule conjI, assumption, rule fin, assumption+, simp)
qed

end

section \<open>The results as integers\<close>

lemma int_sub_mod: "b \<le> 2 ^ n \<Longrightarrow> int ((a + 2 ^ n - b) mod 2 ^ n) = (int a - int b) mod 2 ^ n"
  by (simp add: zmod_int of_nat_diff) (metis diff_add_eq mod_add_self2)

lemma int_negated:
  assumes "t < 2 ^ n"
  shows "int ((2 ^ n - t) mod 2 ^ n) = (- int t) mod 2 ^ n"
  using int_sub_mod [of t n 0] assms by simp

lemma sdivrem_value:
  assumes "nat \<bar>a\<bar> < 2 ^ n" and "v \<Longrightarrow> b \<noteq> 0"
  shows "int (sdivrem_sem v n a b) =
    ((if (a < 0) \<noteq> (b < 0) then -1 else 1) * (if v then \<bar>a\<bar> div \<bar>b\<bar> else \<bar>a\<bar> mod \<bar>b\<bar>)) mod 2 ^ n"
proof -
  define t where "t = udivrem_sem v (nat \<bar>a\<bar>) (nat \<bar>b\<bar>)"
  have "t \<le> nat \<bar>a\<bar>" using assms(2) by (auto simp: t_def udivrem_sem_def)
  then have t: "t < 2 ^ n" using assms(1) by (rule le_less_trans)
  obtain T where T: "T = (if v then \<bar>a\<bar> div \<bar>b\<bar> else \<bar>a\<bar> mod \<bar>b\<bar>)" by blast
  have int_t: "int t = T"
    using assms(2) by (auto simp: t_def udivrem_sem_def zdiv_int zmod_int T)
  have "int t < 2 ^ n" using t by simp
  then have "T mod 2 ^ n = T" using int_t by (intro mod_pos_pos_trivial) auto
  then show ?thesis
    using int_negated [OF t] int_t unfolding T [symmetric] by (auto simp: sdivrem_sem_def t_def [symmetric])
qed

lemma sgnum_abs_less: "xs \<noteq> [] \<Longrightarrow> nat \<bar>bits_sval xs\<bar> < 2 ^ length xs"
  using bits_val_less [of xs] by (simp add: bits_sval_abs)

end
