(* ===== verification/MetaSem.thy ===== *)
theory MetaSem
  imports Meta BitDivision
begin

text \<open>
  What a constraint means to the solver: a reference semantics of expressions over Booleans and bit
  vectors of the declared widths. An operand denotes an integer, unsigned or in two's complement
  according to its signedness, and the operators are stated on these integers.
\<close>

section \<open>Values and sorts\<close>

datatype smt_val = VBool bool | VBits "bool list"

datatype smt_sort = SBool | SBits nat

fun sort_of_val :: "smt_val \<Rightarrow> smt_sort" where
  "sort_of_val (VBool b) = SBool"
| "sort_of_val (VBits bs) = SBits (length bs)"

text \<open>\<open>num sg bs\<close>: the integer; \<open>int_bits n k\<close>: the lowest \<open>n\<close> bits of \<open>k\<close>.\<close>

definition num :: "bool \<Rightarrow> bool list \<Rightarrow> int" where
  "num sg bs = (if sg then bits_sval bs else int (bits_val bs))"

definition int_bits :: "nat \<Rightarrow> int \<Rightarrow> bool list" where
  "int_bits n k = bits_of n (nat (k mod 2 ^ n))"

lemma length_int_bits [simp]: "length (int_bits n k) = n"
  by (simp add: int_bits_def)

lemma bits_val_int_bits: "int (bits_val (int_bits n k)) = k mod 2 ^ n"
proof -
  have "nat (k mod 2 ^ n) < 2 ^ n" by (simp add: nat_less_iff)
  then show ?thesis by (simp add: int_bits_def)
qed

lemma int_bits_eqI: "length bs = n \<Longrightarrow> int (bits_val bs) = k mod 2 ^ n \<Longrightarrow> bs = int_bits n k"
  by (metis bits_val_inject bits_val_int_bits length_int_bits of_nat_eq_iff)

lemma num_mod: "num sg bs mod 2 ^ length bs = int (bits_val bs)"
proof -
  have "int (bits_val bs) < 2 ^ length bs" using bits_val_less [of bs] by simp
  then show ?thesis by (simp add: num_def bits_sval_def)
qed

text \<open>Division truncates; dividing by 0 gives 1 with the sign of the dividend.\<close>

definition trunc_div :: "int \<Rightarrow> int \<Rightarrow> int" where
  "trunc_div a b = (if b = 0 then (if a < 0 then -1 else 1) else sgn a * sgn b * (\<bar>a\<bar> div \<bar>b\<bar>))"

text \<open>The remainder has the sign of the quotient, and \<open>\<bar>a\<bar>\<close> of the dividend when the divisor is 0.\<close>

definition trunc_rem :: "int \<Rightarrow> int \<Rightarrow> int" where
  "trunc_rem a b = (if (a < 0) \<noteq> (b < 0) then - (\<bar>a\<bar> mod \<bar>b\<bar>) else \<bar>a\<bar> mod \<bar>b\<bar>)"

section \<open>The semantics\<close>

definition sem_constant :: "const_t \<Rightarrow> smt_val" where
  "sem_constant c =
     (if isBool (cbitsize c) (csign c) then VBool (cvalue c \<noteq> 0)
      else VBits (int_bits (cbitsize c) (if csign c then sint (cvalue c) else uint (cvalue c))))"

fun sem_unop :: "unop \<Rightarrow> smt_val \<Rightarrow> smt_val" where
  "sem_unop NotOpr (VBool b) = VBool (\<not> b)"
| "sem_unop NegOpr (VBits bs) = VBits (int_bits (length bs) (- int (bits_val bs)))"
| "sem_unop ComplementOpr (VBits bs) = VBits (map Not bs)"
| "sem_unop u v = v"

definition sem_bits :: "binop \<Rightarrow> bool \<Rightarrow> bool \<Rightarrow> bool list \<Rightarrow> bool list \<Rightarrow> smt_val" where
  "sem_bits f l r a b =
     (let n = length a; x = num l a; y = num r b in
      case f of
        AndOpr \<Rightarrow> VBits (map2 (\<and>) a b)
      | OrOpr \<Rightarrow> VBits (map2 (\<or>) a b)
      | XorOpr \<Rightarrow> VBits (map2 (\<noteq>) a b)
      | EqualOpr \<Rightarrow> VBool (a = b)
      | NotEqualOpr \<Rightarrow> VBool (a \<noteq> b)
      | LessOpr \<Rightarrow> VBool (x < y)
      | LessEqualOpr \<Rightarrow> VBool (x \<le> y)
      | GreaterOpr \<Rightarrow> VBool (x > y)
      | GreaterEqualOpr \<Rightarrow> VBool (x \<ge> y)
      | PlusOpr \<Rightarrow> VBits (int_bits n (x + y))
      | MinusOpr \<Rightarrow> VBits (int_bits n (x - y))
      | MultipliesOpr \<Rightarrow> VBits (int_bits n (x * y))
      | DevideOpr \<Rightarrow> VBits (int_bits (if l = r then n else n + 1) (trunc_div x y))
      | ModuloOpr \<Rightarrow> VBits (int_bits n (trunc_rem x (num l b)))
      | ShiftLeftOpr \<Rightarrow> VBits (int_bits n (x * 2 ^ bits_val b))
      | ShiftRightOpr \<Rightarrow> VBits (int_bits n (int (bits_val a) div 2 ^ bits_val b))
      | _ \<Rightarrow> VBits a)"

fun sem_bools :: "binop \<Rightarrow> bool \<Rightarrow> bool \<Rightarrow> smt_val" where
  "sem_bools LogicalAndOpr a b = VBool (a \<and> b)"
| "sem_bools LogicalOrOpr a b = VBool (a \<or> b)"
| "sem_bools EqualOpr a b = VBool (a = b)"
| "sem_bools NotEqualOpr a b = VBool (a \<noteq> b)"
| "sem_bools f a b = VBool a"

fun sem_binop :: "binop \<Rightarrow> bool \<Rightarrow> bool \<Rightarrow> smt_val \<Rightarrow> smt_val \<Rightarrow> smt_val" where
  "sem_binop f l r (VBool a) (VBool b) = sem_bools f a b"
| "sem_binop f l r (VBits a) (VBits b) = sem_bits f l r a b"
| "sem_binop f l r v w = v"

fun sem_extend :: "bool \<Rightarrow> nat \<Rightarrow> smt_val \<Rightarrow> smt_val" where
  "sem_extend sg k (VBits bs) = VBits (int_bits (length bs + k) (num sg bs))"
| "sem_extend sg k v = v"

fun sem_bitslice :: "int \<Rightarrow> int \<Rightarrow> smt_val \<Rightarrow> smt_val" where
  "sem_bitslice r l (VBits bs) = VBits (take (nat (r + 1 - l)) (drop (nat l) bs))"
| "sem_bitslice r l v = v"

primrec smt_sign :: "node \<Rightarrow> bool" where
  "smt_sign (Placeholder i) = False"
| "smt_sign (VariableExpr i b sg) = sg"
| "smt_sign (ConstantExpr c) = csign c"
| "smt_sign (VectorExpr i b sg) = sg"
| "smt_sign (UnaryOperator u n) = smt_sign n"
| "smt_sign (Inside n cs) = False"
| "smt_sign (ExtendExpression n k) = smt_sign n"
| "smt_sign (BinaryOperator f l r) = binop_sign f (smt_sign l) (smt_sign r)"
| "smt_sign (VectorAccess l r) = False"
| "smt_sign (IfThenElse a b c) = False"
| "smt_sign (Bitslice n r l) = False"

primrec smt_sem :: "(nat \<Rightarrow> smt_val) \<Rightarrow> node \<Rightarrow> smt_val" where
  "smt_sem \<rho> (Placeholder i) = VBool False"
| "smt_sem \<rho> (VariableExpr i b sg) = \<rho> i"
| "smt_sem \<rho> (ConstantExpr c) = sem_constant c"
| "smt_sem \<rho> (VectorExpr i b sg) = VBool False"
| "smt_sem \<rho> (UnaryOperator u n) = sem_unop u (smt_sem \<rho> n)"
| "smt_sem \<rho> (Inside n cs) = VBool (smt_sem \<rho> n \<in> sem_constant ` set cs)"
| "smt_sem \<rho> (ExtendExpression n k) = sem_extend (smt_sign n) k (smt_sem \<rho> n)"
| "smt_sem \<rho> (BinaryOperator f l r) = sem_binop f (smt_sign l) (smt_sign r) (smt_sem \<rho> l) (smt_sem \<rho> r)"
| "smt_sem \<rho> (VectorAccess l r) = VBool False"
| "smt_sem \<rho> (IfThenElse a b c) = (if smt_sem \<rho> a = VBool True then smt_sem \<rho> b else smt_sem \<rho> c)"
| "smt_sem \<rho> (Bitslice n r l) = sem_bitslice r l (smt_sem \<rho> n)"

section \<open>Well-sorted expressions\<close>

definition term_sort :: "nat \<Rightarrow> bool \<Rightarrow> smt_sort" where
  "term_sort b sg = (if isBool b sg then SBool else SBits b)"

fun unop_sort :: "unop \<Rightarrow> smt_sort \<Rightarrow> smt_sort option" where
  "unop_sort NotOpr SBool = Some SBool"
| "unop_sort NegOpr (SBits n) = (if n = 0 then None else Some (SBits n))"
| "unop_sort ComplementOpr (SBits n) = Some (SBits n)"
| "unop_sort u s = None"

fun binop_sort :: "binop \<Rightarrow> bool \<Rightarrow> bool \<Rightarrow> smt_sort \<Rightarrow> smt_sort \<Rightarrow> smt_sort option" where
  "binop_sort f l r SBool SBool =
     (if f \<in> {LogicalAndOpr, LogicalOrOpr, EqualOpr, NotEqualOpr} then Some SBool else None)"
| "binop_sort f l r (SBits m) (SBits n) =
     (if m \<noteq> n \<or> n = 0 \<or> n \<ge> 2 ^ 32 then None
      else if f \<in> {EqualOpr, NotEqualOpr, LessOpr, LessEqualOpr, GreaterOpr, GreaterEqualOpr} then Some SBool
      else if f \<in> {LogicalAndOpr, LogicalOrOpr, ForEach} then None
      else if f = DevideOpr \<and> l \<noteq> r then Some (SBits (n + 1))
      else Some (SBits n))"
| "binop_sort f l r _ _ = None"

primrec sort_of :: "node \<Rightarrow> smt_sort option" where
  "sort_of (Placeholder i) = None"
| "sort_of (VariableExpr i b sg) = Some (term_sort b sg)"
| "sort_of (ConstantExpr c) = Some (term_sort (cbitsize c) (csign c))"
| "sort_of (VectorExpr i b sg) = None"
| "sort_of (UnaryOperator u n) = Option.bind (sort_of n) (unop_sort u)"
| "sort_of (Inside n cs) =
     Option.bind (sort_of n) (\<lambda>s. if \<forall>c\<in>set cs. term_sort (cbitsize c) (csign c) = s then Some SBool else None)"
| "sort_of (ExtendExpression n k) =
     Option.bind (sort_of n) (\<lambda>s. case s of SBits m \<Rightarrow> if m = 0 then None else Some (SBits (m + k)) | SBool \<Rightarrow> None)"
| "sort_of (BinaryOperator f l r) =
     Option.bind (sort_of l) (\<lambda>s. Option.bind (sort_of r) (binop_sort f (smt_sign l) (smt_sign r) s))"
| "sort_of (VectorAccess l r) = None"
| "sort_of (IfThenElse a b c) =
     (if sort_of a = Some SBool \<and> sort_of b = sort_of c then sort_of b else None)"
| "sort_of (Bitslice n r l) =
     Option.bind (sort_of n) (\<lambda>s. case s of
       SBits m \<Rightarrow> if 0 \<le> l \<and> l \<le> r \<and> r < int m \<and> r < 2 ^ 32 then Some (SBits (nat (r + 1 - l))) else None
     | SBool \<Rightarrow> None)"

text \<open>The declared sort of each variable is used throughout.\<close>

primrec decls_ok :: "(nat \<Rightarrow> smt_sort) \<Rightarrow> node \<Rightarrow> bool" where
  "decls_ok d (Placeholder i) \<longleftrightarrow> True"
| "decls_ok d (VariableExpr i b sg) \<longleftrightarrow> d i = term_sort b sg"
| "decls_ok d (ConstantExpr c) \<longleftrightarrow> True"
| "decls_ok d (VectorExpr i b sg) \<longleftrightarrow> True"
| "decls_ok d (UnaryOperator u n) \<longleftrightarrow> decls_ok d n"
| "decls_ok d (Inside n cs) \<longleftrightarrow> decls_ok d n"
| "decls_ok d (ExtendExpression n k) \<longleftrightarrow> decls_ok d n"
| "decls_ok d (BinaryOperator f l r) \<longleftrightarrow> decls_ok d l \<and> decls_ok d r"
| "decls_ok d (VectorAccess l r) \<longleftrightarrow> decls_ok d l \<and> decls_ok d r"
| "decls_ok d (IfThenElse a b c) \<longleftrightarrow> decls_ok d a \<and> decls_ok d b \<and> decls_ok d c"
| "decls_ok d (Bitslice n r l) \<longleftrightarrow> decls_ok d n"

definition typed :: "(nat \<Rightarrow> smt_sort) \<Rightarrow> (nat \<Rightarrow> smt_val) \<Rightarrow> bool" where
  "typed d \<rho> \<longleftrightarrow> (\<forall>i. sort_of_val (\<rho> i) = d i)"

section \<open>Bits of the integers\<close>

lemma num_eq_mod: "length a = n \<Longrightarrow> num l a mod 2 ^ n = int (bits_val a)"
  using num_mod [of l a] by simp

lemma int_bits_add:
  assumes "length a = n" and "length b = n" and "length rs = n" and "bits_val rs = (bits_val a + bits_val b) mod 2 ^ n"
  shows "rs = int_bits n (num l a + num r b)"
proof (rule int_bits_eqI)
  have "(num l a + num r b) mod 2 ^ n = (num l a mod 2 ^ n + num r b mod 2 ^ n) mod 2 ^ n" by (simp add: mod_add_eq)
  then show "int (bits_val rs) = (num l a + num r b) mod 2 ^ n"
    using assms by (simp add: num_eq_mod zmod_int)
qed (rule assms)

lemma int_bits_diff:
  assumes "length a = n" and "length b = n" and "length rs = n"
    and "bits_val rs = (bits_val a + 2 ^ n - bits_val b) mod 2 ^ n"
  shows "rs = int_bits n (num l a - num r b)"
proof (rule int_bits_eqI)
  have "bits_val b \<le> 2 ^ n" using bits_val_less [of b] assms(2) by simp
  then have "int (bits_val rs) = (int (bits_val a) - int (bits_val b)) mod 2 ^ n"
    unfolding assms(4) by (rule int_sub_mod)
  also have "\<dots> = (num l a mod 2 ^ n - num r b mod 2 ^ n) mod 2 ^ n" by (simp only: num_eq_mod assms)
  finally show "int (bits_val rs) = (num l a - num r b) mod 2 ^ n" by (simp only: mod_diff_eq)
qed (rule assms)

lemma int_bits_mult:
  assumes "length a = n" and "length b = n" and "length rs = n" and "bits_val rs = (bits_val a * bits_val b) mod 2 ^ n"
  shows "rs = int_bits n (num l a * num r b)"
proof (rule int_bits_eqI)
  have "(num l a * num r b) mod 2 ^ n = (num l a mod 2 ^ n * (num r b mod 2 ^ n)) mod 2 ^ n" by (simp add: mod_mult_eq)
  then show "int (bits_val rs) = (num l a * num r b) mod 2 ^ n"
    using assms by (simp add: num_eq_mod zmod_int)
qed (rule assms)

lemma int_bits_shl:
  assumes "length a = n" and "length rs = n" and "bits_val rs = 2 ^ k * bits_val a mod 2 ^ n"
  shows "rs = int_bits n (num l a * 2 ^ k)"
proof (rule int_bits_eqI)
  have "(num l a * 2 ^ k) mod 2 ^ n = (num l a mod 2 ^ n * 2 ^ k) mod 2 ^ n" by (simp add: mod_mult_left_eq)
  then show "int (bits_val rs) = (num l a * 2 ^ k) mod 2 ^ n"
    using assms by (simp add: num_eq_mod zmod_int mult.commute)
qed (rule assms)

lemma int_bits_neg:
  assumes "length a = n" and "length rs = n" and "bits_val rs = (2 ^ n - bits_val a) mod 2 ^ n"
  shows "rs = int_bits n (- int (bits_val a))"
  using int_bits_diff [of "replicate n False" n a rs False False] assms
  by (simp add: num_def)

lemma bits_sval_small: "bits_val xs < 2 ^ (length xs - 1) \<Longrightarrow> bits_sval xs = int (bits_val xs)"
  by (cases xs rule: rev_cases) (auto simp: bits_sval_def bits_val_append split: if_splits)

lemma nat_abs_num: "a \<noteq> [] \<Longrightarrow> nat \<bar>num l a\<bar> < 2 ^ length a"
  using sgnum_abs_less [of a] bits_val_less [of a] by (simp add: num_def)

lemma sdiv_int:
  assumes "0 < n" and "nat \<bar>a\<bar> < 2 ^ n"
  shows "int (sdivrem_sem True n a b) = trunc_div a b mod 2 ^ n"
proof (cases "b = 0")
  case True
  have "1 < (2 :: nat) ^ n" by (rule one_less_power) (use assms(1) in simp_all)
  then have "int ((2 ^ n - 1) mod 2 ^ n) = (- 1) mod 2 ^ n" using int_negated [of 1 n] by simp
  moreover have "(1 :: int) mod 2 ^ n = 1" using assms(1) by (simp add: one_mod_2_pow_eq)
  ultimately show ?thesis using True by (simp add: sdivrem_sem_def udivrem_sem_def trunc_div_def)
next
  case False
  then have "(if (a < 0) \<noteq> (b < 0) then - 1 else 1) * (\<bar>a\<bar> div \<bar>b\<bar>) = trunc_div a b"
    by (cases "a = 0") (auto simp: trunc_div_def sgn_if)
  then show ?thesis using sdivrem_value [OF assms(2), of True b] False by simp
qed

lemma srem_int:
  assumes "nat \<bar>a\<bar> < 2 ^ n"
  shows "int (sdivrem_sem False n a b) = trunc_rem a b mod 2 ^ n"
  using sdivrem_value [OF assms, of False b] by (auto simp: trunc_rem_def)

lemma udiv_int: "int (udivrem_sem True a b) = trunc_div (int a) (int b)"
  by (auto simp: udivrem_sem_def trunc_div_def zdiv_int)

lemma urem_int: "int (udivrem_sem False a b) = trunc_rem (int a) (int b)"
  by (auto simp: udivrem_sem_def trunc_rem_def zmod_int)

end
