(* ===== verification/MetaCorrect.thy ===== *)
theory MetaCorrect
  imports MetaSem
begin

text \<open>
  The translation is correct over every predicate solver that keeps its contract: a well-sorted
  expression is translated without error, and the result has in every model the value of the expression
  under the assignment the model gives to the variables.
\<close>

section \<open>Results and their values\<close>

fun bb_lits :: "'b bbval \<Rightarrow> 'b set" where
  "bb_lits (Base b) = {b}"
| "bb_lits (BV bs) = set bs"

fun bb_sort :: "'b bbval \<Rightarrow> smt_sort" where
  "bb_sort (Base b) = SBool"
| "bb_sort (BV bs) = SBits (length bs)"

fun abs_bb :: "('b \<Rightarrow> bool) \<Rightarrow> 'b bbval \<Rightarrow> smt_val" where
  "abs_bb f (Base b) = VBool (f b)"
| "abs_bb f (BV bs) = VBits (map f bs)"

lemma bb_sort_eq:
  "bb_sort e = SBool \<longleftrightarrow> (\<exists>b. e = Base b)" "bb_sort e = SBits n \<longleftrightarrow> (\<exists>bs. e = BV bs \<and> length bs = n)"
  by (cases e; auto)+

lemma abs_bb_cong: "(\<And>b. b \<in> bb_lits e \<Longrightarrow> f b = g b) \<Longrightarrow> abs_bb f e = abs_bb g e"
  by (cases e) auto

lemma sort_of_abs_bb [simp]: "sort_of_val (abs_bb f e) = bb_sort e"
  by (cases e) auto

lemma int_bits_Suc: "int_bits (Suc n) k = odd k # int_bits n (k div 2)"
proof -
  have eq: "k mod 2 ^ Suc n = k mod 2 + 2 * (k div 2 mod 2 ^ n)" by (simp add: zmod_zmult2_eq)
  obtain m where m: "k div 2 mod 2 ^ n = int m" by (metis nonneg_int_cases pos_mod_sign zero_less_numeral zero_less_power)
  then have "nat (k mod 2 ^ Suc n) = of_bool (odd k) + 2 * m" unfolding eq by (auto simp: mod_2_eq_odd)
  then show ?thesis using m by (simp add: int_bits_def)
qed

lemma sint_bits_int_bits: "sint_bits n v = int_bits n (sint v)"
proof (induction n arbitrary: v)
  case (Suc n)
  have "v AND 1 \<noteq> 0 \<longleftrightarrow> bit v 0" by (simp add: and_one_eq bit_0 odd_iff_mod_2_eq_one)
  also have "\<dots> \<longleftrightarrow> odd (sint v)" by (simp add: bit_simps flip: bit_0)
  finally have "v AND 1 \<noteq> 0 \<longleftrightarrow> odd (sint v)" .
  moreover have "sint (signed_drop_bit 1 v) = sint v div 2"
    by (simp add: sint_signed_drop_bit_eq drop_bit_Suc)
  ultimately show ?case by (simp only: sint_bits.simps int_bits_Suc Suc.IH)
qed (simp add: int_bits_def)

lemma bits_sval_replicate_last:
  assumes "xs \<noteq> []"
  shows "bits_sval (xs @ replicate k (last xs)) = bits_sval xs"
proof (cases "last xs")
  case True
  have "int (bits_val (replicate k True)) = 2 ^ k - 1"
    using Suc_bits_val_replicate_True [of k] by (metis add_diff_cancel_left' of_nat_Suc of_nat_numeral of_nat_power)
  then have "int (bits_val (xs @ replicate k True)) = int (bits_val xs) + 2 ^ length xs * (2 ^ k - 1)"
    by (simp add: bits_val_append)
  moreover have "last (xs @ replicate k True)" using True by (cases k) auto
  ultimately show ?thesis using assms True by (simp add: bits_sval_def power_add algebra_simps)
next
  case False
  then show ?thesis using assms by (cases k) (auto simp: bits_sval_def bits_val_append)
qed

lemma uint_bits_int_bits: "uint_bits n v = int_bits n (uint v)"
  by (rule int_bits_eqI) (simp_all add: bits_val_uint_bits zmod_int)

lemma int_bits_shr:
  assumes "length a = n" and "length rs = n" and "bits_val rs = bits_val a div 2 ^ k"
  shows "rs = int_bits n (int (bits_val a) div 2 ^ k)"
proof (rule int_bits_eqI)
  have "int (bits_val a) div 2 ^ k = int (bits_val rs)" by (simp add: assms(3) zdiv_int)
  moreover have "int (bits_val rs) < 2 ^ n" using bits_val_less [of rs] assms(2) by simp
  ultimately show "int (bits_val rs) = int (bits_val a) div 2 ^ k mod 2 ^ n" by simp
qed (rule assms)

context predicate_solver
begin

section \<open>Rules the bit blaster still lacks\<close>

lemma wpr_bvsint:
  assumes "env s0 s A E"
    and "\<And>rs s'. length rs = w \<Longrightarrow> env s0 s' (set rs \<union> A) (\<lambda>m. E m \<and> bvals m rs = sint_bits w v) \<Longrightarrow> Q (BV rs) s'"
  shows "wpr (bb_bvsint P v w s) Q"
proof -
  have copy: "(\<lambda>b. val m (if b then x else y)) = (\<lambda>b. b)" if "val m x" and "\<not> val m y" for m x y
    using that by auto
  have len: "length (sint_bits w v) = w" for w and v :: u64 by (induction w arbitrary: v) auto
  show ?thesis
    by (simp only: bb_bvsint_def bb_shape, rule wpr_Let_case, rule wp_true [OF assms(1)], rule wpr_Let_case,
        rule wp_false, assumption, simp only: bb_shape, rule assms(2))
      (simp add: len, erule env_mono, auto simp: o_def copy)
qed

lemma wpr_sign_extend:
  assumes "env s0 s A E" and "set a \<subseteq> A" and "a \<noteq> []"
    and "\<And>rs s'. length rs = length a + k \<Longrightarrow> env s0 s' (set rs \<union> A)
      (\<lambda>m. E m \<and> sgnum m rs = sgnum m a) \<Longrightarrow> Q (BV rs) s'"
  shows "wpr (bb_sign_extend P k (BV a) s) Q"
proof -
  have "bits_sval (bvals m (a @ replicate k (last a))) = bits_sval (bvals m a)" for m
    using bits_sval_replicate_last [of "bvals m a" k] assms(3) by (simp add: last_map)
  then show ?thesis
    by (simp only: bb_sign_extend_def bb_shape assms(3), intro assms(4), simp, intro env_mono [OF assms(1)])
      (use assms(2,3) in auto)
qed

text \<open>\<open>gives r s t F\<close>: the code returns a usable result of sort \<open>t\<close> whose value in a model is \<open>F\<close>.\<close>

definition gives :: "('b bbval \<times> 's) result \<Rightarrow> 's \<Rightarrow> smt_sort \<Rightarrow> ('m \<Rightarrow> smt_val) \<Rightarrow> bool" where
  "gives r s t F \<longleftrightarrow> wpr r (\<lambda>e s'. extends wfs ok mdl val s s' \<and> bb_sort e = t \<and> (\<forall>b\<in>bb_lits e. ok s' b) \<and>
     (\<forall>m. mdl s' m \<longrightarrow> abs_bb (val m) e = F m))"

lemma gives_bv:
  assumes "\<And>Q. (\<And>rs s'. length rs = n \<Longrightarrow> env s s' (set rs \<union> A) (\<lambda>m. True \<and> G m rs) \<Longrightarrow> Q (BV rs) s') \<Longrightarrow> wpr r Q"
    and "\<And>m rs. length rs = n \<Longrightarrow> G m rs \<Longrightarrow> bvals m rs = H m"
  shows "gives r s (SBits n) (\<lambda>m. VBits (H m))"
  unfolding gives_def by (rule assms(1)) (use assms(2) in \<open>auto simp: env_def\<close>)

lemma gives_base:
  assumes "\<And>Q. (\<And>b s'. env s s' (insert b A) (\<lambda>m. True \<and> G m b) \<Longrightarrow> Q (Base b) s') \<Longrightarrow> wpr r Q"
    and "\<And>m b. G m b \<Longrightarrow> val m b = H m"
  shows "gives r s SBool (\<lambda>m. VBool (H m))"
  unfolding gives_def by (rule assms(1)) (use assms(2) in \<open>auto simp: env_def\<close>)

lemma gives_mono: "gives r s t F \<Longrightarrow> (\<And>m. F m = G m) \<Longrightarrow> gives r s t G"
  by (simp add: gives_def)

definition usable :: "'s \<Rightarrow> 'b bbval \<Rightarrow> bool" where
  "usable s e \<longleftrightarrow> (\<forall>b\<in>bb_lits e. ok s b)"

lemma gives_constant:
  assumes "wfs s"
  shows "wpr (meta_constant P c s) (\<lambda>(e, sg) s'. extends wfs ok mdl val s s' \<and> sg = csign c \<and>
     bb_sort e = term_sort (cbitsize c) (csign c) \<and> usable s' e \<and> (\<forall>m. mdl s' m \<longrightarrow> abs_bb (val m) e = sem_constant c))"
proof -
  note env = env_start [of s "{}", OF assms]
  show ?thesis
  proof (cases "isBool (cbitsize c) (csign c)")
    case True
    obtain t s1 where t: "ps_true P s = (t, s1)" by fastforce
    obtain f s2 where f: "ps_false P s = (f, s2)" by fastforce
    show ?thesis
      using true_law [OF assms t] false_law [OF assms f] True
      by (simp add: meta_constant_def bb_true_def bb_false_def t f usable_def sem_constant_def term_sort_def)
  next
    case False
    show ?thesis
    proof (cases "csign c")
      case True
      show ?thesis
        by (unfold meta_constant_def if_not_P [OF False] if_P [OF True], rule wpr_rbind, rule wpr_bvsint [OF env])
          (use False True in \<open>auto simp: env_def usable_def sem_constant_def term_sort_def sint_bits_int_bits\<close>)
    next
      case unsigned: False
      show ?thesis
        by (unfold meta_constant_def if_not_P [OF False] if_not_P [OF unsigned], rule wpr_rbind, rule wpr_bvuint [OF env])
          (use False unsigned in \<open>auto simp: env_def usable_def sem_constant_def term_sort_def uint_bits_int_bits\<close>)
    qed
  qed
qed

text \<open>A choice by signedness compares the integers the operands denote.\<close>

lemma wpr_by_sign_cmp:
  assumes env: "env s0 s A E" and sub: "set a \<subseteq> A" "set b \<subseteq> A" and len: "length a = length b" "a \<noteq> []"
    and sop: "\<And>a b s s0 A E Q. env s0 s A E \<Longrightarrow> set a \<subseteq> A \<Longrightarrow> set b \<subseteq> A \<Longrightarrow> length a = length b \<Longrightarrow> a \<noteq> [] \<Longrightarrow>
      (\<And>r s'. env s0 s' (insert r A) (\<lambda>m. E m \<and> val m r = R (sgnum m a) (sgnum m b)) \<Longrightarrow> Q (Base r) s') \<Longrightarrow>
      wpr (sop (BV a) (BV b) s) Q"
    and uop: "\<And>a b s s0 A E Q. env s0 s A E \<Longrightarrow> set a \<subseteq> A \<Longrightarrow> set b \<subseteq> A \<Longrightarrow> length a = length b \<Longrightarrow> a \<noteq> [] \<Longrightarrow>
      (\<And>r s'. env s0 s' (insert r A) (\<lambda>m. E m \<and> val m r = R (int (bnum m a)) (int (bnum m b))) \<Longrightarrow> Q (Base r) s') \<Longrightarrow>
      wpr (uop (BV a) (BV b) s) Q"
    and Q: "\<And>r s'. env s0 s' (insert r A) (\<lambda>m. E m \<and> val m r = R (num l (bvals m a)) (num k (bvals m b))) \<Longrightarrow> Q (Base r) s'"
  shows "wpr (by_sign P sop uop (BV a, l) (BV b, k) s) Q"
proof -
  have zero: "bits_sval xs = int (bits_val ys)" if "bits_val xs = bits_val ys" "length xs = length ys + 1" for xs ys
    using that bits_sval_small [of xs] bits_val_less [of ys] by simp
  consider "l" "k" | "\<not> l" "\<not> k" | "l" "\<not> k" | "\<not> l" "k" by blast
  then show ?thesis
  proof cases
    case 1
    show ?thesis
      by (simp only: by_sign_def prod.case simp_thms 1 if_True if_False,
        rule sop [OF env sub len], rule Q) (simp add: num_def 1)
  next
    case 2
    show ?thesis
      by (simp only: by_sign_def prod.case simp_thms 2 if_True if_False,
        rule uop [OF env sub len], rule Q) (simp add: num_def 2)
  next
    case 3
    show ?thesis
      by (simp only: by_sign_def prod.case simp_thms 3 if_True if_False,
        rule wpr_rbind, rule wpr_sign_extend [OF env sub(1) len(2)], simp only: bb_shape, rule wpr_rbind,
          rule wpr_zero_extend, assumption, use sub in blast, simp only: bb_shape, rule sop, assumption, blast, blast)
        (use len in simp, use len in force, rule Q, erule env_mono, blast, use 3 zero in \<open>auto simp: num_def\<close>)
  next
    case 4
    show ?thesis
      by (simp only: by_sign_def prod.case simp_thms 4 if_True if_False,
        rule wpr_rbind, rule wpr_zero_extend [OF env sub(1)], simp only: bb_shape, rule wpr_rbind,
          rule wpr_sign_extend, assumption, use sub in blast, use len in force, simp only: bb_shape, rule sop, assumption, blast, blast)
        (use len in simp, use len in force, rule Q, erule env_mono, blast, use 4 zero in \<open>auto simp: num_def\<close>)
  qed
qed

lemma wpr_by_sign_div:
  assumes env: "env s0 s A E" and sub: "set a \<subseteq> A" "set b \<subseteq> A" and len: "length a = length b" "a \<noteq> []"
    and n: "n = (if l = k then length a else length a + 1)"
    and Q: "\<And>rs s'. length rs = n \<Longrightarrow> env s0 s' (set rs \<union> A)
      (\<lambda>m. E m \<and> bvals m rs = int_bits n (trunc_div (num l (bvals m a)) (num k (bvals m b)))) \<Longrightarrow> Q (BV rs) s'"
  shows "wpr (by_sign P (bb_bvsdiv P) (bb_bvudiv P) (BV a, l) (BV b, k) s) Q"
proof -
  have zero: "bits_sval xs = int (bits_val ys)" if "bits_val xs = bits_val ys" "length xs = length ys + 1" for xs ys
    using that bits_sval_small [of xs] bits_val_less [of ys] by simp
  have quot: "bvals m rs = int_bits (length a') (trunc_div (sgnum m a') (sgnum m b'))"
    if "bnum m rs = sdivrem_sem True (length a') (sgnum m a') (sgnum m b')" "length rs = length a'" "a' \<noteq> []" for m rs a' b'
    using sdiv_int [of "length a'" "sgnum m a'" "sgnum m b'"] sgnum_abs_less [of "bvals m a'"] that
    by (intro int_bits_eqI) simp_all
  consider "l" "k" | "\<not> l" "\<not> k" | "l" "\<not> k" | "\<not> l" "k" by blast
  then show ?thesis
  proof cases
    case 1
    show ?thesis
      by (simp only: by_sign_def prod.case simp_thms 1 if_True if_False bb_bvsdiv_def,
          rule wpr_sDivRem [OF env sub len], rule Q)
        (simp add: n 1, erule env_mono, simp, use quot [of _ _ a b] len in \<open>simp add: n 1 num_def\<close>)
  next
    case 2
    have "bvals m rs = int_bits (length a) (trunc_div (int (bnum m a)) (int (bnum m b)))"
      if "bnum m rs = udivrem_sem True (bnum m a) (bnum m b)" "length rs = length a" for m rs
      using that bits_val_less [of "bvals m rs"] by (intro int_bits_eqI) (simp_all flip: udiv_int)
    then show ?thesis
      by (simp only: by_sign_def prod.case simp_thms 2 if_True if_False bb_bvudiv_def,
          intro wpr_uDivRem [OF env sub len] Q)
        (simp add: n 2, erule env_mono, simp, simp add: n 2 num_def)
  next
    case 3
    show ?thesis
      by (simp only: by_sign_def prod.case simp_thms 3 if_True if_False bb_bvsdiv_def,
          rule wpr_rbind, rule wpr_sign_extend [OF env sub(1) len(2)], simp only: bb_shape, rule wpr_rbind,
          rule wpr_zero_extend, assumption, use sub in blast, simp only: bb_shape, rule wpr_sDivRem, assumption, blast, blast)
        (use len in simp, use len in force, rule Q, simp add: n 3, erule env_mono, blast,
          elim conjE, drule quot, simp, force, use 3 len zero in \<open>simp add: num_def n\<close>)
  next
    case 4
    show ?thesis
      by (simp only: by_sign_def prod.case simp_thms 4 if_True if_False bb_bvsdiv_def,
          rule wpr_rbind, rule wpr_zero_extend [OF env sub(1)], simp only: bb_shape, rule wpr_rbind,
          rule wpr_sign_extend, assumption, use sub in blast, use len in force, simp only: bb_shape, rule wpr_sDivRem, assumption, blast, blast)
        (use len in simp, use len in force, rule Q, simp add: n 4, erule env_mono, blast,
          elim conjE, drule quot, simp, force, use 4 len zero in \<open>simp add: num_def n\<close>)
  qed
qed

section \<open>Operators\<close>

lemma gives_base_op:
  assumes "wfs s" and "ok s a" and "ok s b" and "f \<in> {LogicalAndOpr, LogicalOrOpr, EqualOpr, NotEqualOpr}"
  shows "gives (binop_result P f (Base a, l) (Base b, r) s) s SBool (\<lambda>m. sem_bools f (val m a) (val m b))"
proof -
  have law: "gives (let (ret, s) = ps_op2 P t a b s in Inr (Base ret, s)) s SBool (\<lambda>m. VBool (tag2_sem t (val m a) (val m b)))" for t
    using op2_law [OF assms(1-3)] by (cases "ps_op2 P t a b s") (auto simp: gives_def)
  show ?thesis
    using assms(4) law [of and_tag] law [of or_tag] law [of equal_tag] law [of nequal_tag]
    by (auto simp: binop_result_def bb_op2_def)
qed

lemma gives_bits_op:
  assumes "wfs s" and "\<forall>b\<in>set a \<union> set b. ok s b" and len: "length a = length b" "a \<noteq> []" "length a < 2 ^ 32"
    and f: "f \<notin> {LogicalAndOpr, LogicalOrOpr, ForEach}"
    and t: "binop_sort f l r (SBits (length a)) (SBits (length b)) = Some t"
  shows "gives (binop_result P f (BV a, l) (BV b, r) s) s t (\<lambda>m. sem_bits f l r (bvals m a) (bvals m b))"
proof -
  have env: "env s s (set a \<union> set b) (\<lambda>m. True)" using assms(1,2) by (simp add: env_start)
  have sub: "set a \<subseteq> set a \<union> set b" "set b \<subseteq> set a \<union> set b" by simp_all
  note start = env sub len(1) and start1 = env sub len(1,2)
  have neq: "binop_sort f l r (SBits (length a)) (SBits (length b)) =
      (if f \<in> {EqualOpr, NotEqualOpr, LessOpr, LessEqualOpr, GreaterOpr, GreaterEqualOpr} then Some SBool
       else if f = DevideOpr \<and> l \<noteq> r then Some (SBits (length a + 1)) else Some (SBits (length a)))"
    using len f by auto
  have tags: "tag2_sem and_tag = (\<and>)" "tag2_sem or_tag = (\<or>)" "tag2_sem xor_tag = (\<lambda>x y. x = (\<not> y))"
    by (intro ext, simp)+
  have inj: "bnum m a = bnum m b \<longleftrightarrow> bvals m a = bvals m b" for m
    using len(1) by (simp add: bits_val_inject)
  note red = binop_result_def Let_def fst_conv snd_conv binop.case sem_bits_def length_map
  have bits: "t = SBits (length a)" if "f \<in> {AndOpr, OrOpr, XorOpr, PlusOpr, MinusOpr, MultipliesOpr, ModuloOpr, ShiftLeftOpr, ShiftRightOpr}"
    using t that unfolding neq by auto
  have bool: "t = SBool" if "f \<in> {EqualOpr, NotEqualOpr, LessOpr, LessEqualOpr, GreaterOpr, GreaterEqualOpr}"
    using t that unfolding neq by auto
  consider "f = AndOpr" | "f = OrOpr" | "f = XorOpr" | "f = EqualOpr" | "f = NotEqualOpr"
    | "f = LessOpr" | "f = LessEqualOpr" | "f = GreaterOpr" | "f = GreaterEqualOpr"
    | "f = PlusOpr" | "f = MinusOpr" | "f = MultipliesOpr" | "f = DevideOpr" | "f = ModuloOpr" "l" | "f = ModuloOpr" "\<not> l"
    | "f = ShiftLeftOpr" | "f = ShiftRightOpr"
    using f by (cases f) auto
  then show ?thesis
  proof cases
    case 1
    then show ?thesis
      by (simp only: red bits insert_iff simp_thms bb_bvand_def)
        (rule gives_bv, rule wpr_bitwise [OF start], assumption, simp only: tags)
  next
    case 2
    then show ?thesis
      by (simp only: red bits insert_iff simp_thms bb_bvor_def)
        (rule gives_bv, rule wpr_bitwise [OF start], assumption, simp only: tags)
  next
    case 3
    then show ?thesis
      by (simp only: red bits insert_iff simp_thms bb_bvxor_def)
        (rule gives_bv, rule wpr_bitwise [OF start], assumption, simp only: tags)
  next
    case 4
    then show ?thesis
      by (simp only: red bool insert_iff simp_thms)
        (rule gives_base, rule wpr_equal_bv [OF start], assumption, simp only: inj)
  next
    case 5
    then show ?thesis
      by (simp only: red bool insert_iff simp_thms)
        (rule gives_base, rule wpr_nequal_bv [OF start], assumption, simp only: inj)
  next
    case 6
    then show ?thesis
      by (simp only: red bool insert_iff simp_thms)
        (rule gives_base, rule wpr_by_sign_cmp [where R = "(<)", OF start1], rule wpr_bvslt, assumption+,
          rule wpr_bvult, assumption+, simp, assumption+)
  next
    case 7
    then show ?thesis
      by (simp only: red bool insert_iff simp_thms)
        (rule gives_base, rule wpr_by_sign_cmp [where R = "(\<le>)", OF start1], rule wpr_bvsle, assumption+,
          rule wpr_bvule, assumption+, simp, assumption+)
  next
    case 8
    then show ?thesis
      by (simp only: red bool insert_iff simp_thms)
        (rule gives_base, rule wpr_by_sign_cmp [where R = "(>)", OF start1], rule wpr_bvsgt, assumption+,
          rule wpr_bvugt, assumption+, simp, assumption+)
  next
    case 9
    then show ?thesis
      by (simp only: red bool insert_iff simp_thms)
        (rule gives_base, rule wpr_by_sign_cmp [where R = "(\<ge>)", OF start1], rule wpr_bvsge, assumption+,
          rule wpr_bvuge, assumption+, simp, assumption+)
  next
    case 10
    then show ?thesis
      by (simp only: red bits insert_iff simp_thms)
        (rule gives_bv, rule wpr_bvadd [OF start], assumption, rule int_bits_add, use len in simp_all)
  next
    case 11
    then show ?thesis
      by (simp only: red bits insert_iff simp_thms)
        (rule gives_bv, rule wpr_bvsub [OF start1], assumption, rule int_bits_diff, use len in simp_all)
  next
    case 12
    then show ?thesis
      by (simp only: red bits insert_iff simp_thms)
        (rule gives_bv, rule wpr_bvmul [OF start], assumption, rule int_bits_mult, use len in simp_all)
  next
    case 16
    then show ?thesis
      by (simp only: red bits insert_iff simp_thms)
        (rule gives_bv, rule wpr_bvshl [OF env sub len(1) [symmetric]], use len in simp, assumption,
          rule int_bits_shl, use len in simp_all)
  next
    case 17
    then show ?thesis
      by (simp only: red bits insert_iff simp_thms)
        (rule gives_bv, rule wpr_bvshr [OF env sub len(1) [symmetric]], use len in simp, assumption,
          rule int_bits_shr, use len in simp_all)
  next
    case 13
    then have "t = SBits (if l = r then length a else length a + 1)" using t unfolding neq by auto
    with 13 show ?thesis
      by (simp only: red) (rule gives_bv, rule wpr_by_sign_div [OF start1 refl], assumption, assumption)
  next
    case 14
    have "bvals m rs = int_bits (length a) (trunc_rem (sgnum m a) (sgnum m b))"
      if "bnum m rs = sdivrem_sem False (length a) (sgnum m a) (sgnum m b)" "length rs = length a" for m rs
      using srem_int [of "sgnum m a" "length a" "sgnum m b"] sgnum_abs_less [of "bvals m a"] that len(2)
      by (intro int_bits_eqI) simp_all
    with 14 show ?thesis
      by (simp only: red bits insert_iff simp_thms if_True bb_bvsrem_def num_def)
        (rule gives_bv, rule wpr_sDivRem [OF start1], assumption, simp)
  next
    case 15
    have "bvals m rs = int_bits (length a) (trunc_rem (int (bnum m a)) (int (bnum m b)))"
      if "bnum m rs = udivrem_sem False (bnum m a) (bnum m b)" "length rs = length a" for m rs
      using that bits_val_less [of "bvals m rs"] by (intro int_bits_eqI) (simp_all flip: urem_int)
    with 15 show ?thesis
      by (simp only: red bits insert_iff simp_thms if_False bb_bvurem_def num_def)
        (rule gives_bv, rule wpr_uDivRem [OF start1], assumption, simp)
  qed
qed

lemma binop_result_gives:
  assumes "wfs s" and "usable s a" and "usable s b" and "binop_sort f l r (bb_sort a) (bb_sort b) = Some t"
  shows "gives (binop_result P f (a, l) (b, r) s) s t (\<lambda>m. sem_binop f l r (abs_bb (val m) a) (abs_bb (val m) b))"
proof (cases a)
  case (Base x)
  then obtain y where "b = Base y" "t = SBool" "f \<in> {LogicalAndOpr, LogicalOrOpr, EqualOpr, NotEqualOpr}"
    using assms(4) by (cases b) (auto split: if_splits)
  then show ?thesis using gives_base_op [OF assms(1), of x y f l r] assms(2,3) Base by (simp add: usable_def)
next
  case (BV x)
  then obtain y where b: "b = BV y" using assms(4) by (cases b) auto
  have "length x = length y \<and> x \<noteq> [] \<and> length x < 2 ^ 32 \<and> f \<notin> {LogicalAndOpr, LogicalOrOpr, ForEach}"
    using assms(4) BV b by (auto split: if_splits)
  then show ?thesis using gives_bits_op [OF assms(1), of x y f l r t] assms(2-4) BV b by (simp add: usable_def ball_Un del: binop_sort.simps)
qed

lemma unop_gives:
  assumes "wfs s" and "usable s a" and t: "unop_sort u (bb_sort a) = Some t"
  shows "wpr (meta_unop P u (a, sg) s) (\<lambda>(e, sg') s'. extends wfs ok mdl val s s' \<and> bb_sort e = t \<and> usable s' e \<and>
    sg' = sg \<and> (\<forall>m. mdl s' m \<longrightarrow> abs_bb (val m) e = sem_unop u (abs_bb (val m) a)))"
proof (cases a)
  case (Base x)
  then have "u = NotOpr" "t = SBool" using t by (cases u; auto)+
  then show ?thesis
    using not_law [OF assms(1), of x] assms(2) Base
    by (cases "ps_not P x s") (auto simp: bb_not_def usable_def)
next
  case (BV x)
  have env: "env s s (set x) (\<lambda>m. True)" using assms(1,2) BV by (simp add: usable_def env_start)
  consider "u = NegOpr" "x \<noteq> []" "t = SBits (length x)" | "u = ComplementOpr" "t = SBits (length x)"
    using t BV by (cases u) (auto split: if_splits)
  then show ?thesis
  proof cases
    case 1
    show ?thesis
      by (simp only: 1 BV meta_unop.simps, rule wpr_rbind, rule wpr_bvneg [OF env subset_refl 1(2)])
        (auto simp: env_def usable_def int_bits_neg)
  next
    case 2
    show ?thesis
      by (simp only: 2 BV meta_unop.simps, rule wpr_rbind, rule wpr_bvnot [OF env subset_refl])
        (auto simp: env_def usable_def)
  qed
qed

lemma extend_gives:
  assumes "wfs s" and "usable s (BV a)" and "a \<noteq> []"
  shows "wpr (meta_extend P k (BV a, sg) s) (\<lambda>(e, sg') s'. extends wfs ok mdl val s s' \<and> bb_sort e = SBits (length a + k) \<and>
    usable s' e \<and> sg' = sg \<and> (\<forall>m. mdl s' m \<longrightarrow> abs_bb (val m) e = sem_extend sg k (abs_bb (val m) (BV a))))"
proof -
  have env: "env s s (set a) (\<lambda>m. True)" using assms(1,2) by (simp add: usable_def env_start)
  have same: "bs = int_bits n (num sg as)" if "num sg bs = num sg as" "length bs = n" for bs as n
    using num_mod [of sg bs] that by (intro int_bits_eqI) simp_all
  show ?thesis
  proof (cases sg)
    case True
    show ?thesis
      by (simp only: meta_extend_def prod.case True if_True, rule wpr_rbind,
          rule wpr_sign_extend [OF env subset_refl assms(3)])
        (use same True in \<open>auto simp: env_def usable_def num_def\<close>)
  next
    case False
    show ?thesis
      by (simp only: meta_extend_def prod.case False if_False, rule wpr_rbind,
          rule wpr_zero_extend [OF env subset_refl])
        (use same False in \<open>auto simp: env_def usable_def num_def\<close>)
  qed
qed

lemma bitslice_gives:
  assumes "wfs s" and "usable s (BV a)" and "0 \<le> l" and "l \<le> r" and "r < int (length a)" and "r < 2 ^ 32"
  shows "wpr (meta_bitslice P r l (BV a, sg) s) (\<lambda>(e, sg') s'. extends wfs ok mdl val s s' \<and>
    bb_sort e = SBits (nat (r + 1 - l)) \<and> usable s' e \<and> \<not> sg' \<and>
    (\<forall>m. mdl s' m \<longrightarrow> abs_bb (val m) e = sem_bitslice r l (abs_bb (val m) (BV a))))"
proof -
  have u: "to_unsigned r = nat r" "to_unsigned l = nat l"
    using assms(3-6) by (simp_all add: to_unsigned_def)
  have bounds: "nat l \<le> nat r + 1" "nat r + 1 \<le> length a" "nat r + 1 - nat l = nat (r + 1 - l)"
    using assms(3-5) by (simp_all add: nat_le_iff Suc_le_eq nat_less_iff)
  moreover have "nat (r + 1 - l) \<le> length a - nat l" using assms(3-5) by arith
  moreover have "set (take k (drop j a)) \<subseteq> set a" for k j by (meson order_trans set_drop_subset set_take_subset)
  ultimately show ?thesis
    using assms(1-5)
    by (auto simp: meta_bitslice_def bb_extract_def u extends_refl usable_def take_map drop_map)
qed

lemma ite_gives:
  assumes "wfs s" and "ok s c" and "usable s a" and "usable s b" and "bb_sort a = bb_sort b"
  shows "wpr (meta_ite P (Base c, sc) (a, sa) (b, sb) s) (\<lambda>(e, sg') s'. extends wfs ok mdl val s s' \<and> bb_sort e = bb_sort a \<and>
    usable s' e \<and> \<not> sg' \<and>
    (\<forall>m. mdl s' m \<longrightarrow> abs_bb (val m) e = (if val m c then abs_bb (val m) a else abs_bb (val m) b)))"
proof -
  let ?A = "insert c (bb_lits a \<union> bb_lits b)"
  let ?Q = "\<lambda>e s'. extends wfs ok mdl val s s' \<and> bb_sort e = bb_sort a \<and> usable s' e \<and>
    (\<forall>m. mdl s' m \<longrightarrow> abs_bb (val m) e = (if val m c then abs_bb (val m) a else abs_bb (val m) b))"
  have env: "env s s ?A (\<lambda>m. True)" by (rule env_start) (use assms(1-4) in \<open>auto simp: usable_def\<close>)
  have sel: "wpr (bb_ite P (Base y) a b s') ?Q"
    if e: "env s s' (insert y (insert x ?A)) (\<lambda>m. val m x \<and> val m y = tag2_sem equal_tag (val m c) (val m x))" for x y s'
  proof (cases a)
    case (Base p)
    then obtain q where b: "b = Base q" using assms(5) by (cases b) auto
    show ?thesis unfolding Base b
      by (rule wpr_ite_base [OF e]) (use Base b in \<open>auto simp: env_def usable_def\<close>)
  next
    case (BV p)
    then obtain q where b: "b = BV q" "length q = length p" using assms(5) by (cases b) auto
    show ?thesis unfolding BV b
      by (rule wpr_ite_bv [OF e]) (use BV b in \<open>auto simp: env_def usable_def\<close>)
  qed
  show ?thesis
    by (simp only: meta_ite_def bb_true_def fst_conv bb_equal.simps bb_shape)
      (rule wpr_Let_case, rule wp_Let_case, rule wp_true [OF env], simp only: bb_shape, rule wpr_rbind,
       rule wpr_Let_case, rule wp_op2, assumption, blast, blast, simp only: bb_shape, rule wpr_rbind,
       rule wpr_mono, rule sel, assumption, simp)
qed

lemma equal_gives:
  assumes "wfs s" and "usable s a" and "usable s b" and "bb_sort a = bb_sort b"
  shows "gives (bb_equal P a b s) s SBool (\<lambda>m. VBool (abs_bb (val m) a = abs_bb (val m) b))"
proof (cases a)
  case (Base x)
  then obtain y where b: "b = Base y" using assms(4) by (cases b) auto
  show ?thesis
    using gives_base_op [OF assms(1), of x y EqualOpr False False] assms(2,3) Base b
    by (simp add: usable_def binop_result_def)
next
  case (BV x)
  then obtain y where b: "b = BV y" and len: "length x = length y" using assms(4) by (cases b) auto
  have env: "env s s (set x \<union> set y) (\<lambda>m. True)"
    by (rule env_start) (use assms(1-3) BV b in \<open>auto simp: usable_def\<close>)
  show ?thesis
    unfolding BV b abs_bb.simps smt_val.inject
    by (rule gives_base, rule wpr_equal_bv [OF env Un_upper1 Un_upper2 len], assumption)
      (use len in \<open>simp add: bits_val_inject\<close>)
qed

lemma givesE:
  assumes "gives r s t F"
  obtains e s' where "r = Inr (e, s')" and "extends wfs ok mdl val s s'" and "bb_sort e = t" and "usable s' e"
    and "\<And>m. mdl s' m \<Longrightarrow> abs_bb (val m) e = F m"
  using assms by (auto simp: gives_def wpr_def usable_def)

lemma extendsD:
  assumes "extends wfs ok mdl val s s'"
  shows "wfs s'" and "ok s b \<Longrightarrow> ok s' b" and "usable s e \<Longrightarrow> usable s' e" and "mdl s' m \<Longrightarrow> mdl s m"
  using assms by (auto simp: extends_def usable_def)

lemma inside_gives:
  assumes "wfs s" and "usable s e" and "ok s r" and "\<forall>c\<in>set cs. term_sort (cbitsize c) (csign c) = bb_sort e"
  shows "gives (inside_loop P e cs (Base r) s) s SBool
    (\<lambda>m. VBool (val m r \<or> abs_bb (val m) e \<in> sem_constant ` set cs))"
  using assms
proof (induction cs arbitrary: r s)
  case Nil
  then show ?case by (simp add: gives_def extends_refl)
next
  case (Cons c cs)
  obtain k sg s1 where k: "meta_constant P c s = Inr ((k, sg), s1)" and e1: "extends wfs ok mdl val s s1"
    and "bb_sort k = bb_sort e" "usable s1 k" and v1: "\<And>m. mdl s1 m \<Longrightarrow> abs_bb (val m) k = sem_constant c"
    using gives_constant [OF Cons.prems(1), of c] Cons.prems(4) by (auto simp: wpr_def)
  then have "gives (bb_equal P e k s1) s1 SBool (\<lambda>m. VBool (abs_bb (val m) e = abs_bb (val m) k))"
    using extendsD [OF e1] Cons.prems(2) by (intro equal_gives) auto
  then obtain q s2 where q: "bb_equal P e k s1 = Inr (Base q, s2)" and e2: "extends wfs ok mdl val s1 s2" and "ok s2 q"
    and v2: "\<And>m. mdl s2 m \<Longrightarrow> val m q = (abs_bb (val m) e = abs_bb (val m) k)"
    by (elim givesE) (auto simp: bb_sort_eq usable_def)
  moreover have "ok s2 r" using Cons.prems(3) extendsD(2) [OF e1] extendsD(2) [OF e2] by blast
  ultimately have "gives (binop_result P LogicalOrOpr (Base r, False) (Base q, False) s2) s2 SBool
      (\<lambda>m. sem_bools LogicalOrOpr (val m r) (val m q))"
    using extendsD(1) [OF e2] by (intro gives_base_op) auto
  then obtain r' s3 where r': "bb_op2 P or_tag (Base r) (Base q) s2 = Inr (Base r', s3)"
    and e3: "extends wfs ok mdl val s2 s3" and "ok s3 r'" and v3: "\<And>m. mdl s3 m \<Longrightarrow> val m r' = (val m r \<or> val m q)"
    by (elim givesE) (auto simp: bb_sort_eq usable_def binop_result_def)
  have "usable s3 e" using Cons.prems(2) extendsD(3) [OF e1] extendsD(3) [OF e2] extendsD(3) [OF e3] by blast
  then have "gives (inside_loop P e cs (Base r') s3) s3 SBool
      (\<lambda>m. VBool (val m r' \<or> abs_bb (val m) e \<in> sem_constant ` set cs))"
    using Cons.IH [OF extendsD(1) [OF e3] _ \<open>ok s3 r'\<close>] Cons.prems(4) by simp
  then obtain x s4 where x: "inside_loop P e cs (Base r') s3 = Inr (x, s4)" and e4: "extends wfs ok mdl val s3 s4"
    and "bb_sort x = SBool" "usable s4 x"
    and v4: "\<And>m. mdl s4 m \<Longrightarrow> abs_bb (val m) x = VBool (val m r' \<or> abs_bb (val m) e \<in> sem_constant ` set cs)"
    by (rule givesE) blast
  moreover have "extends wfs ok mdl val s s4" using e1 e2 e3 e4 extends_trans by metis
  moreover have "abs_bb (val m) x = VBool (val m r \<or> abs_bb (val m) e \<in> sem_constant ` set (c # cs))" if "mdl s4 m" for m
  proof -
    have "mdl s3 m" "mdl s2 m" "mdl s1 m"
      using that extendsD(4) [OF e2] extendsD(4) [OF e3] extendsD(4) [OF e4] by blast+
    then show ?thesis using v1 v2 v3 v4 [OF that] by simp
  qed
  ultimately show ?case by (simp add: k q r' gives_def usable_def)
qed

end

end
