(* ===== verification/Results.thy ===== *)
theory Results
  imports MetaCorrect
begin

text \<open>
  Values on their way back from the solver: the wrapper every back end returns them in
  (\<open>metaSMT/result_wrapper.hpp\<close>), \<open>read_value\<close> of the bit blaster, \<open>read\<close> of the visitor and the
  assignment to a C++ variable (\<open>AssignResultToRef.hpp\<close>). An integer type of the program is a word of
  its width, at most 64, with a flag for its signedness. A third truth value, \<open>indeterminate\<close>, is
  \<open>None\<close>. \<open>rnd\<close> is the generator of random bits, a function the user may leave out: from a state it yields a
  bit and the next state.
\<close>

unbundle bit_operations_syntax

section \<open>Wrapped results\<close>

type_synonym tribool = "bool option"

datatype result_wrapper =
    Result_bool bool
  | Result_tribools "tribool list"
  | Result_bools "bool list"
  | Result_string string
  | Result_tribool tribool

definition tri_or :: "tribool \<Rightarrow> tribool \<Rightarrow> tribool" where
  "tri_or a b = (if a = Some True \<or> b = Some True then Some True
     else if a = Some False \<and> b = Some False then Some False else None)"

definition digit :: "bool \<Rightarrow> char" where
  "digit b = (if b then CHR ''1'' else CHR ''0'')"

definition digit_X :: "tribool \<Rightarrow> char" where
  "digit_X t = (case t of None \<Rightarrow> CHR ''X'' | Some b \<Rightarrow> digit b)"

definition read_digit :: "char \<Rightarrow> tribool" where
  "read_digit c = (if c = CHR ''0'' then Some False else if c = CHR ''1'' then Some True else None)"

text \<open>The conversions. Strings have the most significant digit first, the vectors the least significant.\<close>

fun as_vector_tribool :: "result_wrapper \<Rightarrow> tribool list" where
  "as_vector_tribool (Result_tribools v) = v"
| "as_vector_tribool (Result_tribool t) = [t]"
| "as_vector_tribool (Result_bool b) = [Some b]"
| "as_vector_tribool (Result_bools vb) = map Some vb"
| "as_vector_tribool (Result_string s) = map read_digit (rev s)"

fun as_tribool :: "result_wrapper \<Rightarrow> tribool" where
  "as_tribool (Result_tribool v) = v"
| "as_tribool (Result_tribools t) = foldl tri_or (Some False) t"
| "as_tribool (Result_bool b) = Some b"
| "as_tribool (Result_bools vb) = Some (list_ex id vb)"
| "as_tribool (Result_string s) =
     (if CHR ''1'' \<in> set s then Some True else if set s \<subseteq> {CHR ''0''} then Some False else None)"

text \<open>\<open>static_cast<bool>\<close> of a \<open>tribool\<close> is whether it is true.\<close>

fun as_vector_bool :: "result_wrapper \<Rightarrow> bool list" where
  "as_vector_bool (Result_bools v) = v"
| "as_vector_bool (Result_tribool t) = [t = Some True]"
| "as_vector_bool (Result_bool b) = [b]"
| "as_vector_bool (Result_tribools vt) = map (\<lambda>t. t = Some True) vt"
| "as_vector_bool (Result_string s) = map (\<lambda>c. c = CHR ''1'') (rev s)"

fun as_string :: "result_wrapper \<Rightarrow> string" where
  "as_string (Result_string v) = v"
| "as_string (Result_bool b) = [digit b]"
| "as_string (Result_tribool t) = [digit_X t]"
| "as_string (Result_tribools vs) = rev (map digit_X vs)"
| "as_string (Result_bools vs) = rev (map digit vs)"

fun check_if_X :: "result_wrapper \<Rightarrow> bool" where
  "check_if_X (Result_tribool t) = (t = None)"
| "check_if_X (Result_tribools vs) = (None \<in> set vs)"
| "check_if_X (Result_string s) = (\<exists>c\<in>set s. c = CHR ''x'' \<or> c = CHR ''X'')"
| "check_if_X _ = False"

text \<open>The constructors that do more than wrap their argument.\<close>

definition result_of_char :: "char \<Rightarrow> result_wrapper" where
  "result_of_char c = Result_tribool (read_digit c)"

definition result_of_value :: "u64 \<Rightarrow> nat \<Rightarrow> result_wrapper" where
  "result_of_value value width = Result_string (rev (map (\<lambda>i. digit (bit value i)) [0..<width]))"

definition throw_if_X :: "result_wrapper \<Rightarrow> string + result_wrapper" where
  "throw_if_X r = (if check_if_X r then Inl ''contains X'' else Inr r)"

section \<open>Conversion to integers\<close>

definition draw_bit :: "('r \<Rightarrow> bool \<times> 'r) option \<Rightarrow> 'r \<Rightarrow> bool \<times> 'r" where
  "draw_bit rnd r = (case rnd of None \<Rightarrow> (False, r) | Some f \<Rightarrow> f r)"

text \<open>\<open>str[0]\<close> of the empty string is the null character.\<close>

definition leading_one :: "string \<Rightarrow> bool" where
  "leading_one s \<longleftrightarrow> s \<noteq> [] \<and> hd s = CHR ''1''"

fun or_digits :: "('r \<Rightarrow> bool \<times> 'r) option \<Rightarrow> string \<Rightarrow> 'a::len word \<Rightarrow> 'r \<Rightarrow> 'a word \<times> 'r" where
  "or_digits rnd [] ret r = (ret, r)"
| "or_digits rnd (c # cs) ret r =
     (let ret = push_bit 1 ret;
          (b, r) = (case read_digit c of Some b \<Rightarrow> (b, r) | None \<Rightarrow> draw_bit rnd r)
      in or_digits rnd cs (if b then ret OR 1 else ret) r)"

definition operator_Integer :: "('r \<Rightarrow> bool \<times> 'r) option \<Rightarrow> bool \<Rightarrow> result_wrapper \<Rightarrow> 'r \<Rightarrow> 'a::len word \<times> 'r" where
  "operator_Integer rnd sg w r =
     (let val = as_string w;
          digits = LENGTH('a) - of_bool sg;
          first = (if digits < length val then length val - digits else 0)
      in or_digits rnd (take digits (drop first val)) (if sg \<and> leading_one val then -1 else 0) r)"

definition operator_bool :: "('r \<Rightarrow> bool \<times> 'r) option \<Rightarrow> result_wrapper \<Rightarrow> 'r \<Rightarrow> bool \<times> 'r" where
  "operator_bool rnd w r = (case as_tribool w of Some b \<Rightarrow> (b, r) | None \<Rightarrow> draw_bit rnd r)"

section \<open>Assignment to variables\<close>

fun set_digits :: "('r \<Rightarrow> bool \<times> 'r) option \<Rightarrow> string \<Rightarrow> 'a::len word \<Rightarrow> 'r \<Rightarrow> 'a word \<times> 'r" where
  "set_digits rnd [] val r = (val, r)"
| "set_digits rnd (c # cs) val r =
     (let val = push_bit 1 val;
          (b, r) = (case read_digit c of Some b \<Rightarrow> (b, r) | None \<Rightarrow> draw_bit rnd r)
      in set_digits rnd cs (if b then val OR 1 else val AND (-2)) r)"

definition set_value :: "('r \<Rightarrow> bool \<times> 'r) option \<Rightarrow> bool \<Rightarrow> string \<Rightarrow> 'r \<Rightarrow> 'a::len word \<times> 'r" where
  "set_value rnd sg str r = set_digits rnd str (if sg \<and> leading_one str then -1 else 0) r"

definition set_value_bool :: "string \<Rightarrow> bool" where
  "set_value_bool str = leading_one str"

text \<open>\<open>to_constant_expr\<close>: the value is converted to \<open>uint64_t\<close>.\<close>

definition to_constant_expr :: "bool \<Rightarrow> 'a::len word \<Rightarrow> const_t" where
  "to_constant_expr sg v = Constant (if sg then scast v else ucast v) LENGTH('a) sg"

definition to_constant_expr_bool :: "bool \<Rightarrow> const_t" where
  "to_constant_expr_bool b = Constant (of_bool b) 1 True"

section \<open>Reading from the solver\<close>

fun bb_read_value :: "('b \<Rightarrow> tribool) \<Rightarrow> 'b bbval \<Rightarrow> result_wrapper" where
  "bb_read_value rv (Base b) = Result_tribool (rv b)"
| "bb_read_value rv (BV bs) = Result_tribools (map rv bs)"

definition meta_read :: "('b \<Rightarrow> tribool) \<Rightarrow> nat \<Rightarrow> ('s, 'b) meta \<Rightarrow> string option" where
  "meta_read rv i v = (case mv_terminals v i of None \<Rightarrow> None | Some e \<Rightarrow> Some (as_string (bb_read_value rv e)))"

fun read_all_vars :: "('b \<Rightarrow> tribool) \<Rightarrow> nat list \<Rightarrow> ('s, 'b) meta \<Rightarrow> string list option" where
  "read_all_vars rv [] v = Some []"
| "read_all_vars rv (i # is) v =
     (case meta_read rv i v of None \<Rightarrow> None
      | Some s \<Rightarrow> (case read_all_vars rv is v of None \<Rightarrow> None | Some ss \<Rightarrow> Some (s # ss)))"

section \<open>Digits and values\<close>

lemma read_digit_digit [simp]: "read_digit (digit b) = Some b"
  by (simp add: read_digit_def digit_def)

lemma leading_one_digits: "leading_one (rev (map digit bs)) \<longleftrightarrow> bs \<noteq> [] \<and> last bs"
  by (cases bs rule: rev_cases) (auto simp: leading_one_def digit_def)

lemma double_or_one: "(w * 2 :: 'a::len word) OR 1 = 2 * w + 1"
  by (simp add: or_one_eq mult.commute)

lemma double_and_minus_two: "(w * 2 :: 'a::len word) AND -2 = 2 * w"
proof -
  have "(push_bit 1 w :: 'a word) AND NOT 1 = push_bit 1 w"
    by (rule bit_word_eqI) (auto simp: bit_simps simp del: push_bit_of_1 push_bit_Suc)
  then show ?thesis by (simp add: not_one_eq push_bit_eq_mult mult.commute)
qed

lemma set_digits_step: "set_digits rnd (digit b # cs) w r = set_digits rnd cs (2 * w + of_bool b) r"
  by (cases b) (simp_all add: double_or_one double_and_minus_two Let_def)

lemma or_digits_step: "or_digits rnd (digit b # cs) w r = or_digits rnd cs (2 * w + of_bool b) r"
  by (cases b) (simp_all add: double_or_one Let_def mult.commute)

lemma digits_value:
  fixes w :: "'a::len word"
  shows set_digits_value: "set_digits rnd (rev (map digit bs)) w r = (w * 2 ^ length bs + of_nat (bits_val bs), r)"
    and or_digits_value: "or_digits rnd (rev (map digit bs)) w r = (w * 2 ^ length bs + of_nat (bits_val bs), r)"
  by (induction bs arbitrary: w rule: rev_induct)
    (simp_all add: set_digits_step or_digits_step bits_val_append algebra_simps del: set_digits.simps(2) or_digits.simps(2))

lemma sign_extended_value:
  "(if sg \<and> bs \<noteq> [] \<and> last bs then -1 else 0 :: 'a::len word) * 2 ^ length bs + of_nat (bits_val bs) =
    of_int (num sg bs)"
  by (simp add: num_def bits_sval_def)

lemma set_value_digits: "set_value rnd sg (rev (map digit bs)) r = (of_int (num sg bs), r)"
  by (simp only: set_value_def leading_one_digits set_digits_value sign_extended_value)

lemma operator_Integer_digits:
  assumes "as_string w = rev (map digit bs)" and "length bs = LENGTH('a::len)"
  shows "operator_Integer rnd sg w r = (of_int (num sg bs) :: 'a word, r)"
proof (cases "sg \<and> bs \<noteq> []")
  case True
  then obtain cs b where bs: "bs = cs @ [b]" by (cases bs rule: rev_cases) auto
  have "operator_Integer rnd sg w r = or_digits rnd (rev (map digit cs)) (if b then -1 else 0 :: 'a word) r"
    using True assms(2) by (simp add: operator_Integer_def assms(1) bs leading_one_def Let_def) (simp add: digit_def)
  also have "\<dots> = (of_int (num sg bs), r)"
    using True by (simp add: or_digits_value bs num_def bits_sval_snoc bits_val_append)
  finally show ?thesis .
next
  case False
  then have "operator_Integer rnd sg w r = or_digits rnd (rev (map digit bs)) (0 :: 'a word) r"
    using assms(2) by (auto simp: operator_Integer_def assms(1) leading_one_def Let_def)
  then show ?thesis using False assms(2) by (auto simp: or_digits_value num_def)
qed

lemma sint_mod_length: "sint w mod 2 ^ LENGTH('a) = uint w" for w :: "'a::len word"
  by (simp only: uint_sint take_bit_eq_mod)

lemma sem_to_constant_expr:
  assumes "length bs = LENGTH('a::len)" and "LENGTH('a) \<le> 64" and "\<not> isBool LENGTH('a) sg"
  shows "sem_constant (to_constant_expr sg (of_int (num sg bs) :: 'a word)) = VBits bs"
proof -
  define v where "v = (of_int (num sg bs) :: 'a word)"
  have u: "uint v = int (bits_val bs)"
    using num_mod [of sg bs] by (simp add: v_def uint_word_of_int assms(1))
  have "(if sg then sint v else uint v) mod 2 ^ LENGTH('a) = int (bits_val bs)"
    using u uint_bounded [of v] sint_mod_length [of v] by simp
  then have "VBits bs = VBits (int_bits (length bs) (if sg then sint v else uint v))"
    by (intro arg_cong [where f = VBits] int_bits_eqI) (simp_all add: assms(1))
  moreover have "sint (scast v :: u64) = sint v" "uint (ucast v :: u64) = uint v"
    using assms(2) by (simp_all add: sint_up_scast uint_up_ucast is_up)
  ultimately show ?thesis using assms(2,3)
    by (simp only: v_def [symmetric]) (auto simp: sem_constant_def to_constant_expr_def assms(1))
qed

section \<open>Reading back a solution\<close>

lemma read_terminal:
  assumes "mv_terminals v i = Some e" and "\<And>b. b \<in> bb_lits e \<Longrightarrow> rv b = Some (f b)"
  shows "meta_read rv i v = Some (case abs_bb f e of VBool b \<Rightarrow> [digit b] | VBits bs \<Rightarrow> rev (map digit bs))"
  using assms by (cases e) (simp_all add: meta_read_def digit_X_def)

text \<open>C38: A value read from the solver and assigned to a C++ variable of the declared width and signedness is
  the value the solver's model gives to the variable, whatever the random source, which is not drawn from:
  the constant made of it denotes that value. Converting the same wrapped result to an integer type of
  that width gives the same integer.
\<close>
theorem read_back:
  fixes rnd :: "('r \<Rightarrow> bool \<times> 'r) option" and f :: "'b \<Rightarrow> bool"
  assumes "mv_terminals v i = Some e" and "abs_bb f e = \<rho> i" and "\<And>b. b \<in> bb_lits e \<Longrightarrow> rv b = Some (f b)"
    and "sort_of_val (\<rho> i) = term_sort LENGTH('a::len) sg" and "LENGTH('a) \<le> 64"
  shows "\<exists>str. meta_read rv i v = Some str \<and>
    (if isBool LENGTH('a) sg then sem_constant (to_constant_expr_bool (set_value_bool str)) = \<rho> i
     else \<exists>x :: 'a word. set_value rnd sg str r = (x, r) \<and> operator_Integer rnd sg (Result_string str) r = (x, r) \<and>
       sem_constant (to_constant_expr sg x) = \<rho> i)"
proof (cases "isBool LENGTH('a) sg")
  case True
  then obtain b where b: "abs_bb f e = VBool b"
    using assms(2,4) by (cases "\<rho> i") (simp_all add: term_sort_def)
  have "meta_read rv i v = Some [digit b]" using read_terminal [OF assms(1,3)] by (simp add: b)
  moreover have "sem_constant (to_constant_expr_bool b) = VBool b"
    by (simp add: sem_constant_def to_constant_expr_bool_def isBool_def)
  moreover have "set_value_bool [digit b] = b" by (simp add: set_value_bool_def leading_one_def digit_def)
  ultimately show ?thesis using True b assms(2) by simp
next
  case False
  then obtain bs where bs: "abs_bb f e = VBits bs" and n: "length bs = LENGTH('a)"
    using assms(2,4) by (cases "\<rho> i") (auto simp: term_sort_def)
  have "meta_read rv i v = Some (rev (map digit bs))" using read_terminal [OF assms(1,3)] by (simp add: bs)
  moreover note set_value_digits [of rnd sg bs r]
    operator_Integer_digits [OF as_string.simps(1) n, of rnd sg r]
    sem_to_constant_expr [OF n assms(5) False]
  ultimately show ?thesis using False bs assms(2) by simp
qed

theorem read_back_witness:
  "\<exists>str. meta_read (\<lambda>b. Some (b = 0 \<or> b = 7)) 3 ((new_meta ()) \<lparr>mv_terminals := [3 \<mapsto> BV [0 ..< 8 :: nat]]\<rparr>) = Some str \<and>
    (if isBool LENGTH(8) True then sem_constant (to_constant_expr_bool (set_value_bool str)) = VBits (map (\<lambda>b. b = 0 \<or> b = 7) [0 ..< 8])
     else \<exists>x :: 8 word. set_value None True str () = (x, ()) \<and> operator_Integer None True (Result_string str) () = (x, ()) \<and>
       sem_constant (to_constant_expr True x) = VBits (map (\<lambda>b. b = 0 \<or> b = 7) [0 ..< 8]))"
  by (rule read_back [where \<rho> = "\<lambda>_. VBits (map (\<lambda>b. b = 0 \<or> b = 7) [0 ..< 8])"])
    (auto simp: term_sort_def isBool_def)

end
