(* ===== verification/MetaTranslate.thy ===== *)
theory MetaTranslate
  imports MetaCorrect
begin

text \<open>
  The translation of whole expressions. Beside the solver's state the visitor grows its map of variables;
  \<open>vext\<close> says that a step invents no model, and that every model of the state before has a counterpart
  after it in which the new variables take any values asked for.
\<close>

context predicate_solver
begin

section \<open>Visitor states\<close>

definition vwf :: "(nat \<Rightarrow> smt_sort) \<Rightarrow> ('s, 'b) meta \<Rightarrow> bool" where
  "vwf d v \<longleftrightarrow> wfs (mv_solver v) \<and>
     (\<forall>i r. mv_terminals v i = Some r \<longrightarrow> bb_sort r = d i \<and> usable (mv_solver v) r)"

definition agree :: "'m \<Rightarrow> (nat \<Rightarrow> smt_val) \<Rightarrow> ('s, 'b) meta \<Rightarrow> bool" where
  "agree m \<rho> v \<longleftrightarrow> (\<forall>i r. mv_terminals v i = Some r \<longrightarrow> abs_bb (val m) r = \<rho> i)"

definition vext :: "(nat \<Rightarrow> smt_sort) \<Rightarrow> ('s, 'b) meta \<Rightarrow> ('s, 'b) meta \<Rightarrow> bool" where
  "vext d v v' \<longleftrightarrow> vwf d v' \<and> mv_terminals v \<subseteq>\<^sub>m mv_terminals v' \<and>
     (\<forall>b. ok (mv_solver v) b \<longrightarrow> ok (mv_solver v') b) \<and>
     (\<forall>m. mdl (mv_solver v') m \<longrightarrow> mdl (mv_solver v) m) \<and>
     (\<forall>m \<rho>. typed d \<rho> \<longrightarrow> mdl (mv_solver v) m \<longrightarrow> agree m \<rho> v \<longrightarrow>
        (\<exists>m'. mdl (mv_solver v') m' \<and> agree m' \<rho> v' \<and> (\<forall>b. ok (mv_solver v) b \<longrightarrow> val m' b = val m b)))"

lemma vext_refl: "vwf d v \<Longrightarrow> vext d v v"
  by (auto simp: vext_def)

lemma vext_trans:
  assumes "vext d u v" and "vext d v w"
  shows "vext d u w"
  unfolding vext_def
proof (intro conjI allI impI)
  show "vwf d w" using assms(2) by (simp add: vext_def)
  show "mv_terminals u \<subseteq>\<^sub>m mv_terminals w" using assms map_le_trans by (auto simp: vext_def)
  fix m \<rho>
  assume "typed d \<rho>" "mdl (mv_solver u) m" "agree m \<rho> u"
  then obtain m1 where m1: "mdl (mv_solver v) m1" "agree m1 \<rho> v" "\<forall>b. ok (mv_solver u) b \<longrightarrow> val m1 b = val m b"
    using assms(1) unfolding vext_def by blast
  then obtain m2 where "mdl (mv_solver w) m2" "agree m2 \<rho> w" "\<forall>b. ok (mv_solver v) b \<longrightarrow> val m2 b = val m1 b"
    using assms(2) \<open>typed d \<rho>\<close> unfolding vext_def by blast
  moreover have "\<forall>b. ok (mv_solver u) b \<longrightarrow> ok (mv_solver v) b" using assms(1) by (simp add: vext_def)
  ultimately show "\<exists>m'. mdl (mv_solver w) m' \<and> agree m' \<rho> w \<and> (\<forall>b. ok (mv_solver u) b \<longrightarrow> val m' b = val m b)"
    using m1(3) by (intro exI [of _ m2]) simp
qed (use assms in \<open>auto simp: vext_def\<close>)

lemma vextD:
  assumes "vext d v v'"
  shows "vwf d v'" and "usable (mv_solver v) e \<Longrightarrow> usable (mv_solver v') e"
    and "mdl (mv_solver v') m \<Longrightarrow> mdl (mv_solver v) m" and "agree m \<rho> v' \<Longrightarrow> agree m \<rho> v"
  using assms by (auto simp: vext_def usable_def agree_def map_le_def dom_def)

lemma agree_cong: "mv_terminals v = mv_terminals v' \<Longrightarrow> agree m \<rho> v = agree m \<rho> v'"
  by (simp add: agree_def)

lemma vext_solver:
  assumes "vwf d v" and ext: "extends wfs ok mdl val (mv_solver v) (mv_solver v')" and t: "mv_terminals v' = mv_terminals v"
  shows "vext d v v'"
proof -
  have "vwf d v'" using assms extendsD(1,3) [OF ext] by (auto simp: vwf_def)
  moreover have "agree m' \<rho> v'" if "agree m \<rho> v" and same: "\<forall>b. ok (mv_solver v) b \<longrightarrow> val m' b = val m b" for m m' \<rho>
    unfolding agree_def t
  proof (intro allI impI)
    fix i r assume r: "mv_terminals v i = Some r"
    then have "usable (mv_solver v) r" using assms(1) by (simp add: vwf_def)
    then have "abs_bb (val m') r = abs_bb (val m) r" using same by (intro abs_bb_cong) (simp add: usable_def)
    then show "abs_bb (val m') r = \<rho> i" using that(1) r by (simp add: agree_def)
  qed
  ultimately show ?thesis using ext by (simp add: vext_def extends_def t) meson
qed

section \<open>Outcomes\<close>

text \<open>\<open>outcome\<close>: the visit pushed one entry and changed nothing else but the solver and the variables.\<close>

definition same_lists :: "('s, 'b) meta \<Rightarrow> ('s, 'b) meta \<Rightarrow> bool" where
  "same_lists v v' \<longleftrightarrow> mv_softs v' = mv_softs v \<and> mv_assumptions v' = mv_assumptions v \<and>
     mv_suggestions v' = mv_suggestions v"

definition outcome ::
    "(nat \<Rightarrow> smt_sort) \<Rightarrow> ('s, 'b) meta \<Rightarrow> ('s, 'b) meta \<Rightarrow> 'b bbval \<Rightarrow> bool \<Rightarrow> smt_sort \<Rightarrow> ((nat \<Rightarrow> smt_val) \<Rightarrow> smt_val) \<Rightarrow> bool"
where
  "outcome d v v' e sg t S \<longleftrightarrow>
     same_lists v v' \<and> mv_stack v' = (e, sg) # mv_stack v \<and>
     vext d v v' \<and> bb_sort e = t \<and> usable (mv_solver v') e \<and>
     (\<forall>m \<rho>. mdl (mv_solver v') m \<longrightarrow> agree m \<rho> v' \<longrightarrow> abs_bb (val m) e = S \<rho>)"

lemma outcome_push:
  assumes ext: "vext d v w" and frame: "same_lists v w"
    and s': "extends wfs ok mdl val (mv_solver w) s'" and "bb_sort x = t" and "usable s' x"
    and S: "\<And>m \<rho>. mdl s' m \<Longrightarrow> agree m \<rho> w \<Longrightarrow> abs_bb (val m) x = S \<rho>"
  shows "outcome d v (mv_push ((x, sg), s') (w\<lparr>mv_stack := mv_stack v\<rparr>)) x sg t S"
proof -
  let ?w = "mv_push ((x, sg), s') (w\<lparr>mv_stack := mv_stack v\<rparr>)"
  have "vext d w ?w" using vextD(1) [OF ext] s' by (intro vext_solver) (simp_all add: mv_push_def)
  then have "vext d v ?w" using ext vext_trans by blast
  moreover have "same_lists v ?w" using frame by (simp add: same_lists_def mv_push_def)
  moreover have "agree m \<rho> ?w \<Longrightarrow> agree m \<rho> w" for m \<rho> by (simp add: agree_def mv_push_def)
  ultimately show ?thesis using assms(4-) unfolding outcome_def by (simp add: mv_push_def)
qed

lemma outcomeD:
  assumes "outcome d v v' e sg t S"
  shows "vext d v v'" "bb_sort e = t" "usable (mv_solver v') e" "mv_stack v' = (e, sg) # mv_stack v" "wfs (mv_solver v')"
    "same_lists v v'"
    "mdl (mv_solver v') m \<Longrightarrow> agree m \<rho> v' \<Longrightarrow> abs_bb (val m) e = S \<rho>"
  using assms vextD(1) [of d v v'] by (auto simp: outcome_def vwf_def)

text \<open>\<open>computes\<close>: what an operator on results makes of its operands.\<close>

definition computes ::
    "('b meta_entry \<times> 's) result \<Rightarrow> 's \<Rightarrow> bool \<Rightarrow> smt_sort \<Rightarrow> ('m \<Rightarrow> smt_val) \<Rightarrow> bool" where
  "computes r s sg t F \<longleftrightarrow> wpr r (\<lambda>(e, sg') s'. extends wfs ok mdl val s s' \<and> bb_sort e = t \<and> usable s' e \<and> sg' = sg \<and>
     (\<forall>m. mdl s' m \<longrightarrow> abs_bb (val m) e = F m))"

lemma computesE:
  assumes "computes r s sg t F"
  obtains e s' where "r = Inr ((e, sg), s')" "extends wfs ok mdl val s s'" "bb_sort e = t" "usable s' e"
    "\<And>m. mdl s' m \<Longrightarrow> abs_bb (val m) e = F m"
  using assms by (auto simp: computes_def wpr_def)

lemma unary_outcome:
  assumes o1: "outcome d v v1 e1 s1 t1 S1"
    and f: "computes (f (e1, s1) (mv_solver v1)) (mv_solver v1) sg t (\<lambda>m. F (abs_bb (val m) e1))"
  shows "\<exists>w e. mv_unary f v1 = Inr w \<and> outcome d v w e sg t (\<lambda>\<rho>. F (S1 \<rho>))"
proof -
  note D = outcomeD [OF o1]
  obtain x s' where x: "f (e1, s1) (mv_solver v1) = Inr ((x, sg), s')" and e: "extends wfs ok mdl val (mv_solver v1) s'"
    "bb_sort x = t" "usable s' x" "\<And>m. mdl s' m \<Longrightarrow> abs_bb (val m) x = F (abs_bb (val m) e1)"
    using f by (rule computesE) blast
  have "outcome d v (mv_push ((x, sg), s') (v1\<lparr>mv_stack := mv_stack v\<rparr>)) x sg t (\<lambda>\<rho>. F (S1 \<rho>))"
    by (rule outcome_push [OF D(1) D(6) e(1-3)]) (use e(4) D(7) extendsD(4) [OF e(1)] in auto)
  then show ?thesis by (auto simp: mv_unary_def mv_pop_def D(4) x)
qed

lemma binary_outcome:
  assumes o1: "outcome d v v1 e1 s1 t1 S1" and o2: "outcome d v1 v2 e2 s2 t2 S2"
    and f: "computes (f (e1, s1) (e2, s2) (mv_solver v2)) (mv_solver v2) sg t (\<lambda>m. F (abs_bb (val m) e1) (abs_bb (val m) e2))"
  shows "\<exists>w e. mv_binary f v2 = Inr w \<and> outcome d v w e sg t (\<lambda>\<rho>. F (S1 \<rho>) (S2 \<rho>))"
proof -
  note D = outcomeD [OF o1] and E = outcomeD [OF o2]
  obtain x s' where x: "f (e1, s1) (e2, s2) (mv_solver v2) = Inr ((x, sg), s')" and e: "extends wfs ok mdl val (mv_solver v2) s'"
    "bb_sort x = t" "usable s' x" "\<And>m. mdl s' m \<Longrightarrow> abs_bb (val m) x = F (abs_bb (val m) e1) (abs_bb (val m) e2)"
    using f by (rule computesE) blast
  have frame: "same_lists v v2" using D(6) E(6) by (simp add: same_lists_def)
  have "outcome d v (mv_push ((x, sg), s') (v2\<lparr>mv_stack := mv_stack v\<rparr>)) x sg t (\<lambda>\<rho>. F (S1 \<rho>) (S2 \<rho>))"
    by (rule outcome_push [OF vext_trans [OF D(1) E(1)] frame e(1-3)])
      (simp only: e(4) D(7) [OF vextD(3) [OF E(1) extendsD(4) [OF e(1)]] vextD(4) [OF E(1)]] E(7) [OF extendsD(4) [OF e(1)]])
  then show ?thesis by (auto simp: mv_binary_def E(4) D(4) x)
qed

lemma ternary_outcome:
  assumes o1: "outcome d v v1 e1 s1 t1 S1" and o2: "outcome d v1 v2 e2 s2 t2 S2" and o3: "outcome d v2 v3 e3 s3 t3 S3"
    and f: "computes (f (e1, s1) (e2, s2) (e3, s3) (mv_solver v3)) (mv_solver v3) sg t
      (\<lambda>m. F (abs_bb (val m) e1) (abs_bb (val m) e2) (abs_bb (val m) e3))"
  shows "\<exists>w e. mv_ternary f v3 = Inr w \<and> outcome d v w e sg t (\<lambda>\<rho>. F (S1 \<rho>) (S2 \<rho>) (S3 \<rho>))"
proof -
  note D = outcomeD [OF o1] and E = outcomeD [OF o2] and G = outcomeD [OF o3]
  obtain x s' where x: "f (e1, s1) (e2, s2) (e3, s3) (mv_solver v3) = Inr ((x, sg), s')" and e: "extends wfs ok mdl val (mv_solver v3) s'"
    "bb_sort x = t" "usable s' x"
    "\<And>m. mdl s' m \<Longrightarrow> abs_bb (val m) x = F (abs_bb (val m) e1) (abs_bb (val m) e2) (abs_bb (val m) e3)"
    using f by (rule computesE) blast
  have frame: "same_lists v v3" using D(6) E(6) G(6) by (simp add: same_lists_def)
  have "outcome d v (mv_push ((x, sg), s') (v3\<lparr>mv_stack := mv_stack v\<rparr>)) x sg t (\<lambda>\<rho>. F (S1 \<rho>) (S2 \<rho>) (S3 \<rho>))"
    by (rule outcome_push [OF vext_trans [OF vext_trans [OF D(1) E(1)] G(1)] frame e(1-3)])
      (simp only: e(4) G(7) [OF extendsD(4) [OF e(1)]] E(7) [OF vextD(3) [OF G(1) extendsD(4) [OF e(1)]] vextD(4) [OF G(1)]]
        D(7) [OF vextD(3) [OF E(1) vextD(3) [OF G(1) extendsD(4) [OF e(1)]]] vextD(4) [OF E(1) vextD(4) [OF G(1)]]])
  then show ?thesis by (auto simp: mv_ternary_def G(4) E(4) D(4) x)
qed

section \<open>Variables\<close>

lemma var_loop_free:
  assumes "wfs s" and "var_loop P n s = (rs, s')"
  shows "extends wfs ok mdl val s s' \<and> length rs = n \<and> (\<forall>b\<in>set rs. ok s' b) \<and>
    (\<forall>m vs. mdl s m \<longrightarrow> length vs = n \<longrightarrow>
       (\<exists>m'. mdl s' m' \<and> (\<forall>b. ok s b \<longrightarrow> val m' b = val m b) \<and> map (val m') rs = vs))"
  using assms
proof (induction n arbitrary: s rs s')
  case 0
  then show ?case by (auto simp: extends_refl)
next
  case (Suc n)
  obtain r s1 where r: "ps_var P s = (r, s1)" by fastforce
  obtain rs1 s2 where rs1: "var_loop P n s1 = (rs1, s2)" by fastforce
  have eq: "rs = r # rs1" "s' = s2" using Suc.prems(2) by (simp_all add: r rs1)
  have e1: "extends wfs ok mdl val s s1" and "ok s1 r" using var_law [OF Suc.prems(1) r] by auto
  note IH = Suc.IH [OF extendsD(1) [OF e1] rs1]
  then have e2: "extends wfs ok mdl val s1 s2" by blast
  have "\<exists>m'. mdl s2 m' \<and> (\<forall>b. ok s b \<longrightarrow> val m' b = val m b) \<and> map (val m') (r # rs1) = vs"
    if m: "mdl s m" and vs: "length vs = Suc n" for m vs
  proof -
    obtain x xs where x: "vs = x # xs" "length xs = n" using vs by (cases vs) auto
    obtain m1 where m1: "mdl s1 m1" "\<forall>b. ok s b \<longrightarrow> val m1 b = val m b" "val m1 r = x"
      using var_free [OF Suc.prems(1) r m] by blast
    obtain m2 where m2: "mdl s2 m2" "\<forall>b. ok s1 b \<longrightarrow> val m2 b = val m1 b" "map (val m2) rs1 = xs"
      using IH m1(1) x(2) by blast
    have "\<forall>b. ok s b \<longrightarrow> val m2 b = val m b" using m1(2) m2(2) extendsD(2) [OF e1] by simp
    moreover have "val m2 r = x" using m2(2) m1(3) \<open>ok s1 r\<close> by simp
    ultimately show ?thesis using m2(1,3) x by (intro exI [of _ m2]) simp
  qed
  then show ?case
    unfolding eq using IH extends_trans [OF e1 e2] extendsD(2) [OF e2 \<open>ok s1 r\<close>] by simp
qed

lemma variable_outcome:
  assumes v: "vwf d v" and d: "d i = term_sort b sg"
  shows "\<exists>w e. meta_variable P i b sg v = Inr w \<and> outcome d v w e sg (term_sort b sg) (\<lambda>\<rho>. \<rho> i)"
proof (cases "mv_terminals v i")
  case (Some r)
  then have r: "bb_sort r = d i" "usable (mv_solver v) r" using v by (simp_all add: vwf_def)
  have "outcome d v (mv_push ((r, sg), mv_solver v) (v\<lparr>mv_stack := mv_stack v\<rparr>)) r sg (term_sort b sg) (\<lambda>\<rho>. \<rho> i)"
    by (rule outcome_push) (use v r d Some in \<open>auto simp: vext_refl same_lists_def extends_refl vwf_def agree_def\<close>)
  then show ?thesis by (auto simp: meta_variable_def Some)
next
  case None
  obtain r s' where run: "(if isBool b sg then let (r, s) = ps_var P (mv_solver v) in Inr (Base r, s)
        else bb_bv_var P b (mv_solver v)) = Inr (r, s')"
    and e: "extends wfs ok mdl val (mv_solver v) s'" "bb_sort r = d i" "usable s' r"
    and free: "\<And>m x. mdl (mv_solver v) m \<Longrightarrow> sort_of_val x = d i \<Longrightarrow>
      \<exists>m'. mdl s' m' \<and> (\<forall>b. ok (mv_solver v) b \<longrightarrow> val m' b = val m b) \<and> abs_bb (val m') r = x"
  proof (cases "isBool b sg")
    case True
    obtain r s' where r: "ps_var P (mv_solver v) = (r, s')" by fastforce
    have w: "wfs (mv_solver v)" using v by (simp add: vwf_def)
    show thesis
    proof (rule that [of "Base r" s'])
      fix m x assume m: "mdl (mv_solver v) m" and "sort_of_val x = d i"
      then obtain y where x: "x = VBool y" using d True by (cases x) (auto simp: term_sort_def)
      show "\<exists>m'. mdl s' m' \<and> (\<forall>b. ok (mv_solver v) b \<longrightarrow> val m' b = val m b) \<and> abs_bb (val m') (Base r) = x"
        using var_free [OF w r m, of y] by (auto simp: x)
    qed (use var_law [OF w r] True d in \<open>auto simp: r usable_def term_sort_def\<close>)
  next
    case False
    obtain rs s' where r: "var_loop P b (mv_solver v) = (rs, s')" by fastforce
    have "wfs (mv_solver v)" using v by (simp add: vwf_def)
    note free = var_loop_free [OF this r]
    show thesis
    proof (rule that [of "BV rs" s'])
      fix m x assume m: "mdl (mv_solver v) m" and "sort_of_val x = d i"
      then obtain y where x: "x = VBits y" "length y = b" using d False by (cases x) (auto simp: term_sort_def)
      show "\<exists>m'. mdl s' m' \<and> (\<forall>b. ok (mv_solver v) b \<longrightarrow> val m' b = val m b) \<and> abs_bb (val m') (BV rs) = x"
        using free m x by simp
    qed (use free False d in \<open>auto simp: bb_bv_var_def r usable_def term_sort_def\<close>)
  qed
  let ?w = "v\<lparr>mv_solver := s', mv_terminals := (mv_terminals v)(i \<mapsto> r)\<rparr>"
  have "vext d v ?w"
    unfolding vext_def
  proof (intro conjI allI impI)
    show "vwf d ?w" using v e extendsD(1,3) [OF e(1)] by (auto simp: vwf_def)
    show "mv_terminals v \<subseteq>\<^sub>m mv_terminals ?w" using None by (auto simp: map_le_def dom_def)
    fix m \<rho> assume m: "typed d \<rho>" "mdl (mv_solver v) m" "agree m \<rho> v"
    then have "sort_of_val (\<rho> i) = d i" by (simp add: typed_def)
    then obtain m' where m': "mdl s' m'" "\<forall>b. ok (mv_solver v) b \<longrightarrow> val m' b = val m b" "abs_bb (val m') r = \<rho> i"
      using free [OF m(2)] by blast
    have "abs_bb (val m') q = abs_bb (val m) q" if "mv_terminals v j = Some q" for j q
      using v that m'(2) by (intro abs_bb_cong) (auto simp: vwf_def usable_def)
    then have "agree m' \<rho> ?w" using m(3) m'(3) by (auto simp: agree_def)
    then show "\<exists>m'. mdl (mv_solver ?w) m' \<and> agree m' \<rho> ?w \<and> (\<forall>b. ok (mv_solver v) b \<longrightarrow> val m' b = val m b)"
      using m'(1,2) by auto
  qed (use extendsD [OF e(1)] in simp_all)
  then have "outcome d v (mv_push ((r, sg), s') (?w\<lparr>mv_stack := mv_stack v\<rparr>)) r sg (term_sort b sg) (\<lambda>\<rho>. \<rho> i)"
    by (rule outcome_push) (use e extendsD(1) [OF e(1)] d in \<open>auto simp: same_lists_def extends_refl agree_def\<close>)
  then show ?thesis by (auto simp: meta_variable_def None run mv_push_def)
qed

section \<open>Expressions\<close>

lemma gives_computes:
  assumes "gives r s t F"
  shows "computes (rbind r (\<lambda>(e, s). Inr ((e, sg), s))) s sg t F"
  using assms by (rule givesE) (auto simp: computes_def)

lemma constant_computes: "wfs s \<Longrightarrow> computes (meta_constant P c s) s (csign c) (term_sort (cbitsize c) (csign c)) (\<lambda>m. sem_constant c)"
  unfolding computes_def by (rule wpr_mono [OF gives_constant]) auto

lemma unop_computes:
  "wfs s \<Longrightarrow> usable s a \<Longrightarrow> unop_sort u (bb_sort a) = Some t \<Longrightarrow>
    computes (meta_unop P u (a, sg) s) s sg t (\<lambda>m. sem_unop u (abs_bb (val m) a))"
  unfolding computes_def by (rule wpr_mono [OF unop_gives]) auto

lemma binop_computes:
  "wfs s \<Longrightarrow> usable s a \<Longrightarrow> usable s b \<Longrightarrow> binop_sort f l r (bb_sort a) (bb_sort b) = Some t \<Longrightarrow>
    computes (meta_binop P f (a, l) (b, r) s) s (binop_sign f l r) t
      (\<lambda>m. sem_binop f l r (abs_bb (val m) a) (abs_bb (val m) b))"
  unfolding meta_binop_def by (simp add: gives_computes binop_result_gives)

lemma inside_computes:
  assumes "wfs s" and "usable s e" and "\<forall>c\<in>set cs. term_sort (cbitsize c) (csign c) = bb_sort e"
  shows "computes (let (r, s) = bb_false P s in rbind (inside_loop P e cs r s) (\<lambda>(r, s). Inr ((r, False), s))) s
    False SBool (\<lambda>m. VBool (abs_bb (val m) e \<in> sem_constant ` set cs))"
proof -
  obtain r s1 where r: "ps_false P s = (r, s1)" by fastforce
  note F = false_law [OF assms(1) r]
  then have e1: "extends wfs ok mdl val s s1" "ok s1 r" by auto
  have "gives (inside_loop P e cs (Base r) s1) s1 SBool (\<lambda>m. VBool (val m r \<or> abs_bb (val m) e \<in> sem_constant ` set cs))"
    by (rule inside_gives) (use assms extendsD [OF e1(1)] e1(2) in auto)
  then obtain x s2 where x: "inside_loop P e cs (Base r) s1 = Inr (x, s2)" "extends wfs ok mdl val s1 s2" "bb_sort x = SBool" "usable s2 x"
    "\<And>m. mdl s2 m \<Longrightarrow> abs_bb (val m) x = VBool (val m r \<or> abs_bb (val m) e \<in> sem_constant ` set cs)"
    by (rule givesE) blast
  then show ?thesis
    using F extends_trans [OF e1(1) x(2)] extendsD(4) [OF x(2)] by (simp add: bb_false_def r computes_def)
qed

lemma translate:
  assumes "vwf d v" and "decls_ok d n" and "sort_of n = Some t"
  shows "\<exists>v' e. meta_visit P n v = Inr v' \<and> outcome d v v' e (smt_sign n) t (\<lambda>\<rho>. smt_sem \<rho> n)"
  using assms
proof (induction n arbitrary: v t)
  case (VariableExpr i b sg)
  then show ?case using variable_outcome [of d v i b sg] by simp
next
  case (ConstantExpr c)
  then have w: "wfs (mv_solver v)" by (simp add: vwf_def)
  obtain x s' where x: "meta_constant P c (mv_solver v) = Inr ((x, csign c), s')"
    "extends wfs ok mdl val (mv_solver v) s'" "bb_sort x = term_sort (cbitsize c) (csign c)" "usable s' x"
    "\<And>m. mdl s' m \<Longrightarrow> abs_bb (val m) x = sem_constant c"
    using constant_computes [OF w, of c] by (rule computesE) blast
  have "outcome d v (mv_push ((x, csign c), s') (v\<lparr>mv_stack := mv_stack v\<rparr>)) x (csign c) t (\<lambda>\<rho>. sem_constant c)"
    by (rule outcome_push) (use ConstantExpr x in \<open>auto simp: vext_refl same_lists_def\<close>)
  then show ?case by (auto simp: x(1))
next
  case (UnaryOperator u n)
  then obtain t1 where t1: "sort_of n = Some t1" "unop_sort u t1 = Some t" by (auto simp: bind_eq_Some_conv)
  then obtain v1 e1 where v1: "meta_visit P n v = Inr v1" and o1: "outcome d v v1 e1 (smt_sign n) t1 (\<lambda>\<rho>. smt_sem \<rho> n)"
    using UnaryOperator.IH [OF UnaryOperator.prems(1)] UnaryOperator.prems(2) by auto
  note D = outcomeD [OF o1]
  have "\<exists>w e. mv_unary (meta_unop P u) v1 = Inr w \<and> outcome d v w e (smt_sign n) t (\<lambda>\<rho>. sem_unop u (smt_sem \<rho> n))"
    by (rule unary_outcome [OF o1, where F = "sem_unop u"], rule unop_computes) (use D t1 in auto)
  moreover have "u \<noteq> Unique" using t1(2) by (cases t1) auto
  ultimately show ?case by (auto simp: v1)
next
  case (Inside n cs)
  then obtain t1 where t1: "sort_of n = Some t1" "\<forall>c\<in>set cs. term_sort (cbitsize c) (csign c) = t1" "t = SBool"
    by (auto simp: bind_eq_Some_conv split: if_splits)
  then obtain v1 e1 where v1: "meta_visit P n v = Inr v1" and o1: "outcome d v v1 e1 (smt_sign n) t1 (\<lambda>\<rho>. smt_sem \<rho> n)"
    using Inside.IH [OF Inside.prems(1)] Inside.prems(2) by auto
  note D = outcomeD [OF o1]
  have "computes (let (r, s) = bb_false P (mv_solver v1) in rbind (inside_loop P (fst (e1, smt_sign n)) cs r s) (\<lambda>(r, s). Inr ((r, False), s)))
      (mv_solver v1) False t (\<lambda>m. VBool (abs_bb (val m) e1 \<in> sem_constant ` set cs))"
    unfolding fst_conv t1(3) by (rule inside_computes) (use D t1 in auto)
  from unary_outcome [OF o1, where f = "\<lambda>e s. let (r, s) = bb_false P s in rbind (inside_loop P (fst e) cs r s) (\<lambda>(r, s). Inr ((r, False), s))"
      and F = "\<lambda>x. VBool (x \<in> sem_constant ` set cs)", OF this]
  show ?case by (auto simp: v1 t1(3))
next
  case (ExtendExpression n k)
  then obtain m where m: "sort_of n = Some (SBits m)" "m \<noteq> 0" "t = SBits (m + k)"
    by (cases "sort_of n") (auto split: smt_sort.split_asm if_split_asm)
  then obtain v1 e1 where v1: "meta_visit P n v = Inr v1" and o1: "outcome d v v1 e1 (smt_sign n) (SBits m) (\<lambda>\<rho>. smt_sem \<rho> n)"
    using ExtendExpression.IH [OF ExtendExpression.prems(1)] ExtendExpression.prems(2) by auto
  note D = outcomeD [OF o1]
  obtain a where a: "e1 = BV a" "length a = m" using D(2) by (auto simp: bb_sort_eq)
  have "computes (meta_extend P k (e1, smt_sign n) (mv_solver v1)) (mv_solver v1) (smt_sign n) t
      (\<lambda>x. sem_extend (smt_sign n) k (abs_bb (val x) e1))"
    unfolding a(1) computes_def
    by (rule wpr_mono, rule extend_gives) (use D a m in auto)
  from unary_outcome [OF o1, where f = "meta_extend P k" and F = "sem_extend (smt_sign n) k", OF this] show ?case by (auto simp: v1)
next
  case (BinaryOperator f l r)
  then obtain t1 t2 where t: "sort_of l = Some t1" "sort_of r = Some t2" "binop_sort f (smt_sign l) (smt_sign r) t1 t2 = Some t"
    by (auto simp: bind_eq_Some_conv)
  then obtain v1 e1 where v1: "meta_visit P l v = Inr v1" and o1: "outcome d v v1 e1 (smt_sign l) t1 (\<lambda>\<rho>. smt_sem \<rho> l)"
    using BinaryOperator.IH(1) [OF BinaryOperator.prems(1)] BinaryOperator.prems(2) by auto
  note D = outcomeD [OF o1]
  obtain v2 e2 where v2: "meta_visit P r v1 = Inr v2" and o2: "outcome d v1 v2 e2 (smt_sign r) t2 (\<lambda>\<rho>. smt_sem \<rho> r)"
    using BinaryOperator.IH(2) [OF vextD(1) [OF D(1)]] BinaryOperator.prems(2) t(2) by auto
  note E = outcomeD [OF o2]
  have "\<exists>w e. mv_binary (meta_binop P f) v2 = Inr w \<and> outcome d v w e (binop_sign f (smt_sign l) (smt_sign r)) t
      (\<lambda>\<rho>. sem_binop f (smt_sign l) (smt_sign r) (smt_sem \<rho> l) (smt_sem \<rho> r))"
    by (rule binary_outcome [OF o1 o2, where F = "sem_binop f (smt_sign l) (smt_sign r)"], rule binop_computes) (use D(2,3) E(2,3,5) vextD(2) [OF E(1)] t in auto)
  moreover have "f \<noteq> ForEach" using t(3) by (cases t1; cases t2) (auto split: if_splits)
  ultimately show ?case by (auto simp: v1 v2)
next
  case (IfThenElse a b c)
  then have t: "sort_of a = Some SBool" "sort_of b = Some t" "sort_of c = Some t" by (auto split: if_splits)
  then obtain v1 e1 where v1: "meta_visit P a v = Inr v1" and o1: "outcome d v v1 e1 (smt_sign a) SBool (\<lambda>\<rho>. smt_sem \<rho> a)"
    using IfThenElse.IH(1) [OF IfThenElse.prems(1)] IfThenElse.prems(2) by auto
  note D = outcomeD [OF o1]
  obtain v2 e2 where v2: "meta_visit P b v1 = Inr v2" and o2: "outcome d v1 v2 e2 (smt_sign b) t (\<lambda>\<rho>. smt_sem \<rho> b)"
    using IfThenElse.IH(2) [OF vextD(1) [OF D(1)]] IfThenElse.prems(2) t(2) by auto
  note E = outcomeD [OF o2]
  obtain v3 e3 where v3: "meta_visit P c v2 = Inr v3" and o3: "outcome d v2 v3 e3 (smt_sign c) t (\<lambda>\<rho>. smt_sem \<rho> c)"
    using IfThenElse.IH(3) [OF vextD(1) [OF E(1)]] IfThenElse.prems(2) t(3) by auto
  note G = outcomeD [OF o3]
  obtain x where x: "e1 = Base x" using D(2) by (auto simp: bb_sort_eq)
  have "usable (mv_solver v3) (Base x)" using D(3) vextD(2) [OF E(1)] vextD(2) [OF G(1)] x by blast
  then have x3: "ok (mv_solver v3) x" by (simp add: usable_def)
  have "computes (meta_ite P (e1, smt_sign a) (e2, smt_sign b) (e3, smt_sign c) (mv_solver v3)) (mv_solver v3) False t
      (\<lambda>m. if abs_bb (val m) e1 = VBool True then abs_bb (val m) e2 else abs_bb (val m) e3)"
    unfolding x computes_def
    by (rule wpr_mono, rule ite_gives)
      (use E(2,3) G(2,3,5) vextD(2) [OF G(1)] x3 x in auto)
  from ternary_outcome [OF o1 o2 o3, where f = "meta_ite P" and F = "\<lambda>p q r. if p = VBool True then q else r", OF this]
  show ?case by (auto simp: v1 v2 v3)
next
  case (Bitslice n r l)
  then obtain m where m: "sort_of n = Some (SBits m)" "0 \<le> l" "l \<le> r" "r < int m" "r < 2 ^ 32" "t = SBits (nat (r + 1 - l))"
    by (cases "sort_of n") (auto split: smt_sort.split_asm if_split_asm)
  then obtain v1 e1 where v1: "meta_visit P n v = Inr v1" and o1: "outcome d v v1 e1 (smt_sign n) (SBits m) (\<lambda>\<rho>. smt_sem \<rho> n)"
    using Bitslice.IH [OF Bitslice.prems(1)] Bitslice.prems(2) by auto
  note D = outcomeD [OF o1]
  obtain a where a: "e1 = BV a" "length a = m" using D(2) by (auto simp: bb_sort_eq)
  have "computes (meta_bitslice P r l (e1, smt_sign n) (mv_solver v1)) (mv_solver v1) False t
      (\<lambda>x. sem_bitslice r l (abs_bb (val x) e1))"
    unfolding a(1) computes_def
    by (rule wpr_mono, rule bitslice_gives) (use D a m in auto)
  from unary_outcome [OF o1, where f = "meta_bitslice P r l" and F = "sem_bitslice r l", OF this] show ?case by (auto simp: v1)
qed simp_all

end

end
