(* ===== verification/MetaSolve.thy ===== *)
theory MetaSolve
  imports MetaTranslate "HOL-Library.Multiset"
begin

text \<open>
  Solving (\<open>solve\<close>, \<open>analyseSofts\<close> of \<open>metaSMTVisitorImpl\<close>). The decision procedure below the predicate
  solver is a parameter: \<open>slv s as\<close> is what \<open>metaSMT::solve\<close> returns in state \<open>s\<close> under the assumptions
  \<open>as\<close>. \<open>rnd\<close> stands for \<open>crave::random_unsigned\<close>, a \<open>std::function\<close> the user may set: from a generator
  state and a bound it yields a number and the next state.
\<close>

section \<open>Assumptions\<close>

text \<open>\<open>assumption(solver, equal(item, True))\<close>, and the corresponding assertion.\<close>

definition equal_true :: "('s, 'b) psolver \<Rightarrow> 'b bbval \<Rightarrow> 's \<Rightarrow> ('b \<times> 's) result" where
  "equal_true P item s =
     (let (t, s) = bb_true P s in
      rbind (bb_equal P item t s) (\<lambda>(r, s). rbind (get_base r) (\<lambda>b. Inr (b, s))))"

fun equal_true_all :: "('s, 'b) psolver \<Rightarrow> 'b bbval list \<Rightarrow> 's \<Rightarrow> ('b list \<times> 's) result" where
  "equal_true_all P [] s = Inr ([], s)"
| "equal_true_all P (x # xs) s =
     rbind (equal_true P x s) (\<lambda>(b, s). rbind (equal_true_all P xs s) (\<lambda>(bs, s). Inr (b # bs, s)))"

fun get_bases :: "'b bbval list \<Rightarrow> 'b list result" where
  "get_bases [] = Inr []"
| "get_bases (x # xs) = rbind (get_base x) (\<lambda>b. rbind (get_bases xs) (\<lambda>bs. Inr (b # bs)))"

section \<open>Soft constraints\<close>

fun soft_loop ::
    "('s, 'b) psolver \<Rightarrow> ('s \<Rightarrow> 'b list \<Rightarrow> bool) \<Rightarrow> nat \<Rightarrow> 'b bbval list \<Rightarrow> 's \<Rightarrow> (nat list \<times> 's) result" where
  "soft_loop P slv i [] s = Inr ([], s)"
| "soft_loop P slv i (x # xs) s =
     rbind (equal_true P x s) (\<lambda>(a, s).
       if slv s [a]
       then rbind (equal_true P x s) (\<lambda>(b, s). soft_loop P slv (i + 1) xs (ps_assertion P b s))
       else rbind (soft_loop P slv (i + 1) xs s) (\<lambda>(r, s). Inr (i # r, s)))"

definition analyseSofts ::
    "('s, 'b) psolver \<Rightarrow> ('s \<Rightarrow> 'b list \<Rightarrow> bool) \<Rightarrow> ('s, 'b) meta \<Rightarrow> (nat list \<times> ('s, 'b) meta) result" where
  "analyseSofts P slv v =
     rbind (soft_loop P slv 0 (mv_softs v) (mv_solver v)) (\<lambda>(r, s).
       Inr (r, v\<lparr>mv_solver := s, mv_softs := []\<rparr>))"

section \<open>Solving\<close>

text \<open>\<open>std::random_shuffle\<close> with a generator: position \<open>i\<close> is swapped with a position drawn from \<open>0..i\<close>.\<close>

definition swap_at :: "nat \<Rightarrow> nat \<Rightarrow> 'a list \<Rightarrow> 'a list" where
  "swap_at i j xs = xs[i := xs ! j, j := xs ! i]"

definition random_shuffle :: "('r \<Rightarrow> nat \<Rightarrow> nat \<times> 'r) \<Rightarrow> 'a list \<Rightarrow> 'r \<Rightarrow> 'a list \<times> 'r" where
  "random_shuffle rnd xs r =
     foldl (\<lambda>(xs, r) i. let (j, r) = rnd r (i + 1) in (swap_at i j xs, r)) (xs, r) [1..<length xs]"

text \<open>
  The loop over the suggestions: a failed attempt drops one of them at random. A solver that returns true
  keeps the assignment it found for \<open>read_value\<close>: the result is \<open>None\<close> for false, and for true \<open>Some\<close> of
  the values of the Booleans.
\<close>

function solve_loop ::
    "('s, 'b) psolver \<Rightarrow> ('s \<Rightarrow> 'b list \<Rightarrow> ('b \<Rightarrow> bool) option) \<Rightarrow> ('r \<Rightarrow> nat \<Rightarrow> nat \<times> 'r) \<Rightarrow> bool \<Rightarrow>
     'b bbval list \<Rightarrow> 'b bbval list \<Rightarrow> 'b bbval list \<Rightarrow> 'r \<Rightarrow> 's \<Rightarrow>
     ((('b \<Rightarrow> bool) option \<times> 'b bbval list) \<times> 'r \<times> 's) result" where
  "solve_loop P slv rnd ignoreSofts assums softs suggs r s =
     rbind (get_bases assums) (\<lambda>as. rbind (get_bases suggs) (\<lambda>gs.
     rbind (if ignoreSofts then Inr ([], s) else equal_true_all P softs s) (\<lambda>(ss, s).
       case slv s (as @ gs @ ss) of
         Some rd \<Rightarrow> Inr ((Some rd, suggs), r, s)
       | None \<Rightarrow>
           if suggs = [] then Inr ((None, suggs), r, s)
           else let (select, r) = rnd r (length suggs) in
             solve_loop P slv rnd ignoreSofts assums softs
               (butlast (swap_at select (length suggs - 1) suggs)) r s)))"
  by pat_completeness auto
termination
  by (relation "measure (\<lambda>(P, slv, rnd, ign, assums, softs, suggs, r, s). length suggs)")
    (auto simp: swap_at_def)

declare solve_loop.simps [simp del]

definition solve ::
    "('s, 'b) psolver \<Rightarrow> ('s \<Rightarrow> 'b list \<Rightarrow> ('b \<Rightarrow> bool) option) \<Rightarrow> ('r \<Rightarrow> nat \<Rightarrow> nat \<times> 'r) \<Rightarrow> bool \<Rightarrow> 'r \<Rightarrow>
     ('s, 'b) meta \<Rightarrow> (('b \<Rightarrow> bool) option \<times> 'r \<times> ('s, 'b) meta) result" where
  "solve P slv rnd ignoreSofts r v =
     (let (assums, r) = random_shuffle rnd (mv_assumptions v) r;
          (suggs, r) = random_shuffle rnd (mv_suggestions v) r
      in rbind (solve_loop P slv rnd ignoreSofts assums (mv_softs v) suggs r (mv_solver v))
           (\<lambda>((result, suggs), r, s).
             Inr (result, r, v\<lparr>mv_solver := s, mv_assumptions := [], mv_suggestions := []\<rparr>)))"

section \<open>Shuffling\<close>

lemma swap_at_mset: "i < length xs \<Longrightarrow> j < length xs \<Longrightarrow> mset (swap_at i j xs) = mset xs"
  by (simp add: swap_at_def mset_swap)

lemma shuffle_steps_mset:
  assumes "\<And>r n. 0 < n \<Longrightarrow> fst (rnd r n) < n" and "\<forall>i\<in>set is. i < length ys"
  shows "mset (fst (foldl (\<lambda>(xs, r) i. let (j, r) = rnd r (i + 1) in (swap_at i j xs, r)) (ys, r) is)) = mset ys"
  using assms(2)
proof (induction "is" arbitrary: ys r)
  case (Cons i "is")
  obtain j r' where j: "rnd r (i + 1) = (j, r')" by fastforce
  then have "j < i + 1" using assms(1) [of "i + 1" r] by simp
  then have "mset (swap_at i j ys) = mset ys" using Cons.prems by (intro swap_at_mset) auto
  moreover have "length (swap_at i j ys) = length ys" by (simp add: swap_at_def)
  ultimately show ?case using Cons.IH [of "swap_at i j ys" r'] Cons.prems j by simp
qed simp

lemma random_shuffle_mset:
  "(\<And>r n. 0 < n \<Longrightarrow> fst (rnd r n) < n) \<Longrightarrow> mset (fst (random_shuffle rnd xs r)) = mset xs"
  unfolding random_shuffle_def by (rule shuffle_steps_mset) auto

lemma random_shuffle_set:
  "(\<And>r n. 0 < n \<Longrightarrow> fst (rnd r n) < n) \<Longrightarrow> set (fst (random_shuffle rnd xs r)) = set xs"
  by (metis random_shuffle_mset set_mset_mset)

text \<open>The greedy choice of soft constraints over a set of solutions: the rejected positions, and what is left.\<close>

fun best_softs :: "'a set \<Rightarrow> nat \<Rightarrow> ('a \<Rightarrow> bool) list \<Rightarrow> nat list \<times> 'a set" where
  "best_softs M i [] = ([], M)"
| "best_softs M i (c # cs) =
     (if \<exists>x\<in>M. c x then best_softs {x \<in> M. c x} (i + 1) cs
      else let (r, M') = best_softs M (i + 1) cs in (i # r, M'))"

lemma get_bases_map [simp]: "get_bases (map Base bs) = Inr bs"
  by (induction bs) auto

context predicate_solver
begin

section \<open>Constraints and their models\<close>

text \<open>\<open>cext\<close>: the state after admits exactly the assignments the state before admits that satisfy \<open>\<Phi>\<close>.\<close>

definition cext :: "(nat \<Rightarrow> smt_sort) \<Rightarrow> ('s, 'b) meta \<Rightarrow> ('s, 'b) meta \<Rightarrow> ((nat \<Rightarrow> smt_val) \<Rightarrow> bool) \<Rightarrow> bool" where
  "cext d v v' \<Phi> \<longleftrightarrow> vwf d v' \<and> mv_terminals v \<subseteq>\<^sub>m mv_terminals v' \<and>
     (\<forall>b. ok (mv_solver v) b \<longrightarrow> ok (mv_solver v') b) \<and>
     (\<forall>m. mdl (mv_solver v') m \<longrightarrow> mdl (mv_solver v) m) \<and>
     (\<forall>m \<rho>. mdl (mv_solver v') m \<longrightarrow> agree m \<rho> v' \<longrightarrow> \<Phi> \<rho>) \<and>
     (\<forall>m \<rho>. typed d \<rho> \<longrightarrow> mdl (mv_solver v) m \<longrightarrow> agree m \<rho> v \<longrightarrow> \<Phi> \<rho> \<longrightarrow>
        (\<exists>m'. mdl (mv_solver v') m' \<and> agree m' \<rho> v' \<and> (\<forall>b. ok (mv_solver v) b \<longrightarrow> val m' b = val m b)))"

lemma cext_refl: "vwf d v \<Longrightarrow> cext d v v (\<lambda>\<rho>. True)"
  by (auto simp: cext_def)

lemma cext_trans:
  assumes "cext d u v \<Phi>" and "cext d v w \<Psi>"
  shows "cext d u w (\<lambda>\<rho>. \<Phi> \<rho> \<and> \<Psi> \<rho>)"
  unfolding cext_def
proof (intro conjI allI impI)
  show "vwf d w" using assms(2) by (simp add: cext_def)
  show "mv_terminals u \<subseteq>\<^sub>m mv_terminals w" using assms map_le_trans by (auto simp: cext_def)
  fix m \<rho>
  assume m: "typed d \<rho>" "mdl (mv_solver u) m" "agree m \<rho> u" "\<Phi> \<rho> \<and> \<Psi> \<rho>"
  then obtain m1 where m1: "mdl (mv_solver v) m1" "agree m1 \<rho> v" "\<forall>b. ok (mv_solver u) b \<longrightarrow> val m1 b = val m b"
    using assms(1) unfolding cext_def by blast
  then obtain m2 where "mdl (mv_solver w) m2" "agree m2 \<rho> w" "\<forall>b. ok (mv_solver v) b \<longrightarrow> val m2 b = val m1 b"
    using assms(2) m unfolding cext_def by blast
  moreover have "\<forall>b. ok (mv_solver u) b \<longrightarrow> ok (mv_solver v) b" using assms(1) by (simp add: cext_def)
  ultimately show "\<exists>m'. mdl (mv_solver w) m' \<and> agree m' \<rho> w \<and> (\<forall>b. ok (mv_solver u) b \<longrightarrow> val m' b = val m b)"
    using m1(3) by (intro exI [of _ m2]) simp
next
  fix m \<rho> assume m: "mdl (mv_solver w) m" "agree m \<rho> w"
  then have "agree m \<rho> v" using assms(2) by (auto simp: cext_def agree_def map_le_def dom_def)
  then show "\<Phi> \<rho>" using assms m by (auto simp: cext_def)
  show "\<Psi> \<rho>" using assms m by (auto simp: cext_def)
qed (use assms in \<open>auto simp: cext_def\<close>)

lemma equal_true_gives:
  assumes "wfs s" and "ok s c"
  shows "wpr (equal_true P (Base c) s) (\<lambda>b s'. extends wfs ok mdl val s s' \<and> ok s' b \<and> (\<forall>m. mdl s' m \<longrightarrow> val m b = val m c))"
proof -
  obtain t s1 where t: "ps_true P s = (t, s1)" by fastforce
  note T = true_law [OF assms(1) t]
  then have e1: "extends wfs ok mdl val s s1" "ok s1 t" by auto
  obtain b s2 where b: "ps_op2 P equal_tag c t s1 = (b, s2)" by fastforce
  have B: "extends wfs ok mdl val s1 s2 \<and> ok s2 b \<and> (\<forall>m. mdl s2 m \<longrightarrow> val m b = tag2_sem equal_tag (val m c) (val m t))"
    by (rule op2_law [OF extendsD(1) [OF e1(1)] extendsD(2) [OF e1(1) assms(2)] e1(2) b])
  then have e2: "extends wfs ok mdl val s1 s2" by blast
  show ?thesis
    using B T extends_trans [OF e1(1) e2] extendsD(4) [OF e2] by (simp add: equal_true_def bb_true_def t b)
qed

lemma equal_trueE:
  assumes "wfs s" and "ok s c"
  obtains b s' where "equal_true P (Base c) s = Inr (b, s')" "extends wfs ok mdl val s s'" "ok s' b"
    "\<And>m. mdl s' m \<Longrightarrow> val m b = val m c"
  using equal_true_gives [OF assms] by (auto simp: wpr_def)

lemma makeAssertion_correct:
  assumes v: "vwf d v" and "decls_ok d n" and "sort_of n = Some SBool"
  shows "\<exists>v'. makeAssertion P n v = Inr v' \<and> mv_stack v' = mv_stack v \<and> same_lists v v' \<and>
    cext d v v' (\<lambda>\<rho>. smt_sem \<rho> n = VBool True)"
proof -
  obtain v1 e where v1: "meta_visit P n v = Inr v1" and o: "outcome d v v1 e (smt_sign n) SBool (\<lambda>\<rho>. smt_sem \<rho> n)"
    using translate [OF assms] by blast
  note D = outcomeD [OF o]
  obtain c where c: "e = Base c" using D(2) by (auto simp: bb_sort_eq)
  then have "ok (mv_solver v1) c" using D(3) by (simp add: usable_def)
  with D(5) obtain b s2 where b: "equal_true P (Base c) (mv_solver v1) = Inr (b, s2)"
    and e2: "extends wfs ok mdl val (mv_solver v1) s2" "ok s2 b" "\<And>m. mdl s2 m \<Longrightarrow> val m b = val m c"
    by (rule equal_trueE) blast
  let ?s = "ps_assertion P b s2"
  have A: "wfs ?s" "\<And>l. ok s2 l \<Longrightarrow> ok ?s l" "\<And>m. mdl ?s m \<longleftrightarrow> mdl s2 m \<and> val m b"
    using assertion_law [OF extendsD(1) [OF e2(1)] e2(2)] by auto
  let ?w = "v1\<lparr>mv_stack := mv_stack v, mv_solver := ?s\<rparr>"
  have run: "makeAssertion P n v = Inr ?w"
  proof -
    obtain t s1 where t: "ps_true P (mv_solver v1) = (t, s1)" by fastforce
    obtain b' s2' where b': "ps_op2 P equal_tag c t s1 = (b', s2')" by fastforce
    have "b' = b" "s2' = s2" using b by (simp_all add: equal_true_def bb_true_def t b')
    then show ?thesis
      by (simp add: makeAssertion_def v1 mv_pop_def D(4) c bb_true_def t b' bb_assertion_def)
  qed
  have ext: "vext d v v1" by (rule D(1))
  define u where "u = v1\<lparr>mv_solver := s2\<rparr>"
  have "vext d v1 u" using vextD(1) [OF ext] e2(1) by (intro vext_solver) (simp_all add: u_def)
  then have vu: "vext d v u" using ext vext_trans by blast
  have su: "mv_solver u = s2" "mv_terminals ?w = mv_terminals u" "agree m \<rho> ?w = agree m \<rho> u" "agree m \<rho> u = agree m \<rho> v1" for m \<rho>
    by (simp_all add: u_def agree_def)
  have sem: "val m b \<longleftrightarrow> smt_sem \<rho> n = VBool True" if m: "mdl s2 m" "agree m \<rho> u" for m \<rho>
  proof -
    have "abs_bb (val m) (Base c) = smt_sem \<rho> n" using D(7) extendsD(4) [OF e2(1)] m by (simp add: su c)
    then show ?thesis using e2(3) [OF m(1)] by auto
  qed
  have "cext d v ?w (\<lambda>\<rho>. smt_sem \<rho> n = VBool True)"
    unfolding cext_def
  proof (intro conjI allI impI)
    show "vwf d ?w" using vextD(1) [OF vu] A(1,2) by (auto simp: vwf_def u_def usable_def)
    show "mv_terminals v \<subseteq>\<^sub>m mv_terminals ?w" unfolding su using vu by (simp add: vext_def)
    show "ok (mv_solver ?w) l" if "ok (mv_solver v) l" for l using vu that A(2) by (simp add: vext_def su)
    show "mdl (mv_solver v) m" if "mdl (mv_solver ?w) m" for m using vextD(3) [OF vu] that A(3) by (simp add: su)
    show "smt_sem \<rho> n = VBool True" if "mdl (mv_solver ?w) m" "agree m \<rho> ?w" for m \<rho>
      using sem that A(3) su(3) by auto
    fix m \<rho> assume "typed d \<rho>" "mdl (mv_solver v) m" "agree m \<rho> v" and true: "smt_sem \<rho> n = VBool True"
    then obtain m' where m': "mdl s2 m'" "agree m' \<rho> u" "\<forall>l. ok (mv_solver v) l \<longrightarrow> val m' l = val m l"
      using vu su(1) unfolding vext_def by metis
    then show "\<exists>m'. mdl (mv_solver ?w) m' \<and> agree m' \<rho> ?w \<and> (\<forall>l. ok (mv_solver v) l \<longrightarrow> val m' l = val m l)"
      using sem true A(3) su(3) by (intro exI [of _ m']) simp
  qed
  then show ?thesis using run D(6) by (intro exI [of _ ?w]) (simp add: same_lists_def)
qed

section \<open>Soft constraints\<close>

text \<open>The contract of the decision procedure.\<close>

definition decides :: "('s \<Rightarrow> 'b list \<Rightarrow> bool) \<Rightarrow> bool" where
  "decides slv \<longleftrightarrow> (\<forall>s as. wfs s \<longrightarrow> (\<forall>a\<in>set as. ok s a) \<longrightarrow> slv s as = (\<exists>m. mdl s m \<and> (\<forall>a\<in>set as. val m a)))"

text \<open>The assignments a state admits; \<open>assign_of\<close> is the one a model stands for.\<close>

definition sols :: "(nat \<Rightarrow> smt_sort) \<Rightarrow> ('s, 'b) meta \<Rightarrow> (nat \<Rightarrow> smt_val) set" where
  "sols d v = {\<rho>. typed d \<rho> \<and> (\<exists>m. mdl (mv_solver v) m \<and> agree m \<rho> v)}"

definition default_val :: "smt_sort \<Rightarrow> smt_val" where
  "default_val t = (case t of SBool \<Rightarrow> VBool False | SBits n \<Rightarrow> VBits (replicate n False))"

definition assign_of :: "(nat \<Rightarrow> smt_sort) \<Rightarrow> ('s, 'b) meta \<Rightarrow> 'm \<Rightarrow> nat \<Rightarrow> smt_val" where
  "assign_of d v m i = (case mv_terminals v i of Some r \<Rightarrow> abs_bb (val m) r | None \<Rightarrow> default_val (d i))"

lemma assign_of: "vwf d v \<Longrightarrow> typed d (assign_of d v m) \<and> agree m (assign_of d v m) v"
  by (auto simp: vwf_def typed_def agree_def assign_of_def default_val_def split: option.splits smt_sort.splits)

lemma sols_cext:
  assumes "cext d v v' \<Phi>"
  shows "sols d v' = {\<rho> \<in> sols d v. \<Phi> \<rho>}"
proof -
  have "agree m \<rho> v" if "agree m \<rho> v'" for m \<rho>
    using assms that by (auto simp: cext_def agree_def map_le_def dom_def)
  then show ?thesis using assms unfolding cext_def sols_def by blast
qed

lemma sols_vext: "vext d v v' \<Longrightarrow> sols d v' = sols d v"
  using sols_cext [of d v v' "\<lambda>\<rho>. True"] by (simp add: cext_def vext_def)

lemma models_sols:
  assumes "vwf d v" and Q: "\<And>m \<rho>. mdl (mv_solver v) m \<Longrightarrow> agree m \<rho> v \<Longrightarrow> Q m = \<Phi> \<rho>"
  shows "(\<exists>m. mdl (mv_solver v) m \<and> Q m) \<longleftrightarrow> (\<exists>\<rho>\<in>sols d v. \<Phi> \<rho>)"
proof
  assume "\<exists>m. mdl (mv_solver v) m \<and> Q m"
  then obtain m where m: "mdl (mv_solver v) m" "Q m" by blast
  then have "assign_of d v m \<in> sols d v" "\<Phi> (assign_of d v m)"
    using assign_of [OF assms(1), of m] Q by (auto simp: sols_def)
  then show "\<exists>\<rho>\<in>sols d v. \<Phi> \<rho>" by blast
qed (use Q in \<open>auto simp: sols_def\<close>)

text \<open>\<open>means v e \<Phi>\<close>: the stored result \<open>e\<close> is a literal that stands for the condition \<open>\<Phi>\<close>.\<close>

definition means :: "('s, 'b) meta \<Rightarrow> 'b bbval \<Rightarrow> ((nat \<Rightarrow> smt_val) \<Rightarrow> bool) \<Rightarrow> bool" where
  "means v e \<Phi> \<longleftrightarrow> (\<exists>c. e = Base c \<and> ok (mv_solver v) c \<and>
     (\<forall>m \<rho>. mdl (mv_solver v) m \<longrightarrow> agree m \<rho> v \<longrightarrow> val m c = \<Phi> \<rho>))"

lemma means_mono:
  assumes "means v e \<Phi>" and "cext d v v' \<Psi>"
  shows "means v' e \<Phi>"
proof -
  have "agree m \<rho> v" if "agree m \<rho> v'" for m \<rho>
    using assms(2) that by (auto simp: cext_def agree_def map_le_def dom_def)
  then show ?thesis using assms by (auto simp: means_def cext_def)
qed

lemma vext_cext: "vext d v v' \<Longrightarrow> cext d v v' (\<lambda>\<rho>. True)"
  by (simp add: vext_def cext_def)

lemma cext_assert:
  assumes v: "vwf d v" and b: "ok (mv_solver v) b" and "\<And>m \<rho>. mdl (mv_solver v) m \<Longrightarrow> agree m \<rho> v \<Longrightarrow> val m b = \<Phi> \<rho>"
  shows "cext d v (v\<lparr>mv_solver := ps_assertion P b (mv_solver v)\<rparr>) \<Phi>"
proof -
  let ?s = "ps_assertion P b (mv_solver v)"
  have "wfs (mv_solver v)" using v by (simp add: vwf_def)
  note A = assertion_law [OF this b]
  have "agree m \<rho> (v\<lparr>mv_solver := ?s\<rparr>) = agree m \<rho> v" for m \<rho> by (simp add: agree_def)
  moreover have "vwf d (v\<lparr>mv_solver := ?s\<rparr>)" using v A by (auto simp: vwf_def usable_def)
  ultimately show ?thesis using A assms(3) by (auto simp: cext_def)
qed

lemma soft_loop_best:
  assumes slv: "decides slv" and "vwf d v" and "list_all2 (means v) es \<Phi>s"
  shows "\<exists>r s'. soft_loop P slv i es (mv_solver v) = Inr (r, s') \<and>
    (\<exists>\<Psi>. cext d v (v\<lparr>mv_solver := s'\<rparr>) \<Psi>) \<and> best_softs (sols d v) i \<Phi>s = (r, sols d (v\<lparr>mv_solver := s'\<rparr>))"
  using assms(2,3)
proof (induction es arbitrary: i v \<Phi>s)
  case Nil
  then have "v\<lparr>mv_solver := mv_solver v\<rparr> = v" by simp
  with Nil show ?case using cext_refl [OF Nil(1)] by auto
next
  case (Cons e es)
  obtain \<Phi> \<Phi>s' where \<Phi>s: "\<Phi>s = \<Phi> # \<Phi>s'" and m1: "means v e \<Phi>" and m2: "list_all2 (means v) es \<Phi>s'"
    using Cons.prems(2) by (auto simp: list_all2_Cons1)
  obtain c where c: "e = Base c" "ok (mv_solver v) c" "\<And>m \<rho>. mdl (mv_solver v) m \<Longrightarrow> agree m \<rho> v \<Longrightarrow> val m c = \<Phi> \<rho>"
    using m1 by (auto simp: means_def)
  have w: "wfs (mv_solver v)" using Cons.prems(1) by (simp add: vwf_def)
  obtain a s1 where a: "equal_true P (Base c) (mv_solver v) = Inr (a, s1)" and e1: "extends wfs ok mdl val (mv_solver v) s1"
    and "ok s1 a" and va: "\<And>m. mdl s1 m \<Longrightarrow> val m a = val m c"
    using equal_trueE [OF w c(2)] by blast
  define v1 where "v1 = v\<lparr>mv_solver := s1\<rparr>"
  have x1: "vext d v v1" using Cons.prems(1) e1 by (intro vext_solver) (simp_all add: v1_def)
  have ag: "agree m \<rho> v1 = agree m \<rho> v" for m \<rho> by (simp add: agree_def v1_def)
  have sat: "slv s1 [a] \<longleftrightarrow> (\<exists>\<rho>\<in>sols d v. \<Phi> \<rho>)"
  proof -
    have "slv s1 [a] \<longleftrightarrow> (\<exists>m. mdl s1 m \<and> val m c)"
      using slv extendsD(1) [OF e1] \<open>ok s1 a\<close> va by (auto simp: decides_def)
    also have "\<dots> \<longleftrightarrow> (\<exists>\<rho>\<in>sols d v1. \<Phi> \<rho>)"
      using models_sols [OF vextD(1) [OF x1], of "\<lambda>m. val m c" \<Phi>] c(3) extendsD(4) [OF e1] ag by (simp add: v1_def)
    finally show ?thesis by (simp add: sols_vext [OF x1])
  qed
  have upd: "v1\<lparr>mv_solver := s\<rparr> = v\<lparr>mv_solver := s\<rparr>" for s by (simp add: v1_def)
  show ?case
  proof (cases "slv s1 [a]")
    case False
    have "list_all2 (means v1) es \<Phi>s'"
      by (rule list_all2_mono [OF m2]) (rule means_mono [OF _ vext_cext [OF x1]])
    from Cons.IH [OF vextD(1) [OF x1] this, of "i + 1"]
    obtain r s' \<Psi> where r: "soft_loop P slv (i + 1) es s1 = Inr (r, s')" "cext d v1 (v1\<lparr>mv_solver := s'\<rparr>) \<Psi>"
      "best_softs (sols d v1) (i + 1) \<Phi>s' = (r, sols d (v1\<lparr>mv_solver := s'\<rparr>))"
      by (auto simp: v1_def)
    have "cext d v (v\<lparr>mv_solver := s'\<rparr>) (\<lambda>\<rho>. True \<and> \<Psi> \<rho>)"
      using cext_trans [OF vext_cext [OF x1] r(2)] by (simp only: upd)
    then show ?thesis using r False sat by (auto simp: c(1) a \<Phi>s sols_vext [OF x1] upd)
  next
    case True
    obtain b s2 where b: "equal_true P (Base c) s1 = Inr (b, s2)" and e2: "extends wfs ok mdl val s1 s2"
      and "ok s2 b" and vb: "\<And>m. mdl s2 m \<Longrightarrow> val m b = val m c"
      using equal_trueE [OF extendsD(1) [OF e1] extendsD(2) [OF e1 c(2)]] by blast
    define v2 where "v2 = v\<lparr>mv_solver := s2\<rparr>"
    have x2: "vext d v v2"
      using Cons.prems(1) extends_trans [OF e1 e2] by (intro vext_solver) (simp_all add: v2_def)
    have "cext d v2 (v2\<lparr>mv_solver := ps_assertion P b (mv_solver v2)\<rparr>) \<Phi>"
      by (rule cext_assert [OF vextD(1) [OF x2]])
        (use \<open>ok s2 b\<close> vb c(3) extendsD(4) [OF e1] extendsD(4) [OF e2] in \<open>auto simp: v2_def agree_def\<close>)
    from cext_trans [OF vext_cext [OF x2] this]
    have x3: "cext d v (v\<lparr>mv_solver := ps_assertion P b s2\<rparr>) \<Phi>" (is "cext d v ?v3 \<Phi>") by (simp add: v2_def)
    have w3: "vwf d ?v3" using x3 by (simp add: cext_def)
    have "list_all2 (means ?v3) es \<Phi>s'"
      by (rule list_all2_mono [OF m2]) (rule means_mono [OF _ x3])
    from Cons.IH [OF w3 this, of "i + 1"]
    obtain r s' \<Psi> where r: "soft_loop P slv (i + 1) es (ps_assertion P b s2) = Inr (r, s')" "cext d ?v3 (v\<lparr>mv_solver := s'\<rparr>) \<Psi>"
      "best_softs (sols d ?v3) (i + 1) \<Phi>s' = (r, sols d (v\<lparr>mv_solver := s'\<rparr>))"
      by auto
    then show ?thesis using True sat cext_trans [OF x3 r(2)] by (auto simp: c(1) a b \<Phi>s sols_cext [OF x3])
  qed
qed

lemma analyseSofts_best:
  assumes "decides slv" and "vwf d v" and "list_all2 (means v) (mv_softs v) \<Phi>s"
  shows "\<exists>r v'. analyseSofts P slv v = Inr (r, v') \<and> vwf d v' \<and> mv_softs v' = [] \<and>
    mv_assumptions v' = mv_assumptions v \<and> mv_suggestions v' = mv_suggestions v \<and> mv_terminals v' = mv_terminals v \<and>
    best_softs (sols d v) 0 \<Phi>s = (r, sols d v')"
proof -
  obtain r s' \<Psi> where r: "soft_loop P slv 0 (mv_softs v) (mv_solver v) = Inr (r, s')"
    "cext d v (v\<lparr>mv_solver := s'\<rparr>) \<Psi>" "best_softs (sols d v) 0 \<Phi>s = (r, sols d (v\<lparr>mv_solver := s'\<rparr>))"
    using soft_loop_best [OF assms] by blast
  let ?v = "v\<lparr>mv_solver := s', mv_softs := []\<rparr>"
  have "sols d ?v = sols d (v\<lparr>mv_solver := s'\<rparr>)" by (simp add: sols_def agree_def)
  moreover have "vwf d ?v" using r(2) by (simp add: cext_def vwf_def)
  ultimately show ?thesis using r by (simp add: analyseSofts_def)
qed

section \<open>Solving\<close>

lemma equal_true_all_gives:
  assumes "wfs s" and "\<forall>c\<in>set cs. ok s c"
  shows "\<exists>bs s'. equal_true_all P (map Base cs) s = Inr (bs, s') \<and> extends wfs ok mdl val s s' \<and> (\<forall>b\<in>set bs. ok s' b) \<and>
    (\<forall>m. mdl s' m \<longrightarrow> (\<forall>b\<in>set bs. val m b) = (\<forall>c\<in>set cs. val m c))"
  using assms
proof (induction cs arbitrary: s)
  case Nil
  then show ?case by (simp add: extends_refl)
next
  case (Cons c cs)
  obtain b s1 where b: "equal_true P (Base c) s = Inr (b, s1)" and e1: "extends wfs ok mdl val s s1" and "ok s1 b"
    and vb: "\<And>m. mdl s1 m \<Longrightarrow> val m b = val m c"
    using equal_trueE [OF Cons.prems(1), of c] Cons.prems(2) by auto
  have "\<forall>c\<in>set cs. ok s1 c" using Cons.prems(2) extendsD(2) [OF e1] by simp
  from Cons.IH [OF extendsD(1) [OF e1] this] obtain bs s2 where
    bs: "equal_true_all P (map Base cs) s1 = Inr (bs, s2)" and e2: "extends wfs ok mdl val s1 s2"
    and "\<forall>b\<in>set bs. ok s2 b" "\<forall>m. mdl s2 m \<longrightarrow> (\<forall>b\<in>set bs. val m b) = (\<forall>c\<in>set cs. val m c)"
    by blast
  then show ?case
    using b extends_trans [OF e1 e2] extendsD(2) [OF e2 \<open>ok s1 b\<close>] vb extendsD(4) [OF e2] by simp
qed

definition mean_all :: "('s, 'b) meta \<Rightarrow> 'b bbval list \<Rightarrow> ((nat \<Rightarrow> smt_val) \<Rightarrow> bool) \<Rightarrow> bool" where
  "mean_all v es \<Phi> \<longleftrightarrow> (\<forall>e\<in>set es. \<exists>c. e = Base c \<and> ok (mv_solver v) c) \<and>
     (\<forall>m \<rho>. mdl (mv_solver v) m \<longrightarrow> agree m \<rho> v \<longrightarrow> (\<forall>c. Base c \<in> set es \<longrightarrow> val m c) = \<Phi> \<rho>)"

lemma mean_all_list: "list_all2 (means v) es \<Phi>s \<Longrightarrow> mean_all v es (\<lambda>\<rho>. \<forall>\<Phi>\<in>set \<Phi>s. \<Phi> \<rho>)"
proof (induction es \<Phi>s rule: list_all2_induct)
  case (Cons e es \<Phi> \<Phi>s)
  then obtain c where c: "e = Base c" by (auto simp: means_def)
  have split: "(\<forall>b. Base b \<in> set (e # es) \<longrightarrow> val m b) \<longleftrightarrow> val m c \<and> (\<forall>b. Base b \<in> set es \<longrightarrow> val m b)" for m
    by (auto simp: c)
  have "ok (mv_solver v) c" "\<And>m \<rho>. mdl (mv_solver v) m \<Longrightarrow> agree m \<rho> v \<Longrightarrow> val m c = \<Phi> \<rho>"
    using Cons(1) by (auto simp: means_def c)
  then show ?case using Cons(3) unfolding mean_all_def split by (simp add: c)
qed (simp add: mean_all_def)

lemma mean_all_mono: "mean_all v es \<Phi> \<Longrightarrow> cext d v v' \<Psi> \<Longrightarrow> mean_all v' es \<Phi>"
proof -
  assume m: "mean_all v es \<Phi>" and c: "cext d v v' \<Psi>"
  have "agree m \<rho> v" if "agree m \<rho> v'" for m \<rho>
    using c that by (auto simp: cext_def agree_def map_le_def dom_def)
  moreover have "\<forall>b. ok (mv_solver v) b \<longrightarrow> ok (mv_solver v') b" "\<forall>m. mdl (mv_solver v') m \<longrightarrow> mdl (mv_solver v) m"
    using c by (simp_all add: cext_def)
  ultimately show ?thesis using m unfolding mean_all_def by blast
qed

lemma mean_allE:
  assumes "mean_all v es \<Phi>"
  obtains cs where "es = map Base cs" "\<forall>c\<in>set cs. ok (mv_solver v) c"
    "\<And>m \<rho>. mdl (mv_solver v) m \<Longrightarrow> agree m \<rho> v \<Longrightarrow> (\<forall>c\<in>set cs. val m c) = \<Phi> \<rho>"
proof -
  have "\<forall>e\<in>set es. \<exists>c. e = Base c" using assms by (auto simp: mean_all_def)
  then obtain cs where cs: "es = map Base cs" by (metis ex_map_conv)
  have "Base c \<in> set es \<longleftrightarrow> c \<in> set cs" for c by (auto simp: cs)
  then have "(\<forall>c. Base c \<in> set es \<longrightarrow> Q c) = (\<forall>c\<in>set cs. Q c)" for Q by (simp add: Ball_def)
  then show ?thesis using that [OF cs] assms by (auto simp: mean_all_def cs)
qed

section \<open>Solvers that report their solution\<close>

definition answers :: "('s \<Rightarrow> 'b list \<Rightarrow> ('b \<Rightarrow> bool) option) \<Rightarrow> bool" where
  "answers slv \<longleftrightarrow> (\<forall>s as. wfs s \<longrightarrow> (\<forall>a\<in>set as. ok s a) \<longrightarrow>
     (case slv s as of
        None \<Rightarrow> \<not> (\<exists>m. mdl s m \<and> (\<forall>a\<in>set as. val m a))
      | Some rd \<Rightarrow> \<exists>m. mdl s m \<and> (\<forall>a\<in>set as. val m a) \<and> (\<forall>b. ok s b \<longrightarrow> rd b = val m b)))"

lemma answersD:
  assumes "answers slv" and "wfs s" and "\<forall>a\<in>set as. ok s a"
  shows "case slv s as of
      None \<Rightarrow> \<not> (\<exists>m. mdl s m \<and> (\<forall>a\<in>set as. val m a))
    | Some rd \<Rightarrow> \<exists>m. mdl s m \<and> (\<forall>a\<in>set as. val m a) \<and> (\<forall>b. ok s b \<longrightarrow> rd b = val m b)"
  by (rule assms(1) [unfolded answers_def, rule_format]) (use assms(2,3) in auto)

lemma answers_None:
  assumes "answers slv" "wfs s" "\<forall>a\<in>set as. ok s a" "slv s as = None" "mdl s m"
  shows "\<exists>a\<in>set as. \<not> val m a"
  using answersD [OF assms(1-3)] assms(5) by (simp add: assms(4))

lemma answers_Some:
  assumes "answers slv" and "wfs s" and "\<forall>a\<in>set as. ok s a" and "slv s as = Some rd"
  obtains m where "mdl s m" "\<forall>a\<in>set as. val m a" "\<And>b. ok s b \<Longrightarrow> rd b = val m b"
  using answersD [OF assms(1-3)] that by (auto simp add: assms(4))

lemma answers_decides: "answers slv \<Longrightarrow> decides (\<lambda>s as. slv s as \<noteq> None)"
  by (auto simp: answers_def decides_def split: option.splits) blast+

text \<open>An answer about the assignments a state admits: one that satisfies \<open>\<Phi>\<close>, or that there is none.\<close>

definition reads :: "(nat \<Rightarrow> smt_sort) \<Rightarrow> ('s, 'b) meta \<Rightarrow> ((nat \<Rightarrow> smt_val) \<Rightarrow> bool) \<Rightarrow> ('b \<Rightarrow> bool) option \<Rightarrow> bool" where
  "reads d v \<Phi> a \<longleftrightarrow> (case a of
       None \<Rightarrow> \<not> (\<exists>\<rho>\<in>sols d v. \<Phi> \<rho>)
     | Some f \<Rightarrow> \<exists>\<rho>\<in>sols d v. \<Phi> \<rho> \<and> (\<forall>i e. mv_terminals v i = Some e \<longrightarrow> abs_bb f e = \<rho> i))"

lemma reads_decides: "reads d v \<Phi> a \<Longrightarrow> a \<noteq> None \<longleftrightarrow> (\<exists>\<rho>\<in>sols d v. \<Phi> \<rho>)"
  by (auto simp: reads_def split: option.splits)

lemma reads_cong: "sols d v = sols d w \<Longrightarrow> mv_terminals v = mv_terminals w \<Longrightarrow> reads d v = reads d w"
  by (simp only: reads_def fun_eq_iff HOL.simp_thms)

lemma reads_answer:
  assumes slv: "answers slv" and v: "vwf d v" and as: "\<forall>a\<in>set as. ok (mv_solver v) a"
    and \<Phi>: "\<And>m \<rho>. mdl (mv_solver v) m \<Longrightarrow> agree m \<rho> v \<Longrightarrow> (\<forall>a\<in>set as. val m a) = \<Phi> \<rho>"
  shows "reads d v \<Phi> (slv (mv_solver v) as)"
proof (cases "slv (mv_solver v) as")
  case None
  have w: "wfs (mv_solver v)" using v by (simp add: vwf_def)
  have "\<not> (\<exists>m. mdl (mv_solver v) m \<and> (\<forall>a\<in>set as. val m a))"
    using answers_None [OF slv w as None] by blast
  then show ?thesis using models_sols [OF v \<Phi>] by (simp add: reads_def None)
next
  case (Some f)
  have w: "wfs (mv_solver v)" using v by (simp add: vwf_def)
  obtain m where m: "mdl (mv_solver v) m" "\<forall>a\<in>set as. val m a" "\<And>b. ok (mv_solver v) b \<Longrightarrow> f b = val m b"
    by (rule answers_Some [OF slv w as Some]) (rule that)
  note A = assign_of [OF v, of m]
  then have sol: "assign_of d v m \<in> sols d v" using m(1) by (auto simp: sols_def)
  have "abs_bb f e = assign_of d v m i" if "mv_terminals v i = Some e" for i e
  proof -
    have "\<forall>b\<in>bb_lits e. ok (mv_solver v) b" using v that by (auto simp: vwf_def usable_def)
    then have "abs_bb f e = abs_bb (val m) e" using m(3) by (intro abs_bb_cong) simp
    then show ?thesis by (simp add: assign_of_def that)
  qed
  moreover have "\<Phi> (assign_of d v m)" using \<Phi> [OF m(1)] A m(2) by simp
  ultimately show ?thesis using sol by (auto simp: reads_def Some)
qed

text \<open>One attempt: the softs are evaluated again and all assumptions are handed over.\<close>

lemma attempt_correct:
  assumes slv: "answers slv" and v: "vwf d v" and "mean_all v assums A" and "mean_all v softs S"
    and "mean_all v suggs G"
  shows "\<exists>as gs ss s'. get_bases assums = Inr as \<and> get_bases suggs = Inr gs \<and>
    (if ign then Inr ([], mv_solver v) else equal_true_all P softs (mv_solver v)) = Inr (ss, s') \<and>
    vext d v (v\<lparr>mv_solver := s'\<rparr>) \<and>
    reads d (v\<lparr>mv_solver := s'\<rparr>) (\<lambda>\<rho>. A \<rho> \<and> G \<rho> \<and> (ign \<or> S \<rho>)) (slv s' (as @ gs @ ss))"
proof -
  obtain as where as: "assums = map Base as" "\<forall>c\<in>set as. ok (mv_solver v) c"
    "\<And>m \<rho>. mdl (mv_solver v) m \<Longrightarrow> agree m \<rho> v \<Longrightarrow> (\<forall>c\<in>set as. val m c) = A \<rho>"
    using mean_allE [OF assms(3)] by blast
  obtain cs where cs: "softs = map Base cs" "\<forall>c\<in>set cs. ok (mv_solver v) c"
    "\<And>m \<rho>. mdl (mv_solver v) m \<Longrightarrow> agree m \<rho> v \<Longrightarrow> (\<forall>c\<in>set cs. val m c) = S \<rho>"
    using mean_allE [OF assms(4)] by blast
  obtain gs where gs: "suggs = map Base gs" "\<forall>c\<in>set gs. ok (mv_solver v) c"
    "\<And>m \<rho>. mdl (mv_solver v) m \<Longrightarrow> agree m \<rho> v \<Longrightarrow> (\<forall>c\<in>set gs. val m c) = G \<rho>"
    using mean_allE [OF assms(5)] by blast
  have w: "wfs (mv_solver v)" using v by (simp add: vwf_def)
  obtain ss s' where ss: "(if ign then Inr ([], mv_solver v) else equal_true_all P softs (mv_solver v)) = Inr (ss, s')"
    and e: "extends wfs ok mdl val (mv_solver v) s'" and "\<forall>b\<in>set ss. ok s' b"
    and vs: "\<And>m. mdl s' m \<Longrightarrow> (\<forall>b\<in>set ss. val m b) = (ign \<or> (\<forall>c\<in>set cs. val m c))"
    using equal_true_all_gives [OF w cs(2)] extends_refl [of wfs "mv_solver v" ok mdl val] w by (cases ign) (auto simp: cs(1))
  define v' where "v' = v\<lparr>mv_solver := s'\<rparr>"
  have x: "vext d v v'" using v e by (intro vext_solver) (simp_all add: v'_def)
  have "\<forall>a\<in>set (as @ gs @ ss). ok s' a"
    using extendsD(2) [OF e] as(2) gs(2) \<open>\<forall>b\<in>set ss. ok s' b\<close> by auto
  then have oks: "\<forall>a\<in>set (as @ gs @ ss). ok (mv_solver v') a" by (simp add: v'_def)
  have sem: "(\<forall>a\<in>set (as @ gs @ ss). val m a) = (A \<rho> \<and> G \<rho> \<and> (ign \<or> S \<rho>))"
    if m: "mdl (mv_solver v') m" "agree m \<rho> v'" for m \<rho>
  proof -
    have o: "mdl (mv_solver v) m" "agree m \<rho> v" using vextD(3,4) [OF x] m by auto
    have "(\<forall>b\<in>set ss. val m b) = (ign \<or> S \<rho>)" using vs [of m] m(1) cs(3) [OF o] by (simp add: v'_def)
    then show ?thesis using as(3) [OF o] gs(3) [OF o] by (simp add: ball_Un)
  qed
  have "reads d v' (\<lambda>\<rho>. A \<rho> \<and> G \<rho> \<and> (ign \<or> S \<rho>)) (slv (mv_solver v') (as @ gs @ ss))"
    by (rule reads_answer [OF slv vextD(1) [OF x] oks]) (rule sem)
  then show ?thesis using ss x by (simp add: as(1) gs(1) v'_def)
qed

lemma solve_loop_correct:
  assumes slv: "answers slv" and rnd: "\<And>r n. 0 < n \<Longrightarrow> fst (rnd r n) < n"
    and "vwf d v" and "mean_all v assums A" and "mean_all v softs S" and "\<forall>e\<in>set suggs. \<exists>\<Phi>. means v e \<Phi>"
  shows "\<exists>b suggs' r' s'. solve_loop P slv rnd ign assums softs suggs r (mv_solver v) = Inr ((b, suggs'), r', s') \<and>
    vext d v (v\<lparr>mv_solver := s'\<rparr>) \<and> reads d (v\<lparr>mv_solver := s'\<rparr>) (\<lambda>\<rho>. A \<rho> \<and> (ign \<or> S \<rho>)) b"
  using assms(3-)
proof (induction suggs arbitrary: v r rule: length_induct)
  case (1 suggs)
  obtain \<Phi>s where "list_all2 (means v) suggs \<Phi>s"
  proof -
    obtain f where "\<forall>e\<in>set suggs. means v e (f e)" using 1(5) by metis
    then have "list_all2 (means v) suggs (map f suggs)" by (simp add: list_all2_map2 list_all2_same)
    then show thesis using that by blast
  qed
  then have G: "mean_all v suggs (\<lambda>\<rho>. \<forall>\<Phi>\<in>set \<Phi>s. \<Phi> \<rho>)" by (rule mean_all_list)
  have len: "length \<Phi>s = length suggs" using \<open>list_all2 (means v) suggs \<Phi>s\<close> by (simp add: list_all2_lengthD)
  obtain as gs ss s' where run: "get_bases assums = Inr as" "get_bases suggs = Inr gs"
    "(if ign then Inr ([], mv_solver v) else equal_true_all P softs (mv_solver v)) = Inr (ss, s')"
    and x: "vext d v (v\<lparr>mv_solver := s'\<rparr>)" (is "vext d v ?v")
    and sat: "reads d (v\<lparr>mv_solver := s'\<rparr>) (\<lambda>\<rho>. A \<rho> \<and> (\<forall>\<Phi>\<in>set \<Phi>s. \<Phi> \<rho>) \<and> (ign \<or> S \<rho>)) (slv s' (as @ gs @ ss))"
    using attempt_correct [OF slv 1(2-4) G, of ign] by blast
  have unf: "solve_loop P slv rnd ign assums softs suggs r (mv_solver v) =
      (case slv s' (as @ gs @ ss) of
         Some rd \<Rightarrow> Inr ((Some rd, suggs), r, s')
       | None \<Rightarrow>
           if suggs = [] then Inr ((None, suggs), r, s')
           else let (select, r) = rnd r (length suggs) in
             solve_loop P slv rnd ign assums softs (butlast (swap_at select (length suggs - 1) suggs)) r s')"
    by (subst solve_loop.simps) (simp only: run rbind_Inr prod.case)
  consider rd where "slv s' (as @ gs @ ss) = Some rd" | "slv s' (as @ gs @ ss) = None" "suggs = []"
    | "slv s' (as @ gs @ ss) = None" "suggs \<noteq> []" by blast
  then show ?case
  proof cases
    case 1
    then have "reads d ?v (\<lambda>\<rho>. A \<rho> \<and> (ign \<or> S \<rho>)) (Some rd)" using sat by (auto simp: reads_def)
    then show ?thesis unfolding unf using x 1 by auto
  next
    case 2
    then have "\<Phi>s = []" using len by simp
    then have "reads d ?v (\<lambda>\<rho>. A \<rho> \<and> (ign \<or> S \<rho>)) None" using sat 2 by (simp add: reads_def)
    then show ?thesis unfolding unf using x 2 by auto
  next
    case 3
    obtain sel r1 where sel: "rnd r (length suggs) = (sel, r1)" by fastforce
    then have "sel < length suggs" using rnd [of "length suggs" r] 3 by simp
    let ?suggs = "butlast (swap_at sel (length suggs - 1) suggs)"
    have "set ?suggs \<subseteq> set (swap_at sel (length suggs - 1) suggs)" by (meson in_set_butlastD subsetI)
    also have "\<dots> = set suggs"
      using \<open>sel < length suggs\<close> 3 by (metis diff_less length_greater_0_conv set_mset_mset swap_at_mset zero_less_one)
    finally have sub: "set ?suggs \<subseteq> set suggs" .
    have "\<forall>e\<in>set ?suggs. \<exists>\<Phi>. means ?v e \<Phi>"
      using sub 1(5) means_mono [OF _ vext_cext [OF x]] by blast
    moreover have "length ?suggs < length suggs" using 3 by (simp add: swap_at_def)
    ultimately obtain b suggs' r' s2 where
      IH: "solve_loop P slv rnd ign assums softs ?suggs r1 s' = Inr ((b, suggs'), r', s2)" "vext d ?v (v\<lparr>mv_solver := s2\<rparr>)"
        "reads d (v\<lparr>mv_solver := s2\<rparr>) (\<lambda>\<rho>. A \<rho> \<and> (ign \<or> S \<rho>)) b"
      using 1(1) [rule_format, of ?suggs ?v r1] vextD(1) [OF x] mean_all_mono [OF 1(3) vext_cext [OF x]]
        mean_all_mono [OF 1(4) vext_cext [OF x]] by auto
    then show ?thesis
      unfolding unf using 3 vext_trans [OF x IH(2)] by (auto simp: sel)
  qed
qed

lemma solve_correct:
  assumes slv: "answers slv" and rnd: "\<And>r n. 0 < n \<Longrightarrow> fst (rnd r n) < n"
    and v: "vwf d v" and A: "list_all2 (means v) (mv_assumptions v) As" and S: "list_all2 (means v) (mv_softs v) Ss"
    and G: "\<forall>e\<in>set (mv_suggestions v). \<exists>\<Phi>. means v e \<Phi>"
  shows "\<exists>b r' v'. solve P slv rnd ign r v = Inr (b, r', v') \<and> mv_assumptions v' = [] \<and> mv_suggestions v' = [] \<and>
    mv_softs v' = mv_softs v \<and> sols d v' = sols d v \<and> vwf d v' \<and>
    mv_terminals v' = mv_terminals v \<and> vext d v v' \<and>
    reads d v' (\<lambda>\<rho>. (\<forall>\<Phi>\<in>set As. \<Phi> \<rho>) \<and> (ign \<or> (\<forall>\<Phi>\<in>set Ss. \<Phi> \<rho>))) b"
proof -
  obtain as r1 where as: "random_shuffle rnd (mv_assumptions v) r = (as, r1)" by fastforce
  obtain gs r2 where gs: "random_shuffle rnd (mv_suggestions v) r1 = (gs, r2)" by fastforce
  have sets: "set as = set (mv_assumptions v)" "set gs = set (mv_suggestions v)"
    using random_shuffle_set [of rnd "mv_assumptions v" r] random_shuffle_set [of rnd "mv_suggestions v" r1] rnd as gs by simp_all
  have "mean_all v as (\<lambda>\<rho>. \<forall>\<Phi>\<in>set As. \<Phi> \<rho>)" using mean_all_list [OF A] sets(1) by (simp add: mean_all_def)
  then have "\<exists>b suggs' r' s'. solve_loop P slv rnd ign as (mv_softs v) gs r2 (mv_solver v) = Inr ((b, suggs'), r', s') \<and>
      vext d v (v\<lparr>mv_solver := s'\<rparr>) \<and> reads d (v\<lparr>mv_solver := s'\<rparr>) (\<lambda>\<rho>. (\<forall>\<Phi>\<in>set As. \<Phi> \<rho>) \<and> (ign \<or> (\<forall>\<Phi>\<in>set Ss. \<Phi> \<rho>))) b"
    by (intro solve_loop_correct slv rnd v mean_all_list [OF S]) (use G sets(2) in auto)
  then obtain b suggs' r' s' where run: "solve_loop P slv rnd ign as (mv_softs v) gs r2 (mv_solver v) = Inr ((b, suggs'), r', s')"
    and x: "vext d v (v\<lparr>mv_solver := s'\<rparr>)" and a: "reads d (v\<lparr>mv_solver := s'\<rparr>) (\<lambda>\<rho>. (\<forall>\<Phi>\<in>set As. \<Phi> \<rho>) \<and> (ign \<or> (\<forall>\<Phi>\<in>set Ss. \<Phi> \<rho>))) b"
    by blast
  let ?v = "v\<lparr>mv_solver := s', mv_assumptions := [], mv_suggestions := []\<rparr>"
  have "sols d ?v = sols d (v\<lparr>mv_solver := s'\<rparr>)" "vwf d ?v = vwf d (v\<lparr>mv_solver := s'\<rparr>)"
    by (simp_all add: sols_def agree_def vwf_def)
  moreover from this(1) have "reads d ?v = reads d (v\<lparr>mv_solver := s'\<rparr>)" by (intro reads_cong) simp_all
  moreover have "vext d v ?v" using x by (simp add: vext_def vwf_def agree_def)
  ultimately show ?thesis
    using run a sols_vext [OF x] vextD(1) [OF x] by (simp add: solve_def as gs)
qed

section \<open>Registering constraints\<close>

lemma visit_bool:
  assumes "vwf d v" and "decls_ok d n" and "sort_of n = Some SBool"
  shows "\<exists>e w. rbind (meta_visit P n v) mv_pop = Inr ((e, smt_sign n), w) \<and> vext d v w \<and> same_lists v w \<and>
    mv_stack w = mv_stack v \<and> means w e (\<lambda>\<rho>. smt_sem \<rho> n = VBool True)"
proof -
  obtain v1 e where v1: "meta_visit P n v = Inr v1" and o: "outcome d v v1 e (smt_sign n) SBool (\<lambda>\<rho>. smt_sem \<rho> n)"
    using translate [OF assms] by blast
  note D = outcomeD [OF o]
  obtain c where c: "e = Base c" using D(2) by (auto simp: bb_sort_eq)
  let ?w = "v1\<lparr>mv_stack := mv_stack v\<rparr>"
  have ag: "agree m \<rho> ?w = agree m \<rho> v1" for m \<rho> by (simp add: agree_def)
  have "vext d v ?w" using D(1) by (simp add: vext_def vwf_def ag)
  moreover have "val m c = (smt_sem \<rho> n = VBool True)" if "mdl (mv_solver v1) m" "agree m \<rho> v1" for m \<rho>
    using D(7) [OF that, symmetric] by (simp add: c)
  then have "means ?w e (\<lambda>\<rho>. smt_sem \<rho> n = VBool True)"
    using D(3) by (auto simp: means_def c usable_def ag)
  ultimately show ?thesis using D(4,6) by (simp add: v1 mv_pop_def same_lists_def)
qed

lemma rbind_pop: "rbind (meta_visit P n v) (\<lambda>v. rbind (mv_pop v) f) = rbind (rbind (meta_visit P n v) mv_pop) f"
  by (simp add: rbind_assoc)

lemma list_all2_means_vext: "list_all2 (means v) es \<Phi>s \<Longrightarrow> vext d v w \<Longrightarrow> list_all2 (means w) es \<Phi>s"
  by (erule list_all2_mono) (rule means_mono [OF _ vext_cext])

lemma means_lists: "means (v\<lparr>mv_softs := x\<rparr>) = means v" "means (v\<lparr>mv_assumptions := x\<rparr>) = means v"
    "means (v\<lparr>mv_suggestions := x\<rparr>) = means v"
  by (simp_all add: means_def agree_def fun_eq_iff)

lemma vext_lists: "vext d v w \<Longrightarrow> vext d v (w\<lparr>mv_softs := x\<rparr>)" "vext d v w \<Longrightarrow> vext d v (w\<lparr>mv_suggestions := x\<rparr>)"
    "vext d v w \<Longrightarrow> vext d v (w\<lparr>mv_assumptions := x\<rparr>)"
  by (simp_all add: vext_def vwf_def agree_def)

lemma makeSoftAssertion_correct:
  assumes "vwf d v" and "decls_ok d n" and "sort_of n = Some SBool" and "list_all2 (means v) (mv_softs v) \<Phi>s"
  shows "\<exists>w. makeSoftAssertion P n v = Inr w \<and> vext d v w \<and> mv_assumptions w = mv_assumptions v \<and>
    mv_suggestions w = mv_suggestions v \<and>
    list_all2 (means w) (mv_softs w) (\<Phi>s @ [\<lambda>\<rho>. smt_sem \<rho> n = VBool True])"
proof -
  obtain e w where w: "rbind (meta_visit P n v) mv_pop = Inr ((e, smt_sign n), w)" "vext d v w" "same_lists v w"
    "means w e (\<lambda>\<rho>. smt_sem \<rho> n = VBool True)"
    using visit_bool [OF assms(1-3)] by blast
  have "list_all2 (means w) (mv_softs v) \<Phi>s" by (rule list_all2_means_vext [OF assms(4) w(2)])
  then show ?thesis
    using w by (simp add: makeSoftAssertion_def rbind_pop vext_lists means_lists same_lists_def list_all2_appendI)
qed

lemma makeSuggestion_correct:
  assumes "vwf d v" and "decls_ok d n" and "sort_of n = Some SBool" and "list_all2 (means v) (mv_suggestions v) \<Phi>s"
  shows "\<exists>w. makeSuggestion P n v = Inr w \<and> vext d v w \<and> mv_softs w = mv_softs v \<and>
    mv_assumptions w = mv_assumptions v \<and>
    list_all2 (means w) (mv_suggestions w) (\<Phi>s @ [\<lambda>\<rho>. smt_sem \<rho> n = VBool True])"
proof -
  obtain e w where w: "rbind (meta_visit P n v) mv_pop = Inr ((e, smt_sign n), w)" "vext d v w" "same_lists v w"
    "means w e (\<lambda>\<rho>. smt_sem \<rho> n = VBool True)"
    using visit_bool [OF assms(1-3)] by blast
  have "list_all2 (means w) (mv_suggestions v) \<Phi>s" by (rule list_all2_means_vext [OF assms(4) w(2)])
  then show ?thesis
    using w by (simp add: makeSuggestion_def rbind_pop vext_lists means_lists same_lists_def list_all2_appendI)
qed

lemma makeAssumption_correct:
  assumes "vwf d v" and "decls_ok d n" and "sort_of n = Some SBool" and "list_all2 (means v) (mv_assumptions v) \<Phi>s"
  shows "\<exists>w. makeAssumption P n v = Inr w \<and> vext d v w \<and> mv_softs w = mv_softs v \<and>
    mv_suggestions w = mv_suggestions v \<and>
    list_all2 (means w) (mv_assumptions w) (\<Phi>s @ [\<lambda>\<rho>. smt_sem \<rho> n = VBool True])"
proof -
  obtain e w where w: "rbind (meta_visit P n v) mv_pop = Inr ((e, smt_sign n), w)" "vext d v w" "same_lists v w"
    "means w e (\<lambda>\<rho>. smt_sem \<rho> n = VBool True)"
    using visit_bool [OF assms(1-3)] by blast
  obtain c where c: "e = Base c" "ok (mv_solver w) c" using w(4) by (auto simp: means_def)
  have wf: "wfs (mv_solver w)" using vextD(1) [OF w(2)] by (simp add: vwf_def)
  obtain t s1 where t: "ps_true P (mv_solver w) = (t, s1)" by fastforce
  note T = true_law [OF wf t]
  then have e1: "extends wfs ok mdl val (mv_solver w) s1" "ok s1 t" by auto
  obtain b s2 where b: "ps_op2 P equal_tag c t s1 = (b, s2)" by fastforce
  have B: "extends wfs ok mdl val s1 s2 \<and> ok s2 b \<and> (\<forall>m. mdl s2 m \<longrightarrow> val m b = tag2_sem equal_tag (val m c) (val m t))"
    by (rule op2_law [OF extendsD(1) [OF e1(1)] extendsD(2) [OF e1(1) c(2)] e1(2) b])
  then have e2: "extends wfs ok mdl val s1 s2" by blast
  note e12 = extends_trans [OF e1(1) e2]
  let ?x = "w\<lparr>mv_solver := s2\<rparr>"
  have x: "vext d w ?x" using vextD(1) [OF w(2)] e12 by (intro vext_solver) simp_all
  have vx: "vext d v ?x" by (rule vext_trans [OF w(2) x])
  have "val m b = val m c" if "mdl s2 m" for m using B T that extendsD(4) [OF e2] by auto
  then have m: "means ?x (Base b) (\<lambda>\<rho>. smt_sem \<rho> n = VBool True)"
    using B means_mono [OF w(4) vext_cext [OF x]] by (simp add: means_def c)
  have "list_all2 (means ?x) (mv_assumptions v) \<Phi>s" by (rule list_all2_means_vext [OF assms(4) vx])
  then have l: "list_all2 (means ?x) (mv_assumptions v @ [Base b]) (\<Phi>s @ [\<lambda>\<rho>. smt_sem \<rho> n = VBool True])"
    using m by (simp add: list_all2_appendI)
  have run: "makeAssumption P n v = Inr (?x\<lparr>mv_assumptions := mv_assumptions v @ [Base b]\<rparr>)"
    using w(1,3) by (simp add: makeAssumption_def rbind_pop bb_true_def t c b same_lists_def)
  show ?thesis
    using vext_lists(3) [OF vx] l w(3) by (intro exI [of _ "?x\<lparr>mv_assumptions := mv_assumptions v @ [Base b]\<rparr>"])
      (simp add: run means_lists same_lists_def)
qed

end

end
