(* ===== verification/CardConstraints.thy ===== *)
theory CardConstraints
  imports MetaSolve "HOL-Library.Log_Nat"
begin

text \<open>
  Cardinality constraints (\<open>metaSMT/support/cardinality\<close>): how many of the Booleans \<open>ps\<close> are true,
  compared with a number. \<open>Evaluator.hpp\<close> decides the easy cases and hands the others to one of two
  encodings, a decision diagram over the prefixes of \<open>ps\<close> (\<open>bdd_impl.hpp\<close>, the default) or a network of
  adders (\<open>adder_impl.hpp\<close>). The Booleans are results of the predicate solver, to which the bit blaster
  forwards every logical operator on them.
\<close>

section \<open>The easy cases\<close>

datatype card_tag = lt_tag | le_tag | eq_tag | ge_tag | gt_tag

fun card_rel :: "card_tag \<Rightarrow> nat \<Rightarrow> nat \<Rightarrow> bool" where
  "card_rel lt_tag k c = (k < c)"
| "card_rel le_tag k c = (k \<le> c)"
| "card_rel eq_tag k c = (k = c)"
| "card_rel ge_tag k c = (k \<ge> c)"
| "card_rel gt_tag k c = (k > c)"

definition pred_const :: "('s, 'b) psolver \<Rightarrow> bool \<Rightarrow> 's \<Rightarrow> 'b \<times> 's" where
  "pred_const P b s = (if b then ps_true P s else ps_false P s)"

fun and_all :: "('s, 'b) psolver \<Rightarrow> 'b list \<Rightarrow> 'b \<Rightarrow> 's \<Rightarrow> 'b \<times> 's" where
  "and_all P [] res s = (res, s)"
| "and_all P (p # ps) res s = (let (res, s) = ps_op2 P and_tag res p s in and_all P ps res s)"

fun and_none :: "('s, 'b) psolver \<Rightarrow> 'b list \<Rightarrow> 'b \<Rightarrow> 's \<Rightarrow> 'b \<times> 's" where
  "and_none P [] res s = (res, s)"
| "and_none P (p # ps) res s =
     (let (n, s) = ps_not P p s; (res, s) = ps_op2 P and_tag res n s in and_none P ps res s)"

definition cardinality_simplify :: "('s, 'b) psolver \<Rightarrow> card_tag \<Rightarrow> 'b list \<Rightarrow> nat \<Rightarrow> 's \<Rightarrow> 'b option \<times> 's" where
  "cardinality_simplify P t ps c s =
     (let (res, s) = ps_true P s; nps = length ps in
      case t of
        eq_tag \<Rightarrow>
          if c = 0 then apfst Some (and_none P ps res s)
          else if c = nps then apfst Some (and_all P ps res s)
          else if c = 1 \<and> nps = 2 then apfst Some (ps_op2 P xor_tag (ps ! 0) (ps ! 1) s)
          else if c > nps then apfst Some (ps_false P s)
          else (None, s)
      | gt_tag \<Rightarrow>
          if nps \<le> c then apfst Some (ps_false P s)
          else if nps = c + 1 then apfst Some (and_all P ps res s)
          else (None, s)
      | ge_tag \<Rightarrow>
          if nps < c then apfst Some (ps_false P s)
          else if c = 0 then (Some res, s)
          else if nps = c then apfst Some (and_all P ps res s)
          else (None, s)
      | lt_tag \<Rightarrow>
          if nps < c then (Some res, s)
          else if c = 0 then apfst Some (ps_false P s)
          else if c = 1 then apfst Some (and_none P ps res s)
          else (None, s)
      | le_tag \<Rightarrow>
          if nps \<le> c then (Some res, s)
          else if c = 0 then apfst Some (and_none P ps res s)
          else (None, s))"

section \<open>Decision diagrams\<close>

text \<open>
  The tableau is filled row by row; the code keeps two rows and writes row \<open>v\<close> over row \<open>v - 2\<close>, here
  \<open>cur\<close> is the part of row \<open>v\<close> written so far and \<open>prev\<close> is row \<open>v - 1\<close>. Every cell but the first is
  named by a variable of its own.
\<close>

definition formula :: "('s, 'b) psolver \<Rightarrow> nat \<Rightarrow> 'b \<Rightarrow> 's \<Rightarrow> 'b \<times> 's" where
  "formula P n r s =
     (if n > 0 then let (p, s) = ps_var P s; (e, s) = ps_op2 P equal_tag p r s in (p, ps_assertion P e s)
      else (r, s))"

definition tableau_cell ::
    "('s, 'b) psolver \<Rightarrow> 'b list \<Rightarrow> bool \<Rightarrow> bool \<Rightarrow> bool \<Rightarrow> nat \<Rightarrow> nat \<Rightarrow> 'b list \<Rightarrow> 'b list \<Rightarrow> 's \<Rightarrow> 'b \<times> 's" where
  "tableau_cell P ps lt eq gt v u prev cur s =
     (let (r, s) =
        (if u = 0 \<and> v = 0 then pred_const P eq s
         else if u = 0 then let (g, s) = pred_const P gt s in ps_ite P (ps ! (v - 1)) g (prev ! 0) s
         else if v = 0 then let (l, s) = pred_const P lt s in ps_ite P (ps ! (u - 1)) (cur ! (u - 1)) l s
         else ps_ite P (ps ! (u + v - 1)) (cur ! (u - 1)) (prev ! u) s)
      in formula P (u + v) r s)"

fun tableau_row ::
    "('s, 'b) psolver \<Rightarrow> 'b list \<Rightarrow> bool \<Rightarrow> bool \<Rightarrow> bool \<Rightarrow> nat \<Rightarrow> nat list \<Rightarrow> 'b list \<Rightarrow> 'b list \<Rightarrow> 's \<Rightarrow> 'b list \<times> 's" where
  "tableau_row P ps lt eq gt v [] prev cur s = (cur, s)"
| "tableau_row P ps lt eq gt v (u # us) prev cur s =
     (let (r, s) = tableau_cell P ps lt eq gt v u prev cur s in tableau_row P ps lt eq gt v us prev (cur @ [r]) s)"

fun tableau ::
    "('s, 'b) psolver \<Rightarrow> 'b list \<Rightarrow> bool \<Rightarrow> bool \<Rightarrow> bool \<Rightarrow> nat \<Rightarrow> nat list \<Rightarrow> 'b list \<Rightarrow> 's \<Rightarrow> 'b list \<times> 's" where
  "tableau P ps lt eq gt c [] prev s = (prev, s)"
| "tableau P ps lt eq gt c (v # vs) prev s =
     (let (cur, s) = tableau_row P ps lt eq gt v [0..<c + 1] prev [] s in tableau P ps lt eq gt c vs cur s)"

definition bdd_any ::
    "('s, 'b) psolver \<Rightarrow> 'b list \<Rightarrow> nat \<Rightarrow> bool \<Rightarrow> bool \<Rightarrow> bool \<Rightarrow> 's \<Rightarrow> ('b \<times> 's) result" where
  "bdd_any P ps c lt eq gt s =
     (if length ps > 0 \<and> c > 0 \<and> length ps > c
      then let (rail, s) = tableau P ps lt eq gt c [0..<length ps - c + 1] [] s in Inr (rail ! c, s)
      else Inl AssertionFailure)"

definition bdd_direct :: "('s, 'b) psolver \<Rightarrow> card_tag \<Rightarrow> 'b list \<Rightarrow> nat \<Rightarrow> 's \<Rightarrow> ('b \<times> 's) result" where
  "bdd_direct P t ps c s =
     (case t of
        eq_tag \<Rightarrow> bdd_any P ps c False True False s
      | le_tag \<Rightarrow> bdd_any P ps c True True False s
      | _ \<Rightarrow> bdd_any P ps c False True True s)"

text \<open>\<open>cardinality_geq\<close> and \<open>cardinality_leq\<close> as the two remaining operators call them.\<close>

definition bdd_simplified :: "('s, 'b) psolver \<Rightarrow> card_tag \<Rightarrow> 'b list \<Rightarrow> nat \<Rightarrow> 's \<Rightarrow> ('b \<times> 's) result" where
  "bdd_simplified P t ps c s =
     (let (r, s) = cardinality_simplify P t ps c s in
      case r of Some r \<Rightarrow> Inr (r, s) | None \<Rightarrow> bdd_direct P t ps c s)"

definition bdd_cardinality :: "('s, 'b) psolver \<Rightarrow> card_tag \<Rightarrow> 'b list \<Rightarrow> nat \<Rightarrow> 's \<Rightarrow> ('b \<times> 's) result" where
  "bdd_cardinality P t ps c s =
     (if length ps = 0 then Inl AssertionFailure
      else case t of
        lt_tag \<Rightarrow> rbind (bdd_simplified P ge_tag ps c s) (\<lambda>(r, s). Inr (ps_not P r s))
      | gt_tag \<Rightarrow> rbind (bdd_simplified P le_tag ps c s) (\<lambda>(r, s). Inr (ps_not P r s))
      | _ \<Rightarrow> bdd_direct P t ps c s)"

section \<open>Adders\<close>

text \<open>
  One line of the network adds the Booleans of one weight: the sum goes back to the end of the queue, the
  carries are collected for the next line. The line ends with one Boolean left, a digit of the result.
\<close>

function adder_line :: "('s, 'b) psolver \<Rightarrow> 'b list \<Rightarrow> 'b list \<Rightarrow> 's \<Rightarrow> ('b list \<times> 'b list) \<times> 's" where
  "adder_line P (x # y # z # q) carries s =
     (let (xy, s) = ps_op2 P xor_tag x y s; (sum, s) = ps_op2 P xor_tag xy z s;
          (o1, s) = ps_op2 P or_tag y z s; (a1, s) = ps_op2 P and_tag y z s; (carry, s) = ps_ite P x o1 a1 s
      in adder_line P (q @ [sum]) (carries @ [carry]) s)"
| "adder_line P [x, y] carries s =
     (let (sum, s) = ps_op2 P xor_tag x y s; (carry, s) = ps_op2 P and_tag x y s
      in (([sum], carries @ [carry]), s))"
| "adder_line P [x] carries s = (([x], carries), s)"
| "adder_line P [] carries s = (([], carries), s)"
  by pat_completeness auto
termination
  by (relation "measure (\<lambda>(P, q, carries, s). length q)") auto

lemma adder_line_length:
  "adder_line P q cs s = ((q', cs'), s') \<Longrightarrow> length cs' = length cs + length q div 2 \<and> length q' = (if q = [] then 0 else 1)"
  by (induction P q cs s arbitrary: q' cs' s' rule: adder_line.induct) (auto simp: Let_def split: prod.splits)

function adder_lines :: "('s, 'b) psolver \<Rightarrow> 'b list \<Rightarrow> 'b list \<Rightarrow> 's \<Rightarrow> 'b list \<times> 's" where
  "adder_lines P q r s =
     (if q = [] then (r, s)
      else let ((digit, carries), s) = adder_line P q [] s in adder_lines P carries (r @ digit) s)"
  by pat_completeness auto
termination
  by (relation "measure (\<lambda>(P, q, r, s). length q)")
    (auto dest!: adder_line_length [OF sym] simp: neq_Nil_conv)

declare adder_lines.simps [simp del]

text \<open>The digits are copied to a bit vector variable.\<close>

definition digit_eq :: "('s, 'b) psolver \<Rightarrow> 'b bbval \<Rightarrow> nat \<Rightarrow> 'b \<Rightarrow> 's \<Rightarrow> ('b bbval \<times> 's) result" where
  "digit_eq P n u r s =
     rbind (bb_extract P u u n s) (\<lambda>(x, s). rbind (bb_bit1 P s) (\<lambda>(b1, s). rbind (bb_bit0 P s) (\<lambda>(b0, s).
     rbind (bb_ite P (Base r) b1 b0 s) (\<lambda>(d, s). bb_equal P x d s))))"

fun copy_digits :: "('s, 'b) psolver \<Rightarrow> 'b bbval \<Rightarrow> nat \<Rightarrow> 'b list \<Rightarrow> 's \<Rightarrow> 's result" where
  "copy_digits P n u [] s = Inr s"
| "copy_digits P n u (r # rs) s =
     rbind (digit_eq P n u r s) (\<lambda>(e, s). rbind (bb_assertion P e s) (\<lambda>s. copy_digits P n (u + 1) rs s))"

definition adder_any :: "('s, 'b) psolver \<Rightarrow> 'b list \<Rightarrow> 's \<Rightarrow> ('b bbval \<times> 's) result" where
  "adder_any P ps s =
     (let (r, s) = adder_lines P ps [] s in
      rbind (bb_bv_var P (length r) s) (\<lambda>(n, s). rbind (copy_digits P n 0 r s) (\<lambda>s. Inr (n, s))))"

definition adder_compare :: "('s, 'b) psolver \<Rightarrow> card_tag \<Rightarrow> 'b bbval \<Rightarrow> 'b bbval \<Rightarrow> 's \<Rightarrow> ('b bbval \<times> 's) result" where
  "adder_compare P t = (case t of
     eq_tag \<Rightarrow> bb_equal P | le_tag \<Rightarrow> bb_bvule P | lt_tag \<Rightarrow> bb_bvult P | gt_tag \<Rightarrow> bb_bvugt P | ge_tag \<Rightarrow> bb_bvuge P)"

text \<open>\<open>log2(ps.size()) + 1\<close> is \<open>floorlog 2\<close> of the size.\<close>

definition adder_cardinality :: "('s, 'b) psolver \<Rightarrow> card_tag \<Rightarrow> 'b list \<Rightarrow> nat \<Rightarrow> 's \<Rightarrow> ('b \<times> 's) result" where
  "adder_cardinality P t ps c s =
     (if length ps = 0 then Inl AssertionFailure
      else rbind (adder_any P ps s) (\<lambda>(n, s).
           rbind (bb_bvuint P (of_nat c) (floorlog 2 (length ps)) s) (\<lambda>(k, s).
           rbind (adder_compare P t n k s) (\<lambda>(r, s). rbind (get_base r) (\<lambda>b. Inr (b, s))))))"

section \<open>The evaluator\<close>

text \<open>\<open>Evaluator<Cardinality>::eval\<close> for a constraint without an encoding of its own: \<open>enc\<close> is the option
  \<open>cardinality\<close> of the context, \<open>bdd\<close> by default. \<open>cardinality_eq\<close>, \<open>cardinality_geq\<close> and so on evaluate
  such a constraint.\<close>

definition eval_cardinality ::
    "('s, 'b) psolver \<Rightarrow> string \<Rightarrow> card_tag \<Rightarrow> 'b list \<Rightarrow> nat \<Rightarrow> 's \<Rightarrow> ('b \<times> 's) result" where
  "eval_cardinality P enc t ps c s =
     (let (r, s) = cardinality_simplify P t ps c s in
      case r of
        Some r \<Rightarrow> Inr (r, s)
      | None \<Rightarrow>
          if enc = ''adder'' then adder_cardinality P t ps c s
          else if enc = ''bdd'' then bdd_cardinality P t ps c s
          else Inl AssertionFailure)"

fun one_hot_loop :: "('s, 'b) psolver \<Rightarrow> 'b list \<Rightarrow> 'b \<Rightarrow> 'b \<Rightarrow> 's \<Rightarrow> 'b \<times> 's" where
  "one_hot_loop P [] zero_rail one_rail s = (zero_rail, s)"
| "one_hot_loop P [p] zero_rail one_rail s = ps_ite P p one_rail zero_rail s"
| "one_hot_loop P (p # ps) zero_rail one_rail s =
     (let (zero_rail', s) = ps_ite P p one_rail zero_rail s; (f, s) = ps_false P s;
          (one_rail', s) = ps_ite P p f one_rail s
      in one_hot_loop P ps zero_rail' one_rail' s)"

definition one_hot :: "('s, 'b) psolver \<Rightarrow> 'b list \<Rightarrow> 's \<Rightarrow> ('b \<times> 's) result" where
  "one_hot P ps s =
     (if length ps = 0 then Inl AssertionFailure
      else if length ps = 1 then let (t, s) = ps_true P s in Inr (ps_op2 P equal_tag (ps ! 0) t s)
      else let (n, s) = ps_not P (ps ! 0) s in Inr (one_hot_loop P (tl ps) (ps ! 0) n s))"

end
