(* ===== verification/CardCorrect.thy ===== *)
theory CardCorrect
  imports CardConstraints
begin

text \<open>
  Both encodings of a cardinality constraint are correct: the result is true in exactly the models in which
  the number of true Booleans has the relation asked for, and the clauses added rule out no model.
\<close>

context predicate_solver
begin

definition ntrue :: "'m \<Rightarrow> 'b list \<Rightarrow> nat" where
  "ntrue m ps = length (filter (val m) ps)"

lemma ntrue_simps [simp]: "ntrue m [] = 0" "ntrue m (p # ps) = of_bool (val m p) + ntrue m ps"
    "ntrue m (ps @ qs) = ntrue m ps + ntrue m qs"
  by (simp_all add: ntrue_def)

lemma ntrue_le: "ntrue m ps \<le> length ps"
  by (simp add: ntrue_def)

lemma ntrue_full: "ntrue m ps = length ps \<longleftrightarrow> (\<forall>p\<in>set ps. val m p)"
proof (induction ps)
  case (Cons p ps)
  then show ?case using ntrue_le [of m ps] by (cases "val m p") auto
qed simp

lemma ntrue_zero: "ntrue m ps = 0 \<longleftrightarrow> (\<forall>p\<in>set ps. \<not> val m p)"
  by (simp add: ntrue_def filter_empty_conv)

lemma ntrue_take: "k < length ps \<Longrightarrow> ntrue m (take (Suc k) ps) = ntrue m (take k ps) + of_bool (val m (ps ! k))"
  by (simp add: take_Suc_conv_app_nth)

lemma wp_pred_const:
  "env s0 s A E \<Longrightarrow> (\<And>r s'. env s0 s' (insert r A) (\<lambda>m. E m \<and> val m r = b) \<Longrightarrow> Q r s') \<Longrightarrow> wp (pred_const P b s) Q"
  unfolding pred_const_def by (cases b) (simp_all add: wp_true wp_false)

lemma wp_apfst: "wp p (\<lambda>r s. Q (f r) s) \<Longrightarrow> wp (apfst f p) Q"
  by (cases p) simp

lemma wp_and_all:
  assumes "env s0 s A E" and "r \<in> A" and "set ps \<subseteq> A"
    and "\<And>r' s'. env s0 s' (insert r' A) (\<lambda>m. E m \<and> val m r' = (val m r \<and> (\<forall>p\<in>set ps. val m p))) \<Longrightarrow> Q r' s'"
  shows "wp (and_all P ps r s) Q"
  using assms
proof (induction ps arbitrary: r s A E)
  case Nil
  show ?case by (simp, rule Nil.prems(4)) (use Nil.prems(1,2) in \<open>auto simp: insert_absorb\<close>)
next
  case (Cons p ps)
  show ?case unfolding and_all.simps
    by (rule wp_Let_case, rule wp_op2, rule Cons.prems(1), rule Cons.prems(2), use Cons.prems(3) in force)
      (rule Cons.IH, assumption, simp, use Cons.prems(3) in force, rule Cons.prems(4), erule env_mono, auto)
qed

lemma wp_and_none:
  assumes "env s0 s A E" and "r \<in> A" and "set ps \<subseteq> A"
    and "\<And>r' s'. env s0 s' (insert r' A) (\<lambda>m. E m \<and> val m r' = (val m r \<and> (\<forall>p\<in>set ps. \<not> val m p))) \<Longrightarrow> Q r' s'"
  shows "wp (and_none P ps r s) Q"
  using assms
proof (induction ps arbitrary: r s A E)
  case Nil
  show ?case by (simp, rule Nil.prems(4)) (use Nil.prems(1,2) in \<open>auto simp: insert_absorb\<close>)
next
  case (Cons p ps)
  have p: "p \<in> A" "r \<in> A" "set ps \<subseteq> A" using Cons.prems(2,3) by auto
  show ?case unfolding and_none.simps
    by (rule wp_Let_case, rule wp_not, rule Cons.prems(1), rule p, rule wp_Let_case, rule wp_op2, assumption, simp add: p, simp)
      (rule Cons.IH, assumption, simp, use p in force, rule Cons.prems(4), erule env_mono, auto)
qed

section \<open>The easy cases\<close>

lemma wp_simplify:
  assumes "env s0 s A E" and "set ps \<subseteq> A"
    and none: "\<And>s' B. env s0 s' (B \<union> A) E \<Longrightarrow> 0 < length ps \<Longrightarrow>
      (t = eq_tag \<longrightarrow> 0 < c \<and> c < length ps) \<Longrightarrow> (t = le_tag \<longrightarrow> 0 < c \<and> c < length ps) \<Longrightarrow>
      (t = ge_tag \<longrightarrow> 0 < c \<and> c < length ps) \<Longrightarrow> (t = lt_tag \<longrightarrow> c \<le> length ps) \<Longrightarrow> (t = gt_tag \<longrightarrow> c < length ps) \<Longrightarrow>
      Q None s'"
    and some: "\<And>r s'. env s0 s' (insert r A) (\<lambda>m. E m \<and> val m r = card_rel t (ntrue m ps) c) \<Longrightarrow> Q (Some r) s'"
  shows "wp (cardinality_simplify P t ps c s) Q"
proof -
  have start: "wp (ps_true P s) (\<lambda>r s'. env s0 s' (insert r A) (\<lambda>m. E m \<and> val m r))"
    by (rule wp_true [OF assms(1)])
  obtain res s1 where res: "ps_true P s = (res, s1)" by fastforce
  have env: "env s0 s1 (insert res A) (\<lambda>m. E m \<and> val m res)" using start res by simp
  have env0: "env s0 s1 ({res} \<union> A) E" by (rule env_mono [OF env]) auto
  have full: "ntrue m ps = length ps \<longleftrightarrow> (\<forall>p\<in>set ps. val m p)" for m by (rule ntrue_full)
  have zero: "ntrue m ps = 0 \<longleftrightarrow> (\<forall>p\<in>set ps. \<not> val m p)" for m by (rule ntrue_zero)
  note le = ntrue_le [of _ ps]
  note le' = le_antisym [OF le]
  have all: "wp (and_all P ps res s1) (\<lambda>r. Q (Some r))" if "\<And>m. card_rel t (ntrue m ps) c = (ntrue m ps = length ps)"
    by (rule wp_and_all [OF env]) (simp, use assms(2) in force, rule some, erule env_mono, auto simp: that full)
  have none': "wp (and_none P ps res s1) (\<lambda>r. Q (Some r))" if "\<And>m. card_rel t (ntrue m ps) c = (ntrue m ps = 0)"
    by (rule wp_and_none [OF env]) (simp, use assms(2) in force, rule some, erule env_mono, auto simp: that zero)
  have false: "wp (ps_false P s1) (\<lambda>r. Q (Some r))" if "\<And>m. \<not> card_rel t (ntrue m ps) c"
    by (rule wp_false [OF env], rule some, erule env_mono) (auto simp: that)
  have true: "Q (Some res) s1" if "\<And>m. card_rel t (ntrue m ps) c"
    by (rule some, rule env_mono [OF env]) (auto simp: that)
  have xor: "wp (ps_op2 P xor_tag (ps ! 0) (ps ! 1) s1) (\<lambda>r. Q (Some r))" if n: "length ps = 2" "c = 1" "t = eq_tag"
  proof -
    obtain p q where ps: "ps = [p, q]" using n(1) by (auto simp: numeral_2_eq_2 length_Suc_conv)
    show ?thesis by (rule wp_op2 [OF env], use assms(2) ps in force, use assms(2) ps in force, rule some, erule env_mono)
      (auto simp: ps n)
  qed
  have out: "\<not> length ps < ntrue m ps" "length ps < c \<Longrightarrow> \<not> c \<le> ntrue m ps" "length ps \<le> c \<Longrightarrow> \<not> c < ntrue m ps"
    "length ps < c \<Longrightarrow> ntrue m ps < c" "length ps \<le> c \<Longrightarrow> ntrue m ps \<le> c" for m
    using le [of m] by auto
  show ?thesis
    unfolding cardinality_simplify_def res Let_def prod.case
    by (cases t; simp; (intro conjI impI)?)
      (auto intro!: wp_apfst all none' false true xor none [OF env0] simp: not_less not_le le' out xor [simplified])
qed

section \<open>The tableau\<close>

lemma formula_law:
  assumes "wfs s" and r: "ok s r" and "formula P n r s = (p, s')"
  shows "extends wfs ok mdl val s s' \<and> ok s' p \<and> (\<forall>m. mdl s' m \<longrightarrow> val m p = val m r)"
proof (cases "n > 0")
  case True
  obtain p1 s1 where v: "ps_var P s = (p1, s1)" by fastforce
  obtain e s2 where e: "ps_op2 P equal_tag p1 r s1 = (e, s2)" by fastforce
  have s': "p = p1" "s' = ps_assertion P e s2" using assms(3) True by (simp_all add: formula_def v e)
  have e1: "extends wfs ok mdl val s s1" "ok s1 p1" using var_law [OF assms(1) v] by auto
  note w1 = extendsD(1) [OF e1(1)]
  have E: "extends wfs ok mdl val s1 s2" "ok s2 e" "\<And>m. mdl s2 m \<Longrightarrow> val m e = (val m p1 = val m r)"
    using op2_law [OF w1 e1(2) extendsD(2) [OF e1(1) r] e] by auto
  note A = assertion_law [OF extendsD(1) [OF E(1)] E(2)]
  have ok: "ok s' b" if "ok s1 b" for b using A extendsD(2) [OF E(1) that] by (simp add: s')
  have "\<exists>m'. mdl s' m' \<and> (\<forall>b. ok s b \<longrightarrow> val m' b = val m b)" if m: "mdl s m" for m
  proof -
    obtain m1 where m1: "mdl s1 m1" "\<forall>b. ok s b \<longrightarrow> val m1 b = val m b" "val m1 p1 = val m r"
      using var_free [OF assms(1) v m, of "val m r"] by blast
    obtain m2 where m2: "mdl s2 m2" "\<forall>b. ok s1 b \<longrightarrow> val m2 b = val m1 b"
      using E(1) m1(1) unfolding extends_def by blast
    have "val m2 p1 = val m2 r" using m1 m2 e1 r extendsD(2) [OF e1(1) r] by simp
    then have "mdl s' m2" using A E(3) m2(1) by (simp add: s')
    then show ?thesis using m1(2) m2(2) extendsD(2) [OF e1(1)] by (intro exI [of _ m2]) simp
  qed
  moreover have "mdl s m \<and> val m p1 = val m r" if "mdl s' m" for m
    using that A E(3) extendsD(4) [OF e1(1)] extendsD(4) [OF E(1)] by (auto simp: s')
  ultimately show ?thesis
    using A ok extendsD(2) [OF e1(1)] e1(2) unfolding extends_def by (simp add: s')
qed (use assms in \<open>simp add: formula_def extends_refl\<close>)

lemma wp_formula:
  "env s0 s A E \<Longrightarrow> r \<in> A \<Longrightarrow> (\<And>p s'. env s0 s' (insert p A) (\<lambda>m. E m \<and> val m p = val m r) \<Longrightarrow> Q p s') \<Longrightarrow>
    wp (formula P n r s) Q"
  by (rule env_call [where F = "\<lambda>p m. val m p = val m r"]) (assumption | rule formula_law | blast)+

text \<open>Cell \<open>(u, v)\<close> compares the number of true ones among the first \<open>u + v\<close> Booleans with \<open>u\<close>.\<close>

definition cell_val :: "'b list \<Rightarrow> bool \<Rightarrow> bool \<Rightarrow> bool \<Rightarrow> nat \<Rightarrow> nat \<Rightarrow> 'm \<Rightarrow> bool" where
  "cell_val ps lt eq gt v u m =
     (let k = ntrue m (take (u + v) ps) in if k < u then lt else if k = u then eq else gt)"

definition row_ok :: "'b list \<Rightarrow> bool \<Rightarrow> bool \<Rightarrow> bool \<Rightarrow> nat \<Rightarrow> 'b list \<Rightarrow> 'm \<Rightarrow> bool" where
  "row_ok ps lt eq gt v row m \<longleftrightarrow> (\<forall>u<length row. val m (row ! u) = cell_val ps lt eq gt v u m)"

lemma cell_val_step:
  assumes "u + v < length ps"
  shows "cell_val ps lt eq gt (Suc v) 0 m = (if val m (ps ! v) then gt else cell_val ps lt eq gt v 0 m)"
    and "cell_val ps lt eq gt 0 (Suc u) m = (if val m (ps ! u) then cell_val ps lt eq gt 0 u m else lt)"
    and "Suc (u + v) < length ps \<Longrightarrow> cell_val ps lt eq gt (Suc v) (Suc u) m =
      (if val m (ps ! Suc (u + v)) then cell_val ps lt eq gt (Suc v) u m else cell_val ps lt eq gt v (Suc u) m)"
  using assms ntrue_le [of m "take u ps"] by (auto simp: cell_val_def Let_def ntrue_take min_def)

lemma wp_tableau_cell:
  assumes env: "env s0 s A E" and ps: "set ps \<subseteq> A" "c < length ps" and cur: "set cur \<subseteq> A" "length cur = u"
    and prev: "set prev \<subseteq> A" "0 < v \<longrightarrow> length prev = c + 1" and u: "u \<le> c" and v: "u + v \<le> length ps"
    and E: "\<And>m. E m \<Longrightarrow> row_ok ps lt eq gt v cur m" "\<And>m. E m \<Longrightarrow> 0 < v \<Longrightarrow> row_ok ps lt eq gt (v - 1) prev m"
    and Q: "\<And>r s'. env s0 s' (insert r A) (\<lambda>m. E m \<and> val m r = cell_val ps lt eq gt v u m) \<Longrightarrow> Q r s'"
  shows "wp (tableau_cell P ps lt eq gt v u prev cur s) Q"
proof -
  have inA: "i < length ps \<Longrightarrow> ps ! i \<in> A" "i < length cur \<Longrightarrow> cur ! i \<in> A" "i < length prev \<Longrightarrow> prev ! i \<in> A" for i
    using ps(1) cur(1) prev(1) by (auto dest: nth_mem)
  have fin: "wp (formula P (u + v) r s') Q" if "env s0 s' (insert r B) F" "A \<subseteq> B"
    and "\<And>m. F m \<Longrightarrow> E m \<and> val m r = cell_val ps lt eq gt v u m" for r s' B F
    by (rule wp_formula [OF that(1)], simp, rule Q, erule env_mono) (use that(2,3) in auto)
  consider "u = 0" "v = 0" | v' where "u = 0" "v = Suc v'" | u' where "u = Suc u'" "v = 0"
    | u' v' where "u = Suc u'" "v = Suc v'" by (cases u; cases v) auto
  then show ?thesis
  proof cases
    case 1
    have eq: "tableau_cell P ps lt eq gt v u prev cur s = (let (r, s) = pred_const P eq s in formula P (u + v) r s)"
      by (simp add: tableau_cell_def 1)
    show ?thesis unfolding eq
      by (rule wp_Let_case, rule wp_pred_const [OF env], rule fin, assumption, blast) (simp add: cell_val_def 1)
  next
    case 2
    have mem: "ps ! v' \<in> A" "prev ! 0 \<in> A" using inA v prev(2) 2 by auto
    have eq: "tableau_cell P ps lt eq gt v u prev cur s =
        (let (g, s) = pred_const P gt s; (r, s) = ps_ite P (ps ! v') g (prev ! 0) s in formula P (u + v) r s)"
      by (simp add: tableau_cell_def 2 split: prod.split)
    have cell: "cell_val ps lt eq gt v u m = (if val m (ps ! v') then gt else val m (prev ! 0))" if "E m" for m
      using E(2) [OF that] cell_val_step(1) [of 0 v' ps] v prev(2) 2 by (simp add: row_ok_def)
    show ?thesis unfolding eq
      by (rule wp_Let_case, rule wp_pred_const [OF env], rule wp_Let_case, rule wp_ite, assumption,
          simp add: mem, simp, simp add: mem, rule fin, assumption, blast) (simp add: cell)
  next
    case 3
    have mem: "ps ! u' \<in> A" "cur ! u' \<in> A" using inA v cur(2) 3 by auto
    have eq: "tableau_cell P ps lt eq gt v u prev cur s =
        (let (l, s) = pred_const P lt s; (r, s) = ps_ite P (ps ! u') (cur ! u') l s in formula P (u + v) r s)"
      by (simp add: tableau_cell_def 3 split: prod.split)
    have cell: "cell_val ps lt eq gt v u m = (if val m (ps ! u') then val m (cur ! u') else lt)" if "E m" for m
      using E(1) [OF that] cell_val_step(2) [of u' 0 ps] v cur(2) 3 by (simp add: row_ok_def)
    show ?thesis unfolding eq
      by (rule wp_Let_case, rule wp_pred_const [OF env], rule wp_Let_case, rule wp_ite, assumption,
          simp add: mem, simp add: mem, simp, rule fin, assumption, blast) (simp add: cell)
  next
    case 4
    have mem: "ps ! Suc (u' + v') \<in> A" "cur ! u' \<in> A" "prev ! u \<in> A" using inA u v cur(2) prev(2) 4 by auto
    have eq: "tableau_cell P ps lt eq gt v u prev cur s =
        (let (r, s) = ps_ite P (ps ! Suc (u' + v')) (cur ! u') (prev ! u) s in formula P (u + v) r s)"
      by (simp add: tableau_cell_def 4)
    have cell: "cell_val ps lt eq gt v u m = (if val m (ps ! Suc (u' + v')) then val m (cur ! u') else val m (prev ! u))"
      if "E m" for m
      using E(1) [OF that] E(2) [OF that] cell_val_step(3) [of u' v' ps] u v cur(2) prev(2) 4 by (simp add: row_ok_def)
    show ?thesis unfolding eq
      by (rule wp_Let_case, rule wp_ite [OF env]) (simp add: mem, simp add: mem, simp add: mem, rule fin, assumption, blast, simp add: cell)
  qed
qed

lemma row_ok_snoc: "row_ok ps lt eq gt v (row @ [r]) m \<longleftrightarrow>
    row_ok ps lt eq gt v row m \<and> val m r = cell_val ps lt eq gt v (length row) m"
  by (auto simp: row_ok_def nth_append less_Suc_eq)

lemma wp_tableau_row:
  assumes "env s0 s A E" and "set ps \<subseteq> A" "c < length ps" and "set cur \<subseteq> A" "length cur = u"
    and "set prev \<subseteq> A" "0 < v \<longrightarrow> length prev = c + 1" and "u \<le> c + 1" and "c + v \<le> length ps"
    and "\<And>m. E m \<Longrightarrow> row_ok ps lt eq gt v cur m" "\<And>m. E m \<Longrightarrow> 0 < v \<Longrightarrow> row_ok ps lt eq gt (v - 1) prev m"
    and "\<And>row s'. length row = c + 1 \<Longrightarrow> env s0 s' (set row \<union> A) (\<lambda>m. E m \<and> row_ok ps lt eq gt v row m) \<Longrightarrow> Q row s'"
  shows "wp (tableau_row P ps lt eq gt v [u..<c + 1] prev cur s) Q"
  using assms
proof (induction "c + 1 - u" arbitrary: u cur s A E Q)
  case 0
  then have u: "u = c + 1" by simp
  show ?case by (simp add: u, rule "0.prems"(12)) (use "0.prems"(1,4,5,10) u in \<open>auto simp: Un_absorb1 intro: env_mono\<close>)
next
  case (Suc n)
  then have u: "u \<le> c" "[u..<c + 1] = u # [Suc u..<c + 1]" by (auto simp: upt_rec)
  show ?case unfolding u(2) tableau_row.simps
  proof (rule wp_Let_case, rule wp_tableau_cell [OF Suc.prems(1-7)])
    fix r s' assume env: "env s0 s' (insert r A) (\<lambda>m. E m \<and> val m r = cell_val ps lt eq gt v u m)"
    show "wp (tableau_row P ps lt eq gt v [Suc u..<c + 1] prev (cur @ [r]) s') Q"
    proof (rule Suc.hyps(1) [OF _ env])
      fix row s'' assume "length row = c + 1"
        "env s0 s'' (set row \<union> insert r A) (\<lambda>m. (E m \<and> val m r = cell_val ps lt eq gt v u m) \<and> row_ok ps lt eq gt v row m)"
      then show "Q row s''" by (intro Suc.prems(12)) (auto elim!: env_mono)
    qed (use Suc.prems Suc.hyps(2) u(1) in \<open>auto simp: row_ok_snoc\<close>)
  qed (use Suc.prems u in auto)
qed

lemma wp_tableau:
  assumes "env s0 s A E" and "set ps \<subseteq> A" "c < length ps" and "set prev \<subseteq> A" "0 < v \<longrightarrow> length prev = c + 1"
    and "v \<le> w" and "c + w \<le> Suc (length ps)" and "0 < w"
    and "\<And>m. E m \<Longrightarrow> 0 < v \<Longrightarrow> row_ok ps lt eq gt (v - 1) prev m"
    and "\<And>row s' B. length row = c + 1 \<Longrightarrow> env s0 s' (set row \<union> A) (\<lambda>m. E m \<and> row_ok ps lt eq gt (w - 1) row m) \<Longrightarrow> Q row s'"
  shows "wp (tableau P ps lt eq gt c [v..<w] prev s) Q"
  using assms
proof (induction "w - v" arbitrary: v prev s A E Q)
  case 0
  then have v: "v = w" by simp
  show ?case by (simp add: v, rule "0.prems"(10)) (use "0.prems"(1,4,5,8,9) v in \<open>auto simp: Un_absorb1 intro: env_mono\<close>)
next
  case (Suc n)
  then have v: "v < w" "[v..<w] = v # [Suc v..<w]" by (auto simp: upt_rec)
  show ?case unfolding v(2) tableau.simps
  proof (rule wp_Let_case, rule wp_tableau_row [OF Suc.prems(1-3) _ _ Suc.prems(4,5)])
    fix row s' assume len: "length row = c + 1" and env: "env s0 s' (set row \<union> A) (\<lambda>m. E m \<and> row_ok ps lt eq gt v row m)"
    show "wp (tableau P ps lt eq gt c [Suc v..<w] row s') Q"
    proof (rule Suc.hyps(1) [OF _ env])
      fix row' s'' assume "length row' = c + 1"
        "env s0 s'' (set row' \<union> (set row \<union> A)) (\<lambda>m. (E m \<and> row_ok ps lt eq gt v row m) \<and> row_ok ps lt eq gt (w - 1) row' m)"
      then show "Q row' s''" by (intro Suc.prems(10)) (auto elim!: env_mono)
    qed (use Suc.prems Suc.hyps(2) v(1) len in auto)
  qed (use Suc.prems v in \<open>auto simp: row_ok_def\<close>)
qed

lemma wpr_bdd_any:
  assumes "env s0 s A E" and "set ps \<subseteq> A" and c: "0 < c" "c < length ps"
    and Q: "\<And>r s'. env s0 s' (insert r A) (\<lambda>m. E m \<and>
      val m r = (if ntrue m ps < c then lt else if ntrue m ps = c then eq else gt)) \<Longrightarrow> Q r s'"
  shows "wpr (bdd_any P ps c lt eq gt s) Q"
proof -
  have guard: "length ps > 0 \<and> c > 0 \<and> length ps > c" using c by auto
  show ?thesis
    unfolding bdd_any_def if_P [OF guard]
  proof (rule wpr_Let_case, rule wp_tableau [OF assms(1,2)])
    fix row s' assume row: "length row = c + 1"
      and env: "env s0 s' (set row \<union> A) (\<lambda>m. E m \<and> row_ok ps lt eq gt (length ps - c + 1 - 1) row m)"
    have last: "val m (row ! c) = (if ntrue m ps < c then lt else if ntrue m ps = c then eq else gt)"
      if "row_ok ps lt eq gt (length ps - c + 1 - 1) row m" for m
      using that row c by (simp add: row_ok_def cell_val_def Let_def)
    have "row ! c \<in> set row" using row by simp
    then show "wpr (Inr (row ! c, s')) Q"
      by (simp, intro Q env_mono [OF env]) (auto simp: last)
  qed (use c in auto)
qed

lemma wpr_bdd_direct:
  assumes "env s0 s A E" and "set ps \<subseteq> A" and "0 < c" "c < length ps" and t: "t \<in> {eq_tag, le_tag, ge_tag}"
    and Q: "\<And>r s'. env s0 s' (insert r A) (\<lambda>m. E m \<and> val m r = card_rel t (ntrue m ps) c) \<Longrightarrow> Q r s'"
  shows "wpr (bdd_direct P t ps c s) Q"
  using t unfolding bdd_direct_def
  by (elim insertE emptyE; simp only: card_tag.case) (rule wpr_bdd_any [OF assms(1-4)], rule Q, erule env_mono, auto)+

lemma wpr_bdd_simplified:
  assumes "env s0 s A E" and "set ps \<subseteq> A" and t: "t \<in> {le_tag, ge_tag}"
    and Q: "\<And>r s'. env s0 s' (insert r A) (\<lambda>m. E m \<and> val m r = card_rel t (ntrue m ps) c) \<Longrightarrow> Q r s'"
  shows "wpr (bdd_simplified P t ps c s) Q"
  unfolding bdd_simplified_def
proof (rule wpr_Let_case, rule wp_simplify [OF assms(1,2)])
  fix s' B assume env: "env s0 s' (B \<union> A) E"
    and c: "t = le_tag \<longrightarrow> 0 < c \<and> c < length ps" "t = ge_tag \<longrightarrow> 0 < c \<and> c < length ps"
  have "wpr (bdd_direct P t ps c s') Q"
  proof (rule wpr_bdd_direct [OF env])
    fix r s'' assume "env s0 s'' (insert r (B \<union> A)) (\<lambda>m. E m \<and> val m r = card_rel t (ntrue m ps) c)"
    then show "Q r s''" by (intro Q) (erule env_mono, auto)
  qed (use assms(2) t c in auto)
  then show "wpr (case None of None \<Rightarrow> bdd_direct P t ps c s' | Some r \<Rightarrow> Inr (r, s')) Q" by simp
qed (simp add: Q)

lemma wpr_bdd_cardinality:
  assumes "env s0 s A E" and "set ps \<subseteq> A" and "0 < length ps"
    and c: "t \<in> {eq_tag, le_tag, ge_tag} \<longrightarrow> 0 < c \<and> c < length ps"
    and Q: "\<And>r s'. env s0 s' (insert r A) (\<lambda>m. E m \<and> val m r = card_rel t (ntrue m ps) c) \<Longrightarrow> Q r s'"
  shows "wpr (bdd_cardinality P t ps c s) Q"
proof (cases "t = lt_tag \<or> t = gt_tag")
  case True
  have neg: "wpr (rbind (bdd_simplified P t' ps c s) (\<lambda>(r, s). Inr (ps_not P r s))) Q"
    if "t' \<in> {le_tag, ge_tag}" "\<And>k. card_rel t k c = (\<not> card_rel t' k c)" for t'
  proof (rule wpr_rbind, rule wpr_bdd_simplified [OF assms(1,2) that(1)], simp only: prod.case)
    fix r s' assume env: "env s0 s' (insert r A) (\<lambda>m. E m \<and> val m r = card_rel t' (ntrue m ps) c)"
    have "wp (ps_not P r s') Q" by (rule wp_not [OF env], simp, rule Q, erule env_mono) (auto simp: that(2))
    then show "wpr (Inr (ps_not P r s')) Q" by (cases "ps_not P r s'") simp
  qed
  show ?thesis using True assms(3) unfolding bdd_cardinality_def
    by (elim disjE) (auto simp: not_le intro!: neg)
next
  case False
  then have t: "t \<in> {eq_tag, le_tag, ge_tag}" by (cases t) auto
  then have "bdd_cardinality P t ps c s = bdd_direct P t ps c s" using assms(3) by (auto simp: bdd_cardinality_def)
  moreover have "wpr (bdd_direct P t ps c s) Q" by (rule wpr_bdd_direct [OF assms(1,2) _ _ t]) (use c t Q in auto)
  ultimately show ?thesis by simp
qed

section \<open>The adder network\<close>

lemma wp_adder_line:
  assumes "env s0 s A E" and "set q \<subseteq> A" and "set cs \<subseteq> A" and "q \<noteq> []"
    and "\<And>d cs' s'. length cs' = length cs + length q div 2 \<Longrightarrow> env s0 s' (insert d (set cs' \<union> A))
      (\<lambda>m. E m \<and> of_bool (val m d) + 2 * ntrue m cs' = ntrue m q + 2 * ntrue m cs) \<Longrightarrow> Q ([d], cs') s'"
  shows "wp (adder_line P q cs s) Q"
  using assms
proof (induction "length q" arbitrary: q cs s A E rule: less_induct)
  case less
  note env = less.prems(1)
  consider x where "q = [x]" | x y where "q = [x, y]" | x y z q' where "q = x # y # z # q'"
    using less.prems(4) by (metis list.exhaust)
  then show ?case
  proof cases
    case 1
    show ?thesis by (simp add: 1, rule less.prems(5)) (use env less.prems(2,3) 1 in \<open>auto simp: insert_absorb Un_absorb1\<close>)
  next
    case 2
    have in_A [simp]: "x \<in> A" "y \<in> A" using less.prems(2) 2 by auto
    show ?thesis unfolding 2 adder_line.simps
      by ((rule wp_Let_case, rule wp_op2, (rule env | assumption), (simp; fail)+)+, simp only: wp_pair, rule less.prems(5))
        (simp add: 2, erule env_mono, use less.prems(3) in \<open>auto simp: 2\<close>)
  next
    case 3
    have in_A [simp]: "x \<in> A" "y \<in> A" "z \<in> A" "set q' \<subseteq> A" "set cs \<subseteq> A" using less.prems(2,3) 3 by auto
    have fin: "wp (adder_line P (q' @ [sm]) (cs @ [ca]) s') Q"
      if "env s0 s' B F" "insert sm (insert ca A) \<subseteq> B"
        "\<And>m. F m \<Longrightarrow> E m \<and> of_bool (val m sm) + 2 * of_bool (val m ca) = of_bool (val m x) + of_bool (val m y) + (of_bool (val m z) :: nat)"
      for sm ca s' B F
    proof (rule less.hyps)
      show "env s0 s' (insert sm (insert ca A))
        (\<lambda>m. E m \<and> of_bool (val m sm) + 2 * of_bool (val m ca) = of_bool (val m x) + of_bool (val m y) + (of_bool (val m z) :: nat))"
        by (rule env_mono [OF that(1,2)]) (use that(3) in auto)
      fix d cs' s''
      assume len: "length cs' = length (cs @ [ca]) + length (q' @ [sm]) div 2"
        and env': "env s0 s'' (insert d (set cs' \<union> insert sm (insert ca A)))
          (\<lambda>m. (E m \<and> of_bool (val m sm) + 2 * of_bool (val m ca) = of_bool (val m x) + of_bool (val m y) + (of_bool (val m z) :: nat)) \<and>
            of_bool (val m d) + 2 * ntrue m cs' = ntrue m (q' @ [sm]) + 2 * ntrue m (cs @ [ca]))"
      show "Q ([d], cs') s''"
        by (rule less.prems(5)) (use len 3 in simp, rule env_mono [OF env'], auto simp: 3)
    qed (use 3 less.prems(2,3) in \<open>auto simp: subset_iff\<close>)
    show ?thesis unfolding 3 adder_line.simps
      by ((rule wp_Let_case, rule wp_op2, (rule env | assumption), (simp; fail)+)+, rule wp_Let_case, rule wp_ite, assumption,
          (simp; fail)+, rule fin, assumption, blast) auto
  qed
qed

lemma wp_adder_lines:
  assumes "env s0 s A E" and "set q \<subseteq> A"
    and "\<And>ds s'. length ds = floorlog 2 (length q) \<Longrightarrow> env s0 s' (set ds \<union> A) (\<lambda>m. E m \<and> bnum m ds = ntrue m q) \<Longrightarrow> Q (r @ ds) s'"
  shows "wp (adder_lines P q r s) Q"
  using assms
proof (induction "length q" arbitrary: q r s A E Q rule: less_induct)
  case less
  show ?case
  proof (cases "q = []")
    case True
    then show ?thesis using less.prems(3) [of "[]" s] less.prems(1) by (simp add: adder_lines.simps floorlog_def)
  next
    case False
    show ?thesis
      unfolding adder_lines.simps [of P q] if_not_P [OF False]
    proof (rule wp_Let_case, rule wp_adder_line [OF less.prems(1,2) _ False], simp, simp only: prod.case)
      fix d cs' s'
      assume len: "length cs' = length ([] :: 'b list) + length q div 2" and env: "env s0 s' (insert d (set cs' \<union> A))
        (\<lambda>m. E m \<and> of_bool (val m d) + 2 * ntrue m cs' = ntrue m q + 2 * ntrue m [])"
      show "wp (adder_lines P cs' (r @ [d]) s') Q"
      proof (rule less.hyps [OF _ env])
        fix ds s'' assume l: "length ds = floorlog 2 (length cs')" and env': "env s0 s'' (set ds \<union> insert d (set cs' \<union> A))
          (\<lambda>m. (E m \<and> of_bool (val m d) + 2 * ntrue m cs' = ntrue m q + 2 * ntrue m []) \<and> bnum m ds = ntrue m cs')"
        have "length (d # ds) = floorlog 2 (length q)"
          using l len False compute_floorlog [of 2 "length q"] by simp
        then have "Q (r @ d # ds) s''"
          by (rule less.prems(3)) (rule env_mono [OF env'], auto)
        then show "Q ((r @ [d]) @ ds) s''" by simp
      qed (use len False in auto)
    qed
  qed
qed

lemma wpr_digit_eq:
  assumes "env s0 s A E" and "set ns \<subseteq> A" and "r \<in> A" and "u < length ns"
    and Q: "\<And>e s'. env s0 s' (insert e A) (\<lambda>m. E m \<and> val m e = (val m (ns ! u) = val m r)) \<Longrightarrow> Q (Base e) s'"
  shows "wpr (digit_eq P (BV ns) u r s) Q"
proof -
  have one: "take (u + 1 - u) (drop u ns) = [ns ! u]" using assms(4) by (simp add: take_Suc_conv_app_nth hd_drop_conv_nth take_Suc)
  have ok: "u \<le> u + 1 \<and> u + 1 \<le> length ns" using assms(4) by simp
  have x: "ns ! u \<in> A" using assms(2,4) by auto
  show ?thesis
    unfolding digit_eq_def bb_extract_def bv_getter.simps bb_bit1_def bb_bit0_def rbind_Inr if_P [OF ok] one prod.case
    by (rule wpr_rbind, rule wpr_Let_case, rule wp_true [OF assms(1)], simp only: wpr_Inr prod.case, rule wpr_rbind, rule wpr_Let_case,
        rule wp_false, assumption, simp only: wpr_Inr prod.case, rule wpr_rbind, rule wpr_ite_bv, assumption, simp add: assms(3), simp, simp, simp,
        simp only: prod.case, rule wpr_equal_bv, assumption, simp add: x, blast, simp, rule Q, erule env_mono, blast)
      (auto simp: length_Suc_conv)
qed

lemma copy_digits_law:
  assumes "wfs s" and "\<forall>n\<in>set ns. ok s n" and "\<forall>r\<in>set rs. ok s r" and "u + length rs = length ns"
  shows "\<exists>s'. copy_digits P (BV ns) u rs s = Inr s' \<and> wfs s' \<and> (\<forall>b. ok s b \<longrightarrow> ok s' b) \<and>
    (\<forall>m. mdl s' m \<longrightarrow> mdl s m \<and> bvals m (drop u ns) = bvals m rs) \<and>
    (\<forall>m. mdl s m \<longrightarrow> bvals m (drop u ns) = bvals m rs \<longrightarrow> (\<exists>m'. mdl s' m' \<and> (\<forall>b. ok s b \<longrightarrow> val m' b = val m b)))"
  using assms
proof (induction rs arbitrary: u s)
  case (Cons r rs)
  have u: "u < length ns" "drop u ns = ns ! u # drop (u + 1) ns" using Cons.prems(4) by (simp_all add: Cons_nth_drop_Suc)
  have "wpr (digit_eq P (BV ns) u r s) (\<lambda>x s'. \<exists>e. x = Base e \<and> env s s' (insert e (set ns \<union> {r})) (\<lambda>m. True \<and> val m e = (val m (ns ! u) = val m r)))"
    by (rule wpr_digit_eq [where A = "set ns \<union> {r}"], rule env_start) (use Cons.prems u in auto)
  then obtain e s1 where d: "digit_eq P (BV ns) u r s = Inr (Base e, s1)"
    and env: "env s s1 (insert e (set ns \<union> {r})) (\<lambda>m. True \<and> val m e = (val m (ns ! u) = val m r))"
    by (auto simp: wpr_def)
  then have e1: "extends wfs ok mdl val s s1" and "ok s1 e" and ve: "\<And>m. mdl s1 m \<Longrightarrow> val m e = (val m (ns ! u) = val m r)"
    by (simp_all add: env_def)
  let ?s2 = "ps_assertion P e s1"
  note A = assertion_law [OF extendsD(1) [OF e1] \<open>ok s1 e\<close>]
  have ok2: "ok ?s2 b" if "ok s b" for b using A extendsD(2) [OF e1 that] by simp
  obtain s' where s': "copy_digits P (BV ns) (u + 1) rs ?s2 = Inr s'" "wfs s'" "\<forall>b. ok ?s2 b \<longrightarrow> ok s' b"
    "\<And>m. mdl s' m \<Longrightarrow> mdl ?s2 m \<and> bvals m (drop (u + 1) ns) = bvals m rs"
    "\<And>m. mdl ?s2 m \<Longrightarrow> bvals m (drop (u + 1) ns) = bvals m rs \<Longrightarrow> \<exists>m'. mdl s' m' \<and> (\<forall>b. ok ?s2 b \<longrightarrow> val m' b = val m b)"
    using Cons.IH [of ?s2 "u + 1"] Cons.prems A ok2 by auto
  have "mdl s m \<and> bvals m (drop u ns) = bvals m (r # rs)" if "mdl s' m" for m
    using s'(4) [OF that] A ve [of m] extendsD(4) [OF e1] u(2) by auto
  moreover have "\<exists>m'. mdl s' m' \<and> (\<forall>b. ok s b \<longrightarrow> val m' b = val m b)"
    if m: "mdl s m" "bvals m (drop u ns) = bvals m (r # rs)" for m
  proof -
    obtain m1 where m1: "mdl s1 m1" "\<forall>b. ok s b \<longrightarrow> val m1 b = val m b" using e1 m(1) unfolding extends_def by blast
    have eq: "bvals m1 (drop u ns) = bvals m (drop u ns)" "bvals m1 (r # rs) = bvals m (r # rs)"
      using m1(2) Cons.prems(2,3) by (auto dest: in_set_dropD)
    then have "bvals m1 (drop u ns) = bvals m1 (r # rs)" using m(2) by simp
    then have "val m1 (ns ! u) = val m1 r" "bvals m1 (drop (u + 1) ns) = bvals m1 rs" using u(2) by simp_all
    then obtain m' where "mdl s' m'" "\<forall>b. ok ?s2 b \<longrightarrow> val m' b = val m1 b" using s'(5) [of m1] A m1(1) ve by auto
    then show ?thesis using m1(2) ok2 by (intro exI [of _ m']) simp
  qed
  ultimately show ?case using d s'(1-3) ok2 by (simp add: bb_assertion_def)
qed auto

lemma wpr_adder_any:
  assumes "env s0 s A E" and "set ps \<subseteq> A" and "ps \<noteq> []"
    and Q: "\<And>ns s'. length ns = floorlog 2 (length ps) \<Longrightarrow> env s0 s' (set ns \<union> A) (\<lambda>m. E m \<and> bnum m ns = ntrue m ps) \<Longrightarrow> Q (BV ns) s'"
  shows "wpr (adder_any P ps s) Q"
  unfolding adder_any_def
proof (rule wpr_Let_case, rule wp_adder_lines [OF assms(1,2)])
  fix ds s1 assume len: "length ds = floorlog 2 (length ps)"
    and env: "env s0 s1 (set ds \<union> A) (\<lambda>m. E m \<and> bnum m ds = ntrue m ps)"
  obtain ns s2 where v: "var_loop P (length ds) s1 = (ns, s2)" by fastforce
  have w1: "wfs s1" and ds: "\<forall>d\<in>set ds. ok s1 d" and e01: "extends wfs ok mdl val s0 s1" using env by (auto simp: env_def)
  note free = var_loop_free [OF w1 v]
  then have e12: "extends wfs ok mdl val s1 s2" and ns: "length ns = length ds" "\<forall>n\<in>set ns. ok s2 n" by blast+
  obtain s3 where s3: "copy_digits P (BV ns) 0 ds s2 = Inr s3" "wfs s3" "\<forall>b. ok s2 b \<longrightarrow> ok s3 b"
    "\<And>m. mdl s3 m \<Longrightarrow> mdl s2 m \<and> bvals m ns = bvals m ds"
    "\<And>m. mdl s2 m \<Longrightarrow> bvals m ns = bvals m ds \<Longrightarrow> \<exists>m'. mdl s3 m' \<and> (\<forall>b. ok s2 b \<longrightarrow> val m' b = val m b)"
    using copy_digits_law [OF extendsD(1) [OF e12] ns(2), of ds 0] ds extendsD(2) [OF e12] ns(1) by auto
  have "\<exists>m'. mdl s3 m' \<and> (\<forall>b. ok s1 b \<longrightarrow> val m' b = val m b)" if m: "mdl s1 m" for m
  proof -
    have "length (bvals m ds) = length ds" by simp
    then obtain m2 where m2: "mdl s2 m2" "\<forall>b. ok s1 b \<longrightarrow> val m2 b = val m b" "bvals m2 ns = bvals m ds"
      using free m by blast
    have "bvals m2 ds = bvals m ds" using m2(2) ds by simp
    then obtain m3 where "mdl s3 m3" "\<forall>b. ok s2 b \<longrightarrow> val m3 b = val m2 b" using s3(5) [OF m2(1)] m2(3) by auto
    then show ?thesis using m2(2) extendsD(2) [OF e12] by (intro exI [of _ m3]) simp
  qed
  then have e13: "extends wfs ok mdl val s1 s3"
    using s3(2-4) extendsD(2) [OF e12] extendsD(4) [OF e12] unfolding extends_def by blast
  have "env s0 s3 (set ns \<union> A) (\<lambda>m. E m \<and> bnum m ns = ntrue m ps)"
    using env extends_trans [OF e01 e13] s3(2-4) ns(2) extendsD(2) [OF e12] extendsD(4) [OF e12] unfolding env_def by auto
  then have "Q (BV ns) s3" using Q [of ns s3] len ns(1) by simp
  then show "wpr (rbind (bb_bv_var P (length ([] @ ds)) s1) (\<lambda>(n, s). rbind (copy_digits P n 0 ([] @ ds) s) (\<lambda>s. Inr (n, s)))) Q"
    by (simp only: append_Nil bb_bv_var_def v Let_def prod.case rbind_Inr s3(1) wpr_Inr)
qed

lemma wpr_adder_compare:
  assumes "env s0 s A E" and "set a \<subseteq> A" and "set b \<subseteq> A" and "length a = length b" and "a \<noteq> []"
    and "\<And>r s'. env s0 s' (insert r A) (\<lambda>m. E m \<and> val m r = card_rel t (bnum m a) (bnum m b)) \<Longrightarrow> Q (Base r) s'"
  shows "wpr (adder_compare P t (BV a) (BV b) s) Q"
proof -
  note ops = wpr_bvult wpr_bvule wpr_equal_bv wpr_bvuge wpr_bvugt
  show ?thesis unfolding adder_compare_def
    by (cases t; simp only: card_tag.case; rule ops, (rule assms(1-5))+, rule assms(6), simp)
qed

lemma wpr_adder_cardinality:
  assumes "env s0 s A E" and "set ps \<subseteq> A" and "ps \<noteq> []" and "c \<le> length ps" and "length ps < 2 ^ 32"
    and Q: "\<And>r s'. env s0 s' (insert r A) (\<lambda>m. E m \<and> val m r = card_rel t (ntrue m ps) c) \<Longrightarrow> Q r s'"
  shows "wpr (adder_cardinality P t ps c s) Q"
proof -
  let ?w = "floorlog 2 (length ps)"
  have guard: "length ps \<noteq> 0" using assms(3) by simp
  have w: "0 < ?w" "length ps < 2 ^ ?w" using guard by (simp_all add: floorlog_bounds zero_less_iff_neq_zero floorlog_eq_zero_iff)
  have "unat (of_nat c :: u64) = c" using assms(4,5) by (simp add: unat_of_nat take_bit_nat_eq_self)
  then have k: "bits_val (uint_bits ?w (of_nat c)) = c" using w(2) assms(4) by (simp add: bits_val_uint_bits)
  show ?thesis
    unfolding adder_cardinality_def if_not_P [OF guard]
  proof (rule wpr_rbind, rule wpr_adder_any [OF assms(1-3)], simp only: prod.case, rule wpr_rbind, rule wpr_bvuint, assumption,
      simp only: prod.case, rule wpr_rbind, rule wpr_adder_compare, assumption)
    fix ns s1 ks s2 r s3
    assume len: "length ns = ?w" "length ks = ?w" and env: "env s0 s3 (insert r (set ks \<union> (set ns \<union> A)))
      (\<lambda>m. ((E m \<and> bnum m ns = ntrue m ps) \<and> bvals m ks = uint_bits ?w (of_nat c)) \<and> val m r = card_rel t (bnum m ns) (bnum m ks))"
    have "Q r s3" by (rule Q, rule env_mono [OF env]) (auto simp: k)
    then show "wpr (case (Base r, s3) of (r, s) \<Rightarrow> rbind (get_base r) (\<lambda>b. Inr (b, s))) Q" by simp
  qed (use w in auto)
qed

section \<open>The evaluator\<close>

theorem eval_cardinality_correct:
  assumes "env s0 s A E" and "set ps \<subseteq> A" and "length ps < 2 ^ 32" and "enc \<in> {''bdd'', ''adder''}"
    and Q: "\<And>r s'. env s0 s' (insert r A) (\<lambda>m. E m \<and> val m r = card_rel t (ntrue m ps) c) \<Longrightarrow> Q r s'"
  shows "wpr (eval_cardinality P enc t ps c s) Q"
  unfolding eval_cardinality_def
proof (rule wpr_Let_case, rule wp_simplify [OF assms(1,2)])
  fix s' B assume env: "env s0 s' (B \<union> A) E" and n: "0 < length ps"
    and c: "t = eq_tag \<longrightarrow> 0 < c \<and> c < length ps" "t = le_tag \<longrightarrow> 0 < c \<and> c < length ps"
      "t = ge_tag \<longrightarrow> 0 < c \<and> c < length ps" "t = lt_tag \<longrightarrow> c \<le> length ps" "t = gt_tag \<longrightarrow> c < length ps"
  have ps: "set ps \<subseteq> B \<union> A" using assms(2) by auto
  have Q': "Q r s''" if "env s0 s'' (insert r (B \<union> A)) (\<lambda>m. E m \<and> val m r = card_rel t (ntrue m ps) c)" for r s''
    by (rule Q, rule env_mono [OF that]) auto
  have le: "c \<le> length ps" using c by (cases t) auto
  have "wpr (adder_cardinality P t ps c s') Q"
    by (rule wpr_adder_cardinality [OF env ps _ le assms(3)]) (use n Q' in auto)
  moreover have "wpr (bdd_cardinality P t ps c s') Q"
    by (rule wpr_bdd_cardinality [OF env ps n]) (use c Q' in auto)
  ultimately show "wpr (case None of None \<Rightarrow>
      if enc = ''adder'' then adder_cardinality P t ps c s'
      else if enc = ''bdd'' then bdd_cardinality P t ps c s' else Inl AssertionFailure | Some r \<Rightarrow> Inr (r, s')) Q"
    using assms(4) by auto
qed (simp add: Q)

lemma wp_one_hot_loop:
  assumes "env s0 s A E" and "z \<in> A" and "n \<in> A" and "set ps \<subseteq> A" and "ps \<noteq> []"
    and "\<And>r s'. env s0 s' (insert r A) (\<lambda>m. E m \<and>
      val m r = (if ntrue m ps = 0 then val m z else ntrue m ps = 1 \<and> val m n)) \<Longrightarrow> Q r s'"
  shows "wp (one_hot_loop P ps z n s) Q"
  using assms
proof (induction ps arbitrary: z n s A E Q rule: induct_list012)
  case (2 p)
  show ?case unfolding one_hot_loop.simps
    by (rule wp_ite [OF 2(1)]) (use 2(2-4) in auto, rule 2(6), erule env_mono, auto)
next
  case (3 p q ps)
  have in_A [simp]: "p \<in> A" "set (q # ps) \<subseteq> A" using "3.prems"(4) by auto
  show ?case unfolding one_hot_loop.simps
  proof (rule wp_Let_case, rule wp_ite [OF "3.prems"(1)], simp, rule "3.prems", rule "3.prems", rule wp_Let_case, rule wp_false, assumption,
      rule wp_Let_case, rule wp_ite, assumption, simp, simp, simp add: "3.prems", rule "3.IH"(2), assumption, simp, simp, use in_A in fastforce, simp)
    fix z' s1 f s2 n' s3 r s'
    assume env: "env s0 s' (insert r (insert n' (insert f (insert z' A)))) (\<lambda>m. ((((E m \<and> val m z' = (if val m p then val m n else val m z)) \<and>
        \<not> val m f)) \<and> val m n' = (if val m p then val m f else val m n)) \<and>
      val m r = (if ntrue m (q # ps) = 0 then val m z' else ntrue m (q # ps) = 1 \<and> val m n'))"
    show "Q r s'" by (rule "3.prems"(6), rule env_mono [OF env]) auto
  qed
qed simp

theorem one_hot_correct:
  assumes "env s0 s A E" and "set ps \<subseteq> A" and "ps \<noteq> []"
    and Q: "\<And>r s'. env s0 s' (insert r A) (\<lambda>m. E m \<and> val m r = (ntrue m ps = 1)) \<Longrightarrow> Q r s'"
  shows "wpr (one_hot P ps s) Q"
proof -
  obtain p qs where ps: "ps = p # qs" using assms(3) by (cases ps) auto
  have in_A [simp]: "p \<in> A" "set qs \<subseteq> A" using assms(2) ps by auto
  have lift: "wp x Q \<Longrightarrow> wpr (Inr x) Q" for x by (cases x) simp
  show ?thesis
  proof (cases "qs = []")
    case True
    have "one_hot P ps s = (let (t, s) = ps_true P s in Inr (ps_op2 P equal_tag p t s))" by (simp add: one_hot_def ps True)
    then show ?thesis
      by (simp only:) (rule wpr_Let_case, rule wp_true [OF assms(1)], rule lift, rule wp_op2, assumption, simp, simp, rule Q,
        erule env_mono, auto simp: ps True)
  next
    case False
    then have "one_hot P ps s = (let (n, s) = ps_not P p s in Inr (one_hot_loop P qs p n s))" by (simp add: one_hot_def ps)
    then show ?thesis
      by (simp only:) (rule wpr_Let_case, rule wp_not [OF assms(1)], simp, rule lift, rule wp_one_hot_loop, assumption, simp, simp,
        use in_A in blast, rule False, rule Q, erule env_mono, auto simp: ps)
  qed
qed

end

end
