(* ===== verification/Conflicts.thy ===== *)
theory Conflicts
  imports CardCorrect
begin

text \<open>
  The analysis of contradictions (\<open>metaSMT/support/contradiction_analysis.hpp\<close>) and its use by the visitor
  (\<open>metaSMTVisitorImpl::analyseContradiction\<close>): which of a list of constraints are to blame when they have
  no common solution. A constraint is identified by its key in a \<open>std::map\<close>, here an association list in
  ascending order of the keys. \<open>slv s as\<close> is \<open>solve\<close> in state \<open>s\<close> under the assumptions \<open>as\<close> together
  with \<open>read_value\<close> afterwards: the values of the Booleans in the solution found, or \<open>None\<close>.
\<close>

section \<open>Maps\<close>

type_synonym 'a idmap = "(nat \<times> 'a) list"

text \<open>\<open>map::insert\<close> keeps an entry that is there already.\<close>

fun map_insert :: "nat \<times> 'a \<Rightarrow> 'a idmap \<Rightarrow> 'a idmap" where
  "map_insert e [] = [e]"
| "map_insert e (d # ds) =
     (if fst e < fst d then e # d # ds else if fst e = fst d then d # ds else d # map_insert e ds)"

definition map_ok :: "'a idmap \<Rightarrow> bool" where
  "map_ok ds \<longleftrightarrow> sorted_wrt (<) (map fst ds)"

lemma map_insert_fst: "fst ` set (map_insert e ds) = insert (fst e) (fst ` set ds)"
  by (induction ds) auto

lemma map_insert_ok: "map_ok ds \<Longrightarrow> map_ok (map_insert e ds)"
proof (induction ds)
  case (Cons d ds)
  have "fst d < k" if "k \<in> fst ` set (map_insert e ds)" "fst d < fst e" for k
    using Cons.prems that by (auto simp: map_insert_fst map_ok_def)
  then show ?case using Cons by (auto simp: map_ok_def)
qed (simp add: map_ok_def)

lemma map_insert_new: "fst e \<notin> fst ` set ds \<Longrightarrow> set (map_insert e ds) = insert e (set ds)"
  by (induction ds) auto

section \<open>The analysis\<close>

text \<open>The conjunction of the enabling Booleans of the conflict under construction with \<open>c\<close>.\<close>

definition conflict_formula :: "('s, 'b) psolver \<Rightarrow> 'b \<Rightarrow> 'b idmap \<Rightarrow> 's \<Rightarrow> 'b \<times> 's" where
  "conflict_formula P c confl s = and_all P (map snd confl) c s"

text \<open>The loop over \<open>j\<close>: the first number of constraints that can be enabled together, with a solution.\<close>

fun largest_enabled ::
    "('s, 'b) psolver \<Rightarrow> string \<Rightarrow> ('s \<Rightarrow> 'b list \<Rightarrow> ('b \<Rightarrow> bool) option) \<Rightarrow> 'b list \<Rightarrow> 'b \<Rightarrow> nat list \<Rightarrow> 's \<Rightarrow>
     (('b \<Rightarrow> bool) option \<times> 's) result" where
  "largest_enabled P enc slv sv custom_c [] s = Inr (None, s)"
| "largest_enabled P enc slv sv custom_c (j # js) s =
     rbind (eval_cardinality P enc eq_tag sv (length sv - j) s) (\<lambda>(k, s).
       let (a, s) = ps_op2 P and_tag k custom_c s in
       case slv s [a] of
         None \<Rightarrow> largest_enabled P enc slv sv custom_c js s
       | Some rd \<Rightarrow> Inr (Some rd, s))"

lemma length_filter_cut: "filter (\<lambda>x. \<not> Q x) xs \<noteq> [] \<Longrightarrow> length (filter Q xs) < length xs"
  using sum_length_filter_compl [of Q xs] by (cases "filter (\<lambda>x. \<not> Q x) xs") auto

function analyze_multiple_conflict ::
    "('s, 'b) psolver \<Rightarrow> string \<Rightarrow> ('s \<Rightarrow> 'b list \<Rightarrow> ('b \<Rightarrow> bool) option) \<Rightarrow> 'b \<Rightarrow> 'b idmap \<Rightarrow> 'b idmap \<Rightarrow> 's \<Rightarrow>
     (nat list list \<times> 's) result"
  and conflict_loop ::
    "('s, 'b) psolver \<Rightarrow> string \<Rightarrow> ('s \<Rightarrow> 'b list \<Rightarrow> ('b \<Rightarrow> bool) option) \<Rightarrow> 'b \<Rightarrow> 'b idmap \<Rightarrow> 'b idmap \<Rightarrow> 'b idmap \<Rightarrow> 's \<Rightarrow>
     (nat list list \<times> 's) result" where
  "analyze_multiple_conflict P enc slv c enable confl s =
     (let (custom_c, s) = conflict_formula P c confl s in
      case slv s [custom_c] of
        None \<Rightarrow> Inr ([map fst confl], s)
      | Some _ \<Rightarrow>
          rbind (largest_enabled P enc slv (map snd enable) custom_c [1..<length enable + 1] s) (\<lambda>(found, s).
            case found of
              None \<Rightarrow> Inr ([], s)
            | Some rd \<Rightarrow> conflict_loop P enc slv c (filter (\<lambda>e. rd (snd e)) enable) confl
                (filter (\<lambda>e. \<not> rd (snd e)) enable) s))"
| "conflict_loop P enc slv c enab confl [] s = Inr ([], s)"
| "conflict_loop P enc slv c enab confl (e # es) s =
     rbind (analyze_multiple_conflict P enc slv c enab (map_insert e confl) s) (\<lambda>(r1, s).
     rbind (conflict_loop P enc slv c enab confl es s) (\<lambda>(r2, s). Inr (r1 @ r2, s)))"
  by pat_completeness auto
termination
proof (relation "measures [\<lambda>x. case x of Inl (P, enc, slv, c, enable, confl, s) \<Rightarrow> length enable
      | Inr (P, enc, slv, c, enab, confl, es, s) \<Rightarrow> length enab,
    \<lambda>x. case x of Inl _ \<Rightarrow> 1 | Inr (P, enc, slv, c, enab, confl, es, s) \<Rightarrow> if es = [] then 0 else 2 + length es]")
qed (auto simp: length_filter_cut order.not_eq_order_implies_strict)

declare analyze_multiple_conflict.simps [simp del]

text \<open>
  \<open>sv.push_back(s[it])\<close> for \<open>it\<close> below the size of the map: reading a key that is not there inserts it with
  a default-constructed Boolean \<open>d\<close> and makes the map larger. The keys of a map are distinct; the test is
  there for the recursion to be defined on every list.
\<close>

function read_all :: "'b \<Rightarrow> nat \<Rightarrow> 'b idmap \<Rightarrow> 'b idmap" where
  "read_all d i s = (if i < length s \<and> map_ok s then read_all d (i + 1) (map_insert (i, d) s) else s)"
  by pat_completeness auto
termination
proof (relation "measure (\<lambda>(d, i, s). Suc (Max (insert 0 (fst ` set s))) - i)"; clarsimp simp del: Max_insert)
  fix d :: 'b and i and s :: "'b idmap" assume i: "i < length s" and ok: "map_ok s"
  have "distinct (map fst s)" using ok by (auto simp: map_ok_def strict_sorted_iff)
  then have "card (fst ` set s) = length s" by (metis distinct_card length_map list.set_map)
  then have "\<not> fst ` set s \<subseteq> {..<i}" using i by (metis card_lessThan card_mono finite_lessThan not_less)
  then obtain k where k: "k \<in> fst ` set s" "i \<le> k" by (meson lessThan_iff not_le subsetI)
  then have "i \<le> Max (insert 0 (fst ` set s))" by (meson List.finite_set Max_ge finite.insertI finite_imageI insertI2 le_trans)
  moreover from this have "Max (insert 0 (fst ` set (map_insert (i, d) s))) = Max (insert 0 (fst ` set s))"
    by (simp add: map_insert_fst insert_commute [of 0] Max.insert [of "insert 0 (fst ` set s)"] max_absorb2 del: Max_insert)
  ultimately show "Max (insert 0 (fst ` set (map_insert (i, d) s))) - i < Suc (Max (insert 0 (fst ` set s))) - i" by linarith
qed

declare read_all.simps [simp del]

definition analyze_conflicts ::
    "('s, 'b) psolver \<Rightarrow> string \<Rightarrow> ('s \<Rightarrow> 'b list \<Rightarrow> ('b \<Rightarrow> bool) option) \<Rightarrow> 'b \<Rightarrow> 'b idmap \<Rightarrow> 'b \<Rightarrow> 's \<Rightarrow>
     (nat list list \<times> 's) result" where
  "analyze_conflicts P enc slv d sm c s =
     (case slv s (c # map snd sm) of
        Some _ \<Rightarrow> Inr ([], s)
      | None \<Rightarrow>
          let sm = read_all d 0 sm in
          if length sm = 1 then Inr ([[0]], s) else analyze_multiple_conflict P enc slv c sm [] s)"

section \<open>The visitor's entry point\<close>

text \<open>Every constraint is translated and made to follow from a Boolean of its own.\<close>

fun enable_constraints :: "('s, 'b) psolver \<Rightarrow> node idmap \<Rightarrow> ('s, 'b) meta \<Rightarrow> ('b idmap \<times> ('s, 'b) meta) result" where
  "enable_constraints P [] v = Inr ([], v)"
| "enable_constraints P ((k, n) # ns) v =
     rbind (meta_visit P n v) (\<lambda>v. rbind (mv_pop v) (\<lambda>(e, v).
       let (var, s) = ps_var P (mv_solver v) in
       rbind (bb_op2 P implies_tag (Base var) (fst e) s) (\<lambda>(i, s).
       rbind (bb_assertion P i s) (\<lambda>s.
       rbind (enable_constraints P ns (v\<lparr>mv_solver := s\<rparr>)) (\<lambda>(sm, v). Inr ((k, var) # sm, v))))))"

definition analyseContradiction ::
    "('s, 'b) psolver \<Rightarrow> string \<Rightarrow> ('s \<Rightarrow> 'b list \<Rightarrow> ('b \<Rightarrow> bool) option) \<Rightarrow> 'b \<Rightarrow> node idmap \<Rightarrow> ('s, 'b) meta \<Rightarrow>
     (nat list list \<times> ('s, 'b) meta) result" where
  "analyseContradiction P enc slv d ns v =
     rbind (enable_constraints P ns v) (\<lambda>(sm, v).
       let (t, s) = ps_true P (mv_solver v) in
       rbind (analyze_conflicts P enc slv d sm t s) (\<lambda>(results, s). Inr (results, v\<lparr>mv_solver := s\<rparr>)))"

end
