(* ===== verification/ConflictCorrect.thy ===== *)
theory ConflictCorrect
  imports Conflicts
begin

text \<open>
  What the analysis of contradictions reports: each reported set has no solution, and gets one when any of its
  constraints is left out; and what is not mentioned in any report can be satisfied together.
\<close>

lemma map_ok_inj: "map_ok ds \<Longrightarrow> d \<in> set ds \<Longrightarrow> e \<in> set ds \<Longrightarrow> fst d = fst e \<Longrightarrow> d = e"
proof -
  assume "map_ok ds" "d \<in> set ds" "e \<in> set ds" "fst d = fst e"
  moreover from this have "distinct (map fst ds)" by (simp add: map_ok_def strict_sorted_iff)
  ultimately show ?thesis by (simp add: eq_key_imp_eq_value prod_eq_iff) (metis eq_key_imp_eq_value prod.collapse)
qed

lemma map_ok_filter: "map_ok ds \<Longrightarrow> map_ok (filter Q ds)"
  by (induction ds) (auto simp: map_ok_def)

lemma length_filter_less_if:
  "(\<And>x. Q x \<Longrightarrow> R x) \<Longrightarrow> x0 \<in> set xs \<Longrightarrow> R x0 \<Longrightarrow> \<not> Q x0 \<Longrightarrow> length (filter Q xs) < length (filter R xs)"
proof (induction xs)
  case (Cons x xs)
  have "length (filter Q xs) \<le> length (filter R xs)" using Cons.prems(1) by (induction xs) (auto intro: le_SucI)
  then show ?case using Cons by (cases "x0 = x") auto
qed simp

context predicate_solver
begin

text \<open>Which Booleans can be true together with \<open>c\<close>.\<close>

definition feasible :: "'s \<Rightarrow> 'b \<Rightarrow> 'b set \<Rightarrow> bool" where
  "feasible s c L \<longleftrightarrow> (\<exists>m. mdl s m \<and> val m c \<and> (\<forall>b\<in>L. val m b))"

lemma feasible_extends:
  assumes e: "extends wfs ok mdl val s s'" and c: "ok s c" and L: "\<forall>b\<in>L. ok s b"
  shows "feasible s' c L = feasible s c L"
proof
  assume "feasible s' c L" then show "feasible s c L" using extendsD(4) [OF e] by (auto simp: feasible_def)
next
  assume "feasible s c L"
  then obtain m where m: "mdl s m" "val m c" "\<forall>b\<in>L. val m b" by (auto simp: feasible_def)
  then obtain m' where "mdl s' m'" "\<forall>b. ok s b \<longrightarrow> val m' b = val m b" using e unfolding extends_def by blast
  then show "feasible s' c L" using m c L by (auto simp: feasible_def)
qed

lemma feasible_mono: "feasible s c L \<Longrightarrow> L' \<subseteq> L \<Longrightarrow> feasible s c L'"
  by (auto simp: feasible_def)

section \<open>The largest number of constraints\<close>

lemma eval_cardinalityE:
  assumes "wfs s" and "\<forall>p\<in>set ps. ok s p" and "length ps < 2 ^ 32" and "enc \<in> {''bdd'', ''adder''}"
  obtains r s' where "eval_cardinality P enc t ps c s = Inr (r, s')" "extends wfs ok mdl val s s'" "ok s' r"
    "\<And>m. mdl s' m \<Longrightarrow> val m r = card_rel t (ntrue m ps) c"
proof -
  have "wpr (eval_cardinality P enc t ps c s) (\<lambda>r s'. env s s' (insert r (set ps)) (\<lambda>m. True \<and> val m r = card_rel t (ntrue m ps) c))"
    by (rule eval_cardinality_correct [OF env_start [OF assms(1,2)] _ assms(3,4)]) simp_all
  then show thesis using that by (auto simp: wpr_def env_def)
qed

lemma op2E:
  assumes "wfs s" and "ok s a" and "ok s b"
  obtains r s' where "ps_op2 P t a b s = (r, s')" "extends wfs ok mdl val s s'" "ok s' r"
    "\<And>m. mdl s' m \<Longrightarrow> val m r = tag2_sem t (val m a) (val m b)"
  using op2_law [OF assms] that by (cases "ps_op2 P t a b s") blast

text \<open>No solution with \<open>length sv - j\<close> true Booleans; the first \<open>j\<close> of the loop for which there is one.\<close>

definition excluded :: "'s \<Rightarrow> 'b list \<Rightarrow> 'b \<Rightarrow> nat \<Rightarrow> bool" where
  "excluded s sv k j \<longleftrightarrow> (\<forall>m. mdl s m \<longrightarrow> val m k \<longrightarrow> ntrue m sv \<noteq> length sv - j)"

inductive first_max :: "'s \<Rightarrow> 'b list \<Rightarrow> 'b \<Rightarrow> nat list \<Rightarrow> ('b \<Rightarrow> bool) option \<Rightarrow> bool" for s sv k where
  none: "first_max s sv k [] None"
| hit: "mdl s m \<Longrightarrow> val m k \<Longrightarrow> ntrue m sv = length sv - j \<Longrightarrow> (\<And>b. ok s b \<Longrightarrow> rd b = val m b) \<Longrightarrow>
    first_max s sv k (j # js) (Some rd)"
| miss: "excluded s sv k j \<Longrightarrow> first_max s sv k js found \<Longrightarrow> first_max s sv k (j # js) found"

lemma first_max_None: "first_max s sv k js found \<Longrightarrow> found = None \<Longrightarrow> \<forall>j\<in>set js. excluded s sv k j"
  by (induction rule: first_max.induct) auto

lemma first_max_Some:
  "first_max s sv k js found \<Longrightarrow> found = Some rd \<Longrightarrow> \<exists>xs j ys m. js = xs @ j # ys \<and> mdl s m \<and> val m k \<and>
    ntrue m sv = length sv - j \<and> (\<forall>b. ok s b \<longrightarrow> rd b = val m b) \<and> (\<forall>i\<in>set xs. excluded s sv k i)"
proof (induction rule: first_max.induct)
  case (hit m j rd js)
  then show ?case by (intro exI [of _ "[]"]) auto
next
  case (miss j js found)
  then obtain xs i ys m where "js = xs @ i # ys" "mdl s m" "val m k" "ntrue m sv = length sv - i"
    "\<forall>b. ok s b \<longrightarrow> rd b = val m b" "\<forall>i\<in>set xs. excluded s sv k i" by blast
  then show ?case using miss(1) by (intro exI [of _ "j # xs"] exI [of _ i] exI [of _ ys] exI [of _ m]) auto
qed simp

lemma first_max_extends:
  assumes "first_max s' sv k js found" and e: "extends wfs ok mdl val s s'" and sv: "\<forall>p\<in>set sv. ok s p" "ok s k"
  shows "first_max s sv k js found"
  using assms(1)
proof (induction rule: first_max.induct)
  case (hit m j rd js)
  then show ?case using extendsD(2,4) [OF e] by (intro first_max.hit [of s m]) auto
next
  case (miss j js found)
  have "excluded s sv k j" unfolding excluded_def
  proof (intro allI impI)
    fix m assume m: "mdl s m" "val m k"
    then obtain m' where m': "mdl s' m'" "\<forall>b. ok s b \<longrightarrow> val m' b = val m b" using e unfolding extends_def by blast
    then have "ntrue m' sv = ntrue m sv" using sv by (auto simp: ntrue_def intro!: arg_cong [where f = length] filter_cong)
    then show "ntrue m sv \<noteq> length sv - j" using miss(1) m' m sv(2) by (auto simp: excluded_def)
  qed
  then show ?case using miss(3) by (rule first_max.miss)
qed (rule first_max.none)

lemma largest_enabled_correct:
  assumes slv: "answers slv" and "wfs s" and "\<forall>p\<in>set sv. ok s p" and "ok s k" and "length sv < 2 ^ 32"
    and enc: "enc \<in> {''bdd'', ''adder''}"
  shows "\<exists>found s'. largest_enabled P enc slv sv k js s = Inr (found, s') \<and> extends wfs ok mdl val s s' \<and>
    first_max s sv k js found"
  using assms(2-4)
proof (induction js arbitrary: s)
  case Nil
  then show ?case by (simp add: extends_refl first_max.none)
next
  case (Cons j js)
  obtain q s1 where q: "eval_cardinality P enc eq_tag sv (length sv - j) s = Inr (q, s1)"
    and e1: "extends wfs ok mdl val s s1" "ok s1 q" "\<And>m. mdl s1 m \<Longrightarrow> val m q = (ntrue m sv = length sv - j)"
    using eval_cardinalityE [OF Cons.prems(1,2) assms(5) enc, of eq_tag "length sv - j"] by auto
  obtain a s2 where a: "ps_op2 P and_tag q k s1 = (a, s2)" and e2: "extends wfs ok mdl val s1 s2" "ok s2 a"
    "\<And>m. mdl s2 m \<Longrightarrow> val m a = (val m q \<and> val m k)"
    using op2E [OF extendsD(1) [OF e1(1)] e1(2) extendsD(2) [OF e1(1) Cons.prems(3)], of and_tag] by auto
  note e = extends_trans [OF e1(1) e2(1)]
  have oks: "\<forall>p\<in>set sv. ok s2 p" "ok s2 k" using Cons.prems(2,3) extendsD(2) [OF e] by auto
  have ve: "val m a \<longleftrightarrow> ntrue m sv = length sv - j \<and> val m k" if "mdl s2 m" for m
    using e2(3) [OF that] e1(3) extendsD(4) [OF e2(1) that] by simp
  show ?case
  proof (cases "slv s2 [a]")
    case None
    have "excluded s2 sv k j" unfolding excluded_def
      using answers_None [OF slv extendsD(1) [OF e] _ None] e2(2) ve by auto
    moreover obtain found s' where "largest_enabled P enc slv sv k js s2 = Inr (found, s')" "extends wfs ok mdl val s2 s'"
      "first_max s2 sv k js found"
      using Cons.IH [OF extendsD(1) [OF e] oks] by blast
    ultimately show ?thesis
      using first_max_extends [OF first_max.miss e Cons.prems(2,3)] extends_trans [OF e] by (simp add: q a None)
  next
    case (Some rd)
    obtain m where m: "mdl s2 m" "val m a" "\<And>b. ok s2 b \<Longrightarrow> rd b = val m b"
      using answers_Some [OF slv extendsD(1) [OF e] _ Some] e2(2) by auto
    have "first_max s2 sv k (j # js) (Some rd)" using m ve by (intro first_max.hit [of s2 m]) auto
    then show ?thesis using first_max_extends [OF _ e Cons.prems(2,3)] e by (simp add: q a Some)
  qed
qed

section \<open>Conflicts\<close>

text \<open>What holds of every call: the enabled constraints and the conflict under construction exclude each other,
  and leaving out one of the latter makes the rest possible. What every result is.\<close>

definition conflict_inv :: "'s \<Rightarrow> 'b \<Rightarrow> 'b idmap \<Rightarrow> 'b idmap \<Rightarrow> bool" where
  "conflict_inv s c E K \<longleftrightarrow> map_ok E \<and> map_ok K \<and> fst ` set E \<inter> fst ` set K = {} \<and> length E < 2 ^ 32 \<and>
     ok s c \<and> (\<forall>e\<in>set E \<union> set K. ok s (snd e)) \<and> \<not> feasible s c (snd ` (set K \<union> set E)) \<and>
     (\<forall>e\<in>set K. feasible s c (snd ` (set K - {e} \<union> set E)))"

definition minimal_conflict :: "'s \<Rightarrow> 'b \<Rightarrow> 'b idmap \<Rightarrow> 'b idmap \<Rightarrow> nat list \<Rightarrow> bool" where
  "minimal_conflict s c E K r \<longleftrightarrow> (\<exists>R. r = map fst R \<and> map_ok R \<and> set K \<subseteq> set R \<and> set R \<subseteq> set K \<union> set E \<and>
     \<not> feasible s c (snd ` set R) \<and> (\<forall>e\<in>set R. feasible s c (snd ` (set R - {e}))))"

lemma conflict_inv_extends:
  assumes e: "extends wfs ok mdl val s s'" and i: "conflict_inv s c E K"
  shows "conflict_inv s' c E K"
proof -
  have f: "feasible s' c (snd ` M) = feasible s c (snd ` M)" if "M \<subseteq> set E \<union> set K" for M
    by (rule feasible_extends [OF e]) (use i that in \<open>auto simp: conflict_inv_def\<close>)
  have "set K \<union> set E \<subseteq> set E \<union> set K" "\<And>k. set K - {k} \<union> set E \<subseteq> set E \<union> set K" by auto
  note f1 = f [OF this(1)] and f2 = f [OF this(2)]
  show ?thesis using i extendsD(2) [OF e] unfolding conflict_inv_def f1 f2 by blast
qed

lemma minimal_conflict_extends:
  assumes e: "extends wfs ok mdl val s s'" and i: "ok s c" "\<forall>e\<in>set E \<union> set K. ok s (snd e)" and m: "minimal_conflict s' c E K r"
  shows "minimal_conflict s c E K r"
proof -
  obtain R where R: "r = map fst R" "map_ok R" "set K \<subseteq> set R" "set R \<subseteq> set K \<union> set E"
    "\<not> feasible s' c (snd ` set R)" "\<forall>e\<in>set R. feasible s' c (snd ` (set R - {e}))"
    using m by (auto simp: minimal_conflict_def)
  have f: "feasible s' c (snd ` M) = feasible s c (snd ` M)" if "M \<subseteq> set R" for M
    by (rule feasible_extends [OF e]) (use i that R(4) in auto)
  have "\<not> feasible s c (snd ` set R)" using R(5) f [of "set R"] by simp
  moreover have "\<forall>e\<in>set R. feasible s c (snd ` (set R - {e}))" using R(6) f by blast
  ultimately show ?thesis unfolding minimal_conflict_def using R(1-4) by blast
qed

lemma minimal_conflict_mono:
  "minimal_conflict s c E1 K1 r \<Longrightarrow> set K \<subseteq> set K1 \<Longrightarrow> set K1 \<union> set E1 \<subseteq> set K \<union> set E \<Longrightarrow> minimal_conflict s c E K r"
  unfolding minimal_conflict_def by blast

text \<open>One step of the search: a largest enabled subset, and a constraint that is not in it.\<close>

lemma conflict_step:
  assumes inv: "conflict_inv s c E K" and f: "first_max s (map snd E) k [1..<length E + 1] (Some rd)"
    and k: "\<And>m. mdl s m \<Longrightarrow> val m k \<longleftrightarrow> val m c \<and> (\<forall>e\<in>set K. val m (snd e))" and "ok s k"
  defines "E1 \<equiv> filter (\<lambda>e. rd (snd e)) E"
  shows "feasible s c (snd ` (set K \<union> set E1))" and "\<exists>e\<in>set E. \<not> rd (snd e)"
    and "e \<in> set E \<Longrightarrow> \<not> rd (snd e) \<Longrightarrow> conflict_inv s c E1 (map_insert e K)"
proof -
  let ?sv = "map snd E"
  obtain xs j ys m where m: "[1..<length E + 1] = xs @ j # ys" "mdl s m" "val m k" "ntrue m ?sv = length ?sv - j"
    "\<And>b. ok s b \<Longrightarrow> rd b = val m b" "\<forall>i\<in>set xs. excluded s ?sv k i"
    using first_max_Some [OF f refl] by blast
  have j: "0 < j" "j \<le> length E"
  proof -
    have "j \<in> set [1..<length E + 1]" unfolding m(1) by simp
    then show "0 < j" "j \<le> length E" by auto
  qed
  have xs: "set xs = {1..<j}"
  proof -
    have "length xs < length [1..<length E + 1]" unfolding m(1) by simp
    then have "take (length xs) [1..<length E + 1] = [1..<1 + length xs]" "[1..<length E + 1] ! length xs = 1 + length xs"
      by (simp_all del: upt_Suc)
    then have "xs = [1..<1 + length xs]" "j = 1 + length xs" unfolding m(1) by simp_all
    then show ?thesis by (metis set_upt)
  qed
  have count: "ntrue m' ?sv = length (filter (\<lambda>e. val m' (snd e)) E)" for m' by (simp add: ntrue_def filter_map o_def)
  have E1: "E1 = filter (\<lambda>e. val m (snd e)) E"
    unfolding E1_def using inv m(5) by (intro filter_cong) (auto simp: conflict_inv_def)
  have vm: "val m c" "\<forall>e\<in>set K. val m (snd e)" using k [OF m(2)] m(3) by auto
  show feas: "feasible s c (snd ` (set K \<union> set E1))"
    unfolding feasible_def by (rule exI [of _ m]) (use vm m(2) in \<open>auto simp: E1\<close>)
  show "\<exists>e\<in>set E. \<not> rd (snd e)"
  proof (rule ccontr)
    assume "\<not> ?thesis" then have "E1 = E" unfolding E1_def by (simp add: filter_id_conv)
    then show False using m(4) j count [of m] E1 by simp
  qed
  assume e: "e \<in> set E" "\<not> rd (snd e)"
  then have "\<not> val m (snd e)" using inv m(5) [of "snd e"] by (auto simp: conflict_inv_def)
  have sub: "set E1 \<subseteq> set E" by (auto simp: E1_def)
  have new: "fst e \<notin> fst ` set K" using inv e(1) by (auto simp: conflict_inv_def)
  then have K': "set (map_insert e K) = insert e (set K)" by (rule map_insert_new)
  have infeas: "\<not> feasible s c (snd ` (insert e (set K) \<union> set E1))"
  proof
    assume "feasible s c (snd ` (insert e (set K) \<union> set E1))"
    then obtain m' where m': "mdl s m'" "val m' c" "\<forall>d\<in>insert e (set K) \<union> set E1. val m' (snd d)"
      by (auto simp: feasible_def)
    then have vk: "val m' k" using k by auto
    have "length (filter (\<lambda>d. val m (snd d) \<and> val m' (snd d)) E) < length (filter (\<lambda>d. val m' (snd d)) E)"
      by (rule length_filter_less_if [of _ _ e]) (use m'(3) e(1) \<open>\<not> val m (snd e)\<close> in auto)
    moreover have "filter (\<lambda>d. val m (snd d) \<and> val m' (snd d)) E = E1"
      unfolding E1 by (rule filter_cong) (use m'(3) in \<open>auto simp: E1\<close>)
    ultimately have more: "length E - j < ntrue m' ?sv" using m(4) count [of m] by (simp add: count E1)
    show False
    proof (cases "ntrue m' ?sv = length ?sv")
      case True
      then have "\<forall>d\<in>set E. val m' (snd d)" using ntrue_full [of m' ?sv] by simp
      then have "feasible s c (snd ` (set K \<union> set E))" unfolding feasible_def using m' by (intro exI [of _ m']) auto
      then show False using inv by (simp add: conflict_inv_def)
    next
      case False
      then have less: "ntrue m' ?sv < length E" using ntrue_le [of m' ?sv] by simp
      have "length E - ntrue m' ?sv \<in> set xs" using less more unfolding xs by auto
      then have "excluded s ?sv k (length E - ntrue m' ?sv)" using m(6) by blast
      then show False using m'(1) vk less by (auto simp: excluded_def)
    qed
  qed
  have single: "feasible s c (snd ` (insert e (set K) - {d} \<union> set E1))" if "d \<in> insert e (set K)" for d
  proof (cases "d = e")
    case True
    have "e \<notin> set K" using new by (metis image_eqI)
    then show ?thesis using feas True by simp
  next
    case False
    then have "feasible s c (snd ` (set K - {d} \<union> set E))" using inv that by (simp add: conflict_inv_def)
    then show ?thesis by (rule feasible_mono) (use sub e(1) in auto)
  qed
  have "e \<notin> set E1" using e(2) by (simp add: E1_def)
  have "fst e \<notin> fst ` set E1"
  proof
    assume "fst e \<in> fst ` set E1"
    then obtain d where d: "d \<in> set E1" "fst d = fst e" by auto
    have "map_ok E" using inv by (simp only: conflict_inv_def)
    then have "d = e" by (rule map_ok_inj) (use d sub e(1) in auto)
    then show False using d(1) \<open>e \<notin> set E1\<close> by simp
  qed
  then have dis: "fst ` set E1 \<inter> fst ` set (map_insert e K) = {}"
    using inv sub by (auto simp: conflict_inv_def map_insert_fst)
  have "map_ok E" "map_ok K" "length E < 2 ^ 32" using inv by (simp_all only: conflict_inv_def)
  then have maps: "map_ok E1" "map_ok (map_insert e K)" "length E1 < 2 ^ 32"
    using le_less_trans [OF length_filter_le] unfolding E1_def by (auto intro: map_ok_filter map_insert_ok)
  have oks: "ok s c" "\<forall>d\<in>set E1 \<union> insert e (set K). ok s (snd d)" using inv sub e(1) unfolding conflict_inv_def by blast+
  have "\<forall>d\<in>insert e (set K). feasible s c (snd ` (insert e (set K) - {d} \<union> set E1))" using single by blast
  then show "conflict_inv s c E1 (map_insert e K)"
    using maps oks infeas dis unfolding conflict_inv_def K' by (intro conjI)
qed

lemma conflict_formula_law:
  assumes "wfs s" and "ok s c" and "\<forall>e\<in>set K. ok s (snd e)"
  obtains k s' where "conflict_formula P c K s = (k, s')" "extends wfs ok mdl val s s'" "ok s' k"
    "\<And>m. mdl s' m \<Longrightarrow> val m k \<longleftrightarrow> val m c \<and> (\<forall>e\<in>set K. val m (snd e))"
proof -
  have "wp (and_all P (map snd K) c s) (\<lambda>r s'. env s s' (insert r (insert c (snd ` set K)))
      (\<lambda>m. True \<and> val m r = (val m c \<and> (\<forall>p\<in>set (map snd K). val m p))))"
    by (rule wp_and_all [OF env_start]) (use assms in auto)
  then show thesis using that by (cases "and_all P (map snd K) c s") (auto simp: conflict_formula_def env_def)
qed

text \<open>What the analysis of a conflict returns; \<open>covers\<close>: without the constraints reported, the others are possible.\<close>

definition covers :: "'s \<Rightarrow> 'b \<Rightarrow> 'b idmap \<Rightarrow> 'b idmap \<Rightarrow> nat list list \<Rightarrow> bool" where
  "covers s c E K rs \<longleftrightarrow> (feasible s c (snd ` set K) \<longrightarrow>
     feasible s c (snd ` (set K \<union> {e \<in> set E. \<forall>r\<in>set rs. fst e \<notin> set r})))"

lemma conflict_loop_correct:
  assumes call: "\<And>e s'. e \<in> set es \<Longrightarrow> extends wfs ok mdl val s s' \<Longrightarrow> \<exists>rs s''.
      analyze_multiple_conflict P enc slv c E1 (map_insert e K) s' = Inr (rs, s'') \<and>
      extends wfs ok mdl val s' s'' \<and> rs \<noteq> [] \<and> (\<forall>r\<in>set rs. minimal_conflict s c E1 (map_insert e K) r)"
    and "wfs s'" and "extends wfs ok mdl val s s'"
  shows "\<exists>rs s''. conflict_loop P enc slv c E1 K es s' = Inr (rs, s'') \<and> extends wfs ok mdl val s' s'' \<and>
    (\<forall>r\<in>set rs. \<exists>e\<in>set es. minimal_conflict s c E1 (map_insert e K) r) \<and>
    (\<forall>e\<in>set es. \<exists>r\<in>set rs. minimal_conflict s c E1 (map_insert e K) r)"
  using assms
proof (induction es arbitrary: s')
  case Nil
  then show ?case by (simp add: extends_refl)
next
  case (Cons e es)
  obtain r1 s1 where r1: "analyze_multiple_conflict P enc slv c E1 (map_insert e K) s' = Inr (r1, s1)"
    "extends wfs ok mdl val s' s1" "r1 \<noteq> []" "\<forall>r\<in>set r1. minimal_conflict s c E1 (map_insert e K) r"
    using Cons.prems(1) [of e s'] Cons.prems(3) by auto
  obtain r2 s2 where "conflict_loop P enc slv c E1 K es s1 = Inr (r2, s2)" "extends wfs ok mdl val s1 s2"
    "\<forall>r\<in>set r2. \<exists>e\<in>set es. minimal_conflict s c E1 (map_insert e K) r"
    "\<forall>e\<in>set es. \<exists>r\<in>set r2. minimal_conflict s c E1 (map_insert e K) r"
    using Cons.IH [OF _ extendsD(1) [OF r1(2)] extends_trans [OF Cons.prems(3) r1(2)]] Cons.prems(1) by auto
  moreover obtain r where "r \<in> set r1" using r1(3) by (cases r1) auto
  ultimately show ?case using r1 extends_trans [OF r1(2)] by simp blast
qed

lemma analyze_multiple_conflict_correct:
  assumes slv: "answers slv" and enc: "enc \<in> {''bdd'', ''adder''}" and "wfs s" and "conflict_inv s c E K"
  shows "\<exists>rs s'. analyze_multiple_conflict P enc slv c E K s = Inr (rs, s') \<and> extends wfs ok mdl val s s' \<and> rs \<noteq> [] \<and>
    (\<forall>r\<in>set rs. minimal_conflict s c E K r) \<and> covers s c E K rs"
  using assms(3,4)
proof (induction "length E" arbitrary: E K s rule: less_induct)
  case less
  note inv = less.prems(2)
  have oks: "ok s c" "\<forall>e\<in>set E \<union> set K. ok s (snd e)" using inv by (simp_all add: conflict_inv_def)
  obtain k s1 where k: "conflict_formula P c K s = (k, s1)" and e1: "extends wfs ok mdl val s s1" "ok s1 k"
    and vk: "\<And>m. mdl s1 m \<Longrightarrow> val m k \<longleftrightarrow> val m c \<and> (\<forall>e\<in>set K. val m (snd e))"
    using conflict_formula_law [OF less.prems(1), of c K] oks by auto
  have feas: "feasible s1 c (snd ` set K) = feasible s c (snd ` set K)"
    by (rule feasible_extends [OF e1(1)]) (use oks in auto)
  have inv1: "conflict_inv s1 c E K" by (rule conflict_inv_extends [OF e1(1) inv])
  show ?case
  proof (cases "slv s1 [k]")
    case None
    have "\<not> feasible s1 c (snd ` set K)"
      using answers_None [OF slv extendsD(1) [OF e1(1)] _ None] e1(2) vk unfolding feasible_def by auto
    then have no: "\<not> feasible s c (snd ` set K)" using feas by simp
    have "minimal_conflict s c E K (map fst K)" unfolding minimal_conflict_def
      by (rule exI [of _ K]) (use inv no in \<open>auto simp: conflict_inv_def elim!: feasible_mono\<close>)
    then show ?thesis using e1(1) no by (simp add: analyze_multiple_conflict.simps k None covers_def)
  next
    case (Some rd0)
    obtain m0 where m0: "mdl s1 m0" "val m0 k" using answers_Some [OF slv extendsD(1) [OF e1(1)] _ Some] e1(2) by auto
    have ok1: "\<forall>p\<in>set (map snd E). ok s1 p" using oks extendsD(2) [OF e1(1)] by auto
    have len: "length (map snd E) < 2 ^ 32" using inv by (simp add: conflict_inv_def)
    obtain found s2 where L: "largest_enabled P enc slv (map snd E) k [1..<length E + 1] s1 = Inr (found, s2)"
      "extends wfs ok mdl val s1 s2" "first_max s1 (map snd E) k [1..<length E + 1] found"
      using largest_enabled_correct [OF slv extendsD(1) [OF e1(1)] ok1 e1(2) len enc, of "[1..<length E + 1]"] by blast
    have "found \<noteq> None"
    proof
      assume "found = None"
      then have ex: "\<And>j. 1 \<le> j \<Longrightarrow> j \<le> length E \<Longrightarrow> excluded s1 (map snd E) k j" using first_max_None [OF L(3)] by auto
      let ?n = "ntrue m0 (map snd E)"
      have "?n \<noteq> length E"
      proof
        assume "?n = length E"
        then have "\<forall>e\<in>set E. val m0 (snd e)" using ntrue_full [of m0 "map snd E"] by simp
        then have "feasible s1 c (snd ` (set K \<union> set E))" unfolding feasible_def using m0 vk by (intro exI [of _ m0]) auto
        then show False using inv1 by (simp add: conflict_inv_def)
      qed
      then have n: "?n < length E" using ntrue_le [of m0 "map snd E"] by simp
      then have "excluded s1 (map snd E) k (length E - ?n)" by (intro ex) auto
      then show False using m0 n by (auto simp: excluded_def)
    qed
    then obtain rd where found: "found = Some rd" by auto
    let ?E1 = "filter (\<lambda>e. rd (snd e)) E" and ?es = "filter (\<lambda>e. \<not> rd (snd e)) E"
    have step: "feasible s1 c (snd ` (set K \<union> set ?E1))" "\<exists>e\<in>set E. \<not> rd (snd e)"
      "\<And>e. e \<in> set E \<Longrightarrow> \<not> rd (snd e) \<Longrightarrow> conflict_inv s1 c ?E1 (map_insert e K)"
      by (rule conflict_step [OF inv1 L(3) [unfolded found] _ e1(2)], erule vk, assumption?, assumption?)+
    have "length ?E1 < length E"
      by (rule length_filter_cut) (use step(2) in \<open>auto simp: filter_empty_conv\<close>)
    have call: "\<exists>rs s''. analyze_multiple_conflict P enc slv c ?E1 (map_insert e K) s' = Inr (rs, s'') \<and>
        extends wfs ok mdl val s' s'' \<and> rs \<noteq> [] \<and> (\<forall>r\<in>set rs. minimal_conflict s1 c ?E1 (map_insert e K) r)"
      if "e \<in> set ?es" and e': "extends wfs ok mdl val s1 s'" for e s'
    proof -
      have i: "conflict_inv s1 c ?E1 (map_insert e K)" using step(3) [of e] that(1) by auto
      then have "ok s1 c" "\<forall>d\<in>set ?E1 \<union> set (map_insert e K). ok s1 (snd d)" by (simp_all add: conflict_inv_def)
      then show ?thesis
        using less.hyps [OF \<open>length ?E1 < length E\<close> extendsD(1) [OF e'] conflict_inv_extends [OF e' i]]
          minimal_conflict_extends [OF e'] by blast
    qed
    obtain rs s' where R: "conflict_loop P enc slv c ?E1 K ?es s2 = Inr (rs, s')" "extends wfs ok mdl val s2 s'"
      "\<forall>r\<in>set rs. \<exists>e\<in>set ?es. minimal_conflict s1 c ?E1 (map_insert e K) r"
      "\<forall>e\<in>set ?es. \<exists>r\<in>set rs. minimal_conflict s1 c ?E1 (map_insert e K) r"
      using conflict_loop_correct [of ?es s1, OF call extendsD(1) [OF L(2)] L(2)] by blast
    have K': "set (map_insert e K) = insert e (set K)" if "e \<in> set ?es" for e
    proof (rule map_insert_new)
      have "fst ` set E \<inter> fst ` set K = {}" using inv by (simp only: conflict_inv_def)
      then show "fst e \<notin> fst ` set K" using that by auto
    qed
    have "minimal_conflict s c E K r" if r: "r \<in> set rs" for r
    proof -
      obtain e where e: "e \<in> set ?es" "minimal_conflict s1 c ?E1 (map_insert e K) r"
        using bspec [OF R(3) r] by (elim bexE)
      have "set K \<subseteq> set (map_insert e K)" "set (map_insert e K) \<union> set ?E1 \<subseteq> set K \<union> set E"
        unfolding K' [OF e(1)] using e(1) by auto
      then have "minimal_conflict s1 c E K r" by (rule minimal_conflict_mono [OF e(2)])
      then show ?thesis by (rule minimal_conflict_extends [OF e1(1) oks])
    qed
    moreover have "rs \<noteq> []" using R(4) step(2) by auto
    moreover have "covers s c E K rs" unfolding covers_def
    proof
      have "{e \<in> set E. \<forall>r\<in>set rs. fst e \<notin> set r} \<subseteq> set ?E1"
      proof clarsimp
        fix a b assume e: "(a, b) \<in> set E" "\<forall>r\<in>set rs. a \<notin> set r"
        show "rd b"
        proof (rule ccontr)
          assume "\<not> rd b"
          then have ein: "(a, b) \<in> set ?es" using e(1) by auto
          then obtain r where r: "r \<in> set rs" "minimal_conflict s1 c ?E1 (map_insert (a, b) K) r"
            using bspec [OF R(4) ein] by (elim bexE)
          then obtain R where R': "r = map fst R" "set (map_insert (a, b) K) \<subseteq> set R" by (auto simp: minimal_conflict_def)
          then have "(a, b) \<in> set R" using K' [OF ein] by auto
          then have "a \<in> set r" unfolding R'(1) by force
          then show False using e(2) r(1) by blast
        qed
      qed
      then have "snd ` (set K \<union> {e \<in> set E. \<forall>r\<in>set rs. fst e \<notin> set r}) \<subseteq> snd ` (set K \<union> set ?E1)" by (intro image_mono Un_mono subset_refl)
      then have "feasible s1 c (snd ` (set K \<union> {e \<in> set E. \<forall>r\<in>set rs. fst e \<notin> set r}))" by (rule feasible_mono [OF step(1)])
      then show "feasible s c (snd ` (set K \<union> {e \<in> set E. \<forall>r\<in>set rs. fst e \<notin> set r}))"
        by (subst (asm) feasible_extends [OF e1(1)]) (use oks in auto)
    qed
    moreover have "analyze_multiple_conflict P enc slv c E K s = Inr (rs, s')"
      using R(1) L(1) by (simp add: analyze_multiple_conflict.simps [of P enc slv c E K s] k Some found)
    ultimately show ?thesis using extends_trans [OF extends_trans [OF e1(1) L(2)] R(2)] by blast
  qed
qed

end

end
