(* ===== verification/ConflictVisitor.thy ===== *)
theory ConflictVisitor
  imports ConflictCorrect
begin

text \<open>
  The analysis of contradictions on constraints: a Boolean is introduced for each constraint that may be true
  only where the constraint holds, so that sets of Booleans stand for sets of constraints.
\<close>

context predicate_solver
begin

section \<open>Enabling constraints\<close>

lemma agree_keep:
  assumes "vwf d v" and "agree m \<rho> v" and "\<forall>b. ok (mv_solver v) b \<longrightarrow> val m' b = val m b" and "mv_terminals v' = mv_terminals v"
  shows "agree m' \<rho> v'"
  unfolding agree_def assms(4)
proof (intro allI impI)
  fix i r assume r: "mv_terminals v i = Some r"
  then have "usable (mv_solver v) r" using assms(1) by (simp add: vwf_def)
  then have "abs_bb (val m') r = abs_bb (val m) r" using assms(3) by (intro abs_bb_cong) (simp add: usable_def)
  then show "abs_bb (val m') r = \<rho> i" using assms(2) r by (simp add: agree_def)
qed

text \<open>\<open>enabled d v v' sm \<Phi>s\<close>: a Boolean of \<open>sm\<close> may be true where its condition holds, and only there.\<close>

definition enabled :: "(nat \<Rightarrow> smt_sort) \<Rightarrow> ('s, 'b) meta \<Rightarrow> ('s, 'b) meta \<Rightarrow> 'b list \<Rightarrow> ((nat \<Rightarrow> smt_val) \<Rightarrow> bool) list \<Rightarrow> bool" where
  "enabled d v v' bs \<Phi>s \<longleftrightarrow> length bs = length \<Phi>s \<and> vwf d v' \<and> (\<forall>b\<in>set bs. ok (mv_solver v') b) \<and>
     (\<forall>b. ok (mv_solver v) b \<longrightarrow> ok (mv_solver v') b) \<and>
     (\<forall>m. mdl (mv_solver v') m \<longrightarrow> mdl (mv_solver v) m) \<and>
     (\<forall>m \<rho>. mdl (mv_solver v') m \<longrightarrow> agree m \<rho> v' \<longrightarrow> agree m \<rho> v \<and> (\<forall>i<length bs. val m (bs ! i) \<longrightarrow> (\<Phi>s ! i) \<rho>)) \<and>
     (\<forall>m \<rho> f. typed d \<rho> \<longrightarrow> mdl (mv_solver v) m \<longrightarrow> agree m \<rho> v \<longrightarrow> (\<forall>i<length bs. f i \<longrightarrow> (\<Phi>s ! i) \<rho>) \<longrightarrow>
        (\<exists>m'. mdl (mv_solver v') m' \<and> agree m' \<rho> v' \<and> (\<forall>b. ok (mv_solver v) b \<longrightarrow> val m' b = val m b) \<and>
           (\<forall>i<length bs. val m' (bs ! i) = f i)))"

lemma enabledD:
  assumes "enabled d v v' bs \<Phi>s"
  shows "length bs = length \<Phi>s" "vwf d v'" "\<forall>b\<in>set bs. ok (mv_solver v') b" "ok (mv_solver v) b \<Longrightarrow> ok (mv_solver v') b"
    "mdl (mv_solver v') m \<Longrightarrow> mdl (mv_solver v) m" "mdl (mv_solver v') m \<Longrightarrow> agree m \<rho> v' \<Longrightarrow> agree m \<rho> v"
    "mdl (mv_solver v') m \<Longrightarrow> agree m \<rho> v' \<Longrightarrow> i < length bs \<Longrightarrow> val m (bs ! i) \<Longrightarrow> (\<Phi>s ! i) \<rho>"
    "typed d \<rho> \<Longrightarrow> mdl (mv_solver v) m \<Longrightarrow> agree m \<rho> v \<Longrightarrow> (\<And>i. i < length bs \<Longrightarrow> f i \<Longrightarrow> (\<Phi>s ! i) \<rho>) \<Longrightarrow>
      \<exists>m'. mdl (mv_solver v') m' \<and> agree m' \<rho> v' \<and> (\<forall>b. ok (mv_solver v) b \<longrightarrow> val m' b = val m b) \<and>
        (\<forall>i<length bs. val m' (bs ! i) = f i)"
proof -
  note D = assms [unfolded enabled_def]
  show "length bs = length \<Phi>s" "vwf d v'" "\<forall>b\<in>set bs. ok (mv_solver v') b" "ok (mv_solver v) b \<Longrightarrow> ok (mv_solver v') b"
    "mdl (mv_solver v') m \<Longrightarrow> mdl (mv_solver v) m" "mdl (mv_solver v') m \<Longrightarrow> agree m \<rho> v' \<Longrightarrow> agree m \<rho> v"
    "mdl (mv_solver v') m \<Longrightarrow> agree m \<rho> v' \<Longrightarrow> i < length bs \<Longrightarrow> val m (bs ! i) \<Longrightarrow> (\<Phi>s ! i) \<rho>"
    using D by simp_all
  show "\<exists>m'. mdl (mv_solver v') m' \<and> agree m' \<rho> v' \<and> (\<forall>b. ok (mv_solver v) b \<longrightarrow> val m' b = val m b) \<and>
        (\<forall>i<length bs. val m' (bs ! i) = f i)"
    if "typed d \<rho>" "mdl (mv_solver v) m" "agree m \<rho> v" "\<And>i. i < length bs \<Longrightarrow> f i \<Longrightarrow> (\<Phi>s ! i) \<rho>"
    by (rule D [THEN conjunct2, THEN conjunct2, THEN conjunct2, THEN conjunct2, THEN conjunct2, THEN conjunct2, rule_format])
      (use that in auto)
qed

lemma enabled_Nil: "vwf d v \<Longrightarrow> enabled d v v [] []"
  by (auto simp: enabled_def)

lemma enabled_append:
  assumes a: "enabled d u v as \<Psi>s" and b: "enabled d v w bs \<Phi>s"
  shows "enabled d u w (as @ bs) (\<Psi>s @ \<Phi>s)"
proof -
  note A = enabledD [OF a] and B = enabledD [OF b]
  have only: "((\<Psi>s @ \<Phi>s) ! i) \<rho>"
    if m: "mdl (mv_solver w) m" "agree m \<rho> w" and i: "i < length (as @ bs)" "val m ((as @ bs) ! i)" for m \<rho> i
  proof (cases "i < length as")
    case True
    then have "(\<Psi>s ! i) \<rho>" using A(7) [OF B(5) [OF m(1)] B(6) [OF m]] i(2) by (simp add: nth_append)
    then show ?thesis using True A(1) by (simp add: nth_append)
  next
    case False
    then have "(\<Phi>s ! (i - length as)) \<rho>" using B(7) [OF m, of "i - length as"] i by (simp add: nth_append)
    then show ?thesis using False A(1) by (simp add: nth_append)
  qed
  have any: "\<exists>m'. mdl (mv_solver w) m' \<and> agree m' \<rho> w \<and> (\<forall>b. ok (mv_solver u) b \<longrightarrow> val m' b = val m b) \<and>
      (\<forall>i<length (as @ bs). val m' ((as @ bs) ! i) = f i)"
    if m: "typed d \<rho>" "mdl (mv_solver u) m" "agree m \<rho> u" and f: "\<forall>i<length (as @ bs). f i \<longrightarrow> ((\<Psi>s @ \<Phi>s) ! i) \<rho>" for m \<rho> f
  proof -
    have fa: "(\<Psi>s ! i) \<rho>" if "i < length as" "f i" for i 
      using f [rule_format, of i] that A(1) by (simp add: nth_append)
    have fb: "(\<Phi>s ! i) \<rho>" if "i < length bs" "f (length as + i)" for i
      using f [rule_format, of "length as + i"] that A(1) by (simp add: nth_append)
    have "\<exists>m'. mdl (mv_solver v) m' \<and> agree m' \<rho> v \<and> (\<forall>b. ok (mv_solver u) b \<longrightarrow> val m' b = val m b) \<and>
        (\<forall>i<length as. val m' (as ! i) = f i)"
      by (rule A(8) [OF m]) (rule fa)
    then obtain m1 where m1: "mdl (mv_solver v) m1" "agree m1 \<rho> v" "\<forall>b. ok (mv_solver u) b \<longrightarrow> val m1 b = val m b"
      "\<forall>i<length as. val m1 (as ! i) = f i"
      by (elim exE conjE)
    have "\<exists>m'. mdl (mv_solver w) m' \<and> agree m' \<rho> w \<and> (\<forall>b. ok (mv_solver v) b \<longrightarrow> val m' b = val m1 b) \<and>
        (\<forall>i<length bs. val m' (bs ! i) = f (length as + i))"
      by (rule B(8) [OF m(1) m1(1,2)]) (rule fb)
    then obtain m2 where m2: "mdl (mv_solver w) m2" "agree m2 \<rho> w" "\<forall>b. ok (mv_solver v) b \<longrightarrow> val m2 b = val m1 b"
      "\<forall>i<length bs. val m2 (bs ! i) = f (length as + i)"
      by (elim exE conjE)
    have "val m2 ((as @ bs) ! i) = f i" if i: "i < length (as @ bs)" for i
    proof (cases "i < length as")
      case True
      then show ?thesis using m1(4) m2(3) A(3) by (simp add: nth_append)
    next
      case False
      then show ?thesis using m2(4) [rule_format, of "i - length as"] i by (simp add: nth_append)
    qed
    then show ?thesis using m2(1-3) m1(3) A(4) by (intro exI [of _ m2]) simp
  qed
  have "ok (mv_solver u) x \<longrightarrow> ok (mv_solver w) x" for x using A(4) B(4) by blast
  moreover have "\<forall>x\<in>set (as @ bs). ok (mv_solver w) x" using A(3) B(3,4) by auto
  moreover have "mdl (mv_solver w) m \<longrightarrow> mdl (mv_solver u) m" "mdl (mv_solver w) m \<longrightarrow> agree m \<rho> w \<longrightarrow> agree m \<rho> u" for m \<rho>
    using A(5,6) B(5,6) by blast+
  moreover have "length (as @ bs) = length (\<Psi>s @ \<Phi>s)" using A(1) B(1) by simp
  ultimately show ?thesis unfolding enabled_def using B(2) only any by blast
qed

lemma enable_one:
  assumes v: "vwf d v" and "means v (Base c) \<Phi>" and var: "ps_var P (mv_solver v) = (b, s1)"
    and i: "ps_op2 P implies_tag b c s1 = (i, s2)"
  shows "enabled d v (v\<lparr>mv_solver := ps_assertion P i s2\<rparr>) [b] [\<Phi>]"
proof -
  let ?s = "mv_solver v" and ?s3 = "ps_assertion P i s2"
  have w: "wfs ?s" and okc: "ok ?s c" and vc: "\<And>m \<rho>. mdl ?s m \<Longrightarrow> agree m \<rho> v \<Longrightarrow> val m c = \<Phi> \<rho>"
    using v assms(2) by (auto simp: vwf_def means_def)
  have e1: "extends wfs ok mdl val ?s s1" "ok s1 b" using var_law [OF w var] by auto
  have I: "extends wfs ok mdl val s1 s2" "ok s2 i" "\<And>m. mdl s2 m \<Longrightarrow> val m i = (val m b \<longrightarrow> val m c)"
    using op2_law [OF extendsD(1) [OF e1(1)] e1(2) extendsD(2) [OF e1(1) okc] i] by auto
  note A = assertion_law [OF extendsD(1) [OF I(1)] I(2)]
  have keep: "ok ?s3 x" if "ok ?s x" for x using A extendsD(2) [OF I(1)] extendsD(2) [OF e1(1) that] by blast
  have okb: "ok ?s3 b" using A extendsD(2) [OF I(1) e1(2)] by blast
  have mdl3: "mdl ?s m" "val m b \<longrightarrow> val m c" if "mdl ?s3 m" for m
    using that A extendsD(4) [OF e1(1)] extendsD(4) [OF I(1)] I(3) by auto
  have ag: "agree m \<rho> (v\<lparr>mv_solver := ?s3\<rparr>) = agree m \<rho> v" for m \<rho> by (simp add: agree_def)
  have wf: "vwf d (v\<lparr>mv_solver := ?s3\<rparr>)" using v A keep by (auto simp: vwf_def usable_def)
  have any: "\<exists>m'. mdl ?s3 m' \<and> agree m' \<rho> v \<and> (\<forall>x. ok ?s x \<longrightarrow> val m' x = val m x) \<and> val m' b = f"
    if m: "mdl ?s m" "agree m \<rho> v" and f: "f \<longrightarrow> \<Phi> \<rho>" for m \<rho> f
  proof -
    obtain m1 where m1: "mdl s1 m1" "\<forall>x. ok ?s x \<longrightarrow> val m1 x = val m x" "val m1 b = f"
      using var_free [OF w var m(1)] by blast
    obtain m2 where m2: "mdl s2 m2" "\<forall>x. ok s1 x \<longrightarrow> val m2 x = val m1 x" using I(1) m1(1) unfolding extends_def by blast
    have same: "\<forall>x. ok ?s x \<longrightarrow> val m2 x = val m x" using m1(2) m2(2) extendsD(2) [OF e1(1)] by simp
    have "val m2 b = f" using m2(2) e1(2) m1(3) by simp
    moreover have "val m2 c = \<Phi> \<rho>" using same okc vc [OF m] by simp
    ultimately have "mdl ?s3 m2" using A m2(1) I(3) f by auto
    then show ?thesis using same \<open>val m2 b = f\<close> agree_keep [OF v m(2) same] by blast
  qed
  have only: "\<Phi> \<rho>" if "mdl ?s3 m" "agree m \<rho> v" "val m b" for m \<rho>
    using vc [OF mdl3(1) [OF that(1)] that(2)] mdl3(2) [OF that(1)] that(3) by simp
  show ?thesis
    unfolding enabled_def using wf okb keep mdl3(1) only any by (auto simp: ag)
qed

lemma enable_constraints_correct:
  assumes "vwf d v" and "\<forall>(k, n)\<in>set ns. decls_ok d n \<and> sort_of n = Some SBool"
  shows "\<exists>sm v'. enable_constraints P ns v = Inr (sm, v') \<and> map fst sm = map fst ns \<and>
    enabled d v v' (map snd sm) (map (\<lambda>e \<rho>. smt_sem \<rho> (snd e) = VBool True) ns)"
  using assms
proof (induction ns arbitrary: v)
  case Nil
  then show ?case by (simp add: enabled_Nil)
next
  case (Cons e ns)
  obtain k n where e: "e = (k, n)" by fastforce
  obtain x w where w: "rbind (meta_visit P n v) mv_pop = Inr ((x, smt_sign n), w)" "vext d v w"
    "means w x (\<lambda>\<rho>. smt_sem \<rho> n = VBool True)"
    using visit_bool [OF Cons.prems(1), of n] Cons.prems(2) by (auto simp: e)
  obtain c where c: "x = Base c" using w(3) by (auto simp: means_def)
  obtain b s1 where b: "ps_var P (mv_solver w) = (b, s1)" by fastforce
  obtain i s2 where i: "ps_op2 P implies_tag b c s1 = (i, s2)" by fastforce
  have wf: "vwf d w" using vextD(1) [OF w(2)] .
  let ?w = "w\<lparr>mv_solver := ps_assertion P i s2\<rparr>"
  have "enabled d v w [] []"
    using w(2) wf unfolding enabled_def vext_def by (auto simp: agree_def map_le_def dom_def)
  then have one: "enabled d v ?w [b] [\<lambda>\<rho>. smt_sem \<rho> n = VBool True]"
    using enabled_append enable_one [OF wf w(3) [unfolded c] b i] by fastforce
  obtain sm v' where IH: "enable_constraints P ns ?w = Inr (sm, v')" "map fst sm = map fst ns"
    "enabled d ?w v' (map snd sm) (map (\<lambda>e \<rho>. smt_sem \<rho> (snd e) = VBool True) ns)"
    using Cons.IH [OF enabledD(2) [OF one]] Cons.prems(2) by auto
  have "enable_constraints P (e # ns) v = Inr ((k, b) # sm, v')"
    using IH(1) w(1) by (simp add: e rbind_pop c bb_op2_def bb_assertion_def b i)
  then show ?case using IH(2) enabled_append [OF one IH(3)] by (simp add: e)
qed

section \<open>Contradictions\<close>

lemma read_all_full: "map fst sm = [0..<n] \<Longrightarrow> i \<le> n \<Longrightarrow> read_all x i sm = sm"
proof (induction "n - i" arbitrary: i)
  case 0
  then have "length sm = n" by (metis length_map length_upt minus_nat.diff_0)
  then show ?case using 0 by (subst read_all.simps) simp
next
  case (Suc k)
  then have "i \<in> fst ` set sm" by (metis Suc.prems(1) atLeastLessThan_iff diff_is_0_eq list.set_map nat.distinct(2) not_le set_upt zero_le)
  have "map_ok sm" by (simp add: map_ok_def Suc.prems(1))
  then have "map_insert (i, x) sm = sm"
    using \<open>i \<in> fst ` set sm\<close>
  proof (induction sm)
    case (Cons d ds)
    have "\<not> i < fst d" using Cons.prems by (auto simp: map_ok_def)
    then show ?case using Cons by (auto simp: map_ok_def)
  qed simp
  then show ?case using Suc.hyps(1) [of "i + 1"] Suc by (subst read_all.simps) auto
qed

text \<open>Sets of Booleans and sets of constraints.\<close>

lemma feasible_enabled:
  assumes e: "enabled d v v' (map snd sm) \<Phi>s" and keys: "map fst sm = [0..<length \<Phi>s]"
    and s: "extends wfs ok mdl val (mv_solver v') s" and t: "\<And>m. mdl s m \<Longrightarrow> val m t" and v: "vwf d v" and I: "I \<subseteq> {..<length \<Phi>s}"
  shows "feasible s t (snd ` {e \<in> set sm. fst e \<in> I}) \<longleftrightarrow> (\<exists>\<rho>\<in>sols d v. \<forall>i\<in>I. (\<Phi>s ! i) \<rho>)"
proof -
  note E = enabledD [OF e]
  have len: "length sm = length \<Phi>s" using E(1) by simp
  have nth: "fst (sm ! i) = i" if "i < length \<Phi>s" for i using keys len that by (metis add_0 nth_map nth_upt)
  have set: "snd ` {e \<in> set sm. fst e \<in> I} = (\<lambda>i. map snd sm ! i) ` I"
  proof (intro set_eqI iffI)
    fix b assume "b \<in> snd ` {e \<in> set sm. fst e \<in> I}"
    then obtain i where "i < length sm" "sm ! i = (fst (sm ! i), b)" "fst (sm ! i) \<in> I" by (auto simp: in_set_conv_nth)
    then show "b \<in> (\<lambda>i. map snd sm ! i) ` I" using nth len by (metis image_eqI nth_map snd_conv)
  next
    fix b assume "b \<in> (\<lambda>i. map snd sm ! i) ` I"
    then obtain i where i: "i \<in> I" "b = map snd sm ! i" by auto
    then have "i < length sm" using I len by auto
    then have "b = snd (sm ! i)" "sm ! i \<in> set sm" "fst (sm ! i) \<in> I" using i nth [of i] len by simp_all
    then show "b \<in> snd ` {e \<in> set sm. fst e \<in> I}" by blast
  qed
  show ?thesis unfolding set feasible_def
  proof
    assume "\<exists>m. mdl s m \<and> val m t \<and> (\<forall>b\<in>(\<lambda>i. map snd sm ! i) ` I. val m b)"
    then obtain m where m: "mdl s m" "\<And>i. i \<in> I \<Longrightarrow> val m (map snd sm ! i)" by blast
    then have mv: "mdl (mv_solver v') m" using extendsD(4) [OF s] by blast
    let ?\<rho> = "assign_of d v' m"
    have \<rho>: "typed d ?\<rho>" "agree m ?\<rho> v'" using assign_of [OF E(2)] by auto
    have "?\<rho> \<in> sols d v" unfolding sols_def using \<rho> E(5) [OF mv] E(6) [OF mv \<rho>(2)] by blast
    moreover have "(\<Phi>s ! i) ?\<rho>" if "i \<in> I" for i
      by (rule E(7) [OF mv \<rho>(2) _ m(2) [OF that]]) (use I that len in auto)
    ultimately show "\<exists>\<rho>\<in>sols d v. \<forall>i\<in>I. (\<Phi>s ! i) \<rho>" by blast
  next
    assume "\<exists>\<rho>\<in>sols d v. \<forall>i\<in>I. (\<Phi>s ! i) \<rho>"
    then obtain \<rho> m where \<rho>: "typed d \<rho>" "mdl (mv_solver v) m" "agree m \<rho> v" "\<And>i. i \<in> I \<Longrightarrow> (\<Phi>s ! i) \<rho>" by (auto simp: sols_def)
    have "\<exists>m'. mdl (mv_solver v') m' \<and> agree m' \<rho> v' \<and> (\<forall>b. ok (mv_solver v) b \<longrightarrow> val m' b = val m b) \<and>
        (\<forall>i<length (map snd sm). val m' (map snd sm ! i) = (i \<in> I))"
      by (rule E(8) [OF \<rho>(1-3)]) (use \<rho>(4) in auto)
    then obtain m1 where m1: "mdl (mv_solver v') m1" "\<forall>i<length sm. val m1 (map snd sm ! i) = (i \<in> I)" by auto
    then obtain m2 where m2: "mdl s m2" "\<forall>b. ok (mv_solver v') b \<longrightarrow> val m2 b = val m1 b" using s unfolding extends_def by blast
    have "val m2 (map snd sm ! i)" if "i \<in> I" for i
    proof -
      have i: "i < length sm" using that I len by auto
      then have "map snd sm ! i \<in> set (map snd sm)" by simp
      then show ?thesis using E(3) m2(2) m1(2) i that by simp
    qed
    then show "\<exists>m. mdl s m \<and> val m t \<and> (\<forall>b\<in>(\<lambda>i. map snd sm ! i) ` I. val m b)" using m2(1) t by blast
  qed
qed

lemma minimal_conflict_keys:
  assumes "minimal_conflict s t sm [] r" and "map_ok sm"
  shows "sorted_wrt (<) r" "set r \<subseteq> fst ` set sm" "\<not> feasible s t (snd ` {e \<in> set sm. fst e \<in> set r})"
    "k \<in> set r \<Longrightarrow> feasible s t (snd ` {e \<in> set sm. fst e \<in> set r - {k}})"
proof -
  obtain R where R: "r = map fst R" "map_ok R" "set R \<subseteq> set sm" "\<not> feasible s t (snd ` set R)"
    "\<forall>e\<in>set R. feasible s t (snd ` (set R - {e}))"
    using assms(1) by (auto simp: minimal_conflict_def)
  have eq: "{e \<in> set sm. fst e \<in> fst ` M} = M" if "M \<subseteq> set R" for M
  proof -
    have "M \<subseteq> set sm" using that R(3) by blast
    show ?thesis
    proof (intro set_eqI iffI)
      fix e assume "e \<in> {e \<in> set sm. fst e \<in> fst ` M}"
      then obtain e' where "e \<in> set sm" "e' \<in> M" "fst e = fst e'" by auto
      then show "e \<in> M" using map_ok_inj [OF assms(2), of e e'] \<open>M \<subseteq> set sm\<close> by auto
    qed (use \<open>M \<subseteq> set sm\<close> in auto)
  qed
  show "sorted_wrt (<) r" "set r \<subseteq> fst ` set sm" using R(1-3) by (auto simp: map_ok_def)
  show "\<not> feasible s t (snd ` {e \<in> set sm. fst e \<in> set r})" using R(4) eq [of "set R"] by (simp add: R(1))
  assume "k \<in> set r"
  then obtain e where e: "e \<in> set R" "fst e = k" by (auto simp: R(1))
  have "fst e' \<noteq> k" if "e' \<in> set R" "e' \<noteq> e" for e' using map_ok_inj [OF R(2) that(1) e(1)] that(2) e(2) by auto
  then have "set r - {k} = fst ` (set R - {e})" using e(2) by (force simp: R(1))
  then show "feasible s t (snd ` {e \<in> set sm. fst e \<in> set r - {k}})" using R(5) e(1) eq [of "set R - {e}"] by auto
qed

theorem analyseContradiction_correct:
  assumes slv: "answers slv" and enc: "enc \<in> {''bdd'', ''adder''}" and v: "vwf d v" and "sols d v \<noteq> {}"
    and ns: "\<forall>n\<in>set ns. decls_ok d n \<and> sort_of n = Some SBool" and len: "length ns < 2 ^ 32"
  defines "Poss \<equiv> \<lambda>I. \<exists>\<rho>\<in>sols d v. \<forall>i\<in>I. smt_sem \<rho> (ns ! i) = VBool True"
  shows "\<exists>rs v'. analyseContradiction P enc slv x (List.enumerate 0 ns) v = Inr (rs, v') \<and>
    (rs = [] \<longleftrightarrow> Poss {..<length ns}) \<and>
    (\<forall>r\<in>set rs. sorted_wrt (<) r \<and> set r \<subseteq> {..<length ns} \<and> \<not> Poss (set r) \<and> (\<forall>k\<in>set r. Poss (set r - {k}))) \<and>
    Poss {i. i < length ns \<and> (\<forall>r\<in>set rs. i \<notin> set r)}"
proof -
  let ?n = "length ns"
  let ?\<Phi>s = "map (\<lambda>e \<rho>. smt_sem \<rho> (snd e) = VBool True) (List.enumerate 0 ns)"
  have "\<forall>(k, n)\<in>set (List.enumerate 0 ns). decls_ok d n \<and> sort_of n = Some SBool"
    using ns by (auto simp: in_set_enumerate_eq)
  then obtain sm v1 where sm: "enable_constraints P (List.enumerate 0 ns) v = Inr (sm, v1)" "map fst sm = [0..<?n]"
    and en: "enabled d v v1 (map snd sm) ?\<Phi>s"
    using enable_constraints_correct [OF v, of "List.enumerate 0 ns"] by (auto simp: map_fst_enumerate)
  note E = enabledD [OF en]
  obtain t s where t: "ps_true P (mv_solver v1) = (t, s)" by fastforce
  have w1: "wfs (mv_solver v1)" using E(2) by (simp add: vwf_def)
  have T: "extends wfs ok mdl val (mv_solver v1) s" "ok s t" "\<And>m. mdl s m \<Longrightarrow> val m t"
    using true_law [OF w1 t] by auto
  have feas: "feasible s t (snd ` {e \<in> set sm. fst e \<in> I}) \<longleftrightarrow> Poss I" if "I \<subseteq> {..<?n}" for I
  proof -
    have "feasible s t (snd ` {e \<in> set sm. fst e \<in> I}) \<longleftrightarrow> (\<exists>\<rho>\<in>sols d v. \<forall>i\<in>I. (?\<Phi>s ! i) \<rho>)"
      by (rule feasible_enabled [OF en _ T(1) T(3) v]) (use sm(2) that in simp_all)
    also have "\<dots> \<longleftrightarrow> Poss I" unfolding Poss_def using that by (auto simp: nth_enumerate_eq subset_iff)
    finally show ?thesis .
  qed
  have keys: "fst ` set sm = {..<?n}" using sm(2) by (metis atLeast_upt list.set_map)
  have ok_sm: "map_ok sm" using sm(2) by (simp add: map_ok_def)
  have all: "{e \<in> set sm. fst e \<in> {..<?n}} = set sm" using keys by auto
  have len_sm: "length sm = ?n" using sm(2) by (metis length_map length_upt minus_nat.diff_0)
  have oks: "\<forall>e\<in>set sm. ok s (snd e)" using E(3) extendsD(2) [OF T(1)] by auto
  have base: "feasible s t {}" using feas [of "{}"] assms(4) by (auto simp: Poss_def)
  obtain rs s' where rs: "analyze_conflicts P enc slv x sm t s = Inr (rs, s')"
    "rs = [] \<longleftrightarrow> feasible s t (snd ` set sm)" "\<forall>r\<in>set rs. minimal_conflict s t sm [] r" "covers s t sm [] rs"
  proof (cases "slv s (t # map snd sm)")
    case (Some rd)
    have "\<forall>a\<in>set (t # map snd sm). ok s a" using T(2) oks by simp
    then obtain m where "mdl s m" "\<forall>a\<in>set (t # map snd sm). val m a"
      using answers_Some [OF slv extendsD(1) [OF T(1)] _ Some] by blast
    then have "feasible s t (snd ` set sm)" by (auto simp: feasible_def)
    then show ?thesis by (intro that [of "[]" s]) (auto simp: analyze_conflicts_def Some covers_def)
  next
    case None
    have no: "\<not> feasible s t (snd ` set sm)"
      using answers_None [OF slv extendsD(1) [OF T(1)] _ None] T(2) oks unfolding feasible_def by fastforce
    have read: "read_all x 0 sm = sm" using read_all_full [OF sm(2)] by simp
    show ?thesis
    proof (cases "?n = 1")
      case True
      then obtain b where b: "sm = [(0, b)]" using sm(2) len_sm by (cases sm) auto
      have "minimal_conflict s t sm [] [0]"
        unfolding minimal_conflict_def by (rule exI [of _ sm]) (use no base ok_sm b in auto)
      moreover have "{e \<in> set sm. \<forall>r\<in>set [[0]]. fst e \<notin> set r} = {}" using b by auto
      then have "covers s t sm [] [[0]]" unfolding covers_def list.set(1) Un_empty_left by (simp only: image_empty base simp_thms)
      ultimately show ?thesis using no by (intro that [of "[[0]]" s]) (simp_all add: analyze_conflicts_def None read Let_def len_sm True)
    next
      case False
      have "conflict_inv s t sm []" using ok_sm no T(2) oks len by (simp add: conflict_inv_def len_sm map_ok_def)
      then obtain rs s' where "analyze_multiple_conflict P enc slv t sm [] s = Inr (rs, s')" "rs \<noteq> []"
        "\<forall>r\<in>set rs. minimal_conflict s t sm [] r" "covers s t sm [] rs"
        using analyze_multiple_conflict_correct [OF slv enc extendsD(1) [OF T(1)]] by blast
      then show ?thesis using no False by (intro that [of rs s']) (simp_all add: analyze_conflicts_def None read Let_def len_sm)
    qed
  qed
  have sub: "set r \<subseteq> {..<?n}" if "r \<in> set rs" for r
    using minimal_conflict_keys(2) [OF bspec [OF rs(3) that] ok_sm] keys by simp
  have "sorted_wrt (<) r \<and> set r \<subseteq> {..<?n} \<and> \<not> Poss (set r) \<and> (\<forall>k\<in>set r. Poss (set r - {k}))" if r: "r \<in> set rs" for r
  proof -
    note M = minimal_conflict_keys [OF bspec [OF rs(3) r] ok_sm]
    have "Poss (set r - {k})" if "k \<in> set r" for k
      by (rule feas [THEN iffD1]) (use sub [OF r] M(4) [OF that] in blast)+
    then show ?thesis using M(1,3) sub [OF r] feas [OF sub [OF r]] by blast
  qed
  moreover have "Poss {i. i < ?n \<and> (\<forall>r\<in>set rs. i \<notin> set r)}"
  proof -
    have "{e \<in> set sm. \<forall>r\<in>set rs. fst e \<notin> set r} = {e \<in> set sm. fst e \<in> {i. i < ?n \<and> (\<forall>r\<in>set rs. i \<notin> set r)}}" using keys by auto
    then show ?thesis using rs(4) base feas [of "{i. i < ?n \<and> (\<forall>r\<in>set rs. i \<notin> set r)}"] by (auto simp: covers_def)
  qed
  moreover have "rs = [] \<longleftrightarrow> Poss {..<?n}" using rs(2) feas [of "{..<?n}"] all by simp
  moreover have "analyseContradiction P enc slv x (List.enumerate 0 ns) v = Inr (rs, v1\<lparr>mv_solver := s'\<rparr>)"
    by (simp add: analyseContradiction_def sm(1) t rs(1))
  ultimately show ?thesis by blast
qed

end

end
