(* ===== verification/Eval.thy ===== *)
theory Eval
  imports Node "HOL-Library.Signed_Division"
begin

unbundle bit_operations_syntax

text \<open>
  The evaluator of expressions under a partial assignment: \<open>EvalVisitor\<close> (\<open>EvalVisitor.hpp\<close>,
  \<open>EvalVisitor.cpp\<close>) and the class \<open>Evaluator\<close> around it (\<open>utils/Evaluator.hpp\<close>,
  \<open>Evaluator.cpp\<close>). A stack entry is a constant with a flag that says whether the value is known.
  All arithmetic is done on \<open>uint64_t\<close>; the width and the sign are carried along.

  \<open>visitEqualOpr\<close> casts both operands to \<open>VariableExpr\<close> without a check and reads an identifier.
  What that read finds in an operand of another class is not defined by the language: the model
  takes it as the parameter \<open>rawid\<close>, and the theorems hold for every \<open>rawid\<close>.
\<close>

section \<open>The visitor\<close>

type_synonym eval_entry = "const_t \<times> bool"
type_synonym eval_map = "nat \<rightharpoonup> const_t"

record eval_state =
  exprStack :: "eval_entry list"
  evalMap :: eval_map

definition push_entry :: "eval_entry \<Rightarrow> eval_state \<Rightarrow> eval_state" where
  "push_entry e s = s\<lparr>exprStack := e # exprStack s\<rparr>"

definition lookup_entry :: "eval_map \<Rightarrow> nat \<Rightarrow> eval_entry" where
  "lookup_entry m i = (case m i of Some c \<Rightarrow> (c, True) | None \<Rightarrow> (Constant_default, False))"

fun eval_unop :: "unop \<Rightarrow> eval_entry \<Rightarrow> eval_entry result" where
  "eval_unop NotOpr (c, k) = Inr (Constant_bool (cvalue c = 0), k)"
| "eval_unop NegOpr (c, k) = Inr (Constant (- cvalue c) (cbitsize c) (csign c), k)"
| "eval_unop ComplementOpr (c, k) = Inr (Constant (NOT (cvalue c)) (cbitsize c) (csign c), k)"
| "eval_unop Unique e = Inl (RuntimeError ''Unique is not allowed in EvalVisitor.'')"

definition eval_inside :: "const_t list \<Rightarrow> eval_entry \<Rightarrow> eval_entry" where
  "eval_inside cs e =
     (Constant_bool (foldl (\<lambda>result c. if cvalue c = cvalue (fst e) then True else result) False cs),
      snd e)"

definition eval_extend :: "nat \<Rightarrow> eval_entry \<Rightarrow> eval_entry" where
  "eval_extend k e = (Constant (cvalue (fst e)) (cbitsize (fst e) + k) (csign (fst e)), snd e)"

text \<open>Results of the arithmetic and bitwise operators, and of the predicates.\<close>

definition num_entry :: "u64 \<Rightarrow> eval_entry \<Rightarrow> eval_entry \<Rightarrow> eval_entry" where
  "num_entry v lhs rhs =
     (Constant v (cbitsize (fst lhs)) (csign (fst lhs) \<or> csign (fst rhs)), snd lhs \<and> snd rhs)"

definition bool_entry :: "bool \<Rightarrow> eval_entry \<Rightarrow> eval_entry \<Rightarrow> eval_entry" where
  "bool_entry b lhs rhs = (Constant_bool b, snd lhs \<and> snd rhs)"

text \<open>
  Division and remainder: signed (\<open>long long\<close>, truncating) as soon as one operand is signed. A zero
  divisor gives an unknown default constant; \<open>LLONG_MIN / -1\<close> is undefined.
\<close>

definition div_entry ::
    "(int \<Rightarrow> int \<Rightarrow> int) \<Rightarrow> (u64 \<Rightarrow> u64 \<Rightarrow> u64) \<Rightarrow> eval_entry \<Rightarrow> eval_entry \<Rightarrow> eval_entry result" where
  "div_entry sop uop lhs rhs =
     (let x = cvalue (fst lhs); y = cvalue (fst rhs) in
      if y = 0 then Inr (Constant_default, False)
      else if csign (fst lhs) \<or> csign (fst rhs) then
        (if sint x = - (2 ^ 63) \<and> sint y = - 1 then Inl UndefinedBehaviour
         else Inr (Constant (word_of_int (sop (sint x) (sint y))) (cbitsize (fst lhs)) True,
                   snd lhs \<and> snd rhs))
      else Inr (Constant (uop x y) (cbitsize (fst lhs)) False, snd lhs \<and> snd rhs))"

text \<open>A shift by 64 or more is undefined.\<close>

definition shift_entry ::
    "(nat \<Rightarrow> u64 \<Rightarrow> u64) \<Rightarrow> eval_entry \<Rightarrow> eval_entry \<Rightarrow> eval_entry result" where
  "shift_entry sh lhs rhs =
     (if unat (cvalue (fst rhs)) \<ge> 64 then Inl UndefinedBehaviour
      else Inr (num_entry (sh (unat (cvalue (fst rhs))) (cvalue (fst lhs))) lhs rhs))"

fun eval_binop :: "binop \<Rightarrow> eval_entry \<Rightarrow> eval_entry \<Rightarrow> eval_entry result" where
  "eval_binop AndOpr l r = Inr (num_entry (cvalue (fst l) AND cvalue (fst r)) l r)"
| "eval_binop OrOpr l r = Inr (num_entry (cvalue (fst l) OR cvalue (fst r)) l r)"
| "eval_binop LogicalAndOpr l r = Inr (bool_entry (cvalue (fst l) \<noteq> 0 \<and> cvalue (fst r) \<noteq> 0) l r)"
| "eval_binop LogicalOrOpr l r = Inr (bool_entry (cvalue (fst l) \<noteq> 0 \<or> cvalue (fst r) \<noteq> 0) l r)"
| "eval_binop XorOpr l r = Inr (num_entry (cvalue (fst l) XOR cvalue (fst r)) l r)"
| "eval_binop EqualOpr l r = Inr (bool_entry (cvalue (fst l) = cvalue (fst r)) l r)"
| "eval_binop NotEqualOpr l r = Inr (bool_entry (cvalue (fst l) \<noteq> cvalue (fst r)) l r)"
| "eval_binop LessOpr l r = Inr (bool_entry (cvalue (fst l) < cvalue (fst r)) l r)"
| "eval_binop LessEqualOpr l r = Inr (bool_entry (cvalue (fst l) \<le> cvalue (fst r)) l r)"
| "eval_binop GreaterOpr l r = Inr (bool_entry (cvalue (fst l) > cvalue (fst r)) l r)"
| "eval_binop GreaterEqualOpr l r = Inr (bool_entry (cvalue (fst l) \<ge> cvalue (fst r)) l r)"
| "eval_binop PlusOpr l r = Inr (num_entry (cvalue (fst l) + cvalue (fst r)) l r)"
| "eval_binop MinusOpr l r = Inr (num_entry (cvalue (fst l) - cvalue (fst r)) l r)"
| "eval_binop MultipliesOpr l r = Inr (num_entry (cvalue (fst l) * cvalue (fst r)) l r)"
| "eval_binop DevideOpr l r = div_entry (\<lambda>x y. x sdiv y) (\<lambda>x y. x div y) l r"
| "eval_binop ModuloOpr l r = div_entry (\<lambda>x y. x smod y) (\<lambda>x y. x mod y) l r"
| "eval_binop ShiftLeftOpr l r = shift_entry push_bit l r"
| "eval_binop ShiftRightOpr l r = shift_entry drop_bit l r"
| "eval_binop ForEach l r = Inl (RuntimeError ''ForEach is not allowed in EvalVisitor.'')"

text \<open>
  \<open>visitBitslice\<close> builds the mask with a loop over the bit indices; a shift by a negative number or
  by 64 or more is undefined. The entry it pushes is never known.
\<close>

definition slice_mask :: "int \<Rightarrow> int \<Rightarrow> u64" where
  "slice_mask r l = foldl (\<lambda>v i. v OR push_bit (nat i) 1) 0 [l..r]"

definition eval_bitslice :: "int \<Rightarrow> int \<Rightarrow> eval_entry \<Rightarrow> eval_entry result" where
  "eval_bitslice r l e =
     (if (\<exists>i\<in>set [l..r]. i < 0 \<or> i \<ge> 64) \<or> l < 0 \<or> l \<ge> 64 then Inl UndefinedBehaviour
      else Inr (Constant (drop_bit (nat l) (slice_mask r l AND cvalue (fst e)))
                  (nat ((r - l + 1) mod 2 ^ 32)) False, False))"

text \<open>
  The unchecked cast of \<open>visitEqualOpr\<close>, and its propagation: when exactly one of two operands with
  non-zero identifiers is assigned, the other one gets the same constant.
\<close>

definition cast_id :: "(node \<Rightarrow> nat) \<Rightarrow> node \<Rightarrow> nat" where
  "cast_id rawid n = (case n of VariableExpr i b s \<Rightarrow> i | _ \<Rightarrow> rawid n)"

definition propagate_equal :: "(node \<Rightarrow> nat) \<Rightarrow> node \<Rightarrow> node \<Rightarrow> eval_map \<Rightarrow> eval_map" where
  "propagate_equal rawid lhs rhs m =
     (let v1 = cast_id rawid lhs; v2 = cast_id rawid rhs in
      if v1 \<noteq> 0 \<and> v2 \<noteq> 0 then
        (case (m v1, m v2) of
           (Some c, None) \<Rightarrow> m(v2 \<mapsto> c)
         | (None, Some c) \<Rightarrow> m(v1 \<mapsto> c)
         | _ \<Rightarrow> m)
      else m)"

fun eval_visit :: "(node \<Rightarrow> nat) \<Rightarrow> node \<Rightarrow> eval_state \<Rightarrow> eval_state result" where
  "eval_visit rawid (Placeholder i) s = Inr s"
| "eval_visit rawid (VariableExpr i b sg) s = Inr (push_entry (lookup_entry (evalMap s) i) s)"
| "eval_visit rawid (ConstantExpr c) s = Inr (push_entry (c, True) s)"
| "eval_visit rawid (VectorExpr i b sg) s = Inr (push_entry (lookup_entry (evalMap s) i) s)"
| "eval_visit rawid (UnaryOperator u n) s =
     (if u = Unique then Inl (RuntimeError ''Unique is not allowed in EvalVisitor.'')
      else rbind (eval_visit rawid n s) (\<lambda>s1.
           rbind (pop (exprStack s1)) (\<lambda>(e, st).
           rbind (eval_unop u e) (\<lambda>x. Inr (s1\<lparr>exprStack := x # st\<rparr>)))))"
| "eval_visit rawid (Inside n cs) s =
     rbind (eval_visit rawid n s) (\<lambda>s1.
     rbind (pop (exprStack s1)) (\<lambda>(e, st). Inr (s1\<lparr>exprStack := eval_inside cs e # st\<rparr>)))"
| "eval_visit rawid (ExtendExpression n k) s =
     rbind (eval_visit rawid n s) (\<lambda>s1.
     rbind (pop (exprStack s1)) (\<lambda>(e, st). Inr (s1\<lparr>exprStack := eval_extend k e # st\<rparr>)))"
| "eval_visit rawid (BinaryOperator f l r) s =
     (if f = ForEach then Inl (RuntimeError ''ForEach is not allowed in EvalVisitor.'')
      else
        (let s0 = (if f = EqualOpr
                   then s\<lparr>evalMap := propagate_equal rawid l r (evalMap s)\<rparr> else s) in
         rbind (eval_visit rawid l s0) (\<lambda>s1.
         rbind (eval_visit rawid r s1) (\<lambda>s2.
         rbind (pop2 (exprStack s2)) (\<lambda>(rhs, lhs, st).
         rbind (eval_binop f lhs rhs) (\<lambda>x. Inr (s2\<lparr>exprStack := x # st\<rparr>)))))))"
| "eval_visit rawid (VectorAccess l r) s =
     Inl (RuntimeError ''VectorAccess is not allowed in EvalVisitor.'')"
| "eval_visit rawid (IfThenElse a b c) s =
     rbind (eval_visit rawid a s) (\<lambda>s1.
     rbind (eval_visit rawid b s1) (\<lambda>s2.
     rbind (eval_visit rawid c s2) (\<lambda>s3.
     rbind (pop3 (exprStack s3)) (\<lambda>(z, y, x, st).
       Inr (s3\<lparr>exprStack := (if cvalue (fst x) \<noteq> 0 then y else z) # st\<rparr>)))))"
| "eval_visit rawid (Bitslice n r l) s =
     rbind (eval_visit rawid n s) (\<lambda>s1.
     rbind (pop (exprStack s1)) (\<lambda>(e, st).
     rbind (eval_bitslice r l e) (\<lambda>x. Inr (s1\<lparr>exprStack := x # st\<rparr>))))"

section \<open>The evaluator\<close>

text \<open>
  \<open>EvalVisitor::evaluate\<close> returns the flag and stores the value in \<open>result_\<close>; the evaluator keeps
  the assignments, the visitor's stack and the last result.
\<close>

record evaluator =
  assignments :: eval_map
  visitorStack :: "eval_entry list"
  result_value :: const_t

definition new_evaluator :: evaluator where
  "new_evaluator = \<lparr>assignments = Map.empty, visitorStack = [], result_value = Constant_default\<rparr>"

definition assign :: "nat \<Rightarrow> const_t \<Rightarrow> evaluator \<Rightarrow> evaluator" where
  "assign i c ev = ev\<lparr>assignments := (assignments ev)(i \<mapsto> c)\<rparr>"

definition assign_var :: "nat \<Rightarrow> nat \<Rightarrow> bool \<Rightarrow> u64 \<Rightarrow> evaluator \<Rightarrow> evaluator" where
  "assign_var i width sign value ev = assign i (Constant value width sign) ev"

definition evaluate :: "(node \<Rightarrow> nat) \<Rightarrow> node \<Rightarrow> evaluator \<Rightarrow> (bool \<times> evaluator) result" where
  "evaluate rawid n ev =
     rbind (eval_visit rawid n \<lparr>exprStack = visitorStack ev, evalMap = assignments ev\<rparr>) (\<lambda>s1.
     rbind (pop (exprStack s1)) (\<lambda>(e, st).
       Inr (snd e, \<lparr>assignments = evalMap s1, visitorStack = st, result_value = fst e\<rparr>)))"

definition get_result :: "evaluator \<Rightarrow> 'a::len word" where
  "get_result ev = ucast (cvalue (result_value ev))"

definition get_result_bool :: "evaluator \<Rightarrow> bool" where
  "get_result_bool ev \<longleftrightarrow> cvalue (result_value ev) \<noteq> 0"

section \<open>Meaning under a total assignment\<close>

text \<open>
  The reference: the value of a node when every variable has a value, by recursion on the node. The
  operators are those of C++ on \<open>uint64_t\<close>, written over the integers: results are taken modulo
  \<open>2 ^ 64\<close>, division and remainder truncate and are signed as soon as one operand is. \<open>None\<close> stands for a
  division by zero and for undefined or forbidden operations. A result has the width of its first
  operand.
\<close>

definition num_const :: "int \<Rightarrow> const_t \<Rightarrow> const_t \<Rightarrow> const_t" where
  "num_const v a b = Constant (word_of_int v) (cbitsize a) (csign a \<or> csign b)"

definition truncated_div :: "int \<Rightarrow> int \<Rightarrow> int" where
  "truncated_div x y = (if (x < 0) = (y < 0) then \<bar>x\<bar> div \<bar>y\<bar> else - (\<bar>x\<bar> div \<bar>y\<bar>))"

definition ref_div :: "(int \<Rightarrow> int \<Rightarrow> int) \<Rightarrow> const_t \<Rightarrow> const_t \<Rightarrow> const_t option" where
  "ref_div op a b =
     (if uint (cvalue b) = 0 then None
      else if csign a \<or> csign b then
        (if truncated_div (sint (cvalue a)) (sint (cvalue b)) = 9223372036854775808 then None
         else Some (num_const (op (sint (cvalue a)) (sint (cvalue b))) a b))
      else Some (num_const (op (uint (cvalue a)) (uint (cvalue b))) a b))"

fun ref_unop :: "unop \<Rightarrow> const_t \<Rightarrow> const_t option" where
  "ref_unop NotOpr a = Some (Constant_bool (uint (cvalue a) = 0))"
| "ref_unop NegOpr a = Some (num_const (18446744073709551616 - uint (cvalue a)) a a)"
| "ref_unop ComplementOpr a = Some (num_const (18446744073709551615 - uint (cvalue a)) a a)"
| "ref_unop Unique a = None"

fun ref_binop :: "binop \<Rightarrow> const_t \<Rightarrow> const_t \<Rightarrow> const_t option" where
  "ref_binop AndOpr a b = Some (num_const (and (uint (cvalue a)) (uint (cvalue b))) a b)"
| "ref_binop OrOpr a b = Some (num_const (or (uint (cvalue a)) (uint (cvalue b))) a b)"
| "ref_binop XorOpr a b = Some (num_const (xor (uint (cvalue a)) (uint (cvalue b))) a b)"
| "ref_binop LogicalAndOpr a b = Some (Constant_bool (\<not> (uint (cvalue a) = 0 \<or> uint (cvalue b) = 0)))"
| "ref_binop LogicalOrOpr a b = Some (Constant_bool (\<not> (uint (cvalue a) = 0 \<and> uint (cvalue b) = 0)))"
| "ref_binop EqualOpr a b = Some (Constant_bool (uint (cvalue a) = uint (cvalue b)))"
| "ref_binop NotEqualOpr a b = Some (Constant_bool (uint (cvalue a) \<noteq> uint (cvalue b)))"
| "ref_binop LessOpr a b = Some (Constant_bool (uint (cvalue a) < uint (cvalue b)))"
| "ref_binop LessEqualOpr a b = Some (Constant_bool (uint (cvalue a) \<le> uint (cvalue b)))"
| "ref_binop GreaterOpr a b = Some (Constant_bool (uint (cvalue b) < uint (cvalue a)))"
| "ref_binop GreaterEqualOpr a b = Some (Constant_bool (uint (cvalue b) \<le> uint (cvalue a)))"
| "ref_binop PlusOpr a b = Some (num_const (uint (cvalue a) + uint (cvalue b)) a b)"
| "ref_binop MinusOpr a b = Some (num_const (uint (cvalue a) - uint (cvalue b)) a b)"
| "ref_binop MultipliesOpr a b = Some (num_const (uint (cvalue a) * uint (cvalue b)) a b)"
| "ref_binop DevideOpr a b = ref_div truncated_div a b"
| "ref_binop ModuloOpr a b = ref_div (\<lambda>x y. x - truncated_div x y * y) a b"
| "ref_binop ShiftLeftOpr a b =
     (if uint (cvalue b) < 64 then Some (num_const (uint (cvalue a) * 2 ^ nat (uint (cvalue b))) a b) else None)"
| "ref_binop ShiftRightOpr a b =
     (if uint (cvalue b) < 64 then Some (num_const (uint (cvalue a) div 2 ^ nat (uint (cvalue b))) a b) else None)"
| "ref_binop ForEach a b = None"

text \<open>The bits \<open>l\<close> to \<open>r\<close> of a value, as an unsigned number.\<close>

definition ref_slice :: "int \<Rightarrow> int \<Rightarrow> const_t \<Rightarrow> const_t option" where
  "ref_slice r l c =
     (if 0 \<le> l \<and> l \<le> r \<and> r < 64
      then Some (Constant (word_of_int (uint (cvalue c) div 2 ^ nat l mod 2 ^ nat (r - l + 1))) (nat (r - l + 1)) False)
      else None)"

primrec den :: "(nat \<Rightarrow> const_t) \<Rightarrow> node \<Rightarrow> const_t option" where
  "den \<rho> (Placeholder i) = None"
| "den \<rho> (VariableExpr i b sg) = Some (\<rho> i)"
| "den \<rho> (ConstantExpr c) = Some c"
| "den \<rho> (VectorExpr i b sg) = Some (\<rho> i)"
| "den \<rho> (UnaryOperator u n) = Option.bind (den \<rho> n) (ref_unop u)"
| "den \<rho> (Inside n cs) = map_option (\<lambda>c. Constant_bool (cvalue c \<in> cvalue ` set cs)) (den \<rho> n)"
| "den \<rho> (ExtendExpression n k) =
     map_option (\<lambda>c. Constant (cvalue c) (cbitsize c + k) (csign c)) (den \<rho> n)"
| "den \<rho> (BinaryOperator f l r) =
     Option.bind (den \<rho> l) (\<lambda>a. Option.bind (den \<rho> r) (ref_binop f a))"
| "den \<rho> (VectorAccess l r) = None"
| "den \<rho> (IfThenElse a b c) =
     Option.bind (den \<rho> a) (\<lambda>x. Option.bind (den \<rho> b) (\<lambda>y. Option.bind (den \<rho> c) (\<lambda>z.
       Some (if cvalue x \<noteq> 0 then y else z))))"
| "den \<rho> (Bitslice n r l) =
     Option.bind (den \<rho> n) (ref_slice r l)"

definition agrees :: "(nat \<Rightarrow> const_t) \<Rightarrow> eval_map \<Rightarrow> bool" where
  "agrees \<rho> m \<longleftrightarrow> (\<forall>i c. m i = Some c \<longrightarrow> \<rho> i = c)"

primrec no_placeholder :: "node \<Rightarrow> bool" where
  "no_placeholder (Placeholder i) \<longleftrightarrow> False"
| "no_placeholder (VariableExpr i b s) \<longleftrightarrow> True"
| "no_placeholder (ConstantExpr c) \<longleftrightarrow> True"
| "no_placeholder (VectorExpr i b s) \<longleftrightarrow> True"
| "no_placeholder (UnaryOperator u n) \<longleftrightarrow> no_placeholder n"
| "no_placeholder (Inside n cs) \<longleftrightarrow> no_placeholder n"
| "no_placeholder (ExtendExpression n k) \<longleftrightarrow> no_placeholder n"
| "no_placeholder (BinaryOperator f l r) \<longleftrightarrow> no_placeholder l \<and> no_placeholder r"
| "no_placeholder (VectorAccess l r) \<longleftrightarrow> no_placeholder l \<and> no_placeholder r"
| "no_placeholder (IfThenElse a b c) \<longleftrightarrow> no_placeholder a \<and> no_placeholder b \<and> no_placeholder c"
| "no_placeholder (Bitslice n r l) \<longleftrightarrow> no_placeholder n"

text \<open>Constructs whose flag is not decided by their operands' flags alone.\<close>

primrec ite_free :: "node \<Rightarrow> bool" where
  "ite_free (Placeholder i) \<longleftrightarrow> True"
| "ite_free (VariableExpr i b s) \<longleftrightarrow> True"
| "ite_free (ConstantExpr c) \<longleftrightarrow> True"
| "ite_free (VectorExpr i b s) \<longleftrightarrow> True"
| "ite_free (UnaryOperator u n) \<longleftrightarrow> ite_free n"
| "ite_free (Inside n cs) \<longleftrightarrow> ite_free n"
| "ite_free (ExtendExpression n k) \<longleftrightarrow> ite_free n"
| "ite_free (BinaryOperator f l r) \<longleftrightarrow> ite_free l \<and> ite_free r"
| "ite_free (VectorAccess l r) \<longleftrightarrow> ite_free l \<and> ite_free r"
| "ite_free (IfThenElse a b c) \<longleftrightarrow> False"
| "ite_free (Bitslice n r l) \<longleftrightarrow> ite_free n"

primrec slice_free :: "node \<Rightarrow> bool" where
  "slice_free (Placeholder i) \<longleftrightarrow> True"
| "slice_free (VariableExpr i b s) \<longleftrightarrow> True"
| "slice_free (ConstantExpr c) \<longleftrightarrow> True"
| "slice_free (VectorExpr i b s) \<longleftrightarrow> True"
| "slice_free (UnaryOperator u n) \<longleftrightarrow> slice_free n"
| "slice_free (Inside n cs) \<longleftrightarrow> slice_free n"
| "slice_free (ExtendExpression n k) \<longleftrightarrow> slice_free n"
| "slice_free (BinaryOperator f l r) \<longleftrightarrow> slice_free l \<and> slice_free r"
| "slice_free (VectorAccess l r) \<longleftrightarrow> slice_free l \<and> slice_free r"
| "slice_free (IfThenElse a b c) \<longleftrightarrow> slice_free a \<and> slice_free b \<and> slice_free c"
| "slice_free (Bitslice n r l) \<longleftrightarrow> False"

section \<open>Facts about single operators\<close>

text \<open>The known results of the evaluator's operators are the reference's.\<close>

fun known :: "eval_entry result \<Rightarrow> const_t option" where
  "known (Inr (c, True)) = Some c"
| "known _ = None"

lemma truncated_div_sdiv: "truncated_div x y = x sdiv y"
  by (cases "x = 0"; cases "y = 0") (auto simp: truncated_div_def signed_divide_int_def sgn_if)

lemma truncated_rem_smod: "x - truncated_div x y * y = x smod y"
  using sdiv_mult_smod_eq [of x y] by (simp add: truncated_div_sdiv)

lemma sdiv_range:
  fixes x y :: int
  assumes "- (2 ^ 63) \<le> x" "x < 2 ^ 63" "y \<noteq> 0" "\<not> (x = - (2 ^ 63) \<and> y = - 1)"
  shows "- (2 ^ 63) \<le> x sdiv y \<and> x sdiv y < 2 ^ 63"
proof (cases "\<bar>y\<bar> = 1")
  case True
  then have "y = 1 \<or> y = - 1" by arith
  moreover have "sgn x * \<bar>x\<bar> = x" by (simp add: sgn_if)
  ultimately show ?thesis using assms by (auto simp: signed_divide_int_def)
next
  case False
  from False assms(3) have "2 \<le> \<bar>y\<bar>" by arith
  then have nn: "0 \<le> \<bar>x\<bar> div \<bar>y\<bar>" by (simp add: pos_imp_zdiv_nonneg_iff)
  with \<open>2 \<le> \<bar>y\<bar>\<close> have "\<bar>x\<bar> div \<bar>y\<bar> \<le> \<bar>x\<bar> div 2" by (intro zdiv_mono2) auto
  also have "\<dots> < 2 ^ 63" using assms(1,2) by auto
  finally have "\<bar>x\<bar> div \<bar>y\<bar> < 2 ^ 63" .
  with nn show ?thesis
    by (cases "sgn x * sgn y = 1 \<or> sgn x * sgn y = - 1")
      (auto simp: signed_divide_int_def sgn_if split: if_splits)
qed

lemma overflow_quotient:
  fixes a b :: u64
  assumes "b \<noteq> 0"
  shows "truncated_div (sint a) (sint b) = 9223372036854775808 \<longleftrightarrow> sint a = - (2 ^ 63) \<and> sint b = - 1"
proof -
  have a: "- (2 ^ 63) \<le> sint a" "sint a < 2 ^ 63" using sint_ge [of a] sint_lt [of a] by simp_all
  have b: "sint b \<noteq> 0" using assms by (simp add: signed_eq_0_iff)
  show ?thesis
  proof (cases "sint a = - (2 ^ 63) \<and> sint b = - 1")
    case False
    from sdiv_range [OF a b this] have "sint a sdiv sint b \<noteq> 9223372036854775808" by simp
    with False show ?thesis by (simp only: truncated_div_sdiv simp_thms)
  qed (simp add: truncated_div_def)
qed

lemma truncated_div_unsigned: "truncated_div (uint (a :: u64)) (uint (b :: u64)) = uint a div uint b"
  by (simp add: truncated_div_def)

lemma word_of_int_div_uint: "word_of_int (uint (a :: u64) div uint b) = a div b"
  by (metis uint_div word_of_int_uint)

lemma word_of_int_mod_uint: "word_of_int (uint (a :: u64) mod uint b) = a mod b"
  by (metis uint_mod word_of_int_uint)

lemma u64_refs:
  fixes a b :: u64
  shows "word_of_int (and (uint a) (uint b)) = a AND b" "word_of_int (or (uint a) (uint b)) = a OR b"
    "word_of_int (xor (uint a) (uint b)) = a XOR b"
    "uint a = 0 \<longleftrightarrow> a = 0" "uint a = uint b \<longleftrightarrow> a = b" "uint a < uint b \<longleftrightarrow> a < b" "uint a \<le> uint b \<longleftrightarrow> a \<le> b"
    "word_of_int (uint a * 2 ^ n) = push_bit n a" "word_of_int (uint a div 2 ^ n) = drop_bit n a"
    "uint b < 64 \<longleftrightarrow> unat b < 64" "nat (uint b) = unat b"
proof -
  show "word_of_int (and (uint a) (uint b)) = a AND b" by (metis uint_and word_of_int_uint)
  show "word_of_int (or (uint a) (uint b)) = a OR b" by (metis uint_or word_of_int_uint)
  show "word_of_int (xor (uint a) (uint b)) = a XOR b" by (metis uint_xor word_of_int_uint)
  show "word_of_int (uint a * 2 ^ n) = push_bit n a" by (simp add: push_bit_eq_mult)
  have "take_bit 64 (uint a) = uint a" using unsigned_less [of a] by (intro take_bit_int_eq_self) simp_all
  then have "uint (drop_bit n a) = drop_bit n (uint a)" by (simp add: unsigned_drop_bit_eq)
  then have "(word_of_int (uint (drop_bit n a)) :: u64) = word_of_int (drop_bit n (uint a))" by (rule arg_cong)
  then show "word_of_int (uint a div 2 ^ n) = drop_bit n a" by (simp only: word_of_int_uint drop_bit_int_def)
  show "uint b < 64 \<longleftrightarrow> unat b < 64" using of_nat_less_iff [of "unat b" 64, where 'a = int] by simp
  show "nat (uint b) = unat b" by (rule nat_uint_eq)
  show "uint a = 0 \<longleftrightarrow> a = 0" by (rule unsigned_eq_0_iff)
  show "uint a = uint b \<longleftrightarrow> a = b" by (simp only: word_uint_eq_iff)
  show "uint a < uint b \<longleftrightarrow> a < b" by (simp only: word_less_def)
  show "uint a \<le> uint b \<longleftrightarrow> a \<le> b" by (simp only: word_le_def)
qed

lemma eval_unop_ref: "known (eval_unop u (c, True)) = ref_unop u c"
proof (cases u)
  case ComplementOpr
  have "word_of_int (18446744073709551615 - uint (cvalue c)) = NOT (cvalue c)"
    by (simp add: not_eq_complement)
  then show ?thesis using ComplementOpr by (simp add: num_const_def)
qed (simp_all add: num_const_def unsigned_eq_0_iff)

lemma eval_div_ref:
  assumes "\<And>x y. op x y = sop x y" and "\<And>x y. word_of_int (op (uint x) (uint y)) = uop x y"
  shows "known (div_entry sop uop (a, True) (b, True)) = ref_div op a b"
  using assms overflow_quotient [of "cvalue b" "cvalue a"]
  by (simp add: div_entry_def ref_div_def Let_def num_const_def unsigned_eq_0_iff)

lemma eval_binop_ref: "known (eval_binop f (a, True) (b, True)) = ref_binop f a b"
proof (cases f)
  case DevideOpr
  show ?thesis unfolding DevideOpr eval_binop.simps ref_binop.simps
    by (rule eval_div_ref) (simp_all add: truncated_div_sdiv [symmetric] truncated_div_unsigned word_of_int_div_uint)
next
  case ModuloOpr
  show ?thesis unfolding ModuloOpr eval_binop.simps ref_binop.simps
    by (rule eval_div_ref, simp add: truncated_rem_smod)
      (simp add: truncated_div_unsigned minus_div_mult_eq_mod word_of_int_mod_uint del: wi_hom_syms)
qed (simp_all add: num_const_def num_entry_def bool_entry_def shift_entry_def u64_refs push_bit_eq_mult)

lemma eval_inside_value:
  "eval_inside cs e = (Constant_bool (cvalue (fst e) \<in> cvalue ` set cs), snd e)"
proof -
  have "foldl (\<lambda>result c. if cvalue c = v then True else result) b cs \<longleftrightarrow> b \<or> v \<in> cvalue ` set cs"
    for b v
    by (induction cs arbitrary: b) auto
  then show ?thesis by (simp add: eval_inside_def)
qed

lemma known_eq_Some: "known x = Some c \<longleftrightarrow> x = Inr (c, True)"
  by (cases x rule: known.cases) auto

lemma eval_unop_known:
  "eval_unop u (c, k) = Inr (c', k') \<Longrightarrow> k' \<Longrightarrow> k \<and> ref_unop u c = Some c'"
  by (cases u) (auto simp: eval_unop_ref [symmetric])

lemma eval_unop_complete: "ref_unop u c = Some c' \<longleftrightarrow> eval_unop u (c, True) = Inr (c', True)"
  by (simp add: eval_unop_ref [symmetric] known_eq_Some)

lemma eval_binop_known:
  "eval_binop f (c1, k1) (c2, k2) = Inr (c, k) \<Longrightarrow> k \<Longrightarrow> k1 \<and> k2 \<and> ref_binop f c1 c2 = Some c"
  unfolding eval_binop_ref [symmetric]
  by (cases f) (auto simp: num_entry_def bool_entry_def div_entry_def shift_entry_def Let_def
      split: if_splits)

lemma eval_binop_complete: "ref_binop f a b = Some c \<longleftrightarrow> eval_binop f (a, True) (b, True) = Inr (c, True)"
  by (simp add: eval_binop_ref [symmetric] known_eq_Some)

lemma agrees_mono: "m \<subseteq>\<^sub>m m' \<Longrightarrow> agrees \<rho> m' \<Longrightarrow> agrees \<rho> m"
  by (auto simp: agrees_def map_le_def dom_def)

lemma propagate_equal_le: "m \<subseteq>\<^sub>m propagate_equal rawid l r m"
  by (auto simp: propagate_equal_def map_le_def Let_def split: option.splits)

section \<open>The stack discipline and the assignments\<close>

text \<open>A visit that returns pushes one entry and only adds assignments.\<close>

lemma eval_visit_pushes_one:
  "eval_visit rawid n s = Inr s' \<Longrightarrow> no_placeholder n \<Longrightarrow>
     evalMap s \<subseteq>\<^sub>m evalMap s' \<and> (\<exists>e. exprStack s' = e # exprStack s)"
proof (induction n arbitrary: s s')
  case (BinaryOperator f l r)
  then show ?case
    by (fastforce simp: rbind_eq_Inr Let_def split: if_splits
        intro: map_le_trans propagate_equal_le)
next
  case (IfThenElse a b c)
  then show ?case by (fastforce simp: rbind_eq_Inr intro: map_le_trans)
qed (fastforce simp: rbind_eq_Inr push_entry_def split: if_splits)+

section \<open>Soundness of a known result\<close>

lemma eval_visit_sound:
  "eval_visit rawid n s = Inr s' \<Longrightarrow> no_placeholder n \<Longrightarrow> ite_free n \<Longrightarrow>
     \<exists>c k. exprStack s' = (c, k) # exprStack s \<and> evalMap s \<subseteq>\<^sub>m evalMap s' \<and>
       (k \<longrightarrow> (\<forall>\<rho>. agrees \<rho> (evalMap s') \<longrightarrow> den \<rho> n = Some c))"
proof (induction n arbitrary: s s')
  case (VariableExpr i b sg)
  then show ?case
    by (auto simp: push_entry_def lookup_entry_def agrees_def split: option.splits)
next
  case (VectorExpr i b sg)
  then show ?case
    by (auto simp: push_entry_def lookup_entry_def agrees_def split: option.splits)
next
  case (UnaryOperator u n)
  then obtain s1 e st x where v: "eval_visit rawid n s = Inr s1" and p: "pop (exprStack s1) = Inr (e, st)"
    and o: "eval_unop u e = Inr x" and s': "s' = s1\<lparr>exprStack := x # st\<rparr>"
    by (auto simp: rbind_eq_Inr split: if_splits)
  from UnaryOperator.IH [OF v] UnaryOperator.prems p obtain c k where e: "e = (c, k)"
    and st: "st = exprStack s" and le: "evalMap s \<subseteq>\<^sub>m evalMap s1"
    and d: "k \<longrightarrow> (\<forall>\<rho>. agrees \<rho> (evalMap s1) \<longrightarrow> den \<rho> n = Some c)" by auto
  obtain c' k' where x: "x = (c', k')" by (cases x)
  have "k' \<Longrightarrow> k \<and> ref_unop u c = Some c'"
    using o e x by (auto dest: eval_unop_known)
  with d s' x st le show ?case by auto
next
  case (Inside n cs)
  then show ?case by (fastforce simp: rbind_eq_Inr eval_inside_value)
next
  case (ExtendExpression n k)
  then show ?case by (fastforce simp: rbind_eq_Inr eval_extend_def)
next
  case (BinaryOperator f l r)
  define s0 where "s0 = (if f = EqualOpr
    then s\<lparr>evalMap := propagate_equal rawid l r (evalMap s)\<rparr> else s)"
  from BinaryOperator.prems(1) obtain s1 s2 rhs lhs st x where vl: "eval_visit rawid l s0 = Inr s1"
    and vr: "eval_visit rawid r s1 = Inr s2" and p: "pop2 (exprStack s2) = Inr (rhs, lhs, st)"
    and o: "eval_binop f lhs rhs = Inr x" and s': "s' = s2\<lparr>exprStack := x # st\<rparr>"
    by (auto simp: rbind_eq_Inr Let_def s0_def split: if_splits)
  from BinaryOperator.IH(1) [OF vl] BinaryOperator.prems obtain c1 k1 where
    L: "exprStack s1 = (c1, k1) # exprStack s0" "evalMap s0 \<subseteq>\<^sub>m evalMap s1"
    "k1 \<longrightarrow> (\<forall>\<rho>. agrees \<rho> (evalMap s1) \<longrightarrow> den \<rho> l = Some c1)" by auto
  from BinaryOperator.IH(2) [OF vr] BinaryOperator.prems obtain c2 k2 where
    R: "exprStack s2 = (c2, k2) # exprStack s1" "evalMap s1 \<subseteq>\<^sub>m evalMap s2"
    "k2 \<longrightarrow> (\<forall>\<rho>. agrees \<rho> (evalMap s2) \<longrightarrow> den \<rho> r = Some c2)" by auto
  from p L R have e: "rhs = (c2, k2)" "lhs = (c1, k1)" "st = exprStack s"
    by (auto simp: s0_def split: if_splits)
  obtain c k where x: "x = (c, k)" by (cases x)
  have K: "k \<Longrightarrow> k1 \<and> k2 \<and> ref_binop f c1 c2 = Some c"
    using o e x by (auto dest: eval_binop_known)
  have "evalMap s \<subseteq>\<^sub>m evalMap s0" by (simp add: s0_def propagate_equal_le)
  then have le: "evalMap s \<subseteq>\<^sub>m evalMap s2" using L(2) R(2) by (blast intro: map_le_trans)
  have "k \<longrightarrow> (\<forall>\<rho>. agrees \<rho> (evalMap s2) \<longrightarrow> den \<rho> (BinaryOperator f l r) = Some c)"
    using K L(3) R(3) agrees_mono [OF R(2)] by auto
  with s' x e le show ?case by auto
next
  case (Bitslice n r l)
  then show ?case by (fastforce simp: rbind_eq_Inr eval_bitslice_def split: if_splits)
qed (auto simp: push_entry_def)

section \<open>Completeness on assigned expressions\<close>

definition assigned :: "(nat \<Rightarrow> const_t) \<Rightarrow> node \<Rightarrow> eval_map \<Rightarrow> bool" where
  "assigned \<rho> n m \<longleftrightarrow> (\<forall>i\<in>node_vars n. m i = Some (\<rho> i))"

lemma assigned_mono: "assigned \<rho> n m \<Longrightarrow> m \<subseteq>\<^sub>m m' \<Longrightarrow> assigned \<rho> n m'"
  by (auto simp: assigned_def map_le_def dom_def)

lemma assigned_parts [simp]:
  "assigned \<rho> (UnaryOperator u n) m = assigned \<rho> n m"
  "assigned \<rho> (Inside n cs) m = assigned \<rho> n m"
  "assigned \<rho> (ExtendExpression n k) m = assigned \<rho> n m"
  "assigned \<rho> (BinaryOperator f l r) m \<longleftrightarrow> assigned \<rho> l m \<and> assigned \<rho> r m"
  "assigned \<rho> (IfThenElse a b c) m \<longleftrightarrow> assigned \<rho> a m \<and> assigned \<rho> b m \<and> assigned \<rho> c m"
  by (auto simp: assigned_def)

lemma eval_visit_complete:
  "den \<rho> n = Some c \<Longrightarrow> slice_free n \<Longrightarrow> assigned \<rho> n (evalMap s) \<Longrightarrow>
     \<exists>s'. eval_visit rawid n s = Inr s' \<and> exprStack s' = (c, True) # exprStack s \<and>
       evalMap s \<subseteq>\<^sub>m evalMap s'"
proof (induction n arbitrary: s c)
  case (UnaryOperator u n)
  then obtain c0 where d: "den \<rho> n = Some c0" and o: "eval_unop u (c0, True) = Inr (c, True)"
    by (auto simp: bind_eq_Some_conv eval_unop_complete)
  with UnaryOperator obtain s1 where "eval_visit rawid n s = Inr s1"
    "exprStack s1 = (c0, True) # exprStack s" "evalMap s \<subseteq>\<^sub>m evalMap s1" by auto
  moreover from o have "u \<noteq> Unique" by auto
  ultimately show ?case using o by simp
next
  case (Inside n cs)
  then obtain c0 where d: "den \<rho> n = Some c0" and c: "c = Constant_bool (cvalue c0 \<in> cvalue ` set cs)"
    by auto
  with Inside obtain s1 where "eval_visit rawid n s = Inr s1"
    "exprStack s1 = (c0, True) # exprStack s" "evalMap s \<subseteq>\<^sub>m evalMap s1" by auto
  with c show ?case by (simp add: eval_inside_value)
next
  case (ExtendExpression n k)
  then obtain c0 where d: "den \<rho> n = Some c0"
    and c: "c = Constant (cvalue c0) (cbitsize c0 + k) (csign c0)" by auto
  with ExtendExpression obtain s1 where "eval_visit rawid n s = Inr s1"
    "exprStack s1 = (c0, True) # exprStack s" "evalMap s \<subseteq>\<^sub>m evalMap s1" by auto
  with c show ?case by (simp add: eval_extend_def)
next
  case (BinaryOperator f l r)
  define s0 where "s0 = (if f = EqualOpr
    then s\<lparr>evalMap := propagate_equal rawid l r (evalMap s)\<rparr> else s)"
  have le0: "evalMap s \<subseteq>\<^sub>m evalMap s0" and st0: "exprStack s0 = exprStack s"
    by (simp_all add: s0_def propagate_equal_le)
  from BinaryOperator.prems(1) obtain a b where d: "den \<rho> l = Some a" "den \<rho> r = Some b"
    and o: "eval_binop f (a, True) (b, True) = Inr (c, True)"
    by (auto simp: bind_eq_Some_conv eval_binop_complete)
  from o have f: "f \<noteq> ForEach" by auto
  from BinaryOperator.prems le0 have "assigned \<rho> l (evalMap s0)" by (auto intro: assigned_mono)
  with BinaryOperator.IH(1) [OF d(1)] BinaryOperator.prems obtain s1 where
    L: "eval_visit rawid l s0 = Inr s1" "exprStack s1 = (a, True) # exprStack s0"
      "evalMap s0 \<subseteq>\<^sub>m evalMap s1" by auto
  from BinaryOperator.prems le0 L(3) have "assigned \<rho> r (evalMap s1)"
    by (auto intro: assigned_mono map_le_trans)
  with BinaryOperator.IH(2) [OF d(2)] BinaryOperator.prems obtain s2 where
    R: "eval_visit rawid r s1 = Inr s2" "exprStack s2 = (b, True) # exprStack s1"
      "evalMap s1 \<subseteq>\<^sub>m evalMap s2" by auto
  have "evalMap s \<subseteq>\<^sub>m evalMap s2" using le0 L(3) R(3) by (blast intro: map_le_trans)
  with L R f o st0 show ?case by (auto simp: Let_def s0_def [symmetric])
next
  case (IfThenElse a b c')
  then obtain x y z where d: "den \<rho> a = Some x" "den \<rho> b = Some y" "den \<rho> c' = Some z"
    and c: "c = (if cvalue x \<noteq> 0 then y else z)" by (auto simp: bind_eq_Some_conv)
  from IfThenElse.IH(1) [OF d(1)] IfThenElse.prems obtain s1 where
    A: "eval_visit rawid a s = Inr s1" "exprStack s1 = (x, True) # exprStack s"
      "evalMap s \<subseteq>\<^sub>m evalMap s1" by auto
  from IfThenElse.prems A(3) have "assigned \<rho> b (evalMap s1)" by (auto intro: assigned_mono)
  with IfThenElse.IH(2) [OF d(2)] IfThenElse.prems obtain s2 where
    B: "eval_visit rawid b s1 = Inr s2" "exprStack s2 = (y, True) # exprStack s1"
      "evalMap s1 \<subseteq>\<^sub>m evalMap s2" by auto
  from IfThenElse.prems A(3) B(3) have "assigned \<rho> c' (evalMap s2)"
    by (auto intro: assigned_mono map_le_trans)
  with IfThenElse.IH(3) [OF d(3)] IfThenElse.prems obtain s3 where
    C: "eval_visit rawid c' s2 = Inr s3" "exprStack s3 = (z, True) # exprStack s2"
      "evalMap s2 \<subseteq>\<^sub>m evalMap s3" by auto
  have "evalMap s \<subseteq>\<^sub>m evalMap s3" using A(3) B(3) C(3) by (blast intro: map_le_trans)
  with A B C c show ?case by auto
qed (auto simp: push_entry_def lookup_entry_def assigned_def)

section \<open>Properties\<close>

text \<open>C12: for an expression without conditionals and placeholders, a result that the evaluator reports
  as known is the value of the expression (in the reference above) under every total assignment that
  extends the assignments as they are after the evaluation: the given ones and those the evaluator itself
  adds at equalities, where it takes an unassigned side to be equal to the assigned one. Evaluating only
  adds assignments and leaves the visitor's stack as it was. What happens at a conditional is the theorem
  on \<open>if_then_else\<close> below.\<close>

theorem evaluate_sound:
  assumes "evaluate rawid n ev = Inr (k, ev')" and "no_placeholder n" and "ite_free n"
  shows "assignments ev \<subseteq>\<^sub>m assignments ev' \<and> visitorStack ev' = visitorStack ev \<and>
    (k \<longrightarrow> (\<forall>\<rho>. agrees \<rho> (assignments ev') \<longrightarrow> den \<rho> n = Some (result_value ev')))"
proof -
  from assms(1) obtain s1 e st where
    v: "eval_visit rawid n \<lparr>exprStack = visitorStack ev, evalMap = assignments ev\<rparr> = Inr s1"
    and p: "pop (exprStack s1) = Inr (e, st)" and k: "k = snd e"
    and ev': "ev' = \<lparr>assignments = evalMap s1, visitorStack = st, result_value = fst e\<rparr>"
    by (auto simp: evaluate_def rbind_eq_Inr)
  from eval_visit_sound [OF v assms(2,3)] p k ev' show ?thesis by auto
qed

definition demo_sum :: node where
  "demo_sum = BinaryOperator EqualOpr (VariableExpr 1 8 False) (VariableExpr 2 8 False)"

definition demo_eval :: evaluator where
  "demo_eval = assign_var 1 8 False 7 new_evaluator"

lemma demo_run:
  "evaluate (\<lambda>_. 0) demo_sum demo_eval =
     Inr (True, \<lparr>assignments = [1 \<mapsto> Constant 7 8 False, 2 \<mapsto> Constant 7 8 False],
                visitorStack = [], result_value = Constant_bool True\<rparr>)"
  by (simp add: demo_sum_def demo_eval_def evaluate_def assign_var_def assign_def
      new_evaluator_def propagate_equal_def cast_id_def lookup_entry_def push_entry_def
      bool_entry_def Let_def)

theorem evaluate_sound_witness:
  "den (\<lambda>i. Constant 7 8 False) demo_sum = Some (Constant_bool True)"
  using evaluate_sound [OF demo_run]
  by (simp add: demo_sum_def agrees_def bool_entry_def)

text \<open>C19: an expression without bit slices whose variables are all assigned and which has a value in the
  reference (so no placeholder, no vector access, no division by zero) evaluates to a known result, and
  that result is its value; conditionals are covered.\<close>

theorem evaluate_complete:
  assumes "den \<rho> n = Some c" and "slice_free n" and "assigned \<rho> n (assignments ev)"
  shows "\<exists>ev'. evaluate rawid n ev = Inr (True, ev') \<and> result_value ev' = c \<and>
    visitorStack ev' = visitorStack ev"
proof -
  have "assigned \<rho> n (evalMap \<lparr>exprStack = visitorStack ev, evalMap = assignments ev\<rparr>)"
    using assms(3) by simp
  from eval_visit_complete [OF assms(1,2) this, of rawid] show ?thesis
    by (auto simp: evaluate_def)
qed

theorem evaluate_complete_witness:
  "\<exists>ev'. evaluate (\<lambda>_. 0)
      (IfThenElse (VariableExpr 1 1 True) (ConstantExpr (Constant 3 8 False)) (ConstantExpr (Constant 4 8 False)))
      (assign_var 1 1 True 1 new_evaluator) = Inr (True, ev') \<and> result_value ev' = Constant 3 8 False \<and>
    visitorStack ev' = visitorStack (assign_var 1 1 True 1 new_evaluator)"
  by (rule evaluate_complete [where \<rho> = "\<lambda>_. Constant 1 1 True"])
    (simp_all add: assigned_def assign_var_def assign_def)

text \<open>The flag of a conditional ignores its condition: with the condition unassigned, the evaluator
  reports a known result, the value of the else branch, although the assignments can be extended so
  that the expression has the value of the then branch.\<close>

theorem if_then_else_unknown_condition:
  fixes x y :: const_t
  assumes "i \<notin> dom (assignments ev)"
  shows "\<exists>ev'. evaluate rawid (IfThenElse (VariableExpr i w sg) (ConstantExpr x) (ConstantExpr y)) ev
      = Inr (True, ev') \<and> result_value ev' = y \<and>
      (\<forall>\<rho>. cvalue (\<rho> i) \<noteq> 0 \<longrightarrow>
        den \<rho> (IfThenElse (VariableExpr i w sg) (ConstantExpr x) (ConstantExpr y)) = Some x)"
  using assms by (auto simp: evaluate_def lookup_entry_def push_entry_def domIff)

theorem if_then_else_unknown_condition_witness:
  "\<exists>ev'. evaluate (\<lambda>_. 0) (IfThenElse (VariableExpr 1 1 True) (ConstantExpr (Constant 3 8 False))
        (ConstantExpr (Constant 4 8 False))) new_evaluator
      = Inr (True, ev') \<and> result_value ev' = Constant 4 8 False \<and>
      (\<forall>\<rho>. cvalue (\<rho> 1) \<noteq> 0 \<longrightarrow>
        den \<rho> (IfThenElse (VariableExpr 1 1 True) (ConstantExpr (Constant 3 8 False))
          (ConstantExpr (Constant 4 8 False))) = Some (Constant 3 8 False))"
  by (rule if_then_else_unknown_condition) (simp add: new_evaluator_def)

lemma sint_word_of_int_in_range:
  "- (2 ^ 63) \<le> x \<Longrightarrow> x < 2 ^ 63 \<Longrightarrow> sint (word_of_int x :: u64) = x"
  by (simp add: signed_take_bit_int_eq_self sint_sbintrunc')

lemma smod_range:
  fixes x y :: int
  assumes "- (2 ^ 63) \<le> x" "x < 2 ^ 63"
  shows "- (2 ^ 63) \<le> x smod y \<and> x smod y < 2 ^ 63"
proof -
  have "x smod y = sgn x * (\<bar>x\<bar> mod \<bar>y\<bar>)"
    by (simp add: signed_modulo_int_def signed_divide_int_def minus_div_mult_eq_mod
        sgn_if minus_mult_div_eq_mod [symmetric] algebra_simps)
  moreover obtain a where "a = \<bar>x\<bar> mod \<bar>y\<bar>" by simp
  moreover have "0 \<le> \<bar>x\<bar> mod \<bar>y\<bar>" "\<bar>x\<bar> mod \<bar>y\<bar> \<le> \<bar>x\<bar>"
    by (cases "y = 0", simp, simp) (cases "y = 0", simp, simp add: zmod_le_nonneg_dividend)
  ultimately have "x smod y = sgn x * a" "0 \<le> a" "a \<le> \<bar>x\<bar>" by simp_all
  then show ?thesis using assms by (cases "x < 0") (auto simp: sgn_if)
qed

text \<open>Division and remainder of the evaluator are C++'s \<open>long long\<close> division when an operand is
  signed: the quotient is truncated towards zero, and quotient and remainder recompose the dividend;
  a zero divisor is reported as unknown and \<open>LLONG_MIN / -1\<close> is the only undefined case.\<close>

theorem division_signed:
  assumes "csign (fst l) \<or> csign (fst r)" and "cvalue (fst r) \<noteq> 0"
    and "\<not> (sint (cvalue (fst l)) = - (2 ^ 63) \<and> sint (cvalue (fst r)) = - 1)"
  shows "\<exists>q m. eval_binop DevideOpr l r = Inr (q, snd l \<and> snd r) \<and>
    eval_binop ModuloOpr l r = Inr (m, snd l \<and> snd r) \<and>
    sint (cvalue q) = sint (cvalue (fst l)) sdiv sint (cvalue (fst r)) \<and>
    sint (cvalue m) = sint (cvalue (fst l)) smod sint (cvalue (fst r)) \<and>
    sint (cvalue q) * sint (cvalue (fst r)) + sint (cvalue m) = sint (cvalue (fst l))"
proof -
  let ?x = "sint (cvalue (fst l))" and ?y = "sint (cvalue (fst r))"
  have x: "- (2 ^ 63) \<le> ?x" "?x < 2 ^ 63"
    using sint_ge [of "cvalue (fst l)"] sint_lt [of "cvalue (fst l)"] by simp_all
  have y: "?y \<noteq> 0" using assms(2) by (simp add: signed_eq_0_iff)
  have "sint (word_of_int (?x sdiv ?y) :: u64) = ?x sdiv ?y"
    using sdiv_range [OF x y assms(3)] by (intro sint_word_of_int_in_range) auto
  moreover have "sint (word_of_int (?x smod ?y) :: u64) = ?x smod ?y"
    using smod_range [OF x] by (intro sint_word_of_int_in_range) auto
  moreover have "?x sdiv ?y * ?y + ?x smod ?y = ?x"
    by (rule sdiv_mult_smod_eq)
  ultimately show ?thesis using assms by (auto simp: div_entry_def Let_def)
qed

theorem division_signed_witness:
  "\<exists>q m. eval_binop DevideOpr (Constant (- 7) 32 True, True) (Constant 2 32 True, True) = Inr (q, True) \<and>
    eval_binop ModuloOpr (Constant (- 7) 32 True, True) (Constant 2 32 True, True) = Inr (m, True) \<and>
    sint (cvalue q) = - 3 \<and> sint (cvalue m) = - 1"
  using division_signed [of "(Constant (- 7) 32 True, True)" "(Constant 2 32 True, True)"]
  by (auto simp: signed_divide_int_def signed_modulo_int_def)

end
