(* ===== verification/FixWidth.thy ===== *)
theory FixWidth
  imports Eval
begin

text \<open>
  \<open>FixWidthVisitor\<close> (\<open>FixWidthVisitor.hpp\<close>, \<open>FixWidthVisitor.cpp\<close>): the pass every constraint goes
  through before it is stored. It rebuilds the expression and inserts an \<open>ExtendExpression\<close> around the
  narrower operand of a binary operator. A stack entry is the rebuilt node with its computed width, an
  \<open>int\<close>.
\<close>

section \<open>The visitor\<close>

type_synonym width_entry = "node \<times> int"

text \<open>\<open>evalBinExpr\<close> after the two operands are on the stack.\<close>

definition fix_operands :: "width_entry \<Rightarrow> width_entry \<Rightarrow> width_entry \<times> width_entry" where
  "fix_operands l r =
     (if snd l < snd r then ((ExtendExpression (fst l) (nat (snd r - snd l)), snd r), r)
      else if snd l > snd r then (l, (ExtendExpression (fst r) (nat (snd l - snd r)), snd l))
      else (l, r))"

fun boolean_result :: "binop \<Rightarrow> bool" where
  "boolean_result LogicalAndOpr = True"
| "boolean_result LogicalOrOpr = True"
| "boolean_result EqualOpr = True"
| "boolean_result NotEqualOpr = True"
| "boolean_result LessOpr = True"
| "boolean_result LessEqualOpr = True"
| "boolean_result GreaterOpr = True"
| "boolean_result GreaterEqualOpr = True"
| "boolean_result _ = False"

definition fix_binop :: "binop \<Rightarrow> width_entry \<Rightarrow> width_entry \<Rightarrow> width_entry" where
  "fix_binop f l r =
     (if f = ForEach then (BinaryOperator ForEach (fst l) (fst r), 1)
      else let (l, r) = fix_operands l r
           in (BinaryOperator f (fst l) (fst r), if boolean_result f then 1 else snd l))"

fun fix_visit :: "node \<Rightarrow> width_entry list \<Rightarrow> width_entry list result" where
  "fix_visit (Placeholder i) st = Inr ((Placeholder i, int placeholder_bitsize) # st)"
| "fix_visit (VariableExpr i b s) st = Inr ((VariableExpr i b s, int b) # st)"
| "fix_visit (ConstantExpr c) st = Inr ((ConstantExpr c, int (cbitsize c)) # st)"
| "fix_visit (VectorExpr i b s) st = Inr ((VectorExpr i b s, int b) # st)"
| "fix_visit (UnaryOperator u n) st =
     rbind (fix_visit n st) (\<lambda>st. rbind (pop st) (\<lambda>(e, st). Inr ((UnaryOperator u (fst e), snd e) # st)))"
| "fix_visit (Inside n cs) st =
     rbind (fix_visit n st) (\<lambda>st. rbind (pop st) (\<lambda>(e, st). Inr ((Inside (fst e) cs, 1) # st)))"
| "fix_visit (ExtendExpression n k) st =
     rbind (fix_visit n st) (\<lambda>st. rbind (pop st) (\<lambda>(e, st).
       Inr ((ExtendExpression (fst e) k, snd e) # st)))"
| "fix_visit (BinaryOperator f l r) st =
     rbind (fix_visit l st) (\<lambda>st. rbind (fix_visit r st) (\<lambda>st.
     rbind (pop2 st) (\<lambda>(rhs, lhs, st). Inr (fix_binop f lhs rhs # st))))"
| "fix_visit (VectorAccess l r) st =
     rbind (fix_visit l st) (\<lambda>st. rbind (fix_visit r st) (\<lambda>st.
     rbind (pop2 st) (\<lambda>(rhs, lhs, st). Inr ((VectorAccess (fst lhs) (fst rhs), snd lhs) # st))))"
| "fix_visit (IfThenElse a b c) st =
     rbind (fix_visit a st) (\<lambda>st. rbind (fix_visit b st) (\<lambda>st. rbind (fix_visit c st) (\<lambda>st.
     rbind (pop3 st) (\<lambda>(z, y, x, st). Inr ((IfThenElse (fst x) (fst y) (fst z), snd x) # st)))))"
| "fix_visit (Bitslice n r l) st =
     rbind (fix_visit n st) (\<lambda>st. rbind (pop st) (\<lambda>(e, st). Inr ((Bitslice (fst e) r l, r - l + 1) # st)))"

definition fixWidth :: "node \<Rightarrow> node result" where
  "fixWidth n = rbind (fix_visit n []) (\<lambda>st. rbind (pop st) (\<lambda>(e, st). Inr (fst e)))"

section \<open>The pass as a function\<close>

text \<open>The node and the width the visitor computes, without the stack.\<close>

fun fixed :: "node \<Rightarrow> width_entry" where
  "fixed (Placeholder i) = (Placeholder i, int placeholder_bitsize)"
| "fixed (VariableExpr i b s) = (VariableExpr i b s, int b)"
| "fixed (ConstantExpr c) = (ConstantExpr c, int (cbitsize c))"
| "fixed (VectorExpr i b s) = (VectorExpr i b s, int b)"
| "fixed (UnaryOperator u n) = (UnaryOperator u (fst (fixed n)), snd (fixed n))"
| "fixed (Inside n cs) = (Inside (fst (fixed n)) cs, 1)"
| "fixed (ExtendExpression n k) = (ExtendExpression (fst (fixed n)) k, snd (fixed n))"
| "fixed (BinaryOperator f l r) = fix_binop f (fixed l) (fixed r)"
| "fixed (VectorAccess l r) = (VectorAccess (fst (fixed l)) (fst (fixed r)), snd (fixed l))"
| "fixed (IfThenElse a b c) =
     (IfThenElse (fst (fixed a)) (fst (fixed b)) (fst (fixed c)), snd (fixed a))"
| "fixed (Bitslice n r l) = (Bitslice (fst (fixed n)) r l, r - l + 1)"

lemma fix_visit_fixed: "fix_visit n st = Inr (fixed n # st)"
  by (induction n arbitrary: st) auto

lemma fixWidth_fixed: "fixWidth n = Inr (fst (fixed n))"
  by (simp add: fixWidth_def fix_visit_fixed)

section \<open>What the pass achieves\<close>

text \<open>
  \<open>width_of\<close>: the number of bits the back end gives a node, \<open>None\<close> when the operands of an operator do
  not fit (the bit blaster fails an assertion there). Vectors stand for their elements.
\<close>

fun width_of :: "node \<Rightarrow> int option" where
  "width_of (Placeholder i) = Some (int placeholder_bitsize)"
| "width_of (VariableExpr i b s) = Some (int b)"
| "width_of (ConstantExpr c) = Some (int (cbitsize c))"
| "width_of (VectorExpr i b s) = Some (int b)"
| "width_of (UnaryOperator u n) = width_of n"
| "width_of (Inside n cs) = map_option (\<lambda>_. 1) (width_of n)"
| "width_of (ExtendExpression n k) = map_option (\<lambda>w. w + int k) (width_of n)"
| "width_of (BinaryOperator f l r) =
     (case (width_of l, width_of r) of
        (Some v, Some w) \<Rightarrow>
          if f = ForEach then Some 1 else if v = w then Some (if boolean_result f then 1 else v) else None
      | _ \<Rightarrow> None)"
| "width_of (VectorAccess l r) =
     (case (width_of l, width_of r) of (Some v, Some w) \<Rightarrow> Some v | _ \<Rightarrow> None)"
| "width_of (IfThenElse a b c) =
     (case (width_of a, width_of b, width_of c) of
        (Some u, Some v, Some w) \<Rightarrow> if u = 1 \<and> v = w then Some v else None
      | _ \<Rightarrow> None)"
| "width_of (Bitslice n r l) = map_option (\<lambda>_. r - l + 1) (width_of n)"

text \<open>\<open>strip\<close> removes the extensions; expressions as users write them have none of their own.\<close>

fun strip :: "node \<Rightarrow> node" where
  "strip (UnaryOperator u n) = UnaryOperator u (strip n)"
| "strip (Inside n cs) = Inside (strip n) cs"
| "strip (ExtendExpression n k) = strip n"
| "strip (BinaryOperator f l r) = BinaryOperator f (strip l) (strip r)"
| "strip (VectorAccess l r) = VectorAccess (strip l) (strip r)"
| "strip (IfThenElse a b c) = IfThenElse (strip a) (strip b) (strip c)"
| "strip (Bitslice n r l) = Bitslice (strip n) r l"
| "strip n = n"

fun plain :: "node \<Rightarrow> bool" where
  "plain (UnaryOperator u n) \<longleftrightarrow> plain n"
| "plain (Inside n cs) \<longleftrightarrow> plain n"
| "plain (ExtendExpression n k) \<longleftrightarrow> False"
| "plain (BinaryOperator f l r) \<longleftrightarrow> plain l \<and> plain r"
| "plain (VectorAccess l r) \<longleftrightarrow> plain l \<and> plain r"
| "plain (IfThenElse a b c) \<longleftrightarrow> False"
| "plain (Bitslice n r l) \<longleftrightarrow> plain n"
| "plain n \<longleftrightarrow> True"

lemma fixed_width: "plain n \<Longrightarrow> width_of (fst (fixed n)) = Some (snd (fixed n))"
  by (induction n) (auto simp: fix_binop_def fix_operands_def Let_def)

lemma fixed_strip: "strip (fst (fixed n)) = strip n"
  by (induction n) (auto simp: fix_binop_def fix_operands_def Let_def)

text \<open>C28: the pass always returns; what it returns is the expression with extensions inserted, and for
  an expression without conditionals and extensions of its own all operands then have equal widths, so
  that the back end has a width for it.\<close>

theorem fixWidth_well_sized:
  assumes "plain n"
  shows "\<exists>n'. fixWidth n = Inr n' \<and> strip n' = strip n \<and> width_of n' \<noteq> None"
  using assms by (simp add: fixWidth_fixed fixed_strip fixed_width)

definition demo_narrow :: node where
  "demo_narrow = BinaryOperator EqualOpr (BinaryOperator PlusOpr (VariableExpr 1 4 False) (VariableExpr 2 8 False))
     (ConstantExpr (Constant 7 16 False))"

theorem fixWidth_well_sized_witness:
  "\<exists>n'. fixWidth demo_narrow = Inr n' \<and> strip n' = strip demo_narrow \<and> width_of n' \<noteq> None"
  by (rule fixWidth_well_sized) (simp add: demo_narrow_def)

section \<open>Conditionals and extensions\<close>

lemma fixed_no_change: "plain n \<Longrightarrow> width_of n = Some w \<Longrightarrow> fixed n = (n, w)"
  by (induction n arbitrary: w)
    (auto simp: fix_binop_def fix_operands_def Let_def split: option.splits if_splits)

text \<open>C29: the width the pass computes for a conditional is the width of its condition. Comparing a
  conditional with two branches of \<open>b > 1\<close> bits with a variable of \<open>b\<close> bits is well sized as written, and
  what the pass makes of it is not: the conditional is extended by \<open>b - 1\<close> bits.\<close>

theorem fixWidth_conditional:
  assumes "plain a" and "width_of a = Some 1" and "1 < b"
    and n: "n = BinaryOperator EqualOpr (IfThenElse a (VariableExpr i b s) (VariableExpr j b t)) (VariableExpr k b u)"
  shows "width_of n = Some 1 \<and> (\<exists>n'. fixWidth n = Inr n' \<and> width_of n' = None)"
  using assms(2,3) fixed_no_change [OF assms(1,2)]
  by (auto simp: n fixWidth_fixed fix_binop_def fix_operands_def)

theorem fixWidth_conditional_witness:
  "\<exists>n'. fixWidth (BinaryOperator EqualOpr (IfThenElse (VariableExpr 1 1 True) (VariableExpr 2 8 False)
     (VariableExpr 3 8 False)) (VariableExpr 4 8 False)) = Inr n' \<and> width_of n' = None"
  using fixWidth_conditional [of "VariableExpr 1 1 True" 8, OF _ _ _ refl] by simp

text \<open>The width computed for an extension is that of its operand, so a second run of the pass over its
  own output extends a narrow operand once more and leaves the operator with operands of different widths.\<close>

theorem fixWidth_twice:
  assumes "v < w"
    and n: "n = BinaryOperator PlusOpr (VariableExpr i v s) (VariableExpr j w t)"
  shows "\<exists>n' n''. fixWidth n = Inr n' \<and> width_of n' = Some (int w) \<and> fixWidth n' = Inr n'' \<and> width_of n'' = None"
  using assms(1) by (auto simp: n fixWidth_fixed fix_binop_def fix_operands_def)

theorem fixWidth_twice_witness:
  "\<exists>n' n''. fixWidth (BinaryOperator PlusOpr (VariableExpr 1 4 False) (VariableExpr 2 8 False)) = Inr n' \<and>
     width_of n' = Some 8 \<and> fixWidth n' = Inr n'' \<and> width_of n'' = None"
  using fixWidth_twice [of 4 8, OF _ refl] by simp

end
