(* ===== verification/Support.thy ===== *)
theory Support
  imports FixWidth
begin

text \<open>
  Two visitors that run once per constraint: \<open>GetSupportSetVisitor\<close> collects the identifiers of the
  variables (the key by which constraints are partitioned), and \<open>ComplexityEstimationVisitor\<close> computes an
  \<open>unsigned int\<close> that decides which solver a partition gets.
\<close>

section \<open>The support set\<close>

primrec supp_visit :: "node \<Rightarrow> nat set \<Rightarrow> nat set" where
  "supp_visit (Placeholder i) S = S"
| "supp_visit (VariableExpr i b s) S = insert i S"
| "supp_visit (ConstantExpr c) S = S"
| "supp_visit (VectorExpr i b s) S = insert i S"
| "supp_visit (UnaryOperator u n) S = supp_visit n S"
| "supp_visit (Inside n cs) S = supp_visit n S"
| "supp_visit (ExtendExpression n k) S = supp_visit n S"
| "supp_visit (BinaryOperator f l r) S = supp_visit r (supp_visit l S)"
| "supp_visit (VectorAccess l r) S = supp_visit r (supp_visit l S)"
| "supp_visit (IfThenElse a b c) S = supp_visit c (supp_visit b (supp_visit a S))"
| "supp_visit (Bitslice n r l) S = supp_visit n S"

definition getSupportVars :: "node \<Rightarrow> nat set" where
  "getSupportVars n = supp_visit n {}"

lemma supp_visit_vars: "supp_visit n S = node_vars n \<union> S"
  by (induction n arbitrary: S) auto

lemma getSupportVars_vars [simp]: "getSupportVars n = node_vars n"
  by (simp add: getSupportVars_def supp_visit_vars)

lemma den_cong: "(\<And>i. i \<in> node_vars n \<Longrightarrow> \<rho> i = \<sigma> i) \<Longrightarrow> den \<rho> n = den \<sigma> n"
proof (induction n)
  case (BinaryOperator f l r)
  then have "den \<rho> l = den \<sigma> l" "den \<rho> r = den \<sigma> r" by simp_all
  then show ?case by simp
next
  case (IfThenElse a b c)
  then have "den \<rho> a = den \<sigma> a" "den \<rho> b = den \<sigma> b" "den \<rho> c = den \<sigma> c" by simp_all
  then show ?case by simp
qed simp_all

lemma support_vars_fixed: "node_vars (fst (fixed n)) = node_vars n"
proof -
  have "node_vars (strip m) = node_vars m" for m by (induction m) auto
  then show ?thesis by (metis fixed_strip)
qed

text \<open>C30: the support set is what the value of an expression depends on: assignments that agree on it give
  the expression the same value, and inserting extensions does not change it.\<close>

theorem support_decides_value:
  assumes "\<forall>i\<in>getSupportVars n. \<rho> i = \<sigma> i"
  shows "den \<rho> n = den \<sigma> n \<and> (\<forall>n'. fixWidth n = Inr n' \<longrightarrow> getSupportVars n' = getSupportVars n)"
  using assms by (auto intro: den_cong simp: fixWidth_fixed support_vars_fixed)

theorem support_decides_value_witness:
  "den (\<lambda>i. Constant (of_nat i) 8 False) demo_narrow =
   den (\<lambda>i. Constant (if i = 9 then 5 else of_nat i) 8 False) demo_narrow"
  by (rule support_decides_value [THEN conjunct1]) (simp add: demo_narrow_def)

section \<open>The complexity estimate\<close>

type_synonym u32 = "32 word"
type_synonym cplx_entry = "node \<times> u32"

definition simple_complexity :: "u32 \<Rightarrow> u32 \<Rightarrow> u32" where
  "simple_complexity l r = l + r"

definition complex_complexity :: "u32 \<Rightarrow> u32 \<Rightarrow> u32" where
  "complex_complexity l r = (if l > 0 then if r > 0 then l * r else l else r)"

definition binop_complexity :: "binop \<Rightarrow> u32 \<Rightarrow> u32 \<Rightarrow> u32" where
  "binop_complexity f =
     (if f \<in> {MultipliesOpr, DevideOpr, ModuloOpr} then complex_complexity else simple_complexity)"

fun cplx_visit :: "node \<Rightarrow> cplx_entry list \<Rightarrow> cplx_entry list result" where
  "cplx_visit (Placeholder i) st =
     Inl (RuntimeError ''Placeholder is not allowed in ComplexityEstimationVisitor.'')"
| "cplx_visit (VariableExpr i b s) st = Inr ((VariableExpr i b s, of_nat b) # st)"
| "cplx_visit (ConstantExpr c) st = Inr ((ConstantExpr c, 0) # st)"
| "cplx_visit (VectorExpr i b s) st = Inr ((VectorExpr i b s, of_nat b) # st)"
| "cplx_visit (UnaryOperator u n) st =
     (if u = Unique then Inl (RuntimeError ''Unique is not allowed in ComplexityEstimationVisitor.'')
      else rbind (cplx_visit n st) (\<lambda>st. rbind (pop st) (\<lambda>(e, st). Inr ((UnaryOperator u (fst e), snd e) # st))))"
| "cplx_visit (Inside n cs) st =
     rbind (cplx_visit n st) (\<lambda>st. rbind (pop st) (\<lambda>(e, st). Inr ((Inside (fst e) cs, snd e) # st)))"
| "cplx_visit (ExtendExpression n k) st =
     rbind (cplx_visit n st) (\<lambda>st. rbind (pop st) (\<lambda>(e, st). Inr ((ExtendExpression (fst e) k, snd e) # st)))"
| "cplx_visit (BinaryOperator f l r) st =
     (if f = ForEach then Inl (RuntimeError ''ForEach is not allowed in ComplexityEstimationVisitor.'')
      else rbind (cplx_visit l st) (\<lambda>st. rbind (cplx_visit r st) (\<lambda>st. rbind (pop2 st) (\<lambda>(rhs, lhs, st).
        Inr ((BinaryOperator f (fst lhs) (fst rhs), binop_complexity f (snd lhs) (snd rhs)) # st)))))"
| "cplx_visit (VectorAccess l r) st =
     Inl (RuntimeError ''VectorAccess is not allowed in ComplexityEstimationVisitor.'')"
| "cplx_visit (IfThenElse a b c) st =
     rbind (cplx_visit a st) (\<lambda>st. rbind (cplx_visit b st) (\<lambda>st. rbind (cplx_visit c st) (\<lambda>st.
     rbind (pop3 st) (\<lambda>(z, y, x, st).
       Inr ((IfThenElse (fst x) (fst y) (fst z), snd x + snd y + snd z) # st)))))"
| "cplx_visit (Bitslice n r l) st =
     rbind (cplx_visit n st) (\<lambda>st. rbind (pop st) (\<lambda>(e, st).
       Inr ((Bitslice (fst e) r l, word_of_int (r - l + 1)) # st)))"

definition getComplexityEstimation :: "node \<Rightarrow> u32 result" where
  "getComplexityEstimation n = rbind (cplx_visit n []) (\<lambda>st. rbind (pop st) (\<lambda>(e, st). Inr (snd e)))"

text \<open>The estimate without a bound: bits add up, and multiply under multiplication and division.\<close>

fun cplx :: "node \<Rightarrow> nat" where
  "cplx (VariableExpr i b s) = b"
| "cplx (VectorExpr i b s) = b"
| "cplx (UnaryOperator u n) = cplx n"
| "cplx (Inside n cs) = cplx n"
| "cplx (ExtendExpression n k) = cplx n"
| "cplx (BinaryOperator f l r) =
     (if f \<in> {MultipliesOpr, DevideOpr, ModuloOpr} \<and> cplx l \<noteq> 0 \<and> cplx r \<noteq> 0 then cplx l * cplx r
      else cplx l + cplx r)"
| "cplx (IfThenElse a b c) = cplx a + cplx b + cplx c"
| "cplx (Bitslice n r l) = nat (r - l + 1)"
| "cplx _ = 0"

text \<open>Vectors may not be accessed; a slice has at least one bit and the estimate of no part overflows.\<close>

fun cplx_fits :: "node \<Rightarrow> bool" where
  "cplx_fits (Placeholder i) \<longleftrightarrow> False"
| "cplx_fits (VariableExpr i b s) \<longleftrightarrow> b < 2 ^ 32"
| "cplx_fits (ConstantExpr c) \<longleftrightarrow> True"
| "cplx_fits (VectorExpr i b s) \<longleftrightarrow> b < 2 ^ 32"
| "cplx_fits (UnaryOperator u n) \<longleftrightarrow> u \<noteq> Unique \<and> cplx_fits n"
| "cplx_fits (Inside n cs) \<longleftrightarrow> cplx_fits n"
| "cplx_fits (ExtendExpression n k) \<longleftrightarrow> cplx_fits n"
| "cplx_fits (BinaryOperator f l r) \<longleftrightarrow>
     f \<noteq> ForEach \<and> cplx_fits l \<and> cplx_fits r \<and> cplx (BinaryOperator f l r) < 2 ^ 32"
| "cplx_fits (VectorAccess l r) \<longleftrightarrow> False"
| "cplx_fits (IfThenElse a b c) \<longleftrightarrow>
     cplx_fits a \<and> cplx_fits b \<and> cplx_fits c \<and> cplx a + cplx b + cplx c < 2 ^ 32"
| "cplx_fits (Bitslice n r l) \<longleftrightarrow> cplx_fits n \<and> l \<le> r \<and> r - l + 1 < 2 ^ 32"

lemma cplx_less: "cplx_fits n \<Longrightarrow> cplx n < 2 ^ 32"
  by (induction n) auto

lemma binop_complexity_exact:
  assumes "cplx (BinaryOperator f l r) < 2 ^ 32" and "cplx l < 2 ^ 32" and "cplx r < 2 ^ 32"
  shows "binop_complexity f (of_nat (cplx l)) (of_nat (cplx r)) = of_nat (cplx (BinaryOperator f l r))"
proof -
  have pos: "(0 :: u32) < of_nat k \<longleftrightarrow> k \<noteq> 0" if "k < 2 ^ 32" for k
    using that by (simp add: word_less_nat_alt unat_of_nat)
  show ?thesis
    using assms pos [of "cplx l"] pos [of "cplx r"]
    by (auto simp: binop_complexity_def complex_complexity_def simple_complexity_def)
qed

lemma cplx_visit_exact: "cplx_fits n \<Longrightarrow> cplx_visit n st = Inr ((n, of_nat (cplx n)) # st)"
proof (induction n arbitrary: st)
  case (BinaryOperator f l r)
  then show ?case
    using binop_complexity_exact [of f l r] cplx_less [of l] cplx_less [of r] by (simp del: cplx.simps)
qed auto

text \<open>C31: the estimate is exact as long as the unbounded estimate of every part fits the 32 bits of
  \<open>unsigned int\<close>: the wrap-around of the sums and products does not show.\<close>

theorem complexity_exact:
  assumes "cplx_fits n"
  shows "\<exists>c. getComplexityEstimation n = Inr c \<and> unat c = cplx n"
  using cplx_visit_exact [OF assms, of "[]"] cplx_less [OF assms]
  by (simp add: getComplexityEstimation_def unat_of_nat)

theorem complexity_exact_witness:
  "\<exists>c. getComplexityEstimation (BinaryOperator MultipliesOpr demo_narrow (VariableExpr 3 8 True)) = Inr c \<and>
     unat c = 96"
  using complexity_exact [of "BinaryOperator MultipliesOpr demo_narrow (VariableExpr 3 8 True)"]
  by (simp add: demo_narrow_def)

end
