(* ===== verification/Visitor.thy ===== *)
theory Visitor
  imports Results ConflictVisitor Support
begin

text \<open>
  The interface \<open>metaSMTVisitor\<close>, through which the generators use a solver: a record of its virtual
  functions over the state \<open>'v\<close> of an instance and the state \<open>'r\<close> of the source of random numbers. The
  contract is a locale; \<open>meta_visitor\<close> is the implementation \<open>metaSMTVisitorImpl\<close> over a predicate solver.
\<close>

section \<open>The interface\<close>

record ('v, 'r) visitor =
  vi_new :: 'v
  vi_makeAssertion :: "node \<Rightarrow> 'v \<Rightarrow> 'v result"
  vi_makeSoftAssertion :: "node \<Rightarrow> 'v \<Rightarrow> 'v result"
  vi_makeSuggestion :: "node \<Rightarrow> 'v \<Rightarrow> 'v result"
  vi_makeAssumption :: "node \<Rightarrow> 'v \<Rightarrow> 'v result"
  vi_analyseSofts :: "'v \<Rightarrow> (nat list \<times> 'v) result"
  vi_analyseContradiction :: "node idmap \<Rightarrow> 'v \<Rightarrow> (nat list list \<times> 'v) result"
  vi_solve :: "bool \<Rightarrow> 'r \<Rightarrow> 'v \<Rightarrow> (bool \<times> 'r \<times> 'v) result"
  vi_read :: "node \<Rightarrow> 'v \<Rightarrow> string option"
  vi_readVector :: "node list \<Rightarrow> 'v \<Rightarrow> string list option"

text \<open>A loop over a list that stops at the first error.\<close>

fun each :: "('a \<Rightarrow> 'v \<Rightarrow> 'v result) \<Rightarrow> 'a list \<Rightarrow> 'v \<Rightarrow> 'v result" where
  "each f [] v = Inr v"
| "each f (x # xs) v = rbind (f x v) (each f xs)"

text \<open>What constraints mean, and the strings values are read as.\<close>

definition holds :: "node \<Rightarrow> (nat \<Rightarrow> smt_val) \<Rightarrow> bool" where
  "holds n \<rho> \<longleftrightarrow> smt_sem \<rho> n = VBool True"

definition constraint_sorted :: "(nat \<Rightarrow> smt_sort) \<Rightarrow> node \<Rightarrow> bool" where
  "constraint_sorted d n \<longleftrightarrow> decls_ok d n \<and> sort_of n = Some SBool"

definition models :: "(nat \<Rightarrow> smt_sort) \<Rightarrow> node set \<Rightarrow> (nat \<Rightarrow> smt_val) set" where
  "models d N = {\<rho>. typed d \<rho> \<and> (\<forall>n\<in>N. holds n \<rho>)}"

fun val_string :: "smt_val \<Rightarrow> string" where
  "val_string (VBool b) = [digit b]"
| "val_string (VBits bs) = rev (map digit bs)"

lemma models_mono: "M \<subseteq> N \<Longrightarrow> models d N \<subseteq> models d M"
  by (auto simp: models_def)

lemma models_empty: "models d {} = {\<rho>. typed d \<rho>}"
  by (simp add: models_def)

lemma models_Un: "models d (M \<union> N) = {\<rho> \<in> models d M. \<forall>n\<in>N. holds n \<rho>}"
  by (auto simp: models_def)

text \<open>
  \<open>reg v H S A G\<close>: the hard constraints, soft constraints, assumptions and suggestions the instance has been
  given so far. A solve forgets assumptions and suggestions, \<open>analyseSofts\<close> turns the soft constraints it
  keeps into hard ones.
\<close>

locale solver_visitor =
  fixes V :: "('v, 'r) visitor" and d :: "nat \<Rightarrow> smt_sort"
    and reg :: "'v \<Rightarrow> node list \<Rightarrow> node list \<Rightarrow> node list \<Rightarrow> node list \<Rightarrow> bool"
  assumes new_law: "reg (vi_new V) [] [] [] []"
    and assertion_law: "reg v H S A G \<Longrightarrow> constraint_sorted d n \<Longrightarrow> \<exists>w. vi_makeAssertion V n v = Inr w \<and> reg w (H @ [n]) S A G"
    and soft_law: "reg v H S A G \<Longrightarrow> constraint_sorted d n \<Longrightarrow> \<exists>w. vi_makeSoftAssertion V n v = Inr w \<and> reg w H (S @ [n]) A G"
    and assumption_law: "reg v H S A G \<Longrightarrow> constraint_sorted d n \<Longrightarrow> \<exists>w. vi_makeAssumption V n v = Inr w \<and> reg w H S (A @ [n]) G"
    and suggestion_law: "reg v H S A G \<Longrightarrow> constraint_sorted d n \<Longrightarrow> \<exists>w. vi_makeSuggestion V n v = Inr w \<and> reg w H S A (G @ [n])"
    and softs_law: "reg v H S [] [] \<Longrightarrow> \<exists>is w. vi_analyseSofts V v = Inr (is, w) \<and>
      is = fst (best_softs (models d (set H)) 0 (map holds S)) \<and> reg w (H @ nths S (- set is)) [] [] []"
    and contradiction_law: "list_all (constraint_sorted d) ns \<Longrightarrow> length ns < 2 ^ 32 \<Longrightarrow>
      \<exists>rs w. vi_analyseContradiction V (List.enumerate 0 ns) (vi_new V) = Inr (rs, w) \<and>
        (rs = [] \<longleftrightarrow> models d (set ns) \<noteq> {}) \<and> (\<forall>r\<in>set rs. set r \<subseteq> {..<length ns})"
    and solve_law: "reg v H S A G \<Longrightarrow> \<exists>b r' w. vi_solve V ign r v = Inr (b, r', w) \<and> reg w H S [] [] \<and>
      (let ns = set H \<union> set A \<union> (if ign then {} else set S) in
       if b then \<exists>\<rho>\<in>models d ns.
         (\<forall>i k sg str. vi_read V (VariableExpr i k sg) w = Some str \<longrightarrow> str = val_string (\<rho> i)) \<and>
         (\<forall>n\<in>set (H @ S @ A @ G). \<forall>i\<in>node_vars n. \<forall>k sg. vi_read V (VariableExpr i k sg) w \<noteq> None)
       else models d ns = {})"
    and vector_law: "vi_readVector V ns v = those (map (\<lambda>n. vi_read V n v) ns)"

text \<open>What can be read after a successful solve: the values of \<open>\<rho>\<close>, and those of all variables of \<open>ns\<close>.\<close>

definition gives :: "('v, 'r) visitor \<Rightarrow> 'v \<Rightarrow> node list \<Rightarrow> (nat \<Rightarrow> smt_val) \<Rightarrow> bool" where
  "gives V v ns \<rho> \<longleftrightarrow> (\<forall>i k sg str. vi_read V (VariableExpr i k sg) v = Some str \<longrightarrow> str = val_string (\<rho> i)) \<and>
     (\<forall>n\<in>set ns. \<forall>i\<in>node_vars n. \<forall>k sg. vi_read V (VariableExpr i k sg) v \<noteq> None)"

context solver_visitor
begin

lemma solve_gives:
  assumes "reg v H S A G"
  shows "\<exists>b r' w. vi_solve V ign r v = Inr (b, r', w) \<and> reg w H S [] [] \<and>
    (if b then \<exists>\<rho>\<in>models d (set H \<union> set A \<union> (if ign then {} else set S)). gives V w (H @ S @ A @ G) \<rho>
     else models d (set H \<union> set A \<union> (if ign then {} else set S)) = {})"
  using solve_law [OF assms, of ign r] unfolding Let_def gives_def .

end

section \<open>The implementation\<close>

definition on_meta :: "('m \<Rightarrow> 'm result) \<Rightarrow> 'm \<times> 'f \<Rightarrow> ('m \<times> 'f) result" where
  "on_meta g = (\<lambda>(v, f). rbind (g v) (\<lambda>v. Inr (v, f)))"

definition on_meta_with :: "('m \<Rightarrow> ('a \<times> 'm) result) \<Rightarrow> 'm \<times> 'f \<Rightarrow> ('a \<times> 'm \<times> 'f) result" where
  "on_meta_with g = (\<lambda>(v, f). rbind (g v) (\<lambda>(x, v). Inr (x, v, f)))"

text \<open>\<open>static_cast<VariableExpr const *>\<close>: only variables are ever read.\<close>

fun read_node :: "('b \<Rightarrow> tribool) \<Rightarrow> node \<Rightarrow> ('s, 'b) meta \<Rightarrow> string option" where
  "read_node rv (VariableExpr i b sg) v = meta_read rv i v"
| "read_node rv n v = None"

text \<open>An instance is the visitor and the values of the solver's last solution.\<close>

definition meta_visitor ::
    "('s, 'b) psolver \<Rightarrow> string \<Rightarrow> ('s \<Rightarrow> 'b list \<Rightarrow> ('b \<Rightarrow> bool) option) \<Rightarrow> ('r \<Rightarrow> nat \<Rightarrow> nat \<times> 'r) \<Rightarrow> 'b \<Rightarrow> 's \<Rightarrow>
     (('s, 'b) meta \<times> ('b \<Rightarrow> bool), 'r) visitor" where
  "meta_visitor P enc slv rnd dflt s =
     \<lparr>vi_new = (new_meta s, \<lambda>_. False),
      vi_makeAssertion = \<lambda>n. on_meta (makeAssertion P n),
      vi_makeSoftAssertion = \<lambda>n. on_meta (makeSoftAssertion P n),
      vi_makeSuggestion = \<lambda>n. on_meta (makeSuggestion P n),
      vi_makeAssumption = \<lambda>n. on_meta (makeAssumption P n),
      vi_analyseSofts = on_meta_with (analyseSofts P (\<lambda>s as. slv s as \<noteq> None)),
      vi_analyseContradiction = \<lambda>ns. on_meta_with (analyseContradiction P enc slv dflt ns),
      vi_solve = \<lambda>ign r (v, f). rbind (solve P slv rnd ign r v) (\<lambda>(a, r, v).
        Inr (a \<noteq> None, r, v, case a of None \<Rightarrow> f | Some f' \<Rightarrow> f')),
      vi_read = \<lambda>n (v, f). read_node (\<lambda>b. Some (f b)) n v,
      vi_readVector = \<lambda>ns (v, f). those (map (\<lambda>n. read_node (\<lambda>b. Some (f b)) n v) ns)\<rparr>"

section \<open>Variables of translated expressions\<close>

lemma rbind_InrE: "rbind m f = Inr y \<Longrightarrow> (\<And>x. m = Inr x \<Longrightarrow> f x = Inr y \<Longrightarrow> thesis) \<Longrightarrow> thesis"
  by (auto simp: rbind_eq_Inr)

lemma mv_push_terminals [simp]: "mv_terminals (mv_push r v) = mv_terminals v"
  by (cases r) (simp add: mv_push_def)

lemma mv_pop_terminals: "mv_pop v = Inr (e, w) \<Longrightarrow> mv_terminals w = mv_terminals v"
  by (auto simp: mv_pop_def rbind_eq_Inr)

lemma mv_unary_terminals: "mv_unary f v = Inr w \<Longrightarrow> mv_terminals w = mv_terminals v"
  by (auto simp: mv_unary_def rbind_eq_Inr dest: mv_pop_terminals)

lemma mv_binary_terminals: "mv_binary f v = Inr w \<Longrightarrow> mv_terminals w = mv_terminals v"
  by (auto simp: mv_binary_def rbind_eq_Inr)

lemma mv_ternary_terminals: "mv_ternary f v = Inr w \<Longrightarrow> mv_terminals w = mv_terminals v"
  by (auto simp: mv_ternary_def rbind_eq_Inr)

lemma meta_variable_terminals:
  "meta_variable P i b sg v = Inr w \<Longrightarrow> mv_terminals v \<subseteq>\<^sub>m mv_terminals w \<and> i \<in> dom (mv_terminals w)"
  by (auto simp: meta_variable_def rbind_eq_Inr map_le_def split: option.splits if_splits prod.splits)

lemma terminals_trans:
  assumes "f \<subseteq>\<^sub>m g \<and> A \<subseteq> dom g" and "g \<subseteq>\<^sub>m h \<and> B \<subseteq> dom h"
  shows "f \<subseteq>\<^sub>m h \<and> A \<union> B \<subseteq> dom h"
  using assms by (meson Un_least map_le_implies_dom_le map_le_trans subset_trans)

lemma meta_visit_terminals:
  "meta_visit P n v = Inr w \<Longrightarrow> mv_terminals v \<subseteq>\<^sub>m mv_terminals w \<and> node_vars n \<subseteq> dom (mv_terminals w)"
proof (induction n arbitrary: v w)
  case (VariableExpr i b sg)
  then show ?case using meta_variable_terminals by fastforce
next
  case (UnaryOperator u n)
  then obtain x where "meta_visit P n v = Inr x" "mv_unary (meta_unop P u) x = Inr w"
    by (auto simp: rbind_eq_Inr split: if_splits)
  then show ?case using UnaryOperator.IH mv_unary_terminals by fastforce
next
  case (Inside n cs)
  then obtain x where "meta_visit P n v = Inr x" "mv_terminals w = mv_terminals x"
    by (auto simp: rbind_eq_Inr dest: mv_unary_terminals)
  then show ?case using Inside.IH by fastforce
next
  case (ExtendExpression n k)
  then obtain x where "meta_visit P n v = Inr x" "mv_terminals w = mv_terminals x"
    by (auto simp: rbind_eq_Inr dest: mv_unary_terminals)
  then show ?case using ExtendExpression.IH by fastforce
next
  case (Bitslice n r l)
  then obtain x where "meta_visit P n v = Inr x" "mv_terminals w = mv_terminals x"
    by (auto simp: rbind_eq_Inr dest: mv_unary_terminals)
  then show ?case using Bitslice.IH by fastforce
next
  case (BinaryOperator f l r)
  then obtain x y where xy: "meta_visit P l v = Inr x" "meta_visit P r x = Inr y" "mv_terminals w = mv_terminals y"
    by (auto simp: rbind_eq_Inr split: if_splits dest: mv_binary_terminals)
  note l = BinaryOperator.IH(1) [OF xy(1)] and r = BinaryOperator.IH(2) [OF xy(2)]
  show ?case using terminals_trans [OF l r] by (simp add: xy(3))
next
  case (IfThenElse a b c)
  then obtain x y z where xyz: "meta_visit P a v = Inr x" "meta_visit P b x = Inr y" "meta_visit P c y = Inr z"
    "mv_terminals w = mv_terminals z"
    by (auto simp: rbind_eq_Inr dest: mv_ternary_terminals)
  note a = IfThenElse.IH(1) [OF xyz(1)] and b = IfThenElse.IH(2) [OF xyz(2)] and c = IfThenElse.IH(3) [OF xyz(3)]
  show ?case using terminals_trans [OF terminals_trans [OF a b] c] by (simp add: xyz(4) Un_assoc)
qed (auto simp: rbind_eq_Inr)

lemma visit_pop_terminals:
  assumes "rbind (meta_visit P n v) mv_pop = Inr (e, w)"
  shows "mv_terminals v \<subseteq>\<^sub>m mv_terminals w \<and> node_vars n \<subseteq> dom (mv_terminals w)"
proof -
  obtain x where x: "meta_visit P n v = Inr x" "mv_pop x = Inr (e, w)" by (rule rbind_InrE [OF assms])
  show ?thesis using meta_visit_terminals [OF x(1)] mv_pop_terminals [OF x(2)] by simp
qed

end
