(* ===== verification/Distribution.thy ===== *)
theory Distribution
  imports Node
begin

text \<open>
  Distributions (\<open>Distribution.hpp\<close>, \<open>WeightedRange.hpp\<close>): weighted ranges of values of an integral type
  \<open>T\<close> and the next value drawn from them. A value of \<open>T\<close> is an integer between the bounds of its type,
  weights are 64-bit words. The standard library's uniform distribution is a parameter \<open>uni\<close>: from the
  state of the random engine it yields a number between two bounds and the next state.
\<close>

section \<open>Integral types\<close>

record itype =
  it_width :: nat
  it_sign :: bool

definition it_min :: "itype \<Rightarrow> int" where
  "it_min T = (if it_sign T then - (2 ^ (it_width T - 1)) else 0)"

definition it_max :: "itype \<Rightarrow> int" where
  "it_max T = (if it_sign T then 2 ^ (it_width T - 1) - 1 else 2 ^ it_width T - 1)"

definition in_type :: "itype \<Rightarrow> int \<Rightarrow> bool" where
  "in_type T x \<longleftrightarrow> it_min T \<le> x \<and> x \<le> it_max T"

section \<open>Weighted ranges\<close>

record weighted_range =
  left_of :: int
  right_of :: int
  weight :: u64
  accum_weight :: u64

definition new_weighted_range :: "int \<Rightarrow> int \<Rightarrow> u64 \<Rightarrow> weighted_range" where
  "new_weighted_range l r w = \<lparr>left_of = l, right_of = r, weight = w, accum_weight = 0\<rparr>"

definition weighted_range_less :: "weighted_range \<Rightarrow> weighted_range \<Rightarrow> bool" where
  "weighted_range_less a b =
     (if left_of a < left_of b then True
      else if left_of a > left_of b then False
      else if right_of a < right_of b then True
      else False)"

definition overlap :: "weighted_range \<Rightarrow> weighted_range \<Rightarrow> bool" where
  "overlap a b =
     (if left_of a < left_of b then right_of a \<ge> left_of b
      else if left_of a > left_of b then left_of a \<le> right_of b
      else False)"

text \<open>
  \<open>range\<close>: the weight is \<open>r + 1 - l\<close>, computed in \<open>int\<close> for types narrower than that, in \<open>T\<close> otherwise,
  where an unsigned sum wraps and a signed one must not overflow.
\<close>

definition new_range :: "itype \<Rightarrow> int \<Rightarrow> int \<Rightarrow> weighted_range result" where
  "new_range T l r =
     (if it_width T < 32 then Inr (new_weighted_range l r (word_of_int (r + 1 - l)))
      else if \<not> it_sign T then Inr (new_weighted_range l r (word_of_int ((r + 1 - l) mod 2 ^ it_width T)))
      else if in_type T (r + 1) \<and> in_type T (r + 1 - l) then Inr (new_weighted_range l r (word_of_int (r + 1 - l)))
      else Inl UndefinedBehaviour)"

definition weighted_value :: "int \<Rightarrow> u64 \<Rightarrow> weighted_range" where
  "weighted_value v w = new_weighted_range v v w"

section \<open>Distributions\<close>

type_synonym distribution = "weighted_range list"

definition addRange :: "weighted_range \<Rightarrow> distribution \<Rightarrow> distribution result" where
  "addRange wr ranges =
     (if list_ex (\<lambda>x. overlap x wr) ranges then Inl (RuntimeError ''Overlapping range exists.'')
      else let wr = wr\<lparr>accum_weight :=
          (if ranges = [] then weight wr else accum_weight (last ranges) + weight wr)\<rparr>
        in Inr (ranges @ [wr]))"

definition new_distribution :: "weighted_range \<Rightarrow> distribution result" where
  "new_distribution wr = addRange wr []"

definition simple_range :: "itype \<Rightarrow> int \<Rightarrow> int \<Rightarrow> distribution result" where
  "simple_range T l r = rbind (new_range T l r) new_distribution"

definition reset_distribution :: "distribution \<Rightarrow> distribution" where
  "reset_distribution ranges = []"

text \<open>\<open>std::uniform_int_distribution\<close> requires its bounds in order.\<close>

definition uniformly_distributed_value :: "(int \<Rightarrow> int \<Rightarrow> 'g \<Rightarrow> int \<times> 'g) \<Rightarrow> int \<Rightarrow> int \<Rightarrow> 'g \<Rightarrow> (int \<times> 'g) result" where
  "uniformly_distributed_value uni l r g = (if l \<le> r then Inr (uni l r g) else Inl UndefinedBehaviour)"

definition select_range :: "distribution \<Rightarrow> u64 \<Rightarrow> weighted_range" where
  "select_range ranges r =
     (case find (\<lambda>x. r < accum_weight x) ranges of Some x \<Rightarrow> x | None \<Rightarrow> last ranges)"

definition nextValue :: "(int \<Rightarrow> int \<Rightarrow> 'g \<Rightarrow> int \<times> 'g) \<Rightarrow> itype \<Rightarrow> distribution \<Rightarrow> 'g \<Rightarrow> (int \<times> 'g) result" where
  "nextValue uni T ranges g =
     (if ranges = [] then uniformly_distributed_value uni (it_min T) (it_max T) g
      else if length ranges > 1 then
        rbind (uniformly_distributed_value uni 0 (uint (accum_weight (last ranges) - 1)) g) (\<lambda>(r, g).
          let selected = select_range ranges (word_of_int r)
          in uniformly_distributed_value uni (left_of selected) (right_of selected) g)
      else uniformly_distributed_value uni (left_of (last ranges)) (right_of (last ranges)) g)"

section \<open>Distributions built from ranges\<close>

fun addRanges :: "weighted_range list \<Rightarrow> distribution \<Rightarrow> distribution result" where
  "addRanges [] ranges = Inr ranges"
| "addRanges (x # xs) ranges = rbind (addRange x ranges) (addRanges xs)"

text \<open>\<open>accumulated s rs\<close>: the accumulated weights continue \<open>s\<close>.\<close>

fun accumulated :: "u64 \<Rightarrow> distribution \<Rightarrow> bool" where
  "accumulated s [] \<longleftrightarrow> True"
| "accumulated s (x # xs) \<longleftrightarrow> accum_weight x = s + weight x \<and> accumulated (accum_weight x) xs"

definition total_weight :: "weighted_range list \<Rightarrow> nat" where
  "total_weight xs = sum_list (map (\<lambda>x. unat (weight x)) xs)"

lemma total_weight_simps [simp]: "total_weight [] = 0" "total_weight (x # xs) = unat (weight x) + total_weight xs"
    "total_weight (xs @ ys) = total_weight xs + total_weight ys"
  by (simp_all add: total_weight_def)

lemma accumulated_snoc:
  "accumulated s (xs @ [y]) \<longleftrightarrow> accumulated s xs \<and> accum_weight y = (if xs = [] then s else accum_weight (last xs)) + weight y"
  by (induction xs arbitrary: s) auto

text \<open>Two ranges with the same bounds and weight; a distribution made of given ranges.\<close>

definition same_range :: "weighted_range \<Rightarrow> weighted_range \<Rightarrow> bool" where
  "same_range a b \<longleftrightarrow> left_of a = left_of b \<and> right_of a = right_of b \<and> weight a = weight b"

lemma addRange_accumulated:
  assumes "addRange x rs = Inr rs'" and "accumulated 0 rs"
  shows "\<exists>y. rs' = rs @ [y] \<and> same_range x y \<and> accumulated 0 rs'"
  using assms by (auto simp: addRange_def Let_def accumulated_snoc same_range_def split: if_splits)

lemma addRanges_accumulated:
  "addRanges xs rs = Inr rs' \<Longrightarrow> accumulated 0 rs \<Longrightarrow> \<exists>ys. rs' = rs @ ys \<and> list_all2 same_range xs ys \<and> accumulated 0 rs'"
proof (induction xs arbitrary: rs)
  case (Cons x xs)
  obtain r1 where r1: "addRange x rs = Inr r1" "addRanges xs r1 = Inr rs'" using Cons.prems(1) by (auto simp: rbind_eq_Inr)
  then obtain y where y: "r1 = rs @ [y]" "same_range x y" "accumulated 0 r1" using addRange_accumulated Cons.prems(2) by blast
  with Cons.IH [OF r1(2)] show ?case by auto
qed simp

lemma same_ranges_weight: "list_all2 same_range xs ys \<Longrightarrow> total_weight xs = total_weight ys"
  by (induction rule: list_all2_induct) (simp_all add: same_range_def)

lemma unat_plus_weight:
  assumes "unat s + (unat (weight x) + k) < 2 ^ 64"
  shows "unat (s + weight x) = unat s + unat (weight x)"
  using assms by (simp add: unat_word_ariths)

lemma accum_weight_less:
  assumes "accumulated s rs" and "unat s + total_weight rs < 2 ^ 64" and "\<forall>x\<in>set rs. 0 < unat (weight x)" and "y \<in> set rs"
  shows "unat s < unat (accum_weight y)"
  using assms
proof (induction rs arbitrary: s)
  case (Cons x xs)
  have u: "unat (accum_weight x) = unat s + unat (weight x)"
    using Cons.prems(1,2) unat_plus_weight [of s x "total_weight xs"] by simp
  then show ?case using Cons.IH [of "accum_weight x"] Cons.prems by fastforce
qed simp

lemma find_range:
  assumes "accumulated s rs" and "unat s + total_weight rs < 2 ^ 64" and "\<forall>x\<in>set rs. 0 < unat (weight x)"
    and "i < length rs" and "unat s \<le> r" and "r < 2 ^ 64"
  shows "find (\<lambda>x. of_nat r < accum_weight x) rs = Some (rs ! i) \<longleftrightarrow>
    unat s + total_weight (take i rs) \<le> r \<and> r < unat s + total_weight (take (Suc i) rs)"
  using assms
proof (induction rs arbitrary: s i)
  case (Cons x xs)
  have u: "unat (accum_weight x) = unat s + unat (weight x)"
    using Cons.prems(1,2) unat_plus_weight [of s x "total_weight xs"] by simp
  have acc: "accumulated (accum_weight x) xs" "unat (accum_weight x) + total_weight xs < 2 ^ 64" "\<forall>x\<in>set xs. 0 < unat (weight x)"
    using Cons.prems(1-3) u by auto
  have ne: "y \<noteq> x" if "y \<in> set xs" for y using accum_weight_less [OF acc that] by auto
  have less: "of_nat r < accum_weight x \<longleftrightarrow> r < unat s + unat (weight x)"
    using Cons.prems(6) by (simp add: word_less_nat_alt unat_of_nat flip: u)
  show ?case
  proof (cases "r < unat s + unat (weight x)")
    case True
    have "xs ! j \<noteq> x" if "i = Suc j" for j using ne [of "xs ! j"] Cons.prems(4) that by simp
    then show ?thesis using True less Cons.prems(5) by (cases i) auto
  next
    case False
    then have f: "find (\<lambda>x. of_nat r < accum_weight x) (x # xs) = find (\<lambda>x. of_nat r < accum_weight x) xs"
      using less by simp
    show ?thesis
    proof (cases i)
      case 0
      have "find (\<lambda>x. of_nat r < accum_weight x) xs \<noteq> Some x" using ne nth_mem by (fastforce simp: find_Some_iff)
      then show ?thesis using f 0 False by simp
    next
      case (Suc j)
      then show ?thesis using Cons.IH [OF acc, of j] Cons.prems(4,6) f False u by (simp add: add.assoc)
    qed
  qed
qed simp

lemma total_of_last: "accumulated s rs \<Longrightarrow> unat s + total_weight rs < 2 ^ 64 \<Longrightarrow> rs \<noteq> [] \<Longrightarrow>
    unat (accum_weight (last rs)) = unat s + total_weight rs"
proof (induction rs arbitrary: s)
  case (Cons x xs)
  have u: "unat (accum_weight x) = unat s + unat (weight x)"
    using Cons.prems(1,2) unat_plus_weight [of s x "total_weight xs"] by simp
  have acc: "accumulated (accum_weight x) xs" using Cons.prems(1) by (auto simp only: accumulated.simps)
  have "unat (accum_weight (last xs)) = unat (accum_weight x) + total_weight xs" if "xs \<noteq> []"
    using Cons.IH [OF acc _ that] Cons.prems(2) u by simp
  then show ?case using u by auto
qed simp

lemma total_weight_take: "i < length xs \<Longrightarrow> total_weight (take (Suc i) xs) = total_weight (take i xs) + unat (weight (xs ! i))"
  by (simp add: take_Suc_conv_app_nth)

lemma total_weight_take_le: "total_weight (take k xs) \<le> total_weight xs"
  by (metis append_take_drop_id le_add1 total_weight_simps(3))

lemma selections:
  assumes "accumulated 0 rs" and "total_weight rs < 2 ^ 64" and "\<forall>x\<in>set rs. 0 < weight x" and i: "i < length rs"
  shows "{r. r < total_weight rs \<and> select_range rs (of_nat r) = rs ! i} =
    {total_weight (take i rs)..<total_weight (take (Suc i) rs)}"
proof -
  have pos: "\<forall>x\<in>set rs. 0 < unat (weight x)" using assms(3) by (simp add: unat_gt_0 word_neq_0_conv)
  have f: "find (\<lambda>x. of_nat r < accum_weight x) rs = Some (rs ! j) \<longleftrightarrow>
      total_weight (take j rs) \<le> r \<and> r < total_weight (take (Suc j) rs)" if "r < total_weight rs" "j < length rs" for r j
    using find_range [OF assms(1) _ pos that(2), of r] that assms(2) by simp
  have some: "\<exists>x. find (\<lambda>x. of_nat r < accum_weight x) rs = Some x" if "r < total_weight rs" for r
  proof -
    have "rs \<noteq> []" using i by auto
    then have "unat (accum_weight (last rs)) = total_weight rs" using total_of_last [OF assms(1)] assms(2) by simp
    then have "of_nat r < accum_weight (last rs)"
      using that assms(2) by (simp add: word_less_nat_alt unat_of_nat)
    then have "\<exists>x\<in>set rs. of_nat r < accum_weight x" using \<open>rs \<noteq> []\<close> last_in_set by blast
    then show ?thesis by (metis find_None_iff not_None_eq)
  qed
  have "select_range rs (of_nat r) = rs ! i \<longleftrightarrow> total_weight (take i rs) \<le> r \<and> r < total_weight (take (Suc i) rs)"
    if "r < total_weight rs" for r
    using f [OF that i] some [OF that] by (auto simp: select_range_def)
  moreover have "total_weight (take (Suc i) rs) \<le> total_weight rs" by (rule total_weight_take_le)
  ultimately show ?thesis by auto
qed

lemma select_range_member: "rs \<noteq> [] \<Longrightarrow> select_range rs r \<in> set rs"
  by (auto simp: select_range_def find_Some_iff split: option.splits)

lemma same_range_nth: "list_all2 same_range xs ys \<Longrightarrow> i < length xs \<Longrightarrow> weight (ys ! i) = weight (xs ! i)"
  by (auto simp: list_all2_conv_all_nth same_range_def)

section \<open>Properties\<close>

text \<open>C18: a distribution of a type of at least one bit whose ranges, each with its bounds in order, were
  accepted one after the other, with a source of random numbers that stays in the bounds it is given, yields
  a value, and the value lies in one of the ranges, or anywhere in the type when there are none. If moreover
  all weights are positive and their sum is below \<open>2 ^ 64\<close>, then of the numbers that can be drawn to choose a
  range exactly as many choose a range as its weight says.\<close>

theorem nextValue_weighted:
  assumes "addRanges xs [] = Inr rs" and "\<forall>x\<in>set xs. left_of x \<le> right_of x" and "0 < it_width T"
    and "\<And>l r g. l \<le> r \<Longrightarrow> l \<le> fst (uni l r g) \<and> fst (uni l r g) \<le> r"
  shows "(\<exists>v g'. nextValue uni T rs g = Inr (v, g') \<and>
      (if xs = [] then in_type T v else \<exists>x\<in>set xs. left_of x \<le> v \<and> v \<le> right_of x)) \<and>
    (\<forall>i<length xs. total_weight xs < 2 ^ 64 \<longrightarrow> (\<forall>x\<in>set xs. 0 < weight x) \<longrightarrow>
      card {r. r \<le> unat (accum_weight (last rs) - 1) \<and> select_range rs (of_nat r) = rs ! i} = unat (weight (xs ! i)))"
proof (intro conjI allI impI)
  have same: "list_all2 same_range xs rs" and acc: "accumulated 0 rs"
    using addRanges_accumulated [OF assms(1)] by auto
  have ne: "xs = [] \<longleftrightarrow> rs = []" using same by auto
  have draw: "\<exists>v g'. uniformly_distributed_value uni l r g = Inr (v, g') \<and> l \<le> v \<and> v \<le> r" if "l \<le> r" for l r g
    using assms(4) [OF that, of g] that by (cases "uni l r g") (simp add: uniformly_distributed_value_def)
  have from_range: "\<exists>v g'. uniformly_distributed_value uni (left_of y) (right_of y) g = Inr (v, g') \<and>
      (\<exists>x\<in>set xs. left_of x \<le> v \<and> v \<le> right_of x)" if "y \<in> set rs" for y g
  proof -
    obtain x where x: "x \<in> set xs" "same_range x y"
      using same \<open>y \<in> set rs\<close> by (metis in_set_conv_nth list_all2_conv_all_nth)
    then have "left_of y \<le> right_of y" using assms(2) by (auto simp: same_range_def)
    then obtain v g' where "uniformly_distributed_value uni (left_of y) (right_of y) g = Inr (v, g')" "left_of y \<le> v" "v \<le> right_of y"
      using draw by blast
    then show ?thesis using x by (intro exI [of _ v] exI [of _ g'] conjI bexI [OF _ x(1)]) (simp_all add: same_range_def)
  qed
  show "\<exists>v g'. nextValue uni T rs g = Inr (v, g') \<and>
      (if xs = [] then in_type T v else \<exists>x\<in>set xs. left_of x \<le> v \<and> v \<le> right_of x)"
  proof (cases "length rs > 1")
    case True
    have "0 \<le> uint (accum_weight (last rs) - 1)" by simp
    then obtain r g1 where r: "uniformly_distributed_value uni 0 (uint (accum_weight (last rs) - 1)) g = Inr (r, g1)"
      using draw by blast
    have "select_range rs (word_of_int r) \<in> set rs" using True by (intro select_range_member) auto
    then show ?thesis using True r from_range ne by (auto simp: nextValue_def Let_def)
  next
    case False
    have "it_min T \<le> it_max T" by (auto simp: it_min_def it_max_def)
    then show ?thesis
      using False draw [of "it_min T" "it_max T" g] from_range [of "last rs" g] ne
      by (cases "rs = []") (auto simp: nextValue_def in_type_def)
  qed
  fix i assume i: "i < length xs" and total: "total_weight xs < 2 ^ 64" and pos: "\<forall>x\<in>set xs. 0 < weight x"
  have total': "total_weight rs < 2 ^ 64" using same_ranges_weight [OF same] total by simp
  have pos': "\<forall>x\<in>set rs. 0 < weight x" using same pos by (metis in_set_conv_nth list_all2_conv_all_nth same_range_def)
  have len: "i < length rs" using i same by (simp add: list_all2_lengthD)
  then have nonempty: "rs \<noteq> []" by auto
  have "unat (accum_weight (last rs)) = total_weight rs" using total_of_last [OF acc _ nonempty] total' by simp
  moreover have "0 < total_weight rs"
    using accum_weight_less [OF acc, of "last rs"] total' pos' nonempty calculation by (simp add: unat_gt_0 word_neq_0_conv)
  ultimately have "unat (accum_weight (last rs) - 1) = total_weight rs - 1" "0 < total_weight rs"
    using unat_minus_one [of "accum_weight (last rs)"] by (cases "accum_weight (last rs) = 0"; simp)+
  then have "r \<le> unat (accum_weight (last rs) - 1) \<longleftrightarrow> r < total_weight rs" for r by linarith
  then have "card {r. r \<le> unat (accum_weight (last rs) - 1) \<and> select_range rs (of_nat r) = rs ! i} =
      total_weight (take (Suc i) rs) - total_weight (take i rs)"
    using selections [OF acc total' pos' len] by simp
  then show "card {r. r \<le> unat (accum_weight (last rs) - 1) \<and> select_range rs (of_nat r) = rs ! i} = unat (weight (xs ! i))"
    using total_weight_take [OF len] same_range_nth [OF same i] by simp
qed

theorem nextValue_weighted_witness:
  "\<exists>rs. addRanges [new_weighted_range 0 9 30, weighted_value 20 70] [] = Inr rs \<and>
    (\<exists>v g'. nextValue (\<lambda>l r g. (l + int g mod (r - l + 1), Suc g)) \<lparr>it_width = 8, it_sign = False\<rparr> rs 7 = Inr (v, g'))"
proof -
  obtain rs where rs: "addRanges [new_weighted_range 0 9 30, weighted_value 20 70] [] = Inr rs"
    by (simp add: addRange_def new_weighted_range_def weighted_value_def overlap_def Let_def)
  have "\<exists>v g'. nextValue (\<lambda>l r g. (l + int g mod (r - l + 1), Suc g)) \<lparr>it_width = 8, it_sign = False\<rparr> rs 7 = Inr (v, g')"
  proof -
    let ?xs = "[new_weighted_range 0 9 30, weighted_value 20 70]"
    have "l \<le> r \<Longrightarrow> l \<le> fst (l + int g mod (r - l + 1), Suc g) \<and> fst (l + int g mod (r - l + 1), Suc g) \<le> r" for l r g
      using pos_mod_bound [of "r - l + 1" "int g"] by simp
    then have "\<exists>v g'. nextValue (\<lambda>l r g. (l + int g mod (r - l + 1), Suc g)) \<lparr>it_width = 8, it_sign = False\<rparr> rs 7 = Inr (v, g') \<and>
        (if ?xs = [] then in_type \<lparr>it_width = 8, it_sign = False\<rparr> v else \<exists>x\<in>set ?xs. left_of x \<le> v \<and> v \<le> right_of x)"
      by (intro nextValue_weighted [OF rs, THEN conjunct1]) (simp_all add: new_weighted_range_def weighted_value_def)
    then show ?thesis by blast
  qed
  then show ?thesis using rs by blast
qed

text \<open>A range is refused exactly when it shares a value with a range already there whose left bound differs
  from its own: ranges that begin at the same value are never found to overlap, however much they share.\<close>

theorem addRange_overlap:
  assumes "\<forall>x\<in>set ranges. left_of x \<le> right_of x" and "left_of wr \<le> right_of wr"
  shows "addRange wr ranges = Inl (RuntimeError ''Overlapping range exists.'') \<longleftrightarrow>
    (\<exists>x\<in>set ranges. left_of x \<noteq> left_of wr \<and> {left_of x..right_of x} \<inter> {left_of wr..right_of wr} \<noteq> {})"
proof -
  have "overlap x wr \<longleftrightarrow> left_of x \<noteq> left_of wr \<and> {left_of x..right_of x} \<inter> {left_of wr..right_of wr} \<noteq> {}"
    if "x \<in> set ranges" for x
    using assms that by (auto simp: overlap_def)
  then show ?thesis by (simp add: addRange_def list_ex_iff Let_def)
qed

theorem addRange_overlap_witness:
  "addRange (new_weighted_range 1 5 1) [new_weighted_range 1 9 1] \<noteq> Inl (RuntimeError ''Overlapping range exists.'')"
  using addRange_overlap [of "[new_weighted_range 1 9 1]" "new_weighted_range 1 5 1"]
  by (simp add: new_weighted_range_def)

end
