(* ===== verification/References.thy ===== *)
theory References
  imports Visitor Distribution
begin

text \<open>
  What ties the variables of the program to the solver (\<open>VariableContainer\<close>, \<open>ReferenceExpression\<close> and
  \<open>AssignResult\<close> with their implementations). The memory of the program is a state \<open>'m\<close>; a C++ reference
  or pointer to a variable of it is how to read it, and, where it is written, how to write it. The
  abstract classes are records of their virtual functions, and \<open>'r\<close> is the state of the random sources.
\<close>

section \<open>References that are read\<close>

type_synonym ('m, 'r) reference_expression = "'m \<Rightarrow> 'r \<Rightarrow> (node \<times> 'r) result"

text \<open>\<open>value\<close> is the constant made of the current value of the variable referred to.\<close>

definition ReferenceExpressionImpl :: "('m \<Rightarrow> const_t) \<Rightarrow> node \<Rightarrow> ('m, 'r) reference_expression" where
  "ReferenceExpressionImpl value expr = (\<lambda>m r. Inr (BinaryOperator EqualOpr expr (ConstantExpr (value m)), r))"

definition DistReferenceExpr ::
    "(int \<Rightarrow> int \<Rightarrow> 'r \<Rightarrow> int \<times> 'r) \<Rightarrow> itype \<Rightarrow> distribution \<Rightarrow> node \<Rightarrow> ('m, 'r) reference_expression" where
  "DistReferenceExpr uni T rs expr = (\<lambda>m r. rbind (nextValue uni T rs r) (\<lambda>(x, r).
     Inr (BinaryOperator EqualOpr expr (ConstantExpr (Constant (word_of_int x) (it_width T) (it_sign T))), r)))"

section \<open>References that are written\<close>

record ('m, 'r) assign_result =
  ar_value_as_constant :: "'m \<Rightarrow> const_t"
  ar_to_constant :: "string \<Rightarrow> 'r \<Rightarrow> const_t \<times> 'r"
  ar_set_value :: "string \<Rightarrow> 'm \<Rightarrow> 'r \<Rightarrow> 'm \<times> 'r"

definition AssignResultToRef ::
    "('r \<Rightarrow> bool \<times> 'r) option \<Rightarrow> bool \<Rightarrow> ('m \<Rightarrow> 'a::len word) \<Rightarrow> ('a word \<Rightarrow> 'm \<Rightarrow> 'm) \<Rightarrow> ('m, 'r) assign_result" where
  "AssignResultToRef rnd sg get put =
     \<lparr>ar_value_as_constant = \<lambda>m. to_constant_expr sg (get m),
      ar_to_constant = \<lambda>str r. let (v :: 'a word, r) = set_value rnd sg str r in (to_constant_expr sg v, r),
      ar_set_value = \<lambda>str m r. let (v, r) = set_value rnd sg str r in (put v m, r)\<rparr>"

definition AssignResultToRef_bool :: "('m \<Rightarrow> bool) \<Rightarrow> (bool \<Rightarrow> 'm \<Rightarrow> 'm) \<Rightarrow> ('m, 'r) assign_result" where
  "AssignResultToRef_bool get put =
     \<lparr>ar_value_as_constant = \<lambda>m. to_constant_expr_bool (get m),
      ar_to_constant = \<lambda>str r. (to_constant_expr_bool (set_value_bool str), r),
      ar_set_value = \<lambda>str m r. (put (set_value_bool str) m, r)\<rparr>"

section \<open>The container\<close>

record ('m, 'r) container =
  variables :: "nat \<rightharpoonup> node"
  vector_variables :: "nat \<rightharpoonup> node"
  read_references :: "(nat \<times> ('m, 'r) reference_expression) list"
  write_references :: "(nat \<times> ('m, 'r) assign_result) list"
  dist_references :: "(nat \<times> ('m, 'r) reference_expression) list"
  dist_ref_to_var_map :: "nat \<rightharpoonup> nat"

definition new_container :: "('m, 'r) container" where
  "new_container = \<lparr>variables = Map.empty, vector_variables = Map.empty, read_references = [],
     write_references = [], dist_references = [], dist_ref_to_var_map = Map.empty\<rparr>"

section \<open>The contract of a written reference\<close>

definition const_sort :: "const_t \<Rightarrow> smt_sort" where
  "const_sort c = term_sort (cbitsize c) (csign c)"

text \<open>
  Writing a value the solver reports and reading it back gives that value, and every constant made has the
  sort of the variable.
\<close>

locale assign_result =
  fixes ar :: "('m, 'r) assign_result" and t :: smt_sort
  assumes set_law: "sort_of_val v = t \<Longrightarrow> sem_constant (ar_value_as_constant ar (fst (ar_set_value ar (val_string v) m r))) = v"
    and constant_law: "const_sort (fst (ar_to_constant ar str r)) = t"
    and value_law: "const_sort (ar_value_as_constant ar m) = t"

lemma to_constant_expr_sort: "const_sort (to_constant_expr sg (v :: 'a::len word)) = term_sort LENGTH('a) sg"
  by (simp add: const_sort_def to_constant_expr_def)

lemma AssignResultToRef_contract:
  assumes "\<And>v m. get (put v m) = (v :: 'a::len word)" and "LENGTH('a) \<le> 64" and "\<not> isBool LENGTH('a) sg"
  shows "assign_result (AssignResultToRef rnd sg get put) (term_sort LENGTH('a) sg)"
proof
  fix v m r assume "sort_of_val v = term_sort LENGTH('a) sg"
  then obtain bs where bs: "v = VBits bs" "length bs = LENGTH('a)"
    using assms(3) by (cases v) (simp_all add: term_sort_def)
  then show "sem_constant (ar_value_as_constant (AssignResultToRef rnd sg get put)
      (fst (ar_set_value (AssignResultToRef rnd sg get put) (val_string v) m r))) = v"
    by (simp add: AssignResultToRef_def set_value_digits assms(1) sem_to_constant_expr [OF bs(2) assms(2,3)])
qed (simp_all add: AssignResultToRef_def to_constant_expr_sort split: prod.splits)

lemma AssignResultToRef_bool_contract:
  assumes "\<And>v m. get (put v m) = v"
  shows "assign_result (AssignResultToRef_bool get put) SBool"
proof
  fix v m r assume "sort_of_val v = SBool"
  then obtain b where "v = VBool b" by (cases v) auto
  then show "sem_constant (ar_value_as_constant (AssignResultToRef_bool get put)
      (fst (ar_set_value (AssignResultToRef_bool get put) (val_string v) m r))) = v"
    by (simp add: AssignResultToRef_bool_def assms sem_constant_def to_constant_expr_bool_def isBool_def
        set_value_bool_def leading_one_def digit_def)
qed (simp_all add: AssignResultToRef_bool_def to_constant_expr_bool_def const_sort_def term_sort_def isBool_def)

text \<open>A memory of 32-bit integers by name.\<close>

interpretation named_int: assign_result
  "AssignResultToRef None True (\<lambda>m :: string \<Rightarrow> 32 word. m x) (\<lambda>v m. m(x := v))" "SBits 32"
  using AssignResultToRef_contract [of "\<lambda>m :: string \<Rightarrow> 32 word. m x" "\<lambda>v m. m(x := v)" True None]
  by (simp add: term_sort_def isBool_def)

section \<open>Equations between variables and constants\<close>

definition solver_sort :: "smt_sort \<Rightarrow> bool" where
  "solver_sort t \<longleftrightarrow> (case t of SBool \<Rightarrow> True | SBits n \<Rightarrow> 0 < n \<and> n < 2 ^ 32)"

definition equal_const :: "node \<Rightarrow> const_t \<Rightarrow> node" where
  "equal_const var c = BinaryOperator EqualOpr var (ConstantExpr c)"

lemma sort_sem_constant: "sort_of_val (sem_constant c) = const_sort c"
  by (simp add: sem_constant_def const_sort_def term_sort_def)

lemma equal_const_sorted:
  assumes "d i = term_sort b sg" and "const_sort c = d i" and "solver_sort (d i)"
  shows "constraint_sorted d (equal_const (VariableExpr i b sg) c)"
proof -
  have t: "term_sort (cbitsize c) (csign c) = term_sort b sg" "solver_sort (term_sort b sg)"
    using assms by (simp_all add: const_sort_def)
  show ?thesis
    using t(2) assms(1) by (cases "term_sort b sg") (simp_all add: equal_const_def constraint_sorted_def t(1) solver_sort_def)
qed

lemma equal_const_holds:
  assumes "sort_of_val (\<rho> i) = const_sort c"
  shows "holds (equal_const (VariableExpr i b sg) c) \<rho> \<longleftrightarrow> \<rho> i = sem_constant c"
proof -
  have "sort_of_val (sem_constant c) = sort_of_val (\<rho> i)" using assms by (simp add: sort_sem_constant)
  then show ?thesis
    by (cases "\<rho> i"; cases "sem_constant c") (auto simp: equal_const_def holds_def sem_bits_def Let_def)
qed

end
