(* ===== verification/Constraints.thy ===== *)
theory Constraints
  imports Support
begin

text \<open>
  User constraints and their manager (\<open>UserConstraintType\<close>, \<open>UserVectorConstraint\<close>,
  \<open>ConstraintManager\<close>). A constraint is shared between the manager's list and its map from names: the
  list is the store, and the map gives positions in it (the list only grows, so a position is as good as
  the \<open>shared_ptr\<close>). The subclass \<open>UserVectorConstraint\<close> is the field \<open>con_vector\<close>, \<open>Some unique\<close> for its
  objects. Log output is left out.
\<close>

section \<open>Constraints\<close>

record constraint =
  con_id :: nat
  con_expr :: node
  con_name :: string
  con_support :: "nat set"
  con_soft :: bool
  con_cover :: bool
  con_enabled :: bool
  con_complexity :: u32
  con_vector :: "bool option"

definition UserConstraint :: "nat \<Rightarrow> node \<Rightarrow> string \<Rightarrow> nat set \<Rightarrow> bool \<Rightarrow> bool \<Rightarrow> bool \<Rightarrow> constraint" where
  "UserConstraint i e name vars soft cover enabled =
     \<lparr>con_id = i, con_expr = e, con_name = name, con_support = vars, con_soft = soft, con_cover = cover,
      con_enabled = enabled, con_complexity = 0, con_vector = None\<rparr>"

definition UserVectorConstraint ::
    "nat \<Rightarrow> node \<Rightarrow> string \<Rightarrow> nat set \<Rightarrow> bool \<Rightarrow> bool \<Rightarrow> bool \<Rightarrow> bool \<Rightarrow> constraint" where
  "UserVectorConstraint i e name vars unique soft cover enabled =
     (UserConstraint i e name vars soft cover enabled)\<lparr>con_vector := Some unique\<rparr>"

definition isVectorConstraint :: "constraint \<Rightarrow> bool" where
  "isVectorConstraint c \<longleftrightarrow> con_vector c \<noteq> None"

text \<open>\<open>enable\<close> and \<open>disable\<close>.\<close>

definition set_enabled :: "bool \<Rightarrow> constraint \<Rightarrow> constraint" where
  "set_enabled b c = c\<lparr>con_enabled := b\<rparr>"

text \<open>\<open>*support_vars_.begin()\<close>: the least element, undefined for the empty set.\<close>

definition getVectorId :: "constraint \<Rightarrow> nat result" where
  "getVectorId c = (if con_support c = {} then Inl UndefinedBehaviour else Inr (Min (con_support c)))"

section \<open>The manager\<close>

record manager =
  mng_id :: nat
  constr_map :: "string \<rightharpoonup> nat"
  mng_constraints :: "constraint list"
  changed :: bool

definition new_manager :: "nat \<Rightarrow> manager" where
  "new_manager i = \<lparr>mng_id = i, constr_map = Map.empty, mng_constraints = [], changed = False\<rparr>"

definition enableConstraint :: "string \<Rightarrow> manager \<Rightarrow> bool \<times> manager" where
  "enableConstraint key m =
     (case constr_map m key of
        Some p \<Rightarrow>
          (True,
           if \<not> con_enabled (mng_constraints m ! p)
           then m\<lparr>mng_constraints := (mng_constraints m)[p := set_enabled True (mng_constraints m ! p)], changed := True\<rparr>
           else m)
      | None \<Rightarrow> (False, m))"

definition disableConstraint :: "string \<Rightarrow> manager \<Rightarrow> bool \<times> manager" where
  "disableConstraint key m =
     (case constr_map m key of
        Some p \<Rightarrow>
          (True,
           if con_enabled (mng_constraints m ! p)
           then m\<lparr>mng_constraints := (mng_constraints m)[p := set_enabled False (mng_constraints m ! p)], changed := True\<rparr>
           else m)
      | None \<Rightarrow> (False, m))"

definition isConstraintEnabled :: "string \<Rightarrow> manager \<Rightarrow> bool" where
  "isConstraintEnabled key m =
     (case constr_map m key of Some p \<Rightarrow> con_enabled (mng_constraints m ! p) | None \<Rightarrow> False)"

definition resetChanged :: "manager \<Rightarrow> manager" where
  "resetChanged m = m\<lparr>changed := False\<rparr>"

text \<open>The kind of constraint is decided by the root of the expression.\<close>

definition new_constraint :: "string \<Rightarrow> nat \<Rightarrow> node \<Rightarrow> bool \<Rightarrow> bool \<Rightarrow> constraint" where
  "new_constraint name i n soft cover =
     (case n of
        BinaryOperator f l r \<Rightarrow>
          if f = ForEach then UserVectorConstraint i n name (getSupportVars n) False soft cover True
          else UserConstraint i n name (getSupportVars n) soft cover True
      | UnaryOperator u a \<Rightarrow>
          if u = Unique then UserVectorConstraint i n name (getSupportVars n) True soft cover True
          else UserConstraint i n name (getSupportVars n) soft cover True
      | _ \<Rightarrow> UserConstraint i n name (getSupportVars n) soft cover True)"

definition makeConstraint ::
    "string \<Rightarrow> nat \<Rightarrow> node \<Rightarrow> bool \<Rightarrow> bool \<Rightarrow> manager \<Rightarrow> (constraint \<times> manager) result" where
  "makeConstraint name i n soft cover m =
     (if constr_map m name \<noteq> None then Inl (RuntimeError (name @ ''Constraint already exists.''))
      else let c = new_constraint name i n soft cover in
        if con_soft c \<and> con_cover c then Inl AssertionFailure
        else if isVectorConstraint c \<and> con_cover c then Inl AssertionFailure
        else rbind (if isVectorConstraint c then Inr 0 else getComplexityEstimation n) (\<lambda>k.
          let c = c\<lparr>con_complexity := k\<rparr> in
          Inr (c, m\<lparr>changed := True, mng_constraints := mng_constraints m @ [c],
                    constr_map := (constr_map m)(name \<mapsto> length (mng_constraints m))\<rparr>)))"

text \<open>\<open>makeConstraint\<close> of an expression as written: the width pass first.\<close>

definition makeConstraint_expr ::
    "string \<Rightarrow> nat \<Rightarrow> node \<Rightarrow> bool \<Rightarrow> bool \<Rightarrow> manager \<Rightarrow> (constraint \<times> manager) result" where
  "makeConstraint_expr name i e soft cover m =
     rbind (fixWidth e) (\<lambda>n. makeConstraint name i n soft cover m)"

section \<open>Well-formedness\<close>

text \<open>
  Names and positions correspond one to one, each constraint knows its support and its kind, and only
  hard constraints of scalars are cover constraints.
\<close>

definition constraint_ok :: "constraint \<Rightarrow> bool" where
  "constraint_ok c \<longleftrightarrow> con_support c = node_vars (con_expr c) \<and> \<not> (con_soft c \<and> con_cover c) \<and>
     (isVectorConstraint c \<longrightarrow> \<not> con_cover c)"

definition manager_ok :: "manager \<Rightarrow> bool" where
  "manager_ok m \<longleftrightarrow>
     (\<forall>k p. constr_map m k = Some p \<longleftrightarrow> p < length (mng_constraints m) \<and> con_name (mng_constraints m ! p) = k) \<and>
     (\<forall>c\<in>set (mng_constraints m). constraint_ok c)"

lemma new_manager_ok: "manager_ok (new_manager i)"
  by (simp add: manager_ok_def new_manager_def)

lemma set_enabled_simps [simp]:
  "con_name (set_enabled b c) = con_name c" "con_enabled (set_enabled b c) = b"
  "constraint_ok (set_enabled b c) = constraint_ok c"
  by (simp_all add: set_enabled_def constraint_ok_def isVectorConstraint_def)

lemma new_constraint_fields:
  "con_name (new_constraint name i n soft cover) = name" "con_id (new_constraint name i n soft cover) = i"
  "con_expr (new_constraint name i n soft cover) = n"
  "con_support (new_constraint name i n soft cover) = node_vars n"
  "con_soft (new_constraint name i n soft cover) = soft" "con_cover (new_constraint name i n soft cover) = cover"
  "con_enabled (new_constraint name i n soft cover)"
  by (simp_all add: new_constraint_def UserConstraint_def UserVectorConstraint_def split: node.splits)

lemma update_enabled_ok:
  assumes "manager_ok m" and "p < length (mng_constraints m)"
  shows "manager_ok (m\<lparr>mng_constraints := (mng_constraints m)[p := set_enabled b (mng_constraints m ! p)], changed := True\<rparr>)"
proof -
  have "constraint_ok c" if "c \<in> set ((mng_constraints m)[p := set_enabled b (mng_constraints m ! p)])" for c
  proof -
    have "c = set_enabled b (mng_constraints m ! p) \<or> c \<in> set (mng_constraints m)"
      using that set_update_subset_insert by fast
    then show ?thesis using assms by (auto simp: manager_ok_def)
  qed
  then show ?thesis using assms by (auto simp: manager_ok_def nth_list_update)
qed

lemma enable_ok:
  assumes "manager_ok m"
  shows "manager_ok (snd (enableConstraint key m))" and "manager_ok (snd (disableConstraint key m))"
proof -
  have "p < length (mng_constraints m)" if "constr_map m key = Some p" for p
    using assms that by (simp add: manager_ok_def)
  then show "manager_ok (snd (enableConstraint key m))" "manager_ok (snd (disableConstraint key m))"
    using assms update_enabled_ok [OF assms]
    by (auto simp: enableConstraint_def disableConstraint_def split: option.splits)
qed

lemma makeConstraint_InrD:
  assumes "makeConstraint name i n soft cover m = Inr (c, m')"
  shows "constr_map m name = None \<and> \<not> (soft \<and> cover) \<and> (isVectorConstraint c \<longrightarrow> \<not> cover) \<and>
    (\<exists>k. c = (new_constraint name i n soft cover)\<lparr>con_complexity := k\<rparr>) \<and>
    m' = m\<lparr>changed := True, mng_constraints := mng_constraints m @ [c],
           constr_map := (constr_map m)(name \<mapsto> length (mng_constraints m))\<rparr>"
  using assms
  by (auto simp: makeConstraint_def Let_def new_constraint_fields rbind_eq_Inr isVectorConstraint_def split: if_splits)

lemma makeConstraint_ok:
  assumes ok: "manager_ok m" and mk: "makeConstraint name i n soft cover m = Inr (c, m')"
  shows "manager_ok m'"
proof -
  note d = makeConstraint_InrD [OF mk]
  then have c: "con_name c = name" "constraint_ok c"
    by (auto simp: new_constraint_fields constraint_ok_def isVectorConstraint_def)
  have fresh: "con_name (mng_constraints m ! p) \<noteq> name" if "p < length (mng_constraints m)" for p
  proof -
    have "constr_map m (con_name (mng_constraints m ! p)) = Some p" using ok that by (simp add: manager_ok_def)
    then show ?thesis using d by auto
  qed
  show ?thesis
    unfolding manager_ok_def
  proof (intro conjI allI)
    fix k p
    show "constr_map m' k = Some p \<longleftrightarrow> p < length (mng_constraints m') \<and> con_name (mng_constraints m' ! p) = k"
    proof (cases "p < length (mng_constraints m)")
      case True
      then show ?thesis using d ok fresh [OF True] by (auto simp: manager_ok_def nth_append)
    next
      case False
      then show ?thesis using d ok c by (auto simp: manager_ok_def nth_append less_Suc_eq)
    qed
  next
    show "\<forall>c\<in>set (mng_constraints m'). constraint_ok c" using d ok c by (auto simp: manager_ok_def)
  qed
qed

text \<open>The operations of a manager, as the library's user calls them.\<close>

datatype manager_op =
    Make string nat node bool bool
  | Enable string
  | Disable string
  | Reset

fun run_op :: "manager \<Rightarrow> manager_op \<Rightarrow> manager" where
  "run_op m (Make name i n soft cover) =
     (case makeConstraint_expr name i n soft cover m of Inr (c, m') \<Rightarrow> m' | Inl e \<Rightarrow> m)"
| "run_op m (Enable k) = snd (enableConstraint k m)"
| "run_op m (Disable k) = snd (disableConstraint k m)"
| "run_op m Reset = resetChanged m"

lemma run_op_ok: "manager_ok m \<Longrightarrow> manager_ok (run_op m q)"
proof (cases q)
  case (Make name i n soft cover)
  assume "manager_ok m"
  then show ?thesis
    using Make makeConstraint_ok [of m name i _ soft cover]
    by (auto simp: makeConstraint_expr_def fixWidth_fixed split: sum.splits prod.splits)
next
  case Reset
  assume "manager_ok m"
  then show ?thesis using Reset by (simp add: resetChanged_def manager_ok_def)
qed (use enable_ok in auto)

lemma run_ops_ok: "manager_ok (foldl run_op (new_manager i) qs)"
  by (induction qs rule: rev_induct) (simp_all add: new_manager_ok run_op_ok)

text \<open>C32: whatever sequence of creations, enablings and disablings a manager has seen, its names and
  constraints are in one-to-one correspondence, each constraint's support is the set of variables of its
  expression, and no soft or vector constraint is a cover constraint.\<close>

theorem manager_invariant: "manager_ok (foldl run_op (new_manager i) qs)"
  by (rule run_ops_ok)

text \<open>C33: enabling and disabling by name: the call reports whether the name is known; when it is, that
  constraint and no other gets the new status, and the manager is marked as changed exactly when the status
  differs from the old one.\<close>

theorem enable_disable_effect:
  assumes ok: "manager_ok m"
    and m': "m' = snd (if b then enableConstraint key m else disableConstraint key m)"
  shows "fst (if b then enableConstraint key m else disableConstraint key m) = (constr_map m key \<noteq> None) \<and>
    isConstraintEnabled k m' = (if k = key then b \<and> constr_map m key \<noteq> None else isConstraintEnabled k m) \<and>
    (changed m' \<longleftrightarrow> changed m \<or> (constr_map m key \<noteq> None \<and> isConstraintEnabled key m \<noteq> b))"
proof (cases "constr_map m key")
  case None
  then have "enableConstraint key m = (False, m)" "disableConstraint key m = (False, m)"
    by (simp_all add: enableConstraint_def disableConstraint_def)
  then have "(if b then enableConstraint key m else disableConstraint key m) = (False, m)" by simp
  then show ?thesis unfolding m' using None by (simp add: isConstraintEnabled_def)
next
  case (Some p)
  then have p: "p < length (mng_constraints m)" using ok by (simp add: manager_ok_def)
  have other: "q \<noteq> p" if "constr_map m k = Some q" "k \<noteq> key" for q
    using ok that Some by (auto simp: manager_ok_def)
  define m1 where "m1 = m\<lparr>mng_constraints := (mng_constraints m)[p := set_enabled b (mng_constraints m ! p)], changed := True\<rparr>"
  have run: "(if b then enableConstraint key m else disableConstraint key m) =
      (True, if con_enabled (mng_constraints m ! p) \<noteq> b then m1 else m)"
    using Some by (simp add: enableConstraint_def disableConstraint_def m1_def)
  have old: "isConstraintEnabled key m = con_enabled (mng_constraints m ! p)"
    using Some by (simp add: isConstraintEnabled_def)
  have "isConstraintEnabled k m1 = (if k = key then b else isConstraintEnabled k m)"
    using Some p other by (auto simp: m1_def isConstraintEnabled_def split: option.splits)
  moreover have "changed m1" by (simp add: m1_def)
  ultimately show ?thesis unfolding m' run fst_conv snd_conv using Some old by auto
qed

definition demo_manager :: manager where
  "demo_manager = foldl run_op (new_manager 1)
     [Make ''a'' 1 demo_narrow False False, Make ''b'' 2 (VariableExpr 3 1 True) True False]"

theorem enable_disable_effect_witness:
  "isConstraintEnabled ''b'' (snd (disableConstraint ''b'' demo_manager)) = False \<and>
   isConstraintEnabled ''a'' (snd (disableConstraint ''b'' demo_manager)) = isConstraintEnabled ''a'' demo_manager"
proof -
  have "manager_ok demo_manager" unfolding demo_manager_def by (rule run_ops_ok)
  note effect = enable_disable_effect [OF this refl, of False "''b''"]
  from effect [of "''b''"] effect [of "''a''"] show ?thesis by auto
qed

end
