(* ===== verification/Partition.thy ===== *)
theory Partition
  imports Constraints "HOL-Library.Multiset"
begin

text \<open>
  Constraint partitions (\<open>ConstraintPartition\<close>) and the partitioner (\<open>ConstraintPartitioner\<close>): enabled
  scalar constraints are split into groups that share no variable, each of which gets a solver of its own.
\<close>

section \<open>Partitions\<close>

record partition =
  cp_constraints :: "constraint list"
  cp_support :: "nat set"
  cp_single :: "nat \<rightharpoonup> constraint list"

definition new_partition :: partition where
  "new_partition = \<lparr>cp_constraints = [], cp_support = {}, cp_single = Map.empty\<rparr>"

text \<open>The list is kept in descending order of the identifiers: the newest constraint comes first.\<close>

fun insert_by_id :: "constraint \<Rightarrow> constraint list \<Rightarrow> constraint list" where
  "insert_by_id c [] = [c]"
| "insert_by_id c (d # ds) = (if con_id d > con_id c then d # insert_by_id c ds else c # d # ds)"

definition single_var :: "constraint \<Rightarrow> nat option" where
  "single_var c = (if \<not> con_soft c \<and> \<not> con_cover c \<and> card (con_support c) = 1 then Some (Min (con_support c)) else None)"

definition cp_add :: "constraint \<Rightarrow> partition \<Rightarrow> partition" where
  "cp_add c cp =
     (let cp = cp\<lparr>cp_constraints := insert_by_id c (cp_constraints cp)\<rparr> in
      case single_var c of
        Some v \<Rightarrow> cp\<lparr>cp_single := (cp_single cp)(v \<mapsto>
                      (case cp_single cp v of Some cs \<Rightarrow> cs | None \<Rightarrow> []) @ [c])\<rparr>
      | None \<Rightarrow> cp)"

definition containsVar :: "nat \<Rightarrow> partition \<Rightarrow> bool" where
  "containsVar i cp \<longleftrightarrow> i \<in> cp_support cp"

section \<open>The partitioner\<close>

record partitioner =
  constr_mngs :: "nat set"
  pt_constraints :: "constraint list"
  partitions :: "partition list"
  vec_constraints :: "constraint list"

definition new_partitioner :: partitioner where
  "new_partitioner = \<lparr>constr_mngs = {}, pt_constraints = [], partitions = [], vec_constraints = []\<rparr>"

definition pt_reset :: "partitioner \<Rightarrow> partitioner" where
  "pt_reset p = p\<lparr>constr_mngs := {}, pt_constraints := [], partitions := [], vec_constraints := []\<rparr>"

definition mergeConstraints :: "manager \<Rightarrow> partitioner \<Rightarrow> partitioner" where
  "mergeConstraints mng p =
     foldl (\<lambda>p c. if con_enabled c
                  then if isVectorConstraint c then p\<lparr>vec_constraints := vec_constraints p @ [c]\<rparr>
                       else p\<lparr>pt_constraints := pt_constraints p @ [c]\<rparr>
                  else p)
       (p\<lparr>constr_mngs := insert (mng_id mng) (constr_mngs p)\<rparr>) (mng_constraints mng)"

text \<open>One pass of the inner loop of \<open>maximizePartition\<close>: the partition, what is left, \<open>changed\<close>.\<close>

definition absorb :: "constraint \<Rightarrow> partition \<Rightarrow> partition" where
  "absorb c cp = (cp_add c cp)\<lparr>cp_support := cp_support cp \<union> con_support c\<rparr>"

fun sweep :: "partition \<Rightarrow> constraint list \<Rightarrow> partition \<times> constraint list \<times> bool" where
  "sweep cp [] = (cp, [], False)"
| "sweep cp (c # cs) =
     (if cp_support cp \<inter> con_support c \<noteq> {}
      then let (cp, lc, ch) = sweep (absorb c cp) cs in (cp, lc, True)
      else let (cp, lc, ch) = sweep cp cs in (cp, c # lc, ch))"

lemma sweep_length: "sweep cp lc = (cp', lc', ch) \<Longrightarrow> length lc' \<le> length lc \<and> (ch \<longrightarrow> length lc' < length lc)"
  by (induction cp lc arbitrary: cp' lc' ch rule: sweep.induct)
    (fastforce split: if_splits prod.splits)+

function saturate :: "partition \<Rightarrow> constraint list \<Rightarrow> partition \<times> constraint list" where
  "saturate cp lc = (let (cp', lc', ch) = sweep cp lc in if ch then saturate cp' lc' else (cp', lc'))"
  by auto
termination
  by (relation "measure (\<lambda>(cp, lc). length lc)") (auto dest: sweep_length [OF sym])

declare saturate.simps [simp del]

definition maximizePartition :: "constraint \<Rightarrow> constraint list \<Rightarrow> partition \<times> constraint list" where
  "maximizePartition c lc = saturate (cp_add c (new_partition\<lparr>cp_support := con_support c\<rparr>)) lc"

lemma saturate_length: "saturate cp lc = (cp', lc') \<Longrightarrow> length lc' \<le> length lc"
proof (induction cp lc arbitrary: cp' lc' rule: saturate.induct)
  case (1 cp lc)
  obtain cp1 lc1 ch where sw: "sweep cp lc = (cp1, lc1, ch)" by (cases "sweep cp lc")
  then show ?case
    using 1 sweep_length [OF sw] by (force simp: saturate.simps [of cp lc] split: if_splits)
qed

function partition_loop :: "constraint list \<Rightarrow> partition list \<Rightarrow> partition list" where
  "partition_loop [] ps = ps"
| "partition_loop (c # cs) ps = (let (cp, lc) = maximizePartition c cs in partition_loop lc (ps @ [cp]))"
  by pat_completeness auto
termination
  by (relation "measure (\<lambda>(lc, ps). length lc)") (auto simp: maximizePartition_def less_Suc_eq_le dest: saturate_length [OF sym])

definition pt_partition :: "partitioner \<Rightarrow> partitioner" where
  "pt_partition p = p\<lparr>partitions := partition_loop (pt_constraints p) (partitions p), pt_constraints := []\<rparr>"

section \<open>Order and contents\<close>

lemma insert_by_id_mset [simp]: "mset (insert_by_id c cs) = add_mset c (mset cs)"
  by (induction cs) auto

lemma insert_by_id_set [simp]: "set (insert_by_id c cs) = insert c (set cs)"
  by (metis insert_by_id_mset set_mset_add_mset_insert set_mset_mset)

lemma insert_by_id_nonempty [simp]: "insert_by_id c cs \<noteq> []"
  by (cases cs) simp_all

definition descending :: "constraint list \<Rightarrow> bool" where
  "descending cs \<longleftrightarrow> sorted_wrt (\<lambda>c d. con_id c \<ge> con_id d) cs"

lemma insert_by_id_descending: "descending cs \<Longrightarrow> descending (insert_by_id c cs)"
  by (induction cs) (auto simp: descending_def)

text \<open>\<open>singles v cs\<close>: what \<open>singleVariableConstraintMap\<close> holds under \<open>v\<close>, as a multiset.\<close>

definition singles :: "nat \<Rightarrow> constraint multiset \<Rightarrow> constraint multiset" where
  "singles v M = filter_mset (\<lambda>c. single_var c = Some v) M"

text \<open>
  The invariant of a partition under construction; \<open>linked\<close> says that its constraints hang together:
  each can be reached from any other over constraints of the partition that share a variable.
\<close>

definition shares :: "constraint \<Rightarrow> constraint \<Rightarrow> bool" where
  "shares c d \<longleftrightarrow> con_support c \<inter> con_support d \<noteq> {}"

definition linked :: "constraint set \<Rightarrow> bool" where
  "linked C \<longleftrightarrow> (\<forall>c\<in>C. \<forall>d\<in>C. (c, d) \<in> {(x, y). x \<in> C \<and> y \<in> C \<and> shares x y}\<^sup>*)"

definition partition_ok :: "partition \<Rightarrow> bool" where
  "partition_ok cp \<longleftrightarrow> cp_constraints cp \<noteq> [] \<and> descending (cp_constraints cp) \<and>
     cp_support cp = (\<Union>c\<in>set (cp_constraints cp). con_support c) \<and> linked (set (cp_constraints cp)) \<and>
     (\<forall>v. (case cp_single cp v of Some cs \<Rightarrow> mset cs | None \<Rightarrow> {#}) = singles v (mset (cp_constraints cp)))"

lemma linked_insert:
  assumes "linked C" and "d \<in> C" and "shares d c"
  shows "linked (insert c C)"
proof -
  let ?R = "\<lambda>D. {(x, y). x \<in> D \<and> y \<in> D \<and> shares x y}"
  have mono: "(?R C)\<^sup>* \<subseteq> (?R (insert c C))\<^sup>*" by (rule rtrancl_mono) auto
  have "shares c d" using assms(3) by (auto simp: shares_def)
  then have step: "(c, d) \<in> ?R (insert c C)" "(d, c) \<in> ?R (insert c C)" using assms(2,3) by auto
  have "(x, y) \<in> (?R (insert c C))\<^sup>*" if "x \<in> insert c C" "y \<in> insert c C" for x y
  proof -
    have "(x, d) \<in> (?R (insert c C))\<^sup>*"
      using that(1) assms(1,2) mono step by (auto simp: linked_def)
    moreover have "(d, y) \<in> (?R (insert c C))\<^sup>*"
      using that(2) assms(1,2) mono step by (auto simp: linked_def)
    ultimately show ?thesis by (rule rtrancl_trans)
  qed
  then show ?thesis by (simp add: linked_def)
qed

lemma cp_add_fields [simp]:
  "cp_constraints (cp_add c cp) = insert_by_id c (cp_constraints cp)"
  "cp_support (cp_add c cp) = cp_support cp"
  by (simp_all add: cp_add_def Let_def split: option.splits)

lemma cp_add_single:
  assumes "(case cp_single cp v of Some cs \<Rightarrow> mset cs | None \<Rightarrow> {#}) = singles v M"
  shows "(case cp_single (cp_add c cp) v of Some cs \<Rightarrow> mset cs | None \<Rightarrow> {#}) = singles v (add_mset c M)"
  using assms by (auto simp: cp_add_def singles_def Let_def split: option.splits)

lemma absorb_ok:
  assumes ok: "partition_ok cp" and meet: "cp_support cp \<inter> con_support c \<noteq> {}"
  shows "partition_ok (absorb c cp)"
proof -
  obtain d where "d \<in> set (cp_constraints cp)" "shares d c"
    using ok meet by (auto simp: partition_ok_def shares_def)
  then have "linked (insert c (set (cp_constraints cp)))"
    using ok linked_insert by (auto simp: partition_ok_def)
  moreover have "(case cp_single (absorb c cp) v of Some cs \<Rightarrow> mset cs | None \<Rightarrow> {#}) =
      singles v (mset (insert_by_id c (cp_constraints cp)))" for v
    using ok cp_add_single [of cp v "mset (cp_constraints cp)" c] by (simp add: partition_ok_def absorb_def)
  ultimately show ?thesis
    using ok insert_by_id_descending by (auto simp: partition_ok_def absorb_def)
qed

lemma start_ok: "partition_ok (cp_add c (new_partition\<lparr>cp_support := con_support c\<rparr>))"
  by (auto simp: partition_ok_def new_partition_def descending_def linked_def cp_add_def single_var_def singles_def
      Let_def)

lemma sweep_spec:
  assumes "sweep cp lc = (cp', lc', ch)" and "partition_ok cp"
  shows "partition_ok cp' \<and> mset (cp_constraints cp') + mset lc' = mset (cp_constraints cp) + mset lc \<and>
    cp_support cp \<subseteq> cp_support cp' \<and>
    (\<not> ch \<longrightarrow> cp' = cp \<and> lc' = lc \<and> (\<forall>c\<in>set lc. cp_support cp \<inter> con_support c = {}))"
  using assms
proof (induction cp lc arbitrary: cp' lc' ch rule: sweep.induct)
  case (2 cp c cs)
  show ?case
  proof (cases "cp_support cp \<inter> con_support c = {}")
    case True
    obtain cp1 lc1 ch1 where sw: "sweep cp cs = (cp1, lc1, ch1)" by (cases "sweep cp cs")
    with True 2(3) have "cp' = cp1" "lc' = c # lc1" "ch = ch1" by simp_all
    then show ?thesis using 2(2) [OF _ sw 2(4)] True by auto
  next
    case False
    obtain cp1 lc1 ch1 where sw: "sweep (absorb c cp) cs = (cp1, lc1, ch1)" by (cases "sweep (absorb c cp) cs")
    with False 2(3) have eq: "cp' = cp1" "lc' = lc1" "ch" by simp_all
    have "mset (cp_constraints (absorb c cp)) = add_mset c (mset (cp_constraints cp))"
      and "cp_support cp \<subseteq> cp_support (absorb c cp)" by (auto simp: absorb_def)
    then show ?thesis using 2(1) [OF _ sw absorb_ok [OF 2(4)]] False eq by auto
  qed
qed auto

lemma saturate_spec:
  assumes "saturate cp lc = (cp', lc')" and "partition_ok cp"
  shows "partition_ok cp' \<and> mset (cp_constraints cp') + mset lc' = mset (cp_constraints cp) + mset lc \<and>
    (\<forall>c\<in>set lc'. cp_support cp' \<inter> con_support c = {})"
  using assms
proof (induction cp lc arbitrary: cp' lc' rule: saturate.induct)
  case (1 cp lc)
  obtain cp1 lc1 ch where sw: "sweep cp lc = (cp1, lc1, ch)" by (cases "sweep cp lc")
  note spec = sweep_spec [OF sw 1(3)]
  show ?case
  proof (cases ch)
    case True
    then have "saturate cp1 lc1 = (cp', lc')" using 1(2) sw by (simp add: saturate.simps [of cp lc])
    from 1(1) [OF sw [symmetric] refl refl True this conjunct1 [OF spec]] spec show ?thesis by auto
  next
    case False
    then have "cp' = cp1" "lc' = lc1" using 1(2) sw by (simp_all add: saturate.simps [of cp lc])
    then show ?thesis using spec False 1(3) by auto
  qed
qed

definition pairwise_disjoint :: "partition list \<Rightarrow> bool" where
  "pairwise_disjoint ps \<longleftrightarrow> sorted_wrt (\<lambda>p q. cp_support p \<inter> cp_support q = {}) ps"

lemma partition_loop_spec:
  assumes "\<forall>p\<in>set ps. partition_ok p" and "pairwise_disjoint ps"
    and "\<forall>p\<in>set ps. \<forall>c\<in>set lc. cp_support p \<inter> con_support c = {}"
  shows "(\<forall>p\<in>set (partition_loop lc ps). partition_ok p) \<and> pairwise_disjoint (partition_loop lc ps) \<and>
    mset (concat (map cp_constraints (partition_loop lc ps))) = mset (concat (map cp_constraints ps)) + mset lc"
  using assms
proof (induction lc ps rule: partition_loop.induct)
  case (2 c cs ps)
  obtain cp lc where mp: "maximizePartition c cs = (cp, lc)" by (cases "maximizePartition c cs")
  from saturate_spec [OF mp [unfolded maximizePartition_def] start_ok]
  have cp: "partition_ok cp" "mset (cp_constraints cp) + mset lc = add_mset c (mset cs)"
    "\<forall>d\<in>set lc. cp_support cp \<inter> con_support d = {}"
    by (auto simp: new_partition_def)
  then have sub: "set (cp_constraints cp) \<union> set lc = insert c (set cs)"
    by (metis set_mset_add_mset_insert set_mset_mset set_mset_union)
  have "cp_support p \<inter> cp_support cp = {}" if "p \<in> set ps" for p
    using 2(4) that sub cp(1) by (fastforce simp: partition_ok_def)
  then have "pairwise_disjoint (ps @ [cp])" using 2(3) by (auto simp: pairwise_disjoint_def sorted_wrt_append)
  moreover have "\<forall>p\<in>set (ps @ [cp]). \<forall>d\<in>set lc. cp_support p \<inter> con_support d = {}"
  proof (intro ballI)
    fix p d assume "p \<in> set (ps @ [cp])" and d: "d \<in> set lc"
    have "d \<in> set (c # cs)" using sub d by auto
    then show "cp_support p \<inter> con_support d = {}"
      using 2(4) cp(3) d \<open>p \<in> set (ps @ [cp])\<close> by (cases "p = cp") (simp, metis UnE empty_iff empty_set insert_iff list.simps(15) set_append)
  qed
  ultimately show ?case
    using 2(1) [OF mp [symmetric] refl] 2(2) cp mp by (auto simp: add.assoc)
qed simp


lemma pairwise_disjointD:
  assumes "pairwise_disjoint ps" and "p \<in> set ps" and "q \<in> set ps" and "x \<in> cp_support p" and "x \<in> cp_support q"
  shows "p = q"
  using assms by (induction ps) (auto simp: pairwise_disjoint_def)

section \<open>The result for a set of managers\<close>

text \<open>What \<open>Generator\<close> does before it builds a solver: reset, merge the managers, partition.\<close>

definition partition_managers :: "manager list \<Rightarrow> partitioner \<Rightarrow> partitioner" where
  "partition_managers ms p = pt_partition (foldl (\<lambda>p m. mergeConstraints m p) (pt_reset p) ms)"

definition scalars :: "manager list \<Rightarrow> constraint list" where
  "scalars ms = filter (\<lambda>c. con_enabled c \<and> \<not> isVectorConstraint c) (concat (map mng_constraints ms))"

definition vectors :: "manager list \<Rightarrow> constraint list" where
  "vectors ms = filter (\<lambda>c. con_enabled c \<and> isVectorConstraint c) (concat (map mng_constraints ms))"

lemma mergeConstraints_eq:
  "mergeConstraints m p = p\<lparr>constr_mngs := insert (mng_id m) (constr_mngs p),
     pt_constraints := pt_constraints p @ scalars [m], vec_constraints := vec_constraints p @ vectors [m]\<rparr>"
proof -
  have "foldl (\<lambda>p c. if con_enabled c
                  then if isVectorConstraint c then p\<lparr>vec_constraints := vec_constraints p @ [c]\<rparr>
                       else p\<lparr>pt_constraints := pt_constraints p @ [c]\<rparr>
                  else p) q cs =
     q\<lparr>pt_constraints := pt_constraints q @ filter (\<lambda>c. con_enabled c \<and> \<not> isVectorConstraint c) cs,
       vec_constraints := vec_constraints q @ filter (\<lambda>c. con_enabled c \<and> isVectorConstraint c) cs\<rparr>"
    for q :: partitioner and cs
    by (induction cs arbitrary: q) auto
  then show ?thesis by (simp add: mergeConstraints_def scalars_def vectors_def)
qed

lemma merge_all:
  "foldl (\<lambda>p m. mergeConstraints m p) q ms = q\<lparr>constr_mngs := mng_id ` set ms \<union> constr_mngs q,
     pt_constraints := pt_constraints q @ scalars ms, vec_constraints := vec_constraints q @ vectors ms\<rparr>"
  by (induction ms arbitrary: q) (auto simp: mergeConstraints_eq scalars_def vectors_def)

lemma partition_managers_fields:
  "partitions (partition_managers ms p) = partition_loop (scalars ms) []"
  "vec_constraints (partition_managers ms p) = vectors ms"
  by (simp_all add: partition_managers_def pt_partition_def merge_all pt_reset_def)

lemma partitions_spec:
  "list_all partition_ok (partitions (partition_managers ms p))"
  "pairwise_disjoint (partitions (partition_managers ms p))"
  "mset (concat (map cp_constraints (partitions (partition_managers ms p)))) = mset (scalars ms)"
  using partition_loop_spec [of "[]" "scalars ms"]
  by (simp_all add: partition_managers_fields list_all_iff pairwise_disjoint_def)

lemma partitions_members:
  "(\<Union>cp\<in>set (partitions (partition_managers ms p)). set (cp_constraints cp)) = set (scalars ms)"
  using arg_cong [OF partitions_spec(3) [of ms p], of set_mset] by simp

text \<open>C34: partitioning the managers loses and repeats no constraint: the enabled vector constraints come
  out in order, the partitions hold exactly the enabled scalar constraints, no two partitions have a
  variable in common, and each is kept in descending order of the identifiers with the support and the map
  of hard single-variable constraints of its members.\<close>

theorem partition_contents:
  "vec_constraints (partition_managers ms p) = vectors ms \<and>
   mset (concat (map cp_constraints (partitions (partition_managers ms p)))) = mset (scalars ms) \<and>
   pairwise_disjoint (partitions (partition_managers ms p)) \<and>
   list_all partition_ok (partitions (partition_managers ms p))"
  by (intro conjI partitions_spec partition_managers_fields)

lemma partition_of_shared:
  assumes "cp \<in> set (partitions (partition_managers ms p))" and "c \<in> set (cp_constraints cp)"
    and "d \<in> set (scalars ms)" and "shares c d"
  shows "d \<in> set (cp_constraints cp)"
proof -
  obtain cq where cq: "cq \<in> set (partitions (partition_managers ms p))" "d \<in> set (cp_constraints cq)"
    using assms(3) partitions_members by blast
  have ok: "partition_ok cp" "partition_ok cq"
    using partitions_spec(1) assms(1) cq(1) by (auto simp: list_all_iff)
  obtain x where "x \<in> con_support c" "x \<in> con_support d" using assms(4) by (auto simp: shares_def)
  then have "x \<in> cp_support cp" "x \<in> cp_support cq" using ok assms(2) cq(2) by (auto simp: partition_ok_def)
  then have "cp = cq" using pairwise_disjointD [OF partitions_spec(2) assms(1) cq(1)] by blast
  then show ?thesis using cq(2) by simp
qed

text \<open>C5: the partitions are the connected components: two enabled scalar constraints are in one partition
  exactly when a chain of such constraints, each sharing a variable with the next, leads from one to the
  other.\<close>

theorem partitions_are_components:
  assumes c: "c \<in> set (scalars ms)" and d: "d \<in> set (scalars ms)"
  shows "(\<exists>cp\<in>set (partitions (partition_managers ms p)). c \<in> set (cp_constraints cp) \<and> d \<in> set (cp_constraints cp)) \<longleftrightarrow>
    (c, d) \<in> {(x, y). x \<in> set (scalars ms) \<and> y \<in> set (scalars ms) \<and> shares x y}\<^sup>*"
    (is "?same \<longleftrightarrow> (c, d) \<in> ?R\<^sup>*")
proof
  assume ?same
  then obtain cp where cp: "cp \<in> set (partitions (partition_managers ms p))"
    "c \<in> set (cp_constraints cp)" "d \<in> set (cp_constraints cp)" by blast
  let ?C = "set (cp_constraints cp)"
  have "linked ?C" using partitions_spec(1) cp(1) by (auto simp: list_all_iff partition_ok_def)
  then have path: "(c, d) \<in> {(x, y). x \<in> ?C \<and> y \<in> ?C \<and> shares x y}\<^sup>*" using cp by (simp add: linked_def)
  have "?C \<subseteq> set (scalars ms)" using cp(1) partitions_members by blast
  then have "{(x, y). x \<in> ?C \<and> y \<in> ?C \<and> shares x y} \<subseteq> ?R" by auto
  then show "(c, d) \<in> ?R\<^sup>*" using path rtrancl_mono by blast
next
  obtain cp where cp: "cp \<in> set (partitions (partition_managers ms p))" "c \<in> set (cp_constraints cp)"
    using c partitions_members by blast
  assume "(c, d) \<in> ?R\<^sup>*"
  then have "d \<in> set (cp_constraints cp)"
    by (induction rule: rtrancl_induct) (auto simp: cp intro: partition_of_shared [OF cp(1)])
  then show ?same using cp by blast
qed

text \<open>An assignment put together from one assignment per partition: each variable is read from the first
  partition that contains it.\<close>

definition combine :: "partition list \<Rightarrow> (nat \<Rightarrow> const_t) list \<Rightarrow> (nat \<Rightarrow> const_t) \<Rightarrow> nat \<Rightarrow> const_t" where
  "combine ps as d i = (case find (\<lambda>(cp, a). containsVar i cp) (zip ps as) of Some (cp, a) \<Rightarrow> a i | None \<Rightarrow> d i)"

lemma combine_nth:
  assumes "pairwise_disjoint ps" and "k < length ps" and "length as = length ps" and "i \<in> cp_support (ps ! k)"
  shows "combine ps as d i = (as ! k) i"
  using assms
proof (induction ps arbitrary: as k)
  case (Cons p ps)
  then obtain a as' where as: "as = a # as'" by (cases as) auto
  show ?case
  proof (cases k)
    case 0
    then show ?thesis using Cons.prems as by (simp add: combine_def containsVar_def)
  next
    case (Suc j)
    then have j: "j < length ps" "i \<in> cp_support (ps ! j)" using Cons.prems by simp_all
    then have "ps ! j \<in> set ps" by simp
    then have "i \<notin> cp_support p" using Cons.prems(1) j by (auto simp: pairwise_disjoint_def)
    then have "combine (p # ps) as d i = combine ps as' d i"
      by (simp add: combine_def containsVar_def as)
    then show ?thesis using Cons.IH [of j as'] Cons.prems Suc j as by (simp add: pairwise_disjoint_def)
  qed
qed simp

lemma scalars_ok: "list_all manager_ok ms \<Longrightarrow> c \<in> set (scalars ms) \<Longrightarrow> con_support c = node_vars (con_expr c)"
  by (auto simp: scalars_def list_all_iff manager_ok_def constraint_ok_def)

text \<open>C35: the partitions can be solved on their own: under the assignment put together from one assignment
  per partition, every constraint has the value it has under the assignment of its own partition.\<close>

theorem partitions_combine:
  assumes ok: "list_all manager_ok ms"
    and ps: "ps = partitions (partition_managers ms p)" and len: "length as = length ps"
    and k: "k < length ps" and c: "c \<in> set (cp_constraints (ps ! k))"
  shows "den (combine ps as d) (con_expr c) = den (as ! k) (con_expr c)"
proof (rule den_cong)
  fix i assume i: "i \<in> node_vars (con_expr c)"
  have mem: "ps ! k \<in> set ps" using k by simp
  then have "c \<in> set (scalars ms)" using c partitions_members ps by blast
  then have "i \<in> con_support c" using i scalars_ok [OF ok] by simp
  moreover have "partition_ok (ps ! k)" using mem partitions_spec(1) ps by (auto simp: list_all_iff)
  ultimately have "i \<in> cp_support (ps ! k)" using c by (auto simp: partition_ok_def)
  then show "combine ps as d i = (as ! k) i"
    using combine_nth [OF _ k len] partitions_spec(2) ps by blast
qed

definition demo_pair :: manager where
  "demo_pair = foldl run_op (new_manager 1)
     [Make ''a'' 1 (VariableExpr 3 1 True) False False, Make ''b'' 2 (VariableExpr 4 1 True) False False,
      Make ''c'' 5 (BinaryOperator LogicalAndOpr (VariableExpr 4 1 True) (VariableExpr 5 1 True)) False False]"

definition demo_con :: "nat \<Rightarrow> node \<Rightarrow> constraint" where
  "demo_con i e = UserConstraint i e ''k'' (node_vars e) False False True"

definition demo_three :: manager where
  "demo_three = (new_manager 1)\<lparr>mng_constraints :=
     [demo_con 1 (VariableExpr 3 1 True), demo_con 2 (VariableExpr 4 1 True),
      demo_con 5 (BinaryOperator LogicalAndOpr (VariableExpr 4 1 True) (VariableExpr 5 1 True))]\<rparr>"

lemma demo_three_partitions:
  "map (\<lambda>cp. map con_id (cp_constraints cp)) (partitions (partition_managers [demo_three] p)) = [[1], [5, 2]]"
  by (simp add: partition_managers_fields scalars_def demo_three_def new_manager_def demo_con_def UserConstraint_def
      isVectorConstraint_def maximizePartition_def saturate.simps new_partition_def absorb_def cp_add_def
      single_var_def Let_def)

theorem partitions_are_components_witness:
  "\<exists>cp\<in>set (partitions (partition_managers [demo_three] new_partitioner)).
     demo_con 2 (VariableExpr 4 1 True) \<in> set (cp_constraints cp) \<and>
     demo_con 5 (BinaryOperator LogicalAndOpr (VariableExpr 4 1 True) (VariableExpr 5 1 True)) \<in> set (cp_constraints cp)"
proof (subst partitions_are_components)
  show c: "demo_con 2 (VariableExpr 4 1 True) \<in> set (scalars [demo_three])"
    and d: "demo_con 5 (BinaryOperator LogicalAndOpr (VariableExpr 4 1 True) (VariableExpr 5 1 True)) \<in> set (scalars [demo_three])"
    by (simp_all add: scalars_def demo_three_def demo_con_def UserConstraint_def isVectorConstraint_def)
  show "(demo_con 2 (VariableExpr 4 1 True),
      demo_con 5 (BinaryOperator LogicalAndOpr (VariableExpr 4 1 True) (VariableExpr 5 1 True)))
    \<in> {(x, y). x \<in> set (scalars [demo_three]) \<and> y \<in> set (scalars [demo_three]) \<and> shares x y}\<^sup>*"
    using c d by (auto simp: shares_def demo_con_def UserConstraint_def)
qed

theorem partitions_combine_witness:
  "\<exists>ps c. ps = partitions (partition_managers [demo_pair] new_partitioner) \<and> ps \<noteq> [] \<and> c \<in> set (cp_constraints (ps ! 0)) \<and>
     den (combine ps (replicate (length ps) (\<lambda>i. Constant_bool True)) (\<lambda>i. Constant_default)) (con_expr c) =
     den (\<lambda>i. Constant_bool True) (con_expr c)"
proof -
  let ?ps = "partitions (partition_managers [demo_pair] new_partitioner)"
  have ok: "list_all manager_ok [demo_pair]" unfolding demo_pair_def by (simp only: list.pred_inject run_ops_ok simp_thms)
  have "scalars [demo_pair] \<noteq> []"
    by (simp add: scalars_def demo_pair_def makeConstraint_expr_def fixWidth_fixed makeConstraint_def new_manager_def
        new_constraint_def UserConstraint_def isVectorConstraint_def getComplexityEstimation_def Let_def
        fix_binop_def fix_operands_def)
  then have "(\<Union>cp\<in>set ?ps. set (cp_constraints cp)) \<noteq> {}" using partitions_members by simp
  then have ne: "?ps \<noteq> []" by auto
  then have "?ps ! 0 \<in> set ?ps" by simp
  then have "cp_constraints (?ps ! 0) \<noteq> []" using partitions_spec(1) by (auto simp: list_all_iff partition_ok_def)
  then obtain c where c: "c \<in> set (cp_constraints (?ps ! 0))" by (cases "cp_constraints (?ps ! 0)") auto
  have "den (combine ?ps (replicate (length ?ps) (\<lambda>i. Constant_bool True)) (\<lambda>i. Constant_default)) (con_expr c) =
      den (replicate (length ?ps) (\<lambda>i. Constant_bool True) ! 0) (con_expr c)"
    by (rule partitions_combine [OF ok refl _ _ c]) (use ne in simp_all)
  then show ?thesis using c ne by (intro exI [of _ ?ps] exI [of _ c]) simp
qed

end
