(* ===== verification/VarSolver.thy ===== *)
theory VarSolver
  imports References Partition
begin

text \<open>
  The solvers of one partition: \<open>VariableSolver\<close>, \<open>VariableDefaultSolver\<close> and \<open>VariableCoverageSolver\<close>.
  Log output is left out, and a failed \<open>CHECK\<close> is a failed assertion.
\<close>

section \<open>The factory\<close>

text \<open>
  \<open>FactoryMetaSMT\<close> makes instances of the solver chosen by the settings; the BDD package is there only if
  \<open>FactorySolver<CUDD>::isDefined()\<close>. The other fields are the static variables of \<open>VariableDefaultSolver\<close>
  and the global functions \<open>crave::random_unsigned\<close> and \<open>crave::random_bit\<close>.
\<close>

record ('v, 'w, 'r) factory =
  fa_default :: "('v, 'r) visitor"
  fa_cudd :: "('w, 'r) visitor option"
  fa_random_unsigned :: "'r \<Rightarrow> nat \<Rightarrow> nat \<times> 'r"
  fa_random_bit :: "('r \<Rightarrow> bool \<times> 'r) option"
  bypass_constraint_analysis :: bool
  complexity_limit_for_bdd :: u32

section \<open>The base class\<close>

record ('v, 'm, 'r) var_solver =
  var_ctn :: "('m, 'r) container"
  constr_pttn :: partition
  solver :: 'v
  contradictions :: "string list list"
  inactive_softs :: "string list"

definition VariableSolver :: "('v, 'w, 'r) factory \<Rightarrow> ('m, 'r) container \<Rightarrow> partition \<Rightarrow> ('v, 'm, 'r) var_solver result" where
  "VariableSolver F vcon cp =
     (let reads = filter (\<lambda>(i, _). containsVar i cp) (read_references vcon);
          dists = filter (\<lambda>(i, _). containsVar i cp) (dist_references vcon);
          writes = filter (\<lambda>(i, _). containsVar i cp) (write_references vcon)
      in if \<not> fst ` set dists \<subseteq> dom (dist_ref_to_var_map vcon) then Inl AssertionFailure
         else if \<not> cp_support cp \<subseteq> dom (variables vcon) then Inl AssertionFailure
         else Inr \<lparr>var_ctn = \<lparr>variables = variables vcon |` cp_support cp, vector_variables = Map.empty,
                     read_references = reads, write_references = writes, dist_references = dists,
                     dist_ref_to_var_map = dist_ref_to_var_map vcon |` (fst ` set dists)\<rparr>,
                   constr_pttn = cp, solver = vi_new (fa_default F), contradictions = [], inactive_softs = []\<rparr>)"

text \<open>\<open>var_ctn_.variables[id]\<close> makes a null pointer of an identifier that is not there.\<close>

definition var_node :: "('m, 'r) container \<Rightarrow> nat \<Rightarrow> node result" where
  "var_node ctn i = (case variables ctn i of Some n \<Rightarrow> Inr n | None \<Rightarrow> Inl UndefinedBehaviour)"

text \<open>Values go back to the memory of the program; a variable the solver does not know stays as it is.\<close>

definition read_write_ref :: "('v, 'r) visitor \<Rightarrow> 'v \<Rightarrow> ('m, 'r) container \<Rightarrow> nat \<times> ('m, 'r) assign_result \<Rightarrow> 'm \<times> 'r \<Rightarrow> ('m \<times> 'r) result" where
  "read_write_ref V v ctn = (\<lambda>(i, ar) (m, r).
     rbind (var_node ctn i) (\<lambda>var.
       Inr (case vi_read V var v of None \<Rightarrow> (m, r) | Some str \<Rightarrow> ar_set_value ar str m r)))"

definition assume_read_ref :: "('v, 'r) visitor \<Rightarrow> 'm \<Rightarrow> nat \<times> ('m, 'r) reference_expression \<Rightarrow> 'v \<times> 'r \<Rightarrow> ('v \<times> 'r) result" where
  "assume_read_ref V m = (\<lambda>(i, expr) (v, r).
     rbind (expr m r) (\<lambda>(n, r). rbind (vi_makeAssumption V n v) (\<lambda>v. Inr (v, r))))"

text \<open>\<open>read\<close> of a \<open>Variable\<close>, into the place \<open>ar\<close> stands for: true for every variable of the partition.\<close>

definition vs_read :: "('v, 'r) visitor \<Rightarrow> nat \<Rightarrow> ('n, 'r) assign_result \<Rightarrow> ('v, 'm, 'r, 'z) var_solver_scheme \<Rightarrow> 'n \<Rightarrow> 'r \<Rightarrow> bool \<times> 'n \<times> 'r" where
  "vs_read V i ar vs m r =
     (case variables (var_ctn vs) i of
        None \<Rightarrow> (False, m, r)
      | Some var \<Rightarrow> (True, case vi_read V var (solver vs) of None \<Rightarrow> (m, r) | Some str \<Rightarrow> ar_set_value ar str m r))"

section \<open>The default solver\<close>

record ('v, 'm, 'r, 'w) default_solver = "('v, 'm, 'r) var_solver" +
  bdd_solvers :: "nat \<rightharpoonup> 'w"
  random_write_refs :: "(nat \<times> ('m, 'r) assign_result) list"

definition add_constraint :: "('v, 'r) visitor \<Rightarrow> constraint \<Rightarrow> 'v \<Rightarrow> 'v result" where
  "add_constraint V c v =
     (if con_cover c then Inr v
      else if con_soft c then vi_makeSoftAssertion V (con_expr c) v
      else vi_makeAssertion V (con_expr c) v)"

definition analyseHards :: "('v, 'w, 'r) factory \<Rightarrow> ('v, 'm, 'r) var_solver \<Rightarrow> ('v, 'm, 'r) var_solver result" where
  "analyseHards F vs =
     (let hards = filter (\<lambda>c. \<not> con_soft c \<and> \<not> con_cover c) (cp_constraints (constr_pttn vs)) in
      rbind (vi_analyseContradiction (fa_default F) (List.enumerate 0 (map con_expr hards)) (vi_new (fa_default F)))
        (\<lambda>(results, _). Inr (vs\<lparr>contradictions := contradictions vs @ map (map (\<lambda>i. con_name (hards ! i))) results\<rparr>)))"

fun inactive_names :: "constraint list \<Rightarrow> nat list \<Rightarrow> nat \<Rightarrow> string list" where
  "inactive_names [] is cnt = []"
| "inactive_names (c # cs) [] cnt = []"
| "inactive_names (c # cs) (i # is) cnt =
     (if con_soft c then
        if i = cnt then con_name c # inactive_names cs is (cnt + 1)
        else inactive_names cs (i # is) (cnt + 1)
      else inactive_names cs (i # is) cnt)"

definition vs_analyseSofts :: "('v, 'w, 'r) factory \<Rightarrow> ('v, 'm, 'r) var_solver \<Rightarrow> ('v, 'm, 'r) var_solver result" where
  "vs_analyseSofts F vs =
     rbind (vi_analyseSofts (fa_default F) (solver vs)) (\<lambda>(is, v).
       Inr (vs\<lparr>solver := v, inactive_softs := inactive_softs vs @ inactive_names (cp_constraints (constr_pttn vs)) is 0\<rparr>))"

definition analyseConstraints :: "('v, 'w, 'r) factory \<Rightarrow> ('v, 'm, 'r) var_solver \<Rightarrow> ('v, 'm, 'r) var_solver result" where
  "analyseConstraints F vs =
     rbind (analyseHards F vs) (\<lambda>vs. if contradictions vs = [] then vs_analyseSofts F vs else Inr vs)"

text \<open>BDD solvers for the variables with constraints of their own; the set is of the variables that have one.\<close>

definition create_bdd ::
    "('w, 'r) visitor \<Rightarrow> u32 \<Rightarrow> partition \<Rightarrow> nat \<times> ('m, 'r) assign_result \<Rightarrow> (nat \<rightharpoonup> 'w) \<times> nat set \<Rightarrow> ((nat \<rightharpoonup> 'w) \<times> nat set) result" where
  "create_bdd W limit cp = (\<lambda>(i, _) (bdds, vars_with_dist).
     case cp_single cp i of
       None \<Rightarrow> Inr (bdds, vars_with_dist)
     | Some cs \<Rightarrow>
         if i \<in> vars_with_dist then Inr (bdds, vars_with_dist)
         else rbind (each (\<lambda>c w. if con_complexity c > 0 \<and> con_complexity c < limit
                               then vi_makeAssertion W (con_expr c) w else Inr w) cs (vi_new W))
           (\<lambda>w. Inr (bdds(i \<mapsto> w), insert i vars_with_dist)))"

definition VariableDefaultSolver :: "('v, 'w, 'r) factory \<Rightarrow> ('m, 'r) container \<Rightarrow> partition \<Rightarrow> ('v, 'm, 'r, 'w) default_solver result" where
  "VariableDefaultSolver F vcon cp =
     rbind (VariableSolver F vcon cp) (\<lambda>vs.
     rbind (each (add_constraint (fa_default F)) (cp_constraints cp) (solver vs)) (\<lambda>v.
     let vs = vs\<lparr>solver := v\<rparr> in
     if bypass_constraint_analysis F then Inr (var_solver.extend vs (default_solver.fields Map.empty []))
     else
       rbind (analyseConstraints F vs) (\<lambda>vs.
       let writes = write_references (var_ctn vs);
           with_dist = set (List.map_filter (\<lambda>(i, _). dist_ref_to_var_map (var_ctn vs) i) (dist_references (var_ctn vs)))
       in rbind (case fa_cudd F of
             Some W \<Rightarrow> each (create_bdd W (complexity_limit_for_bdd F) cp) writes (Map.empty, with_dist)
           | None \<Rightarrow> Inr (Map.empty, with_dist)) (\<lambda>(bdds, with_dist).
         Inr (var_solver.extend vs (default_solver.fields bdds
           (if 2 * card with_dist > length writes then []
            else filter (\<lambda>(i, _). i \<notin> with_dist) writes)))))))"

text \<open>Suggestions: values drawn from the BDD solvers, from distributions, and the current random values.\<close>

definition suggest_bdd ::
    "('v, 'w, 'r) factory \<Rightarrow> ('m, 'r) container \<Rightarrow> nat \<times> ('m, 'r) assign_result \<Rightarrow> (nat \<rightharpoonup> 'w) \<times> 'v \<times> 'r \<Rightarrow> ((nat \<rightharpoonup> 'w) \<times> 'v \<times> 'r) result" where
  "suggest_bdd F ctn = (\<lambda>(i, ar) (bdds, v, r).
     case (bdds i, fa_cudd F) of
       (Some w, Some W) \<Rightarrow>
         rbind (vi_solve W True r w) (\<lambda>(b, r, w).
         if \<not> b then Inl AssertionFailure
         else rbind (var_node ctn i) (\<lambda>var.
           let str = (case vi_read W var w of None \<Rightarrow> '''' | Some str \<Rightarrow> str);
               (value, r) = ar_to_constant ar str r
           in rbind (vi_makeSuggestion (fa_default F) (equal_const var value) v) (\<lambda>v. Inr (bdds(i \<mapsto> w), v, r))))
     | _ \<Rightarrow> Inr (bdds, v, r))"

definition suggest_dist :: "('v, 'r) visitor \<Rightarrow> 'm \<Rightarrow> nat \<times> ('m, 'r) reference_expression \<Rightarrow> 'v \<times> 'r \<Rightarrow> ('v \<times> 'r) result" where
  "suggest_dist V m = (\<lambda>(i, expr) (v, r).
     rbind (expr m r) (\<lambda>(n, r). rbind (vi_makeSuggestion V n v) (\<lambda>v. Inr (v, r))))"

definition suggest_random :: "('v, 'r) visitor \<Rightarrow> ('m, 'r) container \<Rightarrow> 'm \<Rightarrow> nat \<times> ('m, 'r) assign_result \<Rightarrow> 'v \<Rightarrow> 'v result" where
  "suggest_random V ctn m = (\<lambda>(i, ar) v.
     rbind (var_node ctn i) (\<lambda>var. vi_makeSuggestion V (equal_const var (ar_value_as_constant ar m)) v))"

definition default_solve ::
    "('v, 'w, 'r) factory \<Rightarrow> ('v, 'm, 'r, 'w) default_solver \<Rightarrow> 'm \<Rightarrow> 'r \<Rightarrow> (bool \<times> ('v, 'm, 'r, 'w) default_solver \<times> 'm \<times> 'r) result" where
  "default_solve F vs m r =
     (if contradictions vs \<noteq> [] then Inr (False, vs, m, r)
      else
        let V = fa_default F; ctn = var_ctn vs in
        rbind (each (suggest_bdd F ctn) (write_references ctn) (bdd_solvers vs, solver vs, r)) (\<lambda>(bdds, v, r).
        rbind (each (assume_read_ref V m) (read_references ctn) (v, r)) (\<lambda>(v, r).
        rbind (each (suggest_dist V m) (dist_references ctn) (v, r)) (\<lambda>(v, r).
        let (refs, r) = (if random_write_refs vs = [] then ([], r)
                         else random_shuffle (fa_random_unsigned F) (random_write_refs vs) r) in
        rbind (each (suggest_random V ctn m) (take ((length refs + 1) div 2) refs) v) (\<lambda>v.
        rbind (vi_solve V True r v) (\<lambda>(b, r, v).
        rbind (if b then each (read_write_ref V v ctn) (write_references ctn) (m, r) else Inr (m, r)) (\<lambda>(m, r).
          Inr (b, vs\<lparr>solver := v, bdd_solvers := bdds, random_write_refs := refs\<rparr>, m, r))))))))"

section \<open>The coverage solver\<close>

record ('v, 'm, 'r) coverage_solver = "('v, 'm, 'r) var_solver" +
  covered_set :: "string set"

definition VariableCoverageSolver :: "('v, 'w, 'r) factory \<Rightarrow> ('m, 'r) container \<Rightarrow> partition \<Rightarrow> ('v, 'm, 'r) coverage_solver result" where
  "VariableCoverageSolver F vcon cp =
     rbind (VariableSolver F vcon cp) (\<lambda>vs.
     rbind (each (\<lambda>c v. if con_soft c then Inr v
                        else if \<not> con_cover c then vi_makeAssertion (fa_default F) (con_expr c) v else Inr v)
        (cp_constraints cp) (solver vs)) (\<lambda>v.
       Inr (var_solver.extend (vs\<lparr>solver := v\<rparr>) (coverage_solver.fields {}))))"

fun coverage_loop ::
    "('v, 'r) visitor \<Rightarrow> constraint list \<Rightarrow> ('v, 'm, 'r) coverage_solver \<Rightarrow> 'm \<Rightarrow> 'r \<Rightarrow> (bool \<times> ('v, 'm, 'r) coverage_solver \<times> 'm \<times> 'r) result" where
  "coverage_loop V [] vs m r = Inr (False, vs, m, r)"
| "coverage_loop V (c # cs) vs m r =
     (if \<not> con_cover c \<or> con_name c \<in> covered_set vs then coverage_loop V cs vs m r
      else
        rbind (each (assume_read_ref V m) (read_references (var_ctn vs)) (solver vs, r)) (\<lambda>(v, r).
        rbind (vi_makeAssumption V (con_expr c) v) (\<lambda>v.
        rbind (vi_solve V True r v) (\<lambda>(b, r, v).
        if b then
          rbind (each (read_write_ref V v (var_ctn vs)) (write_references (var_ctn vs)) (m, r)) (\<lambda>(m, r).
            Inr (True, vs\<lparr>solver := v, covered_set := insert (con_name c) (covered_set vs)\<rparr>, m, r))
        else coverage_loop V cs (vs\<lparr>solver := v\<rparr>) m r))))"

definition coverage_solve ::
    "('v, 'w, 'r) factory \<Rightarrow> ('v, 'm, 'r) coverage_solver \<Rightarrow> 'm \<Rightarrow> 'r \<Rightarrow> (bool \<times> ('v, 'm, 'r) coverage_solver \<times> 'm \<times> 'r) result" where
  "coverage_solve F vs m r = coverage_loop (fa_default F) (cp_constraints (constr_pttn vs)) vs m r"

end
