(* ===== verification/VarSolverCorrect.thy ===== *)
theory VarSolverCorrect
  imports VarSolver
begin

text \<open>
  The solvers of a partition over any solver that keeps the contract of \<open>metaSMTVisitor\<close>: construction
  succeeds, a solve returns, finds a solution whenever there is one, and writes it to the memory.
\<close>

section \<open>Constraints of a partition\<close>

definition hards_of :: "constraint list \<Rightarrow> node list" where
  "hards_of cs = map con_expr (filter (\<lambda>c. \<not> con_soft c \<and> \<not> con_cover c) cs)"

definition softs_of :: "constraint list \<Rightarrow> node list" where
  "softs_of cs = map con_expr (filter (\<lambda>c. con_soft c \<and> \<not> con_cover c) cs)"

text \<open>The constraints a default solver ends up with: with the analysis, kept soft constraints are hard.\<close>

definition effective :: "bool \<Rightarrow> (nat \<Rightarrow> smt_sort) \<Rightarrow> constraint list \<Rightarrow> node list" where
  "effective bypass d cs =
     hards_of cs @ (if bypass then []
       else nths (softs_of cs) (- set (fst (best_softs (models d (set (hards_of cs))) 0 (map holds (softs_of cs))))))"

lemma list_all_hards: "list_all (\<lambda>c. P (con_expr c)) cs \<Longrightarrow> list_all P (hards_of cs) \<and> list_all P (softs_of cs)"
  by (auto simp: list_all_iff hards_of_def softs_of_def)

lemma set_effective: "set (hards_of cs) \<subseteq> set (effective b d cs)" "set (effective b d cs) \<subseteq> set (hards_of cs) \<union> set (softs_of cs)"
  by (auto simp: effective_def dest: in_set_nthsD)

section \<open>Containers\<close>

text \<open>
  Every variable has a node of its declared sort, written references keep their contract and read
  references yield an equation for their variable; memory locations that are written are separate from each
  other and from those that are read.
\<close>

definition separate :: "('m, 'r) assign_result \<Rightarrow> ('m, 'r) assign_result \<Rightarrow> bool" where
  "separate a b \<longleftrightarrow> (\<forall>str m r. ar_value_as_constant b (fst (ar_set_value a str m r)) = ar_value_as_constant b m)"

definition variable_ok :: "(nat \<Rightarrow> smt_sort) \<Rightarrow> nat \<Rightarrow> node \<Rightarrow> bool" where
  "variable_ok d i n \<longleftrightarrow> (\<exists>b sg. n = VariableExpr i b sg \<and> term_sort b sg = d i \<and> solver_sort (d i))"

definition read_ref_ok :: "(nat \<Rightarrow> smt_sort) \<Rightarrow> nat \<Rightarrow> ('m, 'r) reference_expression \<Rightarrow> bool" where
  "read_ref_ok d i e \<longleftrightarrow> (\<forall>m. \<exists>n. (\<forall>r. e m r = Inr (n, r)) \<and> constraint_sorted d n \<and> node_vars n = {i})"

definition dist_ref_ok :: "(nat \<Rightarrow> smt_sort) \<Rightarrow> ('m, 'r) reference_expression \<Rightarrow> bool" where
  "dist_ref_ok d e \<longleftrightarrow> (\<forall>m r. \<exists>n r'. e m r = Inr (n, r') \<and> constraint_sorted d n)"

definition container_ok :: "(nat \<Rightarrow> smt_sort) \<Rightarrow> ('m, 'r) container \<Rightarrow> bool" where
  "container_ok d ctn \<longleftrightarrow>
     (\<forall>i n. variables ctn i = Some n \<longrightarrow> variable_ok d i n) \<and>
     (\<forall>(i, ar)\<in>set (write_references ctn). assign_result ar (d i)) \<and>
     (\<forall>(i, e)\<in>set (read_references ctn). read_ref_ok d i e) \<and>
     (\<forall>(i, e)\<in>set (dist_references ctn). dist_ref_ok d e \<and> i \<in> dom (dist_ref_to_var_map ctn)) \<and>
     sorted_wrt (\<lambda>(i, a) (j, b). i \<noteq> j \<and> separate a b \<and> separate b a) (write_references ctn) \<and>
     (\<forall>(i, a)\<in>set (write_references ctn). \<forall>(j, e)\<in>set (read_references ctn).
        \<forall>str m r. e (fst (ar_set_value a str m r)) = e m)"

lemma variable_okE: "variable_ok d i n \<Longrightarrow> (\<And>b sg. n = VariableExpr i b sg \<Longrightarrow> term_sort b sg = d i \<Longrightarrow> solver_sort (d i) \<Longrightarrow> thesis) \<Longrightarrow> thesis"
  by (auto simp: variable_ok_def)

text \<open>The assumptions a partition's read references stand for.\<close>

definition ref_node :: "('m, 'r) reference_expression \<Rightarrow> 'm \<Rightarrow> node" where
  "ref_node e m = (case e m undefined of Inr (n, r) \<Rightarrow> n | Inl _ \<Rightarrow> Placeholder 0)"

definition read_nodes :: "('m, 'r) container \<Rightarrow> 'm \<Rightarrow> node set" where
  "read_nodes ctn m = (\<lambda>(i, e). ref_node e m) ` set (read_references ctn)"

lemma read_ref_okD:
  assumes "read_ref_ok d i e"
  shows "e m r = Inr (ref_node e m, r)" "constraint_sorted d (ref_node e m)" "node_vars (ref_node e m) = {i}"
proof -
  obtain n where "\<forall>r. e m r = Inr (n, r)" "constraint_sorted d n" "node_vars n = {i}"
    using assms unfolding read_ref_ok_def by blast
  then show "e m r = Inr (ref_node e m, r)" "constraint_sorted d (ref_node e m)" "node_vars (ref_node e m) = {i}"
    by (simp_all add: ref_node_def)
qed

text \<open>The container of a partition's solver.\<close>

definition part_ctn :: "('m, 'r) container \<Rightarrow> partition \<Rightarrow> ('m, 'r) container" where
  "part_ctn vcon cp =
     (let dists = filter (\<lambda>(i, _). containsVar i cp) (dist_references vcon)
      in \<lparr>variables = variables vcon |` cp_support cp, vector_variables = Map.empty,
          read_references = filter (\<lambda>(i, _). containsVar i cp) (read_references vcon),
          write_references = filter (\<lambda>(i, _). containsVar i cp) (write_references vcon),
          dist_references = dists, dist_ref_to_var_map = dist_ref_to_var_map vcon |` (fst ` set dists)\<rparr>)"

lemma part_ctn_simps:
  "variables (part_ctn vcon cp) = variables vcon |` cp_support cp"
  "read_references (part_ctn vcon cp) = filter (\<lambda>(i, _). containsVar i cp) (read_references vcon)"
  "write_references (part_ctn vcon cp) = filter (\<lambda>(i, _). containsVar i cp) (write_references vcon)"
  by (simp_all add: part_ctn_def Let_def)

lemma part_ctn_ok: "container_ok d vcon \<Longrightarrow> container_ok d (part_ctn vcon cp)"
  unfolding container_ok_def part_ctn_def Let_def
  by (auto simp: restrict_map_def sorted_wrt_filter domIff image_iff split: if_splits) force+

lemma VariableSolver_eq:
  assumes "container_ok d vcon" and "cp_support cp \<subseteq> dom (variables vcon)"
  shows "VariableSolver F vcon cp = Inr \<lparr>var_ctn = part_ctn vcon cp, constr_pttn = cp, solver = vi_new (fa_default F),
    contradictions = [], inactive_softs = []\<rparr>"
proof -
  have "fst ` set (filter (\<lambda>(i, _). containsVar i cp) (dist_references vcon)) \<subseteq> dom (dist_ref_to_var_map vcon)"
    using assms(1) by (auto simp: container_ok_def)
  then show ?thesis using assms(2) by (simp add: VariableSolver_def part_ctn_def Let_def)
qed

section \<open>Writing a solution\<close>

lemma each_inv:
  assumes "\<And>x s. x \<in> set xs \<Longrightarrow> I s \<Longrightarrow> \<exists>s'. f x s = Inr s' \<and> I s'" and "I s"
  shows "\<exists>s'. each f xs s = Inr s' \<and> I s'"
  using assms
proof (induction xs arbitrary: s)
  case (Cons x xs)
  obtain s1 where "f x s = Inr s1" "I s1" using Cons.prems by (meson list.set_intros(1))
  moreover have "\<exists>s'. each f xs s1 = Inr s' \<and> I s'" by (rule Cons.IH) (use Cons.prems \<open>I s1\<close> in auto)
  ultimately show ?case by simp
qed auto

text \<open>\<open>written R \<rho> ws m m'\<close>: the values of the variables \<open>R\<close> have reached their places, the rest is unchanged.\<close>

definition written :: "nat set \<Rightarrow> (nat \<Rightarrow> smt_val) \<Rightarrow> (nat \<times> ('m, 'r) assign_result) list \<Rightarrow> 'm \<Rightarrow> 'm \<Rightarrow> bool" where
  "written R \<rho> ws m m' \<longleftrightarrow>
     (\<forall>(i, ar)\<in>set ws. if i \<in> R then sem_constant (ar_value_as_constant ar m') = \<rho> i
        else ar_value_as_constant ar m' = ar_value_as_constant ar m) \<and>
     (\<forall>ar. (\<forall>(i, a)\<in>set ws. separate a ar) \<longrightarrow> ar_value_as_constant ar m' = ar_value_as_constant ar m) \<and>
     (\<forall>e :: ('m, 'r) reference_expression. (\<forall>(i, a)\<in>set ws. \<forall>str m r. e (fst (ar_set_value a str m r)) = e m) \<longrightarrow> e m' = e m)"

lemma write_back:
  assumes "\<forall>(i, ar)\<in>set ws. assign_result ar (d i)" and "typed d \<rho>"
    and "sorted_wrt (\<lambda>(i, a) (j, b). i \<noteq> j \<and> separate a b \<and> separate b a) ws"
    and "\<forall>(i, ar)\<in>set ws. \<exists>n. variables ctn i = Some n \<and> vi_read V n v = (if i \<in> R then Some (val_string (\<rho> i)) else None)"
  shows "\<exists>m' r'. each (read_write_ref V v ctn) ws (m, r) = Inr (m', r') \<and> written R \<rho> ws m m'"
  using assms
proof (induction ws arbitrary: m r)
  case Nil
  then show ?case by (simp add: written_def)
next
  case (Cons w ws)
  obtain i ar where w: "w = (i, ar)" by fastforce
  obtain n where n: "variables ctn i = Some n" "vi_read V n v = (if i \<in> R then Some (val_string (\<rho> i)) else None)"
    using Cons.prems(4) w by auto
  obtain m1 r1 where m1: "(if i \<in> R then ar_set_value ar (val_string (\<rho> i)) m r else (m, r)) = (m1, r1)" by fastforce
  have step: "read_write_ref V v ctn w (m, r) = Inr (m1, r1)"
    using n m1 by (simp add: read_write_ref_def w var_node_def split: if_splits)
  obtain m' r' where IH: "each (read_write_ref V v ctn) ws (m1, r1) = Inr (m', r')" "written R \<rho> ws m1 m'"
    using Cons.IH [of m1 r1] Cons.prems by auto
  have here: "if i \<in> R then sem_constant (ar_value_as_constant ar m1) = \<rho> i else m1 = m"
  proof (cases "i \<in> R")
    case True
    have "assign_result ar (d i)" using Cons.prems(1) w by simp
    moreover have "sort_of_val (\<rho> i) = d i" using Cons.prems(2) by (simp add: typed_def)
    ultimately have "sem_constant (ar_value_as_constant ar (fst (ar_set_value ar (val_string (\<rho> i)) m r))) = \<rho> i"
      by (rule assign_result.set_law)
    then show ?thesis using True m1 by simp
  qed (use m1 in simp)
  have m1_cases: "m1 = m \<or> m1 = fst (ar_set_value ar (val_string (\<rho> i)) m r)" using m1 by (metis fst_conv)
  have sep: "\<forall>(j, b)\<in>set ws. i \<noteq> j \<and> separate ar b \<and> separate b ar" using Cons.prems(3) w by auto
  have "\<forall>(j, a)\<in>set ws. separate a ar" using sep by auto
  then have keep: "ar_value_as_constant ar m' = ar_value_as_constant ar m1" using IH(2) unfolding written_def by blast
  have others: "ar_value_as_constant b m1 = ar_value_as_constant b m" if "separate ar b" for b
    using m1_cases that by (auto simp: separate_def)
  have "written R \<rho> (w # ws) m m'"
    unfolding written_def
  proof (intro conjI allI impI ballI)
    fix x assume x: "x \<in> set (w # ws)"
    obtain j b where jb: "x = (j, b)" by fastforce
    show "case x of (i, ar) \<Rightarrow> if i \<in> R then sem_constant (ar_value_as_constant ar m') = \<rho> i
        else ar_value_as_constant ar m' = ar_value_as_constant ar m"
    proof (cases "x = w")
      case True
      then show ?thesis using here keep w by (auto split: if_splits)
    next
      case False
      then have "(j, b) \<in> set ws" using x jb by simp
      then have "if j \<in> R then sem_constant (ar_value_as_constant b m') = \<rho> j
          else ar_value_as_constant b m' = ar_value_as_constant b m1" "separate ar b"
        using IH(2) sep unfolding written_def by blast+
      then show ?thesis using others [of b] jb by simp
    qed
  next
    fix b assume b: "\<forall>(i, a)\<in>set (w # ws). separate a b"
    then have "ar_value_as_constant b m' = ar_value_as_constant b m1" using IH(2) unfolding written_def by simp
    then show "ar_value_as_constant b m' = ar_value_as_constant b m" using others [of b] b w by simp
  next
    fix e :: "('a, 'b) reference_expression"
    assume e: "\<forall>(i, a)\<in>set (w # ws). \<forall>str m r. e (fst (ar_set_value a str m r)) = e m"
    then have "e m' = e m1" using IH(2) unfolding written_def by simp
    moreover have "e m1 = e m" using m1_cases e w by auto
    ultimately show "e m' = e m" by simp
  qed
  then show ?case using IH(1) step by simp
qed

section \<open>A factory whose instances keep the contract\<close>

text \<open>The state of a default solver over the partition \<open>cp\<close>.\<close>

definition default_ok ::
    "('v, 'w, 'r) factory \<Rightarrow> (nat \<Rightarrow> smt_sort) \<Rightarrow> ('v \<Rightarrow> node list \<Rightarrow> node list \<Rightarrow> node list \<Rightarrow> node list \<Rightarrow> bool) \<Rightarrow>
     ('w \<Rightarrow> node list \<Rightarrow> node list \<Rightarrow> node list \<Rightarrow> node list \<Rightarrow> bool) \<Rightarrow> ('m, 'r) container \<Rightarrow> partition \<Rightarrow> ('v, 'm, 'r, 'w) default_solver \<Rightarrow> bool" where
  "default_ok F d reg breg vcon cp vs \<longleftrightarrow>
     constr_pttn vs = cp \<and> var_ctn vs = part_ctn vcon cp \<and>
     (contradictions vs \<noteq> [] \<longleftrightarrow> \<not> bypass_constraint_analysis F \<and> models d (set (hards_of (cp_constraints cp))) = {}) \<and>
     (contradictions vs = [] \<longrightarrow>
        (\<exists>S. reg (solver vs) (effective (bypass_constraint_analysis F) d (cp_constraints cp)) S [] [])) \<and>
     (\<forall>i w. bdd_solvers vs i = Some w \<longrightarrow> \<not> bypass_constraint_analysis F \<and>
        (\<exists>W H. fa_cudd F = Some W \<and> breg w H [] [] [] \<and> set H \<subseteq> set (hards_of (cp_constraints cp)))) \<and>
     set (random_write_refs vs) \<subseteq> set (write_references (var_ctn vs))"

text \<open>Partitions as the partitioner builds them, of constraints the solver can translate.\<close>

definition pttn_ok :: "(nat \<Rightarrow> smt_sort) \<Rightarrow> ('m, 'r) container \<Rightarrow> partition \<Rightarrow> bool" where
  "pttn_ok d vcon cp \<longleftrightarrow> partition_ok cp \<and> cp_support cp \<subseteq> dom (variables vcon) \<and> length (cp_constraints cp) < 2 ^ 32 \<and>
     (\<forall>c\<in>set (cp_constraints cp). constraint_sorted d (con_expr c) \<and> con_support c = node_vars (con_expr c))"

lemma pttn_single:
  assumes "pttn_ok d vcon cp" and "cp_single cp i = Some cs"
  shows "con_expr ` set cs \<subseteq> set (hards_of (cp_constraints cp))"
proof -
  have "mset cs = singles i (mset (cp_constraints cp))"
    using assms unfolding pttn_ok_def partition_ok_def by (metis option.simps(5))
  then have "set cs = {c \<in> set (cp_constraints cp). single_var c = Some i}"
    by (metis set_mset_mset set_mset_filter singles_def)
  then show ?thesis by (auto simp: hards_of_def single_var_def split: if_splits)
qed

lemma pttn_sorted: "pttn_ok d vcon cp \<Longrightarrow> list_all (\<lambda>c. constraint_sorted d (con_expr c)) (cp_constraints cp)"
  by (simp add: pttn_ok_def list_all_iff)

locale good_factory =
  fixes F :: "('v, 'w, 'r) factory" and d :: "nat \<Rightarrow> smt_sort"
    and reg :: "'v \<Rightarrow> node list \<Rightarrow> node list \<Rightarrow> node list \<Rightarrow> node list \<Rightarrow> bool"
    and breg :: "'w \<Rightarrow> node list \<Rightarrow> node list \<Rightarrow> node list \<Rightarrow> node list \<Rightarrow> bool"
  assumes default_law: "solver_visitor (fa_default F) d reg"
    and cudd_law: "fa_cudd F = Some W \<Longrightarrow> solver_visitor W d breg"
    and random_law: "0 < n \<Longrightarrow> fst (fa_random_unsigned F r n) < n"

sublocale good_factory \<subseteq> main: solver_visitor "fa_default F" d reg
  by (rule default_law)

context good_factory
begin

lemma add_constraints:
  "reg v H S A G \<Longrightarrow> list_all (\<lambda>c. constraint_sorted d (con_expr c)) cs \<Longrightarrow>
   \<exists>w. each (add_constraint (fa_default F)) cs v = Inr w \<and> reg w (H @ hards_of cs) (S @ softs_of cs) A G"
proof (induction cs arbitrary: v H S)
  case (Cons c cs)
  then have c: "constraint_sorted d (con_expr c)" and cs: "list_all (\<lambda>c. constraint_sorted d (con_expr c)) cs" by simp_all
  consider "con_cover c" | "con_soft c" "\<not> con_cover c" | "\<not> con_soft c" "\<not> con_cover c" by blast
  then show ?case
  proof cases
    case 1
    then show ?thesis using Cons.IH [OF Cons.prems(1) cs] by (simp add: add_constraint_def hards_of_def softs_of_def)
  next
    case 2
    obtain w where "vi_makeSoftAssertion (fa_default F) (con_expr c) v = Inr w" "reg w H (S @ [con_expr c]) A G"
      using main.soft_law [OF Cons.prems(1) c] by blast
    then show ?thesis using Cons.IH [of w H "S @ [con_expr c]"] cs 2 by (simp add: add_constraint_def hards_of_def softs_of_def)
  next
    case 3
    obtain w where "vi_makeAssertion (fa_default F) (con_expr c) v = Inr w" "reg w (H @ [con_expr c]) S A G"
      using main.assertion_law [OF Cons.prems(1) c] by blast
    then show ?thesis using Cons.IH [of w "H @ [con_expr c]" S] cs 3 by (simp add: add_constraint_def hards_of_def softs_of_def)
  qed
qed (simp add: hards_of_def softs_of_def)

lemma analyseHards_correct:
  assumes cs: "list_all (\<lambda>c. constraint_sorted d (con_expr c)) (cp_constraints (constr_pttn vs))"
    and len: "length (cp_constraints (constr_pttn vs)) < 2 ^ 32"
  shows "\<exists>xs. analyseHards F vs = Inr (vs\<lparr>contradictions := contradictions vs @ xs\<rparr>) \<and>
    (xs = [] \<longleftrightarrow> models d (set (hards_of (cp_constraints (constr_pttn vs)))) \<noteq> {})"
proof -
  let ?hs = "hards_of (cp_constraints (constr_pttn vs))"
  have "length ?hs \<le> length (cp_constraints (constr_pttn vs))" by (simp add: hards_of_def)
  then have "length ?hs < 2 ^ 32" using len by simp
  then obtain rs w where "vi_analyseContradiction (fa_default F) (List.enumerate 0 ?hs) (vi_new (fa_default F)) = Inr (rs, w)"
    "rs = [] \<longleftrightarrow> models d (set ?hs) \<noteq> {}"
    using main.contradiction_law [of ?hs] list_all_hards [OF cs] by blast
  moreover define names where "names = map (map (\<lambda>i. con_name (filter (\<lambda>c. \<not> con_soft c \<and> \<not> con_cover c) (cp_constraints (constr_pttn vs)) ! i))) rs"
  ultimately have "analyseHards F vs = Inr (vs\<lparr>contradictions := contradictions vs @ names\<rparr>)" "names = [] \<longleftrightarrow> models d (set ?hs) \<noteq> {}"
    by (simp_all add: analyseHards_def hards_of_def Let_def)
  then show ?thesis by blast
qed

lemma bdd_assertions:
  assumes W: "fa_cudd F = Some W" and cs: "list_all (\<lambda>c. constraint_sorted d (con_expr c)) cs" and "breg w H [] [] []"
  shows "\<exists>w'. each (\<lambda>c w. if con_complexity c > 0 \<and> con_complexity c < limit then vi_makeAssertion W (con_expr c) w else Inr w) cs w = Inr w' \<and>
    (\<exists>H'. breg w' H' [] [] [] \<and> set H' \<subseteq> set H \<union> con_expr ` set cs)"
  using assms(2,3)
proof (induction cs arbitrary: w H)
  case (Cons c cs)
  note law = solver_visitor.assertion_law [OF cudd_law [OF W] Cons.prems(2), of "con_expr c"]
  obtain w1 where w1: "vi_makeAssertion W (con_expr c) w = Inr w1" "breg w1 (H @ [con_expr c]) [] [] []"
    using law Cons.prems(1) by auto
  show ?case
  proof (cases "con_complexity c > 0 \<and> con_complexity c < limit")
    case True
    then show ?thesis using Cons.IH [of w1 "H @ [con_expr c]"] Cons.prems(1) w1 by fastforce
  next
    case False
    then show ?thesis using Cons.IH [OF _ Cons.prems(2)] Cons.prems(1) by (fastforce simp: if_not_P)
  qed
qed auto

lemma create_bdds:
  fixes ws :: "(nat \<times> ('m, 'r) assign_result) list"
  assumes W: "fa_cudd F = Some W"
    and single: "\<And>i cs. cp_single cp i = Some cs \<Longrightarrow> con_expr ` set cs \<subseteq> set (hards_of (cp_constraints cp))"
    and cs: "list_all (constraint_sorted d) (hards_of (cp_constraints cp))"
  shows "\<exists>s. each (create_bdd W limit cp) ws (Map.empty, X) = Inr s \<and>
    (\<forall>i w. fst s i = Some w \<longrightarrow> (\<exists>H. breg w H [] [] [] \<and> set H \<subseteq> set (hards_of (cp_constraints cp))))"
proof (rule each_inv)
  fix x :: "nat \<times> ('m, 'r) assign_result" and s :: "(nat \<rightharpoonup> 'w) \<times> nat set"
  assume I: "\<forall>i w. fst s i = Some w \<longrightarrow> (\<exists>H. breg w H [] [] [] \<and> set H \<subseteq> set (hards_of (cp_constraints cp)))"
  obtain i ar bdds Y where x: "x = (i, ar)" "s = (bdds, Y)" by fastforce
  show "\<exists>s'. create_bdd W limit cp x s = Inr s' \<and>
      (\<forall>i w. fst s' i = Some w \<longrightarrow> (\<exists>H. breg w H [] [] [] \<and> set H \<subseteq> set (hards_of (cp_constraints cp))))"
  proof (cases "cp_single cp i")
    case None
    then show ?thesis using I by (simp add: create_bdd_def x)
  next
    case (Some cs)
    have sub: "con_expr ` set cs \<subseteq> set (hards_of (cp_constraints cp))" by (rule single [OF Some])
    then have "list_all (\<lambda>c. constraint_sorted d (con_expr c)) cs" using assms(3) by (auto simp: list_all_iff)
    from bdd_assertions [OF W this solver_visitor.new_law [OF cudd_law [OF W]], of limit]
    obtain w H where w: "each (\<lambda>c w. if con_complexity c > 0 \<and> con_complexity c < limit then vi_makeAssertion W (con_expr c) w else Inr w) cs (vi_new W) = Inr w"
      "breg w H [] [] []" "set H \<subseteq> con_expr ` set cs"
      by auto
    then have "set H \<subseteq> set (hards_of (cp_constraints cp))" using sub by blast
    then show ?thesis using I w(1,2) by (auto simp: create_bdd_def x Some)
  qed
qed simp

lemma analyseConstraints_correct:
  assumes "list_all (\<lambda>c. constraint_sorted d (con_expr c)) (cp_constraints (constr_pttn vs))"
    and "length (cp_constraints (constr_pttn vs)) < 2 ^ 32" and "contradictions vs = []"
    and "reg (solver vs) (hards_of (cp_constraints (constr_pttn vs))) (softs_of (cp_constraints (constr_pttn vs))) [] []"
  shows "\<exists>vs'. analyseConstraints F vs = Inr vs' \<and> constr_pttn vs' = constr_pttn vs \<and> var_ctn vs' = var_ctn vs \<and>
    (contradictions vs' \<noteq> [] \<longleftrightarrow> models d (set (hards_of (cp_constraints (constr_pttn vs)))) = {}) \<and>
    (contradictions vs' = [] \<longrightarrow> reg (solver vs') (effective False d (cp_constraints (constr_pttn vs))) [] [] [])"
proof -
  obtain xs where xs: "analyseHards F vs = Inr (vs\<lparr>contradictions := xs\<rparr>)"
    "xs = [] \<longleftrightarrow> models d (set (hards_of (cp_constraints (constr_pttn vs)))) \<noteq> {}"
    using analyseHards_correct [OF assms(1,2)] by (auto simp: assms(3))
  show ?thesis
  proof (cases "xs = []")
    case True
    obtain "is" w where w: "vi_analyseSofts (fa_default F) (solver vs) = Inr (is, w)"
      "is = fst (best_softs (models d (set (hards_of (cp_constraints (constr_pttn vs))))) 0 (map holds (softs_of (cp_constraints (constr_pttn vs)))))"
      "reg w (hards_of (cp_constraints (constr_pttn vs)) @ nths (softs_of (cp_constraints (constr_pttn vs))) (- set is)) [] [] []"
      using main.softs_law [OF assms(4)] by blast
    then have "reg w (effective False d (cp_constraints (constr_pttn vs))) [] [] []" by (simp add: effective_def)
    then show ?thesis using True xs w(1) by (simp add: analyseConstraints_def vs_analyseSofts_def)
  next
    case False
    then show ?thesis using xs by (simp add: analyseConstraints_def)
  qed
qed

lemma default_constructor:
  fixes vcon :: "('m, 'r) container"
  assumes cp: "pttn_ok d vcon cp" and vcon: "container_ok d vcon"
  shows "\<exists>vs. VariableDefaultSolver F vcon cp = Inr vs \<and> default_ok F d reg breg vcon cp vs"
proof -
  let ?cs = "cp_constraints cp" and ?ctn = "part_ctn vcon cp"
  note sorted = pttn_sorted [OF cp]
  have len: "length ?cs < 2 ^ 32" and vars: "cp_support cp \<subseteq> dom (variables vcon)" using cp by (simp_all add: pttn_ok_def)
  define vs0 where "vs0 = \<lparr>var_ctn = ?ctn, constr_pttn = cp, solver = vi_new (fa_default F), contradictions = [], inactive_softs = []\<rparr>"
  have v0: "VariableSolver F vcon cp = Inr vs0" unfolding vs0_def by (rule VariableSolver_eq [OF vcon vars])
  obtain v where v: "each (add_constraint (fa_default F)) ?cs (vi_new (fa_default F)) = Inr v" "reg v (hards_of ?cs) (softs_of ?cs) [] []"
    using add_constraints [OF main.new_law sorted] by auto
  define vs1 where "vs1 = vs0\<lparr>solver := v\<rparr>"
  have f1: "var_ctn vs1 = ?ctn" "constr_pttn vs1 = cp" "solver vs1 = v" "contradictions vs1 = []" "solver vs0 = vi_new (fa_default F)"
    by (simp_all add: vs1_def vs0_def)
  show ?thesis
  proof (cases "bypass_constraint_analysis F")
    case True
    then have "VariableDefaultSolver F vcon cp = Inr (var_solver.extend vs1 (default_solver.fields Map.empty []))"
      using v(1) by (simp add: VariableDefaultSolver_def v0 f1(5) vs1_def Let_def)
    moreover have "default_ok F d reg breg vcon cp (var_solver.extend vs1 (default_solver.fields Map.empty []))"
      using True v(2) f1 by (auto simp: default_ok_def var_solver.defs default_solver.defs effective_def)
    ultimately show ?thesis by blast
  next
    case False
    obtain vs2 where vs2: "analyseConstraints F vs1 = Inr vs2" "constr_pttn vs2 = cp" "var_ctn vs2 = ?ctn"
      "contradictions vs2 \<noteq> [] \<longleftrightarrow> models d (set (hards_of ?cs)) = {}"
      "contradictions vs2 = [] \<longrightarrow> reg (solver vs2) (effective False d ?cs) [] [] []"
      using analyseConstraints_correct [of vs1] sorted len v(2) by (auto simp: f1)
    define wd where "wd = set (List.map_filter (\<lambda>(i, _). dist_ref_to_var_map ?ctn i) (dist_references ?ctn))"
    let ?step = "case fa_cudd F of Some W \<Rightarrow> each (create_bdd W (complexity_limit_for_bdd F) cp) (write_references ?ctn) (Map.empty, wd)
        | None \<Rightarrow> Inr (Map.empty, wd)"
    have "\<exists>s. ?step = Inr s \<and> (\<forall>i w. fst s i = Some w \<longrightarrow> (\<exists>W H. fa_cudd F = Some W \<and> breg w H [] [] [] \<and> set H \<subseteq> set (hards_of ?cs)))"
    proof (cases "fa_cudd F")
      case (Some W)
      then show ?thesis
        using create_bdds [OF Some pttn_single [OF cp], where limit = "complexity_limit_for_bdd F" and ws = "write_references ?ctn" and X = wd]
          list_all_hards [OF sorted] by simp
    qed simp
    then obtain bdds wd' where b: "?step = Inr (bdds, wd')"
      "\<forall>i w. bdds i = Some w \<longrightarrow> (\<exists>W H. fa_cudd F = Some W \<and> breg w H [] [] [] \<and> set H \<subseteq> set (hards_of ?cs))"
      by (metis fst_conv prod.collapse)
    let ?rw = "if 2 * card wd' > length (write_references ?ctn) then [] else filter (\<lambda>(i, _). i \<notin> wd') (write_references ?ctn)"
    let ?vs = "var_solver.extend vs2 (default_solver.fields bdds ?rw)"
    have "VariableDefaultSolver F vcon cp = Inr ?vs"
      unfolding VariableDefaultSolver_def v0 rbind_Inr f1(5) v(1) Let_def vs1_def [symmetric] if_not_P [OF False]
        vs2(1,3) wd_def [symmetric] b(1) prod.case by (rule refl)
    moreover have "default_ok F d reg breg vcon cp ?vs"
      using False vs2 b(2) by (auto simp: default_ok_def var_solver.defs default_solver.defs)
    ultimately show ?thesis by blast
  qed
qed

section \<open>Solving\<close>

definition bdds_ok :: "node set \<Rightarrow> (nat \<rightharpoonup> 'w) \<Rightarrow> bool" where
  "bdds_ok H bdds \<longleftrightarrow> (\<forall>i w. bdds i = Some w \<longrightarrow> (\<exists>W H'. fa_cudd F = Some W \<and> breg w H' [] [] [] \<and> set H' \<subseteq> H))"

lemma suggestion_step:
  assumes "\<exists>G. reg v H S A G" and "variable_ok d i n" and "const_sort c = d i"
  shows "\<exists>w. vi_makeSuggestion (fa_default F) (equal_const n c) v = Inr w \<and> (\<exists>G. reg w H S A G)"
proof -
  obtain b sg where n: "n = VariableExpr i b sg" "term_sort b sg = d i" "solver_sort (d i)" by (rule variable_okE [OF assms(2)])
  have "constraint_sorted d (equal_const n c)" unfolding n(1) by (rule equal_const_sorted) (simp_all add: n assms(3))
  then show ?thesis using main.suggestion_law assms(1) by blast
qed

lemma suggest_bdd_step:
  assumes ctn: "container_ok d ctn" and x: "(i, ar) \<in> set (write_references ctn)" and i: "i \<in> dom (variables ctn)"
    and sat: "models d H \<noteq> {}" and I: "bdds_ok H bdds" "\<exists>G. reg v H0 S A G"
  shows "\<exists>bdds' v' r'. suggest_bdd F ctn (i, ar) (bdds, v, r) = Inr (bdds', v', r') \<and> bdds_ok H bdds' \<and> (\<exists>G. reg v' H0 S A G)"
proof (cases "bdds i")
  case None
  then show ?thesis using I by (simp add: suggest_bdd_def)
next
  case (Some w)
  then obtain W H' where W: "fa_cudd F = Some W" "breg w H' [] [] []" "set H' \<subseteq> H" using I(1) unfolding bdds_ok_def by blast
  obtain b r1 w1 where w1: "vi_solve W True r w = Inr (b, r1, w1)" "breg w1 H' [] [] []" "\<not> b \<longrightarrow> models d (set H') = {}"
    using solver_visitor.solve_law [OF cudd_law [OF W(1)] W(2), of True r] by (auto simp: Let_def)
  have b: b using w1(3) sat models_mono [OF W(3), of d] by auto
  obtain n where n: "variables ctn i = Some n" "variable_ok d i n" using i ctn by (auto simp: container_ok_def)
  have ar: "assign_result ar (d i)" using ctn x by (auto simp: container_ok_def)
  define str where "str = (case vi_read W n w1 of None \<Rightarrow> '''' | Some str \<Rightarrow> str)"
  obtain c r2 where c: "ar_to_constant ar str r1 = (c, r2)" by fastforce
  then have "const_sort c = d i" using assign_result.constant_law [OF ar, of str r1] by simp
  then obtain v1 where v1: "vi_makeSuggestion (fa_default F) (equal_const n c) v = Inr v1" "\<exists>G. reg v1 H0 S A G"
    using suggestion_step [OF I(2) n(2)] by blast
  have "suggest_bdd F ctn (i, ar) (bdds, v, r) = Inr (bdds(i \<mapsto> w1), v1, r2)"
    using b v1(1) by (simp add: suggest_bdd_def Some W(1) w1(1) var_node_def n(1) c flip: str_def)
  moreover have "bdds_ok H (bdds(i \<mapsto> w1))" using I(1) W w1(2) by (auto simp: bdds_ok_def)
  ultimately show ?thesis using v1(2) by blast
qed

lemma suggest_bdds:
  assumes "container_ok d ctn" and "fst ` set (write_references ctn) \<subseteq> dom (variables ctn)"
    and "bdds = Map.empty \<or> models d H \<noteq> {}" and "bdds_ok H bdds" and "\<exists>G. reg v H0 S A G"
  shows "\<exists>bdds' v' r'. each (suggest_bdd F ctn) (write_references ctn) (bdds, v, r) = Inr (bdds', v', r') \<and>
    bdds_ok H bdds' \<and> (bdds = Map.empty \<longrightarrow> bdds' = Map.empty) \<and> (\<exists>G. reg v' H0 S A G)"
proof -
  let ?I = "\<lambda>(b, v, r :: 'r). bdds_ok H b \<and> (bdds = Map.empty \<longrightarrow> b = Map.empty) \<and> (\<exists>G. reg v H0 S A G)"
  have "\<exists>s. each (suggest_bdd F ctn) (write_references ctn) (bdds, v, r) = Inr s \<and> ?I s"
  proof (rule each_inv)
    fix x s assume x: "x \<in> set (write_references ctn)" and I: "?I s"
    obtain i ar b v r where s: "x = (i, ar)" "s = (b, v, r)" by (cases x; cases s) auto
    have i: "i \<in> dom (variables ctn)" using assms(2) x s by force
    show "\<exists>s'. suggest_bdd F ctn x s = Inr s' \<and> ?I s'"
    proof (cases "bdds = Map.empty")
      case True
      then show ?thesis using I by (auto simp: s suggest_bdd_def bdds_ok_def)
    next
      case False
      then show ?thesis
        using suggest_bdd_step [OF assms(1) x [unfolded s] i, of H b v H0 S A r] assms(3) I by (auto simp: s)
    qed
  qed (use assms(4,5) in simp)
  then show ?thesis by auto
qed

lemma assume_reads:
  assumes "\<forall>(i, e)\<in>set es. read_ref_ok d i e" and "reg v H S A G"
  shows "\<exists>w. each (assume_read_ref (fa_default F) m) es (v, r) = Inr (w, r) \<and> reg w H S (A @ map (\<lambda>(i, e). ref_node e m) es) G"
  using assms
proof (induction es arbitrary: v A)
  case (Cons x es)
  obtain i e where x: "x = (i, e)" by fastforce
  then have "read_ref_ok d i e" using Cons.prems(1) by simp
  note e = read_ref_okD [OF this]
  obtain w where w: "vi_makeAssumption (fa_default F) (ref_node e m) v = Inr w" "reg w H S (A @ [ref_node e m]) G"
    using main.assumption_law [OF Cons.prems(2) e(2)] by blast
  have "\<forall>(i, e)\<in>set es. read_ref_ok d i e" using Cons.prems(1) by simp
  then show ?case using Cons.IH [OF _ w(2)] w(1) by (simp add: x assume_read_ref_def e(1))
qed simp

lemma suggest_dists:
  assumes "\<forall>(i, e)\<in>set es. dist_ref_ok d e" and "\<exists>G. reg v H S A G"
  shows "\<exists>w r'. each (suggest_dist (fa_default F) m) es (v, r) = Inr (w, r') \<and> (\<exists>G. reg w H S A G)"
proof -
  let ?I = "\<lambda>(v, r :: 'r). \<exists>G. reg v H S A G"
  have "\<exists>s. each (suggest_dist (fa_default F) m) es (v, r) = Inr s \<and> ?I s"
  proof (rule each_inv)
    fix x s assume x: "x \<in> set es" and I: "?I s"
    obtain i e v r where s: "x = (i, e)" "s = (v, r)" "dist_ref_ok d e" "\<exists>G. reg v H S A G"
      using bspec [OF assms(1) x] I by (cases x; cases s) auto
    obtain n r' where n: "e m r = Inr (n, r')" "constraint_sorted d n" using s(3) unfolding dist_ref_ok_def by blast
    obtain w where "vi_makeSuggestion (fa_default F) n v = Inr w" "\<exists>G. reg w H S A G" using main.suggestion_law n(2) s(4) by blast
    then show "\<exists>s'. suggest_dist (fa_default F) m x s = Inr s' \<and> ?I s'" using n(1) by (simp add: s(1,2) suggest_dist_def)
  qed (use assms(2) in simp)
  then show ?thesis by auto
qed

lemma suggest_randoms:
  assumes "container_ok d ctn" and "fst ` set (write_references ctn) \<subseteq> dom (variables ctn)"
    and "set ws \<subseteq> set (write_references ctn)" and "\<exists>G. reg v H S A G"
  shows "\<exists>w. each (suggest_random (fa_default F) ctn m) ws v = Inr w \<and> (\<exists>G. reg w H S A G)"
proof (rule each_inv)
  fix x v assume x: "x \<in> set ws" and I: "\<exists>G. reg v H S A G"
  obtain i ar where s: "x = (i, ar)" by fastforce
  then have m: "(i, ar) \<in> set (write_references ctn)" using x assms(3) by auto
  then have ar: "assign_result ar (d i)" using assms(1) by (auto simp: container_ok_def)
  have i: "i \<in> dom (variables ctn)" using m assms(2) by force
  obtain n where n: "variables ctn i = Some n" "variable_ok d i n" using i assms(1) by (auto simp: container_ok_def)
  then show "\<exists>w. suggest_random (fa_default F) ctn m x v = Inr w \<and> (\<exists>G. reg w H S A G)"
    using suggestion_step [OF I n(2) assign_result.value_law [OF ar]] by (simp add: s suggest_random_def var_node_def)
qed (rule assms(4))

lemma pttn_vars:
  assumes cp: "pttn_ok d vcon cp" and vcon: "container_ok d vcon" and n: "n \<in> set (effective b d (cp_constraints cp)) \<union> read_nodes (part_ctn vcon cp) m"
  shows "node_vars n \<subseteq> cp_support cp"
proof (cases "n \<in> set (effective b d (cp_constraints cp))")
  case True
  then have "n \<in> con_expr ` set (cp_constraints cp)" using set_effective(2) by (fastforce simp: hards_of_def softs_of_def)
  then show ?thesis using cp by (auto simp: pttn_ok_def partition_ok_def)
next
  case False
  then obtain i e where e: "(i, e) \<in> set (read_references vcon)" "i \<in> cp_support cp" "n = ref_node e m"
    using n by (auto simp: read_nodes_def part_ctn_simps containsVar_def)
  then have "read_ref_ok d i e" using vcon by (auto simp: container_ok_def)
  then show ?thesis using read_ref_okD(3) e by fastforce
qed

lemma shuffle_refs:
  obtains refs r' where "(if ws = [] then ([], r) else random_shuffle (fa_random_unsigned F) ws r) = (refs, r')" "set refs = set ws"
proof (cases "ws = []")
  case False
  obtain refs r' where "random_shuffle (fa_random_unsigned F) ws r = (refs, r')" by fastforce
  moreover have "set (fst (random_shuffle (fa_random_unsigned F) ws r)) = set ws"
    by (rule random_shuffle_set) (rule random_law)
  ultimately have "random_shuffle (fa_random_unsigned F) ws r = (refs, r')" "set refs = set ws" by simp_all
  then show thesis using that False by simp
qed (use that in simp)

lemma write_solution:
  fixes vcon :: "('m, 'r) container"
  assumes cp: "pttn_ok d vcon cp" and vcon: "container_ok d vcon" and \<rho>: "typed d \<rho>" "gives (fa_default F) v ns \<rho>"
    and N: "N \<subseteq> set ns" "\<And>n. n \<in> N \<Longrightarrow> node_vars n \<subseteq> cp_support cp"
  defines "ctn \<equiv> part_ctn vcon cp"
  shows "\<exists>R m' r'. each (read_write_ref (fa_default F) v ctn) (write_references ctn) (m, r) = Inr (m', r') \<and>
    (\<forall>n\<in>N. node_vars n \<subseteq> R) \<and> R \<subseteq> cp_support cp \<and> written R \<rho> (write_references ctn) m m' \<and>
    (\<forall>i\<in>R. \<exists>n. variables ctn i = Some n \<and> vi_read (fa_default F) n v = Some (val_string (\<rho> i)))"
proof -
  let ?V = "fa_default F"
  have ctn: "container_ok d ctn" using part_ctn_ok [OF vcon] by (simp add: ctn_def)
  have sup: "cp_support cp \<subseteq> dom (variables vcon)" using cp by (simp add: pttn_ok_def)
  have dom: "dom (variables ctn) = cp_support cp" using sup by (auto simp: ctn_def part_ctn_simps)
  have wdom: "fst ` set (write_references ctn) \<subseteq> dom (variables ctn)"
    unfolding dom by (auto simp: ctn_def part_ctn_simps containsVar_def)
  have rd: "str = val_string (\<rho> i)" if "vi_read ?V (VariableExpr i k sg) v = Some str" for i k sg str
    using \<rho>(2) that unfolding gives_def by blast
  have known: "vi_read ?V (VariableExpr i k sg) v \<noteq> None" if "n \<in> set ns" "i \<in> node_vars n" for n i k sg
    using \<rho>(2) that unfolding gives_def by (meson bspec)
  define R where "R = {i. \<exists>n. variables ctn i = Some n \<and> vi_read ?V n v \<noteq> None}"
  have var: "\<exists>k sg. n = VariableExpr i k sg" if "variables ctn i = Some n" for i n
  proof -
    have "variable_ok d i n" using ctn that unfolding container_ok_def by blast
    then show ?thesis unfolding variable_ok_def by blast
  qed
  have val: "vi_read ?V n v = (if i \<in> R then Some (val_string (\<rho> i)) else None)" if "variables ctn i = Some n" for i n
    using var [OF that] rd that by (auto simp: R_def)
  have ws: "\<forall>(i, ar)\<in>set (write_references ctn). \<exists>n. variables ctn i = Some n \<and>
      vi_read ?V n v = (if i \<in> R then Some (val_string (\<rho> i)) else None)"
    using wdom val by fastforce
  obtain m' r' where m': "each (read_write_ref ?V v ctn) (write_references ctn) (m, r) = Inr (m', r')" "written R \<rho> (write_references ctn) m m'"
    using write_back [OF _ \<rho>(1) _ ws, of m r] ctn by (auto simp: container_ok_def)
  have "i \<in> R" if "n \<in> N" "i \<in> node_vars n" for n i
  proof -
    have "i \<in> cp_support cp" using N(2) that by blast
    then obtain x where x: "variables ctn i = Some x" using dom by blast
    obtain k sg where "x = VariableExpr i k sg" using var [OF x] by blast
    then have "variables ctn i = Some x" "vi_read ?V x v \<noteq> None" using x known [of n i] N(1) that by auto
    then show ?thesis unfolding R_def by blast
  qed
  then have "\<forall>n\<in>N. node_vars n \<subseteq> R" by blast
  moreover have "R \<subseteq> cp_support cp" using dom by (auto simp: R_def)
  moreover have "\<forall>i\<in>R. \<exists>n. variables ctn i = Some n \<and> vi_read ?V n v = Some (val_string (\<rho> i))"
  proof
    fix i assume i: "i \<in> R"
    then obtain n where n: "variables ctn i = Some n" by (auto simp: R_def)
    then have "vi_read ?V n v = Some (val_string (\<rho> i))" using val [OF n] i by simp
    then show "\<exists>n. variables ctn i = Some n \<and> vi_read ?V n v = Some (val_string (\<rho> i))" using n by blast
  qed
  ultimately show ?thesis using m' by blast
qed

lemma default_solve_correct:
  fixes vcon :: "('m, 'r) container"
  assumes cp: "pttn_ok d vcon cp" and vcon: "container_ok d vcon" and ok: "default_ok F d reg breg vcon cp vs"
  defines "ctn \<equiv> part_ctn vcon cp"
  defines "N m \<equiv> set (effective (bypass_constraint_analysis F) d (cp_constraints cp)) \<union> read_nodes ctn m"
  shows "\<exists>b vs' m' r'. default_solve F vs m r = Inr (b, vs', m', r') \<and> default_ok F d reg breg vcon cp vs' \<and>
    (if b then \<exists>\<rho>\<in>models d (N m). \<exists>R. (\<forall>n\<in>N m. node_vars n \<subseteq> R) \<and> R \<subseteq> cp_support cp \<and> written R \<rho> (write_references ctn) m m' \<and>
         (\<forall>i\<in>R. \<exists>n. variables ctn i = Some n \<and> vi_read (fa_default F) n (solver vs') = Some (val_string (\<rho> i)))
     else m' = m \<and> models d (N m) = {})"
proof (cases "contradictions vs = []")
  case False
  then have "models d (set (hards_of (cp_constraints cp))) = {}" using ok by (simp add: default_ok_def)
  moreover have "set (hards_of (cp_constraints cp)) \<subseteq> N m" using set_effective(1) by (fastforce simp: N_def)
  ultimately have "models d (N m) = {}" using models_mono [of "set (hards_of (cp_constraints cp))" "N m" d] by auto
  then show ?thesis using False ok
    by (intro exI [of _ False] exI [of _ vs] exI [of _ m] exI [of _ r]) (simp add: default_solve_def)
next
  case True
  let ?V = "fa_default F" and ?cs = "cp_constraints cp"
  let ?E = "effective (bypass_constraint_analysis F) d ?cs"
  have ctn: "container_ok d ctn" "var_ctn vs = ctn" using part_ctn_ok [OF vcon] ok by (simp_all add: ctn_def default_ok_def)
  have sup: "cp_support cp \<subseteq> dom (variables vcon)" using cp by (simp add: pttn_ok_def)
  have dom: "dom (variables ctn) = cp_support cp" using sup by (auto simp: ctn_def part_ctn_simps)
  have wdom: "fst ` set (write_references ctn) \<subseteq> dom (variables ctn)"
    unfolding dom by (auto simp: ctn_def part_ctn_simps containsVar_def)
  obtain S where S: "reg (solver vs) ?E S [] []" using ok True by (auto simp: default_ok_def)
  have bdd: "bdd_solvers vs = Map.empty \<or> models d (set (hards_of ?cs)) \<noteq> {}" "bdds_ok (set (hards_of ?cs)) (bdd_solvers vs)"
  proof -
    show "bdds_ok (set (hards_of ?cs)) (bdd_solvers vs)" using ok unfolding default_ok_def bdds_ok_def by blast
    have "bdd_solvers vs = Map.empty" if "bypass_constraint_analysis F"
      using ok that unfolding default_ok_def by (metis ext not_Some_eq)
    then show "bdd_solvers vs = Map.empty \<or> models d (set (hards_of ?cs)) \<noteq> {}"
      using ok True unfolding default_ok_def by blast
  qed
  obtain bdds v1 r1 where b1: "each (suggest_bdd F ctn) (write_references ctn) (bdd_solvers vs, solver vs, r) = Inr (bdds, v1, r1)"
    "bdds_ok (set (hards_of ?cs)) bdds" "bdd_solvers vs = Map.empty \<longrightarrow> bdds = Map.empty" and v1: "\<exists>G. reg v1 ?E S [] G"
    using suggest_bdds [OF ctn(1) wdom bdd, of "solver vs" ?E S "[]" r] S by blast
  have reads: "\<forall>(i, e)\<in>set (read_references ctn). read_ref_ok d i e" "\<forall>(i, e)\<in>set (dist_references ctn). dist_ref_ok d e"
    using ctn(1) by (auto simp: container_ok_def)
  let ?A = "map (\<lambda>(i, e). ref_node e m) (read_references ctn)"
  obtain v2 where v2: "each (assume_read_ref ?V m) (read_references ctn) (v1, r1) = Inr (v2, r1)" "\<exists>G. reg v2 ?E S ?A G"
    using v1 assume_reads [OF reads(1), of v1 ?E S "[]"] by fastforce
  obtain v3 r3 where v3: "each (suggest_dist ?V m) (dist_references ctn) (v2, r1) = Inr (v3, r3)" "\<exists>G. reg v3 ?E S ?A G"
    using suggest_dists [OF reads(2) v2(2)] by blast
  obtain refs r4 where refs: "(if random_write_refs vs = [] then ([], r3) else random_shuffle (fa_random_unsigned F) (random_write_refs vs) r3) = (refs, r4)"
    "set refs = set (random_write_refs vs)"
    by (rule shuffle_refs)
  have sub: "set (take ((length refs + 1) div 2) refs) \<subseteq> set (write_references ctn)"
    using refs(2) ok set_take_subset [of _ refs] by (fastforce simp: default_ok_def ctn_def)
  obtain v4 where v4: "each (suggest_random ?V ctn m) (take ((length refs + 1) div 2) refs) v3 = Inr v4" "\<exists>G. reg v4 ?E S ?A G"
    using suggest_randoms [OF ctn(1) wdom sub v3(2)] by blast
  obtain G where G: "reg v4 ?E S ?A G" using v4(2) by blast
  have N: "set ?E \<union> set ?A \<union> (if True then {} else set S) = N m" by (auto simp: N_def read_nodes_def)
  obtain b r5 v5 where v5: "vi_solve ?V True r4 v4 = Inr (b, r5, v5)" "reg v5 ?E S [] []"
    and sol: "if b then \<exists>\<rho>\<in>models d (N m). gives ?V v5 (?E @ S @ ?A @ G) \<rho> else models d (N m) = {}"
    using main.solve_gives [OF G, of True r4] unfolding N by blast
  let ?vs = "vs\<lparr>solver := v5, bdd_solvers := bdds, random_write_refs := refs\<rparr>"
  have ok': "default_ok F d reg breg vcon cp ?vs"
    using ok v5(2) b1(2,3) refs(2) True unfolding default_ok_def bdds_ok_def by (auto; metis option.distinct(1))
  have run: "default_solve F vs m r = rbind (if b then each (read_write_ref ?V v5 ctn) (write_references ctn) (m, r5) else Inr (m, r5))
      (\<lambda>(m, r). Inr (b, ?vs, m, r))"
    unfolding default_solve_def if_not_P [OF not_not [THEN iffD2, OF True]] Let_def ctn(2) b1(1) rbind_Inr prod.case
      v2(1) v3(1) refs(1) v4(1) v5(1) by (rule refl)
  show ?thesis
  proof (cases b)
    case False
    then show ?thesis using sol ok' run by (intro exI [of _ False] exI [of _ ?vs] exI [of _ m] exI [of _ r5]) simp
  next
    case True
    then obtain \<rho> where \<rho>: "\<rho> \<in> models d (N m)" "gives ?V v5 (?E @ S @ ?A @ G) \<rho>" using sol by auto
    have sub: "N m \<subseteq> set (?E @ S @ ?A @ G)" unfolding N [symmetric] by auto
    have ty: "typed d \<rho>" using \<rho>(1) by (simp add: models_def)
    have vars: "node_vars n \<subseteq> cp_support cp" if "n \<in> N m" for n
      using pttn_vars [OF cp vcon] that unfolding N_def ctn_def by blast
    obtain R m' r' where "each (read_write_ref ?V v5 ctn) (write_references ctn) (m, r5) = Inr (m', r')"
      "\<forall>n\<in>N m. node_vars n \<subseteq> R" "R \<subseteq> cp_support cp" "written R \<rho> (write_references ctn) m m'"
      "\<forall>i\<in>R. \<exists>n. variables ctn i = Some n \<and> vi_read ?V n v5 = Some (val_string (\<rho> i))"
      using write_solution [OF cp vcon ty \<rho>(2) sub vars, of m r5] unfolding ctn_def [symmetric] by blast
    moreover have "solver ?vs = v5" by simp
    ultimately show ?thesis using \<rho>(1) ok' run True
      by (intro exI [of _ True] exI [of _ ?vs] exI [of _ m'] exI [of _ r']) auto
  qed
qed

end

end
