(* ===== verification/CoverageCorrect.thy ===== *)
theory CoverageCorrect
  imports VarSolverCorrect
begin

text \<open>
  The coverage solver of a partition over any solver that keeps the contract of \<open>metaSMTVisitor\<close>: each
  solve hits a cover constraint that has not been hit, or none of them can be hit any more.
\<close>

definition coverage_ok ::
    "(nat \<Rightarrow> smt_sort) \<Rightarrow> ('v \<Rightarrow> node list \<Rightarrow> node list \<Rightarrow> node list \<Rightarrow> node list \<Rightarrow> bool) \<Rightarrow> ('m, 'r) container \<Rightarrow> partition \<Rightarrow>
     ('v, 'm, 'r) coverage_solver \<Rightarrow> bool" where
  "coverage_ok d reg vcon cp vs \<longleftrightarrow> constr_pttn vs = cp \<and> var_ctn vs = part_ctn vcon cp \<and>
     (\<exists>S. reg (solver vs) (hards_of (cp_constraints cp)) S [] [])"

text \<open>The cover constraints of a partition that are still to be hit.\<close>

definition uncovered :: "string set \<Rightarrow> constraint list \<Rightarrow> constraint list" where
  "uncovered X cs = filter (\<lambda>c. con_cover c \<and> con_name c \<notin> X) cs"

lemma each_if: "each (\<lambda>c v. if P c then Inr v else if Q c then f c v else Inr v) xs v = each f (filter (\<lambda>c. \<not> P c \<and> Q c) xs) v"
proof (induction xs arbitrary: v)
  case (Cons x xs)
  then show ?case by (cases "f x v") simp_all
qed simp

context good_factory
begin

lemma assert_all:
  assumes "reg v H S A G" and "list_all (\<lambda>c. constraint_sorted d (con_expr c)) cs"
  shows "\<exists>w. each (\<lambda>c. vi_makeAssertion (fa_default F) (con_expr c)) cs v = Inr w \<and> reg w (H @ map con_expr cs) S A G"
  using assms
proof (induction cs arbitrary: v H)
  case (Cons c cs)
  obtain w where w: "vi_makeAssertion (fa_default F) (con_expr c) v = Inr w" "reg w (H @ [con_expr c]) S A G"
    using main.assertion_law [OF Cons.prems(1), of "con_expr c"] Cons.prems(2) by auto
  then show ?case using Cons.IH [OF w(2)] Cons.prems(2) by simp
qed simp

lemma coverage_constructor:
  fixes vcon :: "('m, 'r) container"
  assumes cp: "pttn_ok d vcon cp" and vcon: "container_ok d vcon"
  shows "\<exists>vs. VariableCoverageSolver F vcon cp = Inr vs \<and> coverage_ok d reg vcon cp vs \<and> covered_set vs = {}"
proof -
  let ?hards = "filter (\<lambda>c. \<not> con_soft c \<and> \<not> con_cover c) (cp_constraints cp)"
  have vars: "cp_support cp \<subseteq> dom (variables vcon)" using cp by (simp add: pttn_ok_def)
  have "list_all (\<lambda>c. constraint_sorted d (con_expr c)) ?hards" using pttn_sorted [OF cp] by (simp add: list_all_iff)
  then obtain w where w: "each (\<lambda>c. vi_makeAssertion (fa_default F) (con_expr c)) ?hards (vi_new (fa_default F)) = Inr w"
    "reg w (hards_of (cp_constraints cp)) [] [] []"
    using assert_all [OF main.new_law] by (auto simp: hards_of_def)
  show ?thesis
    unfolding VariableCoverageSolver_def VariableSolver_eq [OF vcon vars] rbind_Inr each_if var_solver.simps w(1)
    using w(2) by (auto simp: coverage_ok_def var_solver.defs coverage_solver.defs)
qed

lemma assume_reads_reg:
  assumes "container_ok d ctn" and "reg v H S [] []"
  shows "\<exists>w. each (assume_read_ref (fa_default F) m) (read_references ctn) (v, r) = Inr (w, r) \<and>
    reg w H S (map (\<lambda>(i, e). ref_node e m) (read_references ctn)) []"
  using assume_reads [of "read_references ctn" v H S "[]" "[]" m r] assms by (auto simp: container_ok_def)

lemma coverage_loop_correct:
  fixes vcon :: "('m, 'r) container"
  assumes cp: "pttn_ok d vcon cp" and vcon: "container_ok d vcon" and ok: "coverage_ok d reg vcon cp vs"
    and cs: "set cs \<subseteq> set (cp_constraints cp)"
  defines "ctn \<equiv> part_ctn vcon cp"
  defines "N m c \<equiv> insert (con_expr c) (set (hards_of (cp_constraints cp)) \<union> read_nodes ctn m)"
  shows "\<exists>b vs' m' r'. coverage_loop (fa_default F) cs vs m r = Inr (b, vs', m', r') \<and> coverage_ok d reg vcon cp vs' \<and>
    (if b then \<exists>c\<in>set (uncovered (covered_set vs) cs). covered_set vs' = insert (con_name c) (covered_set vs) \<and>
         (\<exists>\<rho>\<in>models d (N m c). \<exists>R. (\<forall>n\<in>N m c. node_vars n \<subseteq> R) \<and> R \<subseteq> cp_support cp \<and> written R \<rho> (write_references ctn) m m')
     else m' = m \<and> covered_set vs' = covered_set vs \<and> (\<forall>c\<in>set (uncovered (covered_set vs) cs). models d (N m c) = {}))"
  using ok cs
proof (induction cs arbitrary: vs r)
  case Nil
  then show ?case
    by (intro exI [of _ False] exI [of _ vs] exI [of _ m] exI [of _ r]) (simp add: uncovered_def)
next
  case (Cons c cs)
  let ?V = "fa_default F" and ?H = "hards_of (cp_constraints cp)"
  have cs: "set cs \<subseteq> set (cp_constraints cp)" using Cons.prems(2) by simp
  show ?case
  proof (cases "con_cover c \<and> con_name c \<notin> covered_set vs")
    case False
    then have run: "coverage_loop ?V (c # cs) vs m r = coverage_loop ?V cs vs m r" by auto
    have "uncovered (covered_set vs) (c # cs) = uncovered (covered_set vs) cs" using False by (simp add: uncovered_def)
    then show ?thesis unfolding run by (simp only: Cons.IH [OF Cons.prems(1) cs])
  next
    case True
    then have unc: "uncovered (covered_set vs) (c # cs) = c # uncovered (covered_set vs) cs" by (simp add: uncovered_def)
    have ctn: "container_ok d ctn" "var_ctn vs = ctn" using part_ctn_ok [OF vcon] Cons.prems(1) by (simp_all add: ctn_def coverage_ok_def)
    obtain S where S: "reg (solver vs) ?H S [] []" using Cons.prems(1) by (auto simp: coverage_ok_def)
    let ?A = "map (\<lambda>(i, e). ref_node e m) (read_references ctn)"
    obtain v1 where v1: "each (assume_read_ref ?V m) (read_references ctn) (solver vs, r) = Inr (v1, r)" "reg v1 ?H S ?A []"
      using assume_reads_reg [OF ctn(1) S] by blast
    have c: "constraint_sorted d (con_expr c)" using pttn_sorted [OF cp] Cons.prems(2) by (simp add: list_all_iff)
    obtain v2 where v2: "vi_makeAssumption ?V (con_expr c) v1 = Inr v2" "reg v2 ?H S (?A @ [con_expr c]) []"
      using main.assumption_law [OF v1(2) c] by blast
    have N: "set ?H \<union> set (?A @ [con_expr c]) \<union> (if True then {} else set S) = N m c" by (auto simp: N_def read_nodes_def)
    obtain b r3 v3 where v3: "vi_solve ?V True r v2 = Inr (b, r3, v3)" "reg v3 ?H S [] []"
      "if b then \<exists>\<rho>\<in>models d (N m c). gives ?V v3 (?H @ S @ (?A @ [con_expr c]) @ []) \<rho> else models d (N m c) = {}"
      using main.solve_gives [OF v2(2), of True r] unfolding N by blast
    let ?vs = "vs\<lparr>solver := v3\<rparr>"
    have run: "coverage_loop ?V (c # cs) vs m r = (if b then
        rbind (each (read_write_ref ?V v3 ctn) (write_references ctn) (m, r3)) (\<lambda>(m, r).
          Inr (True, ?vs\<lparr>covered_set := insert (con_name c) (covered_set vs)\<rparr>, m, r))
        else coverage_loop ?V cs ?vs m r3)"
      using True v1(1) v2(1) v3(1) by (simp add: ctn(2))
    have ok3: "coverage_ok d reg vcon cp ?vs" using Cons.prems(1) v3(2) by (auto simp: coverage_ok_def)
    show ?thesis
    proof (cases b)
      case True
      then obtain \<rho> where \<rho>: "\<rho> \<in> models d (N m c)" "gives ?V v3 (?H @ S @ (?A @ [con_expr c]) @ []) \<rho>" using v3(3) by auto
      have sub: "N m c \<subseteq> set (?H @ S @ (?A @ [con_expr c]) @ [])" unfolding N [symmetric] by auto
      have ty: "typed d \<rho>" using \<rho>(1) by (simp add: models_def)
      have "node_vars n \<subseteq> cp_support cp" if "n \<in> N m c" for n
      proof (cases "n = con_expr c")
        case True
        then show ?thesis using cp Cons.prems(2) by (auto simp: pttn_ok_def partition_ok_def)
      next
        case False
        then have "n \<in> set (effective True d (cp_constraints cp)) \<union> read_nodes (part_ctn vcon cp) m"
          using that by (auto simp: N_def effective_def ctn_def)
        then show ?thesis by (rule pttn_vars [OF cp vcon])
      qed
      then obtain R m' r' where "each (read_write_ref ?V v3 ctn) (write_references ctn) (m, r3) = Inr (m', r')"
        "\<forall>n\<in>N m c. node_vars n \<subseteq> R" "R \<subseteq> cp_support cp" "written R \<rho> (write_references ctn) m m'"
        using write_solution [OF cp vcon ty \<rho>(2) sub, of m r3] unfolding ctn_def [symmetric] by blast
      moreover from this(1) have "coverage_loop ?V (c # cs) vs m r = Inr (True, ?vs\<lparr>covered_set := insert (con_name c) (covered_set vs)\<rparr>, m', r')"
        using True by (simp only: run if_True rbind_Inr prod.case)
      moreover have "coverage_ok d reg vcon cp (?vs\<lparr>covered_set := insert (con_name c) (covered_set vs)\<rparr>)"
        using ok3 by (simp add: coverage_ok_def)
      ultimately show ?thesis using \<rho>(1) unfolding unc
        by (intro exI [of _ True] exI [of _ "?vs\<lparr>covered_set := insert (con_name c) (covered_set vs)\<rparr>"] exI [of _ m'] exI [of _ r'])
          (simp, blast)
    next
      case False
      then have run': "coverage_loop ?V (c # cs) vs m r = coverage_loop ?V cs ?vs m r3" using run by simp
      have "models d (N m c) = {}" using v3(3) False by simp
      moreover have "covered_set ?vs = covered_set vs" by simp
      ultimately show ?thesis using Cons.IH [OF ok3 cs, of r3] unfolding run' unc
        by (elim exE conjE) (rule exI, rule exI, rule exI, rule exI, rule conjI, assumption, rule conjI, assumption, simp split: if_splits)
    qed
  qed
qed

end

end
