(* ===== verification/Replace.thy ===== *)
theory Replace
  imports Support "HOL-Library.Signed_Division"
begin

text \<open>
  \<open>ReplaceVisitor\<close>: the constraint on one element of a vector, made from the body of a \<open>foreach\<close>. The
  placeholder becomes the number of the element, and an access to the vector the variable of the element
  its subscript selects. Subscripts are computed beside the expression, in \<open>int\<close>.
\<close>

section \<open>Subscripts\<close>

text \<open>Overflow of \<open>int\<close> is undefined; numbers of other types are converted to 32 bits.\<close>

definition c_int :: "int \<Rightarrow> int result" where
  "c_int x = (if - (2 ^ 31) \<le> x \<and> x < 2 ^ 31 then Inr x else Inl UndefinedBehaviour)"

fun subscript_unop :: "unop \<Rightarrow> int \<Rightarrow> int result" where
  "subscript_unop NotOpr i = Inr (of_bool (i = 0))"
| "subscript_unop NegOpr i = c_int (- i)"
| "subscript_unop ComplementOpr i = Inr (NOT i)"
| "subscript_unop Unique i = Inl (RuntimeError ''Unique is not allowed in ReplaceVisitor.'')"

fun subscript_binop :: "binop \<Rightarrow> int \<Rightarrow> int \<Rightarrow> int result" where
  "subscript_binop AndOpr l r = Inr (and l r)"
| "subscript_binop OrOpr l r = Inr (or l r)"
| "subscript_binop LogicalAndOpr l r = Inr (of_bool (l \<noteq> 0 \<and> r \<noteq> 0))"
| "subscript_binop LogicalOrOpr l r = Inr (of_bool (l \<noteq> 0 \<or> r \<noteq> 0))"
| "subscript_binop XorOpr l r = Inr (xor l r)"
| "subscript_binop EqualOpr l r = Inr (of_bool (l = r))"
| "subscript_binop NotEqualOpr l r = Inr (of_bool (l \<noteq> r))"
| "subscript_binop LessOpr l r = Inr (of_bool (l < r))"
| "subscript_binop LessEqualOpr l r = Inr (of_bool (l \<le> r))"
| "subscript_binop GreaterOpr l r = Inr (of_bool (l > r))"
| "subscript_binop GreaterEqualOpr l r = Inr (of_bool (l \<ge> r))"
| "subscript_binop PlusOpr l r = c_int (l + r)"
| "subscript_binop MinusOpr l r = c_int (l - r)"
| "subscript_binop MultipliesOpr l r = c_int (l * r)"
| "subscript_binop DevideOpr l r = (if r = 0 then Inl UndefinedBehaviour else c_int (l sdiv r))"
| "subscript_binop ModuloOpr l r =
     (if r = 0 then Inl UndefinedBehaviour else rbind (c_int (l sdiv r)) (\<lambda>_. Inr (l smod r)))"
| "subscript_binop ShiftLeftOpr l r = (if l < 0 \<or> r < 0 \<or> 32 \<le> r then Inl UndefinedBehaviour else c_int (l * 2 ^ nat r))"
| "subscript_binop ShiftRightOpr l r = (if r < 0 \<or> 32 \<le> r then Inl UndefinedBehaviour else Inr (drop_bit (nat r) l))"
| "subscript_binop ForEach l r = Inr r"

section \<open>The visitor\<close>

record replace_visitor =
  vec_idx :: u32
  okay :: bool
  rv_result :: "node option"
  aux_stack :: "node list"
  subscript_stack :: "int list"
  rv_variables :: "node list"
  rv_terminals :: "nat \<rightharpoonup> node"

definition ReplaceVisitor :: "node list \<Rightarrow> replace_visitor" where
  "ReplaceVisitor vars = \<lparr>vec_idx = 0, okay = True, rv_result = None, aux_stack = [], subscript_stack = [],
     rv_variables = vars, rv_terminals = Map.empty\<rparr>"

definition setVecIdx :: "u32 \<Rightarrow> replace_visitor \<Rightarrow> replace_visitor" where
  "setVecIdx i v = v\<lparr>vec_idx := i\<rparr>"

definition rv_reset :: "replace_visitor \<Rightarrow> replace_visitor" where
  "rv_reset v = v\<lparr>rv_terminals := Map.empty, aux_stack := [], subscript_stack := [], rv_result := None, okay := True\<rparr>"

text \<open>A push to the stack of expressions is followed by \<open>updateResult\<close>.\<close>

definition rv_push :: "node \<Rightarrow> replace_visitor \<Rightarrow> replace_visitor" where
  "rv_push n v = v\<lparr>aux_stack := n # aux_stack v, rv_result := Some n\<rparr>"

definition push_subscript :: "int \<Rightarrow> replace_visitor \<Rightarrow> replace_visitor" where
  "push_subscript i v = v\<lparr>subscript_stack := i # subscript_stack v\<rparr>"

definition rv_terminal :: "nat \<Rightarrow> node \<Rightarrow> replace_visitor \<Rightarrow> replace_visitor" where
  "rv_terminal i n v =
     (case rv_terminals v i of
        Some t \<Rightarrow> rv_push t v
      | None \<Rightarrow> (rv_push n v)\<lparr>rv_terminals := (rv_terminals v)(i \<mapsto> n)\<rparr>)"

text \<open>\<open>top\<close> and \<open>pop\<close> of an empty stack of subscripts are undefined.\<close>

definition rv_unary :: "(node \<Rightarrow> node) \<Rightarrow> (int \<Rightarrow> int result) \<Rightarrow> replace_visitor \<Rightarrow> replace_visitor result" where
  "rv_unary f g v =
     rbind (pop (aux_stack v)) (\<lambda>(child, st).
     let v = rv_push (f child) (v\<lparr>aux_stack := st\<rparr>) in
     case subscript_stack v of
       [] \<Rightarrow> Inl UndefinedBehaviour
     | idx # sub \<Rightarrow> rbind (g idx) (\<lambda>i. Inr (push_subscript i (v\<lparr>subscript_stack := sub\<rparr>))))"

text \<open>\<open>visitInside\<close> and \<open>visitExtendExpr\<close> leave the subscript as it is.\<close>

definition rv_unary_keep :: "(node \<Rightarrow> node) \<Rightarrow> replace_visitor \<Rightarrow> replace_visitor result" where
  "rv_unary_keep f v = rbind (pop (aux_stack v)) (\<lambda>(child, st). Inr (rv_push (f child) (v\<lparr>aux_stack := st\<rparr>)))"

definition rv_binary :: "(node \<Rightarrow> node \<Rightarrow> node) \<Rightarrow> (int \<Rightarrow> int \<Rightarrow> int result) \<Rightarrow> replace_visitor \<Rightarrow> replace_visitor result" where
  "rv_binary f g v =
     rbind (pop2 (aux_stack v)) (\<lambda>(rhs, lhs, st).
     let v = rv_push (f lhs rhs) (v\<lparr>aux_stack := st\<rparr>) in
     rbind (pop2 (subscript_stack v)) (\<lambda>(r_val, l_val, sub).
     rbind (g l_val r_val) (\<lambda>i. Inr (push_subscript i (v\<lparr>subscript_stack := sub\<rparr>)))))"

definition rv_ternary :: "replace_visitor \<Rightarrow> replace_visitor result" where
  "rv_ternary v =
     rbind (pop3 (aux_stack v)) (\<lambda>(c, b, a, st).
     let v = rv_push (IfThenElse a b c) (v\<lparr>aux_stack := st\<rparr>) in
     rbind (pop3 (subscript_stack v)) (\<lambda>(c_val, b_val, a_val, sub).
       Inr (push_subscript (if a_val \<noteq> 0 then b_val else c_val) (v\<lparr>subscript_stack := sub\<rparr>))))"

text \<open>
  \<open>visitVectorAccess\<close>: the element takes the width and sign of the vector. The two \<open>static_cast\<close>s are
  undefined for other nodes; \<open>at\<close> throws \<open>std::out_of_range\<close>.
\<close>

definition rv_access :: "replace_visitor \<Rightarrow> replace_visitor result" where
  "rv_access v =
     rbind (pop2 (aux_stack v)) (\<lambda>(rhs, lhs, st).
     rbind (pop2 (subscript_stack v)) (\<lambda>(i, l_val, sub).
     let v = v\<lparr>aux_stack := st, subscript_stack := sub\<rparr> in
     rbind (if 0 \<le> i \<and> i < int (length (rv_variables v)) then
         (case (lhs, rv_variables v ! nat i) of
            (VectorExpr _ bits sg, VariableExpr j _ _) \<Rightarrow>
              Inr (rv_push (VariableExpr j bits sg) (v\<lparr>rv_variables := (rv_variables v)[nat i := VariableExpr j bits sg]\<rparr>))
          | _ \<Rightarrow> Inl UndefinedBehaviour)
       else if rv_variables v = [] then Inl (RuntimeError ''vector::_M_range_check'')
       else Inr (rv_push (rv_variables v ! 0) (v\<lparr>okay := False\<rparr>)))
       (\<lambda>v. Inr (push_subscript 0 v))))"

primrec rv_visit :: "node \<Rightarrow> replace_visitor \<Rightarrow> replace_visitor result" where
  "rv_visit (Placeholder i) v =
     Inr (push_subscript (sint (vec_idx v)) (rv_terminal i (ConstantExpr (Constant (ucast (vec_idx v)) placeholder_bitsize False)) v))"
| "rv_visit (VariableExpr i b s) v = Inr (push_subscript 0 (rv_terminal i (VariableExpr i b s) v))"
| "rv_visit (ConstantExpr c) v = Inr (push_subscript (sint (ucast (cvalue c) :: u32)) (rv_push (ConstantExpr c) v))"
| "rv_visit (VectorExpr i b s) v = Inr (push_subscript 0 (rv_terminal i (VectorExpr i b s) v))"
| "rv_visit (UnaryOperator u n) v =
     (if u = Unique then Inl (RuntimeError ''Unique is not allowed in ReplaceVisitor.'')
      else rbind (rv_visit n v) (rv_unary (UnaryOperator u) (subscript_unop u)))"
| "rv_visit (Inside n cs) v = rbind (rv_visit n v) (rv_unary_keep (\<lambda>x. Inside x cs))"
| "rv_visit (ExtendExpression n k) v = rbind (rv_visit n v) (rv_unary_keep (\<lambda>x. ExtendExpression x k))"
| "rv_visit (BinaryOperator f l r) v =
     (if f = ForEach then rv_visit r v
      else rbind (rv_visit l v) (\<lambda>v. rbind (rv_visit r v) (rv_binary (BinaryOperator f) (subscript_binop f))))"
| "rv_visit (VectorAccess l r) v = rbind (rv_visit l v) (\<lambda>v. rbind (rv_visit r v) rv_access)"
| "rv_visit (IfThenElse a b c) v =
     rbind (rv_visit a v) (\<lambda>v. rbind (rv_visit b v) (\<lambda>v. rbind (rv_visit c v) rv_ternary))"
| "rv_visit (Bitslice n r l) v = rbind (rv_visit n v) (rv_unary (\<lambda>x. Bitslice x r l) (\<lambda>idx. Inr (of_bool (idx = 0))))"

section \<open>Substitution\<close>

text \<open>
  The meaning of a subscript, over the integers: the number of the element, constants as \<open>int\<close>, and the
  operators of C++ on \<open>int\<close>, where an overflow, a division by zero and a shift out of range are undefined.
  Subscripts that mention variables, accesses, slices or \<open>inside\<close> have no meaning here.
\<close>

definition in_int :: "int \<Rightarrow> int option" where
  "in_int x = (if x \<in> {- 2147483648..2147483647} then Some x else None)"

fun index_unop :: "unop \<Rightarrow> int \<Rightarrow> int option" where
  "index_unop NotOpr i = Some (if i = 0 then 1 else 0)"
| "index_unop NegOpr i = in_int (0 - i)"
| "index_unop ComplementOpr i = Some (- i - 1)"
| "index_unop Unique i = None"

definition truncated_quotient :: "int \<Rightarrow> int \<Rightarrow> int" where
  "truncated_quotient l r = (if (l < 0) = (r < 0) then \<bar>l\<bar> div \<bar>r\<bar> else - (\<bar>l\<bar> div \<bar>r\<bar>))"

fun index_binop :: "binop \<Rightarrow> int \<Rightarrow> int \<Rightarrow> int option" where
  "index_binop AndOpr l r = Some (and l r)"
| "index_binop OrOpr l r = Some (or l r)"
| "index_binop LogicalAndOpr l r = Some (if l \<noteq> 0 \<and> r \<noteq> 0 then 1 else 0)"
| "index_binop LogicalOrOpr l r = Some (if l = 0 \<and> r = 0 then 0 else 1)"
| "index_binop XorOpr l r = Some (xor l r)"
| "index_binop EqualOpr l r = Some (if l = r then 1 else 0)"
| "index_binop NotEqualOpr l r = Some (if l = r then 0 else 1)"
| "index_binop LessOpr l r = Some (if l < r then 1 else 0)"
| "index_binop LessEqualOpr l r = Some (if l \<le> r then 1 else 0)"
| "index_binop GreaterOpr l r = Some (if r < l then 1 else 0)"
| "index_binop GreaterEqualOpr l r = Some (if r \<le> l then 1 else 0)"
| "index_binop PlusOpr l r = in_int (l + r)"
| "index_binop MinusOpr l r = in_int (l - r)"
| "index_binop MultipliesOpr l r = in_int (l * r)"
| "index_binop DevideOpr l r = (if r = 0 then None else in_int (truncated_quotient l r))"
| "index_binop ModuloOpr l r =
     (if r = 0 then None else map_option (\<lambda>q. l - q * r) (in_int (truncated_quotient l r)))"
| "index_binop ShiftLeftOpr l r = (if 0 \<le> l \<and> r \<in> {0..31} then in_int (l * 2 ^ nat r) else None)"
| "index_binop ShiftRightOpr l r = (if r \<in> {0..31} then Some (l div 2 ^ nat r) else None)"
| "index_binop ForEach l r = None"

text \<open>An unsigned number as \<open>int\<close>: its lower 32 bits in two's complement.\<close>

definition as_int :: "int \<Rightarrow> int" where
  "as_int x = (x + 2147483648) mod 4294967296 - 2147483648"

primrec index_val :: "u32 \<Rightarrow> node \<Rightarrow> int option" where
  "index_val k (Placeholder i) = Some (as_int (uint k))"
| "index_val k (VariableExpr i b s) = None"
| "index_val k (ConstantExpr c) = Some (as_int (uint (cvalue c)))"
| "index_val k (VectorExpr i b s) = None"
| "index_val k (UnaryOperator u n) = Option.bind (index_val k n) (index_unop u)"
| "index_val k (Inside n cs) = None"
| "index_val k (ExtendExpression n e) = index_val k n"
| "index_val k (BinaryOperator f l r) = Option.bind (index_val k l) (\<lambda>i. Option.bind (index_val k r) (index_binop f i))"
| "index_val k (VectorAccess l r) = None"
| "index_val k (IfThenElse a b c) =
     Option.bind (index_val k a) (\<lambda>i. Option.bind (index_val k b) (\<lambda>j. map_option (\<lambda>l. if i = 0 then l else j) (index_val k c)))"
| "index_val k (Bitslice n r l) = None"

text \<open>
  The replacement itself: the placeholder becomes the number of the element and an access the variable of
  the element its subscript means, with the type of the vector; no result when a subscript is out of
  range. \<open>ids\<close> are the variables of the elements.
\<close>

primrec subst_vec :: "u32 \<Rightarrow> nat list \<Rightarrow> node \<Rightarrow> node option" where
  "subst_vec k ids (Placeholder i) = Some (ConstantExpr (Constant (ucast k) placeholder_bitsize False))"
| "subst_vec k ids (VariableExpr i b s) = Some (VariableExpr i b s)"
| "subst_vec k ids (ConstantExpr c) = Some (ConstantExpr c)"
| "subst_vec k ids (VectorExpr i b s) = Some (VectorExpr i b s)"
| "subst_vec k ids (UnaryOperator u n) = map_option (UnaryOperator u) (subst_vec k ids n)"
| "subst_vec k ids (Inside n cs) = map_option (\<lambda>x. Inside x cs) (subst_vec k ids n)"
| "subst_vec k ids (ExtendExpression n e) = map_option (\<lambda>x. ExtendExpression x e) (subst_vec k ids n)"
| "subst_vec k ids (BinaryOperator f l r) =
     (if f = ForEach then subst_vec k ids r
      else Option.bind (subst_vec k ids l) (\<lambda>x. map_option (BinaryOperator f x) (subst_vec k ids r)))"
| "subst_vec k ids (VectorAccess l r) =
     (case (l, index_val k r) of
        (VectorExpr _ bits sg, Some i) \<Rightarrow> if 0 \<le> i \<and> i < int (length ids) then Some (VariableExpr (ids ! nat i) bits sg) else None
      | _ \<Rightarrow> None)"
| "subst_vec k ids (IfThenElse a b c) =
     Option.bind (subst_vec k ids a) (\<lambda>x. Option.bind (subst_vec k ids b) (\<lambda>y. map_option (IfThenElse x y) (subst_vec k ids c)))"
| "subst_vec k ids (Bitslice n r l) = map_option (\<lambda>x. Bitslice x r l) (subst_vec k ids n)"

section \<open>The computation beside the expression\<close>

text \<open>
  The visitor computes an \<open>int\<close> beside every node, not only beside subscripts; it decides when a visit
  fails. Outside subscripts its values have no meaning: variables and accesses count 0, a slice counts as
  its negation and \<open>inside\<close> as its operand.
\<close>

primrec beside :: "u32 \<Rightarrow> node \<Rightarrow> int result" where
  "beside k (Placeholder i) = Inr (sint k)"
| "beside k (VariableExpr i b s) = Inr 0"
| "beside k (ConstantExpr c) = Inr (sint (ucast (cvalue c) :: u32))"
| "beside k (VectorExpr i b s) = Inr 0"
| "beside k (UnaryOperator u n) =
     (if u = Unique then Inl (RuntimeError ''Unique is not allowed in ReplaceVisitor.'')
      else rbind (beside k n) (subscript_unop u))"
| "beside k (Inside n cs) = beside k n"
| "beside k (ExtendExpression n e) = beside k n"
| "beside k (BinaryOperator f l r) =
     (if f = ForEach then beside k r else rbind (beside k l) (\<lambda>i. rbind (beside k r) (subscript_binop f i)))"
| "beside k (VectorAccess l r) = rbind (beside k r) (\<lambda>i. Inr 0)"
| "beside k (IfThenElse a b c) =
     rbind (beside k a) (\<lambda>i. rbind (beside k b) (\<lambda>j. rbind (beside k c) (\<lambda>l. Inr (if i \<noteq> 0 then j else l))))"
| "beside k (Bitslice n r l) = rbind (beside k n) (\<lambda>i. Inr (of_bool (i = 0)))"

text \<open>Subscripts: the number of the element and constants, combined by operators.\<close>

primrec index_expr :: "node \<Rightarrow> bool" where
  "index_expr (Placeholder i) \<longleftrightarrow> True"
| "index_expr (VariableExpr i b s) \<longleftrightarrow> False"
| "index_expr (ConstantExpr c) \<longleftrightarrow> True"
| "index_expr (VectorExpr i b s) \<longleftrightarrow> False"
| "index_expr (UnaryOperator u n) \<longleftrightarrow> index_expr n"
| "index_expr (Inside n cs) \<longleftrightarrow> False"
| "index_expr (ExtendExpression n e) \<longleftrightarrow> index_expr n"
| "index_expr (BinaryOperator f l r) \<longleftrightarrow> f \<noteq> ForEach \<and> index_expr l \<and> index_expr r"
| "index_expr (VectorAccess l r) \<longleftrightarrow> False"
| "index_expr (IfThenElse a b c) \<longleftrightarrow> index_expr a \<and> index_expr b \<and> index_expr c"
| "index_expr (Bitslice n r l) \<longleftrightarrow> False"

text \<open>Each operator of the visitor is the operator of the subscripts, its errors the undefined cases.\<close>

fun ok_value :: "'a result \<Rightarrow> 'a option" where
  "ok_value (Inr x) = Some x"
| "ok_value (Inl e) = None"

lemma ok_value_rbind: "ok_value (rbind m f) = Option.bind (ok_value m) (\<lambda>x. ok_value (f x))"
  by (cases m) simp_all

lemma ok_value_c_int: "ok_value (c_int x) = in_int x"
  by (simp add: c_int_def in_int_def)

lemma truncated_sdiv: "l sdiv r = truncated_quotient l r"
  by (cases "l = 0"; cases "r = 0") (auto simp: truncated_quotient_def signed_divide_int_def sgn_if)

lemma truncated_smod: "l smod r = l - truncated_quotient l r * r"
  using sdiv_mult_smod_eq [of l r] by (simp add: truncated_sdiv)

lemma ok_value_unop: "ok_value (subscript_unop u i) = index_unop u i"
  by (cases u) (simp_all add: ok_value_c_int not_int_def)

lemma ok_value_binop: "f \<noteq> ForEach \<Longrightarrow> ok_value (subscript_binop f i j) = index_binop f i j"
  by (cases f)
    (auto simp: ok_value_c_int ok_value_rbind truncated_sdiv truncated_smod drop_bit_eq_div in_int_def)

lemma as_int_sint: "as_int (uint w) = sint (ucast w :: u32)"
proof -
  have "sint (ucast w :: u32) = signed_take_bit 31 (uint w)"
    by (simp add: sint_uint unsigned_ucast_eq signed_take_bit_take_bit)
  also have "\<dots> = as_int (uint w)"
    by (simp add: signed_take_bit_eq_take_bit_shift as_int_def take_bit_eq_mod)
  finally show ?thesis by simp
qed

lemma beside_index: "index_expr n \<Longrightarrow> ok_value (beside k n) = index_val k n"
proof (induction n)
  case (Placeholder i)
  show ?case using as_int_sint [of k] by simp
next
  case (UnaryOperator u n)
  then show ?case by (cases "u = Unique"; cases "index_val k n") (simp_all add: ok_value_rbind ok_value_unop)
next
  case (IfThenElse a b c)
  then show ?case
    by (cases "index_val k a"; cases "index_val k b"; cases "index_val k c") (simp_all add: ok_value_rbind)
qed (simp_all add: ok_value_rbind ok_value_binop as_int_sint)

section \<open>The visitor substitutes\<close>

text \<open>One step for both results: the expression and the number beside it.\<close>

definition subst1 :: "(node \<Rightarrow> node) \<Rightarrow> (int \<Rightarrow> int result) \<Rightarrow> (node option \<times> int) result \<Rightarrow> (node option \<times> int) result" where
  "subst1 f g m = rbind m (\<lambda>(x, i). rbind (g i) (\<lambda>i. Inr (map_option f x, i)))"

definition subst2 ::
    "(node \<Rightarrow> node \<Rightarrow> node) \<Rightarrow> (int \<Rightarrow> int \<Rightarrow> int result) \<Rightarrow> (node option \<times> int) result \<Rightarrow> (node option \<times> int) result \<Rightarrow> (node option \<times> int) result" where
  "subst2 f g m n = rbind m (\<lambda>(x, i). rbind n (\<lambda>(y, j). rbind (g i j) (\<lambda>i.
     Inr (Option.bind x (\<lambda>x. map_option (f x) y), i))))"

definition replaced :: "u32 \<Rightarrow> nat list \<Rightarrow> node \<Rightarrow> (node option \<times> int) result" where
  "replaced k ids n = rbind (beside k n) (\<lambda>i. Inr (subst_vec k ids n, i))"

lemma rbind_rbind: "rbind (rbind m f) g = rbind m (\<lambda>x. rbind (f x) g)"
  by (cases m) simp_all

lemma replaced_simps [simp]:
  "replaced k ids (Placeholder i) = Inr (Some (ConstantExpr (Constant (ucast k) placeholder_bitsize False)), sint k)"
  "replaced k ids (VariableExpr i b s) = Inr (Some (VariableExpr i b s), 0)"
  "replaced k ids (ConstantExpr c) = Inr (Some (ConstantExpr c), sint (ucast (cvalue c) :: u32))"
  "replaced k ids (VectorExpr i b s) = Inr (Some (VectorExpr i b s), 0)"
  "replaced k ids (UnaryOperator u n) =
     (if u = Unique then Inl (RuntimeError ''Unique is not allowed in ReplaceVisitor.'')
      else subst1 (UnaryOperator u) (subscript_unop u) (replaced k ids n))"
  "replaced k ids (Inside n cs) = subst1 (\<lambda>x. Inside x cs) Inr (replaced k ids n)"
  "replaced k ids (ExtendExpression n e) = subst1 (\<lambda>x. ExtendExpression x e) Inr (replaced k ids n)"
  "replaced k ids (BinaryOperator f l r) =
     (if f = ForEach then replaced k ids r
      else subst2 (BinaryOperator f) (subscript_binop f) (replaced k ids l) (replaced k ids r))"
  "replaced k ids (Bitslice n hi lo) = subst1 (\<lambda>x. Bitslice x hi lo) (\<lambda>i. Inr (of_bool (i = 0))) (replaced k ids n)"
  by (simp_all add: replaced_def subst1_def subst2_def rbind_rbind)

lemma replaced_IfThenElse:
  "replaced k ids (IfThenElse a b c) =
     rbind (replaced k ids a) (\<lambda>(x, i). rbind (replaced k ids b) (\<lambda>(y, j). rbind (replaced k ids c) (\<lambda>(z, l).
       Inr (Option.bind x (\<lambda>x. Option.bind y (\<lambda>y. map_option (IfThenElse x y) z)), if i \<noteq> 0 then j else l))))"
  by (simp add: replaced_def rbind_rbind)

lemma index_expr_subst: "index_expr n \<Longrightarrow> \<exists>m. subst_vec k ids n = Some m"
  by (induction n) auto

lemma replaced_VectorAccess:
  assumes "index_expr r"
  shows "replaced k ids (VectorAccess (VectorExpr i b s) r) =
    rbind (replaced k ids r) (\<lambda>(y, j). Inr (case y of Some _ \<Rightarrow>
        if 0 \<le> j \<and> j < int (length ids) then Some (VariableExpr (ids ! nat j) b s) else None | None \<Rightarrow> None, 0))"
proof -
  obtain m where "subst_vec k ids r = Some m" using index_expr_subst [OF assms] by blast
  with beside_index [OF assms, of k] show ?thesis
    by (cases "beside k r") (simp_all add: replaced_def eq_commute [of _ "index_val k r"])
qed

fun element_id :: "node \<Rightarrow> nat" where
  "element_id (VariableExpr i b s) = i"
| "element_id _ = 0"

text \<open>The elements are variables of the types \<open>T\<close>, pairs of a width and a sign.\<close>

definition elements_ok :: "(nat \<times> bool) set \<Rightarrow> node list \<Rightarrow> bool" where
  "elements_ok T els \<longleftrightarrow> (\<forall>n\<in>set els. \<exists>i b s. n = VariableExpr i b s \<and> (b, s) \<in> T)"

text \<open>
  \<open>body_ok T k G n\<close>: an identifier stands for one terminal, \<open>G\<close> of it, throughout throughout the body, and only vectors
  of the types \<open>T\<close> are accessed, at subscripts made of the number of the element and constants.
\<close>

primrec body_ok :: "(nat \<times> bool) set \<Rightarrow> u32 \<Rightarrow> (nat \<Rightarrow> node) \<Rightarrow> node \<Rightarrow> bool" where
  "body_ok T k G (Placeholder i) \<longleftrightarrow> G i = ConstantExpr (Constant (ucast k) placeholder_bitsize False)"
| "body_ok T k G (VariableExpr i b s) \<longleftrightarrow> G i = VariableExpr i b s"
| "body_ok T k G (ConstantExpr c) \<longleftrightarrow> True"
| "body_ok T k G (VectorExpr i b s) \<longleftrightarrow> G i = VectorExpr i b s"
| "body_ok T k G (UnaryOperator u n) \<longleftrightarrow> body_ok T k G n"
| "body_ok T k G (Inside n cs) \<longleftrightarrow> body_ok T k G n"
| "body_ok T k G (ExtendExpression n e) \<longleftrightarrow> body_ok T k G n"
| "body_ok T k G (BinaryOperator f l r) \<longleftrightarrow> (f = ForEach \<or> body_ok T k G l) \<and> body_ok T k G r"
| "body_ok T k G (VectorAccess l r) \<longleftrightarrow> (case l of VectorExpr i b s \<Rightarrow> G i = VectorExpr i b s \<and> (b, s) \<in> T | _ \<Rightarrow> False) \<and> index_expr r \<and> body_ok T k G r"
| "body_ok T k G (IfThenElse a b c) \<longleftrightarrow> body_ok T k G a \<and> body_ok T k G b \<and> body_ok T k G c"
| "body_ok T k G (Bitslice n r l) \<longleftrightarrow> body_ok T k G n"

definition rv_ok :: "(nat \<times> bool) set \<Rightarrow> u32 \<Rightarrow> (nat \<Rightarrow> node) \<Rightarrow> nat list \<Rightarrow> replace_visitor \<Rightarrow> bool" where
  "rv_ok T k G ids v \<longleftrightarrow> vec_idx v = k \<and> (\<forall>i t. rv_terminals v i = Some t \<longrightarrow> t = G i) \<and>
     rv_variables v \<noteq> [] \<and> elements_ok T (rv_variables v) \<and> map element_id (rv_variables v) = ids"

definition rv_yields :: "replace_visitor \<Rightarrow> node option \<times> int \<Rightarrow> replace_visitor \<Rightarrow> bool" where
  "rv_yields v = (\<lambda>(t, i) w. okay w = (okay v \<and> t \<noteq> None) \<and> subscript_stack w = i # subscript_stack v \<and>
     (\<exists>x. aux_stack w = x # aux_stack v \<and> rv_result w = Some x \<and> (t = None \<or> t = Some x)))"

text \<open>\<open>follows T k G ids v m n\<close>: the visitor's step \<open>m\<close> from \<open>v\<close> agrees with the substitution \<open>n\<close>.\<close>

definition follows :: "(nat \<times> bool) set \<Rightarrow> u32 \<Rightarrow> (nat \<Rightarrow> node) \<Rightarrow> nat list \<Rightarrow> replace_visitor \<Rightarrow> replace_visitor result \<Rightarrow> (node option \<times> int) result \<Rightarrow> bool" where
  "follows T k G ids v m n \<longleftrightarrow> (case n of Inl e \<Rightarrow> m = Inl e | Inr p \<Rightarrow> \<exists>w. m = Inr w \<and> rv_ok T k G ids w \<and> rv_yields v p w)"

lemma followsE:
  assumes "follows T k G ids v m n"
  obtains e where "n = Inl e" "m = Inl e"
  | t i w x where "n = Inr (t, i)" "m = Inr w" "rv_ok T k G ids w" "okay w = (okay v \<and> t \<noteq> None)"
      "subscript_stack w = i # subscript_stack v" "aux_stack w = x # aux_stack v" "t = None \<or> t = Some x"
proof (cases n)
  case (Inl e)
  then show thesis using assms that(1) by (simp add: follows_def)
next
  case (Inr p)
  obtain t i where "p = (t, i)" by fastforce
  with Inr assms obtain w where w: "n = Inr (t, i)" "m = Inr w" "rv_ok T k G ids w" "rv_yields v (t, i) w"
    by (auto simp: follows_def)
  then obtain x where "aux_stack w = x # aux_stack v" "t = None \<or> t = Some x" unfolding rv_yields_def by blast
  then show thesis using w by (intro that(2)) (simp_all add: rv_yields_def)
qed

lemma follows_InlI: "follows T k G ids v (Inl e) (Inl e)"
  by (simp add: follows_def)

lemma follows_InrI: "rv_ok T k G ids w \<Longrightarrow> rv_yields v p w \<Longrightarrow> follows T k G ids v (Inr w) (Inr p)"
  by (simp add: follows_def)

lemma rv_ok_updates [simp]:
  "rv_ok T k G ids (v\<lparr>aux_stack := st\<rparr>) = rv_ok T k G ids v" "rv_ok T k G ids (v\<lparr>subscript_stack := sub\<rparr>) = rv_ok T k G ids v"
  "rv_ok T k G ids (v\<lparr>okay := b\<rparr>) = rv_ok T k G ids v" "rv_ok T k G ids (rv_push n v) = rv_ok T k G ids v"
  "rv_ok T k G ids (push_subscript i v) = rv_ok T k G ids v"
  by (simp_all add: rv_ok_def rv_push_def push_subscript_def)

lemma rv_terminal_follows:
  assumes "rv_ok T k G ids v" and "G i = n"
  shows "follows T k G ids v (Inr (push_subscript j (rv_terminal i n v))) (Inr (Some n, j))"
proof (rule follows_InrI)
  show "rv_ok T k G ids (push_subscript j (rv_terminal i n v))"
    using assms by (auto simp: rv_terminal_def rv_ok_def rv_push_def push_subscript_def split: option.splits)
  show "rv_yields v (Some n, j) (push_subscript j (rv_terminal i n v))"
    using assms by (auto simp: rv_terminal_def rv_ok_def rv_push_def push_subscript_def rv_yields_def split: option.splits)
qed

lemma rv_unary_follows:
  assumes "follows T k G ids v m n"
  shows "follows T k G ids v (rbind m (rv_unary f g)) (subst1 f g n)"
  using assms
proof (cases rule: followsE)
  case (2 t i w x)
  then show ?thesis
    by (cases "g i") (auto simp: subst1_def rv_unary_def Let_def follows_def rv_yields_def rv_push_def push_subscript_def rv_ok_def)
qed (simp add: subst1_def follows_InlI)

lemma rv_unary_keep_follows:
  assumes "follows T k G ids v m n"
  shows "follows T k G ids v (rbind m (rv_unary_keep f)) (subst1 f Inr n)"
  using assms
proof (cases rule: followsE)
  case (2 t i w x)
  then show ?thesis
    by (auto simp: subst1_def rv_unary_keep_def follows_def rv_yields_def rv_push_def rv_ok_def)
qed (simp add: subst1_def follows_InlI)

lemma rv_binary_follows:
  assumes "follows T k G ids v m1 n1" and "\<And>w. rv_ok T k G ids w \<Longrightarrow> follows T k G ids w (m2 w) n2"
  shows "follows T k G ids v (rbind m1 (\<lambda>w. rbind (m2 w) (rv_binary f g))) (subst2 f g n1 n2)"
  using assms(1)
proof (cases rule: followsE)
  case 1: (2 t i w x)
  show ?thesis using assms(2) [OF 1(3)]
  proof (cases rule: followsE)
    case 2: (2 s j u y)
    show ?thesis using 1 2
      by (cases "g i j")
        (auto simp: subst2_def rv_binary_def Let_def follows_def rv_yields_def rv_push_def push_subscript_def rv_ok_def)
  qed (use 1 in \<open>simp add: subst2_def follows_InlI\<close>)
qed (simp add: subst2_def follows_InlI)

lemma rv_ternary_follows:
  assumes "follows T k G ids v m1 n1" and "\<And>w. rv_ok T k G ids w \<Longrightarrow> follows T k G ids w (m2 w) n2"
    and "\<And>w. rv_ok T k G ids w \<Longrightarrow> follows T k G ids w (m3 w) n3"
  shows "follows T k G ids v (rbind m1 (\<lambda>w. rbind (m2 w) (\<lambda>w. rbind (m3 w) rv_ternary)))
    (rbind n1 (\<lambda>(x, i). rbind n2 (\<lambda>(y, j). rbind n3 (\<lambda>(z, l).
       Inr (Option.bind x (\<lambda>x. Option.bind y (\<lambda>y. map_option (IfThenElse x y) z)), if i \<noteq> 0 then j else l)))))"
  using assms(1)
proof (cases rule: followsE)
  case 1: (2 t i w x)
  show ?thesis using assms(2) [OF 1(3)]
  proof (cases rule: followsE)
    case 2: (2 s j u y)
    show ?thesis using assms(3) [OF 2(3)]
    proof (cases rule: followsE)
      case 3: (2 r l q z)
      let ?q = "push_subscript (if i \<noteq> 0 then j else l) (rv_push (IfThenElse x y z) (q\<lparr>aux_stack := aux_stack v\<rparr>)\<lparr>subscript_stack := subscript_stack v\<rparr>)"
      have run: "rv_ternary q = Inr ?q" using 1 2 3 by (simp add: rv_ternary_def Let_def rv_push_def)
      have "rv_yields v (Option.bind t (\<lambda>x. Option.bind s (\<lambda>y. map_option (IfThenElse x y) r)), if i \<noteq> 0 then j else l) ?q"
        using 1(4-) 2(4-) 3(4-) by (cases t; cases s; cases r) (simp_all add: rv_yields_def rv_push_def push_subscript_def)
      then show ?thesis using 1(1,2) 2(1,2) 3(1-3) run by (auto intro!: follows_InrI)
    qed (use 1 2 in \<open>simp add: follows_InlI\<close>)
  qed (use 1 in \<open>simp add: follows_InlI\<close>)
qed (simp add: follows_InlI)

lemma rv_access_follows:
  assumes v: "rv_ok T k G ids v" and G: "G i = VectorExpr i b s" "(b, s) \<in> T" and m: "\<And>w. rv_ok T k G ids w \<Longrightarrow> follows T k G ids w (m w) n"
  shows "follows T k G ids v (rbind (Inr (push_subscript 0 (rv_terminal i (VectorExpr i b s) v))) (\<lambda>w. rbind (m w) rv_access))
    (rbind n (\<lambda>(y, j). Inr (case y of Some _ \<Rightarrow>
        if 0 \<le> j \<and> j < int (length ids) then Some (VariableExpr (ids ! nat j) b s) else None | None \<Rightarrow> None, 0)))"
proof -
  let ?w = "push_subscript 0 (rv_terminal i (VectorExpr i b s) v)"
  have w: "rv_ok T k G ids ?w" "rv_yields v (Some (VectorExpr i b s), 0) ?w"
    using rv_terminal_follows [OF v G(1)] by (simp_all add: follows_def)
  show ?thesis using m [OF w(1)]
  proof (cases rule: followsE)
    case 2: (2 t j u y)
    have st: "aux_stack u = y # VectorExpr i b s # aux_stack v" "subscript_stack u = j # 0 # subscript_stack v" "okay u = (okay v \<and> t \<noteq> None)"
      using 2 w(2) by (simp_all add: rv_yields_def)
    have u: "vec_idx u = k" "\<forall>i t. rv_terminals u i = Some t \<longrightarrow> t = G i" "rv_variables u \<noteq> []" "elements_ok T (rv_variables u)"
      "map element_id (rv_variables u) = ids"
      using 2(3) by (simp_all add: rv_ok_def)
    then have len: "length ids = length (rv_variables u)" by auto
    show ?thesis
    proof (cases "0 \<le> j \<and> j < int (length ids)")
      case True
      then have j: "nat j < length (rv_variables u)" using len by linarith
      then obtain e b' s' where e: "rv_variables u ! nat j = VariableExpr e b' s'" using u(4) nth_mem unfolding elements_ok_def by blast
      then have id: "ids ! nat j = e" using u(5) j by (metis element_id.simps(1) nth_map)
      let ?els = "(rv_variables u)[nat j := VariableExpr e b s]"
      have "n \<in> insert (VariableExpr e b s) (set (rv_variables u))" if "n \<in> set ?els" for n
        using that set_update_subset_insert by fast
      then have "elements_ok T ?els" using u(4) G(2) unfolding elements_ok_def by blast
      moreover have "map element_id ?els = ids" using u(5) id by (metis element_id.simps(1) list_update_id map_update)
      moreover define q where "q = push_subscript 0 (rv_push (VariableExpr e b s)
        (u\<lparr>aux_stack := aux_stack v, subscript_stack := subscript_stack v, rv_variables := ?els\<rparr>))"
      ultimately have "rv_ok T k G ids q" using u by (simp add: rv_ok_def rv_push_def push_subscript_def)
      moreover have "rv_access u = Inr q"
        unfolding rv_access_def st rbind_Inr prod.case pop2.simps Let_def
        using True e len by (simp add: q_def)
      moreover have "rv_yields v (map_option (\<lambda>_. VariableExpr e b s) t, 0) q"
        using st(3) by (cases t) (simp_all add: rv_yields_def q_def rv_push_def push_subscript_def)
      moreover have "(case t of Some _ \<Rightarrow> if 0 \<le> j \<and> j < int (length ids) then Some (VariableExpr (ids ! nat j) b s) else None
          | None \<Rightarrow> None) = map_option (\<lambda>_. VariableExpr e b s) t"
        using True id by (simp split: option.splits)
      ultimately show ?thesis unfolding 2(1,2) rbind_Inr prod.case by (simp add: follows_InrI)
    next
      case False
      define q where "q = push_subscript 0 (rv_push (rv_variables u ! 0)
        (u\<lparr>aux_stack := aux_stack v, subscript_stack := subscript_stack v, okay := False\<rparr>))"
      have "rv_ok T k G ids q" using 2(3) by (simp add: q_def)
      moreover have "rv_access u = Inr q"
        unfolding rv_access_def st rbind_Inr prod.case pop2.simps Let_def
        using False u(3) by (auto simp: q_def len)
      moreover have "rv_yields v (None, 0) q" by (simp add: rv_yields_def q_def rv_push_def push_subscript_def)
      moreover have "(case t of Some _ \<Rightarrow> if 0 \<le> j \<and> j < int (length ids) then Some (VariableExpr (ids ! nat j) b s) else None
          | None \<Rightarrow> None) = None"
        using False by (simp split: option.splits)
      ultimately show ?thesis unfolding 2(1,2) rbind_Inr prod.case by (simp add: follows_InrI)
    qed
  qed (simp add: follows_InlI)
qed

lemma rv_visit_follows: "rv_ok T k G ids v \<Longrightarrow> body_ok T k G n \<Longrightarrow> follows T k G ids v (rv_visit n v) (replaced k ids n)"
proof (induction n arbitrary: v)
  case (Placeholder i)
  moreover from this have "vec_idx v = k" by (simp add: rv_ok_def)
  ultimately show ?case by (simp add: rv_terminal_follows)
next
  case (ConstantExpr c)
  then show ?case by (simp add: follows_def rv_yields_def rv_push_def push_subscript_def rv_ok_def)
next
  case (UnaryOperator u n)
  then show ?case by (simp add: follows_InlI rv_unary_follows)
next
  case (BinaryOperator f l r)
  then show ?case by (cases "f = ForEach") (simp_all add: rv_binary_follows)
next
  case (VectorAccess l r)
  obtain i b s where l: "l = VectorExpr i b s" "G i = VectorExpr i b s" "(b, s) \<in> T" using VectorAccess.prems(2) by (cases l) auto
  show ?case
    using rv_access_follows [OF VectorAccess.prems(1) l(2,3), of "rv_visit r" "replaced k ids r"] VectorAccess.IH(2) VectorAccess.prems(2)
    by (simp add: l(1) replaced_VectorAccess)
next
  case (IfThenElse a b c)
  then show ?case unfolding rv_visit.simps replaced_IfThenElse by (intro rv_ternary_follows) simp_all
qed (simp_all add: rv_terminal_follows rv_unary_follows rv_unary_keep_follows)

text \<open>C17: the replacement of a vector constraint is the substitution. For a body whose subscripts are made
  of the number of the element and constants (no variables, slices, \<open>inside\<close> or accesses in them) and in which
  an identifier stands for one terminal, over a nonempty list of elements that are variables, a fresh visitor fails exactly when an operator of the number computed beside the body is undefined, variables
  counting 0; otherwise it is okay exactly when every subscript lies in the vector, and then its result is
  the body with the placeholder replaced by the number and every access by the element its subscript means
  over the integers.\<close>

theorem replace_substitutes:
  assumes "body_ok T k G n" and "elements_ok T els" and "els \<noteq> []"
  shows "case beside k n of
      Inl e \<Rightarrow> rv_visit n (setVecIdx k (ReplaceVisitor els)) = Inl e
    | Inr i \<Rightarrow> \<exists>w. rv_visit n (setVecIdx k (ReplaceVisitor els)) = Inr w \<and>
        okay w = (subst_vec k (map element_id els) n \<noteq> None) \<and> (okay w \<longrightarrow> rv_result w = subst_vec k (map element_id els) n) \<and>
        elements_ok T (rv_variables w) \<and> map element_id (rv_variables w) = map element_id els"
proof -
  have ok: "rv_ok T k G (map element_id els) (setVecIdx k (ReplaceVisitor els))"
    using assms by (simp add: rv_ok_def setVecIdx_def ReplaceVisitor_def)
  note run = rv_visit_follows [OF ok assms(1)]
  show ?thesis
  proof (cases "beside k n")
    case (Inl e)
    then show ?thesis using run by (simp add: follows_def replaced_def)
  next
    case (Inr i)
    with run obtain w where "rv_visit n (setVecIdx k (ReplaceVisitor els)) = Inr w" "rv_ok T k G (map element_id els) w"
      "rv_yields (setVecIdx k (ReplaceVisitor els)) (subst_vec k (map element_id els) n, i) w"
      by (auto simp: follows_def replaced_def)
    then show ?thesis using Inr by (auto simp: rv_ok_def rv_yields_def setVecIdx_def ReplaceVisitor_def)
  qed
qed

text \<open>\<open>v[_i] < v[_i + 1]\<close> on a vector of three elements.\<close>

definition demo_rising :: node where
  "demo_rising = BinaryOperator LessOpr (VectorAccess (VectorExpr 1 8 False) (Placeholder 2))
     (VectorAccess (VectorExpr 1 8 False) (BinaryOperator PlusOpr (Placeholder 2) (ConstantExpr (Constant 1 32 True))))"

definition demo_elements :: "node list" where
  "demo_elements = map (\<lambda>i. VariableExpr i 1 True) [7, 8, 9]"

theorem replace_substitutes_witness:
  "(\<exists>w. rv_visit demo_rising (setVecIdx 1 (ReplaceVisitor demo_elements)) = Inr w \<and>
     okay w \<and> rv_result w = Some (BinaryOperator LessOpr (VariableExpr 8 8 False) (VariableExpr 9 8 False))) \<and>
   (\<exists>w. rv_visit demo_rising (setVecIdx 2 (ReplaceVisitor demo_elements)) = Inr w \<and> \<not> okay w)"
proof -
  have body: "body_ok UNIV k (\<lambda>i. if i = 1 then VectorExpr 1 8 False else ConstantExpr (Constant (ucast k) placeholder_bitsize False)) demo_rising" for k
    by (simp add: demo_rising_def)
  have els: "elements_ok UNIV demo_elements" "demo_elements \<noteq> []" by (auto simp: demo_elements_def elements_ok_def)
  have "subst_vec 1 (map element_id demo_elements) demo_rising =
      Some (BinaryOperator LessOpr (VariableExpr 8 8 False) (VariableExpr 9 8 False))"
    "subst_vec 2 (map element_id demo_elements) demo_rising = None" "is_ok (beside 1 demo_rising)" "is_ok (beside 2 demo_rising)"
    by (simp_all add: demo_rising_def demo_elements_def c_int_def as_int_def in_int_def)
  with replace_substitutes [OF body els, of 1] replace_substitutes [OF body els, of 2] show ?thesis
    by (auto elim!: is_okE)
qed

end
