(* ===== verification/Vectors.thy ===== *)
theory Vectors
  imports VarSolver Replace
begin

text \<open>
  Random vectors: \<open>VectorSolver\<close> and \<open>VectorGenerator\<close>, and what they use of the vectors of the program
  (\<open>__rand_vec_base\<close>). The sizes of vectors are scalar variables, solved before the vectors are.
\<close>

section \<open>Vectors of the program\<close>

text \<open>\<open>vectorBaseMap\<close> maps identifiers to the vectors; their virtual functions act on the memory of the program.\<close>

record ('m, 'r) rand_vec =
  size_var :: nat
  vec_set_values :: "string list \<Rightarrow> 'm \<Rightarrow> 'r \<Rightarrow> 'm \<times> 'r"
  gen_values :: "nat \<Rightarrow> 'm \<Rightarrow> 'r \<Rightarrow> 'm \<times> 'r"

type_synonym ('m, 'r) vector_base_map = "nat \<rightharpoonup> ('m, 'r) rand_vec"

text \<open>\<open>__rand_vec_base1\<close>: \<open>get\<close> and \<open>put\<close> access \<open>real_vec\<close>, \<open>next\<close> draws a value of the static \<open>randv\<close>.\<close>

fun assign_all :: "('r \<Rightarrow> bool \<times> 'r) option \<Rightarrow> bool \<Rightarrow> string list \<Rightarrow> 'a::len word list \<Rightarrow> 'r \<Rightarrow> 'a word list \<times> 'r" where
  "assign_all rnd sg [] real_vec r = (real_vec, r)"
| "assign_all rnd sg (s # ss) real_vec r = (let (tmp, r) = set_value rnd sg s r in assign_all rnd sg ss (real_vec @ [tmp]) r)"

fun draw_all :: "('r \<Rightarrow> 'a \<times> 'r) \<Rightarrow> nat \<Rightarrow> 'a list \<Rightarrow> 'r \<Rightarrow> 'a list \<times> 'r" where
  "draw_all next 0 real_vec r = (real_vec, r)"
| "draw_all next (Suc n) real_vec r = (let (x, r) = next r in draw_all next n (real_vec @ [x]) r)"

definition rand_vec_base1 ::
    "('r \<Rightarrow> bool \<times> 'r) option \<Rightarrow> bool \<Rightarrow> ('r \<Rightarrow> 'a::len word \<times> 'r) \<Rightarrow> nat \<Rightarrow> ('a word list \<Rightarrow> 'm \<Rightarrow> 'm) \<Rightarrow> ('m, 'r) rand_vec" where
  "rand_vec_base1 rnd sg next i put =
     \<lparr>size_var = i,
      vec_set_values = \<lambda>values m r. let (xs, r) = assign_all rnd sg values [] r in (put xs m, r),
      gen_values = \<lambda>num m r. let (xs, r) = draw_all next num [] r in (put xs m, r)\<rparr>"

definition default_rand_vec_size :: u32 where
  "default_rand_vec_size = 5"

section \<open>Solving one vector\<close>

record 'v vector_solver =
  vs_constraints :: "constraint list"
  vs_vector_id :: nat
  vs_solver :: 'v
  vec_elements :: "node list"

definition VectorSolver :: "('v, 'r) visitor \<Rightarrow> nat \<Rightarrow> 'v vector_solver" where
  "VectorSolver V i = \<lparr>vs_constraints = [], vs_vector_id = i, vs_solver = vi_new V, vec_elements = []\<rparr>"

definition vs_addConstraint :: "constraint \<Rightarrow> 'v vector_solver \<Rightarrow> 'v vector_solver" where
  "vs_addConstraint c vs = vs\<lparr>vs_constraints := vs_constraints vs @ [c]\<rparr>"

text \<open>\<open>VariableGenerator::read\<close>: the first solver with the variable.\<close>

fun vg_read :: "('v, 'r) visitor \<Rightarrow> nat \<Rightarrow> ('n, 'r) assign_result \<Rightarrow> ('v, 'm, 'r, 'z) var_solver_scheme list \<Rightarrow> 'n \<Rightarrow> 'r \<Rightarrow> bool \<times> 'n \<times> 'r" where
  "vg_read V i ar [] n r = (False, n, r)"
| "vg_read V i ar (vs # vss) n r =
     (let (known, n, r) = vs_read V i ar vs n r in if known then (True, n, r) else vg_read V i ar vss n r)"

text \<open>The local variable \<open>size\<close>, an \<open>unsigned int\<close>.\<close>

definition read_size :: "('v, 'w, 'r) factory \<Rightarrow> ('v, 'm, 'r, 'z) var_solver_scheme list \<Rightarrow> nat \<Rightarrow> 'r \<Rightarrow> u32 \<times> 'r" where
  "read_size F var_gen i r =
     snd (vg_read (fa_default F) i (AssignResultToRef (fa_random_bit F) False id (\<lambda>v _. v)) var_gen default_rand_vec_size r)"

definition assert_vector :: "('v, 'r) visitor \<Rightarrow> constraint \<Rightarrow> node \<Rightarrow> 'v \<Rightarrow> 'v result" where
  "assert_vector V c n v = (if con_soft c then vi_makeSoftAssertion V n v else vi_makeAssertion V n v)"

definition foreach_step :: "('v, 'r) visitor \<Rightarrow> constraint \<Rightarrow> nat \<Rightarrow> 'v \<times> replace_visitor \<Rightarrow> ('v \<times> replace_visitor) result" where
  "foreach_step V c i = (\<lambda>(v, replacer).
     rbind (rv_visit (con_expr c) (setVecIdx (of_nat i) replacer)) (\<lambda>replacer.
     rbind (if okay replacer then
         (case rv_result replacer of Some n \<Rightarrow> assert_vector V c n v | None \<Rightarrow> Inl UndefinedBehaviour)
       else Inr v) (\<lambda>v.
       Inr (v, rv_reset replacer))))"

definition pairs :: "nat \<Rightarrow> (nat \<times> nat) list" where
  "pairs n = concat (map (\<lambda>i. map (\<lambda>j. (i, j)) [i + 1..<n]) [0..<n])"

definition unique_step :: "('v, 'r) visitor \<Rightarrow> constraint \<Rightarrow> node list \<Rightarrow> nat \<times> nat \<Rightarrow> 'v \<Rightarrow> 'v result" where
  "unique_step V c els = (\<lambda>(i, j). assert_vector V c (BinaryOperator NotEqualOpr (els ! i) (els ! j)))"

text \<open>A vector constraint is \<open>unique\<close> or a \<open>foreach\<close>.\<close>

definition isUnique :: "constraint \<Rightarrow> bool" where
  "isUnique c \<longleftrightarrow> con_vector c = Some True"

definition build_constraint :: "('v, 'r) visitor \<Rightarrow> nat \<Rightarrow> constraint \<Rightarrow> 'v \<times> node list \<Rightarrow> ('v \<times> node list) result" where
  "build_constraint V sz c = (\<lambda>(v, els).
     if \<not> isUnique c then
       rbind (each (foreach_step V c) [0..<sz] (v, ReplaceVisitor els)) (\<lambda>(v, replacer). Inr (v, rv_variables replacer))
     else rbind (each (unique_step V c els) (pairs (length els)) v) (\<lambda>v. Inr (v, els)))"

text \<open>\<open>ids\<close> is the identifier \<open>new_var_id\<close> returns next.\<close>

definition resize_elements :: "nat \<Rightarrow> node list \<Rightarrow> nat \<Rightarrow> node list \<times> nat" where
  "resize_elements sz els ids =
     (if length els \<noteq> sz
      then (take sz els @ map (\<lambda>k. VariableExpr (ids + k) 1 True) [0..<sz - length els], ids + (sz - length els))
      else (els, ids))"

definition buildSolver :: "('v, 'r) visitor \<Rightarrow> nat \<Rightarrow> 'v vector_solver \<Rightarrow> nat \<Rightarrow> ('v vector_solver \<times> nat) result" where
  "buildSolver V sz vs ids =
     (let (els, ids) = resize_elements sz (vec_elements vs) ids
      in rbind (each (build_constraint V sz) (vs_constraints vs) (vs_solver vs, els)) (\<lambda>(v, els).
           Inr (vs\<lparr>vs_solver := v, vec_elements := els\<rparr>, ids)))"

definition resetSolver :: "('v, 'r) visitor \<Rightarrow> nat \<Rightarrow> 'v vector_solver \<Rightarrow> nat \<Rightarrow> ('v vector_solver \<times> nat) result" where
  "resetSolver V sz vs ids = buildSolver V sz (vs\<lparr>vs_solver := vi_new V\<rparr>) ids"

text \<open>\<open>solve(false) || solve(true)\<close>.\<close>

definition solve_softs_first :: "('v, 'r) visitor \<Rightarrow> 'r \<Rightarrow> 'v \<Rightarrow> (bool \<times> 'r \<times> 'v) result" where
  "solve_softs_first V r v =
     rbind (vi_solve V False r v) (\<lambda>(b, r, v). if b then Inr (True, r, v) else vi_solve V True r v)"

text \<open>\<open>vectorBaseMap[id]\<close> makes a null pointer of an identifier that is not there.\<close>

definition vector_of :: "('m, 'r) vector_base_map \<Rightarrow> nat \<Rightarrow> ('m, 'r) rand_vec result" where
  "vector_of vbm i = (case vbm i of None \<Rightarrow> Inl UndefinedBehaviour | Some rv \<Rightarrow> Inr rv)"

definition vector_solve ::
    "('v, 'w, 'r) factory \<Rightarrow> ('m, 'r) vector_base_map \<Rightarrow> ('v, 'm, 'r, 'z) var_solver_scheme list \<Rightarrow> 'v vector_solver \<Rightarrow> nat \<times> 'm \<times> 'r \<Rightarrow>
     (bool \<times> 'v vector_solver \<times> nat \<times> 'm \<times> 'r) result" where
  "vector_solve F vbm var_gen vs = (\<lambda>(ids, m, r).
     rbind (vector_of vbm (vs_vector_id vs)) (\<lambda>vector.
     let (sz, r) = read_size F var_gen (size_var vector) r in
     rbind (resetSolver (fa_default F) (unat sz) vs ids) (\<lambda>(vs, ids).
     rbind (solve_softs_first (fa_default F) r (vs_solver vs)) (\<lambda>(b, r, v).
     let (m, r) = (if b then
           (case vi_readVector (fa_default F) (vec_elements vs) v of
              Some strs \<Rightarrow> vec_set_values vector strs m r | None \<Rightarrow> (m, r))
         else (m, r))
     in Inr (b, vs\<lparr>vs_solver := v\<rparr>, ids, m, r)))))"

section \<open>The generator of vectors\<close>

text \<open>A \<open>std::map\<close> from identifiers to solvers, in the order of its iteration.\<close>

type_synonym 'v vector_generator = "(nat \<times> 'v vector_solver) list"

fun add_to_solvers :: "('v, 'r) visitor \<Rightarrow> nat \<Rightarrow> constraint \<Rightarrow> 'v vector_generator \<Rightarrow> 'v vector_generator" where
  "add_to_solvers V i c [] = [(i, vs_addConstraint c (VectorSolver V i))]"
| "add_to_solvers V i c ((j, vs) # vss) =
     (if j < i then (j, vs) # add_to_solvers V i c vss
      else if i = j then (j, vs_addConstraint c vs) # vss
      else (i, vs_addConstraint c (VectorSolver V i)) # (j, vs) # vss)"

definition vg_addConstraint :: "('v, 'r) visitor \<Rightarrow> constraint \<Rightarrow> 'v vector_generator \<Rightarrow> 'v vector_generator result" where
  "vg_addConstraint V c vg = rbind (getVectorId c) (\<lambda>i. Inr (add_to_solvers V i c vg))"

definition vg_reset :: "('v, 'r) visitor \<Rightarrow> constraint list \<Rightarrow> 'v vector_generator result" where
  "vg_reset V cs = each (vg_addConstraint V) cs []"

fun solve_vectors ::
    "('v, 'w, 'r) factory \<Rightarrow> ('m, 'r) vector_base_map \<Rightarrow> ('v, 'm, 'r, 'z) var_solver_scheme list \<Rightarrow> 'v vector_generator \<Rightarrow> nat \<times> 'm \<times> 'r \<Rightarrow>
     (bool \<times> 'v vector_generator \<times> nat \<times> 'm \<times> 'r) result" where
  "solve_vectors F vbm var_gen [] s = Inr (True, [], s)"
| "solve_vectors F vbm var_gen ((i, vs) # vg) s =
     rbind (vector_solve F vbm var_gen vs s) (\<lambda>(b, vs, s).
       if \<not> b then Inr (False, (i, vs) # vg, s)
       else rbind (solve_vectors F vbm var_gen vg s) (\<lambda>(b, vg, s). Inr (b, (i, vs) # vg, s)))"

definition gen_vector ::
    "('v, 'w, 'r) factory \<Rightarrow> ('m, 'r) vector_base_map \<Rightarrow> ('v, 'm, 'r, 'z) var_solver_scheme list \<Rightarrow> 'v vector_generator \<Rightarrow> nat \<Rightarrow> 'm \<times> 'r \<Rightarrow> ('m \<times> 'r) result" where
  "gen_vector F vbm var_gen vg i = (\<lambda>(m, r).
     if i \<in> fst ` set vg then Inr (m, r)
     else rbind (vector_of vbm i) (\<lambda>vector.
       let (sz, r) = read_size F var_gen (size_var vector) r in Inr (gen_values vector (unat sz) m r)))"

definition vg_solve ::
    "('v, 'w, 'r) factory \<Rightarrow> ('m, 'r) vector_base_map \<Rightarrow> ('v, 'm, 'r, 'z) var_solver_scheme list \<Rightarrow> nat set \<Rightarrow> 'v vector_generator \<Rightarrow> nat \<times> 'm \<times> 'r \<Rightarrow>
     (bool \<times> 'v vector_generator \<times> nat \<times> 'm \<times> 'r) result" where
  "vg_solve F vbm var_gen vec_ids vg s =
     rbind (solve_vectors F vbm var_gen vg s) (\<lambda>(b, vg, ids, m, r).
       if \<not> b then Inr (False, vg, ids, m, r)
       else rbind (each (gen_vector F vbm var_gen vg) (sorted_list_of_set vec_ids) (m, r)) (\<lambda>(m, r). Inr (True, vg, ids, m, r)))"

end
