(* ===== verification/Generator.thy ===== *)
theory Generator
  imports Vectors
begin

text \<open>
  The generators of variables (\<open>VariableGenerator\<close>, \<open>VariableCoverageGenerator\<close>) and \<open>Generator\<close>, which ties
  constraints, solvers and vectors together. The container of variables is global and shared by all
  generators: it is an argument \<open>vcon\<close>. The state outside the generator is the identifier \<open>new_var_id\<close>
  returns next, the memory of the program and the random sources.
\<close>

section \<open>Generators of variables\<close>

text \<open>One new solver for each partition.\<close>

fun new_solvers :: "(partition \<Rightarrow> 's result) \<Rightarrow> partition list \<Rightarrow> 's list result" where
  "new_solvers mk [] = Inr []"
| "new_solvers mk (cp # cps) = rbind (mk cp) (\<lambda>vs. rbind (new_solvers mk cps) (\<lambda>vss. Inr (vs # vss)))"

definition VariableGenerator_reset ::
    "('v, 'w, 'r) factory \<Rightarrow> ('m, 'r) container \<Rightarrow> partition list \<Rightarrow> ('v, 'm, 'r, 'w) default_solver list result" where
  "VariableGenerator_reset F vcon = new_solvers (VariableDefaultSolver F vcon)"

fun VariableGenerator_solve ::
    "('v, 'w, 'r) factory \<Rightarrow> ('v, 'm, 'r, 'w) default_solver list \<Rightarrow> 'm \<Rightarrow> 'r \<Rightarrow> (bool \<times> ('v, 'm, 'r, 'w) default_solver list \<times> 'm \<times> 'r) result" where
  "VariableGenerator_solve F [] m r = Inr (True, [], m, r)"
| "VariableGenerator_solve F (vs # vss) m r =
     rbind (default_solve F vs m r) (\<lambda>(b, vs, m, r).
       if \<not> b then Inr (False, vs # vss, m, r)
       else rbind (VariableGenerator_solve F vss m r) (\<lambda>(b, vss, m, r). Inr (b, vs # vss, m, r)))"

definition vg_analyseContradiction :: "('v, 'm, 'r, 'z) var_solver_scheme list \<Rightarrow> string list list" where
  "vg_analyseContradiction vss = concat (map contradictions vss)"

definition vg_getInactiveSofts :: "('v, 'm, 'r, 'z) var_solver_scheme list \<Rightarrow> string list" where
  "vg_getInactiveSofts vss = concat (map inactive_softs vss)"

definition VariableCoverageGenerator_reset ::
    "('v, 'w, 'r) factory \<Rightarrow> ('m, 'r) container \<Rightarrow> partition list \<Rightarrow> ('v, 'm, 'r) coverage_solver list result" where
  "VariableCoverageGenerator_reset F vcon = new_solvers (VariableCoverageSolver F vcon)"

text \<open>Every solver is asked, also after one has hit a constraint.\<close>

fun VariableCoverageGenerator_solve ::
    "('v, 'w, 'r) factory \<Rightarrow> ('v, 'm, 'r) coverage_solver list \<Rightarrow> 'm \<Rightarrow> 'r \<Rightarrow> (bool \<times> ('v, 'm, 'r) coverage_solver list \<times> 'm \<times> 'r) result" where
  "VariableCoverageGenerator_solve F [] m r = Inr (False, [], m, r)"
| "VariableCoverageGenerator_solve F (vs # vss) m r =
     rbind (coverage_solve F vs m r) (\<lambda>(b, vs, m, r).
       rbind (VariableCoverageGenerator_solve F vss m r) (\<lambda>(b', vss, m, r). Inr (b \<or> b', vs # vss, m, r)))"

section \<open>The generator\<close>

record ('v, 'm, 'r, 'w) generator =
  constr_mng :: manager
  gen_partitioner :: partitioner
  to_be_generated_vec_ids :: "nat set"
  var_gen :: "('v, 'm, 'r, 'w) default_solver list"
  var_cov_gen :: "('v, 'm, 'r) coverage_solver list"
  vec_gen :: "'v vector_generator"
  gen_covered :: bool

text \<open>\<open>i\<close> is the number of the new manager.\<close>

definition Generator :: "nat \<Rightarrow> ('v, 'm, 'r, 'w) generator" where
  "Generator i = \<lparr>constr_mng = new_manager i, gen_partitioner = new_partitioner, to_be_generated_vec_ids = {},
     var_gen = [], var_cov_gen = [], vec_gen = [], gen_covered = False\<rparr>"

text \<open>
  \<open>operator()\<close>, \<open>soft\<close> and \<open>cover\<close> with a name, of the expression \<open>e\<close> that the context has made; \<open>i\<close> is the
  number of the new constraint.
\<close>

definition gen_constraint :: "string \<Rightarrow> nat \<Rightarrow> node \<Rightarrow> bool \<Rightarrow> bool \<Rightarrow> ('v, 'm, 'r, 'w) generator \<Rightarrow> ('v, 'm, 'r, 'w) generator result" where
  "gen_constraint name i e soft cover g =
     rbind (makeConstraint_expr name i e soft cover (constr_mng g)) (\<lambda>(_, mng). Inr (g\<lparr>constr_mng := mng\<rparr>))"

definition gen_enableConstraint :: "string \<Rightarrow> ('v, 'm, 'r, 'w) generator \<Rightarrow> bool \<times> ('v, 'm, 'r, 'w) generator" where
  "gen_enableConstraint name g = (let (b, mng) = enableConstraint name (constr_mng g) in (b, g\<lparr>constr_mng := mng\<rparr>))"

definition gen_disableConstraint :: "string \<Rightarrow> ('v, 'm, 'r, 'w) generator \<Rightarrow> bool \<times> ('v, 'm, 'r, 'w) generator" where
  "gen_disableConstraint name g = (let (b, mng) = disableConstraint name (constr_mng g) in (b, g\<lparr>constr_mng := mng\<rparr>))"

definition gen_isConstraintEnabled :: "string \<Rightarrow> ('v, 'm, 'r, 'w) generator \<Rightarrow> bool" where
  "gen_isConstraintEnabled name g = isConstraintEnabled name (constr_mng g)"

definition gen_isChanged :: "('v, 'm, 'r, 'w) generator \<Rightarrow> bool" where
  "gen_isChanged g = changed (constr_mng g)"

definition addVecId :: "nat \<Rightarrow> ('v, 'm, 'r, 'w) generator \<Rightarrow> ('v, 'm, 'r, 'w) generator" where
  "addVecId i g = g\<lparr>to_be_generated_vec_ids := insert i (to_be_generated_vec_ids g)\<rparr>"

definition gen_merge :: "manager \<Rightarrow> ('v, 'm, 'r, 'w) generator \<Rightarrow> ('v, 'm, 'r, 'w) generator" where
  "gen_merge other g = g\<lparr>gen_partitioner := mergeConstraints other (gen_partitioner g)\<rparr>"

definition resetCoverage ::
    "('v, 'w, 'r) factory \<Rightarrow> ('m, 'r) container \<Rightarrow> ('v, 'm, 'r, 'w) generator \<Rightarrow> ('v, 'm, 'r, 'w) generator result" where
  "resetCoverage F vcon g =
     rbind (VariableCoverageGenerator_reset F vcon (partitions (gen_partitioner g))) (\<lambda>vss.
       Inr (g\<lparr>gen_covered := False, var_cov_gen := vss\<rparr>))"

definition gen_reset ::
    "('v, 'w, 'r) factory \<Rightarrow> ('m, 'r) container \<Rightarrow> ('v, 'm, 'r, 'w) generator \<Rightarrow> ('v, 'm, 'r, 'w) generator result" where
  "gen_reset F vcon g =
     resetCoverage F vcon (g\<lparr>constr_mng := resetChanged (constr_mng g), gen_partitioner := pt_reset (gen_partitioner g),
       to_be_generated_vec_ids := {}\<rparr>)"

definition rebuild ::
    "('v, 'w, 'r) factory \<Rightarrow> ('m, 'r) container \<Rightarrow> bool \<Rightarrow> ('v, 'm, 'r, 'w) generator \<Rightarrow> ('v, 'm, 'r, 'w) generator result" where
  "rebuild F vcon selfInclude g =
     (let g = (if selfInclude then gen_merge (constr_mng g) g else g);
          p = pt_partition (gen_partitioner g)
      in rbind (VariableGenerator_reset F vcon (partitions p)) (\<lambda>vss.
         rbind (vg_reset (fa_default F) (vec_constraints p)) (\<lambda>vg.
         rbind (VariableCoverageGenerator_reset F vcon (partitions p)) (\<lambda>cvs.
           Inr (g\<lparr>gen_partitioner := p, var_gen := vss, vec_gen := vg, var_cov_gen := cvs\<rparr>)))))"

definition rebuild_if_changed ::
    "('v, 'w, 'r) factory \<Rightarrow> ('m, 'r) container \<Rightarrow> ('v, 'm, 'r, 'w) generator \<Rightarrow> ('v, 'm, 'r, 'w) generator result" where
  "rebuild_if_changed F vcon g =
     (if gen_isChanged g then rbind (gen_reset F vcon g) (rebuild F vcon True) else Inr g)"

type_synonym ('m, 'r) outside = "nat \<times> 'm \<times> 'r"

definition gen_next ::
    "('v, 'w, 'r) factory \<Rightarrow> ('m, 'r) container \<Rightarrow> ('m, 'r) vector_base_map \<Rightarrow> ('v, 'm, 'r, 'w) generator \<Rightarrow> ('m, 'r) outside \<Rightarrow>
     (bool \<times> ('v, 'm, 'r, 'w) generator \<times> ('m, 'r) outside) result" where
  "gen_next F vcon vbm g = (\<lambda>(ids, m, r).
     rbind (rebuild_if_changed F vcon g) (\<lambda>g.
     rbind (VariableGenerator_solve F (var_gen g) m r) (\<lambda>(b, vss, m, r).
     let g = g\<lparr>var_gen := vss\<rparr> in
     if \<not> b then Inr (False, g, ids, m, r)
     else rbind (vg_solve F vbm (var_gen g) (to_be_generated_vec_ids g) (vec_gen g) (ids, m, r)) (\<lambda>(b, vg, s).
       Inr (b, g\<lparr>vec_gen := vg\<rparr>, s)))))"

definition nextCov ::
    "('v, 'w, 'r) factory \<Rightarrow> ('m, 'r) container \<Rightarrow> ('m, 'r) vector_base_map \<Rightarrow> ('v, 'm, 'r, 'w) generator \<Rightarrow> ('m, 'r) outside \<Rightarrow>
     (bool \<times> ('v, 'm, 'r, 'w) generator \<times> ('m, 'r) outside) result" where
  "nextCov F vcon vbm g = (\<lambda>(ids, m, r).
     rbind (rebuild_if_changed F vcon g) (\<lambda>g.
     if gen_covered g then gen_next F vcon vbm g (ids, m, r)
     else
       rbind (VariableCoverageGenerator_solve F (var_cov_gen g) m r) (\<lambda>(b, vss, m, r).
       let g = g\<lparr>var_cov_gen := vss\<rparr> in
       rbind (if b then vg_solve F vbm (var_cov_gen g) (to_be_generated_vec_ids g) (vec_gen g) (ids, m, r)
              else Inr (False, vec_gen g, ids, m, r)) (\<lambda>(b, vg, s).
       let g = g\<lparr>vec_gen := vg\<rparr> in
       if b then Inr (True, g, s) else gen_next F vcon vbm (g\<lparr>gen_covered := True\<rparr>) s))))"

definition isCovered :: "('v, 'm, 'r, 'w) generator \<Rightarrow> bool" where
  "isCovered g = gen_covered g"

text \<open>\<open>operator()()\<close> and \<open>operator[]\<close>; the result of the latter is a local variable, first of any value \<open>n\<close>.\<close>

definition gen_call ::
    "('v, 'w, 'r) factory \<Rightarrow> ('m, 'r) container \<Rightarrow> ('m, 'r) vector_base_map \<Rightarrow> ('v, 'm, 'r, 'w) generator \<Rightarrow> ('m, 'r) outside \<Rightarrow>
     (('v, 'm, 'r, 'w) generator \<times> ('m, 'r) outside) result" where
  "gen_call F vcon vbm g s =
     rbind (gen_next F vcon vbm g s) (\<lambda>(b, g, s).
       if \<not> b then Inl (RuntimeError ''Generator constraint unsatisfiable.'') else Inr (g, s))"

definition gen_read ::
    "('v, 'w, 'r) factory \<Rightarrow> nat \<Rightarrow> bool \<Rightarrow> 'a::len word \<Rightarrow> ('v, 'm, 'r, 'w) generator \<Rightarrow> 'r \<Rightarrow> ('a word \<times> 'r) result" where
  "gen_read F i sg n g r =
     (let (known, n, r) = vg_read (fa_default F) i (AssignResultToRef (fa_random_bit F) sg id (\<lambda>v _. v)) (var_gen g) n r
      in if \<not> known then Inl (RuntimeError ''Invalid variable read request.'') else Inr (n, r))"

definition gen_analyseContradiction :: "('v, 'm, 'r, 'w) generator \<Rightarrow> string list list" where
  "gen_analyseContradiction g = vg_analyseContradiction (var_gen g)"

definition gen_getInactiveSofts :: "('v, 'm, 'r, 'w) generator \<Rightarrow> string list" where
  "gen_getInactiveSofts g = vg_getInactiveSofts (var_gen g)"

end
