(* ===== verification/SatClause.thy ===== *)
theory SatClause
  imports ConflictVisitor
begin

text \<open>
  The clause generator \<open>metaSMT/backend/SAT_Clause.hpp\<close>: every predicate becomes a fresh variable
  with the clauses of its Tseitin encoding. A literal is the \<open>int\<close> of \<open>SAT::tag::lit_tag\<close>
  (\<open>metaSMT/tags/SAT.hpp\<close>): \<open>n\<close> is variable \<open>n\<close>, \<open>-n\<close> its negation, 0 is invalid. The state is the
  last identifier given out by \<open>impl::new_var_id\<close>, the literal \<open>true_lit\<close> and the clauses sent to
  the SAT solver so far, last one first; an asserted literal is a unit clause.
\<close>

type_synonym lit = int

record sat_clause =
  last_id :: nat
  true_lit :: lit
  clauses :: "lit list list"

definition new_var_id :: "sat_clause \<Rightarrow> nat \<times> sat_clause" where
  "new_var_id s = (Suc (last_id s), s\<lparr>last_id := Suc (last_id s)\<rparr>)"

definition new_lit :: "sat_clause \<Rightarrow> lit \<times> sat_clause" where
  "new_lit s = (let (i, s) = new_var_id s in (int i, s))"

definition add_clause :: "lit list \<Rightarrow> sat_clause \<Rightarrow> sat_clause" where
  "add_clause c s = s\<lparr>clauses := c # clauses s\<rparr>"

definition sat_assertion :: "lit \<Rightarrow> sat_clause \<Rightarrow> sat_clause" where
  "sat_assertion l s = add_clause [l] s"

definition clause2 :: "lit \<Rightarrow> lit \<Rightarrow> sat_clause \<Rightarrow> sat_clause" where
  "clause2 a b s = add_clause [a, b] s"

definition clause3 :: "lit \<Rightarrow> lit \<Rightarrow> lit \<Rightarrow> sat_clause \<Rightarrow> sat_clause" where
  "clause3 a b c s = add_clause [a, b, c] s"

text \<open>The constructor: a variable for true, asserted. \<open>n\<close> is the global counter's value.\<close>

definition new_SAT_Clause :: "nat \<Rightarrow> sat_clause" where
  "new_SAT_Clause n =
     (let (l, s) = new_lit \<lparr>last_id = n, true_lit = 0, clauses = []\<rparr> in
      sat_assertion l (s\<lparr>true_lit := l\<rparr>))"

definition sat_true :: "sat_clause \<Rightarrow> lit \<times> sat_clause" where
  "sat_true s = (true_lit s, s)"

definition sat_false :: "sat_clause \<Rightarrow> lit \<times> sat_clause" where
  "sat_false s = (- true_lit s, s)"

definition sat_var :: "sat_clause \<Rightarrow> lit \<times> sat_clause" where
  "sat_var s = new_lit s"

definition sat_not :: "lit \<Rightarrow> sat_clause \<Rightarrow> lit \<times> sat_clause" where
  "sat_not lhs s = (- lhs, s)"

definition sat_and :: "lit \<Rightarrow> lit \<Rightarrow> sat_clause \<Rightarrow> lit \<times> sat_clause" where
  "sat_and lhs rhs s =
     (let (out, s) = new_lit s;
          s = clause3 (- lhs) (- rhs) out s;
          s = clause2 rhs (- out) s;
          s = clause2 lhs (- out) s
      in (out, s))"

definition sat_or :: "lit \<Rightarrow> lit \<Rightarrow> sat_clause \<Rightarrow> lit \<times> sat_clause" where
  "sat_or lhs rhs s =
     (let (out, s) = new_lit s;
          s = clause3 lhs rhs (- out) s;
          s = clause2 (- rhs) out s;
          s = clause2 (- lhs) out s
      in (out, s))"

definition sat_nor :: "lit \<Rightarrow> lit \<Rightarrow> sat_clause \<Rightarrow> lit \<times> sat_clause" where
  "sat_nor lhs rhs s =
     (let (out, s) = new_lit s;
          s = clause3 lhs rhs out s;
          s = clause2 (- rhs) (- out) s;
          s = clause2 (- lhs) (- out) s
      in (out, s))"

definition sat_nand :: "lit \<Rightarrow> lit \<Rightarrow> sat_clause \<Rightarrow> lit \<times> sat_clause" where
  "sat_nand lhs rhs s =
     (let (out, s) = new_lit s;
          s = clause3 (- lhs) (- rhs) (- out) s;
          s = clause2 rhs out s;
          s = clause2 lhs out s
      in (out, s))"

definition sat_xnor :: "lit \<Rightarrow> lit \<Rightarrow> sat_clause \<Rightarrow> lit \<times> sat_clause" where
  "sat_xnor lhs rhs s =
     (let (out, s) = new_lit s;
          s = clause3 lhs rhs out s;
          s = clause3 lhs (- rhs) (- out) s;
          s = clause3 (- lhs) rhs (- out) s;
          s = clause3 (- lhs) (- rhs) out s
      in (out, s))"

definition sat_xor :: "lit \<Rightarrow> lit \<Rightarrow> sat_clause \<Rightarrow> lit \<times> sat_clause" where
  "sat_xor lhs rhs s =
     (let (out, s) = new_lit s;
          s = clause3 lhs rhs (- out) s;
          s = clause3 lhs (- rhs) out s;
          s = clause3 (- lhs) rhs out s;
          s = clause3 (- lhs) (- rhs) (- out) s
      in (out, s))"

definition sat_ite :: "lit \<Rightarrow> lit \<Rightarrow> lit \<Rightarrow> sat_clause \<Rightarrow> lit \<times> sat_clause" where
  "sat_ite op1 op2 op3 s =
     (let (out, s) = new_lit s;
          s = clause3 op1 op3 (- out) s;
          s = clause3 op1 (- op3) out s;
          s = clause3 (- op1) op2 (- out) s;
          s = clause3 (- op1) (- op2) out s
      in (out, s))"

definition sat_implies :: "lit \<Rightarrow> lit \<Rightarrow> sat_clause \<Rightarrow> lit \<times> sat_clause" where
  "sat_implies lhs rhs s = sat_ite lhs rhs (true_lit s) s"

fun sat_op2 :: "pred_tag2 \<Rightarrow> lit \<Rightarrow> lit \<Rightarrow> sat_clause \<Rightarrow> lit \<times> sat_clause" where
  "sat_op2 and_tag = sat_and"
| "sat_op2 or_tag = sat_or"
| "sat_op2 nor_tag = sat_nor"
| "sat_op2 implies_tag = sat_implies"
| "sat_op2 nand_tag = sat_nand"
| "sat_op2 xnor_tag = sat_xnor"
| "sat_op2 xor_tag = sat_xor"
| "sat_op2 equal_tag = sat_xnor"
| "sat_op2 nequal_tag = sat_xor"
| "sat_op2 distinct_tag = sat_xor"

definition sat_psolver :: "(sat_clause, lit) psolver" where
  "sat_psolver = \<lparr>ps_true = sat_true, ps_false = sat_false, ps_var = sat_var, ps_not = sat_not,
                  ps_op2 = sat_op2, ps_ite = sat_ite,
                  ps_assertion = sat_assertion\<rparr>"

section \<open>Models\<close>

definition lit_val :: "(nat \<Rightarrow> bool) \<Rightarrow> lit \<Rightarrow> bool" where
  "lit_val \<alpha> l = (if l > 0 then \<alpha> (nat l) else \<not> \<alpha> (nat (- l)))"

definition sat_mdl :: "sat_clause \<Rightarrow> (nat \<Rightarrow> bool) \<Rightarrow> bool" where
  "sat_mdl s \<alpha> \<longleftrightarrow> (\<forall>c\<in>set (clauses s). \<exists>l\<in>set c. lit_val \<alpha> l)"

definition lit_ok :: "sat_clause \<Rightarrow> lit \<Rightarrow> bool" where
  "lit_ok s l \<longleftrightarrow> l \<noteq> 0 \<and> nat \<bar>l\<bar> \<le> last_id s"

definition sat_inv :: "sat_clause \<Rightarrow> bool" where
  "sat_inv s \<longleftrightarrow> lit_ok s (true_lit s) \<and> [true_lit s] \<in> set (clauses s) \<and>
     (\<forall>c\<in>set (clauses s). \<forall>l\<in>set c. lit_ok s l)"

lemma lit_val_minus [simp]: "l \<noteq> 0 \<Longrightarrow> lit_val \<alpha> (- l) = (\<not> lit_val \<alpha> l)"
  by (auto simp: lit_val_def)

lemma lit_ok_minus [simp]: "lit_ok s (- l) = lit_ok s l"
  by (auto simp: lit_ok_def)

lemma lit_val_fresh_lit [simp]:
  "lit_val \<alpha> (1 + int n) = \<alpha> (Suc n)" "lit_val \<alpha> (- 1 - int n) = (\<not> \<alpha> (Suc n))"
  by (auto simp: lit_val_def nat_add_distrib)

lemma lit_val_fresh: "lit_ok s l \<Longrightarrow> lit_val (\<alpha>(Suc (last_id s) := v)) l = lit_val \<alpha> l"
  by (auto simp: lit_val_def lit_ok_def)

lemma new_lit_simp: "new_lit s = (int (Suc (last_id s)), s\<lparr>last_id := Suc (last_id s)\<rparr>)"
  by (simp add: new_lit_def new_var_id_def)

text \<open>
  One lemma for all encodings: fresh variable \<open>out\<close>, new clauses \<open>cs\<close> over it and usable literals
  that hold exactly when \<open>out\<close> has the value \<open>f\<close> of the old model.
\<close>

lemma tseitin:
  assumes inv: "sat_inv s" and out: "out = int (Suc (last_id s))"
    and s': "last_id s' = Suc (last_id s)" "true_lit s' = true_lit s"
      "clauses s' = cs @ clauses s"
    and lits: "\<forall>c\<in>set cs. \<forall>l\<in>set c. l = out \<or> l = - out \<or> lit_ok s l"
    and enc: "\<And>\<alpha>. (\<forall>c\<in>set cs. \<exists>l\<in>set c. lit_val \<alpha> l) \<longleftrightarrow> lit_val \<alpha> out = f \<alpha>"
    and old: "\<And>\<alpha> v. f (\<alpha>(Suc (last_id s) := v)) = f \<alpha>"
  shows "extends sat_inv lit_ok sat_mdl lit_val s s' \<and> lit_ok s' out \<and>
    (\<forall>\<alpha>. sat_mdl s' \<alpha> \<longrightarrow> lit_val \<alpha> out = f \<alpha>)"
proof -
  have ok: "lit_ok s l \<Longrightarrow> lit_ok s' l" for l by (simp add: lit_ok_def s')
  have okout: "lit_ok s' out" by (simp add: lit_ok_def out s')
  have "lit_ok s' l" if "c \<in> set (cs @ clauses s)" and "l \<in> set c" for c l
  proof (cases "c \<in> set cs")
    case True
    then have "l = out \<or> l = - out \<or> lit_ok s l" using lits that(2) by blast
    then show ?thesis using okout ok by auto
  next
    case False
    then show ?thesis using inv that ok by (auto simp: sat_inv_def)
  qed
  then have i: "sat_inv s'" using inv ok by (auto simp: sat_inv_def s')
  have m: "sat_mdl s' \<alpha> \<longleftrightarrow> lit_val \<alpha> out = f \<alpha> \<and> sat_mdl s \<alpha>" for \<alpha>
    using enc [of \<alpha>] by (auto simp: sat_mdl_def s' ball_Un)
  have ex: "\<exists>\<beta>. sat_mdl s' \<beta> \<and> (\<forall>l. lit_ok s l \<longrightarrow> lit_val \<beta> l = lit_val \<alpha> l)" if "sat_mdl s \<alpha>" for \<alpha>
  proof -
    let ?\<beta> = "\<alpha>(Suc (last_id s) := f \<alpha>)"
    have keep: "lit_ok s l \<Longrightarrow> lit_val ?\<beta> l = lit_val \<alpha> l" for l by (rule lit_val_fresh)
    have "sat_mdl s ?\<beta>" using that inv keep by (fastforce simp: sat_mdl_def sat_inv_def)
    moreover have "lit_val ?\<beta> out = f ?\<beta>" by (simp add: old out)
    ultimately show ?thesis using m keep by blast
  qed
  show ?thesis unfolding extends_def using i ok okout m ex by blast
qed

lemmas sat_op_defs = sat_and_def sat_or_def sat_nor_def sat_nand_def sat_xnor_def sat_xor_def
  sat_ite_def clause2_def clause3_def add_clause_def new_lit_simp Let_def

lemma lit_okD: "lit_ok s l \<Longrightarrow> l \<noteq> 0"
  by (simp add: lit_ok_def)

lemma true_lit_val: "sat_inv s \<Longrightarrow> sat_mdl s \<alpha> \<Longrightarrow> lit_val \<alpha> (true_lit s)"
  by (fastforce simp: sat_inv_def sat_mdl_def)

text \<open>The clauses of a gate with output \<open>z\<close>, as sent by the operators above.\<close>

fun gate_clauses :: "pred_tag2 \<Rightarrow> lit \<Rightarrow> lit \<Rightarrow> lit \<Rightarrow> lit list list" where
  "gate_clauses and_tag a b z = [[a, - z], [b, - z], [- a, - b, z]]"
| "gate_clauses or_tag a b z = [[- a, z], [- b, z], [a, b, - z]]"
| "gate_clauses nor_tag a b z = [[- a, - z], [- b, - z], [a, b, z]]"
| "gate_clauses nand_tag a b z = [[a, z], [b, z], [- a, - b, - z]]"
| "gate_clauses xnor_tag a b z = [[- a, - b, z], [- a, b, - z], [a, - b, - z], [a, b, z]]"
| "gate_clauses xor_tag a b z = [[- a, - b, - z], [- a, b, z], [a, - b, z], [a, b, - z]]"
| "gate_clauses equal_tag a b z = [[- a, - b, z], [- a, b, - z], [a, - b, - z], [a, b, z]]"
| "gate_clauses nequal_tag a b z = [[- a, - b, - z], [- a, b, z], [a, - b, z], [a, b, - z]]"
| "gate_clauses distinct_tag a b z = [[- a, - b, - z], [- a, b, z], [a, - b, z], [a, b, - z]]"
| "gate_clauses implies_tag a b z = []"

lemma sat_op2_gate:
  assumes "t \<noteq> implies_tag" and "sat_op2 t a b s = (r, s')"
  shows "r = int (Suc (last_id s))" and "last_id s' = Suc (last_id s)" and "true_lit s' = true_lit s"
    and "clauses s' = gate_clauses t a b r @ clauses s"
proof -
  have "r = int (Suc (last_id s)) \<and> last_id s' = Suc (last_id s) \<and> true_lit s' = true_lit s \<and>
      clauses s' = gate_clauses t a b r @ clauses s"
    using assms by (cases t) (auto simp: sat_op_defs)
  then show "r = int (Suc (last_id s))" and "last_id s' = Suc (last_id s)"
    and "true_lit s' = true_lit s" and "clauses s' = gate_clauses t a b r @ clauses s" by auto
qed

lemma gate_clauses_enc:
  assumes "t \<noteq> implies_tag" and "a \<noteq> 0" and "b \<noteq> 0" and "z \<noteq> 0"
  shows "(\<forall>c\<in>set (gate_clauses t a b z). \<exists>l\<in>set c. lit_val \<alpha> l) \<longleftrightarrow>
    lit_val \<alpha> z = tag2_sem t (lit_val \<alpha> a) (lit_val \<alpha> b)"
  using assms by (cases t; simp; blast)

lemma gate_clauses_lits: "c \<in> set (gate_clauses t a b z) \<Longrightarrow> l \<in> set c \<Longrightarrow> \<bar>l\<bar> \<in> {\<bar>a\<bar>, \<bar>b\<bar>, \<bar>z\<bar>}"
  by (cases t; auto)

lemma sat_gate_law:
  assumes i: "sat_inv s" and a: "lit_ok s a" and b: "lit_ok s b" and t: "t \<noteq> implies_tag"
    and e: "sat_op2 t a b s = (r, s')"
  shows "extends sat_inv lit_ok sat_mdl lit_val s s' \<and> lit_ok s' r \<and>
    (\<forall>\<alpha>. sat_mdl s' \<alpha> \<longrightarrow> lit_val \<alpha> r = tag2_sem t (lit_val \<alpha> a) (lit_val \<alpha> b))"
proof (rule tseitin [OF i])
  note g = sat_op2_gate [OF t e]
  show "r = int (Suc (last_id s))" "last_id s' = Suc (last_id s)" "true_lit s' = true_lit s"
    "clauses s' = gate_clauses t a b r @ clauses s" by (rule g)+
  show "\<forall>c\<in>set (gate_clauses t a b r). \<forall>l\<in>set c. l = r \<or> l = - r \<or> lit_ok s l"
    using gate_clauses_lits a b by (fastforce simp: lit_ok_def)
  show "(\<forall>c\<in>set (gate_clauses t a b r). \<exists>l\<in>set c. lit_val \<alpha> l) \<longleftrightarrow>
      lit_val \<alpha> r = tag2_sem t (lit_val \<alpha> a) (lit_val \<alpha> b)" for \<alpha>
    using t lit_okD [OF a] lit_okD [OF b] g(1) by (intro gate_clauses_enc) auto
qed (simp add: lit_val_fresh a b)

lemma sat_ite_law:
  assumes i: "sat_inv s" and c: "lit_ok s c" and a: "lit_ok s a" and b: "lit_ok s b"
    and e: "sat_ite c a b s = (r, s')"
  shows "extends sat_inv lit_ok sat_mdl lit_val s s' \<and> lit_ok s' r \<and>
    (\<forall>\<alpha>. sat_mdl s' \<alpha> \<longrightarrow> lit_val \<alpha> r = (if lit_val \<alpha> c then lit_val \<alpha> a else lit_val \<alpha> b))"
  using e lit_okD [OF a] lit_okD [OF b] lit_okD [OF c]
  by (intro tseitin [OF i, where cs = "take 4 (clauses s')"])
    (auto simp: sat_op_defs a b c lit_val_fresh)

lemma sat_implies_law:
  assumes i: "sat_inv s" and a: "lit_ok s a" and b: "lit_ok s b" and e: "sat_implies a b s = (r, s')"
  shows "extends sat_inv lit_ok sat_mdl lit_val s s' \<and> lit_ok s' r \<and>
    (\<forall>\<alpha>. sat_mdl s' \<alpha> \<longrightarrow> lit_val \<alpha> r = (lit_val \<alpha> a \<longrightarrow> lit_val \<alpha> b))"
proof -
  have t: "lit_ok s (true_lit s)" using i by (simp add: sat_inv_def)
  note law = sat_ite_law [OF i a b t e [unfolded sat_implies_def]]
  have "lit_val \<alpha> (true_lit s)" if "sat_mdl s' \<alpha>" for \<alpha>
    using true_lit_val [OF i] law that unfolding extends_def by blast
  then show ?thesis using law by auto
qed

lemma sat_op2_law:
  assumes "sat_inv s" and "lit_ok s a" and "lit_ok s b" and "sat_op2 t a b s = (r, s')"
  shows "extends sat_inv lit_ok sat_mdl lit_val s s' \<and> lit_ok s' r \<and>
    (\<forall>\<alpha>. sat_mdl s' \<alpha> \<longrightarrow> lit_val \<alpha> r = tag2_sem t (lit_val \<alpha> a) (lit_val \<alpha> b))"
  using sat_gate_law [OF assms(1-3)] sat_implies_law [OF assms(1-3)] assms(4)
  by (cases "t = implies_tag") auto

lemma sat_var_law:
  assumes i: "sat_inv s" and e: "sat_var s = (r, s')"
  shows "extends sat_inv lit_ok sat_mdl lit_val s s' \<and> lit_ok s' r"
    and "sat_mdl s m \<Longrightarrow> \<exists>m'. sat_mdl s' m' \<and> (\<forall>b. lit_ok s b \<longrightarrow> lit_val m' b = lit_val m b) \<and>
      lit_val m' r = v"
proof -
  have s': "s' = s\<lparr>last_id := Suc (last_id s)\<rparr>" and r: "r = int (Suc (last_id s))"
    using e by (auto simp: sat_var_def new_lit_simp)
  have m: "sat_mdl s' = sat_mdl s" by (rule ext) (simp add: sat_mdl_def s')
  have ok: "lit_ok s l \<Longrightarrow> lit_ok s' l" for l by (simp add: lit_ok_def s')
  have "sat_inv s'" using i ok by (fastforce simp: sat_inv_def s')
  then show "extends sat_inv lit_ok sat_mdl lit_val s s' \<and> lit_ok s' r"
    using ok r s' unfolding extends_def m by (auto simp: lit_ok_def)
  assume sm: "sat_mdl s m"
  let ?m = "m(Suc (last_id s) := v)"
  have "sat_mdl s ?m" using sm i lit_val_fresh by (fastforce simp: sat_mdl_def sat_inv_def)
  moreover have "lit_val ?m r = v" by (simp add: r)
  ultimately show "\<exists>m'. sat_mdl s' m' \<and> (\<forall>b. lit_ok s b \<longrightarrow> lit_val m' b = lit_val m b) \<and>
      lit_val m' r = v"
    using m lit_val_fresh by (intro exI [of _ ?m]) auto
qed

lemma sat_psolver_sels [simp]:
  "ps_true sat_psolver = sat_true" "ps_false sat_psolver = sat_false" "ps_var sat_psolver = sat_var"
  "ps_not sat_psolver = sat_not" "ps_op2 sat_psolver = sat_op2" "ps_ite sat_psolver = sat_ite"
  "ps_assertion sat_psolver = sat_assertion"
  by (simp_all add: sat_psolver_def)

interpretation satp: predicate_solver sat_psolver sat_inv lit_ok sat_mdl lit_val
proof unfold_locales
  fix s r s'
  assume i: "sat_inv s"
  have t: "lit_ok s (true_lit s)" using i by (simp add: sat_inv_def)
  show "ps_true sat_psolver s = (r, s') \<Longrightarrow>
      extends sat_inv lit_ok sat_mdl lit_val s s' \<and> lit_ok s' r \<and> (\<forall>m. sat_mdl s' m \<longrightarrow> lit_val m r)"
    using i t true_lit_val [OF i] by (auto simp: sat_true_def extends_refl)
  show "ps_false sat_psolver s = (r, s') \<Longrightarrow>
      extends sat_inv lit_ok sat_mdl lit_val s s' \<and> lit_ok s' r \<and> (\<forall>m. sat_mdl s' m \<longrightarrow> \<not> lit_val m r)"
    using i t true_lit_val [OF i] lit_okD [OF t]
    by (auto simp: sat_false_def extends_refl)
  show "lit_ok s a \<Longrightarrow> ps_not sat_psolver a s = (r, s') \<Longrightarrow>
      extends sat_inv lit_ok sat_mdl lit_val s s' \<and> lit_ok s' r \<and>
      (\<forall>m. sat_mdl s' m \<longrightarrow> lit_val m r = (\<not> lit_val m a))" for a
    using i lit_okD [of s a] by (auto simp: sat_not_def extends_refl)
  show "ps_var sat_psolver s = (r, s') \<Longrightarrow> extends sat_inv lit_ok sat_mdl lit_val s s' \<and> lit_ok s' r"
    by (simp only: sat_psolver_sels) (rule sat_var_law(1) [OF i])
  show "ps_var sat_psolver s = (r, s') \<Longrightarrow> sat_mdl s m \<Longrightarrow>
      \<exists>m'. sat_mdl s' m' \<and> (\<forall>b. lit_ok s b \<longrightarrow> lit_val m' b = lit_val m b) \<and> lit_val m' r = v" for m v
    by (simp only: sat_psolver_sels) (rule sat_var_law(2) [OF i])
  show "lit_ok s a \<Longrightarrow> lit_ok s b \<Longrightarrow> ps_op2 sat_psolver t a b s = (r, s') \<Longrightarrow>
      extends sat_inv lit_ok sat_mdl lit_val s s' \<and> lit_ok s' r \<and>
      (\<forall>m. sat_mdl s' m \<longrightarrow> lit_val m r = tag2_sem t (lit_val m a) (lit_val m b))" for t a b
    by (simp only: sat_psolver_sels) (rule sat_op2_law [OF i])
  show "lit_ok s c \<Longrightarrow> lit_ok s a \<Longrightarrow> lit_ok s b \<Longrightarrow> ps_ite sat_psolver c a b s = (r, s') \<Longrightarrow>
      extends sat_inv lit_ok sat_mdl lit_val s s' \<and> lit_ok s' r \<and>
      (\<forall>m. sat_mdl s' m \<longrightarrow> lit_val m r = (if lit_val m c then lit_val m a else lit_val m b))" for c a b
    by (simp only: sat_psolver_sels) (rule sat_ite_law [OF i])
  show "lit_ok s b \<Longrightarrow> sat_inv (ps_assertion sat_psolver b s) \<and>
      (\<forall>l. lit_ok s l \<longrightarrow> lit_ok (ps_assertion sat_psolver b s) l) \<and>
      (\<forall>m. sat_mdl (ps_assertion sat_psolver b s) m \<longleftrightarrow> sat_mdl s m \<and> lit_val m b)" for b
    using i by (auto simp: sat_assertion_def add_clause_def sat_inv_def lit_ok_def sat_mdl_def)
qed

section \<open>What the clause generator guarantees\<close>

lemma new_SAT_Clause_inv: "sat_inv (new_SAT_Clause n)"
  by (auto simp: new_SAT_Clause_def new_lit_simp sat_assertion_def add_clause_def sat_inv_def lit_ok_def)

text \<open>C11: every binary gate of the clause generator is a sound and conservative definition: in a
  well-formed state, with usable literals, the returned literal has the value of the Boolean
  operation in every model of the new clauses; each of these models satisfies the old clauses; and
  every model of the old clauses extends to one of the new clauses without changing a usable literal.\<close>

theorem gate_correct:
  assumes "sat_inv s" and "lit_ok s a" and "lit_ok s b" and "sat_op2 t a b s = (r, s')"
  shows "sat_inv s' \<and> lit_ok s' r \<and>
    (\<forall>m. sat_mdl s' m \<longrightarrow> sat_mdl s m \<and> lit_val m r = tag2_sem t (lit_val m a) (lit_val m b)) \<and>
    (\<forall>m. sat_mdl s m \<longrightarrow> (\<exists>m'. sat_mdl s' m' \<and> (\<forall>l. lit_ok s l \<longrightarrow> lit_val m' l = lit_val m l)))"
  using sat_op2_law [OF assms] by (simp add: extends_def)

lemma gate_correct_witness:
  "\<exists>s'. sat_op2 implies_tag 2 (-3) \<lparr>last_id = 3, true_lit = 1, clauses = [[1]]\<rparr> = (4, s') \<and>
    (\<forall>m. sat_mdl s' m \<longrightarrow> lit_val m 4 = (lit_val m 2 \<longrightarrow> \<not> lit_val m 3))"
proof -
  let ?s = "\<lparr>last_id = 3, true_lit = 1, clauses = [[1]]\<rparr>"
  have e: "sat_op2 implies_tag 2 (-3) ?s = (4, snd (sat_op2 implies_tag 2 (-3) ?s))"
    by (simp add: sat_implies_def sat_op_defs)
  have "sat_inv ?s" "lit_ok ?s 2" "lit_ok ?s (-3)" by (simp_all add: sat_inv_def lit_ok_def)
  from gate_correct [OF this e] e show ?thesis by auto
qed

text \<open>The if-then-else gate has the value of the second operand where the first holds and of the
  third elsewhere, and defines its output conservatively.\<close>

theorem ite_gate_correct:
  assumes "sat_inv s" and "lit_ok s c" and "lit_ok s a" and "lit_ok s b"
    and "sat_ite c a b s = (r, s')"
  shows "sat_inv s' \<and> lit_ok s' r \<and>
    (\<forall>m. sat_mdl s' m \<longrightarrow> sat_mdl s m \<and>
       lit_val m r = (if lit_val m c then lit_val m a else lit_val m b)) \<and>
    (\<forall>m. sat_mdl s m \<longrightarrow> (\<exists>m'. sat_mdl s' m' \<and> (\<forall>l. lit_ok s l \<longrightarrow> lit_val m' l = lit_val m l)))"
  using sat_ite_law [OF assms] by (simp add: extends_def)

lemma ite_gate_correct_witness:
  "\<exists>s'. sat_ite 2 3 (-1) \<lparr>last_id = 3, true_lit = 1, clauses = [[1]]\<rparr> = (4, s') \<and>
    (\<forall>m. sat_mdl s' m \<longrightarrow> lit_val m 4 = (lit_val m 2 \<and> lit_val m 3))"
proof -
  let ?s = "\<lparr>last_id = 3, true_lit = 1, clauses = [[1]]\<rparr>"
  have e: "sat_ite 2 3 (-1) ?s = (4, snd (sat_ite 2 3 (-1) ?s))" by (simp add: sat_op_defs)
  have "sat_inv ?s" "lit_ok ?s 2" "lit_ok ?s 3" "lit_ok ?s (-1)"
    by (simp_all add: sat_inv_def lit_ok_def)
  from ite_gate_correct [OF this e] e show ?thesis by (auto simp: sat_mdl_def sat_op_defs)
qed

end
