(* ===== verification/BitSat.thy ===== *)
theory BitSat
  imports SatClause
begin

text \<open>
  The bit blaster on top of the clause generator: what the clauses sent to the SAT solver mean. Every
  statement has the same shape: on usable literals the operation returns, its result consists of usable
  literals, the new clauses extend the old ones conservatively, and in every model of the new clauses
  the result's bits have the stated value.
\<close>

abbreviation sat_extends :: "sat_clause \<Rightarrow> sat_clause \<Rightarrow> bool" where
  "sat_extends \<equiv> extends sat_inv lit_ok sat_mdl lit_val"

definition returns_bv ::
    "(lit bbval \<times> sat_clause) result \<Rightarrow> sat_clause \<Rightarrow> nat \<Rightarrow> ((nat \<Rightarrow> bool) \<Rightarrow> bool list \<Rightarrow> bool) \<Rightarrow> bool" where
  "returns_bv r s n F \<longleftrightarrow> (\<exists>ls s'. r = Inr (BV ls, s') \<and> length ls = n \<and> (\<forall>l\<in>set ls. lit_ok s' l) \<and>
     sat_extends s s' \<and> (\<forall>m. sat_mdl s' m \<longrightarrow> F m (map (lit_val m) ls)))"

definition returns_bool ::
    "(lit bbval \<times> sat_clause) result \<Rightarrow> sat_clause \<Rightarrow> ((nat \<Rightarrow> bool) \<Rightarrow> bool \<Rightarrow> bool) \<Rightarrow> bool" where
  "returns_bool r s F \<longleftrightarrow> (\<exists>l s'. r = Inr (Base l, s') \<and> lit_ok s' l \<and>
     sat_extends s s' \<and> (\<forall>m. sat_mdl s' m \<longrightarrow> F m (lit_val m l)))"

definition sat_args :: "sat_clause \<Rightarrow> lit list \<Rightarrow> bool" where
  "sat_args s ls \<longleftrightarrow> sat_inv s \<and> (\<forall>l\<in>set ls. lit_ok s l)"

lemma sat_args_env: "sat_args s ls \<Longrightarrow> satp.env s s (set ls) (\<lambda>m. True)"
  by (simp add: sat_args_def satp.env_start)

lemma returns_bvI:
  assumes "\<And>Q. (\<And>rs s'. length rs = n \<Longrightarrow> satp.env s s' (set rs \<union> A) (\<lambda>m. True \<and> F m (map (lit_val m) rs)) \<Longrightarrow>
      Q (BV rs) s') \<Longrightarrow> wpr r Q"
  shows "returns_bv r s n F"
proof -
  have "wpr r (\<lambda>v s'. \<exists>rs. v = BV rs \<and> length rs = n \<and>
      satp.env s s' (set rs \<union> A) (\<lambda>m. True \<and> F m (map (lit_val m) rs)))"
    by (rule assms) auto
  then show ?thesis by (auto simp: wpr_def returns_bv_def satp.env_def)
qed

lemma returns_boolI:
  assumes "\<And>Q. (\<And>l s'. satp.env s s' (insert l A) (\<lambda>m. True \<and> F m (lit_val m l)) \<Longrightarrow> Q (Base l) s') \<Longrightarrow> wpr r Q"
  shows "returns_bool r s F"
proof -
  have "wpr r (\<lambda>v s'. \<exists>l. v = Base l \<and> satp.env s s' (insert l A) (\<lambda>m. True \<and> F m (lit_val m l)))"
    by (rule assms) auto
  then show ?thesis by (auto simp: wpr_def returns_bool_def satp.env_def)
qed

lemma returns_bv_mono:
  "returns_bv r s n F \<Longrightarrow> (\<And>m bs. length bs = n \<Longrightarrow> F m bs \<Longrightarrow> G m bs) \<Longrightarrow> returns_bv r s n G"
  by (fastforce simp: returns_bv_def)

lemma returns_bool_mono: "returns_bool r s F \<Longrightarrow> (\<And>m b. F m b \<Longrightarrow> G m b) \<Longrightarrow> returns_bool r s G"
  by (fastforce simp: returns_bool_def)

lemma sat_args_subset: "set a \<subseteq> set (a @ b)" "set b \<subseteq> set (a @ b)"
  by auto

text \<open>A state with four variables, for the instances below; literal 1 is true.\<close>

definition demo_clauses :: sat_clause where
  "demo_clauses = \<lparr>last_id = 5, true_lit = 1, clauses = [[1]]\<rparr>"

lemma demo_args: "\<forall>l\<in>set ls. l \<noteq> 0 \<and> \<bar>l\<bar> \<le> 5 \<Longrightarrow> sat_args demo_clauses ls"
  by (auto simp: sat_args_def sat_inv_def lit_ok_def demo_clauses_def)

lemma demo_true: "sat_extends demo_clauses s \<Longrightarrow> sat_mdl s m \<Longrightarrow> lit_val m 1"
  by (auto simp: extends_def sat_mdl_def demo_clauses_def)

lemma demo_bv:
  assumes "returns_bv r demo_clauses n F" and "\<And>m bs. lit_val m 1 \<Longrightarrow> F m bs \<Longrightarrow> bits_val bs = v"
  shows "\<exists>ls s. r = Inr (BV ls, s) \<and> length ls = n \<and> (\<forall>m. sat_mdl s m \<longrightarrow> bits_val (map (lit_val m) ls) = v)"
  using assms by (fastforce simp: returns_bv_def dest: demo_true)

lemma demo_bool:
  assumes "returns_bool r demo_clauses F" and "\<And>m b. lit_val m 1 \<Longrightarrow> F m b \<Longrightarrow> b = v"
  shows "\<exists>l s. r = Inr (Base l, s) \<and> (\<forall>m. sat_mdl s m \<longrightarrow> lit_val m l = v)"
  using assms by (fastforce simp: returns_bool_def dest: demo_true)

lemma div_eq_1: "n \<le> m \<Longrightarrow> m < 2 * n \<Longrightarrow> m div n = (1 :: nat)"
  by (metis div_nat_eqI mult.commute mult_2 mult_Suc_right mult_numeral_1_right numeral_1_eq_Suc_0 numerals(1))

section \<open>Properties\<close>

text \<open>C22: addition, subtraction and negation of the bit blaster are arithmetic modulo two to the width.\<close>

theorem bv_add_sub_neg:
  assumes "sat_args s (a @ b)" and "length a = length b" and "a \<noteq> []"
  shows "returns_bv (bb_bvadd sat_psolver (BV a) (BV b) s) s (length a)
      (\<lambda>m r. bits_val r = (bits_val (map (lit_val m) a) + bits_val (map (lit_val m) b)) mod 2 ^ length a) \<and>
    returns_bv (bb_bvsub sat_psolver (BV a) (BV b) s) s (length a)
      (\<lambda>m r. int (bits_val r) =
        (int (bits_val (map (lit_val m) a)) - int (bits_val (map (lit_val m) b))) mod 2 ^ length a) \<and>
    returns_bv (bb_bvneg sat_psolver (BV a) s) s (length a)
      (\<lambda>m r. int (bits_val r) = (- int (bits_val (map (lit_val m) a))) mod 2 ^ length a)"
proof (intro conjI)
  note A = sat_args_env [OF assms(1)] and sub = sat_args_subset
  show "returns_bv (bb_bvadd sat_psolver (BV a) (BV b) s) s (length a)
      (\<lambda>m r. bits_val r = (bits_val (map (lit_val m) a) + bits_val (map (lit_val m) b)) mod 2 ^ length a)"
    by (rule returns_bvI, rule satp.wpr_bvadd [OF A sub assms(2)])
  have le: "bits_val (map (lit_val m) xs) \<le> 2 ^ length xs" for m xs
    using bits_val_less [of "map (lit_val m) xs"] by simp
  have lt: "bits_val (map (lit_val m) xs) < 2 ^ length xs" for m xs
    using bits_val_less [of "map (lit_val m) xs"] by simp
  show "returns_bv (bb_bvsub sat_psolver (BV a) (BV b) s) s (length a)
      (\<lambda>m r. int (bits_val r) =
        (int (bits_val (map (lit_val m) a)) - int (bits_val (map (lit_val m) b))) mod 2 ^ length a)"
  proof (rule returns_bv_mono, rule returns_bvI, rule satp.wpr_bvsub [OF A sub assms(2,3)], assumption)
    fix m bs
    assume eq: "bits_val bs = (satp.bnum m a + 2 ^ length a - satp.bnum m b) mod 2 ^ length a"
    show "int (bits_val bs) = (int (satp.bnum m a) - int (satp.bnum m b)) mod 2 ^ length a"
      unfolding eq using le [of m b] by (intro int_sub_mod) (simp add: assms(2))
  qed
  show "returns_bv (bb_bvneg sat_psolver (BV a) s) s (length a)
      (\<lambda>m r. int (bits_val r) = (- int (bits_val (map (lit_val m) a))) mod 2 ^ length a)"
    by (rule returns_bv_mono, rule returns_bvI, rule satp.wpr_bvneg [OF A sub(1) assms(3)])
      (assumption, simp only: int_negated [OF lt])
qed

theorem bv_add_sub_neg_witness:
  "\<exists>ls s. bb_bvadd sat_psolver (BV [1, -1]) (BV [1, 1]) demo_clauses = Inr (BV ls, s) \<and> length ls = length [1, -1 :: int] \<and>
    (\<forall>m. sat_mdl s m \<longrightarrow> bits_val (map (lit_val m) ls) = 0)"
  by (rule demo_bv [OF bv_add_sub_neg [of demo_clauses "[1, -1]" "[1, 1]", OF demo_args, THEN conjunct1]]) simp_all


text \<open>C23: multiplication is multiplication modulo two to the width.\<close>

theorem bv_mul:
  assumes "sat_args s (a @ b)" and "length a = length b"
  shows "returns_bv (bb_bvmul sat_psolver (BV a) (BV b) s) s (length a)
      (\<lambda>m r. bits_val r = (bits_val (map (lit_val m) a) * bits_val (map (lit_val m) b)) mod 2 ^ length a)"
  by (rule returns_bvI, rule satp.wpr_bvmul [OF sat_args_env [OF assms(1)] sat_args_subset assms(2)])

theorem bv_mul_witness:
  "\<exists>ls s. bb_bvmul sat_psolver (BV [1, -1, 1]) (BV [1, 1, -1]) demo_clauses = Inr (BV ls, s) \<and> length ls = length [1, -1, 1 :: int] \<and>
    (\<forall>m. sat_mdl s m \<longrightarrow> bits_val (map (lit_val m) ls) = 7)"
  by (rule demo_bv [OF bv_mul [of demo_clauses "[1, -1, 1]" "[1, 1, -1]", OF demo_args]]) simp_all


text \<open>C20: unsigned division and remainder are those of the natural numbers for every divisor but 0;
  dividing by 0 gives the quotient 1 and leaves the dividend as remainder.\<close>

theorem bv_udiv_urem:
  assumes "sat_args s (a @ b)" and "length a = length b" and "a \<noteq> []"
  shows "returns_bv (bb_bvudiv sat_psolver (BV a) (BV b) s) s (length a)
      (\<lambda>m r. bits_val r = (if bits_val (map (lit_val m) b) = 0 then 1
         else bits_val (map (lit_val m) a) div bits_val (map (lit_val m) b))) \<and>
    returns_bv (bb_bvurem sat_psolver (BV a) (BV b) s) s (length a)
      (\<lambda>m r. bits_val r = bits_val (map (lit_val m) a) mod bits_val (map (lit_val m) b))"
  unfolding bb_bvudiv_def bb_bvurem_def
  by (intro conjI; rule returns_bv_mono, rule returns_bvI,
      rule satp.wpr_uDivRem [OF sat_args_env [OF assms(1)] sat_args_subset assms(2,3)])
    (simp_all add: udivrem_sem_def)

theorem bv_udiv_urem_witness:
  "\<exists>ls s. bb_bvudiv sat_psolver (BV [1, 1, 1]) (BV [-1, -1, 1]) demo_clauses = Inr (BV ls, s) \<and> length ls = length [1, 1, 1 :: int] \<and>
    (\<forall>m. sat_mdl s m \<longrightarrow> bits_val (map (lit_val m) ls) = 1)"
  by (rule demo_bv [OF bv_udiv_urem [of demo_clauses "[1, 1, 1]" "[-1, -1, 1]", OF demo_args, THEN conjunct1]]) simp_all


text \<open>C24: signed division truncates towards zero: for a divisor other than 0 the quotient is the
  quotient of the absolute values, negated when the signs differ.\<close>

theorem bv_sdiv:
  assumes "sat_args s (a @ b)" and "length a = length b" and "a \<noteq> []"
  shows "returns_bv (bb_bvsdiv sat_psolver (BV a) (BV b) s) s (length a)
      (\<lambda>m r. bits_sval (map (lit_val m) b) \<noteq> 0 \<longrightarrow> int (bits_val r) =
         (sgn (bits_sval (map (lit_val m) a)) * sgn (bits_sval (map (lit_val m) b)) *
          (\<bar>bits_sval (map (lit_val m) a)\<bar> div \<bar>bits_sval (map (lit_val m) b)\<bar>)) mod 2 ^ length a)"
  unfolding bb_bvsdiv_def
proof (rule returns_bv_mono, rule returns_bvI,
    rule satp.wpr_sDivRem [OF sat_args_env [OF assms(1)] sat_args_subset assms(2,3)], assumption)
  fix m bs
  assume "length bs = length a"
    and "bits_val bs = sdivrem_sem True (length a) (satp.sgnum m a) (satp.sgnum m b)"
  then show "satp.sgnum m b \<noteq> 0 \<longrightarrow> int (bits_val bs) = (sgn (satp.sgnum m a) * sgn (satp.sgnum m b) *
      (\<bar>satp.sgnum m a\<bar> div \<bar>satp.sgnum m b\<bar>)) mod 2 ^ length a"
    using sdivrem_value [of "satp.sgnum m a" "length a" True "satp.sgnum m b"] sgnum_abs_less [of "map (lit_val m) a"]
      assms(3) by (auto simp: sgn_if)
qed

theorem bv_sdiv_witness:
  "\<exists>ls s. bb_bvsdiv sat_psolver (BV [1, -1, 1]) (BV [-1, 1, -1]) demo_clauses = Inr (BV ls, s) \<and>
    length ls = length [1 :: int, -1, 1] \<and> (\<forall>m. sat_mdl s m \<longrightarrow> bits_val (map (lit_val m) ls) = 7)"
  by (rule demo_bv [OF bv_sdiv [of demo_clauses "[1, -1, 1]" "[-1, 1, -1]", OF demo_args]])
    (simp_all add: bits_sval_def)

text \<open>C25: the signed remainder is the remainder of the absolute values, and it is negated when the
  signs of the operands differ. A remainder with the sign of the dividend, as the SMT-LIB operator
  bvsrem has it, needs the sign of the dividend alone: for -3 and -2 the code returns 1, not -1.\<close>

theorem bv_srem_sign:
  assumes "sat_args s (a @ b)" and "length a = length b" and "a \<noteq> []"
  shows "returns_bv (bb_bvsrem sat_psolver (BV a) (BV b) s) s (length a)
      (\<lambda>m r. int (bits_val r) =
         (if (bits_sval (map (lit_val m) a) < 0) \<noteq> (bits_sval (map (lit_val m) b) < 0)
          then - (\<bar>bits_sval (map (lit_val m) a)\<bar> mod \<bar>bits_sval (map (lit_val m) b)\<bar>)
          else \<bar>bits_sval (map (lit_val m) a)\<bar> mod \<bar>bits_sval (map (lit_val m) b)\<bar>) mod 2 ^ length a)"
  unfolding bb_bvsrem_def
proof (rule returns_bv_mono, rule returns_bvI,
    rule satp.wpr_sDivRem [OF sat_args_env [OF assms(1)] sat_args_subset assms(2,3)], assumption)
  fix m bs
  assume "length bs = length a"
    and "bits_val bs = sdivrem_sem False (length a) (satp.sgnum m a) (satp.sgnum m b)"
  then show "int (bits_val bs) = (if (satp.sgnum m a < 0) \<noteq> (satp.sgnum m b < 0)
      then - (\<bar>satp.sgnum m a\<bar> mod \<bar>satp.sgnum m b\<bar>) else \<bar>satp.sgnum m a\<bar> mod \<bar>satp.sgnum m b\<bar>) mod 2 ^ length a"
    using sdivrem_value [of "satp.sgnum m a" "length a" False "satp.sgnum m b"] sgnum_abs_less [of "map (lit_val m) a"]
      assms(3) by auto
qed

theorem bv_srem_sign_witness:
  "\<exists>ls s. bb_bvsrem sat_psolver (BV [1, -1, 1]) (BV [-1, 1, 1]) demo_clauses = Inr (BV ls, s) \<and>
    length ls = length [1 :: int, -1, 1] \<and> (\<forall>m. sat_mdl s m \<longrightarrow> bits_val (map (lit_val m) ls) = 1)"
  by (rule demo_bv [OF bv_srem_sign [of demo_clauses "[1, -1, 1]" "[-1, 1, 1]", OF demo_args]])
    (simp_all add: bits_sval_def)

text \<open>C21: the eight comparisons are the orders of the unsigned and of the two's complement values.\<close>

theorem bv_comparisons:
  assumes "sat_args s (a @ b)" and "length a = length b" and "a \<noteq> []"
  shows "returns_bool (bb_bvult sat_psolver (BV a) (BV b) s) s
      (\<lambda>m r. r \<longleftrightarrow> bits_val (map (lit_val m) a) < bits_val (map (lit_val m) b)) \<and>
    returns_bool (bb_bvugt sat_psolver (BV a) (BV b) s) s
      (\<lambda>m r. r \<longleftrightarrow> bits_val (map (lit_val m) a) > bits_val (map (lit_val m) b)) \<and>
    returns_bool (bb_bvslt sat_psolver (BV a) (BV b) s) s
      (\<lambda>m r. r \<longleftrightarrow> bits_sval (map (lit_val m) a) < bits_sval (map (lit_val m) b)) \<and>
    returns_bool (bb_bvsgt sat_psolver (BV a) (BV b) s) s
      (\<lambda>m r. r \<longleftrightarrow> bits_sval (map (lit_val m) a) > bits_sval (map (lit_val m) b)) \<and>
    returns_bool (bb_bvule sat_psolver (BV a) (BV b) s) s
      (\<lambda>m r. r \<longleftrightarrow> bits_val (map (lit_val m) a) \<le> bits_val (map (lit_val m) b)) \<and>
    returns_bool (bb_bvuge sat_psolver (BV a) (BV b) s) s
      (\<lambda>m r. r \<longleftrightarrow> bits_val (map (lit_val m) a) \<ge> bits_val (map (lit_val m) b)) \<and>
    returns_bool (bb_bvsle sat_psolver (BV a) (BV b) s) s
      (\<lambda>m r. r \<longleftrightarrow> bits_sval (map (lit_val m) a) \<le> bits_sval (map (lit_val m) b)) \<and>
    returns_bool (bb_bvsge sat_psolver (BV a) (BV b) s) s
      (\<lambda>m r. r \<longleftrightarrow> bits_sval (map (lit_val m) a) \<ge> bits_sval (map (lit_val m) b))"
proof (intro conjI)
  note A = sat_args_env [OF assms(1)] sat_args_subset assms(2,3)
  show "returns_bool (bb_bvult sat_psolver (BV a) (BV b) s) s
      (\<lambda>m r. r \<longleftrightarrow> bits_val (map (lit_val m) a) < bits_val (map (lit_val m) b))"
    by (rule returns_boolI, rule satp.wpr_bvult [OF A]) simp
  show "returns_bool (bb_bvugt sat_psolver (BV a) (BV b) s) s
      (\<lambda>m r. r \<longleftrightarrow> bits_val (map (lit_val m) a) > bits_val (map (lit_val m) b))"
    by (rule returns_boolI, rule satp.wpr_bvugt [OF A]) simp
  show "returns_bool (bb_bvslt sat_psolver (BV a) (BV b) s) s
      (\<lambda>m r. r \<longleftrightarrow> bits_sval (map (lit_val m) a) < bits_sval (map (lit_val m) b))"
    by (rule returns_boolI, rule satp.wpr_bvslt [OF A]) simp
  show "returns_bool (bb_bvsgt sat_psolver (BV a) (BV b) s) s
      (\<lambda>m r. r \<longleftrightarrow> bits_sval (map (lit_val m) a) > bits_sval (map (lit_val m) b))"
    by (rule returns_boolI, rule satp.wpr_bvsgt [OF A]) simp
  show "returns_bool (bb_bvule sat_psolver (BV a) (BV b) s) s
      (\<lambda>m r. r \<longleftrightarrow> bits_val (map (lit_val m) a) \<le> bits_val (map (lit_val m) b))"
    by (rule returns_boolI, rule satp.wpr_bvule [OF A]) simp
  show "returns_bool (bb_bvuge sat_psolver (BV a) (BV b) s) s
      (\<lambda>m r. r \<longleftrightarrow> bits_val (map (lit_val m) a) \<ge> bits_val (map (lit_val m) b))"
    by (rule returns_boolI, rule satp.wpr_bvuge [OF A]) simp
  show "returns_bool (bb_bvsle sat_psolver (BV a) (BV b) s) s
      (\<lambda>m r. r \<longleftrightarrow> bits_sval (map (lit_val m) a) \<le> bits_sval (map (lit_val m) b))"
    by (rule returns_boolI, rule satp.wpr_bvsle [OF A]) simp
  show "returns_bool (bb_bvsge sat_psolver (BV a) (BV b) s) s
      (\<lambda>m r. r \<longleftrightarrow> bits_sval (map (lit_val m) a) \<ge> bits_sval (map (lit_val m) b))"
    by (rule returns_boolI, rule satp.wpr_bvsge [OF A]) simp
qed

theorem bv_comparisons_witness:
  "\<exists>l s. bb_bvslt sat_psolver (BV [1, -1, 1]) (BV [-1, 1, -1]) demo_clauses = Inr (Base l, s) \<and>
    (\<forall>m. sat_mdl s m \<longrightarrow> lit_val m l = True)"
  by (rule demo_bool [OF bv_comparisons [of demo_clauses "[1, -1, 1]" "[-1, 1, -1]", OF demo_args,
        THEN conjunct2, THEN conjunct2, THEN conjunct1]])
    (simp_all add: bits_sval_def)

text \<open>C26: the three shifts by a vector are division, multiplication and signed (flooring) division by a
  power of two, for every value of the amount, the ones past the width included.\<close>

theorem bv_shifts:
  assumes "sat_args s (a @ v)" and "length v = length a" and "a \<noteq> []" and "length a \<le> 2 ^ 32"
  shows "returns_bv (bb_bvshr sat_psolver (BV a) (BV v) s) s (length a)
      (\<lambda>m r. bits_val r = bits_val (map (lit_val m) a) div 2 ^ bits_val (map (lit_val m) v)) \<and>
    returns_bv (bb_bvshl sat_psolver (BV a) (BV v) s) s (length a)
      (\<lambda>m r. bits_val r =
         2 ^ bits_val (map (lit_val m) v) * bits_val (map (lit_val m) a) mod 2 ^ length a) \<and>
    returns_bv (bb_bvashr sat_psolver (BV a) (BV v) s) s (length a)
      (\<lambda>m r. bits_sval r = bits_sval (map (lit_val m) a) div 2 ^ bits_val (map (lit_val m) v))"
proof (intro conjI)
  note A = sat_args_env [OF assms(1)] sat_args_subset assms(2,4)
  show "returns_bv (bb_bvshr sat_psolver (BV a) (BV v) s) s (length a)
      (\<lambda>m r. bits_val r = bits_val (map (lit_val m) a) div 2 ^ bits_val (map (lit_val m) v))"
    by (rule returns_bvI, rule satp.wpr_bvshr [OF A])
  show "returns_bv (bb_bvshl sat_psolver (BV a) (BV v) s) s (length a)
      (\<lambda>m r. bits_val r =
         2 ^ bits_val (map (lit_val m) v) * bits_val (map (lit_val m) a) mod 2 ^ length a)"
    by (rule returns_bvI, rule satp.wpr_bvshl [OF A])
  show "returns_bv (bb_bvashr sat_psolver (BV a) (BV v) s) s (length a)
      (\<lambda>m r. bits_sval r = bits_sval (map (lit_val m) a) div 2 ^ bits_val (map (lit_val m) v))"
    by (rule returns_bvI, rule satp.wpr_bvashr [OF A _ assms(3)])
qed

theorem bv_shifts_witness:
  "\<exists>ls s. bb_bvshr sat_psolver (BV [1, -1, 1]) (BV [-1, 1, -1]) demo_clauses = Inr (BV ls, s) \<and>
    length ls = length [1 :: int, -1, 1] \<and> (\<forall>m. sat_mdl s m \<longrightarrow> bits_val (map (lit_val m) ls) = 1)"
  by (rule demo_bv [OF bv_shifts [of demo_clauses "[1, -1, 1]" "[-1, 1, -1]", OF demo_args, THEN conjunct1]])
    (simp_all add: div_eq_1)

text \<open>The bitwise operators apply their gate at every position.\<close>

theorem bv_bitwise:
  assumes "sat_args s (a @ b)" and "length a = length b"
  shows "returns_bv (bb_bitwise sat_psolver t (BV a) (BV b) s) s (length a)
      (\<lambda>m r. r = map2 (tag2_sem t) (map (lit_val m) a) (map (lit_val m) b)) \<and>
    returns_bv (bb_bvnot sat_psolver (BV a) s) s (length a) (\<lambda>m r. r = map Not (map (lit_val m) a))"
proof (intro conjI)
  note A = sat_args_env [OF assms(1)] and sub = sat_args_subset
  show "returns_bv (bb_bitwise sat_psolver t (BV a) (BV b) s) s (length a)
      (\<lambda>m r. r = map2 (tag2_sem t) (map (lit_val m) a) (map (lit_val m) b))"
    by (rule returns_bvI, rule satp.wpr_bitwise [OF A sub assms(2)])
  show "returns_bv (bb_bvnot sat_psolver (BV a) s) s (length a) (\<lambda>m r. r = map Not (map (lit_val m) a))"
    by (rule returns_bvI, rule satp.wpr_bvnot [OF A sub(1)])
qed

theorem bv_bitwise_witness:
  "\<exists>ls s. bb_bvnand sat_psolver (BV [1, -1, 1]) (BV [-1, 1, 1]) demo_clauses = Inr (BV ls, s) \<and>
    length ls = length [1 :: int, -1, 1] \<and> (\<forall>m. sat_mdl s m \<longrightarrow> bits_val (map (lit_val m) ls) = 3)"
  unfolding bb_bvnand_def
  by (rule demo_bv [OF bv_bitwise [of demo_clauses "[1, -1, 1]" "[-1, 1, 1]", OF demo_args, THEN conjunct1]])
    simp_all

text \<open>The number a string of hexadecimal digits stands for.\<close>

definition hex_value :: "char \<Rightarrow> nat" where
  "hex_value c = (let n = of_char c in if n \<le> 57 then n - 48 else if n \<le> 70 then n - 55 else n - 87)"

definition hex_chars :: string where
  "hex_chars = ''0123456789abcdefABCDEF''"

lemma hex_digit_value: "c \<in> set hex_chars \<Longrightarrow> length (hex_digit c) = 4 \<and> bits_val (hex_digit c) = hex_value c"
  by (auto simp: hex_chars_def hex_digit.simps hex_value_def Let_def)

lemma hex_bits_value:
  assumes "set str \<subseteq> set hex_chars"
  shows "length (hex_bits str) = 4 * length str \<and>
    bits_val (hex_bits str) = foldl (\<lambda>n c. 16 * n + hex_value c) 0 str"
proof -
  have len: "length (concat (map hex_digit (rev str))) = 4 * length str"
    using assms by (induction str) (auto dest: hex_digit_value)
  have "bits_val (concat (map hex_digit (rev str))) = foldl (\<lambda>n c. 16 * n + hex_value c) 0 str"
    using assms
  proof (induction str rule: rev_induct)
    case (snoc c cs)
    then show ?case using hex_digit_value [of c] by (simp add: bits_val_append)
  qed simp
  then show ?thesis using len by (simp add: hex_bits_def Let_def)
qed

lemma copy_constants:
  assumes "sat_args s []"
  shows "returns_bv (let (z, s) = ps_false sat_psolver s; (o1, s) = ps_true sat_psolver s
      in Inr (BV (map (\<lambda>b. if b then o1 else z) bs), s)) s (length bs) (\<lambda>m r. r = bs)"
proof (rule returns_bvI, rule wpr_Let_case, rule satp.wp_false [OF sat_args_env [OF assms]],
    rule wpr_Let_case, rule satp.wp_true, assumption)
  fix Q z s' o1 s''
  assume Q: "\<And>rs s'. length rs = length bs \<Longrightarrow>
      satp.env s s' (set rs \<union> {}) (\<lambda>m. True \<and> map (lit_val m) rs = bs) \<Longrightarrow> Q (BV rs) s'"
    and env: "satp.env s s'' (insert o1 (insert z (set []))) (\<lambda>m. (True \<and> \<not> lit_val m z) \<and> lit_val m o1)"
  show "wpr (Inr (BV (map (\<lambda>b. if b then o1 else z) bs), s'')) Q"
    unfolding wpr_Inr by (rule Q, simp, rule satp.env_mono [OF env], auto intro!: map_idI split: if_splits)
qed

text \<open>C27: a constant has the value it was written with: \<open>bvuint\<close> the low bits of the number, \<open>bvhex\<close>
  the number its hexadecimal digits stand for.\<close>

theorem bv_constants:
  assumes "sat_args s []" and "set str \<subseteq> set hex_chars"
  shows "returns_bv (bb_bvuint sat_psolver v w s) s w (\<lambda>m r. bits_val r = unat v mod 2 ^ w) \<and>
    returns_bv (bb_bvhex sat_psolver str s) s (4 * length str)
      (\<lambda>m r. bits_val r = foldl (\<lambda>n c. 16 * n + hex_value c) 0 str)"
proof (intro conjI)
  show "returns_bv (bb_bvuint sat_psolver v w s) s w (\<lambda>m r. bits_val r = unat v mod 2 ^ w)"
    by (rule returns_bv_mono, rule returns_bvI, rule satp.wpr_bvuint [OF sat_args_env [OF assms(1)]], assumption)
      (simp add: bits_val_uint_bits)
  show "returns_bv (bb_bvhex sat_psolver str s) s (4 * length str)
      (\<lambda>m r. bits_val r = foldl (\<lambda>n c. 16 * n + hex_value c) 0 str)"
    using copy_constants [OF assms(1), of "hex_bits str"] hex_bits_value [OF assms(2)]
    unfolding bb_bvhex_def by (auto elim!: returns_bv_mono)
qed

theorem bv_constants_witness:
  "\<exists>ls s. bb_bvhex sat_psolver ''aF'' demo_clauses = Inr (BV ls, s) \<and>
    length ls = 4 * length ''aF'' \<and> (\<forall>m. sat_mdl s m \<longrightarrow> bits_val (map (lit_val m) ls) = 175)"
  by (rule demo_bv [OF bv_constants [of demo_clauses "''aF''", OF demo_args, THEN conjunct2]])
    (simp_all add: hex_chars_def hex_value_def)

end
