(* ===== verification/MetaSat.thy ===== *)
theory MetaSat
  imports BitSat Visitor
begin

text \<open>
  The whole way from a constraint to clauses: the visitor over the bit blaster over the clause generator.
  The statements speak of expressions, assignments to their variables and models of the clauses sent to
  the SAT solver.
\<close>

section \<open>Solutions\<close>

text \<open>The assignments a visitor's clauses admit: those some model gives to the translated variables.\<close>

definition sat_solutions :: "(nat \<Rightarrow> smt_sort) \<Rightarrow> (sat_clause, lit) meta \<Rightarrow> (nat \<Rightarrow> smt_val) set" where
  "sat_solutions d v = {\<rho>. typed d \<rho> \<and>
     (\<exists>m. sat_mdl (mv_solver v) m \<and> (\<forall>i r. mv_terminals v i = Some r \<longrightarrow> abs_bb (lit_val m) r = \<rho> i))}"

definition new_sat_meta :: "(sat_clause, lit) meta" where
  "new_sat_meta = new_meta (new_SAT_Clause 0)"

text \<open>An example: a variable below a bound.\<close>

definition less_than :: "nat \<Rightarrow> nat \<Rightarrow> u64 \<Rightarrow> node" where
  "less_than w i c = BinaryOperator LessOpr (VariableExpr i w False) (ConstantExpr (Constant c w False))"

lemma less_than_sorted: "0 < w \<Longrightarrow> w < 2 ^ 32 \<Longrightarrow> constraint_sorted (\<lambda>_. SBits w) (less_than w i c)"
  by (simp add: constraint_sorted_def less_than_def term_sort_def isBool_def)

text \<open>A solver that tries all assignments: the contract asked of a decision procedure can be kept.\<close>

definition sat_search :: "sat_clause \<Rightarrow> lit list \<Rightarrow> bool" where
  "sat_search s as \<longleftrightarrow> list_ex (\<lambda>bs. let m = (\<lambda>i. i < length bs \<and> bs ! i) in
       list_all (list_ex (lit_val m)) (clauses s) \<and> list_all (lit_val m) as)
     (List.n_lists (last_id s + 1) [False, True])"

definition sat_decides :: "(sat_clause \<Rightarrow> lit list \<Rightarrow> bool) \<Rightarrow> bool" where
  "sat_decides slv \<longleftrightarrow> (\<forall>s as. sat_inv s \<longrightarrow> (\<forall>a\<in>set as. lit_ok s a) \<longrightarrow>
     slv s as = (\<exists>m. sat_mdl s m \<and> (\<forall>a\<in>set as. lit_val m a)))"

lemma sat_search_decides: "sat_decides sat_search"
  unfolding sat_decides_def
proof (intro allI impI)
  fix s as assume s: "sat_inv s" and as: "\<forall>a\<in>set as. lit_ok s a"
  let ?cut = "\<lambda>m. map m [0..<last_id s + 1]"
  have cut: "lit_val (\<lambda>i. i < length (?cut m) \<and> ?cut m ! i) l = lit_val m l" if "lit_ok s l" for m l
    using that by (auto simp: lit_val_def lit_ok_def simp del: upt_Suc)
  have lits: "lit_ok s l" if "c \<in> set (clauses s)" "l \<in> set c" for c l
    using s that by (auto simp: sat_inv_def)
  show "sat_search s as = (\<exists>m. sat_mdl s m \<and> (\<forall>a\<in>set as. lit_val m a))"
  proof
    assume "sat_search s as"
    then obtain bs where "list_all (list_ex (lit_val (\<lambda>i. i < length bs \<and> bs ! i))) (clauses s)"
      "list_all (lit_val (\<lambda>i. i < length bs \<and> bs ! i)) as"
      unfolding sat_search_def Let_def list_ex_iff [where xs = "List.n_lists _ _"] by blast
    then show "\<exists>m. sat_mdl s m \<and> (\<forall>a\<in>set as. lit_val m a)"
      by (intro exI [of _ "\<lambda>i. i < length bs \<and> bs ! i"]) (auto simp: sat_mdl_def list_all_iff list_ex_iff)
  next
    assume "\<exists>m. sat_mdl s m \<and> (\<forall>a\<in>set as. lit_val m a)"
    then obtain m where m: "sat_mdl s m" "\<forall>a\<in>set as. lit_val m a" by blast
    have "?cut m \<in> set (List.n_lists (last_id s + 1) [False, True])"
      by (simp only: set_n_lists mem_Collect_eq length_map length_upt) auto
    moreover have "list_all (list_ex (lit_val (\<lambda>i. i < length (?cut m) \<and> ?cut m ! i))) (clauses s)"
      using m(1) lits cut [of _ m] unfolding list_all_iff list_ex_iff sat_mdl_def by blast
    moreover have "list_all (lit_val (\<lambda>i. i < length (?cut m) \<and> ?cut m ! i)) as"
      using m(2) as cut [of _ m] unfolding list_all_iff by blast
    ultimately show "sat_search s as" unfolding sat_search_def Let_def list_ex_iff by blast
  qed
qed

text \<open>Solvers that report the solution they found.\<close>

definition sat_answers :: "(sat_clause \<Rightarrow> lit list \<Rightarrow> (lit \<Rightarrow> bool) option) \<Rightarrow> bool" where
  "sat_answers slv \<longleftrightarrow> (\<forall>s as. sat_inv s \<longrightarrow> (\<forall>a\<in>set as. lit_ok s a) \<longrightarrow>
     (case slv s as of
        None \<Rightarrow> \<not> (\<exists>m. sat_mdl s m \<and> (\<forall>a\<in>set as. lit_val m a))
      | Some rd \<Rightarrow> \<exists>m. sat_mdl s m \<and> (\<forall>a\<in>set as. lit_val m a) \<and> (\<forall>b. lit_ok s b \<longrightarrow> rd b = lit_val m b)))"

text \<open>The search of all assignments again, now with the one it finds.\<close>

definition assignment :: "bool list \<Rightarrow> nat \<Rightarrow> bool" where
  "assignment bs i \<longleftrightarrow> i < length bs \<and> bs ! i"

definition sat_find :: "sat_clause \<Rightarrow> lit list \<Rightarrow> (lit \<Rightarrow> bool) option" where
  "sat_find s as = map_option (\<lambda>bs. lit_val (assignment bs))
     (find (\<lambda>bs. list_all (list_ex (lit_val (assignment bs))) (clauses s) \<and> list_all (lit_val (assignment bs)) as)
       (List.n_lists (last_id s + 1) [False, True]))"

lemma sat_find_None: "sat_find s as = None \<longleftrightarrow> \<not> sat_search s as"
  unfolding sat_find_def sat_search_def Let_def map_option_is_None find_None_iff assignment_def [abs_def]
    list_ex_iff [where xs = "List.n_lists _ _"] by blast

lemma sat_find_answers: "sat_answers sat_find"
  unfolding sat_answers_def
proof (intro allI impI)
  fix s as assume s: "sat_inv s" "\<forall>a\<in>set as. lit_ok s a"
  show "case sat_find s as of
        None \<Rightarrow> \<not> (\<exists>m. sat_mdl s m \<and> (\<forall>a\<in>set as. lit_val m a))
      | Some rd \<Rightarrow> \<exists>m. sat_mdl s m \<and> (\<forall>a\<in>set as. lit_val m a) \<and> (\<forall>b. lit_ok s b \<longrightarrow> rd b = lit_val m b)"
  proof (cases "sat_find s as")
    case None
    then have "\<not> sat_search s as" by (simp add: sat_find_None)
    then show ?thesis using sat_search_decides s by (simp add: None sat_decides_def)
  next
    case (Some rd)
    then obtain bs where bs: "rd = lit_val (assignment bs)"
      "list_all (list_ex (lit_val (assignment bs))) (clauses s)" "list_all (lit_val (assignment bs)) as"
      unfolding sat_find_def by (auto simp: find_Some_iff)
    then have "sat_mdl s (assignment bs)" "\<forall>a\<in>set as. lit_val (assignment bs) a"
      by (auto simp: sat_mdl_def list_all_iff list_ex_iff)
    then show ?thesis by (auto simp: Some bs(1))
  qed
qed

lemma sat_solutions: "sat_solutions d v = satp.sols d v"
  by (simp add: sat_solutions_def satp.sols_def satp.agree_def)

lemma sat_decides: "sat_decides slv = satp.decides slv"
  by (simp add: sat_decides_def satp.decides_def)

lemma sat_answers: "sat_answers slv = satp.answers slv"
  by (simp add: sat_answers_def satp.answers_def)

lemma new_sat_meta: "satp.vwf d new_sat_meta" "satp.sols d new_sat_meta = {\<rho>. typed d \<rho>}"
proof -
  have s: "mv_solver new_sat_meta = \<lparr>last_id = 1, true_lit = 1, clauses = [[1]]\<rparr>"
    by (simp add: new_sat_meta_def new_meta_def new_SAT_Clause_def new_lit_simp sat_assertion_def add_clause_def)
  then show "satp.vwf d new_sat_meta"
    by (simp add: satp.vwf_def sat_inv_def lit_ok_def new_sat_meta_def new_meta_def)
  have "sat_mdl (mv_solver new_sat_meta) (\<lambda>i. True)" by (simp add: s sat_mdl_def lit_val_def)
  then show "satp.sols d new_sat_meta = {\<rho>. typed d \<rho>}"
    by (auto simp: satp.sols_def satp.agree_def new_sat_meta_def new_meta_def)
qed

lemma each_run:
  assumes "\<And>v xs n. I v xs \<Longrightarrow> C n \<Longrightarrow> \<exists>v'. f n v = Inr v' \<and> I v' (xs @ [g n])" and "I v xs" and "list_all C ns"
  shows "\<exists>v'. each f ns v = Inr v' \<and> I v' (xs @ map g ns)"
  using assms(2,3)
proof (induction ns arbitrary: v xs)
  case (Cons n ns)
  obtain v1 where "f n v = Inr v1" "I v1 (xs @ [g n])" using assms(1) [OF Cons.prems(1)] Cons.prems(2) by auto
  then show ?case using Cons.IH [of v1 "xs @ [g n]"] Cons.prems(2) by simp
qed simp

lemma list_all2_ex: "list_all2 R xs ys \<Longrightarrow> \<forall>x\<in>set xs. \<exists>y. R x y"
  by (induction rule: list_all2_induct) auto

lemma holds_eq: "holds n = (\<lambda>\<rho>. smt_sem \<rho> n = VBool True)"
  by (simp add: holds_def fun_eq_iff)

text \<open>The states a sequence of registrations leads to: what is asserted and what the three lists mean.\<close>

definition registered :: "(nat \<Rightarrow> smt_sort) \<Rightarrow> ((nat \<Rightarrow> smt_val) \<Rightarrow> bool) list \<Rightarrow> ((nat \<Rightarrow> smt_val) \<Rightarrow> bool) list \<Rightarrow>
    ((nat \<Rightarrow> smt_val) \<Rightarrow> bool) list \<Rightarrow> ((nat \<Rightarrow> smt_val) \<Rightarrow> bool) list \<Rightarrow> (sat_clause, lit) meta \<Rightarrow> bool" where
  "registered d Hs Ss As Gs v \<longleftrightarrow> satp.vwf d v \<and> sat_solutions d v = {\<rho>. typed d \<rho> \<and> (\<forall>\<Phi>\<in>set Hs. \<Phi> \<rho>)} \<and>
     list_all2 (satp.means v) (mv_softs v) Ss \<and> list_all2 (satp.means v) (mv_assumptions v) As \<and>
     list_all2 (satp.means v) (mv_suggestions v) Gs"

lemma registered_new: "registered d [] [] [] [] new_sat_meta"
  using new_sat_meta [of d] by (simp add: registered_def sat_solutions) (simp add: new_sat_meta_def new_meta_def)

lemma registered_assertion:
  assumes "registered d Hs Ss As Gs v" and "constraint_sorted d n"
  shows "\<exists>v'. makeAssertion sat_psolver n v = Inr v' \<and> registered d (Hs @ [holds n]) Ss As Gs v'"
proof -
  obtain v1 where v1: "makeAssertion sat_psolver n v = Inr v1" "satp.same_lists v v1"
    "satp.cext d v v1 (\<lambda>\<rho>. smt_sem \<rho> n = VBool True)"
    using satp.makeAssertion_correct [of d v n] assms by (auto simp: registered_def constraint_sorted_def)
  have "list_all2 (satp.means v1) es \<Phi>s" if "list_all2 (satp.means v) es \<Phi>s" for es \<Phi>s
    using that by (rule list_all2_mono) (rule satp.means_mono [OF _ v1(3)])
  then have "satp.vwf d v1" "list_all2 (satp.means v1) (mv_softs v1) Ss" "list_all2 (satp.means v1) (mv_assumptions v1) As"
    "list_all2 (satp.means v1) (mv_suggestions v1) Gs"
    using assms(1) v1(2,3) by (auto simp: satp.cext_def satp.same_lists_def registered_def)
  moreover have "satp.sols d v1 = {\<rho> \<in> satp.sols d v. smt_sem \<rho> n = VBool True}" by (rule satp.sols_cext [OF v1(3)])
  moreover have "satp.sols d v = {\<rho>. typed d \<rho> \<and> (\<forall>\<Phi>\<in>set Hs. \<Phi> \<rho>)}"
    using assms(1) by (simp add: registered_def sat_solutions)
  ultimately have "registered d (Hs @ [holds n]) Ss As Gs v1"
    unfolding registered_def sat_solutions holds_eq by (simp only: set_append ball_Un list.set ball_simps mem_Collect_eq conj_assoc simp_thms)
  then show ?thesis using v1(1) by blast
qed

lemma registered_vext:
  assumes "registered d Hs Ss As Gs v" and "satp.vext d v w"
  shows "satp.vwf d w" "sat_solutions d w = {\<rho>. typed d \<rho> \<and> (\<forall>\<Phi>\<in>set Hs. \<Phi> \<rho>)}"
    "list_all2 (satp.means w) (mv_softs v) Ss" "list_all2 (satp.means w) (mv_assumptions v) As"
    "list_all2 (satp.means w) (mv_suggestions v) Gs"
  using assms satp.sols_vext [OF assms(2)] satp.vextD(1) [OF assms(2)] satp.list_all2_means_vext [OF _ assms(2)]
  by (simp_all add: registered_def sat_solutions)

lemma registered_soft:
  assumes r: "registered d Hs Ss As Gs v" and "constraint_sorted d n"
  shows "\<exists>v'. makeSoftAssertion sat_psolver n v = Inr v' \<and> registered d Hs (Ss @ [holds n]) As Gs v'"
proof -
  obtain w where w: "makeSoftAssertion sat_psolver n v = Inr w" "satp.vext d v w" "mv_assumptions w = mv_assumptions v"
    "mv_suggestions w = mv_suggestions v" "list_all2 (satp.means w) (mv_softs w) (Ss @ [holds n])"
    using satp.makeSoftAssertion_correct [of d v n Ss] assms by (auto simp: registered_def constraint_sorted_def holds_eq)
  then show ?thesis using registered_vext [OF r w(2)] by (simp add: registered_def)
qed

lemma registered_assumption:
  assumes r: "registered d Hs Ss As Gs v" and "constraint_sorted d n"
  shows "\<exists>v'. makeAssumption sat_psolver n v = Inr v' \<and> registered d Hs Ss (As @ [holds n]) Gs v'"
proof -
  obtain w where w: "makeAssumption sat_psolver n v = Inr w" "satp.vext d v w" "mv_softs w = mv_softs v"
    "mv_suggestions w = mv_suggestions v" "list_all2 (satp.means w) (mv_assumptions w) (As @ [holds n])"
    using satp.makeAssumption_correct [of d v n As] assms by (auto simp: registered_def constraint_sorted_def holds_eq)
  then show ?thesis using registered_vext [OF r w(2)] by (simp add: registered_def)
qed

lemma registered_suggestion:
  assumes r: "registered d Hs Ss As Gs v" and "constraint_sorted d n"
  shows "\<exists>v'. makeSuggestion sat_psolver n v = Inr v' \<and> registered d Hs Ss As (Gs @ [holds n]) v'"
proof -
  obtain w where w: "makeSuggestion sat_psolver n v = Inr w" "satp.vext d v w" "mv_softs w = mv_softs v"
    "mv_assumptions w = mv_assumptions v" "list_all2 (satp.means w) (mv_suggestions w) (Gs @ [holds n])"
    using satp.makeSuggestion_correct [of d v n Gs] assms by (auto simp: registered_def constraint_sorted_def holds_eq)
  then show ?thesis using registered_vext [OF r w(2)] by (simp add: registered_def)
qed

lemma assert_each:
  assumes "list_all (constraint_sorted d) ns"
  obtains v where "each (makeAssertion sat_psolver) ns new_sat_meta = Inr v" "registered d (map holds ns) [] [] [] v"
proof -
  have "\<exists>v'. each (makeAssertion sat_psolver) ns new_sat_meta = Inr v' \<and> registered d ([] @ map holds ns) [] [] [] v'"
    by (rule each_run [where I = "\<lambda>v xs. registered d xs [] [] [] v" and C = "constraint_sorted d"],
        erule (1) registered_assertion, rule registered_new, rule assms)
  then show thesis using that by auto
qed

lemma soft_each:
  assumes "registered d Hs [] As Gs v" and "list_all (constraint_sorted d) ns"
  obtains v' where "each (makeSoftAssertion sat_psolver) ns v = Inr v'" "registered d Hs (map holds ns) As Gs v'"
  using each_run [where I = "\<lambda>v xs. registered d Hs xs As Gs v" and C = "constraint_sorted d" and f = "makeSoftAssertion sat_psolver" and g = holds and ns = ns and xs = "[]"]
    registered_soft assms by fastforce

lemma assumption_each:
  assumes "registered d Hs Ss [] Gs v" and "list_all (constraint_sorted d) ns"
  obtains v' where "each (makeAssumption sat_psolver) ns v = Inr v'" "registered d Hs Ss (map holds ns) Gs v'"
  using each_run [where I = "\<lambda>v xs. registered d Hs Ss xs Gs v" and C = "constraint_sorted d" and f = "makeAssumption sat_psolver" and g = holds and ns = ns and xs = "[]"]
    registered_assumption assms by fastforce

lemma suggestion_each:
  assumes "registered d Hs Ss As [] v" and "list_all (constraint_sorted d) ns"
  obtains v' where "each (makeSuggestion sat_psolver) ns v = Inr v'" "registered d Hs Ss As (map holds ns) v'"
  using each_run [where I = "\<lambda>v xs. registered d Hs Ss As xs v" and C = "constraint_sorted d" and f = "makeSuggestion sat_psolver" and g = holds and ns = ns and xs = "[]"]
    registered_suggestion assms by fastforce

section \<open>Properties\<close>

text \<open>C4: asserting well-sorted constraints one after the other succeeds, and the clauses that reach the
  SAT solver admit exactly the assignments under which every constraint holds: none is lost, none is
  invented.\<close>

theorem assertions_exact:
  assumes "list_all (constraint_sorted d) hards"
  shows "\<exists>v. each (makeAssertion sat_psolver) hards new_sat_meta = Inr v \<and>
    sat_solutions d v = {\<rho>. typed d \<rho> \<and> (\<forall>n\<in>set hards. holds n \<rho>)}"
proof -
  obtain v where "each (makeAssertion sat_psolver) hards new_sat_meta = Inr v" "registered d (map holds hards) [] [] [] v"
    by (rule assert_each [OF assms])
  then show ?thesis by (simp add: registered_def)
qed

theorem assertions_exact_witness:
  "\<exists>v. each (makeAssertion sat_psolver) [less_than 4 0 5] new_sat_meta = Inr v \<and>
    sat_solutions (\<lambda>_. SBits 4) v = {\<rho>. typed (\<lambda>_. SBits 4) \<rho> \<and> (\<forall>n\<in>set [less_than 4 0 5]. holds n \<rho>)}"
  by (rule assertions_exact) (simp add: less_than_sorted)

text \<open>C10: soft constraints are resolved in the order they were added: given the hard constraints, the
  rejected positions are those of the greedy choice, a constraint being dropped exactly when no solution
  of the hard and the soft constraints kept so far satisfies it, and the solver is left with the solutions
  of the hard and the kept constraints.\<close>

theorem soft_constraints_greedy:
  assumes "list_all (constraint_sorted d) hards" and "list_all (constraint_sorted d) softs" and "sat_decides slv"
  shows "\<exists>v w r w'. each (makeAssertion sat_psolver) hards new_sat_meta = Inr v \<and>
    each (makeSoftAssertion sat_psolver) softs v = Inr w \<and> analyseSofts sat_psolver slv w = Inr (r, w') \<and>
    (r, sat_solutions d w') = best_softs {\<rho>. typed d \<rho> \<and> (\<forall>n\<in>set hards. holds n \<rho>)} 0 (map holds softs)"
proof -
  obtain v where v: "each (makeAssertion sat_psolver) hards new_sat_meta = Inr v" "registered d (map holds hards) [] [] [] v"
    by (rule assert_each [OF assms(1)])
  obtain w where w: "each (makeSoftAssertion sat_psolver) softs v = Inr w" "registered d (map holds hards) (map holds softs) [] [] w"
    by (rule soft_each [OF v(2) assms(2)])
  obtain r w' where "analyseSofts sat_psolver slv w = Inr (r, w')"
    "best_softs (satp.sols d w) 0 (map holds softs) = (r, satp.sols d w')"
    using satp.analyseSofts_best [OF assms(3) [unfolded sat_decides], of d w "map holds softs"] w(2)
    by (auto simp: registered_def)
  then show ?thesis using v w by (simp add: sat_solutions registered_def)
qed

theorem soft_constraints_greedy_witness:
  "\<exists>v w r w'. each (makeAssertion sat_psolver) [less_than 4 0 5] new_sat_meta = Inr v \<and>
    each (makeSoftAssertion sat_psolver) [less_than 4 0 0, less_than 4 0 3] v = Inr w \<and>
    analyseSofts sat_psolver sat_search w = Inr (r, w') \<and>
    (r, sat_solutions (\<lambda>_. SBits 4) w') =
      best_softs {\<rho>. typed (\<lambda>_. SBits 4) \<rho> \<and> (\<forall>n\<in>set [less_than 4 0 5]. holds n \<rho>)} 0
        (map holds [less_than 4 0 0, less_than 4 0 3])"
  by (rule soft_constraints_greedy [OF _ _ sat_search_decides]) (simp_all add: less_than_sorted)

text \<open>C7: with any decision procedure for clauses and any source of random numbers in range, a solve over
  registered constraints returns, and returns true exactly when some assignment satisfies the hard
  constraints, the assumptions and, unless they are ignored, the soft constraints. Suggestions are given up
  one by one and never decide the outcome; the values then read for the variables are those of such an
  assignment; assumptions and suggestions are forgotten, and the constraints of the solver stay what they
  were.\<close>

theorem solve_decides:
  assumes "list_all (constraint_sorted d) hards" and "list_all (constraint_sorted d) softs"
    and "list_all (constraint_sorted d) assums" and "list_all (constraint_sorted d) suggs"
    and "sat_answers slv" and "\<And>r n. 0 < n \<Longrightarrow> fst (rnd r n) < n"
  shows "\<exists>v v1 v2 v3 a r' w. each (makeAssertion sat_psolver) hards new_sat_meta = Inr v \<and>
    each (makeSoftAssertion sat_psolver) softs v = Inr v1 \<and> each (makeAssumption sat_psolver) assums v1 = Inr v2 \<and>
    each (makeSuggestion sat_psolver) suggs v2 = Inr v3 \<and> solve sat_psolver slv rnd ignoreSofts r v3 = Inr (a, r', w) \<and>
    (let ns = set hards \<union> set assums \<union> (if ignoreSofts then {} else set softs) in
      case a of None \<Rightarrow> \<not> (\<exists>\<rho>. typed d \<rho> \<and> (\<forall>n\<in>ns. holds n \<rho>))
      | Some f \<Rightarrow> \<exists>\<rho>. typed d \<rho> \<and> (\<forall>n\<in>ns. holds n \<rho>) \<and> (\<forall>i e. mv_terminals w i = Some e \<longrightarrow> abs_bb f e = \<rho> i)) \<and>
    mv_assumptions w = [] \<and> mv_suggestions w = [] \<and> mv_softs w = mv_softs v3 \<and>
    sat_solutions d w = {\<rho>. typed d \<rho> \<and> (\<forall>n\<in>set hards. holds n \<rho>)}"
proof -
  obtain v where v: "each (makeAssertion sat_psolver) hards new_sat_meta = Inr v" "registered d (map holds hards) [] [] [] v"
    by (rule assert_each [OF assms(1)])
  obtain v1 where v1: "each (makeSoftAssertion sat_psolver) softs v = Inr v1" "registered d (map holds hards) (map holds softs) [] [] v1"
    by (rule soft_each [OF v(2) assms(2)])
  obtain v2 where v2: "each (makeAssumption sat_psolver) assums v1 = Inr v2"
    "registered d (map holds hards) (map holds softs) (map holds assums) [] v2"
    by (rule assumption_each [OF v1(2) assms(3)])
  obtain v3 where v3: "each (makeSuggestion sat_psolver) suggs v2 = Inr v3"
    "registered d (map holds hards) (map holds softs) (map holds assums) (map holds suggs) v3"
    by (rule suggestion_each [OF v2(2) assms(4)])
  have "list_all2 (satp.means v3) (mv_suggestions v3) (map holds suggs)" using v3(2) by (simp add: registered_def)
  then have g: "\<forall>e\<in>set (mv_suggestions v3). \<exists>\<Phi>. satp.means v3 e \<Phi>"
    by (rule list_all2_ex)
  have r: "satp.vwf d v3" "list_all2 (satp.means v3) (mv_assumptions v3) (map holds assums)"
    "list_all2 (satp.means v3) (mv_softs v3) (map holds softs)"
    using v3(2) by (simp_all add: registered_def)
  let ?As = "map holds assums" and ?Ss = "map holds softs"
  have "\<exists>a r' w. solve sat_psolver slv rnd ignoreSofts r v3 = Inr (a, r', w) \<and> mv_assumptions w = [] \<and> mv_suggestions w = [] \<and>
    mv_softs w = mv_softs v3 \<and> satp.sols d w = satp.sols d v3 \<and> satp.vwf d w \<and> mv_terminals w = mv_terminals v3 \<and>
    satp.vext d v3 w \<and>
    satp.reads d w (\<lambda>\<rho>. (\<forall>\<Phi>\<in>set ?As. \<Phi> \<rho>) \<and> (ignoreSofts \<or> (\<forall>\<Phi>\<in>set ?Ss. \<Phi> \<rho>))) a"
    by (rule satp.solve_correct [OF _ _ r g]) (use assms(5,6) in \<open>simp_all add: sat_answers\<close>)
  then obtain a r' w where w: "solve sat_psolver slv rnd ignoreSofts r v3 = Inr (a, r', w)"
    "mv_assumptions w = []" "mv_suggestions w = []" "mv_softs w = mv_softs v3" "satp.sols d w = satp.sols d v3"
    and reads: "satp.reads d w (\<lambda>\<rho>. (\<forall>\<Phi>\<in>set ?As. \<Phi> \<rho>) \<and> (ignoreSofts \<or> (\<forall>\<Phi>\<in>set ?Ss. \<Phi> \<rho>))) a"
    by (elim exE conjE)
  have sols: "satp.sols d v3 = {\<rho>. typed d \<rho> \<and> (\<forall>n\<in>set hards. holds n \<rho>)}"
    using v3(2) by (simp add: registered_def sat_solutions)
  have all: "(\<forall>n\<in>set hards \<union> set assums \<union> (if ignoreSofts then {} else set softs). holds n \<rho>) \<longleftrightarrow>
      (\<forall>n\<in>set hards. holds n \<rho>) \<and> (\<forall>\<Phi>\<in>set ?As. \<Phi> \<rho>) \<and> (ignoreSofts \<or> (\<forall>\<Phi>\<in>set ?Ss. \<Phi> \<rho>))" for \<rho>
    by (cases ignoreSofts) (simp_all add: ball_Un)
  have aw: "let ns = set hards \<union> set assums \<union> (if ignoreSofts then {} else set softs) in
      case a of None \<Rightarrow> \<not> (\<exists>\<rho>. typed d \<rho> \<and> (\<forall>n\<in>ns. holds n \<rho>))
      | Some f \<Rightarrow> \<exists>\<rho>. typed d \<rho> \<and> (\<forall>n\<in>ns. holds n \<rho>) \<and> (\<forall>i e. mv_terminals w i = Some e \<longrightarrow> abs_bb f e = \<rho> i)"
    using reads unfolding satp.reads_def w(5) sols Let_def all by (cases a) (simp_all only: option.case mem_Collect_eq Bex_def conj_assoc not_False_eq_True)
  have sw: "sat_solutions d w = {\<rho>. typed d \<rho> \<and> (\<forall>n\<in>set hards. holds n \<rho>)}"
    using w(5) sols by (simp add: sat_solutions)
  show ?thesis
    by (intro exI conjI) (fact v(1) v1(1) v2(1) v3(1) w(1) aw w(2-4) sw)+
qed

theorem solve_decides_witness:
  "\<exists>v v1 v2 v3 a r' w. each (makeAssertion sat_psolver) [less_than 4 0 5] new_sat_meta = Inr v \<and>
    each (makeSoftAssertion sat_psolver) [less_than 4 0 0] v = Inr v1 \<and>
    each (makeAssumption sat_psolver) [less_than 4 0 3] v1 = Inr v2 \<and>
    each (makeSuggestion sat_psolver) [less_than 4 0 0] v2 = Inr v3 \<and>
    solve sat_psolver sat_find (\<lambda>r n. (r mod n, Suc r)) True (0::nat) v3 = Inr (a, r', w) \<and>
    (let ns = set [less_than 4 0 5] \<union> set [less_than 4 0 3] \<union> (if True then {} else set [less_than 4 0 0]) in
      case a of None \<Rightarrow> \<not> (\<exists>\<rho>. typed (\<lambda>_. SBits 4) \<rho> \<and> (\<forall>n\<in>ns. holds n \<rho>))
      | Some f \<Rightarrow> \<exists>\<rho>. typed (\<lambda>_. SBits 4) \<rho> \<and> (\<forall>n\<in>ns. holds n \<rho>) \<and>
          (\<forall>i e. mv_terminals w i = Some e \<longrightarrow> abs_bb f e = \<rho> i)) \<and>
    mv_assumptions w = [] \<and> mv_suggestions w = [] \<and> mv_softs w = mv_softs v3 \<and>
    sat_solutions (\<lambda>_. SBits 4) w = {\<rho>. typed (\<lambda>_. SBits 4) \<rho> \<and> (\<forall>n\<in>set [less_than 4 0 5]. holds n \<rho>)}"
  by (rule solve_decides [OF _ _ _ _ sat_find_answers]) (simp_all add: less_than_sorted)

text \<open>A quotient of a signed and an unsigned variable compared with a third variable of their width.\<close>

definition mixed_division :: "nat \<Rightarrow> nat \<Rightarrow> nat \<Rightarrow> nat \<Rightarrow> bool \<Rightarrow> node" where
  "mixed_division w i j k sg = BinaryOperator EqualOpr
     (BinaryOperator DevideOpr (VariableExpr i w True) (VariableExpr j w False)) (VariableExpr k w sg)"

lemma mixed_division_visit:
  assumes "1 < w" and "w < 2 ^ 32"
  shows "meta_visit sat_psolver (mixed_division w i j k sg) new_sat_meta = Inl AssertionFailure"
proof -
  let ?q = "BinaryOperator DevideOpr (VariableExpr i w True) (VariableExpr j w False)"
  let ?d = "\<lambda>_::nat. SBits w"
  have t: "term_sort w b = SBits w" for b using assms(1) by (simp add: term_sort_def isBool_def)
  obtain v1 e where v1: "meta_visit sat_psolver ?q new_sat_meta = Inr v1"
    and o1: "satp.outcome ?d new_sat_meta v1 e (smt_sign ?q) (SBits (w + 1)) (\<lambda>\<rho>. smt_sem \<rho> ?q)"
    using satp.translate [OF new_sat_meta(1) [of ?d], of ?q "SBits (w + 1)"] assms by (auto simp: t)
  note D1 = satp.outcomeD [OF o1]
  obtain v2 f where v2: "meta_visit sat_psolver (VariableExpr k w sg) v1 = Inr v2"
    and o2: "satp.outcome ?d v1 v2 f (smt_sign (VariableExpr k w sg)) (SBits w) (\<lambda>\<rho>. smt_sem \<rho> (VariableExpr k w sg))"
    using satp.translate [OF satp.vextD(1) [OF D1(1)], of "VariableExpr k w sg" "SBits w"] by (auto simp: t)
  obtain as bs where "e = BV as" "length as = w + 1" "f = BV bs" "length bs = w"
    using D1(2) satp.outcomeD(2) [OF o2] by (auto simp: bb_sort_eq)
  then have "mv_binary (meta_binop sat_psolver EqualOpr) v2 = Inl AssertionFailure"
    using D1(4) satp.outcomeD(4) [OF o2] by (simp add: mv_binary_def meta_binop_def binop_result_def)
  then show ?thesis using v1 v2 by (simp add: mixed_division_def)
qed

text \<open>C36: the quotient of a signed and an unsigned operand is one bit wider than its operands. The width
  pass takes it to be as wide as they are and leaves a comparison of it with an operand of that width as it
  is, and asserting the comparison ends in the failed assertion of the bit blaster's \<open>equal\<close>.\<close>

theorem mixed_sign_division:
  assumes "1 < w" and "w < 2 ^ 32"
  shows "fixWidth (mixed_division w i j k sg) = Inr (mixed_division w i j k sg) \<and>
    makeAssertion sat_psolver (mixed_division w i j k sg) new_sat_meta = Inl AssertionFailure"
  using mixed_division_visit [OF assms]
  by (simp add: makeAssertion_def) (simp add: mixed_division_def fixWidth_def fix_binop_def fix_operands_def)

theorem mixed_sign_division_witness:
  "makeAssertion sat_psolver (mixed_division 8 0 1 2 True) new_sat_meta = Inl AssertionFailure"
  using mixed_sign_division [of 8 0 1 2 True] by simp

end
