(* ===== verification/ConflictSat.thy ===== *)
theory ConflictSat
  imports MetaSat
begin

text \<open>
  Cardinality constraints and the analysis of contradictions over the clause generator: what their results
  mean for the clauses sent to the SAT solver, and for constraints and assignments.
\<close>

section \<open>Properties\<close>

text \<open>C37: whichever encoding is chosen, evaluating a cardinality constraint over usable literals returns a
  literal that is true in exactly the models in which the number of true literals has the relation asked for,
  and the clauses added are satisfiable in every model of those before.\<close>

theorem cardinality_exact:
  assumes "sat_inv s" and "\<forall>p\<in>set ps. lit_ok s p" and "length ps < 2 ^ 32" and "enc = ''bdd'' \<or> enc = ''adder''"
  shows "\<exists>r s'. eval_cardinality sat_psolver enc t ps c s = Inr (r, s') \<and>
    extends sat_inv lit_ok sat_mdl lit_val s s' \<and> lit_ok s' r \<and>
    (\<forall>m. sat_mdl s' m \<longrightarrow> lit_val m r = card_rel t (length (filter (lit_val m) ps)) c)"
proof -
  have "enc \<in> {''bdd'', ''adder''}" using assms(4) by simp
  then obtain r s' where "eval_cardinality sat_psolver enc t ps c s = Inr (r, s')" "extends sat_inv lit_ok sat_mdl lit_val s s'"
    "lit_ok s' r" "\<And>m. sat_mdl s' m \<Longrightarrow> lit_val m r = card_rel t (satp.ntrue m ps) c"
    using satp.eval_cardinalityE [OF assms(1-3)] by metis
  then show ?thesis by (auto simp: satp.ntrue_def)
qed

theorem cardinality_exact_witness:
  "\<exists>r s'. eval_cardinality sat_psolver ''bdd'' eq_tag [2, -3, 4] 2 \<lparr>last_id = 4, true_lit = 1, clauses = [[1]]\<rparr> = Inr (r, s') \<and>
    extends sat_inv lit_ok sat_mdl lit_val \<lparr>last_id = 4, true_lit = 1, clauses = [[1]]\<rparr> s' \<and> lit_ok s' r \<and>
    (\<forall>m. sat_mdl s' m \<longrightarrow> lit_val m r = card_rel eq_tag (length (filter (lit_val m) [2, -3, 4])) 2)"
  by (rule cardinality_exact) (simp_all add: sat_inv_def lit_ok_def)

lemma contradictions_sat:
  assumes "list_all (constraint_sorted d) ns" and "length ns < 2 ^ 32" and "sat_answers slv"
    and "enc = ''bdd'' \<or> enc = ''adder''"
  shows "\<exists>rs v. analyseContradiction sat_psolver enc slv x (List.enumerate 0 ns) new_sat_meta = Inr (rs, v) \<and>
    (rs = [] \<longleftrightarrow> (\<exists>\<rho>. typed d \<rho> \<and> (\<forall>n\<in>set ns. holds n \<rho>))) \<and>
    (\<forall>r\<in>set rs. sorted_wrt (<) r \<and> set r \<subseteq> {..<length ns} \<and> \<not> (\<exists>\<rho>. typed d \<rho> \<and> (\<forall>i\<in>set r. holds (ns ! i) \<rho>)) \<and>
      (\<forall>k\<in>set r. \<exists>\<rho>. typed d \<rho> \<and> (\<forall>i\<in>set r - {k}. holds (ns ! i) \<rho>))) \<and>
    (\<exists>\<rho>. typed d \<rho> \<and> (\<forall>i<length ns. (\<forall>r\<in>set rs. i \<notin> set r) \<longrightarrow> holds (ns ! i) \<rho>))"
proof -
  have ne: "satp.sols d new_sat_meta \<noteq> {}"
  proof -
    have "typed d (\<lambda>i. satp.default_val (d i))" by (auto simp: typed_def satp.default_val_def split: smt_sort.splits)
    then show ?thesis using new_sat_meta(2) [of d] by blast
  qed
  have ns: "\<forall>n\<in>set ns. decls_ok d n \<and> sort_of n = Some SBool" using assms(1) by (auto simp: list_all_iff constraint_sorted_def)
  have enc: "enc \<in> {''bdd'', ''adder''}" using assms(4) by simp
  have all: "(\<forall>i\<in>{..<length ns}. holds (ns ! i) \<rho>) = (\<forall>n\<in>set ns. holds n \<rho>)" for \<rho>
    unfolding all_set_conv_all_nth by auto
  note R = satp.analyseContradiction_correct [OF assms(3) [unfolded sat_answers] enc new_sat_meta(1) ne ns assms(2), of x]
  have poss: "(\<exists>\<rho>\<in>satp.sols d new_sat_meta. Q \<rho>) = (\<exists>\<rho>. typed d \<rho> \<and> Q \<rho>)" for Q by (simp add: new_sat_meta(2))
  have rest: "(\<forall>i\<in>{i. i < length ns \<and> A i}. B i) = (\<forall>i<length ns. A i \<longrightarrow> B i)" for A B by blast
  show ?thesis using R unfolding poss holds_def [symmetric] all rest .
qed

text \<open>C8: the analysis of contradictions of a list of well-sorted constraints returns with any solver that
  answers correctly. It reports nothing exactly when the constraints have a common solution; every set
  reported is a minimal conflict, without a solution but with one as soon as any of its members is left out;
  and the constraints in no report have a common solution, so disabling those reported repairs the whole.\<close>

theorem contradictions_minimal:
  assumes "list_all (constraint_sorted d) ns" and "length ns < 2 ^ 32" and "sat_answers slv"
    and "enc = ''bdd'' \<or> enc = ''adder''"
  shows "\<exists>rs v. analyseContradiction sat_psolver enc slv x (List.enumerate 0 ns) new_sat_meta = Inr (rs, v) \<and>
    (rs = [] \<longleftrightarrow> (\<exists>\<rho>. typed d \<rho> \<and> (\<forall>n\<in>set ns. holds n \<rho>))) \<and>
    (\<forall>r\<in>set rs. sorted_wrt (<) r \<and> set r \<subseteq> {..<length ns} \<and> \<not> (\<exists>\<rho>. typed d \<rho> \<and> (\<forall>i\<in>set r. holds (ns ! i) \<rho>)) \<and>
      (\<forall>k\<in>set r. \<exists>\<rho>. typed d \<rho> \<and> (\<forall>i\<in>set r - {k}. holds (ns ! i) \<rho>))) \<and>
    (\<exists>\<rho>. typed d \<rho> \<and> (\<forall>i<length ns. (\<forall>r\<in>set rs. i \<notin> set r) \<longrightarrow> holds (ns ! i) \<rho>))"
  using assms by (rule contradictions_sat)

theorem contradictions_minimal_witness:
  "\<exists>rs v. analyseContradiction sat_psolver ''bdd'' sat_find 0 (List.enumerate 0 [less_than 4 0 5, less_than 4 0 0]) new_sat_meta = Inr (rs, v) \<and>
    (rs = [] \<longleftrightarrow> (\<exists>\<rho>. typed (\<lambda>_. SBits 4) \<rho> \<and> (\<forall>n\<in>set [less_than 4 0 5, less_than 4 0 0]. holds n \<rho>)))"
  using contradictions_minimal [of "\<lambda>_. SBits 4" "[less_than 4 0 5, less_than 4 0 0]" sat_find "''bdd''" 0] sat_find_answers
  by (simp add: less_than_sorted del: List.enumerate_simps) blast

end
