(* ===== verification/VisitorSat.thy ===== *)
theory VisitorSat
  imports ConflictSat
begin

text \<open>
  The visitor over the bit blaster over the clause generator keeps the contract of \<open>metaSMTVisitor\<close>, with
  any decision procedure that answers correctly and any source of random numbers in range.
\<close>

section \<open>What an instance has been given\<close>

definition sat_reg :: "(nat \<Rightarrow> smt_sort) \<Rightarrow> (sat_clause, lit) meta \<times> (lit \<Rightarrow> bool) \<Rightarrow> node list \<Rightarrow> node list \<Rightarrow> node list \<Rightarrow> node list \<Rightarrow> bool" where
  "sat_reg d x H S A G \<longleftrightarrow> registered d (map holds H) (map holds S) (map holds A) (map holds G) (fst x) \<and>
     (\<forall>n\<in>set (H @ S @ A @ G). node_vars n \<subseteq> dom (mv_terminals (fst x)))"

lemma sat_reg_extend:
  assumes "sat_reg d (v, f) H S A G" and "rbind (meta_visit P n v) g = Inr w" and "\<And>x. g x = Inr w \<Longrightarrow> mv_terminals w = mv_terminals x"
  shows "\<forall>m\<in>insert n (set (H @ S @ A @ G)). node_vars m \<subseteq> dom (mv_terminals w)"
proof -
  obtain x where x: "meta_visit P n v = Inr x" "g x = Inr w" by (rule rbind_InrE [OF assms(2)])
  note t = meta_visit_terminals [OF x(1)]
  then have "dom (mv_terminals v) \<subseteq> dom (mv_terminals x)" by (simp add: map_le_implies_dom_le)
  then show ?thesis using t assms(1) assms(3) [OF x(2)] unfolding sat_reg_def fst_conv by (metis insert_iff subset_trans)
qed

lemma pop_terminals: "rbind (mv_pop x) g = Inr w \<Longrightarrow> (\<And>e y. g (e, y) = Inr w \<Longrightarrow> mv_terminals w = mv_terminals y) \<Longrightarrow>
    mv_terminals w = mv_terminals x"
  by (erule rbind_InrE) (metis mv_pop_terminals surj_pair)

lemma make_terminals:
  "rbind (mv_pop x) (\<lambda>(e, v). Inr (v\<lparr>mv_softs := mv_softs v @ [fst e]\<rparr>)) = Inr w \<Longrightarrow> mv_terminals w = mv_terminals x"
  "rbind (mv_pop x) (\<lambda>(e, v). Inr (v\<lparr>mv_suggestions := mv_suggestions v @ [fst e]\<rparr>)) = Inr w \<Longrightarrow> mv_terminals w = mv_terminals x"
  by (erule pop_terminals, force)+

lemma assertion_terminals:
  "rbind (mv_pop x) (\<lambda>(e, v). let (t, s) = bb_true P (mv_solver v) in
     rbind (bb_equal P (fst e) t s) (\<lambda>(r, s). rbind (bb_assertion P r s) (\<lambda>s. Inr (v\<lparr>mv_solver := s\<rparr>)))) = Inr w \<Longrightarrow>
   mv_terminals w = mv_terminals x"
  by (erule pop_terminals) (auto simp: rbind_eq_Inr split: prod.splits)

lemma assumption_terminals:
  "rbind (mv_pop x) (\<lambda>(e, v). let (t, s) = bb_true P (mv_solver v) in
     rbind (bb_equal P (fst e) t s) (\<lambda>(r, s). Inr (v\<lparr>mv_solver := s, mv_assumptions := mv_assumptions v @ [r]\<rparr>))) = Inr w \<Longrightarrow>
   mv_terminals w = mv_terminals x"
  by (erule pop_terminals) (auto simp: rbind_eq_Inr split: prod.splits)

lemma sat_reg_assertion:
  assumes "sat_reg d x H S A G" and "constraint_sorted d n"
  shows "\<exists>w. on_meta (makeAssertion sat_psolver n) x = Inr w \<and> sat_reg d w (H @ [n]) S A G"
proof -
  obtain v f where x: "x = (v, f)" by fastforce
  obtain w where w: "makeAssertion sat_psolver n v = Inr w"
    "registered d (map holds H @ [holds n]) (map holds S) (map holds A) (map holds G) w"
    using registered_assertion assms unfolding sat_reg_def x fst_conv by blast
  have "\<forall>m\<in>insert n (set (H @ S @ A @ G)). node_vars m \<subseteq> dom (mv_terminals w)"
    by (rule sat_reg_extend [OF assms(1) [unfolded x] w(1) [unfolded makeAssertion_def] assertion_terminals])
  then show ?thesis using w by (simp add: x on_meta_def sat_reg_def ball_Un)
qed

lemma sat_reg_soft:
  assumes "sat_reg d x H S A G" and "constraint_sorted d n"
  shows "\<exists>w. on_meta (makeSoftAssertion sat_psolver n) x = Inr w \<and> sat_reg d w H (S @ [n]) A G"
proof -
  obtain v f where x: "x = (v, f)" by fastforce
  obtain w where w: "makeSoftAssertion sat_psolver n v = Inr w"
    "registered d (map holds H) (map holds S @ [holds n]) (map holds A) (map holds G) w"
    using registered_soft assms unfolding sat_reg_def x fst_conv by blast
  have "\<forall>m\<in>insert n (set (H @ S @ A @ G)). node_vars m \<subseteq> dom (mv_terminals w)"
    by (rule sat_reg_extend [OF assms(1) [unfolded x] w(1) [unfolded makeSoftAssertion_def] make_terminals(1)])
  then show ?thesis using w by (simp add: x on_meta_def sat_reg_def ball_Un)
qed

lemma sat_reg_suggestion:
  assumes "sat_reg d x H S A G" and "constraint_sorted d n"
  shows "\<exists>w. on_meta (makeSuggestion sat_psolver n) x = Inr w \<and> sat_reg d w H S A (G @ [n])"
proof -
  obtain v f where x: "x = (v, f)" by fastforce
  obtain w where w: "makeSuggestion sat_psolver n v = Inr w"
    "registered d (map holds H) (map holds S) (map holds A) (map holds G @ [holds n]) w"
    using registered_suggestion assms unfolding sat_reg_def x fst_conv by blast
  have "\<forall>m\<in>insert n (set (H @ S @ A @ G)). node_vars m \<subseteq> dom (mv_terminals w)"
    by (rule sat_reg_extend [OF assms(1) [unfolded x] w(1) [unfolded makeSuggestion_def] make_terminals(2)])
  then show ?thesis using w by (simp add: x on_meta_def sat_reg_def ball_Un)
qed

lemma sat_reg_assumption:
  assumes "sat_reg d x H S A G" and "constraint_sorted d n"
  shows "\<exists>w. on_meta (makeAssumption sat_psolver n) x = Inr w \<and> sat_reg d w H S (A @ [n]) G"
proof -
  obtain v f where x: "x = (v, f)" by fastforce
  obtain w where w: "makeAssumption sat_psolver n v = Inr w"
    "registered d (map holds H) (map holds S) (map holds A @ [holds n]) (map holds G) w"
    using registered_assumption assms unfolding sat_reg_def x fst_conv by blast
  have "\<forall>m\<in>insert n (set (H @ S @ A @ G)). node_vars m \<subseteq> dom (mv_terminals w)"
    by (rule sat_reg_extend [OF assms(1) [unfolded x] w(1) [unfolded makeAssumption_def] assumption_terminals])
  then show ?thesis using w by (simp add: x on_meta_def sat_reg_def ball_Un)
qed

section \<open>Soft constraints, contradictions and solving\<close>

lemma best_softs_kept:
  "best_softs M k cs = (r, M') \<Longrightarrow> set r \<subseteq> {k..<k + length cs} \<and>
     M' = {x \<in> M. \<forall>j<length cs. k + j \<notin> set r \<longrightarrow> (cs ! j) x}"
proof (induction cs arbitrary: M k r M')
  case (Cons c cs)
  have split: "(\<forall>j<length (c # cs). k + j \<notin> R \<longrightarrow> ((c # cs) ! j) x) \<longleftrightarrow>
      (k \<notin> R \<longrightarrow> c x) \<and> (\<forall>j<length cs. k + 1 + j \<notin> R \<longrightarrow> (cs ! j) x)" for R x
    by (simp only: length_Cons All_less_Suc2) simp
  show ?case
  proof (cases "\<exists>x\<in>M. c x")
    case True
    then have "best_softs {x \<in> M. c x} (k + 1) cs = (r, M')" using Cons.prems by simp
    then have IH: "set r \<subseteq> {k + 1..<k + 1 + length cs}"
      "M' = {x \<in> {x \<in> M. c x}. \<forall>j<length cs. k + 1 + j \<notin> set r \<longrightarrow> (cs ! j) x}"
      using Cons.IH by blast+
    moreover from this(1) have "k \<notin> set r" by auto
    ultimately show ?thesis unfolding split by auto
  next
    case False
    then obtain r' where "best_softs M (k + 1) cs = (r', M')" "r = k # r'" using Cons.prems by (auto split: prod.splits)
    moreover from this(1) have IH: "set r' \<subseteq> {k + 1..<k + 1 + length cs}"
      "M' = {x \<in> M. \<forall>j<length cs. k + 1 + j \<notin> set r' \<longrightarrow> (cs ! j) x}"
      using Cons.IH by blast+
    ultimately show ?thesis unfolding split by auto
  qed
qed simp

lemma registered_models: "registered d (map holds H) Ss As Gs v \<Longrightarrow> satp.sols d v = models d (set H)"
  by (simp add: registered_def sat_solutions models_def)

lemma sat_reg_softs:
  assumes "sat_answers slv" and "sat_reg d x H S [] []"
  shows "\<exists>r w. on_meta_with (analyseSofts sat_psolver (\<lambda>s as. slv s as \<noteq> None)) x = Inr (r, w) \<and>
    r = fst (best_softs (models d (set H)) 0 (map holds S)) \<and> sat_reg d w (H @ nths S (- set r)) [] [] []"
proof -
  obtain v f where x: "x = (v, f)" by fastforce
  have v: "registered d (map holds H) (map holds S) [] [] v" and vars: "\<forall>n\<in>set (H @ S). node_vars n \<subseteq> dom (mv_terminals v)"
    using assms(2) by (simp_all add: sat_reg_def x)
  note R = v [unfolded registered_def]
  obtain r w where w: "analyseSofts sat_psolver (\<lambda>s as. slv s as \<noteq> None) v = Inr (r, w)" "satp.vwf d w" "mv_softs w = []"
    "mv_assumptions w = mv_assumptions v" "mv_suggestions w = mv_suggestions v" "mv_terminals w = mv_terminals v"
    and best: "best_softs (satp.sols d v) 0 (map holds S) = (r, satp.sols d w)"
    using satp.analyseSofts_best [OF satp.answers_decides [OF assms(1) [unfolded sat_answers]], of d v "map holds S"] R by blast
  note K = best_softs_kept [OF best]
  have "satp.sols d w = {\<rho>. typed d \<rho> \<and> (\<forall>\<Phi>\<in>set (map holds (H @ nths S (- set r))). \<Phi> \<rho>)}"
  proof -
    have "(\<forall>\<Phi>\<in>set (map holds (H @ nths S (- set r))). \<Phi> \<rho>) \<longleftrightarrow>
        (\<forall>n\<in>set H. holds n \<rho>) \<and> (\<forall>j<length (map holds S). 0 + j \<notin> set r \<longrightarrow> (map holds S ! j) \<rho>)" for \<rho>
      by (auto simp: set_nths)
    then show ?thesis using K unfolding registered_models [OF v] models_def by (simp only: mem_Collect_eq conj_assoc)
  qed
  moreover have "mv_assumptions v = []" "mv_suggestions v = []" using R by simp_all
  ultimately have "registered d (map holds (H @ nths S (- set r))) [] [] [] w"
    using w by (simp add: registered_def sat_solutions)
  moreover have "r = fst (best_softs (models d (set H)) 0 (map holds S))"
    using best by (simp add: registered_models [OF v])
  moreover have "\<forall>n\<in>set (H @ nths S (- set r)). node_vars n \<subseteq> dom (mv_terminals w)"
    using vars w(6) set_nths_subset [of S "- set r"] by auto
  ultimately show ?thesis using w(1) by (simp add: x on_meta_with_def sat_reg_def)
qed

lemma sat_reg_solve:
  assumes slv: "sat_answers slv" and rnd: "\<And>r n. 0 < n \<Longrightarrow> fst (rnd r n) < n" and reg: "sat_reg d x H S A G"
    and V: "V = meta_visitor sat_psolver enc slv rnd dflt s0"
  shows "\<exists>b r' w. vi_solve V ign r x = Inr (b, r', w) \<and> sat_reg d w H S [] [] \<and>
      (let ns = set H \<union> set A \<union> (if ign then {} else set S) in
       if b then \<exists>\<rho>\<in>models d ns.
         (\<forall>i k sg str. vi_read V (VariableExpr i k sg) w = Some str \<longrightarrow> str = val_string (\<rho> i)) \<and>
         (\<forall>n\<in>set (H @ S @ A @ G). \<forall>i\<in>node_vars n. \<forall>k sg. vi_read V (VariableExpr i k sg) w \<noteq> None)
       else models d ns = {})"
proof -
  obtain v f where x: "x = (v, f)" by fastforce
  have v: "registered d (map holds H) (map holds S) (map holds A) (map holds G) v"
    and vars: "\<forall>n\<in>set (H @ S @ A @ G). node_vars n \<subseteq> dom (mv_terminals v)"
    using reg by (simp_all add: sat_reg_def x)
  note R = v [unfolded registered_def]
  have g: "\<forall>e\<in>set (mv_suggestions v). \<exists>\<Phi>. satp.means v e \<Phi>" using R by (intro list_all2_ex) blast
  let ?Q = "\<lambda>\<rho>. (\<forall>\<Phi>\<in>set (map holds A). \<Phi> \<rho>) \<and> (ign \<or> (\<forall>\<Phi>\<in>set (map holds S). \<Phi> \<rho>))"
  have "\<exists>a r' w. solve sat_psolver slv rnd ign r v = Inr (a, r', w) \<and> mv_assumptions w = [] \<and> mv_suggestions w = [] \<and>
    mv_softs w = mv_softs v \<and> satp.sols d w = satp.sols d v \<and> satp.vwf d w \<and> mv_terminals w = mv_terminals v \<and>
    satp.vext d v w \<and> satp.reads d w ?Q a"
    by (rule satp.solve_correct [OF _ _ _ _ _ g]) (use R slv rnd in \<open>simp_all add: sat_answers\<close>)
  then obtain a r' w where w: "solve sat_psolver slv rnd ign r v = Inr (a, r', w)" "mv_assumptions w = []" "mv_suggestions w = []"
    "mv_softs w = mv_softs v" "satp.sols d w = satp.sols d v" "mv_terminals w = mv_terminals v" "satp.vext d v w"
    and a: "satp.reads d w ?Q a"
    by (elim exE conjE)
  let ?b = "a \<noteq> None" and ?f = "case a of None \<Rightarrow> f | Some f' \<Rightarrow> f'"
  let ?N = "set H \<union> set A \<union> (if ign then {} else set S)"
  have run: "vi_solve V ign r x = Inr (?b, r', w, ?f)" by (simp add: V meta_visitor_def x w(1))
  have lists: "list_all2 (satp.means w) (mv_softs v) (map holds S)"
    using R satp.list_all2_means_vext [OF _ w(7)] by blast
  have "registered d (map holds H) (map holds S) [] [] w"
    using R w(2-5) satp.vextD(1) [OF w(7)] lists by (simp add: registered_def sat_solutions)
  then have reg': "sat_reg d (w, ?f) H S [] []" using vars w(6) by (simp add: sat_reg_def ball_Un)
  have mods: "{\<rho> \<in> satp.sols d w. ?Q \<rho>} = models d ?N"
    unfolding w(5) registered_models [OF v] by (cases ign) (auto simp: models_def)
  have read: "vi_read V (VariableExpr i k sg) (w, g) = meta_read (\<lambda>b. Some (g b)) i w" for i k sg g
    by (simp add: V meta_visitor_def)
  show ?thesis
  proof (cases a)
    case None
    then have "{\<rho> \<in> satp.sols d w. ?Q \<rho>} = {}" using a by (simp add: satp.reads_def)
    then have "models d ?N = {}" by (simp only: mods)
    then show ?thesis using run reg'
      by (intro exI [of _ False] exI [of _ r'] exI [of _ "(w, f)"]) (simp add: None Let_def del: if_True if_split)
  next
    case (Some g)
    then obtain \<rho> where \<rho>: "\<rho> \<in> models d ?N" "\<And>i e. mv_terminals w i = Some e \<Longrightarrow> abs_bb g e = \<rho> i"
      using a mods by (auto simp: satp.reads_def)
    have str: "meta_read (\<lambda>b. Some (g b)) i w = (if i \<in> dom (mv_terminals w) then Some (val_string (\<rho> i)) else None)" for i
    proof (cases "mv_terminals w i")
      case (Some e)
      then show ?thesis using read_terminal [OF Some, of "\<lambda>b. Some (g b)" g] \<rho>(2) [OF Some]
        by (auto split: smt_val.splits)
    qed (simp add: meta_read_def domIff)
    have "\<forall>n\<in>set (H @ S @ A @ G). \<forall>i\<in>node_vars n. i \<in> dom (mv_terminals w)" using vars w(6) by auto
    then have "\<exists>\<rho>\<in>models d ?N.
         (\<forall>i k sg str. vi_read V (VariableExpr i k sg) (w, g) = Some str \<longrightarrow> str = val_string (\<rho> i)) \<and>
         (\<forall>n\<in>set (H @ S @ A @ G). \<forall>i\<in>node_vars n. \<forall>k sg. vi_read V (VariableExpr i k sg) (w, g) \<noteq> None)"
      unfolding read str by (intro bexI [OF _ \<rho>(1)] conjI) auto
    then show ?thesis using run reg' unfolding Let_def by (intro exI [of _ True] exI [of _ r'] exI [of _ "(w, g)"] conjI) (simp_all only: Some option.case if_True simp_thms option.distinct)
  qed
qed

section \<open>The contract is kept\<close>

abbreviation sat_visitor :: "string \<Rightarrow> (sat_clause \<Rightarrow> lit list \<Rightarrow> (lit \<Rightarrow> bool) option) \<Rightarrow> ('r \<Rightarrow> nat \<Rightarrow> nat \<times> 'r) \<Rightarrow>
    ((sat_clause, lit) meta \<times> (lit \<Rightarrow> bool), 'r) visitor" where
  "sat_visitor enc slv rnd \<equiv> meta_visitor sat_psolver enc slv rnd 0 (new_SAT_Clause 0)"

lemma sat_visitor_contract:
  assumes "sat_answers slv" and "\<And>r n. 0 < n \<Longrightarrow> fst (rnd r n) < n" and "enc = ''bdd'' \<or> enc = ''adder''"
  shows "solver_visitor (sat_visitor enc slv rnd) d (sat_reg d)"
proof
  show "sat_reg d (vi_new (sat_visitor enc slv rnd)) [] [] [] []"
    using registered_new [of d] by (simp add: meta_visitor_def sat_reg_def flip: new_sat_meta_def)
next
  fix v H S A G n assume "sat_reg d v H S A G" "constraint_sorted d n"
  from sat_reg_assertion [OF this] sat_reg_soft [OF this] sat_reg_assumption [OF this] sat_reg_suggestion [OF this]
  show "\<exists>w. vi_makeAssertion (sat_visitor enc slv rnd) n v = Inr w \<and> sat_reg d w (H @ [n]) S A G"
    "\<exists>w. vi_makeSoftAssertion (sat_visitor enc slv rnd) n v = Inr w \<and> sat_reg d w H (S @ [n]) A G"
    "\<exists>w. vi_makeAssumption (sat_visitor enc slv rnd) n v = Inr w \<and> sat_reg d w H S (A @ [n]) G"
    "\<exists>w. vi_makeSuggestion (sat_visitor enc slv rnd) n v = Inr w \<and> sat_reg d w H S A (G @ [n])"
    by (simp_all only: meta_visitor_def visitor.simps)
next
  fix v H S assume "sat_reg d v H S [] []"
  from sat_reg_softs [OF assms(1) this]
  show "\<exists>is w. vi_analyseSofts (sat_visitor enc slv rnd) v = Inr (is, w) \<and>
      is = fst (best_softs (models d (set H)) 0 (map holds S)) \<and> sat_reg d w (H @ nths S (- set is)) [] [] []"
    by (simp add: meta_visitor_def)
next
  fix ns assume ns: "list_all (constraint_sorted d) ns" "length ns < 2 ^ 32"
  obtain rs v where "analyseContradiction sat_psolver enc slv 0 (List.enumerate 0 ns) new_sat_meta = Inr (rs, v)"
    "rs = [] \<longleftrightarrow> (\<exists>\<rho>. typed d \<rho> \<and> (\<forall>n\<in>set ns. holds n \<rho>))" "\<forall>r\<in>set rs. set r \<subseteq> {..<length ns}"
    using contradictions_sat [OF ns assms(1,3), of 0] by blast
  then show "\<exists>rs w. vi_analyseContradiction (sat_visitor enc slv rnd) (List.enumerate 0 ns) (vi_new (sat_visitor enc slv rnd)) = Inr (rs, w) \<and>
      (rs = [] \<longleftrightarrow> models d (set ns) \<noteq> {}) \<and> (\<forall>r\<in>set rs. set r \<subseteq> {..<length ns})"
    by (simp add: meta_visitor_def on_meta_with_def models_def flip: new_sat_meta_def)
next
  fix v H S A G ign r assume "sat_reg d v H S A G"
  from sat_reg_solve [OF assms(1,2) this refl]
  show "\<exists>b r' w. vi_solve (sat_visitor enc slv rnd) ign r v = Inr (b, r', w) \<and> sat_reg d w H S [] [] \<and>
      (let ns = set H \<union> set A \<union> (if ign then {} else set S) in
       if b then \<exists>\<rho>\<in>models d ns.
         (\<forall>i k sg str. vi_read (sat_visitor enc slv rnd) (VariableExpr i k sg) w = Some str \<longrightarrow> str = val_string (\<rho> i)) \<and>
         (\<forall>n\<in>set (H @ S @ A @ G). \<forall>i\<in>node_vars n. \<forall>k sg. vi_read (sat_visitor enc slv rnd) (VariableExpr i k sg) w \<noteq> None)
       else models d ns = {})" .
next
  fix ns v show "vi_readVector (sat_visitor enc slv rnd) ns v = those (map (\<lambda>n. vi_read (sat_visitor enc slv rnd) n v) ns)"
    by (cases v) (simp add: meta_visitor_def)
qed

text \<open>With the search of all assignments and a counter for random numbers.\<close>

definition counter :: "nat \<Rightarrow> nat \<Rightarrow> nat \<times> nat" where
  "counter r n = (r mod n, Suc r)"

interpretation demo: solver_visitor "sat_visitor ''bdd'' sat_find counter" "\<lambda>_. SBits 4" "sat_reg (\<lambda>_. SBits 4)"
  by (rule sat_visitor_contract) (simp_all add: sat_find_answers counter_def)

end
