(* ===== verification/VectorsCorrect.thy ===== *)
theory VectorsCorrect
  imports Vectors VisitorSat
begin

text \<open>
  Vectors are solved correctly: the solver of a vector is given exactly the instances of its constraints,
  and the values found for the elements reach the vector of the program.
\<close>

section \<open>The instances of vector constraints\<close>

definition vec_instance :: "nat list \<Rightarrow> constraint \<Rightarrow> nat \<Rightarrow> node list" where
  "vec_instance ids c i = (case subst_vec (of_nat i) ids (con_expr c) of Some n \<Rightarrow> [n] | None \<Rightarrow> [])"

text \<open>\<open>ids\<close> are the variables of the elements; \<open>(b, s)\<close> is their type where the constraint is \<open>unique\<close>.\<close>

definition vector_nodes :: "nat \<times> bool \<Rightarrow> nat list \<Rightarrow> constraint \<Rightarrow> node list" where
  "vector_nodes = (\<lambda>(b, s) ids c.
     if isUnique c then map (\<lambda>(i, j). BinaryOperator NotEqualOpr (VariableExpr (ids ! i) b s) (VariableExpr (ids ! j) b s)) (pairs (length ids))
     else concat (map (vec_instance ids c) [0..<length ids]))"

definition vector_hards :: "nat \<times> bool \<Rightarrow> nat list \<Rightarrow> constraint list \<Rightarrow> node list" where
  "vector_hards t ids cs = concat (map (vector_nodes t ids) (filter (\<lambda>c. \<not> con_soft c) cs))"

definition vector_softs :: "nat \<times> bool \<Rightarrow> nat list \<Rightarrow> constraint list \<Rightarrow> node list" where
  "vector_softs t ids cs = concat (map (vector_nodes t ids) (filter con_soft cs))"

definition vector_constraint_ok :: "(nat \<Rightarrow> smt_sort) \<Rightarrow> (nat \<times> bool) set \<Rightarrow> nat \<times> bool \<Rightarrow> nat list \<Rightarrow> constraint \<Rightarrow> bool" where
  "vector_constraint_ok d T t ids c \<longleftrightarrow> list_all (constraint_sorted d) (vector_nodes t ids c) \<and>
     (if isUnique c then T = {t}
      else \<forall>i<length ids. (\<exists>G. body_ok T (of_nat i) G (con_expr c)) \<and> is_ok (beside (of_nat i) (con_expr c)))"

section \<open>Building the solver\<close>

definition fresh_replacer :: "(nat \<times> bool) set \<Rightarrow> nat list \<Rightarrow> replace_visitor \<Rightarrow> bool" where
  "fresh_replacer T ids v \<longleftrightarrow> rv_terminals v = Map.empty \<and> okay v \<and> rv_variables v \<noteq> [] \<and>
     elements_ok T (rv_variables v) \<and> map element_id (rv_variables v) = ids"

lemma rv_visit_fresh:
  assumes v: "fresh_replacer T ids v" and body: "body_ok T k G n" and ok: "beside k n = Inr i" and t: "subst_vec k ids n = t"
  shows "\<exists>w. rv_visit n (setVecIdx k v) = Inr w \<and> okay w = (t \<noteq> None) \<and> (t = None \<or> rv_result w = t) \<and> fresh_replacer T ids (rv_reset w)"
proof -
  have "rv_ok T k G ids (setVecIdx k v)" using v by (simp add: fresh_replacer_def rv_ok_def setVecIdx_def)
  from rv_visit_follows [OF this body] obtain w
    where w: "rv_visit n (setVecIdx k v) = Inr w" "rv_ok T k G ids w" "rv_yields (setVecIdx k v) (t, i) w"
    by (auto simp: follows_def ok replaced_def t)
  have "okay w = (t \<noteq> None)" "t = None \<or> rv_result w = t"
    using w(3) v by (auto simp: rv_yields_def setVecIdx_def fresh_replacer_def)
  moreover have "fresh_replacer T ids (rv_reset w)" using w(2) by (simp add: fresh_replacer_def rv_reset_def rv_ok_def)
  ultimately show ?thesis using w(1) by blast
qed

lemma element_nth:
  assumes "elements_ok {(b, s)} els" and "i < length els"
  shows "els ! i = VariableExpr (map element_id els ! i) b s"
  using assms by (auto simp: elements_ok_def dest!: nth_mem)

lemma pairs_bounds: "(i, j) \<in> set (pairs n) \<longleftrightarrow> i < j \<and> j < n"
  unfolding pairs_def by force

lemma each_append: "each f (xs @ ys) v = rbind (each f xs v) (each f ys)"
proof (induction xs arbitrary: v)
  case (Cons x xs)
  then show ?case by (cases "f x v") simp_all
qed simp

lemma each_ConsI: "f x v = Inr w \<Longrightarrow> each f xs w = Inr u \<Longrightarrow> each f (x # xs) v = Inr u"
  by simp

lemma each_one: "each f [x] v = f x v"
  by (cases "f x v") simp_all

text \<open>The soft instances count only together, and only if they have a solution with the hard ones.\<close>

definition wanted :: "(nat \<Rightarrow> smt_sort) \<Rightarrow> node list \<Rightarrow> node list \<Rightarrow> node set" where
  "wanted d H S = (if models d (set H \<union> set S) = {} then set H else set H \<union> set S)"

context solver_visitor
begin

lemma assert_vectors:
  assumes "reg v H S [] []" and "list_all (constraint_sorted d) ns"
  shows "\<exists>w. each (assert_vector V c) ns v = Inr w \<and>
    reg w (H @ (if con_soft c then [] else ns)) (S @ (if con_soft c then ns else [])) [] []"
  using assms
proof (induction ns arbitrary: v H S)
  case (Cons n ns)
  then have n: "constraint_sorted d n" and ns: "list_all (constraint_sorted d) ns" by simp_all
  show ?case
  proof (cases "con_soft c")
    case True
    obtain w where w: "vi_makeSoftAssertion V n v = Inr w" "reg w H (S @ [n]) [] []" using soft_law [OF Cons.prems(1) n] by blast
    show ?thesis using Cons.IH [OF w(2) ns] w(1) True by (simp add: assert_vector_def)
  next
    case False
    obtain w where w: "vi_makeAssertion V n v = Inr w" "reg w (H @ [n]) S [] []" using assertion_law [OF Cons.prems(1) n] by blast
    show ?thesis using Cons.IH [OF w(2) ns] w(1) False by (simp add: assert_vector_def)
  qed
qed simp

lemma foreach_steps:
  assumes "fresh_replacer T ids q" and "\<forall>i\<in>set js. (\<exists>G. body_ok T (of_nat i) G (con_expr c)) \<and> is_ok (beside (of_nat i) (con_expr c))"
    and "reg v H S [] []" and "list_all (constraint_sorted d) (concat (map (vec_instance ids c) js))"
  shows "\<exists>w q'. each (foreach_step V c) js (v, q) = Inr (w, q') \<and> fresh_replacer T ids q' \<and>
    each (assert_vector V c) (concat (map (vec_instance ids c) js)) v = Inr w"
  using assms
proof (induction js arbitrary: v q H S)
  case (Cons j js)
  obtain G t i where G: "body_ok T (of_nat j) G (con_expr c)" "beside (of_nat j) (con_expr c) = Inr i" "subst_vec (of_nat j) ids (con_expr c) = t"
    using Cons.prems(2) by (auto elim!: is_okE)
  obtain u where u: "rv_visit (con_expr c) (setVecIdx (of_nat j) q) = Inr u" "okay u = (t \<noteq> None)" "t = None \<or> rv_result u = t"
    "fresh_replacer T ids (rv_reset u)"
    using rv_visit_fresh [OF Cons.prems(1) G] by blast
  have inst: "vec_instance ids c j = (case t of None \<Rightarrow> [] | Some n \<Rightarrow> [n])"
    by (simp add: vec_instance_def G(3) split: option.splits)
  obtain w where w: "each (assert_vector V c) (vec_instance ids c j) v = Inr w" "\<exists>H S. reg w H S [] []"
    using assert_vectors [OF Cons.prems(3), of "vec_instance ids c j" c] Cons.prems(4) by auto
  have step: "foreach_step V c j (v, q) = Inr (w, rv_reset u)"
    using u(1-3) w(1) by (cases t) (auto simp: foreach_step_def inst each_one simp del: each.simps(2))
  obtain H' S' where reg: "reg w H' S' [] []" using w(2) by blast
  obtain x q' where "each (foreach_step V c) js (w, rv_reset u) = Inr (x, q')" "fresh_replacer T ids q'"
    "each (assert_vector V c) (concat (map (vec_instance ids c) js)) w = Inr x"
    using Cons.IH [OF u(4) _ reg] Cons.prems(2,4) by auto
  then show ?case using step w(1) by (simp add: each_append)
qed simp

lemma build_constraint_correct:
  assumes els: "elements_ok T els" "ids = map element_id els" and ok: "vector_constraint_ok d T t ids c" and reg: "reg v H S [] []"
  shows "\<exists>w els'. build_constraint V (length els) c (v, els) = Inr (w, els') \<and> elements_ok T els' \<and> map element_id els' = ids \<and>
    reg w (H @ (if con_soft c then [] else vector_nodes t ids c)) (S @ (if con_soft c then vector_nodes t ids c else [])) [] []"
proof -
  have sorted: "list_all (constraint_sorted d) (vector_nodes t ids c)" using ok by (simp add: vector_constraint_ok_def)
  obtain w where w: "each (assert_vector V c) (vector_nodes t ids c) v = Inr w"
    "reg w (H @ (if con_soft c then [] else vector_nodes t ids c)) (S @ (if con_soft c then vector_nodes t ids c else [])) [] []"
    using assert_vectors [OF reg sorted] by blast
  obtain b s where t: "t = (b, s)" by fastforce
  have len: "length ids = length els" using els(2) by simp
  consider "isUnique c" | "\<not> isUnique c" "els = []" | "\<not> isUnique c" "els \<noteq> []" by blast
  then show ?thesis
  proof cases
    case 1
    have "T = {(b, s)}" using ok 1 by (simp add: vector_constraint_ok_def t)
    then have nth: "els ! i = VariableExpr (ids ! i) b s" if "i < length els" for i
      using element_nth els that by blast
    have steps: "each (unique_step V c els) ps v = each (assert_vector V c)
        (map (\<lambda>(i, j). BinaryOperator NotEqualOpr (VariableExpr (ids ! i) b s) (VariableExpr (ids ! j) b s)) ps) v"
      if "set ps \<subseteq> set (pairs (length els))" for ps v
      using that
    proof (induction ps arbitrary: v)
      case (Cons p ps)
      obtain i j where p: "p = (i, j)" "i < j" "j < length els"
        using Cons.prems by (cases p) (auto simp: pairs_bounds)
      have "unique_step V c els (i, j) = assert_vector V c (BinaryOperator NotEqualOpr (VariableExpr (ids ! i) b s) (VariableExpr (ids ! j) b s))"
        unfolding unique_step_def prod.case using nth [of i] nth [of j] p by simp
      moreover have "set ps \<subseteq> set (pairs (length els))" using Cons.prems by simp
      ultimately show ?case using Cons.IH
        by (cases "assert_vector V c (BinaryOperator NotEqualOpr (VariableExpr (ids ! i) b s) (VariableExpr (ids ! j) b s)) v") (simp_all add: p(1))
    qed simp
    have "build_constraint V (length els) c (v, els) = Inr (w, els)"
      using w(1) 1 steps [OF subset_refl] by (simp add: build_constraint_def vector_nodes_def t len)
    then show ?thesis using els w(2) by blast
  next
    case 2
    then show ?thesis using reg els by (simp add: build_constraint_def vector_nodes_def t ReplaceVisitor_def)
  next
    case 3
    have nodes: "vector_nodes t ids c = concat (map (vec_instance ids c) [0..<length els])" using 3 by (simp add: vector_nodes_def t len)
    have "fresh_replacer T ids (ReplaceVisitor els)" using els 3 by (simp add: fresh_replacer_def ReplaceVisitor_def)
    moreover have "\<forall>i\<in>set [0..<length els]. (\<exists>G. body_ok T (of_nat i) G (con_expr c)) \<and> is_ok (beside (of_nat i) (con_expr c))"
      using ok 3 by (simp add: vector_constraint_ok_def len)
    ultimately obtain x q where q: "each (foreach_step V c) [0..<length els] (v, ReplaceVisitor els) = Inr (x, q)" "fresh_replacer T ids q"
      "each (assert_vector V c) (vector_nodes t ids c) v = Inr x"
      using foreach_steps [OF _ _ reg] sorted unfolding nodes by blast
    then have "build_constraint V (length els) c (v, els) = Inr (w, rv_variables q)"
      using w(1) 3 by (simp add: build_constraint_def)
    then show ?thesis using q(2) w(2) by (auto simp: fresh_replacer_def)
  qed
qed

lemma build_constraints_correct:
  assumes "elements_ok T els" "map element_id els = ids" and "\<forall>c\<in>set cs. vector_constraint_ok d T t ids c" and "reg v H S [] []"
  shows "\<exists>w els'. each (build_constraint V (length ids)) cs (v, els) = Inr (w, els') \<and> elements_ok T els' \<and> map element_id els' = ids \<and>
    reg w (H @ vector_hards t ids cs) (S @ vector_softs t ids cs) [] []"
  using assms
proof (induction cs arbitrary: v els H S)
  case (Cons c cs)
  have len: "length ids = length els" using Cons.prems(2) by auto
  obtain w els1 where w: "build_constraint V (length ids) c (v, els) = Inr (w, els1)" "elements_ok T els1" "map element_id els1 = ids"
    "reg w (H @ (if con_soft c then [] else vector_nodes t ids c)) (S @ (if con_soft c then vector_nodes t ids c else [])) [] []"
    using build_constraint_correct [OF Cons.prems(1) _ _ Cons.prems(4), of ids t c] Cons.prems(2,3) by (auto simp: len)
  have "\<forall>c\<in>set cs. vector_constraint_ok d T t ids c" using Cons.prems(3) by simp
  from Cons.IH [OF w(2,3) this w(4)] w(1) show ?case
    by (cases "con_soft c") (auto simp: vector_hards_def vector_softs_def)
qed (simp add: vector_hards_def vector_softs_def)

section \<open>Solving\<close>

lemma solve_softs_first_correct:
  assumes "reg v H S [] []"
  shows "\<exists>b r' w. solve_softs_first V r v = Inr (b, r', w) \<and> reg w H S [] [] \<and>
    (if b then \<exists>\<rho>\<in>models d (wanted d H S). gives V w (H @ S) \<rho> else models d (set H) = {})"
proof -
  obtain b r1 w where 1: "vi_solve V False r v = Inr (b, r1, w)" "reg w H S [] []"
    "if b then \<exists>\<rho>\<in>models d (set H \<union> set S). gives V w (H @ S) \<rho> else models d (set H \<union> set S) = {}"
    using solve_gives [OF assms, of False r, unfolded if_False append_Nil2 list.set(1) Un_empty_right] by blast
  show ?thesis
  proof (cases b)
    case True
    then have "wanted d H S = set H \<union> set S" using 1(3) by (auto simp: wanted_def)
    then show ?thesis using True 1
      by (intro exI [of _ True] exI [of _ r1] exI [of _ w]) (simp add: solve_softs_first_def)
  next
    case False
    then have w: "wanted d H S = set H" using 1(3) by (simp add: wanted_def)
    obtain b' r2 u where 2: "vi_solve V True r1 w = Inr (b', r2, u)" "reg u H S [] []"
      "if b' then \<exists>\<rho>\<in>models d (set H). gives V u (H @ S) \<rho> else models d (set H) = {}"
      using solve_gives [OF 1(2), of True r1, unfolded if_True append_Nil2 list.set(1) Un_empty_right] by blast
    then show ?thesis using False 1(1) w by (intro exI [of _ b'] exI [of _ r2] exI [of _ u]) (simp add: solve_softs_first_def)
  qed
qed

lemma read_elements:
  assumes els: "elements_ok T els" and v: "gives V v ns \<rho>"
  shows "vi_readVector V els v = None \<or> vi_readVector V els v = Some (map (\<lambda>i. val_string (\<rho> i)) (map element_id els))"
    and "element_id ` set els \<subseteq> (\<Union>n\<in>set ns. node_vars n) \<Longrightarrow> vi_readVector V els v \<noteq> None"
proof -
  have each: "vi_read V n v \<in> {None, Some (val_string (\<rho> (element_id n)))}" if "n \<in> set els" for n
  proof -
    have "\<exists>i b s. n = VariableExpr i b s" using els that unfolding elements_ok_def by blast
    then obtain i b s where "n = VariableExpr i b s" by blast
    then show ?thesis using v by (cases "vi_read V n v") (auto simp: gives_def)
  qed
  then have "those (map (\<lambda>n. vi_read V n v) els) \<in> {None, Some (map (\<lambda>i. val_string (\<rho> i)) (map element_id els))}"
  proof (induction els)
    case (Cons n els)
    have "vi_read V n v \<in> {None, Some (val_string (\<rho> (element_id n)))}" by (rule Cons.prems) simp
    moreover have "those (map (\<lambda>n. vi_read V n v) els) \<in> {None, Some (map (\<lambda>i. val_string (\<rho> i)) (map element_id els))}"
      by (rule Cons.IH) (rule Cons.prems, simp)
    ultimately show ?case by auto
  qed simp
  then show "vi_readVector V els v = None \<or> vi_readVector V els v = Some (map (\<lambda>i. val_string (\<rho> i)) (map element_id els))"
    by (simp add: vector_law)
  assume known: "element_id ` set els \<subseteq> (\<Union>n\<in>set ns. node_vars n)"
  have "\<forall>n\<in>set els. vi_read V n v \<noteq> None"
  proof
    fix n assume n: "n \<in> set els"
    then have "\<exists>i b s. n = VariableExpr i b s" using els unfolding elements_ok_def by blast
    then obtain i b s where i: "n = VariableExpr i b s" by blast
    then have "i \<in> element_id ` set els" using n by force
    then obtain k where k: "k \<in> set ns" "i \<in> node_vars k" using known by blast
    have "\<forall>n\<in>set ns. \<forall>i\<in>node_vars n. \<forall>k sg. vi_read V (VariableExpr i k sg) v \<noteq> None" using v unfolding gives_def by (rule conjunct2)
    with k show "vi_read V n v \<noteq> None" unfolding i by fast
  qed
  then have "those (map (\<lambda>n. vi_read V n v) els) \<noteq> None" by (induction els) auto
  then show "vi_readVector V els v \<noteq> None" by (simp add: vector_law)
qed

text \<open>The state of a vector's solver once it has been solved with \<open>ids\<close> for its elements.\<close>

lemma vector_solve_correct:
  assumes F: "fa_default F = V" and vbm: "vbm (vs_vector_id vs) = Some vector"
    and sz: "read_size F var_gen (size_var vector) r = (sz, r1)"
    and els: "resize_elements (unat sz) (vec_elements vs) n = (els, n')" "elements_ok T els" "map element_id els = ids"
    and cs: "\<forall>c\<in>set (vs_constraints vs). vector_constraint_ok d T t ids c"
  defines "H \<equiv> vector_hards t ids (vs_constraints vs)" and "S \<equiv> vector_softs t ids (vs_constraints vs)"
  shows "\<exists>b vs' m' r'. vector_solve F vbm var_gen vs (n, m, r) = Inr (b, vs', n', m', r') \<and>
    vs_constraints vs' = vs_constraints vs \<and> vs_vector_id vs' = vs_vector_id vs \<and>
    elements_ok T (vec_elements vs') \<and> map element_id (vec_elements vs') = ids \<and>
    (if b then \<exists>\<rho>\<in>models d (wanted d H S). \<exists>r2.
        let wr = vec_set_values vector (map (\<lambda>i. val_string (\<rho> i)) ids) m r2
        in (m', r') = wr \<or> (m', r') = (m, r2) \<and> \<not> set ids \<subseteq> (\<Union>k\<in>set (H @ S). node_vars k)
     else m' = m \<and> models d (set H) = {})"
proof -
  have "length els = unat sz" using els(1) by (auto simp: resize_elements_def split: if_splits)
  then have len: "length ids = unat sz" using els(3) by auto
  obtain w els' where w: "each (build_constraint V (unat sz)) (vs_constraints vs) (vi_new V, els) = Inr (w, els')"
    "elements_ok T els'" "map element_id els' = ids" "reg w H S [] []"
    using build_constraints_correct [OF els(2,3) cs new_law] by (auto simp: len H_def S_def)
  let ?vs = "vs\<lparr>vs_solver := w, vec_elements := els'\<rparr>"
  have build: "resetSolver V (unat sz) vs n = Inr (?vs, n')"
    using els(1) w(1) by (simp add: resetSolver_def buildSolver_def)
  obtain b r2 v where v: "solve_softs_first V r1 w = Inr (b, r2, v)"
    and sol: "if b then \<exists>\<rho>\<in>models d (wanted d H S). gives V v (H @ S) \<rho> else models d (set H) = {}"
    using solve_softs_first_correct [OF w(4), of r1] by blast
  obtain m' r' where m': "(if b then (case vi_readVector V els' v of Some strs \<Rightarrow> vec_set_values vector strs m r2 | None \<Rightarrow> (m, r2))
      else (m, r2)) = (m', r')" by fastforce
  have sel: "vs_solver ?vs = w" "vec_elements ?vs = els'" by simp_all
  have run: "vector_solve F vbm var_gen vs (n, m, r) = Inr (b, ?vs\<lparr>vs_solver := v\<rparr>, n', m', r')"
    unfolding vector_solve_def prod.case vector_of_def vbm option.case rbind_Inr sz Let_def F build
      sel v m' by (rule refl)
  have "if b then \<exists>\<rho>\<in>models d (wanted d H S). \<exists>r2.
        let wr = vec_set_values vector (map (\<lambda>i. val_string (\<rho> i)) ids) m r2
        in (m', r') = wr \<or> (m', r') = (m, r2) \<and> \<not> set ids \<subseteq> (\<Union>k\<in>set (H @ S). node_vars k)
     else m' = m \<and> models d (set H) = {}"
  proof (cases b)
    case True
    then obtain \<rho> where \<rho>: "\<rho> \<in> models d (wanted d H S)" "gives V v (H @ S) \<rho>" using sol by auto
    have ids: "element_id ` set els' = set ids" using w(3) by (metis set_map)
    show ?thesis
    proof (cases "vi_readVector V els' v")
      case None
      then have "\<not> set ids \<subseteq> (\<Union>k\<in>set (H @ S). node_vars k)"
        using read_elements(2) [OF w(2) \<rho>(2)] unfolding ids by blast
      then show ?thesis using True \<rho> m' None unfolding if_P [OF True] Let_def by (intro bexI [OF _ \<rho>(1)] exI [of _ r2]) auto
    next
      case (Some strs)
      then have "strs = map (\<lambda>i. val_string (\<rho> i)) ids" using read_elements(1) [OF w(2) \<rho>(2)] w(3) by fastforce
      then show ?thesis using True m' Some unfolding if_P [OF True] Let_def by (intro bexI [OF _ \<rho>(1)] exI [of _ r2]) auto
    qed
  qed (use sol m' in simp)
  then show ?thesis
    using w(2,3) by (intro exI [of _ b] exI [of _ "?vs\<lparr>vs_solver := v\<rparr>"] exI [of _ m'] exI [of _ r']) (simp add: run)
qed

end

section \<open>The values reach the vector\<close>

lemma assign_all_append: "fst (assign_all rnd sg ss (xs @ ys :: 'a::len word list) r) = xs @ fst (assign_all rnd sg ss ys r)"
proof (induction ss arbitrary: ys r)
  case (Cons s ss)
  obtain x r' where "set_value rnd sg s r = (x :: 'a word, r')" by fastforce
  then show ?case using Cons.IH [of "ys @ [x]" r'] by simp
qed simp

lemma assign_all_values:
  assumes "list_all (\<lambda>v. sort_of_val v = SBits LENGTH('a::len)) vs" and "LENGTH('a) \<le> 64" and "\<not> isBool LENGTH('a) sg"
  shows "map (\<lambda>x. sem_constant (to_constant_expr sg (x :: 'a word))) (fst (assign_all rnd sg (map val_string vs) [] r)) = vs"
  using assms(1)
proof (induction vs arbitrary: r)
  case (Cons v vs)
  then obtain bs where bs: "v = VBits bs" "length bs = LENGTH('a)" by (cases v) auto
  have "fst (assign_all rnd sg (map val_string vs) [x] r) = x # fst (assign_all rnd sg (map val_string vs) [] r)" for x :: "'a word"
    using assign_all_append [of rnd sg "map val_string vs" "[x]" "[]" r] by simp
  then show ?case using Cons by (simp add: bs(1) set_value_digits sem_to_constant_expr [OF bs(2) assms(2,3)])
qed simp

text \<open>C9: solving a vector of elements of at most 64 bits (not Boolean) with a single SAT attempt, under the
  hypotheses that every constraint is a foreach whose subscripts are made of the element number and
  constants, or a unique over elements that already have the type of the vector, that no operator of the
  numbers computed beside a foreach body is undefined (no division by a variable or an element) and an
  identifier stands for one terminal in it, that all instances are well sorted, that every element of the
  resized vector occurs in an instance of some constraint, and that the SAT solver is correct and the random
  source stays within its bounds:
  it returns; it returns false exactly when the hard instances have no solution, and then leaves the vector
  alone. Otherwise the vector gets the size its size variable asks for, and its values satisfy all hard
  instances, and the soft ones as well when all of them can be satisfied together.\<close>

theorem vector_elements_satisfy:
  assumes F: "fa_default F = sat_visitor enc slv rnd" and slv: "sat_answers slv" and rnd: "\<And>r n. 0 < n \<Longrightarrow> fst (rnd r n) < n"
    and enc: "enc = ''bdd'' \<or> enc = ''adder''"
    and vbm: "vbm (vs_vector_id vs) = Some (rand_vec_base1 rb sg next sv put)"
    and sz: "read_size F var_gen sv r = (sz, r1)"
    and els: "resize_elements (unat sz) (vec_elements vs) n = (els, n')" "elements_ok T els" "map element_id els = ids"
    and cs: "\<forall>c\<in>set (vs_constraints vs). vector_constraint_ok d T (LENGTH('a::len), sg) ids c"
    and H: "H = vector_hards (LENGTH('a), sg) ids (vs_constraints vs)" and S: "S = vector_softs (LENGTH('a), sg) ids (vs_constraints vs)"
    and d: "\<forall>i\<in>set ids. d i = SBits LENGTH('a)" and width: "LENGTH('a) \<le> 64" "\<not> isBool LENGTH('a) sg"
    and used: "set ids \<subseteq> (\<Union>k\<in>set (H @ S). node_vars k)"
  shows "\<exists>b vs' m' r'. vector_solve F vbm var_gen vs (n, m, r) = Inr (b, vs', n', m', r') \<and>
    (if b then \<exists>xs :: 'a word list. m' = put xs m \<and> length xs = unat sz \<and>
        (\<exists>\<rho>\<in>models d (wanted d H S). \<forall>k<unat sz. sem_constant (to_constant_expr sg (xs ! k)) = \<rho> (ids ! k))
     else m' = m \<and> models d (set H) = {})"
proof -
  have V: "solver_visitor (sat_visitor enc slv rnd) d (sat_reg d)"
    by (rule sat_visitor_contract) (rule slv, erule rnd, rule enc)
  have "size_var (rand_vec_base1 rb sg next sv put) = sv" by (simp add: rand_vec_base1_def)
  with sz have sz': "read_size F var_gen (size_var (rand_vec_base1 rb sg next sv put)) r = (sz, r1)" by simp
  obtain b vs' m' r' where run: "vector_solve F vbm var_gen vs (n, m, r) = Inr (b, vs', n', m', r')"
    and res: "if b then \<exists>\<rho>\<in>models d (wanted d H S). \<exists>r2.
        let wr = vec_set_values (rand_vec_base1 rb sg next sv put) (map (\<lambda>i. val_string (\<rho> i)) ids) m r2
        in (m', r') = wr \<or> (m', r') = (m, r2) \<and> \<not> set ids \<subseteq> (\<Union>k\<in>set (H @ S). node_vars k)
     else m' = m \<and> models d (set H) = {}"
    using solver_visitor.vector_solve_correct [OF V F, where vbm = vbm and vs = vs, OF vbm sz' els cs, where m = m] unfolding H S by blast
  have len: "length ids = unat sz" using els(1,3) by (auto simp: resize_elements_def split: if_splits)
  have "\<exists>xs :: 'a word list. m' = put xs m \<and> length xs = unat sz \<and>
        (\<exists>\<rho>\<in>models d (wanted d H S). \<forall>k<unat sz. sem_constant (to_constant_expr sg (xs ! k)) = \<rho> (ids ! k))" if b
  proof -
    note res' = res [unfolded if_P [OF that] Let_def]
    obtain \<rho> r2 where \<rho>: "\<rho> \<in> models d (wanted d H S)"
      "(m', r') = vec_set_values (rand_vec_base1 rb sg next sv put) (map (\<lambda>i. val_string (\<rho> i)) ids) m r2"
      using res' used by blast
    define xs where "xs = fst (assign_all rb sg (map val_string (map \<rho> ids)) [] r2 :: 'a word list \<times> _)"
    have "m' = put xs m"
      using \<rho>(2) by (simp add: rand_vec_base1_def xs_def comp_def split: prod.splits)
    moreover have "list_all (\<lambda>v. sort_of_val v = SBits LENGTH('a)) (map \<rho> ids)"
      using \<rho>(1) d by (simp add: list_all_iff models_def typed_def)
    from assign_all_values [OF this width, of rb r2]
    have vals: "map (\<lambda>x. sem_constant (to_constant_expr sg x)) xs = map \<rho> ids" by (simp add: xs_def)
    moreover from this have "length xs = unat sz" using len by (metis length_map)
    moreover from this vals have "\<forall>k<unat sz. sem_constant (to_constant_expr sg (xs ! k)) = \<rho> (ids ! k)"
      using len by (metis nth_map)
    ultimately show ?thesis using \<rho>(1) by blast
  qed
  then show ?thesis using run res
    by (intro exI [of _ b] exI [of _ vs'] exI [of _ m'] exI [of _ r']) simp
qed

text \<open>Five elements of 4 bits, each greater than 3, in a memory that is the vector itself.\<close>

definition demo_factory :: "((sat_clause, lit) meta \<times> (lit \<Rightarrow> bool), unit, nat) factory" where
  "demo_factory = \<lparr>fa_default = sat_visitor ''bdd'' sat_find counter, fa_cudd = None, fa_random_unsigned = counter,
     fa_random_bit = None, bypass_constraint_analysis = False, complexity_limit_for_bdd = 0\<rparr>"

definition demo_foreach :: constraint where
  "demo_foreach = new_constraint ''c'' 1 (BinaryOperator ForEach (VectorExpr 1 4 False)
     (BinaryOperator GreaterOpr (VectorAccess (VectorExpr 1 4 False) (Placeholder 2)) (ConstantExpr (Constant 3 4 False)))) False False"

definition demo_vector :: "(4 word list, nat) rand_vec" where
  "demo_vector = rand_vec_base1 None False (\<lambda>r. (of_nat r, Suc r)) 3 (\<lambda>xs _. xs)"

definition demo_vector_solver :: "((sat_clause, lit) meta \<times> (lit \<Rightarrow> bool)) vector_solver" where
  "demo_vector_solver = vs_addConstraint demo_foreach (VectorSolver (sat_visitor ''bdd'' sat_find counter) 1)"

lemma demo_foreach_fields: "\<not> con_soft demo_foreach" "\<not> isUnique demo_foreach"
    "con_expr demo_foreach = BinaryOperator ForEach (VectorExpr 1 4 False)
     (BinaryOperator GreaterOpr (VectorAccess (VectorExpr 1 4 False) (Placeholder 2)) (ConstantExpr (Constant 3 4 False)))"
  by (simp_all add: demo_foreach_def new_constraint_fields) (simp add: new_constraint_def isUnique_def UserVectorConstraint_def)

lemma demo_instance:
  assumes "i < 5"
  shows "vec_instance [10, 11, 12, 13, 14] demo_foreach i =
    [BinaryOperator GreaterOpr (VariableExpr (10 + i) 4 False) (ConstantExpr (Constant 3 4 False))]"
proof -
  have "i \<in> {0, 1, 2, 3, 4}" using assms by auto
  then show ?thesis by (auto simp: vec_instance_def demo_foreach_fields as_int_def)
qed

theorem vector_elements_satisfy_witness:
  "\<exists>b vs' m' r'. vector_solve demo_factory [1 \<mapsto> demo_vector] ([] :: ((sat_clause, lit) meta \<times> (lit \<Rightarrow> bool), 4 word list, nat) var_solver list)
      demo_vector_solver (10, [], 0) = Inr (b, vs', 15, m', r') \<and>
    (if b then \<exists>xs :: 4 word list. m' = xs \<and> length xs = 5 \<and>
       (\<exists>\<rho>\<in>models (\<lambda>_. SBits 4) (wanted (\<lambda>_. SBits 4) (vector_hards (4, False) [10, 11, 12, 13, 14] [demo_foreach])
           (vector_softs (4, False) [10, 11, 12, 13, 14] [demo_foreach])).
          \<forall>k<5. sem_constant (to_constant_expr False (xs ! k)) = \<rho> ([10, 11, 12, 13, 14] ! k))
     else m' = [] \<and> models (\<lambda>_. SBits 4) (set (vector_hards (4, False) [10, 11, 12, 13, 14] [demo_foreach])) = {})"
proof -
  let ?ids = "[10, 11, 12, 13, 14] :: nat list"
  have els: "resize_elements (unat (5 :: u32)) (vec_elements demo_vector_solver) 10 = (map (\<lambda>i. VariableExpr i 1 True) ?ids, 15)"
    by (simp add: resize_elements_def demo_vector_solver_def vs_addConstraint_def VectorSolver_def upt_rec)
  have el: "elements_ok UNIV (map (\<lambda>i. VariableExpr i 1 True) ?ids)" "map element_id (map (\<lambda>i. VariableExpr i 1 True) ?ids) = ?ids"
    by (auto simp: elements_ok_def)
  have cs: "vs_constraints demo_vector_solver = [demo_foreach]"
    by (simp add: demo_vector_solver_def vs_addConstraint_def VectorSolver_def)
  have nodes: "vector_nodes (4, False) ?ids demo_foreach = map (\<lambda>i. BinaryOperator GreaterOpr (VariableExpr i 4 False) (ConstantExpr (Constant 3 4 False))) ?ids"
    by (simp add: vector_nodes_def demo_foreach_fields demo_instance upt_rec)
  have hard: "vector_hards (4, False) ?ids [demo_foreach] = vector_nodes (4, False) ?ids demo_foreach"
    by (simp add: vector_hards_def demo_foreach_fields)
  have "\<exists>G. body_ok UNIV k G (con_expr demo_foreach)" for k
    by (intro exI [of _ "\<lambda>i. if i = 1 then VectorExpr 1 4 False else ConstantExpr (Constant (ucast k) placeholder_bitsize False)"])
      (simp add: demo_foreach_fields)
  moreover have "is_ok (beside (of_nat i) (con_expr demo_foreach))" if "i < 5" for i
  proof -
    have "i \<in> {0, 1, 2, 3, 4}" using that by auto
    then show ?thesis by (auto simp: demo_foreach_fields)
  qed
  ultimately have ok: "\<forall>c\<in>set (vs_constraints demo_vector_solver). vector_constraint_ok (\<lambda>_. SBits 4) UNIV (LENGTH(4), False) ?ids c"
    by (simp add: cs vector_constraint_ok_def nodes demo_foreach_fields(2) constraint_sorted_def term_sort_def isBool_def)
  have "\<exists>b vs' m' r'. vector_solve demo_factory [1 \<mapsto> demo_vector] ([] :: ((sat_clause, lit) meta \<times> (lit \<Rightarrow> bool), 4 word list, nat) var_solver list)
      demo_vector_solver (10, [], 0) = Inr (b, vs', 15, m', r') \<and>
    (if b then \<exists>xs :: 4 word list. m' = (\<lambda>xs _. xs) xs ([] :: 4 word list) \<and> length xs = unat (5 :: u32) \<and>
       (\<exists>\<rho>\<in>models (\<lambda>_. SBits 4) (wanted (\<lambda>_. SBits 4) (vector_hards (LENGTH(4), False) ?ids (vs_constraints demo_vector_solver))
           (vector_softs (LENGTH(4), False) ?ids (vs_constraints demo_vector_solver))).
          \<forall>k<unat (5 :: u32). sem_constant (to_constant_expr False (xs ! k)) = \<rho> (?ids ! k))
     else m' = [] \<and> models (\<lambda>_. SBits 4) (set (vector_hards (LENGTH(4), False) ?ids (vs_constraints demo_vector_solver))) = {})"
  proof (rule vector_elements_satisfy [OF _ _ _ _ _ _ els el ok refl refl])
    show "fa_default demo_factory = sat_visitor ''bdd'' sat_find counter" by (simp add: demo_factory_def)
    show "[1 \<mapsto> demo_vector] (vs_vector_id demo_vector_solver) = Some (rand_vec_base1 None False (\<lambda>r. (of_nat r, Suc r)) 3 (\<lambda>xs _. xs))"
      by (simp add: demo_vector_solver_def vs_addConstraint_def VectorSolver_def demo_vector_def)
    show "read_size demo_factory [] 3 0 = (5, 0)" by (simp add: read_size_def default_rand_vec_size_def)
    show "set ?ids \<subseteq> (\<Union>k\<in>set (vector_hards (LENGTH(4), False) ?ids (vs_constraints demo_vector_solver) @
        vector_softs (LENGTH(4), False) ?ids (vs_constraints demo_vector_solver)). node_vars k)"
      by (simp add: cs hard nodes)
  qed (simp_all add: sat_find_answers counter_def isBool_def)
  moreover have "LENGTH(4) = 4" "unat (5 :: u32) = 5" by simp_all
  ultimately show ?thesis by (simp only: cs)
qed

end
