(* ===== verification/GeneratorCorrect.thy ===== *)
theory GeneratorCorrect
  imports CoverageCorrect Generator VectorsCorrect
begin

text \<open>
  The generator solves its partitions one after the other and the results fit together: the values in the
  memory satisfy all constraints, and a failure means there are no such values.
\<close>

section \<open>Solving all partitions\<close>

lemma smt_sem_cong: "(\<And>i. i \<in> node_vars n \<Longrightarrow> \<rho> i = \<sigma> i) \<Longrightarrow> smt_sem \<rho> n = smt_sem \<sigma> n"
  by (induction n) auto

lemma holds_cong: "(\<And>i. i \<in> node_vars n \<Longrightarrow> \<rho> i = \<sigma> i) \<Longrightarrow> holds n \<rho> = holds n \<sigma>"
  unfolding holds_def using smt_sem_cong [of n \<rho> \<sigma>] by simp

definition part_nodes :: "bool \<Rightarrow> (nat \<Rightarrow> smt_sort) \<Rightarrow> ('m, 'r) container \<Rightarrow> 'm \<Rightarrow> partition \<Rightarrow> node set" where
  "part_nodes bypass d vcon m cp = set (effective bypass d (cp_constraints cp)) \<union> read_nodes (part_ctn vcon cp) m"

text \<open>The values of \<open>\<rho>\<close> are in the memory, as far as variables of \<open>N\<close> go.\<close>

definition stored :: "('m, 'r) container \<Rightarrow> (nat \<Rightarrow> smt_val) \<Rightarrow> node set \<Rightarrow> 'm \<Rightarrow> bool" where
  "stored vcon \<rho> N m \<longleftrightarrow> (\<forall>(i, ar)\<in>set (write_references vcon). \<forall>n\<in>N. i \<in> node_vars n \<longrightarrow> sem_constant (ar_value_as_constant ar m) = \<rho> i)"

text \<open>Only the places of variables of the partitions \<open>ps\<close> are written, and nothing that is read.\<close>

definition frame :: "('m, 'r) container \<Rightarrow> partition list \<Rightarrow> 'm \<Rightarrow> 'm \<Rightarrow> bool" where
  "frame vcon ps m m' \<longleftrightarrow> (\<forall>(i, e)\<in>set (read_references vcon). e m' = e m) \<and>
     (\<forall>ar. (\<forall>(i, a)\<in>set (write_references vcon). (\<exists>cp\<in>set ps. i \<in> cp_support cp) \<longrightarrow> separate a ar) \<longrightarrow>
        ar_value_as_constant ar m' = ar_value_as_constant ar m)"

lemma frame_refl: "frame vcon ps m m"
  by (simp add: frame_def)

lemma frame_step:
  assumes "frame vcon [cp] m m1" and "frame vcon ps m1 m2"
  shows "frame vcon (cp # ps) m m2"
  unfolding frame_def
proof (intro conjI allI impI ballI)
  fix x assume "x \<in> set (read_references vcon)"
  then show "case x of (i, e) \<Rightarrow> e m2 = e m" using assms unfolding frame_def by (fastforce split: prod.splits)
next
  fix ar :: "('a, 'b) assign_result"
  assume ar: "\<forall>(i, a)\<in>set (write_references vcon). (\<exists>c\<in>set (cp # ps). i \<in> cp_support c) \<longrightarrow> separate a ar"
  have "\<forall>(i, a)\<in>set (write_references vcon). (\<exists>c\<in>set [cp]. i \<in> cp_support c) \<longrightarrow> separate a ar"
    "\<forall>(i, a)\<in>set (write_references vcon). (\<exists>c\<in>set ps. i \<in> cp_support c) \<longrightarrow> separate a ar"
    using ar by (auto split: prod.splits)
  then have "ar_value_as_constant ar m1 = ar_value_as_constant ar m" "ar_value_as_constant ar m2 = ar_value_as_constant ar m1"
    using assms unfolding frame_def by blast+
  then show "ar_value_as_constant ar m2 = ar_value_as_constant ar m" by simp
qed

lemma written_frame:
  assumes "container_ok d vcon" and "written R \<rho> (write_references (part_ctn vcon cp)) m m'"
  shows "frame vcon [cp] m m'"
  unfolding frame_def
proof (intro conjI allI impI ballI)
  fix x assume x: "x \<in> set (read_references vcon)"
  obtain i e where ie: "x = (i, e)" by fastforce
  have "\<forall>(j, a)\<in>set (write_references (part_ctn vcon cp)). \<forall>str m r. e (fst (ar_set_value a str m r)) = e m"
    using assms(1) x unfolding container_ok_def part_ctn_simps ie by fastforce
  then show "case x of (i, e) \<Rightarrow> e m' = e m" using assms(2) unfolding written_def ie by simp
next
  fix ar :: "('a, 'b) assign_result"
  assume "\<forall>(i, a)\<in>set (write_references vcon). (\<exists>c\<in>set [cp]. i \<in> cp_support c) \<longrightarrow> separate a ar"
  then have "\<forall>(i, a)\<in>set (write_references (part_ctn vcon cp)). separate a ar"
    unfolding part_ctn_simps containsVar_def by auto
  then show "ar_value_as_constant ar m' = ar_value_as_constant ar m" using assms(2) unfolding written_def by blast
qed

lemma frame_read_nodes: "frame vcon ps m m' \<Longrightarrow> read_nodes (part_ctn vcon cp) m' = read_nodes (part_ctn vcon cp) m"
  unfolding frame_def read_nodes_def part_ctn_simps by (intro image_cong refl) (auto simp: ref_node_def)

lemma frame_part_nodes: "frame vcon ps m m' \<Longrightarrow> part_nodes b d vcon m' cp = part_nodes b d vcon m cp"
  by (simp add: part_nodes_def frame_read_nodes)

lemma container_separate:
  assumes "container_ok d vcon" and "(i, a) \<in> set (write_references vcon)" and "(j, b) \<in> set (write_references vcon)" and "i \<noteq> j"
  shows "separate a b"
proof -
  have "separate a b" if "sorted_wrt (\<lambda>(i, a) (j, b). i \<noteq> j \<and> separate a b \<and> separate b a) ws" "(i, a) \<in> set ws" "(j, b) \<in> set ws" for ws
    using that assms(4) by (induction ws) auto
  then show ?thesis using assms(1-3) by (auto simp: container_ok_def)
qed

lemma frame_value:
  assumes "container_ok d vcon" and "frame vcon ps m m'" and "(i, ar) \<in> set (write_references vcon)" and "\<forall>cp\<in>set ps. i \<notin> cp_support cp"
  shows "ar_value_as_constant ar m' = ar_value_as_constant ar m"
proof -
  have "\<forall>(j, a)\<in>set (write_references vcon). (\<exists>cp\<in>set ps. j \<in> cp_support cp) \<longrightarrow> separate a ar"
    using container_separate [OF assms(1) _ assms(3)] assms(4) by blast
  then show ?thesis using assms(2) unfolding frame_def by blast
qed

lemma typed_exists: "\<exists>\<rho>. typed d \<rho>"
proof
  show "typed d (\<lambda>i. case d i of SBool \<Rightarrow> VBool False | SBits n \<Rightarrow> VBits (replicate n False))"
    by (auto simp: typed_def split: smt_sort.splits)
qed

text \<open>Assignments to two disjoint sets of variables are joined.\<close>

lemma join_models:
  assumes \<rho>: "\<rho>1 \<in> models d N1" "\<rho>2 \<in> models d N2" and N1: "\<And>n. n \<in> N1 \<Longrightarrow> node_vars n \<subseteq> X" and N2: "\<And>n. n \<in> N2 \<Longrightarrow> node_vars n \<inter> X = {}"
  shows "(\<lambda>i. if i \<in> X then \<rho>1 i else \<rho>2 i) \<in> models d (N1 \<union> N2)"
proof -
  let ?\<rho> = "\<lambda>i. if i \<in> X then \<rho>1 i else \<rho>2 i"
  have "holds n ?\<rho> = holds n \<rho>1" if "n \<in> N1" for n by (rule holds_cong) (use N1 [OF that] in auto)
  moreover have "holds n ?\<rho> = holds n \<rho>2" if "n \<in> N2" for n by (rule holds_cong) (use N2 [OF that] in auto)
  ultimately show ?thesis using \<rho> by (auto simp: models_def typed_def)
qed

context good_factory
begin

lemma part_nodes_vars:
  assumes "pttn_ok d vcon cp" and "container_ok d vcon" and "n \<in> part_nodes b d vcon m cp"
  shows "node_vars n \<subseteq> cp_support cp"
  using pttn_vars [OF assms(1,2), of n b m] assms(3) by (simp add: part_nodes_def)

lemma VariableGenerator_solve_correct:
  fixes vcon :: "('m, 'r) container"
  assumes "list_all2 (default_ok F d reg breg vcon) ps vss" and "\<forall>cp\<in>set ps. pttn_ok d vcon cp" and "pairwise_disjoint ps"
    and vcon: "container_ok d vcon"
  defines "N m cp \<equiv> part_nodes (bypass_constraint_analysis F) d vcon m cp"
  shows "\<exists>b vss' m' r'. VariableGenerator_solve F vss m r = Inr (b, vss', m', r') \<and> list_all2 (default_ok F d reg breg vcon) ps vss' \<and>
    frame vcon ps m m' \<and>
    (if b then \<exists>\<rho>\<in>models d (\<Union>cp\<in>set ps. N m cp). stored vcon \<rho> (\<Union>cp\<in>set ps. N m cp) m'
     else \<exists>cp\<in>set ps. models d (N m cp) = {})"
  using assms(1-3)
proof (induction ps vss arbitrary: m r rule: list_all2_induct)
  case Nil
  obtain \<rho> where "typed d \<rho>" using typed_exists by blast
  then show ?case
    by (intro exI [of _ True] exI [of _ "[]"] exI [of _ m] exI [of _ r]) (auto simp: frame_refl models_def stored_def)
next
  case (Cons cp ps vs vss)
  have cp: "pttn_ok d vcon cp" and ps: "\<forall>cp\<in>set ps. pttn_ok d vcon cp" using Cons.prems(1) by simp_all
  have dis: "pairwise_disjoint ps" "\<forall>c\<in>set ps. cp_support cp \<inter> cp_support c = {}"
    using Cons.prems(2) by (auto simp: pairwise_disjoint_def)
  obtain b1 vs1 m1 r1 where s1: "default_solve F vs m r = Inr (b1, vs1, m1, r1)" "default_ok F d reg breg vcon cp vs1"
    and sol1: "if b1 then \<exists>\<rho>\<in>models d (N m cp). \<exists>R. (\<forall>n\<in>N m cp. node_vars n \<subseteq> R) \<and> R \<subseteq> cp_support cp \<and>
        written R \<rho> (write_references (part_ctn vcon cp)) m m1 \<and>
        (\<forall>i\<in>R. \<exists>n. variables (part_ctn vcon cp) i = Some n \<and> vi_read (fa_default F) n (solver vs1) = Some (val_string (\<rho> i)))
      else m1 = m \<and> models d (N m cp) = {}"
    using default_solve_correct [OF cp vcon Cons.hyps(1), of m r] unfolding N_def part_nodes_def by blast
  show ?case
  proof (cases b1)
    case False
    then have "m1 = m" "models d (N m cp) = {}" using sol1 by simp_all
    then show ?thesis using s1 False Cons.hyps(2)
      by (intro exI [of _ False] exI [of _ "vs1 # vss"] exI [of _ m] exI [of _ r1]) (simp add: frame_refl)
  next
    case True
    then obtain \<rho>1 R where \<rho>1: "\<rho>1 \<in> models d (N m cp)" "\<forall>n\<in>N m cp. node_vars n \<subseteq> R"
      "written R \<rho>1 (write_references (part_ctn vcon cp)) m m1"
      using sol1 by auto
    have f1: "frame vcon [cp] m m1" by (rule written_frame [OF vcon \<rho>1(3)])
    have same: "N m1 c = N m c" for c using frame_part_nodes [OF f1] by (simp add: N_def)
    obtain b vss' m' r' where s2: "VariableGenerator_solve F vss m1 r1 = Inr (b, vss', m', r')"
      "list_all2 (default_ok F d reg breg vcon) ps vss'" "frame vcon ps m1 m'"
      and sol2: "if b then \<exists>\<rho>\<in>models d (\<Union>c\<in>set ps. N m c). stored vcon \<rho> (\<Union>c\<in>set ps. N m c) m'
        else \<exists>c\<in>set ps. models d (N m c) = {}"
      using Cons.IH [OF ps dis(1), of m1 r1] unfolding same by blast
    have run: "VariableGenerator_solve F (vs # vss) m r = Inr (b, vs1 # vss', m', r')" using True s1(1) s2(1) by simp
    have frame: "frame vcon (cp # ps) m m'" by (rule frame_step [OF f1 s2(3)])
    have all2: "list_all2 (default_ok F d reg breg vcon) (cp # ps) (vs1 # vss')" using s1(2) s2(2) by simp
    show ?thesis
    proof (cases b)
      case False
      then show ?thesis using run frame all2 sol2 by (intro exI [of _ False] exI [of _ "vs1 # vss'"] exI [of _ m'] exI [of _ r']) auto
    next
      case True
      then obtain \<rho>2 where \<rho>2: "\<rho>2 \<in> models d (\<Union>c\<in>set ps. N m c)" "stored vcon \<rho>2 (\<Union>c\<in>set ps. N m c) m'" using sol2 by auto
      let ?\<rho> = "\<lambda>i. if i \<in> cp_support cp then \<rho>1 i else \<rho>2 i"
      have v1: "node_vars n \<subseteq> cp_support cp" if "n \<in> N m cp" for n
        using part_nodes_vars [OF cp vcon] that by (simp add: N_def)
      have v2: "node_vars n \<inter> cp_support cp = {}" if "n \<in> (\<Union>c\<in>set ps. N m c)" for n
        using that part_nodes_vars [OF _ vcon] ps dis(2) unfolding N_def by blast
      have "?\<rho> \<in> models d (N m cp \<union> (\<Union>c\<in>set ps. N m c))" by (rule join_models [OF \<rho>1(1) \<rho>2(1) v1 v2])
      moreover have "stored vcon ?\<rho> (N m cp \<union> (\<Union>c\<in>set ps. N m c)) m'"
        unfolding stored_def
      proof (intro ballI, clarify)
        fix i ar n assume w: "(i, ar) \<in> set (write_references vcon)" and n: "n \<in> N m cp \<union> (\<Union>c\<in>set ps. N m c)" and i: "i \<in> node_vars n"
        show "sem_constant (ar_value_as_constant ar m') = ?\<rho> i"
        proof (cases "n \<in> N m cp")
          case True
          then have "i \<in> cp_support cp" "i \<in> R" using v1 \<rho>1(2) i by auto
          moreover from this w have "(i, ar) \<in> set (write_references (part_ctn vcon cp))" by (simp add: part_ctn_simps containsVar_def)
          ultimately have "sem_constant (ar_value_as_constant ar m1) = \<rho>1 i" using \<rho>1(3) unfolding written_def by fastforce
          moreover have "ar_value_as_constant ar m' = ar_value_as_constant ar m1"
            by (rule frame_value [OF vcon s2(3) w]) (use dis(2) \<open>i \<in> cp_support cp\<close> in blast)
          ultimately show ?thesis using \<open>i \<in> cp_support cp\<close> by simp
        next
          case False
          then have N: "n \<in> (\<Union>c\<in>set ps. N m c)" using n by simp
          then have "i \<notin> cp_support cp" using v2 i by blast
          moreover have "sem_constant (ar_value_as_constant ar m') = \<rho>2 i" using \<rho>2(2) w N i unfolding stored_def by blast
          ultimately show ?thesis by simp
        qed
      qed
      ultimately show ?thesis using run frame all2 True
        by (intro exI [of _ True] exI [of _ "vs1 # vss'"] exI [of _ m'] exI [of _ r']) auto
    qed
  qed
qed

text \<open>The coverage generator returns, and writes only places of variables of its partitions.\<close>

lemma VariableCoverageGenerator_solve_ok:
  fixes vcon :: "('m, 'r) container"
  assumes "list_all2 (coverage_ok d reg vcon) ps vss" and "\<forall>cp\<in>set ps. pttn_ok d vcon cp" and vcon: "container_ok d vcon"
  shows "\<exists>b vss' m' r'. VariableCoverageGenerator_solve F vss m r = Inr (b, vss', m', r') \<and>
    list_all2 (coverage_ok d reg vcon) ps vss' \<and> frame vcon ps m m'"
  using assms(1,2)
proof (induction ps vss arbitrary: m r rule: list_all2_induct)
  case (Cons cp ps vs vss)
  have cp: "pttn_ok d vcon cp" and ps: "\<forall>cp\<in>set ps. pttn_ok d vcon cp" using Cons.prems by simp_all
  have "constr_pttn vs = cp" using Cons.hyps(1) by (simp add: coverage_ok_def)
  then obtain b vs1 m1 r1 where 1: "coverage_solve F vs m r = Inr (b, vs1, m1, r1)" "coverage_ok d reg vcon cp vs1"
    "m1 = m \<or> (\<exists>\<rho> R. written R \<rho> (write_references (part_ctn vcon cp)) m m1)"
    using coverage_loop_correct [OF cp vcon Cons.hyps(1) subset_refl, of m r] unfolding coverage_solve_def by (metis (full_types))
  have f: "frame vcon [cp] m m1" using 1(3)
  proof
    assume "\<exists>\<rho> R. written R \<rho> (write_references (part_ctn vcon cp)) m m1"
    then obtain \<rho> R where "written R \<rho> (write_references (part_ctn vcon cp)) m m1" by blast
    then show ?thesis by (rule written_frame [OF vcon])
  qed (simp add: frame_refl)
  obtain b' vss' m' r' where 2: "VariableCoverageGenerator_solve F vss m1 r1 = Inr (b', vss', m', r')"
    "list_all2 (coverage_ok d reg vcon) ps vss'" "frame vcon ps m1 m'"
    using Cons.IH [OF ps] by blast
  show ?case using 1(1,2) 2 frame_step [OF f 2(3)] by simp
next
  case Nil
  show ?case by (intro exI [of _ False] exI [of _ "[]"] exI [of _ m] exI [of _ r]) (simp add: frame_refl)
qed

end

section \<open>States of the generator\<close>

text \<open>Expressions of enabled hard constraints, and of enabled soft ones.\<close>

definition enabled_hards :: "manager \<Rightarrow> node set" where
  "enabled_hards mng = con_expr ` {c \<in> set (mng_constraints mng). con_enabled c \<and> \<not> con_soft c \<and> \<not> con_cover c}"

definition enabled_softs :: "manager \<Rightarrow> node set" where
  "enabled_softs mng = con_expr ` {c \<in> set (mng_constraints mng). con_enabled c \<and> con_soft c}"

text \<open>Constraints the solver can translate, on variables of the container, none of them on vectors.\<close>

definition manager_sorted :: "(nat \<Rightarrow> smt_sort) \<Rightarrow> ('m, 'r) container \<Rightarrow> manager \<Rightarrow> bool" where
  "manager_sorted d vcon mng \<longleftrightarrow> manager_ok mng \<and> length (mng_constraints mng) < 2 ^ 32 \<and>
     (\<forall>c\<in>set (mng_constraints mng). \<not> isVectorConstraint c \<and> constraint_sorted d (con_expr c) \<and> con_support c \<subseteq> dom (variables vcon))"

text \<open>The same of several managers together.\<close>

definition managers_sorted :: "(nat \<Rightarrow> smt_sort) \<Rightarrow> ('m, 'r) container \<Rightarrow> manager list \<Rightarrow> bool" where
  "managers_sorted d vcon ms \<longleftrightarrow> length (scalars ms) < 2 ^ 32 \<and> vectors ms = [] \<and>
     (\<forall>c\<in>set (scalars ms). constraint_sorted d (con_expr c) \<and> con_support c = node_vars (con_expr c) \<and> con_support c \<subseteq> dom (variables vcon))"

definition generator_parts ::
    "('v, 'w, 'r) factory \<Rightarrow> (nat \<Rightarrow> smt_sort) \<Rightarrow> ('v \<Rightarrow> node list \<Rightarrow> node list \<Rightarrow> node list \<Rightarrow> node list \<Rightarrow> bool) \<Rightarrow>
     ('w \<Rightarrow> node list \<Rightarrow> node list \<Rightarrow> node list \<Rightarrow> node list \<Rightarrow> bool) \<Rightarrow> ('m, 'r) container \<Rightarrow> ('v, 'm, 'r, 'w) generator \<Rightarrow> bool" where
  "generator_parts F d reg breg vcon g \<longleftrightarrow> manager_sorted d vcon (constr_mng g) \<and> to_be_generated_vec_ids g = {} \<and> vec_gen g = [] \<and>
     (let ps = partitions (gen_partitioner g)
      in list_all2 (default_ok F d reg breg vcon) ps (var_gen g) \<and> list_all2 (coverage_ok d reg vcon) ps (var_cov_gen g) \<and>
         (\<forall>cp\<in>set ps. pttn_ok d vcon cp) \<and> pairwise_disjoint ps)"

definition generator_ok ::
    "('v, 'w, 'r) factory \<Rightarrow> (nat \<Rightarrow> smt_sort) \<Rightarrow> ('v \<Rightarrow> node list \<Rightarrow> node list \<Rightarrow> node list \<Rightarrow> node list \<Rightarrow> bool) \<Rightarrow>
     ('w \<Rightarrow> node list \<Rightarrow> node list \<Rightarrow> node list \<Rightarrow> node list \<Rightarrow> bool) \<Rightarrow> ('m, 'r) container \<Rightarrow> ('v, 'm, 'r, 'w) generator \<Rightarrow> bool" where
  "generator_ok F d reg breg vcon g \<longleftrightarrow> generator_parts F d reg breg vcon g \<and>
     (\<not> gen_isChanged g \<longrightarrow> partitions (gen_partitioner g) = partition_loop (scalars [constr_mng g]) [])"

lemma new_solvers_ok:
  assumes "\<And>cp. cp \<in> set ps \<Longrightarrow> \<exists>vs. mk cp = Inr vs \<and> P cp vs"
  shows "\<exists>vss. new_solvers mk ps = Inr vss \<and> list_all2 P ps vss"
  using assms
proof (induction ps)
  case (Cons cp ps)
  obtain vs where vs: "mk cp = Inr vs" "P cp vs" using Cons.prems by (meson list.set_intros(1))
  have "\<exists>vss. new_solvers mk ps = Inr vss \<and> list_all2 P ps vss" by (rule Cons.IH) (rule Cons.prems, simp)
  then obtain vss where "new_solvers mk ps = Inr vss" "list_all2 P ps vss" by blast
  then show ?case using vs by simp
qed simp

lemma manager_sorted_single:
  assumes "manager_sorted d vcon mng"
  shows "managers_sorted d vcon [mng]"
proof -
  have "length (scalars [mng]) \<le> length (mng_constraints mng)" by (simp add: scalars_def)
  then have "length (scalars [mng]) < 2 ^ 32" using assms by (simp add: manager_sorted_def)
  moreover have "vectors [mng] = []" using assms by (simp add: manager_sorted_def vectors_def filter_empty_conv)
  moreover have "con_support c = node_vars (con_expr c)" if "c \<in> set (mng_constraints mng)" for c
    using assms that by (simp add: manager_sorted_def manager_ok_def constraint_ok_def)
  moreover have "set (scalars [mng]) \<subseteq> set (mng_constraints mng)" by (auto simp: scalars_def)
  ultimately show ?thesis using assms unfolding managers_sorted_def manager_sorted_def by blast
qed

lemma sorted_scalars: "manager_sorted d vcon mng \<Longrightarrow> scalars [mng] = filter con_enabled (mng_constraints mng)"
  unfolding scalars_def by (auto simp: manager_sorted_def intro: filter_cong)

lemma scalars_members: "vectors ms = [] \<Longrightarrow> c \<in> set (scalars ms) \<longleftrightarrow> (\<exists>mng\<in>set ms. c \<in> set (mng_constraints mng) \<and> con_enabled c)"
  by (auto simp: scalars_def vectors_def filter_empty_conv)

text \<open>What the partitioner makes of such constraints.\<close>

lemma sorted_partitions:
  assumes "managers_sorted d vcon ms"
  defines "ps \<equiv> partition_loop (scalars ms) []"
  shows "\<forall>cp\<in>set ps. pttn_ok d vcon cp" and "pairwise_disjoint ps" and "(\<Union>cp\<in>set ps. set (cp_constraints cp)) = set (scalars ms)"
proof -
  have ps: "partitions (partition_managers ms new_partitioner) = ps" by (simp add: ps_def partition_managers_fields)
  note spec = partitions_spec [of ms new_partitioner, unfolded ps]
  show "pairwise_disjoint ps" by (rule spec(2))
  show mem: "(\<Union>cp\<in>set ps. set (cp_constraints cp)) = set (scalars ms)"
    using partitions_members [of ms new_partitioner] unfolding ps .
  show "\<forall>cp\<in>set ps. pttn_ok d vcon cp"
  proof
    fix cp assume cp: "cp \<in> set ps"
    have pok: "partition_ok cp" using spec(1) cp unfolding list_all_iff by blast
    have "length (concat (map cp_constraints ps)) = length (scalars ms)" using spec(3) by (metis size_mset)
    moreover have "length (cp_constraints cp) \<le> length (concat (map cp_constraints ps))"
      using cp by (induction ps) auto
    ultimately have len: "length (cp_constraints cp) < 2 ^ 32" using assms(1) by (simp add: managers_sorted_def)
    have "set (cp_constraints cp) \<subseteq> set (scalars ms)" using mem cp by auto
    then have "\<forall>c\<in>set (cp_constraints cp). constraint_sorted d (con_expr c) \<and> con_support c \<subseteq> dom (variables vcon) \<and>
        con_support c = node_vars (con_expr c)"
      using assms(1) by (auto simp: managers_sorted_def)
    then show "pttn_ok d vcon cp" using pok len by (auto simp: pttn_ok_def partition_ok_def)
  qed
qed

lemma sorted_hards:
  assumes "managers_sorted d vcon ms"
  shows "(\<Union>cp\<in>set (partition_loop (scalars ms) []). set (hards_of (cp_constraints cp))) = (\<Union>mng\<in>set ms. enabled_hards mng)"
    and "(\<Union>cp\<in>set (partition_loop (scalars ms) []). set (softs_of (cp_constraints cp))) \<subseteq> (\<Union>mng\<in>set ms. enabled_softs mng)"
proof -
  let ?ps = "partition_loop (scalars ms) []"
  have "vectors ms = []" using assms by (simp add: managers_sorted_def)
  then have mem: "(\<exists>mng\<in>set ms. c \<in> set (mng_constraints mng) \<and> con_enabled c) \<longleftrightarrow> (\<exists>cp\<in>set ?ps. c \<in> set (cp_constraints cp))" for c
    using sorted_partitions(3) [OF assms] unfolding set_eq_iff by (simp only: scalars_members [symmetric] UN_iff)
  have "n \<in> (\<Union>cp\<in>set ?ps. set (hards_of (cp_constraints cp))) \<longleftrightarrow>
      (\<exists>c. (\<exists>cp\<in>set ?ps. c \<in> set (cp_constraints cp)) \<and> \<not> con_soft c \<and> \<not> con_cover c \<and> n = con_expr c)" for n
    by (auto simp: hards_of_def)
  then show "(\<Union>cp\<in>set ?ps. set (hards_of (cp_constraints cp))) = (\<Union>mng\<in>set ms. enabled_hards mng)"
    unfolding mem [symmetric] enabled_hards_def set_eq_iff by auto
  show "(\<Union>cp\<in>set ?ps. set (softs_of (cp_constraints cp))) \<subseteq> (\<Union>mng\<in>set ms. enabled_softs mng)"
  proof
    fix n assume "n \<in> (\<Union>cp\<in>set ?ps. set (softs_of (cp_constraints cp)))"
    then obtain cp c where c: "cp \<in> set ?ps" "c \<in> set (cp_constraints cp)" "con_soft c" "n = con_expr c" by (auto simp: softs_of_def)
    then obtain mng where "mng \<in> set ms" "c \<in> set (mng_constraints mng)" "con_enabled c" using mem by blast
    then show "n \<in> (\<Union>mng\<in>set ms. enabled_softs mng)" using c by (auto simp: enabled_softs_def)
  qed
qed

context good_factory
begin

lemma solvers_reset:
  fixes vcon :: "('m, 'r) container"
  assumes "\<forall>cp\<in>set ps. pttn_ok d vcon cp" and "container_ok d vcon"
  shows "\<exists>vss. VariableGenerator_reset F vcon ps = Inr vss \<and> list_all2 (default_ok F d reg breg vcon) ps vss"
    and "\<exists>vss. VariableCoverageGenerator_reset F vcon ps = Inr vss \<and> list_all2 (coverage_ok d reg vcon) ps vss"
  unfolding VariableGenerator_reset_def VariableCoverageGenerator_reset_def
proof -
  show "\<exists>vss. new_solvers (VariableDefaultSolver F vcon) ps = Inr vss \<and> list_all2 (default_ok F d reg breg vcon) ps vss"
    by (rule new_solvers_ok) (rule default_constructor [OF _ assms(2)], use assms(1) in blast)
  have "\<exists>vs. VariableCoverageSolver F vcon cp = Inr vs \<and> coverage_ok d reg vcon cp vs" if "cp \<in> set ps" for cp
    using coverage_constructor [OF _ assms(2), of cp] assms(1) that by blast
  then show "\<exists>vss. new_solvers (VariableCoverageSolver F vcon) ps = Inr vss \<and> list_all2 (coverage_ok d reg vcon) ps vss"
    by (rule new_solvers_ok)
qed

lemma rebuild_managers:
  fixes vcon :: "('m, 'r) container"
  assumes mng: "manager_sorted d vcon (constr_mng g)" and ms: "managers_sorted d vcon ms" and vcon: "container_ok d vcon"
    and g: "to_be_generated_vec_ids g = {}" "gen_partitioner g = foldl (\<lambda>p m. mergeConstraints m p) (pt_reset q) ms"
  shows "\<exists>g'. rebuild F vcon False g = Inr g' \<and> generator_parts F d reg breg vcon g' \<and> constr_mng g' = constr_mng g \<and>
    partitions (gen_partitioner g') = partition_loop (scalars ms) []"
proof -
  let ?p = "partition_managers ms q"
  have p: "partitions ?p = partition_loop (scalars ms) []" "vec_constraints ?p = []"
    unfolding partition_managers_fields using ms by (simp_all add: managers_sorted_def)
  have pp: "\<forall>cp\<in>set (partitions ?p). pttn_ok d vcon cp" "pairwise_disjoint (partitions ?p)"
    using sorted_partitions [OF ms] unfolding p(1) by simp_all
  obtain vss cvs where v: "VariableGenerator_reset F vcon (partitions ?p) = Inr vss" "list_all2 (default_ok F d reg breg vcon) (partitions ?p) vss"
    "VariableCoverageGenerator_reset F vcon (partitions ?p) = Inr cvs" "list_all2 (coverage_ok d reg vcon) (partitions ?p) cvs"
    using solvers_reset [OF pp(1) vcon] by blast
  define g' where "g' = g\<lparr>gen_partitioner := ?p, var_gen := vss, vec_gen := [], var_cov_gen := cvs\<rparr>"
  have "pt_partition (gen_partitioner g) = ?p" by (simp add: g(2) partition_managers_def)
  then have "rebuild F vcon False g = Inr g'" using v(1,3) p(2) by (simp add: rebuild_def vg_reset_def Let_def g'_def)
  moreover have "generator_parts F d reg breg vcon g'" using mng g(1) v(2,4) pp by (simp add: generator_parts_def g'_def Let_def)
  ultimately show ?thesis using p(1) by (simp add: g'_def)
qed

lemma gen_reset_eq:
  "gen_reset F vcon g = Inr (g\<lparr>constr_mng := resetChanged (constr_mng g), gen_partitioner := pt_reset (gen_partitioner g),
     to_be_generated_vec_ids := {}, gen_covered := False, var_cov_gen := []\<rparr>)"
  by (simp add: gen_reset_def resetCoverage_def pt_reset_def VariableCoverageGenerator_reset_def)

lemma resetChanged_sorted: "manager_sorted d vcon (resetChanged mng) = manager_sorted d vcon mng"
  by (simp add: manager_sorted_def manager_ok_def resetChanged_def)

lemma reset_rebuild_ok:
  fixes vcon :: "('m, 'r) container"
  assumes ok: "generator_ok F d reg breg vcon g" and vcon: "container_ok d vcon"
  shows "\<exists>g'. rbind (gen_reset F vcon g) (rebuild F vcon True) = Inr g' \<and> generator_ok F d reg breg vcon g' \<and> \<not> gen_isChanged g' \<and>
    mng_constraints (constr_mng g') = mng_constraints (constr_mng g)"
proof -
  let ?mng = "resetChanged (constr_mng g)"
  have mng: "manager_sorted d vcon ?mng" using ok by (simp add: generator_ok_def generator_parts_def resetChanged_sorted)
  define g1 where "g1 = gen_merge ?mng (g\<lparr>constr_mng := ?mng, gen_partitioner := pt_reset (gen_partitioner g), to_be_generated_vec_ids := {},
    gen_covered := False, var_cov_gen := []\<rparr>)"
  have g1: "constr_mng g1 = ?mng" "to_be_generated_vec_ids g1 = {}"
    "gen_partitioner g1 = foldl (\<lambda>p m. mergeConstraints m p) (pt_reset (gen_partitioner g)) [?mng]"
    by (simp_all add: g1_def gen_merge_def)
  obtain g2 where g2: "rebuild F vcon False g1 = Inr g2" "generator_parts F d reg breg vcon g2" "constr_mng g2 = ?mng"
    "partitions (gen_partitioner g2) = partition_loop (scalars [?mng]) []"
    using rebuild_managers [of vcon g1, OF _ manager_sorted_single [OF mng] vcon g1(2,3)] mng unfolding g1(1) by blast
  have "rbind (gen_reset F vcon g) (rebuild F vcon True) = rebuild F vcon False g1"
    by (simp add: gen_reset_eq rebuild_def g1_def Let_def)
  moreover have "generator_ok F d reg breg vcon g2" using g2(2-4) by (simp add: generator_ok_def)
  moreover have "\<not> gen_isChanged g2" by (simp add: g2(3) gen_isChanged_def resetChanged_def)
  moreover have "mng_constraints (constr_mng g2) = mng_constraints (constr_mng g)" by (simp add: g2(3) resetChanged_def)
  ultimately show ?thesis using g2(1) by simp
qed

lemma rebuild_ok:
  fixes vcon :: "('m, 'r) container"
  assumes ok: "generator_ok F d reg breg vcon g" and vcon: "container_ok d vcon"
  shows "\<exists>g'. rebuild_if_changed F vcon g = Inr g' \<and> generator_ok F d reg breg vcon g' \<and> \<not> gen_isChanged g' \<and>
    mng_constraints (constr_mng g') = mng_constraints (constr_mng g)"
  using ok reset_rebuild_ok [OF assms] by (cases "gen_isChanged g") (simp_all add: rebuild_if_changed_def)

text \<open>The constraints a list of partitions stands for, and the equations of the variables that are only read.\<close>

definition nodes_of :: "('m, 'r) container \<Rightarrow> partition list \<Rightarrow> 'm \<Rightarrow> node set" where
  "nodes_of vcon ps m = (\<Union>cp\<in>set ps. part_nodes (bypass_constraint_analysis F) d vcon m cp)"

lemma gen_next_unchanged:
  fixes vcon :: "('m, 'r) container"
  assumes ok: "generator_parts F d reg breg vcon g" and vcon: "container_ok d vcon" and same: "\<not> gen_isChanged g"
  defines "ps \<equiv> partitions (gen_partitioner g)"
  shows "\<exists>b vss m' r'. gen_next F vcon vbm g (n, m, r) = Inr (b, g\<lparr>var_gen := vss\<rparr>, n, m', r') \<and>
    generator_parts F d reg breg vcon (g\<lparr>var_gen := vss\<rparr>) \<and>
    (\<forall>(i, e)\<in>set (read_references vcon). e m' = e m) \<and>
    (if b then \<exists>\<rho>\<in>models d (nodes_of vcon ps m). stored vcon \<rho> (nodes_of vcon ps m) m' else models d (nodes_of vcon ps m) = {})"
proof -
  have G: "list_all2 (default_ok F d reg breg vcon) ps (var_gen g)" "\<forall>cp\<in>set ps. pttn_ok d vcon cp" "pairwise_disjoint ps"
    "to_be_generated_vec_ids g = {}" "vec_gen g = []"
    using ok by (simp_all add: generator_parts_def ps_def Let_def)
  obtain b vss m' r' where s: "VariableGenerator_solve F (var_gen g) m r = Inr (b, vss, m', r')"
    "list_all2 (default_ok F d reg breg vcon) ps vss" "frame vcon ps m m'"
    "if b then \<exists>\<rho>\<in>models d (nodes_of vcon ps m). stored vcon \<rho> (nodes_of vcon ps m) m'
     else \<exists>cp\<in>set ps. models d (part_nodes (bypass_constraint_analysis F) d vcon m cp) = {}"
    using VariableGenerator_solve_correct [OF G(1-3) vcon, of m r] unfolding nodes_of_def by blast
  have run: "gen_next F vcon vbm g (n, m, r) = Inr (b, g\<lparr>var_gen := vss\<rparr>, n, m', r')"
    using same s(1) G(4,5) by (simp add: gen_next_def rebuild_if_changed_def vg_solve_def Let_def)
  have ok': "generator_parts F d reg breg vcon (g\<lparr>var_gen := vss\<rparr>)"
    using ok s(2) by (simp add: generator_parts_def ps_def Let_def)
  have "models d (nodes_of vcon ps m) = {}" if "\<not> b"
  proof -
    obtain cp where cp: "cp \<in> set ps" "models d (part_nodes (bypass_constraint_analysis F) d vcon m cp) = {}" using s(4) \<open>\<not> b\<close> by auto
    then have "part_nodes (bypass_constraint_analysis F) d vcon m cp \<subseteq> nodes_of vcon ps m" by (auto simp: nodes_of_def)
    then show ?thesis using models_mono cp(2) by blast
  qed
  moreover have "\<forall>(i, e)\<in>set (read_references vcon). e m' = e m" using s(3) by (simp add: frame_def)
  ultimately show ?thesis using run ok' s(4)
    by (intro exI [of _ b] exI [of _ vss] exI [of _ m'] exI [of _ r']) (cases b; simp)
qed

text \<open>The constraints a generator solves.\<close>

definition solved_nodes :: "('m, 'r) container \<Rightarrow> manager list \<Rightarrow> 'm \<Rightarrow> node set" where
  "solved_nodes vcon ms m = nodes_of vcon (partition_loop (scalars ms) []) m"

lemma gen_next_ok:
  fixes vcon :: "('m, 'r) container"
  assumes ok: "generator_ok F d reg breg vcon g" and vcon: "container_ok d vcon"
  defines "N \<equiv> solved_nodes vcon [constr_mng g]"
  shows "\<exists>b g' m' r'. gen_next F vcon vbm g (n, m, r) = Inr (b, g', n, m', r') \<and> generator_ok F d reg breg vcon g' \<and>
    mng_constraints (constr_mng g') = mng_constraints (constr_mng g) \<and> \<not> gen_isChanged g' \<and>
    (\<forall>(i, e)\<in>set (read_references vcon). e m' = e m) \<and>
    (if b then \<exists>\<rho>\<in>models d (N m). stored vcon \<rho> (N m) m' else models d (N m) = {})"
proof -
  obtain g1 where g1: "rebuild_if_changed F vcon g = Inr g1" "generator_ok F d reg breg vcon g1" "\<not> gen_isChanged g1"
    "mng_constraints (constr_mng g1) = mng_constraints (constr_mng g)"
    using rebuild_ok [OF ok vcon] by blast
  have sc: "scalars [constr_mng g1] = scalars [constr_mng g]" using g1(4) by (simp add: scalars_def)
  then have N: "N m = nodes_of vcon (partitions (gen_partitioner g1)) m"
    using g1(2,3) by (simp add: generator_ok_def N_def solved_nodes_def)
  have parts: "generator_parts F d reg breg vcon g1" using g1(2) by (simp add: generator_ok_def)
  obtain b vss m' r' where s: "gen_next F vcon vbm g1 (n, m, r) = Inr (b, g1\<lparr>var_gen := vss\<rparr>, n, m', r')"
    "generator_parts F d reg breg vcon (g1\<lparr>var_gen := vss\<rparr>)" "\<forall>(i, e)\<in>set (read_references vcon). e m' = e m"
    "if b then \<exists>\<rho>\<in>models d (N m). stored vcon \<rho> (N m) m' else models d (N m) = {}"
    using gen_next_unchanged [OF parts vcon g1(3), of vbm n m r] unfolding N by blast
  have "gen_next F vcon vbm g (n, m, r) = gen_next F vcon vbm g1 (n, m, r)"
    using g1(1,3) by (simp add: gen_next_def rebuild_if_changed_def)
  moreover have "generator_ok F d reg breg vcon (g1\<lparr>var_gen := vss\<rparr>)" "\<not> gen_isChanged (g1\<lparr>var_gen := vss\<rparr>)"
    using s(2) g1(2,3) by (simp_all add: generator_ok_def gen_isChanged_def)
  ultimately show ?thesis using s(1,3,4) g1(4)
    by (intro exI [of _ b] exI [of _ "g1\<lparr>var_gen := vss\<rparr>"] exI [of _ m'] exI [of _ r']) simp
qed

lemma parts_coverage:
  "generator_parts F d reg breg vcon g \<Longrightarrow> list_all2 (coverage_ok d reg vcon) (partitions (gen_partitioner g)) vss \<Longrightarrow>
   generator_parts F d reg breg vcon (g\<lparr>var_cov_gen := vss, gen_covered := c\<rparr>)"
  by (simp add: generator_parts_def Let_def)

lemma nextCov_unchanged:
  fixes vcon :: "('m, 'r) container"
  assumes ok: "generator_parts F d reg breg vcon g" and vcon: "container_ok d vcon" and same: "\<not> gen_isChanged g"
  shows "\<exists>b g' m' r'. nextCov F vcon vbm g (n, m, r) = Inr (b, g', n, m', r') \<and> generator_parts F d reg breg vcon g' \<and>
    constr_mng g' = constr_mng g \<and> gen_partitioner g' = gen_partitioner g"
proof (cases "gen_covered g")
  case True
  then have "nextCov F vcon vbm g (n, m, r) = gen_next F vcon vbm g (n, m, r)" using same by (simp add: nextCov_def rebuild_if_changed_def)
  then show ?thesis using gen_next_unchanged [OF ok vcon same, of vbm n m r] by fastforce
next
  case False
  let ?ps = "partitions (gen_partitioner g)"
  have G: "list_all2 (coverage_ok d reg vcon) ?ps (var_cov_gen g)" "\<forall>cp\<in>set ?ps. pttn_ok d vcon cp"
    "to_be_generated_vec_ids g = {}" "vec_gen g = []"
    using ok by (simp_all add: generator_parts_def Let_def)
  obtain b vss m1 r1 where s: "VariableCoverageGenerator_solve F (var_cov_gen g) m r = Inr (b, vss, m1, r1)"
    "list_all2 (coverage_ok d reg vcon) ?ps vss"
    using VariableCoverageGenerator_solve_ok [OF G(1,2) vcon, of m r] by blast
  let ?g = "g\<lparr>var_cov_gen := vss\<rparr>"
  have up: "?g\<lparr>vec_gen := []\<rparr> = ?g" "?g\<lparr>vec_gen := [], gen_covered := True\<rparr> = ?g\<lparr>gen_covered := True\<rparr>"
    using G(4) by (cases g, simp)+
  have ok': "generator_parts F d reg breg vcon (?g\<lparr>gen_covered := c\<rparr>)" for c by (rule parts_coverage [OF ok s(2)])
  have run: "nextCov F vcon vbm g (n, m, r) =
      (if b then Inr (True, ?g, n, m1, r1) else gen_next F vcon vbm (?g\<lparr>gen_covered := True\<rparr>) (n, m1, r1))"
    using same s(1) G(3,4) False by (simp add: nextCov_def rebuild_if_changed_def vg_solve_def Let_def up)
  show ?thesis
  proof (cases b)
    case True
    have "generator_parts F d reg breg vcon ?g" using ok' [of False] by (simp add: generator_parts_def Let_def)
    then show ?thesis using run True by (intro exI [of _ True] exI [of _ ?g] exI [of _ m1] exI [of _ r1]) simp
  next
    case False
    have "\<not> gen_isChanged (?g\<lparr>gen_covered := True\<rparr>)" using same by (simp add: gen_isChanged_def)
    then show ?thesis using gen_next_unchanged [OF ok' [of True] vcon, of vbm n m1 r1] run False by fastforce
  qed
qed

lemma nextCov_ok:
  fixes vcon :: "('m, 'r) container"
  assumes ok: "generator_ok F d reg breg vcon g" and vcon: "container_ok d vcon"
  shows "\<exists>b g' m' r'. nextCov F vcon vbm g (n, m, r) = Inr (b, g', n, m', r') \<and> generator_ok F d reg breg vcon g' \<and>
    mng_constraints (constr_mng g') = mng_constraints (constr_mng g)"
proof -
  obtain g1 where g1: "rebuild_if_changed F vcon g = Inr g1" "generator_ok F d reg breg vcon g1" "\<not> gen_isChanged g1"
    "mng_constraints (constr_mng g1) = mng_constraints (constr_mng g)"
    using rebuild_ok [OF ok vcon] by blast
  have parts: "generator_parts F d reg breg vcon g1" using g1(2) by (simp add: generator_ok_def)
  obtain b g' m' r' where s: "nextCov F vcon vbm g1 (n, m, r) = Inr (b, g', n, m', r')" "generator_parts F d reg breg vcon g'"
    "constr_mng g' = constr_mng g1" "gen_partitioner g' = gen_partitioner g1"
    using nextCov_unchanged [OF parts vcon g1(3), of vbm n m r] by blast
  have "nextCov F vcon vbm g (n, m, r) = nextCov F vcon vbm g1 (n, m, r)"
    using g1(1,3) by (simp add: nextCov_def rebuild_if_changed_def)
  moreover have "generator_ok F d reg breg vcon g'" using s(2-4) g1(2,3) by (simp add: generator_ok_def gen_isChanged_def)
  ultimately show ?thesis using s(1,3) g1(4) by simp
qed

end

section \<open>Reachable states\<close>

text \<open>
  Between the calls of the generator, the container may get new variables and references to them (they have
  new identifiers), and the program may change its memory and draw random numbers.
\<close>

definition extends :: "('m, 'r) container \<Rightarrow> ('m, 'r) container \<Rightarrow> bool" where
  "extends vcon vcon' \<longleftrightarrow> variables vcon \<subseteq>\<^sub>m variables vcon' \<and> dist_ref_to_var_map vcon \<subseteq>\<^sub>m dist_ref_to_var_map vcon' \<and>
     (\<exists>rs ws ds. read_references vcon' = read_references vcon @ rs \<and> write_references vcon' = write_references vcon @ ws \<and>
        dist_references vcon' = dist_references vcon @ ds \<and> fst ` (set rs \<union> set ds) \<inter> dom (variables vcon) = {} \<and> fst ` set ws \<inter> dom (variables vcon) = {})"

lemma restrict_map_le:
  assumes "f \<subseteq>\<^sub>m g" and "X \<subseteq> dom f"
  shows "g |` X = f |` X"
proof
  fix x
  have "x \<in> X \<Longrightarrow> f x = g x" using assms unfolding map_le_def by blast
  then show "(g |` X) x = (f |` X) x" by (simp add: restrict_map_def)
qed

lemma extends_part_ctn:
  assumes "extends vcon vcon'" and "container_ok d vcon" and "cp_support cp \<subseteq> dom (variables vcon)"
  shows "part_ctn vcon' cp = part_ctn vcon cp"
proof -
  obtain rs ws ds where e: "variables vcon \<subseteq>\<^sub>m variables vcon'" "dist_ref_to_var_map vcon \<subseteq>\<^sub>m dist_ref_to_var_map vcon'"
    "read_references vcon' = read_references vcon @ rs" "write_references vcon' = write_references vcon @ ws"
    "dist_references vcon' = dist_references vcon @ ds" "fst ` (set rs \<union> set ds) \<inter> dom (variables vcon) = {}"
    "fst ` set ws \<inter> dom (variables vcon) = {}"
    using assms(1) unfolding extends_def by blast
  have none: "filter (\<lambda>(i, _). containsVar i cp) xs = []" if "fst ` set xs \<inter> dom (variables vcon) = {}" for xs :: "(nat \<times> 'x) list"
    using that assms(3) by (fastforce simp: filter_empty_conv containsVar_def)
  have new: "filter (\<lambda>(i, _). containsVar i cp) rs = []" "filter (\<lambda>(i, _). containsVar i cp) ws = []" "filter (\<lambda>(i, _). containsVar i cp) ds = []"
    using e(6,7) by (intro none; blast)+
  let ?D = "fst ` set (filter (\<lambda>(i, _). containsVar i cp) (dist_references vcon))"
  have v: "variables vcon' |` cp_support cp = variables vcon |` cp_support cp"
    by (rule restrict_map_le [OF e(1) assms(3)])
  have "?D \<subseteq> fst ` set (dist_references vcon)" by (rule image_mono) auto
  moreover have "fst ` set (dist_references vcon) \<subseteq> dom (dist_ref_to_var_map vcon)"
    using assms(2) by (fastforce simp: container_ok_def)
  ultimately have "?D \<subseteq> dom (dist_ref_to_var_map vcon)" by (rule subset_trans)
  then have "dist_ref_to_var_map vcon' |` ?D = dist_ref_to_var_map vcon |` ?D" by (rule restrict_map_le [OF e(2)])
  with v show ?thesis by (simp add: part_ctn_def Let_def e(3-5) new)
qed

text \<open>
  The steps of a program over one generator. New constraints are scalar: their expressions, after the width
  pass, are well sorted over declared variables, which leaves out \<open>foreach\<close> and \<open>unique\<close> and a division of a
  signed by an unsigned operand. \<open>reset\<close> and \<open>rebuild\<close> come together; \<open>merge\<close> and \<open>addVecId\<close>, which are there
  for random objects, are no steps (see the theory of random objects).
\<close>

inductive gen_step ::
    "('v, 'w, 'r) factory \<Rightarrow> ('m, 'r) vector_base_map \<Rightarrow> (nat \<Rightarrow> smt_sort) \<Rightarrow>
     ('m, 'r) container \<times> ('v, 'm, 'r, 'w) generator \<times> ('m, 'r) outside \<Rightarrow>
     ('m, 'r) container \<times> ('v, 'm, 'r, 'w) generator \<times> ('m, 'r) outside \<Rightarrow> bool"
  for F vbm d
where
  declares: "container_ok d vcon' \<Longrightarrow> extends vcon vcon' \<Longrightarrow> gen_step F vbm d (vcon, g, s) (vcon', g, s)"
| program: "gen_step F vbm d (vcon, g, s) (vcon, g, s')"
| constrain: "fixWidth e = Inr n \<Longrightarrow> constraint_sorted d n \<Longrightarrow> node_vars n \<subseteq> dom (variables vcon) \<Longrightarrow>
    length (mng_constraints (constr_mng g)) + 1 < 2 ^ 32 \<Longrightarrow> gen_constraint name i e soft cover g = Inr g' \<Longrightarrow>
    gen_step F vbm d (vcon, g, s) (vcon, g', s)"
| enable: "gen_step F vbm d (vcon, g, s) (vcon, snd (gen_enableConstraint name g), s)"
| disable: "gen_step F vbm d (vcon, g, s) (vcon, snd (gen_disableConstraint name g), s)"
| coverage: "resetCoverage F vcon g = Inr g' \<Longrightarrow> gen_step F vbm d (vcon, g, s) (vcon, g', s)"
| rebuilt: "rbind (gen_reset F vcon g) (rebuild F vcon True) = Inr g' \<Longrightarrow> gen_step F vbm d (vcon, g, s) (vcon, g', s)"
| next_values: "gen_next F vcon vbm g s = Inr (b, g', s') \<Longrightarrow> gen_step F vbm d (vcon, g, s) (vcon, g', s')"
| next_coverage: "nextCov F vcon vbm g s = Inr (b, g', s') \<Longrightarrow> gen_step F vbm d (vcon, g, s) (vcon, g', s')"

inductive_cases gen_stepE: "gen_step F vbm d x y"

lemma set_enabled_sorted:
  assumes "manager_sorted d vcon mng" and "manager_ok mng'" and "mng_constraints mng' = (mng_constraints mng)[p := set_enabled b (mng_constraints mng ! p)]"
    and "p < length (mng_constraints mng)"
  shows "manager_sorted d vcon mng'"
proof -
  let ?P = "\<lambda>c. \<not> isVectorConstraint c \<and> constraint_sorted d (con_expr c) \<and> con_support c \<subseteq> dom (variables vcon)"
  have P: "\<forall>c\<in>set (mng_constraints mng). ?P c" and len: "length (mng_constraints mng) < 2 ^ 32"
    using assms(1) by (simp_all add: manager_sorted_def)
  have "?P (mng_constraints mng ! p)" using P assms(4) nth_mem by blast
  then have "?P (set_enabled b (mng_constraints mng ! p))" by (simp add: set_enabled_def isVectorConstraint_def)
  moreover have "set (mng_constraints mng') \<subseteq> insert (set_enabled b (mng_constraints mng ! p)) (set (mng_constraints mng))"
    unfolding assms(3) by (rule set_update_subset_insert)
  ultimately have "\<forall>c\<in>set (mng_constraints mng'). ?P c" using P by blast
  then show ?thesis using assms(2,3) len by (simp add: manager_sorted_def)
qed

lemma enable_sorted:
  assumes "manager_sorted d vcon mng"
  shows "manager_sorted d vcon (snd (enableConstraint name mng))" "manager_sorted d vcon (snd (disableConstraint name mng))"
    and "\<not> changed (snd (enableConstraint name mng)) \<Longrightarrow> snd (enableConstraint name mng) = mng"
    and "\<not> changed (snd (disableConstraint name mng)) \<Longrightarrow> snd (disableConstraint name mng) = mng"
proof -
  have ok: "manager_ok mng" using assms by (simp add: manager_sorted_def)
  have p: "p < length (mng_constraints mng)" if "constr_map mng name = Some p" for p
    using ok that unfolding manager_ok_def by blast
  have upd: "manager_sorted d vcon (mng\<lparr>mng_constraints := (mng_constraints mng)[p := set_enabled b (mng_constraints mng ! p)], changed := True\<rparr>)"
    if "constr_map mng name = Some p" for p b
    by (rule set_enabled_sorted [OF assms update_enabled_ok [OF ok p [OF that]] _ p [OF that]]) simp
  show "manager_sorted d vcon (snd (enableConstraint name mng))" "manager_sorted d vcon (snd (disableConstraint name mng))"
    using assms upd by (auto simp: enableConstraint_def disableConstraint_def split: option.splits)
  show "\<not> changed (snd (enableConstraint name mng)) \<Longrightarrow> snd (enableConstraint name mng) = mng"
    "\<not> changed (snd (disableConstraint name mng)) \<Longrightarrow> snd (disableConstraint name mng) = mng"
    by (auto simp: enableConstraint_def disableConstraint_def split: option.splits if_splits)
qed

lemma sorted_not_vector: "constraint_sorted d n \<Longrightarrow> \<not> isVectorConstraint (new_constraint name i n soft cover)"
proof (cases n)
  case (BinaryOperator f l r)
  moreover assume "constraint_sorted d n"
  ultimately have "f \<noteq> ForEach"
    by (auto simp: constraint_sorted_def bind_eq_Some_conv elim!: binop_sort.elims split: if_splits)
  then show ?thesis using BinaryOperator by (simp add: new_constraint_def isVectorConstraint_def UserConstraint_def)
next
  case (UnaryOperator u a)
  moreover assume "constraint_sorted d n"
  ultimately have "u \<noteq> Unique" by (auto simp: constraint_sorted_def bind_eq_Some_conv)
  then show ?thesis using UnaryOperator by (simp add: new_constraint_def isVectorConstraint_def UserConstraint_def)
qed (simp_all add: new_constraint_def isVectorConstraint_def UserConstraint_def)

lemma sorted_make:
  assumes mng: "manager_sorted d vcon mng" and n: "fixWidth e = Inr n" "constraint_sorted d n" "node_vars n \<subseteq> dom (variables vcon)"
    and len: "length (mng_constraints mng) + 1 < 2 ^ 32" and mk: "makeConstraint_expr name i e soft cover mng = Inr (c, mng')"
  shows "manager_sorted d vcon mng' \<and> changed mng'"
proof -
  have mk': "makeConstraint name i n soft cover mng = Inr (c, mng')" using mk n(1) by (simp add: makeConstraint_expr_def)
  obtain k where c: "c = (new_constraint name i n soft cover)\<lparr>con_complexity := k\<rparr>"
    and m': "mng' = mng\<lparr>changed := True, mng_constraints := mng_constraints mng @ [c], constr_map := (constr_map mng)(name \<mapsto> length (mng_constraints mng))\<rparr>"
    using makeConstraint_InrD [OF mk'] by blast
  have "\<not> isVectorConstraint c" using sorted_not_vector [OF n(2)] by (simp add: c isVectorConstraint_def)
  moreover have "con_expr c = n" "con_support c = node_vars n" by (simp_all add: c new_constraint_fields)
  moreover have "manager_ok mng'" using makeConstraint_ok [OF _ mk'] mng by (simp add: manager_sorted_def)
  ultimately show ?thesis using mng n(2,3) len by (auto simp: manager_sorted_def m')
qed

lemma generator_ok_manager:
  assumes ok: "generator_ok F d reg breg vcon g" and mng: "manager_sorted d vcon mng" "\<not> changed mng \<Longrightarrow> mng = constr_mng g"
  shows "generator_ok F d reg breg vcon (g\<lparr>constr_mng := mng\<rparr>)"
  using assms by (auto simp: generator_ok_def generator_parts_def Let_def gen_isChanged_def)

lemma ctn_cong:
  assumes "part_ctn vcon' cp = part_ctn vcon cp"
  shows "default_ok F d reg breg vcon' cp vs = default_ok F d reg breg vcon cp vs"
    and "coverage_ok d reg vcon' cp cvs = coverage_ok d reg vcon cp cvs"
  by (simp_all only: default_ok_def coverage_ok_def assms)

lemma generator_parts_extends:
  assumes ok: "generator_parts F d reg breg vcon g" and vcon: "container_ok d vcon" and ext: "extends vcon vcon'"
  shows "generator_parts F d reg breg vcon' g"
proof -
  let ?ps = "partitions (gen_partitioner g)"
  have dom: "dom (variables vcon) \<subseteq> dom (variables vcon')" using ext by (auto simp: extends_def map_le_implies_dom_le)
  have pttn: "\<forall>cp\<in>set ?ps. pttn_ok d vcon cp" using ok by (simp add: generator_parts_def Let_def)
  then have pttn': "\<forall>cp\<in>set ?ps. pttn_ok d vcon' cp" using dom unfolding pttn_ok_def by blast
  have same: "part_ctn vcon' cp = part_ctn vcon cp" if "cp \<in> set ?ps" for cp
    using extends_part_ctn [OF ext vcon, of cp] pttn that by (simp add: pttn_ok_def)
  have "list_all2 (default_ok F d reg breg vcon') ?ps (var_gen g)"
    by (rule list.rel_mono_strong [where R = "default_ok F d reg breg vcon"])
      (use ok in \<open>simp_all add: generator_parts_def Let_def ctn_cong(1) [OF same]\<close>)
  moreover have "list_all2 (coverage_ok d reg vcon') ?ps (var_cov_gen g)"
    by (rule list.rel_mono_strong [where R = "coverage_ok d reg vcon"])
      (use ok in \<open>simp_all add: generator_parts_def Let_def ctn_cong(2) [OF same]\<close>)
  moreover have "manager_sorted d vcon (constr_mng g)" using ok by (simp add: generator_parts_def)
  then have "manager_sorted d vcon' (constr_mng g)" using dom unfolding manager_sorted_def by blast
  ultimately show ?thesis using ok pttn' by (simp add: generator_parts_def Let_def)
qed

lemma generator_ok_extends:
  "generator_ok F d reg breg vcon g \<Longrightarrow> container_ok d vcon \<Longrightarrow> extends vcon vcon' \<Longrightarrow> generator_ok F d reg breg vcon' g"
  using generator_parts_extends unfolding generator_ok_def by blast

context good_factory
begin

lemma gen_step_ok:
  fixes vcon vcon' :: "('m, 'r) container"
  assumes "gen_step F vbm d (vcon, g, s) (vcon', g', s')" and ok: "generator_ok F d reg breg vcon g" and vcon: "container_ok d vcon"
  shows "generator_ok F d reg breg vcon' g' \<and> container_ok d vcon'"
  using assms(1)
proof (cases rule: gen_step.cases)
  case declares
  then show ?thesis using generator_ok_extends [OF ok vcon] by simp
next
  case program
  then show ?thesis using ok vcon by simp
next
  case (constrain e n name i soft cover)
  obtain c mng where mng: "makeConstraint_expr name i e soft cover (constr_mng g) = Inr (c, mng)" "g' = g\<lparr>constr_mng := mng\<rparr>"
    using constrain by (auto simp: gen_constraint_def rbind_eq_Inr)
  have "manager_sorted d vcon (constr_mng g)" using ok by (simp add: generator_ok_def generator_parts_def)
  from sorted_make [OF this _ _ _ _ mng(1)] constrain have "manager_sorted d vcon mng" "changed mng" by simp_all
  then show ?thesis using generator_ok_manager [OF ok, of mng] mng(2) vcon constrain by simp
next
  case (enable name)
  have "manager_sorted d vcon (constr_mng g)" using ok by (simp add: generator_ok_def generator_parts_def)
  note e = enable_sorted [OF this, of name]
  show ?thesis using enable generator_ok_manager [OF ok e(1) e(3)] vcon by (simp add: gen_enableConstraint_def split: prod.splits)
next
  case (disable name)
  have "manager_sorted d vcon (constr_mng g)" using ok by (simp add: generator_ok_def generator_parts_def)
  note e = enable_sorted [OF this, of name]
  show ?thesis using disable generator_ok_manager [OF ok e(2) e(4)] vcon by (simp add: gen_disableConstraint_def split: prod.splits)
next
  case coverage
  obtain vss where vss: "VariableCoverageGenerator_reset F vcon (partitions (gen_partitioner g)) = Inr vss"
    "list_all2 (coverage_ok d reg vcon) (partitions (gen_partitioner g)) vss"
    using solvers_reset(2) [OF _ vcon, of "partitions (gen_partitioner g)"] ok by (auto simp: generator_ok_def generator_parts_def Let_def)
  then have "g' = g\<lparr>gen_covered := False, var_cov_gen := vss\<rparr>" using coverage by (simp add: resetCoverage_def)
  also have "\<dots> = g\<lparr>var_cov_gen := vss, gen_covered := False\<rparr>" by simp
  finally have g': "g' = g\<lparr>var_cov_gen := vss, gen_covered := False\<rparr>" .
  have "generator_parts F d reg breg vcon g'" unfolding g' by (rule parts_coverage [OF _ vss(2)]) (use ok in \<open>simp add: generator_ok_def\<close>)
  then have "generator_ok F d reg breg vcon g'" using ok by (simp add: generator_ok_def g' gen_isChanged_def)
  then show ?thesis using coverage vcon by simp
next
  case rebuilt
  then show ?thesis using reset_rebuild_ok [OF ok vcon] vcon by auto
next
  case (next_values b)
  obtain n m r where "s = (n, m, r)" by (cases s) auto
  then show ?thesis using gen_next_ok [OF ok vcon, of vbm n m r] next_values vcon by auto
next
  case (next_coverage b)
  obtain n m r where "s = (n, m, r)" by (cases s) auto
  then show ?thesis using nextCov_ok [OF ok vcon, of vbm n m r] next_coverage vcon by auto
qed

lemma new_generator_ok: "generator_ok F d reg breg vcon (Generator i)"
  by (simp add: generator_ok_def generator_parts_def Generator_def manager_sorted_def new_manager_ok)
    (simp add: new_manager_def new_partitioner_def scalars_def gen_isChanged_def pairwise_disjoint_def)

lemma gen_reachable_ok:
  fixes vcon0 :: "('m, 'r) container"
  assumes "(gen_step F vbm d)\<^sup>*\<^sup>* (vcon0, Generator i, s0) (vcon, g, s)" and "container_ok d vcon0"
  shows "generator_ok F d reg breg vcon g \<and> container_ok d vcon"
proof -
  have "generator_ok F d reg breg (fst y) (fst (snd y)) \<and> container_ok d (fst y)" if "(gen_step F vbm d)\<^sup>*\<^sup>* (vcon0, Generator i, s0) y" for y
    using that
  proof (induction rule: rtranclp_induct)
    case base
    then show ?case using new_generator_ok assms(2) by simp
  next
    case (step y z)
    obtain v1 g1 s1 v2 g2 s2 where yz: "y = (v1, g1, s1)" "z = (v2, g2, s2)" by (cases y; cases z) auto
    show ?case using gen_step_ok [OF step(2) [unfolded yz]] step(3) by (simp add: yz)
  qed
  from this [OF assms(1)] show ?thesis by simp
qed

end

section \<open>Values of the generator\<close>

text \<open>The equations of the variables that are read, for those that occur in an enabled constraint.\<close>

definition assumed_reads :: "('m, 'r) container \<Rightarrow> manager \<Rightarrow> 'm \<Rightarrow> node set" where
  "assumed_reads vcon mng m = (\<lambda>(i, e). ref_node e m) ` {(i, e) \<in> set (read_references vcon). \<exists>c\<in>set (scalars [mng]). i \<in> con_support c}"

lemma assumed_reads_eq:
  "(\<Union>mng\<in>set ms. assumed_reads vcon mng m) = (\<lambda>(i, e). ref_node e m) ` {(i, e) \<in> set (read_references vcon). \<exists>c\<in>set (scalars ms). i \<in> con_support c}"
proof -
  have "set (scalars ms) = (\<Union>mng\<in>set ms. set (scalars [mng]))" by (auto simp: scalars_def)
  then have "{(i, e) \<in> set (read_references vcon). \<exists>c\<in>set (scalars ms). i \<in> con_support c} =
      (\<Union>mng\<in>set ms. {(i, e) \<in> set (read_references vcon). \<exists>c\<in>set (scalars [mng]). i \<in> con_support c})" by blast
  then show ?thesis by (simp only: assumed_reads_def image_UN)
qed

lemma solved_nodes_bounds:
  fixes vcon :: "('m, 'r) container"
  assumes F: "good_factory F d reg breg" and ms: "managers_sorted d vcon ms"
  defines "H \<equiv> \<Union>mng\<in>set ms. enabled_hards mng" and "S \<equiv> \<Union>mng\<in>set ms. enabled_softs mng" and "R \<equiv> \<lambda>m. \<Union>mng\<in>set ms. assumed_reads vcon mng m"
  shows "H \<union> R m \<subseteq> good_factory.solved_nodes F d vcon ms m" and "good_factory.solved_nodes F d vcon ms m \<subseteq> H \<union> S \<union> R m"
proof -
  let ?ps = "partition_loop (scalars ms) []"
  have sup: "(\<exists>cp\<in>set ?ps. i \<in> cp_support cp) \<longleftrightarrow> (\<exists>c\<in>set (scalars ms). i \<in> con_support c)" for i
  proof -
    have "cp_support cp = (\<Union>c\<in>set (cp_constraints cp). con_support c)" if "cp \<in> set ?ps" for cp
      using sorted_partitions(1) [OF ms] that by (simp add: pttn_ok_def partition_ok_def)
    then show ?thesis unfolding sorted_partitions(3) [OF ms, symmetric] by auto
  qed
  have "read_nodes (part_ctn vcon cp) m = (\<lambda>(i, e). ref_node e m) ` {(i, e) \<in> set (read_references vcon). i \<in> cp_support cp}" for cp
    unfolding read_nodes_def part_ctn_simps containsVar_def by (rule arg_cong [where f = "(`) _"]) auto
  then have "(\<Union>cp\<in>set ?ps. read_nodes (part_ctn vcon cp) m) =
      (\<lambda>(i, e). ref_node e m) ` (\<Union>cp\<in>set ?ps. {(i, e) \<in> set (read_references vcon). i \<in> cp_support cp})"
    by (simp only: image_UN)
  also have "(\<Union>cp\<in>set ?ps. {(i, e) \<in> set (read_references vcon). i \<in> cp_support cp}) =
      {(i, e) \<in> set (read_references vcon). \<exists>cp\<in>set ?ps. i \<in> cp_support cp}" by blast
  finally have reads: "(\<Union>cp\<in>set ?ps. read_nodes (part_ctn vcon cp) m) = R m"
    by (simp only: R_def assumed_reads_eq sup)
  let ?E = "\<Union>cp\<in>set ?ps. set (effective (bypass_constraint_analysis F) d (cp_constraints cp))"
  have N: "good_factory.solved_nodes F d vcon ms m = ?E \<union> R m"
    unfolding good_factory.solved_nodes_def [OF F] good_factory.nodes_of_def [OF F] part_nodes_def UN_Un_distrib reads by (rule refl)
  have "H \<subseteq> ?E" unfolding H_def sorted_hards(1) [OF ms, symmetric] by (rule UN_mono [OF subset_refl set_effective(1)])
  then show "H \<union> R m \<subseteq> good_factory.solved_nodes F d vcon ms m" unfolding N by blast
  have "?E \<subseteq> (\<Union>cp\<in>set ?ps. set (hards_of (cp_constraints cp)) \<union> set (softs_of (cp_constraints cp)))"
    by (rule UN_mono [OF subset_refl set_effective(2)])
  then have "?E \<subseteq> H \<union> S"
    unfolding UN_Un_distrib using sorted_hards(2) [OF ms] by (simp only: sorted_hards(1) [OF ms] H_def S_def) blast
  then show "good_factory.solved_nodes F d vcon ms m \<subseteq> H \<union> S \<union> R m" unfolding N by blast
qed

text \<open>
  A factory of the bit blaster over the clause generator; a package of decision diagrams only has to keep
  the contract of solvers.
\<close>

definition sat_factory :: "((sat_clause, lit) meta \<times> (lit \<Rightarrow> bool), 'w, 'r) factory \<Rightarrow> (nat \<Rightarrow> smt_sort) \<Rightarrow> bool" where
  "sat_factory F d \<longleftrightarrow>
     (\<exists>enc slv rnd. fa_default F = sat_visitor enc slv rnd \<and> sat_answers slv \<and> (\<forall>r n. 0 < n \<longrightarrow> fst (rnd r n) < n) \<and>
        (enc = ''bdd'' \<or> enc = ''adder'')) \<and>
     (\<forall>W. fa_cudd F = Some W \<longrightarrow> (\<exists>breg. solver_visitor W d breg)) \<and>
     (\<forall>r n. 0 < n \<longrightarrow> fst (fa_random_unsigned F r n) < n)"

lemma sat_factory_good:
  assumes "sat_factory F d"
  shows "\<exists>breg. good_factory F d (sat_reg d) breg"
proof -
  obtain enc slv rnd where V: "fa_default F = sat_visitor enc slv rnd" "sat_answers slv" "\<forall>r n. 0 < n \<longrightarrow> fst (rnd r n) < n"
    "enc = ''bdd'' \<or> enc = ''adder''"
    using assms unfolding sat_factory_def by blast
  have main: "solver_visitor (fa_default F) d (sat_reg d)"
    unfolding V(1) by (rule sat_visitor_contract) (use V in auto)
  obtain breg where breg: "\<And>W. fa_cudd F = Some W \<Longrightarrow> solver_visitor W d breg"
    using assms unfolding sat_factory_def by (cases "fa_cudd F") auto
  have "good_factory F d (sat_reg d) breg"
    by (rule good_factory.intro) (use main breg assms in \<open>auto simp: sat_factory_def\<close>)
  then show ?thesis by blast
qed

lemma generator_next_result:
  assumes F: "sat_factory F d" and start: "container_ok d vcon0"
    and reach: "(gen_step F vbm d)\<^sup>*\<^sup>* (vcon0, Generator i, s0) (vcon, g, (n, m, r))"
  shows "\<exists>b g' m' r' N. gen_next F vcon vbm g (n, m, r) = Inr (b, g', n, m', r') \<and>
    assumed_reads vcon (constr_mng g) m' = assumed_reads vcon (constr_mng g) m \<and>
    enabled_hards (constr_mng g) \<union> assumed_reads vcon (constr_mng g) m \<subseteq> N \<and>
    N \<subseteq> enabled_hards (constr_mng g) \<union> enabled_softs (constr_mng g) \<union> assumed_reads vcon (constr_mng g) m \<and>
    (if b then \<exists>\<rho>\<in>models d N. stored vcon \<rho> N m' else models d N = {})"
proof -
  obtain breg where G: "good_factory F d (sat_reg d) breg" using sat_factory_good [OF F] by blast
  have ok: "generator_ok F d (sat_reg d) breg vcon g" "container_ok d vcon"
    using good_factory.gen_reachable_ok [OF G reach start] by simp_all
  have mng: "manager_sorted d vcon (constr_mng g)" using ok(1) by (simp add: generator_ok_def generator_parts_def)
  define N where "N = good_factory.solved_nodes F d vcon [constr_mng g] m"
  note bounds = solved_nodes_bounds [OF G manager_sorted_single [OF mng], of m, simplified, folded N_def]
  obtain b g' m' r' where "gen_next F vcon vbm g (n, m, r) = Inr (b, g', n, m', r')"
    and reads: "\<forall>(i, e)\<in>set (read_references vcon). e m' = e m"
    and "if b then \<exists>\<rho>\<in>models d N. stored vcon \<rho> N m' else models d N = {}"
    using good_factory.gen_next_ok [OF G ok, of vbm n m r] unfolding N_def by blast
  moreover have "assumed_reads vcon (constr_mng g) m' = assumed_reads vcon (constr_mng g) m"
    unfolding assumed_reads_def by (rule image_cong [OF refl]) (use reads in \<open>auto simp: ref_node_def\<close>)
  ultimately show ?thesis using bounds by (intro exI [of _ b] exI [of _ g'] exI [of _ m'] exI [of _ r'] exI [of _ N]) simp
qed

text \<open>C1: values are solutions. A program declares variables, adds well-sorted scalar constraints (no vector
  constraints, no division with operands of different signs) over them, fewer than \<open>2 ^ 32\<close>, switches
  constraints, resets coverage, resets and rebuilds the generator, calls \<open>next\<close> and \<open>nextCov\<close> and changes its
  memory, in any order. When \<open>next\<close> returns true in a state it reaches, the values it has left in the memory
  belong to one assignment that satisfies every enabled hard constraint, together with the values of the
  variables that are only read.\<close>

theorem generator_next_sound:
  assumes F: "sat_factory F d" and start: "container_ok d vcon0"
    and reach: "(gen_step F vbm d)\<^sup>*\<^sup>* (vcon0, Generator i, s0) (vcon, g, (n, m, r))"
    and run: "gen_next F vcon vbm g (n, m, r) = Inr (True, g', n', m', r')"
  shows "\<exists>\<rho>\<in>models d (enabled_hards (constr_mng g) \<union> assumed_reads vcon (constr_mng g) m').
    stored vcon \<rho> (enabled_hards (constr_mng g) \<union> assumed_reads vcon (constr_mng g) m') m'"
proof -
  obtain N where N: "enabled_hards (constr_mng g) \<union> assumed_reads vcon (constr_mng g) m' \<subseteq> N" "\<exists>\<rho>\<in>models d N. stored vcon \<rho> N m'"
    using generator_next_result [OF F start reach] run by auto
  then obtain \<rho> where "\<rho> \<in> models d N" "stored vcon \<rho> N m'" by blast
  then show ?thesis using models_mono [OF N(1), of d] N(1) unfolding stored_def by blast
qed

text \<open>C6: the generator is live for the same programs over well-sorted scalar constraints: in every state they
  reach \<open>next\<close> returns, it returns true whenever the enabled constraints, hard and soft, have a solution with
  the current values of the variables that are only read, and true only if the hard ones do; so without soft
  constraints it succeeds exactly when it can.\<close>

theorem generator_next_live:
  assumes F: "sat_factory F d" and start: "container_ok d vcon0"
    and reach: "(gen_step F vbm d)\<^sup>*\<^sup>* (vcon0, Generator i, s0) (vcon, g, (n, m, r))"
  shows "\<exists>b g' m' r'. gen_next F vcon vbm g (n, m, r) = Inr (b, g', n, m', r') \<and>
    (models d (enabled_hards (constr_mng g) \<union> enabled_softs (constr_mng g) \<union> assumed_reads vcon (constr_mng g) m) \<noteq> {} \<longrightarrow> b) \<and>
    (b \<longrightarrow> models d (enabled_hards (constr_mng g) \<union> assumed_reads vcon (constr_mng g) m) \<noteq> {})"
proof -
  obtain b g' m' r' N where *: "gen_next F vcon vbm g (n, m, r) = Inr (b, g', n, m', r')"
    "enabled_hards (constr_mng g) \<union> assumed_reads vcon (constr_mng g) m \<subseteq> N"
    "N \<subseteq> enabled_hards (constr_mng g) \<union> enabled_softs (constr_mng g) \<union> assumed_reads vcon (constr_mng g) m"
    "if b then \<exists>\<rho>\<in>models d N. stored vcon \<rho> N m' else models d N = {}"
    using generator_next_result [OF F start reach] by blast
  have "b" if "models d (enabled_hards (constr_mng g) \<union> enabled_softs (constr_mng g) \<union> assumed_reads vcon (constr_mng g) m) \<noteq> {}"
    using that models_mono [OF *(3), of d] *(4) by (cases b) auto
  moreover have "models d (enabled_hards (constr_mng g) \<union> assumed_reads vcon (constr_mng g) m) \<noteq> {}" if b
    using that models_mono [OF *(2), of d] *(4) by auto
  ultimately show ?thesis using *(1) by blast
qed

text \<open>Two variables of 4 bits, the first less than the second.\<close>

definition demo_place :: "nat \<Rightarrow> (nat \<Rightarrow> 4 word, nat) assign_result" where
  "demo_place i = AssignResultToRef None False (\<lambda>m. m i) (\<lambda>v m. m(i := v))"

definition demo_container :: "(nat \<Rightarrow> 4 word, nat) container" where
  "demo_container = new_container\<lparr>variables := [3 \<mapsto> VariableExpr 3 4 False, 4 \<mapsto> VariableExpr 4 4 False],
     write_references := [(3, demo_place 3), (4, demo_place 4)]\<rparr>"

definition demo_less :: node where
  "demo_less = BinaryOperator LessOpr (VariableExpr 3 4 False) (VariableExpr 4 4 False)"

lemma demo_container_ok: "container_ok (\<lambda>_. SBits 4) demo_container"
proof -
  have "assign_result (demo_place i) (SBits 4)" for i
    using AssignResultToRef_contract [of "\<lambda>m :: nat \<Rightarrow> 4 word. m i" "\<lambda>v m. m(i := v)" False None]
    by (simp add: demo_place_def term_sort_def isBool_def)
  moreover have "separate (demo_place i) (demo_place j)" if "i \<noteq> j" for i j
    using that by (simp add: separate_def demo_place_def AssignResultToRef_def split: prod.splits)
  ultimately show ?thesis
    by (auto simp: container_ok_def demo_container_def new_container_def variable_ok_def term_sort_def isBool_def solver_sort_def
        split: if_splits)
qed

lemma demo_factory_sat: "sat_factory demo_factory d"
proof -
  have "fa_default demo_factory = sat_visitor ''bdd'' sat_find counter" "\<forall>r n. 0 < n \<longrightarrow> fst (counter r n) < n"
    by (simp_all add: demo_factory_def counter_def)
  then show ?thesis unfolding sat_factory_def
    by (intro conjI exI [of _ "''bdd''"] exI [of _ sat_find] exI [of _ counter]) (simp_all add: sat_find_answers demo_factory_def counter_def)
qed

text \<open>The contract of the factory holds for the modelled solver with its clauses.\<close>

interpretation sat_demo: good_factory demo_factory "\<lambda>_. SBits 4" "sat_reg (\<lambda>_. SBits 4)" "\<lambda>_ _ _ _ _. True"
proof (rule good_factory.intro)
  show "solver_visitor (fa_default demo_factory) (\<lambda>_. SBits 4) (sat_reg (\<lambda>_. SBits 4))"
    by (simp add: demo_factory_def demo.solver_visitor_axioms)
qed (simp_all add: demo_factory_def counter_def)

definition demo_generator :: "((sat_clause, lit) meta \<times> (lit \<Rightarrow> bool), nat \<Rightarrow> 4 word, nat, unit) generator" where
  "demo_generator = (case gen_constraint ''c'' 1 demo_less False False (Generator 1) of Inr g \<Rightarrow> g)"

lemma demo_generator_made:
  "gen_constraint ''c'' 1 demo_less False False (Generator 1) = Inr demo_generator"
  "enabled_hards (constr_mng demo_generator) = {demo_less}" "enabled_softs (constr_mng demo_generator) = {}"
proof -
  have "is_ok (makeConstraint_expr ''c'' 1 demo_less False False (new_manager 1))"
    by (simp add: demo_less_def makeConstraint_expr_def fixWidth_fixed makeConstraint_def new_manager_def new_constraint_def
        UserConstraint_def isVectorConstraint_def getComplexityEstimation_def Let_def fix_binop_def fix_operands_def)
  then obtain c mng where mk: "makeConstraint_expr ''c'' 1 demo_less False False (new_manager 1) = Inr (c, mng)" by (auto elim: is_okE)
  then have "makeConstraint ''c'' 1 demo_less False False (new_manager 1) = Inr (c, mng)"
    by (simp add: makeConstraint_expr_def fixWidth_fixed demo_less_def fix_binop_def fix_operands_def Let_def)
  from makeConstraint_InrD [OF this] have c: "mng_constraints mng = [c]" "con_expr c = demo_less" "con_enabled c" "\<not> con_soft c" "\<not> con_cover c"
    by (auto simp: new_constraint_fields new_manager_def)
  have g: "gen_constraint ''c'' 1 demo_less False False (Generator 1) =
      Inr ((Generator 1 :: (_, nat \<Rightarrow> 4 word, nat, unit) generator)\<lparr>constr_mng := mng\<rparr>)"
    by (simp add: gen_constraint_def Generator_def mk [simplified])
  show "gen_constraint ''c'' 1 demo_less False False (Generator 1) = Inr demo_generator" unfolding demo_generator_def g by simp
  have "enabled_hards mng = con_expr ` {c}" "enabled_softs mng = con_expr ` {}"
    unfolding enabled_hards_def enabled_softs_def c(1) by (rule arg_cong [where f = "(`) _"], use c in auto)+
  then show "enabled_hards (constr_mng demo_generator) = {demo_less}" "enabled_softs (constr_mng demo_generator) = {}"
    unfolding demo_generator_def g by (simp_all add: c(2))
qed

lemma demo_reach:
  "(gen_step demo_factory vbm (\<lambda>_. SBits 4))\<^sup>*\<^sup>* (demo_container, Generator 1, s) (demo_container, demo_generator, s)"
proof (rule r_into_rtranclp, rule gen_step.constrain [OF _ _ _ _ demo_generator_made(1)])
  show "fixWidth demo_less = Inr demo_less"
    by (simp add: fixWidth_fixed demo_less_def fix_binop_def fix_operands_def Let_def)
  show "constraint_sorted (\<lambda>_. SBits 4) demo_less"
    by (simp add: constraint_sorted_def demo_less_def term_sort_def isBool_def)
qed (simp_all add: demo_less_def demo_container_def new_container_def Generator_def new_manager_def)

lemma demo_reads: "assumed_reads demo_container mng m = {}"
  by (simp add: assumed_reads_def demo_container_def new_container_def)

lemma demo_solvable: "models (\<lambda>_. SBits 4) {demo_less} \<noteq> {}"
proof -
  have "(\<lambda>i. VBits [i = 4, False, False, False]) \<in> models (\<lambda>_. SBits 4) {demo_less}"
    by (simp add: models_def typed_def holds_def demo_less_def sem_bits_def Let_def num_def)
  then show ?thesis by blast
qed

theorem generator_next_live_witness:
  "\<exists>g' m' r'. gen_next demo_factory demo_container Map.empty demo_generator (10, \<lambda>_. 0, 0) = Inr (True, g', 10, m', r')"
proof -
  note live = generator_next_live [OF demo_factory_sat demo_container_ok demo_reach, where vbm = Map.empty and n = 10 and m = "\<lambda>_. 0" and r = 0]
  obtain b g' m' r' where "gen_next demo_factory demo_container Map.empty demo_generator (10, \<lambda>_. 0, 0) = Inr (b, g', 10, m', r')" "b"
    using live demo_solvable unfolding demo_generator_made demo_reads Un_empty_right by blast
  then show ?thesis by simp
qed

theorem generator_next_sound_witness:
  "\<exists>g' m' r'. gen_next demo_factory demo_container Map.empty demo_generator (10, \<lambda>_. 0, 0) = Inr (True, g', 10, m', r') \<and>
     (\<exists>\<rho>\<in>models (\<lambda>_. SBits 4) {demo_less}. stored demo_container \<rho> {demo_less} m')"
proof -
  obtain b g' m' r' N where *: "gen_next demo_factory demo_container Map.empty demo_generator (10, \<lambda>_. 0, 0) = Inr (b, g', 10, m', r')"
    "N \<subseteq> {demo_less}" "if b then \<exists>\<rho>\<in>models (\<lambda>_. SBits 4) N. stored demo_container \<rho> N m' else models (\<lambda>_. SBits 4) N = {}"
    using generator_next_result [OF demo_factory_sat demo_container_ok demo_reach, where vbm = Map.empty and n = 10 and m = "\<lambda>_. 0" and r = 0]
    unfolding demo_generator_made demo_reads Un_empty_right by (elim exE conjE) (rule that)
  have b using *(3) demo_solvable models_mono [OF *(2)] by (cases b) auto
  then have run: "gen_next demo_factory demo_container Map.empty demo_generator (10, \<lambda>_. 0, 0) = Inr (True, g', 10, m', r')" using *(1) by simp
  show ?thesis
    using generator_next_sound [OF demo_factory_sat demo_container_ok demo_reach run, unfolded demo_generator_made demo_reads Un_empty_right]
    by (intro exI [of _ g'] exI [of _ m'] exI [of _ r'] conjI run)
qed

section \<open>Coverage\<close>

lemma uncovered_shrinks:
  assumes "c \<in> set (uncovered X cs)"
  shows "length (uncovered (insert (con_name c) X) cs) < length (uncovered X cs)"
proof -
  have "uncovered (insert (con_name c) X) cs = filter (\<lambda>k. con_name k \<noteq> con_name c) (uncovered X cs)"
    by (auto simp: uncovered_def intro: filter_cong)
  then show ?thesis using assms by (auto intro: length_filter_less)
qed

text \<open>C39: the coverage solver makes progress until nothing is left: a solve that returns true hits a cover
  constraint that has not been hit before, with values that satisfy the hard constraints as well, and leaves
  fewer cover constraints to hit; one that returns false changes nothing in the memory, and none of the
  cover constraints left can be hit.\<close>

theorem coverage_solve_hits:
  assumes F: "sat_factory F d" and cp: "pttn_ok d vcon cp" and vcon: "container_ok d vcon" and ok: "coverage_ok d (sat_reg d) vcon cp vs"
  shows "\<exists>b vs' m' r'. coverage_solve F vs m r = Inr (b, vs', m', r') \<and> coverage_ok d (sat_reg d) vcon cp vs' \<and>
    (if b then \<exists>c\<in>set (uncovered (covered_set vs) (cp_constraints cp)). covered_set vs' = insert (con_name c) (covered_set vs) \<and>
         length (uncovered (covered_set vs') (cp_constraints cp)) < length (uncovered (covered_set vs) (cp_constraints cp)) \<and>
         (\<exists>\<rho>\<in>models d (insert (con_expr c) (set (hards_of (cp_constraints cp)) \<union> read_nodes (part_ctn vcon cp) m)).
            stored (part_ctn vcon cp) \<rho> (insert (con_expr c) (set (hards_of (cp_constraints cp)) \<union> read_nodes (part_ctn vcon cp) m)) m')
     else m' = m \<and> (\<forall>c\<in>set (uncovered (covered_set vs) (cp_constraints cp)).
         models d (insert (con_expr c) (set (hards_of (cp_constraints cp)) \<union> read_nodes (part_ctn vcon cp) m)) = {}))"
proof -
  obtain breg where G: "good_factory F d (sat_reg d) breg" using sat_factory_good [OF F] by blast
  let ?ctn = "part_ctn vcon cp"
  let ?N = "\<lambda>c. insert (con_expr c) (set (hards_of (cp_constraints cp)) \<union> read_nodes ?ctn m)"
  have "constr_pttn vs = cp" using ok by (simp add: coverage_ok_def)
  then obtain b vs' m' r' where run: "coverage_solve F vs m r = Inr (b, vs', m', r')" "coverage_ok d (sat_reg d) vcon cp vs'"
    and res: "if b then \<exists>c\<in>set (uncovered (covered_set vs) (cp_constraints cp)). covered_set vs' = insert (con_name c) (covered_set vs) \<and>
         (\<exists>\<rho>\<in>models d (?N c). \<exists>R. (\<forall>n\<in>?N c. node_vars n \<subseteq> R) \<and> R \<subseteq> cp_support cp \<and> written R \<rho> (write_references ?ctn) m m')
      else m' = m \<and> covered_set vs' = covered_set vs \<and> (\<forall>c\<in>set (uncovered (covered_set vs) (cp_constraints cp)). models d (?N c) = {})"
    using good_factory.coverage_loop_correct [OF G cp vcon ok subset_refl, of m r] unfolding coverage_solve_def by blast
  show ?thesis
  proof (cases b)
    case True
    then obtain c \<rho> R where c: "c \<in> set (uncovered (covered_set vs) (cp_constraints cp))" "covered_set vs' = insert (con_name c) (covered_set vs)"
      and \<rho>: "\<rho> \<in> models d (?N c)" "\<forall>n\<in>?N c. node_vars n \<subseteq> R" "written R \<rho> (write_references ?ctn) m m'"
      using res by auto
    have "stored ?ctn \<rho> (?N c) m'"
      unfolding stored_def
    proof (intro ballI, clarify)
      fix i ar n assume "(i, ar) \<in> set (write_references ?ctn)" "n \<in> ?N c" "i \<in> node_vars n"
      then show "sem_constant (ar_value_as_constant ar m') = \<rho> i" using \<rho>(2,3) unfolding written_def by fastforce
    qed
    moreover have "length (uncovered (covered_set vs') (cp_constraints cp)) < length (uncovered (covered_set vs) (cp_constraints cp))"
      unfolding c(2) by (rule uncovered_shrinks [OF c(1)])
    ultimately have "\<exists>c\<in>set (uncovered (covered_set vs) (cp_constraints cp)). covered_set vs' = insert (con_name c) (covered_set vs) \<and>
         length (uncovered (covered_set vs') (cp_constraints cp)) < length (uncovered (covered_set vs) (cp_constraints cp)) \<and>
         (\<exists>\<rho>\<in>models d (?N c). stored ?ctn \<rho> (?N c) m')"
      using c \<rho>(1) by blast
    then show ?thesis using run True by (intro exI [of _ True] exI [of _ vs'] exI [of _ m'] exI [of _ r']) simp
  next
    case False
    then show ?thesis using run res by (intro exI [of _ False] exI [of _ vs'] exI [of _ m'] exI [of _ r']) simp
  qed
qed

theorem coverage_solve_hits_witness:
  "\<exists>cp vs vs' m' r'. VariableCoverageSolver demo_factory demo_container cp = Inr vs \<and>
     coverage_solve demo_factory vs (\<lambda>_. 0 :: 4 word) 0 = Inr (True, vs', m', r') \<and> covered_set vs' = {''c''}"
proof -
  let ?d = "\<lambda>_ :: nat. SBits 4" and ?ctn = demo_container
  have "is_ok (makeConstraint_expr ''c'' 1 demo_less False True (new_manager 1))"
    by (simp add: demo_less_def makeConstraint_expr_def fixWidth_fixed makeConstraint_def new_manager_def new_constraint_def
        UserConstraint_def isVectorConstraint_def getComplexityEstimation_def Let_def fix_binop_def fix_operands_def)
  then obtain c mng where mk: "makeConstraint_expr ''c'' 1 demo_less False True (new_manager 1) = Inr (c, mng)" by (auto elim: is_okE)
  have fw: "fixWidth demo_less = Inr demo_less" by (simp add: fixWidth_fixed demo_less_def fix_binop_def fix_operands_def Let_def)
  then have "makeConstraint ''c'' 1 demo_less False True (new_manager 1) = Inr (c, mng)" using mk by (simp add: makeConstraint_expr_def)
  from makeConstraint_InrD [OF this]
  have c: "mng_constraints mng = [c]" "con_expr c = demo_less" "con_enabled c" "\<not> con_soft c" "con_cover c" "con_name c = ''c''"
    by (auto simp: new_constraint_fields new_manager_def)
  have mng: "manager_sorted ?d ?ctn mng"
  proof -
    have "manager_sorted ?d ?ctn (new_manager 1)" by (simp add: manager_sorted_def new_manager_ok) (simp add: new_manager_def)
    moreover have "constraint_sorted ?d demo_less" by (simp add: constraint_sorted_def demo_less_def term_sort_def isBool_def)
    moreover have "node_vars demo_less \<subseteq> dom (variables ?ctn)" by (simp add: demo_less_def demo_container_def new_container_def)
    moreover have "length (mng_constraints (new_manager 1)) + 1 < 2 ^ 32" by (simp add: new_manager_def)
    ultimately show ?thesis using sorted_make [OF _ fw _ _ _ mk] by blast
  qed
  have sc: "scalars [mng] = [c]" by (simp add: sorted_scalars [OF mng] c)
  define ps where "ps = partition_loop (scalars [mng]) []"
  have "(\<Union>cp\<in>set ps. set (cp_constraints cp)) = set (scalars [mng])" unfolding ps_def by (rule sorted_partitions(3) [OF manager_sorted_single [OF mng]])
  then have mem: "(\<Union>cp\<in>set ps. set (cp_constraints cp)) = {c}" by (simp add: sc)
  then obtain cp where cp: "cp \<in> set ps" "c \<in> set (cp_constraints cp)" by blast
  have only: "set (cp_constraints cp) = {c}" using mem cp by blast
  have pt: "pttn_ok ?d ?ctn cp" using sorted_partitions(1) [OF manager_sorted_single [OF mng]] cp(1) unfolding ps_def by blast
  obtain breg where G: "good_factory demo_factory ?d (sat_reg ?d) breg" using sat_factory_good [OF demo_factory_sat] by blast
  obtain vs where vs: "VariableCoverageSolver demo_factory ?ctn cp = Inr vs" "coverage_ok ?d (sat_reg ?d) ?ctn cp vs" "covered_set vs = {}"
    using good_factory.coverage_constructor [OF G pt demo_container_ok] by blast
  have "filter (\<lambda>c. \<not> con_soft c \<and> \<not> con_cover c) (cp_constraints cp) = []" using only c by (auto simp: filter_empty_conv)
  then have hards: "hards_of (cp_constraints cp) = []" by (simp add: hards_of_def)
  have reads: "read_nodes (part_ctn ?ctn cp) m = {}" for m
    by (simp add: read_nodes_def part_ctn_simps demo_container_def new_container_def)
  have unc: "set (uncovered {} (cp_constraints cp)) = {c}" using only c by (auto simp: uncovered_def)
  obtain b vs' m' r' where run: "coverage_solve demo_factory vs (\<lambda>_. 0) 0 = Inr (b, vs', m', r')"
    and res: "if b then \<exists>k\<in>{c}. covered_set vs' = insert (con_name k) {} \<and>
         length (uncovered (covered_set vs') (cp_constraints cp)) < length (uncovered {} (cp_constraints cp)) \<and>
         (\<exists>\<rho>\<in>models ?d (insert (con_expr k) (set [] \<union> {})). stored (part_ctn ?ctn cp) \<rho> (insert (con_expr k) (set [] \<union> {})) m')
       else m' = (\<lambda>_. 0) \<and> (\<forall>k\<in>{c}. models ?d (insert (con_expr k) (set [] \<union> {})) = {})"
    using coverage_solve_hits [OF demo_factory_sat pt demo_container_ok vs(2), of "\<lambda>_. 0" 0]
    unfolding hards reads vs(3) unc by (elim exE conjE) (rule that)
  have b: "b = True"
  proof (rule ccontr)
    assume "b \<noteq> True"
    then have "b = False" by simp
    then have "models ?d (insert (con_expr c) (set [] \<union> {})) = {}" using res by (simp only: if_False) blast
    then show False using c(2) demo_solvable by simp
  qed
  have "covered_set vs' = insert (con_name c) {}" using res unfolding b if_True by blast
  then have "covered_set vs' = {''c''}" by (simp only: c(6))
  then show ?thesis using run unfolding b by (intro exI conjI) (rule vs(1))
qed

end
