(* ===== verification/RandObj.thy ===== *)
theory RandObj
  imports Generator
begin

text \<open>
  Random objects (\<open>rand_obj\<close> of \<open>ConstrainedRandom.cpp\<close>): objects own random variables and other random
  objects and have a generator of their own; solving an object gathers the constraints of all objects below
  it. Objects refer to each other, so they live in a list and are named by their position. An object is
  constructed after its parent, so its position is greater: this bounds the recursion up and down the tree.
\<close>

section \<open>Objects\<close>

text \<open>
  The children that are not objects have virtual functions: \<open>next\<close> changes the memory and the source of
  random numbers, \<open>gather_values\<close> reads the memory (values are pushed as \<open>int64_t\<close>). A vector has an identifier, and its \<open>next\<close> is not called.
\<close>

datatype ('m, 'r) base_child =
    RandVec nat "'m \<Rightarrow> 64 word list"
  | RandBase "'m \<Rightarrow> 'r \<Rightarrow> bool \<times> 'm \<times> 'r" "'m \<Rightarrow> 64 word list"

record ('v, 'm, 'r, 'w) rand_obj =
  own :: "('v, 'm, 'r, 'w) generator"
  baseChildren :: "('m, 'r) base_child list"
  objChildren :: "nat list"
  obj_parent :: "nat option"
  obj_rebuild :: bool

type_synonym ('v, 'm, 'r, 'w) objects = "('v, 'm, 'r, 'w) rand_obj list"

definition update_obj :: "nat \<Rightarrow> (('v, 'm, 'r, 'w) rand_obj \<Rightarrow> ('v, 'm, 'r, 'w) rand_obj) \<Rightarrow>
    ('v, 'm, 'r, 'w) objects \<Rightarrow> ('v, 'm, 'r, 'w) objects" where
  "update_obj i f S = S[i := f (S ! i)]"

function request_rebuild :: "nat \<Rightarrow> ('v, 'm, 'r, 'w) objects \<Rightarrow> ('v, 'm, 'r, 'w) objects" where
  "request_rebuild i S =
     (let S = update_obj i (\<lambda>ob. ob\<lparr>obj_rebuild := True\<rparr>) S in
      case obj_parent (S ! i) of
        None \<Rightarrow> S
      | Some p \<Rightarrow> if p < i then request_rebuild p S else S)"
  by pat_completeness auto
termination by (relation "measure fst") auto

declare request_rebuild.simps [simp del]

definition add_obj_child :: "nat \<Rightarrow> nat \<Rightarrow> ('v, 'm, 'r, 'w) objects \<Rightarrow> ('v, 'm, 'r, 'w) objects" where
  "add_obj_child i c S = request_rebuild i (update_obj i (\<lambda>ob. ob\<lparr>objChildren := objChildren ob @ [c]\<rparr>) S)"

definition is_vec :: "('m, 'r) base_child \<Rightarrow> bool" where
  "is_vec b = (case b of RandVec _ _ \<Rightarrow> True | RandBase _ _ \<Rightarrow> False)"

definition add_base_child :: "nat \<Rightarrow> ('m, 'r) base_child \<Rightarrow> ('v, 'm, 'r, 'w) objects \<Rightarrow> ('v, 'm, 'r, 'w) objects" where
  "add_base_child i b S =
     (let S = update_obj i (\<lambda>ob. ob\<lparr>baseChildren := baseChildren ob @ [b]\<rparr>) S
      in if is_vec b then request_rebuild i S else S)"

text \<open>The constructor; \<open>k\<close> is the number of the manager of its generator.\<close>

definition new_rand_obj :: "nat \<Rightarrow> nat option \<Rightarrow> ('v, 'm, 'r, 'w) objects \<Rightarrow> nat \<times> ('v, 'm, 'r, 'w) objects" where
  "new_rand_obj k parent S =
     (let i = length S;
          S = S @ [\<lparr>own = Generator k, baseChildren = [], objChildren = [], obj_parent = parent, obj_rebuild = False\<rparr>]
      in (i, case parent of None \<Rightarrow> S | Some p \<Rightarrow> add_obj_child p i S))"

section \<open>Constraints\<close>

text \<open>A constraint is added to the public member \<open>constraint\<close>, which does not know the object.\<close>

definition obj_constraint :: "nat \<Rightarrow> string \<Rightarrow> nat \<Rightarrow> node \<Rightarrow> bool \<Rightarrow> bool \<Rightarrow> ('v, 'm, 'r, 'w) objects \<Rightarrow> ('v, 'm, 'r, 'w) objects result" where
  "obj_constraint i name c e soft cover S =
     rbind (gen_constraint name c e soft cover (own (S ! i))) (\<lambda>g. Inr (update_obj i (\<lambda>ob. ob\<lparr>own := g\<rparr>) S))"

definition enable_constraint :: "nat \<Rightarrow> string \<Rightarrow> ('v, 'm, 'r, 'w) objects \<Rightarrow> bool \<times> ('v, 'm, 'r, 'w) objects" where
  "enable_constraint i name S =
     (let (res, g) = gen_enableConstraint name (own (S ! i));
          S = update_obj i (\<lambda>ob. ob\<lparr>own := g\<rparr>) S
      in (res, if gen_isChanged g then request_rebuild i S else S))"

definition disable_constraint :: "nat \<Rightarrow> string \<Rightarrow> ('v, 'm, 'r, 'w) objects \<Rightarrow> bool \<times> ('v, 'm, 'r, 'w) objects" where
  "disable_constraint i name S =
     (let (res, g) = gen_disableConstraint name (own (S ! i));
          S = update_obj i (\<lambda>ob. ob\<lparr>own := g\<rparr>) S
      in (res, if gen_isChanged g then request_rebuild i S else S))"

definition is_constraint_enabled :: "nat \<Rightarrow> string \<Rightarrow> ('v, 'm, 'r, 'w) objects \<Rightarrow> bool" where
  "is_constraint_enabled i name S = gen_isConstraintEnabled name (own (S ! i))"

section \<open>Values\<close>

definition base_gather_values :: "('m, 'r) base_child \<Rightarrow> 'm \<Rightarrow> 64 word list" where
  "base_gather_values b m = (case b of RandVec _ vals \<Rightarrow> vals m | RandBase _ vals \<Rightarrow> vals m)"

text \<open>The positions of the object children; the check never fails on objects that were constructed.\<close>

definition below :: "('v, 'm, 'r, 'w) objects \<Rightarrow> nat \<Rightarrow> nat list" where
  "below S i = filter (\<lambda>c. i < c \<and> c < length S) (objChildren (S ! i))"

lemma below_greater: "c \<in> set (below S i) \<Longrightarrow> length S - c < length S - i"
  by (auto simp: below_def)

function gather_values :: "('v, 'm, 'r, 'w) objects \<Rightarrow> nat \<Rightarrow> 'm \<Rightarrow> 64 word list" where
  "gather_values S i m =
     concat (map (\<lambda>b. base_gather_values b m) (baseChildren (S ! i))) @
     concat (map (\<lambda>c. gather_values S c m) (below S i))"
  by pat_completeness auto
termination by (relation "measure (\<lambda>(S, i, m). length S - i)") (auto dest: below_greater)

fun next_base_children :: "('m, 'r) base_child list \<Rightarrow> 'm \<times> 'r \<Rightarrow> bool \<times> 'm \<times> 'r" where
  "next_base_children [] s = (True, s)"
| "next_base_children (RandVec i vals # bs) s = next_base_children bs s"
| "next_base_children (RandBase nxt vals # bs) (m, r) = (case nxt m r of
      (b, s) \<Rightarrow> if \<not> b then (False, s) else next_base_children bs s)"

fun while_true :: "('a \<Rightarrow> 's \<Rightarrow> bool \<times> 's) \<Rightarrow> 'a list \<Rightarrow> 's \<Rightarrow> bool \<times> 's" where
  "while_true f [] s = (True, s)"
| "while_true f (x # xs) s = (case f x s of (b, s) \<Rightarrow> if \<not> b then (False, s) else while_true f xs s)"

lemma while_true_cong [fundef_cong]:
  "xs = ys \<Longrightarrow> s = t \<Longrightarrow> (\<And>x s. x \<in> set ys \<Longrightarrow> f x s = g x s) \<Longrightarrow> while_true f xs s = while_true g ys t"
proof (induction xs arbitrary: ys s t)
  case (Cons x xs)
  have "while_true f xs u = while_true g xs u" for u by (rule Cons.IH) (use Cons.prems in auto)
  then show ?case using Cons.prems by (auto split: prod.splits)
qed simp

function gen_base_children :: "('v, 'm, 'r, 'w) objects \<Rightarrow> nat \<Rightarrow> 'm \<times> 'r \<Rightarrow> bool \<times> 'm \<times> 'r" where
  "gen_base_children S i s = (case next_base_children (baseChildren (S ! i)) s of
      (b, s) \<Rightarrow> if \<not> b then (False, s) else while_true (\<lambda>c s. gen_base_children S c s) (below S i) s)"
  by pat_completeness auto
termination by (relation "measure (\<lambda>(S, i, s). length S - i)") (auto dest: below_greater)

text \<open>
  A random variable: \<open>next\<close> draws any value of its type, and its value goes to \<open>gather_values\<close>. \<open>value\<close> and
  \<open>store\<close> read and write its place in the memory.
\<close>

definition randv_next ::
    "(int \<Rightarrow> int \<Rightarrow> 'r \<Rightarrow> int \<times> 'r) \<Rightarrow> itype \<Rightarrow> (int \<Rightarrow> 'm \<Rightarrow> 'm) \<Rightarrow> 'm \<Rightarrow> 'r \<Rightarrow> (bool \<times> 'm \<times> 'r) result" where
  "randv_next uni T store m r = rbind (nextValue uni T [] r) (\<lambda>(v, r). Inr (True, store v m, r))"

lemma randv_next_returns:
  "0 < it_width T \<Longrightarrow> randv_next uni T store m r =
     (case uni (it_min T) (it_max T) r of (v, r) \<Rightarrow> Inr (True, store v m, r))"
  by (simp add: randv_next_def nextValue_def uniformly_distributed_value_def it_min_def it_max_def split: prod.splits)

definition randv ::
    "(int \<Rightarrow> int \<Rightarrow> 'r \<Rightarrow> int \<times> 'r) \<Rightarrow> itype \<Rightarrow> ('m \<Rightarrow> int) \<Rightarrow> (int \<Rightarrow> 'm \<Rightarrow> 'm) \<Rightarrow> ('m, 'r) base_child" where
  "randv uni T value store =
     RandBase (\<lambda>m r. case randv_next uni T store m r of Inr s \<Rightarrow> s | Inl _ \<Rightarrow> (False, m, r)) (\<lambda>m. [word_of_int (value m)])"

section \<open>Solving\<close>

text \<open>
  \<open>gather_constraints\<close> adds to the generator \<open>g\<close> of the object \<open>tgt\<close>, which is also the generator that is
  merged into itself when the recursion is at \<open>tgt\<close>.
\<close>

definition add_vec_ids :: "('m, 'r) base_child list \<Rightarrow> ('v, 'm, 'r, 'w) generator \<Rightarrow> ('v, 'm, 'r, 'w) generator" where
  "add_vec_ids bs g = foldl (\<lambda>g b. case b of RandVec i _ \<Rightarrow> addVecId i g | RandBase _ _ \<Rightarrow> g) g bs"

definition own_manager :: "('v, 'm, 'r, 'w) objects \<Rightarrow> nat \<Rightarrow> ('v, 'm, 'r, 'w) generator \<Rightarrow> nat \<Rightarrow> manager" where
  "own_manager S tgt g i = (if i = tgt then constr_mng g else constr_mng (own (S ! i)))"

function gather_constraints ::
  "('v, 'm, 'r, 'w) objects \<Rightarrow> nat \<Rightarrow> nat \<Rightarrow> ('v, 'm, 'r, 'w) generator \<Rightarrow> ('v, 'm, 'r, 'w) generator" where
  "gather_constraints S tgt i g =
     (let g = fold (\<lambda>c g. gather_constraints S tgt c g) (below S i) g;
          g = add_vec_ids (baseChildren (S ! i)) g
      in gen_merge (own_manager S tgt g i) g)"
  by pat_completeness auto
termination by (relation "measure (\<lambda>(S, tgt, i, g). length S - i)") (auto dest: below_greater)

declare gather_values.simps [simp del] gen_base_children.simps [simp del] gather_constraints.simps [simp del]

definition rebuild_object ::
    "('v, 'w, 'r) factory \<Rightarrow> ('m, 'r) container \<Rightarrow> nat \<Rightarrow> ('v, 'm, 'r, 'w) objects \<Rightarrow> ('v, 'm, 'r, 'w) objects result" where
  "rebuild_object F vcon i S =
     (if obj_rebuild (S ! i)
      then rbind (gen_reset F vcon (own (S ! i))) (\<lambda>g.
           rbind (rebuild F vcon False (gather_constraints S i i g)) (\<lambda>g.
             Inr (update_obj i (\<lambda>ob. ob\<lparr>own := g, obj_rebuild := False\<rparr>) S)))
      else Inr S)"

definition obj_next_with ::
    "(('v, 'm, 'r, 'w) generator \<Rightarrow> ('m, 'r) outside \<Rightarrow> (bool \<times> ('v, 'm, 'r, 'w) generator \<times> ('m, 'r) outside) result) \<Rightarrow>
     ('v, 'w, 'r) factory \<Rightarrow> ('m, 'r) container \<Rightarrow> nat \<Rightarrow> ('v, 'm, 'r, 'w) objects \<Rightarrow> ('m, 'r) outside \<Rightarrow>
     (bool \<times> ('v, 'm, 'r, 'w) objects \<times> ('m, 'r) outside) result" where
  "obj_next_with nxt F vcon i S = (\<lambda>(ids, m, r).
     case gen_base_children S i (m, r) of (b, m, r) \<Rightarrow>
     if \<not> b then Inr (False, S, ids, m, r)
     else rbind (rebuild_object F vcon i S) (\<lambda>S.
          rbind (nxt (own (S ! i)) (ids, m, r)) (\<lambda>(b, g, s).
            Inr (b, update_obj i (\<lambda>ob. ob\<lparr>own := g\<rparr>) S, s))))"

definition obj_next ::
    "('v, 'w, 'r) factory \<Rightarrow> ('m, 'r) container \<Rightarrow> ('m, 'r) vector_base_map \<Rightarrow> nat \<Rightarrow> ('v, 'm, 'r, 'w) objects \<Rightarrow> ('m, 'r) outside \<Rightarrow>
     (bool \<times> ('v, 'm, 'r, 'w) objects \<times> ('m, 'r) outside) result" where
  "obj_next F vcon vbm = obj_next_with (gen_next F vcon vbm) F vcon"

definition obj_next_cov ::
    "('v, 'w, 'r) factory \<Rightarrow> ('m, 'r) container \<Rightarrow> ('m, 'r) vector_base_map \<Rightarrow> nat \<Rightarrow> ('v, 'm, 'r, 'w) objects \<Rightarrow> ('m, 'r) outside \<Rightarrow>
     (bool \<times> ('v, 'm, 'r, 'w) objects \<times> ('m, 'r) outside) result" where
  "obj_next_cov F vcon vbm = obj_next_with (nextCov F vcon vbm) F vcon"

section \<open>Collections of solutions\<close>

text \<open>
  \<open>rand_obj_gen\<close> asks an object for a number of solutions and keeps their values; \<open>nxt\<close> is \<open>next\<close> of its
  object \<open>i\<close>. The time each solution takes is left out.
\<close>

record rand_obj_gen =
  solutions :: "64 word list list"
  values_generated :: bool

definition new_rand_obj_gen :: "nat \<Rightarrow> rand_obj_gen" where
  "new_rand_obj_gen k = \<lparr>solutions = replicate k [], values_generated = False\<rparr>"

fun generate_loop ::
    "(('v, 'm, 'r, 'w) objects \<Rightarrow> ('m, 'r) outside \<Rightarrow> (bool \<times> ('v, 'm, 'r, 'w) objects \<times> ('m, 'r) outside) result) \<Rightarrow> nat \<Rightarrow>
     64 word list list \<Rightarrow> ('v, 'm, 'r, 'w) objects \<Rightarrow> ('m, 'r) outside \<Rightarrow>
     (64 word list list \<times> ('v, 'm, 'r, 'w) objects \<times> ('m, 'r) outside) result" where
  "generate_loop nxt i [] S s = Inr ([], S, s)"
| "generate_loop nxt i (sol # sols) S s =
     rbind (nxt S s) (\<lambda>(b, S, s).
       if \<not> b then Inl (RuntimeError (''Generation error.'' @ [CHR 0x0A]))
       else let vals = gather_values S i (fst (snd s)) in
            rbind (generate_loop nxt i sols S s) (\<lambda>(sols, S, s). Inr ((vals @ sol) # sols, S, s)))"

definition generate_solutions ::
    "(('v, 'm, 'r, 'w) objects \<Rightarrow> ('m, 'r) outside \<Rightarrow> (bool \<times> ('v, 'm, 'r, 'w) objects \<times> ('m, 'r) outside) result) \<Rightarrow> nat \<Rightarrow>
     rand_obj_gen \<Rightarrow> ('v, 'm, 'r, 'w) objects \<Rightarrow> ('m, 'r) outside \<Rightarrow>
     (rand_obj_gen \<times> ('v, 'm, 'r, 'w) objects \<times> ('m, 'r) outside) result" where
  "generate_solutions nxt i rg S s =
     rbind (generate_loop nxt i (solutions rg) S s) (\<lambda>(sols, S, s). Inr (\<lparr>solutions = sols, values_generated = True\<rparr>, S, s))"

text \<open>A second call keeps the values of the first behind the new ones.\<close>

lemma generate_loop_prefix:
  "generate_loop nxt i sols S s = Inr (sols', T, s') \<Longrightarrow> list_all2 (\<lambda>old new. \<exists>vals. new = vals @ old) sols sols'"
  by (induction sols arbitrary: sols' S s) (auto simp: rbind_eq_Inr Let_def split: if_splits)

end
