(* ===== verification/RandObjCorrect.thy ===== *)
theory RandObjCorrect
  imports GeneratorCorrect RandObj
begin

text \<open>
  Random objects are solved together: \<open>next\<close> of an object leaves values that satisfy the enabled constraints
  of the object and of all objects below it. This needs that the object waits to be rebuilt when something
  below it has changed, or that its partitions are still those of everything below it: \<open>obj_fresh\<close>. The
  flags keep that, except for constraints that are added at or below an object after it was solved. Vectors
  are left out here.
\<close>

section \<open>The tree of objects\<close>

definition tree_ok :: "('v, 'm, 'r, 'w) objects \<Rightarrow> bool" where
  "tree_ok S \<longleftrightarrow> (\<forall>i<length S. (\<forall>c\<in>set (objChildren (S ! i)). i < c \<and> c < length S \<and> obj_parent (S ! c) = Some i) \<and>
     (\<forall>p. obj_parent (S ! i) = Some p \<longrightarrow> p < i \<and> i \<in> set (objChildren (S ! p))))"

inductive_set subtree :: "('v, 'm, 'r, 'w) objects \<Rightarrow> nat \<Rightarrow> nat set" for S i where
  self: "i \<in> subtree S i"
| child: "j \<in> subtree S i \<Longrightarrow> c \<in> set (objChildren (S ! j)) \<Longrightarrow> c \<in> subtree S i"

lemma tree_child: "tree_ok S \<Longrightarrow> i < length S \<Longrightarrow> c \<in> set (objChildren (S ! i)) \<Longrightarrow> i < c \<and> c < length S \<and> obj_parent (S ! c) = Some i"
  and tree_parent: "tree_ok S \<Longrightarrow> i < length S \<Longrightarrow> obj_parent (S ! i) = Some p \<Longrightarrow> p < i \<and> i \<in> set (objChildren (S ! p))"
  unfolding tree_ok_def by blast+

lemma tree_below: "tree_ok S \<Longrightarrow> i < length S \<Longrightarrow> below S i = objChildren (S ! i)"
  unfolding below_def by (rule filter_True) (use tree_child in blast)

lemma subtree_less: "j \<in> subtree S i \<Longrightarrow> tree_ok S \<Longrightarrow> i < length S \<Longrightarrow> i \<le> j \<and> j < length S"
proof (induction rule: subtree.induct)
  case (child j c)
  then show ?case using tree_child [of S j c] by simp
qed simp

lemma subtree_trans: "k \<in> subtree S j \<Longrightarrow> j \<in> subtree S i \<Longrightarrow> k \<in> subtree S i"
  by (induction rule: subtree.induct) (auto intro: subtree.intros)

lemma subtree_child: "c \<in> set (objChildren (S ! i)) \<Longrightarrow> k \<in> subtree S c \<Longrightarrow> k \<in> subtree S i"
  by (rule subtree_trans) (auto intro: subtree.intros)

lemma subtree_eq: "subtree S i = insert i (\<Union>c\<in>set (objChildren (S ! i)). subtree S c)"
proof
  show "subtree S i \<subseteq> insert i (\<Union>c\<in>set (objChildren (S ! i)). subtree S c)"
  proof
    fix k assume "k \<in> subtree S i"
    then show "k \<in> insert i (\<Union>c\<in>set (objChildren (S ! i)). subtree S c)"
      by (induction rule: subtree.induct) (auto intro: subtree.intros)
  qed
qed (auto intro: subtree.self subtree_child)

text \<open>The same objects, seen from below.\<close>

lemma subtree_parent:
  assumes "tree_ok S" and "i < length S" and "p < length S"
  shows "i \<in> subtree S p \<longleftrightarrow> i = p \<or> (\<exists>q. obj_parent (S ! i) = Some q \<and> q \<in> subtree S p)"
proof
  assume "i \<in> subtree S p"
  then show "i = p \<or> (\<exists>q. obj_parent (S ! i) = Some q \<and> q \<in> subtree S p)"
  proof cases
    case (child j)
    then have "j < length S" using subtree_less [OF child(1) assms(1,3)] by simp
    then show ?thesis using child tree_child [OF assms(1)] by blast
  qed simp
next
  assume "i = p \<or> (\<exists>q. obj_parent (S ! i) = Some q \<and> q \<in> subtree S p)"
  then show "i \<in> subtree S p" using tree_parent [OF assms(1,2)] by (auto intro: subtree.intros)
qed

lemma subtree_cong:
  assumes "\<And>k. k \<in> subtree S i \<Longrightarrow> objChildren (T ! k) = objChildren (S ! k)"
  shows "subtree T i = subtree S i"
proof
  show 1: "subtree S i \<subseteq> subtree T i"
  proof
    fix k assume "k \<in> subtree S i"
    then show "k \<in> subtree T i" by induction (use assms in \<open>auto intro: subtree.intros\<close>)
  qed
  show "subtree T i \<subseteq> subtree S i"
  proof
    fix k assume "k \<in> subtree T i"
    then show "k \<in> subtree S i" by induction (use assms in \<open>auto intro: subtree.intros\<close>)
  qed
qed

section \<open>The flags\<close>

definition same_tree :: "('v, 'm, 'r, 'w) objects \<Rightarrow> ('v, 'm, 'r, 'w) objects \<Rightarrow> bool" where
  "same_tree S T \<longleftrightarrow> length T = length S \<and> (\<forall>i<length S. objChildren (T ! i) = objChildren (S ! i) \<and> obj_parent (T ! i) = obj_parent (S ! i))"

lemma same_tree_ok: "same_tree S T \<Longrightarrow> tree_ok S \<Longrightarrow> tree_ok T"
proof -
  assume st: "same_tree S T" and ok: "tree_ok S"
  have len: "length T = length S" and eq: "\<And>i. i < length S \<Longrightarrow> objChildren (T ! i) = objChildren (S ! i) \<and> obj_parent (T ! i) = obj_parent (S ! i)"
    using st by (simp_all add: same_tree_def)
  show "tree_ok T"
    unfolding tree_ok_def len
  proof (intro allI impI conjI ballI)
    fix i c assume i: "i < length S" and "c \<in> set (objChildren (T ! i))"
    then have "c \<in> set (objChildren (S ! i))" using eq by simp
    then have c: "i < c \<and> c < length S \<and> obj_parent (S ! c) = Some i" by (rule tree_child [OF ok i])
    then show "i < c" "c < length S" "obj_parent (T ! c) = Some i" using eq by simp_all
  next
    fix i p assume i: "i < length S" and "obj_parent (T ! i) = Some p"
    then have "obj_parent (S ! i) = Some p" using eq by simp
    then have p: "p < i \<and> i \<in> set (objChildren (S ! p))" by (rule tree_parent [OF ok i])
    then show "p < i" "i \<in> set (objChildren (T ! p))" using eq i by simp_all
  qed
qed

lemma same_subtree: "same_tree S T \<Longrightarrow> tree_ok S \<Longrightarrow> i < length S \<Longrightarrow> subtree T i = subtree S i"
  by (rule subtree_cong) (simp add: same_tree_def subtree_less)

lemma update_obj_simps [simp]:
  "length (update_obj i f S) = length S"
  "j < length S \<Longrightarrow> update_obj i f S ! j = (if j = i then f (S ! j) else S ! j)"
  by (auto simp: update_obj_def nth_list_update)

lemma update_same_tree:
  "(\<And>ob. objChildren (f ob) = objChildren ob) \<Longrightarrow> (\<And>ob. obj_parent (f ob) = obj_parent ob) \<Longrightarrow> same_tree S (update_obj i f S)"
  by (simp add: same_tree_def)

lemma same_tree_refl: "same_tree S S" by (simp add: same_tree_def)

lemma same_tree_trans: "same_tree S T \<Longrightarrow> same_tree T U \<Longrightarrow> same_tree S U" by (simp add: same_tree_def)

text \<open>\<open>request_rebuild\<close> reaches exactly the object and the objects above it.\<close>

lemma request_rebuild_nth:
  assumes "tree_ok S" and "i < length S"
  shows "length (request_rebuild i S) = length S \<and>
    (\<forall>j<length S. request_rebuild i S ! j = (if i \<in> subtree S j then (S ! j)\<lparr>obj_rebuild := True\<rparr> else S ! j))"
  using assms
proof (induction i S rule: request_rebuild.induct)
  case (1 i S)
  let ?T = "update_obj i (\<lambda>ob. ob\<lparr>obj_rebuild := True\<rparr>) S"
  have st: "same_tree S ?T" by (rule update_same_tree) simp_all
  have ok: "tree_ok ?T" by (rule same_tree_ok [OF st 1(2)])
  have par: "obj_parent (?T ! i) = obj_parent (S ! i)" using 1(3) by simp
  have up: "i \<in> subtree S j \<longleftrightarrow> i = j \<or> (\<exists>q. obj_parent (S ! i) = Some q \<and> q \<in> subtree S j)" if "j < length S" for j
    by (rule subtree_parent [OF 1(2,3) that])
  show ?case
  proof (cases "obj_parent (S ! i)")
    case None
    then have "request_rebuild i S = ?T" using par by (simp add: request_rebuild.simps [of i S] Let_def)
    then show ?thesis using up None by auto
  next
    case (Some p)
    then have p: "p < i" using tree_parent [OF 1(2,3)] by blast
    then have eq: "request_rebuild i S = request_rebuild p ?T" using par Some by (simp add: request_rebuild.simps [of i S] Let_def)
    have IH: "length (request_rebuild p ?T) = length ?T \<and>
      (\<forall>j<length ?T. request_rebuild p ?T ! j = (if p \<in> subtree ?T j then (?T ! j)\<lparr>obj_rebuild := True\<rparr> else ?T ! j))"
      by (rule 1(1) [OF refl _ p ok]) (use par Some p 1(3) in auto)
    have "request_rebuild p ?T ! j = (if i \<in> subtree S j then (S ! j)\<lparr>obj_rebuild := True\<rparr> else S ! j)" if j: "j < length S" for j
    proof -
      have "subtree ?T j = subtree S j" by (rule same_subtree [OF st 1(2) j])
      then show ?thesis using IH j up [OF j] Some by auto
    qed
    then show ?thesis using IH eq by simp
  qed
qed

lemma request_rebuild_same_tree: "tree_ok S \<Longrightarrow> i < length S \<Longrightarrow> same_tree S (request_rebuild i S)"
  using request_rebuild_nth [of S i] by (simp add: same_tree_def)

section \<open>The constraints below an object\<close>

function obj_managers :: "('v, 'm, 'r, 'w) objects \<Rightarrow> nat \<Rightarrow> manager list" where
  "obj_managers S i = concat (map (\<lambda>c. obj_managers S c) (below S i)) @ [constr_mng (own (S ! i))]"
  by pat_completeness auto
termination by (relation "measure (\<lambda>(S, i). length S - i)") (auto dest: below_greater)

declare obj_managers.simps [simp del]

lemma obj_managers_set:
  assumes "tree_ok S" and "i < length S"
  shows "set (obj_managers S i) = (\<lambda>j. constr_mng (own (S ! j))) ` subtree S i"
  using assms
proof (induction S i rule: obj_managers.induct)
  case (1 S i)
  have b: "below S i = objChildren (S ! i)" by (rule tree_below [OF 1(2,3)])
  have "set (obj_managers S c) = (\<lambda>j. constr_mng (own (S ! j))) ` subtree S c" if "c \<in> set (objChildren (S ! i))" for c
    by (rule 1(1)) (use that b 1(2,3) tree_child [OF 1(2,3) that] in simp_all)
  then show ?case unfolding obj_managers.simps [of S i] b subtree_eq [of S i] by auto
qed

lemma obj_managers_cong:
  assumes "tree_ok S" and "tree_ok T" and "i < length S" and "length S \<le> length T"
    and "\<And>k. k \<in> subtree S i \<Longrightarrow> objChildren (T ! k) = objChildren (S ! k) \<and>
      mng_constraints (constr_mng (own (T ! k))) = mng_constraints (constr_mng (own (S ! k)))"
  shows "map mng_constraints (obj_managers T i) = map mng_constraints (obj_managers S i)"
  using assms
proof (induction S i rule: obj_managers.induct)
  case (1 S i)
  have b: "below S i = objChildren (S ! i)" by (rule tree_below [OF 1(2,4)])
  have self: "i \<in> subtree S i" by (rule subtree.self)
  have b': "below T i = objChildren (S ! i)" using tree_below [OF 1(3), of i] 1(4,5) 1(6) [OF self] by simp
  have "map mng_constraints (obj_managers T c) = map mng_constraints (obj_managers S c)" if c: "c \<in> set (objChildren (S ! i))" for c
  proof (rule 1(1) [OF _ 1(2,3) _ 1(5)])
    show "c \<in> set (below S i)" "c < length S" using c b tree_child [OF 1(2,4) c] by simp_all
    show "objChildren (T ! k) = objChildren (S ! k) \<and>
      mng_constraints (constr_mng (own (T ! k))) = mng_constraints (constr_mng (own (S ! k)))" if "k \<in> subtree S c" for k
      by (rule 1(6)) (rule subtree_child [OF c that])
  qed
  then show ?case unfolding obj_managers.simps [of S i] obj_managers.simps [of T i] b b'
    by (simp add: map_concat comp_def 1(6) [OF self] cong: map_cong)
qed

lemma scalars_cong: "map mng_constraints ms = map mng_constraints ms' \<Longrightarrow> scalars ms = scalars ms'"
  by (simp add: scalars_def)

text \<open>Gathering merges these managers in order.\<close>

lemma no_vec_ids: "\<forall>b\<in>set bs. \<not> is_vec b \<Longrightarrow> add_vec_ids bs g = g"
  by (induction bs arbitrary: g) (auto simp: add_vec_ids_def is_vec_def split: base_child.splits)

fun merge_into :: "manager list \<Rightarrow> ('v, 'm, 'r, 'w) generator \<Rightarrow> ('v, 'm, 'r, 'w) generator" where
  "merge_into ms g = g\<lparr>gen_partitioner := foldl (\<lambda>p m. mergeConstraints m p) (gen_partitioner g) ms\<rparr>"

lemma merge_into_append: "merge_into ms' (merge_into ms g) = merge_into (ms @ ms') g" by simp

declare merge_into.simps [simp del]

lemma constr_mng_merge [simp]: "constr_mng (merge_into ms g) = constr_mng g" by (simp add: merge_into.simps)

lemma gather_below:
  fixes g :: "('v, 'm, 'r, 'w) generator"
  assumes "tree_ok S" and "i < length S" and "\<forall>j<length S. \<forall>b\<in>set (baseChildren (S ! j)). \<not> is_vec b" and "tgt < i"
  shows "gather_constraints S tgt i g = merge_into (obj_managers S i) g"
  using assms
proof (induction S i arbitrary: g rule: obj_managers.induct)
  case (1 S i)
  have b: "below S i = objChildren (S ! i)" by (rule tree_below [OF 1(2,3)])
  have IH: "gather_constraints S tgt c g = merge_into (obj_managers S c) g" if "c \<in> set (below S i)" for c g
    by (rule 1(1) [OF that 1(2) _ 1(4)]) (use that 1(5) in \<open>auto simp: below_def\<close>)
  have fold: "fold (\<lambda>c g. gather_constraints S tgt c g) cs g = merge_into (concat (map (\<lambda>c. obj_managers S c) cs)) g"
    if "set cs \<subseteq> set (below S i)" for cs g
    using that
  proof (induction cs arbitrary: g)
    case (Cons c cs)
    then show ?case using IH [of c] by (simp add: merge_into_append)
  qed (simp add: merge_into.simps)
  have nv: "add_vec_ids (baseChildren (S ! i)) h = h" for h :: "('v, 'm, 'r, 'w) generator"
    by (rule no_vec_ids) (use 1(3,4) in blast)
  have "gather_constraints S tgt i g = gen_merge (constr_mng (own (S ! i))) (merge_into (concat (map (\<lambda>c. obj_managers S c) (below S i))) g)"
    using fold [OF subset_refl, of g] 1(5)
    by (simp add: nv gather_constraints.simps [of S tgt i g] own_manager_def Let_def)
  also have "\<dots> = merge_into (obj_managers S i) g"
    by (simp add: obj_managers.simps [of S i] gen_merge_def merge_into.simps)
  finally show ?case .
qed

lemma gather_top:
  fixes g :: "('v, 'm, 'r, 'w) generator"
  assumes "tree_ok S" and "i < length S" and "\<forall>j<length S. \<forall>b\<in>set (baseChildren (S ! j)). \<not> is_vec b"
    and "mng_constraints (constr_mng g) = mng_constraints (constr_mng (own (S ! i)))"
  shows "\<exists>ms. gather_constraints S i i g = merge_into ms g \<and> map mng_constraints ms = map mng_constraints (obj_managers S i)"
proof -
  have fold: "fold (\<lambda>c g. gather_constraints S i c g) cs g = merge_into (concat (map (\<lambda>c. obj_managers S c) cs)) g"
    if "set cs \<subseteq> set (below S i)" for cs g
    using that
  proof (induction cs arbitrary: g)
    case (Cons c cs)
    have "gather_constraints S i c g = merge_into (obj_managers S c) g"
      by (rule gather_below [OF assms(1) _ assms(3)]) (use Cons.prems in \<open>auto simp: below_def\<close>)
    then show ?case using Cons by (simp add: merge_into_append)
  qed (simp add: merge_into.simps)
  let ?ms = "concat (map (\<lambda>c. obj_managers S c) (below S i)) @ [constr_mng g]"
  have nv: "add_vec_ids (baseChildren (S ! i)) h = h" for h :: "('v, 'm, 'r, 'w) generator"
    by (rule no_vec_ids) (use assms(2,3) in blast)
  have "gather_constraints S i i g = gen_merge (constr_mng g) (merge_into (concat (map (\<lambda>c. obj_managers S c) (below S i))) g)"
    using fold [OF subset_refl, of g]
    by (simp add: nv gather_constraints.simps [of S i i g] own_manager_def Let_def)
  also have "\<dots> = merge_into ?ms g" by (simp add: gen_merge_def merge_into.simps)
  finally show ?thesis using assms(4) by (intro exI [of _ ?ms]) (simp add: obj_managers.simps [of S i])
qed

section \<open>States of a program over objects\<close>

definition objs_parts ::
    "('v, 'w, 'r) factory \<Rightarrow> (nat \<Rightarrow> smt_sort) \<Rightarrow> ('v \<Rightarrow> node list \<Rightarrow> node list \<Rightarrow> node list \<Rightarrow> node list \<Rightarrow> bool) \<Rightarrow>
     ('w \<Rightarrow> node list \<Rightarrow> node list \<Rightarrow> node list \<Rightarrow> node list \<Rightarrow> bool) \<Rightarrow> ('m, 'r) container \<Rightarrow> ('v, 'm, 'r, 'w) objects \<Rightarrow> bool" where
  "objs_parts F d reg breg vcon S \<longleftrightarrow> tree_ok S \<and>
     (\<forall>i<length S. (\<forall>b\<in>set (baseChildren (S ! i)). \<not> is_vec b) \<and> generator_parts F d reg breg vcon (own (S ! i)))"

text \<open>
  An object is fresh when it waits to be rebuilt or when its generator knows everything below it: its
  partitions are those of all constraints below it or, after a change, will be, as nothing is below it.
\<close>

definition obj_fresh :: "('v, 'm, 'r, 'w) objects \<Rightarrow> nat \<Rightarrow> bool" where
  "obj_fresh S i \<longleftrightarrow> obj_rebuild (S ! i) \<or>
     (if gen_isChanged (own (S ! i)) then objChildren (S ! i) = []
      else partitions (gen_partitioner (own (S ! i))) = partition_loop (scalars (obj_managers S i)) [])"

lemma objs_partsD:
  assumes "objs_parts F d reg breg vcon S"
  shows "tree_ok S" and "\<forall>i<length S. \<forall>b\<in>set (baseChildren (S ! i)). \<not> is_vec b"
    and "i < length S \<Longrightarrow> generator_parts F d reg breg vcon (own (S ! i))"
  using assms by (simp_all add: objs_parts_def)

definition same_constraints :: "('v, 'm, 'r, 'w) objects \<Rightarrow> ('v, 'm, 'r, 'w) objects \<Rightarrow> nat \<Rightarrow> bool" where
  "same_constraints S T k \<longleftrightarrow> objChildren (T ! k) = objChildren (S ! k) \<and>
     mng_constraints (constr_mng (own (T ! k))) = mng_constraints (constr_mng (own (S ! k)))"

lemma scalars_same:
  assumes "tree_ok S" and "tree_ok T" and "i < length S" and "length S \<le> length T" and "\<And>k. k \<in> subtree S i \<Longrightarrow> same_constraints S T k"
  shows "scalars (obj_managers T i) = scalars (obj_managers S i)"
  by (rule scalars_cong, rule obj_managers_cong [OF assms(1-4)]) (use assms(5) in \<open>simp add: same_constraints_def\<close>)

lemma fresh_frame:
  assumes "tree_ok S" and "tree_ok T" and "i < length S" and "length S \<le> length T" and "\<And>k. k \<in> subtree S i \<Longrightarrow> same_constraints S T k"
    and "obj_fresh S i" and "obj_rebuild (S ! i) \<Longrightarrow> obj_rebuild (T ! i)" and "own (T ! i) = own (S ! i)"
  shows "obj_fresh T i"
proof -
  have "objChildren (T ! i) = objChildren (S ! i)" using assms(5) [OF subtree.self] by (simp add: same_constraints_def)
  then show ?thesis using assms(6-8) scalars_same [OF assms(1-5)] by (auto simp: obj_fresh_def split: if_splits)
qed

text \<open>A change below some objects, which are then marked.\<close>

lemma request_rebuild_ok:
  assumes parts: "objs_parts F d reg breg vcon T" and i: "i < length T"
  shows "objs_parts F d reg breg vcon (request_rebuild i T)"
    and "j < length T \<Longrightarrow> i \<in> subtree T j \<or> obj_fresh T j \<Longrightarrow> obj_fresh (request_rebuild i T) j"
proof -
  let ?U = "request_rebuild i T"
  have tree: "tree_ok T" by (rule objs_partsD [OF parts])
  note nth = request_rebuild_nth [OF tree i]
  have treeU: "tree_ok ?U" by (rule same_tree_ok [OF request_rebuild_same_tree [OF tree i] tree])
  have same: "own (?U ! j) = own (T ! j)" "baseChildren (?U ! j) = baseChildren (T ! j)" "objChildren (?U ! j) = objChildren (T ! j)"
    if "j < length T" for j using nth that by auto
  show "objs_parts F d reg breg vcon ?U" using parts treeU nth same by (simp add: objs_parts_def)
  show "obj_fresh ?U j" if j: "j < length T" and fresh: "i \<in> subtree T j \<or> obj_fresh T j"
  proof (cases "i \<in> subtree T j")
    case True
    then show ?thesis using nth j by (simp add: obj_fresh_def)
  next
    case False
    have less: "k < length T" if "k \<in> subtree T j" for k using subtree_less [OF that tree j] by simp
    show ?thesis
      by (rule fresh_frame [OF tree treeU j]) (use nth j less same False fresh in \<open>auto simp: same_constraints_def\<close>)
  qed
qed

text \<open>Another generator for one object.\<close>

abbreviation set_own :: "nat \<Rightarrow> ('v, 'm, 'r, 'w) generator \<Rightarrow> ('v, 'm, 'r, 'w) objects \<Rightarrow> ('v, 'm, 'r, 'w) objects" where
  "set_own i g S \<equiv> update_obj i (\<lambda>ob. ob\<lparr>own := g\<rparr>) S"

lemma set_own_parts:
  assumes "objs_parts F d reg breg vcon S" and "generator_parts F d reg breg vcon g"
  shows "objs_parts F d reg breg vcon (set_own i g S)"
proof -
  have "same_tree S (set_own i g S)" by (rule update_same_tree) simp_all
  then have "tree_ok (set_own i g S)" by (rule same_tree_ok) (rule objs_partsD [OF assms(1)])
  then show ?thesis using assms by (auto simp: objs_parts_def)
qed

lemma set_own_fresh:
  assumes parts: "objs_parts F d reg breg vcon S" and j: "j < length S" and fresh: "obj_fresh S j"
    and lists: "i \<notin> subtree S j \<or> j \<noteq> i \<and> mng_constraints (constr_mng g) = mng_constraints (constr_mng (own (S ! i)))"
  shows "obj_fresh (set_own i g S) j"
proof -
  have tree: "tree_ok S" by (rule objs_partsD [OF parts])
  have "same_tree S (set_own i g S)" by (rule update_same_tree) simp_all
  then have tree': "tree_ok (set_own i g S)" using tree by (rule same_tree_ok)
  have ne: "j \<noteq> i" using lists subtree.self by blast
  have same: "same_constraints S (set_own i g S) k" if "k \<in> subtree S j" for k
    using lists subtree_less [OF that tree j] that by (auto simp: same_constraints_def)
  show ?thesis by (rule fresh_frame [OF tree tree' j _ same fresh]) (simp_all add: j ne)
qed

lemma set_own_fresh_self:
  assumes parts: "objs_parts F d reg breg vcon S" and i: "i < length S" and g: "generator_parts F d reg breg vcon g"
    and lists: "mng_constraints (constr_mng g) = mng_constraints (constr_mng (own (S ! i)))"
    and fresh: "obj_rebuild (S ! i) \<or> (if gen_isChanged g then objChildren (S ! i) = []
      else partitions (gen_partitioner g) = partition_loop (scalars (obj_managers S i)) [])"
  shows "obj_fresh (set_own i g S) i"
proof -
  have tree: "tree_ok S" "tree_ok (set_own i g S)" using objs_partsD(1) parts set_own_parts [OF parts g] by blast+
  have "scalars (obj_managers (set_own i g S) i) = scalars (obj_managers S i)"
  proof (rule scalars_same [OF tree i])
    show "same_constraints S (set_own i g S) k" if "k \<in> subtree S i" for k
      using subtree_less [OF that tree(1) i] lists by (simp add: same_constraints_def)
  qed simp
  then show ?thesis using fresh i by (auto simp: obj_fresh_def split: if_splits)
qed

text \<open>A new constraint leaves an object fresh that waits, that has nothing below it, or that is elsewhere.\<close>

lemma add_constraint_fresh:
  assumes parts: "objs_parts F d reg breg vcon S" and j: "j < length S" and fresh: "obj_fresh S j" and ch: "gen_isChanged g"
    and wait: "i \<in> subtree S j \<Longrightarrow> obj_rebuild (S ! j) \<or> objChildren (S ! j) = []"
  shows "obj_fresh (set_own i g S) j"
proof (cases "i \<in> subtree S j")
  case True
  have "i = j" if "objChildren (S ! j) = []" using True that subtree_eq [of S j] by simp
  then show ?thesis using wait [OF True] j ch by (auto simp: obj_fresh_def)
next
  case False
  then show ?thesis by (intro set_own_fresh [OF parts j fresh]) blast
qed

lemma toggle_ok:
  assumes parts: "objs_parts F d reg breg vcon S" and i: "i < length S" and g: "generator_parts F d reg breg vcon g"
    and same: "\<not> gen_isChanged g \<Longrightarrow> g = own (S ! i)"
  defines "T \<equiv> if gen_isChanged g then request_rebuild i (set_own i g S) else set_own i g S"
  shows "objs_parts F d reg breg vcon T" and "length T = length S" and "j < length S \<Longrightarrow> obj_fresh S j \<Longrightarrow> obj_fresh T j"
proof -
  have tree: "tree_ok S" by (rule objs_partsD [OF parts])
  have "same_tree S (set_own i g S)" by (rule update_same_tree) simp_all
  then have sub: "subtree (set_own i g S) j = subtree S j" if "j < length S" for j by (rule same_subtree [OF _ tree that])
  have iS: "i < length (set_own i g S)" using i by simp
  note req = request_rebuild_ok [OF set_own_parts [OF parts g] iS]
  have unchanged: "set_own i g S = S" if "\<not> gen_isChanged g" using same [OF that] i by (simp add: update_obj_def)
  show "objs_parts F d reg breg vcon T" using req(1) parts unchanged by (simp add: T_def)
  show "length T = length S"
    using request_rebuild_nth [OF objs_partsD(1) [OF set_own_parts [OF parts g]] iS] by (simp add: T_def)
  show "obj_fresh T j" if j: "j < length S" and fresh: "obj_fresh S j"
  proof (cases "gen_isChanged g")
    case True
    have "i \<in> subtree (set_own i g S) j \<or> obj_fresh (set_own i g S) j"
      using set_own_fresh [OF parts j fresh, of i g] sub [OF j] by blast
    then show ?thesis using req(2) [of j] j True by (simp add: T_def)
  next
    case False
    then show ?thesis using unchanged fresh by (simp add: T_def)
  qed
qed

text \<open>A new object.\<close>

lemma append_nth: "j < length S \<Longrightarrow> (S @ [x]) ! j = S ! j" "(S @ [x]) ! length S = x"
  by (simp_all add: nth_append)

definition blank :: "nat \<Rightarrow> nat option \<Rightarrow> ('v, 'm, 'r, 'w) rand_obj" where
  "blank k parent = \<lparr>own = Generator k, baseChildren = [], objChildren = [], obj_parent = parent, obj_rebuild = False\<rparr>"

lemma blank_simps [simp]:
  "own (blank k parent) = Generator k" "baseChildren (blank k parent) = []" "objChildren (blank k parent) = []"
  "obj_parent (blank k parent) = parent" "obj_rebuild (blank k parent) = False"
  by (simp_all add: blank_def)

lemma blank_fresh:
  assumes "tree_ok T" and "i < length T" and "own (T ! i) = Generator k" and "objChildren (T ! i) = []"
  shows "obj_fresh T i"
proof -
  have "obj_managers T i = [new_manager k]"
    using tree_below [OF assms(1,2)] assms(3,4) by (simp add: obj_managers.simps [of T i] Generator_def)
  then show ?thesis by (simp add: obj_fresh_def assms(3) Generator_def new_manager_def new_partitioner_def gen_isChanged_def scalars_def)
qed

definition attach :: "nat \<Rightarrow> nat option \<Rightarrow> ('v, 'm, 'r, 'w) objects \<Rightarrow> ('v, 'm, 'r, 'w) objects" where
  "attach k parent S = (case parent of None \<Rightarrow> S @ [blank k parent]
     | Some p \<Rightarrow> update_obj p (\<lambda>ob. ob\<lparr>objChildren := objChildren ob @ [length S]\<rparr>) (S @ [blank k parent]))"

lemma attach_nth:
  assumes "\<forall>p. parent = Some p \<longrightarrow> p < length S"
  shows "length (attach k parent S) = Suc (length S)" "attach k parent S ! length S = blank k parent"
    "j < length S \<Longrightarrow> attach k parent S ! j =
       (if parent = Some j then (S ! j)\<lparr>objChildren := objChildren (S ! j) @ [length S]\<rparr> else S ! j)"
  using assms by (auto simp: attach_def append_nth split: option.splits)

lemma attach_tree:
  assumes tree: "tree_ok S" and par: "\<forall>p. parent = Some p \<longrightarrow> p < length S"
  shows "tree_ok (attach k parent S)"
proof -
  let ?T = "attach k parent S"
  note nth = attach_nth [where parent = parent and S = S and k = k, OF par]
  have old: "objChildren (?T ! j) = objChildren (S ! j) @ (if parent = Some j then [length S] else [])"
    "obj_parent (?T ! j) = obj_parent (S ! j)" if "j < length S" for j
    using nth(3) [where j = j] that by simp_all
  show ?thesis
    unfolding tree_ok_def nth(1) less_Suc_eq
  proof (intro allI impI conjI ballI)
    fix i c assume i: "i < length S \<or> i = length S" and c: "c \<in> set (objChildren (?T ! i))"
    have "i < length S" using i c nth(2) by auto
    then have "c \<in> set (objChildren (S ! i)) \<or> c = length S \<and> parent = Some i" using c old(1) by (auto split: if_splits)
    then have "i < c \<and> (c < length S \<or> c = length S) \<and> obj_parent (?T ! c) = Some i"
    proof
      assume "c \<in> set (objChildren (S ! i))"
      then show ?thesis using tree_child [OF tree \<open>i < length S\<close>] old(2) by simp
    next
      assume "c = length S \<and> parent = Some i"
      then show ?thesis using \<open>i < length S\<close> nth(2) by simp
    qed
    then show "i < c" "c < length S \<or> c = length S" "obj_parent (?T ! c) = Some i" by simp_all
  next
    fix i p assume i: "i < length S \<or> i = length S" and p: "obj_parent (?T ! i) = Some p"
    have "p < i \<and> p < length S \<and> i \<in> set (objChildren (?T ! p))"
    proof (cases "i = length S")
      case True
      then have "parent = Some p" using p nth(2) by simp
      then show ?thesis using True par old(1) [of p] by simp
    next
      case False
      then have "i < length S" "obj_parent (S ! i) = Some p" using i p old(2) by simp_all
      then have "p < i" "i \<in> set (objChildren (S ! p))" using tree_parent [OF tree] by blast+
      then show ?thesis using old(1) [of p] \<open>i < length S\<close> by simp
    qed
    then show "p < i" "i \<in> set (objChildren (?T ! p))" by simp_all
  qed
qed

lemma generator_parts_new: "generator_parts F d reg breg vcon (Generator k)"
  by (simp add: generator_parts_def Generator_def manager_sorted_def new_manager_ok)
    (simp add: new_manager_def new_partitioner_def pairwise_disjoint_def)

lemma new_rand_obj_ok:
  fixes k and parent and S
  assumes parts: "objs_parts F d reg breg vcon S" and par: "\<forall>p. parent = Some p \<longrightarrow> p < length S"
  defines "U \<equiv> snd (new_rand_obj k parent S)"
  shows "objs_parts F d reg breg vcon U" and "length U = Suc (length S)"
    and "j < length S \<Longrightarrow> obj_fresh S j \<Longrightarrow> obj_fresh U j" and "obj_fresh U (length S)"
proof -
  let ?T = "attach k parent S"
  note nth = attach_nth [where parent = parent and S = S and k = k, OF par]
  have tree: "tree_ok S" by (rule objs_partsD [OF parts])
  have treeT: "tree_ok ?T" by (rule attach_tree [OF tree par])
  have partsT: "objs_parts F d reg breg vcon ?T"
    unfolding objs_parts_def nth(1) less_Suc_eq
  proof (intro conjI treeT allI impI)
    fix i assume i: "i < length S \<or> i = length S"
    then have "baseChildren (?T ! i) = (if i = length S then [] else baseChildren (S ! i))"
      "own (?T ! i) = (if i = length S then Generator k else own (S ! i))"
      using nth(2) nth(3) [where j = i] by auto
    then show "\<forall>b\<in>set (baseChildren (?T ! i)). \<not> is_vec b" "generator_parts F d reg breg vcon (own (?T ! i))"
      using i parts generator_parts_new [of F d reg breg vcon k] by (auto simp: objs_parts_def)
  qed
  have fresh: "obj_fresh ?T j" if j: "j < length ?T" and nop: "\<And>p. parent = Some p \<Longrightarrow> p \<notin> subtree ?T j"
    and was: "j \<noteq> length S \<Longrightarrow> obj_fresh S j" for j
  proof (cases "j = length S")
    case True
    then show ?thesis using blank_fresh [OF treeT j, of k] nth(2) by simp
  next
    case False
    then have jS: "j < length S" using j nth(1) by simp
    have nop': "p \<notin> subtree S j" if p: "parent = Some p" for p
    proof
      assume "p \<in> subtree S j"
      then have "p \<in> subtree ?T j"
      proof (induction rule: subtree.induct)
        case (child k c)
        have "k < length S" using subtree_less [OF child(1) tree jS] by simp
        then have "set (objChildren (S ! k)) \<subseteq> set (objChildren (?T ! k))" using nth(3) [where j = k] by auto
        then show ?case using child by (auto intro: subtree.intros)
      qed (rule subtree.self)
      then show False using nop [OF p] by simp
    qed
    have less: "k < length S" "parent \<noteq> Some k" if "k \<in> subtree S j" for k
      using subtree_less [OF that tree jS] nop' that by auto
    show ?thesis
    proof (rule fresh_frame [OF tree treeT jS])
      show "same_constraints S ?T k" if "k \<in> subtree S j" for k using nth(3) [where j = k] less [OF that] by (simp add: same_constraints_def)
      show "obj_fresh S j" by (rule was [OF False])
      have "?T ! j = S ! j" using nth(3) [where j = j] less [OF subtree.self] jS by simp
      then show "obj_rebuild (S ! j) \<Longrightarrow> obj_rebuild (?T ! j)" "own (?T ! j) = own (S ! j)" by simp_all
    qed (simp add: nth(1))
  qed
  have all: "objs_parts F d reg breg vcon U \<and> length U = Suc (length S) \<and>
    (\<forall>j<Suc (length S). (j \<noteq> length S \<longrightarrow> obj_fresh S j) \<longrightarrow> obj_fresh U j)"
  proof (cases parent)
    case None
    then have "U = ?T" by (simp add: U_def new_rand_obj_def attach_def blank_def)
    then show ?thesis using partsT fresh None nth(1) by simp
  next
    case (Some p)
    then have U: "U = request_rebuild p ?T"
      by (simp add: U_def new_rand_obj_def attach_def blank_def add_obj_child_def Let_def)
    have p: "p < length ?T" using par nth(1) Some by simp
    have "length U = Suc (length S)" unfolding U using request_rebuild_nth [OF treeT p] nth(1) by simp
    moreover have "obj_fresh U j" if "j < Suc (length S)" "j \<noteq> length S \<longrightarrow> obj_fresh S j" for j
      unfolding U by (rule request_rebuild_ok(2) [OF partsT p]) (use that nth(1) fresh [of j] Some in auto)
    ultimately show ?thesis using request_rebuild_ok(1) [OF partsT p] U by simp
  qed
  then show "objs_parts F d reg breg vcon U" "length U = Suc (length S)" by simp_all
  show "obj_fresh U (length S)" using all by simp
  show "obj_fresh U j" if "j < length S" "obj_fresh S j" using all that by simp
qed

lemma add_base_child_ok:
  assumes parts: "objs_parts F d reg breg vcon S" and b: "\<not> is_vec b"
  shows "objs_parts F d reg breg vcon (add_base_child i b S)" and "length (add_base_child i b S) = length S"
    and "j < length S \<Longrightarrow> obj_fresh S j \<Longrightarrow> obj_fresh (add_base_child i b S) j"
proof -
  let ?T = "update_obj i (\<lambda>ob. ob\<lparr>baseChildren := baseChildren ob @ [b]\<rparr>) S"
  have tree: "tree_ok S" by (rule objs_partsD [OF parts])
  have "same_tree S ?T" by (rule update_same_tree) simp_all
  then have treeT: "tree_ok ?T" using tree by (rule same_tree_ok)
  have eq: "add_base_child i b S = ?T" using b by (simp add: add_base_child_def)
  show "objs_parts F d reg breg vcon (add_base_child i b S)" unfolding eq using parts treeT b by (auto simp: objs_parts_def)
  show "length (add_base_child i b S) = length S" by (simp add: eq)
  show "obj_fresh (add_base_child i b S) j" if j: "j < length S" "obj_fresh S j"
    unfolding eq
  proof (rule fresh_frame [OF tree treeT j(1) _ _ j(2)])
    show "same_constraints S ?T k" if "k \<in> subtree S j" for k using subtree_less [OF that tree j(1)] by (simp add: same_constraints_def)
  qed (use j in auto)
qed

section \<open>Solving an object\<close>

lemma managers_below:
  assumes parts: "objs_parts F d reg breg vcon S" and i: "i < length S" and len: "length (scalars (obj_managers S i)) < 2 ^ 32"
  shows "managers_sorted d vcon (obj_managers S i)"
proof -
  note tree = objs_partsD(1) [OF parts]
  have mng: "manager_sorted d vcon m" if "m \<in> set (obj_managers S i)" for m
  proof -
    have "m \<in> (\<lambda>j. constr_mng (own (S ! j))) ` subtree S i" using that by (simp only: obj_managers_set [OF tree i])
    then obtain j where "j \<in> subtree S i" "m = constr_mng (own (S ! j))" by blast
    then show ?thesis using objs_partsD(3) [OF parts, of j] subtree_less [OF _ tree i] by (simp add: generator_parts_def)
  qed
  have single: "managers_sorted d vcon [m]" if "m \<in> set (obj_managers S i)" for m by (rule manager_sorted_single [OF mng [OF that]])
  have "vectors [m] = []" if "m \<in> set (obj_managers S i)" for m using single [OF that] by (simp add: managers_sorted_def)
  then have "vectors (obj_managers S i) = []" by (simp add: vectors_def filter_empty_conv)
  moreover have "\<exists>m\<in>set (obj_managers S i). c \<in> set (scalars [m])" if "c \<in> set (scalars (obj_managers S i))" for c
    using that by (auto simp: scalars_def)
  ultimately show ?thesis using single len unfolding managers_sorted_def by blast
qed

lemma managers_sorted_cong: "map mng_constraints ms = map mng_constraints ms' \<Longrightarrow> managers_sorted d vcon ms = managers_sorted d vcon ms'"
  by (simp add: managers_sorted_def scalars_def vectors_def)

text \<open>The rest of a call, after a rebuild and with the new generator put in its place.\<close>

lemma put_back:
  assumes parts: "objs_parts F d reg breg vcon T" and i: "i < length T" and g: "generator_parts F d reg breg vcon g"
    and lists: "mng_constraints (constr_mng g) = mng_constraints (constr_mng (own (T ! i)))"
    and self: "obj_fresh T i \<Longrightarrow> obj_fresh (set_own i g T) i" and j: "j < length T" "obj_fresh T j"
  shows "obj_fresh (set_own i g T) j"
proof (cases "j = i")
  case False
  then show ?thesis using set_own_fresh [OF parts j] lists by blast
qed (use self j in simp)

text \<open>What a call keeps, whatever it returns.\<close>

definition kept :: "('v, 'm, 'r, 'w) objects \<Rightarrow> ('v, 'm, 'r, 'w) objects \<Rightarrow> bool" where
  "kept S T \<longleftrightarrow> same_tree S T \<and>
     (\<forall>k<length S. mng_constraints (constr_mng (own (T ! k))) = mng_constraints (constr_mng (own (S ! k)))) \<and>
     (\<forall>j<length S. obj_fresh S j \<longrightarrow> obj_fresh T j)"

lemma kept_refl: "kept S S"
  by (simp add: kept_def same_tree_refl)

lemma kept_put_back:
  assumes T: "same_tree S T" "\<forall>k<length S. mng_constraints (constr_mng (own (T ! k))) = mng_constraints (constr_mng (own (S ! k)))"
    "\<forall>j<length S. obj_fresh S j \<longrightarrow> obj_fresh T j"
    and parts: "objs_parts F d reg breg vcon T" and i: "i < length T" and g: "generator_parts F d reg breg vcon g"
    and lists: "mng_constraints (constr_mng g) = mng_constraints (constr_mng (own (T ! i)))"
    and self: "obj_fresh T i \<longrightarrow> obj_fresh (set_own i g T) i"
  shows "kept S (set_own i g T)"
proof -
  have len: "length T = length S" using T(1) by (simp add: same_tree_def)
  have "same_tree T (set_own i g T)" by (rule update_same_tree) simp_all
  then have "same_tree S (set_own i g T)" by (rule same_tree_trans [OF T(1)])
  moreover have "obj_fresh (set_own i g T) j" if "j < length S" "obj_fresh S j" for j
    by (rule put_back [OF parts i g lists]) (use self T(3) that len in auto)
  ultimately show ?thesis using T(2) lists len i by (auto simp: kept_def)
qed

context good_factory
begin

lemma rebuild_object_ok:
  fixes vcon :: "('m, 'r) container"
  assumes parts: "objs_parts F d reg breg vcon S" and vcon: "container_ok d vcon" and i: "i < length S"
    and len: "length (scalars (obj_managers S i)) < 2 ^ 32"
  shows "\<exists>T. rebuild_object F vcon i S = Inr T \<and> objs_parts F d reg breg vcon T \<and> same_tree S T \<and>
    (\<forall>k<length S. mng_constraints (constr_mng (own (T ! k))) = mng_constraints (constr_mng (own (S ! k)))) \<and> \<not> obj_rebuild (T ! i) \<and>
    (\<forall>j<length S. obj_fresh S j \<longrightarrow> obj_fresh T j)"
proof (cases "obj_rebuild (S ! i)")
  case False
  then show ?thesis using parts by (simp add: rebuild_object_def same_tree_refl)
next
  case True
  note tree = objs_partsD(1) [OF parts]
  let ?g = "own (S ! i)"
  let ?mng = "resetChanged (constr_mng ?g)"
  define g1 where "g1 = ?g\<lparr>constr_mng := ?mng, gen_partitioner := pt_reset (gen_partitioner ?g), to_be_generated_vec_ids := {},
    gen_covered := False, var_cov_gen := []\<rparr>"
  have lists1: "mng_constraints (constr_mng g1) = mng_constraints (constr_mng ?g)" by (simp add: g1_def resetChanged_def)
  obtain ms where ms: "gather_constraints S i i g1 = merge_into ms g1" "map mng_constraints ms = map mng_constraints (obj_managers S i)"
    using gather_top [OF tree i objs_partsD(2) [OF parts] lists1] by blast
  have sorted: "managers_sorted d vcon ms" using managers_below [OF parts i len] managers_sorted_cong [OF ms(2)] by blast
  have mng: "manager_sorted d vcon ?mng" using objs_partsD(3) [OF parts i] by (simp add: generator_parts_def resetChanged_sorted)
  obtain g2 where g2: "rebuild F vcon False (merge_into ms g1) = Inr g2" "generator_parts F d reg breg vcon g2"
    "constr_mng g2 = ?mng" "partitions (gen_partitioner g2) = partition_loop (scalars ms) []"
    using rebuild_managers [of vcon "merge_into ms g1", OF _ sorted vcon, of "gen_partitioner ?g"] mng
    by (auto simp: merge_into.simps g1_def)
  let ?T = "update_obj i (\<lambda>ob. ob\<lparr>own := g2, obj_rebuild := False\<rparr>) S"
  have run: "rebuild_object F vcon i S = Inr ?T" using True g2(1) ms(1) by (simp add: rebuild_object_def gen_reset_eq flip: g1_def)
  have st: "same_tree S ?T" by (rule update_same_tree) simp_all
  have lists: "mng_constraints (constr_mng (own (?T ! k))) = mng_constraints (constr_mng (own (S ! k)))" if "k < length S" for k
    using that by (simp add: g2(3) resetChanged_def)
  have treeT: "tree_ok ?T" by (rule same_tree_ok [OF st tree])
  have same: "same_constraints S ?T k" if "j < length S" "k \<in> subtree S j" for j k
    using lists subtree_less [OF that(2) tree that(1)] by (simp add: same_constraints_def)
  have "objs_parts F d reg breg vcon ?T" using parts treeT g2(2) by (auto simp: objs_parts_def)
  moreover have "obj_fresh ?T j" if j: "j < length S" and fresh: "obj_fresh S j" for j
  proof (cases "j = i")
    case True
    have "partitions (gen_partitioner g2) = partition_loop (scalars (obj_managers ?T i)) []"
      using g2(4) scalars_cong [OF ms(2)] scalars_same [OF tree treeT i _ same [OF i]] by simp
    moreover have "\<not> gen_isChanged g2" by (simp add: gen_isChanged_def g2(3) resetChanged_def)
    ultimately show ?thesis using True i by (simp add: obj_fresh_def)
  next
    case False
    show ?thesis by (rule fresh_frame [OF tree treeT j _ same [OF j] fresh]) (simp_all add: j False)
  qed
  ultimately show ?thesis using run st lists i by (intro exI [of _ ?T] conjI) simp_all
qed

lemma solved_nodes_cong: "scalars ms = scalars ms' \<Longrightarrow> solved_nodes vcon ms = solved_nodes vcon ms'"
  by (simp add: solved_nodes_def fun_eq_iff)

text \<open>The generator of an object that is not waiting.\<close>

lemma leaf_generator:
  assumes parts: "objs_parts F d reg breg vcon S" and i: "i < length S" and ch: "gen_isChanged (own (S ! i))" and rb: "\<not> obj_rebuild (S ! i)"
  shows "generator_ok F d reg breg vcon (own (S ! i))" and "obj_fresh S i \<Longrightarrow> objChildren (S ! i) = []"
    and "obj_fresh S i \<Longrightarrow> mng_constraints (constr_mng g) = mng_constraints (constr_mng (own (S ! i))) \<Longrightarrow>
      scalars (obj_managers S i) = scalars [constr_mng g]"
proof -
  show "generator_ok F d reg breg vcon (own (S ! i))" using objs_partsD(3) [OF parts i] ch by (simp add: generator_ok_def)
  show leaf: "objChildren (S ! i) = []" if "obj_fresh S i" using that ch rb by (simp add: obj_fresh_def)
  have "obj_managers S i = [constr_mng (own (S ! i))]" if "obj_fresh S i"
    using tree_below [OF objs_partsD(1) [OF parts] i] leaf [OF that] by (simp add: obj_managers.simps [of S i])
  then show "obj_fresh S i \<Longrightarrow> mng_constraints (constr_mng g) = mng_constraints (constr_mng (own (S ! i))) \<Longrightarrow>
      scalars (obj_managers S i) = scalars [constr_mng g]"
    by (simp add: scalars_def)
qed

lemma own_next_ok:
  fixes vcon :: "('m, 'r) container"
  assumes parts: "objs_parts F d reg breg vcon S" and vcon: "container_ok d vcon" and i: "i < length S" and rb: "\<not> obj_rebuild (S ! i)"
  defines "N \<equiv> solved_nodes vcon (obj_managers S i)"
  shows "\<exists>b g' m' r'. gen_next F vcon vbm (own (S ! i)) (n, m, r) = Inr (b, g', n, m', r') \<and>
    generator_parts F d reg breg vcon g' \<and> mng_constraints (constr_mng g') = mng_constraints (constr_mng (own (S ! i))) \<and>
    (obj_fresh S i \<longrightarrow> obj_fresh (set_own i g' S) i \<and> (\<forall>(i, e)\<in>set (read_references vcon). e m' = e m) \<and>
      (if b then \<exists>\<rho>\<in>models d (N m). stored vcon \<rho> (N m) m' else models d (N m) = {}))"
proof (cases "gen_isChanged (own (S ! i))")
  case True
  note leaf = leaf_generator [OF parts i True rb]
  obtain b g' m' r' where g': "gen_next F vcon vbm (own (S ! i)) (n, m, r) = Inr (b, g', n, m', r')" "generator_ok F d reg breg vcon g'"
    "mng_constraints (constr_mng g') = mng_constraints (constr_mng (own (S ! i)))" "\<not> gen_isChanged g'"
    "\<forall>(i, e)\<in>set (read_references vcon). e m' = e m"
    and sol: "if b then \<exists>\<rho>\<in>models d (solved_nodes vcon [constr_mng (own (S ! i))] m). stored vcon \<rho> (solved_nodes vcon [constr_mng (own (S ! i))] m) m'
      else models d (solved_nodes vcon [constr_mng (own (S ! i))] m) = {}"
    using gen_next_ok [OF leaf(1) vcon, of vbm n m r] by blast
  have parts': "generator_parts F d reg breg vcon g'" using g'(2) by (simp add: generator_ok_def)
  have "obj_fresh (set_own i g' S) i \<and> (if b then \<exists>\<rho>\<in>models d (N m). stored vcon \<rho> (N m) m' else models d (N m) = {})" if fresh: "obj_fresh S i"
  proof
    show "obj_fresh (set_own i g' S) i"
      by (rule set_own_fresh_self [OF parts i parts' g'(3)])
        (use g'(2,4) leaf(3) [OF fresh g'(3)] in \<open>simp add: generator_ok_def\<close>)
    show "if b then \<exists>\<rho>\<in>models d (N m). stored vcon \<rho> (N m) m' else models d (N m) = {}"
      using sol unfolding N_def solved_nodes_cong [OF leaf(3) [OF fresh refl]] .
  qed
  then show ?thesis using g' parts' by blast
next
  case False
  obtain b vss m' r' where g': "gen_next F vcon vbm (own (S ! i)) (n, m, r) = Inr (b, (own (S ! i))\<lparr>var_gen := vss\<rparr>, n, m', r')"
    "generator_parts F d reg breg vcon ((own (S ! i))\<lparr>var_gen := vss\<rparr>)" "\<forall>(i, e)\<in>set (read_references vcon). e m' = e m"
    and sol: "if b then \<exists>\<rho>\<in>models d (nodes_of vcon (partitions (gen_partitioner (own (S ! i)))) m).
        stored vcon \<rho> (nodes_of vcon (partitions (gen_partitioner (own (S ! i)))) m) m'
      else models d (nodes_of vcon (partitions (gen_partitioner (own (S ! i)))) m) = {}"
    using gen_next_unchanged [OF objs_partsD(3) [OF parts i] vcon False, of vbm n m r] by blast
  have "obj_fresh (set_own i ((own (S ! i))\<lparr>var_gen := vss\<rparr>) S) i \<and>
      (if b then \<exists>\<rho>\<in>models d (N m). stored vcon \<rho> (N m) m' else models d (N m) = {})" if fresh: "obj_fresh S i"
  proof
    have part: "partitions (gen_partitioner (own (S ! i))) = partition_loop (scalars (obj_managers S i)) []"
      using fresh False rb by (simp add: obj_fresh_def)
    show "obj_fresh (set_own i ((own (S ! i))\<lparr>var_gen := vss\<rparr>) S) i"
      by (rule set_own_fresh_self [OF parts i g'(2)]) (use part False in \<open>simp_all add: gen_isChanged_def\<close>)
    show "if b then \<exists>\<rho>\<in>models d (N m). stored vcon \<rho> (N m) m' else models d (N m) = {}"
      using sol unfolding N_def solved_nodes_def part .
  qed
  then show ?thesis using g'
    by (intro exI [of _ b] exI [of _ "(own (S ! i))\<lparr>var_gen := vss\<rparr>"] exI [of _ m'] exI [of _ r']) simp
qed

lemma own_nextCov_ok:
  fixes vcon :: "('m, 'r) container"
  assumes parts: "objs_parts F d reg breg vcon S" and vcon: "container_ok d vcon" and i: "i < length S" and rb: "\<not> obj_rebuild (S ! i)"
  shows "\<exists>b g' m' r'. nextCov F vcon vbm (own (S ! i)) (n, m, r) = Inr (b, g', n, m', r') \<and>
    generator_parts F d reg breg vcon g' \<and> mng_constraints (constr_mng g') = mng_constraints (constr_mng (own (S ! i))) \<and>
    (obj_fresh S i \<longrightarrow> obj_fresh (set_own i g' S) i)"
proof (cases "gen_isChanged (own (S ! i))")
  case True
  note leaf = leaf_generator [OF parts i True rb]
  obtain b g' m' r' where g': "nextCov F vcon vbm (own (S ! i)) (n, m, r) = Inr (b, g', n, m', r')" "generator_ok F d reg breg vcon g'"
    "mng_constraints (constr_mng g') = mng_constraints (constr_mng (own (S ! i)))"
    using nextCov_ok [OF leaf(1) vcon, of vbm n m r] by blast
  have parts': "generator_parts F d reg breg vcon g'" using g'(2) by (simp add: generator_ok_def)
  have "obj_fresh (set_own i g' S) i" if fresh: "obj_fresh S i"
    by (rule set_own_fresh_self [OF parts i parts' g'(3)])
      (use g'(2) leaf(2) [OF fresh] leaf(3) [OF fresh g'(3)] in \<open>simp add: generator_ok_def\<close>)
  then show ?thesis using g' parts' by blast
next
  case False
  obtain b g' m' r' where g': "nextCov F vcon vbm (own (S ! i)) (n, m, r) = Inr (b, g', n, m', r')" "generator_parts F d reg breg vcon g'"
    "constr_mng g' = constr_mng (own (S ! i))" "gen_partitioner g' = gen_partitioner (own (S ! i))"
    using nextCov_unchanged [OF objs_partsD(3) [OF parts i] vcon False, of vbm n m r] by blast
  have "obj_fresh (set_own i g' S) i" if fresh: "obj_fresh S i"
    by (rule set_own_fresh_self [OF parts i g'(2)]) (use fresh rb False g'(3,4) in \<open>simp_all add: obj_fresh_def gen_isChanged_def\<close>)
  then show ?thesis using g' by (intro exI [of _ b] exI [of _ g'] exI [of _ m'] exI [of _ r']) simp
qed

text \<open>The whole call; \<open>m1\<close> is the memory after the children that are not objects have got values.\<close>

lemma obj_next_ok:
  fixes vcon :: "('m, 'r) container"
  assumes parts: "objs_parts F d reg breg vcon S" and vcon: "container_ok d vcon" and i: "i < length S"
    and len: "length (scalars (obj_managers S i)) < 2 ^ 32" and base: "gen_base_children S i (m, r) = (b1, m1, r1)"
  defines "N \<equiv> solved_nodes vcon (obj_managers S i)"
  shows "\<exists>b T m' r'. obj_next F vcon vbm i S (n, m, r) = Inr (b, T, n, m', r') \<and> objs_parts F d reg breg vcon T \<and> kept S T \<and>
    (obj_fresh S i \<longrightarrow> (\<forall>(i, e)\<in>set (read_references vcon). e m' = e m1) \<and>
      (if \<not> b1 then \<not> b else if b then \<exists>\<rho>\<in>models d (N m1). stored vcon \<rho> (N m1) m' else models d (N m1) = {}))"
proof (cases b1)
  case False
  then show ?thesis using base parts kept_refl by (intro exI [of _ False]) (simp add: obj_next_def obj_next_with_def)
next
  case True
  note tree = objs_partsD(1) [OF parts]
  obtain T where T: "rebuild_object F vcon i S = Inr T" "objs_parts F d reg breg vcon T" "same_tree S T"
    "\<forall>k<length S. mng_constraints (constr_mng (own (T ! k))) = mng_constraints (constr_mng (own (S ! k)))" "\<not> obj_rebuild (T ! i)"
    "\<forall>j<length S. obj_fresh S j \<longrightarrow> obj_fresh T j"
    using rebuild_object_ok [OF parts vcon i len] by blast
  have iT: "i < length T" using T(3) i by (simp add: same_tree_def)
  have "scalars (obj_managers T i) = scalars (obj_managers S i)"
  proof (rule scalars_same [OF tree same_tree_ok [OF T(3) tree] i])
    show "length S \<le> length T" using T(3) by (simp add: same_tree_def)
    show "same_constraints S T k" if "k \<in> subtree S i" for k
      using T(3,4) subtree_less [OF that tree i] by (simp add: same_constraints_def same_tree_def)
  qed
  then have N: "solved_nodes vcon (obj_managers T i) = N" unfolding N_def by (rule solved_nodes_cong)
  obtain b g' m' r' where g': "gen_next F vcon vbm (own (T ! i)) (n, m1, r1) = Inr (b, g', n, m', r')"
    "generator_parts F d reg breg vcon g'" "mng_constraints (constr_mng g') = mng_constraints (constr_mng (own (T ! i)))"
    and sol: "obj_fresh T i \<longrightarrow> obj_fresh (set_own i g' T) i \<and> (\<forall>(i, e)\<in>set (read_references vcon). e m' = e m1) \<and>
      (if b then \<exists>\<rho>\<in>models d (N m1). stored vcon \<rho> (N m1) m' else models d (N m1) = {})"
    using own_next_ok [OF T(2) vcon iT T(5), of vbm n m1 r1] unfolding N by blast
  have "obj_next F vcon vbm i S (n, m, r) = Inr (b, set_own i g' T, n, m', r')"
    using base True T(1) g'(1) by (simp add: obj_next_def obj_next_with_def)
  moreover have "kept S (set_own i g' T)" by (rule kept_put_back [OF T(3,4,6) T(2) iT g'(2,3)]) (use sol in blast)
  moreover note set_own_parts [OF T(2) g'(2)]
  ultimately show ?thesis using sol T(6) i True
    by (intro exI [of _ b] exI [of _ "set_own i g' T"] exI [of _ m'] exI [of _ r']) simp
qed

lemma obj_next_cov_ok:
  fixes vcon :: "('m, 'r) container"
  assumes parts: "objs_parts F d reg breg vcon S" and vcon: "container_ok d vcon" and i: "i < length S"
    and len: "length (scalars (obj_managers S i)) < 2 ^ 32"
  shows "\<exists>b T m' r'. obj_next_cov F vcon vbm i S (n, m, r) = Inr (b, T, n, m', r') \<and> objs_parts F d reg breg vcon T \<and> kept S T"
proof -
  obtain b1 m1 r1 where base: "gen_base_children S i (m, r) = (b1, m1, r1)" by (cases "gen_base_children S i (m, r)") auto
  obtain T where T: "rebuild_object F vcon i S = Inr T" "objs_parts F d reg breg vcon T" "same_tree S T"
    "\<forall>k<length S. mng_constraints (constr_mng (own (T ! k))) = mng_constraints (constr_mng (own (S ! k)))" "\<not> obj_rebuild (T ! i)"
    "\<forall>j<length S. obj_fresh S j \<longrightarrow> obj_fresh T j"
    using rebuild_object_ok [OF parts vcon i len] by blast
  have iT: "i < length T" using T(3) i by (simp add: same_tree_def)
  obtain b g' m' r' where g': "nextCov F vcon vbm (own (T ! i)) (n, m1, r1) = Inr (b, g', n, m', r')"
    "generator_parts F d reg breg vcon g'" "mng_constraints (constr_mng g') = mng_constraints (constr_mng (own (T ! i)))"
    "obj_fresh T i \<longrightarrow> obj_fresh (set_own i g' T) i"
    using own_nextCov_ok [OF T(2) vcon iT T(5), of vbm n m1 r1] by blast
  note kept = kept_put_back [OF T(3,4,6) T(2) iT g'(2-4)]
  note put = set_own_parts [OF T(2) g'(2)]
  show ?thesis using base T(1) parts kept put kept_refl g'(1)
    by (intro exI [of _ "b1 \<and> b"], cases b1) (simp_all add: obj_next_cov_def obj_next_with_def)
qed

end

section \<open>Programs over objects\<close>

text \<open>
  The steps of a program over random objects: objects are constructed, get children that are not vectors and
  constraints, switch constraints, and are solved, in any order. New constraints are scalar and well sorted.
\<close>

inductive obj_step ::
    "('v, 'w, 'r) factory \<Rightarrow> ('m, 'r) vector_base_map \<Rightarrow> (nat \<Rightarrow> smt_sort) \<Rightarrow>
     ('m, 'r) container \<times> ('v, 'm, 'r, 'w) objects \<times> ('m, 'r) outside \<Rightarrow>
     ('m, 'r) container \<times> ('v, 'm, 'r, 'w) objects \<times> ('m, 'r) outside \<Rightarrow> bool"
  for F vbm d
where
  declares: "container_ok d vcon' \<Longrightarrow> extends vcon vcon' \<Longrightarrow> obj_step F vbm d (vcon, S, s) (vcon', S, s)"
| program: "obj_step F vbm d (vcon, S, s) (vcon, S, s')"
| new_object: "(\<forall>p. parent = Some p \<longrightarrow> p < length S) \<Longrightarrow> obj_step F vbm d (vcon, S, s) (vcon, snd (new_rand_obj k parent S), s)"
| base_child: "\<not> is_vec b \<Longrightarrow> obj_step F vbm d (vcon, S, s) (vcon, add_base_child i b S, s)"
| constrain: "i < length S \<Longrightarrow> fixWidth e = Inr n \<Longrightarrow> constraint_sorted d n \<Longrightarrow> node_vars n \<subseteq> dom (variables vcon) \<Longrightarrow>
    length (mng_constraints (constr_mng (own (S ! i)))) + 1 < 2 ^ 32 \<Longrightarrow> obj_constraint i name c e soft cover S = Inr T \<Longrightarrow>
    obj_step F vbm d (vcon, S, s) (vcon, T, s)"
| enable: "i < length S \<Longrightarrow> obj_step F vbm d (vcon, S, s) (vcon, snd (enable_constraint i name S), s)"
| disable: "i < length S \<Longrightarrow> obj_step F vbm d (vcon, S, s) (vcon, snd (disable_constraint i name S), s)"
| next_values: "i < length S \<Longrightarrow> length (scalars (obj_managers S i)) < 2 ^ 32 \<Longrightarrow> obj_next F vcon vbm i S s = Inr (b, T, s') \<Longrightarrow>
    obj_step F vbm d (vcon, S, s) (vcon, T, s')"
| next_coverage: "i < length S \<Longrightarrow> length (scalars (obj_managers S i)) < 2 ^ 32 \<Longrightarrow> obj_next_cov F vcon vbm i S s = Inr (b, T, s') \<Longrightarrow>
    obj_step F vbm d (vcon, S, s) (vcon, T, s')"

inductive_cases obj_stepE: "obj_step F vbm d x y"

text \<open>
  From \<open>S\<close> to \<open>T\<close> a constraint was added at or below \<open>j\<close>. An object that is new, or that was fresh, is fresh
  after a step, unless a constraint is added at or below it while it does not wait and has objects below it.
\<close>

definition constraints_added :: "('v, 'm, 'r, 'w) objects \<Rightarrow> ('v, 'm, 'r, 'w) objects \<Rightarrow> nat \<Rightarrow> bool" where
  "constraints_added S T j \<longleftrightarrow>
     (\<exists>k\<in>subtree S j. length (mng_constraints (constr_mng (own (S ! k)))) < length (mng_constraints (constr_mng (own (T ! k)))))"

definition stays_fresh :: "('v, 'm, 'r, 'w) objects \<Rightarrow> ('v, 'm, 'r, 'w) objects \<Rightarrow> nat \<Rightarrow> bool" where
  "stays_fresh S T j \<longleftrightarrow> (j < length S \<longrightarrow> obj_fresh S j) \<longrightarrow>
     (constraints_added S T j \<longrightarrow> obj_rebuild (S ! j) \<or> objChildren (S ! j) = []) \<longrightarrow> obj_fresh T j"

lemma objs_parts_extends:
  "objs_parts F d reg breg vcon S \<Longrightarrow> container_ok d vcon \<Longrightarrow> extends vcon vcon' \<Longrightarrow> objs_parts F d reg breg vcon' S"
  unfolding objs_parts_def using generator_parts_extends by blast

lemma toggle_generator:
  assumes parts: "generator_parts F d reg breg vcon g" and mng: "manager_sorted d vcon mng" "\<not> changed mng \<Longrightarrow> mng = constr_mng g"
  shows "generator_parts F d reg breg vcon (g\<lparr>constr_mng := mng\<rparr>)"
    and "\<not> gen_isChanged (g\<lparr>constr_mng := mng\<rparr>) \<Longrightarrow> g\<lparr>constr_mng := mng\<rparr> = g"
  using assms by (auto simp: generator_parts_def gen_isChanged_def)

context good_factory
begin

lemma obj_step_ok:
  fixes vcon vcon' :: "('m, 'r) container"
  assumes "obj_step F vbm d (vcon, S, s) (vcon', T, s')" and parts: "objs_parts F d reg breg vcon S" and vcon: "container_ok d vcon"
  shows "objs_parts F d reg breg vcon' T \<and> container_ok d vcon' \<and> (\<forall>j<length T. stays_fresh S T j)"
  using assms(1)
proof (cases rule: obj_step.cases)
  case declares
  then show ?thesis using parts vcon objs_parts_extends by (auto simp: stays_fresh_def)
next
  case (new_object parent k)
  note new = new_rand_obj_ok [OF parts new_object(4), where k = k]
  have "stays_fresh S T j" if j: "j < length T" for j
  proof (cases "j = length S")
    case True
    then show ?thesis using new(4) new_object(2) by (simp add: stays_fresh_def)
  next
    case False
    then have "j < length S" using j new(2) new_object(2) by simp
    then show ?thesis using new(3) [where j = j] new_object(2) by (auto simp: stays_fresh_def)
  qed
  then show ?thesis using new(1) new_object vcon by blast
next
  case (base_child b i)
  note child = add_base_child_ok [OF parts base_child(4), where i = i]
  then have "\<forall>j<length T. stays_fresh S T j" using base_child(2) by (auto simp: stays_fresh_def)
  then show ?thesis using child(1) base_child vcon by blast
next
  case (constrain i e n name c soft cover)
  note gp = objs_partsD(3) [OF parts constrain(3)]
  obtain con mng where mng: "makeConstraint_expr name c e soft cover (constr_mng (own (S ! i))) = Inr (con, mng)"
    and T: "T = set_own i ((own (S ! i))\<lparr>constr_mng := mng\<rparr>) S"
    using constrain(8) by (auto simp: obj_constraint_def gen_constraint_def rbind_eq_Inr)
  have "manager_sorted d vcon (constr_mng (own (S ! i)))" using gp by (simp add: generator_parts_def)
  from sorted_make [OF this _ _ _ _ mng] constrain have m: "manager_sorted d vcon mng" "changed mng" by simp_all
  have grows: "length (mng_constraints mng) = Suc (length (mng_constraints (constr_mng (own (S ! i)))))"
    using mng constrain(4) by (auto simp: makeConstraint_expr_def dest: makeConstraint_InrD)
  note g = toggle_generator(1) [OF gp m(1)]
  have "stays_fresh S T j" if j: "j < length T" for j
    unfolding stays_fresh_def
  proof (intro impI)
    assume "j < length S \<longrightarrow> obj_fresh S j" and quiet: "constraints_added S T j \<longrightarrow> obj_rebuild (S ! j) \<or> objChildren (S ! j) = []"
    then have jS: "j < length S" "obj_fresh S j" using j by (simp_all add: T)
    show "obj_fresh T j"
      unfolding T
    proof (rule add_constraint_fresh [OF parts jS])
      assume "i \<in> subtree S j"
      then have "constraints_added S T j"
        unfolding constraints_added_def T by (rule rev_bexI) (use grows constrain(3) in simp)
      then show "obj_rebuild (S ! j) \<or> objChildren (S ! j) = []" using quiet by blast
    qed (simp add: gen_isChanged_def m(2))
  qed
  moreover have "objs_parts F d reg breg vcon T" unfolding T by (rule set_own_parts [OF parts g]) (use m(2) in simp)
  ultimately show ?thesis using constrain(1) vcon by simp
next
  case (enable i name)
  have "manager_sorted d vcon (constr_mng (own (S ! i)))" using objs_partsD(3) [OF parts enable(4)] by (simp add: generator_parts_def)
  note e = enable_sorted [OF this, of name]
  note g = toggle_generator [OF objs_partsD(3) [OF parts enable(4)] e(1) e(3)]
  have "T = (let g = (own (S ! i))\<lparr>constr_mng := snd (enableConstraint name (constr_mng (own (S ! i))))\<rparr>
      in if gen_isChanged g then request_rebuild i (set_own i g S) else set_own i g S)"
    using enable by (simp add: enable_constraint_def gen_enableConstraint_def Let_def split: prod.splits)
  note T = this [unfolded Let_def]
  note ok = toggle_ok [OF parts enable(4) g, folded T]
  have "\<forall>j<length T. stays_fresh S T j" using ok(2,3) by (simp add: stays_fresh_def)
  then show ?thesis using ok(1) enable vcon by blast
next
  case (disable i name)
  have "manager_sorted d vcon (constr_mng (own (S ! i)))" using objs_partsD(3) [OF parts disable(4)] by (simp add: generator_parts_def)
  note e = enable_sorted [OF this, of name]
  note g = toggle_generator [OF objs_partsD(3) [OF parts disable(4)] e(2) e(4)]
  have "T = (let g = (own (S ! i))\<lparr>constr_mng := snd (disableConstraint name (constr_mng (own (S ! i))))\<rparr>
      in if gen_isChanged g then request_rebuild i (set_own i g S) else set_own i g S)"
    using disable by (simp add: disable_constraint_def gen_disableConstraint_def Let_def split: prod.splits)
  note T = this [unfolded Let_def]
  note ok = toggle_ok [OF parts disable(4) g, folded T]
  have "\<forall>j<length T. stays_fresh S T j" using ok(2,3) by (simp add: stays_fresh_def)
  then show ?thesis using ok(1) disable vcon by blast
next
  case (next_values i b)
  obtain n m r where s: "s = (n, m, r)" by (cases s) auto
  obtain b1 m1 r1 where base: "gen_base_children S i (m, r) = (b1, m1, r1)" by (cases "gen_base_children S i (m, r)") auto
  have T: "objs_parts F d reg breg vcon T" "kept S T"
    using obj_next_ok [OF parts vcon next_values(2,3) base, of vbm n] next_values(4) s by auto
  then have "\<forall>j<length T. stays_fresh S T j" by (simp add: stays_fresh_def kept_def same_tree_def)
  then show ?thesis using T(1) next_values(1) vcon by blast
next
  case (next_coverage i b)
  obtain n m r where s: "s = (n, m, r)" by (cases s) auto
  have T: "objs_parts F d reg breg vcon T" "kept S T"
    using obj_next_cov_ok [OF parts vcon next_coverage(2,3), of vbm n m r] next_coverage(4) s by auto
  then have "\<forall>j<length T. stays_fresh S T j" by (simp add: stays_fresh_def kept_def same_tree_def)
  then show ?thesis using T(1) next_coverage(1) vcon by blast
qed (use parts vcon in \<open>simp add: stays_fresh_def\<close>)

lemma obj_reachable_ok:
  fixes vcon0 :: "('m, 'r) container"
  assumes "(obj_step F vbm d)\<^sup>*\<^sup>* (vcon0, [], s0) (vcon, S, s)" and "container_ok d vcon0"
  shows "objs_parts F d reg breg vcon S \<and> container_ok d vcon"
proof -
  have "objs_parts F d reg breg (fst y) (fst (snd y)) \<and> container_ok d (fst y)" if "(obj_step F vbm d)\<^sup>*\<^sup>* (vcon0, [], s0) y" for y
    using that
  proof (induction rule: rtranclp_induct)
    case base
    then show ?case using assms(2) by (simp add: objs_parts_def tree_ok_def)
  next
    case (step y z)
    obtain v1 S1 s1 v2 S2 s2 where yz: "y = (v1, S1, s1)" "z = (v2, S2, s2)" by (cases y; cases z) auto
    show ?case using obj_step_ok [OF step(2) [unfolded yz]] step(3) by (simp add: yz)
  qed
  from this [OF assms(1)] show ?thesis by simp
qed

end

section \<open>Values of an object\<close>

definition hards_below :: "('v, 'm, 'r, 'w) objects \<Rightarrow> nat \<Rightarrow> node set" where
  "hards_below S i = (\<Union>j\<in>subtree S i. enabled_hards (constr_mng (own (S ! j))))"

definition softs_below :: "('v, 'm, 'r, 'w) objects \<Rightarrow> nat \<Rightarrow> node set" where
  "softs_below S i = (\<Union>j\<in>subtree S i. enabled_softs (constr_mng (own (S ! j))))"

definition reads_below :: "('m, 'r) container \<Rightarrow> ('v, 'm, 'r, 'w) objects \<Rightarrow> nat \<Rightarrow> 'm \<Rightarrow> node set" where
  "reads_below vcon S i m = (\<Union>j\<in>subtree S i. assumed_reads vcon (constr_mng (own (S ! j))) m)"

lemma below_managers:
  assumes "tree_ok S" and "i < length S"
  shows "hards_below S i = (\<Union>mng\<in>set (obj_managers S i). enabled_hards mng)"
    "softs_below S i = (\<Union>mng\<in>set (obj_managers S i). enabled_softs mng)"
    "reads_below vcon S i m = (\<Union>mng\<in>set (obj_managers S i). assumed_reads vcon mng m)"
  by (simp_all add: obj_managers_set [OF assms] hards_below_def softs_below_def reads_below_def)

text \<open>C2: random objects. A program builds a tree of random objects without vector children, adds well-sorted
  scalar constraints to them, enables and disables constraints anywhere in the tree and solves objects, in any
  order. In every state it reaches, \<open>next\<close> of an object with fewer than \<open>2 ^ 32\<close> enabled constraints at and
  below it returns, whatever was added before. If the object is fresh, that is, it waits to be rebuilt or its
  partitions are those of all constraints at and below it, then it is fresh afterwards; a true result means
  that the values left in the memory belong to one assignment that satisfies every enabled hard constraint of
  the object and of all objects below it, together with the values that are only read; and the result is true
  whenever the children that are not objects succeed (\<open>b1\<close>) and all enabled constraints, soft ones included,
  have a solution. Which steps keep an object fresh is the next property.\<close>

theorem rand_obj_next:
  assumes F: "sat_factory F d" and start: "container_ok d vcon0"
    and reach: "(obj_step F vbm d)\<^sup>*\<^sup>* (vcon0, [], s0) (vcon, S, (n, m, r))"
    and i: "i < length S" and len: "length (scalars (obj_managers S i)) < 2 ^ 32"
    and base: "gen_base_children S i (m, r) = (b1, m1, r1)"
  shows "\<exists>b T m' r'. obj_next F vcon vbm i S (n, m, r) = Inr (b, T, n, m', r') \<and>
    (obj_fresh S i \<longrightarrow> obj_fresh T i \<and>
      (b \<longrightarrow> b1 \<and> (\<exists>\<rho>\<in>models d (hards_below S i \<union> reads_below vcon S i m').
          stored vcon \<rho> (hards_below S i \<union> reads_below vcon S i m') m')) \<and>
      (b1 \<and> models d (hards_below S i \<union> softs_below S i \<union> reads_below vcon S i m1) \<noteq> {} \<longrightarrow> b))"
proof -
  obtain breg where G: "good_factory F d (sat_reg d) breg" using sat_factory_good [OF F] by blast
  have parts: "objs_parts F d (sat_reg d) breg vcon S" and vcon: "container_ok d vcon"
    using good_factory.obj_reachable_ok [OF G reach start] by simp_all
  note tree = objs_partsD(1) [OF parts]
  define N where "N = good_factory.solved_nodes F d vcon (obj_managers S i) m1"
  note bounds = solved_nodes_bounds [OF G managers_below [OF parts i len], of m1, folded below_managers [OF tree i] N_def]
  obtain b T m' r' where run: "obj_next F vcon vbm i S (n, m, r) = Inr (b, T, n, m', r')" and T: "kept S T"
    and sol: "obj_fresh S i \<longrightarrow> (\<forall>(i, e)\<in>set (read_references vcon). e m' = e m1) \<and>
      (if \<not> b1 then \<not> b else if b then \<exists>\<rho>\<in>models d N. stored vcon \<rho> N m' else models d N = {})"
    using good_factory.obj_next_ok [OF G parts vcon i len base, of vbm n] unfolding N_def by blast
  have "obj_fresh T i \<and> (b \<longrightarrow> b1 \<and> (\<exists>\<rho>\<in>models d (hards_below S i \<union> reads_below vcon S i m').
          stored vcon \<rho> (hards_below S i \<union> reads_below vcon S i m') m')) \<and>
      (b1 \<and> models d (hards_below S i \<union> softs_below S i \<union> reads_below vcon S i m1) \<noteq> {} \<longrightarrow> b)" if fresh: "obj_fresh S i"
  proof (intro conjI impI)
    show "obj_fresh T i" using T fresh i by (simp add: kept_def)
    have "assumed_reads vcon mng m' = assumed_reads vcon mng m1" for mng
      unfolding assumed_reads_def by (rule image_cong [OF refl]) (use sol fresh in \<open>auto simp: ref_node_def\<close>)
    then have R: "reads_below vcon S i m' = reads_below vcon S i m1" by (simp add: reads_below_def)
    assume b: b
    show b1: b1 using sol fresh b by (cases b1) simp_all
    obtain \<rho> where "\<rho> \<in> models d N" "stored vcon \<rho> N m'" using sol fresh b b1 by auto
    then show "\<exists>\<rho>\<in>models d (hards_below S i \<union> reads_below vcon S i m'). stored vcon \<rho> (hards_below S i \<union> reads_below vcon S i m') m'"
      using models_mono [OF bounds(1), of d] bounds(1) unfolding R stored_def by blast
  next
    assume "b1 \<and> models d (hards_below S i \<union> softs_below S i \<union> reads_below vcon S i m1) \<noteq> {}"
    then show b using sol fresh models_mono [OF bounds(2), of d] by (cases b) auto
  qed
  then show ?thesis using run by blast
qed

text \<open>C3: an object is fresh when it is constructed, and every step of a program keeps a fresh object fresh,
  except one: adding a constraint at or below an object that does not wait to be rebuilt and has objects below
  it. Enabling and disabling constraints, new objects and solving any object of the tree keep it.\<close>

theorem objects_stay_fresh:
  assumes F: "sat_factory F d" and start: "container_ok d vcon0"
    and reach: "(obj_step F vbm d)\<^sup>*\<^sup>* (vcon0, [], s0) (vcon, S, s)" and step: "obj_step F vbm d (vcon, S, s) (vcon', T, s')"
    and j: "j < length T" and old: "j < length S \<Longrightarrow> obj_fresh S j"
    and quiet: "constraints_added S T j \<Longrightarrow> obj_rebuild (S ! j) \<or> objChildren (S ! j) = []"
  shows "obj_fresh T j"
proof -
  obtain breg where G: "good_factory F d (sat_reg d) breg" using sat_factory_good [OF F] by blast
  have "objs_parts F d (sat_reg d) breg vcon S" "container_ok d vcon"
    using good_factory.obj_reachable_ok [OF G reach start] by simp_all
  then have "stays_fresh S T j" using good_factory.obj_step_ok [OF G step] j by blast
  then show ?thesis using old quiet by (simp add: stays_fresh_def)
qed

text \<open>A child with the constraint that its first variable is less than the second; its parent is solved.\<close>

definition demo_objects :: "((sat_clause, lit) meta \<times> (lit \<Rightarrow> bool), nat \<Rightarrow> 4 word, nat, unit) objects" where
  "demo_objects =
     [\<lparr>own = Generator 0, baseChildren = [], objChildren = [1], obj_parent = None, obj_rebuild = True\<rparr>,
      \<lparr>own = demo_generator, baseChildren = [], objChildren = [], obj_parent = Some 0, obj_rebuild = False\<rparr>]"

lemma demo_subtree: "subtree demo_objects 0 = {0, 1}"
proof -
  have "subtree demo_objects 1 = {1}" by (subst subtree_eq) (simp add: demo_objects_def)
  then show ?thesis by (subst subtree_eq) (simp add: demo_objects_def)
qed

definition demo_unconstrained :: "((sat_clause, lit) meta \<times> (lit \<Rightarrow> bool), nat \<Rightarrow> 4 word, nat, unit) objects" where
  "demo_unconstrained =
     [\<lparr>own = Generator 0, baseChildren = [], objChildren = [1], obj_parent = None, obj_rebuild = True\<rparr>,
      \<lparr>own = Generator 1, baseChildren = [], objChildren = [], obj_parent = Some 0, obj_rebuild = False\<rparr>]"

lemma demo_objects_built:
  "(obj_step demo_factory vbm (\<lambda>_. SBits 4))\<^sup>*\<^sup>* (demo_container, [], s) (demo_container, demo_unconstrained, s)"
proof -
  let ?step = "obj_step demo_factory vbm (\<lambda>_. SBits 4)"
  let ?S1 = "[\<lparr>own = Generator 0, baseChildren = [], objChildren = [], obj_parent = None, obj_rebuild = False\<rparr>]"
  have 1: "?step (demo_container, [], s) (demo_container, snd (new_rand_obj 0 None []), s)" by (rule obj_step.new_object) simp
  have 2: "?step (demo_container, ?S1, s) (demo_container, snd (new_rand_obj 1 (Some 0) ?S1), s)" by (rule obj_step.new_object) simp
  show ?thesis
    using 1 2
    by (simp add: new_rand_obj_def add_obj_child_def request_rebuild.simps update_obj_def demo_unconstrained_def)
qed

lemma demo_objects_step:
  "obj_step demo_factory vbm (\<lambda>_. SBits 4) (demo_container, demo_unconstrained, s) (demo_container, demo_objects, s)"
proof (rule obj_step.constrain [of 1])
  show "fixWidth demo_less = Inr demo_less"
    by (simp add: fixWidth_fixed demo_less_def fix_binop_def fix_operands_def Let_def)
  show "constraint_sorted (\<lambda>_. SBits 4) demo_less"
    by (simp add: constraint_sorted_def demo_less_def term_sort_def isBool_def)
  show "node_vars demo_less \<subseteq> dom (variables demo_container)" by (simp add: demo_less_def demo_container_def new_container_def)
  show "obj_constraint 1 ''c'' 1 demo_less False False demo_unconstrained = Inr demo_objects"
    by (simp add: obj_constraint_def demo_generator_made(1) [unfolded One_nat_def] update_obj_def demo_objects_def demo_unconstrained_def)
qed (simp_all add: Generator_def new_manager_def demo_unconstrained_def)

lemma demo_objects_reach:
  "(obj_step demo_factory vbm (\<lambda>_. SBits 4))\<^sup>*\<^sup>* (demo_container, [], s) (demo_container, demo_objects, s)"
  using demo_objects_built demo_objects_step by (rule rtranclp.rtrancl_into_rtrancl)

theorem objects_stay_fresh_witness: "obj_fresh demo_objects 0"
  by (rule objects_stay_fresh [OF demo_factory_sat demo_container_ok demo_objects_built demo_objects_step])
    (simp_all add: demo_objects_def demo_unconstrained_def obj_fresh_def)

theorem rand_obj_next_witness:
  "\<exists>T m' r'. obj_next demo_factory demo_container Map.empty 0 demo_objects (10, \<lambda>_. 0, 0) = Inr (True, T, 10, m', r') \<and>
     (\<exists>\<rho>\<in>models (\<lambda>_. SBits 4) {demo_less}. stored demo_container \<rho> {demo_less} m')"
proof -
  have sets: "hards_below demo_objects 0 = {demo_less}" "softs_below demo_objects 0 = {}" "reads_below demo_container demo_objects 0 m = {}" for m
    unfolding hards_below_def softs_below_def reads_below_def demo_subtree
    using demo_generator_made(2,3) demo_reads
    by (simp_all add: demo_objects_def) (simp_all add: Generator_def new_manager_def enabled_hards_def enabled_softs_def)
  have len: "length (scalars (obj_managers demo_objects 0)) < 2 ^ 32"
  proof -
    obtain c mng where mk: "makeConstraint ''c'' 1 demo_less False False (new_manager 1) = Inr (c, mng)"
      and g: "(Generator 1)\<lparr>constr_mng := mng\<rparr> = demo_generator"
      using demo_generator_made(1) by (auto simp: gen_constraint_def rbind_eq_Inr makeConstraint_expr_def
          fixWidth_fixed demo_less_def fix_binop_def fix_operands_def Let_def Generator_def)
    have "constr_mng demo_generator = mng" by (simp flip: g)
    then have "length (mng_constraints (constr_mng demo_generator)) = 1"
      using makeConstraint_InrD [OF mk] by (auto simp: Generator_def new_manager_def)
    moreover have "obj_managers demo_objects 0 = [constr_mng demo_generator, new_manager 0]"
      by (simp add: demo_objects_def obj_managers.simps below_def Generator_def)
    ultimately show ?thesis
      using length_filter_le [of "\<lambda>c. con_enabled c \<and> \<not> isVectorConstraint c" "mng_constraints (constr_mng demo_generator)"]
      by (simp add: scalars_def new_manager_def)
  qed
  have base: "gen_base_children demo_objects 0 (m, r) = (True, m, r)" for m r
    by (simp add: demo_objects_def gen_base_children.simps below_def)
  note next' = rand_obj_next [OF demo_factory_sat demo_container_ok demo_objects_reach _ len base, where vbm = Map.empty and n = 10 and m = "\<lambda>_. 0" and r = 0,
    unfolded sets Un_empty_right]
  have "obj_fresh demo_objects 0" by (simp add: obj_fresh_def demo_objects_def)
  then show ?thesis using next' demo_solvable by (auto simp: demo_objects_def)
qed

end
