(* ===== verification/Frontend.thy ===== *)
theory Frontend
  imports VarSolverCorrect
begin

text \<open>
  The front end (\<open>Context.hpp\<close> over the expression templates of \<open>Operators.hpp\<close>, \<open>Variable.hpp\<close>,
  \<open>ReadReference.hpp\<close>, \<open>WriteReference.hpp\<close>, \<open>VectorConstraint.hpp\<close> and \<open>PlaceHolder.hpp\<close>): how the
  expression a constraint is written as becomes a tree of nodes, and which variables and references of the
  container come with it. An expression template is a value of a datatype whose terminals carry what their
  tags carry. The state is the container and the counter of \<open>new_var_id\<close>. C++ leaves open in which order
  the arguments of a call are evaluated: \<open>lr\<close> is the order the compiler chose.
\<close>

section \<open>Expression templates\<close>

text \<open>The two classes of variables the special operators take; the type is the traits of \<open>value_type\<close>.\<close>

datatype ('m, 'r) var_term =
    Variable nat itype
  | WriteReference nat itype "('m, 'r) assign_result"

fun var_id :: "('m, 'r) var_term \<Rightarrow> nat" where
  "var_id (Variable i T) = i"
| "var_id (WriteReference i T ar) = i"

fun var_type :: "('m, 'r) var_term \<Rightarrow> itype" where
  "var_type (Variable i T) = T"
| "var_type (WriteReference i T ar) = T"

datatype unary_tag = negate | complement | logical_not | operator_unique

datatype binary_tag =
    equal_to | not_equal_to | less_equal | less | greater | greater_equal
  | logical_and | logical_or | bitwise_and | bitwise_or | bitwise_xor
  | plus | minus | modulus | divides | shift_left | shift_right | multiplies
  | operator_foreach | subscript

text \<open>
  A value is an integer of its type. \<open>operator_dist\<close> takes ranges of any integral type but \<open>bool\<close>, whose
  distribution is a probability: what it draws is a function of the random source.
\<close>

datatype ('m, 'r) expr =
    Var "('m, 'r) var_term"
  | Vector nat itype
  | placeholder nat
  | Node_terminal node
  | read_ref nat itype "'m \<Rightarrow> const_t"
  | Value itype int
  | Unary unary_tag "('m, 'r) expr"
  | Binary binary_tag "('m, 'r) expr" "('m, 'r) expr"
  | if_then "('m, 'r) expr" "('m, 'r) expr"
  | if_then_else "('m, 'r) expr" "('m, 'r) expr" "('m, 'r) expr"
  | operator_inside "('m, 'r) var_term" "int list"
  | operator_dist "('m, 'r) var_term" itype distribution
  | operator_dist_bool "('m, 'r) var_term" "'r \<Rightarrow> bool \<times> 'r"
  | operator_bitslice int int "('m, 'r) var_term"

section \<open>Terminals\<close>

type_synonym ('m, 'r) context_state = "('m, 'r) container \<times> nat"

definition crave_new_var_id :: "nat \<Rightarrow> nat \<times> nat" where
  "crave_new_var_id var_ID = (var_ID + 1, var_ID + 1)"

definition new_var :: "nat \<Rightarrow> itype \<Rightarrow> ('m, 'r) container \<Rightarrow> node \<times> ('m, 'r) container" where
  "new_var i T ctn =
     (let n = VariableExpr i (it_width T) (it_sign T) in (n, ctn\<lparr>variables := (variables ctn)(i \<mapsto> n)\<rparr>))"

definition var_terminal :: "nat \<Rightarrow> itype \<Rightarrow> ('m, 'r) container \<Rightarrow> node \<times> ('m, 'r) container" where
  "var_terminal i T ctn = (case variables ctn i of Some n \<Rightarrow> (n, ctn) | None \<Rightarrow> new_var i T ctn)"

definition write_ref_terminal ::
    "nat \<Rightarrow> itype \<Rightarrow> ('m, 'r) assign_result \<Rightarrow> ('m, 'r) container \<Rightarrow> node \<times> ('m, 'r) container" where
  "write_ref_terminal i T ar ctn =
     (case variables ctn i of
        Some n \<Rightarrow> (n, ctn)
      | None \<Rightarrow> let (var, ctn) = new_var i T ctn
          in (var, ctn\<lparr>write_references := write_references ctn @ [(i, ar)]\<rparr>))"

definition read_ref_terminal ::
    "nat \<Rightarrow> itype \<Rightarrow> ('m \<Rightarrow> const_t) \<Rightarrow> ('m, 'r) container \<Rightarrow> node \<times> ('m, 'r) container" where
  "read_ref_terminal i T ref ctn =
     (case variables ctn i of
        Some n \<Rightarrow> (n, ctn)
      | None \<Rightarrow> let (var, ctn) = new_var i T ctn
          in (var, ctn\<lparr>read_references := read_references ctn @ [(i, ReferenceExpressionImpl ref var)]\<rparr>))"

definition vector_terminal :: "nat \<Rightarrow> itype \<Rightarrow> ('m, 'r) container \<Rightarrow> node \<times> ('m, 'r) container" where
  "vector_terminal i T ctn =
     (case vector_variables ctn i of
        Some n \<Rightarrow> (n, ctn)
      | None \<Rightarrow> let vec = VectorExpr i (it_width T) (it_sign T)
          in (vec, ctn\<lparr>vector_variables := (vector_variables ctn)(i \<mapsto> vec)\<rparr>))"

fun var_term_node :: "('m, 'r) var_term \<Rightarrow> ('m, 'r) container \<Rightarrow> node \<times> ('m, 'r) container" where
  "var_term_node (Variable i T) ctn = var_terminal i T ctn"
| "var_term_node (WriteReference i T ar) ctn = write_ref_terminal i T ar ctn"

text \<open>
  A value that is not negative becomes an unsigned constant of the fewest bits, less than those of its
  type, that hold it.
\<close>

definition new_value :: "itype \<Rightarrow> int \<Rightarrow> const_t" where
  "new_value T i =
     (let width = it_width T; sign = it_sign T
      in if i \<ge> 0 then
           (case find (\<lambda>j. i div 2 ^ j = 0) [1..<width] of
              Some j \<Rightarrow> Constant (word_of_int i) j False
            | None \<Rightarrow> Constant (word_of_int i) width sign)
         else Constant (word_of_int i) width sign)"

section \<open>Special operators\<close>

definition context_inside ::
    "(int \<Rightarrow> int \<Rightarrow> 'r \<Rightarrow> int \<times> 'r) \<Rightarrow> ('m, 'r) var_term \<Rightarrow> int list \<Rightarrow> ('m, 'r) context_state \<Rightarrow>
     (node \<times> ('m, 'r) context_state) result" where
  "context_inside uni var_term c = (\<lambda>(ctn, k).
     let T = var_type var_term; width = it_width T; sign = it_sign T;
       constants = fold (\<lambda>i. insert_constant (Constant (word_of_int i) width sign)) c []
     in rbind (addRanges (map (\<lambda>i. weighted_value i 1) c) []) (\<lambda>dist.
       let (i, k) = crave_new_var_id k;
         (tmp_var, ctn) = new_var i T ctn;
         ctn = ctn\<lparr>dist_references := dist_references ctn @ [(i, DistReferenceExpr uni T dist tmp_var)]\<rparr>;
         (n, ctn) = var_term_node var_term ctn;
         val_equal_tmp = BinaryOperator EqualOpr n tmp_var;
         tmp_inside = Inside tmp_var constants;
         ctn = ctn\<lparr>dist_ref_to_var_map := (dist_ref_to_var_map ctn)(i \<mapsto> var_id var_term)\<rparr>
       in Inr (BinaryOperator LogicalAndOpr val_equal_tmp tmp_inside, ctn, k)))"

definition in_range_node :: "itype \<Rightarrow> node \<Rightarrow> weighted_range \<Rightarrow> node" where
  "in_range_node T tmp_var r =
     (let left = ConstantExpr (Constant (word_of_int (left_of r)) (it_width T) (it_sign T));
        right = ConstantExpr (Constant (word_of_int (right_of r)) (it_width T) (it_sign T))
      in BinaryOperator LogicalAndOpr (BinaryOperator LessEqualOpr left tmp_var) (BinaryOperator LessEqualOpr tmp_var right))"

fun in_ranges_node :: "itype \<Rightarrow> node \<Rightarrow> weighted_range list \<Rightarrow> node option \<Rightarrow> node option" where
  "in_ranges_node T tmp_var [] in_ranges = in_ranges"
| "in_ranges_node T tmp_var (r # rs) in_ranges =
     (let in_range = in_range_node T tmp_var r;
        tmp = (case in_ranges of Some n \<Rightarrow> BinaryOperator LogicalOrOpr n in_range | None \<Rightarrow> in_range)
      in in_ranges_node T tmp_var rs (Some tmp))"

text \<open>\<open>ref_expr\<close> makes the \<open>DistReferenceExpr\<close> of the temporary variable, \<open>ranges\<close> are those of the distribution.\<close>

definition context_dist ::
    "(node \<Rightarrow> ('m, 'r) reference_expression) \<Rightarrow> itype \<Rightarrow> weighted_range list \<Rightarrow> ('m, 'r) var_term \<Rightarrow> ('m, 'r) context_state \<Rightarrow>
     (node \<times> ('m, 'r) context_state) result" where
  "context_dist ref_expr T ranges var_term = (\<lambda>(ctn, k).
     let (i, k) = crave_new_var_id k;
       (tmp_var, ctn) = new_var i T ctn;
       ctn = ctn\<lparr>dist_references := dist_references ctn @ [(i, ref_expr tmp_var)]\<rparr>;
       in_ranges = in_ranges_node T tmp_var ranges None;
       (n, ctn) = var_term_node var_term ctn;
       var_equal_tmp = BinaryOperator EqualOpr n tmp_var;
       ctn = ctn\<lparr>dist_ref_to_var_map := (dist_ref_to_var_map ctn)(i \<mapsto> var_id var_term)\<rparr>
     in case in_ranges of
          Some rs \<Rightarrow> Inr (BinaryOperator LogicalAndOpr var_equal_tmp rs, ctn, k)
        | None \<Rightarrow> Inr (var_equal_tmp, ctn, k))"

text \<open>The distribution of \<open>bool\<close> has no ranges and draws from a Bernoulli distribution.\<close>

definition bool_type :: itype where
  "bool_type = \<lparr>it_width = 1, it_sign = True\<rparr>"

definition DistReferenceExpr_bool :: "('r \<Rightarrow> bool \<times> 'r) \<Rightarrow> node \<Rightarrow> ('m, 'r) reference_expression" where
  "DistReferenceExpr_bool bernoulli expr = (\<lambda>m r. let (b, r) = bernoulli r
     in Inr (BinaryOperator EqualOpr expr (ConstantExpr (Constant (of_bool b) (it_width bool_type) (it_sign bool_type))), r))"

text \<open>The bounds are read as \<open>unsigned int\<close> in the overload for write references, as \<open>unsigned long\<close> in the other.\<close>

fun slice_bound :: "('m, 'r) var_term \<Rightarrow> int \<Rightarrow> int" where
  "slice_bound (WriteReference i T ar) b = b mod 2 ^ 32"
| "slice_bound (Variable i T) b = b mod 2 ^ 64"

definition context_bitslice ::
    "int \<Rightarrow> int \<Rightarrow> ('m, 'r) var_term \<Rightarrow> ('m, 'r) context_state \<Rightarrow> (node \<times> ('m, 'r) context_state) result" where
  "context_bitslice r l var_term = (\<lambda>(ctn, k).
     let rb = slice_bound var_term r; lb = slice_bound var_term l
     in if rb < lb \<or> rb \<ge> int (it_width (var_type var_term)) then Inl (RuntimeError ''Invalid range of bitslice'')
        else let (n, ctn) = var_term_node var_term ctn in Inr (Bitslice n rb lb, ctn, k))"

section \<open>Evaluation\<close>

fun unary_node :: "unary_tag \<Rightarrow> node \<Rightarrow> node" where
  "unary_node negate e = UnaryOperator NegOpr e"
| "unary_node complement e = UnaryOperator ComplementOpr e"
| "unary_node logical_not e = UnaryOperator NotOpr e"
| "unary_node operator_unique e = UnaryOperator Unique e"

fun binary_node :: "binary_tag \<Rightarrow> node \<Rightarrow> node \<Rightarrow> node" where
  "binary_node equal_to a b = BinaryOperator EqualOpr a b"
| "binary_node not_equal_to a b = BinaryOperator NotEqualOpr a b"
| "binary_node less_equal a b = BinaryOperator LessEqualOpr a b"
| "binary_node less a b = BinaryOperator LessOpr a b"
| "binary_node greater a b = BinaryOperator GreaterOpr a b"
| "binary_node greater_equal a b = BinaryOperator GreaterEqualOpr a b"
| "binary_node logical_and a b = BinaryOperator LogicalAndOpr a b"
| "binary_node logical_or a b = BinaryOperator LogicalOrOpr a b"
| "binary_node bitwise_and a b = BinaryOperator AndOpr a b"
| "binary_node bitwise_or a b = BinaryOperator OrOpr a b"
| "binary_node bitwise_xor a b = BinaryOperator XorOpr a b"
| "binary_node plus a b = BinaryOperator PlusOpr a b"
| "binary_node minus a b = BinaryOperator MinusOpr a b"
| "binary_node modulus a b = BinaryOperator ModuloOpr a b"
| "binary_node divides a b = BinaryOperator DevideOpr a b"
| "binary_node shift_left a b = BinaryOperator ShiftLeftOpr a b"
| "binary_node shift_right a b = BinaryOperator ShiftRightOpr a b"
| "binary_node multiplies a b = BinaryOperator MultipliesOpr a b"
| "binary_node operator_foreach a b = BinaryOperator ForEach a b"
| "binary_node subscript a b = VectorAccess a b"

text \<open>Two arguments of a call, in the order of the compiler.\<close>

definition both :: "bool \<Rightarrow> ('s \<Rightarrow> ('a \<times> 's) result) \<Rightarrow> ('s \<Rightarrow> ('b \<times> 's) result) \<Rightarrow> 's \<Rightarrow> (('a \<times> 'b) \<times> 's) result" where
  "both lr f g s =
     (if lr then rbind (f s) (\<lambda>(a, s). rbind (g s) (\<lambda>(b, s). Inr ((a, b), s)))
      else rbind (g s) (\<lambda>(b, s). rbind (f s) (\<lambda>(a, s). Inr ((a, b), s))))"

primrec context_eval ::
    "bool \<Rightarrow> (int \<Rightarrow> int \<Rightarrow> 'r \<Rightarrow> int \<times> 'r) \<Rightarrow> ('m, 'r) expr \<Rightarrow> ('m, 'r) context_state \<Rightarrow> (node \<times> ('m, 'r) context_state) result" where
  "context_eval lr uni (Var v) = (\<lambda>(ctn, k). let (n, ctn) = var_term_node v ctn in Inr (n, ctn, k))"
| "context_eval lr uni (Vector i T) = (\<lambda>(ctn, k). let (n, ctn) = vector_terminal i T ctn in Inr (n, ctn, k))"
| "context_eval lr uni (placeholder i) = (\<lambda>s. Inr (Placeholder i, s))"
| "context_eval lr uni (Node_terminal n) = (\<lambda>s. Inr (n, s))"
| "context_eval lr uni (read_ref i T ref) = (\<lambda>(ctn, k). let (n, ctn) = read_ref_terminal i T ref ctn in Inr (n, ctn, k))"
| "context_eval lr uni (Value T i) = (\<lambda>s. Inr (ConstantExpr (new_value T i), s))"
| "context_eval lr uni (Unary t e) = (\<lambda>s. rbind (context_eval lr uni e s) (\<lambda>(n, s). Inr (unary_node t n, s)))"
| "context_eval lr uni (Binary t e1 e2) = (\<lambda>s.
     rbind (both lr (context_eval lr uni e1) (context_eval lr uni e2) s) (\<lambda>((n1, n2), s). Inr (binary_node t n1 n2, s)))"
| "context_eval lr uni (if_then e1 e2) = (\<lambda>s.
     rbind (both lr (context_eval lr uni e1) (context_eval lr uni e2) s) (\<lambda>((n1, n2), s).
       Inr (IfThenElse n1 n2 (ConstantExpr (Constant_bool True)), s)))"
| "context_eval lr uni (if_then_else e1 e2 e3) = (\<lambda>s.
     rbind (both lr (context_eval lr uni e1) (both lr (context_eval lr uni e2) (context_eval lr uni e3)) s)
       (\<lambda>((n1, n2, n3), s). Inr (IfThenElse n1 n2 n3, s)))"
| "context_eval lr uni (operator_inside v c) = context_inside uni v c"
| "context_eval lr uni (operator_dist v T rs) = context_dist (DistReferenceExpr uni T rs) T rs v"
| "context_eval lr uni (operator_dist_bool v ber) = context_dist (DistReferenceExpr_bool ber) bool_type [] v"
| "context_eval lr uni (operator_bitslice r l v) = context_bitslice r l v"

end
