(* ===== verification/FrontendCorrect.thy ===== *)
theory FrontendCorrect
  imports Frontend VisitorSat
begin

text \<open>
  What the front end keeps of the container: every variable is declared once, with a width the solver can
  take, every reference belongs to a declared variable of its sort, and expressions only mention declared
  variables. And what the operators \<open>inside\<close> and \<open>dist\<close> mean, which constrain a temporary variable.
\<close>

section \<open>The invariant of the container\<close>

text \<open>The references of the program: what writes and what reads the value of a variable.\<close>

record ('m, 'r) program =
  pg_write :: "nat \<rightharpoonup> ('m, 'r) assign_result"
  pg_read :: "nat \<rightharpoonup> ('m \<Rightarrow> const_t)"

definition program_ok :: "('m, 'r) program \<Rightarrow> bool" where
  "program_ok P \<longleftrightarrow>
     (\<forall>i j a b. pg_write P i = Some a \<longrightarrow> pg_write P j = Some b \<longrightarrow> i \<noteq> j \<longrightarrow> separate a b) \<and>
     (\<forall>i j a get str m r. pg_write P i = Some a \<longrightarrow> pg_read P j = Some get \<longrightarrow> get (fst (ar_set_value a str m r)) = get m)"

definition usable_type :: "itype \<Rightarrow> bool" where
  "usable_type T \<longleftrightarrow> 0 < it_width T \<and> it_width T < 2 ^ 32"

definition type_sort :: "itype \<Rightarrow> smt_sort" where
  "type_sort T = term_sort (it_width T) (it_sign T)"

definition typed_var :: "nat \<Rightarrow> itype \<Rightarrow> node" where
  "typed_var i T = VariableExpr i (it_width T) (it_sign T)"

lemma usable_type_sort: "usable_type T \<Longrightarrow> solver_sort (type_sort T)"
  by (simp add: usable_type_def type_sort_def term_sort_def solver_sort_def)

definition writes_ok :: "('m, 'r) program \<Rightarrow> ('m, 'r) container \<Rightarrow> bool" where
  "writes_ok P ctn \<longleftrightarrow> distinct (map fst (write_references ctn)) \<and>
     (\<forall>(i, ar)\<in>set (write_references ctn). \<exists>T. variables ctn i = Some (typed_var i T) \<and> pg_write P i = Some ar \<and>
        assign_result ar (type_sort T))"

definition reads_ok :: "('m, 'r) program \<Rightarrow> ('m, 'r) container \<Rightarrow> bool" where
  "reads_ok P ctn \<longleftrightarrow>
     (\<forall>(i, e)\<in>set (read_references ctn). \<exists>T get. variables ctn i = Some (typed_var i T) \<and> pg_read P i = Some get \<and>
        e = ReferenceExpressionImpl get (typed_var i T) \<and> (\<forall>m. const_sort (get m) = type_sort T))"

definition draws :: "('m, 'r) reference_expression \<Rightarrow> nat \<Rightarrow> itype \<Rightarrow> bool" where
  "draws e i T \<longleftrightarrow> (\<forall>m r. \<exists>c r'. e m r = Inr (equal_const (typed_var i T) c, r') \<and> const_sort c = type_sort T)"

definition dists_ok :: "('m, 'r) container \<Rightarrow> bool" where
  "dists_ok ctn \<longleftrightarrow> (\<forall>(i, e)\<in>set (dist_references ctn). \<exists>T. variables ctn i = Some (typed_var i T) \<and> draws e i T)"

definition variables_ok :: "nat \<Rightarrow> ('m, 'r) container \<Rightarrow> bool" where
  "variables_ok k ctn \<longleftrightarrow> (\<forall>i n. variables ctn i = Some n \<longrightarrow> i \<le> k \<and> (\<exists>T. usable_type T \<and> n = typed_var i T)) \<and>
     (\<forall>i n. vector_variables ctn i = Some n \<longrightarrow> node_vars n = {i})"

lemma variables_okE:
  assumes "variables_ok k ctn" and "variables ctn i = Some n"
  obtains T where "i \<le> k" "usable_type T" "n = typed_var i T"
  using assms unfolding variables_ok_def by blast

definition well_formed :: "('m, 'r) program \<Rightarrow> ('m, 'r) context_state \<Rightarrow> bool" where
  "well_formed P s \<longleftrightarrow> (case s of (ctn, k) \<Rightarrow> variables_ok k ctn \<and> writes_ok P ctn \<and> reads_ok P ctn \<and> dists_ok ctn)"

definition dists_mapped :: "('m, 'r) container \<Rightarrow> bool" where
  "dists_mapped ctn \<longleftrightarrow> fst ` set (dist_references ctn) \<subseteq> dom (dist_ref_to_var_map ctn)"

definition known :: "('m, 'r) container \<Rightarrow> nat set" where
  "known ctn = dom (variables ctn) \<union> dom (vector_variables ctn)"

lemma writes_okE:
  assumes "writes_ok P ctn" and "(i, ar) \<in> set (write_references ctn)"
  obtains T where "variables ctn i = Some (typed_var i T)" "pg_write P i = Some ar" "assign_result ar (type_sort T)"
  using bspec [OF assms(1) [unfolded writes_ok_def, THEN conjunct2] assms(2)] by (simp only: prod.case) blast

lemma reads_okE:
  assumes "reads_ok P ctn" and "(i, e) \<in> set (read_references ctn)"
  obtains T get where "variables ctn i = Some (typed_var i T)" "pg_read P i = Some get"
    "e = ReferenceExpressionImpl get (typed_var i T)" "\<And>m. const_sort (get m) = type_sort T"
  using bspec [OF assms(1) [unfolded reads_ok_def] assms(2)] by (simp only: prod.case) blast

lemma dists_okE:
  assumes "dists_ok ctn" and "(i, e) \<in> set (dist_references ctn)"
  obtains T where "variables ctn i = Some (typed_var i T)" "draws e i T"
  using bspec [OF assms(1) [unfolded dists_ok_def] assms(2)] by (simp only: prod.case) blast

text \<open>The sorts the container declares.\<close>

definition declared :: "('m, 'r) container \<Rightarrow> nat \<Rightarrow> smt_sort" where
  "declared ctn i = (case variables ctn i of Some (VariableExpr j b s) \<Rightarrow> term_sort b s | _ \<Rightarrow> SBool)"

lemma declared_typed: "variables ctn i = Some (typed_var i T) \<Longrightarrow> declared ctn i = type_sort T"
  by (simp add: declared_def typed_var_def type_sort_def)

lemma equal_typed_sorted:
  "usable_type T \<Longrightarrow> d i = type_sort T \<Longrightarrow> const_sort c = type_sort T \<Longrightarrow> constraint_sorted d (equal_const (typed_var i T) c)"
  unfolding typed_var_def by (rule equal_const_sorted) (simp_all add: type_sort_def usable_type_sort [unfolded type_sort_def])

lemma separate_program:
  "program_ok P \<Longrightarrow> pg_write P i = Some a \<Longrightarrow> pg_write P j = Some b \<Longrightarrow> i \<noteq> j \<Longrightarrow> separate a b"
  unfolding program_ok_def by blast

lemma program_frame:
  "program_ok P \<Longrightarrow> pg_write P i = Some a \<Longrightarrow> pg_read P j = Some get \<Longrightarrow> get (fst (ar_set_value a str m r)) = get m"
  unfolding program_ok_def by blast

lemma separate_writes:
  assumes P: "program_ok P" and "distinct (map fst ws)" and "\<forall>(i, ar)\<in>set ws. pg_write P i = Some ar"
  shows "sorted_wrt (\<lambda>(i, a) (j, b). i \<noteq> j \<and> separate a b \<and> separate b a) ws"
  using assms(2,3)
proof (induction ws)
  case (Cons w ws)
  obtain i a where w: "w = (i, a)" by (cases w)
  have "i \<noteq> j \<and> separate a b \<and> separate b a" if "(j, b) \<in> set ws" for j b
  proof -
    have ij: "i \<noteq> j" using Cons.prems(1) that w by force
    have "pg_write P i = Some a" "pg_write P j = Some b" using Cons.prems(2) that w by fastforce+
    then show ?thesis using separate_program [OF P] ij by metis
  qed
  then show ?case using Cons w by auto
qed simp

lemma well_formed_container:
  assumes P: "program_ok P" and wf: "well_formed P (ctn, k)" and map: "dists_mapped ctn"
  shows "container_ok (declared ctn) ctn"
proof -
  have vars: "variables_ok k ctn" and writes: "writes_ok P ctn" and reads: "reads_ok P ctn" and dists: "dists_ok ctn"
    using wf by (simp_all add: well_formed_def)
  have usable: "usable_type T" if "variables ctn i = Some (typed_var i T)" for i T
  proof -
    obtain T' where "usable_type T'" "typed_var i T = typed_var i T'" by (rule variables_okE [OF vars \<open>variables ctn i = _\<close>]) blast
    then show ?thesis by (simp add: typed_var_def usable_type_def)
  qed
  have 1: "variable_ok (declared ctn) i n" if v: "variables ctn i = Some n" for i n
  proof -
    obtain T where T: "usable_type T" "n = typed_var i T" using vars v unfolding variables_ok_def by blast
    then have "declared ctn i = type_sort T" using declared_typed v by blast
    then show ?thesis using usable_type_sort [OF T(1)] T(2) by (simp add: variable_ok_def typed_var_def type_sort_def)
  qed
  have 2: "assign_result ar (declared ctn i)" if mem: "(i, ar) \<in> set (write_references ctn)" for i ar
  proof -
    obtain T where T: "variables ctn i = Some (typed_var i T)" "assign_result ar (type_sort T)"
      using writes_okE [OF writes mem] by metis
    show ?thesis unfolding declared_typed [OF T(1)] by (rule T(2))
  qed
  have 3: "read_ref_ok (declared ctn) i e" if mem: "(i, e) \<in> set (read_references ctn)" for i e
  proof -
    obtain T get where T: "variables ctn i = Some (typed_var i T)" "e = ReferenceExpressionImpl get (typed_var i T)"
      "\<And>m. const_sort (get m) = type_sort T"
      using reads_okE [OF reads mem] by metis
    have "constraint_sorted (declared ctn) (equal_const (typed_var i T) (get m))" for m
      by (rule equal_typed_sorted) (rule usable [OF T(1)] declared_typed [OF T(1)] T(3))+
    then show ?thesis by (simp add: read_ref_ok_def T(2) ReferenceExpressionImpl_def equal_const_def typed_var_def)
  qed
  have 4: "dist_ref_ok (declared ctn) e \<and> i \<in> dom (dist_ref_to_var_map ctn)" if mem: "(i, e) \<in> set (dist_references ctn)" for i e
  proof -
    obtain T where T: "variables ctn i = Some (typed_var i T)" "draws e i T"
      using dists_okE [OF dists mem] by metis
    have "dist_ref_ok (declared ctn) e"
      using T(2) equal_typed_sorted [of T "declared ctn" i, OF usable [OF T(1)] declared_typed [OF T(1)]]
      unfolding dist_ref_ok_def draws_def by blast
    then show ?thesis using map mem unfolding dists_mapped_def by force
  qed
  have dst: "distinct (map fst (write_references ctn))" using writes by (simp add: writes_ok_def)
  have wr: "pg_write P i = Some ar" if mem: "(i, ar) \<in> set (write_references ctn)" for i ar
    using writes_okE [OF writes mem] by metis
  have 5: "sorted_wrt (\<lambda>(i, a) (j, b). i \<noteq> j \<and> separate a b \<and> separate b a) (write_references ctn)"
    by (rule separate_writes [OF P]) (use dst wr in blast)+
  have 6: "e (fst (ar_set_value a str m r)) = e m"
    if mem: "(i, a) \<in> set (write_references ctn)" "(j, e) \<in> set (read_references ctn)" for i a j e str m r
  proof -
    obtain T get where T: "pg_read P j = Some get" "e = ReferenceExpressionImpl get (typed_var j T)"
      using reads_okE [OF reads mem(2)] by metis
    have "get (fst (ar_set_value a str m r)) = get m" by (rule program_frame [OF P wr [OF mem(1)] T(1)])
    then show ?thesis by (simp add: T(2) ReferenceExpressionImpl_def)
  qed
  have 1: "\<forall>i n. variables ctn i = Some n \<longrightarrow> variable_ok (declared ctn) i n" using 1 by blast
  have 2: "\<forall>(i, ar)\<in>set (write_references ctn). assign_result ar (declared ctn i)" using 2 by blast
  have 3: "\<forall>(i, e)\<in>set (read_references ctn). read_ref_ok (declared ctn) i e" using 3 by blast
  have 4: "\<forall>(i, e)\<in>set (dist_references ctn). dist_ref_ok (declared ctn) e \<and> i \<in> dom (dist_ref_to_var_map ctn)" using 4 by blast
  have 6: "\<forall>(i, a)\<in>set (write_references ctn). \<forall>(j, e)\<in>set (read_references ctn). \<forall>str m r. e (fst (ar_set_value a str m r)) = e m"
    using 6 by blast
  show ?thesis unfolding container_ok_def using 1 2 3 4 5 6 by (intro conjI)
qed

section \<open>What keeps it\<close>

definition grows :: "('m, 'r) program \<Rightarrow> ('m, 'r) context_state \<Rightarrow> ('m, 'r) context_state \<Rightarrow> bool" where
  "grows P s s' \<longleftrightarrow> well_formed P s' \<and> (dists_mapped (fst s) \<longrightarrow> dists_mapped (fst s')) \<and>
     variables (fst s) \<subseteq>\<^sub>m variables (fst s') \<and> known (fst s) \<subseteq> known (fst s') \<and> snd s \<le> snd s'"

lemma grows_refl: "well_formed P s \<Longrightarrow> grows P s s"
  by (simp add: grows_def)

lemma grows_trans: "grows P s t \<Longrightarrow> grows P t u \<Longrightarrow> grows P s u"
  unfolding grows_def by (meson map_le_trans order_trans)

text \<open>Declaring another variable keeps what is known of the others.\<close>

lemma new_var_well_formed:
  assumes "well_formed P (ctn, k)" and "variables ctn i = None" and "i \<le> k'" and "k \<le> k'" and "usable_type T"
  shows "well_formed P (snd (new_var i T ctn), k')" and "fst (new_var i T ctn) = typed_var i T"
    and "variables (snd (new_var i T ctn)) = (variables ctn)(i \<mapsto> typed_var i T)"
    and "variables ctn \<subseteq>\<^sub>m variables (snd (new_var i T ctn))"
proof -
  let ?c = "snd (new_var i T ctn)"
  have c: "?c = ctn\<lparr>variables := (variables ctn)(i \<mapsto> typed_var i T)\<rparr>" by (simp add: new_var_def Let_def typed_var_def)
  show "fst (new_var i T ctn) = typed_var i T" by (simp add: new_var_def Let_def typed_var_def)
  show v: "variables ?c = (variables ctn)(i \<mapsto> typed_var i T)" by (simp add: c)
  show le: "variables ctn \<subseteq>\<^sub>m variables ?c" using assms(2) unfolding v by (auto simp: map_le_def)
  have keep: "variables ctn j = Some n \<Longrightarrow> variables ?c j = Some n" for j n using le by (auto simp: map_le_def dom_def)
  have 1: "variables_ok k ctn" and 2: "writes_ok P ctn" and 3: "reads_ok P ctn" and 4: "dists_ok ctn"
    using assms(1) by (simp_all add: well_formed_def)
  have f: "write_references ?c = write_references ctn" "read_references ?c = read_references ctn"
    "dist_references ?c = dist_references ctn" by (simp_all add: c)
  have "variables_ok k' ?c" using 1 assms(3,4,5) unfolding variables_ok_def v by (auto intro: order_trans simp: c)
  moreover have "writes_ok P ?c" using 2 keep unfolding writes_ok_def f by fast
  moreover have "reads_ok P ?c" using 3 keep unfolding reads_ok_def f by fast
  moreover have "dists_ok ?c" using 4 keep unfolding dists_ok_def f by fast
  ultimately show "well_formed P (?c, k')" by (simp add: well_formed_def)
qed

text \<open>A variable is looked up, or declared with what reads or writes it.\<close>

definition resolves :: "('m, 'r) program \<Rightarrow> nat \<Rightarrow> nat \<Rightarrow> ('m, 'r) container \<Rightarrow> node \<times> ('m, 'r) container \<Rightarrow> bool" where
  "resolves P k i ctn p \<longleftrightarrow> grows P (ctn, k) (snd p, k) \<and> variables (snd p) i = Some (fst p) \<and>
     dist_references (snd p) = dist_references ctn \<and> dist_ref_to_var_map (snd p) = dist_ref_to_var_map ctn"

lemma resolves_found: "well_formed P (ctn, k) \<Longrightarrow> variables ctn i = Some n \<Longrightarrow> resolves P k i ctn (n, ctn)"
  by (simp add: resolves_def grows_refl)

lemma new_var_fields:
  "vector_variables (snd (new_var i T ctn)) = vector_variables ctn" "read_references (snd (new_var i T ctn)) = read_references ctn"
  "write_references (snd (new_var i T ctn)) = write_references ctn" "dist_references (snd (new_var i T ctn)) = dist_references ctn"
  "dist_ref_to_var_map (snd (new_var i T ctn)) = dist_ref_to_var_map ctn"
  by (simp_all add: new_var_def Let_def)

lemma resolves_new:
  assumes "well_formed P (ctn, k)" and "variables ctn i = None" and "i \<le> k" and "usable_type T"
    and "well_formed P (ctn', k)" and "variables ctn' = variables (snd (new_var i T ctn))"
    and "vector_variables ctn' = vector_variables ctn" "dist_references ctn' = dist_references ctn"
      "dist_ref_to_var_map ctn' = dist_ref_to_var_map ctn"
  shows "resolves P k i ctn (fst (new_var i T ctn), ctn')"
proof -
  note new = new_var_well_formed [OF assms(1,2,3) order_refl assms(4)]
  have "known ctn \<subseteq> known ctn'" by (auto simp: known_def assms(6,7) new(3))
  then show ?thesis
    using assms(5) new(2-4) assms(8,9) by (simp add: resolves_def grows_def dists_mapped_def assms(6))
qed

lemma var_terminal_resolves:
  assumes "well_formed P (ctn, k)" and "i \<le> k" and "usable_type T"
  shows "resolves P k i ctn (var_terminal i T ctn)"
proof (cases "variables ctn i")
  case None
  have "resolves P k i ctn (fst (new_var i T ctn), snd (new_var i T ctn))"
    by (rule resolves_new [OF assms(1) None assms(2,3)])
      (use new_var_well_formed(1) [OF assms(1) None assms(2) order_refl assms(3)] in \<open>simp_all add: new_var_fields\<close>)
  then show ?thesis by (simp add: var_terminal_def None)
qed (simp add: var_terminal_def resolves_found [OF assms(1)])

lemma new_reference:
  assumes wf: "well_formed P (ctn, k)" and i: "variables ctn i = None" and "i \<le> k" and T: "usable_type T"
  shows "pg_write P i = Some ar \<Longrightarrow> assign_result ar (type_sort T) \<Longrightarrow>
      well_formed P ((snd (new_var i T ctn))\<lparr>write_references := write_references ctn @ [(i, ar)]\<rparr>, k)"
    and "pg_read P i = Some get \<Longrightarrow> (\<And>m. const_sort (get m) = type_sort T) \<Longrightarrow>
      well_formed P ((snd (new_var i T ctn))\<lparr>read_references := read_references ctn @
        [(i, ReferenceExpressionImpl get (fst (new_var i T ctn)))]\<rparr>, k)"
proof -
  let ?c = "snd (new_var i T ctn)"
  note new = new_var_well_formed [OF wf i assms(3) order_refl T]
  have c: "variables_ok k ?c" "writes_ok P ?c" "reads_ok P ?c" "dists_ok ?c" and w: "writes_ok P ctn"
    using new(1) wf by (simp_all add: well_formed_def)
  have fresh: "i \<notin> fst ` set (write_references ctn)"
  proof
    assume "i \<in> fst ` set (write_references ctn)"
    then obtain ar where "(i, ar) \<in> set (write_references ctn)" by force
    then show False by (rule writes_okE [OF w]) (simp add: i)
  qed
  {
    assume ar: "pg_write P i = Some ar" "assign_result ar (type_sort T)"
    let ?c' = "?c\<lparr>write_references := write_references ctn @ [(i, ar)]\<rparr>"
    have "writes_ok P ?c'"
      using c(2) fresh ar unfolding writes_ok_def new_var_fields by (auto simp: new(3))
    moreover have "variables_ok k ?c'" "reads_ok P ?c'" "dists_ok ?c'"
      using c unfolding variables_ok_def reads_ok_def dists_ok_def by simp_all
    ultimately show "well_formed P (?c', k)" by (simp add: well_formed_def)
  }
  assume get: "pg_read P i = Some get" "\<And>m. const_sort (get m) = type_sort T"
  let ?c' = "?c\<lparr>read_references := read_references ctn @ [(i, ReferenceExpressionImpl get (fst (new_var i T ctn)))]\<rparr>"
  have "reads_ok P ?c'"
    using c(3) get unfolding reads_ok_def new_var_fields by (auto simp: new(2,3))
  moreover have "variables_ok k ?c'" "writes_ok P ?c'" "dists_ok ?c'"
    using c unfolding variables_ok_def writes_ok_def dists_ok_def by simp_all
  ultimately show "well_formed P (?c', k)" by (simp add: well_formed_def)
qed

lemma write_ref_terminal_resolves:
  assumes "well_formed P (ctn, k)" and "i \<le> k" and "usable_type T" and "pg_write P i = Some ar"
    and "assign_result ar (type_sort T)"
  shows "resolves P k i ctn (write_ref_terminal i T ar ctn)"
proof (cases "variables ctn i")
  case None
  have "resolves P k i ctn (fst (new_var i T ctn), (snd (new_var i T ctn))\<lparr>write_references := write_references ctn @ [(i, ar)]\<rparr>)"
    by (rule resolves_new [OF assms(1) None assms(2,3)])
      (use new_reference(1) [OF assms(1) None assms(2-5)] in \<open>simp_all add: new_var_fields\<close>)
  then show ?thesis by (simp add: write_ref_terminal_def None case_prod_beta new_var_fields)
qed (simp add: write_ref_terminal_def resolves_found [OF assms(1)])

lemma read_ref_terminal_resolves:
  assumes "well_formed P (ctn, k)" and "i \<le> k" and "usable_type T" and "pg_read P i = Some get"
    and "\<And>m. const_sort (get m) = type_sort T"
  shows "resolves P k i ctn (read_ref_terminal i T get ctn)"
proof (cases "variables ctn i")
  case None
  have "resolves P k i ctn (fst (new_var i T ctn), (snd (new_var i T ctn))\<lparr>read_references := read_references ctn @
      [(i, ReferenceExpressionImpl get (fst (new_var i T ctn)))]\<rparr>)"
    by (rule resolves_new [OF assms(1) None assms(2,3)])
      (use new_reference(2) [OF assms(1) None assms(2-5)] in \<open>simp_all add: new_var_fields\<close>)
  then show ?thesis by (simp add: read_ref_terminal_def None case_prod_beta new_var_fields)
qed (simp add: read_ref_terminal_def resolves_found [OF assms(1)])

section \<open>The conditions on an expression\<close>

fun var_term_ok :: "('m, 'r) program \<Rightarrow> nat \<Rightarrow> ('m, 'r) var_term \<Rightarrow> bool" where
  "var_term_ok P k (Variable i T) \<longleftrightarrow> i \<le> k \<and> usable_type T"
| "var_term_ok P k (WriteReference i T ar) \<longleftrightarrow>
     i \<le> k \<and> usable_type T \<and> pg_write P i = Some ar \<and> assign_result ar (type_sort T)"

lemma var_term_resolves:
  "well_formed P (ctn, k) \<Longrightarrow> var_term_ok P k v \<Longrightarrow> resolves P k (var_id v) ctn (var_term_node v ctn)"
  by (cases v) (simp_all add: var_terminal_resolves write_ref_terminal_resolves)

text \<open>
  \<open>expr_ok P K k x\<close>: the terminals of \<open>x\<close> have been made, and belong to the references of the program; a node
  used as a terminal mentions the variables \<open>K\<close> only; ranges have their bounds in order.
\<close>

primrec expr_ok :: "('m, 'r) program \<Rightarrow> nat set \<Rightarrow> nat \<Rightarrow> ('m, 'r) expr \<Rightarrow> bool" where
  "expr_ok P K k (Var v) \<longleftrightarrow> var_term_ok P k v"
| "expr_ok P K k (Vector i T) \<longleftrightarrow> True"
| "expr_ok P K k (placeholder i) \<longleftrightarrow> True"
| "expr_ok P K k (Node_terminal n) \<longleftrightarrow> node_vars n \<subseteq> K"
| "expr_ok P K k (read_ref i T ref) \<longleftrightarrow>
     i \<le> k \<and> usable_type T \<and> pg_read P i = Some ref \<and> (\<forall>m. const_sort (ref m) = type_sort T)"
| "expr_ok P K k (Value T i) \<longleftrightarrow> True"
| "expr_ok P K k (Unary t e) \<longleftrightarrow> expr_ok P K k e"
| "expr_ok P K k (Binary t e1 e2) \<longleftrightarrow> expr_ok P K k e1 \<and> expr_ok P K k e2"
| "expr_ok P K k (if_then e1 e2) \<longleftrightarrow> expr_ok P K k e1 \<and> expr_ok P K k e2"
| "expr_ok P K k (if_then_else e1 e2 e3) \<longleftrightarrow> expr_ok P K k e1 \<and> expr_ok P K k e2 \<and> expr_ok P K k e3"
| "expr_ok P K k (operator_inside v c) \<longleftrightarrow> var_term_ok P k v"
| "expr_ok P K k (operator_dist v T rs) \<longleftrightarrow> var_term_ok P k v \<and> usable_type T \<and> list_all (\<lambda>r. left_of r \<le> right_of r) rs"
| "expr_ok P K k (operator_dist_bool v ber) \<longleftrightarrow> var_term_ok P k v"
| "expr_ok P K k (operator_bitslice r l v) \<longleftrightarrow> var_term_ok P k v"

lemma var_term_ok_mono: "var_term_ok P k v \<Longrightarrow> k \<le> k' \<Longrightarrow> var_term_ok P k' v"
  by (cases v) auto

lemma expr_ok_mono: "expr_ok P K k x \<Longrightarrow> K \<subseteq> K' \<Longrightarrow> k \<le> k' \<Longrightarrow> expr_ok P K' k' x"
  by (induction x) (auto intro: var_term_ok_mono)

lemma var_term_usable: "var_term_ok P k v \<Longrightarrow> usable_type (var_type v)"
  by (cases v) auto

section \<open>Temporary variables\<close>

lemma next_value_returns:
  assumes "usable_type T" and "list_all (\<lambda>r. left_of r \<le> right_of r) rs"
  shows "\<exists>x r'. nextValue uni T rs r = Inr (x, r')"
proof -
  have u: "\<exists>x r'. uniformly_distributed_value uni a b r = Inr (x, r')" if "a \<le> b" for a b r
    using that by (cases "uni a b r") (simp add: uniformly_distributed_value_def)
  have sel: "left_of (select_range rs q) \<le> right_of (select_range rs q)" if "rs \<noteq> []" for q
    using assms(2) that unfolding select_range_def list_all_iff
    by (auto split: option.splits simp: find_Some_iff)
  have T: "it_min T \<le> it_max T"
    using zero_less_power [of "2 :: int" "it_width T - 1"] by (auto simp: it_min_def it_max_def)
  consider "rs = []" | "rs \<noteq> []" "length rs > 1" | "rs \<noteq> []" "\<not> length rs > 1" by blast
  then show ?thesis
  proof cases
    case 1
    then show ?thesis using u [OF T] by (simp add: nextValue_def)
  next
    case 2
    obtain q r1 where "uniformly_distributed_value uni 0 (uint (accum_weight (last rs) - 1)) r = Inr (q, r1)"
      using u [of 0] by fastforce
    then show ?thesis using u [OF sel [OF 2(1)]] 2 by (simp add: nextValue_def Let_def)
  next
    case 3
    then have "left_of (last rs) \<le> right_of (last rs)" using assms(2) by (simp add: list_all_iff)
    then show ?thesis using u 3 by (simp add: nextValue_def)
  qed
qed

lemma DistReferenceExpr_draws:
  assumes "usable_type T" and "list_all (\<lambda>r. left_of r \<le> right_of r) rs"
  shows "draws (DistReferenceExpr uni T rs (typed_var i T)) i T"
  unfolding draws_def
proof (intro allI)
  fix m r
  obtain x r' where "nextValue uni T rs r = Inr (x, r')" using next_value_returns [OF assms, of uni r] by blast
  then show "\<exists>c r'. DistReferenceExpr uni T rs (typed_var i T) m r = Inr (equal_const (typed_var i T) c, r') \<and> const_sort c = type_sort T"
    by (simp add: DistReferenceExpr_def equal_const_def const_sort_def type_sort_def)
qed

lemma DistReferenceExpr_bool_draws: "draws (DistReferenceExpr_bool ber (typed_var i bool_type)) i bool_type"
  unfolding draws_def by (simp add: DistReferenceExpr_bool_def equal_const_def const_sort_def type_sort_def split: prod.splits)

lemma bool_type_usable: "usable_type bool_type"
  by (simp add: usable_type_def bool_type_def)

definition with_temporary ::
    "nat \<Rightarrow> itype \<Rightarrow> ('m, 'r) reference_expression \<Rightarrow> ('m, 'r) var_term \<Rightarrow> ('m, 'r) container \<Rightarrow> node \<times> ('m, 'r) container" where
  "with_temporary i T e v ctn =
     (let c1 = (snd (new_var i T ctn))\<lparr>dist_references := dist_references ctn @ [(i, e)]\<rparr>; p = var_term_node v c1
      in (fst p, (snd p)\<lparr>dist_ref_to_var_map := (dist_ref_to_var_map (snd p))(i \<mapsto> var_id v)\<rparr>))"

lemma well_formed_fields:
  assumes "well_formed P (c, k)" and "variables c' = variables c" "write_references c' = write_references c"
    "read_references c' = read_references c" "dist_references c' = dist_references c"
    and "\<And>i n. vector_variables c' i = Some n \<Longrightarrow> vector_variables c i = Some n \<or> node_vars n = {i}"
  shows "well_formed P (c', k)"
proof -
  have 1: "variables_ok k c" "writes_ok P c" "reads_ok P c" "dists_ok c" using assms(1) by (simp_all add: well_formed_def)
  have "variables_ok k c'" using 1(1) assms(6) unfolding variables_ok_def assms(2) by blast
  moreover have "writes_ok P c'" using 1(2) unfolding writes_ok_def assms(2,3) .
  moreover have "reads_ok P c'" using 1(3) unfolding reads_ok_def assms(2,4) .
  moreover have "dists_ok c'" using 1(4) unfolding dists_ok_def assms(2,5) .
  ultimately show ?thesis by (simp add: well_formed_def)
qed

lemma with_temporary_grows:
  assumes wf: "well_formed P (ctn, k)" and v: "var_term_ok P k v" and T: "usable_type T" and e: "draws e (Suc k) T"
    and p: "with_temporary (Suc k) T e v ctn = (n, c)"
  shows "grows P (ctn, k) (c, Suc k)" and "variables c (Suc k) = Some (typed_var (Suc k) T)" and "variables c (var_id v) = Some n"
proof -
  have vars: "variables_ok k ctn" using wf by (simp add: well_formed_def)
  have fresh: "variables ctn (Suc k) = None"
  proof (rule ccontr)
    assume "variables ctn (Suc k) \<noteq> None"
    then obtain n' where "variables ctn (Suc k) = Some n'" by blast
    then show False by (rule variables_okE [OF vars]) simp
  qed
  note new = new_var_well_formed [OF wf fresh order_refl le_SucI [OF order_refl] T]
  let ?c0 = "snd (new_var (Suc k) T ctn)"
  let ?c1 = "?c0\<lparr>dist_references := dist_references ctn @ [(Suc k, e)]\<rparr>"
  have c0: "variables_ok (Suc k) ?c0" "writes_ok P ?c0" "reads_ok P ?c0" "dists_ok ?c0"
    using new(1) by (simp_all add: well_formed_def)
  have "dists_ok ?c1" using c0(4) e unfolding dists_ok_def new_var_fields by (auto simp: new(3))
  moreover have "variables_ok (Suc k) ?c1" "writes_ok P ?c1" "reads_ok P ?c1"
    using c0 unfolding variables_ok_def reads_ok_def writes_ok_def by simp_all
  ultimately have wf1: "well_formed P (?c1, Suc k)" by (simp add: well_formed_def)
  have "resolves P (Suc k) (var_id v) ?c1 (var_term_node v ?c1)"
    by (rule var_term_resolves [OF wf1 var_term_ok_mono [OF v le_SucI [OF order_refl]]])
  then obtain c2 where q: "var_term_node v ?c1 = (n, c2)" "c = c2\<lparr>dist_ref_to_var_map := (dist_ref_to_var_map c2)(Suc k \<mapsto> var_id v)\<rparr>"
    and r: "grows P (?c1, Suc k) (c2, Suc k)" "variables c2 (var_id v) = Some n" "dist_references c2 = dist_references ctn @ [(Suc k, e)]"
      "dist_ref_to_var_map c2 = dist_ref_to_var_map ctn"
    using p by (cases "var_term_node v ?c1") (auto simp: with_temporary_def Let_def resolves_def new_var_fields)
  have le: "(variables ctn)(Suc k \<mapsto> typed_var (Suc k) T) \<subseteq>\<^sub>m variables c2" "known ?c1 \<subseteq> known c2" "well_formed P (c2, Suc k)"
    using r(1) by (simp_all add: grows_def new(3))
  have "well_formed P (c, Suc k)"
    by (rule well_formed_fields [OF le(3)]) (simp_all add: q(2))
  moreover have "dists_mapped ctn \<Longrightarrow> dists_mapped c" unfolding dists_mapped_def q(2) by (auto simp: r(3,4))
  moreover have "variables ctn \<subseteq>\<^sub>m variables c"
    using le(1) fresh unfolding q(2) by (auto simp: map_le_def dom_def split: if_splits)
  moreover have "known ctn \<subseteq> known c" using le(2) by (auto simp: known_def q(2) new(3) new_var_fields)
  ultimately show "grows P (ctn, k) (c, Suc k)" by (simp add: grows_def)
  show "variables c (var_id v) = Some n" by (simp add: q(2) r(2))
  show "variables c (Suc k) = Some (typed_var (Suc k) T)" using le(1) by (simp add: q(2) map_le_def)
qed

lemma point_ranges: "addRanges (map (\<lambda>i. weighted_value i 1) c) rs \<noteq> Inl e" if "list_all (\<lambda>r. left_of r = right_of r) rs"
  using that
proof (induction c arbitrary: rs)
  case (Cons x c)
  have "\<not> list_ex (\<lambda>r. overlap r (weighted_value x 1)) rs"
    using Cons.prems by (auto simp: list_ex_iff list_all_iff overlap_def weighted_value_def new_weighted_range_def)
  then obtain r where r: "addRange (weighted_value x 1) rs = Inr (rs @ [r])" "left_of r = right_of r"
    by (simp add: addRange_def Let_def weighted_value_def new_weighted_range_def)
  then show ?case using Cons.IH [of "rs @ [r]"] Cons.prems by simp
qed simp

lemma point_ranges_ordered: "addRanges xs rs = Inr rs' \<Longrightarrow> list_all (\<lambda>r. left_of r \<le> right_of r) (rs @ xs) \<Longrightarrow>
    list_all (\<lambda>r. left_of r \<le> right_of r) rs'"
proof (induction xs arbitrary: rs)
  case (Cons x xs)
  then obtain r1 where r1: "addRange x rs = Inr r1" "addRanges xs r1 = Inr rs'" by (auto simp: rbind_eq_Inr)
  have "list_all (\<lambda>r. left_of r \<le> right_of r) (r1 @ xs)" using r1(1) Cons.prems(2) by (auto simp: addRange_def Let_def split: if_splits)
  then show ?case by (rule Cons.IH [OF r1(2)])
qed simp

section \<open>Evaluation\<close>

text \<open>\<open>V\<close> gives the variables a value mentions; the only failure is a bad bit slice.\<close>

definition evals :: "('m, 'r) program \<Rightarrow> ('a \<Rightarrow> nat set) \<Rightarrow> ('m, 'r) context_state \<Rightarrow> ('a \<times> ('m, 'r) context_state) result \<Rightarrow> bool" where
  "evals P V s res \<longleftrightarrow>
     (case res of
        Inl e \<Rightarrow> e = RuntimeError ''Invalid range of bitslice''
      | Inr (a, s') \<Rightarrow> grows P s s' \<and> V a \<subseteq> known (fst s'))"

lemma evals_Inr: "evals P V s (Inr (a, s')) \<longleftrightarrow> grows P s s' \<and> V a \<subseteq> known (fst s')"
  by (simp add: evals_def)

lemma evals_bind:
  assumes "evals P V s res" and "\<And>a s'. grows P s s' \<Longrightarrow> V a \<subseteq> known (fst s') \<Longrightarrow> evals P W s' (f (a, s'))"
  shows "evals P W s (rbind res f)"
proof (cases res)
  case (Inl e)
  then show ?thesis using assms(1) by (simp add: evals_def)
next
  case (Inr p)
  obtain a s' where p: "p = (a, s')" by (cases p)
  have s': "grows P s s'" "V a \<subseteq> known (fst s')" using assms(1) by (simp_all add: Inr p evals_Inr)
  have "evals P W s' (f (a, s'))" by (rule assms(2) [OF s'])
  then show ?thesis using grows_trans [OF s'(1)] by (auto simp: Inr p evals_def split: sum.splits)
qed

lemma evals_both:
  assumes f: "\<And>t. grows P s t \<Longrightarrow> evals P V t (f t)" and g: "\<And>t. grows P s t \<Longrightarrow> evals P W t (g t)" and s: "well_formed P s"
  shows "evals P (\<lambda>(a, b). V a \<union> W b) s (both lr f g s)"
proof -
  have known: "A \<subseteq> known (fst u)" if "A \<subseteq> known (fst t)" "grows P t u" for A t u
    using that by (auto simp: grows_def)
  note start = grows_refl [OF s]
  show ?thesis
  proof (cases lr)
    case True
    have "evals P (\<lambda>(a, b). V a \<union> W b) s (rbind (f s) (\<lambda>(a, t). rbind (g t) (\<lambda>(b, u). Inr ((a, b), u))))"
    proof (rule evals_bind [OF f [OF start]], unfold prod.case)
      fix a t assume t: "grows P s t" "V a \<subseteq> known (fst t)"
      show "evals P (\<lambda>(a, b). V a \<union> W b) t (rbind (g t) (\<lambda>(b, u). Inr ((a, b), u)))"
        by (rule evals_bind [OF g [OF t(1)]]) (use known [OF t(2)] in \<open>auto simp: evals_Inr grows_def\<close>)
    qed
    then show ?thesis by (simp add: both_def True)
  next
    case False
    have "evals P (\<lambda>(a, b). V a \<union> W b) s (rbind (g s) (\<lambda>(b, t). rbind (f t) (\<lambda>(a, u). Inr ((a, b), u))))"
    proof (rule evals_bind [OF g [OF start]], unfold prod.case)
      fix b t assume t: "grows P s t" "W b \<subseteq> known (fst t)"
      show "evals P (\<lambda>(a, b). V a \<union> W b) t (rbind (f t) (\<lambda>(a, u). Inr ((a, b), u)))"
        by (rule evals_bind [OF f [OF t(1)]]) (use known [OF t(2)] in \<open>auto simp: evals_Inr grows_def\<close>)
    qed
    then show ?thesis by (simp add: both_def False)
  qed
qed

lemma resolves_evals:
  assumes "resolves P k i ctn p"
  shows "evals P node_vars (ctn, k) (Inr (fst p, snd p, k))"
proof -
  have "grows P (ctn, k) (snd p, k)" "variables (snd p) i = Some (fst p)" using assms by (simp_all add: resolves_def)
  moreover from this have "variables_ok k (snd p)" by (simp add: grows_def well_formed_def)
  ultimately show ?thesis by (auto simp: evals_Inr known_def typed_var_def elim!: variables_okE)
qed

lemma vector_terminal_evals:
  assumes wf: "well_formed P (ctn, k)"
  shows "evals P node_vars (ctn, k) (Inr (fst (vector_terminal i T ctn), snd (vector_terminal i T ctn), k))"
proof (cases "vector_variables ctn i")
  case None
  let ?c = "ctn\<lparr>vector_variables := (vector_variables ctn)(i \<mapsto> VectorExpr i (it_width T) (it_sign T))\<rparr>"
  have "well_formed P (?c, k)" by (rule well_formed_fields [OF wf]) (auto split: if_splits)
  then show ?thesis by (simp add: vector_terminal_def None Let_def evals_Inr grows_def dists_mapped_def known_def) auto
next
  case (Some n)
  then have "node_vars n = {i}" using wf by (simp add: well_formed_def variables_ok_def)
  then show ?thesis using Some by (auto simp: vector_terminal_def evals_Inr grows_refl [OF wf] known_def)
qed

definition inside_constants :: "itype \<Rightarrow> int list \<Rightarrow> const_t list" where
  "inside_constants T c = fold (\<lambda>i. insert_constant (Constant (word_of_int i) (it_width T) (it_sign T))) c []"

lemma context_inside_eq:
  "context_inside uni v c (ctn, k) = rbind (addRanges (map (\<lambda>i. weighted_value i 1) c) []) (\<lambda>rs.
     let tmp = typed_var (Suc k) (var_type v); p = with_temporary (Suc k) (var_type v) (DistReferenceExpr uni (var_type v) rs tmp) v ctn
     in Inr (BinaryOperator LogicalAndOpr (BinaryOperator EqualOpr (fst p) tmp) (Inside tmp (inside_constants (var_type v) c)),
          snd p, Suc k))"
  by (simp add: context_inside_def with_temporary_def inside_constants_def Let_def crave_new_var_id_def new_var_def typed_var_def case_prod_beta)

definition dist_constraint :: "node \<Rightarrow> node option \<Rightarrow> node" where
  "dist_constraint eq rs = (case rs of None \<Rightarrow> eq | Some n \<Rightarrow> BinaryOperator LogicalAndOpr eq n)"

lemma context_dist_eq:
  "context_dist ref T rs v (ctn, k) =
     (let tmp = typed_var (Suc k) T; p = with_temporary (Suc k) T (ref tmp) v ctn
      in Inr (dist_constraint (BinaryOperator EqualOpr (fst p) tmp) (in_ranges_node T tmp rs None), snd p, Suc k))"
  by (simp add: context_dist_def with_temporary_def dist_constraint_def Let_def crave_new_var_id_def new_var_def typed_var_def case_prod_beta
      split: option.split)

lemma in_ranges_node_vars:
  "in_ranges_node T (typed_var i T') rs acc = Some n \<Longrightarrow> (\<And>m. acc = Some m \<Longrightarrow> node_vars m \<subseteq> {i}) \<Longrightarrow> node_vars n \<subseteq> {i}"
  by (induction rs arbitrary: acc) (force simp: in_range_node_def Let_def typed_var_def split: option.splits)+

lemma with_temporary_evals:
  assumes "well_formed P (ctn, k)" and "var_term_ok P k v" and "usable_type T" and "draws e (Suc k) T"
    and "with_temporary (Suc k) T e v ctn = (n, c)" and "node_vars x \<subseteq> {Suc k} \<union> node_vars n"
  shows "evals P node_vars (ctn, k) (Inr (x, c, Suc k))"
proof -
  note g = with_temporary_grows [OF assms(1-5)]
  have "variables_ok (Suc k) c" using g(1) by (simp add: grows_def well_formed_def)
  then obtain T' where "n = typed_var (var_id v) T'" using variables_okE [OF _ g(3)] by metis
  then have "node_vars x \<subseteq> known c" using assms(6) g(2,3) by (auto simp: known_def typed_var_def)
  then show ?thesis using g(1) by (simp add: evals_Inr)
qed

lemma context_inside_evals:
  assumes "well_formed P (ctn, k)" and v: "var_term_ok P k v"
  shows "evals P node_vars (ctn, k) (context_inside uni v c (ctn, k))"
proof -
  obtain rs where rs: "addRanges (map (\<lambda>i. weighted_value i 1) c) [] = Inr rs"
    using point_ranges [of "[]" c] by (cases "addRanges (map (\<lambda>i. weighted_value i 1) c) []") auto
  have "list_all (\<lambda>r. left_of r \<le> right_of r) rs"
    by (rule point_ranges_ordered [OF rs]) (simp add: list_all_iff weighted_value_def new_weighted_range_def)
  note draws = DistReferenceExpr_draws [OF var_term_usable [OF v] this]
  obtain n c' where p: "with_temporary (Suc k) (var_type v) (DistReferenceExpr uni (var_type v) rs (typed_var (Suc k) (var_type v))) v ctn = (n, c')"
    by fastforce
  show ?thesis
    unfolding context_inside_eq rs rbind_Inr Let_def p prod.sel
    by (rule with_temporary_evals [OF assms var_term_usable [OF v] draws p]) (auto simp: typed_var_def)
qed

lemma context_dist_evals:
  assumes "well_formed P (ctn, k)" and "var_term_ok P k v" and T: "usable_type T" and ref: "draws (ref (typed_var (Suc k) T)) (Suc k) T"
  shows "evals P node_vars (ctn, k) (context_dist ref T rs v (ctn, k))"
proof -
  obtain n c' where p: "with_temporary (Suc k) T (ref (typed_var (Suc k) T)) v ctn = (n, c')" by fastforce
  have "node_vars m \<subseteq> {Suc k}" if "in_ranges_node T (typed_var (Suc k) T) rs None = Some m" for m
    by (rule in_ranges_node_vars [OF that]) simp
  then have "node_vars (dist_constraint (BinaryOperator EqualOpr n (typed_var (Suc k) T)) (in_ranges_node T (typed_var (Suc k) T) rs None))
      \<subseteq> {Suc k} \<union> node_vars n"
    by (auto simp: dist_constraint_def typed_var_def split: option.splits)
  then show ?thesis unfolding context_dist_eq Let_def p prod.sel by (rule with_temporary_evals [OF assms p])
qed

lemma context_bitslice_evals:
  assumes "well_formed P (ctn, k)" and "var_term_ok P k v"
  shows "evals P node_vars (ctn, k) (context_bitslice r l v (ctn, k))"
  using resolves_evals [OF var_term_resolves [OF assms]]
  by (simp add: context_bitslice_def Let_def case_prod_beta evals_def)

lemma unary_node_vars [simp]: "node_vars (unary_node t n) = node_vars n"
  by (cases t) simp_all

lemma binary_node_vars [simp]: "node_vars (binary_node t a b) = node_vars a \<union> node_vars b"
  by (cases t) simp_all

lemma evals_after:
  assumes "\<And>s. well_formed P s \<Longrightarrow> expr_ok P (known (fst s)) (snd s) x \<Longrightarrow> evals P node_vars s (context_eval lr uni x s)"
    and "expr_ok P (known (fst s)) (snd s) x" and "grows P s t"
  shows "evals P node_vars t (context_eval lr uni x t)"
  using assms expr_ok_mono [OF assms(2)] by (simp add: grows_def)

lemma evals_return: "grows P s t \<Longrightarrow> V a \<subseteq> known (fst t) \<Longrightarrow> evals P V t (Inr (a, t))"
  by (simp add: evals_Inr grows_refl grows_def)

lemma context_eval_evals:
  assumes "well_formed P s" and "expr_ok P (known (fst s)) (snd s) x"
  shows "evals P node_vars s (context_eval lr uni x s)"
  using assms
proof (induction x arbitrary: s)
  case (Var v)
  then show ?case using resolves_evals [OF var_term_resolves [of P "fst s" "snd s" v]] by (simp add: case_prod_beta)
next
  case (Vector i T)
  then show ?case using vector_terminal_evals [of P "fst s" "snd s" i T] by (simp add: case_prod_beta)
next
  case (read_ref i T ref)
  then show ?case using resolves_evals [OF read_ref_terminal_resolves [of P "fst s" "snd s" i T ref]] by (simp add: case_prod_beta)
next
  case (Unary t e)
  show ?case unfolding context_eval.simps
    by (rule evals_bind [OF Unary.IH [OF Unary.prems(1)]]) (use Unary.prems(2) in \<open>simp_all add: evals_return\<close>)
next
  case (Binary t e1 e2)
  have e: "expr_ok P (known (fst s)) (snd s) e1" "expr_ok P (known (fst s)) (snd s) e2" using Binary.prems(2) by simp_all
  have "evals P (\<lambda>(a, b). node_vars a \<union> node_vars b) s (both lr (context_eval lr uni e1) (context_eval lr uni e2) s)"
    by (rule evals_both [OF evals_after [OF Binary.IH(1) e(1)] evals_after [OF Binary.IH(2) e(2)] Binary.prems(1)])
  then show ?case unfolding context_eval.simps
    by (rule evals_bind) (auto intro!: evals_return)
next
  case (if_then e1 e2)
  have e: "expr_ok P (known (fst s)) (snd s) e1" "expr_ok P (known (fst s)) (snd s) e2" using if_then.prems(2) by simp_all
  have "evals P (\<lambda>(a, b). node_vars a \<union> node_vars b) s (both lr (context_eval lr uni e1) (context_eval lr uni e2) s)"
    by (rule evals_both [OF evals_after [OF if_then.IH(1) e(1)] evals_after [OF if_then.IH(2) e(2)] if_then.prems(1)])
  then show ?case unfolding context_eval.simps
    by (rule evals_bind) (auto intro!: evals_return)
next
  case (if_then_else e1 e2 e3)
  have e: "expr_ok P (known (fst s)) (snd s) e1" "expr_ok P (known (fst s)) (snd s) e2" "expr_ok P (known (fst s)) (snd s) e3"
    using if_then_else.prems(2) by simp_all
  have 23: "evals P (\<lambda>(a, b). node_vars a \<union> node_vars b) t (both lr (context_eval lr uni e2) (context_eval lr uni e3) t)"
    if t: "grows P s t" for t
    by (rule evals_both [OF evals_after [OF if_then_else.IH(2) e(2) grows_trans [OF t]]
          evals_after [OF if_then_else.IH(3) e(3) grows_trans [OF t]]])
      (use t in \<open>simp_all add: grows_def\<close>)
  have "evals P (\<lambda>(a, bc). node_vars a \<union> (case bc of (b, c) \<Rightarrow> node_vars b \<union> node_vars c)) s
      (both lr (context_eval lr uni e1) (both lr (context_eval lr uni e2) (context_eval lr uni e3)) s)"
    by (rule evals_both [OF evals_after [OF if_then_else.IH(1) e(1)] 23 if_then_else.prems(1)])
  then show ?case unfolding context_eval.simps
    by (rule evals_bind) (auto intro!: evals_return)
next
  case (operator_inside v c)
  then show ?case using context_inside_evals [of P "fst s" "snd s" v] by simp
next
  case (operator_dist v T rs)
  then have T: "usable_type T" "list_all (\<lambda>r. left_of r \<le> right_of r) rs" by simp_all
  show ?case
    using operator_dist.prems
      context_dist_evals [of P "fst s" "snd s" v T "DistReferenceExpr uni T rs" rs, OF _ _ _ DistReferenceExpr_draws [OF T]]
    by simp
next
  case (operator_dist_bool v ber)
  then show ?case
    using bool_type_usable
      context_dist_evals [of P "fst s" "snd s" v bool_type "DistReferenceExpr_bool ber" "[]", OF _ _ _ DistReferenceExpr_bool_draws]
    by simp
next
  case (operator_bitslice r l v)
  then show ?case using context_bitslice_evals [of P "fst s" "snd s" v] by simp
qed (auto simp: evals_Inr grows_refl)

section \<open>Containers the front end makes\<close>

text \<open>The program makes a variable, or evaluates a constraint.\<close>

inductive frontend_step ::
    "('m, 'r) program \<Rightarrow> bool \<Rightarrow> (int \<Rightarrow> int \<Rightarrow> 'r \<Rightarrow> int \<times> 'r) \<Rightarrow> ('m, 'r) context_state \<Rightarrow> ('m, 'r) context_state \<Rightarrow> bool"
  for P lr uni where
  declares: "frontend_step P lr uni (ctn, k) (ctn, snd (crave_new_var_id k))"
| evaluates: "expr_ok P (known (fst s)) (snd s) x \<Longrightarrow> context_eval lr uni x s = Inr (n, t) \<Longrightarrow> frontend_step P lr uni s t"

lemma frontend_step_grows: "frontend_step P lr uni s t \<Longrightarrow> well_formed P s \<Longrightarrow> grows P s t"
proof (induction rule: frontend_step.induct)
  case (declares ctn k)
  then have "well_formed P (ctn, Suc k)" by (auto simp: well_formed_def variables_ok_def le_SucI)
  then show ?case by (simp add: grows_def crave_new_var_id_def)
next
  case (evaluates s x n t)
  then show ?case using context_eval_evals [of P s x lr uni] by (simp add: evals_Inr)
qed

lemma new_container_well_formed: "well_formed P (new_container, k)" "dists_mapped new_container"
  by (simp_all add: well_formed_def variables_ok_def writes_ok_def reads_ok_def dists_ok_def dists_mapped_def new_container_def)

lemma frontend_reachable:
  assumes "(frontend_step P lr uni)\<^sup>*\<^sup>* (new_container, k0) s"
  shows "well_formed P s \<and> dists_mapped (fst s)"
  using assms
proof (induction rule: rtranclp_induct)
  case (step s t)
  then have "grows P s t" using frontend_step_grows by blast
  then show ?case using step.IH by (simp add: grows_def)
qed (simp add: new_container_well_formed)

text \<open>C16: whatever constraints a program writes, the container the front end makes declares every variable with
  a sort the solver takes, gives every read, written or drawn reference the sort of its variable, and keeps the
  declarations made before; evaluating a further expression fails on a bad bit slice only, and otherwise gives a
  node over declared variables.\<close>

theorem context_keeps_sorts:
  assumes "program_ok P" and "(frontend_step P lr uni)\<^sup>*\<^sup>* (new_container, k0) (ctn, k)" and "expr_ok P (known ctn) k x"
  shows "container_ok (declared ctn) ctn \<and>
    (case context_eval lr uni x (ctn, k) of
       Inl e \<Rightarrow> e = RuntimeError ''Invalid range of bitslice''
     | Inr (n, ctn', k') \<Rightarrow> container_ok (declared ctn') ctn' \<and> k \<le> k' \<and> node_vars n \<subseteq> known ctn' \<and>
         (\<forall>i\<in>dom (variables ctn). variables ctn' i = variables ctn i \<and> declared ctn' i = declared ctn i))"
proof -
  have wf: "well_formed P (ctn, k)" "dists_mapped ctn" using frontend_reachable [OF assms(2)] by simp_all
  have e: "evals P node_vars (ctn, k) (context_eval lr uni x (ctn, k))"
    by (rule context_eval_evals [OF wf(1)]) (use assms(3) in simp)
  have later: "container_ok (declared c) c \<and> k \<le> k' \<and> (\<forall>i\<in>dom (variables ctn). variables c i = variables ctn i \<and> declared c i = declared ctn i)"
    if "grows P (ctn, k) (c, k')" for c k'
  proof -
    have "variables ctn \<subseteq>\<^sub>m variables c" "well_formed P (c, k')" "dists_mapped c" "k \<le> k'"
      using that wf(2) by (simp_all add: grows_def)
    then show ?thesis using well_formed_container [OF assms(1)] by (auto simp: map_le_def declared_def)
  qed
  have "container_ok (declared ctn) ctn" by (rule well_formed_container [OF assms(1) wf])
  moreover have "case context_eval lr uni x (ctn, k) of
       Inl e \<Rightarrow> e = RuntimeError ''Invalid range of bitslice''
     | Inr (n, ctn', k') \<Rightarrow> container_ok (declared ctn') ctn' \<and> k \<le> k' \<and> node_vars n \<subseteq> known ctn' \<and>
         (\<forall>i\<in>dom (variables ctn). variables ctn' i = variables ctn i \<and> declared ctn' i = declared ctn i)"
  proof (cases "context_eval lr uni x (ctn, k)")
    case (Inr r)
    obtain n c k' where r: "r = (n, c, k')" by (cases r)
    have "grows P (ctn, k) (c, k')" "node_vars n \<subseteq> known c" using e by (simp_all add: Inr r evals_Inr)
    then show ?thesis using later by (simp add: Inr r)
  qed (use e in \<open>simp add: evals_def\<close>)
  ultimately show ?thesis ..
qed

definition demo_ref :: "(nat \<Rightarrow> 4 word, nat) assign_result" where
  "demo_ref = AssignResultToRef None False (\<lambda>m. m 1) (\<lambda>v m. m(1 := v))"

definition demo_program :: "(nat \<Rightarrow> 4 word, nat) program" where
  "demo_program = \<lparr>pg_write = [1 \<mapsto> demo_ref], pg_read = Map.empty\<rparr>"

definition four_bits :: itype where
  "four_bits = \<lparr>it_width = 4, it_sign = False\<rparr>"

lemma demo_var_ok: "var_term_ok demo_program 1 (WriteReference 1 four_bits demo_ref)"
  using AssignResultToRef_contract [of "\<lambda>m :: nat \<Rightarrow> 4 word. m 1" "\<lambda>v m. m(1 := v)" False None]
  by (simp add: demo_program_def demo_ref_def usable_type_def four_bits_def type_sort_def isBool_def)

theorem context_keeps_sorts_witness:
  "\<exists>n ctn. context_eval True (\<lambda>a b r. (a, r))
      (Binary logical_and (operator_inside (WriteReference 1 four_bits demo_ref) [3, 5]) (operator_bitslice 2 1 (WriteReference 1 four_bits demo_ref)))
      (new_container, 1) = Inr (n, ctn, 2) \<and> container_ok (declared ctn) ctn"
proof -
  let ?x = "Binary logical_and (operator_inside (WriteReference 1 four_bits demo_ref) [3, 5])
      (operator_bitslice 2 1 (WriteReference 1 four_bits demo_ref)) :: (nat \<Rightarrow> 4 word, nat) expr"
  have P: "program_ok demo_program" by (simp add: program_ok_def demo_program_def)
  have reach: "(frontend_step demo_program True (\<lambda>a b r. (a, r)))\<^sup>*\<^sup>* (new_container, 0) (new_container, 1)"
    using frontend_step.declares [of demo_program True "\<lambda>a b r. (a, r)" new_container 0]
    by (intro r_into_rtranclp) (simp add: crave_new_var_id_def)
  have x: "expr_ok demo_program (known new_container) 1 ?x" using demo_var_ok by simp
  have "\<exists>n ctn. context_eval True (\<lambda>a b r. (a, r)) ?x (new_container, 1) = Inr (n, ctn, 2)"
    by (simp add: both_def context_inside_def context_bitslice_def Let_def crave_new_var_id_def new_var_def write_ref_terminal_def
        new_container_def addRange_def weighted_value_def new_weighted_range_def overlap_def four_bits_def)
  then obtain n ctn where "context_eval True (\<lambda>a b r. (a, r)) ?x (new_container, 1) = Inr (n, ctn, 2)" by blast
  with context_keeps_sorts [OF P reach x] show ?thesis by auto
qed

section \<open>What inside and dist mean\<close>

definition type_value :: "itype \<Rightarrow> int \<Rightarrow> smt_val" where
  "type_value T x = sem_constant (Constant (word_of_int x) (it_width T) (it_sign T))"

lemma mod_half_range:
  fixes x :: int
  assumes "- h \<le> x" and "x < h"
  shows "x mod (2 * h) = (if x < 0 then x + 2 * h else x)"
proof (cases "x < 0")
  case True
  have "x mod (2 * h) = (x + 2 * h) mod (2 * h)" by (rule mod_add_self2 [symmetric])
  also have "\<dots> = x + 2 * h" using assms True by (intro mod_pos_pos_trivial) linarith+
  finally show ?thesis using True by simp
next
  case False
  have "x mod (2 * h) = x" using assms False by (intro mod_pos_pos_trivial) linarith+
  then show ?thesis using False by simp
qed

lemma bits_sval_int_bits:
  assumes "- (2 ^ w) \<le> x" and "x < 2 ^ w"
  shows "bits_sval (int_bits (Suc w) x) = x"
proof -
  obtain cs b where bs: "int_bits (Suc w) x = cs @ [b]" by (metis append_butlast_last_id length_0_conv length_int_bits nat.distinct(1))
  have len: "length cs = w" using length_int_bits [of "Suc w" x] by (simp add: bs)
  have cs: "int (bits_val cs) < 2 ^ w" using bits_val_less [of cs] by (simp add: len)
  have "int (bits_val (int_bits (Suc w) x)) = (if x < 0 then x + 2 * 2 ^ w else x)"
    by (simp only: bits_val_int_bits power_Suc mod_half_range [OF assms])
  then have v: "int (bits_val cs) + (if b then 2 ^ w else 0) = (if x < 0 then x + 2 * 2 ^ w else x)"
    by (cases b) (simp_all add: bs bits_val_append len)
  have sv: "bits_sval (int_bits (Suc w) x) = int (bits_val cs) - (if b then 2 ^ w else 0)" by (simp add: bs bits_sval_snoc len)
  have pos: "(0 :: int) \<le> int (bits_val cs)" by (rule of_nat_0_le_iff)
  define h :: int where "h = 2 ^ w"
  show ?thesis using v cs pos assms unfolding sv h_def [symmetric] by (cases b; cases "x < 0") simp_all
qed

lemma type_value_num:
  assumes "in_type T x" and "0 < it_width T" and "it_width T \<le> 64" and "\<not> isBool (it_width T) (it_sign T)"
  shows "\<exists>bs. type_value T x = VBits bs \<and> length bs = it_width T \<and> num (it_sign T) bs = x"
proof -
  let ?w = "it_width T"
  have p: "(2 :: int) ^ ?w \<le> 2 ^ 64" using assms(3) by (intro power_increasing) auto
  show ?thesis
  proof (cases "it_sign T")
    case True
    have x: "- (2 ^ (?w - 1)) \<le> x" "x < 2 ^ (?w - 1)" using assms(1) True by (simp_all add: in_type_def it_min_def it_max_def)
    have "(2 :: int) ^ (?w - 1) \<le> 2 ^ 63" using assms(3) by (intro power_increasing) auto
    then have "sint (word_of_int x :: u64) = x" using x by (intro sint_word_of_int_in_range) auto
    then show ?thesis using assms(2,4) True bits_sval_int_bits [OF x]
      by (simp add: type_value_def sem_constant_def num_def)
  next
    case False
    have x: "0 \<le> x" "x < 2 ^ ?w" using assms(1) False by (simp_all add: in_type_def it_min_def it_max_def)
    then have "uint (word_of_int x :: u64) = x" using p by (simp add: uint_word_of_int mod_pos_pos_trivial)
    moreover have "int (bits_val (int_bits ?w x)) = x" using x by (simp add: bits_val_int_bits)
    ultimately show ?thesis using assms(4) False by (simp add: type_value_def sem_constant_def num_def)
  qed
qed

lemma num_inj: "num sg a = num sg b \<Longrightarrow> length a = length b \<Longrightarrow> a = b"
  by (metis bits_val_inject num_mod of_nat_eq_iff)

lemma equal_vars_holds:
  assumes "sort_of_val (\<rho> i) = sort_of_val (\<rho> j)"
  shows "smt_sem \<rho> (BinaryOperator EqualOpr (typed_var i T) (typed_var j U)) = VBool (\<rho> i = \<rho> j)"
  using assms by (cases "\<rho> i"; cases "\<rho> j") (auto simp: typed_var_def sem_bits_def Let_def)

lemma inside_constants_values:
  "sem_constant ` set (inside_constants T c) = type_value T ` set c"
proof -
  have all: "(\<forall>d\<in>set ds. \<exists>x. d = Constant x (it_width T) (it_sign T)) \<Longrightarrow>
      sem_constant ` set (fold (\<lambda>i. insert_constant (Constant (word_of_int i) (it_width T) (it_sign T))) c ds) =
        sem_constant ` set ds \<union> type_value T ` set c" for ds
  proof (induction c arbitrary: ds)
    case (Cons i c)
    let ?i = "Constant (word_of_int i) (it_width T) (it_sign T)"
    have same: "\<forall>d\<in>set (insert_constant ?i ds). \<exists>x. d = Constant x (it_width T) (it_sign T)"
      using Cons.prems by (induction ds) auto
    have s: "sem_constant ` D = (\<lambda>x. sem_constant (Constant x (it_width T) (it_sign T))) ` cvalue ` D"
      if "\<forall>d\<in>D. \<exists>x. d = Constant x (it_width T) (it_sign T)" for D
      using that by (auto simp: image_iff) (metis constant_sel(1))+
    have "sem_constant ` set (insert_constant ?i ds) = insert (sem_constant ?i) (sem_constant ` set ds)"
      unfolding s [OF same] s [OF Cons.prems] insert_constant_values by simp
    then show ?case using Cons.IH [OF same] by (auto simp: type_value_def)
  qed simp
  show ?thesis by (simp add: inside_constants_def all)
qed

lemma in_range_node_sem:
  assumes "\<rho> i = VBits bs" and "length bs = it_width T" and "in_type T (left_of r)" "in_type T (right_of r)"
    and "0 < it_width T" "it_width T \<le> 64" "\<not> isBool (it_width T) (it_sign T)"
  shows "smt_sem \<rho> (in_range_node T (typed_var i T) r) = VBool (left_of r \<le> num (it_sign T) bs \<and> num (it_sign T) bs \<le> right_of r)"
proof -
  obtain l u where "type_value T (left_of r) = VBits l" "num (it_sign T) l = left_of r"
    "type_value T (right_of r) = VBits u" "num (it_sign T) u = right_of r"
    using type_value_num [OF assms(3,5-7)] type_value_num [OF assms(4,5-7)] by blast
  then show ?thesis by (simp add: in_range_node_def Let_def typed_var_def type_value_def assms(1) sem_bits_def)
qed

lemma in_ranges_node_sem:
  assumes "\<rho> i = VBits bs" and "length bs = it_width T" and "list_all (\<lambda>r. in_type T (left_of r) \<and> in_type T (right_of r)) rs"
    and T: "0 < it_width T" "it_width T \<le> 64" "\<not> isBool (it_width T) (it_sign T)"
    and "\<And>n. acc = Some n \<Longrightarrow> \<exists>b. smt_sem \<rho> n = VBool b"
  shows "(case in_ranges_node T (typed_var i T) rs acc of
       None \<Rightarrow> acc = None \<and> rs = []
     | Some n \<Rightarrow> smt_sem \<rho> n = VBool ((\<exists>m. acc = Some m \<and> smt_sem \<rho> m = VBool True) \<or>
         (\<exists>r\<in>set rs. left_of r \<le> num (it_sign T) bs \<and> num (it_sign T) bs \<le> right_of r)))"
  using assms(3,7)
proof (induction rs arbitrary: acc)
  case Nil
  then show ?case by (cases acc) auto
next
  case (Cons r rs)
  have r: "smt_sem \<rho> (in_range_node T (typed_var i T) r) = VBool (left_of r \<le> num (it_sign T) bs \<and> num (it_sign T) bs \<le> right_of r)"
    using in_range_node_sem [of \<rho> i bs T r, OF assms(1,2) _ _ T] Cons.prems(1) by simp
  let ?acc = "case acc of Some n \<Rightarrow> BinaryOperator LogicalOrOpr n (in_range_node T (typed_var i T) r)
      | None \<Rightarrow> in_range_node T (typed_var i T) r"
  have acc: "smt_sem \<rho> ?acc = VBool ((\<exists>m. acc = Some m \<and> smt_sem \<rho> m = VBool True) \<or>
      (left_of r \<le> num (it_sign T) bs \<and> num (it_sign T) bs \<le> right_of r))"
  proof (cases acc)
    case (Some n)
    then obtain b where "smt_sem \<rho> n = VBool b" using Cons.prems(2) by blast
    then show ?thesis by (simp add: Some r)
  qed (simp add: r)
  have "list_all (\<lambda>r. in_type T (left_of r) \<and> in_type T (right_of r)) rs" using Cons.prems(1) by simp
  from Cons.IH [OF this, of "Some ?acc"] acc show ?case
    by (cases "in_ranges_node T (typed_var i T) rs (Some ?acc)") (auto simp: Let_def)
qed

text \<open>A condition on a temporary variable equal to \<open>a\<close> is a condition on \<open>a\<close>.\<close>

lemma temporary_holds:
  assumes "a \<noteq> i" and "sort_of_val (\<rho> a) = type_sort T" and "\<And>t. t = \<rho> a \<Longrightarrow> smt_sem (\<rho>(i := t)) x = VBool (Q t)"
  shows "(\<exists>t. sort_of_val t = type_sort T \<and>
      holds (BinaryOperator LogicalAndOpr (BinaryOperator EqualOpr (typed_var a T') (typed_var i T)) x) (\<rho>(i := t))) \<longleftrightarrow> Q (\<rho> a)"
proof -
  have eq: "smt_sem (\<rho>(i := t)) (BinaryOperator EqualOpr (typed_var a T') (typed_var i T)) = VBool (\<rho> a = t)"
    if "sort_of_val t = type_sort T" for t
    using equal_vars_holds [of "\<rho>(i := t)" a i] that assms(1,2) by simp
  have conj: "holds (BinaryOperator LogicalAndOpr e x) \<sigma> \<longleftrightarrow> b \<and> c"
    if "smt_sem \<sigma> e = VBool b" "b \<Longrightarrow> smt_sem \<sigma> x = VBool c" for e \<sigma> b c
    using that by (cases "smt_sem \<sigma> x") (auto simp: holds_def)
  show ?thesis
  proof
    assume "\<exists>t. sort_of_val t = type_sort T \<and>
      holds (BinaryOperator LogicalAndOpr (BinaryOperator EqualOpr (typed_var a T') (typed_var i T)) x) (\<rho>(i := t))"
    then obtain t where t: "sort_of_val t = type_sort T"
      "holds (BinaryOperator LogicalAndOpr (BinaryOperator EqualOpr (typed_var a T') (typed_var i T)) x) (\<rho>(i := t))" by blast
    have "\<rho> a = t \<and> Q t" by (rule conj [OF eq [OF t(1)] assms(3), THEN iffD1]) (simp_all add: t(2))
    then show "Q (\<rho> a)" by simp
  next
    assume Q: "Q (\<rho> a)"
    have "holds (BinaryOperator LogicalAndOpr (BinaryOperator EqualOpr (typed_var a T') (typed_var i T)) x) (\<rho>(i := \<rho> a))"
      by (rule conj [OF eq [OF assms(2)] assms(3), THEN iffD2]) (simp_all add: Q)
    then show "\<exists>t. sort_of_val t = type_sort T \<and>
      holds (BinaryOperator LogicalAndOpr (BinaryOperator EqualOpr (typed_var a T') (typed_var i T)) x) (\<rho>(i := t))"
      using assms(2) by blast
  qed
qed

lemma type_value_member:
  assumes "list_all (in_type T) c" and T: "0 < it_width T" "it_width T \<le> 64" "\<not> isBool (it_width T) (it_sign T)"
    and "length bs = it_width T"
  shows "VBits bs \<in> type_value T ` set c \<longleftrightarrow> num (it_sign T) bs \<in> set c"
proof
  assume "VBits bs \<in> type_value T ` set c"
  then obtain x where x: "x \<in> set c" "type_value T x = VBits bs" by auto
  have "in_type T x" using assms(1) x(1) by (simp add: list_all_iff)
  then show "num (it_sign T) bs \<in> set c" using type_value_num [OF _ T] x by fastforce
next
  assume x: "num (it_sign T) bs \<in> set c"
  have "in_type T (num (it_sign T) bs)" using assms(1) x by (simp add: list_all_iff)
  then obtain bs' where "type_value T (num (it_sign T) bs) = VBits bs'" "length bs' = it_width T" "num (it_sign T) bs' = num (it_sign T) bs"
    using type_value_num [OF _ T] by blast
  then show "VBits bs \<in> type_value T ` set c" using num_inj [of "it_sign T" bs' bs] assms(5) x by force
qed

lemma with_temporary_node:
  assumes "well_formed P (ctn, k)" and "var_term_ok P k v" and "usable_type T" and "draws e (Suc k) T"
    and "with_temporary (Suc k) T e v ctn = (n, c')"
  obtains T' where "n = typed_var (var_id v) T'"
proof -
  note g = with_temporary_grows [OF assms]
  have "variables_ok (Suc k) c'" using g(1) by (simp add: grows_def well_formed_def)
  then show ?thesis by (rule variables_okE [OF _ g(3)]) (rule that)
qed

lemma var_term_not_temporary: "var_term_ok P k v \<Longrightarrow> var_id v \<noteq> Suc k"
  by (cases v) auto

lemma inside_meaning:
  assumes wf: "well_formed P (ctn, k)" and v: "var_term_ok P k v"
    and T: "it_width (var_type v) \<le> 64" "\<not> isBool (it_width (var_type v)) (it_sign (var_type v))"
    and val: "\<rho> (var_id v) = VBits bs" "length bs = it_width (var_type v)" and c: "list_all (in_type (var_type v)) c"
  shows "\<exists>n ctn'. context_inside uni v c (ctn, k) = Inr (n, ctn', Suc k) \<and>
      ((\<exists>t. sort_of_val t = type_sort (var_type v) \<and> holds n (\<rho>(Suc k := t))) \<longleftrightarrow> num (it_sign (var_type v)) bs \<in> set c)"
proof -
  let ?T = "var_type v" and ?tmp = "typed_var (Suc k) (var_type v)"
  note usable = var_term_usable [OF v]
  obtain rs where rs: "addRanges (map (\<lambda>i. weighted_value i 1) c) [] = Inr rs"
    using point_ranges [of "[]" c] by (cases "addRanges (map (\<lambda>i. weighted_value i 1) c) []") auto
  have "list_all (\<lambda>r. left_of r \<le> right_of r) rs"
    by (rule point_ranges_ordered [OF rs]) (simp add: list_all_iff weighted_value_def new_weighted_range_def)
  note draws = DistReferenceExpr_draws [OF usable this]
  obtain n c' where p: "with_temporary (Suc k) ?T (DistReferenceExpr uni ?T rs ?tmp) v ctn = (n, c')" by fastforce
  obtain T' where n: "n = typed_var (var_id v) T'" using with_temporary_node [OF wf v usable draws p] by blast
  have sort: "sort_of_val (\<rho> (var_id v)) = type_sort ?T" using val T(2) by (simp add: type_sort_def term_sort_def)
  have mem: "VBits bs \<in> type_value ?T ` set c \<longleftrightarrow> num (it_sign ?T) bs \<in> set c"
    by (rule type_value_member [OF c _ T val(2)]) (use usable in \<open>simp add: usable_type_def\<close>)
  have "smt_sem (\<rho>(Suc k := t)) (Inside ?tmp (inside_constants ?T c)) = VBool (t \<in> type_value ?T ` set c)" for t
    by (simp add: typed_var_def inside_constants_values)
  then have "(\<exists>t. sort_of_val t = type_sort ?T \<and> holds (BinaryOperator LogicalAndOpr (BinaryOperator EqualOpr n ?tmp)
      (Inside ?tmp (inside_constants ?T c))) (\<rho>(Suc k := t))) \<longleftrightarrow> VBits bs \<in> type_value ?T ` set c"
    unfolding n val(1) [symmetric]
    by (intro temporary_holds [where Q = "\<lambda>t. t \<in> type_value ?T ` set c"]) (use sort var_term_not_temporary [OF v] in auto)
  then show ?thesis
    unfolding context_inside_eq rs rbind_Inr Let_def p prod.sel mem by (intro exI conjI) (rule refl)
qed

lemma dist_meaning:
  assumes wf: "well_formed P (ctn, k)" and v: "var_term_ok P k v"
    and T: "usable_type T" "it_width T \<le> 64" "\<not> isBool (it_width T) (it_sign T)"
    and val: "\<rho> (var_id v) = VBits bs" "length bs = it_width T"
    and rs: "list_all (\<lambda>r. in_type T (left_of r) \<and> in_type T (right_of r) \<and> left_of r \<le> right_of r) rs"
  shows "\<exists>n ctn'. context_dist (DistReferenceExpr uni T rs) T rs v (ctn, k) = Inr (n, ctn', Suc k) \<and>
      ((\<exists>t. sort_of_val t = type_sort T \<and> holds n (\<rho>(Suc k := t))) \<longleftrightarrow>
         rs = [] \<or> (\<exists>r\<in>set rs. left_of r \<le> num (it_sign T) bs \<and> num (it_sign T) bs \<le> right_of r))"
proof -
  let ?tmp = "typed_var (Suc k) T"
  let ?in = "\<exists>r\<in>set rs. left_of r \<le> num (it_sign T) bs \<and> num (it_sign T) bs \<le> right_of r"
  have ranges: "list_all (\<lambda>r. left_of r \<le> right_of r) rs" "list_all (\<lambda>r. in_type T (left_of r) \<and> in_type T (right_of r)) rs"
    using rs by (simp_all add: list_all_iff)
  note draws = DistReferenceExpr_draws [OF T(1) ranges(1)]
  obtain n c' where p: "with_temporary (Suc k) T (DistReferenceExpr uni T rs ?tmp) v ctn = (n, c')" by fastforce
  obtain T' where n: "n = typed_var (var_id v) T'" using with_temporary_node [OF wf v T(1) draws p] by blast
  have sort: "sort_of_val (\<rho> (var_id v)) = type_sort T" using val T(3) by (simp add: type_sort_def term_sort_def)
  note a = var_term_not_temporary [OF v]
  have w: "0 < it_width T" using T(1) by (simp add: usable_type_def)
  have sem: "(case in_ranges_node T ?tmp rs None of None \<Rightarrow> rs = []
      | Some m \<Rightarrow> smt_sem (\<rho>(Suc k := \<rho> (var_id v))) m = VBool ?in)"
    using in_ranges_node_sem [of "\<rho>(Suc k := \<rho> (var_id v))" "Suc k" bs T rs None, OF _ val(2) ranges(2) w T(2,3)] val(1)
    by (simp split: option.splits)
  have "(\<exists>t. sort_of_val t = type_sort T \<and> holds (dist_constraint (BinaryOperator EqualOpr n ?tmp) (in_ranges_node T ?tmp rs None))
      (\<rho>(Suc k := t))) \<longleftrightarrow> rs = [] \<or> ?in"
  proof (cases "in_ranges_node T ?tmp rs None")
    case None
    have "holds (BinaryOperator EqualOpr n ?tmp) (\<rho>(Suc k := \<rho> (var_id v)))"
      using equal_vars_holds [of "\<rho>(Suc k := \<rho> (var_id v))" "var_id v" "Suc k"] a by (simp add: holds_def n)
    then show ?thesis using sem sort by (auto simp: None dist_constraint_def)
  next
    case (Some m)
    have "rs \<noteq> []" using Some by auto
    have "(\<exists>t. sort_of_val t = type_sort T \<and> holds (BinaryOperator LogicalAndOpr (BinaryOperator EqualOpr n ?tmp) m)
        (\<rho>(Suc k := t))) \<longleftrightarrow> ?in"
      unfolding n by (intro temporary_holds [where Q = "\<lambda>t. ?in"]) (use sort a sem Some in auto)
    then show ?thesis using \<open>rs \<noteq> []\<close> by (simp add: Some dist_constraint_def)
  qed
  then show ?thesis unfolding context_dist_eq Let_def p prod.sel by (intro exI conjI) (rule refl)
qed

text \<open>C40: \<open>inside\<close> and \<open>dist\<close> constrain a temporary variable that is equal to the given one. For a value of that
  one some value of the temporary variable satisfies the constraint if and only if the value is one of the
  collection, or lies in one of the ranges of the distribution; a distribution without ranges stands for the
  whole type.\<close>

theorem inside_dist_meaning:
  assumes "well_formed P (ctn, k)" and v: "var_term_ok P k v"
    and T: "var_type v = T" "it_width T \<le> 64" "\<not> isBool (it_width T) (it_sign T)"
    and "\<rho> (var_id v) = VBits bs" "length bs = it_width T"
  shows "(list_all (in_type T) c \<longrightarrow>
      (\<exists>n ctn'. context_eval lr uni (operator_inside v c) (ctn, k) = Inr (n, ctn', Suc k) \<and>
         ((\<exists>t. sort_of_val t = type_sort T \<and> holds n (\<rho>(Suc k := t))) \<longleftrightarrow> num (it_sign T) bs \<in> set c))) \<and>
    (list_all (\<lambda>r. in_type T (left_of r) \<and> in_type T (right_of r) \<and> left_of r \<le> right_of r) rs \<longrightarrow>
      (\<exists>n ctn'. context_eval lr uni (operator_dist v T rs) (ctn, k) = Inr (n, ctn', Suc k) \<and>
         ((\<exists>t. sort_of_val t = type_sort T \<and> holds n (\<rho>(Suc k := t))) \<longleftrightarrow>
            rs = [] \<or> (\<exists>r\<in>set rs. left_of r \<le> num (it_sign T) bs \<and> num (it_sign T) bs \<le> right_of r))))"
proof -
  have usable: "usable_type T" using var_term_usable [OF v] T(1) by simp
  show ?thesis unfolding context_eval.simps
    using inside_meaning [of P ctn k v \<rho> bs c uni] dist_meaning [of P ctn k v T \<rho> bs rs uni] usable assms by simp
qed

theorem inside_dist_meaning_witness:
  "\<exists>n ctn'. context_eval True (\<lambda>a b r. (a, r)) (operator_inside (WriteReference 1 four_bits demo_ref) [3, 5]) (new_container, 1) =
      Inr (n, ctn', Suc 1) \<and>
    (\<exists>t. sort_of_val t = type_sort four_bits \<and> holds n (((\<lambda>_. VBits [True, False, True, False])) (Suc 1 := t)))"
proof -
  have four: "it_width four_bits = 4" "it_sign four_bits = False" by (simp_all add: four_bits_def)
  have "list_all (in_type four_bits) [3, 5]" by (simp add: in_type_def it_min_def it_max_def four)
  moreover have "num (it_sign four_bits) [True, False, True, False] \<in> set [3, 5]" by (simp add: num_def four)
  ultimately show ?thesis
    using inside_dist_meaning [OF new_container_well_formed(1) demo_var_ok, of four_bits "\<lambda>_. VBits [True, False, True, False]",
        where c = "[3, 5]" and rs = "[]" and lr = True and uni = "\<lambda>a b r. (a, r)"]
    by (simp add: four isBool_def)
qed

end
