(* ===== verification/CoverageBins.thy ===== *)
theory CoverageBins
  imports Constraints
begin

text \<open>
  Functional coverage (\<open>experimental/CoverageBins.hpp\<close>, \<open>experimental/CoverageConstructs.hpp\<close>): bins that
  count the samples an expression holds at, bins that count the samples a transition ends at, coverpoints
  and covergroups. The states of the automaton of a transition are linked by shared pointers, also backwards,
  and the links of a state change when a successor is added: they live in a store, a pointer is an index of
  it or \<open>None\<close>. Expressions are nodes, evaluated by the \<open>Evaluator\<close> of the covergroup.
\<close>

section \<open>States of a transition\<close>

datatype node_type = GOTO | CONSEC | NON_CONSEC

record fsm_state =
  fs_type :: node_type
  fs_succ :: "nat option"
  fs_prev :: "nat option"
  fs_expr :: node
  fs_minHit :: int
  fs_maxHit :: int

type_synonym fsm_store = "fsm_state list"

definition new_fsm_state :: "node \<Rightarrow> node_type \<Rightarrow> fsm_state" where
  "new_fsm_state nodeExpr pType = \<lparr>fs_type = pType, fs_succ = None, fs_prev = None, fs_expr = nodeExpr, fs_minHit = 1, fs_maxHit = 1\<rparr>"

definition addState :: "u32 \<Rightarrow> u32 \<Rightarrow> nat option \<Rightarrow> node \<Rightarrow> node_type \<Rightarrow> fsm_store \<Rightarrow> nat option \<times> fsm_store" where
  "addState N M nd expr pNodeType h =
     (if N \<le> 0 then (nd, h)
      else let nextNode = length h;
          st = (new_fsm_state expr pNodeType)\<lparr>fs_minHit := sint N, fs_maxHit := sint M, fs_prev := nd\<rparr>;
          h = h @ [st];
          h = (case nd of Some p \<Rightarrow> h[p := (h ! p)\<lparr>fs_succ := Some nextNode\<rparr>] | None \<Rightarrow> h)
        in (Some nextNode, h))"

definition consecutive_repeat :: "u32 \<Rightarrow> u32 \<Rightarrow> nat option \<Rightarrow> node \<Rightarrow> fsm_store \<Rightarrow> nat option \<times> fsm_store" where
  "consecutive_repeat N M nd expr h = addState N M nd expr CONSEC h"

definition goto_repeat :: "u32 \<Rightarrow> u32 \<Rightarrow> nat option \<Rightarrow> node \<Rightarrow> fsm_store \<Rightarrow> nat option \<times> fsm_store" where
  "goto_repeat N M nd expr h = addState N M nd expr GOTO h"

definition non_consecutive_repeat :: "u32 \<Rightarrow> u32 \<Rightarrow> nat option \<Rightarrow> node \<Rightarrow> fsm_store \<Rightarrow> nat option \<times> fsm_store" where
  "non_consecutive_repeat N M nd expr h = addState N M nd expr NON_CONSEC h"

definition next_state :: "nat option \<Rightarrow> node \<Rightarrow> fsm_store \<Rightarrow> nat option \<times> fsm_store" where
  "next_state nd expr h = consecutive_repeat 1 1 nd expr h"

section \<open>Hit counts\<close>

record abstract_bin =
  hit_minimum :: u32
  hit_count :: u32

definition incrementHit :: "'a abstract_bin_scheme \<Rightarrow> 'a abstract_bin_scheme" where
  "incrementHit b = b\<lparr>hit_count := hit_count b + 1\<rparr>"

definition bin_covered :: "'a abstract_bin_scheme \<Rightarrow> bool" where
  "bin_covered b \<longleftrightarrow> hit_count b \<ge> hit_minimum b"

text \<open>\<open>eval_.evaluate(e) && eval_.result<bool>()\<close>.\<close>

definition expr_hit :: "(node \<Rightarrow> nat) \<Rightarrow> node \<Rightarrow> evaluator \<Rightarrow> (bool \<times> evaluator) result" where
  "expr_hit rawid e eval = rbind (evaluate rawid e eval) (\<lambda>(k, eval). Inr (k \<and> get_result_bool eval, eval))"

record crv_bin = abstract_bin +
  bin_expr :: node

definition new_crv_bin :: "node \<Rightarrow> u32 \<Rightarrow> crv_bin" where
  "new_crv_bin expr pHitMinimum = \<lparr>hit_minimum = pHitMinimum, hit_count = 0, bin_expr = expr\<rparr>"

definition crv_bin_calcHit :: "(node \<Rightarrow> nat) \<Rightarrow> evaluator \<Rightarrow> crv_bin \<Rightarrow> (crv_bin \<times> evaluator) result" where
  "crv_bin_calcHit rawid eval b = rbind (expr_hit rawid (bin_expr b) eval) (\<lambda>(hit, eval).
     Inr (if hit then incrementHit b else b, eval))"

section \<open>Transition bins\<close>

text \<open>A pending match: the state it is in and how often the expression of the state has been hit.\<close>

record run =
  rn_state :: nat
  rn_count :: int

record transition_bin = abstract_bin +
  tb_root :: "nat option"
  tb_runs :: "run list"

definition crv_transition_bin :: "nat option \<Rightarrow> transition_bin" where
  "crv_transition_bin rootNode = \<lparr>hit_minimum = 1, hit_count = 0, tb_root = rootNode, tb_runs = []\<rparr>"

text \<open>Following a pointer that is null is undefined.\<close>

definition deref :: "fsm_store \<Rightarrow> nat option \<Rightarrow> fsm_state result" where
  "deref h p = (case p of Some a \<Rightarrow> if a < length h then Inr (h ! a) else Inl UndefinedBehaviour | None \<Rightarrow> Inl UndefinedBehaviour)"

text \<open>\<open>calcHit\<close> of a run: the runs it continues as, and whether the transition is complete.\<close>

definition run_calcHit :: "fsm_state \<Rightarrow> run \<Rightarrow> run list \<times> bool" where
  "run_calcHit st current =
     (let current = current\<lparr>rn_count := rn_count current + 1\<rparr>;
        belowMin = rn_count current < fs_minHit st;
        betweenMinMax = rn_count current \<ge> fs_minHit st \<and> rn_count current < fs_maxHit st
      in if belowMin then ([current], False)
         else if betweenMinMax then
           (case fs_succ st of
              None \<Rightarrow> ([current], True)
            | Some s \<Rightarrow> ([current, \<lparr>rn_state = s, rn_count = 0\<rparr>], False))
         else
           (case fs_succ st of
              None \<Rightarrow> ([], True)
            | Some s \<Rightarrow> ([\<lparr>rn_state = s, rn_count = 0\<rparr>], False)))"

definition hardFail :: "(node \<Rightarrow> nat) \<Rightarrow> fsm_store \<Rightarrow> fsm_state \<Rightarrow> run \<Rightarrow> evaluator \<Rightarrow> (run list \<times> evaluator) result" where
  "hardFail rawid h st current eval =
     (case fs_prev st of
        None \<Rightarrow> Inr ([], eval)
      | Some p \<Rightarrow> rbind (deref h (Some p)) (\<lambda>prev.
          if fs_type prev = NON_CONSEC then
            rbind (expr_hit rawid (fs_expr prev) eval) (\<lambda>(hitAgain, eval).
              Inr (if hitAgain then [] else [current], eval))
          else Inr ([], eval)))"

definition softFail :: "run \<Rightarrow> evaluator \<Rightarrow> run list \<times> evaluator" where
  "softFail current eval = ([current], eval)"

definition checkRun ::
    "(node \<Rightarrow> nat) \<Rightarrow> fsm_store \<Rightarrow> run \<Rightarrow> run list \<times> bool \<times> evaluator \<Rightarrow> (run list \<times> bool \<times> evaluator) result" where
  "checkRun rawid h current = (\<lambda>(resultRuns, hit, eval).
     rbind (deref h (Some (rn_state current))) (\<lambda>st.
     rbind (expr_hit rawid (fs_expr st) eval) (\<lambda>(wasHit, eval).
       if wasHit then
         let (rs, h) = run_calcHit st current in Inr (resultRuns @ rs, hit \<or> h, eval)
       else if fs_type st = CONSEC then
         rbind (hardFail rawid h st current eval) (\<lambda>(rs, eval). Inr (resultRuns @ rs, hit, eval))
       else
         let (rs, eval) = softFail current eval in Inr (resultRuns @ rs, hit, eval))))"

fun checkRuns ::
    "(node \<Rightarrow> nat) \<Rightarrow> fsm_store \<Rightarrow> run list \<Rightarrow> run list \<times> bool \<times> evaluator \<Rightarrow> (run list \<times> bool \<times> evaluator) result" where
  "checkRuns rawid h [] s = Inr s"
| "checkRuns rawid h (current # runs) s = rbind (checkRun rawid h current s) (checkRuns rawid h runs)"

definition transition_calcHit ::
    "(node \<Rightarrow> nat) \<Rightarrow> fsm_store \<Rightarrow> evaluator \<Rightarrow> transition_bin \<Rightarrow> (transition_bin \<times> evaluator) result" where
  "transition_calcHit rawid h eval b =
     rbind (checkRuns rawid h (tb_runs b) ([], False, eval)) (\<lambda>(resultRuns, hit, eval).
     rbind (deref h (tb_root b)) (\<lambda>root.
     rbind (expr_hit rawid (fs_expr root) eval) (\<lambda>(starts, eval).
     rbind (if starts then checkRun rawid h \<lparr>rn_state = the (tb_root b), rn_count = 0\<rparr> (resultRuns, hit, eval)
            else Inr (resultRuns, hit, eval)) (\<lambda>(resultRuns, hit, eval).
       Inr ((if hit then incrementHit b else b)\<lparr>tb_runs := resultRuns\<rparr>, eval)))))"

section \<open>Coverpoints\<close>

record coverpoint =
  simple_bins :: "crv_bin list"
  transition_bins :: "transition_bin list"

definition crv_coverpoint :: coverpoint where
  "crv_coverpoint = \<lparr>simple_bins = [], transition_bins = []\<rparr>"

definition add_simple_bins :: "node list \<Rightarrow> coverpoint \<Rightarrow> coverpoint" where
  "add_simple_bins elist cp = cp\<lparr>simple_bins := simple_bins cp @ map (\<lambda>e. new_crv_bin e 1) elist\<rparr>"

definition assign_bins :: "node list \<Rightarrow> coverpoint \<Rightarrow> coverpoint" where
  "assign_bins elist cp = add_simple_bins elist (cp\<lparr>simple_bins := []\<rparr>)"

definition add_transition_bin :: "transition_bin \<Rightarrow> coverpoint \<Rightarrow> coverpoint" where
  "add_transition_bin toAdd cp = cp\<lparr>transition_bins := transition_bins cp @ [toAdd]\<rparr>"

definition cross :: "coverpoint \<Rightarrow> coverpoint \<Rightarrow> crv_bin list" where
  "cross cp1 cp2 = concat (map (\<lambda>cb1. map (\<lambda>cb2.
     new_crv_bin (BinaryOperator LogicalAndOpr (bin_expr cb1) (bin_expr cb2)) 1) (simple_bins cp2)) (simple_bins cp1))"

definition coverpoint_covered :: "coverpoint \<Rightarrow> bool" where
  "coverpoint_covered cp \<longleftrightarrow> list_all bin_covered (simple_bins cp) \<and> list_all bin_covered (transition_bins cp)"

definition start_with :: "node \<Rightarrow> fsm_store \<Rightarrow> coverpoint \<Rightarrow> nat option \<times> fsm_store \<times> coverpoint" where
  "start_with expr h cp = (let (root, h) = next_state None expr h in (root, h, add_transition_bin (crv_transition_bin root) cp))"

definition start_with_consecutive :: "u32 \<Rightarrow> u32 \<Rightarrow> node \<Rightarrow> fsm_store \<Rightarrow> coverpoint \<Rightarrow> nat option \<times> fsm_store \<times> coverpoint" where
  "start_with_consecutive N M expr h cp =
     (let (root, h) = consecutive_repeat N M None expr h in (root, h, add_transition_bin (crv_transition_bin root) cp))"

definition start_with_goto :: "u32 \<Rightarrow> u32 \<Rightarrow> node \<Rightarrow> fsm_store \<Rightarrow> coverpoint \<Rightarrow> nat option \<times> fsm_store \<times> coverpoint" where
  "start_with_goto N M expr h cp =
     (let (root, h) = goto_repeat N M None expr h in (root, h, add_transition_bin (crv_transition_bin root) cp))"

definition start_with_nonconsecutive :: "u32 \<Rightarrow> u32 \<Rightarrow> node \<Rightarrow> fsm_store \<Rightarrow> coverpoint \<Rightarrow> nat option \<times> fsm_store \<times> coverpoint" where
  "start_with_nonconsecutive N M expr h cp =
     (let (root, h) = non_consecutive_repeat N M None expr h in (root, h, add_transition_bin (crv_transition_bin root) cp))"

fun calc_simple :: "(node \<Rightarrow> nat) \<Rightarrow> evaluator \<Rightarrow> crv_bin list \<Rightarrow> (crv_bin list \<times> evaluator) result" where
  "calc_simple rawid eval [] = Inr ([], eval)"
| "calc_simple rawid eval (b # bs) = rbind (crv_bin_calcHit rawid eval b) (\<lambda>(b, eval).
     rbind (calc_simple rawid eval bs) (\<lambda>(bs, eval). Inr (b # bs, eval)))"

fun calc_transitions ::
    "(node \<Rightarrow> nat) \<Rightarrow> fsm_store \<Rightarrow> evaluator \<Rightarrow> transition_bin list \<Rightarrow> (transition_bin list \<times> evaluator) result" where
  "calc_transitions rawid h eval [] = Inr ([], eval)"
| "calc_transitions rawid h eval (b # bs) = rbind (transition_calcHit rawid h eval b) (\<lambda>(b, eval).
     rbind (calc_transitions rawid h eval bs) (\<lambda>(bs, eval). Inr (b # bs, eval)))"

text \<open>The loop over \<open>all_bins\<close>: the simple bins, then the transition bins.\<close>

definition calc_coverpoint :: "(node \<Rightarrow> nat) \<Rightarrow> fsm_store \<Rightarrow> evaluator \<Rightarrow> coverpoint \<Rightarrow> (coverpoint \<times> evaluator) result" where
  "calc_coverpoint rawid h eval cp =
     rbind (calc_simple rawid eval (simple_bins cp)) (\<lambda>(sbs, eval).
     rbind (calc_transitions rawid h eval (transition_bins cp)) (\<lambda>(tbs, eval).
       Inr (cp\<lparr>simple_bins := sbs, transition_bins := tbs\<rparr>, eval)))"

section \<open>Covergroups\<close>

text \<open>
  The children of a covergroup by kind: a variable is its identifier and its current value as a constant,
  read from the memory \<open>'m\<close>, and the condition of its binding; a coverpoint is a pointer into the program's
  coverpoints; any other object is ignored.
\<close>

datatype 'm crv_child =
    crv_variable nat "'m \<Rightarrow> const_t" "'m \<Rightarrow> node"
  | crv_coverpoint_child nat
  | crv_other string

record 'm covergroup =
  cg_children :: "'m crv_child list"
  cg_points :: "nat list"
  cg_vars :: "(nat \<times> ('m \<Rightarrow> const_t) \<times> ('m \<Rightarrow> node)) list"
  cg_built :: bool
  cg_eval :: evaluator

definition crv_covergroup :: "'m crv_child list \<Rightarrow> 'm covergroup" where
  "crv_covergroup children = \<lparr>cg_children = children, cg_points = [], cg_vars = [], cg_built = False, cg_eval = new_evaluator\<rparr>"

fun build_child :: "'m crv_child \<Rightarrow> 'm covergroup \<Rightarrow> 'm covergroup" where
  "build_child (crv_variable i value bound) cg = cg\<lparr>cg_vars := cg_vars cg @ [(i, value, bound)]\<rparr>"
| "build_child (crv_coverpoint_child p) cg = cg\<lparr>cg_points := cg_points cg @ [p]\<rparr>"
| "build_child (crv_other k) cg = cg"

definition build_group :: "'m covergroup \<Rightarrow> 'm covergroup" where
  "build_group cg = fold build_child (cg_children cg) (cg\<lparr>cg_built := True\<rparr>)"

definition built :: "'m covergroup \<Rightarrow> 'm covergroup" where
  "built cg = (if \<not> cg_built cg then build_group cg else cg)"

fun calc_points ::
    "(node \<Rightarrow> nat) \<Rightarrow> fsm_store \<Rightarrow> nat list \<Rightarrow> (nat \<Rightarrow> coverpoint) \<Rightarrow> evaluator \<Rightarrow> ((nat \<Rightarrow> coverpoint) \<times> evaluator) result" where
  "calc_points rawid h [] cps eval = Inr (cps, eval)"
| "calc_points rawid h (p # ps) cps eval = rbind (calc_coverpoint rawid h eval (cps p)) (\<lambda>(cp, eval).
     calc_points rawid h ps (cps(p := cp)) eval)"

definition sample ::
    "(node \<Rightarrow> nat) \<Rightarrow> fsm_store \<Rightarrow> 'm \<Rightarrow> 'm covergroup \<times> (nat \<Rightarrow> coverpoint) \<Rightarrow> ('m covergroup \<times> (nat \<Rightarrow> coverpoint)) result" where
  "sample rawid h m = (\<lambda>(cg, cps).
     let cg = built cg; eval = fold (\<lambda>(i, value, bound). assign i (value m)) (cg_vars cg) (cg_eval cg)
     in rbind (calc_points rawid h (cg_points cg) cps eval) (\<lambda>(cps, eval). Inr (cg\<lparr>cg_eval := eval\<rparr>, cps)))"

definition uncovered_as_list :: "'m covergroup \<times> (nat \<Rightarrow> coverpoint) \<Rightarrow> node list \<times> 'm covergroup" where
  "uncovered_as_list = (\<lambda>(cg, cps). let cg = built cg
     in (concat (map (\<lambda>p. map bin_expr (filter (\<lambda>cb. \<not> bin_covered cb) (simple_bins (cps p)))) (cg_points cg)), cg))"

definition bound_var_expr_list :: "'m \<Rightarrow> 'm covergroup \<Rightarrow> node list \<times> 'm covergroup" where
  "bound_var_expr_list m cg = (let cg = built cg in (map (\<lambda>(i, value, bound). bound m) (cg_vars cg), cg))"

definition covergroup_covered :: "'m covergroup \<times> (nat \<Rightarrow> coverpoint) \<Rightarrow> bool \<times> 'm covergroup" where
  "covergroup_covered = (\<lambda>(cg, cps). let cg = built cg in (list_all (\<lambda>p. coverpoint_covered (cps p)) (cg_points cg), cg))"

end
