(* ===== verification/Transitions.thy ===== *)
theory Transitions
  imports CoverageBins
begin

text \<open>
  What a transition bin counts. The reference is a language of sequences of samples: a sequence matches a
  transition when it splits into one block for each state, and the automaton of the bin is in a state after
  some samples exactly when a suffix of them is a match of the states before it and a part of a block.
\<close>

section \<open>The language of a transition\<close>

type_synonym valuation = "nat \<Rightarrow> const_t"

definition true_at :: "valuation \<Rightarrow> node \<Rightarrow> bool" where
  "true_at \<rho> e \<longleftrightarrow> (case den \<rho> e of Some c \<Rightarrow> cvalue c \<noteq> 0 | None \<Rightarrow> False)"

definition step_hit :: "fsm_state list \<Rightarrow> nat \<Rightarrow> valuation \<Rightarrow> bool" where
  "step_hit steps i \<rho> \<longleftrightarrow> true_at \<rho> (fs_expr (steps ! i))"

text \<open>
  A sample that does not hit may pass in a goto and a nonconsecutive repetition, and after a nonconsecutive
  repetition, if it is not another hit of that one.
\<close>

definition step_wait :: "fsm_state list \<Rightarrow> nat \<Rightarrow> valuation \<Rightarrow> bool" where
  "step_wait steps i \<rho> \<longleftrightarrow> fs_type (steps ! i) \<noteq> CONSEC \<or>
     0 < i \<and> fs_type (steps ! (i - 1)) = NON_CONSEC \<and> \<not> step_hit steps (i - 1) \<rho>"

definition most_hits :: "fsm_state \<Rightarrow> int" where
  "most_hits st = max (fs_minHit st) (fs_maxHit st)"

definition hits_in :: "fsm_state list \<Rightarrow> nat \<Rightarrow> valuation list \<Rightarrow> int" where
  "hits_in steps i u = int (length (filter (step_hit steps i) u))"

definition passes :: "fsm_state list \<Rightarrow> nat \<Rightarrow> valuation list \<Rightarrow> bool" where
  "passes steps i u \<longleftrightarrow> (\<forall>\<rho>\<in>set u. step_hit steps i \<rho> \<or> step_wait steps i \<rho>)"

definition block :: "fsm_state list \<Rightarrow> nat \<Rightarrow> valuation list \<Rightarrow> bool" where
  "block steps i u \<longleftrightarrow> u \<noteq> [] \<and> step_hit steps i (last u) \<and> passes steps i u \<and>
     fs_minHit (steps ! i) \<le> hits_in steps i u \<and> hits_in steps i u \<le> most_hits (steps ! i)"

definition blocks :: "fsm_state list \<Rightarrow> valuation list list \<Rightarrow> bool" where
  "blocks steps us \<longleftrightarrow> (\<forall>i<length us. block steps i (us ! i))"

text \<open>Some of the last samples match the transition.\<close>

definition ends_match :: "fsm_state list \<Rightarrow> valuation list \<Rightarrow> bool" where
  "ends_match steps ws \<longleftrightarrow> (\<exists>pre us. ws = pre @ concat us \<and> length us = length steps \<and> blocks steps us)"

section \<open>Configurations\<close>

definition reach :: "fsm_state list \<Rightarrow> valuation list \<Rightarrow> nat \<Rightarrow> int \<Rightarrow> bool" where
  "reach steps ws i c \<longleftrightarrow> (\<exists>pre us u. ws = pre @ concat us @ u \<and> length us = i \<and> blocks steps us \<and>
     passes steps i u \<and> hits_in steps i u = c \<and> c < most_hits (steps ! i))"

lemma reachI:
  "ws = pre @ concat us @ u \<Longrightarrow> length us = i \<Longrightarrow> blocks steps us \<Longrightarrow> passes steps i u \<Longrightarrow> hits_in steps i u = c \<Longrightarrow>
   c < most_hits (steps ! i) \<Longrightarrow> reach steps ws i c"
  unfolding reach_def by blast

lemma hits_in_snoc: "hits_in steps i (u @ [x]) = hits_in steps i u + of_bool (step_hit steps i x)"
  by (simp add: hits_in_def)

lemma passes_snoc: "passes steps i (u @ [x]) \<longleftrightarrow> passes steps i u \<and> (step_hit steps i x \<or> step_wait steps i x)"
  by (auto simp: passes_def)

lemma hits_in_nonneg: "0 \<le> hits_in steps i u"
  by (simp add: hits_in_def)

lemma blocks_snoc: "blocks steps (us @ [u]) \<longleftrightarrow> blocks steps us \<and> block steps (length us) u"
  by (auto simp: blocks_def nth_append less_Suc_eq)

lemma block_snoc:
  "block steps i (u @ [x]) \<longleftrightarrow> step_hit steps i x \<and> passes steps i u \<and>
     fs_minHit (steps ! i) \<le> hits_in steps i u + 1 \<and> hits_in steps i u + 1 \<le> most_hits (steps ! i)"
  by (auto simp: block_def passes_snoc hits_in_snoc)

lemma reach_start: "1 \<le> most_hits (steps ! 0) \<Longrightarrow> reach steps ws 0 0"
  unfolding reach_def by (intro exI [of _ ws] exI [of _ "[]"]) (simp add: blocks_def passes_def hits_in_def)

lemma reach_empty: "reach steps [] i c \<longleftrightarrow> i = 0 \<and> c = 0 \<and> 0 < most_hits (steps ! 0)"
proof
  assume "reach steps [] i c"
  then obtain us u where "concat us = []" "u = []" "length us = i" "blocks steps us" "hits_in steps i u = c" "c < most_hits (steps ! i)"
    by (auto simp: reach_def)
  moreover from this have "us = []" by (cases us) (auto simp: blocks_def block_def)
  ultimately show "i = 0 \<and> c = 0 \<and> 0 < most_hits (steps ! 0)" by (auto simp: hits_in_def)
qed (auto simp: reach_def blocks_def passes_def hits_in_def)

text \<open>A hit that completes a block.\<close>

definition completes :: "fsm_state list \<Rightarrow> valuation list \<Rightarrow> valuation \<Rightarrow> nat \<Rightarrow> bool" where
  "completes steps ws x i \<longleftrightarrow> step_hit steps i x \<and> (\<exists>c. reach steps ws i c \<and> fs_minHit (steps ! i) \<le> c + 1)"

lemma ends_block:
  "(\<exists>pre us. ws @ [x] = pre @ concat us \<and> length us = Suc i \<and> blocks steps us) \<longleftrightarrow> completes steps ws x i"
proof
  assume "\<exists>pre us. ws @ [x] = pre @ concat us \<and> length us = Suc i \<and> blocks steps us"
  then obtain pre us where us: "ws @ [x] = pre @ concat us" "length us = Suc i" "blocks steps us" by blast
  obtain vs v where v: "us = vs @ [v]" using us(2) by (cases us rule: rev_cases) auto
  then have b: "blocks steps vs" "block steps i v" "length vs = i" using us(2,3) by (simp_all add: blocks_snoc)
  obtain v' where v': "v = v' @ [x]" "ws = pre @ concat vs @ v'"
    using us(1) b(2) unfolding v by (cases v rule: rev_cases) (auto simp: block_def)
  show "completes steps ws x i"
    using b v' unfolding completes_def reach_def block_snoc v'(1) by (intro conjI exI [of _ "hits_in steps i v'"]) auto
next
  assume "completes steps ws x i"
  then obtain pre us u where "step_hit steps i x" "ws = pre @ concat us @ u" "length us = i" "blocks steps us" "passes steps i u"
    "hits_in steps i u < most_hits (steps ! i)" "fs_minHit (steps ! i) \<le> hits_in steps i u + 1"
    by (auto simp: completes_def reach_def)
  then show "\<exists>pre us. ws @ [x] = pre @ concat us \<and> length us = Suc i \<and> blocks steps us"
    by (intro exI [of _ pre] exI [of _ "us @ [u @ [x]]"]) (simp add: blocks_snoc block_snoc)
qed

lemma ends_match_snoc: "steps \<noteq> [] \<Longrightarrow> ends_match steps (ws @ [x]) \<longleftrightarrow> completes steps ws x (length steps - 1)"
  unfolding ends_match_def ends_block [symmetric] by simp

lemma reach_snoc:
  assumes "0 < most_hits (steps ! i)"
  shows "reach steps (ws @ [x]) i c \<longleftrightarrow>
    reach steps ws i c \<and> \<not> step_hit steps i x \<and> step_wait steps i x \<or>
    reach steps ws i (c - 1) \<and> step_hit steps i x \<and> c < most_hits (steps ! i) \<or>
    c = 0 \<and> (i = 0 \<or> completes steps ws x (i - 1))"
proof
  assume "reach steps (ws @ [x]) i c"
  then obtain pre us u where u: "ws @ [x] = pre @ concat us @ u" "length us = i" "blocks steps us"
     "passes steps i u" "hits_in steps i u = c" "c < most_hits (steps ! i)" by (auto simp: reach_def)
  show "reach steps ws i c \<and> \<not> step_hit steps i x \<and> step_wait steps i x \<or>
    reach steps ws i (c - 1) \<and> step_hit steps i x \<and> c < most_hits (steps ! i) \<or>
    c = 0 \<and> (i = 0 \<or> completes steps ws x (i - 1))"
  proof (cases u rule: rev_cases)
    case Nil
    then have "ws @ [x] = pre @ concat us" "c = 0" using u by (simp_all add: hits_in_def)
    then show ?thesis using u(2,3) ends_block [of ws x "i - 1" steps] by (cases i) auto
  next
    case (snoc v y)
    then have v: "y = x" "ws = pre @ concat us @ v" using u(1) by auto
    have p: "passes steps i v" "step_hit steps i x \<or> step_wait steps i x" "hits_in steps i v + of_bool (step_hit steps i x) = c"
      using u(4,5) by (simp_all add: snoc v(1) passes_snoc hits_in_snoc)
    have "reach steps ws i (hits_in steps i v)"
      by (rule reachI [OF v(2) u(2,3) p(1) refl]) (use p(3) u(6) in \<open>cases "step_hit steps i x"; simp\<close>)
    then show ?thesis using p u(6) by (cases "step_hit steps i x") auto
  qed
next
  assume *: "reach steps ws i c \<and> \<not> step_hit steps i x \<and> step_wait steps i x \<or>
    reach steps ws i (c - 1) \<and> step_hit steps i x \<and> c < most_hits (steps ! i) \<or>
    c = 0 \<and> (i = 0 \<or> completes steps ws x (i - 1))"
  have extend: "reach steps (ws @ [x]) i (c' + of_bool (step_hit steps i x))"
    if r: "reach steps ws i c'" and x: "step_hit steps i x \<or> step_wait steps i x" "c' + of_bool (step_hit steps i x) < most_hits (steps ! i)" for c'
  proof -
    obtain pre us u where "ws = pre @ concat us @ u" "length us = i" "blocks steps us" "passes steps i u" "hits_in steps i u = c'"
      using r by (auto simp: reach_def)
    then show ?thesis using x by (intro reachI [of _ pre us "u @ [x]"]) (simp_all add: passes_snoc hits_in_snoc)
  qed
  from * consider "reach steps ws i c" "\<not> step_hit steps i x" "step_wait steps i x"
    | "reach steps ws i (c - 1)" "step_hit steps i x" "c < most_hits (steps ! i)" | "c = 0" "i = 0" | "c = 0" "i \<noteq> 0" "completes steps ws x (i - 1)"
    by blast
  then show "reach steps (ws @ [x]) i c"
  proof cases
    case 1
    then have "c < most_hits (steps ! i)" by (auto simp: reach_def)
    then show ?thesis using extend [of c] 1 by simp
  next
    case 2
    then show ?thesis using extend [of "c - 1"] by simp
  next
    case 3
    then show ?thesis using reach_start [of steps] assms by simp
  next
    case 4
    then obtain pre us where "ws @ [x] = pre @ concat us" "length us = i" "blocks steps us"
      using ends_block [of ws x "i - 1" steps] by auto
    then show ?thesis using 4(1) assms by (intro reachI [of _ pre us "[]"]) (simp_all add: passes_def hits_in_def)
  qed
qed

section \<open>What a configuration continues as\<close>

definition continues :: "fsm_state list \<Rightarrow> valuation \<Rightarrow> nat \<times> int \<Rightarrow> (nat \<times> int) list" where
  "continues steps x = (\<lambda>(i, c).
     if step_hit steps i x then
       (if c + 1 < most_hits (steps ! i) then [(i, c + 1)] else []) @
       (if fs_minHit (steps ! i) \<le> c + 1 \<and> Suc i < length steps then [(Suc i, 0)] else [])
     else if step_wait steps i x then [(i, c)] else [])"

definition finishes :: "fsm_state list \<Rightarrow> valuation \<Rightarrow> nat \<times> int \<Rightarrow> bool" where
  "finishes steps x = (\<lambda>(i, c). step_hit steps i x \<and> fs_minHit (steps ! i) \<le> c + 1 \<and> Suc i = length steps)"

definition steps_ok :: "fsm_state list \<Rightarrow> bool" where
  "steps_ok steps \<longleftrightarrow> steps \<noteq> [] \<and> (\<forall>st\<in>set steps. 1 \<le> fs_minHit st)"

definition configs :: "fsm_state list \<Rightarrow> valuation list \<Rightarrow> (nat \<times> int) set" where
  "configs steps ws = {(i, c). i < length steps \<and> reach steps ws i c \<and> (i, c) \<noteq> (0, 0)}"

text \<open>The configurations after another sample, with a new one at each hit of the first state.\<close>

definition sampled :: "fsm_state list \<Rightarrow> valuation \<Rightarrow> (nat \<times> int) list \<Rightarrow> (nat \<times> int) list" where
  "sampled steps x cs = cs @ (if step_hit steps 0 x then [(0, 0)] else [])"

lemma most_hits_pos: "steps_ok steps \<Longrightarrow> i < length steps \<Longrightarrow> 0 < most_hits (steps ! i)"
proof -
  assume "steps_ok steps" "i < length steps"
  then have "1 \<le> fs_minHit (steps ! i)" using nth_mem by (simp add: steps_ok_def)
  then show ?thesis by (simp add: most_hits_def)
qed

lemma mem_continues:
  "(j, d) \<in> set (continues steps x (i, c)) \<longleftrightarrow>
    j = i \<and> d = c \<and> \<not> step_hit steps i x \<and> step_wait steps i x \<or>
    j = i \<and> d = c + 1 \<and> step_hit steps i x \<and> d < most_hits (steps ! i) \<or>
    j = Suc i \<and> d = 0 \<and> Suc i < length steps \<and> step_hit steps i x \<and> fs_minHit (steps ! i) \<le> c + 1"
  by (auto simp: continues_def)

lemma sampled_iff:
  assumes ok: "steps_ok steps" and cs: "set cs = configs steps ws"
  shows "(i, c) \<in> set (sampled steps x cs) \<longleftrightarrow> i < length steps \<and> reach steps ws i c \<and> ((i, c) \<noteq> (0, 0) \<or> step_hit steps 0 x)"
proof -
  have "reach steps ws 0 0" by (rule reach_start) (use most_hits_pos [OF ok, of 0] ok in \<open>auto simp: steps_ok_def\<close>)
  moreover have "0 < length steps" using ok by (simp add: steps_ok_def)
  ultimately show ?thesis by (auto simp: sampled_def cs configs_def)
qed

lemma configs_snoc:
  assumes ok: "steps_ok steps" and cs: "set cs = configs steps ws"
  shows "set (concat (map (continues steps x) (sampled steps x cs))) = configs steps (ws @ [x])"
proof -
  note from_cfg = sampled_iff [OF assms]
  have "(j, d) \<in> set (concat (map (continues steps x) (sampled steps x cs))) \<longleftrightarrow> (j, d) \<in> configs steps (ws @ [x])" (is "?L \<longleftrightarrow> ?R") for j d
  proof
    assume ?L
    then obtain i c where i: "(i, c) \<in> set (sampled steps x cs)" "(j, d) \<in> set (continues steps x (i, c))" by auto
    then have r: "i < length steps" "reach steps ws i c" "(i, c) \<noteq> (0, 0) \<or> step_hit steps 0 x" by (simp_all add: from_cfg)
    have c: "0 \<le> c" using r(2) by (auto simp: reach_def hits_in_nonneg)
    show ?R using i(2) unfolding mem_continues
    proof (elim disjE conjE)
      assume "j = i" "d = c" "\<not> step_hit steps i x" "step_wait steps i x"
      then show ?thesis using r by (auto simp: configs_def reach_snoc [OF most_hits_pos [OF ok r(1)]])
    next
      assume "j = i" "d = c + 1" "step_hit steps i x" "d < most_hits (steps ! i)"
      then show ?thesis using r c by (simp add: configs_def reach_snoc [OF most_hits_pos [OF ok r(1)]])
    next
      assume *: "j = Suc i" "d = 0" "Suc i < length steps" "step_hit steps i x" "fs_minHit (steps ! i) \<le> c + 1"
      then have "completes steps ws x i" using r(2) by (auto simp: completes_def)
      then show ?thesis using * by (simp add: configs_def reach_snoc [OF most_hits_pos [OF ok *(3)]])
    qed
  next
    assume ?R
    then have j: "j < length steps" "reach steps (ws @ [x]) j d" "(j, d) \<noteq> (0, 0)" by (simp_all add: configs_def)
    have mem: ?L if "(i, c) \<in> set (sampled steps x cs)" "(j, d) \<in> set (continues steps x (i, c))" for i c
      using that by (auto intro!: bexI [of _ "(i, c)"])
    from j(2) show ?L unfolding reach_snoc [OF most_hits_pos [OF ok j(1)]]
    proof (elim disjE conjE)
      assume "reach steps ws j d" "\<not> step_hit steps j x" "step_wait steps j x"
      then show ?thesis by (intro mem [of j d]) (use j in \<open>simp_all add: from_cfg mem_continues\<close>)
    next
      assume "reach steps ws j (d - 1)" "step_hit steps j x" "d < most_hits (steps ! j)"
      moreover from this have "(j, d - 1) \<in> set (sampled steps x cs)" unfolding from_cfg using j(1) by (cases "j = 0") simp_all
      ultimately show ?thesis by (intro mem [of j "d - 1"]) (simp_all add: mem_continues)
    next
      assume d: "d = 0" "j = 0"
      then show ?thesis using j(3) by simp
    next
      assume d: "d = 0" and comp: "completes steps ws x (j - 1)"
      then have "j \<noteq> 0" using j(3) by auto
      obtain c where "step_hit steps (j - 1) x" "reach steps ws (j - 1) c" "fs_minHit (steps ! (j - 1)) \<le> c + 1"
        using comp by (auto simp: completes_def)
      then show ?thesis by (intro mem [of "j - 1" c]) (use j d \<open>j \<noteq> 0\<close> in \<open>auto simp: from_cfg mem_continues\<close>)
    qed
  qed
  then show ?thesis by auto
qed

lemma finishes_iff:
  assumes ok: "steps_ok steps" and cs: "set cs = configs steps ws"
  shows "list_ex (finishes steps x) (sampled steps x cs) \<longleftrightarrow> ends_match steps (ws @ [x])"
proof -
  have nonempty: "steps \<noteq> []" using ok by (simp add: steps_ok_def)
  then obtain k where k: "length steps = Suc k" by (cases steps) auto
  have "list_ex (finishes steps x) (sampled steps x cs) \<longleftrightarrow> (\<exists>c. (k, c) \<in> set (sampled steps x cs) \<and> step_hit steps k x \<and> fs_minHit (steps ! k) \<le> c + 1)"
    by (auto simp: list_ex_iff finishes_def k)
  also have "\<dots> \<longleftrightarrow> completes steps ws x k"
    unfolding sampled_iff [OF assms] completes_def k by (cases "step_hit steps k x"; cases "k = 0") auto
  finally show ?thesis by (simp add: ends_match_snoc [OF nonempty] k)
qed

lemma configs_empty: "steps_ok steps \<Longrightarrow> configs steps [] = {}"
  by (auto simp: configs_def reach_empty)

section \<open>The chain of states of a bin\<close>

text \<open>\<open>as\<close> lists the addresses of the states, from the root along the successors.\<close>

definition chain :: "fsm_store \<Rightarrow> nat list \<Rightarrow> bool" where
  "chain h as \<longleftrightarrow> as \<noteq> [] \<and> distinct as \<and> (\<forall>a\<in>set as. a < length h) \<and>
     (\<forall>i<length as. fs_succ (h ! (as ! i)) = (if Suc i < length as then Some (as ! Suc i) else None) \<and>
        fs_prev (h ! (as ! i)) = (if i = 0 then None else Some (as ! (i - 1))))"

definition steps_at :: "fsm_store \<Rightarrow> nat list \<Rightarrow> fsm_state list" where
  "steps_at h as = map ((!) h) as"

lemma steps_at_nth [simp]: "i < length as \<Longrightarrow> steps_at h as ! i = h ! (as ! i)" "length (steps_at h as) = length as"
  by (simp_all add: steps_at_def)

definition run_at :: "nat list \<Rightarrow> nat \<times> int \<Rightarrow> run" where
  "run_at as = (\<lambda>(i, c). \<lparr>rn_state = as ! i, rn_count = c\<rparr>)"

lemma run_calcHit_continues:
  assumes "chain h as" and "i < length as" and "step_hit (steps_at h as) i x"
  shows "run_calcHit (h ! (as ! i)) (run_at as (i, c)) =
    (map (run_at as) (continues (steps_at h as) x (i, c)), finishes (steps_at h as) x (i, c))"
proof -
  have s: "fs_succ (h ! (as ! i)) = (if Suc i < length as then Some (as ! Suc i) else None)"
    using assms(1,2) by (simp add: chain_def)
  show ?thesis using assms(2,3)
    by (auto simp: run_calcHit_def s run_at_def continues_def finishes_def most_hits_def Let_def)
qed

text \<open>Evaluating the expressions of a set \<open>E\<close> with the values \<open>x\<close> of a sample.\<close>

locale sampler =
  fixes rawid :: "node \<Rightarrow> nat" and keeps :: "evaluator \<Rightarrow> bool" and x :: valuation and E :: "node set"
  assumes hit_law: "e \<in> E \<Longrightarrow> keeps ev \<Longrightarrow> \<exists>ev'. expr_hit rawid e ev = Inr (true_at x e, ev') \<and> keeps ev'"

context sampler
begin

lemma checkRun_continues:
  assumes ch: "chain h as" and E: "\<forall>a\<in>set as. fs_expr (h ! a) \<in> E" and i: "i < length as" and ev: "keeps ev"
  shows "\<exists>ev'. checkRun rawid h (run_at as (i, c)) (rs, hit, ev) =
    Inr (rs @ map (run_at as) (continues (steps_at h as) x (i, c)), hit \<or> finishes (steps_at h as) x (i, c), ev') \<and> keeps ev'"
proof -
  let ?steps = "steps_at h as" and ?st = "h ! (as ! i)"
  have mem: "as ! j < length h" "fs_expr (h ! (as ! j)) \<in> E" if "j < length as" for j
    using ch E that by (simp_all add: chain_def)
  have d: "deref h (Some (as ! j)) = Inr (h ! (as ! j))" if "j < length as" for j using mem(1) [OF that] by (simp add: deref_def)
  have r: "rn_state (run_at as (i, c)) = as ! i" by (simp add: run_at_def)
  obtain ev1 where ev1: "expr_hit rawid (fs_expr ?st) ev = Inr (step_hit ?steps i x, ev1)" "keeps ev1"
    using hit_law [OF mem(2) [OF i] ev] i by (auto simp: step_hit_def)
  show ?thesis
  proof (cases "step_hit ?steps i x")
    case True
    then show ?thesis using ev1 run_calcHit_continues [OF ch i True, of c] by (simp add: checkRun_def r d [OF i] Let_def)
  next
    case False
    have no: "\<not> finishes ?steps x (i, c)" using False by (simp add: finishes_def)
    show ?thesis
    proof (cases "fs_type ?st = CONSEC")
      case soft: False
      then have "continues ?steps x (i, c) = [(i, c)]" using False i by (simp add: continues_def step_wait_def)
      then show ?thesis using ev1 False soft no by (simp add: checkRun_def r d [OF i] softFail_def)
    next
      case consec: True
      have p: "fs_prev ?st = (if i = 0 then None else Some (as ! (i - 1)))" using ch i by (simp add: chain_def)
      have w: "step_wait ?steps i x \<longleftrightarrow> 0 < i \<and> fs_type (h ! (as ! (i - 1))) = NON_CONSEC \<and> \<not> step_hit ?steps (i - 1) x"
        using consec i by (simp add: step_wait_def)
      show ?thesis
      proof (cases "0 < i \<and> fs_type (h ! (as ! (i - 1))) = NON_CONSEC")
        case no_wait: False
        then have "hardFail rawid h ?st (run_at as (i, c)) ev1 = Inr ([], ev1)"
          using d [of "i - 1"] i by (auto simp: hardFail_def p)
        moreover have "continues ?steps x (i, c) = []" using no_wait w False by (auto simp: continues_def)
        ultimately show ?thesis using ev1 False consec no by (simp add: checkRun_def r d [OF i])
      next
        case wait: True
        then have j: "i - 1 < length as" using i by simp
        obtain ev2 where ev2: "expr_hit rawid (fs_expr (h ! (as ! (i - 1)))) ev1 = Inr (step_hit ?steps (i - 1) x, ev2)" "keeps ev2"
          using hit_law [OF mem(2) [OF j] ev1(2)] j by (auto simp: step_hit_def)
        have "hardFail rawid h ?st (run_at as (i, c)) ev1 = Inr (if step_hit ?steps (i - 1) x then [] else [run_at as (i, c)], ev2)"
          using wait d [OF j] ev2(1) by (simp add: hardFail_def p)
        moreover have "continues ?steps x (i, c) = (if step_hit ?steps (i - 1) x then [] else [(i, c)])"
          using wait w False by (simp add: continues_def)
        ultimately show ?thesis using ev1 ev2 False consec no by (simp add: checkRun_def r d [OF i])
      qed
    qed
  qed
qed

lemma checkRuns_continue:
  assumes ch: "chain h as" and E: "\<forall>a\<in>set as. fs_expr (h ! a) \<in> E" and "\<forall>(i, c)\<in>set cs. i < length as" and "keeps ev"
  shows "\<exists>ev'. checkRuns rawid h (map (run_at as) cs) (rs, hit, ev) =
    Inr (rs @ map (run_at as) (concat (map (continues (steps_at h as) x) cs)), hit \<or> list_ex (finishes (steps_at h as) x) cs, ev') \<and> keeps ev'"
  using assms(3,4)
proof (induction cs arbitrary: rs hit ev)
  case (Cons p cs)
  obtain i c where p: "p = (i, c)" by (cases p)
  have i: "i < length as" using Cons.prems(1) p by simp
  obtain ev1 where ev1: "checkRun rawid h (run_at as (i, c)) (rs, hit, ev) =
      Inr (rs @ map (run_at as) (continues (steps_at h as) x (i, c)), hit \<or> finishes (steps_at h as) x (i, c), ev1)" "keeps ev1"
    using checkRun_continues [OF ch E i Cons.prems(2), of c rs hit] by blast
  show ?case using Cons.IH [OF _ ev1(2), of "rs @ map (run_at as) (continues (steps_at h as) x (i, c))" "hit \<or> finishes (steps_at h as) x (i, c)"]
      Cons.prems(1) ev1(1) by (auto simp: p)
qed simp

text \<open>One sample of a transition bin.\<close>

lemma transition_calcHit_sampled:
  assumes ch: "chain h as" and E: "\<forall>a\<in>set as. fs_expr (h ! a) \<in> E" and cs: "\<forall>(i, c)\<in>set cs. i < length as" and ev: "keeps ev"
    and b: "tb_root b = Some (as ! 0)" "tb_runs b = map (run_at as) cs"
  shows "\<exists>ev'. transition_calcHit rawid h ev b =
    Inr ((if list_ex (finishes (steps_at h as) x) (sampled (steps_at h as) x cs) then incrementHit b else b)
      \<lparr>tb_runs := map (run_at as) (concat (map (continues (steps_at h as) x) (sampled (steps_at h as) x cs)))\<rparr>, ev') \<and> keeps ev'"
proof -
  let ?steps = "steps_at h as"
  let ?rs = "map (run_at as) (concat (map (continues ?steps x) cs))" and ?hit = "list_ex (finishes ?steps x) cs"
  have n: "0 < length as" "as ! 0 < length h" "fs_expr (h ! (as ! 0)) \<in> E" using ch E by (auto simp: chain_def)
  obtain ev1 where ev1: "checkRuns rawid h (tb_runs b) ([], False, ev) = Inr (?rs, ?hit, ev1)" "keeps ev1"
    using checkRuns_continue [OF ch E cs ev, of "[]" False] by (auto simp: b)
  obtain ev2 where ev2: "expr_hit rawid (fs_expr (h ! (as ! 0))) ev1 = Inr (step_hit ?steps 0 x, ev2)" "keeps ev2"
    using hit_law [OF n(3) ev1(2)] n(1) by (auto simp: step_hit_def)
  have run0: "\<lparr>rn_state = as ! 0, rn_count = 0\<rparr> = run_at as (0, 0)" by (simp add: run_at_def)
  obtain ev3 where ev3: "checkRun rawid h (run_at as (0, 0)) (?rs, ?hit, ev2) =
      Inr (?rs @ map (run_at as) (continues ?steps x (0, 0)), ?hit \<or> finishes ?steps x (0, 0), ev3)" "keeps ev3"
    using checkRun_continues [OF ch E n(1) ev2(2), of 0 ?rs ?hit] by blast
  have start: "transition_calcHit rawid h ev b =
      rbind (if step_hit ?steps 0 x then checkRun rawid h (run_at as (0, 0)) (?rs, ?hit, ev2) else Inr (?rs, ?hit, ev2))
        (\<lambda>(rs, hit, ev). Inr ((if hit then incrementHit b else b)\<lparr>tb_runs := rs\<rparr>, ev))"
    using n(2) by (simp add: transition_calcHit_def ev1(1) ev2(1) deref_def b(1) run0)
  show ?thesis
  proof (cases "step_hit ?steps 0 x")
    case True
    then show ?thesis using ev3 unfolding start by (simp add: sampled_def)
  next
    case False
    then show ?thesis using ev2(2) unfolding start by (simp add: sampled_def)
  qed
qed

lemma crv_bin_sampled:
  "bin_expr b \<in> E \<Longrightarrow> keeps ev \<Longrightarrow> \<exists>ev'. crv_bin_calcHit rawid ev b = Inr (if true_at x (bin_expr b) then incrementHit b else b, ev') \<and> keeps ev'"
  using hit_law [of "bin_expr b" ev] by (auto simp: crv_bin_calcHit_def)

end

text \<open>The evaluator of a covergroup, once its variables are assigned.\<close>

definition assigns :: "nat set \<Rightarrow> valuation \<Rightarrow> evaluator \<Rightarrow> bool" where
  "assigns V x ev \<longleftrightarrow> (\<forall>i\<in>V. assignments ev i = Some (x i))"

definition evaluable :: "nat set \<Rightarrow> valuation \<Rightarrow> node \<Rightarrow> bool" where
  "evaluable V x e \<longleftrightarrow> node_vars e \<subseteq> V \<and> slice_free e \<and> den x e \<noteq> None"

lemma expr_hit_true_at:
  assumes "evaluable V x e" and "assigns V x ev"
  shows "\<exists>ev'. expr_hit rawid e ev = Inr (true_at x e, ev') \<and> assigns V x ev'"
proof -
  obtain c where c: "den x e = Some c" "slice_free e" and V: "node_vars e \<subseteq> V" using assms(1) by (auto simp: evaluable_def)
  have "assigned x e (assignments ev)" using assms(2) V by (auto simp: assigned_def assigns_def)
  then have "assigned x e (evalMap \<lparr>exprStack = visitorStack ev, evalMap = assignments ev\<rparr>)" by simp
  from eval_visit_complete [OF c this, of rawid] obtain s' where
    s': "eval_visit rawid e \<lparr>exprStack = visitorStack ev, evalMap = assignments ev\<rparr> = Inr s'"
      "exprStack s' = (c, True) # visitorStack ev" "assignments ev \<subseteq>\<^sub>m evalMap s'" by auto
  have "assigns V x (\<lparr>assignments = evalMap s', visitorStack = visitorStack ev, result_value = c\<rparr>)"
    using assms(2) s'(3) by (auto simp: assigns_def map_le_def dom_def)
  then show ?thesis using s'(1,2) c(1) by (simp add: expr_hit_def evaluate_def get_result_bool_def true_at_def)
qed

interpretation group_sampler: sampler rawid "assigns V x" x "{e. evaluable V x e}"
  by unfold_locales (use expr_hit_true_at in blast)

end
