(* ===== verification/TransitionsCorrect.thy ===== *)
theory TransitionsCorrect
  imports Transitions
begin

text \<open>
  What a covergroup counts: every simple bin the samples at which its expression is true, every transition
  bin the samples at which a match of its transition ends. The automata are those the functions
  \<open>start_with\<close> and \<open>next\<close> build.
\<close>

section \<open>Building a transition\<close>

lemma addState_root:
  assumes "N \<noteq> 0"
  shows "addState N M None e t h = (Some (length h), h @ [(new_fsm_state e t)\<lparr>fs_minHit := sint N, fs_maxHit := sint M, fs_prev := None\<rparr>])"
    and "chain (snd (addState N M None e t h)) [length h]"
  using assms by (simp_all add: addState_def chain_def new_fsm_state_def Let_def word_le_nat_alt unat_eq_0)

lemma addState_chain:
  assumes "N \<noteq> 0" and ch: "chain h as"
  shows "fst (addState N M (Some (last as)) e t h) = Some (length h)"
    and "chain (snd (addState N M (Some (last as)) e t h)) (as @ [length h])"
proof -
  let ?a = "length h" and ?st = "(new_fsm_state e t)\<lparr>fs_minHit := sint N, fs_maxHit := sint M, fs_prev := Some (last as)\<rparr>"
  let ?h = "(h @ [?st])[last as := (h ! last as)\<lparr>fs_succ := Some (length h)\<rparr>]"
  have l: "last as < length h" "last as \<in> set as" "as \<noteq> []" using ch by (auto simp: chain_def)
  have add: "addState N M (Some (last as)) e t h = (Some ?a, ?h)"
    using assms(1) l(1) by (simp add: addState_def Let_def word_le_nat_alt unat_eq_0 nth_append)
  show "fst (addState N M (Some (last as)) e t h) = Some ?a" by (simp add: add)
  have old: "?h ! (as ! i) = (if Suc i = length as then (h ! (as ! i))\<lparr>fs_succ := Some ?a\<rparr> else h ! (as ! i))" if i: "i < length as" for i
  proof -
    have "as ! i = last as \<longleftrightarrow> Suc i = length as"
      using ch i l(3) by (auto simp: chain_def last_conv_nth nth_eq_iff_index_eq)
    moreover have "as ! i < length h" using ch i by (simp add: chain_def)
    ultimately show ?thesis
      using nth_list_update [of "last as" "h @ [?st]" "(h ! last as)\<lparr>fs_succ := Some ?a\<rparr>" "as ! i"] l(1) by (auto simp: nth_append)
  qed
  have new: "?h ! ?a = ?st"
    using nth_list_update [of "last as" "h @ [?st]" "(h ! last as)\<lparr>fs_succ := Some ?a\<rparr>" ?a] l(1) by simp
  have links: "fs_succ (?h ! ((as @ [?a]) ! i)) = (if Suc i < length (as @ [?a]) then Some ((as @ [?a]) ! Suc i) else None) \<and>
      fs_prev (?h ! ((as @ [?a]) ! i)) = (if i = 0 then None else Some ((as @ [?a]) ! (i - 1)))" if i: "i < length (as @ [?a])" for i
  proof (cases "i < length as")
    case True
    then have "fs_succ (h ! (as ! i)) = (if Suc i < length as then Some (as ! Suc i) else None)"
      "fs_prev (h ! (as ! i)) = (if i = 0 then None else Some (as ! (i - 1)))" using ch by (simp_all add: chain_def)
    then show ?thesis using True old [OF True] by (auto simp: nth_append)
  next
    case False
    then have "i = length as" using i by simp
    then show ?thesis using l(3) new by (simp add: nth_append new_fsm_state_def last_conv_nth)
  qed
  have "?a \<notin> set as" using ch by (auto simp: chain_def)
  then show "chain (snd (addState N M (Some (last as)) e t h)) (as @ [?a])"
    using ch links unfolding add snd_conv by (auto simp: chain_def less_Suc_eq)
qed

section \<open>Counting\<close>

definition transition_count :: "fsm_state list \<Rightarrow> valuation list \<Rightarrow> nat" where
  "transition_count steps xs = length (filter (\<lambda>t. ends_match steps (take t xs)) [1..<Suc (length xs)])"

definition true_count :: "node \<Rightarrow> valuation list \<Rightarrow> nat" where
  "true_count e xs = length (filter (\<lambda>x. true_at x e) xs)"

lemma transition_count_snoc:
  "transition_count steps (xs @ [x]) = transition_count steps xs + of_bool (ends_match steps (xs @ [x]))"
proof -
  have same: "filter (\<lambda>t. ends_match steps (take t (xs @ [x]))) [1..<Suc (length xs)] = filter (\<lambda>t. ends_match steps (take t xs)) [1..<Suc (length xs)]"
    by (rule filter_cong) auto
  have "[1..<Suc (length (xs @ [x]))] = [1..<Suc (length xs)] @ [Suc (length xs)]" by simp
  then show ?thesis unfolding transition_count_def by (simp only: filter_append same) simp
qed

lemma true_count_snoc: "true_count e (xs @ [x]) = true_count e xs + of_bool (true_at x e)"
  by (simp add: true_count_def)

definition simple_after :: "valuation list \<Rightarrow> crv_bin \<Rightarrow> crv_bin \<Rightarrow> bool" where
  "simple_after xs b0 b \<longleftrightarrow> b = b0\<lparr>hit_count := hit_count b0 + of_nat (true_count (bin_expr b0) xs)\<rparr>"

definition transition_after :: "fsm_store \<Rightarrow> nat list \<Rightarrow> valuation list \<Rightarrow> transition_bin \<Rightarrow> transition_bin \<Rightarrow> bool" where
  "transition_after h as xs b0 b \<longleftrightarrow> tb_root b = tb_root b0 \<and> hit_minimum b = hit_minimum b0 \<and>
     hit_count b = hit_count b0 + of_nat (transition_count (steps_at h as) xs) \<and>
     (\<exists>cs. tb_runs b = map (run_at as) cs \<and> set cs = configs (steps_at h as) xs)"

text \<open>The states of a bin that has not been sampled.\<close>

definition bin_chain :: "fsm_store \<Rightarrow> nat list \<Rightarrow> transition_bin \<Rightarrow> bool" where
  "bin_chain h as b \<longleftrightarrow> chain h as \<and> steps_ok (steps_at h as) \<and> tb_root b = Some (as ! 0)"

definition fresh_bin :: "fsm_store \<Rightarrow> transition_bin \<Rightarrow> bool" where
  "fresh_bin h b \<longleftrightarrow> tb_runs b = [] \<and> (\<exists>as. bin_chain h as b)"

definition all_after :: "fsm_store \<Rightarrow> valuation list \<Rightarrow> transition_bin \<Rightarrow> transition_bin \<Rightarrow> bool" where
  "all_after h xs b0 b \<longleftrightarrow> (\<forall>as. bin_chain h as b0 \<longrightarrow> transition_after h as xs b0 b)"

definition point_after :: "fsm_store \<Rightarrow> valuation list \<Rightarrow> coverpoint \<Rightarrow> coverpoint \<Rightarrow> bool" where
  "point_after h xs cp0 cp \<longleftrightarrow> list_all2 (simple_after xs) (simple_bins cp0) (simple_bins cp) \<and>
     list_all2 (all_after h xs) (transition_bins cp0) (transition_bins cp)"

definition bin_exprs :: "fsm_store \<Rightarrow> transition_bin \<Rightarrow> node set" where
  "bin_exprs h b = {fs_expr (h ! a) |a as. bin_chain h as b \<and> a \<in> set as}"

definition point_exprs :: "fsm_store \<Rightarrow> coverpoint \<Rightarrow> node set" where
  "point_exprs h cp = bin_expr ` set (simple_bins cp) \<union> (\<Union>b\<in>set (transition_bins cp). bin_exprs h b)"

context sampler
begin

lemma simple_step:
  assumes "simple_after xs b0 b" and "bin_expr b0 \<in> E" and "keeps ev"
  shows "\<exists>b' ev'. crv_bin_calcHit rawid ev b = Inr (b', ev') \<and> simple_after (xs @ [x]) b0 b' \<and> keeps ev'"
  using crv_bin_sampled [of b ev] assms by (auto simp: simple_after_def true_count_snoc incrementHit_def)

lemma transition_step:
  assumes as: "bin_chain h as b0" and E: "bin_exprs h b0 \<subseteq> E" and b: "transition_after h as xs b0 b" and ev: "keeps ev"
  shows "\<exists>b' ev'. transition_calcHit rawid h ev b = Inr (b', ev') \<and> transition_after h as (xs @ [x]) b0 b' \<and> keeps ev'"
proof -
  let ?steps = "steps_at h as"
  have ch: "chain h as" "steps_ok ?steps" "tb_root b0 = Some (as ! 0)" using as by (simp_all add: bin_chain_def)
  obtain cs where cs: "tb_runs b = map (run_at as) cs" "set cs = configs ?steps xs" using b by (auto simp: transition_after_def)
  have bound: "\<forall>(i, c)\<in>set cs. i < length as" by (auto simp: cs(2) configs_def)
  have mem: "\<forall>a\<in>set as. fs_expr (h ! a) \<in> E" using E as by (auto simp: bin_exprs_def)
  have root: "tb_root b = Some (as ! 0)" using b ch(3) by (simp add: transition_after_def)
  let ?cs = "concat (map (continues ?steps x) (sampled ?steps x cs))"
  let ?b = "(if ends_match ?steps (xs @ [x]) then incrementHit b else b)\<lparr>tb_runs := map (run_at as) ?cs\<rparr>"
  obtain ev' where "transition_calcHit rawid h ev b = Inr (?b, ev')" "keeps ev'"
    using transition_calcHit_sampled [OF ch(1) mem bound ev root cs(1)] unfolding finishes_iff [OF ch(2) cs(2)] by blast
  moreover have "transition_after h as (xs @ [x]) b0 ?b"
    using b configs_snoc [OF ch(2) cs(2)] by (auto simp: transition_after_def transition_count_snoc incrementHit_def)
  ultimately show ?thesis by blast
qed

lemma all_step:
  assumes "fresh_bin h b0" and E: "bin_exprs h b0 \<subseteq> E" and b: "all_after h xs b0 b" and ev: "keeps ev"
  shows "\<exists>b' ev'. transition_calcHit rawid h ev b = Inr (b', ev') \<and> all_after h (xs @ [x]) b0 b' \<and> keeps ev'"
proof -
  obtain as where as: "bin_chain h as b0" using assms(1) by (auto simp: fresh_bin_def)
  have "transition_after h as xs b0 b" using b as by (simp add: all_after_def)
  from transition_step [OF as E this ev] obtain b' ev' where r: "transition_calcHit rawid h ev b = Inr (b', ev')" "keeps ev'" by blast
  have "transition_after h bs (xs @ [x]) b0 b'" if bs: "bin_chain h bs b0" for bs
  proof -
    have "transition_after h bs xs b0 b" using b bs by (simp add: all_after_def)
    from transition_step [OF bs E this ev] show ?thesis using r(1) by auto
  qed
  then show ?thesis using r by (auto simp: all_after_def)
qed

lemma calc_simple_step:
  "list_all2 (simple_after xs) bs0 bs \<Longrightarrow> bin_expr ` set bs0 \<subseteq> E \<Longrightarrow> keeps ev \<Longrightarrow>
    \<exists>bs' ev'. calc_simple rawid ev bs = Inr (bs', ev') \<and> list_all2 (simple_after (xs @ [x])) bs0 bs' \<and> keeps ev'"
proof (induction arbitrary: ev rule: list_all2_induct)
  case (Cons b0 bs0 b bs)
  obtain b' ev1 where b': "crv_bin_calcHit rawid ev b = Inr (b', ev1)" "simple_after (xs @ [x]) b0 b'" "keeps ev1"
    using simple_step [OF Cons.hyps(1) _ Cons.prems(2)] Cons.prems(1) by auto
  obtain bs' ev2 where "calc_simple rawid ev1 bs = Inr (bs', ev2)" "list_all2 (simple_after (xs @ [x])) bs0 bs'" "keeps ev2"
    using Cons.IH [OF _ b'(3)] Cons.prems(1) by auto
  then show ?case using b' by simp
qed simp

lemma calc_transitions_step:
  "list_all2 (all_after h xs) bs0 bs \<Longrightarrow> \<forall>b\<in>set bs0. fresh_bin h b \<and> bin_exprs h b \<subseteq> E \<Longrightarrow> keeps ev \<Longrightarrow>
    \<exists>bs' ev'. calc_transitions rawid h ev bs = Inr (bs', ev') \<and> list_all2 (all_after h (xs @ [x])) bs0 bs' \<and> keeps ev'"
proof (induction arbitrary: ev rule: list_all2_induct)
  case (Cons b0 bs0 b bs)
  obtain b' ev1 where b': "transition_calcHit rawid h ev b = Inr (b', ev1)" "all_after h (xs @ [x]) b0 b'" "keeps ev1"
    using all_step [OF _ _ Cons.hyps(1) Cons.prems(2)] Cons.prems(1) by auto
  obtain bs' ev2 where "calc_transitions rawid h ev1 bs = Inr (bs', ev2)" "list_all2 (all_after h (xs @ [x])) bs0 bs'" "keeps ev2"
    using Cons.IH [OF _ b'(3)] Cons.prems(1) by auto
  then show ?case using b' by simp
qed simp

lemma calc_coverpoint_step:
  assumes "point_after h xs cp0 cp" and "point_exprs h cp0 \<subseteq> E" and "list_all (fresh_bin h) (transition_bins cp0)" and "keeps ev"
  shows "\<exists>cp' ev'. calc_coverpoint rawid h ev cp = Inr (cp', ev') \<and> point_after h (xs @ [x]) cp0 cp' \<and> keeps ev'"
proof -
  have s: "list_all2 (simple_after xs) (simple_bins cp0) (simple_bins cp)" "list_all2 (all_after h xs) (transition_bins cp0) (transition_bins cp)"
    using assms(1) by (simp_all add: point_after_def)
  have "bin_expr ` set (simple_bins cp0) \<subseteq> E" using assms(2) by (auto simp: point_exprs_def)
  from calc_simple_step [OF s(1) this assms(4)] obtain sbs ev1 where
    1: "calc_simple rawid ev (simple_bins cp) = Inr (sbs, ev1)" "list_all2 (simple_after (xs @ [x])) (simple_bins cp0) sbs" "keeps ev1" by blast
  have "\<forall>b\<in>set (transition_bins cp0). fresh_bin h b \<and> bin_exprs h b \<subseteq> E" using assms(2,3) by (auto simp: point_exprs_def list_all_iff)
  from calc_transitions_step [OF s(2) this 1(3)] obtain tbs ev2 where
    "calc_transitions rawid h ev1 (transition_bins cp) = Inr (tbs, ev2)" "list_all2 (all_after h (xs @ [x])) (transition_bins cp0) tbs" "keeps ev2"
    by blast
  then show ?thesis using 1 by (simp add: calc_coverpoint_def point_after_def)
qed

lemma calc_points_step:
  assumes "\<forall>p\<in>set ps. point_after h xs (cps0 p) (cps p) \<and> point_exprs h (cps0 p) \<subseteq> E \<and> list_all (fresh_bin h) (transition_bins (cps0 p))"
    and "distinct ps" and "keeps ev"
  shows "\<exists>cps' ev'. calc_points rawid h ps cps ev = Inr (cps', ev') \<and> (\<forall>p\<in>set ps. point_after h (xs @ [x]) (cps0 p) (cps' p)) \<and>
    (\<forall>p. p \<notin> set ps \<longrightarrow> cps' p = cps p)"
  using assms
proof (induction ps arbitrary: cps ev)
  case (Cons p ps)
  obtain cp' ev1 where cp': "calc_coverpoint rawid h ev (cps p) = Inr (cp', ev1)" "point_after h (xs @ [x]) (cps0 p) cp'" "keeps ev1"
    using calc_coverpoint_step [of h xs "cps0 p" "cps p" ev] Cons.prems by auto
  have "\<forall>q\<in>set ps. point_after h xs (cps0 q) ((cps(p := cp')) q) \<and> point_exprs h (cps0 q) \<subseteq> E \<and> list_all (fresh_bin h) (transition_bins (cps0 q))"
    using Cons.prems(1,2) by auto
  from Cons.IH [OF this _ cp'(3)] Cons.prems(2) [unfolded distinct.simps] obtain cps' ev2 where
    r: "calc_points rawid h ps (cps(p := cp')) ev1 = Inr (cps', ev2)" "\<forall>q\<in>set ps. point_after h (xs @ [x]) (cps0 q) (cps' q)"
      "\<forall>q. q \<notin> set ps \<longrightarrow> cps' q = (cps(p := cp')) q" by blast
  have "cps' p = cp'" using r(3) Cons.prems(2) by simp
  then show ?case using r cp' by (intro exI [of _ cps'] exI [of _ ev2]) auto
qed simp

end

section \<open>Sampling a covergroup\<close>

definition group_values :: "'m covergroup \<Rightarrow> 'm \<Rightarrow> valuation" where
  "group_values cg m i = (case map_of (cg_vars (built cg)) i of Some (value, bound) \<Rightarrow> value m | None \<Rightarrow> Constant_default)"

definition group_vars :: "'m covergroup \<Rightarrow> nat set" where
  "group_vars cg = fst ` set (cg_vars (built cg))"

primrec samples ::
    "(node \<Rightarrow> nat) \<Rightarrow> fsm_store \<Rightarrow> 'm list \<Rightarrow> 'm covergroup \<times> (nat \<Rightarrow> coverpoint) \<Rightarrow> ('m covergroup \<times> (nat \<Rightarrow> coverpoint)) result" where
  "samples rawid h [] s = Inr s"
| "samples rawid h (m # ms) s = rbind (sample rawid h m s) (samples rawid h ms)"

lemma fold_build_child: "cg_built (fold build_child cs cg) = cg_built cg"
proof (induction cs arbitrary: cg)
  case (Cons c cs)
  then show ?case by (cases c) simp_all
qed simp

lemma built_idem: "built (built cg) = built cg" "cg_built (built cg)"
  by (simp_all add: built_def build_group_def fold_build_child)

lemma assign_fold:
  assumes "distinct (map fst vs)"
  shows "assigns (fst ` set vs) (\<lambda>i. case map_of vs i of Some (value, bound) \<Rightarrow> value m | None \<Rightarrow> Constant_default)
      (fold (\<lambda>(i, value, bound). assign i (value m)) vs ev)"
proof -
  have other: "assignments (fold (\<lambda>(i, value, bound). assign i (value m)) vs ev) j = assignments ev j" if "j \<notin> fst ` set vs" for vs ev j
    using that by (induction vs arbitrary: ev) (auto simp: assign_def)
  show ?thesis using assms
  proof (induction vs arbitrary: ev)
    case (Cons v vs)
    obtain i val b where v: "v = (i, val, b)" by (cases v)
    have "assignments (fold (\<lambda>(i, value, bound). assign i (value m)) (v # vs) ev) i = Some (val m)"
      using Cons.prems other [of i vs] by (simp add: v assign_def)
    then show ?case using Cons by (auto simp: v assigns_def)
  qed (simp add: assigns_def)
qed

lemma sample_step:
  assumes cg: "cg_built cg" "cg_vars cg = cg_vars (built cg0)" "cg_points cg = cg_points (built cg0)"
    and vars: "distinct (map fst (cg_vars (built cg0)))" and points: "distinct (cg_points (built cg0))"
    and p: "\<forall>p\<in>set (cg_points (built cg0)). point_after h xs (cps0 p) (cps p) \<and> list_all (fresh_bin h) (transition_bins (cps0 p)) \<and>
      (\<forall>e\<in>point_exprs h (cps0 p). evaluable (group_vars cg0) (group_values cg0 m) e)"
  shows "\<exists>cg' cps'. sample rawid h m (cg, cps) = Inr (cg', cps') \<and> cg_built cg' \<and> cg_vars cg' = cg_vars (built cg0) \<and>
    cg_points cg' = cg_points (built cg0) \<and> (\<forall>p\<in>set (cg_points (built cg0)). point_after h (xs @ [group_values cg0 m]) (cps0 p) (cps' p))"
proof -
  have b: "built cg = cg" using cg(1) by (simp add: built_def)
  let ?ev = "fold (\<lambda>(i, value, bound). assign i (value m)) (cg_vars cg) (cg_eval cg)"
  have ev: "assigns (group_vars cg0) (group_values cg0 m) ?ev"
    using assign_fold [OF vars, of m "cg_eval cg"] by (simp add: group_vars_def group_values_def [abs_def] cg(2))
  have "\<forall>p\<in>set (cg_points cg). point_after h xs (cps0 p) (cps p) \<and>
      point_exprs h (cps0 p) \<subseteq> {e. evaluable (group_vars cg0) (group_values cg0 m) e} \<and> list_all (fresh_bin h) (transition_bins (cps0 p))"
    using p unfolding cg(3) by blast
  from group_sampler.calc_points_step [OF this _ ev, of rawid] points obtain cps' ev' where
    "calc_points rawid h (cg_points cg) cps ?ev = Inr (cps', ev')"
      "\<forall>p\<in>set (cg_points cg). point_after h (xs @ [group_values cg0 m]) (cps0 p) (cps' p)" by (auto simp: cg(3))
  then show ?thesis using cg by (simp add: sample_def b Let_def)
qed

lemma samples_after:
  assumes "cg_built cg" "cg_vars cg = cg_vars (built cg0)" "cg_points cg = cg_points (built cg0)"
    and vars: "distinct (map fst (cg_vars (built cg0)))" and points: "distinct (cg_points (built cg0))"
    and "\<forall>p\<in>set (cg_points (built cg0)). point_after h xs (cps0 p) (cps p)"
    and p: "\<forall>p\<in>set (cg_points (built cg0)). list_all (fresh_bin h) (transition_bins (cps0 p)) \<and>
      (\<forall>m\<in>set ms. \<forall>e\<in>point_exprs h (cps0 p). evaluable (group_vars cg0) (group_values cg0 m) e)"
  shows "\<exists>cg' cps'. samples rawid h ms (cg, cps) = Inr (cg', cps') \<and> cg_points cg' = cg_points (built cg0) \<and> cg_built cg' \<and>
    (\<forall>p\<in>set (cg_points (built cg0)). point_after h (xs @ map (group_values cg0) ms) (cps0 p) (cps' p))"
  using assms(1-3,6) p
proof (induction ms arbitrary: xs cg cps)
  case (Cons m ms)
  have "\<forall>p\<in>set (cg_points (built cg0)). point_after h xs (cps0 p) (cps p) \<and> list_all (fresh_bin h) (transition_bins (cps0 p)) \<and>
      (\<forall>e\<in>point_exprs h (cps0 p). evaluable (group_vars cg0) (group_values cg0 m) e)"
    using Cons.prems(4,5) by simp
  from sample_step [OF Cons.prems(1-3) vars points this, of rawid] obtain cg1 cps1 where
    1: "sample rawid h m (cg, cps) = Inr (cg1, cps1)" "cg_built cg1" "cg_vars cg1 = cg_vars (built cg0)" "cg_points cg1 = cg_points (built cg0)"
      "\<forall>p\<in>set (cg_points (built cg0)). point_after h (xs @ [group_values cg0 m]) (cps0 p) (cps1 p)" by blast
  have rest: "\<forall>p\<in>set (cg_points (built cg0)). list_all (fresh_bin h) (transition_bins (cps0 p)) \<and>
      (\<forall>m\<in>set ms. \<forall>e\<in>point_exprs h (cps0 p). evaluable (group_vars cg0) (group_values cg0 m) e)"
    using Cons.prems(5) by simp
  from Cons.IH [OF 1(2-5) rest] 1(1) show ?case by simp
qed simp

lemma configs_nil: "steps_ok steps \<Longrightarrow> {} = configs steps []"
  by (simp add: configs_empty)

lemma fresh_after: "list_all (fresh_bin h) (transition_bins cp) \<Longrightarrow> point_after h [] cp cp"
proof -
  assume fresh: "list_all (fresh_bin h) (transition_bins cp)"
  have "all_after h [] b b" if "b \<in> set (transition_bins cp)" for b
    using fresh that by (auto simp: list_all_iff fresh_bin_def all_after_def transition_after_def transition_count_def bin_chain_def configs_empty)
  moreover have "simple_after [] b b" for b by (simp add: simple_after_def true_count_def)
  ultimately show ?thesis by (simp add: point_after_def list_all2_same)
qed

text \<open>C15: for a covergroup with different variables and points, freshly built transition bins, and bins
  whose expressions are evaluable at every sample, that is, contain no bit slice, mention only variables of
  the group and have a defined value there: after any number of samples every simple bin has counted the
  samples at which its expression is true, and every transition bin the samples at which a match of its
  transition ends, a match being a sequence of blocks of samples, one for each state, with a number of hits
  between its bounds (counts modulo the width of the counter).\<close>

theorem covergroup_counts:
  assumes vars: "distinct (map fst (cg_vars (built cg)))" and points: "distinct (cg_points (built cg))"
    and "\<forall>p\<in>set (cg_points (built cg)). list_all (fresh_bin h) (transition_bins (cps p)) \<and>
      (\<forall>m\<in>set ms. \<forall>e\<in>point_exprs h (cps p). evaluable (group_vars cg) (group_values cg m) e)"
  shows "\<exists>cg' cps'. samples rawid h ms (cg, cps) = Inr (cg', cps') \<and>
    (\<forall>p\<in>set (cg_points (built cg)).
       list_all2 (\<lambda>b0 b. bin_expr b = bin_expr b0 \<and>
           hit_count b = hit_count b0 + of_nat (true_count (bin_expr b0) (map (group_values cg) ms)))
         (simple_bins (cps p)) (simple_bins (cps' p)) \<and>
       list_all2 (\<lambda>b0 b. tb_root b = tb_root b0 \<and> (\<forall>as. bin_chain h as b0 \<longrightarrow>
           hit_count b = hit_count b0 + of_nat (transition_count (steps_at h as) (map (group_values cg) ms))))
         (transition_bins (cps p)) (transition_bins (cps' p)))"
proof -
  have "\<forall>p\<in>set (cg_points (built cg)). point_after h [] (cps p) (cps p)" using assms(3) fresh_after by blast
  from samples_after [OF built_idem(2) refl refl vars points this assms(3), where rawid = rawid] obtain cg1 cps1 where
    r1: "samples rawid h ms (built cg, cps) = Inr (cg1, cps1)"
    and after1: "\<forall>p\<in>set (cg_points (built cg)). point_after h (map (group_values cg) ms) (cps p) (cps1 p)" by auto
  have "\<exists>cg' cps'. samples rawid h ms (cg, cps) = Inr (cg', cps') \<and> cps' = cps1"
    using r1 by (cases ms) (simp_all add: sample_def built_idem)
  then obtain cg' cps' where r: "samples rawid h ms (cg, cps) = Inr (cg', cps')"
    and after: "\<forall>p\<in>set (cg_points (built cg)). point_after h (map (group_values cg) ms) (cps p) (cps' p)" using after1 by blast
  have root: "tb_root b = tb_root b0" if "all_after h xs b0 b" "fresh_bin h b0" for xs b0 b
    using that by (auto simp: all_after_def fresh_bin_def transition_after_def)
  have "list_all2 (\<lambda>b0 b. tb_root b = tb_root b0 \<and> (\<forall>as. bin_chain h as b0 \<longrightarrow>
           hit_count b = hit_count b0 + of_nat (transition_count (steps_at h as) (map (group_values cg) ms))))
         (transition_bins (cps p)) (transition_bins (cps' p))" if p: "p \<in> set (cg_points (built cg))" for p
  proof -
    have fresh: "\<forall>b\<in>set (transition_bins (cps p)). fresh_bin h b" using assms(3) p by (simp add: list_all_iff)
    have "list_all2 (all_after h (map (group_values cg) ms)) (transition_bins (cps p)) (transition_bins (cps' p))"
      using after p by (simp add: point_after_def)
    then show ?thesis
    proof (rule list.rel_mono_strong, intro conjI allI impI)
      fix b0 b assume b: "b0 \<in> set (transition_bins (cps p))" "all_after h (map (group_values cg) ms) b0 b"
      show "tb_root b = tb_root b0" by (rule root [OF b(2)]) (use fresh b(1) in blast)
      show "hit_count b = hit_count b0 + of_nat (transition_count (steps_at h as) (map (group_values cg) ms))"
        if "bin_chain h as b0" for as
        using b(2) that by (simp add: all_after_def transition_after_def)
    qed
  qed
  moreover have "list_all2 (\<lambda>b0 b. bin_expr b = bin_expr b0 \<and>
           hit_count b = hit_count b0 + of_nat (true_count (bin_expr b0) (map (group_values cg) ms)))
         (simple_bins (cps p)) (simple_bins (cps' p))" if p: "p \<in> set (cg_points (built cg))" for p
    using after p unfolding point_after_def by (auto simp: simple_after_def elim!: list_all2_mono)
  ultimately show ?thesis using r by blast
qed

text \<open>A variable of four bits, the transition from 1 to 2, and four samples.\<close>

definition demo_is :: "u64 \<Rightarrow> node" where
  "demo_is v = BinaryOperator EqualOpr (VariableExpr 1 4 False) (ConstantExpr (Constant v 4 False))"

definition demo_store :: fsm_store where
  "demo_store = snd (next_state (Some 0) (demo_is 2) (snd (next_state None (demo_is 1) [])))"

definition demo_point :: coverpoint where
  "demo_point = \<lparr>simple_bins = [new_crv_bin (demo_is 1) 1], transition_bins = [crv_transition_bin (Some 0)]\<rparr>"

definition demo_group :: "u64 covergroup" where
  "demo_group = crv_covergroup [crv_variable 1 (\<lambda>m. Constant m 4 False) (\<lambda>_. ConstantExpr (Constant_bool True)), crv_coverpoint_child 0]"

lemma demo_chain: "chain demo_store [0, 1]"
proof -
  let ?h = "snd (next_state None (demo_is 1) [])"
  have root: "chain ?h [0]" "length ?h = 1"
    using addState_root [of 1 1 "demo_is 1" CONSEC "[]"] by (simp_all add: next_state_def consecutive_repeat_def)
  show ?thesis
    using addState_chain(2) [of 1 ?h "[0]" 1 "demo_is 2" CONSEC] root by (simp add: demo_store_def next_state_def consecutive_repeat_def)
qed

lemma demo_exprs: "fs_expr (demo_store ! 0) = demo_is 1" "fs_expr (demo_store ! 1) = demo_is 2"
    "fs_minHit (demo_store ! 0) = 1" "fs_minHit (demo_store ! 1) = 1" "length demo_store = 2"
  by (simp_all add: demo_store_def next_state_def consecutive_repeat_def addState_def new_fsm_state_def Let_def)

lemma demo_fresh: "fresh_bin demo_store (crv_transition_bin (Some 0))"
  unfolding fresh_bin_def bin_chain_def
  by (intro conjI exI [of _ "[0, 1]"] demo_chain)
    (simp_all add: crv_transition_bin_def steps_ok_def steps_at_def demo_exprs [simplified])

lemma demo_evaluable: "e \<in> point_exprs demo_store demo_point \<Longrightarrow> evaluable {1} \<rho> e"
proof -
  assume "e \<in> point_exprs demo_store demo_point"
  then have "e = demo_is 1 \<or> e = demo_is 2"
    using demo_exprs by (auto simp: point_exprs_def demo_point_def new_crv_bin_def bin_exprs_def bin_chain_def chain_def less_2_cases_iff)
  then show ?thesis by (auto simp: evaluable_def demo_is_def bool_entry_def)
qed

theorem covergroup_counts_witness:
  "\<exists>cg' cps'. samples (\<lambda>_. 0) demo_store [1, 2, 1, 2] (demo_group, \<lambda>_. demo_point) = Inr (cg', cps') \<and>
    hit_count (hd (simple_bins (cps' 0))) = 2 \<and>
    hit_count (hd (transition_bins (cps' 0))) =
      of_nat (transition_count (steps_at demo_store [0, 1]) (map (group_values demo_group) [1, 2, 1, 2]))"
proof -
  have g: "cg_points (built demo_group) = [0]" "map fst (cg_vars (built demo_group)) = [1]" "group_vars demo_group = {1}"
    "group_values demo_group m 1 = Constant m 4 False" for m
    by (simp_all add: demo_group_def crv_covergroup_def built_def build_group_def group_vars_def group_values_def)
  have fresh: "\<forall>p\<in>set (cg_points (built demo_group)). list_all (fresh_bin demo_store) (transition_bins demo_point) \<and>
      (\<forall>m\<in>set [1, 2, 1, 2]. \<forall>e\<in>point_exprs demo_store demo_point. evaluable (group_vars demo_group) (group_values demo_group m) e)"
    using demo_fresh demo_evaluable by (simp add: g(3) demo_point_def)
  have chain: "bin_chain demo_store [0, 1] (crv_transition_bin (Some 0))"
    by (simp add: bin_chain_def demo_chain [simplified] crv_transition_bin_def steps_ok_def steps_at_def demo_exprs [simplified])
  have "true_count (demo_is 1) (map (group_values demo_group) [1, 2, 1, 2]) = 2"
    by (simp add: true_count_def true_at_def demo_is_def g(4) [simplified] bool_entry_def)
  with covergroup_counts [of demo_group demo_store "\<lambda>_. demo_point" "[1, 2, 1, 2]" "\<lambda>_. 0"] fresh chain show ?thesis
    by (auto simp: g(1,2) demo_point_def list_all2_Cons1 new_crv_bin_def crv_transition_bin_def)
qed

end
