(* ===== verification/RuleGraph.thy ===== *)
theory RuleGraph
  imports Crave_Prelude
begin

text \<open>
  Rule graphs (\<open>experimental/graph\<close>, \<open>ConstrainedRandomGraph.cpp\<close>): rules are combined to expressions by
  sequence and choice and assigned to rules. \<open>RuleContext\<close> turns the expressions into a graph of shared
  nodes, \<open>UpdateVisitor\<close> replaces each rule by what was assigned to it and flattens the graph in place, and
  \<open>Executor\<close> walks through all paths of the graph and runs the actions of the rules on each of them until
  the random objects of the path are covered. Nodes live in a heap, a node is named by its address.

  Two sources of divergence are kept apart: the visitors recurse along pointers and get fuel, with \<open>None\<close>
  when there is not enough; \<open>dfs\<close> and the loop that repeats a path are partial functions.
\<close>

section \<open>Computations that may fail or not return\<close>

type_synonym 'a run_result = "'a result option"

definition obind :: "'a run_result \<Rightarrow> ('a \<Rightarrow> 'b run_result) \<Rightarrow> 'b run_result" where
  "obind m f = Option.bind m (\<lambda>r. case r of Inl e \<Rightarrow> Some (Inl e) | Inr x \<Rightarrow> f x)"

lemma obind_simps [simp]:
  "obind None f = None" "obind (Some (Inl e)) f = Some (Inl e)" "obind (Some (Inr x)) f = f x"
  by (simp_all add: obind_def)

lemma obind_assoc: "obind (obind m f) g = obind m (\<lambda>x. obind (f x) g)"
  by (auto simp: obind_def split: Option.bind_split sum.splits)

lemma obind_unit [simp]: "obind m (\<lambda>x. Some (Inr x)) = m"
  by (auto simp: obind_def split: Option.bind_split sum.splits)

lemma obind_mono [partial_function_mono]:
  assumes "mono_option B" "\<And>y. mono_option (\<lambda>f. C y f)"
  shows "mono_option (\<lambda>f. obind (B f) (\<lambda>y. C y f))"
proof -
  have "mono_option (\<lambda>f. case r of Inl e \<Rightarrow> Some (Inl e) | Inr y \<Rightarrow> C y f)" for r :: "'c result"
    by (cases r) (simp_all add: option.const_mono assms)
  then show ?thesis unfolding obind_def by (intro bind_mono assms)
qed

section \<open>Nodes\<close>

datatype kind = Terminal | Selector | Sequence

record gnode =
  m_name :: "string option"
  obj_kind :: kind
  children :: "nat list"

type_synonym gheap = "gnode list"
type_synonym node_map = "string \<rightharpoonup> nat"

definition rename_node :: "nat \<Rightarrow> string \<Rightarrow> gheap \<Rightarrow> gheap" where
  "rename_node a s h = h[a := (h ! a)\<lparr>m_name := Some s\<rparr>]"

definition add_child :: "nat \<Rightarrow> nat \<Rightarrow> gheap \<Rightarrow> gheap" where
  "add_child a c h = h[a := (h ! a)\<lparr>children := children (h ! a) @ [c]\<rparr>]"

section \<open>Expressions over rules\<close>

datatype rule_expr =
    RuleTerm string
  | ShiftRight rule_expr rule_expr
  | BitwiseOr rule_expr rule_expr
  | RuleAssign string rule_expr

record rule_context =
  gheap :: gheap
  m_named_nodes :: node_map
  m_assigned_nodes :: "string set"
  m_root :: "nat option"

definition RuleContext :: rule_context where
  "RuleContext = \<lparr>gheap = [], m_named_nodes = Map.empty, m_assigned_nodes = {}, m_root = None\<rparr>"

definition new_node :: "string option \<Rightarrow> kind \<Rightarrow> rule_context \<Rightarrow> nat \<times> rule_context" where
  "new_node s K c = (length (gheap c), c\<lparr>gheap := gheap c @ [\<lparr>m_name = s, obj_kind = K, children = []\<rparr>]\<rparr>)"

definition eval_terminal :: "string \<Rightarrow> rule_context \<Rightarrow> nat \<times> rule_context" where
  "eval_terminal r c = (case m_named_nodes c r of
      Some p \<Rightarrow> (p, c)
    | None \<Rightarrow> (let (p, c') = new_node (Some r) Terminal c in
        (p, c'\<lparr>m_named_nodes := (m_named_nodes c')(r \<mapsto> p)\<rparr>)))"

definition eval_nonterminal ::
  "kind \<Rightarrow> (rule_context \<Rightarrow> (nat \<times> rule_context) result) \<Rightarrow> (rule_context \<Rightarrow> (nat \<times> rule_context) result) \<Rightarrow>
    rule_context \<Rightarrow> (nat \<times> rule_context) result" where
  "eval_nonterminal K e1 e2 c = (let (p, c) = new_node None K c in
     rbind (e1 c) (\<lambda>(q, c). let c = c\<lparr>gheap := add_child p q (gheap c)\<rparr> in
     rbind (e2 c) (\<lambda>(q, c). let c = c\<lparr>gheap := add_child p q (gheap c)\<rparr> in Inr (p, c))))"

definition eval_assign :: "string \<Rightarrow> nat \<Rightarrow> rule_context \<Rightarrow> (nat \<times> rule_context) result" where
  "eval_assign r n c =
     (if m_name (gheap c ! n) \<noteq> None then Inl AssertionFailure
      else if r \<in> m_assigned_nodes c then Inl AssertionFailure
      else Inr (n, c\<lparr>gheap := rename_node n r (gheap c),
        m_assigned_nodes := insert r (m_assigned_nodes c), m_named_nodes := (m_named_nodes c)(r \<mapsto> n)\<rparr>))"

fun eval_rule :: "rule_expr \<Rightarrow> rule_context \<Rightarrow> (nat \<times> rule_context) result" where
  "eval_rule (RuleTerm r) c = Inr (eval_terminal r c)"
| "eval_rule (ShiftRight e1 e2) c = eval_nonterminal Sequence (eval_rule e1) (eval_rule e2) c"
| "eval_rule (BitwiseOr e1 e2) c = eval_nonterminal Selector (eval_rule e1) (eval_rule e2) c"
| "eval_rule (RuleAssign r e) c = rbind (eval_rule e c) (\<lambda>(n, c). eval_assign r n c)"

definition rule_context_call :: "rule_expr \<Rightarrow> rule_context \<Rightarrow> rule_context result" where
  "rule_context_call e c = rbind (eval_rule e c) (\<lambda>(n, c). Inr c)"

section \<open>Resolving and flattening\<close>

type_synonym update_state = "gheap \<times> string set"

definition updated_child :: "node_map \<Rightarrow> gheap \<Rightarrow> nat \<Rightarrow> nat" where
  "updated_child M h n = (case m_name (h ! n) of
      None \<Rightarrow> n
    | Some s \<Rightarrow> (case M s of None \<Rightarrow> n | Some p \<Rightarrow> p))"

definition clear_children :: "nat \<Rightarrow> gheap \<Rightarrow> gheap" where
  "clear_children a h = h[a := (h ! a)\<lparr>children := []\<rparr>]"

fun update_children ::
  "(nat \<Rightarrow> update_state \<Rightarrow> update_state run_result) \<Rightarrow> node_map \<Rightarrow> kind \<Rightarrow> nat list \<Rightarrow> nat list \<Rightarrow>
    update_state \<Rightarrow> (nat list \<times> update_state) run_result" where
  "update_children accept M K [] updated s = Some (Inr (updated, s))"
| "update_children accept M K (n # ns) updated s =
     (let tmp = updated_child M (fst s) n in
      obind (accept tmp s) (\<lambda>(h, P).
        if m_name (h ! tmp) = None \<and> obj_kind (h ! tmp) = K
        then update_children accept M K ns (updated @ children (h ! tmp)) (clear_children tmp h, P)
        else update_children accept M K ns (updated @ [tmp]) (h, P)))"

definition visitNonTerminal ::
  "(nat \<Rightarrow> update_state \<Rightarrow> update_state run_result) \<Rightarrow> node_map \<Rightarrow> nat \<Rightarrow> update_state \<Rightarrow> update_state run_result" where
  "visitNonTerminal accept M a s = (case s of (h, P) \<Rightarrow>
     let nt = h ! a in
     if \<exists>s\<in>set_option (m_name nt). s \<in> P then Some (Inl AssertionFailure)
     else obind (update_children accept M (obj_kind nt) (children nt) [] (h, P \<union> set_option (m_name nt)))
       (\<lambda>(updated, h, P). Some (Inr (h[a := (h ! a)\<lparr>children := updated\<rparr>], P - set_option (m_name nt)))))"

primrec update_accept :: "nat \<Rightarrow> node_map \<Rightarrow> nat \<Rightarrow> update_state \<Rightarrow> update_state run_result" where
  "update_accept 0 M a s = None"
| "update_accept (Suc k) M a s = (case obj_kind (fst s ! a) of
      Terminal \<Rightarrow> Some (Inr s)
    | Selector \<Rightarrow> visitNonTerminal (update_accept k M) M a s
    | Sequence \<Rightarrow> visitNonTerminal (update_accept k M) M a s)"

section \<open>Rules\<close>

text \<open>
  A rule's actions and its random object belong to the user's program, of which the model has a state of
  type \<open>'w\<close>: an action changes the state or ends the program, a random object has the operations the rule
  calls.
\<close>

type_synonym 'w action = "'w \<Rightarrow> 'w result"

record 'w rand_obj =
  next_cov :: "'w \<Rightarrow> bool \<times> 'w"
  obj_isCovered :: "'w \<Rightarrow> bool"
  obj_resetCoverage :: "'w \<Rightarrow> 'w"

record 'w rule =
  entry :: "'w action option"
  main :: "'w action option"
  exit_action :: "'w action option"
  m_rand_obj :: "'w rand_obj option"

type_synonym 'w rule_map = "string \<rightharpoonup> 'w rule"

definition new_rule :: "string \<Rightarrow> 'w rule_map \<Rightarrow> 'w rule_map" where
  "new_rule s m = m(s \<mapsto> \<lparr>entry = None, main = None, exit_action = None, m_rand_obj = None\<rparr>)"

definition is_rand_obj_covered :: "'w rule \<Rightarrow> 'w \<Rightarrow> bool" where
  "is_rand_obj_covered r w = (case m_rand_obj r of None \<Rightarrow> True | Some obj \<Rightarrow> obj_isCovered obj w)"

definition reset_coverage :: "'w rule \<Rightarrow> 'w \<Rightarrow> 'w" where
  "reset_coverage r w = (case m_rand_obj r of None \<Rightarrow> w | Some obj \<Rightarrow> obj_resetCoverage obj w)"

definition gen :: "'w rand_obj option \<Rightarrow> 'w action" where
  "gen obj w = (case obj of
      None \<Rightarrow> Inr w
    | Some obj \<Rightarrow> (case next_cov obj w of (ok, w') \<Rightarrow> if ok then Inr w' else Inl AssertionFailure))"

definition bind_rand_obj :: "'w rand_obj option \<Rightarrow> 'w rule \<Rightarrow> 'w rule" where
  "bind_rand_obj obj r = r\<lparr>m_rand_obj := obj, main := Some (gen obj)\<rparr>"

section \<open>Executing the graph\<close>

record 'w executor =
  m_id :: nat
  m_stack :: "(nat \<times> nat) list"
  m_adj :: "nat \<rightharpoonup> nat list"
  m_actions :: "nat \<rightharpoonup> 'w action option"
  m_main_to_rule_map :: "nat \<rightharpoonup> 'w rule"
  m_path_count :: nat
  program :: 'w

definition Executor :: "'w \<Rightarrow> 'w executor" where
  "Executor w = \<lparr>m_id = 0, m_stack = [], m_adj = Map.empty, m_actions = Map.empty,
     m_main_to_rule_map = Map.empty, m_path_count = 0, program = w\<rparr>"

definition std_insert :: "'k \<Rightarrow> 'v \<Rightarrow> ('k \<rightharpoonup> 'v) \<Rightarrow> ('k \<rightharpoonup> 'v)" where
  "std_insert k v m = (case m k of None \<Rightarrow> m(k \<mapsto> v) | Some _ \<Rightarrow> m)"

definition getRule :: "'w rule_map \<Rightarrow> gnode \<Rightarrow> 'w rule option" where
  "getRule rules n = (case m_name n of None \<Rightarrow> None | Some s \<Rightarrow> rules s)"

definition make_edge :: "nat \<Rightarrow> nat \<Rightarrow> 'w executor \<Rightarrow> 'w executor" where
  "make_edge s d ex = ex\<lparr>m_adj := (m_adj ex)(s \<mapsto> (case m_adj ex s of None \<Rightarrow> [d] | Some ds \<Rightarrow> ds @ [d]))\<rparr>"

definition insert_actions :: "nat \<Rightarrow> 'w rule \<Rightarrow> 'w executor \<Rightarrow> 'w executor" where
  "insert_actions i r ex = ex\<lparr>
     m_actions := std_insert (i + 2) (exit_action r) (std_insert (i + 1) (main r) (std_insert i (entry r) (m_actions ex))),
     m_main_to_rule_map := std_insert (i + 1) r (m_main_to_rule_map ex)\<rparr>"

fun run_actions :: "'w executor \<Rightarrow> nat list \<Rightarrow> 'w \<Rightarrow> 'w result" where
  "run_actions ex [] w = Inr w"
| "run_actions ex (i # is) w = (case m_actions ex i of
      Some (Some act) \<Rightarrow> rbind (act w) (run_actions ex is)
    | _ \<Rightarrow> run_actions ex is w)"

fun path_covered :: "'w executor \<Rightarrow> nat list \<Rightarrow> 'w \<Rightarrow> bool" where
  "path_covered ex [] w = True"
| "path_covered ex (i # is) w = (case m_main_to_rule_map ex i of
      Some r \<Rightarrow> is_rand_obj_covered r w \<and> path_covered ex is w
    | None \<Rightarrow> path_covered ex is w)"

fun reset_path :: "'w executor \<Rightarrow> nat list \<Rightarrow> 'w \<Rightarrow> 'w" where
  "reset_path ex [] w = w"
| "reset_path ex (i # is) w = reset_path ex is (case m_main_to_rule_map ex i of
      Some r \<Rightarrow> reset_coverage r w
    | None \<Rightarrow> w)"

partial_function (option) repeat_path :: "('w \<Rightarrow> 'w result) \<Rightarrow> ('w \<Rightarrow> bool) \<Rightarrow> 'w \<Rightarrow> 'w run_result" where
  "repeat_path act cov w =
     obind (Some (act w)) (\<lambda>w. if cov w then Some (Inr w) else repeat_path act cov w)"

definition run_path :: "'w executor \<Rightarrow> nat list \<Rightarrow> nat \<times> 'w \<Rightarrow> (nat \<times> 'w) run_result" where
  "run_path ex path s = (case s of (n, w) \<Rightarrow>
     obind (repeat_path (run_actions ex path) (path_covered ex path) (reset_path ex path w)) (\<lambda>w. Some (Inr (Suc n, w))))"

partial_function (option) dfs :: "'w executor \<Rightarrow> nat list \<Rightarrow> nat list \<Rightarrow> nat \<times> 'w \<Rightarrow> (nat \<times> 'w) run_result" where
  "dfs ex path vs s = (case vs of
      [] \<Rightarrow> Some (Inr s)
    | v # vs' \<Rightarrow> obind (case m_adj ex v of
          None \<Rightarrow> if v = 2 then run_path ex (path @ [v]) s else Some (Inl AssertionFailure)
        | Some adj \<Rightarrow> dfs ex (path @ [v]) adj s) (\<lambda>s. dfs ex path vs' s))"

definition check_root :: "nat \<Rightarrow> nat \<Rightarrow> 'w executor \<Rightarrow> 'w executor run_result" where
  "check_root root a ex =
     (if a \<noteq> root then Some (Inr ex)
      else obind (dfs ex [] [0] (m_path_count ex, program ex))
        (\<lambda>(n, w). Some (Inr (ex\<lparr>m_path_count := n, program := w\<rparr>))))"

definition visitTerminal :: "'w rule_map \<Rightarrow> gheap \<Rightarrow> nat \<Rightarrow> nat \<Rightarrow> 'w executor \<Rightarrow> 'w executor run_result" where
  "visitTerminal rules h root a ex = (case getRule rules (h ! a) of
      None \<Rightarrow> Some (Inl AssertionFailure)
    | Some r \<Rightarrow> (let i = m_id ex;
         ex = insert_actions i r ex;
         ex = make_edge i (i + 1) ex;
         ex = make_edge (i + 1) (i + 2) ex;
         ex = ex\<lparr>m_stack := (i, i + 2) # m_stack ex, m_id := i + 3\<rparr>
       in check_root root a ex))"

definition open_nonterminal :: "'w rule_map \<Rightarrow> gnode \<Rightarrow> 'w executor \<Rightarrow> 'w executor" where
  "open_nonterminal rules nt ex = (let start = m_id ex;
     ex = ex\<lparr>m_id := start + 3, m_stack := (start, start + 2) # m_stack ex\<rparr>;
     ex = (case getRule rules nt of None \<Rightarrow> ex | Some r \<Rightarrow> insert_actions start r ex)
   in make_edge start (start + 1) ex)"

definition pop_result :: "'w executor \<Rightarrow> (nat \<times> nat) \<times> 'w executor" where
  "pop_result ex = (hd (m_stack ex), ex\<lparr>m_stack := tl (m_stack ex)\<rparr>)"

fun selector_children ::
  "(nat \<Rightarrow> 'w executor \<Rightarrow> 'w executor run_result) \<Rightarrow> nat \<Rightarrow> nat list \<Rightarrow> 'w executor \<Rightarrow> 'w executor run_result" where
  "selector_children accept start [] ex = Some (Inr ex)"
| "selector_children accept start (n # ns) ex = obind (accept n ex) (\<lambda>ex.
     let (r, ex) = pop_result ex in
     selector_children accept start ns (make_edge (snd r) (start + 2) (make_edge (start + 1) (fst r) ex)))"

fun sequence_children ::
  "(nat \<Rightarrow> 'w executor \<Rightarrow> 'w executor run_result) \<Rightarrow> nat \<Rightarrow> nat \<Rightarrow> nat list \<Rightarrow> 'w executor \<Rightarrow> 'w executor run_result" where
  "sequence_children accept start from_id [] ex = Some (Inr (make_edge from_id (start + 2) ex))"
| "sequence_children accept start from_id (n # ns) ex = obind (accept n ex) (\<lambda>ex.
     let (r, ex) = pop_result ex in
     sequence_children accept start (snd r) ns (make_edge from_id (fst r) ex))"

definition visitSelector ::
  "(nat \<Rightarrow> 'w executor \<Rightarrow> 'w executor run_result) \<Rightarrow> 'w rule_map \<Rightarrow> gheap \<Rightarrow> nat \<Rightarrow> nat \<Rightarrow> 'w executor \<Rightarrow>
    'w executor run_result" where
  "visitSelector accept rules h root a ex =
     obind (selector_children accept (m_id ex) (children (h ! a)) (open_nonterminal rules (h ! a) ex)) (check_root root a)"

definition visitSequence ::
  "(nat \<Rightarrow> 'w executor \<Rightarrow> 'w executor run_result) \<Rightarrow> 'w rule_map \<Rightarrow> gheap \<Rightarrow> nat \<Rightarrow> nat \<Rightarrow> 'w executor \<Rightarrow>
    'w executor run_result" where
  "visitSequence accept rules h root a ex =
     obind (sequence_children accept (m_id ex) (m_id ex + 1) (children (h ! a)) (open_nonterminal rules (h ! a) ex))
       (check_root root a)"

primrec exec_accept ::
  "nat \<Rightarrow> 'w rule_map \<Rightarrow> gheap \<Rightarrow> nat \<Rightarrow> nat \<Rightarrow> 'w executor \<Rightarrow> 'w executor run_result" where
  "exec_accept 0 rules h root a ex = None"
| "exec_accept (Suc k) rules h root a ex = (case obj_kind (h ! a) of
      Terminal \<Rightarrow> visitTerminal rules h root a ex
    | Selector \<Rightarrow> visitSelector (exec_accept k rules h root) rules h root a ex
    | Sequence \<Rightarrow> visitSequence (exec_accept k rules h root) rules h root a ex)"

definition update_graph :: "nat \<Rightarrow> nat \<Rightarrow> rule_context \<Rightarrow> rule_context run_result" where
  "update_graph k p c = obind (update_accept k (m_named_nodes c) p (gheap c, {})) (\<lambda>(h, P). Some (Inr (c\<lparr>gheap := h\<rparr>)))"

definition run_root :: "nat \<Rightarrow> 'w rule_map \<Rightarrow> string \<Rightarrow> rule_context \<Rightarrow> 'w \<Rightarrow> (rule_context \<times> 'w) run_result" where
  "run_root k rules r c w = (let (p, c) = eval_terminal r c; c = c\<lparr>m_root := Some p\<rparr> in
     obind (update_graph k p c) (\<lambda>c.
     obind (exec_accept k rules (gheap c) p p (Executor w)) (\<lambda>ex. Some (Inr (c, program ex)))))"

text \<open>Printing a graph updates it first; the output itself is left out.\<close>

definition print_dot_graph :: "nat \<Rightarrow> string \<Rightarrow> rule_context \<Rightarrow> rule_context run_result" where
  "print_dot_graph k r c = (let (p, c) = eval_terminal r c in update_graph k p c)"

end
