(* ===== verification/RuleUpdate.thy ===== *)
theory RuleUpdate
  imports RuleGraph
begin

text \<open>
  What the graph of a rule context stands for, and that \<open>UpdateVisitor\<close> keeps it. Every named node owns a
  tree of unnamed nodes whose leaves are names. The meaning of a tree is the list of the paths through it,
  given the paths through its leaves; splicing a child of the same kind into its parent keeps the meaning.
\<close>

section \<open>Paths\<close>

datatype phase = Entry | Main | Exit

type_synonym event = "string \<times> phase"
type_synonym word = "event list"
type_synonym words = "word list option"

definition wrap :: "string \<Rightarrow> word \<Rightarrow> word" where
  "wrap s w = (s, Entry) # (s, Main) # w @ [(s, Exit)]"

fun product :: "word list \<Rightarrow> word list \<Rightarrow> word list" where
  "product [] vs = []"
| "product (u # us) vs = map (\<lambda>v. u @ v) vs @ product us vs"

fun combine_words :: "kind \<Rightarrow> words \<Rightarrow> words \<Rightarrow> words" where
  "combine_words K (Some us) (Some vs) = Some (if K = Selector then us @ vs else product us vs)"
| "combine_words K _ _ = None"

definition neutral :: "kind \<Rightarrow> words" where
  "neutral K = Some (if K = Selector then [] else [[]])"

definition kwords :: "kind \<Rightarrow> words list \<Rightarrow> words" where
  "kwords K ws = foldr (combine_words K) ws (neutral K)"

lemma product_append: "product (us @ us') vs = product us vs @ product us' vs"
  by (induction us) simp_all

lemma product_map: "product (map (\<lambda>v. u @ v) us) vs = map (\<lambda>v. u @ v) (product us vs)"
  by (induction us) simp_all

lemma product_assoc: "product (product us vs) ws = product us (product vs ws)"
  by (induction us) (simp_all add: product_append product_map)

lemma map_append_Nil [simp]: "map ((@) []) vs = vs"
  by (induction vs) simp_all

lemma product_unit_left [simp]: "product [[]] vs = vs"
  by simp

lemma product_unit_right [simp]: "product us [[]] = us"
  by (induction us) simp_all

lemma combine_None_left [simp]: "combine_words K None a = None"
  by simp

lemma combine_None_right [simp]: "combine_words K a None = None"
  by (cases a) simp_all

lemma combine_words_assoc: "combine_words K (combine_words K a b) c = combine_words K a (combine_words K b c)"
proof -
  consider "a = None" | "b = None" | "c = None" | us vs ws where "a = Some us" "b = Some vs" "c = Some ws"
    by (cases a; cases b; cases c) blast+
  then show ?thesis
  proof cases
    case 4
    then show ?thesis by (cases "K = Selector") (simp_all add: product_assoc)
  qed simp_all
qed

lemma combine_words_neutral [simp]: "combine_words K (neutral K) a = a" "combine_words K a (neutral K) = a"
  by (cases a; simp add: neutral_def)+

lemma kwords_Nil [simp]: "kwords K [] = neutral K"
  by (simp add: kwords_def)

lemma kwords_Cons [simp]: "kwords K (w # ws) = combine_words K w (kwords K ws)"
  by (simp add: kwords_def)

lemma kwords_append: "kwords K (us @ vs) = combine_words K (kwords K us) (kwords K vs)"
  by (induction us) (simp_all add: combine_words_assoc)

section \<open>Trees of unnamed nodes\<close>

datatype gtree = Ref string | Branch nat kind "gtree list"

type_synonym body = "(kind \<times> gtree list) option"

fun addrs :: "gtree \<Rightarrow> nat list" where
  "addrs (Ref s) = []"
| "addrs (Branch a K ts) = a # concat (map addrs ts)"

fun refs :: "gtree \<Rightarrow> string set" where
  "refs (Ref s) = {s}"
| "refs (Branch a K ts) = \<Union> (refs ` set ts)"

fun twords :: "(string \<Rightarrow> words) \<Rightarrow> gtree \<Rightarrow> words" where
  "twords f (Ref s) = f s"
| "twords f (Branch a K ts) = kwords K (map (twords f) ts)"

fun bwords :: "(string \<Rightarrow> words) \<Rightarrow> body \<Rightarrow> words" where
  "bwords f None = Some [[]]"
| "bwords f (Some (K, ts)) = kwords K (map (twords f) ts)"

fun brefs :: "body \<Rightarrow> string set" where
  "brefs None = {}"
| "brefs (Some (K, ts)) = \<Union> (refs ` set ts)"

fun baddrs :: "body \<Rightarrow> nat list" where
  "baddrs None = []"
| "baddrs (Some (K, ts)) = concat (map addrs ts)"

section \<open>Trees in the heap\<close>

fun crepr :: "bool \<Rightarrow> node_map \<Rightarrow> gheap \<Rightarrow> gtree \<Rightarrow> nat \<Rightarrow> bool" where
  "crepr R M h (Ref s) b \<longleftrightarrow> b < length h \<and> m_name (h ! b) = Some s \<and> (R \<longrightarrow> M s = Some b)"
| "crepr R M h (Branch a K ts) b \<longleftrightarrow> b = a \<and> a < length h \<and> m_name (h ! a) = None \<and> obj_kind (h ! a) = K \<and>
     K \<noteq> Terminal \<and> ts \<noteq> [] \<and> list_all2 (crepr R M h) ts (children (h ! a))"

definition nrepr :: "bool \<Rightarrow> node_map \<Rightarrow> gheap \<Rightarrow> nat \<Rightarrow> body \<Rightarrow> bool" where
  "nrepr R M h a b \<longleftrightarrow> (case b of
      None \<Rightarrow> obj_kind (h ! a) = Terminal
    | Some (K, ts) \<Rightarrow> obj_kind (h ! a) = K \<and> K \<noteq> Terminal \<and> ts \<noteq> [] \<and> list_all2 (crepr R M h) ts (children (h ! a)))"

definition owned :: "node_map \<Rightarrow> (string \<Rightarrow> body) \<Rightarrow> string \<Rightarrow> nat set" where
  "owned M G s = (case M s of None \<Rightarrow> {} | Some a \<Rightarrow> insert a (set (baddrs (G s))))"

definition all_owned :: "node_map \<Rightarrow> (string \<Rightarrow> body) \<Rightarrow> string set \<Rightarrow> nat set" where
  "all_owned M G P = (\<Union>s\<in>- P. owned M G s)"

definition same_nodes :: "gheap \<Rightarrow> gheap \<Rightarrow> bool" where
  "same_nodes h h' \<longleftrightarrow> length h' = length h \<and> (\<forall>x. m_name (h' ! x) = m_name (h ! x) \<and> obj_kind (h' ! x) = obj_kind (h ! x))"

definition graph_inv :: "gheap \<Rightarrow> node_map \<Rightarrow> (string \<Rightarrow> body) \<Rightarrow> string set \<Rightarrow> bool" where
  "graph_inv h M G P \<longleftrightarrow>
     finite (dom M) \<and>
     (\<forall>s a. M s = Some a \<longrightarrow> a < length h \<and> m_name (h ! a) = Some s \<and> (obj_kind (h ! a) = Terminal \<longleftrightarrow> G s = None)) \<and>
     (\<forall>s a. M s = Some a \<longrightarrow> s \<notin> P \<longrightarrow> nrepr False M h a (G s) \<and> distinct (a # baddrs (G s))) \<and>
     (\<forall>s t. s \<notin> P \<longrightarrow> t \<notin> P \<longrightarrow> s \<noteq> t \<longrightarrow> owned M G s \<inter> owned M G t = {}) \<and>
     (\<forall>s. brefs (G s) \<subseteq> dom M) \<and> (\<forall>s. G s \<noteq> None \<longrightarrow> s \<in> dom M) \<and> (\<forall>s\<in>P. G s \<noteq> None)"


lemma crepr_cong:
  "crepr R M h t b \<Longrightarrow> same_nodes h h' \<Longrightarrow> (\<And>x. x \<in> set (addrs t) \<Longrightarrow> h' ! x = h ! x) \<Longrightarrow> crepr R M h' t b"
proof (induction t arbitrary: b)
  case (Ref s)
  then show ?case by (auto simp: same_nodes_def)
next
  case (Branch a K ts)
  have h: "list_all2 (crepr R M h) ts (children (h ! a))" and b: "b = a" using Branch.prems(1) by simp_all
  have "list_all2 (crepr R M h') ts (children (h ! a))"
  proof (rule list.rel_mono_strong [OF h])
    fix t c assume "t \<in> set ts" "crepr R M h t c"
    then show "crepr R M h' t c" by (rule Branch.IH [OF _ _ Branch.prems(2)]) (use \<open>t \<in> set ts\<close> Branch.prems(3) in auto)
  qed
  moreover have "h' ! a = h ! a" by (rule Branch.prems(3)) simp
  ultimately show ?case using Branch.prems(1,2) b by (simp add: same_nodes_def)
qed

lemma creprs_cong:
  assumes "list_all2 (crepr R M h) ts bs" "same_nodes h h'" "\<And>x. x \<in> set (baddrs (Some (K, ts))) \<Longrightarrow> h' ! x = h ! x"
  shows "list_all2 (crepr R M h') ts bs"
proof (rule list.rel_mono_strong [OF assms(1)])
  fix t c assume t: "t \<in> set ts" and "crepr R M h t c"
  from this(2) assms(2) show "crepr R M h' t c" by (rule crepr_cong) (use t assms(3) in auto)
qed

lemma crepr_weaken: "crepr True M h t b \<Longrightarrow> crepr R M h t b"
proof (induction t arbitrary: b)
  case (Branch a K ts)
  then have "list_all2 (crepr R M h) ts (children (h ! a))"
    unfolding crepr.simps by (elim conjE) (erule list.rel_mono_strong, simp)
  then show ?case using Branch.prems by simp
qed simp

lemma creprs_weaken: "list_all2 (crepr True M h) ts bs \<Longrightarrow> list_all2 (crepr R M h) ts bs"
  by (erule list.rel_mono_strong) (rule crepr_weaken)

lemma same_nodes_refl [simp]: "same_nodes h h"
  by (simp add: same_nodes_def)

lemma same_nodes_trans: "same_nodes h h1 \<Longrightarrow> same_nodes h1 h2 \<Longrightarrow> same_nodes h h2"
  by (simp add: same_nodes_def)

lemma same_nodes_children: "same_nodes h (h[a := (h ! a)\<lparr>children := cs\<rparr>])"
proof -
  have "m_name (h[a := (h ! a)\<lparr>children := cs\<rparr>] ! x) = m_name (h ! x) \<and>
      obj_kind (h[a := (h ! a)\<lparr>children := cs\<rparr>] ! x) = obj_kind (h ! x)" for x
    by (cases "x = a \<and> a < length h") (auto simp: nth_list_update list_update_beyond not_less)
  then show ?thesis by (simp add: same_nodes_def)
qed

section \<open>Names that lead into a loop\<close>

definition succs :: "(string \<Rightarrow> body) \<Rightarrow> string \<Rightarrow> string set" where
  "succs G s = brefs (G s)"

definition edges :: "(string \<Rightarrow> string set) \<Rightarrow> (string \<times> string) set" where
  "edges S = {(s, t). t \<in> S s}"

inductive safe :: "(string \<Rightarrow> string set) \<Rightarrow> string set \<Rightarrow> string \<Rightarrow> bool" for S where
  safeI: "s \<notin> P \<Longrightarrow> (\<And>t. t \<in> S s \<Longrightarrow> safe S (insert s P) t) \<Longrightarrow> safe S P s"

inductive_cases safeE: "safe S P s"

lemma safe_iff: "safe S P s \<longleftrightarrow> s \<notin> P \<and> (\<forall>t\<in>S s. safe S (insert s P) t)"
  by (auto intro: safeI elim: safeE)

lemma safe_avoids: "safe S P s \<Longrightarrow> (s, m) \<in> (edges S)\<^sup>* \<Longrightarrow> m \<notin> P"
proof (induction arbitrary: m rule: safe.induct)
  case (safeI s P)
  from safeI.prems show ?case
  proof (cases rule: converse_rtranclE)
    case base
    then show ?thesis using safeI.hyps by simp
  next
    case (step t)
    then have "t \<in> S s" by (simp add: edges_def)
    from safeI.IH [OF this step(2)] show ?thesis by simp
  qed
qed

definition same_meaning :: "(string \<Rightarrow> body) \<Rightarrow> (string \<Rightarrow> body) \<Rightarrow> bool" where
  "same_meaning G G' \<longleftrightarrow> (\<forall>s. brefs (G' s) = brefs (G s) \<and> (G' s = None \<longleftrightarrow> G s = None) \<and>
     (\<forall>f. bwords f (G' s) = bwords f (G s)))"

lemma same_meaning_refl [simp]: "same_meaning G G"
  by (simp add: same_meaning_def)

lemma same_meaning_trans: "same_meaning G G1 \<Longrightarrow> same_meaning G1 G2 \<Longrightarrow> same_meaning G G2"
  by (simp add: same_meaning_def)

lemma same_meaning_succs: "same_meaning G G' \<Longrightarrow> succs G' = succs G"
  unfolding same_meaning_def succs_def by (rule ext) simp

section \<open>The visitor\<close>

definition resolved :: "node_map \<Rightarrow> gheap \<Rightarrow> (string \<Rightarrow> body) \<Rightarrow> string \<Rightarrow> bool" where
  "resolved M h G s \<longleftrightarrow> (\<exists>a. M s = Some a \<and> nrepr True M h a (G s))"

text \<open>
  \<open>visited\<close> relates the trees of a list of children before and after a visit: meanings are kept, nothing
  outside the trees and the names that are not on the path changes, and every pointer to a name that can be
  reached is up to date.
\<close>

definition visited ::
  "node_map \<Rightarrow> string set \<Rightarrow> kind \<Rightarrow> gheap \<Rightarrow> (string \<Rightarrow> body) \<Rightarrow> gtree list \<Rightarrow> gheap \<Rightarrow> (string \<Rightarrow> body) \<Rightarrow>
    gtree list \<Rightarrow> nat list \<Rightarrow> bool" where
  "visited M P K h G ts h' G' ts' ps \<longleftrightarrow>
     graph_inv h' M G' P \<and> same_meaning G G' \<and> same_nodes h h' \<and>
     list_all2 (crepr True M h') ts' ps \<and>
     set (baddrs (Some (K, ts'))) \<subseteq> set (baddrs (Some (K, ts))) \<and> distinct (baddrs (Some (K, ts'))) \<and>
     (ts \<noteq> [] \<longrightarrow> ts' \<noteq> []) \<and>
     (\<forall>f. bwords f (Some (K, ts')) = bwords f (Some (K, ts))) \<and> brefs (Some (K, ts')) = brefs (Some (K, ts)) \<and>
     (\<forall>x. x \<notin> set (baddrs (Some (K, ts))) \<longrightarrow> x \<notin> all_owned M G P \<longrightarrow> h' ! x = h ! x) \<and>
     (\<forall>s. s \<notin> P \<longrightarrow> owned M G' s \<subseteq> owned M G s) \<and> (\<forall>s\<in>P. G' s = G s) \<and>
     (\<forall>s. s \<notin> P \<longrightarrow> resolved M h G s \<longrightarrow> resolved M h' G' s) \<and>
     (\<forall>s\<in>brefs (Some (K, ts)). \<forall>m. (s, m) \<in> (edges (succs G))\<^sup>* \<longrightarrow> m \<notin> P \<and> resolved M h' G' m)"

definition trees_ok :: "node_map \<Rightarrow> string set \<Rightarrow> gheap \<Rightarrow> (string \<Rightarrow> body) \<Rightarrow> gtree list \<Rightarrow> nat list \<Rightarrow> bool" where
  "trees_ok M P h G ts bs \<longleftrightarrow> list_all2 (crepr False M h) ts bs \<and> distinct (concat (map addrs ts)) \<and>
     set (concat (map addrs ts)) \<inter> all_owned M G P = {} \<and> \<Union> (refs ` set ts) \<subseteq> dom M"

lemma visitedD:
  assumes "visited M P K h G ts h' G' ts' ps"
  shows "graph_inv h' M G' P" "same_meaning G G'" "same_nodes h h'" "list_all2 (crepr True M h') ts' ps"
    "set (baddrs (Some (K, ts'))) \<subseteq> set (baddrs (Some (K, ts)))" "distinct (baddrs (Some (K, ts')))"
    "bwords f (Some (K, ts')) = bwords f (Some (K, ts))" "brefs (Some (K, ts')) = brefs (Some (K, ts))"
    "x \<notin> set (baddrs (Some (K, ts))) \<Longrightarrow> x \<notin> all_owned M G P \<Longrightarrow> h' ! x = h ! x"
    "s \<notin> P \<Longrightarrow> owned M G' s \<subseteq> owned M G s" "s \<in> P \<Longrightarrow> G' s = G s"
    "s \<notin> P \<Longrightarrow> resolved M h G s \<Longrightarrow> resolved M h' G' s"
    "s \<in> brefs (Some (K, ts)) \<Longrightarrow> (s, m) \<in> (edges (succs G))\<^sup>* \<Longrightarrow> m \<notin> P"
    "s \<in> brefs (Some (K, ts)) \<Longrightarrow> (s, m) \<in> (edges (succs G))\<^sup>* \<Longrightarrow> resolved M h' G' m"
    "ts \<noteq> [] \<Longrightarrow> ts' \<noteq> []"
  using assms unfolding visited_def by (blast+)

lemma visited_owned: "visited M P K h G ts h' G' ts' ps \<Longrightarrow> all_owned M G' P \<subseteq> all_owned M G P"
  unfolding all_owned_def by (intro UN_mono subset_refl) (simp add: visitedD(10))

lemma visited_Nil: "graph_inv h M G P \<Longrightarrow> visited M P K h G [] h G [] []"
  by (simp add: visited_def)

lemma bwords_append: "bwords f (Some (K, ts @ us)) = combine_words K (bwords f (Some (K, ts))) (bwords f (Some (K, us)))"
  by (simp add: kwords_append)

lemma visited_append:
  assumes v1: "visited M P K h G ts h1 G1 ts1 ps1" and v2: "visited M P K h1 G1 us h2 G2 us2 ps2"
    and disj: "set (baddrs (Some (K, ts))) \<inter> set (baddrs (Some (K, us))) = {}"
      "set (baddrs (Some (K, ts))) \<inter> all_owned M G P = {}"
  shows "visited M P K h G (ts @ us) h2 G2 (ts1 @ us2) (ps1 @ ps2)"
proof -
  note d1 = visitedD [OF v1] and d2 = visitedD [OF v2]
  note own = visited_owned [OF v1]
  have frame: "h2 ! x = h1 ! x" if "x \<in> set (baddrs (Some (K, ts)))" for x
    using d2(9) [of x] that disj own by blast
  have l: "list_all2 (crepr True M h2) ts1 ps1"
    by (rule creprs_cong [OF d1(4) d2(3)]) (rule frame, use d1(5) in blast)
  have S: "succs G1 = succs G" by (rule same_meaning_succs [OF d1(2)])
  have res: "m \<notin> P \<and> resolved M h2 G2 m"
    if "s \<in> brefs (Some (K, ts @ us))" "(s, m) \<in> (edges (succs G))\<^sup>*" for s m
  proof (cases "s \<in> brefs (Some (K, ts))")
    case True
    then show ?thesis using d1(13,14) [OF _ that(2)] d2(12) by blast
  next
    case False
    then have "s \<in> brefs (Some (K, us))" using that(1) by simp
    then show ?thesis using d2(13,14) that(2) unfolding S by blast
  qed
  show ?thesis
    unfolding visited_def
  proof (intro conjI allI ballI impI)
    show "graph_inv h2 M G2 P" by (rule d2(1))
    show "same_meaning G G2" by (rule same_meaning_trans [OF d1(2) d2(2)])
    show "same_nodes h h2" by (rule same_nodes_trans [OF d1(3) d2(3)])
    show "list_all2 (crepr True M h2) (ts1 @ us2) (ps1 @ ps2)" by (rule list_all2_appendI [OF l d2(4)])
    show "set (baddrs (Some (K, ts1 @ us2))) \<subseteq> set (baddrs (Some (K, ts @ us)))" using d1(5) d2(5) by auto
    show "distinct (baddrs (Some (K, ts1 @ us2)))" using d1(5,6) d2(5,6) disj(1) by auto
    show "bwords f (Some (K, ts1 @ us2)) = bwords f (Some (K, ts @ us))" for f
      by (simp only: bwords_append d1(7) d2(7))
    show "ts1 @ us2 \<noteq> []" if "ts @ us \<noteq> []" using that d1(15) d2(15) by auto
    show "brefs (Some (K, ts1 @ us2)) = brefs (Some (K, ts @ us))" using d1(8) d2(8) by simp
    show "h2 ! x = h ! x" if "x \<notin> set (baddrs (Some (K, ts @ us)))" "x \<notin> all_owned M G P" for x
    proof -
      have "h2 ! x = h1 ! x" using that own by (intro d2(9)) auto
      also have "\<dots> = h ! x" using that by (intro d1(9)) auto
      finally show ?thesis .
    qed
    show "owned M G2 s \<subseteq> owned M G s" if "s \<notin> P" for s using d1(10) [OF that] d2(10) [OF that] by blast
    show "G2 s = G s" if "s \<in> P" for s using d1(11) [OF that] d2(11) [OF that] by simp
    show "resolved M h2 G2 s" if "s \<notin> P" "resolved M h G s" for s
      by (rule d2(12) [OF that(1) d1(12) [OF that]])
    show "m \<notin> P" if "s \<in> brefs (Some (K, ts @ us))" "(s, m) \<in> (edges (succs G))\<^sup>*" for s m
      using res [OF that] ..
    show "resolved M h2 G2 m" if "s \<in> brefs (Some (K, ts @ us))" "(s, m) \<in> (edges (succs G))\<^sup>*" for s m
      using res [OF that] ..
  qed
qed

lemma nrepr_cong:
  assumes "nrepr R M h a b" "same_nodes h h'" "h' ! a = h ! a" "\<And>x. x \<in> set (baddrs b) \<Longrightarrow> h' ! x = h ! x"
  shows "nrepr R M h' a b"
proof (cases b)
  case None
  then show ?thesis using assms by (simp add: nrepr_def)
next
  case (Some p)
  obtain K ts where b: "b = Some (K, ts)" using Some by (cases p) simp
  then have l: "list_all2 (crepr R M h) ts (children (h ! a))" using assms(1) by (simp add: nrepr_def)
  have "list_all2 (crepr R M h') ts (children (h ! a))"
    by (rule creprs_cong [OF l assms(2), where K = K]) (rule assms(4), simp add: b)
  then show ?thesis using assms(1,3) b by (simp add: nrepr_def)
qed

lemma resolved_cong:
  assumes "resolved M h G s" "same_nodes h h'" "\<And>x. x \<in> owned M G s \<Longrightarrow> h' ! x = h ! x"
  shows "resolved M h' G s"
proof -
  obtain a where a: "M s = Some a" "nrepr True M h a (G s)" using assms(1) by (auto simp: resolved_def)
  have "nrepr True M h' a (G s)"
    by (rule nrepr_cong [OF a(2) assms(2)]) (use assms(3) a(1) in \<open>simp_all add: owned_def\<close>)
  then show ?thesis using a(1) by (simp add: resolved_def)
qed

lemma graph_invD:
  assumes "graph_inv h M G P"
  shows "M s = Some a \<Longrightarrow> a < length h" "M s = Some a \<Longrightarrow> m_name (h ! a) = Some s"
    "M s = Some a \<Longrightarrow> obj_kind (h ! a) = Terminal \<longleftrightarrow> G s = None" "finite (dom M)"
    "M s = Some a \<Longrightarrow> s \<notin> P \<Longrightarrow> nrepr False M h a (G s)" "M s = Some a \<Longrightarrow> s \<notin> P \<Longrightarrow> distinct (a # baddrs (G s))"
    "s \<notin> P \<Longrightarrow> t \<notin> P \<Longrightarrow> s \<noteq> t \<Longrightarrow> owned M G s \<inter> owned M G t = {}"
    "brefs (G s) \<subseteq> dom M" "G s \<noteq> None \<Longrightarrow> s \<in> dom M" "s \<in> P \<Longrightarrow> G s \<noteq> None"
  using assms unfolding graph_inv_def by blast+

lemma owned_in: "s \<notin> P \<Longrightarrow> owned M G s \<subseteq> all_owned M G P"
  by (auto simp: all_owned_def)

lemma ownedI: "M s = Some a \<Longrightarrow> a \<in> owned M G s" "M s = Some a \<Longrightarrow> x \<in> set (baddrs (G s)) \<Longrightarrow> x \<in> owned M G s"
  by (simp_all add: owned_def)

lemma graph_inv_cong:
  assumes i: "graph_inv h M G P" and s: "same_nodes h h'" and f: "\<And>x. x \<in> all_owned M G P \<Longrightarrow> h' ! x = h ! x"
  shows "graph_inv h' M G P"
proof -
  note d = graph_invD [OF i]
  have "nrepr False M h' a (G s)" if "M s = Some a" "s \<notin> P" for s a
    by (rule nrepr_cong [OF d(5) [OF that] s]; rule f, rule subsetD [OF owned_in [OF that(2)]])
      (use that in \<open>simp_all add: ownedI\<close>)
  then show ?thesis
    using d s unfolding graph_inv_def same_nodes_def by simp
qed

lemma visited_write:
  assumes v: "visited M P K0 h G ts h' G' ts' ps"
    and a: "a \<in> set (baddrs (Some (K, us)))" "set (baddrs (Some (K0, ts))) \<subseteq> set (baddrs (Some (K, us)))"
      "set (baddrs (Some (K, us))) \<inter> all_owned M G P = {}" "brefs (Some (K, us)) = brefs (Some (K0, ts))"
    and h2: "h2 = h'[a := (h' ! a)\<lparr>children := cs\<rparr>]"
    and n: "list_all2 (crepr True M h2) us' qs" "set (baddrs (Some (K, us'))) \<subseteq> set (baddrs (Some (K, us)))"
      "distinct (baddrs (Some (K, us')))" "\<And>f. bwords f (Some (K, us')) = bwords f (Some (K, us))"
      "brefs (Some (K, us')) = brefs (Some (K, us))" "us \<noteq> [] \<Longrightarrow> us' \<noteq> []"
  shows "visited M P K h G us h2 G' us' qs"
proof -
  note d = visitedD [OF v]
  note own = visited_owned [OF v]
  have s: "same_nodes h' h2" unfolding h2 by (rule same_nodes_children)
  have f: "h2 ! x = h' ! x" if "x \<in> all_owned M G' P" for x
    using that own a(1,3) unfolding h2 by (intro nth_list_update_neq) blast
  have res: "resolved M h2 G' m" if "m \<notin> P" "resolved M h' G' m" for m
    by (rule resolved_cong [OF that(2) s f]) (use owned_in [OF that(1)] in blast)
  show ?thesis
    unfolding visited_def
  proof (intro conjI allI ballI impI)
    show "graph_inv h2 M G' P" by (rule graph_inv_cong [OF d(1) s f])
    show "same_nodes h h2" by (rule same_nodes_trans [OF d(3) s])
    show "h2 ! x = h ! x" if "x \<notin> set (baddrs (Some (K, us)))" "x \<notin> all_owned M G P" for x
      using that a(1,2) d(9) [of x] unfolding h2 by (subst nth_list_update_neq) blast+
    show "resolved M h2 G' s" if "s \<notin> P" "resolved M h G s" for s
      by (rule res [OF that(1) d(12) [OF that]])
    fix s m assume "s \<in> brefs (Some (K, us))" and r: "(s, m) \<in> (edges (succs G))\<^sup>*"
    then have s0: "s \<in> brefs (Some (K0, ts))" by (simp only: a(4))
    show "m \<notin> P" by (rule d(13) [OF s0 r])
    then show "resolved M h2 G' m" by (rule res) (rule d(14) [OF s0 r])
  qed (use d n in blast)+
qed

lemma visited_splice:
  assumes v: "visited M P K h G [t] h' G' [Branch a K us] [a]" and t: "set (addrs t) \<inter> all_owned M G P = {}"
  shows "visited M P K h G [t] (clear_children a h') G' us (children (h' ! a))"
proof (rule visited_write [OF v, where a = a and cs = "[]"])
  note d = visitedD [OF v]
  let ?h = "clear_children a h'"
  have l: "list_all2 (crepr True M h') us (children (h' ! a))" and n: "distinct (a # concat (map addrs us))"
    and ne: "us \<noteq> []" using d(4,6) by simp_all
  show "list_all2 (crepr True M ?h) us (children (h' ! a))"
  proof (rule creprs_cong [OF l])
    show "same_nodes h' ?h" unfolding clear_children_def by (rule same_nodes_children)
    show "?h ! x = h' ! x" if "x \<in> set (baddrs (Some (K, us)))" for x
      using that n unfolding clear_children_def by (intro nth_list_update_neq) auto
  qed
  show "set (baddrs (Some (K, us))) \<subseteq> set (baddrs (Some (K, [t])))" "distinct (baddrs (Some (K, us)))"
    "a \<in> set (baddrs (Some (K, [t])))" using d(5) n by auto
  show "bwords f (Some (K, us)) = bwords f (Some (K, [t]))" for f using d(7) [of f] by simp
  show "brefs (Some (K, us)) = brefs (Some (K, [t]))" using d(8) by simp
  show "set (baddrs (Some (K, [t]))) \<inter> all_owned M G P = {}" using t by simp
  show "us \<noteq> []" by (rule ne)
qed (simp_all add: clear_children_def)

section \<open>The loop over the children\<close>

definition visit_outcome ::
  "node_map \<Rightarrow> string set \<Rightarrow> gheap \<Rightarrow> (string \<Rightarrow> body) \<Rightarrow> gtree \<Rightarrow> nat \<Rightarrow> update_state result \<Rightarrow> bool" where
  "visit_outcome M P h G t p res \<longleftrightarrow> (case res of
      Inl e \<Rightarrow> e = AssertionFailure \<and> \<not> (\<forall>s\<in>refs t. safe (succs G) P s)
    | Inr (h', P') \<Rightarrow> P' = P \<and> (\<forall>s\<in>refs t. safe (succs G) P s) \<and>
        (\<exists>G' t'. \<forall>K. visited M P K h G [t] h' G' [t'] [p]))"

definition visit_ok ::
  "(nat \<Rightarrow> nat \<Rightarrow> update_state \<Rightarrow> update_state run_result) \<Rightarrow> node_map \<Rightarrow> string set \<Rightarrow> gtree \<Rightarrow> bool" where
  "visit_ok accept M P t \<longleftrightarrow> (\<forall>h G b. graph_inv h M G P \<longrightarrow> trees_ok M P h G [t] [b] \<longrightarrow>
     (\<exists>N res. (\<forall>k\<ge>N. accept k (updated_child M h b) (h, P) = Some res) \<and>
       visit_outcome M P h G t (updated_child M h b) res))"

definition loop_outcome ::
  "node_map \<Rightarrow> string set \<Rightarrow> kind \<Rightarrow> gheap \<Rightarrow> (string \<Rightarrow> body) \<Rightarrow> gtree list \<Rightarrow> nat list \<Rightarrow>
    (nat list \<times> update_state) result \<Rightarrow> bool" where
  "loop_outcome M P K h G ts updated res \<longleftrightarrow> (case res of
      Inl e \<Rightarrow> e = AssertionFailure \<and> \<not> (\<forall>s\<in>\<Union> (refs ` set ts). safe (succs G) P s)
    | Inr (ps', h', P') \<Rightarrow> P' = P \<and> (\<forall>s\<in>\<Union> (refs ` set ts). safe (succs G) P s) \<and>
        (\<exists>G' ts' ps. ps' = updated @ ps \<and> visited M P K h G ts h' G' ts' ps))"

lemma loop_outcome_Cons:
  assumes v: "visited M P K h G [t] h1 G1 ts1 ps1" and out: "loop_outcome M P K h1 G1 ts (upd @ ps1) res"
    and sf: "\<forall>s\<in>refs t. safe (succs G) P s" and ok: "trees_ok M P h G (t # ts) (b # bs)"
  shows "loop_outcome M P K h G (t # ts) upd res"
proof -
  have S: "succs G1 = succs G" by (rule same_meaning_succs [OF visitedD(2) [OF v]])
  have app: "visited M P K h G (t # ts) h' G' (ts1 @ ts2) (ps1 @ ps)" if "visited M P K h1 G1 ts h' G' ts2 ps"
    for h' G' ts2 ps
    using visited_append [OF v that] ok by (auto simp: trees_ok_def)
  show ?thesis
  proof (cases res)
    case (Inl e)
    then show ?thesis using out unfolding loop_outcome_def S by auto
  next
    case (Inr r)
    obtain ps' h' P' where r: "r = (ps', h', P')" by (cases r)
    with Inr out obtain G' ts2 ps where "ps' = (upd @ ps1) @ ps" "visited M P K h1 G1 ts h' G' ts2 ps"
        "P' = P" "\<forall>s\<in>\<Union> (refs ` set ts). safe (succs G) P s"
      unfolding loop_outcome_def S by auto
    moreover from app [OF this(2)] this(1) have "\<exists>G' ts' ps. ps' = upd @ ps \<and> visited M P K h G (t # ts) h' G' ts' ps"
      by (intro exI conjI) auto
    ultimately show ?thesis unfolding Inr r loop_outcome_def using sf by auto
  qed
qed

lemma trees_ok_Cons:
  "trees_ok M P h G (t # ts) (b # bs) \<longleftrightarrow>
     trees_ok M P h G [t] [b] \<and> trees_ok M P h G ts bs \<and> set (addrs t) \<inter> set (concat (map addrs ts)) = {}"
  by (auto simp: trees_ok_def)

lemma trees_ok_visited:
  assumes v: "visited M P K h G [t] h1 G1 ts1 ps1" and ok: "trees_ok M P h G (t # ts) (b # bs)"
  shows "trees_ok M P h1 G1 ts bs"
proof -
  note d = visitedD [OF v]
  have l: "list_all2 (crepr False M h) ts bs" using ok by (simp add: trees_ok_def)
  have "list_all2 (crepr False M h1) ts bs"
    by (rule creprs_cong [OF l d(3), where K = K]) (rule d(9); use ok in \<open>auto simp: trees_ok_def\<close>)
  then show ?thesis using ok visited_owned [OF v] by (auto simp: trees_ok_def)
qed

lemma same_kind_child:
  assumes "crepr True M h t p"
  shows "m_name (h ! p) = None \<and> obj_kind (h ! p) = K \<longleftrightarrow> (\<exists>us. t = Branch p K us)"
  using assms by (cases t) auto

lemma visited_child:
  assumes v: "\<And>K. visited M P K h G [t] h' G' [t'] [p]" and t: "set (addrs t) \<inter> all_owned M G P = {}"
  obtains h1 ts1 ps1 where "visited M P K h G [t] h1 G' ts1 ps1"
    and "\<And>accept bs upd. (if m_name (h' ! p) = None \<and> obj_kind (h' ! p) = K
        then update_children accept M K bs (upd @ children (h' ! p)) (clear_children p h', P)
        else update_children accept M K bs (upd @ [p]) (h', P)) = update_children accept M K bs (upd @ ps1) (h1, P)"
proof (cases "m_name (h' ! p) = None \<and> obj_kind (h' ! p) = K")
  case True
  have "crepr True M h' t' p" using visitedD(4) [OF v] by simp
  from same_kind_child [OF this] True obtain us where "t' = Branch p K us" by blast
  with v have "visited M P K h G [t] h' G' [Branch p K us] [p]" by simp
  from visited_splice [OF this t] show ?thesis by (rule that) (use True in simp)
next
  case False
  show ?thesis by (rule that [OF v]) (simp only: False if_False)
qed

lemma update_children_ok:
  assumes "\<forall>t\<in>set ts. visit_ok accept M P t" "graph_inv h M G P" "trees_ok M P h G ts bs"
  shows "\<exists>N res. (\<forall>k\<ge>N. update_children (accept k) M K bs upd (h, P) = Some res) \<and>
    loop_outcome M P K h G ts upd res"
  using assms
proof (induction ts arbitrary: h G bs upd)
  case Nil
  then have "bs = []" by (simp add: trees_ok_def)
  moreover have "loop_outcome M P K h G [] upd (Inr (upd, h, P))"
    using visited_Nil [OF Nil.prems(2)] by (auto simp: loop_outcome_def)
  ultimately show ?case by auto
next
  case (Cons t ts)
  obtain b bs' where bs: "bs = b # bs'" using Cons.prems(3) by (auto simp: trees_ok_def list_all2_Cons1)
  note ok = Cons.prems(3) [unfolded bs]
  let ?p = "updated_child M h b"
  have "visit_ok accept M P t" using Cons.prems(1) by simp
  moreover have "trees_ok M P h G [t] [b]" by (rule trees_ok_Cons [THEN iffD1, OF ok, THEN conjunct1])
  ultimately obtain N res where N: "\<forall>k\<ge>N. accept k ?p (h, P) = Some res"
    and out: "visit_outcome M P h G t ?p res" using Cons.prems(2) unfolding visit_ok_def by blast
  have refs: "\<Union> (refs ` set (t # ts)) = refs t \<union> \<Union> (refs ` set ts)" by simp
  show ?case
  proof (cases res)
    case (Inl e)
    then have "loop_outcome M P K h G (t # ts) upd (Inl e)"
      using out unfolding loop_outcome_def visit_outcome_def refs by auto
    moreover have "\<forall>k\<ge>N. update_children (accept k) M K bs upd (h, P) = Some (Inl e)"
      using N Inl by (simp add: bs Let_def)
    ultimately show ?thesis by blast
  next
    case (Inr hp)
    then obtain h' where res: "res = Inr (h', P)" and sf: "\<forall>s\<in>refs t. safe (succs G) P s"
      using out by (cases hp) (auto simp: visit_outcome_def)
    then obtain G' t' where v: "visited M P K h G [t] h' G' [t'] [?p]" for K
      using out by (auto simp: visit_outcome_def)
    have disj: "set (addrs t) \<inter> all_owned M G P = {}" using ok by (auto simp: trees_ok_def)
    obtain h1 ts1 ps1 where v1: "visited M P K h G [t] h1 G' ts1 ps1"
      and eq: "\<And>accept bs upd. (if m_name (h' ! ?p) = None \<and> obj_kind (h' ! ?p) = K
        then update_children accept M K bs (upd @ children (h' ! ?p)) (clear_children ?p h', P)
        else update_children accept M K bs (upd @ [?p]) (h', P)) = update_children accept M K bs (upd @ ps1) (h1, P)"
      by (rule visited_child [OF v disj]) blast
    have "\<exists>N res. (\<forall>k\<ge>N. update_children (accept k) M K bs' (upd @ ps1) (h1, P) = Some res) \<and>
        loop_outcome M P K h1 G' ts (upd @ ps1) res"
      by (rule Cons.IH [OF _ visitedD(1) [OF v1] trees_ok_visited [OF v1 ok]]) (use Cons.prems(1) in simp)
    then obtain N' res' where N': "\<forall>k\<ge>N'. update_children (accept k) M K bs' (upd @ ps1) (h1, P) = Some res'"
      and out': "loop_outcome M P K h1 G' ts (upd @ ps1) res'" by blast
    have "\<forall>k\<ge>max N N'. update_children (accept k) M K bs upd (h, P) = Some res'"
      using N N' res eq by (simp add: bs Let_def)
    moreover have "loop_outcome M P K h G (t # ts) upd res'"
      by (rule loop_outcome_Cons [OF v1 out' sf ok])
    ultimately show ?thesis by blast
  qed
qed

lemma nrepr_weaken: "nrepr True M h a b \<Longrightarrow> nrepr R M h a b"
  by (auto simp: nrepr_def creprs_weaken split: option.splits)

lemma graph_inv_named:
  assumes i': "graph_inv h' M G' (insert s P)" and i: "graph_inv h M G P" and nodes: "same_nodes h' h2"
    and f: "\<And>t x. t \<notin> insert s P \<Longrightarrow> x \<in> owned M G' t \<Longrightarrow> h2 ! x = h' ! x"
    and own: "\<And>t. t \<notin> P \<Longrightarrow> owned M G2 t \<subseteq> owned M G t" and sm: "same_meaning G G2"
    and G2: "\<And>t. t \<noteq> s \<Longrightarrow> G2 t = G' t" and s: "M s = Some a"
    and me: "nrepr True M h2 a (G2 s)" "distinct (a # baddrs (G2 s))" "G2 s \<noteq> None"
  shows "graph_inv h2 M G2 P"
proof -
  note d = graph_invD [OF i] and d' = graph_invD [OF i']
  have sm': "brefs (G2 t) = brefs (G t)" "(G2 t = None) = (G t = None)" for t using sm by (simp_all add: same_meaning_def)
  have "nrepr False M h2 b (G2 t) \<and> distinct (b # baddrs (G2 t))" if t: "M t = Some b" "t \<notin> P" for t b
  proof (cases "t = s")
    case True
    then show ?thesis using me t s nrepr_weaken by auto
  next
    case False
    then have u: "t \<notin> insert s P" using t(2) by simp
    have "nrepr False M h2 b (G' t)"
      by (rule nrepr_cong [OF d'(5) [OF t(1) u] nodes]; rule f [OF u]) (simp_all add: ownedI [of M, OF t(1)])
    then show ?thesis using d'(6) [of t b] t False G2 by simp
  qed
  moreover have "owned M G2 t \<inter> owned M G2 u = {}" if "t \<notin> P" "u \<notin> P" "t \<noteq> u" for t u
    using d(7) [OF that] own [OF that(1)] own [OF that(2)] by blast
  moreover have "(obj_kind (h2 ! b) = Terminal) = (G2 t = None)" if "M t = Some b" for t b
  proof (cases "t = s")
    case True
    then show ?thesis using me s that by (auto simp: nrepr_def split: option.splits prod.splits)
  next
    case False
    then show ?thesis using d'(3) [OF that] G2 nodes by (simp add: same_nodes_def)
  qed
  ultimately show ?thesis
    unfolding graph_inv_def
    using d d'(1,2) nodes by (auto simp: sm' same_nodes_def)
qed

section \<open>Nodes\<close>

lemma update_accept_nonterminal:
  "obj_kind (fst s ! a) \<noteq> Terminal \<Longrightarrow> update_accept (Suc k) M a s = visitNonTerminal (update_accept k M) M a s"
  by (cases "obj_kind (fst s ! a)") simp_all

lemma all_owned_insert: "s \<notin> P \<Longrightarrow> all_owned M G P = owned M G s \<union> all_owned M G (insert s P)"
  by (auto simp: all_owned_def)

lemma owned_not_others:
  assumes "graph_inv h M G P" "s \<notin> P"
  shows "owned M G s \<inter> all_owned M G (insert s P) = {}"
  using graph_invD(7) [OF assms(1,2)] by (auto simp: all_owned_def)

lemma graph_inv_insert: "graph_inv h M G P \<Longrightarrow> G s \<noteq> None \<Longrightarrow> graph_inv h M G (insert s P)"
  unfolding graph_inv_def by simp

lemma visited_named:
  assumes v: "visited M (insert s P) K0 h G us h' G' us' ps" and inv: "graph_inv h M G P"
    and s: "M s = Some a" "s \<notin> P" "G s = Some (K0, us)"
    and h2: "h2 = h'[a := (h' ! a)\<lparr>children := ps\<rparr>]" and G2: "G2 = G'(s := Some (K0, us'))"
  shows "visited M P K h G [Ref s] h2 G2 [Ref s] [a]"
proof -
  note d = visitedD [OF v] and i = graph_invD [OF inv] and i' = graph_invD [OF visitedD(1) [OF v]]
  have own: "owned M G s = insert a (set (baddrs (Some (K0, us))))" using s by (simp add: owned_def)
  have others: "insert a (set (baddrs (Some (K0, us)))) \<inter> all_owned M G (insert s P) = {}"
    using owned_not_others [OF inv s(2)] own by simp
  have a: "a < length h" "a \<notin> set (baddrs (Some (K0, us)))" using i(1) i(6) [OF s(1,2)] s by auto
  have nodes: "same_nodes h' h2" unfolding h2 by (rule same_nodes_children)
  have f: "h2 ! x = h' ! x" if "x \<noteq> a" for x unfolding h2 using that by simp
  have own': "owned M G2 t \<subseteq> owned M G t" if "t \<notin> P" for t
  proof (cases "t = s")
    case True
    then show ?thesis using d(5) s(1) own by (auto simp: owned_def G2)
  next
    case False
    then have "owned M G2 t = owned M G' t" by (simp add: owned_def G2 split: option.split)
    then show ?thesis using d(10) [of t] that False by simp
  qed
  have fo: "h2 ! x = h' ! x" if "t \<notin> insert s P" "x \<in> owned M G' t" for t x
    using d(10) [OF that(1)] that others owned_in [OF that(1), of M G] by (intro f) blast
  have me: "nrepr True M h2 a (Some (K0, us'))"
  proof -
    have "list_all2 (crepr True M h2) us' ps"
      by (rule creprs_cong [OF d(4) nodes, where K = K0]) (rule f, use a(2) d(5) in blast)
    moreover have "obj_kind (h2 ! a) = K0 \<and> K0 \<noteq> Terminal \<and> us \<noteq> []" "a < length h'"
      using i(5) [OF s(1,2)] s(3) d(3) nodes a(1) by (simp_all add: nrepr_def same_nodes_def)
    ultimately show ?thesis using d(15) unfolding nrepr_def by (simp add: h2)
  qed
  have res: "resolved M h2 G2 t" if "t \<notin> P" "t \<noteq> s \<Longrightarrow> resolved M h' G' t" for t
  proof (cases "t = s")
    case True
    then show ?thesis using me s(1) by (simp add: resolved_def G2)
  next
    case False
    have "resolved M h2 G' t" by (rule resolved_cong [OF that(2) [OF False] nodes]) (rule fo, use that(1) False in auto)
    then show ?thesis using False by (simp add: resolved_def G2)
  qed
  have sm: "same_meaning G G2"
    using d(2) d(7,8) s(3) unfolding same_meaning_def G2 by simp
  show ?thesis
    unfolding visited_def
  proof (intro conjI allI ballI impI)
    show "graph_inv h2 M G2 P"
      by (rule graph_inv_named [OF d(1) inv nodes fo own' sm]) (use s me d(6) a d(5) in \<open>auto simp: G2\<close>)
    show "same_meaning G G2" by (rule sm)
    show "same_nodes h h2" by (rule same_nodes_trans [OF d(3) nodes])
    show "list_all2 (crepr True M h2) [Ref s] [a]"
      using i(1,2) [OF s(1)] d(3) nodes s(1) by (simp add: same_nodes_def)
    show "h2 ! x = h ! x" if "x \<notin> all_owned M G P" for x
    proof -
      have "x \<noteq> a" "x \<notin> set (baddrs (Some (K0, us)))" "x \<notin> all_owned M G (insert s P)"
        using that own all_owned_insert [OF s(2), of M G] by auto
      then show ?thesis using f d(9) by simp
    qed
    show "G2 t = G t" if "t \<in> P" for t using that s(2) d(11) [of t] by (auto simp: G2)
    show "resolved M h2 G2 t" if "t \<notin> P" "resolved M h G t" for t
      by (rule res [OF that(1)]) (rule d(12), use that in auto)
    fix t m assume "t \<in> brefs (Some (K, [Ref s]))" and r: "(t, m) \<in> (edges (succs G))\<^sup>*"
    then have t: "t = s" by simp
    have "m = s \<or> m \<notin> insert s P \<and> resolved M h' G' m"
      using r unfolding t
    proof (cases rule: converse_rtranclE)
      case (step u)
      then have "u \<in> brefs (Some (K0, us))" using s(3) by (simp add: edges_def succs_def)
      then show ?thesis using d(13,14) step(2) by blast
    qed simp
    then show "m \<notin> P" using s(2) by blast
    then show "resolved M h2 G2 m" by (rule res) (use \<open>m = s \<or> _\<close> in blast)
  qed (use own' in simp_all)
qed

lemma from_Suc: "(\<And>k. N \<le> k \<Longrightarrow> f (Suc k) = x) \<Longrightarrow> \<forall>k\<ge>Suc N. f k = x"
  by (auto dest: Suc_le_D)

lemma visited_branch:
  assumes v: "visited M P K0 h G us h' G' us' ps" and a: "m_name (h ! a) = None" "obj_kind (h ! a) = K0" "K0 \<noteq> Terminal" "us \<noteq> []"
    "a < length h" "a \<notin> set (concat (map addrs us))" "set (a # concat (map addrs us)) \<inter> all_owned M G P = {}"
  shows "visited M P K h G [Branch a K0 us] (h'[a := (h' ! a)\<lparr>children := ps\<rparr>]) G' [Branch a K0 us'] [a]"
proof (rule visited_write [OF v _ _ _ _ refl])
  note d = visitedD [OF v]
  let ?h = "h'[a := (h' ! a)\<lparr>children := ps\<rparr>]"
  have nodes: "same_nodes h' ?h" by (rule same_nodes_children)
  have n: "a \<notin> set (concat (map addrs us'))" using d(5) a(6) by auto
  have "list_all2 (crepr True M ?h) us' ps"
    by (rule creprs_cong [OF d(4) nodes, where K = K0], rule nth_list_update_neq) (use n in auto)
  then show "list_all2 (crepr True M ?h) [Branch a K0 us'] [a]"
    using a(1-5) d(3,15) by (simp add: same_nodes_def)
  show "bwords f (Some (K, [Branch a K0 us'])) = bwords f (Some (K, [Branch a K0 us]))" for f
    using d(7) [of f] by simp
qed (use visitedD(5,6,8) [OF v] a in auto)

lemma visited_terminal:
  assumes inv: "graph_inv h M G P" and s: "M s = Some a" "G s = None" "s \<notin> P"
  shows "visited M P K h G [Ref s] h G [Ref s] [a]"
proof -
  note i = graph_invD [OF inv]
  have "m = s" if "(s, m) \<in> (edges (succs G))\<^sup>*" for m
    using that s(2) by (cases rule: converse_rtranclE) (auto simp: edges_def succs_def)
  moreover have "resolved M h G s" using s i(3) [OF s(1)] by (simp add: resolved_def nrepr_def)
  ultimately show ?thesis
    using inv i(1,2) [OF s(1)] s unfolding visited_def by auto
qed

lemma visit_body:
  assumes IH: "\<And>t. visit_ok (\<lambda>k. update_accept k M) M (insert s P) t" and inv: "graph_inv h M G P"
    and a: "M s = Some a" and s: "s \<notin> P" and G: "G s = Some (K0, us)" and name: "m_name (h ! a) = Some s"
  shows "\<exists>N res. (\<forall>k\<ge>N. update_accept k M a (h, P) = Some res) \<and> visit_outcome M P h G (Ref s) a res"
proof -
  note i = graph_invD [OF inv]
  have inv': "graph_inv h M G (insert s P)" by (rule graph_inv_insert [OF inv]) (simp add: G)
  have K: "obj_kind (h ! a) = K0" "K0 \<noteq> Terminal" and l: "list_all2 (crepr False M h) us (children (h ! a))"
    using i(5) [OF a s] G by (simp_all add: nrepr_def)
  have own: "set (concat (map addrs us)) \<subseteq> owned M G s" using a G by (auto simp: owned_def)
  have oks: "trees_ok M (insert s P) h G us (children (h ! a))"
    using l i(6) [OF a s] own owned_not_others [OF inv s] i(8) [of s] G unfolding trees_ok_def by auto
  obtain N res where N: "\<forall>k\<ge>N. update_children (update_accept k M) M K0 (children (h ! a)) [] (h, insert s P) = Some res"
    and out: "loop_outcome M (insert s P) K0 h G us [] res"
    using update_children_ok [OF _ inv' oks] IH by blast
  have un: "update_accept (Suc k) M a (h, P) = visitNonTerminal (update_accept k M) M a (h, P)" for k
    by (rule update_accept_nonterminal) (use K in simp)
  have step: "update_accept (Suc k) M a (h, P) =
      obind (Some res) (\<lambda>(upd, h', P'). Some (Inr (h'[a := (h' ! a)\<lparr>children := upd\<rparr>], P' - {s})))" if "N \<le> k" for k
    using N that K name s by (simp only: un) (simp add: visitNonTerminal_def)
  have safe: "safe (succs G) P s \<longleftrightarrow> (\<forall>t\<in>\<Union> (refs ` set us). safe (succs G) (insert s P) t)"
    by (subst safe_iff) (simp add: s G succs_def)
  show ?thesis
  proof (cases res)
    case (Inl e)
    then have "\<forall>k\<ge>Suc N. update_accept k M a (h, P) = Some (Inl e)" by (intro from_Suc) (simp only: step Inl obind_simps)
    moreover have "visit_outcome M P h G (Ref s) a (Inl e)"
      using out Inl safe by (simp add: visit_outcome_def loop_outcome_def)
    ultimately show ?thesis by blast
  next
    case (Inr r)
    with out obtain ps h' G' us' where r: "r = (ps, h', insert s P)" and v: "visited M (insert s P) K0 h G us h' G' us' ps"
      and sf: "\<forall>t\<in>\<Union> (refs ` set us). safe (succs G) (insert s P) t" by (cases r) (auto simp: loop_outcome_def)
    let ?h = "h'[a := (h' ! a)\<lparr>children := ps\<rparr>]"
    have "\<forall>k\<ge>Suc N. update_accept k M a (h, P) = Some (Inr (?h, P))" using s by (intro from_Suc) (simp only: step Inr r obind_simps prod.case, simp)
    moreover have "visited M P K h G [Ref s] ?h (G'(s := Some (K0, us'))) [Ref s] [a]" for K
      by (rule visited_named [OF v inv a s G refl refl])
    then have "visit_outcome M P h G (Ref s) a (Inr (?h, P))" using sf safe by (auto simp: visit_outcome_def)
    ultimately show ?thesis by blast
  qed
qed

lemma visit_okI:
  assumes "\<And>h G b. graph_inv h M G P \<Longrightarrow> trees_ok M P h G [t] [b] \<Longrightarrow>
    \<exists>N res. (\<forall>k\<ge>N. accept k (updated_child M h b) (h, P) = Some res) \<and> visit_outcome M P h G t (updated_child M h b) res"
  shows "visit_ok accept M P t"
  unfolding visit_ok_def using assms by blast

lemma visit_branch:
  assumes IH: "\<forall>t\<in>set us. visit_ok (\<lambda>k. update_accept k M) M P t"
  shows "visit_ok (\<lambda>k. update_accept k M) M P (Branch a K0 us)"
proof (rule visit_okI)
  fix h G b assume inv: "graph_inv h M G P" and ok: "trees_ok M P h G [Branch a K0 us] [b]"
  have a: "b = a" "m_name (h ! a) = None" "obj_kind (h ! a) = K0" "K0 \<noteq> Terminal" "us \<noteq> []" "a < length h"
    and l: "list_all2 (crepr False M h) us (children (h ! a))"
    and dist: "a \<notin> set (concat (map addrs us))" and disj: "set (a # concat (map addrs us)) \<inter> all_owned M G P = {}"
    using ok unfolding trees_ok_def by auto
  have oks: "trees_ok M P h G us (children (h ! a))" using ok l unfolding trees_ok_def by auto
  have p: "updated_child M h b = a" using a by (simp add: updated_child_def)
  obtain N res where N: "\<forall>k\<ge>N. update_children (update_accept k M) M K0 (children (h ! a)) [] (h, P) = Some res"
    and out: "loop_outcome M P K0 h G us [] res"
    using update_children_ok [OF IH inv oks] by blast
  have step: "update_accept (Suc k) M a (h, P) =
      obind (Some res) (\<lambda>(upd, h', P'). Some (Inr (h'[a := (h' ! a)\<lparr>children := upd\<rparr>], P')))" if "N \<le> k" for k
    using N that a by (subst update_accept_nonterminal) (simp_all add: visitNonTerminal_def)
  show "\<exists>N res. (\<forall>k\<ge>N. update_accept k M (updated_child M h b) (h, P) = Some res) \<and>
    visit_outcome M P h G (Branch a K0 us) (updated_child M h b) res"
  proof (cases res)
    case (Inl e)
    then have "\<forall>k\<ge>Suc N. update_accept k M a (h, P) = Some (Inl e)" by (intro from_Suc) (simp only: step Inl obind_simps)
    moreover have "visit_outcome M P h G (Branch a K0 us) a (Inl e)"
      using out Inl by (simp add: visit_outcome_def loop_outcome_def)
    ultimately show ?thesis unfolding p by blast
  next
    case (Inr r)
    with out obtain ps h' G' us' where r: "r = (ps, h', P)" and v: "visited M P K0 h G us h' G' us' ps"
      and sf: "\<forall>s\<in>\<Union> (refs ` set us). safe (succs G) P s" by (cases r) (auto simp: loop_outcome_def)
    let ?h = "h'[a := (h' ! a)\<lparr>children := ps\<rparr>]"
    have "\<forall>k\<ge>Suc N. update_accept k M a (h, P) = Some (Inr (?h, P))" by (intro from_Suc) (simp only: step Inr r obind_simps prod.case)
    moreover have "visited M P K h G [Branch a K0 us] ?h G' [Branch a K0 us'] [a]" for K
      by (rule visited_branch [OF v]) (use a dist disj in simp_all)
    ultimately show ?thesis unfolding p visit_outcome_def using sf by (intro exI [of _ "Suc N"] exI [of _ "Inr (?h, P)"]) auto
  qed
qed

lemma visit_ref_name:
  assumes IH: "\<And>t. s \<in> dom M \<Longrightarrow> s \<notin> P \<Longrightarrow> visit_ok (\<lambda>k. update_accept k M) M (insert s P) t"
  shows "visit_ok (\<lambda>k. update_accept k M) M P (Ref s)"
proof (rule visit_okI)
  fix h G b assume inv: "graph_inv h M G P" and ok: "trees_ok M P h G [Ref s] [b]"
  note i = graph_invD [OF inv]
  obtain a where a: "M s = Some a" and b: "m_name (h ! b) = Some s" using ok by (auto simp: trees_ok_def)
  have p: "updated_child M h b = a" using a b by (simp add: updated_child_def)
  have name: "m_name (h ! a) = Some s" "a < length h" using i(1,2) [OF a] by simp_all
  show "\<exists>N res. (\<forall>k\<ge>N. update_accept k M (updated_child M h b) (h, P) = Some res) \<and>
    visit_outcome M P h G (Ref s) (updated_child M h b) res"
    unfolding p
  proof (cases "G s")
    case None
    then have T: "obj_kind (h ! a) = Terminal" using i(3) [OF a] by simp
    have sP: "s \<notin> P" using None i(10) by blast
    have "\<forall>k\<ge>Suc 0. update_accept k M a (h, P) = Some (Inr (h, P))" using T by (intro from_Suc) simp
    moreover have "visited M P K h G [Ref s] h G [Ref s] [a]" for K
      by (rule visited_terminal [OF inv a None sP])
    moreover have "safe (succs G) P s" by (rule safeI) (use sP None in \<open>simp_all add: succs_def\<close>)
    ultimately show "\<exists>N res. (\<forall>k\<ge>N. update_accept k M a (h, P) = Some res) \<and> visit_outcome M P h G (Ref s) a res"
      by (intro exI [of _ "Suc 0"] exI [of _ "Inr (h, P)"]) (auto simp: visit_outcome_def)
  next
    case (Some p)
    obtain K0 us where G: "G s = Some (K0, us)" using Some by (cases p) simp
    then have K: "obj_kind (h ! a) \<noteq> Terminal" using i(3) [OF a] by simp
    have un: "update_accept (Suc k) M a (h, P) = visitNonTerminal (update_accept k M) M a (h, P)" for k
      by (rule update_accept_nonterminal) (use K in simp)
    show "\<exists>N res. (\<forall>k\<ge>N. update_accept k M a (h, P) = Some res) \<and> visit_outcome M P h G (Ref s) a res"
    proof (cases "s \<in> P")
      case True
      then have "\<forall>k\<ge>Suc 0. update_accept k M a (h, P) = Some (Inl AssertionFailure)"
        using name by (intro from_Suc) (simp only: un, simp add: visitNonTerminal_def)
      moreover have "\<not> safe (succs G) P s" using True by (subst safe_iff) simp
      ultimately show ?thesis by (intro exI [of _ "Suc 0"] exI [of _ "Inl AssertionFailure"]) (auto simp: visit_outcome_def)
    next
      case False
      have "\<exists>N res. (\<forall>k\<ge>N. update_accept k M a (h, P) = Some res) \<and> visit_outcome M P h G (Ref s) a res"
        by (rule visit_body [OF _ inv a False G name(1)]) (use IH a False in auto)
      then show ?thesis .
    qed
  qed
qed

lemma visit_all: "finite (dom M) \<Longrightarrow> visit_ok (\<lambda>k. update_accept k M) M P t"
proof (induction "card (dom M - P)" arbitrary: P t rule: less_induct)
  case (less P t)
  have ref: "visit_ok (\<lambda>k. update_accept k M) M P (Ref s)" for s
  proof (rule visit_ref_name)
    fix t assume s: "s \<in> dom M" "s \<notin> P"
    have "card (dom M - insert s P) < card (dom M - P)"
      by (rule psubset_card_mono) (use s less.prems in auto)
    then show "visit_ok (\<lambda>k. update_accept k M) M (insert s P) t" by (rule less.hyps) (rule less.prems)
  qed
  show ?case
  proof (induction t)
    case (Branch a K us)
    have "\<forall>t\<in>set us. visit_ok (\<lambda>k. update_accept k M) M P t" using Branch.IH by blast
    then show ?case by (rule visit_branch)
  qed (rule ref)
qed
end
