(* ===== verification/RuleExec.thy ===== *)
theory RuleExec
  imports RuleUpdate
begin

text \<open>
  What \<open>Executor\<close> does on an updated graph: the paths that \<open>dfs\<close> runs from the start of the root are the
  words of the root, in order.
\<close>

section \<open>Running a word\<close>

definition event_action :: "'w rule_map \<Rightarrow> event \<Rightarrow> 'w action option" where
  "event_action rules ev = (case rules (fst ev) of
      None \<Rightarrow> None
    | Some r \<Rightarrow> (case snd ev of Entry \<Rightarrow> entry r | Main \<Rightarrow> main r | Exit \<Rightarrow> exit_action r))"

definition event_rule :: "'w rule_map \<Rightarrow> event \<Rightarrow> 'w rule option" where
  "event_rule rules ev = (if snd ev = Main then rules (fst ev) else None)"

fun run_all :: "'w action list \<Rightarrow> 'w \<Rightarrow> 'w result" where
  "run_all [] w = Inr w"
| "run_all (f # fs) w = rbind (f w) (run_all fs)"

definition run_word :: "'w rule_map \<Rightarrow> word \<Rightarrow> nat \<times> 'w \<Rightarrow> (nat \<times> 'w) run_result" where
  "run_word rules word s = (case s of (n, w) \<Rightarrow>
     obind (repeat_path (run_all (List.map_filter (event_action rules) word))
       (\<lambda>w. \<forall>r\<in>set (List.map_filter (event_rule rules) word). is_rand_obj_covered r w)
       (fold reset_coverage (List.map_filter (event_rule rules) word) w)) (\<lambda>w. Some (Inr (Suc n, w))))"

fun run_words :: "'w rule_map \<Rightarrow> word list \<Rightarrow> nat \<times> 'w \<Rightarrow> (nat \<times> 'w) run_result" where
  "run_words rules [] s = Some (Inr s)"
| "run_words rules (w # ws) s = obind (run_word rules w s) (run_words rules ws)"

definition id_action :: "'w executor \<Rightarrow> nat \<Rightarrow> 'w action option" where
  "id_action ex i = (case m_actions ex i of None \<Rightarrow> None | Some a \<Rightarrow> a)"

definition events :: "'w rule_map \<Rightarrow> 'w executor \<Rightarrow> nat list \<Rightarrow> word \<Rightarrow> bool" where
  "events rules ex is w \<longleftrightarrow> List.map_filter (id_action ex) is = List.map_filter (event_action rules) w \<and>
     List.map_filter (m_main_to_rule_map ex) is = List.map_filter (event_rule rules) w"

lemma map_filter_append [simp]: "List.map_filter f (xs @ ys) = List.map_filter f xs @ List.map_filter f ys"
  by (simp add: List.map_filter_def)

lemma events_append: "events rules ex is u \<Longrightarrow> events rules ex js v \<Longrightarrow> events rules ex (is @ js) (u @ v)"
  by (simp add: events_def)

lemma events_Cons: "events rules ex [i] u \<Longrightarrow> events rules ex js v \<Longrightarrow> events rules ex (i # js) (u @ v)"
  using events_append [of rules ex "[i]"] by simp

lemma events_Nil [simp]: "events rules ex [] []"
  by (simp add: events_def)

lemma run_actions_eq: "run_actions ex is = run_all (List.map_filter (id_action ex) is)"
proof
  show "run_actions ex is w = run_all (List.map_filter (id_action ex) is) w" for w
  proof (induction "is" arbitrary: w)
    case Nil
    then show ?case by (simp add: List.map_filter_def)
  next
    case (Cons i "is")
    have "run_actions ex is = run_all (List.map_filter (id_action ex) is)" by (rule ext) (rule Cons)
    then show ?case by (cases "m_actions ex i") (auto simp: List.map_filter_simps id_action_def [of ex i] split: option.split)
  qed
qed

lemma path_covered_eq:
  "path_covered ex is w \<longleftrightarrow> (\<forall>r\<in>set (List.map_filter (m_main_to_rule_map ex) is). is_rand_obj_covered r w)"
  by (induction "is") (auto simp: List.map_filter_simps split: option.split)

lemma reset_path_eq: "reset_path ex is w = fold reset_coverage (List.map_filter (m_main_to_rule_map ex) is) w"
  by (induction "is" arbitrary: w) (auto simp: List.map_filter_simps split: option.split)

lemma run_path_word: "events rules ex is w \<Longrightarrow> run_path ex is s = run_word rules w s"
  unfolding run_path_def run_word_def run_actions_eq path_covered_eq [abs_def] reset_path_eq events_def by simp

section \<open>Segments of the graph\<close>

fun run_each :: "('q \<Rightarrow> 's \<Rightarrow> 's run_result) \<Rightarrow> 'q list \<Rightarrow> 's \<Rightarrow> 's run_result" where
  "run_each f [] = (\<lambda>s. Some (Inr s))"
| "run_each f (q # qs) = (\<lambda>s. obind (f q s) (run_each f qs))"

lemma run_each_append: "run_each f (xs @ ys) = (\<lambda>s. obind (run_each f xs s) (run_each f ys))"
  by (induction xs) (simp_all add: obind_assoc)

lemma run_each_map: "run_each f (map g xs) = run_each (\<lambda>x. f (g x)) xs"
  by (induction xs) simp_all

lemma run_each_cong: "(\<And>x. x \<in> set xs \<Longrightarrow> f x = g x) \<Longrightarrow> run_each f xs = run_each g xs"
  by (induction xs) simp_all

lemma run_each_concat: "run_each f (concat xss) = run_each (\<lambda>xs. run_each f xs) xss"
  by (induction xss) (simp_all add: run_each_append)

definition segment :: "'w executor \<Rightarrow> nat \<Rightarrow> nat \<Rightarrow> nat list list \<Rightarrow> bool" where
  "segment ex v e qs \<longleftrightarrow> (\<forall>p. dfs ex p [v] = run_each (\<lambda>q. dfs ex (p @ q) [e]) qs)"

lemma dfs_Nil: "dfs ex p [] = (\<lambda>s. Some (Inr s))"
  by (rule ext) (subst dfs.simps, simp)

lemma dfs_Cons: "dfs ex p (v # vs) s = obind (dfs ex p [v] s) (dfs ex p vs)"
proof -
  have "dfs ex p [v] s = obind (case m_adj ex v of
      None \<Rightarrow> if v = 2 then run_path ex (p @ [v]) s else Some (Inl AssertionFailure)
    | Some adj \<Rightarrow> dfs ex (p @ [v]) adj s) (\<lambda>s. dfs ex p [] s)" by (subst dfs.simps) simp
  then have one: "dfs ex p [v] s = (case m_adj ex v of
      None \<Rightarrow> if v = 2 then run_path ex (p @ [v]) s else Some (Inl AssertionFailure)
    | Some adj \<Rightarrow> dfs ex (p @ [v]) adj s)" by (simp only: dfs_Nil obind_unit)
  show ?thesis by (subst dfs.simps) (simp add: one)
qed

lemma dfs_step: "m_adj ex v = Some vs \<Longrightarrow> dfs ex p [v] s = dfs ex (p @ [v]) vs s"
  by (subst dfs.simps) (simp add: dfs_Nil)

lemma dfs_end: "m_adj ex 2 = None \<Longrightarrow> dfs ex p [2] s = run_path ex (p @ [2]) s"
  by (subst dfs.simps) (simp add: dfs_Nil)

lemma dfs_each: "dfs ex p vs = run_each (\<lambda>v. dfs ex p [v]) vs"
proof (induction vs)
  case (Cons v vs)
  then show ?case by (intro ext) (subst dfs_Cons, simp)
qed (simp add: dfs_Nil)

lemma segment_refl: "segment ex v v [[]]"
  by (simp add: segment_def)

lemma segment_trans:
  assumes "segment ex v e qs" "segment ex e e' qs'"
  shows "segment ex v e' (concat (map (\<lambda>q. map (\<lambda>q'. q @ q') qs') qs))"
  unfolding segment_def
proof (intro allI)
  fix p
  have "dfs ex p [v] = run_each (\<lambda>q. dfs ex (p @ q) [e]) qs" using assms(1) by (simp add: segment_def)
  also have "\<dots> = run_each (\<lambda>q. run_each (\<lambda>q'. dfs ex (p @ q @ q') [e']) qs') qs"
    by (rule run_each_cong) (use assms(2) in \<open>simp add: segment_def\<close>)
  also have "\<dots> = run_each (\<lambda>q. dfs ex (p @ q) [e']) (concat (map (\<lambda>q. map (\<lambda>q'. q @ q') qs') qs))"
    by (simp add: run_each_concat run_each_map)
  finally show "dfs ex p [v] = run_each (\<lambda>q. dfs ex (p @ q) [e']) (concat (map (\<lambda>q. map (\<lambda>q'. q @ q') qs') qs))" .
qed

lemma segment_choice:
  assumes "m_adj ex v = Some vs" "list_all2 (\<lambda>u qs. segment ex u e qs) vs qss"
  shows "segment ex v e (map (\<lambda>q. v # q) (concat qss))"
  unfolding segment_def
proof (intro allI)
  fix p
  have "run_each (\<lambda>u. dfs ex (p @ [v]) [u]) vs = run_each (\<lambda>q. dfs ex ((p @ [v]) @ q) [e]) (concat qss)"
    using assms(2) by (induction rule: list_all2_induct) (simp_all add: run_each_append segment_def)
  moreover have "dfs ex p [v] = dfs ex (p @ [v]) vs" by (rule ext) (rule dfs_step [OF assms(1)])
  ultimately show "dfs ex p [v] = run_each (\<lambda>q. dfs ex (p @ q) [e]) (map (\<lambda>q. v # q) (concat qss))"
    using dfs_each [of ex "p @ [v]" vs] by (simp add: run_each_map)
qed

text \<open>
  The paths from the start of a node to its end, with the words they carry: \<open>through\<close> includes the end,
  \<open>tails\<close> leaves out the first vertex and the end.
\<close>

definition through :: "'w rule_map \<Rightarrow> 'w executor \<Rightarrow> nat \<Rightarrow> nat \<Rightarrow> word list \<Rightarrow> bool" where
  "through rules ex v e ws \<longleftrightarrow> (\<exists>qs. segment ex v e qs \<and> list_all2 (\<lambda>q w. events rules ex (q @ [e]) w) qs ws)"

definition tails :: "'w rule_map \<Rightarrow> 'w executor \<Rightarrow> nat \<Rightarrow> nat \<Rightarrow> word list \<Rightarrow> bool" where
  "tails rules ex v e ws \<longleftrightarrow> (\<exists>qs. segment ex v e (map (\<lambda>q. v # q) qs) \<and> list_all2 (events rules ex) qs ws)"

lemma tails_end: "m_adj ex v = Some [e] \<Longrightarrow> tails rules ex v e [[]]"
  unfolding tails_def using segment_choice [of ex v "[e]" e "[[[]]]"] by (intro exI [of _ "[[]]"]) (simp add: segment_refl)

lemma list_all2_product:
  assumes "list_all2 A us vs" "list_all2 B us' vs'" "\<And>a b c d. A a b \<Longrightarrow> B c d \<Longrightarrow> C (f a c) (b @ d)"
  shows "list_all2 C (concat (map (\<lambda>a. map (f a) us') us)) (product vs vs')"
  using assms(1)
proof (induction rule: list_all2_induct)
  case (Cons a as b bs)
  have "list_all2 C (map (f a) us') (map (\<lambda>v. b @ v) vs')"
    using assms(2) by (simp add: list.rel_map) (erule list_all2_mono, rule assms(3) [OF Cons.hyps(1)])
  then show ?case using Cons.IH by (simp add: list_all2_appendI)
qed simp

lemma tails_step:
  assumes "m_adj ex v = Some [s]" "through rules ex s e ws" "tails rules ex e e' ws'"
  shows "tails rules ex v e' (product ws ws')"
proof -
  obtain qs qs' where q: "segment ex s e qs" "list_all2 (\<lambda>q w. events rules ex (q @ [e]) w) qs ws"
    "segment ex e e' (map (\<lambda>q. e # q) qs')" "list_all2 (events rules ex) qs' ws'"
    using assms(2,3) unfolding through_def tails_def by blast
  let ?qs = "concat (map (\<lambda>q. map (\<lambda>q'. q @ e # q') qs') qs)"
  have "segment ex s e' (concat (map (\<lambda>q. map (\<lambda>q'. q @ q') (map (\<lambda>q. e # q) qs')) qs))"
    by (rule segment_trans [OF q(1,3)])
  then have "segment ex s e' ?qs" by (simp add: comp_def)
  then have "segment ex v e' (map (\<lambda>q. v # q) ?qs)"
    using segment_choice [OF assms(1), of e' "[?qs]"] by simp
  moreover have "list_all2 (events rules ex) ?qs (product ws ws')"
  proof (rule list_all2_product [OF q(2,4)])
    show "events rules ex (a @ e # c) (b @ d)" if "events rules ex (a @ [e]) b" "events rules ex c d" for a b c d
      using events_append [OF that] by simp
  qed
  ultimately show ?thesis unfolding tails_def by blast
qed

lemma through_edge:
  assumes "through rules ex s e ws" "m_adj ex e = Some [e']"
  shows "\<exists>qs. segment ex s e' qs \<and> list_all2 (events rules ex) qs ws"
proof -
  obtain qs where q: "segment ex s e qs" "list_all2 (\<lambda>q w. events rules ex (q @ [e]) w) qs ws"
    using assms(1) unfolding through_def by blast
  have "segment ex e e' [[e]]" using segment_choice [OF assms(2), of e' "[[[]]]"] by (simp add: segment_refl)
  from segment_trans [OF q(1) this] have "segment ex s e' (map (\<lambda>q. q @ [e]) qs)" by (simp add: concat_map_singleton)
  then show ?thesis using q(2) by (intro exI [of _ "map (\<lambda>q. q @ [e]) qs"]) (simp add: list.rel_map)
qed

lemma tails_choice:
  assumes "m_adj ex v = Some ss" "list_all2 (\<lambda>s ws. \<exists>qs. segment ex s e qs \<and> list_all2 (events rules ex) qs ws) ss wss"
  shows "tails rules ex v e (concat wss)"
proof -
  have "\<exists>qss. list_all2 (\<lambda>s qs. segment ex s e qs) ss qss \<and> list_all2 (list_all2 (events rules ex)) qss wss"
    using assms(2)
  proof (induction rule: list_all2_induct)
    case (Cons s ss ws wss)
    then show ?case by (auto simp: list_all2_Cons1 list_all2_Cons2)
  qed simp
  then obtain qss where q: "list_all2 (\<lambda>s qs. segment ex s e qs) ss qss" "list_all2 (list_all2 (events rules ex)) qss wss"
    by blast
  have "list_all2 (events rules ex) (concat qss) (concat wss)"
    using q(2) by (induction rule: list_all2_induct) (simp_all add: list_all2_appendI)
  then show ?thesis using segment_choice [OF assms(1) q(1)] unfolding tails_def by blast
qed

section \<open>Building the graph\<close>

definition fresh :: "'w executor \<Rightarrow> bool" where
  "fresh ex \<longleftrightarrow> (\<forall>i\<ge>m_id ex. m_adj ex i = None \<and> m_actions ex i = None \<and> m_main_to_rule_map ex i = None)"

definition same_actions :: "'w executor \<Rightarrow> 'w executor \<Rightarrow> nat \<Rightarrow> bool" where
  "same_actions E ex x \<longleftrightarrow> m_actions E x = m_actions ex x \<and> m_main_to_rule_map E x = m_main_to_rule_map ex x"

definition node_word :: "string option \<Rightarrow> word \<Rightarrow> word" where
  "node_word s w = (case s of None \<Rightarrow> w | Some s \<Rightarrow> wrap s w)"

definition node_built_as :: "'w rule_map \<Rightarrow> 'w executor \<Rightarrow> 'w executor \<Rightarrow> word list \<Rightarrow> bool" where
  "node_built_as rules ex ex' ws \<longleftrightarrow> (let i = m_id ex in
     fresh ex' \<and> i + 3 \<le> m_id ex' \<and> m_stack ex' = (i, i + 2) # m_stack ex \<and>
     (\<forall>x<i. m_adj ex' x = m_adj ex x \<and> same_actions ex' ex x) \<and> m_adj ex' (i + 2) = None \<and>
     m_path_count ex' = m_path_count ex \<and> program ex' = program ex \<and>
     (\<forall>E. (\<forall>x. i \<le> x \<longrightarrow> x < m_id ex' \<longrightarrow> same_actions E ex' x \<and> (x \<noteq> i + 2 \<longrightarrow> m_adj E x = m_adj ex' x)) \<longrightarrow>
       through rules E i (i + 2) ws))"

lemma node_built_asD:
  assumes "node_built_as rules ex ex' ws"
  shows "fresh ex'" "m_id ex + 3 \<le> m_id ex'" "m_stack ex' = (m_id ex, m_id ex + 2) # m_stack ex"
    "x < m_id ex \<Longrightarrow> m_adj ex' x = m_adj ex x" "x < m_id ex \<Longrightarrow> same_actions ex' ex x" "m_adj ex' (m_id ex + 2) = None"
    "m_path_count ex' = m_path_count ex" "program ex' = program ex"
    "(\<And>x. m_id ex \<le> x \<Longrightarrow> x < m_id ex' \<Longrightarrow> same_actions E ex' x) \<Longrightarrow>
     (\<And>x. m_id ex \<le> x \<Longrightarrow> x < m_id ex' \<Longrightarrow> x \<noteq> m_id ex + 2 \<Longrightarrow> m_adj E x = m_adj ex' x) \<Longrightarrow>
     through rules E (m_id ex) (m_id ex + 2) ws"
  using assms unfolding node_built_as_def Let_def by blast+

lemma make_edge_simps [simp]:
  "m_id (make_edge s d ex) = m_id ex" "m_stack (make_edge s d ex) = m_stack ex"
  "m_actions (make_edge s d ex) = m_actions ex" "m_main_to_rule_map (make_edge s d ex) = m_main_to_rule_map ex"
  "m_path_count (make_edge s d ex) = m_path_count ex" "program (make_edge s d ex) = program ex"
  "x \<noteq> s \<Longrightarrow> m_adj (make_edge s d ex) x = m_adj ex x"
  by (simp_all add: make_edge_def)

definition adj_list :: "'w executor \<Rightarrow> nat \<Rightarrow> nat list" where
  "adj_list ex v = (case m_adj ex v of None \<Rightarrow> [] | Some vs \<Rightarrow> vs)"

lemma make_edge_adj: "m_adj (make_edge s d ex) s = Some (adj_list ex s @ [d])"
  by (simp add: make_edge_def adj_list_def split: option.split)

lemma adj_list_simps: "m_adj ex v = None \<Longrightarrow> adj_list ex v = []" "m_adj ex v = Some vs \<Longrightarrow> adj_list ex v = vs"
  by (simp_all add: adj_list_def)

definition accept_ok :: "'w rule_map \<Rightarrow> (nat \<Rightarrow> nat \<Rightarrow> 'w executor \<Rightarrow> 'w executor run_result) \<Rightarrow> nat \<Rightarrow> word list \<Rightarrow> bool" where
  "accept_ok rules accept n ws \<longleftrightarrow> (\<forall>ex. fresh ex \<longrightarrow>
     (\<exists>N ex'. (\<forall>k\<ge>N. accept k n ex = Some (Inr ex')) \<and> node_built_as rules ex ex' ws))"

definition child_paths :: "'w rule_map \<Rightarrow> 'w executor \<Rightarrow> nat \<Rightarrow> nat \<Rightarrow> word list \<Rightarrow> bool" where
  "child_paths rules E e s ws \<longleftrightarrow> (\<exists>qs. segment E s e qs \<and> list_all2 (events rules E) qs ws)"

lemma adj_list_Some: "adj_list ex v = vs \<Longrightarrow> vs \<noteq> [] \<Longrightarrow> m_adj ex v = Some vs"
  by (auto simp: adj_list_def split: option.splits)

text \<open>The loop over the children of a selector.\<close>

definition selector_built ::
  "'w rule_map \<Rightarrow> nat \<Rightarrow> 'w executor \<Rightarrow> 'w executor \<Rightarrow> nat list \<Rightarrow> word list list \<Rightarrow> bool" where
  "selector_built rules i ex ex' ss wss \<longleftrightarrow>
     fresh ex' \<and> m_id ex \<le> m_id ex' \<and> m_stack ex' = m_stack ex \<and>
     (\<forall>x<m_id ex. x \<noteq> i + 1 \<longrightarrow> m_adj ex' x = m_adj ex x) \<and> (\<forall>x<m_id ex. same_actions ex' ex x) \<and>
     m_path_count ex' = m_path_count ex \<and> program ex' = program ex \<and>
     adj_list ex' (i + 1) = adj_list ex (i + 1) @ ss \<and>
     (\<forall>E. (\<forall>x. m_id ex \<le> x \<longrightarrow> x < m_id ex' \<longrightarrow> same_actions E ex' x \<and> m_adj E x = m_adj ex' x) \<longrightarrow>
       list_all2 (child_paths rules E (i + 2)) ss wss)"

lemma same_actions_trans: "same_actions a b x \<Longrightarrow> same_actions b c x \<Longrightarrow> same_actions a c x"
  by (simp add: same_actions_def)

lemma selector_built_Cons:
  assumes b: "node_built_as rules ex exa ws" and i: "i + 3 \<le> m_id ex"
    and exb: "exb = make_edge (m_id ex + 2) (i + 2) (make_edge (i + 1) (m_id ex) (exa\<lparr>m_stack := st\<rparr>))"
    and st: "st = m_stack ex" and r: "selector_built rules i exb ex' ss wss"
  shows "selector_built rules i ex ex' (m_id ex # ss) (ws # wss)"
proof -
  note d = node_built_asD [OF b]
  have eb: "m_id exb = m_id exa" "m_stack exb = m_stack ex" "m_path_count exb = m_path_count ex" "program exb = program ex"
    and adj1: "m_adj exb (i + 1) = Some (adj_list ex (i + 1) @ [m_id ex])"
    and adj2: "m_adj exb (m_id ex + 2) = Some [i + 2]"
    and adj3: "x \<noteq> i + 1 \<Longrightarrow> x \<noteq> m_id ex + 2 \<Longrightarrow> m_adj exb x = m_adj exa x"
    and act: "same_actions exb exa x" for x
    using d(4) [of "i + 1"] d(6-8) i unfolding exb st
    by (simp_all add: make_edge_adj adj_list_def same_actions_def)
  have l: "adj_list exb (i + 1) = adj_list ex (i + 1) @ [m_id ex]" using adj1 by (simp add: adj_list_def)
  have r': "fresh ex'" "m_id exb \<le> m_id ex'" "m_stack ex' = m_stack exb" "program ex' = program exb"
      "m_path_count ex' = m_path_count exb" "adj_list ex' (i + 1) = adj_list exb (i + 1) @ ss"
      "x < m_id exb \<Longrightarrow> x \<noteq> i + 1 \<Longrightarrow> m_adj ex' x = m_adj exb x" "x < m_id exb \<Longrightarrow> same_actions ex' exb x" for x
    using r unfolding selector_built_def by blast+
  have paths: "list_all2 (child_paths rules E (i + 2)) (m_id ex # ss) (ws # wss)"
    if E: "\<And>x. m_id ex \<le> x \<Longrightarrow> x < m_id ex' \<Longrightarrow> same_actions E ex' x"
      "\<And>x. m_id ex \<le> x \<Longrightarrow> x < m_id ex' \<Longrightarrow> m_adj E x = m_adj ex' x" for E
  proof -
    have "same_actions E exa x" if "m_id ex \<le> x" "x < m_id exa" for x
      using same_actions_trans [OF same_actions_trans [OF E(1) r'(8)] act] that r'(2) eb(1) by simp
    moreover have "m_adj E x = m_adj exa x" if "m_id ex \<le> x" "x < m_id exa" "x \<noteq> m_id ex + 2" for x
      using E(2) [of x] r'(7) [of x] adj3 [of x] that r'(2) eb(1) i by simp
    ultimately have "through rules E (m_id ex) (m_id ex + 2) ws" by (rule d(9))
    moreover have "m_adj E (m_id ex + 2) = Some [i + 2]"
      using E(2) [of "m_id ex + 2"] r'(7) [of "m_id ex + 2"] adj2 d(2) r'(2) eb(1) i by simp
    ultimately have "child_paths rules E (i + 2) (m_id ex) ws" unfolding child_paths_def by (rule through_edge)
    moreover have "list_all2 (child_paths rules E (i + 2)) ss wss"
      using r E d(2) eb(1) unfolding selector_built_def by simp
    ultimately show ?thesis by simp
  qed
  have old: "m_adj ex' x = m_adj ex x" if "x < m_id ex" "x \<noteq> i + 1" for x
    using r'(7) [of x] adj3 [of x] d(4) [of x] that d(2) eb(1) by simp
  have "same_actions ex' ex x" if "x < m_id ex" for x
    by (rule same_actions_trans [OF r'(8) same_actions_trans [OF act d(5)]]) (use that d(2) eb(1) in simp_all)
  then show ?thesis
    using r'(1-6) l eb d(2) old paths unfolding selector_built_def by simp
qed

lemma fresh_pop: "fresh ex \<Longrightarrow> fresh (ex\<lparr>m_stack := st\<rparr>)"
  by (simp add: fresh_def)

lemma fresh_make_edge: "fresh ex \<Longrightarrow> s < m_id ex \<Longrightarrow> fresh (make_edge s d ex)"
  by (simp add: fresh_def)

lemma selector_children_ok:
  assumes "list_all2 (accept_ok rules accept) ns wss" "fresh ex" "i + 3 \<le> m_id ex"
  shows "\<exists>N ex' ss. (\<forall>k\<ge>N. selector_children (accept k) i ns ex = Some (Inr ex')) \<and> selector_built rules i ex ex' ss wss"
  using assms
proof (induction arbitrary: ex rule: list_all2_induct)
  case Nil
  have "selector_built rules i ex ex [] []" using Nil by (simp add: selector_built_def same_actions_def)
  then show ?case by auto
next
  case (Cons n ns ws wss)
  then obtain N exa where N: "\<forall>k\<ge>N. accept k n ex = Some (Inr exa)" and b: "node_built_as rules ex exa ws"
    unfolding accept_ok_def by blast
  note d = node_built_asD [OF b]
  let ?exb = "make_edge (m_id ex + 2) (i + 2) (make_edge (i + 1) (m_id ex) (exa\<lparr>m_stack := m_stack ex\<rparr>))"
  have "fresh ?exb" using d(1,2) Cons.prems by (intro fresh_make_edge fresh_pop) simp_all
  then obtain N' ex' ss where N': "\<forall>k\<ge>N'. selector_children (accept k) i ns ?exb = Some (Inr ex')"
    and r: "selector_built rules i ?exb ex' ss wss"
    using Cons.IH [of ?exb] d(2) Cons.prems by auto
  have "\<forall>k\<ge>max N N'. selector_children (accept k) i (n # ns) ex = Some (Inr ex')"
    using N N' d(3) by (simp add: pop_result_def)
  then show ?case using selector_built_Cons [OF b Cons.prems(2) refl refl r] by blast
qed

text \<open>The loop over the children of a sequence.\<close>

definition sequence_built ::
  "'w rule_map \<Rightarrow> nat \<Rightarrow> nat \<Rightarrow> 'w executor \<Rightarrow> 'w executor \<Rightarrow> word list \<Rightarrow> bool" where
  "sequence_built rules i v ex ex' ws \<longleftrightarrow>
     fresh ex' \<and> m_id ex \<le> m_id ex' \<and> m_stack ex' = m_stack ex \<and>
     (\<forall>x<m_id ex. x \<noteq> v \<longrightarrow> m_adj ex' x = m_adj ex x) \<and> (\<forall>x<m_id ex. same_actions ex' ex x) \<and>
     m_path_count ex' = m_path_count ex \<and> program ex' = program ex \<and>
     (\<forall>E. m_adj E v = m_adj ex' v \<longrightarrow>
       (\<forall>x. m_id ex \<le> x \<longrightarrow> x < m_id ex' \<longrightarrow> same_actions E ex' x \<and> m_adj E x = m_adj ex' x) \<longrightarrow>
       tails rules E v (i + 2) ws)"

lemma sequence_built_Cons:
  assumes b: "node_built_as rules ex exa ws" and v: "v < m_id ex" "m_adj ex v = None"
    and exb: "exb = make_edge v (m_id ex) (exa\<lparr>m_stack := st\<rparr>)" and st: "st = m_stack ex"
    and r: "sequence_built rules i (m_id ex + 2) exb ex' ws'"
  shows "sequence_built rules i v ex ex' (product ws ws')"
proof -
  note d = node_built_asD [OF b]
  have eb: "m_id exb = m_id exa" "m_stack exb = m_stack ex" "m_path_count exb = m_path_count ex" "program exb = program ex"
    and adj1: "m_adj exb v = Some [m_id ex]" and adj2: "x \<noteq> v \<Longrightarrow> m_adj exb x = m_adj exa x"
    and act: "same_actions exb exa x" for x
    using d(4) [OF v(1)] d(7,8) v(2) unfolding exb st by (simp_all add: make_edge_adj adj_list_def same_actions_def)
  have r': "fresh ex'" "m_id exb \<le> m_id ex'" "m_stack ex' = m_stack exb" "program ex' = program exb"
      "m_path_count ex' = m_path_count exb"
      "x < m_id exb \<Longrightarrow> x \<noteq> m_id ex + 2 \<Longrightarrow> m_adj ex' x = m_adj exb x" "x < m_id exb \<Longrightarrow> same_actions ex' exb x" for x
    using r unfolding sequence_built_def by blast+
  have paths: "tails rules E v (i + 2) (product ws ws')"
    if v': "m_adj E v = m_adj ex' v" and E: "\<And>x. m_id ex \<le> x \<Longrightarrow> x < m_id ex' \<Longrightarrow> same_actions E ex' x"
      "\<And>x. m_id ex \<le> x \<Longrightarrow> x < m_id ex' \<Longrightarrow> m_adj E x = m_adj ex' x" for E
  proof (rule tails_step)
    show "m_adj E v = Some [m_id ex]" using v' r'(6) [of v] adj1 v(1) d(2) eb(1) by simp
    show "through rules E (m_id ex) (m_id ex + 2) ws"
    proof (rule d(9))
      show "same_actions E exa x" if "m_id ex \<le> x" "x < m_id exa" for x
        using same_actions_trans [OF same_actions_trans [OF E(1) r'(7)] act] that r'(2) eb(1) by simp
      show "m_adj E x = m_adj exa x" if "m_id ex \<le> x" "x < m_id exa" "x \<noteq> m_id ex + 2" for x
        using E(2) [of x] r'(6) [of x] adj2 [of x] that r'(2) eb(1) v(1) by simp
    qed
    have "m_adj E (m_id ex + 2) = m_adj ex' (m_id ex + 2)" using E(2) d(2) r'(2) eb(1) by simp
    then show "tails rules E (m_id ex + 2) (i + 2) ws'"
      using r E d(2) eb(1) unfolding sequence_built_def by simp
  qed
  have old: "m_adj ex' x = m_adj ex x" if "x < m_id ex" "x \<noteq> v" for x
    using r'(6) [of x] adj2 [of x] d(4) [of x] that d(2) eb(1) by simp
  have "same_actions ex' ex x" if "x < m_id ex" for x
    by (rule same_actions_trans [OF r'(7) same_actions_trans [OF act d(5)]]) (use that d(2) eb(1) in simp_all)
  then show ?thesis
    using r'(1-5) eb d(2) old paths unfolding sequence_built_def by simp
qed

lemma sequence_children_ok:
  assumes "list_all2 (accept_ok rules accept) ns wss" "fresh ex" "v < m_id ex" "m_adj ex v = None"
  shows "\<exists>N ex'. (\<forall>k\<ge>N. sequence_children (accept k) i v ns ex = Some (Inr ex')) \<and>
    sequence_built rules i v ex ex' (foldr product wss [[]])"
  using assms
proof (induction arbitrary: ex v rule: list_all2_induct)
  case Nil
  have "sequence_built rules i v ex (make_edge v (i + 2) ex) [[]]"
    using Nil tails_end unfolding sequence_built_def
    by (auto simp: same_actions_def make_edge_adj adj_list_simps intro: fresh_make_edge)
  then show ?case by auto
next
  case (Cons n ns ws wss)
  then obtain N exa where N: "\<forall>k\<ge>N. accept k n ex = Some (Inr exa)" and b: "node_built_as rules ex exa ws"
    unfolding accept_ok_def by blast
  note d = node_built_asD [OF b]
  let ?exb = "make_edge v (m_id ex) (exa\<lparr>m_stack := m_stack ex\<rparr>)"
  have "fresh ?exb" using d(1,2) Cons.prems by (intro fresh_make_edge fresh_pop) simp_all
  moreover have "m_adj ?exb (m_id ex + 2) = None" using d(6) Cons.prems by simp
  ultimately obtain N' ex' where N': "\<forall>k\<ge>N'. sequence_children (accept k) i (m_id ex + 2) ns ?exb = Some (Inr ex')"
    and r: "sequence_built rules i (m_id ex + 2) ?exb ex' (foldr product wss [[]])"
    using Cons.IH [of ?exb "m_id ex + 2"] d(2) Cons.prems by auto
  have "\<forall>k\<ge>max N N'. sequence_children (accept k) i v (n # ns) ex = Some (Inr ex')"
    using N N' d(3) by (simp add: pop_result_def)
  moreover have "sequence_built rules i v ex ex' (foldr product (ws # wss) [[]])"
    using sequence_built_Cons [OF b Cons.prems(2,3) refl refl r] by simp
  ultimately show ?case by blast
qed

section \<open>Nodes\<close>

lemma events_single: "events rules ex [i] w \<longleftrightarrow>
    (case id_action ex i of None \<Rightarrow> [] | Some f \<Rightarrow> [f]) = List.map_filter (event_action rules) w \<and>
    (case m_main_to_rule_map ex i of None \<Rightarrow> [] | Some r \<Rightarrow> [r]) = List.map_filter (event_rule rules) w"
  by (simp add: events_def List.map_filter_simps split: option.split)

lemma same_actions_id: "same_actions E ex x \<Longrightarrow> id_action E x = id_action ex x \<and> m_main_to_rule_map E x = m_main_to_rule_map ex x"
  by (simp add: same_actions_def id_action_def)

lemma insert_actions_simps [simp]:
  "m_id (insert_actions i r ex) = m_id ex" "m_stack (insert_actions i r ex) = m_stack ex"
  "m_adj (insert_actions i r ex) = m_adj ex" "m_path_count (insert_actions i r ex) = m_path_count ex"
  "program (insert_actions i r ex) = program ex"
  by (simp_all add: insert_actions_def)

lemma insert_actions_fresh:
  assumes "\<forall>j\<ge>i. m_actions ex j = None \<and> m_main_to_rule_map ex j = None"
  shows "m_actions (insert_actions i r ex) =
      (m_actions ex)(i \<mapsto> entry r, i + 1 \<mapsto> main r, i + 2 \<mapsto> exit_action r)"
    "m_main_to_rule_map (insert_actions i r ex) = (m_main_to_rule_map ex)(i + 1 \<mapsto> r)"
  using assms by (simp_all add: insert_actions_def std_insert_def)

text \<open>The events of the three vertices of a node.\<close>

definition node_events :: "'w rule_map \<Rightarrow> 'w executor \<Rightarrow> nat \<Rightarrow> string option \<Rightarrow> bool" where
  "node_events rules E i s \<longleftrightarrow> (\<exists>u v x. events rules E [i] u \<and> events rules E [i + 1] v \<and> events rules E [i + 2] x \<and>
     (\<forall>w. u @ v @ w @ x = node_word s w))"

lemma named_events:
  assumes "rules s = Some r" "id_action E i = entry r" "id_action E (i + 1) = main r" "id_action E (i + 2) = exit_action r"
    "m_main_to_rule_map E i = None" "m_main_to_rule_map E (i + 1) = Some r" "m_main_to_rule_map E (i + 2) = None"
  shows "node_events rules E i (Some s)"
  unfolding node_events_def
  by (rule exI [of _ "[(s, Entry)]"], rule exI [of _ "[(s, Main)]"], rule exI [of _ "[(s, Exit)]"])
    (use assms in \<open>auto simp: events_single event_action_def event_rule_def node_word_def wrap_def List.map_filter_simps
      split: option.splits\<close>)

lemma unnamed_events:
  assumes "\<And>x. i \<le> x \<Longrightarrow> x < i + 3 \<Longrightarrow> id_action E x = None \<and> m_main_to_rule_map E x = None"
  shows "node_events rules E i None"
  unfolding node_events_def
  by (rule exI [of _ "[]"], rule exI [of _ "[]"], rule exI [of _ "[]"])
    (use assms in \<open>simp add: events_single node_word_def List.map_filter_simps\<close>)

lemma through_node:
  assumes "m_adj E i = Some [i + 1]" "tails rules E (i + 1) (i + 2) ws" "node_events rules E i s"
  shows "through rules E i (i + 2) (map (node_word s) ws)"
proof -
  obtain qs where q: "segment E (i + 1) (i + 2) (map (\<lambda>q. (i + 1) # q) qs)" "list_all2 (events rules E) qs ws"
    using assms(2) unfolding tails_def by blast
  obtain u v x where e: "events rules E [i] u" "events rules E [i + 1] v" "events rules E [i + 2] x"
    "\<And>w. u @ v @ w @ x = node_word s w" using assms(3) unfolding node_events_def by blast
  have "segment E i (i + 2) (map (\<lambda>q. i # (i + 1) # q) qs)"
    using segment_choice [OF assms(1), of "i + 2" "[map (\<lambda>q. (i + 1) # q) qs]"] q(1) by (simp add: comp_def)
  moreover have "events rules E (i # (i + 1) # q @ [i + 2]) (node_word s w)" if "events rules E q w" for q w
    unfolding e(4) [symmetric] by (rule events_Cons [OF e(1)], rule events_Cons [OF e(2)], rule events_append [OF that e(3)])
  then have "list_all2 (\<lambda>q w. events rules E (q @ [i + 2]) w) (map (\<lambda>q. i # (i + 1) # q) qs) (map (node_word s) ws)"
    using q(2) by (auto simp: list.rel_map elim: list_all2_mono)
  ultimately show ?thesis unfolding through_def by blast
qed

lemma opened:
  assumes fr: "fresh ex" and n: "\<forall>s. m_name nt = Some s \<longrightarrow> s \<in> dom rules" and o: "o1 = open_nonterminal rules nt ex"
  shows "m_id o1 = m_id ex + 3" "m_stack o1 = (m_id ex, m_id ex + 2) # m_stack ex" "fresh o1"
    "m_path_count o1 = m_path_count ex" "program o1 = program ex"
    "m_adj o1 = (m_adj ex)(m_id ex \<mapsto> [m_id ex + 1])" "x < m_id ex \<Longrightarrow> same_actions o1 ex x"
    "(\<And>x. m_id ex \<le> x \<Longrightarrow> x < m_id ex + 3 \<Longrightarrow> same_actions E o1 x) \<Longrightarrow> node_events rules E (m_id ex) (m_name nt)"
proof -
  let ?i = "m_id ex"
  let ?e = "ex\<lparr>m_id := ?i + 3, m_stack := (?i, ?i + 2) # m_stack ex\<rparr>"
  have fr': "\<forall>j\<ge>?i. m_actions ?e j = None \<and> m_main_to_rule_map ?e j = None" using fr by (simp add: fresh_def)
  show "m_id o1 = m_id ex + 3" "m_stack o1 = (m_id ex, m_id ex + 2) # m_stack ex"
    "m_path_count o1 = m_path_count ex" "program o1 = program ex"
    unfolding o open_nonterminal_def Let_def by (simp_all split: option.split)
  show "m_adj o1 = (m_adj ex)(?i \<mapsto> [?i + 1])"
    using fr unfolding o open_nonterminal_def Let_def by (simp add: make_edge_def fresh_def split: option.split)
  show "fresh o1" "x < ?i \<Longrightarrow> same_actions o1 ex x" for x
    using fr insert_actions_fresh [OF fr'] unfolding o open_nonterminal_def Let_def
    by (auto simp: fresh_def same_actions_def make_edge_def split: option.split)
  assume "\<And>x. ?i \<le> x \<Longrightarrow> x < ?i + 3 \<Longrightarrow> same_actions E o1 x"
  then have E: "id_action E x = id_action o1 x \<and> m_main_to_rule_map E x = m_main_to_rule_map o1 x"
    if "?i \<le> x" "x < ?i + 3" for x using that same_actions_id by blast
  show "node_events rules E ?i (m_name nt)"
  proof (cases "m_name nt")
    case None
    then have "m_actions o1 = m_actions ex" "m_main_to_rule_map o1 = m_main_to_rule_map ex"
      unfolding o open_nonterminal_def Let_def by (simp_all add: getRule_def)
    then show ?thesis using E fr' unfolding None by (intro unnamed_events) (simp add: id_action_def)
  next
    case (Some s)
    then obtain r where r: "rules s = Some r" using n by blast
    then have "o1 = make_edge ?i (?i + 1) (insert_actions ?i r ?e)"
      using Some unfolding o open_nonterminal_def Let_def by (simp add: getRule_def)
    then have "m_actions o1 = (m_actions ex)(?i \<mapsto> entry r, ?i + 1 \<mapsto> main r, ?i + 2 \<mapsto> exit_action r)"
      "m_main_to_rule_map o1 = (m_main_to_rule_map ex)(?i + 1 \<mapsto> r)"
      using insert_actions_fresh [OF fr'] by simp_all
    then show ?thesis using E fr' r unfolding Some by (intro named_events [where r = r]) (simp_all add: id_action_def)
  qed
qed

lemma node_built:
  assumes fr: "fresh ex" and n: "\<forall>s. m_name nt = Some s \<longrightarrow> s \<in> dom rules" and o1: "o1 = open_nonterminal rules nt ex"
    and b: "fresh ex'" "m_id o1 \<le> m_id ex'" "m_stack ex' = m_stack o1" "m_path_count ex' = m_path_count o1"
      "program ex' = program o1" "\<forall>x<m_id o1. x \<noteq> m_id ex + 1 \<longrightarrow> m_adj ex' x = m_adj o1 x"
      "\<forall>x<m_id o1. same_actions ex' o1 x"
    and t: "\<And>E. \<forall>x. m_id o1 \<le> x \<longrightarrow> x < m_id ex' \<longrightarrow> same_actions E ex' x \<and> m_adj E x = m_adj ex' x \<Longrightarrow>
      m_adj E (m_id ex + 1) = m_adj ex' (m_id ex + 1) \<Longrightarrow> tails rules E (m_id ex + 1) (m_id ex + 2) ws"
  shows "node_built_as rules ex ex' (map (node_word (m_name nt)) ws)"
proof -
  let ?i = "m_id ex"
  note o = opened [OF fr n o1]
  note b' = b [unfolded o(1,2,4,5,6)]
  have a0: "m_adj ex' ?i = Some [?i + 1]" and a2: "m_adj ex' (?i + 2) = None"
    using b' fr by (simp_all add: fresh_def)
  have th: "through rules E ?i (?i + 2) (map (node_word (m_name nt)) ws)"
    if E: "\<And>x. ?i \<le> x \<Longrightarrow> x < m_id ex' \<Longrightarrow> same_actions E ex' x"
      "\<And>x. ?i \<le> x \<Longrightarrow> x < m_id ex' \<Longrightarrow> x \<noteq> ?i + 2 \<Longrightarrow> m_adj E x = m_adj ex' x" for E
  proof (rule through_node)
    show "m_adj E ?i = Some [?i + 1]" using E(2) [of ?i] a0 b' by simp
    show "tails rules E (?i + 1) (?i + 2) ws" by (rule t) (use E b' o(1) in simp_all)
    show "node_events rules E ?i (m_name nt)"
      by (rule o(8), rule same_actions_trans [OF E(1)]) (use b' in simp_all)
  qed
  have "same_actions ex' ex x" if "x < ?i" for x
    by (rule same_actions_trans [OF _ o(7) [OF that]]) (use b' that in simp)
  then show ?thesis
    unfolding node_built_as_def Let_def using b' th a2 by simp
qed

lemma selector_node_built:
  assumes fr: "fresh ex" and n: "\<forall>s. m_name nt = Some s \<longrightarrow> s \<in> dom rules" and o1: "o1 = open_nonterminal rules nt ex"
    and b: "selector_built rules (m_id ex) o1 ex' ss wss" and ne: "wss \<noteq> []"
  shows "node_built_as rules ex ex' (map (node_word (m_name nt)) (concat wss))"
proof -
  note o = opened [OF fr n o1]
  note b' = b [unfolded selector_built_def]
  have "list_all2 (child_paths rules ex' (m_id ex + 2)) ss wss" using b' by (simp add: same_actions_def)
  then have ne': "ss \<noteq> []" using ne by auto
  have "adj_list o1 (m_id ex + 1) = []" using fr o(6) by (simp add: adj_list_def fresh_def)
  then have a1: "m_adj ex' (m_id ex + 1) = Some ss" using b' by (intro adj_list_Some ne') simp
  show ?thesis
  proof (rule node_built [OF fr n o1])
    fix E assume E: "\<forall>x. m_id o1 \<le> x \<longrightarrow> x < m_id ex' \<longrightarrow> same_actions E ex' x \<and> m_adj E x = m_adj ex' x"
      "m_adj E (m_id ex + 1) = m_adj ex' (m_id ex + 1)"
    then have "list_all2 (child_paths rules E (m_id ex + 2)) ss wss" using b' by simp
    then show "tails rules E (m_id ex + 1) (m_id ex + 2) (concat wss)"
      unfolding child_paths_def using E(2) a1 by (intro tails_choice) simp_all
  qed (use b' in simp_all)
qed

lemma sequence_node_built:
  assumes fr: "fresh ex" and n: "\<forall>s. m_name nt = Some s \<longrightarrow> s \<in> dom rules" and o1: "o1 = open_nonterminal rules nt ex"
    and b: "sequence_built rules (m_id ex) (m_id ex + 1) o1 ex' ws"
  shows "node_built_as rules ex ex' (map (node_word (m_name nt)) ws)"
  by (rule node_built [OF fr n o1]) (use b [unfolded sequence_built_def] in simp_all)

lemma terminal_built:
  assumes fr: "fresh ex" and r: "rules s = Some r" and ex': "ex' = (let i = m_id ex;
         ex = insert_actions i r ex;
         ex = make_edge i (i + 1) ex;
         ex = make_edge (i + 1) (i + 2) ex
       in ex\<lparr>m_stack := (i, i + 2) # m_stack ex, m_id := i + 3\<rparr>)"
  shows "node_built_as rules ex ex' [wrap s []]"
proof -
  let ?i = "m_id ex" and ?nt = "\<lparr>m_name = Some s, obj_kind = Terminal, children = []\<rparr>"
  have n: "\<forall>t. m_name ?nt = Some t \<longrightarrow> t \<in> dom rules" using r by auto
  note o = opened [OF fr n refl]
  have e: "ex' = make_edge (?i + 1) (?i + 2) (open_nonterminal rules ?nt ex)"
    unfolding ex' open_nonterminal_def Let_def make_edge_def insert_actions_def getRule_def by (simp add: r)
  have "fresh ex'" unfolding e by (rule fresh_make_edge) (use o in simp_all)
  moreover have "m_adj ex' (?i + 1) = Some [?i + 2]"
    unfolding e using o(6) fr by (simp add: make_edge_adj adj_list_def fresh_def)
  ultimately have "node_built_as rules ex ex' (map (node_word (m_name ?nt)) [[]])"
    by (intro node_built [OF fr n refl]) (use o e in \<open>auto simp: same_actions_def intro: tails_end\<close>)
  then show ?thesis by (simp add: node_word_def)
qed

section \<open>The whole graph\<close>

lemma kwords_Some: "K \<noteq> Terminal \<Longrightarrow> kwords K (map Some wss) = Some (if K = Selector then concat wss else foldr product wss [[]])"
  by (induction wss) (simp_all add: neutral_def)

lemma kwords_defined: "kwords K ws = Some w \<Longrightarrow> \<exists>wss. ws = map Some wss"
proof (induction ws arbitrary: w)
  case (Cons u ws)
  then obtain a b where "u = Some a" "kwords K ws = Some b" by (cases u; cases "kwords K ws") auto
  with Cons.IH obtain wss where "u # ws = map Some (a # wss)" by auto
  then show ?case by (rule exI)
qed simp

lemma exec_node:
  assumes fr: "fresh ex" and K: "obj_kind (h ! a) = K" "K \<noteq> Terminal"
    and n: "\<forall>s. m_name (h ! a) = Some s \<longrightarrow> s \<in> dom rules"
    and c: "list_all2 (accept_ok rules (\<lambda>k. exec_accept k rules h root)) (children (h ! a)) wss" "wss \<noteq> []"
    and ws: "kwords K (map Some wss) = Some ws"
  shows "\<exists>N ex'. (\<forall>k\<ge>N. exec_accept k rules h root a ex = check_root root a ex') \<and>
    node_built_as rules ex ex' (map (node_word (m_name (h ! a))) ws)"
proof -
  let ?o = "open_nonterminal rules (h ! a) ex" and ?A = "\<lambda>k. exec_accept k rules h root"
  note o = opened [OF fr n refl]
  show ?thesis
  proof (cases "K = Selector")
    case True
    obtain N ex' ss where N: "\<forall>k\<ge>N. selector_children (?A k) (m_id ex) (children (h ! a)) ?o = Some (Inr ex')"
      and b: "selector_built rules (m_id ex) ?o ex' ss wss"
      using selector_children_ok [OF c(1) o(3)] o(1) by fastforce
    have "\<forall>k\<ge>Suc N. exec_accept k rules h root a ex = check_root root a ex'"
      by (rule from_Suc) (use N K True in \<open>simp add: visitSelector_def\<close>)
    moreover have "ws = concat wss" using ws K(2) True by (simp add: kwords_Some)
    ultimately show ?thesis using selector_node_built [OF fr n refl b c(2)] by blast
  next
    case False
    then have S: "K = Sequence" using K(2) by (cases K) simp_all
    have "m_id ex + 1 < m_id ?o" "m_adj ?o (m_id ex + 1) = None" using o(1,6) fr by (simp_all add: fresh_def)
    from sequence_children_ok [OF c(1) o(3) this]
    obtain N ex' where N: "\<forall>k\<ge>N. sequence_children (?A k) (m_id ex) (m_id ex + 1) (children (h ! a)) ?o = Some (Inr ex')"
      and b: "sequence_built rules (m_id ex) (m_id ex + 1) ?o ex' (foldr product wss [[]])" by blast
    have "\<forall>k\<ge>Suc N. exec_accept k rules h root a ex = check_root root a ex'"
      by (rule from_Suc) (use N K S in \<open>simp add: visitSequence_def\<close>)
    moreover have "ws = foldr product wss [[]]" using ws K(2) S by (simp add: kwords_Some)
    ultimately show ?thesis using sequence_node_built [OF fr n refl b] by blast
  qed
qed

lemma check_root_other: "a \<noteq> root \<Longrightarrow> check_root root a ex = Some (Inr ex)"
  by (simp add: check_root_def)

lemma exec_tree:
  assumes "crepr True M h t p" "twords f t = Some ws" "root \<in> ran M" "\<forall>s a. M s = Some a \<longrightarrow> m_name (h ! a) = Some s"
    and "\<And>s a ws. s \<in> refs t \<Longrightarrow> M s = Some a \<Longrightarrow> f s = Some ws \<Longrightarrow> accept_ok rules (\<lambda>k. exec_accept k rules h root) a ws"
  shows "accept_ok rules (\<lambda>k. exec_accept k rules h root) p ws"
  using assms
proof (induction t arbitrary: p ws)
  case (Ref s)
  then show ?case by simp
next
  case (Branch a K ts)
  have a: "p = a" "m_name (h ! a) = None" "obj_kind (h ! a) = K" "K \<noteq> Terminal" "ts \<noteq> []"
    and l: "list_all2 (crepr True M h) ts (children (h ! a))" using Branch.prems(1) by simp_all
  have kw: "kwords K (map (twords f) ts) = Some ws" using Branch.prems(2) by simp
  from kwords_defined [OF kw] obtain wss where wss: "map (twords f) ts = map Some wss" by blast
  have len: "length wss = length ts" using wss by (metis length_map)
  have ok: "list_all2 (accept_ok rules (\<lambda>k. exec_accept k rules h root)) (children (h ! a)) wss"
  proof (rule list_all2_all_nthI)
    show "length (children (h ! a)) = length wss" using list_all2_lengthD [OF l] len by simp
    fix i assume "i < length (children (h ! a))"
    then have i: "i < length ts" using list_all2_lengthD [OF l] by simp
    show "accept_ok rules (\<lambda>k. exec_accept k rules h root) (children (h ! a) ! i) (wss ! i)"
    proof (rule Branch.IH [of "ts ! i"])
      show "twords f (ts ! i) = Some (wss ! i)" using wss i len by (metis nth_map)
      show "crepr True M h (ts ! i) (children (h ! a) ! i)" using l i by (rule list_all2_nthD)
      show "accept_ok rules (\<lambda>k. exec_accept k rules h root) b us"
        if "s \<in> refs (ts ! i)" "M s = Some b" "f s = Some us" for s b us
        by (rule Branch.prems(5) [OF _ that(2,3)]) (use that(1) i in auto)
    qed (use Branch.prems(3,4) i in simp_all)
  qed
  have root: "a \<noteq> root" using Branch.prems(3,4) a(2) by (auto simp: ran_def)
  show ?case
    unfolding accept_ok_def a(1)
  proof (intro allI impI)
    fix ex :: "'a executor" assume fr: "fresh ex"
    have "\<exists>N ex'. (\<forall>k\<ge>N. exec_accept k rules h root a ex = check_root root a ex') \<and>
        node_built_as rules ex ex' (map (node_word (m_name (h ! a))) ws)"
      by (rule exec_node [OF fr a(3,4) _ ok]) (use a len kw wss in auto)
    then show "\<exists>N ex'. (\<forall>k\<ge>N. exec_accept k rules h root a ex = Some (Inr ex')) \<and> node_built_as rules ex ex' ws"
      using a(2) by (simp add: node_word_def [abs_def] check_root_other [OF root])
  qed
qed

primrec ref_words :: "nat \<Rightarrow> (string \<Rightarrow> (string \<Rightarrow> words) \<Rightarrow> words) \<Rightarrow> string \<Rightarrow> words" where
  "ref_words 0 B s = None"
| "ref_words (Suc d) B s = map_option (map (wrap s)) (B s (ref_words d B))"

lemma exec_body:
  assumes body: "resolved M h G s" "M s = Some a" and ws: "bwords f (G s) = Some ws"
    and M: "root \<in> ran M" "\<forall>s a. M s = Some a \<longrightarrow> m_name (h ! a) = Some s" "dom M \<subseteq> dom rules"
    and IH: "\<And>t b us. t \<in> succs G s \<Longrightarrow> M t = Some b \<Longrightarrow> f t = Some us \<Longrightarrow>
      accept_ok rules (\<lambda>k. exec_accept k rules h root) b us"
    and fr: "fresh ex"
  shows "\<exists>N ex'. (\<forall>k\<ge>N. exec_accept k rules h root a ex = check_root root a ex') \<and>
    node_built_as rules ex ex' (map (wrap s) ws)"
proof -
  have name: "m_name (h ! a) = Some s" and s: "s \<in> dom rules" using M body(2) by auto
  have r: "nrepr True M h a (G s)" using body by (simp add: resolved_def)
  show ?thesis
  proof (cases "G s")
    case None
    then have T: "obj_kind (h ! a) = Terminal" using r by (simp add: nrepr_def)
    obtain ru where ru: "rules s = Some ru" using s by blast
    have "exec_accept k rules h root a ex = check_root root a (let i = m_id ex;
         ex = insert_actions i ru ex; ex = make_edge i (i + 1) ex; ex = make_edge (i + 1) (i + 2) ex
       in ex\<lparr>m_stack := (i, i + 2) # m_stack ex, m_id := i + 3\<rparr>)" if "Suc 0 \<le> k" for k
      using Suc_le_D [OF that] T name ru by (auto simp: visitTerminal_def getRule_def Let_def)
    moreover have "ws = [[]]" using ws None by simp
    ultimately show ?thesis using terminal_built [of ex rules s ru, OF fr ru refl] by auto
  next
    case (Some p)
    obtain K ts where G: "G s = Some (K, ts)" using Some by (cases p) simp
    have K: "obj_kind (h ! a) = K" "K \<noteq> Terminal" "ts \<noteq> []" and l: "list_all2 (crepr True M h) ts (children (h ! a))"
      using r G by (simp_all add: nrepr_def)
    have kw: "kwords K (map (twords f) ts) = Some ws" using ws G by simp
    from kwords_defined [OF kw] obtain wss where wss: "map (twords f) ts = map Some wss" by blast
    have len: "length wss = length ts" using wss by (metis length_map)
    have ok: "list_all2 (accept_ok rules (\<lambda>k. exec_accept k rules h root)) (children (h ! a)) wss"
    proof (rule list_all2_all_nthI)
      show "length (children (h ! a)) = length wss" using list_all2_lengthD [OF l] len by simp
      fix i assume "i < length (children (h ! a))"
      then have i: "i < length ts" using list_all2_lengthD [OF l] by simp
      show "accept_ok rules (\<lambda>k. exec_accept k rules h root) (children (h ! a) ! i) (wss ! i)"
      proof (rule exec_tree [OF list_all2_nthD [OF l i] _ M(1,2)])
        show "twords f (ts ! i) = Some (wss ! i)" using wss i len by (metis nth_map)
        show "accept_ok rules (\<lambda>k. exec_accept k rules h root) b us"
          if "t \<in> refs (ts ! i)" "M t = Some b" "f t = Some us" for t b us
          by (rule IH [OF _ that(2,3)]) (use that(1) i G in \<open>auto simp: succs_def\<close>)
      qed
    qed
    have "\<exists>N ex'. (\<forall>k\<ge>N. exec_accept k rules h root a ex = check_root root a ex') \<and>
        node_built_as rules ex ex' (map (node_word (m_name (h ! a))) ws)"
      by (rule exec_node [OF fr K(1,2) _ ok]) (use name s K len kw wss in auto)
    then show ?thesis using name by (simp add: node_word_def [abs_def])
  qed
qed

lemma exec_name:
  assumes "ref_words d (\<lambda>s f. bwords f (G s)) s = Some ws" "M s = Some a" "s \<in> R"
    and R: "\<forall>m\<in>R. resolved M h G m \<and> succs G m \<subseteq> R" "r \<notin> R" "M r = Some root"
    and M: "\<forall>s a. M s = Some a \<longrightarrow> m_name (h ! a) = Some s" "dom M \<subseteq> dom rules"
  shows "accept_ok rules (\<lambda>k. exec_accept k rules h root) a ws"
  using assms(1-3)
proof (induction d arbitrary: s ws a)
  case (Suc d)
  then obtain us where us: "bwords (ref_words d (\<lambda>s f. bwords f (G s))) (G s) = Some us" "ws = map (wrap s) us" by auto
  have "a \<noteq> root" using M(1) R(2,3) Suc.prems(2,3) by (metis option.inject)
  have res: "resolved M h G s" using R(1) Suc.prems(3) by blast
  have ran: "root \<in> ran M" using R(3) by (rule ranI)
  show ?case
    unfolding accept_ok_def us(2)
  proof (intro allI impI)
    fix ex :: "'a executor" assume fr: "fresh ex"
    have "\<exists>N ex'. (\<forall>k\<ge>N. exec_accept k rules h root a ex = check_root root a ex') \<and> node_built_as rules ex ex' (map (wrap s) us)"
    proof (rule exec_body [OF res Suc.prems(2) us(1) ran M _ fr])
      show "accept_ok rules (\<lambda>k. exec_accept k rules h root) b us"
        if "t \<in> succs G s" "M t = Some b" "ref_words d (\<lambda>s f. bwords f (G s)) t = Some us" for t b us
        by (rule Suc.IH [OF that(3,2)]) (use that(1) R(1) Suc.prems(3) in blast)
    qed
    then show "\<exists>N ex'. (\<forall>k\<ge>N. exec_accept k rules h root a ex = Some (Inr ex')) \<and> node_built_as rules ex ex' (map (wrap s) us)"
      unfolding check_root_other [OF \<open>a \<noteq> root\<close>] .
  qed
qed simp

lemma run_each_words:
  "list_all2 (\<lambda>q w. f q = run_word rules w) qs ws \<Longrightarrow> run_each f qs = run_words rules ws"
proof (induction rule: list_all2_induct)
  case (Cons q qs w ws)
  then show ?case by (intro ext) simp
qed (simp add: fun_eq_iff)

lemma exec_root:
  assumes w: "ref_words d (\<lambda>s f. bwords f (G s)) r = Some ws" and r: "M r = Some root" "resolved M h G r"
    and R: "\<forall>m\<in>R. resolved M h G m \<and> succs G m \<subseteq> R" "r \<notin> R" "succs G r \<subseteq> R"
    and M: "\<forall>s a. M s = Some a \<longrightarrow> m_name (h ! a) = Some s" "dom M \<subseteq> dom rules"
  shows "\<exists>N. \<forall>k\<ge>N. obind (exec_accept k rules h root root (Executor p)) (\<lambda>ex. Some (Inr (m_path_count ex, program ex))) =
    run_words rules ws (0, p)"
proof -
  obtain d' where d: "d = Suc d'" using w by (cases d) simp_all
  then obtain us where us: "bwords (ref_words d' (\<lambda>s f. bwords f (G s))) (G r) = Some us" "ws = map (wrap r) us"
    using w by auto
  have fr: "fresh (Executor p)" by (simp add: fresh_def Executor_def)
  have "\<exists>N ex'. (\<forall>k\<ge>N. exec_accept k rules h root root (Executor p) = check_root root root ex') \<and>
      node_built_as rules (Executor p) ex' (map (wrap r) us)"
  proof (rule exec_body [OF r(2,1) us(1) ranI [where m = M, OF r(1)] M _ fr])
    show "accept_ok rules (\<lambda>k. exec_accept k rules h root) b us"
      if "t \<in> succs G r" "M t = Some b" "ref_words d' (\<lambda>s f. bwords f (G s)) t = Some us" for t b us
      by (rule exec_name [OF that(3,2) _ R(1,2) r(1) M]) (use that(1) R(3) in blast)
  qed
  then obtain N ex' where N: "\<forall>k\<ge>N. exec_accept k rules h root root (Executor p) = check_root root root ex'"
    and b: "node_built_as rules (Executor p) ex' ws" unfolding us(2) by blast
  note e = node_built_asD [OF b]
  have i: "m_id (Executor p) = 0" "m_path_count (Executor p) = 0" "program (Executor p) = p" by (simp_all add: Executor_def)
  have "through rules ex' 0 2 ws" using e(9) [of ex'] by (simp add: i same_actions_def numeral_2_eq_2)
  then obtain qs where q: "segment ex' 0 2 qs" "list_all2 (\<lambda>q w. events rules ex' (q @ [2]) w) qs ws"
    unfolding through_def by blast
  have "dfs ex' [] [0] = run_each (\<lambda>q. dfs ex' q [2]) qs" using q(1) by (simp add: segment_def)
  also have "\<dots> = run_words rules ws"
  proof (rule run_each_words, rule list_all2_mono [OF q(2)])
    show "dfs ex' q [2] = run_word rules w" if "events rules ex' (q @ [2]) w" for q w
      using dfs_end [of ex' q] run_path_word [OF that] e(6) i(1) by (intro ext) (simp add: numeral_2_eq_2)
  qed
  finally have dfs: "dfs ex' [] [0] = run_words rules ws" .
  have "obind (check_root root root ex') (\<lambda>ex. Some (Inr (m_path_count ex, program ex))) = run_words rules ws (0, p)"
    unfolding check_root_def using dfs e(7,8) i by (simp add: obind_assoc case_prod_unfold)
  then show ?thesis using N by (intro exI [of _ N]) simp
qed
end
