(* ===== verification/RuleCorrect.thy ===== *)
theory RuleCorrect
  imports RuleExec
begin

text \<open>
  A rule context runs the grammar it was given: the calls of the context are definitions of rules, a legal
  sequence of calls gives a graph that stands for them, and \<open>root\<close> runs the words the grammar derives from
  a rule, or stops when the rule leads into a loop.
\<close>

section \<open>Grammars\<close>

type_synonym grammar = "string \<rightharpoonup> rule_expr"

fun add_defs :: "rule_expr \<Rightarrow> grammar \<Rightarrow> grammar" where
  "add_defs (RuleTerm s) D = D"
| "add_defs (ShiftRight e1 e2) D = add_defs e2 (add_defs e1 D)"
| "add_defs (BitwiseOr e1 e2) D = add_defs e2 (add_defs e1 D)"
| "add_defs (RuleAssign r e) D = (add_defs e D)(r \<mapsto> e)"

fun is_compound :: "rule_expr \<Rightarrow> bool" where
  "is_compound (ShiftRight e1 e2) = True"
| "is_compound (BitwiseOr e1 e2) = True"
| "is_compound e = False"

text \<open>Each rule is assigned once, and never a bare rule.\<close>

fun legal :: "rule_expr \<Rightarrow> grammar \<Rightarrow> bool" where
  "legal (RuleTerm s) D = True"
| "legal (ShiftRight e1 e2) D = (legal e1 D \<and> legal e2 (add_defs e1 D))"
| "legal (BitwiseOr e1 e2) D = (legal e1 D \<and> legal e2 (add_defs e1 D))"
| "legal (RuleAssign r e) D = (legal e D \<and> is_compound e \<and> add_defs e D r = None)"

fun expr_words :: "(string \<Rightarrow> words) \<Rightarrow> rule_expr \<Rightarrow> words" where
  "expr_words f (RuleTerm s) = f s"
| "expr_words f (ShiftRight e1 e2) = combine_words Sequence (expr_words f e1) (expr_words f e2)"
| "expr_words f (BitwiseOr e1 e2) = combine_words Selector (expr_words f e1) (expr_words f e2)"
| "expr_words f (RuleAssign r e) = f r"

fun expr_refs :: "rule_expr \<Rightarrow> string set" where
  "expr_refs (RuleTerm s) = {s}"
| "expr_refs (ShiftRight e1 e2) = expr_refs e1 \<union> expr_refs e2"
| "expr_refs (BitwiseOr e1 e2) = expr_refs e1 \<union> expr_refs e2"
| "expr_refs (RuleAssign r e) = {r}"

fun rule_names :: "rule_expr \<Rightarrow> string set" where
  "rule_names (RuleTerm s) = {s}"
| "rule_names (ShiftRight e1 e2) = rule_names e1 \<union> rule_names e2"
| "rule_names (BitwiseOr e1 e2) = rule_names e1 \<union> rule_names e2"
| "rule_names (RuleAssign r e) = insert r (rule_names e)"

definition grammar_words :: "grammar \<Rightarrow> string \<Rightarrow> (string \<Rightarrow> words) \<Rightarrow> words" where
  "grammar_words D s f = (case D s of None \<Rightarrow> Some [[]] | Some e \<Rightarrow> expr_words f e)"

definition grammar_succs :: "grammar \<Rightarrow> string \<Rightarrow> string set" where
  "grammar_succs D s = (case D s of None \<Rightarrow> {} | Some e \<Rightarrow> expr_refs e)"

text \<open>
  The words of a rule, \<open>None\<close> if it leads into a loop: the depth of the expansion is at most the number of
  rules that are assigned, and one more for a rule that is not.
\<close>

definition rule_words :: "grammar \<Rightarrow> string \<Rightarrow> words" where
  "rule_words D r = ref_words (Suc (card (dom D))) (grammar_words D) r"

lemma combine_words_defined: "combine_words K a b \<noteq> None \<longleftrightarrow> a \<noteq> None \<and> b \<noteq> None"
  by (cases a; cases b) simp_all

lemma expr_words_defined: "expr_words f e \<noteq> None \<longleftrightarrow> (\<forall>s\<in>expr_refs e. f s \<noteq> None)"
  by (induction e) (auto simp del: not_None_eq combine_words.simps simp: combine_words_defined)

lemma grammar_words_defined: "grammar_words D s f \<noteq> None \<longleftrightarrow> (\<forall>t\<in>grammar_succs D s. f t \<noteq> None)"
  by (cases "D s") (simp_all add: grammar_words_def grammar_succs_def expr_words_defined del: not_None_eq)

lemma grammar_depth:
  assumes "safe (grammar_succs D) P s" "finite (dom D)" "card (dom D - P) \<le> d"
  shows "ref_words (Suc d) (grammar_words D) s \<noteq> None"
  using assms
proof (induction arbitrary: d rule: safe.induct)
  case (safeI s P)
  have "ref_words d (grammar_words D) t \<noteq> None" if t: "t \<in> grammar_succs D s" for t
  proof -
    have "s \<in> dom D" using t by (auto simp: grammar_succs_def split: option.splits)
    then have "card (dom D - insert s P) < card (dom D - P)"
      using safeI.hyps(1) safeI.prems(1) by (intro psubset_card_mono) auto
    then obtain d' where "d = Suc d'" "card (dom D - insert s P) \<le> d'" using safeI.prems(2) by (cases d) auto
    then show ?thesis using safeI.IH [OF t safeI.prems(1)] by simp
  qed
  then have "grammar_words D s (ref_words d (grammar_words D)) \<noteq> None" by (simp only: grammar_words_defined) blast
  then show ?case by simp
qed

lemma ref_words_mono: "ref_words d (grammar_words D) s \<noteq> None \<Longrightarrow> d \<le> d' \<Longrightarrow> ref_words d' (grammar_words D) s \<noteq> None"
proof (induction d arbitrary: s d')
  case (Suc d)
  obtain e where d': "d' = Suc e" "d \<le> e" using Suc.prems(2) by (cases d') auto
  have "grammar_words D s (ref_words d (grammar_words D)) \<noteq> None" using Suc.prems(1) by simp
  then have "grammar_words D s (ref_words e (grammar_words D)) \<noteq> None"
    using Suc.IH d'(2) by (simp only: grammar_words_defined) blast
  then show ?case by (simp add: d')
qed simp

lemma words_safe:
  assumes "ref_words d (grammar_words D) s \<noteq> None" "\<forall>p\<in>P. ref_words d (grammar_words D) p = None"
  shows "safe (grammar_succs D) P s"
  using assms
proof (induction d arbitrary: s P rule: less_induct)
  case (less d)
  define n where "n = (LEAST n. ref_words n (grammar_words D) s \<noteq> None)"
  have n: "ref_words n (grammar_words D) s \<noteq> None" "n \<le> d"
    unfolding n_def using less.prems(1) by (auto intro: LeastI Least_le)
  obtain m where m: "n = Suc m" using n(1) by (cases n) simp_all
  have undef: "ref_words m (grammar_words D) s = None"
    using not_less_Least [of m "\<lambda>n. ref_words n (grammar_words D) s \<noteq> None"] unfolding n_def [symmetric] m by simp
  have "s \<notin> P" using less.prems by auto
  moreover have "safe (grammar_succs D) (insert s P) t" if t: "t \<in> grammar_succs D s" for t
  proof (rule less.IH)
    show "m < d" using n(2) m by simp
    have "grammar_words D s (ref_words m (grammar_words D)) \<noteq> None" using n(1) m by simp
    then show "ref_words m (grammar_words D) t \<noteq> None" using t by (simp only: grammar_words_defined) blast
    show "\<forall>p\<in>insert s P. ref_words m (grammar_words D) p = None"
      using undef less.prems(2) ref_words_mono [of m D _ d] n(2) m by fastforce
  qed
  ultimately show ?case by (rule safeI)
qed

lemma rule_words_safe: "finite (dom D) \<Longrightarrow> rule_words D r \<noteq> None \<longleftrightarrow> safe (grammar_succs D) {} r"
  unfolding rule_words_def using grammar_depth [of D "{}" r "card (dom D)"] words_safe [of _ D r "{}"]
  by (auto simp del: ref_words.simps not_None_eq)

section \<open>Contexts\<close>

definition context_inv :: "rule_context \<Rightarrow> (string \<Rightarrow> body) \<Rightarrow> grammar \<Rightarrow> bool" where
  "context_inv c G D \<longleftrightarrow> graph_inv (gheap c) (m_named_nodes c) G {} \<and>
     (\<forall>s. G s = None \<longleftrightarrow> D s = None) \<and> (\<forall>s f. bwords f (G s) = grammar_words D s f) \<and>
     (\<forall>s. brefs (G s) = grammar_succs D s) \<and> m_assigned_nodes c = dom D"

abbreviation ctx_owned :: "rule_context \<Rightarrow> (string \<Rightarrow> body) \<Rightarrow> nat set" where
  "ctx_owned c G \<equiv> all_owned (m_named_nodes c) G {}"

definition evaluated :: "rule_context \<Rightarrow> (string \<Rightarrow> body) \<Rightarrow> rule_expr \<Rightarrow> rule_context \<Rightarrow> (string \<Rightarrow> body) \<Rightarrow> gtree \<Rightarrow> nat \<Rightarrow> bool" where
  "evaluated c G e c' G' t n \<longleftrightarrow>
     length (gheap c) \<le> length (gheap c') \<and> (\<forall>x<length (gheap c). gheap c' ! x = gheap c ! x) \<and>
     ctx_owned c' G' \<subseteq> ctx_owned c G \<union> {length (gheap c)..<length (gheap c')} \<and>
     dom (m_named_nodes c) \<subseteq> dom (m_named_nodes c') \<and> dom (m_named_nodes c') \<subseteq> dom (m_named_nodes c) \<union> rule_names e \<and>
     crepr False (m_named_nodes c') (gheap c') t n \<and> set (addrs t) \<subseteq> {length (gheap c)..<length (gheap c')} \<and>
     distinct (addrs t) \<and> set (addrs t) \<inter> ctx_owned c' G' = {} \<and>
     (\<forall>f. twords f t = expr_words f e) \<and> refs t = expr_refs e \<and> refs t \<subseteq> dom (m_named_nodes c') \<and>
     (is_compound e \<longleftrightarrow> (\<exists>a K ts. t = Branch a K ts))"

lemma list_all2_elem: "list_all2 R xs ys \<Longrightarrow> x \<in> set xs \<Longrightarrow> \<exists>y. R x y"
  by (induction rule: list_all2_induct) auto

lemma crepr_below: "crepr R M h t b \<Longrightarrow> x \<in> set (addrs t) \<Longrightarrow> x < length h"
proof (induction t arbitrary: b)
  case (Branch a K ts)
  have l: "list_all2 (crepr R M h) ts (children (h ! a))" "a < length h" using Branch.prems(1) by simp_all
  show ?case
  proof (cases "x = a")
    case False
    then obtain t where t: "t \<in> set ts" "x \<in> set (addrs t)" using Branch.prems(2) by auto
    with list_all2_elem [OF l(1)] obtain b where "crepr R M h t b" by blast
    then show ?thesis using Branch.IH t by blast
  qed (use l in simp)
qed simp

lemma crepr_grow:
  "crepr False M h t b \<Longrightarrow> length h \<le> length h' \<Longrightarrow> \<forall>x<length h. h' ! x = h ! x \<Longrightarrow> crepr False M' h' t b"
proof (induction t arbitrary: b)
  case (Branch a K ts)
  have l: "list_all2 (crepr False M h) ts (children (h ! a))" "a < length h" using Branch.prems(1) by simp_all
  have "list_all2 (crepr False M' h') ts (children (h ! a))"
  proof (rule list.rel_mono_strong [OF l(1)])
    fix t c assume "t \<in> set ts" "crepr False M h t c"
    then show "crepr False M' h' t c" by (rule Branch.IH [OF _ _ Branch.prems(2,3)])
  qed
  then show ?case using Branch.prems l(2) by auto
qed simp

lemma creprs_grow:
  assumes "list_all2 (crepr False M h) ts bs" "length h \<le> length h'" "\<forall>x<length h. h' ! x = h ! x"
  shows "list_all2 (crepr False M' h') ts bs"
  by (rule list_all2_mono [OF assms(1)]) (rule crepr_grow [OF _ assms(2,3)])

lemma nrepr_grow:
  assumes "nrepr False M h a b" "a < length h" "length h \<le> length h'" "\<forall>x<length h. h' ! x = h ! x"
  shows "nrepr False M' h' a b"
  using assms creprs_grow [OF _ assms(3,4)] by (auto simp: nrepr_def split: option.splits)

lemma graph_inv_grow:
  assumes "graph_inv h M G {}" "length h \<le> length h'" "\<forall>x<length h. h' ! x = h ! x"
  shows "graph_inv h' M G {}"
proof -
  note i = graph_invD [OF assms(1)]
  have "nrepr False M h' a (G s)" if "M s = Some a" for s a
    by (rule nrepr_grow [OF i(5) [OF that] i(1) [OF that] assms(2,3)]) simp
  moreover have "a < length h' \<and> h' ! a = h ! a" if "M s = Some a" for s a
    using i(1) [OF that] assms(2,3) by simp
  ultimately show ?thesis using i unfolding graph_inv_def by auto
qed

lemma graph_inv_add:
  assumes inv: "graph_inv h M G {}" and n: "n < length h" "m_name (h ! n) = Some r" "nrepr False M h n b"
    and own: "distinct (n # baddrs b)" "set (n # baddrs b) \<inter> all_owned M G {r} = {}" and b: "brefs b \<subseteq> insert r (dom M)"
  shows "graph_inv h (M(r \<mapsto> n)) (G(r := b)) {}"
proof -
  note i = graph_invD [OF inv]
  have new: "owned (M(r \<mapsto> n)) (G(r := b)) s = (if s = r then insert n (set (baddrs b)) else owned M G s)" for s
    by (simp add: owned_def split: option.split)
  have disj: "owned M G s \<inter> insert n (set (baddrs b)) = {}" if "s \<noteq> r" for s
    using own(2) owned_in [of s "{r}" M G] that by auto
  have any: "nrepr False (M(r \<mapsto> n)) h a b'" if "nrepr False M h a b'" "a < length h" for a b'
    by (rule nrepr_grow [OF that]) simp_all
  have k: "obj_kind (h ! n) = Terminal \<longleftrightarrow> b = None" using n(3) by (auto simp: nrepr_def split: option.splits prod.splits)
  have refs: "brefs ((G(r := b)) s) \<subseteq> dom (M(r \<mapsto> n))" for s using i(8) [of s] b by auto
  show ?thesis
    unfolding graph_inv_def new
  proof (intro conjI)
    show "\<forall>s. brefs ((G(r := b)) s) \<subseteq> dom (M(r \<mapsto> n))" using refs by blast
  qed (use i n any k own(1) disj in \<open>auto simp: Int_commute\<close>)
qed

lemma owned_below: "graph_inv h M G {} \<Longrightarrow> \<forall>x\<in>all_owned M G {}. x < length h"
proof
  fix x assume inv: "graph_inv h M G {}" and "x \<in> all_owned M G {}"
  then obtain s a where s: "M s = Some a" "x = a \<or> x \<in> set (baddrs (G s))"
    by (auto simp: all_owned_def owned_def split: option.splits)
  have n: "nrepr False M h a (G s)" "a < length h" using graph_invD(1,5) [OF inv s(1)] by simp_all
  show "x < length h"
  proof (cases "G s")
    case (Some p)
    then obtain K ts where G: "G s = Some (K, ts)" by (cases p) simp
    then have "list_all2 (crepr False M h) ts (children (h ! a))" using n(1) by (simp add: nrepr_def)
    then show ?thesis using s(2) n(2) G list_all2_elem crepr_below by fastforce
  qed (use s n in simp)
qed

lemma context_invD:
  assumes "context_inv c G D"
  shows "graph_inv (gheap c) (m_named_nodes c) G {}" "G s = None \<longleftrightarrow> D s = None" "bwords f (G s) = grammar_words D s f"
    "brefs (G s) = grammar_succs D s" "m_assigned_nodes c = dom D"
  using assms by (simp_all add: context_inv_def)

lemma context_inv_name:
  assumes inv: "context_inv c G D" and r: "m_named_nodes c r = None"
    and c': "c' = c\<lparr>gheap := gheap c @ [\<lparr>m_name = Some r, obj_kind = Terminal, children = []\<rparr>],
      m_named_nodes := (m_named_nodes c)(r \<mapsto> length (gheap c))\<rparr>"
  shows "context_inv c' G D" "ctx_owned c' G \<subseteq> ctx_owned c G \<union> {length (gheap c)}"
proof -
  let ?n = "length (gheap c)" and ?h = "gheap c'"
  note i = context_invD [OF inv]
  have G: "G r = None" using graph_invD(9) [OF i(1), of r] r by (cases "G r") auto
  have g: "graph_inv ?h (m_named_nodes c) G {}" by (rule graph_inv_grow [OF i(1)]) (simp_all add: c' nth_append)
  have "?n \<notin> all_owned (m_named_nodes c) G {r}"
    using owned_below [OF i(1)] by (auto simp: all_owned_def)
  then have "graph_inv ?h ((m_named_nodes c)(r \<mapsto> ?n)) (G(r := None)) {}"
    by (intro graph_inv_add [OF g]) (simp_all add: c' nrepr_def)
  moreover have "G(r := None) = G" using G by auto
  ultimately have "graph_inv ?h (m_named_nodes c') G {}" by (simp add: c')
  then show "context_inv c' G D" using i unfolding context_inv_def by (simp add: c')
  show "ctx_owned c' G \<subseteq> ctx_owned c G \<union> {?n}"
    using G by (auto simp: all_owned_def owned_def c' split: if_splits option.splits)
qed

lemma eval_terminal_ok:
  assumes inv: "context_inv c G D" and e: "eval_terminal r c = (n, c')"
  shows "context_inv c' G D \<and> evaluated c G (RuleTerm r) c' G (Ref r) n \<and> m_named_nodes c' r = Some n"
proof (cases "m_named_nodes c r")
  case None
  then have c': "c' = c\<lparr>gheap := gheap c @ [\<lparr>m_name = Some r, obj_kind = Terminal, children = []\<rparr>],
      m_named_nodes := (m_named_nodes c)(r \<mapsto> length (gheap c))\<rparr>" and n: "n = length (gheap c)"
    using e by (auto simp: eval_terminal_def new_node_def)
  show ?thesis using context_inv_name [OF inv None c'] n by (auto simp: evaluated_def c' nth_append)
next
  case (Some p)
  then have "c' = c" "n = p" using e by (simp_all add: eval_terminal_def)
  then show ?thesis using inv graph_invD(1,2) [OF context_invD(1) [OF inv] Some] Some by (auto simp: evaluated_def)
qed

lemma context_write:
  assumes inv: "context_inv c G D" and p: "p \<notin> ctx_owned c G"
  shows "context_inv (c\<lparr>gheap := (gheap c)[p := (gheap c ! p)\<lparr>children := cs\<rparr>]\<rparr>) G D"
proof -
  have "graph_inv ((gheap c)[p := (gheap c ! p)\<lparr>children := cs\<rparr>]) (m_named_nodes c) G {}"
    by (rule graph_inv_cong [OF context_invD(1) [OF inv] same_nodes_children], rule nth_list_update_neq) (use p in blast)
  then show ?thesis using inv by (simp add: context_inv_def)
qed

lemma evaluatedD:
  assumes "evaluated c G e c' G' t n"
  shows "length (gheap c) \<le> length (gheap c')" "\<forall>x<length (gheap c). gheap c' ! x = gheap c ! x"
    "ctx_owned c' G' \<subseteq> ctx_owned c G \<union> {length (gheap c)..<length (gheap c')}"
    "dom (m_named_nodes c) \<subseteq> dom (m_named_nodes c')" "dom (m_named_nodes c') \<subseteq> dom (m_named_nodes c) \<union> rule_names e"
    "crepr False (m_named_nodes c') (gheap c') t n" "set (addrs t) \<subseteq> {length (gheap c)..<length (gheap c')}"
    "distinct (addrs t)" "set (addrs t) \<inter> ctx_owned c' G' = {}"
    "twords f t = expr_words f e" "refs t = expr_refs e" "refs t \<subseteq> dom (m_named_nodes c')"
    "is_compound e \<longleftrightarrow> (\<exists>a K ts. t = Branch a K ts)"
  using assms unfolding evaluated_def by blast+

lemma crepr_write:
  assumes "crepr R M h t b" "p \<notin> set (addrs t)"
  shows "crepr R M (h[p := (h ! p)\<lparr>children := cs\<rparr>]) t b"
  by (rule crepr_cong [OF assms(1) same_nodes_children]) (use assms(2) in \<open>auto intro!: nth_list_update_neq\<close>)

lemma nonterminal_evaluated:
  assumes inv: "context_inv c G D" and K: "K \<noteq> Terminal" and p: "p = length (gheap c)"
    and c0: "c0 = c\<lparr>gheap := gheap c @ [\<lparr>m_name = None, obj_kind = K, children = []\<rparr>]\<rparr>"
    and i1: "context_inv c1 G1 D1" and e1: "evaluated c0 G e1 c1 G1 t1 n1"
    and c1': "c1' = c1\<lparr>gheap := add_child p n1 (gheap c1)\<rparr>"
    and i2: "context_inv c2 G2 D2" and e2: "evaluated c1' G1 e2 c2 G2 t2 n2"
    and c2': "c2' = c2\<lparr>gheap := add_child p n2 (gheap c2)\<rparr>"
    and e: "is_compound e" "\<And>f. expr_words f e = combine_words K (expr_words f e1) (expr_words f e2)"
      "expr_refs e = expr_refs e1 \<union> expr_refs e2" "rule_names e = rule_names e1 \<union> rule_names e2"
  shows "context_inv c2' G2 D2 \<and> evaluated c G e c2' G2 (Branch p K [t1, t2]) p"
proof -
  note v1 = evaluatedD [OF e1] and v2 = evaluatedD [OF e2]
  have l0: "length (gheap c0) = Suc p" and l1: "length (gheap c1') = length (gheap c1)"
    and l2: "length (gheap c2') = length (gheap c2)" and m: "m_named_nodes c0 = m_named_nodes c"
      "m_named_nodes c1' = m_named_nodes c1" "m_named_nodes c2' = m_named_nodes c2"
    unfolding c0 c1' c2' p add_child_def by simp_all
  have own0: "\<forall>x\<in>ctx_owned c G. x < p" using owned_below [OF context_invD(1) [OF inv]] p by simp
  have own: "ctx_owned c1 G1 \<subseteq> ctx_owned c G \<union> {Suc p..<length (gheap c1)}"
    "ctx_owned c2 G2 \<subseteq> ctx_owned c1 G1 \<union> {length (gheap c1)..<length (gheap c2)}"
    using v1(3) v2(3) unfolding l0 l1 m by simp_all
  have len: "Suc p \<le> length (gheap c1)" "length (gheap c1) \<le> length (gheap c2)" using v1(1) v2(1) l0 l1 by simp_all
  have pn: "p \<notin> ctx_owned c1 G1" "p \<notin> ctx_owned c2 G2" "p \<notin> set (addrs t1)" "p \<notin> set (addrs t2)"
    using own own0 v1(7) v2(7) len unfolding l0 l1 by fastforce+
  have h0: "gheap c1 ! p = \<lparr>m_name = None, obj_kind = K, children = []\<rparr>"
    using v1(2) l0 by (simp add: c0 p)
  have h1: "gheap c1' ! p = \<lparr>m_name = None, obj_kind = K, children = [n1]\<rparr>"
    using len h0 by (simp add: c1' add_child_def)
  have h2: "gheap c2 ! p = \<lparr>m_name = None, obj_kind = K, children = [n1]\<rparr>" using v2(2) l1 len h1 by simp
  have h3: "gheap c2' ! p = \<lparr>m_name = None, obj_kind = K, children = [n1, n2]\<rparr>"
    using len h2 by (simp add: c2' add_child_def)
  have "crepr False (m_named_nodes c1) (gheap c1') t1 n1"
    unfolding c1' add_child_def using crepr_write [OF v1(6) pn(3)] by simp
  then have "crepr False (m_named_nodes c2) (gheap c2) t1 n1" by (rule crepr_grow [OF _ v2(1,2)])
  then have t1: "crepr False (m_named_nodes c2') (gheap c2') t1 n1"
    unfolding m unfolding c2' add_child_def using crepr_write [OF _ pn(3)] by simp
  have t2: "crepr False (m_named_nodes c2') (gheap c2') t2 n2"
    unfolding m unfolding c2' add_child_def using crepr_write [OF v2(6) pn(4)] by simp
  have owned2: "ctx_owned c2' G2 = ctx_owned c2 G2" unfolding m ..
  have ad1: "set (addrs t1) \<subseteq> {Suc p..<length (gheap c1)}" and ad2: "set (addrs t2) \<subseteq> {length (gheap c1)..<length (gheap c2)}"
    using v1(7) v2(7) unfolding l0 l1 .
  have "context_inv c2' G2 D2" unfolding c2' add_child_def by (rule context_write [OF i2 pn(2)])
  moreover have "evaluated c G e c2' G2 (Branch p K [t1, t2]) p"
    unfolding evaluated_def owned2
  proof (intro conjI)
    show "length (gheap c) \<le> length (gheap c2')" using len l2 p by simp
    show "\<forall>x<length (gheap c). gheap c2' ! x = gheap c ! x"
      using v1(2) v2(2) len p l0 l1 by (simp add: c0 c1' c2' add_child_def nth_append)
    show "ctx_owned c2 G2 \<subseteq> ctx_owned c G \<union> {length (gheap c)..<length (gheap c2')}"
      using own len unfolding l2 p by fastforce
    show "dom (m_named_nodes c) \<subseteq> dom (m_named_nodes c2')"
      "dom (m_named_nodes c2') \<subseteq> dom (m_named_nodes c) \<union> rule_names e"
      using v1(4,5) v2(4,5) unfolding m e(4) by blast+
    show "crepr False (m_named_nodes c2') (gheap c2') (Branch p K [t1, t2]) p"
      using t1 t2 h3 K len l2 by simp
    show "set (addrs (Branch p K [t1, t2])) \<subseteq> {length (gheap c)..<length (gheap c2')}"
      using ad1 ad2 len unfolding l2 p by fastforce
    show "distinct (addrs (Branch p K [t1, t2]))"
      using v1(8) v2(8) pn ad1 ad2 by fastforce
    show "set (addrs (Branch p K [t1, t2])) \<inter> ctx_owned c2 G2 = {}"
      using pn v1(9) v2(9) own ad1 by fastforce
    show "\<forall>f. twords f (Branch p K [t1, t2]) = expr_words f e" using v1(10) v2(10) e(2) by simp
    show "refs (Branch p K [t1, t2]) = expr_refs e" using v1(11) v2(11) e(3) by simp
    show "refs (Branch p K [t1, t2]) \<subseteq> dom (m_named_nodes c2')"
      using v1(12) v2(4,12) unfolding m by auto
    show "is_compound e \<longleftrightarrow> (\<exists>a K' ts. Branch p K [t1, t2] = Branch a K' ts)" using e(1) by simp
  qed
  ultimately show ?thesis ..
qed

lemma crepr_rename:
  "crepr False M h t b \<Longrightarrow> n \<notin> set (addrs t) \<Longrightarrow> m_name (h ! n) = None \<Longrightarrow> crepr False M (rename_node n r h) t b"
proof (induction t arbitrary: b)
  case (Ref s)
  then have "b \<noteq> n" by auto
  then show ?case using Ref.prems by (simp add: rename_node_def)
next
  case (Branch a K ts)
  have l: "list_all2 (crepr False M h) ts (children (h ! a))" and a: "a \<noteq> n" using Branch.prems by auto
  have "list_all2 (crepr False M (rename_node n r h)) ts (children (h ! a))"
  proof (rule list.rel_mono_strong [OF l])
    fix t c assume "t \<in> set ts" "crepr False M h t c"
    then show "crepr False M (rename_node n r h) t c"
      by (rule Branch.IH) (use Branch.prems \<open>t \<in> set ts\<close> in auto)
  qed
  then show ?case using Branch.prems a by (simp add: rename_node_def)
qed

lemma creprs_rename:
  assumes "list_all2 (crepr False M h) ts bs" "n \<notin> set (concat (map addrs ts))" "m_name (h ! n) = None"
  shows "list_all2 (crepr False M (rename_node n r h)) ts bs"
  by (rule list.rel_mono_strong [OF assms(1)]) (rule crepr_rename, use assms in auto)

lemma graph_inv_rename:
  assumes inv: "graph_inv h M G {}" and n: "n \<notin> all_owned M G {}" "m_name (h ! n) = None"
  shows "graph_inv (rename_node n r h) M G {}"
proof -
  note i = graph_invD [OF inv]
  have a: "a \<noteq> n" if "M s = Some a" for s a using i(2) [OF that] n(2) by auto
  have "nrepr False M (rename_node n r h) b (G s)" if s: "M s = Some b" for s b
  proof (cases "G s")
    case None
    then show ?thesis using i(5) [OF s] a [OF s] by (simp add: nrepr_def rename_node_def)
  next
    case (Some q)
    obtain K ts where G: "G s = Some (K, ts)" using Some by (cases q) simp
    have "n \<notin> set (concat (map addrs ts))" using n(1) owned_in [of s "{}" M G] s G by (auto simp: owned_def)
    then have "list_all2 (crepr False M (rename_node n r h)) ts (children (h ! b))"
      using i(5) [OF s] G n(2) by (intro creprs_rename) (simp_all add: nrepr_def)
    then show ?thesis using i(5) [OF s] G a [OF s] by (simp add: nrepr_def rename_node_def)
  qed
  moreover have "rename_node n r h ! b = h ! b" "length (rename_node n r h) = length h" if "M s = Some b" for s b
    using a [OF that] by (simp_all add: rename_node_def)
  ultimately show ?thesis using i unfolding graph_inv_def by (auto simp: rename_node_def)
qed

lemma assign_evaluated:
  assumes i: "context_inv c1 G1 D1" and e: "evaluated c G e c1 G1 t n" and inv: "context_inv c G D"
    and ce: "is_compound e" and D: "D1 r = None"
    and c': "c' = c1\<lparr>gheap := rename_node n r (gheap c1), m_assigned_nodes := insert r (m_assigned_nodes c1),
      m_named_nodes := (m_named_nodes c1)(r \<mapsto> n)\<rparr>"
  shows "m_name (gheap c1 ! n) = None"
    "\<exists>G'. context_inv c' G' (D1(r \<mapsto> e)) \<and> evaluated c G (RuleAssign r e) c' G' (Ref r) n"
proof -
  note v = evaluatedD [OF e]
  obtain K ts where t: "t = Branch n K ts" using v(6,13) ce by auto
  let ?M = "m_named_nodes c1" and ?h = "rename_node n r (gheap c1)" and ?G = "G1(r := Some (K, ts))"
  have n: "n < length (gheap c1)" "K \<noteq> Terminal" "ts \<noteq> []" "obj_kind (gheap c1 ! n) = K"
    and l: "list_all2 (crepr False ?M (gheap c1)) ts (children (gheap c1 ! n))"
    using v(6) unfolding t by auto
  show name: "m_name (gheap c1 ! n) = None" using v(6) unfolding t by simp
  have nt: "n \<notin> set (concat (map addrs ts))" "distinct (concat (map addrs ts))" using v(8) unfolding t by auto
  have nown: "n \<notin> ctx_owned c1 G1" using v(9) unfolding t by auto
  have g: "graph_inv ?h ?M G1 {}" by (rule graph_inv_rename [OF context_invD(1) [OF i] nown name])
  have "nrepr False ?M ?h n (Some (K, ts))"
    using n creprs_rename [OF l nt(1) name, of r] by (simp add: nrepr_def rename_node_def)
  then have "graph_inv ?h (?M(r \<mapsto> n)) ?G {}"
  proof (rule graph_inv_add [OF g, rotated 2])
    show "set (n # baddrs (Some (K, ts))) \<inter> all_owned ?M G1 {r} = {}"
      using v(9) unfolding t by (auto simp: all_owned_def)
    show "brefs (Some (K, ts)) \<subseteq> insert r (dom ?M)" using v(12) unfolding t by auto
  qed (use n nt in \<open>simp_all add: rename_node_def\<close>)
  moreover have "bwords f (?G s) = grammar_words (D1(r \<mapsto> e)) s f" for f s
    using context_invD(3) [OF i, of f s] v(10) [of f] unfolding t by (simp add: grammar_words_def)
  moreover have "brefs (?G s) = grammar_succs (D1(r \<mapsto> e)) s" for s
    using context_invD(4) [OF i, of s] v(11) unfolding t by (simp add: grammar_succs_def)
  ultimately have ci: "context_inv c' ?G (D1(r \<mapsto> e))"
    using context_invD(2,5) [OF i] unfolding context_inv_def c' by simp
  have old: "gheap c' ! x = gheap c ! x" if "x < length (gheap c)" for x
  proof -
    have "x \<noteq> n" using that v(7) unfolding t by auto
    then show ?thesis using v(2) that by (simp add: c' rename_node_def)
  qed
  have "owned (?M(r \<mapsto> n)) ?G s \<subseteq> ctx_owned c1 G1 \<union> set (addrs t)" for s
    unfolding t by (auto simp: owned_def all_owned_def split: option.splits if_splits)
  then have own: "ctx_owned c' ?G \<subseteq> ctx_owned c G \<union> {length (gheap c)..<length (gheap c')}"
    using v(3,7) unfolding all_owned_def [of _ ?G] by (fastforce simp: c' rename_node_def)
  have "evaluated c G (RuleAssign r e) c' ?G (Ref r) n"
    unfolding evaluated_def using own old v(1,4,5) n(1) by (auto simp: c' rename_node_def)
  with ci show "\<exists>G'. context_inv c' G' (D1(r \<mapsto> e)) \<and> evaluated c G (RuleAssign r e) c' G' (Ref r) n" by blast
qed

lemma not_compound_named:
  assumes "evaluated c G e c' G' t n" "\<not> is_compound e"
  shows "m_name (gheap c' ! n) \<noteq> None"
  using evaluatedD(6,13) [OF assms(1)] assms(2) by (cases t) auto

lemma context_new_node:
  assumes "context_inv c G D" "new_node None K c = (p, c0)"
  shows "context_inv c0 G D" "p = length (gheap c)"
    "c0 = c\<lparr>gheap := gheap c @ [\<lparr>m_name = None, obj_kind = K, children = []\<rparr>]\<rparr>"
proof -
  show p: "p = length (gheap c)" and c0: "c0 = c\<lparr>gheap := gheap c @ [\<lparr>m_name = None, obj_kind = K, children = []\<rparr>]\<rparr>"
    using assms(2) by (auto simp: new_node_def)
  have "graph_inv (gheap c0) (m_named_nodes c) G {}"
    by (rule graph_inv_grow [OF context_invD(1) [OF assms(1)]]) (simp_all add: c0 nth_append)
  then show "context_inv c0 G D" using assms(1) by (simp add: context_inv_def c0)
qed

lemma nonterminal_ok:
  assumes inv: "context_inv c G D" and K: "K \<noteq> Terminal"
    and IH1: "\<And>c G. context_inv c G D \<Longrightarrow> if legal e1 D
      then \<exists>n c' G' t. ev1 c = Inr (n, c') \<and> context_inv c' G' (add_defs e1 D) \<and> evaluated c G e1 c' G' t n
      else ev1 c = Inl AssertionFailure"
    and IH2: "\<And>c G. context_inv c G (add_defs e1 D) \<Longrightarrow> if legal e2 (add_defs e1 D)
      then \<exists>n c' G' t. ev2 c = Inr (n, c') \<and> context_inv c' G' (add_defs e2 (add_defs e1 D)) \<and> evaluated c G e2 c' G' t n
      else ev2 c = Inl AssertionFailure"
    and e: "is_compound e" "\<And>f. expr_words f e = combine_words K (expr_words f e1) (expr_words f e2)"
      "expr_refs e = expr_refs e1 \<union> expr_refs e2" "rule_names e = rule_names e1 \<union> rule_names e2"
  shows "if legal e1 D \<and> legal e2 (add_defs e1 D)
    then \<exists>n c' G' t. eval_nonterminal K ev1 ev2 c = Inr (n, c') \<and>
      context_inv c' G' (add_defs e2 (add_defs e1 D)) \<and> evaluated c G e c' G' t n
    else eval_nonterminal K ev1 ev2 c = Inl AssertionFailure"
proof -
  obtain p c0 where nn: "new_node None K c = (p, c0)" by fastforce
  note c0 = context_new_node [OF inv nn]
  show ?thesis
  proof (cases "legal e1 D")
    case False
    then show ?thesis using IH1 [OF c0(1)] by (simp add: eval_nonterminal_def nn)
  next
    case True
    with IH1 [OF c0(1)] obtain n1 c1 G1 t1 where ev1: "ev1 c0 = Inr (n1, c1)"
      and i1: "context_inv c1 G1 (add_defs e1 D)" and v1: "evaluated c0 G e1 c1 G1 t1 n1" by auto
    let ?c1 = "c1\<lparr>gheap := add_child p n1 (gheap c1)\<rparr>"
    have "\<forall>x\<in>ctx_owned c G. x < p" using owned_below [OF context_invD(1) [OF inv]] c0(2) by simp
    then have "p \<notin> ctx_owned c1 G1" using evaluatedD(3) [OF v1] unfolding c0(3) by (auto simp: c0(2))
    then have i1': "context_inv ?c1 G1 (add_defs e1 D)" unfolding add_child_def by (rule context_write [OF i1])
    show ?thesis
    proof (cases "legal e2 (add_defs e1 D)")
      case False
      then show ?thesis using IH2 [OF i1'] ev1 by (simp add: eval_nonterminal_def nn Let_def)
    next
      case True
      with IH2 [OF i1'] obtain n2 c2 G2 t2 where ev2: "ev2 ?c1 = Inr (n2, c2)"
        and i2: "context_inv c2 G2 (add_defs e2 (add_defs e1 D))" and v2: "evaluated ?c1 G1 e2 c2 G2 t2 n2" by auto
      note r = nonterminal_evaluated [OF inv K c0(2,3) i1 v1 refl i2 v2 refl e]
      have "eval_nonterminal K ev1 ev2 c = Inr (p, c2\<lparr>gheap := add_child p n2 (gheap c2)\<rparr>)"
        using ev1 ev2 by (simp add: eval_nonterminal_def nn Let_def)
      then show ?thesis using r True \<open>legal e1 D\<close> by auto
    qed
  qed
qed

lemma eval_rule_ok:
  "context_inv c G D \<Longrightarrow> if legal e D
    then \<exists>n c' G' t. eval_rule e c = Inr (n, c') \<and> context_inv c' G' (add_defs e D) \<and> evaluated c G e c' G' t n
    else eval_rule e c = Inl AssertionFailure"
proof (induction e arbitrary: c G D)
  case (RuleTerm r)
  obtain n c' where n: "eval_terminal r c = (n, c')" by fastforce
  from eval_terminal_ok [OF RuleTerm n] show ?case using n by auto
next
  case (ShiftRight e1 e2)
  have "if legal e1 D \<and> legal e2 (add_defs e1 D)
    then \<exists>n c' G' t. eval_nonterminal Sequence (eval_rule e1) (eval_rule e2) c = Inr (n, c') \<and>
      context_inv c' G' (add_defs e2 (add_defs e1 D)) \<and> evaluated c G (ShiftRight e1 e2) c' G' t n
    else eval_nonterminal Sequence (eval_rule e1) (eval_rule e2) c = Inl AssertionFailure"
    by (rule nonterminal_ok [OF ShiftRight.prems _ ShiftRight.IH]) simp_all
  then show ?case by (simp only: legal.simps eval_rule.simps add_defs.simps)
next
  case (BitwiseOr e1 e2)
  have "if legal e1 D \<and> legal e2 (add_defs e1 D)
    then \<exists>n c' G' t. eval_nonterminal Selector (eval_rule e1) (eval_rule e2) c = Inr (n, c') \<and>
      context_inv c' G' (add_defs e2 (add_defs e1 D)) \<and> evaluated c G (BitwiseOr e1 e2) c' G' t n
    else eval_nonterminal Selector (eval_rule e1) (eval_rule e2) c = Inl AssertionFailure"
    by (rule nonterminal_ok [OF BitwiseOr.prems _ BitwiseOr.IH]) simp_all
  then show ?case by (simp only: legal.simps eval_rule.simps add_defs.simps)
next
  case (RuleAssign r e)
  show ?case
  proof (cases "legal e D")
    case False
    then show ?thesis using RuleAssign.IH [OF RuleAssign.prems] by simp
  next
    case True
    then obtain n c1 G1 t where ev: "eval_rule e c = Inr (n, c1)" and i: "context_inv c1 G1 (add_defs e D)"
      and v: "evaluated c G e c1 G1 t n" using RuleAssign.IH [OF RuleAssign.prems] by auto
    have assigned: "r \<in> m_assigned_nodes c1 \<longleftrightarrow> add_defs e D r \<noteq> None" using context_invD(5) [OF i] by auto
    show ?thesis
    proof (cases "is_compound e \<and> add_defs e D r = None")
      case False
      then show ?thesis using ev not_compound_named [OF v] assigned by (auto simp: eval_assign_def)
    next
      case ok: True
      then show ?thesis
        using assign_evaluated [OF i v RuleAssign.prems _ _ refl, of r] ev assigned True by (auto simp: eval_assign_def)
    qed
  qed
qed

lemma rule_context_call_ok:
  assumes "context_inv c G D"
  shows "if legal e D
    then \<exists>c' G'. rule_context_call e c = Inr c' \<and> context_inv c' G' (add_defs e D) \<and>
      dom (m_named_nodes c') \<subseteq> dom (m_named_nodes c) \<union> rule_names e
    else rule_context_call e c = Inl AssertionFailure"
  using eval_rule_ok [OF assms, of e] evaluatedD(5) by (fastforce simp: rule_context_call_def split: if_splits)

section \<open>The root\<close>

lemma same_meaning_context:
  assumes "context_inv c G D" "same_meaning G G'" "graph_inv h (m_named_nodes c) G' {}"
  shows "context_inv (c\<lparr>gheap := h\<rparr>) G' D"
  using assms by (simp add: context_inv_def same_meaning_def)

lemma trees_ok_Ref: "graph_inv h M G {} \<Longrightarrow> M r = Some p \<Longrightarrow> trees_ok M {} h G [Ref r] [p]"
  using graph_invD(1,2) [of h M G "{}" r p] by (auto simp: trees_ok_def)

text \<open>\<open>UpdateVisitor\<close> detects exactly the loops, and \<open>Executor\<close> runs exactly the words.\<close>

lemma update_root:
  assumes inv: "context_inv c G D" and p: "m_named_nodes c r = Some p"
  shows "\<exists>N res. (\<forall>k\<ge>N. update_accept k (m_named_nodes c) p (gheap c, {}) = Some res) \<and>
    visit_outcome (m_named_nodes c) {} (gheap c) G (Ref r) p res"
proof -
  note g = context_invD(1) [OF inv]
  have "updated_child (m_named_nodes c) (gheap c) p = p" using graph_invD(2) [OF g p] p by (simp add: updated_child_def)
  then show ?thesis
    using visit_all [OF graph_invD(4) [OF g], of "{}" "Ref r"] g trees_ok_Ref [OF g p] unfolding visit_ok_def by metis
qed

lemma succs_grammar: "context_inv c G D \<Longrightarrow> succs G = grammar_succs D"
  unfolding succs_def by (rule ext) (rule context_invD(4))

lemma context_finite:
  assumes "context_inv c G D"
  shows "finite (dom D)"
proof (rule finite_subset)
  note g = graph_invD [OF context_invD(1) [OF assms]]
  show "finite (dom (m_named_nodes c))" by (rule g(4))
  show "dom D \<subseteq> dom (m_named_nodes c)"
  proof
    fix s assume "s \<in> dom D"
    then have "G s \<noteq> None" using context_invD(2) [OF assms, of s] by auto
    then show "s \<in> dom (m_named_nodes c)" by (rule g(9))
  qed
qed

lemma exec_grammar:
  assumes inv: "context_inv c G D" and v: "visited (m_named_nodes c) {} K (gheap c) G [Ref r] h' G' [t'] [p]"
    and sf: "safe (grammar_succs D) {} r" and p: "m_named_nodes c r = Some p" and rules: "dom (m_named_nodes c) \<subseteq> dom rules"
  shows "\<exists>N ws. rule_words D r = Some ws \<and>
    (\<forall>k\<ge>N. obind (exec_accept k rules h' p p (Executor w)) (\<lambda>ex. Some (Inr (m_path_count ex, program ex))) =
      run_words rules ws (0, w))"
proof -
  note d = visitedD [OF v]
  have S: "succs G = grammar_succs D" "succs G' = grammar_succs D"
    using succs_grammar [OF inv] same_meaning_succs [OF d(2)] by simp_all
  have B: "(\<lambda>s f. bwords f (G' s)) = grammar_words D"
    using d(2) context_invD(3) [OF inv] by (simp add: same_meaning_def fun_eq_iff)
  have fin: "finite (dom D)" by (rule context_finite [OF inv])
  obtain ws where ws: "rule_words D r = Some ws" using rule_words_safe [OF fin] sf by auto
  then have w: "ref_words (Suc (card (dom D))) (\<lambda>s f. bwords f (G' s)) r = Some ws" unfolding B rule_words_def .
  let ?R = "{m. \<exists>t\<in>grammar_succs D r. (t, m) \<in> (edges (grammar_succs D))\<^sup>*}"
  have reach: "resolved (m_named_nodes c) h' G' m" if "(r, m) \<in> (edges (grammar_succs D))\<^sup>*" for m
    by (rule d(14) [of r]) (use that S in simp_all)
  have step: "(r, m) \<in> (edges (grammar_succs D))\<^sup>*" if "m \<in> ?R" for m
    using that by (auto simp: edges_def intro: converse_rtrancl_into_rtrancl)
  have R: "\<forall>m\<in>?R. resolved (m_named_nodes c) h' G' m \<and> succs G' m \<subseteq> ?R"
    using reach step unfolding S by (auto simp: edges_def intro: rtrancl_into_rtrancl)
  have "r \<notin> ?R"
  proof
    assume "r \<in> ?R"
    then obtain t where t: "t \<in> grammar_succs D r" "(t, r) \<in> (edges (grammar_succs D))\<^sup>*" by blast
    have "safe (grammar_succs D) (insert r {}) t" using sf t(1) by (subst (asm) safe_iff) simp
    from safe_avoids [OF this t(2)] show False by simp
  qed
  moreover have "succs G' r \<subseteq> ?R" unfolding S by auto
  moreover have "\<forall>s a. m_named_nodes c s = Some a \<longrightarrow> m_name (h' ! a) = Some s" using graph_invD(2) [OF d(1)] by blast
  ultimately show ?thesis
    using exec_root [OF w p reach [OF rtrancl.rtrancl_refl] R _ _ _ rules] ws by blast
qed

lemma update_graph_ok:
  assumes inv: "context_inv c G D" and p: "m_named_nodes c r = Some p"
  obtains N where "rule_words D r = None" "\<forall>k\<ge>N. update_graph k p c = Some (Inl AssertionFailure)"
  | N h' G' t' where "\<forall>k\<ge>N. update_graph k p c = Some (Inr (c\<lparr>gheap := h'\<rparr>))" "safe (grammar_succs D) {} r"
    "visited (m_named_nodes c) {} Sequence (gheap c) G [Ref r] h' G' [t'] [p]"
proof -
  obtain N res where N: "\<forall>k\<ge>N. update_accept k (m_named_nodes c) p (gheap c, {}) = Some res"
    and out: "visit_outcome (m_named_nodes c) {} (gheap c) G (Ref r) p res" using update_root [OF inv p] by blast
  have S: "succs G = grammar_succs D" by (rule succs_grammar [OF inv])
  show ?thesis
  proof (cases res)
    case (Inl x)
    then have "x = AssertionFailure" "rule_words D r = None"
      using out rule_words_safe [OF context_finite [OF inv], of r] by (auto simp: visit_outcome_def S)
    then show ?thesis using N Inl by (intro that(1) [of N]) (simp_all add: update_graph_def)
  next
    case (Inr hp)
    then obtain h' where h': "res = Inr (h', {})" using out by (cases hp) (auto simp: visit_outcome_def)
    obtain G' t' where v: "visited (m_named_nodes c) {} Sequence (gheap c) G [Ref r] h' G' [t'] [p]"
      and sf: "safe (grammar_succs D) {} r" using out unfolding h' visit_outcome_def S by auto
    show ?thesis by (rule that(2) [OF _ sf v, of N]) (use N h' in \<open>simp add: update_graph_def\<close>)
  qed
qed

lemma rooted:
  assumes inv: "context_inv c G D" and rules: "dom (m_named_nodes c) \<subseteq> S" "r \<in> S" and t: "eval_terminal r c = (p, c1)"
  shows "context_inv (c1\<lparr>m_root := x\<rparr>) G D" "context_inv c1 G D" "m_named_nodes c1 r = Some p" "dom (m_named_nodes c1) \<subseteq> S"
proof -
  note e = eval_terminal_ok [OF inv t]
  show "context_inv (c1\<lparr>m_root := x\<rparr>) G D" using e by (simp add: context_inv_def)
  show "context_inv c1 G D" "m_named_nodes c1 r = Some p" using e by simp_all
  show "dom (m_named_nodes c1) \<subseteq> S" using e rules evaluatedD(5) by fastforce
qed

definition root_result :: "'w rule_map \<Rightarrow> grammar \<Rightarrow> string \<Rightarrow> 'w \<Rightarrow> 'w run_result" where
  "root_result rules D r w = (case rule_words D r of
      None \<Rightarrow> Some (Inl AssertionFailure)
    | Some ws \<Rightarrow> obind (run_words rules ws (0, w)) (\<lambda>(n, w). Some (Inr w)))"

lemma run_root_ok:
  assumes inv: "context_inv c G D" and rules: "dom (m_named_nodes c) \<subseteq> dom rules" "r \<in> dom rules"
  shows "\<exists>N c' G'. context_inv c' G' D \<and> dom (m_named_nodes c') \<subseteq> dom rules \<and>
    (\<forall>k\<ge>N. run_root k rules r c w = obind (root_result rules D r w) (\<lambda>w. Some (Inr (c', w))))"
proof -
  obtain p c1 where t: "eval_terminal r c = (p, c1)" by fastforce
  let ?c = "c1\<lparr>m_root := Some p\<rparr>"
  note i = rooted(1) [OF inv rules t, of "Some p"]
  have p: "m_named_nodes ?c r = Some p" and dm: "dom (m_named_nodes ?c) \<subseteq> dom rules"
    using rooted(3,4) [OF inv rules t] by simp_all
  show ?thesis
  proof (rule update_graph_ok [OF i p])
    fix N assume "rule_words D r = None" and N: "\<forall>k\<ge>N. update_graph k p ?c = Some (Inl AssertionFailure)"
    then have "\<forall>k\<ge>N. run_root k rules r c w = obind (root_result rules D r w) (\<lambda>w. Some (Inr (?c, w)))"
      by (simp add: run_root_def t root_result_def)
    then show ?thesis using i dm by blast
  next
    fix N h' G' t' assume N: "\<forall>k\<ge>N. update_graph k p ?c = Some (Inr (?c\<lparr>gheap := h'\<rparr>))"
      and sf: "safe (grammar_succs D) {} r"
      and v: "visited (m_named_nodes ?c) {} Sequence (gheap ?c) G [Ref r] h' G' [t'] [p]"
    let ?c' = "?c\<lparr>gheap := h'\<rparr>"
    obtain N' ws where ws: "rule_words D r = Some ws" and N': "\<forall>k\<ge>N'.
        obind (exec_accept k rules h' p p (Executor w)) (\<lambda>ex. Some (Inr (m_path_count ex, program ex))) = run_words rules ws (0, w)"
      using exec_grammar [OF i v sf p dm] by blast
    have "run_root k rules r c w = obind (root_result rules D r w) (\<lambda>w. Some (Inr (?c', w)))" if k: "max N N' \<le> k" for k
    proof -
      have "run_root k rules r c w = obind (exec_accept k rules h' p p (Executor w)) (\<lambda>ex. Some (Inr (?c', program ex)))"
        using N k by (simp add: run_root_def t)
      also have "\<dots> = obind (obind (exec_accept k rules h' p p (Executor w)) (\<lambda>ex. Some (Inr (m_path_count ex, program ex))))
          (\<lambda>(n, w). Some (Inr (?c', w)))" by (simp add: obind_assoc)
      also have "\<dots> = obind (root_result rules D r w) (\<lambda>w. Some (Inr (?c', w)))"
        using N' k ws by (simp add: root_result_def obind_assoc case_prod_unfold)
      finally show ?thesis .
    qed
    moreover have "context_inv ?c' G' D" by (rule same_meaning_context [OF i visitedD(2,1) [OF v]])
    ultimately show ?thesis using dm by (intro exI [of _ "max N N'"] exI [of _ ?c'] exI [of _ G']) simp
  qed
qed

lemma print_ok:
  assumes inv: "context_inv c G D" and rules: "dom (m_named_nodes c) \<subseteq> S" "r \<in> S"
  shows "\<exists>N c' G'. context_inv c' G' D \<and> dom (m_named_nodes c') \<subseteq> S \<and>
    (\<forall>k\<ge>N. print_dot_graph k r c = Some (if rule_words D r = None then Inl AssertionFailure else Inr c'))"
proof -
  obtain p c1 where t: "eval_terminal r c = (p, c1)" by fastforce
  note i = rooted(2) [OF inv rules t] and p = rooted(3) [OF inv rules t] and dm = rooted(4) [OF inv rules t]
  show ?thesis
  proof (rule update_graph_ok [OF i p])
    fix N assume "rule_words D r = None" "\<forall>k\<ge>N. update_graph k p c1 = Some (Inl AssertionFailure)"
    then show ?thesis using i dm by (intro exI [of _ N] exI [of _ c1] exI [of _ G]) (simp add: print_dot_graph_def t)
  next
    fix N h' G' t' assume N: "\<forall>k\<ge>N. update_graph k p c1 = Some (Inr (c1\<lparr>gheap := h'\<rparr>))"
      and sf: "safe (grammar_succs D) {} r"
      and v: "visited (m_named_nodes c1) {} Sequence (gheap c1) G [Ref r] h' G' [t'] [p]"
    have "context_inv (c1\<lparr>gheap := h'\<rparr>) G' D" by (rule same_meaning_context [OF i visitedD(2,1) [OF v]])
    moreover obtain ws where "rule_words D r = Some ws" using rule_words_safe [OF context_finite [OF inv]] sf by blast
    ultimately show ?thesis using N dm
      by (intro exI [of _ N] exI [of _ "c1\<lparr>gheap := h'\<rparr>"] exI [of _ G']) (simp add: print_dot_graph_def t)
  qed
qed

section \<open>Programs over a context\<close>

datatype context_op = Call rule_expr | Root string | Dot string

fun run_context :: "nat \<Rightarrow> 'w rule_map \<Rightarrow> context_op list \<Rightarrow> rule_context \<Rightarrow> 'w \<Rightarrow> 'w run_result" where
  "run_context k rules [] c w = Some (Inr w)"
| "run_context k rules (Call e # ops) c w = (case rule_context_call e c of
      Inl x \<Rightarrow> Some (Inl x)
    | Inr c \<Rightarrow> run_context k rules ops c w)"
| "run_context k rules (Root r # ops) c w = obind (run_root k rules r c w) (\<lambda>(c, w). run_context k rules ops c w)"
| "run_context k rules (Dot r # ops) c w = obind (print_dot_graph k r c) (\<lambda>c. run_context k rules ops c w)"

fun run_grammar :: "'w rule_map \<Rightarrow> context_op list \<Rightarrow> grammar \<Rightarrow> 'w \<Rightarrow> 'w run_result" where
  "run_grammar rules [] D w = Some (Inr w)"
| "run_grammar rules (Call e # ops) D w =
     (if legal e D then run_grammar rules ops (add_defs e D) w else Some (Inl AssertionFailure))"
| "run_grammar rules (Root r # ops) D w = obind (root_result rules D r w) (run_grammar rules ops D)"
| "run_grammar rules (Dot r # ops) D w =
     (if rule_words D r = None then Some (Inl AssertionFailure) else run_grammar rules ops D w)"

fun op_names :: "context_op \<Rightarrow> string set" where
  "op_names (Call e) = rule_names e"
| "op_names (Root r) = {r}"
| "op_names (Dot r) = {r}"

lemma run_context_grammar:
  assumes "context_inv c G D" "dom (m_named_nodes c) \<subseteq> dom rules" "\<Union> (op_names ` set ops) \<subseteq> dom rules"
  shows "\<exists>N. \<forall>k\<ge>N. run_context k rules ops c w = run_grammar rules ops D w"
  using assms
proof (induction ops arbitrary: c G D w)
  case (Cons op ops)
  show ?case
  proof (cases op)
    case (Call e)
    show ?thesis
    proof (cases "legal e D")
      case True
      then obtain c' G' where c': "rule_context_call e c = Inr c'" "context_inv c' G' (add_defs e D)"
          "dom (m_named_nodes c') \<subseteq> dom (m_named_nodes c) \<union> rule_names e"
        using rule_context_call_ok [OF Cons.prems(1), of e] by auto
      have "rule_names e \<subseteq> dom rules" using Cons.prems(3) Call by simp
      then have "dom (m_named_nodes c') \<subseteq> dom rules" using c'(3) Cons.prems(2) by blast
      from Cons.IH [OF c'(2) this] Cons.prems(3) show ?thesis using c'(1) Call True by simp
    qed (use rule_context_call_ok [OF Cons.prems(1), of e] Call in simp)
  next
    case (Root r)
    have r: "r \<in> dom rules" using Cons.prems(3) Root by simp
    obtain N c' G' where c': "context_inv c' G' D" "dom (m_named_nodes c') \<subseteq> dom rules"
      and N: "\<forall>k\<ge>N. run_root k rules r c w = obind (root_result rules D r w) (\<lambda>w. Some (Inr (c', w)))"
      using run_root_ok [OF Cons.prems(1,2) r] by blast
    show ?thesis
    proof (cases "\<exists>w'. root_result rules D r w = Some (Inr w')")
      case True
      then obtain w' where w': "root_result rules D r w = Some (Inr w')" by blast
      obtain N' where "\<forall>k\<ge>N'. run_context k rules ops c' w' = run_grammar rules ops D w'"
        using Cons.IH [OF c'] Cons.prems(3) by fastforce
      then show ?thesis using N w' Root by (intro exI [of _ "max N N'"]) simp
    next
      case False
      then consider "root_result rules D r w = None" | x where "root_result rules D r w = Some (Inl x)"
        by (metis option.exhaust sum.exhaust)
      then show ?thesis using N Root by cases (auto intro: exI [of _ N])
    qed
  next
    case (Dot r)
    have r: "r \<in> dom rules" using Cons.prems(3) Dot by simp
    obtain N c' G' where c': "context_inv c' G' D" "dom (m_named_nodes c') \<subseteq> dom rules" and N: "\<forall>k\<ge>N.
        print_dot_graph k r c = Some (if rule_words D r = None then Inl AssertionFailure else Inr c')"
      using print_ok [OF Cons.prems(1,2) r] by blast
    obtain N' where "\<forall>k\<ge>N'. run_context k rules ops c' w = run_grammar rules ops D w"
      using Cons.IH [OF c'] Cons.prems(3) by fastforce
    then show ?thesis using N Dot by (intro exI [of _ "max N N'"]) simp
  qed
qed simp

section \<open>Properties\<close>

lemma context_inv_empty: "context_inv RuleContext (\<lambda>s. None) Map.empty"
  by (simp add: context_inv_def graph_inv_def RuleContext_def owned_def grammar_words_def grammar_succs_def)

text \<open>C14: A rule context runs its grammar. For every sequence of calls that define rules and of roots that run
  them, with enough fuel for the visitors, the program over the context does what the definitions say: a call
  fails exactly when it assigns a rule a second time or assigns it a bare rule; a root fails exactly when the
  rule leads into a loop, as does printing its graph; otherwise the words the grammar derives from the root are run one after the other,
  each with all entry, main and exit actions in order and again until all random objects on it are covered,
  and the program does not return exactly when one of these repetitions does not.\<close>
theorem rule_graph_runs_grammar:
  assumes "\<Union> (op_names ` set ops) \<subseteq> dom rules"
  shows "\<exists>N. \<forall>k\<ge>N. run_context k rules ops RuleContext w = run_grammar rules ops Map.empty w"
  by (rule run_context_grammar [OF context_inv_empty _ assms]) (simp add: RuleContext_def)

definition log_rule :: "string \<Rightarrow> string list rule" where
  "log_rule s = \<lparr>entry = None, main = Some (\<lambda>w. Inr (w @ [s])), exit_action = None, m_rand_obj = None\<rparr>"

definition log_rules :: "string list rule_map" where
  "log_rules = (\<lambda>s. Some (log_rule s))"

lemma log_events: "event_action log_rules (s, Entry) = None" "event_action log_rules (s, Exit) = None"
  "event_action log_rules (s, Main) = Some (\<lambda>w. Inr (w @ [s]))" "event_rule log_rules (s, Entry) = None"
  "event_rule log_rules (s, Exit) = None" "event_rule log_rules (s, Main) = Some (log_rule s)"
  by (simp_all add: event_action_def event_rule_def log_rules_def log_rule_def)

lemma log_covered: "is_rand_obj_covered (log_rule s) w" "reset_coverage (log_rule s) = id"
  by (simp_all add: is_rand_obj_covered_def reset_coverage_def log_rule_def fun_eq_iff)

lemma repeat_once: "act w = Inr w' \<Longrightarrow> cov w' \<Longrightarrow> repeat_path act cov w = Some (Inr w')"
  by (subst repeat_path.simps) simp

definition demo_ops :: "context_op list" where
  "demo_ops = [Call (RuleAssign ''a'' (BitwiseOr (RuleTerm ''b'') (RuleTerm ''c''))),
     Call (RuleAssign ''c'' (ShiftRight (RuleTerm ''d'') (RuleTerm ''b''))), Root ''a'']"

lemma demo_grammar: "run_grammar log_rules demo_ops Map.empty [] = Some (Inr [''a'', ''b'', ''a'', ''c'', ''d'', ''b''])"
  by (simp add: demo_ops_def root_result_def rule_words_def grammar_words_def wrap_def run_word_def
    List.map_filter_simps log_events log_covered repeat_once)

theorem rule_graph_runs_grammar_witness:
  "\<exists>N. \<forall>k\<ge>N. run_context k log_rules demo_ops RuleContext [] = Some (Inr [''a'', ''b'', ''a'', ''c'', ''d'', ''b''])"
proof -
  have "\<Union> (op_names ` set demo_ops) \<subseteq> dom log_rules" by (auto simp: log_rules_def)
  from rule_graph_runs_grammar [OF this, of "[]"] show ?thesis unfolding demo_grammar .
qed
end
