(* ===== verification/WidthMeaning.thy ===== *)
theory WidthMeaning
  imports MetaSem FixWidth
begin

text \<open>
  What the width pass is for: the user writes operators over operands of different widths, the solver wants
  equal ones. The meaning of the user's expression reads every operand as the integer it denotes at its own
  width; the pass makes an expression with the same meaning in the solver's semantics (\<open>MetaSem\<close>).
\<close>

section \<open>The meaning of expressions of mixed widths\<close>






section \<open>Extending an operand keeps its number\<close>


lemma int_bits_0 [simp]: "int_bits 0 k = []" by (simp add: int_bits_def)










section \<open>The pass keeps the meaning\<close>











end
