(* ===== verification/CrvObject.thy ===== *)
theory CrvObject
  imports Crave_Prelude "HOL-Library.AList"
begin

text \<open>
  The hierarchy of objects of the new interface (\<open>experimental/Object.hpp\<close>, \<open>Object.cpp\<close>). An object gets its
  name and its parent without arguments: the object for its name registers itself on a stack of names, the
  constructor of \<open>crv_object\<close> takes the name on top, takes the object on top of the stack of objects for its
  parent and puts itself on that stack, and the end of the life of the name takes it off again. So members,
  which are constructed in between, become children. Objects and names are numbered in the order of their
  construction; object 0 is the root. The kind of an object (its class and what that adds) is a parameter.
\<close>

section \<open>Objects and stacks\<close>

record object_name =
  on_name :: string
  on_object :: "nat option"

record 'k crv_object =
  crv_name :: string
  orig_name :: string
  crv_parent :: "nat option"
  children :: "nat list"
  fullname :: string
  local_name_map :: "string \<rightharpoonup> 32 word"
  crv_kind :: 'k

text \<open>The back of a stack is the end of its list.\<close>

record 'k world =
  name_objs :: "object_name list"
  name_stack :: "nat list"
  obj_stack :: "nat list"
  obj_map :: "(string \<times> nat) list"
  objs :: "'k crv_object list"

definition new_world :: "'k \<Rightarrow> 'k world" where
  "new_world k = \<lparr>name_objs = [], name_stack = [], obj_stack = [], obj_map = [],
     objs = [\<lparr>crv_name = ''root'', orig_name = ''root'', crv_parent = None, children = [], fullname = ''root'',
       local_name_map = Map.empty, crv_kind = k\<rparr>]\<rparr>"

fun to_string :: "nat \<Rightarrow> string" where
  "to_string n = (if n < 10 then [] else to_string (n div 10)) @ [char_of (48 + n mod 10)]"

declare to_string.simps [simp del]

definition crv_object_name :: "string \<Rightarrow> 'k world \<Rightarrow> nat \<times> 'k world" where
  "crv_object_name c W =
     (let p = length (name_objs W)
      in (p, W\<lparr>name_objs := name_objs W @ [\<lparr>on_name = c, on_object = None\<rparr>], name_stack := name_stack W @ [p]\<rparr>))"

definition delete_object_name :: "nat \<Rightarrow> 'k world \<Rightarrow> 'k world result" where
  "delete_object_name p W =
     (case on_object (name_objs W ! p) of
        None \<Rightarrow> Inr W
      | Some a \<Rightarrow> if obj_stack W = [] then Inl AssertionFailure
                  else if last (obj_stack W) \<noteq> a then Inl AssertionFailure
                  else Inr (W\<lparr>obj_stack := butlast (obj_stack W), name_objs := (name_objs W)[p := (name_objs W ! p)\<lparr>on_object := None\<rparr>]\<rparr>))"

definition bump :: "string \<Rightarrow> (string \<rightharpoonup> 32 word) \<Rightarrow> (string \<rightharpoonup> 32 word)" where
  "bump n lm = lm(n \<mapsto> (case lm n of None \<Rightarrow> 1 | Some c \<Rightarrow> c + 1))"

definition local_name :: "(string \<rightharpoonup> 32 word) \<Rightarrow> string \<Rightarrow> string" where
  "local_name lm n = (case lm n of None \<Rightarrow> n | Some c \<Rightarrow> n @ to_string (unat c))"

definition register_child :: "nat \<Rightarrow> string \<Rightarrow> 'k crv_object \<Rightarrow> 'k crv_object" where
  "register_child a n ob = ob\<lparr>children := children ob @ [a], local_name_map := bump n (local_name_map ob)\<rparr>"

definition current_parent :: "'k world \<Rightarrow> nat" where
  "current_parent W = (if obj_stack W \<noteq> [] then last (obj_stack W) else 0)"

definition name_prefix :: "'k world \<Rightarrow> string" where
  "name_prefix W = concat (map (\<lambda>i. crv_name (objs W ! i) @ ''.'') (obj_stack W))"

definition construct_crv_object :: "'k \<Rightarrow> 'k world \<Rightarrow> (nat \<times> 'k world) result" where
  "construct_crv_object k W =
     (if name_stack W = [] then Inl AssertionFailure
      else let p = last (name_stack W);
               a = length (objs W);
               par = current_parent W;
               n = on_name (name_objs W ! p);
               nm = local_name (local_name_map (objs W ! par)) n;
               full = name_prefix W @ nm;
               ob = \<lparr>crv_name = nm, orig_name = n, crv_parent = Some par, children = [], fullname = full,
                     local_name_map = Map.empty, crv_kind = k\<rparr>
           in Inr (a, W\<lparr>name_objs := (name_objs W)[p := (name_objs W ! p)\<lparr>on_object := Some a\<rparr>],
                objs := (objs W)[par := register_child a n (objs W ! par)] @ [ob], obj_map := AList.update full a (obj_map W),
                obj_stack := obj_stack W @ [a], name_stack := butlast (name_stack W)\<rparr>))"

definition remove_child :: "nat \<Rightarrow> 'k crv_object \<Rightarrow> 'k crv_object \<Rightarrow> 'k crv_object" where
  "remove_child c child ob =
     (let k = (case local_name_map ob (orig_name child) of Some x \<Rightarrow> x | None \<Rightarrow> 0) - 1;
          lm = (local_name_map ob)(orig_name child \<mapsto> k)
      in ob\<lparr>children := removeAll c (children ob), local_name_map := (if k = 0 then lm(crv_name child := None) else lm)\<rparr>)"

definition delete_object :: "nat \<Rightarrow> 'k world \<Rightarrow> 'k world" where
  "delete_object a W =
     (let W' = (case crv_parent (objs W ! a) of
                  None \<Rightarrow> W
                | Some p \<Rightarrow> W\<lparr>objs := (objs W)[p := remove_child a (objs W ! a) (objs W ! p),
                                               a := (objs W ! a)\<lparr>crv_parent := None\<rparr>]\<rparr>)
      in W'\<lparr>obj_map := AList.delete (fullname (objs W ! a)) (obj_map W')\<rparr>)"

text \<open>The copy constructor: a copy has no parent, and is not found by name.\<close>

definition copy_object :: "nat \<Rightarrow> 'k \<Rightarrow> 'k world \<Rightarrow> nat \<times> 'k world" where
  "copy_object a k W = (length (objs W),
     W\<lparr>objs := objs W @ [(objs W ! a)\<lparr>crv_parent := None, children := [], local_name_map := Map.empty, crv_kind := k\<rparr>]\<rparr>)"

definition object_count :: "'k world \<Rightarrow> nat" where
  "object_count W = length (obj_map W)"

definition find_object :: "string \<Rightarrow> 'k world \<Rightarrow> nat option" where
  "find_object name W = map_of (obj_map W) name"

section \<open>Construction of a declared object\<close>

text \<open>
  A class with members: the name object lives from before the constructor of the class until after it, and
  the members are constructed after the base class \<open>crv_object\<close>, in the order of their declaration.
\<close>

datatype 'k decl = Decl (decl_name: string) (decl_kind: 'k) (members: "'k decl list")

fun construct :: "'k decl \<Rightarrow> 'k world \<Rightarrow> (nat \<times> 'k world) result"
  and construct_all :: "'k decl list \<Rightarrow> 'k world \<Rightarrow> 'k world result" where
  "construct (Decl n k ds) W =
     (case crv_object_name n W of (p, W) \<Rightarrow>
      rbind (construct_crv_object k W) (\<lambda>(a, W).
      rbind (construct_all ds W) (\<lambda>W.
      rbind (delete_object_name p W) (\<lambda>W. Inr (a, W)))))"
| "construct_all [] W = Inr W"
| "construct_all (d # ds) W = rbind (construct d W) (\<lambda>(a, W). construct_all ds W)"

section \<open>What is constructed\<close>

fun decl_size :: "'k decl \<Rightarrow> nat" and decls_size :: "'k decl list \<Rightarrow> nat" where
  "decl_size (Decl n k ds) = Suc (decls_size ds)"
| "decls_size [] = 0"
| "decls_size (d # ds) = decl_size d + decls_size ds"

fun starts :: "nat \<Rightarrow> 'k decl list \<Rightarrow> nat list" where
  "starts a [] = []"
| "starts a (d # ds) = a # starts (a + decl_size d) ds"

text \<open>The objects of a declaration in memory, the first one at \<open>a\<close>.\<close>

fun layout :: "string \<Rightarrow> nat \<Rightarrow> nat \<Rightarrow> string \<Rightarrow> 'k decl \<Rightarrow> 'k crv_object list"
  and layouts :: "string \<Rightarrow> nat \<Rightarrow> nat \<Rightarrow> (string \<rightharpoonup> 32 word) \<Rightarrow> 'k decl list \<Rightarrow> 'k crv_object list" where
  "layout pre p a nm (Decl n k ds) =
     \<lparr>crv_name = nm, orig_name = n, crv_parent = Some p, children = starts (Suc a) ds, fullname = pre @ nm,
      local_name_map = fold bump (map decl_name ds) Map.empty, crv_kind = k\<rparr> # layouts (pre @ nm @ ''.'') a (Suc a) Map.empty ds"
| "layouts pre p a lm [] = []"
| "layouts pre p a lm (d # ds) =
     layout pre p a (local_name lm (decl_name d)) d @ layouts pre p (a + decl_size d) (bump (decl_name d) lm) ds"

fun register :: "nat \<Rightarrow> 'k crv_object list \<Rightarrow> (string \<times> nat) list \<Rightarrow> (string \<times> nat) list" where
  "register a [] m = m"
| "register a (ob # obs) m = register (Suc a) obs (AList.update (fullname ob) a m)"

fun used_names :: "'k decl \<Rightarrow> object_name list" and used_names_all :: "'k decl list \<Rightarrow> object_name list" where
  "used_names (Decl n k ds) = \<lparr>on_name = n, on_object = None\<rparr> # used_names_all ds"
| "used_names_all [] = []"
| "used_names_all (d # ds) = used_names d @ used_names_all ds"

lemma layout_length [simp]:
  fixes d :: "'k decl" and ds :: "'k decl list"
  shows "length (layout pre p a nm d) = decl_size d"
  "length (layouts pre p a lm ds) = decls_size ds"
  by (induction pre p a nm d and pre p a lm ds rule: layout_layouts.induct) simp_all

lemma register_append: "register a (obs @ obs') m = register (a + length obs) obs' (register a obs m)"
  by (induction obs arbitrary: a m) simp_all

definition adopt :: "nat \<Rightarrow> 'k decl list \<Rightarrow> 'k crv_object \<Rightarrow> 'k crv_object" where
  "adopt a ds ob = ob\<lparr>children := children ob @ starts a ds, local_name_map := fold bump (map decl_name ds) (local_name_map ob)\<rparr>"

definition built_world :: "'k decl list \<Rightarrow> 'k world \<Rightarrow> 'k world" where
  "built_world ds W =
     (let p = current_parent W; a = length (objs W);
          new = layouts (name_prefix W) p a (local_name_map (objs W ! p)) ds
      in W\<lparr>name_objs := name_objs W @ used_names_all ds, objs := (objs W)[p := adopt a ds (objs W ! p)] @ new,
           obj_map := register a new (obj_map W)\<rparr>)"

definition world_ok :: "'k world \<Rightarrow> bool" where
  "world_ok W \<longleftrightarrow> objs W \<noteq> [] \<and> (\<forall>a\<in>set (obj_stack W). a < length (objs W))"

lemma current_parent_less: "world_ok W \<Longrightarrow> current_parent W < length (objs W)"
  by (auto simp: world_ok_def current_parent_def)

section \<open>Construction builds the layout\<close>

lemma starts_append: "starts a (ds @ es) = starts a ds @ starts (a + decls_size ds) es"
  by (induction ds arbitrary: a) (simp_all add: add.assoc)

lemma decls_size_append: "decls_size (ds @ es) = decls_size ds + decls_size es"
  by (induction ds) simp_all

lemma layouts_append:
  "layouts pre p a lm (ds @ es) = layouts pre p a lm ds @ layouts pre p (a + decls_size ds) (fold bump (map decl_name ds) lm) es"
  by (induction ds arbitrary: a lm) (simp_all add: add.assoc)

lemma used_names_append: "used_names_all (ds @ es) = used_names_all ds @ used_names_all es"
  by (induction ds) simp_all

lemma adopt_append: "adopt a (ds @ es) ob = adopt (a + decls_size ds) es (adopt a ds ob)"
  by (simp add: adopt_def starts_append)

lemma built_fields:
  "obj_stack (built_world ds W) = obj_stack W" "name_stack (built_world ds W) = name_stack W" "current_parent (built_world ds W) = current_parent W"
  "name_objs (built_world ds W) = name_objs W @ used_names_all ds"
  by (simp_all add: built_world_def current_parent_def Let_def)

lemma name_prefix_cong:
  "obj_stack V = obj_stack W \<Longrightarrow> (\<And>i. i \<in> set (obj_stack W) \<Longrightarrow> crv_name (objs V ! i) = crv_name (objs W ! i)) \<Longrightarrow> name_prefix V = name_prefix W"
  unfolding name_prefix_def by (intro arg_cong [where f = concat] map_cong) simp_all

lemma name_kept: "i < length xs \<Longrightarrow> crv_name x = crv_name (xs ! p) \<Longrightarrow> crv_name ((xs[p := x] @ ys) ! i) = crv_name (xs ! i)"
  by (cases "i = p") (simp_all add: nth_append)

lemma built_prefix:
  assumes "world_ok W"
  shows "name_prefix (built_world ds W) = name_prefix W"
proof (rule name_prefix_cong)
  show "crv_name (objs (built_world ds W) ! i) = crv_name (objs W ! i)" if "i \<in> set (obj_stack W)" for i
    using assms that name_kept [of i "objs W"] by (simp add: built_world_def Let_def world_ok_def adopt_def)
qed (simp add: built_fields)

text \<open>Two groups of children one after the other.\<close>

lemma built_append:
  assumes ok: "world_ok W"
  shows "built_world (ds @ es) W = built_world es (built_world ds W)"
proof -
  let ?p = "current_parent W"
  have p: "?p < length (objs W)" by (rule current_parent_less [OF ok])
  have objs: "objs (built_world ds W) = (objs W)[?p := adopt (length (objs W)) ds (objs W ! ?p)] @
      layouts (name_prefix W) ?p (length (objs W)) (local_name_map (objs W ! ?p)) ds"
    by (simp add: built_world_def Let_def)
  have par: "objs (built_world ds W) ! ?p = adopt (length (objs W)) ds (objs W ! ?p)" using p by (simp add: objs nth_append)
  have lm: "local_name_map (adopt a ds ob) = fold bump (map decl_name ds) (local_name_map ob)" for a and ob :: "'a crv_object"
    by (simp add: adopt_def)
  have "built_world es (built_world ds W) = (built_world ds W)\<lparr>name_objs := name_objs (built_world ds W) @ used_names_all es,
      objs := (objs (built_world ds W))[?p := adopt (length (objs W) + decls_size ds) es (adopt (length (objs W)) ds (objs W ! ?p))] @
        layouts (name_prefix W) ?p (length (objs W) + decls_size ds) (fold bump (map decl_name ds) (local_name_map (objs W ! ?p))) es,
      obj_map := register (length (objs W) + decls_size ds)
        (layouts (name_prefix W) ?p (length (objs W) + decls_size ds) (fold bump (map decl_name ds) (local_name_map (objs W ! ?p))) es)
        (obj_map (built_world ds W))\<rparr>"
    unfolding built_world_def [of es] Let_def built_fields built_prefix [OF ok] par lm by (simp add: objs)
  also have "\<dots> = built_world (ds @ es) W"
    using p by (simp add: built_world_def Let_def used_names_append layouts_append adopt_append register_append list_update_append)
  finally show ?thesis by (rule sym)
qed

lemma built_ok: "world_ok W \<Longrightarrow> world_ok (built_world ds W)"
  by (auto simp: world_ok_def built_world_def Let_def)

text \<open>After the name and the base class of one object.\<close>

definition new_object :: "string \<Rightarrow> 'k \<Rightarrow> 'k world \<Rightarrow> 'k crv_object" where
  "new_object n k W = (let nm = local_name (local_name_map (objs W ! current_parent W)) n
     in \<lparr>crv_name = nm, orig_name = n, crv_parent = Some (current_parent W), children = [],
          fullname = name_prefix W @ nm, local_name_map = Map.empty, crv_kind = k\<rparr>)"

definition entered :: "string \<Rightarrow> 'k \<Rightarrow> 'k world \<Rightarrow> 'k world" where
  "entered n k W = W\<lparr>name_objs := name_objs W @ [\<lparr>on_name = n, on_object = Some (length (objs W))\<rparr>],
    objs := (objs W)[current_parent W := register_child (length (objs W)) n (objs W ! current_parent W)] @ [new_object n k W],
    obj_map := AList.update (fullname (new_object n k W)) (length (objs W)) (obj_map W), obj_stack := obj_stack W @ [length (objs W)]\<rparr>"

lemma constructor_enters:
  assumes ok: "world_ok W" and W1: "crv_object_name n W = (q, W1)"
  shows "construct_crv_object k W1 = Inr (length (objs W), entered n k W)" and "q = length (name_objs W)"
proof -
  have W1': "W1 = W\<lparr>name_objs := name_objs W @ [\<lparr>on_name = n, on_object = None\<rparr>], name_stack := name_stack W @ [length (name_objs W)]\<rparr>"
    "q = length (name_objs W)"
    using W1 by (auto simp: crv_object_name_def Let_def)
  have same: "current_parent W1 = current_parent W" "name_prefix W1 = name_prefix W"
    by (simp_all add: W1'(1) current_parent_def name_prefix_def)
  show "q = length (name_objs W)" by (rule W1'(2))
  show "construct_crv_object k W1 = Inr (length (objs W), entered n k W)"
    unfolding construct_crv_object_def Let_def same entered_def new_object_def by (simp add: W1'(1))
qed

lemma entered_fields:
  assumes ok: "world_ok W"
  shows "world_ok (entered n k W)" and "current_parent (entered n k W) = length (objs W)"
    and "name_prefix (entered n k W) = name_prefix W @ crv_name (new_object n k W) @ ''.''"
    and "objs (entered n k W) ! length (objs W) = new_object n k W"
proof -
  let ?W = "entered n k W" and ?a = "length (objs W)"
  show "world_ok ?W" using ok by (auto simp: world_ok_def entered_def less_Suc_eq)
  show "current_parent ?W = ?a" by (simp add: current_parent_def entered_def)
  show ob: "objs ?W ! ?a = new_object n k W" by (simp add: entered_def nth_append)
  have "crv_name (objs ?W ! i) = crv_name (objs W ! i)" if "i \<in> set (obj_stack W)" for i
    using ok that name_kept [of i "objs W"] by (simp add: world_ok_def entered_def register_child_def)
  then have pre: "concat (map (\<lambda>i. crv_name (objs ?W ! i) @ ''.'') (obj_stack W)) = name_prefix W"
    unfolding name_prefix_def by (intro arg_cong [where f = concat] map_cong) simp_all
  have "obj_stack ?W = obj_stack W @ [?a]" by (simp add: entered_def)
  then show "name_prefix ?W = name_prefix W @ crv_name (new_object n k W) @ ''.''"
    unfolding name_prefix_def [of ?W] by (simp add: pre ob)
qed

lemma construct_built:
  fixes d :: "'k decl" and ds :: "'k decl list"
  shows "world_ok W \<Longrightarrow> construct d W = Inr (length (objs W), built_world [d] W)"
    and "world_ok W \<Longrightarrow> construct_all ds W = Inr (built_world ds W)"
proof (induction d W and ds W rule: construct_construct_all.induct)
  case (1 n k ds W)
  obtain q W1 where W1: "crv_object_name n W = (q, W1)" by fastforce
  note enter = constructor_enters(1) [OF 1(2) W1, of k] constructor_enters(2) [OF 1(2) W1]
  let ?W2 = "entered n k W" and ?a = "length (objs W)" and ?ob = "new_object n k W" and ?par = "current_parent W"
  note f = entered_fields [OF 1(2), of n k]
  have all: "construct_all ds ?W2 = Inr (built_world ds ?W2)" by (rule 1(1) [OF W1 [symmetric] enter(1) refl f(1)])
  let ?new = "layouts (name_prefix W @ crv_name ?ob @ ''.'') ?a (Suc ?a) Map.empty ds"
  have lm: "local_name_map ?ob = Map.empty" by (simp add: new_object_def Let_def)
  have b: "built_world ds ?W2 = ?W2\<lparr>name_objs := name_objs W @ \<lparr>on_name = n, on_object = Some ?a\<rparr> # used_names_all ds,
      objs := (objs W)[?par := register_child ?a n (objs W ! ?par)] @ adopt (Suc ?a) ds ?ob # ?new,
      obj_map := register (Suc ?a) ?new (AList.update (fullname ?ob) ?a (obj_map W))\<rparr>"
    unfolding built_world_def Let_def f(2-4) lm by (simp add: entered_def list_update_append)
  have "delete_object_name q (built_world ds ?W2) = Inr (W\<lparr>name_objs := name_objs W @ \<lparr>on_name = n, on_object = None\<rparr> # used_names_all ds,
      objs := (objs W)[?par := register_child ?a n (objs W ! ?par)] @ adopt (Suc ?a) ds ?ob # ?new,
      obj_map := register (Suc ?a) ?new (AList.update (fullname ?ob) ?a (obj_map W))\<rparr>)"
    unfolding b enter(2) delete_object_name_def by (simp add: entered_def nth_append)
  also have "W\<lparr>name_objs := name_objs W @ \<lparr>on_name = n, on_object = None\<rparr> # used_names_all ds,
      objs := (objs W)[?par := register_child ?a n (objs W ! ?par)] @ adopt (Suc ?a) ds ?ob # ?new,
      obj_map := register (Suc ?a) ?new (AList.update (fullname ?ob) ?a (obj_map W))\<rparr> = built_world [Decl n k ds] W"
    by (simp add: built_world_def Let_def adopt_def register_child_def new_object_def)
  finally show ?case using W1 enter(1) all by simp
next
  case (2 W)
  have "adopt (length (objs W)) [] ob = ob" for ob :: "'k crv_object" by (simp add: adopt_def)
  then show ?case by (simp add: built_world_def Let_def)
next
  case (3 d ds W)
  have "construct_all ds (built_world [d] W) = Inr (built_world ds (built_world [d] W))"
    by (rule 3(2) [OF _ refl]) (use 3 built_ok in auto)
  then show ?case using 3 built_append [of W "[d]" ds] by simp
qed

section \<open>The hierarchy\<close>

text \<open>The declaration an object in memory came from.\<close>

function hierarchy :: "'k crv_object list \<Rightarrow> nat \<Rightarrow> 'k decl" where
  "hierarchy os a = Decl (orig_name (os ! a)) (crv_kind (os ! a))
     (map (hierarchy os) (filter (\<lambda>c. a < c \<and> c < length os) (children (os ! a))))"
  by pat_completeness auto
termination by (relation "measure (\<lambda>(os, a). length os - a)") auto

declare hierarchy.simps [simp del]

lemma starts_bounds: "c \<in> set (starts a ds) \<Longrightarrow> a \<le> c \<and> c < a + decls_size ds"
proof (induction ds arbitrary: a)
  case (Cons d ds)
  have "0 < decl_size d" by (cases d) simp
  then show ?case using Cons.prems Cons.IH [of "a + decl_size d"] by auto
qed simp

lemma layout_hierarchy:
  fixes d :: "'k decl" and ds :: "'k decl list"
  shows "a = length xs \<Longrightarrow> hierarchy (xs @ layout pre p a nm d @ ys) a = d"
    and "a = length xs \<Longrightarrow> map (hierarchy (xs @ layouts pre p a lm ds @ ys)) (starts a ds) = ds"
proof (induction pre p a nm d and pre p a lm ds arbitrary: xs ys and xs ys rule: layout_layouts.induct)
  case (1 pre p a nm n k ds)
  let ?ob = "\<lparr>crv_name = nm, orig_name = n, crv_parent = Some p, children = starts (Suc a) ds, fullname = pre @ nm,
      local_name_map = fold bump (map decl_name ds) Map.empty, crv_kind = k\<rparr>"
  let ?os = "xs @ layout pre p a nm (Decl n k ds) @ ys"
  have at: "?os ! a = ?ob" using 1(2) by (simp add: nth_append)
  have "filter (\<lambda>c. a < c \<and> c < length ?os) (starts (Suc a) ds) = starts (Suc a) ds"
    by (rule filter_True) (use 1(2) in \<open>auto dest: starts_bounds\<close>)
  moreover have "map (hierarchy ((xs @ [?ob]) @ layouts (pre @ nm @ ''.'') a (Suc a) Map.empty ds @ ys)) (starts (Suc a) ds) = ds"
    by (rule 1(1)) (use 1(2) in simp)
  then have "map (hierarchy ?os) (starts (Suc a) ds) = ds" by simp
  ultimately show ?case by (subst hierarchy.simps) (simp add: at del: layout.simps)
next
  case (3 pre p a lm d ds)
  have "hierarchy (xs @ layout pre p a (local_name lm (decl_name d)) d @ (layouts pre p (a + decl_size d) (bump (decl_name d) lm) ds @ ys)) a = d"
    by (rule 3(1) [OF 3(3)])
  moreover have "map (hierarchy ((xs @ layout pre p a (local_name lm (decl_name d)) d) @ layouts pre p (a + decl_size d) (bump (decl_name d) lm) ds @ ys))
      (starts (a + decl_size d) ds) = ds"
    by (rule 3(2)) (use 3(3) in simp)
  ultimately show ?case by simp
qed simp

section \<open>Names\<close>

text \<open>
  The full names of declared objects: names of siblings are made different by the number of earlier
  siblings of the same name, which counts as \<open>unsigned\<close>.
\<close>

definition numbered_name :: "string list \<Rightarrow> string \<Rightarrow> string" where
  "numbered_name seen n = (let c = count_list seen n in if c = 0 then n else n @ to_string (c mod 2 ^ 32))"

fun full_names :: "string \<Rightarrow> string \<Rightarrow> 'k decl \<Rightarrow> string list"
  and full_names_all :: "string \<Rightarrow> string list \<Rightarrow> 'k decl list \<Rightarrow> string list" where
  "full_names pre nm (Decl n k ds) = (pre @ nm) # full_names_all (pre @ nm @ ''.'') [] ds"
| "full_names_all pre seen [] = []"
| "full_names_all pre seen (d # ds) =
     full_names pre (numbered_name seen (decl_name d)) d @ full_names_all pre (seen @ [decl_name d]) ds"

lemma fold_bump: "fold bump seen Map.empty n = (let c = count_list seen n in if c = 0 then None else Some (of_nat c))"
proof (induction seen rule: rev_induct)
  case (snoc x xs)
  then show ?case by (auto simp: bump_def Let_def count_list_append split: if_splits)
qed simp

lemma local_name_numbered: "local_name (fold bump seen Map.empty) n = numbered_name seen n"
  by (simp add: local_name_def fold_bump numbered_name_def Let_def unat_of_nat)

lemma layout_names:
  fixes d :: "'k decl" and ds :: "'k decl list"
  shows "map fullname (layout pre p a nm d) = full_names pre nm d"
    and "lm = fold bump seen Map.empty \<Longrightarrow> map fullname (layouts pre p a lm ds) = full_names_all pre seen ds"
proof (induction pre p a nm d and pre p a lm ds arbitrary: and seen rule: layout_layouts.induct)
  case (1 pre p a nm n k ds)
  then show ?case using 1(1) [of "[]"] by simp
next
  case (3 pre p a lm d ds)
  have "bump (decl_name d) lm = fold bump (seen @ [decl_name d]) Map.empty" by (simp add: 3(3))
  from 3(2) [OF this] show ?case using 3(1,3) by (simp add: local_name_numbered)
qed simp

lemma register_other: "f \<notin> fullname ` set obs \<Longrightarrow> map_of (register a obs m) f = map_of m f"
  by (induction obs arbitrary: a m) (auto simp: update_conv')

lemma register_find: "distinct (map fullname obs) \<Longrightarrow> j < length obs \<Longrightarrow> map_of (register a obs m) (fullname (obs ! j)) = Some (a + j)"
proof (induction obs arbitrary: a m j)
  case (Cons ob obs)
  show ?case
  proof (cases j)
    case 0
    then show ?thesis using Cons.prems(1) by (simp add: register_other update_conv')
  next
    case (Suc i)
    then show ?thesis using Cons.IH [of i "Suc a"] Cons.prems by simp
  qed
qed simp

lemma update_new: "k \<notin> fst ` set m \<Longrightarrow> AList.update k v m = m @ [(k, v)]"
  by (induction m) auto

lemma register_length:
  "distinct (map fullname obs) \<Longrightarrow> fst ` set m \<inter> fullname ` set obs = {} \<Longrightarrow> length (register a obs m) = length m + length obs"
proof (induction obs arbitrary: a m)
  case (Cons ob obs)
  have new: "fullname ob \<notin> fst ` set m" using Cons.prems(2) by auto
  then have "AList.update (fullname ob) a m = m @ [(fullname ob, a)]" by (rule update_new)
  then show ?case using Cons.IH [of "m @ [(fullname ob, a)]" "Suc a"] Cons.prems by auto
qed simp

section \<open>Names without clashes\<close>

text \<open>A plain name has no dot and does not end in a digit; then numbering cannot make two siblings equal.\<close>

definition is_digit :: "char \<Rightarrow> bool" where
  "is_digit c \<longleftrightarrow> of_char c \<in> {48..57 :: nat}"

definition plain_name :: "string \<Rightarrow> bool" where
  "plain_name n \<longleftrightarrow> CHR ''.'' \<notin> set n \<and> (n = [] \<or> \<not> is_digit (last n))"

fun plain_decl :: "'k decl \<Rightarrow> bool" and plain_decls :: "'k decl list \<Rightarrow> bool" where
  "plain_decl (Decl n k ds) \<longleftrightarrow> plain_name n \<and> length ds < 2 ^ 32 \<and> plain_decls ds"
| "plain_decls [] \<longleftrightarrow> True"
| "plain_decls (d # ds) \<longleftrightarrow> plain_decl d \<and> plain_decls ds"

lemma plain_decls_all: "plain_decls ds \<longleftrightarrow> (\<forall>d\<in>set ds. plain_decl d)"
  by (induction ds) simp_all

lemma digit_char: "k < 10 \<Longrightarrow> is_digit (char_of (48 + k :: nat))" "k < 10 \<Longrightarrow> of_char (char_of (48 + k :: nat)) = 48 + k"
  by (simp_all add: is_digit_def)

lemma to_string_digits: "\<forall>c\<in>set (to_string n). is_digit c" and to_string_nonempty: "to_string n \<noteq> []"
proof -
  show "\<forall>c\<in>set (to_string n). is_digit c"
  proof (induction n rule: to_string.induct)
    case (1 n)
    then show ?case by (subst to_string.simps) (auto simp: digit_char)
  qed
  show "to_string n \<noteq> []" by (subst to_string.simps) simp
qed

fun digits_val :: "string \<Rightarrow> nat" where
  "digits_val [] = 0"
| "digits_val (c # cs) = (of_char c - 48) + 10 * digits_val cs"

lemma to_string_val: "digits_val (rev (to_string n)) = n"
proof (induction n rule: to_string.induct)
  case (1 n)
  have mod: "of_char (char_of (48 + n mod 10) :: char) - 48 = n mod 10" using digit_char(2) [of "n mod 10"] by simp
  show ?case
  proof (cases "n < 10")
    case True
    then show ?thesis using mod by (subst to_string.simps) simp
  next
    case False
    then show ?thesis using 1 mod by (subst to_string.simps) simp
  qed
qed

lemma to_string_inj: "to_string m = to_string n \<Longrightarrow> m = n"
  using to_string_val by metis

text \<open>Digits at the end can be told from a name that does not end in one.\<close>

lemma suffix_digits:
  assumes "n @ ds = n' @ ds'" and "\<forall>c\<in>set ds. is_digit c" and "\<forall>c\<in>set ds'. is_digit c"
    and "n = [] \<or> \<not> is_digit (last n)" and "n' = [] \<or> \<not> is_digit (last n')"
  shows "n = n' \<and> ds = ds'"
proof -
  have digits: "takeWhile is_digit (rev (n @ ds)) = rev ds" if "\<forall>c\<in>set ds. is_digit c" "n = [] \<or> \<not> is_digit (last n)" for n ds
  proof (cases n rule: rev_cases)
    case Nil
    then show ?thesis using that(1) by (simp add: takeWhile_eq_all_conv)
  next
    case (snoc m c)
    then have "takeWhile is_digit (rev ds @ c # rev m) = rev ds @ takeWhile is_digit (c # rev m)"
      by (intro takeWhile_append2) (use that(1) in simp)
    then show ?thesis using that(2) snoc by simp
  qed
  have "rev ds = rev ds'" using digits [OF assms(2,4)] digits [OF assms(3,5)] unfolding assms(1) by simp
  then show ?thesis using assms(1) by simp
qed

lemma numbered_eq:
  assumes "plain_name n" and "plain_name n'" and "numbered_name seen n = numbered_name seen' n'"
  shows "n = n'"
proof -
  have form: "\<exists>ds. numbered_name s m = m @ ds \<and> (\<forall>c\<in>set ds. is_digit c)" for s m
    using to_string_digits by (auto simp: numbered_name_def Let_def)
  obtain ds ds' where ds: "numbered_name seen n = n @ ds" "\<forall>c\<in>set ds. is_digit c"
    and ds': "numbered_name seen' n' = n' @ ds'" "\<forall>c\<in>set ds'. is_digit c"
    using form [of seen n] form [of seen' n'] by blast
  have "n @ ds = n' @ ds'" using assms(3) unfolding ds(1) ds'(1) .
  from suffix_digits [OF this ds(2) ds'(2)] show ?thesis using assms(1,2) unfolding plain_name_def by blast
qed

lemma numbered_count:
  assumes "numbered_name seen n = numbered_name seen' n" and "count_list seen n < 2 ^ 32" and "count_list seen' n < 2 ^ 32"
  shows "count_list seen n = count_list seen' n"
proof -
  let ?a = "count_list seen n" and ?b = "count_list seen' n"
  have form: "numbered_name s n = n @ (if count_list s n = 0 then [] else to_string (count_list s n mod 2 ^ 32))" for s
    by (simp add: numbered_name_def Let_def)
  have mod: "?a mod 2 ^ 32 = ?a" "?b mod 2 ^ 32 = ?b" using assms(2,3) by simp_all
  have "(if ?a = 0 then [] else to_string ?a) = (if ?b = 0 then [] else to_string ?b)"
    using assms(1) unfolding form mod by simp
  then show ?thesis using to_string_inj [of ?a ?b] to_string_nonempty [of ?a] to_string_nonempty [of ?b] by (simp split: if_splits)
qed

lemma count_less: "count_list xs n \<le> length xs"
  by (induction xs) auto

lemma numbered_no_dot: "plain_name n \<Longrightarrow> CHR ''.'' \<notin> set (numbered_name seen n)"
  using to_string_digits [of "count_list seen n mod 2 ^ 32"]
  by (auto simp: numbered_name_def Let_def plain_name_def is_digit_def)

text \<open>Every name below an object starts with its full name, and then ends or goes on with a dot.\<close>

definition under :: "string \<Rightarrow> string \<Rightarrow> bool" where
  "under f x \<longleftrightarrow> (\<exists>r. x = f @ r \<and> (r = [] \<or> hd r = CHR ''.''))"

lemma full_names_under:
  fixes d :: "'k decl" and ds :: "'k decl list"
  shows "x \<in> set (full_names pre nm d) \<Longrightarrow> under (pre @ nm) x"
    and "x \<in> set (full_names_all pre seen ds) \<Longrightarrow> \<exists>ds1 d ds2. ds = ds1 @ d # ds2 \<and>
      x \<in> set (full_names pre (numbered_name (seen @ map decl_name ds1) (decl_name d)) d) \<and>
      under (pre @ numbered_name (seen @ map decl_name ds1) (decl_name d)) x"
proof (induction pre nm d and pre seen ds rule: full_names_full_names_all.induct)
  case (1 pre nm n k ds)
  show ?case
  proof (cases "x = pre @ nm")
    case True
    then show ?thesis by (auto simp: under_def)
  next
    case False
    then obtain m where "under ((pre @ nm @ ''.'') @ m) x" using 1 by fastforce
    then show ?thesis by (auto simp: under_def)
  qed
next
  case (3 pre seen d ds)
  then consider "x \<in> set (full_names pre (numbered_name seen (decl_name d)) d)" | "x \<in> set (full_names_all pre (seen @ [decl_name d]) ds)"
    by auto
  then show ?case
  proof cases
    case 1
    then show ?thesis using 3(1) [OF 1] by (intro exI [of _ "[]"] exI [of _ d] exI [of _ ds]) simp
  next
    case 2
    then obtain ds1 d' ds2 where "ds = ds1 @ d' # ds2"
      "x \<in> set (full_names pre (numbered_name ((seen @ [decl_name d]) @ map decl_name ds1) (decl_name d')) d')"
      "under (pre @ numbered_name ((seen @ [decl_name d]) @ map decl_name ds1) (decl_name d')) x"
      using 3(2) by blast
    then show ?thesis by (intro exI [of _ "d # ds1"] exI [of _ d'] exI [of _ ds2]) simp
  qed
qed simp

lemma under_same:
  assumes "under (pre @ n) x" and "under (pre @ n') x" and "CHR ''.'' \<notin> set n" and "CHR ''.'' \<notin> set n'"
  shows "n = n'"
proof -
  obtain r where r1: "x = pre @ n @ r" "r = [] \<or> hd r = CHR ''.''" using assms(1) by (auto simp: under_def)
  obtain r' where r2: "x = pre @ n' @ r'" "r' = [] \<or> hd r' = CHR ''.''" using assms(2) by (auto simp: under_def)
  have first: "takeWhile (\<lambda>c. c \<noteq> CHR ''.'') (m @ s) = m" if "CHR ''.'' \<notin> set m" "s = [] \<or> hd s = CHR ''.''" for m s
    using that by (cases s) (auto simp: takeWhile_append takeWhile_eq_all_conv)
  have "n @ r = n' @ r'" using r1(1) r2(1) by simp
  then show ?thesis using first [OF assms(3) r1(2)] first [OF assms(4) r2(2)] by simp
qed

lemma full_names_distinct:
  fixes d :: "'k decl" and ds :: "'k decl list"
  shows "plain_decl d \<Longrightarrow> distinct (full_names pre nm d)"
    and "plain_decls ds \<Longrightarrow> length seen + length ds < 2 ^ 32 \<Longrightarrow> distinct (full_names_all pre seen ds)"
proof (induction pre nm d and pre seen ds rule: full_names_full_names_all.induct)
  case (1 pre nm n k ds)
  have "pre @ nm \<notin> set (full_names_all (pre @ nm @ ''.'') [] ds)"
  proof
    assume "pre @ nm \<in> set (full_names_all (pre @ nm @ ''.'') [] ds)"
    then obtain m where "under ((pre @ nm @ ''.'') @ m) (pre @ nm)" using full_names_under(2) by blast
    then show False by (auto simp: under_def)
  qed
  then show ?case using 1 by simp
next
  case (3 pre seen d ds)
  have False if x: "x \<in> set (full_names pre (numbered_name seen (decl_name d)) d)" "x \<in> set (full_names_all pre (seen @ [decl_name d]) ds)" for x
  proof -
    obtain ds1 d' ds2 where d': "ds = ds1 @ d' # ds2" "under (pre @ numbered_name (seen @ decl_name d # map decl_name ds1) (decl_name d')) x"
      using full_names_under(2) [OF x(2)] by auto
    have p: "plain_name (decl_name d)" "plain_name (decl_name d')"
      using 3(3) d'(1) by (cases d; cases d'; auto simp: plain_decls_all)+
    have eq: "numbered_name seen (decl_name d) = numbered_name (seen @ decl_name d # map decl_name ds1) (decl_name d')"
      using under_same [OF full_names_under(1) [OF x(1)] d'(2)] numbered_no_dot p by blast
    have same: "decl_name d' = decl_name d" using numbered_eq [OF p eq] by simp
    have "count_list seen (decl_name d) = count_list (seen @ decl_name d # map decl_name ds1) (decl_name d)"
      by (rule numbered_count [OF eq [unfolded same]])
        (use count_less [of seen "decl_name d"] count_less [of "seen @ decl_name d # map decl_name ds1" "decl_name d"] 3(4) d'(1) in auto)
    then show False by (simp add: count_list_append)
  qed
  then show ?case using 3 by auto
qed simp

section \<open>The objects of a program\<close>

text \<open>Declared objects: constructing any list of declared classes with their members fails no assertion
  and leaves both stacks empty; the hierarchy in memory is the declared one, in the order of declaration;
  with plain names, the full names are the paths of numbered names, no two objects have the same one,
  every object is found by its full name, and the number of objects is the number of declarations.\<close>

theorem objects_follow_declarations:
  assumes plain: "plain_decls ds" and len: "length ds < 2 ^ 32"
  shows "\<exists>W. construct_all ds (new_world k) = Inr W \<and> name_stack W = [] \<and> obj_stack W = [] \<and>
    map (hierarchy (objs W)) (children (objs W ! 0)) = ds \<and>
    map fullname (tl (objs W)) = full_names_all [] [] ds \<and> distinct (full_names_all [] [] ds) \<and>
    (\<forall>i. 0 < i \<and> i < length (objs W) \<longrightarrow> find_object (fullname (objs W ! i)) W = Some i) \<and>
    object_count W = decls_size ds"
proof -
  let ?W = "new_world k" and ?L = "layouts [] 0 1 Map.empty ds"
  have ok: "world_ok ?W" by (simp add: world_ok_def new_world_def)
  have par: "current_parent ?W = 0" "name_prefix ?W = []" "length (objs ?W) = 1" "local_name_map (objs ?W ! 0) = Map.empty" "obj_map ?W = []"
    by (simp_all add: new_world_def current_parent_def name_prefix_def)
  define V where "V = built_world ds ?W"
  have run: "construct_all ds ?W = Inr V" unfolding V_def by (rule construct_built(2) [OF ok])
  have objs: "objs V = adopt 1 ds (objs ?W ! 0) # ?L" and map: "obj_map V = register 1 ?L []"
    unfolding V_def built_world_def Let_def par by (simp_all add: new_world_def)
  have stacks: "name_stack V = []" "obj_stack V = []" unfolding V_def built_fields by (simp_all add: new_world_def)
  have "Map.empty = fold bump [] Map.empty" by simp
  then have names: "map fullname ?L = full_names_all [] [] ds" by (rule layout_names(2))
  have dist: "distinct (map fullname ?L)" unfolding names using full_names_distinct(2) [OF plain] len by simp
  have "map (hierarchy ([adopt 1 ds (objs ?W ! 0)] @ ?L @ [])) (starts 1 ds) = ds" by (rule layout_hierarchy(2)) simp
  then have "map (hierarchy (objs V)) (children (objs V ! 0)) = ds" by (simp add: objs adopt_def new_world_def)
  moreover have "find_object (fullname (objs V ! i)) V = Some i" if i: "0 < i" "i < length (objs V)" for i
    using register_find [OF dist, of "i - 1" 1 "[]"] i by (cases i) (simp_all add: find_object_def map objs)
  moreover have "object_count V = decls_size ds" using register_length [OF dist, of "[]" 1] by (simp add: object_count_def map)
  moreover have "map fullname (tl (objs V)) = full_names_all [] [] ds" by (simp only: objs list.sel names)
  moreover have "distinct (full_names_all [] [] ds)" using dist unfolding names .
  ultimately show ?thesis using run stacks by blast
qed

lemma char_one: "char_of (49 :: nat) = CHR ''1''"
  by code_simp

definition demo_decls :: "unit decl list" where
  "demo_decls = [Decl ''item'' () [Decl ''x'' () [], Decl ''x'' () []], Decl ''item'' () [Decl ''x'' () []]]"

theorem objects_follow_declarations_witness:
  "\<exists>W. construct_all demo_decls (new_world ()) = Inr W \<and>
     map fullname (tl (objs W)) = [''item'', ''item.x'', ''item.x1'', ''item1'', ''item1.x''] \<and>
     find_object ''item.x1'' W = Some 3"
proof -
  have plain: "plain_decls demo_decls" by (simp add: demo_decls_def plain_name_def is_digit_def)
  have few: "length demo_decls < 2 ^ 32" by (simp add: demo_decls_def)
  have names: "full_names_all [] [] demo_decls = [''item'', ''item.x'', ''item.x1'', ''item1'', ''item1.x'']"
    by (simp add: demo_decls_def numbered_name_def to_string.simps char_one)
  obtain W where W: "construct_all demo_decls (new_world ()) = Inr W"
    "map fullname (tl (objs W)) = [''item'', ''item.x'', ''item.x1'', ''item1'', ''item1.x'']"
    "\<forall>i. 0 < i \<and> i < length (objs W) \<longrightarrow> find_object (fullname (objs W ! i)) W = Some i"
    using objects_follow_declarations [OF plain few, of "()"] unfolding names by (elim exE conjE) (rule that)
  have "length (map fullname (tl (objs W))) = 5" unfolding W(2) by simp
  then have len: "length (objs W) = 6" by simp
  then have "fullname (objs W ! 3) = map fullname (tl (objs W)) ! 2" by (simp add: nth_tl)
  then have name: "fullname (objs W ! 3) = ''item.x1''" unfolding W(2) by simp
  have "find_object (fullname (objs W ! 3)) W = Some 3" using W(3) len by simp
  then have "find_object ''item.x1'' W = Some 3" unfolding name .
  then show ?thesis by (intro exI [of _ W] conjI W(1,2))
qed

section \<open>Destruction\<close>

text \<open>
  The last object of a parent leaves no trace when it is destroyed: counters of names are back, and nothing
  is found that was not found before. An earlier one is not so lucky: the counter goes down although the
  names above it are in use, and \<open>remove_child\<close> erases the name of the child and not the one it counted.
\<close>

lemma remove_added_child:
  assumes "orig_name child = n" and "crv_name child = local_name (local_name_map ob) n" and "a \<notin> set (children ob)"
    and "local_name_map ob n \<noteq> Some 0" and "local_name_map ob n \<noteq> Some (- 1)"
  shows "remove_child a child (register_child a n ob) = ob"
proof (cases "local_name_map ob n")
  case None
  then have "(local_name_map ob)(n := None) = local_name_map ob" by (rule fun_upd_idem)
  then show ?thesis using assms None
    by (cases ob) (simp add: remove_child_def register_child_def bump_def local_name_def Let_def)
next
  case (Some c)
  then have "(local_name_map ob)(n \<mapsto> c) = local_name_map ob" by (rule fun_upd_idem)
  then show ?thesis using assms Some
    by (cases ob) (simp add: remove_child_def register_child_def bump_def local_name_def Let_def)
qed

lemma delete_update_new: "k \<notin> fst ` set m \<Longrightarrow> AList.delete k (AList.update k v m) = m"
  by (simp add: delete_update_same)

lemma last_object_destroyed:
  assumes ok: "world_ok W" and run: "construct (Decl n k []) W = Inr (a, V)"
    and new: "fullname (new_object n k W) \<notin> fst ` set (obj_map W)"
    and par: "a \<notin> set (children (objs W ! current_parent W))" "local_name_map (objs W ! current_parent W) n \<noteq> Some 0"
      "local_name_map (objs W ! current_parent W) n \<noteq> Some (- 1)"
  shows "obj_map (delete_object a V) = obj_map W" and "take (length (objs W)) (objs (delete_object a V)) = objs W"
proof -
  let ?p = "current_parent W"
  have p: "?p < length (objs W)" by (rule current_parent_less [OF ok])
  have a: "a = length (objs W)" and V: "V = built_world [Decl n k []] W" using construct_built(1) [OF ok, of "Decl n k []"] run by simp_all
  let ?ob = "new_object n k W"
  have objs: "objs V = (objs W)[?p := register_child a n (objs W ! ?p)] @ [?ob]" and map: "obj_map V = AList.update (fullname ?ob) a (obj_map W)"
    by (simp_all add: V a built_world_def Let_def adopt_def register_child_def new_object_def)
  have ob: "objs V ! a = ?ob" by (simp add: objs a nth_append)
  have "remove_child a ?ob (register_child a n (objs W ! ?p)) = objs W ! ?p"
    by (rule remove_added_child) (use par in \<open>simp_all add: new_object_def Let_def\<close>)
  moreover have "crv_parent ?ob = Some ?p" by (simp add: new_object_def Let_def)
  moreover have "objs V ! ?p = register_child a n (objs W ! ?p)" using p by (simp add: objs nth_append)
  ultimately have "delete_object a V = V\<lparr>objs := (objs V)[?p := objs W ! ?p, a := ?ob\<lparr>crv_parent := None\<rparr>],
      obj_map := AList.delete (fullname ?ob) (obj_map V)\<rparr>"
    unfolding delete_object_def ob Let_def by simp
  then show "obj_map (delete_object a V) = obj_map W" "take (length (objs W)) (objs (delete_object a V)) = objs W"
    using p by (simp_all add: map delete_update_new [OF new] objs list_update_append) (simp add: a)
qed

text \<open>Two siblings of one name, the first of which is destroyed first: the name stays, counted 0 times.\<close>

lemma first_object_destroyed_first:
  assumes "construct_all [Decl ''x'' () [], Decl ''x'' () []] (new_world ()) = Inr W"
  shows "local_name_map (objs (delete_object 2 (delete_object 1 W)) ! 0) ''x'' = Some 0"
proof -
  have "world_ok (new_world ())" by (simp add: world_ok_def new_world_def)
  then have "W = built_world [Decl ''x'' () [], Decl ''x'' () []] (new_world ())" using construct_built(2) [of "new_world ()"] assms by simp
  then show ?thesis
    by (simp add: built_world_def Let_def new_world_def current_parent_def name_prefix_def adopt_def bump_def local_name_def
        delete_object_def remove_child_def to_string_nonempty to_string_nonempty [symmetric])
qed

end
