(* ===== verification/Spec2Isabelle.thy ===== *)
theory Spec2Isabelle
  imports GeneratorCorrect RandObjCorrect FrontendCorrect TransitionsCorrect RuleCorrect
    WidthMeaning CrvObject
begin

text \<open>
  A model of CRAVE, the constrained random generation library under \<open>src/crave\<close>, and of the part of metaSMT
  it needs to solve constraints, with proofs that they are correct.

  \<^bold>\<open>The program.\<close> A user writes constraints as C++ expressions over random variables. The front end
  (\<open>ir/Context.hpp\<close>) turns each expression into a tree of nodes (\<open>ir/Node.hpp\<close>) and registers variables
  and references to the memory of the program in a container. A constraint gets widths (\<open>FixWidthVisitor\<close>),
  the set of its variables (\<open>GetSupportSetVisitor\<close>) and an estimate of its cost
  (\<open>ComplexityEstimationVisitor\<close>), and is kept by the manager of a \<open>Generator\<close>. When values are asked for
  and something changed, the generator splits the enabled constraints into partitions without common
  variables, gives each partition a solver, and solves the partitions one after the other; a coverage
  generator does the same to hit cover constraints, and a vector generator instantiates the constraints on
  vectors once the sizes are known. A solver is a \<open>metaSMTVisitor\<close>: it translates nodes to bit vectors
  (\<open>metaSMTNodeVisitorImpl.hpp\<close>), the bit blaster (\<open>metaSMT/BitBlast.hpp\<close>) translates these to Booleans, and
  the clause generator (\<open>metaSMT/backend/SAT_Clause.hpp\<close>) translates Booleans to clauses for a SAT solver. When
  there is no solution, cardinality constraints (\<open>metaSMT/support/cardinality\<close>) drive the search for the
  contradicting sets (\<open>support/contradiction_analysis.hpp\<close>). Values come back through result wrappers and
  assignments to references. Random objects own variables, other objects and a generator, and an object is
  solved together with all objects below it. On top, functional coverage counts what was generated, and rule graphs run
  actions along the paths of a grammar.

  \<^bold>\<open>How the code is modelled.\<close> A class is a record, an operation a function from the old state to the new one,
  a tree of nodes a datatype; what several owners share and mutate lives in a store or heap indexed by
  numbers (the states of transition automata, the nodes of rule graphs, the memory of the program). A thrown
  exception, a failed assertion, a bad cast and undefined behaviour are the values \<open>crave_error\<close> of
  \<open>Crave_Prelude\<close>, and an operation that can end this way returns a \<open>result\<close>. Machine integers are words, or
  integers with the wrap-around written out; identifiers, counters of new variables and widths of nodes are
  natural numbers. Failed assertions end the program, as in a build with assertions.

  \<^bold>\<open>Expressions.\<close>
  \<^item> \<open>Node\<close>: constants, nodes and variables of \<open>ir/Node.hpp\<close>.
  \<^item> \<open>Eval\<close>: the stack machine \<open>EvalVisitor\<close> and \<open>Evaluator\<close>, an interpreter under a partial assignment. The
    reference \<open>den\<close> gives expressions their value over the integers, with operators of its own;
    \<open>evaluate_sound\<close> (without conditionals) and \<open>evaluate_complete\<close> (without bit slices) say that the machine
    agrees with it. The address a \<open>static_cast\<close> to the wrong class would yield
    is the parameter \<open>rawid\<close>.
  \<^item> \<open>FixWidth\<close>: expressions without conditionals are made well sized. \<open>WidthMeaning\<close>: the result of the pass has,
    for the solver, the meaning of the expression as written, with operands read at their own widths.
  \<^item> \<open>Support\<close>: the support set decides the value; the estimate of the cost is exact or an assertion fails.
  \<^item> \<open>Frontend\<close>, \<open>FrontendCorrect\<close>: the expression templates as a datatype and their evaluation by \<open>Context\<close>,
    with the order of evaluation of operands, which C++ leaves open, as a parameter. Whatever is written,
    the container stays consistent and well sorted; \<open>inside\<close> and \<open>dist\<close> mean what they say.
  \<^item> \<open>Replace\<close>: \<open>ReplaceVisitor\<close> with both of its stacks computes a substitution, for subscripts made of
    the number of the element and constants; the meaning of subscripts is defined over the integers.

  \<^bold>\<open>Constraints.\<close>
  \<^item> \<open>Constraints\<close>: \<open>UserConstraint\<close> and \<open>ConstraintManager\<close>; the map of names and the list of constraints
    agree after every sequence of operations; what enabling and disabling do.
  \<^item> \<open>Partition\<close>: \<open>ConstraintPartition\<close> and \<open>ConstraintPartitioner\<close>; the partitions are the connected
    components of the constraints and solutions of the partitions combine.

  \<^bold>\<open>From constraints to clauses.\<close>
  \<^item> \<open>PredSolver\<close>: the interface below the bit blaster (\<open>tags/Logic.hpp\<close>), a record of functions, and the locale
    \<open>predicate_solver\<close> with the contract: every operation extends the solver's models conservatively.
  \<^item> \<open>BitBlast\<close>, \<open>BitArith\<close>: the operations of \<open>BitBlast.hpp\<close>; \<open>BitCorrect\<close>, \<open>BitDivision\<close>: their meaning over
    any solver that keeps the contract (the restoring division first over values, then over literals).
  \<^item> \<open>SatClause\<close>: the clause generator and the interpretation of the contract by it; \<open>BitSat\<close> states the
    results of all operations for the clauses that are sent.
  \<^item> \<open>Meta\<close>, \<open>MetaSem\<close>, \<open>MetaCorrect\<close>, \<open>MetaTranslate\<close>: the visitor, a reference semantics of constraints over
    integers, and that the translation has that meaning in every model.
  \<^item> \<open>MetaSolve\<close>, \<open>MetaSat\<close>: \<open>solve\<close> and the treatment of soft constraints; a solution is found exactly when
    there is one, soft constraints are added greedily.
  \<^item> \<open>CardConstraints\<close>, \<open>CardCorrect\<close>: both encodings of cardinality constraints. \<open>Conflicts\<close>,
    \<open>ConflictCorrect\<close>, \<open>ConflictVisitor\<close>, \<open>ConflictSat\<close>: the analysis of contradictions reports minimal sets.
  \<^item> \<open>Results\<close>: wrappers of results and reading values back. \<open>Visitor\<close>, \<open>VisitorSat\<close>: the interface of a solver
    as a record, the locale \<open>solver_visitor\<close> with its contract, and its interpretation by the visitor over the
    bit blaster over the clause generator.

  \<^bold>\<open>Generators.\<close>
  \<^item> \<open>Distribution\<close>: weighted ranges and the value drawn from them. \<open>References\<close>: references to memory and the
    container of variables.
  \<^item> \<open>VarSolver\<close>, \<open>VarSolverCorrect\<close>, \<open>CoverageCorrect\<close>: the solvers of one partition over any solver that keeps
    the contract (locale \<open>good_factory\<close>).
  \<^item> \<open>Vectors\<close>, \<open>VectorsCorrect\<close>: \<open>VectorSolver\<close> and \<open>VectorGenerator\<close>; the values of a vector satisfy the
    instances of its constraints, when every element occurs in one of them.
  \<^item> \<open>Generator\<close>, \<open>GeneratorCorrect\<close>: \<open>Generator\<close> with all of its parts. \<open>gen_step\<close> is the step relation of a
    program that uses it with well-sorted scalar constraints; in every reachable state \<open>next\<close> returns, succeeds
    when it can, and leaves values that satisfy all enabled hard constraints. Constraints on vectors, divisions
    of operands of different signs, \<open>merge\<close> and \<open>addVecId\<close> are outside this relation; vectors are covered by
    \<open>VectorsCorrect\<close> and \<open>merge\<close> by the random objects.
  \<^item> \<open>RandObj\<close>, \<open>RandObjCorrect\<close>: \<open>rand_obj\<close> of \<open>ConstrainedRandom.cpp\<close> as a list of objects that refer to each
    other by position, and \<open>rand_obj_gen\<close>. \<open>obj_step\<close> is the step relation of a program over a tree of
    objects without vectors, which may add constraints at any time; in every reachable state \<open>next\<close> of an object
    returns, and if the object is fresh (\<open>obj_fresh\<close>) it satisfies the constraints of everything below the
    object. Objects stay fresh unless constraints are added below them after they were solved.

  \<^bold>\<open>Coverage and rules.\<close>
  \<^item> \<open>CoverageBins\<close>, \<open>Transitions\<close>, \<open>TransitionsCorrect\<close>: bins, coverpoints and covergroups of
    \<open>experimental/CoverageBins.hpp\<close> and \<open>CoverageConstructs.hpp\<close>; a transition bin counts the samples at which
    a match of the language of its transition ends (locale \<open>sampler\<close>).
  \<^item> \<open>RuleGraph\<close>: \<open>experimental/graph\<close> and \<open>ConstrainedRandomGraph.cpp\<close>: rule expressions, the heap of graph
    nodes, \<open>UpdateVisitor\<close>, \<open>Executor\<close>. \<open>RuleUpdate\<close>: flattening the graph in place keeps its meaning and finds
    exactly the loops; \<open>RuleExec\<close>: \<open>dfs\<close> runs exactly the words of the root; \<open>RuleCorrect\<close>: together, a
    program over a rule context does what the grammar says.

  \<^bold>\<open>Experimental objects.\<close>
  \<^item> \<open>CrvObject\<close>: \<open>experimental/Object.hpp\<close> and \<open>Object.cpp\<close>: objects find their parents through two global stacks
    while user classes are constructed; the hierarchy in memory is the declared one and names are unique.

  \<^bold>\<open>Termination and fuel.\<close> Loops over data are structural recursion or functions with a termination proof.
  The loops of the partitioner, of \<open>solve\<close> and of the analysis of contradictions are functions with a measure on
  what is left to do; the two visitors of rule graphs recurse along pointers and get fuel, and the theorem says that
  from some amount on more fuel changes nothing. \<open>dfs\<close> and the repetition of a path may run forever if a
  user's random object is never covered; they are partial functions, and the theorem relates them to a
  specification that has a value exactly when they return.

  \<^bold>\<open>Parameters.\<close> The decision procedure of the SAT solver (any function that finds a model if there is one),
  BDD packages (anything that keeps the contract of \<open>solver_visitor\<close>), sources of random bits and numbers,
  the memory of the program, the actions of rules and the random objects behind them.

  \<^bold>\<open>Not modelled.\<close> The bindings of third-party solvers (\<open>metaSMT/backend\<close> except \<open>SAT_Clause.hpp\<close>) and their
  instances (\<open>metaSMTNodeVisitor.cpp\<close>): each function forwards to a library that is not in the repository. The
  Boost.Proto front end of metaSMT and its \<open>DirectSolver_Context\<close>: they dispatch at compile time to the
  operations that are modelled. \<open>VariableGeneratorMT\<close>, which solves partitions in threads that share the
  random generator: the interleaving is outside the model. Reference counts of nodes. Settings, logging,
  seeds from the clock, SystemC types, the output of graphs and reports: they read or write the outside
  world only. The classes of the experimental interface on top of \<open>crv_object\<close> (variables, constraints and
  sequence items around a \<open>Generator\<close>), and the arithmetic operators of random variables. Vendored headers, examples and tests.
\<close>

end
